(* ===== verification/Wind_Prelude.thy ===== *)
theory Wind_Prelude
  imports Main "HOL-Library.Word"
begin

section \<open>Shared types, little-endian numbers and list lemmas\<close>

text \<open>
  The names of the machine types the engine's network and tool code uses, the two functions that
  relate a number to its little-endian bytes, and the generic facts on lists and maps that the
  component theories share. A collection \<open>wire\<close> gathers the equations that evaluate an encoder or
  a decoder on a reader that stands in front of the bytes in question.
\<close>

named_theorems wire \<open>equations of encoders and decoders on a positioned reader\<close>

type_synonym u8 = "8 word"
type_synonym u16 = "16 word"
type_synonym u32 = "32 word"
type_synonym u64 = "64 word"
type_synonym bytes = "u8 list"

subsection \<open>Little-endian numbers\<close>

text \<open>The \<open>n\<close> low bytes of a number, lowest first, and the number a byte string stands for.\<close>

primrec le_bytes :: "nat \<Rightarrow> nat \<Rightarrow> bytes" where
  "le_bytes 0 x = []"
| "le_bytes (Suc n) x = of_nat x # le_bytes n (x div 256)"

primrec le_value :: "bytes \<Rightarrow> nat" where
  "le_value [] = 0"
| "le_value (b # bs) = unat b + 256 * le_value bs"

lemma length_le_bytes [simp]: "length (le_bytes n x) = n"
  by (induction n arbitrary: x) auto

lemma unat_byte_of_nat: "unat (of_nat x :: u8) = x mod 256"
  by (simp add: unat_of_nat)

lemma le_value_le_bytes: "le_value (le_bytes n x) = x mod 256 ^ n"
proof (induction n arbitrary: x)
  case 0
  then show ?case by simp
next
  case (Suc n)
  have "x mod (256 * 256 ^ n) = 256 * (x div 256 mod 256 ^ n) + x mod 256"
    by (rule mod_mult2_eq)
  with Suc show ?case by (simp add: unat_byte_of_nat)
qed

lemma le_value_less: "le_value bs < 256 ^ length bs"
proof (induction bs)
  case Nil
  then show ?case by simp
next
  case (Cons b bs)
  have "unat b < 256" using unsigned_less [of b] by simp
  with Cons show ?case by simp
qed

lemma le_bytes_le_value: "le_bytes (length bs) (le_value bs) = bs"
proof (induction bs)
  case Nil
  then show ?case by simp
next
  case (Cons b bs)
  have b: "unat b < 256" using unsigned_less [of b] by simp
  have "(of_nat (unat b + 256 * le_value bs) :: u8) = of_nat (unat b)"
    using b by (simp add: word_unat_eq_iff unat_of_nat del: of_nat_add of_nat_mult)
  with Cons b show ?case by simp
qed

subsection \<open>Lists\<close>

lemma take_length_append [simp]: "length xs = n \<Longrightarrow> take n (xs @ ys) = xs"
  by simp

lemma map_of_filter_key:
  "map_of (filter (\<lambda>(k, v). P k) xs) k = (if P k then map_of xs k else None)"
  by (induction xs) auto

text \<open>The first element that satisfies a predicate, as \<open>std::find_if\<close> returns it.\<close>

fun find_first :: "('a \<Rightarrow> bool) \<Rightarrow> 'a list \<Rightarrow> 'a option" where
  "find_first P [] = None"
| "find_first P (x # xs) = (if P x then Some x else find_first P xs)"

lemma find_first_map: "find_first P (map f xs) = map_option f (find_first (P \<circ> f) xs)"
  by (induction xs) auto

lemma find_first_Some: "find_first P xs = Some x \<Longrightarrow> x \<in> set xs \<and> P x"
  by (induction xs) (auto split: if_splits)

lemma find_first_None: "find_first P xs = None \<longleftrightarrow> (\<forall>x \<in> set xs. \<not> P x)"
  by (induction xs) auto

subsection \<open>Words\<close>

lemma word_less_suc: "(x :: 'a :: len word) + 1 \<noteq> 0 \<Longrightarrow> x < x + 1"
  by (metis add.commute lessI unatSuc word_less_nat_alt)

lemma unat_succ: "unat (x :: 'a :: len word) < 2 ^ LENGTH('a) - 1 \<Longrightarrow> unat (x + 1) = Suc (unat x)"
  using unat_add_lem [of x 1] by (simp add: less_diff_conv)

subsection \<open>Limits\<close>

text \<open>No entity of a hierarchy is deeper than this below its root, nor does a walk up it go further.\<close>

definition kMaxHierarchyDepth :: nat where
  "kMaxHierarchyDepth = 32"

end
