(* ===== verification/Byte_Stream.thy ===== *)
theory Byte_Stream
  imports Wind_Prelude
begin

section \<open>ByteWriter and ByteReader\<close>

text \<open>
  \<^verbatim>\<open>include/engine/net/byte_stream.h\<close> and \<^verbatim>\<open>src/net/byte_stream.cpp\<close>. A writer is the
  buffer it appends to. A reader is the span it reads, an offset and a flag that a failed read
  clears; a read returns \<open>None\<close> where the code returns \<open>std::nullopt\<close>. A \<open>float\<close> or a \<open>double\<close>
  is its bit pattern, as \<open>std::bit_cast\<close> makes it, and a signed integer is an \<open>int\<close> that is
  converted to its two's complement word. \<open>std::size_t\<close> is \<open>nat\<close> here. The sums a reader forms are
  of an offset inside a buffer and the count it reads; \<open>read_string_w\<close> and \<open>read_bytes_w\<close> form them in
  a \<open>std::size_t\<close> of \<open>w\<close> bits, where they may wrap, and are \<open>read_string\<close> and \<open>read_bytes\<close> where they
  cannot: with 64 bits for every string, and for every count below the room that a buffer leaves.
\<close>

subsection \<open>The writer\<close>

record byte_writer =
  buffer :: bytes

definition new_writer :: byte_writer where
  "new_writer = \<lparr>buffer = []\<rparr>"

definition write_raw_le :: "nat \<Rightarrow> nat \<Rightarrow> byte_writer \<Rightarrow> byte_writer" where
  "write_raw_le n x w = w\<lparr>buffer := buffer w @ le_bytes n x\<rparr>"

definition write_u8 :: "u8 \<Rightarrow> byte_writer \<Rightarrow> byte_writer" where
  "write_u8 v w = w\<lparr>buffer := buffer w @ [v]\<rparr>"

definition write_i8 :: "int \<Rightarrow> byte_writer \<Rightarrow> byte_writer" where
  "write_i8 v w = w\<lparr>buffer := buffer w @ [word_of_int v]\<rparr>"

definition write_u16 :: "u16 \<Rightarrow> byte_writer \<Rightarrow> byte_writer" where
  "write_u16 v = write_raw_le 2 (unat v)"

definition write_i16 :: "int \<Rightarrow> byte_writer \<Rightarrow> byte_writer" where
  "write_i16 v = write_raw_le 2 (unat (word_of_int v :: u16))"

definition write_u32 :: "u32 \<Rightarrow> byte_writer \<Rightarrow> byte_writer" where
  "write_u32 v = write_raw_le 4 (unat v)"

definition write_i32 :: "int \<Rightarrow> byte_writer \<Rightarrow> byte_writer" where
  "write_i32 v = write_raw_le 4 (unat (word_of_int v :: u32))"

definition write_u64 :: "u64 \<Rightarrow> byte_writer \<Rightarrow> byte_writer" where
  "write_u64 v = write_raw_le 8 (unat v)"

definition write_i64 :: "int \<Rightarrow> byte_writer \<Rightarrow> byte_writer" where
  "write_i64 v = write_raw_le 8 (unat (word_of_int v :: u64))"

definition write_float :: "u32 \<Rightarrow> byte_writer \<Rightarrow> byte_writer" where
  "write_float bits = write_raw_le 4 (unat bits)"

definition write_double :: "u64 \<Rightarrow> byte_writer \<Rightarrow> byte_writer" where
  "write_double bits = write_raw_le 8 (unat bits)"

definition write_bool :: "bool \<Rightarrow> byte_writer \<Rightarrow> byte_writer" where
  "write_bool v = write_u8 (if v then 1 else 0)"

record vec2 =
  vx :: u32
  vy :: u32

record vec3 = vec2 +
  vz :: u32

record vec4 = vec3 +
  vw :: u32

text \<open>A quaternion has the fields of a \<open>vec4\<close>; the wire order puts \<open>w\<close> first.\<close>

definition write_vec2 :: "vec2 \<Rightarrow> byte_writer \<Rightarrow> byte_writer" where
  "write_vec2 v w = write_float (vy v) (write_float (vx v) w)"

definition write_vec3 :: "vec3 \<Rightarrow> byte_writer \<Rightarrow> byte_writer" where
  "write_vec3 v w = write_float (vz v) (write_float (vy v) (write_float (vx v) w))"

definition write_vec4 :: "vec4 \<Rightarrow> byte_writer \<Rightarrow> byte_writer" where
  "write_vec4 v w =
     write_float (vw v) (write_float (vz v) (write_float (vy v) (write_float (vx v) w)))"

definition write_quat :: "vec4 \<Rightarrow> byte_writer \<Rightarrow> byte_writer" where
  "write_quat q w =
     write_float (vz q) (write_float (vy q) (write_float (vx q) (write_float (vw q) w)))"

definition write_net_id :: "u32 \<Rightarrow> byte_writer \<Rightarrow> byte_writer" where
  "write_net_id v = write_u32 v"

text \<open>
  The length goes out as 32 bits. \<open>write_string\<close> then appends that many bytes, \<open>write_bytes\<close>
  all of them: the two differ for a buffer of \<open>2 ^ 32\<close> bytes or more.
\<close>

definition write_string :: "bytes \<Rightarrow> byte_writer \<Rightarrow> byte_writer" where
  "write_string s w =
     (let len = (of_nat (length s) :: u32);
          w' = write_u32 len w
      in w'\<lparr>buffer := buffer w' @ take (unat len) s\<rparr>)"

definition write_bytes :: "bytes \<Rightarrow> byte_writer \<Rightarrow> byte_writer" where
  "write_bytes bs w =
     (let w' = write_u32 (of_nat (length bs)) w in w'\<lparr>buffer := buffer w' @ bs\<rparr>)"

definition append_bytes :: "bytes \<Rightarrow> byte_writer \<Rightarrow> byte_writer" where
  "append_bytes bs w = w\<lparr>buffer := buffer w @ bs\<rparr>"

definition clear_writer :: "byte_writer \<Rightarrow> byte_writer" where
  "clear_writer w = w\<lparr>buffer := []\<rparr>"

definition writer_size :: "byte_writer \<Rightarrow> nat" where
  "writer_size w = length (buffer w)"

definition writer_empty :: "byte_writer \<Rightarrow> bool" where
  "writer_empty w = (buffer w = [])"

subsection \<open>The reader\<close>

record byte_reader =
  rd_data :: bytes
  rd_offset :: nat
  rd_ok :: bool

definition new_reader :: "bytes \<Rightarrow> byte_reader" where
  "new_reader d = \<lparr>rd_data = d, rd_offset = 0, rd_ok = True\<rparr>"

definition read_raw_le :: "nat \<Rightarrow> byte_reader \<Rightarrow> nat option \<times> byte_reader" where
  "read_raw_le n r =
     (if \<not> rd_ok r \<or> rd_offset r + n > length (rd_data r) then (None, r\<lparr>rd_ok := False\<rparr>)
      else (Some (le_value (take n (drop (rd_offset r) (rd_data r)))),
            r\<lparr>rd_offset := rd_offset r + n\<rparr>))"

definition read_u8 :: "byte_reader \<Rightarrow> u8 option \<times> byte_reader" where
  "read_u8 r = apfst (map_option of_nat) (read_raw_le 1 r)"

definition read_u16 :: "byte_reader \<Rightarrow> u16 option \<times> byte_reader" where
  "read_u16 r = apfst (map_option of_nat) (read_raw_le 2 r)"

definition read_u32 :: "byte_reader \<Rightarrow> u32 option \<times> byte_reader" where
  "read_u32 r = apfst (map_option of_nat) (read_raw_le 4 r)"

definition read_u64 :: "byte_reader \<Rightarrow> u64 option \<times> byte_reader" where
  "read_u64 r = apfst (map_option of_nat) (read_raw_le 8 r)"

definition read_i8 :: "byte_reader \<Rightarrow> int option \<times> byte_reader" where
  "read_i8 r = (case read_u8 r of (None, r') \<Rightarrow> (None, r') | (Some u, r') \<Rightarrow> (Some (sint u), r'))"

definition read_i16 :: "byte_reader \<Rightarrow> int option \<times> byte_reader" where
  "read_i16 r = (case read_u16 r of (None, r') \<Rightarrow> (None, r') | (Some u, r') \<Rightarrow> (Some (sint u), r'))"

definition read_i32 :: "byte_reader \<Rightarrow> int option \<times> byte_reader" where
  "read_i32 r = (case read_u32 r of (None, r') \<Rightarrow> (None, r') | (Some u, r') \<Rightarrow> (Some (sint u), r'))"

definition read_i64 :: "byte_reader \<Rightarrow> int option \<times> byte_reader" where
  "read_i64 r = (case read_u64 r of (None, r') \<Rightarrow> (None, r') | (Some u, r') \<Rightarrow> (Some (sint u), r'))"

definition read_float :: "byte_reader \<Rightarrow> u32 option \<times> byte_reader" where
  "read_float r = apfst (map_option of_nat) (read_raw_le 4 r)"

definition read_double :: "byte_reader \<Rightarrow> u64 option \<times> byte_reader" where
  "read_double r = apfst (map_option of_nat) (read_raw_le 8 r)"

definition read_bool :: "byte_reader \<Rightarrow> bool option \<times> byte_reader" where
  "read_bool r = (case read_u8 r of (None, r') \<Rightarrow> (None, r') | (Some u, r') \<Rightarrow> (Some (u \<noteq> 0), r'))"

definition read_vec2 :: "byte_reader \<Rightarrow> vec2 option \<times> byte_reader" where
  "read_vec2 r =
     (let (x, r1) = read_float r; (y, r2) = read_float r1
      in (case (x, y) of (Some a, Some b) \<Rightarrow> Some \<lparr>vx = a, vy = b\<rparr> | _ \<Rightarrow> None, r2))"

definition read_vec3 :: "byte_reader \<Rightarrow> vec3 option \<times> byte_reader" where
  "read_vec3 r =
     (let (x, r1) = read_float r; (y, r2) = read_float r1; (z, r3) = read_float r2
      in (case (x, y, z) of (Some a, Some b, Some c) \<Rightarrow> Some \<lparr>vx = a, vy = b, vz = c\<rparr> | _ \<Rightarrow> None,
          r3))"

definition read_vec4 :: "byte_reader \<Rightarrow> vec4 option \<times> byte_reader" where
  "read_vec4 r =
     (let (x, r1) = read_float r; (y, r2) = read_float r1; (z, r3) = read_float r2;
          (u, r4) = read_float r3
      in (case (x, y, z, u) of
            (Some a, Some b, Some c, Some d) \<Rightarrow> Some \<lparr>vx = a, vy = b, vz = c, vw = d\<rparr>
          | _ \<Rightarrow> None, r4))"

definition read_quat :: "byte_reader \<Rightarrow> vec4 option \<times> byte_reader" where
  "read_quat r =
     (let (u, r1) = read_float r; (x, r2) = read_float r1; (y, r3) = read_float r2;
          (z, r4) = read_float r3
      in (case (u, x, y, z) of
            (Some d, Some a, Some b, Some c) \<Rightarrow> Some \<lparr>vx = a, vy = b, vz = c, vw = d\<rparr>
          | _ \<Rightarrow> None, r4))"

definition read_net_id :: "byte_reader \<Rightarrow> u32 option \<times> byte_reader" where
  "read_net_id r = read_u32 r"

text \<open>
  \<open>read_bytes count\<close> does not look at the flag, so it can still succeed after a failed read;
  a caller that read a length first has left already in that case.
\<close>

definition read_bytes :: "nat \<Rightarrow> byte_reader \<Rightarrow> bytes option \<times> byte_reader" where
  "read_bytes n r =
     (if rd_offset r + n > length (rd_data r) then (None, r\<lparr>rd_ok := False\<rparr>)
      else (Some (take n (drop (rd_offset r) (rd_data r))), r\<lparr>rd_offset := rd_offset r + n\<rparr>))"

definition read_string :: "byte_reader \<Rightarrow> bytes option \<times> byte_reader" where
  "read_string r =
     (case read_u32 r of
        (None, r') \<Rightarrow> (None, r')
      | (Some len, r') \<Rightarrow>
          (if rd_offset r' + unat len > length (rd_data r') then (None, r'\<lparr>rd_ok := False\<rparr>)
           else (Some (take (unat len) (drop (rd_offset r') (rd_data r'))),
                 r'\<lparr>rd_offset := rd_offset r' + unat len\<rparr>)))"

definition remaining :: "byte_reader \<Rightarrow> nat" where
  "remaining r =
     (if rd_offset r \<ge> length (rd_data r) then 0 else length (rd_data r) - rd_offset r)"

definition has_remaining :: "nat \<Rightarrow> byte_reader \<Rightarrow> bool" where
  "has_remaining n r = (rd_ok r \<and> remaining r \<ge> n)"

text \<open>\<open>read_bytes(std::span out)\<close> copies into a buffer of a given size; \<open>None\<close> is \<open>false\<close>.\<close>

definition read_bytes_into :: "nat \<Rightarrow> byte_reader \<Rightarrow> bytes option \<times> byte_reader" where
  "read_bytes_into n r =
     (if \<not> has_remaining n r then (None, r\<lparr>rd_ok := False\<rparr>)
      else (Some (take n (drop (rd_offset r) (rd_data r))), r\<lparr>rd_offset := rd_offset r + n\<rparr>))"

definition skip :: "nat \<Rightarrow> byte_reader \<Rightarrow> bool \<times> byte_reader" where
  "skip n r =
     (if \<not> has_remaining n r then (False, r\<lparr>rd_ok := False\<rparr>)
      else (True, r\<lparr>rd_offset := rd_offset r + n\<rparr>))"

definition reset_reader :: "bytes \<Rightarrow> byte_reader \<Rightarrow> byte_reader" where
  "reset_reader d r = r\<lparr>rd_data := d, rd_offset := 0, rd_ok := True\<rparr>"

text \<open>
  The same on a machine whose \<open>std::size_t\<close> has \<open>w\<close> bits. Where the sum wraps, the read passes its check and
  goes past the end of the buffer; what is in the buffer is all that is given of it here.
\<close>

definition size_sum :: "nat \<Rightarrow> nat \<Rightarrow> nat \<Rightarrow> nat" where
  "size_sum w a b = (a + b) mod 2 ^ w"

definition read_bytes_w :: "nat \<Rightarrow> nat \<Rightarrow> byte_reader \<Rightarrow> bytes option \<times> byte_reader" where
  "read_bytes_w w n r =
     (if size_sum w (rd_offset r) n > length (rd_data r) then (None, r\<lparr>rd_ok := False\<rparr>)
      else (Some (take n (drop (rd_offset r) (rd_data r))), r\<lparr>rd_offset := size_sum w (rd_offset r) n\<rparr>))"

definition read_string_w :: "nat \<Rightarrow> byte_reader \<Rightarrow> bytes option \<times> byte_reader" where
  "read_string_w w r =
     (case read_u32 r of
        (None, r') \<Rightarrow> (None, r')
      | (Some len, r') \<Rightarrow>
          (if size_sum w (rd_offset r') (unat len) > length (rd_data r') then (None, r'\<lparr>rd_ok := False\<rparr>)
           else (Some (take (unat len) (drop (rd_offset r') (rd_data r'))),
                 r'\<lparr>rd_offset := size_sum w (rd_offset r') (unat len)\<rparr>)))"

lemma read_bytes_w_eq:
  "rd_offset r \<le> length (rd_data r) \<Longrightarrow> length (rd_data r) + n < 2 ^ w \<Longrightarrow> read_bytes_w w n r = read_bytes n r"
  by (simp add: read_bytes_w_def read_bytes_def size_sum_def)

lemma read_string_w_eq:
  assumes "rd_offset r \<le> length (rd_data r)" and "length (rd_data r) + 2 ^ 32 \<le> 2 ^ w"
  shows "read_string_w w r = read_string r"
proof (cases "read_u32 r")
  case (Pair x r')
  have "unat len < 2 ^ 32" for len :: u32 using unsigned_less [of len, where 'a = nat] by simp
  then have "length (rd_data r) + unat len < 2 ^ w" for len :: u32 using assms(2) by (meson add_strict_left_mono less_le_trans)
  moreover have "rd_data r' = rd_data r \<and> rd_offset r' \<le> length (rd_data r)"
    using Pair assms(1) by (auto simp: read_u32_def read_raw_le_def apfst_def map_prod_def split: if_splits)
  ultimately have "size_sum w (rd_offset r') (unat len) = rd_offset r' + unat len" for len :: u32
  proof -
    assume small: "\<And>len :: u32. length (rd_data r) + unat len < 2 ^ w"
      and at: "rd_data r' = rd_data r \<and> rd_offset r' \<le> length (rd_data r)"
    have "rd_offset r' + unat len < 2 ^ w" using small [of len] at by linarith
    then show ?thesis by (simp add: size_sum_def)
  qed
  then show ?thesis by (simp add: read_string_w_def read_string_def Pair split: option.split)
qed

end
