(* ===== verification/Byte_Codec.thy ===== *)
theory Byte_Codec
  imports Byte_Stream
begin

section \<open>Laws of the byte stream\<close>

text \<open>
  What an encoder and a decoder promise each other (\<open>wire_codec\<close>), what every read promises its
  caller (\<open>sound_read\<close>), and the two proved for the reads and writes of \<open>Byte_Stream\<close>. A message
  codec built from them needs only its own case distinctions.
\<close>

subsection \<open>A reader in front of some bytes\<close>

definition reader_at :: "bytes \<Rightarrow> bytes \<Rightarrow> byte_reader" where
  "reader_at pre rest = \<lparr>rd_data = pre @ rest, rd_offset = length pre, rd_ok = True\<rparr>"

lemma reader_at_sel [simp]:
  "rd_data (reader_at pre rest) = pre @ rest"
  "rd_offset (reader_at pre rest) = length pre"
  "rd_ok (reader_at pre rest)"
  by (simp_all add: reader_at_def)

lemma new_reader_at: "new_reader d = reader_at [] d"
  by (simp add: new_reader_def reader_at_def)

lemma remaining_reader_at [simp]: "remaining (reader_at pre rest) = length rest"
  by (simp add: remaining_def)

lemma has_remaining_reader_at [simp]: "has_remaining n (reader_at pre rest) = (n \<le> length rest)"
  by (simp add: has_remaining_def)

lemma reader_at_advance:
  "length bs = n \<Longrightarrow>
     (reader_at pre (bs @ post))\<lparr>rd_offset := length pre + n\<rparr> = reader_at (pre @ bs) post"
  by (simp add: reader_at_def)

lemma read_raw_le_at:
  "length bs = n \<Longrightarrow>
     read_raw_le n (reader_at pre (bs @ post)) = (Some (le_value bs), reader_at (pre @ bs) post)"
  by (auto simp: read_raw_le_def reader_at_advance)

lemma read_raw_le_short:
  "length rest < n \<Longrightarrow>
     read_raw_le n (reader_at pre rest) = (None, (reader_at pre rest)\<lparr>rd_ok := False\<rparr>)"
  by (simp add: read_raw_le_def)

lemma read_bytes_at [wire]:
  "length bs = n \<Longrightarrow> read_bytes n (reader_at pre (bs @ post)) = (Some bs, reader_at (pre @ bs) post)"
  by (simp add: read_bytes_def reader_at_advance)

lemma read_bytes_at_end [wire]:
  "length bs = n \<Longrightarrow> read_bytes n (reader_at pre bs) = (Some bs, reader_at (pre @ bs) [])"
  using read_bytes_at [of bs n pre "[]"] by simp

subsection \<open>What every read promises\<close>

text \<open>
  A read leaves the bytes alone, moves forward only, stays inside the buffer when it was inside,
  and never sets the flag again.
\<close>

definition reader_le :: "byte_reader \<Rightarrow> byte_reader \<Rightarrow> bool" where
  "reader_le r r' \<longleftrightarrow>
     rd_data r' = rd_data r \<and> rd_offset r \<le> rd_offset r' \<and>
     (rd_offset r \<le> length (rd_data r) \<longrightarrow> rd_offset r' \<le> length (rd_data r)) \<and>
     (rd_ok r' \<longrightarrow> rd_ok r)"

lemma reader_le_refl [simp]: "reader_le r r"
  by (simp add: reader_le_def)

lemma reader_le_trans: "reader_le r s \<Longrightarrow> reader_le s t \<Longrightarrow> reader_le r t"
  by (auto simp: reader_le_def)

definition sound_read :: "(byte_reader \<Rightarrow> 'a option \<times> byte_reader) \<Rightarrow> bool" where
  "sound_read m \<longleftrightarrow> (\<forall>r. reader_le r (snd (m r)))"

lemma sound_readD: "sound_read m \<Longrightarrow> m r = (x, r') \<Longrightarrow> reader_le r r'"
  by (metis snd_conv sound_read_def)

lemma sound_readI: "(\<And>r x r'. m r = (x, r') \<Longrightarrow> reader_le r r') \<Longrightarrow> sound_read m"
  unfolding sound_read_def by (metis prod.collapse)

lemma sound_read_raw_le: "sound_read (read_raw_le n)"
  by (rule sound_readI) (auto simp: read_raw_le_def reader_le_def split: if_splits)

lemma sound_apfst: "sound_read m \<Longrightarrow> sound_read (\<lambda>r. apfst f (m r))"
  by (simp add: sound_read_def)

lemma sound_read_u8: "sound_read read_u8"
  and sound_read_u16: "sound_read read_u16"
  and sound_read_u32: "sound_read read_u32"
  and sound_read_u64: "sound_read read_u64"
  and sound_read_float: "sound_read read_float"
  and sound_read_double: "sound_read read_double"
  using sound_apfst [OF sound_read_raw_le]
  by (simp_all add: read_u8_def [abs_def] read_u16_def [abs_def] read_u32_def [abs_def]
      read_u64_def [abs_def] read_float_def [abs_def] read_double_def [abs_def])

lemma sound_case:
  assumes "sound_read m" and "\<And>a. sound_read (k a)"
  shows "sound_read (\<lambda>r. case m r of (None, r') \<Rightarrow> (None, r') | (Some a, r') \<Rightarrow> k a r')"
  using assms
  by (auto simp: sound_read_def split: prod.splits option.splits)
    (metis reader_le_trans snd_conv)+

lemma sound_return [simp]: "sound_read (\<lambda>r. (x, r))"
  by (simp add: sound_read_def)

lemma sound_read_i8: "sound_read read_i8"
  and sound_read_i16: "sound_read read_i16"
  and sound_read_i32: "sound_read read_i32"
  and sound_read_i64: "sound_read read_i64"
  and sound_read_bool: "sound_read read_bool"
  unfolding read_i8_def [abs_def] read_i16_def [abs_def] read_i32_def [abs_def]
    read_i64_def [abs_def] read_bool_def [abs_def]
  by (rule sound_case, rule sound_read_u8 sound_read_u16 sound_read_u32 sound_read_u64, rule sound_return)+

lemma sound_read_bytes: "sound_read (read_bytes n)"
  by (rule sound_readI) (auto simp: read_bytes_def reader_le_def split: if_splits)

lemma sound_read_bytes_into: "sound_read (read_bytes_into n)"
  by (rule sound_readI)
    (auto simp: read_bytes_into_def reader_le_def has_remaining_def remaining_def split: if_splits)

lemma sound_read_string: "sound_read read_string"
  unfolding read_string_def [abs_def]
  by (rule sound_case, rule sound_read_u32, rule sound_readI)
    (auto simp: reader_le_def split: if_splits)

lemma reader_le_float: "read_float r = (x, r') \<Longrightarrow> reader_le r r'"
  by (rule sound_readD [OF sound_read_float])

lemma sound_read_vec2: "sound_read read_vec2"
  and sound_read_vec3: "sound_read read_vec3"
  and sound_read_vec4: "sound_read read_vec4"
  and sound_read_quat: "sound_read read_quat"
  by (rule sound_readI,
      auto simp: read_vec2_def read_vec3_def read_vec4_def read_quat_def Let_def
        split: prod.splits dest!: reader_le_float intro: reader_le_trans)+

lemmas sound_reads =
  sound_read_u8 sound_read_u16 sound_read_u32 sound_read_u64 sound_read_float sound_read_double
  sound_read_i8 sound_read_i16 sound_read_i32 sound_read_i64 sound_read_bool sound_read_bytes
  sound_read_bytes_into sound_read_string sound_read_vec2 sound_read_vec3 sound_read_vec4
  sound_read_quat

subsection \<open>Codecs\<close>

text \<open>
  The interface between a message format and the byte stream: \<open>enc\<close> gives the bytes of a value,
  \<open>dec\<close> reads one value from a reader, and a well-formed value is read back from in front of any
  other bytes, which it leaves for the next read. A loop that reads a known number of values is
  \<open>read_n\<close>; it reads back what the concatenated encodings hold.
\<close>

primrec read_n :: "nat \<Rightarrow> (byte_reader \<Rightarrow> 'a option \<times> byte_reader) \<Rightarrow> byte_reader \<Rightarrow> 'a list option \<times> byte_reader" where
  "read_n 0 m r = (Some [], r)"
| "read_n (Suc n) m r =
     (case m r of
        (None, r') \<Rightarrow> (None, r')
      | (Some x, r') \<Rightarrow>
          (case read_n n m r' of
             (None, r'') \<Rightarrow> (None, r'')
           | (Some xs, r'') \<Rightarrow> (Some (x # xs), r'')))"

lemma sound_read_n: "sound_read m \<Longrightarrow> sound_read (read_n n m)"
proof (induction n)
  case 0
  then show ?case by (simp add: sound_read_def)
next
  case (Suc n)
  then have "sound_read (\<lambda>r. case m r of (None, r') \<Rightarrow> (None, r')
      | (Some x, r') \<Rightarrow> (case read_n n m r' of (None, r'') \<Rightarrow> (None, r'')
           | (Some xs, r'') \<Rightarrow> (Some (x # xs), r'')))"
    by (intro sound_case) auto
  then show ?case by (simp add: sound_read_def)
qed

lemma read_n_length: "read_n n m r = (Some xs, r') \<Longrightarrow> length xs = n"
  by (induction n arbitrary: r xs) (auto split: prod.splits option.splits)

lemma read_n_all:
  "read_n n m r = (Some xs, r') \<Longrightarrow> (\<And>r x r'. m r = (Some x, r') \<Longrightarrow> P x) \<Longrightarrow> \<forall>x \<in> set xs. P x"
  by (induction n arbitrary: r xs) (fastforce split: prod.splits option.splits)+

locale wire_codec =
  fixes enc :: "'a \<Rightarrow> bytes"
    and dec :: "byte_reader \<Rightarrow> 'a option \<times> byte_reader"
    and wf :: "'a \<Rightarrow> bool"
  assumes dec_enc: "wf x \<Longrightarrow> dec (reader_at pre (enc x @ post)) = (Some x, reader_at (pre @ enc x) post)"
    and dec_sound: "sound_read dec"
begin

lemma dec_enc_end: "wf x \<Longrightarrow> dec (reader_at pre (enc x)) = (Some x, reader_at (pre @ enc x) [])"
  using dec_enc [of x pre "[]"] by simp

lemma dec_enc_new: "wf x \<Longrightarrow> fst (dec (new_reader (enc x))) = Some x"
  using dec_enc_end [of x "[]"] by (simp add: new_reader_at)

text \<open>No encoding is a proper prefix of another one.\<close>

lemma enc_prefix_free:
  assumes "wf x" and "wf y" and "enc x @ p = enc y @ q"
  shows "x = y \<and> p = q"
proof -
  have "dec (reader_at [] (enc x @ p)) = (Some x, reader_at (enc x) p)"
    and "dec (reader_at [] (enc y @ q)) = (Some y, reader_at (enc y) q)"
    using dec_enc [OF assms(1), of "[]" p] dec_enc [OF assms(2), of "[]" q] by simp_all
  with assms(3) have "x = y" by simp
  with assms(3) show ?thesis by simp
qed

lemma read_n_enc:
  "\<forall>x \<in> set xs. wf x \<Longrightarrow>
     read_n (length xs) dec (reader_at pre (concat (map enc xs) @ post)) =
       (Some xs, reader_at (pre @ concat (map enc xs)) post)"
proof (induction xs arbitrary: pre)
  case Nil
  then show ?case by simp
next
  case (Cons x xs)
  then show ?case by (simp add: dec_enc)
qed

lemma read_n_enc_end:
  "\<forall>x \<in> set xs. wf x \<Longrightarrow>
     read_n (length xs) dec (reader_at pre (concat (map enc xs))) =
       (Some xs, reader_at (pre @ concat (map enc xs)) [])"
  using read_n_enc [of xs pre "[]"] by simp

end

subsection \<open>The codecs of the scalar types\<close>

definition enc_u8 :: "u8 \<Rightarrow> bytes" where "enc_u8 v = [v]"
definition enc_u16 :: "u16 \<Rightarrow> bytes" where "enc_u16 v = le_bytes 2 (unat v)"
definition enc_u32 :: "u32 \<Rightarrow> bytes" where "enc_u32 v = le_bytes 4 (unat v)"
definition enc_u64 :: "u64 \<Rightarrow> bytes" where "enc_u64 v = le_bytes 8 (unat v)"
definition enc_i8 :: "int \<Rightarrow> bytes" where "enc_i8 v = [word_of_int v]"
definition enc_i16 :: "int \<Rightarrow> bytes" where "enc_i16 v = enc_u16 (word_of_int v)"
definition enc_i32 :: "int \<Rightarrow> bytes" where "enc_i32 v = enc_u32 (word_of_int v)"
definition enc_i64 :: "int \<Rightarrow> bytes" where "enc_i64 v = enc_u64 (word_of_int v)"

definition fits_signed :: "nat \<Rightarrow> int \<Rightarrow> bool" where
  "fits_signed n v \<longleftrightarrow> - (2 ^ (n - 1)) \<le> v \<and> v < 2 ^ (n - 1)"

lemma length_enc [simp]:
  "length (enc_u8 a) = 1" "length (enc_u16 b) = 2" "length (enc_u32 c) = 4" "length (enc_u64 d) = 8"
  "length (enc_i8 e) = 1" "length (enc_i16 e) = 2" "length (enc_i32 e) = 4" "length (enc_i64 e) = 8"
  by (simp_all add: enc_u8_def enc_u16_def enc_u32_def enc_u64_def enc_i8_def enc_i16_def
      enc_i32_def enc_i64_def)

text \<open>Every write appends the encoding of its value.\<close>

lemma write_buffer [wire]:
  "buffer (write_u8 a w) = buffer w @ enc_u8 a"
  "buffer (write_u16 b w) = buffer w @ enc_u16 b"
  "buffer (write_u32 c w) = buffer w @ enc_u32 c"
  "buffer (write_u64 d w) = buffer w @ enc_u64 d"
  "buffer (write_i8 e w) = buffer w @ enc_i8 e"
  "buffer (write_i16 e w) = buffer w @ enc_i16 e"
  "buffer (write_i32 e w) = buffer w @ enc_i32 e"
  "buffer (write_i64 e w) = buffer w @ enc_i64 e"
  "buffer (write_float c w) = buffer w @ enc_u32 c"
  "buffer (write_double d w) = buffer w @ enc_u64 d"
  "buffer (append_bytes bs w) = buffer w @ bs"
  "buffer new_writer = []"
  by (simp_all add: write_u8_def write_u16_def write_u32_def write_u64_def write_i8_def
      write_i16_def write_i32_def write_i64_def write_float_def write_double_def write_raw_le_def
      append_bytes_def new_writer_def enc_u8_def enc_u16_def enc_u32_def enc_u64_def enc_i8_def
      enc_i16_def enc_i32_def enc_i64_def)

lemma of_nat_le_value_le_bytes:
  "(of_nat (le_value (le_bytes n (unat (x :: 'a :: len word)))) :: 'a word) = x"
  if "unat x < 256 ^ n"
  using that by (simp add: le_value_le_bytes)

lemma read_u8_at [wire]: "read_u8 (reader_at pre (enc_u8 v @ post)) = (Some v, reader_at (pre @ enc_u8 v) post)"
  using read_raw_le_at [of "[v]" 1 pre post] by (simp add: read_u8_def enc_u8_def)

lemma read_u16_at [wire]: "read_u16 (reader_at pre (enc_u16 v @ post)) = (Some v, reader_at (pre @ enc_u16 v) post)"
proof -
  have "unat v < 256 ^ 2" using unsigned_less [of v] by simp
  then show ?thesis
    by (simp add: read_u16_def enc_u16_def read_raw_le_at of_nat_le_value_le_bytes)
qed

lemma unat32_less: "unat (v :: u32) < 256 ^ 4"
  using unsigned_less [of v] by simp

lemma unat64_less: "unat (v :: u64) < 256 ^ 8"
  using unsigned_less [of v] by simp

lemma read_u32_at [wire]: "read_u32 (reader_at pre (enc_u32 v @ post)) = (Some v, reader_at (pre @ enc_u32 v) post)"
  using unat32_less [of v]
  by (simp add: read_u32_def enc_u32_def read_raw_le_at of_nat_le_value_le_bytes)

lemma read_float_at [wire]: "read_float (reader_at pre (enc_u32 v @ post)) = (Some v, reader_at (pre @ enc_u32 v) post)"
  using read_u32_at [of pre v post] by (simp add: read_float_def read_u32_def)

lemma read_u64_at [wire]: "read_u64 (reader_at pre (enc_u64 v @ post)) = (Some v, reader_at (pre @ enc_u64 v) post)"
  using unat64_less [of v]
  by (simp add: read_u64_def enc_u64_def read_raw_le_at of_nat_le_value_le_bytes)

lemma read_double_at [wire]: "read_double (reader_at pre (enc_u64 v @ post)) = (Some v, reader_at (pre @ enc_u64 v) post)"
  using read_u64_at [of pre v post] by (simp add: read_double_def read_u64_def)

lemma sint_word_of_int:
  "fits_signed LENGTH('a) v \<Longrightarrow> sint (word_of_int v :: 'a :: len word) = v"
  by (simp add: fits_signed_def signed_of_int signed_take_bit_int_eq_self)

lemma read_i8_at [wire]:
  "fits_signed 8 v \<Longrightarrow> read_i8 (reader_at pre (enc_i8 v @ post)) = (Some v, reader_at (pre @ enc_i8 v) post)"
  using read_u8_at [of pre "word_of_int v" post] sint_word_of_int [where 'a = 8, of v]
  by (simp add: read_i8_def enc_i8_def enc_u8_def)

lemma read_i16_at [wire]:
  "fits_signed 16 v \<Longrightarrow> read_i16 (reader_at pre (enc_i16 v @ post)) = (Some v, reader_at (pre @ enc_i16 v) post)"
  using sint_word_of_int [where 'a = 16, of v] by (simp add: read_i16_def enc_i16_def read_u16_at)

lemma read_i32_at [wire]:
  "fits_signed 32 v \<Longrightarrow> read_i32 (reader_at pre (enc_i32 v @ post)) = (Some v, reader_at (pre @ enc_i32 v) post)"
  using sint_word_of_int [where 'a = 32, of v] by (simp add: read_i32_def enc_i32_def read_u32_at)

lemma read_i64_at [wire]:
  "fits_signed 64 v \<Longrightarrow> read_i64 (reader_at pre (enc_i64 v @ post)) = (Some v, reader_at (pre @ enc_i64 v) post)"
  using sint_word_of_int [where 'a = 64, of v] by (simp add: read_i64_def enc_i64_def read_u64_at)

interpretation u8_codec: wire_codec enc_u8 read_u8 "\<lambda>_. True"
  by unfold_locales (simp_all add: wire sound_reads)

interpretation u16_codec: wire_codec enc_u16 read_u16 "\<lambda>_. True"
  by unfold_locales (simp_all add: wire sound_reads)

interpretation u32_codec: wire_codec enc_u32 read_u32 "\<lambda>_. True"
  by unfold_locales (simp_all add: wire sound_reads)

interpretation u64_codec: wire_codec enc_u64 read_u64 "\<lambda>_. True"
  by unfold_locales (simp_all add: wire sound_reads)

interpretation i8_codec: wire_codec enc_i8 read_i8 "fits_signed 8"
  by unfold_locales (simp_all add: wire sound_reads)

lemmas scalar_ends [wire] =
  u8_codec.dec_enc_end [OF TrueI] u16_codec.dec_enc_end [OF TrueI] u32_codec.dec_enc_end [OF TrueI]
  u64_codec.dec_enc_end [OF TrueI] i8_codec.dec_enc_end

subsection \<open>Exact codecs\<close>

text \<open>
  A decoder that accepts nothing but encodings of well-formed values: what it read is the encoding
  of what it gives. With \<open>wire_codec\<close> it follows that it accepts exactly those.
\<close>

locale exact_codec = wire_codec +
  assumes dec_exact: "dec (reader_at pre rest) = (Some x, r') \<Longrightarrow>
    wf x \<and> (\<exists>post. rest = enc x @ post \<and> r' = reader_at (pre @ enc x) post)"
begin

lemma dec_iff:
  "dec (reader_at pre rest) = (Some x, r') \<longleftrightarrow>
     wf x \<and> (\<exists>post. rest = enc x @ post \<and> r' = reader_at (pre @ enc x) post)"
  using dec_exact dec_enc by blast

lemma read_n_exact:
  "read_n n dec (reader_at pre rest) = (Some xs, r') \<Longrightarrow>
     length xs = n \<and> (\<forall>x \<in> set xs. wf x) \<and>
     (\<exists>post. rest = concat (map enc xs) @ post \<and> r' = reader_at (pre @ concat (map enc xs)) post)"
proof (induction n arbitrary: pre rest xs)
  case 0
  then show ?case by auto
next
  case (Suc n)
  then obtain x r1 ys r2 where x: "dec (reader_at pre rest) = (Some x, r1)"
    and ys: "read_n n dec r1 = (Some ys, r')" and xs: "xs = x # ys"
    by (auto split: prod.splits option.splits)
  obtain post where p: "wf x" "rest = enc x @ post" "r1 = reader_at (pre @ enc x) post"
    using dec_exact [OF x] by auto
  from Suc.IH [OF ys [unfolded p(3)]] show ?case
    using p(1,2) xs by auto
qed

lemma read_n_iff:
  "read_n n dec (reader_at pre rest) = (Some xs, r') \<longleftrightarrow>
     length xs = n \<and> (\<forall>x \<in> set xs. wf x) \<and>
     (\<exists>post. rest = concat (map enc xs) @ post \<and> r' = reader_at (pre @ concat (map enc xs)) post)"
  using read_n_exact read_n_enc by blast

end

lemma read_raw_le_Some:
  "read_raw_le n (reader_at pre rest) = (Some v, r') \<Longrightarrow>
     \<exists>bs post. rest = bs @ post \<and> length bs = n \<and> v = le_value bs \<and> r' = reader_at (pre @ bs) post"
  by (rule exI [of _ "take n rest"], rule exI [of _ "drop n rest"])
    (auto simp: read_raw_le_def reader_at_def split: if_splits)

lemma le_bytes_word:
  assumes "length bs * 8 = LENGTH('a)"
  shows "le_bytes (length bs) (unat (of_nat (le_value bs) :: 'a :: len word)) = bs"
proof -
  have "(256 :: nat) ^ length bs = (2 ^ 8) ^ length bs" by simp
  also have "\<dots> = 2 ^ LENGTH('a)" by (metis assms power_mult mult.commute)
  finally have "le_value bs < 2 ^ LENGTH('a)" using le_value_less [of bs] by simp
  then show ?thesis by (simp add: unat_of_nat le_bytes_le_value)
qed

lemma read_u8_Some: "read_u8 (reader_at pre rest) = (Some x, r') \<Longrightarrow>
    \<exists>post. rest = enc_u8 x @ post \<and> r' = reader_at (pre @ enc_u8 x) post"
  using le_bytes_word [where 'a = 8]
  by (auto simp: read_u8_def enc_u8_def length_Suc_conv apfst_def map_prod_def split: prod.splits
      dest!: read_raw_le_Some)

lemma read_u16_Some: "read_u16 (reader_at pre rest) = (Some x, r') \<Longrightarrow>
    \<exists>post. rest = enc_u16 x @ post \<and> r' = reader_at (pre @ enc_u16 x) post"
  using le_bytes_word [where 'a = 16]
  by (force simp: read_u16_def enc_u16_def apfst_def map_prod_def split: prod.splits
      dest!: read_raw_le_Some)

lemma read_u32_Some: "read_u32 (reader_at pre rest) = (Some x, r') \<Longrightarrow>
    \<exists>post. rest = enc_u32 x @ post \<and> r' = reader_at (pre @ enc_u32 x) post"
  using le_bytes_word [where 'a = 32]
  by (force simp: read_u32_def enc_u32_def apfst_def map_prod_def split: prod.splits
      dest!: read_raw_le_Some)

lemma read_u64_Some: "read_u64 (reader_at pre rest) = (Some x, r') \<Longrightarrow>
    \<exists>post. rest = enc_u64 x @ post \<and> r' = reader_at (pre @ enc_u64 x) post"
  using le_bytes_word [where 'a = 64]
  by (force simp: read_u64_def enc_u64_def apfst_def map_prod_def split: prod.splits
      dest!: read_raw_le_Some)

lemma read_bytes_Some: "read_bytes n (reader_at pre rest) = (Some bs, r') \<Longrightarrow>
    length bs = n \<and> (\<exists>post. rest = bs @ post \<and> r' = reader_at (pre @ bs) post)"
  by (auto simp: read_bytes_def reader_at_def split: if_splits intro: exI [of _ "drop n rest"])

lemma read_i8_Some: "read_i8 (reader_at pre rest) = (Some x, r') \<Longrightarrow>
    fits_signed 8 x \<and> (\<exists>post. rest = enc_i8 x @ post \<and> r' = reader_at (pre @ enc_i8 x) post)"
proof -
  assume "read_i8 (reader_at pre rest) = (Some x, r')"
  then obtain u where u: "read_u8 (reader_at pre rest) = (Some u, r')" and x: "x = sint u"
    by (auto simp: read_i8_def split: prod.splits option.splits)
  have "enc_i8 x = enc_u8 u" by (simp add: enc_i8_def enc_u8_def x)
  moreover have "fits_signed 8 x"
    using sint_range_size [of u] by (simp add: fits_signed_def x word_size)
  ultimately show ?thesis using read_u8_Some [OF u] by simp
qed

interpretation u8_exact: exact_codec enc_u8 read_u8 "\<lambda>_. True"
  by unfold_locales (simp add: read_u8_Some)

interpretation u16_exact: exact_codec enc_u16 read_u16 "\<lambda>_. True"
  by unfold_locales (simp add: read_u16_Some)

interpretation u32_exact: exact_codec enc_u32 read_u32 "\<lambda>_. True"
  by unfold_locales (simp add: read_u32_Some)

interpretation u64_exact: exact_codec enc_u64 read_u64 "\<lambda>_. True"
  by unfold_locales (simp add: read_u64_Some)

interpretation i8_exact: exact_codec enc_i8 read_i8 "fits_signed 8"
  by unfold_locales (simp add: read_i8_Some)

end
