(* ===== verification/Wire_Values.thy ===== *)
theory Wire_Values
  imports Byte_Codec
begin

section \<open>The typed interface of the byte stream\<close>

text \<open>
  The templates \<open>ByteWriter::write<T>\<close> and \<open>ByteReader::read<T>\<close> of
  \<^verbatim>\<open>include/engine/net/byte_stream.h\<close> pick the write or read for a type at compile time.
  Here a value carries its type as its constructor (\<open>wire_val\<close>), \<open>wire_type\<close> names the
  template argument, and a message body is a list of values. An enumeration is written as its
  underlying integer, so it has no constructor of its own.
\<close>

datatype wire_val =
    V_u8 u8 | V_u16 u16 | V_u32 u32 | V_u64 u64
  | V_i8 int | V_i16 int | V_i32 int | V_i64 int
  | V_float u32 | V_double u64 | V_bool bool
  | V_vec2 vec2 | V_vec3 vec3 | V_vec4 vec4 | V_quat vec4
  | V_string bytes

datatype wire_type =
    T_u8 | T_u16 | T_u32 | T_u64 | T_i8 | T_i16 | T_i32 | T_i64
  | T_float | T_double | T_bool | T_vec2 | T_vec3 | T_vec4 | T_quat | T_string

fun type_of_val :: "wire_val \<Rightarrow> wire_type" where
  "type_of_val (V_u8 _) = T_u8" | "type_of_val (V_u16 _) = T_u16"
| "type_of_val (V_u32 _) = T_u32" | "type_of_val (V_u64 _) = T_u64"
| "type_of_val (V_i8 _) = T_i8" | "type_of_val (V_i16 _) = T_i16"
| "type_of_val (V_i32 _) = T_i32" | "type_of_val (V_i64 _) = T_i64"
| "type_of_val (V_float _) = T_float" | "type_of_val (V_double _) = T_double"
| "type_of_val (V_bool _) = T_bool" | "type_of_val (V_vec2 _) = T_vec2"
| "type_of_val (V_vec3 _) = T_vec3" | "type_of_val (V_vec4 _) = T_vec4"
| "type_of_val (V_quat _) = T_quat" | "type_of_val (V_string _) = T_string"

fun write_val :: "wire_val \<Rightarrow> byte_writer \<Rightarrow> byte_writer" where
  "write_val (V_u8 v) = write_u8 v"
| "write_val (V_u16 v) = write_u16 v"
| "write_val (V_u32 v) = write_u32 v"
| "write_val (V_u64 v) = write_u64 v"
| "write_val (V_i8 v) = write_i8 v"
| "write_val (V_i16 v) = write_i16 v"
| "write_val (V_i32 v) = write_i32 v"
| "write_val (V_i64 v) = write_i64 v"
| "write_val (V_float v) = write_float v"
| "write_val (V_double v) = write_double v"
| "write_val (V_bool v) = write_bool v"
| "write_val (V_vec2 v) = write_vec2 v"
| "write_val (V_vec3 v) = write_vec3 v"
| "write_val (V_vec4 v) = write_vec4 v"
| "write_val (V_quat v) = write_quat v"
| "write_val (V_string v) = write_string v"

fun read_val :: "wire_type \<Rightarrow> byte_reader \<Rightarrow> wire_val option \<times> byte_reader" where
  "read_val T_u8 r = apfst (map_option V_u8) (read_u8 r)"
| "read_val T_u16 r = apfst (map_option V_u16) (read_u16 r)"
| "read_val T_u32 r = apfst (map_option V_u32) (read_u32 r)"
| "read_val T_u64 r = apfst (map_option V_u64) (read_u64 r)"
| "read_val T_i8 r = apfst (map_option V_i8) (read_i8 r)"
| "read_val T_i16 r = apfst (map_option V_i16) (read_i16 r)"
| "read_val T_i32 r = apfst (map_option V_i32) (read_i32 r)"
| "read_val T_i64 r = apfst (map_option V_i64) (read_i64 r)"
| "read_val T_float r = apfst (map_option V_float) (read_float r)"
| "read_val T_double r = apfst (map_option V_double) (read_double r)"
| "read_val T_bool r = apfst (map_option V_bool) (read_bool r)"
| "read_val T_vec2 r = apfst (map_option V_vec2) (read_vec2 r)"
| "read_val T_vec3 r = apfst (map_option V_vec3) (read_vec3 r)"
| "read_val T_vec4 r = apfst (map_option V_vec4) (read_vec4 r)"
| "read_val T_quat r = apfst (map_option V_quat) (read_quat r)"
| "read_val T_string r = apfst (map_option V_string) (read_string r)"

fun read_vals :: "wire_type list \<Rightarrow> byte_reader \<Rightarrow> wire_val list option \<times> byte_reader" where
  "read_vals [] r = (Some [], r)"
| "read_vals (t # ts) r =
     (case read_val t r of
        (None, r') \<Rightarrow> (None, r')
      | (Some v, r') \<Rightarrow> apfst (map_option (Cons v)) (read_vals ts r'))"

text \<open>What C++ types guarantee, and the one limit a caller has to keep: a string below 4 GiB.\<close>

fun wf_val :: "wire_val \<Rightarrow> bool" where
  "wf_val (V_i8 v) = fits_signed 8 v"
| "wf_val (V_i16 v) = fits_signed 16 v"
| "wf_val (V_i32 v) = fits_signed 32 v"
| "wf_val (V_i64 v) = fits_signed 64 v"
| "wf_val (V_string s) = (length s < 2 ^ 32)"
| "wf_val _ = True"

fun enc_val :: "wire_val \<Rightarrow> bytes" where
  "enc_val (V_u8 v) = enc_u8 v"
| "enc_val (V_u16 v) = enc_u16 v"
| "enc_val (V_u32 v) = enc_u32 v"
| "enc_val (V_u64 v) = enc_u64 v"
| "enc_val (V_i8 v) = enc_i8 v"
| "enc_val (V_i16 v) = enc_i16 v"
| "enc_val (V_i32 v) = enc_i32 v"
| "enc_val (V_i64 v) = enc_i64 v"
| "enc_val (V_float v) = enc_u32 v"
| "enc_val (V_double v) = enc_u64 v"
| "enc_val (V_bool v) = enc_u8 (if v then 1 else 0)"
| "enc_val (V_vec2 v) = enc_u32 (vx v) @ enc_u32 (vy v)"
| "enc_val (V_vec3 v) = enc_u32 (vx v) @ enc_u32 (vy v) @ enc_u32 (vz v)"
| "enc_val (V_vec4 v) = enc_u32 (vx v) @ enc_u32 (vy v) @ enc_u32 (vz v) @ enc_u32 (vw v)"
| "enc_val (V_quat v) = enc_u32 (vw v) @ enc_u32 (vx v) @ enc_u32 (vy v) @ enc_u32 (vz v)"
| "enc_val (V_string s) = enc_u32 (of_nat (length s)) @ take (unat (of_nat (length s) :: u32)) s"

lemma write_val_buffer: "buffer (write_val v w) = buffer w @ enc_val v"
  by (cases v) (simp_all add: wire write_bool_def write_vec2_def write_vec3_def write_vec4_def
      write_quat_def write_string_def Let_def)

lemma write_vals_buffer: "buffer (fold write_val vs w) = buffer w @ concat (map enc_val vs)"
  by (induction vs arbitrary: w) (simp_all add: write_val_buffer)

lemma read_string_at:
  assumes "length s < 2 ^ 32"
  shows "read_string (reader_at pre (enc_u32 (of_nat (length s)) @ s @ post)) =
    (Some s, reader_at (pre @ enc_u32 (of_nat (length s)) @ s) post)"
proof -
  have "unat (of_nat (length s) :: u32) = length s"
    using assms by (simp add: unat_of_nat)
  then show ?thesis
    by (simp add: read_string_def wire)
qed

lemma read_val_at:
  "wf_val v \<Longrightarrow>
     read_val (type_of_val v) (reader_at pre (enc_val v @ post)) = (Some v, reader_at (pre @ enc_val v) post)"
proof (cases v)
  case (V_string s)
  moreover assume "wf_val v"
  ultimately show ?thesis
    using read_string_at [of s pre post] by (simp add: unat_of_nat)
qed (simp_all add: wire read_bool_def read_vec2_def read_vec3_def read_vec4_def read_quat_def)

lemma sound_read_val: "sound_read (read_val t)"
  by (cases t) (use sound_reads in \<open>simp_all add: sound_read_def\<close>)

text \<open>For each type, its values form a codec.\<close>

interpretation val_codec: wire_codec enc_val "read_val t" "\<lambda>v. wf_val v \<and> type_of_val v = t" for t
  by unfold_locales (auto simp: read_val_at sound_read_val)

lemma read_vals_at:
  "\<forall>v \<in> set vs. wf_val v \<Longrightarrow>
     read_vals (map type_of_val vs) (reader_at pre (concat (map enc_val vs) @ post)) =
       (Some vs, reader_at (pre @ concat (map enc_val vs)) post)"
  by (induction vs arbitrary: pre) (simp_all add: read_val_at)

lemma sound_read_vals: "sound_read (read_vals ts)"
proof (induction ts)
  case Nil
  then show ?case by (simp add: sound_read_def)
next
  case (Cons t ts)
  have "sound_read (\<lambda>r. case read_val t r of (None, r') \<Rightarrow> (None, r')
     | (Some v, r') \<Rightarrow> apfst (map_option (Cons v)) (read_vals ts r'))"
    by (intro sound_case sound_read_val sound_apfst Cons)
  then show ?case by (simp add: sound_read_def)
qed

subsection \<open>Properties\<close>

text \<open>
  C26: what a message body writes, a reader of the same types reads back, value by value, and it
  then stands exactly behind the body, whatever bytes come before and after it.
\<close>

theorem wire_roundtrip:
  assumes "\<forall>v \<in> set vs. wf_val v"
  shows "read_vals (map type_of_val vs)
           (reader_at pre (buffer (fold write_val vs new_writer) @ post)) =
         (Some vs, reader_at (pre @ buffer (fold write_val vs new_writer)) post)"
  using read_vals_at [OF assms] by (simp add: write_vals_buffer wire)

theorem wire_roundtrip_witness:
  "fst (read_vals [T_u16, T_i8, T_string]
     (new_reader (buffer (fold write_val [V_u16 258, V_i8 (-3), V_string [104, 105]] new_writer)))) =
   Some [V_u16 258, V_i8 (-3), V_string [104, 105]]"
  using wire_roundtrip [of "[V_u16 258, V_i8 (-3), V_string [104, 105]]" "[]" "[]"]
  by (simp add: fits_signed_def new_reader_at)

subsection \<open>Any reads\<close>

text \<open>
  Whatever a caller may ask of a reader, in a \<open>std::size_t\<close> of \<open>w\<close> bits: the typed reads, \<open>read_bytes\<close> of a count
  and into a buffer, and \<open>skip\<close>. The first component says that the read gave what was asked.
\<close>

datatype read_op = Read_val wire_type | Read_count nat | Read_into nat | Skip_bytes nat

definition some_read :: "'a option \<times> byte_reader \<Rightarrow> bool \<times> byte_reader" where
  "some_read x = (fst x \<noteq> None, snd x)"

fun run_read :: "nat \<Rightarrow> read_op \<Rightarrow> byte_reader \<Rightarrow> bool \<times> byte_reader" where
  "run_read w (Read_val t) r = (if t = T_string then some_read (read_string_w w r) else some_read (read_val t r))"
| "run_read w (Read_count n) r = some_read (read_bytes_w w n r)"
| "run_read w (Read_into n) r = some_read (read_bytes_into n r)"
| "run_read w (Skip_bytes n) r = skip n r"

fun run_reads :: "nat \<Rightarrow> read_op list \<Rightarrow> byte_reader \<Rightarrow> bool list \<times> byte_reader" where
  "run_reads w [] r = ([], r)"
| "run_reads w (p # ps) r = (let (b, r1) = run_read w p r; (bs, r2) = run_reads w ps r1 in (b # bs, r2))"

text \<open>A read that keeps the flag up exactly when it gives something, and does nothing once the flag is down.\<close>

definition flag_read :: "(byte_reader \<Rightarrow> 'a option \<times> byte_reader) \<Rightarrow> bool" where
  "flag_read f \<longleftrightarrow> (\<forall>r. (rd_ok (snd (f r)) \<longleftrightarrow> rd_ok r \<and> fst (f r) \<noteq> None) \<and> (\<not> rd_ok r \<longrightarrow> f r = (None, r)))"

lemma flag_readD:
  assumes "flag_read f" and "f r = (x, r')"
  shows "rd_ok r' \<longleftrightarrow> rd_ok r \<and> x \<noteq> None" "\<not> rd_ok r \<Longrightarrow> x = None \<and> r' = r"
proof -
  have "(rd_ok (snd (f r)) \<longleftrightarrow> rd_ok r \<and> fst (f r) \<noteq> None) \<and> (\<not> rd_ok r \<longrightarrow> f r = (None, r))"
    using assms(1) by (simp add: flag_read_def)
  then show "rd_ok r' \<longleftrightarrow> rd_ok r \<and> x \<noteq> None" "\<not> rd_ok r \<Longrightarrow> x = None \<and> r' = r" by (simp_all add: assms(2))
qed

lemma flag_apfst: "flag_read f \<Longrightarrow> flag_read (\<lambda>r. apfst (map_option g) (f r))"
  by (auto simp: flag_read_def)

lemma flag_raw: "flag_read (read_raw_le n)"
  by (auto simp: flag_read_def read_raw_le_def)

lemma flag_fixed: "flag_read read_u8" "flag_read read_u16" "flag_read read_u32" "flag_read read_u64"
  "flag_read read_float" "flag_read read_double"
  using flag_apfst [OF flag_raw] by (simp_all add: read_u8_def [abs_def] read_u16_def [abs_def] read_u32_def [abs_def]
      read_u64_def [abs_def] read_float_def [abs_def] read_double_def [abs_def])

lemma flag_map: "flag_read f \<Longrightarrow> flag_read (\<lambda>r. case f r of (None, r') \<Rightarrow> (None, r') | (Some u, r') \<Rightarrow> (Some (g u), r'))"
  unfolding flag_read_def
proof (intro allI)
  fix r assume "\<forall>r. (rd_ok (snd (f r)) \<longleftrightarrow> rd_ok r \<and> fst (f r) \<noteq> None) \<and> (\<not> rd_ok r \<longrightarrow> f r = (None, r))"
  from spec [OF this, of r]
  show "(rd_ok (snd (case f r of (None, r') \<Rightarrow> (None, r') | (Some u, r') \<Rightarrow> (Some (g u), r')))
      \<longleftrightarrow> rd_ok r \<and> fst (case f r of (None, r') \<Rightarrow> (None, r') | (Some u, r') \<Rightarrow> (Some (g u), r')) \<noteq> None)
      \<and> (\<not> rd_ok r \<longrightarrow> (case f r of (None, r') \<Rightarrow> (None, r') | (Some u, r') \<Rightarrow> (Some (g u), r')) = (None, r))"
    by (cases "f r"; cases "fst (f r)") auto
qed

lemma flag_signed: "flag_read read_i8" "flag_read read_i16" "flag_read read_i32" "flag_read read_i64" "flag_read read_bool"
  unfolding read_i8_def [abs_def] read_i16_def [abs_def] read_i32_def [abs_def] read_i64_def [abs_def] read_bool_def [abs_def]
  by (intro flag_map flag_fixed)+

text \<open>The reads of vectors go on after a component that failed.\<close>

lemma float_reads: "read_float r = (x, r') \<Longrightarrow> (rd_ok r' \<longleftrightarrow> rd_ok r \<and> x \<noteq> None) \<and> (\<not> rd_ok r \<longrightarrow> x = None \<and> r' = r)"
  using flag_readD [OF flag_fixed(5)] by blast

lemma flag_vectors: "flag_read read_vec2" "flag_read read_vec3" "flag_read read_vec4" "flag_read read_quat"
  unfolding flag_read_def read_vec2_def read_vec3_def read_vec4_def read_quat_def Let_def
  by (auto split: prod.splits option.splits dest!: float_reads)

lemma flag_val: "t \<noteq> T_string \<Longrightarrow> flag_read (read_val t)"
  by (cases t) (use flag_fixed flag_signed flag_vectors in \<open>simp_all add: flag_read_def\<close>)

lemma flag_string: "flag_read (read_string_w w)"
  unfolding flag_read_def
proof (intro allI conjI impI)
  fix r
  obtain x r' where u: "read_u32 r = (x, r')" by (metis surj_pair)
  note flag = flag_readD [OF flag_fixed(3) u]
  show "rd_ok (snd (read_string_w w r)) \<longleftrightarrow> rd_ok r \<and> fst (read_string_w w r) \<noteq> None"
    using flag(1) by (cases x) (simp_all add: read_string_w_def u)
  show "read_string_w w r = (None, r)" if "\<not> rd_ok r" using flag(2) [OF that] by (simp add: read_string_w_def u)
qed

definition counts_fit :: "nat \<Rightarrow> read_op \<Rightarrow> byte_reader \<Rightarrow> bool" where
  "counts_fit w p r \<longleftrightarrow> (case p of Read_count n \<Rightarrow> length (rd_data r) + n < 2 ^ w | _ \<Rightarrow> True)"

lemma counts_fit_same: "rd_data r' = rd_data r \<Longrightarrow> counts_fit w p r' = counts_fit w p r"
  by (simp add: counts_fit_def split: read_op.split)

lemma run_read_sound:
  assumes inside: "rd_offset r \<le> length (rd_data r)" and room: "length (rd_data r) + 2 ^ 32 \<le> 2 ^ w"
    and fit: "counts_fit w p r" and run: "run_read w p r = (b, r')"
  shows "rd_offset r \<le> rd_offset r' \<and> rd_offset r' \<le> length (rd_data r) \<and> rd_data r' = rd_data r
    \<and> (rd_ok r' \<longleftrightarrow> rd_ok r \<and> b)"
proof -
  have le: "reader_le r r'"
  proof (cases p)
    case (Read_val t)
    then show ?thesis
      using run sound_read_val [of t] sound_read_val [of T_string] read_string_w_eq [OF inside room]
      by (auto simp: some_read_def sound_read_def split: if_splits)
  next
    case (Read_count n)
    then have "read_bytes_w w n r = read_bytes n r" using fit inside by (simp add: read_bytes_w_eq counts_fit_def)
    then show ?thesis using run Read_count sound_read_bytes [of n] by (auto simp: some_read_def sound_read_def)
  next
    case (Read_into n)
    then show ?thesis using run sound_read_bytes_into [of n] by (auto simp: some_read_def sound_read_def)
  next
    case (Skip_bytes n)
    then show ?thesis
      using run by (auto simp: skip_def has_remaining_def remaining_def reader_le_def split: if_splits)
  qed
  have "rd_ok r' \<longleftrightarrow> rd_ok r \<and> b"
  proof (cases p)
    case (Read_val t)
    then show ?thesis
      using run flag_val [of t] flag_string [of w] by (auto simp: some_read_def flag_read_def split: if_splits)
  next
    case (Read_count n)
    then show ?thesis using run by (auto simp: some_read_def read_bytes_w_def split: if_splits)
  next
    case (Read_into n)
    then show ?thesis using run by (auto simp: some_read_def read_bytes_into_def has_remaining_def split: if_splits)
  next
    case (Skip_bytes n)
    then show ?thesis using run by (auto simp: skip_def has_remaining_def split: if_splits)
  qed
  then show ?thesis using le inside by (simp add: reader_le_def)
qed

text \<open>
  C27: in a \<open>std::size_t\<close> of \<open>w\<close> bits, with a buffer that leaves room for a 32-bit length and counts that keep to it:
  no sequence of typed reads, \<open>read_bytes\<close> of both forms and skips, on any bytes, takes the reader out of its buffer,
  moves it backward or changes the bytes; and the reader is ok afterwards exactly when it was before and every one of
  them gave what was asked. Once it is not ok, every read but \<open>read_bytes\<close> of a count fails and moves nothing.
\<close>

theorem reads_stay_inside:
  assumes "rd_offset r \<le> length (rd_data r)" and "length (rd_data r) + 2 ^ 32 \<le> 2 ^ w"
    and "\<forall>p \<in> set ps. counts_fit w p r"
  shows "(case run_reads w ps r of (bs, r') \<Rightarrow>
      rd_offset r \<le> rd_offset r' \<and> rd_offset r' \<le> length (rd_data r) \<and> rd_data r' = rd_data r
      \<and> (rd_ok r' \<longleftrightarrow> rd_ok r \<and> False \<notin> set bs))
    \<and> (\<forall>p. \<not> rd_ok r \<longrightarrow> (\<forall>n. p \<noteq> Read_count n) \<longrightarrow> run_read w p r = (False, r))"
proof (intro conjI allI impI)
  show "case run_reads w ps r of (bs, r') \<Rightarrow>
      rd_offset r \<le> rd_offset r' \<and> rd_offset r' \<le> length (rd_data r) \<and> rd_data r' = rd_data r
      \<and> (rd_ok r' \<longleftrightarrow> rd_ok r \<and> False \<notin> set bs)"
    using assms
  proof (induction ps arbitrary: r)
    case (Cons p ps)
    obtain b r1 where p: "run_read w p r = (b, r1)" by (metis surj_pair)
    have one: "rd_offset r \<le> rd_offset r1 \<and> rd_offset r1 \<le> length (rd_data r) \<and> rd_data r1 = rd_data r
        \<and> (rd_ok r1 \<longleftrightarrow> rd_ok r \<and> b)"
      by (rule run_read_sound [OF Cons.prems(1,2) _ p]) (use Cons.prems(3) in simp)
    obtain bs r2 where ps: "run_reads w ps r1 = (bs, r2)" by (metis surj_pair)
    have "\<forall>p \<in> set ps. counts_fit w p r1" using Cons.prems(3) one counts_fit_same [of r1 r] by simp
    with Cons.IH [of r1] one Cons.prems(2) ps
    have "rd_offset r1 \<le> rd_offset r2 \<and> rd_offset r2 \<le> length (rd_data r1) \<and> rd_data r2 = rd_data r1
        \<and> (rd_ok r2 \<longleftrightarrow> rd_ok r1 \<and> False \<notin> set bs)" by simp
    then show ?case using one by (simp add: p ps)
  qed simp
  show "run_read w p r = (False, r)" if ok: "\<not> rd_ok r" and p: "\<forall>n. p \<noteq> Read_count n" for p
  proof (cases p)
    case (Read_val t)
    have "read_string_w w r = (None, r)" "t \<noteq> T_string \<Longrightarrow> read_val t r = (None, r)"
      using ok flag_val [of t] flag_string [of w] by (simp_all add: flag_read_def)
    then show ?thesis by (simp add: Read_val some_read_def)
  qed (use ok p in \<open>simp_all add: some_read_def read_bytes_into_def skip_def has_remaining_def\<close>)
qed

theorem reads_stay_inside_witness:
  "\<not> rd_ok (snd (run_reads 64 [Read_val T_u8, Read_count 1, Read_val T_u32, Skip_bytes 1] (new_reader [7, 1, 2])))
   \<and> rd_offset (snd (run_reads 64 [Read_val T_u8, Read_count 1, Read_val T_u32, Skip_bytes 1] (new_reader [7, 1, 2]))) \<le> 3"
proof -
  let ?r = "new_reader [7, 1, 2]"
  let ?ps = "[Read_val T_u8, Read_count 1, Read_val T_u32, Skip_bytes 1]"
  have "run_reads 64 ?ps ?r = ([True, True, False, False], ?r\<lparr>rd_offset := 2, rd_ok := False\<rparr>)"
    by (simp add: new_reader_def some_read_def read_u8_def read_u32_def read_raw_le_def read_bytes_w_def size_sum_def
        skip_def has_remaining_def)
  then have "False \<in> set (fst (run_reads 64 ?ps ?r))" by simp
  moreover have "rd_offset ?r \<le> length (rd_data ?r)" "length (rd_data ?r) + 2 ^ 32 \<le> 2 ^ 64"
    "\<forall>p \<in> set ?ps. counts_fit 64 p ?r" by (simp_all add: new_reader_def counts_fit_def)
  note all = conjunct1 [OF reads_stay_inside [OF this]]
  have "length (rd_data ?r) = 3" by (simp add: new_reader_def)
  ultimately show ?thesis using all unfolding case_prod_unfold by metis
qed

text \<open>
  Where \<open>std::size_t\<close> has 32 bits, as in a WebAssembly build, a length of almost 4 GiB passes the check in a
  buffer of 8 bytes, and the reader stands at 3, before its length.
\<close>

lemma string_check_width:
  "read_string_w 32 (new_reader [0xFF, 0xFF, 0xFF, 0xFF, 1, 2, 3, 4])
    = (Some [1, 2, 3, 4], (new_reader [0xFF, 0xFF, 0xFF, 0xFF, 1, 2, 3, 4])\<lparr>rd_offset := 3\<rparr>)"
  by (simp add: new_reader_def read_string_w_def read_u32_def read_raw_le_def size_sum_def)

end
