(* ===== verification/Net_Types.thy ===== *)
theory Net_Types
  imports Wire_Values
begin

section \<open>Names and constants of the network module\<close>

text \<open>
  \<^verbatim>\<open>include/engine/net/network_transport.h\<close>, \<^verbatim>\<open>net_messages.h\<close>, \<^verbatim>\<open>net_tick.h\<close>,
  \<^verbatim>\<open>network_identity.h\<close> and \<^verbatim>\<open>net_id.h\<close>: the types the network components share, the
  transport's vocabulary, the message ids and limits, and the generator of entity ids.
\<close>

type_synonym peer_id = u64
type_synonym net_id = u32
type_synonym tick = u32
type_synonym message_id = u16
type_synonym payload_id = u32

definition kInvalidPeerId :: peer_id where "kInvalidPeerId = 0"
definition kServerPeerId :: peer_id where "kServerPeerId = 1"
definition kInvalidNetId :: net_id where "kInvalidNetId = 0"
definition kNoTick :: tick where "kNoTick = 0"
definition kInvalidMessageId :: message_id where "kInvalidMessageId = 0"
definition kNoPayload :: payload_id where "kNoPayload = 0"

datatype delivery_mode = Unreliable | UnreliableImmediate | ReliableOrdered

datatype event_type = Connected | Disconnected | DataReceived

datatype disconnect_reason = NoReason | ClosedByPeer | Timeout | ConnectionFailed | Kicked

record transport_event =
  ev_type :: event_type
  ev_peer :: peer_id
  ev_payload :: bytes
  ev_reason :: disconnect_reason

definition kEngineMessageFirst :: message_id where "kEngineMessageFirst = 0x0100"
definition kEngineMessageLast :: message_id where "kEngineMessageLast = 0x01FF"
definition kWelcomeMessageId :: message_id where "kWelcomeMessageId = 0x0100"
definition kSnapshotMessageId :: message_id where "kSnapshotMessageId = 0x0101"
definition kSnapshotAckMessageId :: message_id where "kSnapshotAckMessageId = 0x0102"
definition kInputMessageId :: message_id where "kInputMessageId = 0x0103"
definition kPayloadBeginMessageId :: message_id where "kPayloadBeginMessageId = 0x0104"
definition kPayloadFragmentMessageId :: message_id where "kPayloadFragmentMessageId = 0x0105"
definition kPayloadCancelMessageId :: message_id where "kPayloadCancelMessageId = 0x0106"
definition kPayloadAckMessageId :: message_id where "kPayloadAckMessageId = 0x0107"
definition kNetProtocolVersion :: u16 where "kNetProtocolVersion = 3"

definition kSnapshotWindowTicks :: tick where "kSnapshotWindowTicks = 128"
definition kPayloadFragmentBytes :: nat where "kPayloadFragmentBytes = 1024"
definition kMaxInputLeadTicks :: tick where "kMaxInputLeadTicks = 64"
definition kPredictionRingTicks :: nat where "kPredictionRingTicks = 128"
definition kMaxInputsPerMessage :: nat where "kMaxInputsPerMessage = 32"
definition kMaxInputEntities :: nat where "kMaxInputEntities = 8"
definition kMaxInputBytes :: nat where "kMaxInputBytes = 256"
definition kNoInputSlack :: int where "kNoInputSlack = -128"

text \<open>The ids in the engine's own range.\<close>

definition engine_message :: "message_id \<Rightarrow> bool" where
  "engine_message m \<longleftrightarrow> kEngineMessageFirst \<le> m \<and> m \<le> kEngineMessageLast"

lemmas message_ids =
  kWelcomeMessageId_def kSnapshotMessageId_def kSnapshotAckMessageId_def kInputMessageId_def
  kPayloadBeginMessageId_def kPayloadFragmentMessageId_def kPayloadCancelMessageId_def
  kPayloadAckMessageId_def kEngineMessageFirst_def kEngineMessageLast_def kInvalidMessageId_def

subsection \<open>NetIdGenerator\<close>

record net_id_generator =
  next_id :: net_id

definition new_generator :: "net_id \<Rightarrow> net_id_generator" where
  "new_generator start = \<lparr>next_id = (if start = 0 then 1 else start)\<rparr>"

definition gen_next :: "net_id_generator \<Rightarrow> net_id \<times> net_id_generator" where
  "gen_next g =
     (let i = next_id g; n = i + 1
      in (i, g\<lparr>next_id := (if n = 0 then 1 else n)\<rparr>))"

definition gen_reset :: "net_id \<Rightarrow> net_id_generator \<Rightarrow> net_id_generator" where
  "gen_reset start g = g\<lparr>next_id := (if start = 0 then 1 else start)\<rparr>"

fun gen_ids :: "nat \<Rightarrow> net_id_generator \<Rightarrow> net_id list \<times> net_id_generator" where
  "gen_ids 0 g = ([], g)"
| "gen_ids (Suc n) g =
     (let (i, g1) = gen_next g; (is, g2) = gen_ids n g1 in (i # is, g2))"

text \<open>
  The ids a generator gives are a walk around the circle of the \<open>2 ^ 32 - 1\<close> non-zero ids: in
  the coordinate \<open>unat id - 1\<close> each step adds one modulo \<open>2 ^ 32 - 1\<close>.
\<close>

definition gen_pos :: "net_id_generator \<Rightarrow> nat" where
  "gen_pos g = unat (next_id g) - 1"

definition pos_id :: "nat \<Rightarrow> net_id" where
  "pos_id k = of_nat (k mod (2 ^ 32 - 1) + 1)"

lemma pos_id_nonzero: "pos_id k \<noteq> 0"
proof -
  have "k mod (2 ^ 32 - 1) + 1 < 2 ^ 32" by (simp add: less_Suc_eq_le)
  then have "unat (pos_id k) = k mod (2 ^ 32 - 1) + 1"
    unfolding pos_id_def by (subst unat_of_nat) simp
  then show ?thesis by (metis add_gr_0 less_numeral_extra(1) not_gr_zero unsigned_0)
qed

lemma unat_pos_id: "unat (pos_id k) = k mod (2 ^ 32 - 1) + 1"
proof -
  have "k mod (2 ^ 32 - 1) + 1 < 2 ^ 32" by (simp add: less_Suc_eq_le)
  then show ?thesis unfolding pos_id_def by (subst unat_of_nat) simp
qed

lemma gen_next_pos:
  assumes "next_id g = pos_id k"
  shows "fst (gen_next g) = pos_id k" and "next_id (snd (gen_next g)) = pos_id (Suc k)"
proof -
  show "fst (gen_next g) = pos_id k" by (simp add: gen_next_def Let_def assms)
  have u: "unat (next_id g) = k mod (2 ^ 32 - 1) + 1" by (simp add: assms unat_pos_id)
  show "next_id (snd (gen_next g)) = pos_id (Suc k)"
  proof (cases "k mod (2 ^ 32 - 1) + 1 = 2 ^ 32 - 1")
    case True
    then have "unat (next_id g) = 2 ^ 32 - 1" using u by simp
    then have "next_id g = - 1" by (simp add: word_unat_eq_iff unsigned_minus_1_eq_mask mask_eq_exp_minus_1)
    moreover have "Suc k mod (2 ^ 32 - 1) = 0" using True by (simp add: mod_Suc)
    ultimately show ?thesis by (simp add: gen_next_def Let_def pos_id_def)
  next
    case False
    then have s: "Suc k mod (2 ^ 32 - 1) = k mod (2 ^ 32 - 1) + 1" by (simp add: mod_Suc)
    have "pos_id (Suc k) = next_id g + 1"
      unfolding assms pos_id_def s by simp
    then show ?thesis using pos_id_nonzero [of "Suc k"] by (simp add: gen_next_def Let_def)
  qed
qed

lemma gen_ids_pos:
  "next_id g = pos_id k \<Longrightarrow> fst (gen_ids n g) = map pos_id [k..<k + n]"
proof (induction n arbitrary: g k)
  case 0
  then show ?case by simp
next
  case (Suc n)
  obtain i g1 where g1: "gen_next g = (i, g1)" by (cases "gen_next g")
  obtain js g2 where g2: "gen_ids n g1 = (js, g2)" by (cases "gen_ids n g1")
  have "i = pos_id k" and "next_id g1 = pos_id (Suc k)"
    using gen_next_pos [OF Suc.prems] g1 by simp_all
  moreover have "js = map pos_id [Suc k..<Suc k + n]"
    using Suc.IH [OF \<open>next_id g1 = pos_id (Suc k)\<close>] g2 by simp
  moreover have "[k..<k + Suc n] = k # [Suc k..<Suc k + n]"
    by (simp add: upt_conv_Cons del: upt_Suc)
  ultimately show ?case by (simp add: g1 g2 del: upt_Suc)
qed

lemma new_generator_pos: "\<exists>k. next_id (new_generator start) = pos_id k"
proof -
  let ?i = "next_id (new_generator start)"
  have nz: "?i \<noteq> 0" by (simp add: new_generator_def)
  then have pos: "0 < unat ?i" by (simp add: unat_gt_0)
  have "unat ?i < 2 ^ 32" using unsigned_less [of ?i] by simp
  then have "(unat ?i - 1) mod (2 ^ 32 - 1) = unat ?i - 1" using pos by simp
  then have "pos_id (unat ?i - 1) = ?i" using pos by (simp add: pos_id_def)
  then show ?thesis by metis
qed

text \<open>
  the entity ids a generator hands out, from whatever start, are never the invalid id 0 and do
  not repeat before \<open>2 ^ 32 - 1\<close> of them have been given.
\<close>

theorem generator_distinct:
  assumes "n \<le> 2 ^ 32 - 1"
  shows "distinct (fst (gen_ids n (new_generator start))) \<and>
    kInvalidNetId \<notin> set (fst (gen_ids n (new_generator start)))"
proof -
  obtain k where k: "next_id (new_generator start) = pos_id k"
    using new_generator_pos by blast
  have "inj_on pos_id {k..<k + n}"
  proof (rule inj_onI)
    fix x y
    assume xy: "x \<in> {k..<k + n}" "y \<in> {k..<k + n}" and eq: "pos_id x = pos_id y"
    from eq have m: "x mod (2 ^ 32 - 1) = y mod (2 ^ 32 - 1)"
      by (metis add_right_imp_eq unat_pos_id)
    have step: "a = b" if "a \<le> b" "b < a + n" "a mod (2 ^ 32 - 1) = b mod (2 ^ 32 - 1)" for a b :: nat
    proof -
      have "(2 ^ 32 - 1) dvd (b - a)"
        using that(1,3) mod_eq_dvd_iff_nat [of a b "2 ^ 32 - 1"] by metis
      moreover have "b - a < 2 ^ 32 - 1" using that assms by linarith
      ultimately have "b - a = 0" by (meson dvd_imp_le linorder_not_less not_gr_zero)
      with that show ?thesis by simp
    qed
    show "x = y"
    proof (cases "x \<le> y")
      case True
      then show ?thesis using step [of x y] xy m by simp
    next
      case False
      then show ?thesis using step [of y x] xy m by simp
    qed
  qed
  then show ?thesis
    using pos_id_nonzero by (auto simp: gen_ids_pos [OF k] distinct_map kInvalidNetId_def)
qed

theorem generator_distinct_witness:
  "distinct (fst (gen_ids 3 (new_generator (- 1)))) \<and>
   fst (gen_ids 3 (new_generator (- 1))) = [- 1, 1, 2]"
  using generator_distinct [of 3 "- 1"]
  by (simp add: gen_next_def new_generator_def Let_def numeral_3_eq_3)

end
