(* ===== verification/Loopback.thy ===== *)
theory Loopback
  imports Net_Types
begin

section \<open>The loopback transport\<close>

text \<open>
  \<^verbatim>\<open>src/net/loopback_bus.cpp\<close> and \<^verbatim>\<open>src/net/loopback_transport.cpp\<close>. A transport object is a
  number (its address), the state holds every transport and the bus, and a method takes the number
  of the object it runs on. A method runs as one step: the code guards the bus, the connection
  table and the event queue of every object with a mutex. The order in which an
  \<open>std::unordered_map\<close> gives its entries to \<open>stop\<close> is an argument of \<open>stop\<close>.
\<close>

record loop_conn =
  remote_peer_id :: peer_id
  endpoint :: "nat option"

record loop_transport =
  lt_running :: bool
  lt_server :: bool
  lt_port :: u16
  lt_conns :: "peer_id \<rightharpoonup> loop_conn"
  lt_next_peer :: peer_id
  lt_queue :: "transport_event list"

record loop_net =
  bus :: "u16 \<rightharpoonup> nat"
  transports :: "nat \<Rightarrow> loop_transport"

definition new_transport :: loop_transport where
  "new_transport = \<lparr>lt_running = False, lt_server = False, lt_port = 0, lt_conns = Map.empty,
     lt_next_peer = kServerPeerId + 1, lt_queue = []\<rparr>"

definition init_net :: loop_net where
  "init_net = \<lparr>bus = Map.empty, transports = (\<lambda>_. new_transport)\<rparr>"

definition upd :: "nat \<Rightarrow> (loop_transport \<Rightarrow> loop_transport) \<Rightarrow> loop_net \<Rightarrow> loop_net" where
  "upd t f net = net\<lparr>transports := (transports net)(t := f (transports net t))\<rparr>"

subsection \<open>The bus\<close>

definition register_server :: "u16 \<Rightarrow> nat \<Rightarrow> loop_net \<Rightarrow> bool \<times> loop_net" where
  "register_server port server net =
     (if port = 0 then (False, net)
      else if bus net port \<noteq> None then (False, net)
      else (True, net\<lparr>bus := (bus net)(port \<mapsto> server)\<rparr>))"

definition unregister_server :: "u16 \<Rightarrow> nat \<Rightarrow> loop_net \<Rightarrow> loop_net" where
  "unregister_server port server net =
     (if bus net port = Some server then net\<lparr>bus := (bus net)(port := None)\<rparr> else net)"

definition find_server :: "u16 \<Rightarrow> loop_net \<Rightarrow> nat option" where
  "find_server port net = bus net port"

subsection \<open>The transport's methods\<close>

definition enqueue_event :: "nat \<Rightarrow> transport_event \<Rightarrow> loop_net \<Rightarrow> loop_net" where
  "enqueue_event t ev = upd t (\<lambda>x. x\<lparr>lt_queue := lt_queue x @ [ev]\<rparr>)"

definition start_server :: "nat \<Rightarrow> u16 \<Rightarrow> loop_net \<Rightarrow> bool \<times> loop_net" where
  "start_server t port net =
     (if lt_running (transports net t) then (False, net)
      else (case register_server port t net of
              (False, net') \<Rightarrow> (False, net')
            | (True, net') \<Rightarrow>
                (True, upd t (\<lambda>x. x\<lparr>lt_port := port, lt_server := True, lt_running := True\<rparr>) net')))"

definition accept_loopback_client :: "nat \<Rightarrow> nat \<Rightarrow> loop_net \<Rightarrow> peer_id option \<times> loop_net" where
  "accept_loopback_client s client net =
     (if \<not> lt_running (transports net s) \<or> \<not> lt_server (transports net s) then (None, net)
      else
        (let i = lt_next_peer (transports net s);
             net1 = upd s (\<lambda>x. x\<lparr>lt_next_peer := i + 1,
               lt_conns := (if lt_conns x i = None
                 then (lt_conns x)(i \<mapsto> \<lparr>remote_peer_id = kServerPeerId, endpoint = Some client\<rparr>)
                 else lt_conns x)\<rparr>) net
         in (Some i, enqueue_event s
              \<lparr>ev_type = Connected, ev_peer = i, ev_payload = [], ev_reason = NoReason\<rparr> net1)))"

definition connect_failed :: "nat \<Rightarrow> loop_net \<Rightarrow> bool \<times> loop_net" where
  "connect_failed t net =
     (False, upd t (\<lambda>x. x\<lparr>lt_running := False\<rparr>)
        (enqueue_event t \<lparr>ev_type = Disconnected, ev_peer = kServerPeerId, ev_payload = [],
           ev_reason = ConnectionFailed\<rparr> net))"

definition connect :: "nat \<Rightarrow> u16 \<Rightarrow> loop_net \<Rightarrow> bool \<times> loop_net" where
  "connect t port net =
     (if lt_running (transports net t) then (False, net)
      else
        (let net1 = upd t (\<lambda>x. x\<lparr>lt_server := False, lt_running := True, lt_port := port\<rparr>) net
         in case find_server port net1 of
              None \<Rightarrow> connect_failed t net1
            | Some s \<Rightarrow>
                (case accept_loopback_client s t net1 of
                   (None, net2) \<Rightarrow> connect_failed t net2
                 | (Some i, net2) \<Rightarrow>
                     (True, enqueue_event t
                        \<lparr>ev_type = Connected, ev_peer = kServerPeerId, ev_payload = [],
                          ev_reason = NoReason\<rparr>
                        (upd t (\<lambda>x. x\<lparr>lt_conns := (if lt_conns x kServerPeerId = None
                           then (lt_conns x)(kServerPeerId \<mapsto> \<lparr>remote_peer_id = i, endpoint = Some s\<rparr>)
                           else lt_conns x)\<rparr>) net2)))))"

definition notify_peer_disconnected :: "nat \<Rightarrow> peer_id \<Rightarrow> disconnect_reason \<Rightarrow> loop_net \<Rightarrow> loop_net" where
  "notify_peer_disconnected t p reason net =
     enqueue_event t \<lparr>ev_type = Disconnected, ev_peer = p, ev_payload = [], ev_reason = reason\<rparr>
       (upd t (\<lambda>x. x\<lparr>lt_conns := (lt_conns x)(p := None)\<rparr>) net)"

definition notify_endpoint :: "loop_conn \<Rightarrow> loop_net \<Rightarrow> loop_net" where
  "notify_endpoint c net =
     (case endpoint c of
        None \<Rightarrow> net
      | Some e \<Rightarrow> notify_peer_disconnected e (remote_peer_id c) ClosedByPeer net)"

definition disconnect :: "nat \<Rightarrow> peer_id \<Rightarrow> loop_net \<Rightarrow> loop_net" where
  "disconnect t p net =
     (case lt_conns (transports net t) p of
        None \<Rightarrow> net
      | Some c \<Rightarrow>
          enqueue_event t \<lparr>ev_type = Disconnected, ev_peer = p, ev_payload = [],
              ev_reason = ClosedByPeer\<rparr>
            (notify_endpoint c (upd t (\<lambda>x. x\<lparr>lt_conns := (lt_conns x)(p := None)\<rparr>) net)))"

primrec close_all :: "(peer_id \<rightharpoonup> loop_conn) \<Rightarrow> nat \<Rightarrow> peer_id list \<Rightarrow> loop_net \<Rightarrow> loop_net" where
  "close_all conns t [] net = net"
| "close_all conns t (p # ps) net =
     close_all conns t ps
       (case conns p of
          None \<Rightarrow> net
        | Some c \<Rightarrow>
            enqueue_event t \<lparr>ev_type = Disconnected, ev_peer = p, ev_payload = [],
              ev_reason = ClosedByPeer\<rparr> (notify_endpoint c net))"

definition stop :: "peer_id list \<Rightarrow> nat \<Rightarrow> loop_net \<Rightarrow> loop_net" where
  "stop order t net =
     (if \<not> lt_running (transports net t) then net
      else
        (let tr = transports net t;
             net1 = upd t (\<lambda>x. x\<lparr>lt_running := False, lt_conns := Map.empty\<rparr>) net;
             net2 = (if lt_server tr then unregister_server (lt_port tr) t net1 else net1)
         in close_all (lt_conns tr) t order net2))"

definition receive_incoming_data :: "nat \<Rightarrow> peer_id \<Rightarrow> bytes \<Rightarrow> loop_net \<Rightarrow> loop_net" where
  "receive_incoming_data t sender d =
     enqueue_event t \<lparr>ev_type = DataReceived, ev_peer = sender, ev_payload = d, ev_reason = NoReason\<rparr>"

definition send :: "nat \<Rightarrow> peer_id \<Rightarrow> bytes \<Rightarrow> delivery_mode \<Rightarrow> loop_net \<Rightarrow> bool \<times> loop_net" where
  "send t target d mode net =
     (if \<not> lt_running (transports net t) then (False, net)
      else (case lt_conns (transports net t) target of
              None \<Rightarrow> (False, net)
            | Some c \<Rightarrow>
                (case endpoint c of
                   None \<Rightarrow> (False, net)
                 | Some e \<Rightarrow> (True, receive_incoming_data e (remote_peer_id c) d net))))"

text \<open>\<open>poll_events\<close> takes the whole queue; the events go to the callback in this order.\<close>

definition poll_events :: "nat \<Rightarrow> loop_net \<Rightarrow> transport_event list \<times> loop_net" where
  "poll_events t net = (lt_queue (transports net t), upd t (\<lambda>x. x\<lparr>lt_queue := []\<rparr>) net)"

definition connected :: "nat \<Rightarrow> peer_id \<Rightarrow> loop_net \<Rightarrow> bool" where
  \<comment> \<open>\<open>rtt_ms\<close> is 0 exactly for these peers, and -1 for the others.\<close>
  "connected t p net = (lt_conns (transports net t) p \<noteq> None)"

definition pending_send_bytes :: "nat \<Rightarrow> peer_id \<Rightarrow> loop_net \<Rightarrow> nat" where
  "pending_send_bytes t p net = 0"

subsection \<open>The connection tables agree\<close>

lemma transports_upd [simp]:
  "transports (upd t f net) u = (if u = t then f (transports net t) else transports net u)"
  and bus_upd [simp]: "bus (upd t f net) = bus net"
  by (simp_all add: upd_def)

lemma enqueue_event_sel [simp]:
  "bus (enqueue_event t ev net) = bus net"
  "lt_conns (transports (enqueue_event t ev net) u) = lt_conns (transports net u)"
  "lt_running (transports (enqueue_event t ev net) u) = lt_running (transports net u)"
  "lt_server (transports (enqueue_event t ev net) u) = lt_server (transports net u)"
  "lt_port (transports (enqueue_event t ev net) u) = lt_port (transports net u)"
  "lt_next_peer (transports (enqueue_event t ev net) u) = lt_next_peer (transports net u)"
  by (simp_all add: enqueue_event_def)

text \<open>
  \<open>link net t p e q\<close>: object \<open>t\<close> knows object \<open>e\<close> as peer \<open>p\<close>, and believes that \<open>e\<close> knows it
  as \<open>q\<close>. The invariant: whatever one side holds, the other side holds the mirror image of; a
  transport that does not run has no connection; the bus names running servers on their port; and
  a server has given out only ids below its counter.
\<close>

definition link :: "loop_net \<Rightarrow> nat \<Rightarrow> peer_id \<Rightarrow> nat \<Rightarrow> peer_id \<Rightarrow> bool" where
  "link net t p e q \<longleftrightarrow>
     lt_conns (transports net t) p = Some \<lparr>remote_peer_id = q, endpoint = Some e\<rparr>"

definition linked :: "loop_net \<Rightarrow> bool" where
  "linked net \<longleftrightarrow>
     (\<forall>t p c. lt_conns (transports net t) p = Some c \<longrightarrow> endpoint c \<noteq> None) \<and>
     (\<forall>t p e q. link net t p e q \<longrightarrow> link net e q t p)"

definition loop_inv :: "loop_net \<Rightarrow> bool" where
  "loop_inv net \<longleftrightarrow>
     linked net \<and>
     (\<forall>t. \<not> lt_running (transports net t) \<longrightarrow> lt_conns (transports net t) = Map.empty) \<and>
     (\<forall>port t. bus net port = Some t \<longrightarrow>
        lt_running (transports net t) \<and> lt_server (transports net t) \<and> lt_port (transports net t) = port) \<and>
     (\<forall>t p. lt_conns (transports net t) p \<noteq> None \<longrightarrow> p < lt_next_peer (transports net t)) \<and>
     (\<forall>t. kServerPeerId < lt_next_peer (transports net t))"

lemma loop_invD:
  assumes "loop_inv net"
  shows "linked net"
    and "\<And>t. \<not> lt_running (transports net t) \<Longrightarrow> lt_conns (transports net t) = Map.empty"
    and "\<And>port t. bus net port = Some t \<Longrightarrow>
      lt_running (transports net t) \<and> lt_server (transports net t) \<and> lt_port (transports net t) = port"
    and "\<And>t p c. lt_conns (transports net t) p = Some c \<Longrightarrow> p < lt_next_peer (transports net t)"
    and "\<And>t. kServerPeerId < lt_next_peer (transports net t)"
  using assms unfolding loop_inv_def by auto

lemma loop_invI:
  assumes "linked net"
    and "\<And>t. \<not> lt_running (transports net t) \<Longrightarrow> lt_conns (transports net t) = Map.empty"
    and "\<And>port t. bus net port = Some t \<Longrightarrow>
      lt_running (transports net t) \<and> lt_server (transports net t) \<and> lt_port (transports net t) = port"
    and "\<And>t p c. lt_conns (transports net t) p = Some c \<Longrightarrow> p < lt_next_peer (transports net t)"
    and "\<And>t. kServerPeerId < lt_next_peer (transports net t)"
  shows "loop_inv net"
  using assms unfolding loop_inv_def by auto

lemma loop_inv_init: "loop_inv init_net"
  by (simp add: loop_inv_def linked_def link_def init_net_def new_transport_def kServerPeerId_def)

lemma link_endpoint:
  "linked net \<Longrightarrow> lt_conns (transports net t) p = Some c \<Longrightarrow> \<exists>e. link net t p e (remote_peer_id c) \<and> endpoint c = Some e"
proof -
  assume "linked net" and c: "lt_conns (transports net t) p = Some c"
  then have "endpoint c \<noteq> None" unfolding linked_def by blast
  then obtain e where e: "endpoint c = Some e" by blast
  then have "c = \<lparr>remote_peer_id = remote_peer_id c, endpoint = Some e\<rparr>" by simp
  with c e show ?thesis unfolding link_def by metis
qed

lemma linked_cong:
  "(\<And>u. lt_conns (transports net' u) = lt_conns (transports net u)) \<Longrightarrow> linked net' = linked net"
  by (simp add: linked_def link_def)

lemma loop_inv_cong:
  assumes "\<And>u. lt_conns (transports net' u) = lt_conns (transports net u)"
    and "\<And>u. lt_running (transports net' u) = lt_running (transports net u)"
    and "\<And>u. lt_server (transports net' u) = lt_server (transports net u)"
    and "\<And>u. lt_port (transports net' u) = lt_port (transports net u)"
    and "\<And>u. lt_next_peer (transports net' u) = lt_next_peer (transports net u)"
    and "bus net' = bus net"
  shows "loop_inv net' = loop_inv net"
  by (simp add: loop_inv_def linked_def link_def assms)

lemma loop_inv_enqueue [simp]: "loop_inv (enqueue_event t ev net) = loop_inv net"
  by (rule loop_inv_cong) simp_all

lemma loop_inv_poll: "loop_inv (snd (poll_events t net)) = loop_inv net"
  by (rule loop_inv_cong) (simp_all add: poll_events_def)

lemma loop_inv_send: "loop_inv net \<Longrightarrow> loop_inv (snd (send t p d m net))"
  by (simp add: send_def receive_incoming_data_def split: option.split)

lemma start_server_cases:
  assumes "start_server t port net = (ok, net')"
  shows "net' = net \<and> \<not> ok \<or>
    ok \<and> \<not> lt_running (transports net t) \<and> bus net port = None \<and>
    net' = upd t (\<lambda>x. x\<lparr>lt_port := port, lt_server := True, lt_running := True\<rparr>)
      (net\<lparr>bus := (bus net)(port \<mapsto> t)\<rparr>)"
  using assms by (auto simp: start_server_def register_server_def split: if_splits)

lemma loop_inv_start_server:
  assumes inv: "loop_inv net"
  shows "loop_inv (snd (start_server t port net))"
proof -
  obtain ok net' where r: "start_server t port net = (ok, net')"
    by (cases "start_server t port net")
  show ?thesis
  proof (cases "net' = net")
    case True
    with r inv show ?thesis by simp
  next
    case False
    then have n: "\<not> lt_running (transports net t)"
      and eq: "net' = upd t (\<lambda>x. x\<lparr>lt_port := port, lt_server := True, lt_running := True\<rparr>)
        (net\<lparr>bus := (bus net)(port \<mapsto> t)\<rparr>)"
      using start_server_cases [OF r] by auto
    have "linked net' = linked net" by (rule linked_cong) (simp add: eq)
    moreover have "lt_running (transports net u)" if "bus net k = Some u" for k u
      using inv that by (simp add: loop_inv_def)
    ultimately have "loop_inv net'"
      using inv n unfolding loop_inv_def by (auto simp: eq split: if_splits)
    with r show ?thesis by simp
  qed
qed

text \<open>Removing one connection on both of its sides keeps the tables in step.\<close>

lemma link_unique: "link net t p e q \<Longrightarrow> link net t p e' q' \<Longrightarrow> e' = e \<and> q' = q"
  by (simp add: link_def)

lemma linked_remove:
  assumes lk: "linked net" and l: "link net t p e q"
    and conns: "\<And>u. lt_conns (transports net' u) =
      (\<lambda>k. if u = t \<and> k = p \<or> u = e \<and> k = q then None else lt_conns (transports net u) k)"
  shows "linked net'"
proof -
  have keep: "link net' u k v j \<longleftrightarrow> link net u k v j \<and> \<not> (u = t \<and> k = p \<or> u = e \<and> k = q)" for u k v j
    by (auto simp: link_def conns)
  have l': "link net e q t p" using lk l by (auto simp: linked_def)
  have sym: "link net' v j u k" if "link net' u k v j" for u k v j
  proof -
    from that have luv: "link net u k v j" and ne: "\<not> (u = t \<and> k = p \<or> u = e \<and> k = q)"
      by (simp_all add: keep)
    from luv lk have lvu: "link net v j u k" by (auto simp: linked_def)
    have "\<not> (v = t \<and> j = p)" using link_unique [OF l, of u k] lvu ne by auto
    moreover have "\<not> (v = e \<and> j = q)" using link_unique [OF l', of u k] lvu ne by auto
    ultimately show ?thesis using lvu by (simp add: keep)
  qed
  moreover have "endpoint c \<noteq> None" if "lt_conns (transports net' u) k = Some c" for u k c
    using that lk by (auto simp: conns linked_def split: if_splits)
  ultimately show ?thesis by (auto simp: linked_def)
qed

lemma loop_inv_disconnect:
  assumes inv: "loop_inv net"
  shows "loop_inv (disconnect t p net)"
proof (cases "lt_conns (transports net t) p")
  case None
  then show ?thesis using inv by (simp add: disconnect_def)
next
  case (Some c)
  have lk: "linked net" using inv by (simp add: loop_inv_def)
  obtain e where l: "link net t p e (remote_peer_id c)" and c: "endpoint c = Some e"
    using link_endpoint [OF lk Some] by blast
  let ?net = "disconnect t p net"
  have eq: "lt_conns (transports ?net u) =
      (\<lambda>k. if u = t \<and> k = p \<or> u = e \<and> k = remote_peer_id c then None
           else lt_conns (transports net u) k)" for u
    by (auto simp: disconnect_def Some c notify_endpoint_def notify_peer_disconnected_def)
  have same: "bus ?net = bus net"
    "lt_running (transports ?net u) = lt_running (transports net u)"
    "lt_server (transports ?net u) = lt_server (transports net u)"
    "lt_port (transports ?net u) = lt_port (transports net u)"
    "lt_next_peer (transports ?net u) = lt_next_peer (transports net u)" for u
    by (simp_all add: disconnect_def Some c notify_endpoint_def notify_peer_disconnected_def)
  show ?thesis
    using inv linked_remove [OF lk l eq] by (auto simp: loop_inv_def eq same)
qed

text \<open>Adding the two halves of a new connection keeps them in step, too.\<close>

lemma linked_add:
  assumes lk: "linked net" and te: "t \<noteq> e"
    and free: "lt_conns (transports net t) p = None" "lt_conns (transports net e) q = None"
    and conns: "\<And>u. lt_conns (transports net' u) =
      (\<lambda>k. if u = t \<and> k = p then Some \<lparr>remote_peer_id = q, endpoint = Some e\<rparr>
           else if u = e \<and> k = q then Some \<lparr>remote_peer_id = p, endpoint = Some t\<rparr>
           else lt_conns (transports net u) k)"
  shows "linked net'"
proof -
  have old: "link net' u k v j \<longleftrightarrow> link net u k v j"
    if "\<not> (u = t \<and> k = p)" "\<not> (u = e \<and> k = q)" for u k v j
    using that by (simp only: link_def conns if_False)
  have new1: "link net' t p v j \<longleftrightarrow> v = e \<and> j = q" for v j
    by (auto simp: link_def conns)
  have new2: "link net' e q v j \<longleftrightarrow> v = t \<and> j = p" for v j
    using te by (auto simp: link_def conns)
  have none: "\<not> link net t p v j" "\<not> link net e q v j" for v j
    by (simp_all add: link_def free)
  have sym: "link net' v j u k" if l: "link net' u k v j" for u k v j
  proof (cases "u = t \<and> k = p \<or> u = e \<and> k = q")
    case True
    then show ?thesis using l new1 new2 by auto
  next
    case False
    then have "link net u k v j" using l old by auto
    then have mirror: "link net v j u k" using lk by (auto simp: linked_def)
    then have "\<not> (v = t \<and> j = p)" "\<not> (v = e \<and> j = q)" using none by auto
    then show ?thesis using mirror old by auto
  qed
  moreover have "endpoint c \<noteq> None" if "lt_conns (transports net' u) k = Some c" for u k c
  proof (cases "u = t \<and> k = p \<or> u = e \<and> k = q")
    case True
    then show ?thesis using that by (auto simp: conns split: if_splits)
  next
    case False
    then have "lt_conns (transports net u) k = Some c" using that by (auto simp: conns)
    then show ?thesis using lk unfolding linked_def by blast
  qed
  ultimately show ?thesis by (auto simp: linked_def)
qed

lemma connect_server:
  assumes inv: "loop_inv net" and idle: "\<not> lt_running (transports net t)"
    and srv: "bus net port = Some s"
  shows "s \<noteq> t" and "lt_running (transports net s)" and "lt_server (transports net s)"
    and "lt_conns (transports net s) (lt_next_peer (transports net s)) = None"
    and "lt_conns (transports net t) = Map.empty"
proof -
  show s: "lt_running (transports net s)" "lt_server (transports net s)"
    using inv srv by (auto simp: loop_inv_def)
  then show "s \<noteq> t" using idle by auto
  show "lt_conns (transports net s) (lt_next_peer (transports net s)) = None"
    using loop_invD(4) [OF inv] by fastforce
  show "lt_conns (transports net t) = Map.empty"
    using loop_invD(2) [OF inv] idle by blast
qed

lemma connect_sel:
  assumes inv: "loop_inv net" and idle: "\<not> lt_running (transports net t)"
    and srv: "bus net port = Some s"
  defines "i \<equiv> lt_next_peer (transports net s)"
  shows "fst (connect t port net)"
    and "bus (snd (connect t port net)) = bus net"
    and "lt_conns (transports (snd (connect t port net)) u) =
      (\<lambda>k. if u = t \<and> k = kServerPeerId then Some \<lparr>remote_peer_id = i, endpoint = Some s\<rparr>
           else if u = s \<and> k = i then Some \<lparr>remote_peer_id = kServerPeerId, endpoint = Some t\<rparr>
           else lt_conns (transports net u) k)"
    and "lt_running (transports (snd (connect t port net)) u) = (u = t \<or> lt_running (transports net u))"
    and "lt_server (transports (snd (connect t port net)) u) = (u \<noteq> t \<and> lt_server (transports net u))"
    and "lt_port (transports (snd (connect t port net)) u) =
      (if u = t then port else lt_port (transports net u))"
    and "lt_next_peer (transports (snd (connect t port net)) u) =
      (if u = s then i + 1 else lt_next_peer (transports net u))"
  using connect_server [OF inv idle srv] idle srv
  by (auto simp: connect_def find_server_def accept_loopback_client_def Let_def i_def fun_eq_iff)

lemma loop_inv_connect:
  assumes inv: "loop_inv net"
    and wrap: "\<And>s. bus net port = Some s \<Longrightarrow> lt_next_peer (transports net s) + 1 \<noteq> 0"
  shows "loop_inv (snd (connect t port net))"
proof (cases "lt_running (transports net t)")
  case True
  then show ?thesis using inv by (simp add: connect_def)
next
  case idle: False
  show ?thesis
  proof (cases "bus net port")
    case None
    have "linked (snd (connect t port net)) = linked net"
      by (rule linked_cong) (simp add: connect_def idle find_server_def None connect_failed_def)
    then show ?thesis
      using inv idle
      by (auto simp: loop_inv_def connect_def find_server_def None connect_failed_def)
  next
    case (Some s)
    note sel = connect_sel [OF inv idle Some]
    note srv = connect_server [OF inv idle Some]
    let ?i = "lt_next_peer (transports net s)"
    have lk: "linked (snd (connect t port net))"
      by (rule linked_add [OF loop_invD(1) [OF inv] srv(1) [symmetric] _ srv(4) sel(3)])
        (simp add: srv(5))
    have "?i < ?i + 1"
      using wrap [OF Some] by (rule word_less_suc)
    then have less: "p < ?i + 1" if "p < ?i \<or> p = ?i" for p
      using that by auto
    show ?thesis
    proof (rule loop_invI [OF lk])
      fix u
      assume "\<not> lt_running (transports (snd (connect t port net)) u)"
      then have "u \<noteq> t" "\<not> lt_running (transports net u)" by (simp_all add: sel(4))
      then show "lt_conns (transports (snd (connect t port net)) u) = Map.empty"
        using loop_invD(2) [OF inv, of u] srv(2) by (auto simp: sel(3))
    next
      fix k u
      assume "bus (snd (connect t port net)) k = Some u"
      then have "bus net k = Some u" by (simp add: sel(2))
      then show "lt_running (transports (snd (connect t port net)) u) \<and>
          lt_server (transports (snd (connect t port net)) u) \<and>
          lt_port (transports (snd (connect t port net)) u) = k"
        using loop_invD(3) [OF inv, of k u] idle by (auto simp: sel)
    next
      fix u p c
      assume "lt_conns (transports (snd (connect t port net)) u) p = Some c"
      then consider "u = t" "p = kServerPeerId" | "u = s" "p = ?i"
        | "lt_conns (transports net u) p = Some c"
        by (auto simp: sel(3) split: if_splits)
      then show "p < lt_next_peer (transports (snd (connect t port net)) u)"
        using loop_invD(4) [OF inv, of u p c] loop_invD(5) [OF inv] less srv(1)
        by cases (auto simp: sel(7))
    next
      fix u
      show "kServerPeerId < lt_next_peer (transports (snd (connect t port net)) u)"
        using loop_invD(5) [OF inv] less by (simp add: sel(7))
    qed
  qed
qed

text \<open>Stopping a transport removes both halves of every connection it has.\<close>

lemma close_all_sel:
  assumes "\<forall>p c. conns p = Some c \<longrightarrow> endpoint c \<noteq> None"
  shows "bus (close_all conns t ps net) = bus net
    \<and> lt_running (transports (close_all conns t ps net) u) = lt_running (transports net u)
    \<and> lt_server (transports (close_all conns t ps net) u) = lt_server (transports net u)
    \<and> lt_port (transports (close_all conns t ps net) u) = lt_port (transports net u)
    \<and> lt_next_peer (transports (close_all conns t ps net) u) = lt_next_peer (transports net u)
    \<and> lt_conns (transports (close_all conns t ps net) u) =
      (\<lambda>k. if \<exists>p \<in> set ps. \<exists>c. conns p = Some c \<and> endpoint c = Some u \<and> remote_peer_id c = k
           then None else lt_conns (transports net u) k)"
proof (induction ps arbitrary: net)
  case Nil
  then show ?case by simp
next
  case (Cons p ps)
  show ?case
  proof (cases "conns p")
    case None
    then show ?thesis by (simp add: Cons)
  next
    case (Some c)
    then obtain e where "endpoint c = Some e" using assms by blast
    then show ?thesis
      by (auto simp: Some Cons notify_endpoint_def notify_peer_disconnected_def fun_eq_iff)
  qed
qed

lemma stop_sel:
  assumes inv: "loop_inv net" and run: "lt_running (transports net t)"
    and order: "set order = dom (lt_conns (transports net t))"
  shows "lt_conns (transports (stop order t net) u) =
      (\<lambda>k. if u = t \<or> (\<exists>p. link net t p u k) then None else lt_conns (transports net u) k)"
    and "bus (stop order t net) = (\<lambda>k. if bus net k = Some t then None else bus net k)"
    and "lt_running (transports (stop order t net) u) = (u \<noteq> t \<and> lt_running (transports net u))"
    and "lt_server (transports (stop order t net) u) = lt_server (transports net u)"
    and "lt_port (transports (stop order t net) u) = lt_port (transports net u)"
    and "lt_next_peer (transports (stop order t net) u) = lt_next_peer (transports net u)"
proof -
  let ?c = "lt_conns (transports net t)"
  let ?net1 = "upd t (\<lambda>x. x\<lparr>lt_running := False, lt_conns := Map.empty\<rparr>) net"
  let ?net2 = "if lt_server (transports net t) then unregister_server (lt_port (transports net t)) t ?net1 else ?net1"
  have ends: "\<forall>p c. ?c p = Some c \<longrightarrow> endpoint c \<noteq> None"
    using loop_invD(1) [OF inv] unfolding linked_def by blast
  have stop: "stop order t net = close_all ?c t order ?net2"
    using run by (simp add: stop_def Let_def)
  have tr: "transports ?net2 = transports ?net1" by (simp add: unregister_server_def)
  have lnk: "(\<exists>p \<in> set order. \<exists>c. ?c p = Some c \<and> endpoint c = Some u \<and> remote_peer_id c = k)
      \<longleftrightarrow> (\<exists>p. link net t p u k)" for k
  proof
    assume "\<exists>p \<in> set order. \<exists>c. ?c p = Some c \<and> endpoint c = Some u \<and> remote_peer_id c = k"
    then obtain p c where "?c p = Some c" "endpoint c = Some u" "remote_peer_id c = k" by blast
    then have "link net t p u k"
      using link_endpoint [OF loop_invD(1) [OF inv], of t p c] by auto
    then show "\<exists>p. link net t p u k" ..
  next
    assume "\<exists>p. link net t p u k"
    then obtain p where "?c p = Some \<lparr>remote_peer_id = k, endpoint = Some u\<rparr>"
      by (auto simp: link_def)
    then show "\<exists>p \<in> set order. \<exists>c. ?c p = Some c \<and> endpoint c = Some u \<and> remote_peer_id c = k"
      by (auto simp: order intro!: bexI [of _ p])
  qed
  note sel = close_all_sel [OF ends, of t order ?net2]
  have conns: "lt_conns (transports (close_all ?c t order ?net2) u) =
      (\<lambda>k. if \<exists>p. link net t p u k then None else lt_conns (transports ?net1 u) k)"
    using sel [where u = u] unfolding lnk tr by blast
  show "lt_conns (transports (stop order t net) u) =
      (\<lambda>k. if u = t \<or> (\<exists>p. link net t p u k) then None else lt_conns (transports net u) k)"
    unfolding stop conns by (simp add: fun_eq_iff)
  have "bus (close_all ?c t order ?net2) = bus ?net2" using sel by blast
  then show "bus (stop order t net) = (\<lambda>k. if bus net k = Some t then None else bus net k)"
    unfolding stop
  proof (intro ext)
    fix k
    assume eq: "bus (close_all ?c t order ?net2) = bus ?net2"
    show "bus (close_all ?c t order ?net2) k = (if bus net k = Some t then None else bus net k)"
    proof (cases "bus net k = Some t")
      case True
      then have "lt_server (transports net t)" "lt_port (transports net t) = k"
        using loop_invD(3) [OF inv] by blast+
      with True eq show ?thesis by (simp add: unregister_server_def)
    next
      case False
      with eq show ?thesis by (auto simp: unregister_server_def)
    qed
  qed
  have rest: "lt_running (transports (close_all ?c t order ?net2) u) = lt_running (transports ?net1 u)
    \<and> lt_server (transports (close_all ?c t order ?net2) u) = lt_server (transports ?net1 u)
    \<and> lt_port (transports (close_all ?c t order ?net2) u) = lt_port (transports ?net1 u)
    \<and> lt_next_peer (transports (close_all ?c t order ?net2) u) = lt_next_peer (transports ?net1 u)"
    using sel [where u = u] unfolding tr by blast
  show "lt_running (transports (stop order t net) u) = (u \<noteq> t \<and> lt_running (transports net u))"
    "lt_server (transports (stop order t net) u) = lt_server (transports net u)"
    "lt_port (transports (stop order t net) u) = lt_port (transports net u)"
    "lt_next_peer (transports (stop order t net) u) = lt_next_peer (transports net u)"
    unfolding stop using rest by simp_all
qed

lemma loop_inv_stop:
  assumes inv: "loop_inv net" and order: "set order = dom (lt_conns (transports net t))"
  shows "loop_inv (stop order t net)"
proof (cases "lt_running (transports net t)")
  case False
  then show ?thesis using inv by (simp add: stop_def)
next
  case True
  note sel = stop_sel [OF inv True order]
  note lk = loop_invD(1) [OF inv]
  have keep: "link (stop order t net) u k v j \<longleftrightarrow> link net u k v j \<and> u \<noteq> t \<and> v \<noteq> t" for u k v j
  proof -
    have "link net t p u k \<longleftrightarrow> link net u k t p" for p using lk by (auto simp: linked_def)
    then show ?thesis by (auto simp: link_def sel(1))
  qed
  have "linked (stop order t net)"
    using lk unfolding linked_def keep by (auto simp: sel(1) split: if_splits)
  then show ?thesis
    using loop_invD(2-5) [OF inv] by (intro loop_invI) (auto simp: sel split: if_splits)
qed

subsection \<open>Reachable states and properties\<close>

text \<open>
  Any objects call any methods in any order. A server may accept as long as its 64-bit id counter
  has not come around; \<open>stop\<close> meets the entries of the table in any order.
\<close>

inductive loop_step :: "loop_net \<Rightarrow> loop_net \<Rightarrow> bool" where
  step_start: "loop_step net (snd (start_server t port net))"
| step_connect: "(\<And>s. bus net port = Some s \<Longrightarrow> lt_next_peer (transports net s) + 1 \<noteq> 0) \<Longrightarrow>
    loop_step net (snd (connect t port net))"
| step_disconnect: "loop_step net (disconnect t p net)"
| step_stop: "set order = dom (lt_conns (transports net t)) \<Longrightarrow> loop_step net (stop order t net)"
| step_send: "loop_step net (snd (send t p d m net))"
| step_poll: "loop_step net (snd (poll_events t net))"

inductive loop_reachable :: "loop_net \<Rightarrow> bool" where
  reach_init: "loop_reachable init_net"
| reach_step: "loop_reachable net \<Longrightarrow> loop_step net net' \<Longrightarrow> loop_reachable net'"

lemma loop_step_inv: "loop_step net net' \<Longrightarrow> loop_inv net \<Longrightarrow> loop_inv net'"
  by (induction rule: loop_step.induct)
    (simp_all add: loop_inv_start_server loop_inv_connect loop_inv_disconnect loop_inv_stop
      loop_inv_send loop_inv_poll)

lemma reachable_loop_inv: "loop_reachable net \<Longrightarrow> loop_inv net"
  by (induction rule: loop_reachable.induct) (auto simp: loop_inv_init intro: loop_step_inv)

lemma send_True:
  assumes "send t p d m net = (True, net1)"
  shows "\<exists>e c. lt_running (transports net t) \<and> lt_conns (transports net t) p = Some c \<and>
    endpoint c = Some e \<and>
    net1 = enqueue_event e \<lparr>ev_type = DataReceived, ev_peer = remote_peer_id c, ev_payload = d,
      ev_reason = NoReason\<rparr> net"
  using assms
  by (auto simp: send_def receive_incoming_data_def split: if_splits option.splits)

lemma send_link:
  assumes "lt_running (transports net t)" and "link net t p e q"
  shows "send t p d m net = (True, enqueue_event e \<lparr>ev_type = DataReceived, ev_peer = q,
    ev_payload = d, ev_reason = NoReason\<rparr> net)"
  using assms by (simp add: send_def link_def receive_incoming_data_def)

lemma link_running:
  assumes "loop_inv net" and "link net t p e q"
  shows "lt_running (transports net t)"
proof (rule ccontr)
  assume "\<not> lt_running (transports net t)"
  then have "lt_conns (transports net t) = Map.empty" by (rule loop_invD(2) [OF assms(1)])
  with assms(2) show False by (simp add: link_def)
qed

text \<open>
  C11: whatever the transports did before, a send that succeeds puts exactly one event, with the
  bytes, at the end of one queue, and the peer id in that event is the sender: sending to it
  succeeds and comes back labelled with the peer id the first message was sent to.
\<close>

theorem loopback_reply:
  assumes "loop_reachable net" and "send t p d m net = (True, net1)"
  shows "\<exists>e q. net1 = enqueue_event e \<lparr>ev_type = DataReceived, ev_peer = q, ev_payload = d,
        ev_reason = NoReason\<rparr> net \<and>
    (\<forall>d' m'. send e q d' m' net1 = (True, enqueue_event t
        \<lparr>ev_type = DataReceived, ev_peer = p, ev_payload = d', ev_reason = NoReason\<rparr> net1))"
proof -
  have inv: "loop_inv net" using assms(1) by (rule reachable_loop_inv)
  obtain e c where s: "lt_running (transports net t)" "lt_conns (transports net t) p = Some c"
      "endpoint c = Some e"
    and net1: "net1 = enqueue_event e \<lparr>ev_type = DataReceived, ev_peer = remote_peer_id c,
      ev_payload = d, ev_reason = NoReason\<rparr> net"
    using send_True [OF assms(2)] by blast
  obtain e' where l: "link net t p e' (remote_peer_id c)" and "endpoint c = Some e'"
    using link_endpoint [OF loop_invD(1) [OF inv] s(2)] by blast
  with s(3) have "link net t p e (remote_peer_id c)" by simp
  then have mirror: "link net e (remote_peer_id c) t p"
    using loop_invD(1) [OF inv] by (simp add: linked_def)
  have "link net1 e (remote_peer_id c) t p" using mirror by (simp add: net1 link_def)
  moreover have "lt_running (transports net1 e)"
    using link_running [OF inv mirror] by (simp add: net1)
  ultimately show ?thesis using net1 send_link by blast
qed

lemma loopback_reply_net:
  "loop_reachable (snd (connect 1 7 (snd (start_server 0 7 init_net))))"
  by (intro reach_step [OF reach_step [OF reach_init step_start] step_connect])
    (simp add: start_server_def register_server_def init_net_def new_transport_def upd_def kServerPeerId_def
      split: if_splits)

theorem loopback_reply_witness:
  "\<exists>net net1 e q. send 1 kServerPeerId [42] ReliableOrdered net = (True, net1) \<and>
     fst (send e q [43] ReliableOrdered net1)"
proof -
  let ?net = "snd (connect 1 7 (snd (start_server 0 7 init_net)))"
  have "link ?net 1 kServerPeerId 0 2" and "lt_running (transports ?net 1)"
    by (simp_all add: link_def connect_def find_server_def accept_loopback_client_def start_server_def
        register_server_def init_net_def new_transport_def Let_def kServerPeerId_def)
  then obtain net1 where s: "send 1 kServerPeerId [42] ReliableOrdered ?net = (True, net1)"
    using send_link by blast
  obtain e q where "\<forall>d' m'. send e q d' m' net1 = (True, enqueue_event 1
      \<lparr>ev_type = DataReceived, ev_peer = kServerPeerId, ev_payload = d', ev_reason = NoReason\<rparr> net1)"
    using loopback_reply [OF loopback_reply_net s] by blast
  then have "fst (send e q [43] ReliableOrdered net1)" by simp
  with s show ?thesis by blast
qed

fun send_all :: "nat \<Rightarrow> peer_id \<Rightarrow> bytes list \<Rightarrow> loop_net \<Rightarrow> bool \<times> loop_net" where
  "send_all t p [] net = (True, net)"
| "send_all t p (d # ds) net =
     (case send t p d ReliableOrdered net of
        (False, net') \<Rightarrow> (False, net')
      | (True, net') \<Rightarrow> send_all t p ds net')"

definition data_event :: "peer_id \<Rightarrow> bytes \<Rightarrow> transport_event" where
  "data_event q d = \<lparr>ev_type = DataReceived, ev_peer = q, ev_payload = d, ev_reason = NoReason\<rparr>"

lemma send_all_queue:
  "lt_running (transports net t) \<Longrightarrow> link net t p e q \<Longrightarrow>
     fst (send_all t p ds net) \<and>
     lt_queue (transports (snd (send_all t p ds net)) e) =
       lt_queue (transports net e) @ map (data_event q) ds \<and>
     lt_running (transports (snd (send_all t p ds net)) t) \<and> link (snd (send_all t p ds net)) t p e q"
proof (induction ds arbitrary: net)
  case Nil
  then show ?case by simp
next
  case (Cons d ds)
  let ?net = "enqueue_event e (data_event q d) net"
  have "send t p d ReliableOrdered net = (True, ?net)"
    using send_link [OF Cons.prems] by (simp add: data_event_def)
  moreover have "lt_running (transports ?net t)" and "link ?net t p e q"
    using Cons.prems by (simp_all add: link_def)
  ultimately show ?case
    using Cons.IH [of ?net] by (simp add: enqueue_event_def)
qed

text \<open>
  C12: a connected peer that has polled its events receives every message sent to it, unchanged,
  once, in the order of the sends, and nothing else.
\<close>

theorem loopback_fifo:
  assumes "lt_running (transports net t)" and "link net t p e q"
    and "lt_queue (transports net e) = []"
  shows "fst (send_all t p ds net) \<and>
    fst (poll_events e (snd (send_all t p ds net))) = map (data_event q) ds \<and>
    lt_queue (transports (snd (poll_events e (snd (send_all t p ds net)))) e) = []"
  using send_all_queue [OF assms(1,2), of ds] assms(3) by (simp add: poll_events_def)

theorem loopback_fifo_witness:
  "\<exists>net. link net 1 kServerPeerId 0 2 \<and>
     fst (poll_events 0 (snd (send_all 1 kServerPeerId [[1], [2, 3]] net))) =
       [data_event 2 [1], data_event 2 [2, 3]]"
proof -
  let ?net = "snd (poll_events 0 (snd (connect 1 7 (snd (start_server 0 7 init_net)))))"
  have l: "lt_running (transports ?net 1)" "link ?net 1 kServerPeerId 0 2"
      "lt_queue (transports ?net 0) = []"
    by (simp_all add: link_def connect_def find_server_def accept_loopback_client_def start_server_def
        register_server_def init_net_def new_transport_def Let_def kServerPeerId_def poll_events_def)
  with loopback_fifo [OF l, of "[[1], [2, 3]]"] show ?thesis by auto
qed

end
