(* ===== verification/Compression.thy ===== *)
theory Compression
  imports Wire_Values
begin

section \<open>The compression container\<close>

text \<open>
  \<^verbatim>\<open>src/core/compression.cpp\<close>: a five-byte header (format, little-endian size) in front of
  either the stored bytes or one LZ4 block. LZ4 itself is a vendored library outside the tree, so
  its two functions are arguments: \<open>lzc\<close> gives the block for an input (empty where
  \<open>LZ4_compress_*\<close> returns 0 or less), \<open>lzd\<close> the output of \<open>LZ4_decompress_safe\<close> for a block and
  a capacity (\<open>None\<close> for a negative result). \<open>lz4_ok\<close> is what its documentation promises.
\<close>

datatype compression_level = Fast | High

datatype compression_error = Truncated | UnknownFormat | TooLarge | Corrupt

datatype compress_error = LengthError

type_synonym lz4_compress = "compression_level \<Rightarrow> bytes \<Rightarrow> bytes"
type_synonym lz4_decompress = "bytes \<Rightarrow> nat \<Rightarrow> bytes option"

definition kFormatStored :: u8 where "kFormatStored = 0"
definition kFormatLz4 :: u8 where "kFormatLz4 = 1"
definition kCompressionHeaderSize :: nat where "kCompressionHeaderSize = 5"
definition kCompressionMaxInput :: nat where "kCompressionMaxInput = 0x7E000000"

definition write_header :: "u8 \<Rightarrow> nat \<Rightarrow> bytes" where
  "write_header fmt n =
     (let v = (of_nat n :: u32)
      in [fmt, ucast v, ucast (drop_bit 8 v), ucast (drop_bit 16 v), ucast (drop_bit 24 v)])"

definition stored :: "bytes \<Rightarrow> bytes" where
  "stored input = write_header kFormatStored (length input) @ input"

definition compress :: "lz4_compress \<Rightarrow> bytes \<Rightarrow> compression_level \<Rightarrow> compress_error + bytes" where
  "compress lzc input level =
     (if length input > kCompressionMaxInput then Inl LengthError
      else if input = [] then Inr (stored input)
      else
        (let block = lzc level input
         in if length block \<le> 0 \<or> length block \<ge> length input then Inr (stored input)
            else Inr (write_header kFormatLz4 (length input) @ block)))"

definition header_size :: "bytes \<Rightarrow> nat" where
  "header_size input =
     or (or (or (unat (input ! 1)) (push_bit 8 (unat (input ! 2))))
       (push_bit 16 (unat (input ! 3)))) (push_bit 24 (unat (input ! 4)))"

definition decompress :: "lz4_decompress \<Rightarrow> bytes \<Rightarrow> nat \<Rightarrow> compression_error + bytes" where
  "decompress lzd input max_size =
     (if length input < kCompressionHeaderSize then Inl Truncated
      else
        (let fmt = input ! 0
         in if fmt \<noteq> kFormatStored \<and> fmt \<noteq> kFormatLz4 then Inl UnknownFormat
            else
              (let size = header_size input
               in if size > max_size then Inl TooLarge
                  else
                    (let payload = drop kCompressionHeaderSize input
                     in if fmt = kFormatStored
                        then (if length payload \<noteq> size then Inl Corrupt else Inr payload)
                        else if size = 0 \<or> size > kCompressionMaxInput \<or> payload = [] \<or>
                                length payload > kCompressionMaxInput then Inl Corrupt
                        else (case lzd payload size of
                                None \<Rightarrow> Inl Corrupt
                              | Some out \<Rightarrow>
                                  (if length out \<noteq> size then Inl Corrupt else Inr out))))))"

text \<open>
  LZ4 decodes a block it made, given room for the original; nothing is said of a block it did not
  make, not even that decoding fails.
\<close>

definition lz4_ok :: "lz4_compress \<Rightarrow> lz4_decompress \<Rightarrow> bool" where
  "lz4_ok lzc lzd \<longleftrightarrow>
     (\<forall>level input. input \<noteq> [] \<longrightarrow> lzc level input \<noteq> [] \<longrightarrow>
        lzd (lzc level input) (length input) = Some input)"

subsection \<open>Lemmas\<close>

lemma length_write_header [simp]: "length (write_header f n) = kCompressionHeaderSize"
  by (simp add: write_header_def Let_def kCompressionHeaderSize_def)

lemma word_bytes_join:
  "or (or (or (unat (ucast (v :: u32) :: u8)) (push_bit 8 (unat (ucast (drop_bit 8 v) :: u8))))
     (push_bit 16 (unat (ucast (drop_bit 16 v) :: u8)))) (push_bit 24 (unat (ucast (drop_bit 24 v) :: u8)))
   = unat v"
proof (rule bit_eqI)
  fix n
  show "bit (or (or (or (unat (ucast (v :: u32) :: u8)) (push_bit 8 (unat (ucast (drop_bit 8 v) :: u8))))
     (push_bit 16 (unat (ucast (drop_bit 16 v) :: u8)))) (push_bit 24 (unat (ucast (drop_bit 24 v) :: u8)))) n
     = bit (unat v) n"
    by (cases "n < 8"; cases "n < 16"; cases "n < 24"; cases "n < 32")
      (auto simp: bit_simps dest: bit_imp_le_length)
qed

lemma header_size_write:
  assumes "n < 2 ^ 32"
  shows "header_size (write_header f n @ rest) = n"
proof -
  have "unat (of_nat n :: u32) = n" using assms by (simp add: unat_of_nat)
  then show ?thesis
    using word_bytes_join [of "of_nat n"] by (simp add: header_size_def write_header_def Let_def)
qed

lemma header_format [simp]: "(write_header f n @ rest) ! 0 = f"
  by (simp add: write_header_def Let_def)

lemma drop_header [simp]: "drop kCompressionHeaderSize (write_header f n @ rest) = rest"
  by simp

lemma decompress_stored:
  assumes "length input \<le> max_size" and "length input < 2 ^ 32"
  shows "decompress lzd (stored input) max_size = Inr input"
  using assms by (simp add: decompress_def stored_def header_size_write Let_def)

lemma decompress_le: "decompress lzd input max_size = Inr out \<Longrightarrow> length out \<le> max_size"
  by (auto simp: decompress_def Let_def split: if_splits option.splits)

text \<open>
  C28: \<open>decompress\<close> gives back what \<open>compress\<close> took, for either level and with or without a gain,
  as long as the caller's limit admits the input; and the container is at most five bytes longer.
\<close>

theorem compress_roundtrip:
  assumes "lz4_ok lzc lzd" and "length input \<le> kCompressionMaxInput" and "length input \<le> max_size"
  shows "\<exists>out. compress lzc input level = Inr out \<and>
    decompress lzd out max_size = Inr input \<and> length out \<le> length input + kCompressionHeaderSize"
proof -
  have small: "length input < 2 ^ 32" using assms(2) by (simp add: kCompressionMaxInput_def)
  let ?b = "lzc level input"
  show ?thesis
  proof (cases "input = [] \<or> ?b = [] \<or> length ?b \<ge> length input")
    case True
    then have "compress lzc input level = Inr (stored input)"
      using assms(2) by (auto simp: compress_def Let_def)
    then show ?thesis
      using decompress_stored [OF assms(3) small] by (simp add: stored_def)
  next
    case False
    then have c: "compress lzc input level = Inr (write_header kFormatLz4 (length input) @ ?b)"
      using assms(2) by (auto simp: compress_def Let_def)
    have "lzd ?b (length input) = Some input" using assms(1) False by (simp add: lz4_ok_def)
    then have "decompress lzd (write_header kFormatLz4 (length input) @ ?b) max_size = Inr input"
      using False assms(2,3)
      by (simp add: decompress_def header_size_write [OF small] Let_def kFormatStored_def kFormatLz4_def)
    with c False show ?thesis by simp
  qed
qed

text \<open>A stand-in for LZ4 that shortens a run of one byte, for the witnesses.\<close>

definition run_compress :: lz4_compress where
  "run_compress level input = (if input = replicate (length input) (hd input) then [hd input] else input)"

definition run_decompress :: lz4_decompress where
  "run_decompress block n = (if length block = 1 then Some (replicate n (hd block)) else Some block)"

lemma run_lz4_ok: "lz4_ok run_compress run_decompress"
proof -
  have "length input = Suc 0 \<Longrightarrow> input = [hd input]" for input :: bytes
    by (cases input) auto
  then show ?thesis
    by (auto simp: lz4_ok_def run_compress_def run_decompress_def)
qed

theorem compress_roundtrip_witness:
  "\<exists>out. compress run_compress [7, 7, 7, 7] Fast = Inr out \<and>
     decompress run_decompress out 100 = Inr [7, 7, 7, 7] \<and> length out \<le> 9"
  using compress_roundtrip [OF run_lz4_ok, of "[7, 7, 7, 7]" 100 Fast]
  by (simp add: kCompressionMaxInput_def kCompressionHeaderSize_def)

text \<open>
  Whatever bytes come in, from a hostile peer too, \<open>decompress\<close> never gives more than the
  caller's limit, and it never asks LZ4 for more than that.
\<close>

lemma decompress_bounded:
  "(case decompress lzd input max_size of Inl _ \<Rightarrow> True | Inr out \<Rightarrow> length out \<le> max_size) \<and>
   (\<forall>lzd'. (\<forall>block n. n \<le> max_size \<longrightarrow> lzd' block n = lzd block n) \<longrightarrow>
      decompress lzd' input max_size = decompress lzd input max_size)"
  by (auto simp: decompress_def Let_def split: option.splits)

end
