(* ===== verification/Float_Arith.thy ===== *)
theory Float_Arith
  imports Complex_Main
begin

section \<open>Floating-point arithmetic as an argument\<close>

text \<open>
  HOL-Library has no IEEE arithmetic. Where a component computes with \<open>float\<close> or \<open>double\<close> (a
  send budget, an aging priority, an accumulated weight), its definitions take the operations they
  use as one argument and nothing is assumed of them: the theorems hold whatever rounding,
  infinities or NaN comparisons do. \<open>rat_arith\<close> computes exactly; on the small integers of the
  witnesses it agrees with IEEE doubles.
\<close>

record 'd float_arith =
  f_int :: "int \<Rightarrow> 'd"
  f_add :: "'d \<Rightarrow> 'd \<Rightarrow> 'd"
  f_sub :: "'d \<Rightarrow> 'd \<Rightarrow> 'd"
  f_mul :: "'d \<Rightarrow> 'd \<Rightarrow> 'd"
  f_div :: "'d \<Rightarrow> 'd \<Rightarrow> 'd"
  f_less :: "'d \<Rightarrow> 'd \<Rightarrow> bool"
  f_eq :: "'d \<Rightarrow> 'd \<Rightarrow> bool"
  f_trunc :: "'d \<Rightarrow> int"
  f_single :: "'d \<Rightarrow> 'd"

text \<open>
  \<open>f_trunc\<close> is the conversion to an integer type, \<open>f_single\<close> the rounding of a \<open>double\<close> to a
  \<open>float\<close>. A decimal literal such as \<open>0.05\<close> is the quotient of two integers, which IEEE division
  rounds to the same double.
\<close>

definition rat_trunc :: "rat \<Rightarrow> int" where
  "rat_trunc x = (if x < 0 then \<lceil>x\<rceil> else \<lfloor>x\<rfloor>)"

definition rat_arith :: "rat float_arith" where
  "rat_arith = \<lparr>f_int = of_int, f_add = (+), f_sub = (-), f_mul = (*), f_div = (/),
     f_less = (<), f_eq = (=), f_trunc = rat_trunc, f_single = id\<rparr>"

lemma rat_arith_simps [simp]:
  "f_int rat_arith = of_int" "f_add rat_arith = (+)" "f_sub rat_arith = (-)"
  "f_mul rat_arith = (*)" "f_div rat_arith = (/)" "f_less rat_arith = (<)" "f_eq rat_arith = (=)"
  "f_trunc rat_arith = rat_trunc" "f_single rat_arith = id"
  by (simp_all add: rat_arith_def)

definition f_frac :: "'d float_arith \<Rightarrow> int \<Rightarrow> int \<Rightarrow> 'd" where
  "f_frac F n d = f_div F (f_int F n) (f_int F d)"

definition f_neg :: "'d float_arith \<Rightarrow> 'd \<Rightarrow> 'd" where
  "f_neg F x = f_sub F (f_int F 0) x"

definition f_abs :: "'d float_arith \<Rightarrow> 'd \<Rightarrow> 'd" where
  "f_abs F x = (if f_less F x (f_int F 0) then f_neg F x else x)"

lemmas f_consts = f_frac_def f_neg_def f_abs_def

text \<open>\<open>std::min\<close>, \<open>std::max\<close> and \<open>std::clamp\<close> as the standard defines them from \<open><\<close>.\<close>

definition f_min :: "'d float_arith \<Rightarrow> 'd \<Rightarrow> 'd \<Rightarrow> 'd" where
  "f_min F a b = (if f_less F b a then b else a)"

definition f_max :: "'d float_arith \<Rightarrow> 'd \<Rightarrow> 'd \<Rightarrow> 'd" where
  "f_max F a b = (if f_less F a b then b else a)"

definition f_clamp :: "'d float_arith \<Rightarrow> 'd \<Rightarrow> 'd \<Rightarrow> 'd \<Rightarrow> 'd" where
  "f_clamp F v lo hi = (if f_less F v lo then lo else if f_less F hi v then hi else v)"

lemma rat_clamp:
  "lo \<le> hi \<Longrightarrow> f_clamp rat_arith v lo hi = max lo (min v hi)"
  by (auto simp: f_clamp_def)

end
