(* ===== verification/Payload_Queue.thy ===== *)
theory Payload_Queue
  imports Net_Types Float_Arith
begin

section \<open>Outgoing payloads of one peer\<close>

text \<open>
  \<^verbatim>\<open>src/net/payload_queue.h\<close> and \<^verbatim>\<open>src/net/payload_queue.cpp\<close>. A payload leaves as one
  \<open>PayloadBegin\<close> and then \<open>PayloadFragment\<close> messages of at most 1024 data bytes. The transport is
  an argument (its \<open>send\<close> and \<open>pending_send_bytes\<close> over a state of its own), and so is the
  \<open>double\<close> arithmetic of the aging priorities and the credit.
\<close>

record 't transport_ops =
  t_send :: "peer_id \<Rightarrow> bytes \<Rightarrow> delivery_mode \<Rightarrow> 't \<Rightarrow> bool \<times> 't"
  t_pending :: "peer_id \<Rightarrow> 't \<Rightarrow> nat"

record payload_item =
  it_id :: payload_id
  it_message :: message_id
  it_bytes :: bytes
  it_priority :: int
  it_compressed :: bool
  it_queued :: tick
  it_sent :: nat
  it_started :: bool
  it_awaiting :: bool

record payload_options =
  po_priority :: int
  po_compressed :: bool

record payload_progress =
  pp_sent :: nat
  pp_total :: nat
  pp_awaiting :: bool

record 'd queue_limits =
  aging_per_tick :: 'd
  backlog_bytes :: nat

definition kPayloadFlagCompressed :: u8 where "kPayloadFlagCompressed = 1"
definition kBeginHeaderBytes :: nat where "kBeginHeaderBytes = 2 + 4 + 2 + 1 + 4"
definition kFragmentHeaderBytes :: nat where "kFragmentHeaderBytes = 2 + 4 + 4"

type_synonym payload_queue = "payload_item list"

definition pq_find :: "payload_id \<Rightarrow> payload_queue \<Rightarrow> payload_item option" where
  "pq_find i items = find_first (\<lambda>it. it_id it = i) items"

definition pq_push ::
  "payload_id \<Rightarrow> message_id \<Rightarrow> bytes \<Rightarrow> payload_options \<Rightarrow> tick \<Rightarrow> payload_queue \<Rightarrow> payload_queue" where
  "pq_push i m bs opts now items =
     items @ [\<lparr>it_id = i, it_message = m, it_bytes = bs, it_priority = po_priority opts,
       it_compressed = po_compressed opts, it_queued = now, it_sent = 0, it_started = False,
       it_awaiting = False\<rparr>]"

definition cancel_message :: "payload_id \<Rightarrow> bytes" where
  "cancel_message i = buffer (write_u32 i (write_u16 kPayloadCancelMessageId new_writer))"

definition pq_cancel ::
  "'t transport_ops \<Rightarrow> peer_id \<Rightarrow> payload_id \<Rightarrow> payload_queue \<Rightarrow> 't \<Rightarrow> bool \<times> payload_queue \<times> 't" where
  "pq_cancel T peer i items ts =
     (case pq_find i items of
        None \<Rightarrow> (False, items, ts)
      | Some it \<Rightarrow>
          (let ts' = (if it_started it \<and> \<not> it_awaiting it
                      then snd (t_send T peer (cancel_message i) ReliableOrdered ts) else ts)
           in (True, filter (\<lambda>held. it_id held \<noteq> i) items, ts')))"

text \<open>The first item with the id, as the pointer \<open>find\<close> returns designates it.\<close>

fun update_first :: "payload_id \<Rightarrow> (payload_item \<Rightarrow> payload_item) \<Rightarrow> payload_queue \<Rightarrow> payload_queue" where
  "update_first i f [] = []"
| "update_first i f (it # items) =
     (if it_id it = i then f it # items else it # update_first i f items)"

definition pq_set_priority :: "payload_id \<Rightarrow> int \<Rightarrow> payload_queue \<Rightarrow> bool \<times> payload_queue" where
  "pq_set_priority i p items =
     (case pq_find i items of
        None \<Rightarrow> (False, items)
      | Some _ \<Rightarrow> (True, update_first i (\<lambda>it. it\<lparr>it_priority := p\<rparr>) items))"

definition pq_progress :: "payload_id \<Rightarrow> payload_queue \<Rightarrow> payload_progress option" where
  "pq_progress i items =
     map_option (\<lambda>it. \<lparr>pp_sent = it_sent it, pp_total = length (it_bytes it),
       pp_awaiting = it_awaiting it\<rparr>) (pq_find i items)"

definition pq_queued_bytes :: "payload_queue \<Rightarrow> nat" where
  "pq_queued_bytes items = sum_list (map (\<lambda>it. length (it_bytes it) - it_sent it) items)"

definition pq_acknowledge :: "payload_id \<Rightarrow> payload_queue \<Rightarrow> bool \<times> payload_queue" where
  "pq_acknowledge i items =
     (case pq_find i items of
        None \<Rightarrow> (False, items)
      | Some it \<Rightarrow>
          (if \<not> it_awaiting it then (False, items)
           else (True, filter (\<lambda>held. it_id held \<noteq> i) items)))"

definition pq_ids :: "payload_queue \<Rightarrow> payload_id list" where
  "pq_ids items = map it_id items"

subsection \<open>Choosing and sending the next fragment\<close>

definition item_priority :: "'d float_arith \<Rightarrow> tick \<Rightarrow> 'd \<Rightarrow> payload_item \<Rightarrow> 'd" where
  "item_priority F now aging it =
     f_add F (f_int F (it_priority it)) (f_mul F (f_int F (uint (now - it_queued it))) aging)"

text \<open>The loop of \<open>next_to_send\<close>; the best item so far is its index, the item and its priority.\<close>

definition pick_best ::
  "'d float_arith \<Rightarrow> tick \<Rightarrow> 'd \<Rightarrow> nat \<Rightarrow> payload_item \<Rightarrow> (nat \<times> payload_item \<times> 'd) option
   \<Rightarrow> (nat \<times> payload_item \<times> 'd) option" where
  "pick_best F now aging k it best =
     (if it_awaiting it then best
      else
        (let p = item_priority F now aging it
         in case best of
              None \<Rightarrow> Some (k, it, p)
            | Some (_, b, bp) \<Rightarrow>
                (if f_less F bp p \<or> (f_eq F p bp \<and> it_id it < it_id b) then Some (k, it, p)
                 else best)))"

fun next_from ::
  "'d float_arith \<Rightarrow> tick \<Rightarrow> 'd \<Rightarrow> nat \<Rightarrow> payload_queue \<Rightarrow> (nat \<times> payload_item \<times> 'd) option
   \<Rightarrow> (nat \<times> payload_item \<times> 'd) option" where
  "next_from F now aging k [] best = best"
| "next_from F now aging k (it # items) best =
     next_from F now aging (Suc k) items (pick_best F now aging k it best)"

definition next_to_send :: "'d float_arith \<Rightarrow> tick \<Rightarrow> 'd \<Rightarrow> payload_queue \<Rightarrow> (nat \<times> payload_item) option" where
  "next_to_send F now aging items =
     map_option (\<lambda>(k, it, _). (k, it)) (next_from F now aging 0 items None)"

definition fragment_data :: "payload_item \<Rightarrow> nat" where
  "fragment_data it = min (length (it_bytes it) - it_sent it) kPayloadFragmentBytes"

definition fragment_size :: "payload_item \<Rightarrow> nat" where
  "fragment_size it =
     fragment_data it + (if it_started it then kFragmentHeaderBytes else kBeginHeaderBytes)"

definition fragment_message :: "payload_item \<Rightarrow> bytes" where
  "fragment_message it =
     (let head =
        (if \<not> it_started it then
           write_u32 (of_nat (length (it_bytes it)))
             (write_u8 (if it_compressed it then kPayloadFlagCompressed else 0)
               (write_u16 (it_message it)
                 (write_u32 (it_id it) (write_u16 kPayloadBeginMessageId new_writer))))
         else
           write_u32 (of_nat (it_sent it))
             (write_u32 (it_id it) (write_u16 kPayloadFragmentMessageId new_writer)))
      in buffer (append_bytes (take (fragment_data it) (drop (it_sent it) (it_bytes it))) head))"

definition after_fragment :: "payload_item \<Rightarrow> payload_item" where
  "after_fragment it =
     it\<lparr>it_started := True, it_sent := it_sent it + fragment_data it,
       it_awaiting := (it_sent it + fragment_data it = length (it_bytes it))\<rparr>"

text \<open>One turn of the loop of \<open>pump\<close>: \<open>None\<close> where it breaks, and what it sent otherwise.\<close>

definition pump_step ::
  "'d float_arith \<Rightarrow> 't transport_ops \<Rightarrow> peer_id \<Rightarrow> tick \<Rightarrow> 'd queue_limits \<Rightarrow>
   payload_queue \<times> 't \<times> 'd \<Rightarrow> (nat \<times> payload_queue \<times> 't \<times> 'd) option \<times> 't" where
  "pump_step F T peer now limits = (\<lambda>(items, ts, credit).
     case next_to_send F now (aging_per_tick limits) items of
       None \<Rightarrow> (None, ts)
     | Some (k, it) \<Rightarrow>
         (if f_less F credit (f_int F (int (fragment_size it))) \<or>
             t_pending T peer ts \<ge> backlog_bytes limits then (None, ts)
          else
            (case t_send T peer (fragment_message it) ReliableOrdered ts of
               (False, ts') \<Rightarrow> (None, ts')
             | (True, ts') \<Rightarrow>
                 (Some (fragment_size it, items[k := after_fragment it], ts',
                   f_sub F credit (f_int F (int (fragment_size it)))), ts'))))"

text \<open>
  The \<open>while (true)\<close> of \<open>pump\<close>: \<open>None\<close> would be a loop that does not end. The result is the
  number of bytes sent, the items, the transport and the credit left.
\<close>

partial_function (option) pump_loop ::
  "'d float_arith \<Rightarrow> 't transport_ops \<Rightarrow> peer_id \<Rightarrow> tick \<Rightarrow> 'd queue_limits \<Rightarrow> nat \<Rightarrow>
   payload_queue \<Rightarrow> 't \<Rightarrow> 'd \<Rightarrow> (nat \<times> payload_queue \<times> 't \<times> 'd) option" where
  "pump_loop F T peer now limits acc items ts credit =
     (case pump_step F T peer now limits (items, ts, credit) of
        (None, ts') \<Rightarrow> Some (acc, items, ts', credit)
      | (Some (n, items', ts', credit'), _) \<Rightarrow>
          pump_loop F T peer now limits (acc + n) items' ts' credit')"

definition pump ::
  "'d float_arith \<Rightarrow> 't transport_ops \<Rightarrow> peer_id \<Rightarrow> tick \<Rightarrow> 'd queue_limits \<Rightarrow>
   payload_queue \<Rightarrow> 't \<Rightarrow> 'd \<Rightarrow> (nat \<times> payload_queue \<times> 't \<times> 'd) option" where
  "pump F T peer now limits items ts credit = pump_loop F T peer now limits 0 items ts credit"

subsection \<open>Which item goes next\<close>

lemma pick_best_cases:
  "pick_best F now aging k x best = best \<or>
   (\<not> it_awaiting x \<and> pick_best F now aging k x best = Some (k, x, item_priority F now aging x))"
  by (simp add: pick_best_def Let_def split: option.split)

lemma pick_best_None:
  "pick_best F now aging k x best = None \<longleftrightarrow> best = None \<and> it_awaiting x"
  by (auto simp: pick_best_def Let_def split: option.split)

lemma next_from_cases:
  "next_from F now aging k items best = Some (j, it, p) \<Longrightarrow>
     best = Some (j, it, p) \<or>
     (k \<le> j \<and> j < k + length items \<and> items ! (j - k) = it \<and> \<not> it_awaiting it \<and>
      p = item_priority F now aging it)"
proof (induction items arbitrary: k best)
  case Nil
  then show ?case by simp
next
  case (Cons x items)
  let ?b = "pick_best F now aging k x best"
  have "next_from F now aging (Suc k) items ?b = Some (j, it, p)" using Cons.prems by simp
  from Cons.IH [OF this] show ?case
  proof
    assume "?b = Some (j, it, p)"
    with pick_best_cases [of F now aging k x best] show ?thesis by auto
  next
    assume *: "Suc k \<le> j \<and> j < Suc k + length items \<and> items ! (j - Suc k) = it \<and> \<not> it_awaiting it \<and>
      p = item_priority F now aging it"
    then have "(x # items) ! (j - k) = it" by (simp add: nth_Cons')
    with * show ?thesis by simp
  qed
qed

lemma next_to_send_Some:
  assumes "next_to_send F now aging items = Some (k, it)"
  shows "k < length items" and "items ! k = it" and "\<not> it_awaiting it"
proof -
  obtain p where "next_from F now aging 0 items None = Some (k, it, p)"
    using assms by (auto simp: next_to_send_def)
  from next_from_cases [OF this] show "k < length items" "items ! k = it" "\<not> it_awaiting it"
    by auto
qed

lemma next_from_None: "next_from F now aging k items best = None \<longleftrightarrow> best = None \<and> (\<forall>it \<in> set items. it_awaiting it)"
  by (induction items arbitrary: k best) (auto simp: pick_best_None)

lemma next_to_send_None:
  "next_to_send F now aging items = None \<Longrightarrow> it \<in> set items \<Longrightarrow> it_awaiting it"
  using next_from_None [of F now aging 0 items None] by (auto simp: next_to_send_def)

text \<open>
  The comparison of doubles orders the values \<open>S\<close> the way \<open>next_to_send\<close> relies on: it does where
  none of them is a NaN.
\<close>

definition ordered_on :: "'d float_arith \<Rightarrow> 'd set \<Rightarrow> bool" where
  "ordered_on F S \<longleftrightarrow>
     (\<forall>x \<in> S. \<forall>y \<in> S. f_less F x y \<longrightarrow> \<not> f_less F y x) \<and>
     (\<forall>x \<in> S. \<forall>y \<in> S. \<forall>z \<in> S. \<not> f_less F x y \<longrightarrow> \<not> f_less F y z \<longrightarrow> \<not> f_less F x z) \<and>
     (\<forall>x \<in> S. \<forall>y \<in> S. f_eq F x y \<longleftrightarrow> \<not> f_less F x y \<and> \<not> f_less F y x)"

definition beats :: "'d float_arith \<Rightarrow> tick \<Rightarrow> 'd \<Rightarrow> payload_item \<Rightarrow> payload_item \<Rightarrow> bool" where
  "beats F now aging x y \<longleftrightarrow>
     (let p = item_priority F now aging x; q = item_priority F now aging y
      in f_less F q p \<or> f_eq F p q \<and> it_id x < it_id y)"

lemma ordered_onD:
  assumes "ordered_on F S"
  shows "\<lbrakk>x \<in> S; y \<in> S; f_less F x y\<rbrakk> \<Longrightarrow> \<not> f_less F y x"
    and "\<lbrakk>x \<in> S; y \<in> S; z \<in> S; \<not> f_less F x y; \<not> f_less F y z\<rbrakk> \<Longrightarrow> \<not> f_less F x z"
    and "\<lbrakk>x \<in> S; y \<in> S\<rbrakk> \<Longrightarrow> f_eq F x y \<longleftrightarrow> \<not> f_less F x y \<and> \<not> f_less F y x"
  using assms unfolding ordered_on_def by blast+

lemma not_beats_trans:
  assumes o: "ordered_on F S" and S: "item_priority F now a x \<in> S" "item_priority F now a y \<in> S"
    "item_priority F now a z \<in> S"
    and "\<not> beats F now a x y" and "\<not> beats F now a y z"
  shows "\<not> beats F now a x z"
proof -
  have xy: "\<not> f_less F (item_priority F now a y) (item_priority F now a x)"
    and yz: "\<not> f_less F (item_priority F now a z) (item_priority F now a y)"
    using assms(5,6) by (auto simp: beats_def Let_def)
  have xz: "\<not> f_less F (item_priority F now a z) (item_priority F now a x)"
    using ordered_onD(2) [OF o S(3,2,1) yz xy] .
  have "\<not> it_id x < it_id z" if "f_eq F (item_priority F now a x) (item_priority F now a z)"
  proof -
    have e: "\<not> f_less F (item_priority F now a x) (item_priority F now a z)"
      using that ordered_onD(3) [OF o S(1,3)] by simp
    have "\<not> f_less F (item_priority F now a x) (item_priority F now a y)"
      using ordered_onD(2) [OF o S(1,3,2) e yz] .
    moreover have "\<not> f_less F (item_priority F now a y) (item_priority F now a z)"
      using ordered_onD(2) [OF o S(2,1,3) xy e] .
    ultimately have "f_eq F (item_priority F now a x) (item_priority F now a y)"
      "f_eq F (item_priority F now a y) (item_priority F now a z)"
      using ordered_onD(3) [OF o] S xy yz by auto
    then have "\<not> it_id x < it_id y" "\<not> it_id y < it_id z"
      using assms(5,6) by (auto simp: beats_def Let_def)
    then show ?thesis by auto
  qed
  with xz show ?thesis by (auto simp: beats_def Let_def)
qed

lemma beats_asym:
  assumes o: "ordered_on F S" and x: "item_priority F now a x \<in> S" and y: "item_priority F now a y \<in> S"
    and b: "beats F now a x y"
  shows "\<not> beats F now a y x"
proof -
  let ?x = "item_priority F now a x" and ?y = "item_priority F now a y"
  consider "f_less F ?y ?x" | "f_eq F ?x ?y" "it_id x < it_id y"
    using b by (auto simp: beats_def Let_def)
  then show ?thesis
  proof cases
    case 1
    then have "\<not> f_less F ?x ?y" "\<not> f_eq F ?y ?x"
      using ordered_onD(1) [OF o y x] ordered_onD(3) [OF o y x] by auto
    then show ?thesis by (simp add: beats_def Let_def)
  next
    case 2
    then have "\<not> f_less F ?x ?y" using ordered_onD(3) [OF o x y] by simp
    with 2 show ?thesis by (auto simp: beats_def Let_def)
  qed
qed

text \<open>
  The loop keeps the best item seen so far: nothing already looked at beats it.
\<close>

lemma next_from_best:
  assumes "ordered_on F S"
    and "\<forall>it \<in> set items \<union> set seen. item_priority F now a it \<in> S"
    and "case best of None \<Rightarrow> \<forall>x \<in> set seen. it_awaiting x
         | Some (_, b, p) \<Rightarrow> b \<in> set seen \<and> p = item_priority F now a b \<and>
             (\<forall>x \<in> set seen. \<not> it_awaiting x \<longrightarrow> \<not> beats F now a x b)"
    and "next_from F now a k items best = Some (j, it, p)"
  shows "\<forall>x \<in> set items \<union> set seen. \<not> it_awaiting x \<longrightarrow> \<not> beats F now a x it"
  using assms(2-)
proof (induction items arbitrary: seen k best)
  case Nil
  then show ?case by simp
next
  case (Cons y items)
  have y: "item_priority F now a y \<in> S" using Cons.prems(1) by simp
  have "case pick_best F now a k y best of None \<Rightarrow> \<forall>x \<in> set (y # seen). it_awaiting x
         | Some (_, b, p) \<Rightarrow> b \<in> set (y # seen) \<and> p = item_priority F now a b \<and>
             (\<forall>x \<in> set (y # seen). \<not> it_awaiting x \<longrightarrow> \<not> beats F now a x b)"
  proof (cases "it_awaiting y")
    case True
    then show ?thesis using Cons.prems(2) by (auto simp: pick_best_def split: option.splits)
  next
    case False
    have yy: "\<not> beats F now a y y" using beats_asym [OF assms(1) y y] by blast
    show ?thesis
    proof (cases best)
      case None
      then show ?thesis using False Cons.prems(2) yy by (auto simp: pick_best_def Let_def)
    next
      case (Some t)
      obtain i b q where t: "t = (i, b, q)" by (cases t)
      have b: "b \<in> set seen" "q = item_priority F now a b"
        "\<forall>x \<in> set seen. \<not> it_awaiting x \<longrightarrow> \<not> beats F now a x b"
        using Cons.prems(2) Some t by auto
      have pb: "pick_best F now a k y best =
          (if beats F now a y b then Some (k, y, item_priority F now a y) else best)"
        using False by (simp add: pick_best_def Some t b(2) beats_def Let_def)
      have "\<not> beats F now a x y" if "beats F now a y b" "x \<in> set seen" "\<not> it_awaiting x" for x
        using not_beats_trans [OF assms(1), of now a x b y] beats_asym [OF assms(1) y _ that(1)]
          Cons.prems(1) b that by auto
      with pb yy b Some t show ?thesis by auto
    qed
  qed
  from Cons.IH [OF _ this] Cons.prems(1,3) show ?case by auto
qed

lemma next_to_send_best:
  assumes "ordered_on F S" and "\<forall>it \<in> set items. item_priority F now a it \<in> S"
    and "next_to_send F now a items = Some (k, it)" and "x \<in> set items" and "\<not> it_awaiting x"
  shows "\<not> beats F now a x it"
proof -
  obtain p where "next_from F now a 0 items None = Some (k, it, p)"
    using assms(3) by (auto simp: next_to_send_def)
  from next_from_best [OF assms(1) _ _ this, of "[]"] assms(2,4,5) show ?thesis by simp
qed

subsection \<open>The queue's invariant\<close>

text \<open>
  What \<open>NetServer::send_payload\<close> puts in (an id of its own, an id of a game's message, fewer than
  \<open>2 ^ 32\<close> bytes) and what the operations keep of it: nothing is sent before the item starts, and
  an item waits for its acknowledgement exactly when it started and all of it was sent.
\<close>

definition item_wf :: "payload_item \<Rightarrow> bool" where
  "item_wf it \<longleftrightarrow>
     it_id it \<noteq> kNoPayload \<and> it_message it \<noteq> kInvalidMessageId \<and> \<not> engine_message (it_message it) \<and>
     length (it_bytes it) < 2 ^ 32 \<and> it_sent it \<le> length (it_bytes it) \<and>
     (it_awaiting it \<longleftrightarrow> it_started it \<and> it_sent it = length (it_bytes it)) \<and>
     (\<not> it_started it \<longrightarrow> it_sent it = 0)"

definition pq_wf :: "payload_queue \<Rightarrow> bool" where
  "pq_wf items \<longleftrightarrow> distinct (map it_id items) \<and> (\<forall>it \<in> set items. item_wf it)"

lemma after_fragment_sel [simp]:
  "it_id (after_fragment it) = it_id it" "it_message (after_fragment it) = it_message it"
  "it_bytes (after_fragment it) = it_bytes it" "it_compressed (after_fragment it) = it_compressed it"
  "it_started (after_fragment it)"
  "it_sent (after_fragment it) = it_sent it + fragment_data it"
  "it_awaiting (after_fragment it) \<longleftrightarrow> it_sent it + fragment_data it = length (it_bytes it)"
  by (simp_all add: after_fragment_def)

lemma fragment_data_le: "it_sent it \<le> length (it_bytes it) \<Longrightarrow> it_sent it + fragment_data it \<le> length (it_bytes it)"
  by (simp add: fragment_data_def)

lemma item_wf_after: "item_wf it \<Longrightarrow> item_wf (after_fragment it)"
  by (auto simp: item_wf_def fragment_data_le)

lemma pq_find_mem:
  "pq_wf items \<Longrightarrow> pq_find i items = Some it \<longleftrightarrow> it \<in> set items \<and> it_id it = i"
proof (induction items)
  case Nil
  then show ?case by (simp add: pq_find_def)
next
  case (Cons x items)
  then show ?case by (auto simp: pq_find_def pq_wf_def)
qed

lemma pq_find_self: "pq_wf items \<Longrightarrow> it \<in> set items \<Longrightarrow> pq_find (it_id it) items = Some it"
  by (simp add: pq_find_mem)

lemma pq_find_nth:
  "pq_wf items \<Longrightarrow> k < length items \<Longrightarrow> pq_find (it_id (items ! k)) items = Some (items ! k)"
  by (simp add: pq_find_mem)

lemma pq_find_update:
  assumes "pq_wf items" and "k < length items" and "it_id it' = it_id (items ! k)"
  shows "pq_find i (items[k := it']) = (if i = it_id it' then Some it' else pq_find i items)"
  using assms
proof (induction items arbitrary: k)
  case Nil
  then show ?case by simp
next
  case (Cons x items)
  show ?case
  proof (cases k)
    case 0
    with Cons.prems show ?thesis by (simp add: pq_find_def)
  next
    case (Suc n)
    have "it_id x \<noteq> it_id it'" using Cons.prems Suc by (auto simp: pq_wf_def)
    moreover have "pq_find i (items[n := it']) = (if i = it_id it' then Some it' else pq_find i items)"
      using Cons Suc by (simp add: pq_wf_def)
    ultimately show ?thesis using Suc by (auto simp: pq_find_def)
  qed
qed

lemma pq_wf_update:
  assumes "pq_wf items" and "k < length items" and "it_id it' = it_id (items ! k)" and "item_wf it'"
  shows "pq_wf (items[k := it'])"
proof -
  have "map it_id (items[k := it']) = map it_id items"
    using assms(2,3) by (metis list_update_id map_update nth_map)
  then show ?thesis
    using assms by (auto simp: pq_wf_def dest: set_update_subset_insert [THEN subsetD])
qed

lemma pq_wf_filter: "pq_wf items \<Longrightarrow> pq_wf (filter P items)"
  by (simp add: pq_wf_def distinct_map_filter)

lemma pq_find_filter:
  "pq_wf items \<Longrightarrow> pq_find j (filter (\<lambda>it. it_id it \<noteq> i) items) = (if j = i then None else pq_find j items)"
  by (induction items) (auto simp: pq_find_def pq_wf_def)

lemma pq_wf_push:
  "pq_wf items \<Longrightarrow> pq_find i items = None \<Longrightarrow> i \<noteq> kNoPayload \<Longrightarrow> m \<noteq> kInvalidMessageId \<Longrightarrow>
   \<not> engine_message m \<Longrightarrow> length bs < 2 ^ 32 \<Longrightarrow> pq_wf (pq_push i m bs opts now items)"
  by (auto simp: pq_wf_def pq_push_def item_wf_def pq_find_def find_first_None)

lemma pq_find_push:
  "pq_find i items = None \<Longrightarrow>
   pq_find j (pq_push i m bs opts now items) =
     (if j = i then Some \<lparr>it_id = i, it_message = m, it_bytes = bs, it_priority = po_priority opts,
       it_compressed = po_compressed opts, it_queued = now, it_sent = 0, it_started = False,
       it_awaiting = False\<rparr> else pq_find j items)"
  by (induction items) (auto simp: pq_push_def pq_find_def)

lemma update_first_ids:
  "map it_id (update_first i (\<lambda>it. it\<lparr>it_priority := p\<rparr>) items) = map it_id items"
  by (induction items) simp_all

lemma update_first_mem:
  "x \<in> set (update_first i (\<lambda>it. it\<lparr>it_priority := p\<rparr>) items) \<Longrightarrow>
     \<exists>y \<in> set items. x = y \<or> x = y\<lparr>it_priority := p\<rparr>"
  by (induction items) (auto split: if_splits)

lemma pq_find_update_first:
  "pq_find j (update_first i (\<lambda>it. it\<lparr>it_priority := p\<rparr>) items) =
     map_option (\<lambda>it. if j = i then it\<lparr>it_priority := p\<rparr> else it) (pq_find j items)"
  by (induction items) (auto simp: pq_find_def option.map_ident)

lemma item_wf_priority [simp]: "item_wf (it\<lparr>it_priority := p\<rparr>) = item_wf it"
  by (simp add: item_wf_def)

lemma pq_wf_set_priority: "pq_wf items \<Longrightarrow> pq_wf (snd (pq_set_priority i p items))"
  by (fastforce simp: pq_set_priority_def pq_wf_def update_first_ids dest: update_first_mem
      split: option.split)

subsection \<open>The loop of \<open>pump\<close> ends\<close>

definition item_work :: "payload_item \<Rightarrow> nat" where
  "item_work it =
     (if it_awaiting it then 0
      else length (it_bytes it) - it_sent it + (if it_started it then 0 else 1))"

lemma pump_step_Some:
  assumes "pump_step F T peer now limits (items, ts, credit) = (Some (n, items', ts', credit'), ts'')"
  obtains k it where "k < length items" and "it = items ! k" and "\<not> it_awaiting it"
    and "items' = items[k := after_fragment it]" and "n = fragment_size it" and "ts'' = ts'"
    and "t_send T peer (fragment_message it) ReliableOrdered ts = (True, ts')"
    and "\<not> f_less F credit (f_int F (int (fragment_size it)))"
    and "t_pending T peer ts < backlog_bytes limits"
    and "next_to_send F now (aging_per_tick limits) items = Some (k, it)"
    and "credit' = f_sub F credit (f_int F (int (fragment_size it)))"
proof -
  obtain k it where k: "next_to_send F now (aging_per_tick limits) items = Some (k, it)"
    using assms by (auto simp: pump_step_def split: option.splits)
  note it = next_to_send_Some [OF k]
  have *: "\<not> (f_less F credit (f_int F (int (fragment_size it))) \<or> t_pending T peer ts \<ge> backlog_bytes limits)"
    using assms by (auto simp: pump_step_def k)
  obtain b t where send: "t_send T peer (fragment_message it) ReliableOrdered ts = (b, t)" by fastforce
  show thesis
    by (rule that [of k it])
      (use it * k send assms in \<open>auto simp: pump_step_def split: bool.splits\<close>)
qed

lemma pump_step_None:
  assumes "pump_step F T peer now limits (items, ts, credit) = (None, ts')"
  shows "ts' = ts \<or> (\<exists>k it. next_to_send F now (aging_per_tick limits) items = Some (k, it) \<and>
    t_send T peer (fragment_message it) ReliableOrdered ts = (False, ts'))"
  using assms
  by (auto simp: pump_step_def split: option.splits prod.splits if_splits bool.splits)

lemma item_work_after:
  assumes "item_wf it" and "\<not> it_awaiting it"
  shows "item_work (after_fragment it) < item_work it"
  using assms by (auto simp: item_work_def item_wf_def fragment_data_def kPayloadFragmentBytes_def)

lemma sum_list_update_less:
  assumes "k < length xs" and "f y < (f (xs ! k) :: nat)"
  shows "sum_list (map f (xs[k := y])) < sum_list (map f xs)"
  using assms
proof (induction xs arbitrary: k)
  case Nil
  then show ?case by simp
next
  case (Cons x xs)
  then show ?case by (cases k) auto
qed

lemma pump_step_work:
  assumes "pq_wf items"
    and "pump_step F T peer now limits (items, ts, credit) = (Some (n, items', ts', credit'), ts'')"
  shows "pq_wf items'" and "sum_list (map item_work items') < sum_list (map item_work items)"
proof -
  obtain k it where k: "k < length items" "it = items ! k" "\<not> it_awaiting it"
    "items' = items[k := after_fragment it]"
    by (rule pump_step_Some [OF assms(2)])
  then have it: "item_wf it" using assms(1) by (simp add: pq_wf_def)
  show "pq_wf items'" using k it assms(1) by (simp add: pq_wf_update item_wf_after)
  show "sum_list (map item_work items') < sum_list (map item_work items)"
    using k sum_list_update_less [OF k(1), of item_work "after_fragment it"] item_work_after [OF it k(3)]
    by simp
qed

text \<open>
  The loop ends with a result, and whatever each of its turns preserves holds of the result.
\<close>

lemma pump_loop_result:
  assumes "pq_wf items" and "P items ts"
    and step: "\<And>items ts credit n items' ts' credit' ts''. pq_wf items \<Longrightarrow> P items ts \<Longrightarrow>
      pump_step F T peer now limits (items, ts, credit) = (Some (n, items', ts', credit'), ts'') \<Longrightarrow>
      P items' ts'"
    and stop: "\<And>items ts credit ts'. pq_wf items \<Longrightarrow> P items ts \<Longrightarrow>
      pump_step F T peer now limits (items, ts, credit) = (None, ts') \<Longrightarrow> P items ts'"
  shows "\<exists>n items' ts' credit'. pump_loop F T peer now limits acc items ts credit =
    Some (n, items', ts', credit') \<and> pq_wf items' \<and> P items' ts'"
  using assms(1,2)
proof (induction "sum_list (map item_work items)" arbitrary: items ts credit acc rule: less_induct)
  case less
  show ?case
  proof (cases "pump_step F T peer now limits (items, ts, credit)")
    case (Pair res ts2)
    show ?thesis
    proof (cases res)
      case None
      with Pair less.prems stop show ?thesis
        by (subst pump_loop.simps) simp
    next
      case (Some r)
      obtain n items' ts' credit' where r: "r = (n, items', ts', credit')" by (cases r)
      note st = Pair [unfolded Some r]
      show ?thesis
        using less.hyps [OF pump_step_work(2) [OF less.prems(1) st] pump_step_work(1) [OF less.prems(1) st]
            step [OF less.prems st], of "acc + n" credit'] st
        by (subst pump_loop.simps) simp
    qed
  qed
qed

subsection \<open>Properties\<close>

text \<open>
  C22: \<open>pump\<close> returns for every queue, transport, budget and arithmetic (a budget that is infinite or
  a NaN too), and it leaves the queue well formed with the same payloads in it.
\<close>

theorem pump_returns:
  assumes "pq_wf items"
  shows "\<exists>n items' ts' credit'. pump F T peer now limits items ts credit =
    Some (n, items', ts', credit') \<and> pq_wf items' \<and> pq_ids items' = pq_ids items"
proof -
  have "\<exists>n items' ts' credit'. pump_loop F T peer now limits 0 items ts credit =
    Some (n, items', ts', credit') \<and> pq_wf items' \<and> pq_ids items' = pq_ids items"
  proof (rule pump_loop_result [where P = "\<lambda>its _. pq_ids its = pq_ids items"])
    fix its t c n its' t' c' t''
    assume "pq_ids its = pq_ids items"
      and "pump_step F T peer now limits (its, t, c) = (Some (n, its', t', c'), t'')"
    then show "pq_ids its' = pq_ids items"
      by (elim pump_step_Some) (metis after_fragment_sel(1) list_update_id map_update pq_ids_def)
  qed (use assms in auto)
  then show ?thesis by (simp add: pump_def)
qed

definition quiet_transport :: "nat transport_ops" where
  "quiet_transport = \<lparr>t_send = (\<lambda>_ bs _ n. (n < 2, n + 1)), t_pending = (\<lambda>_ _. 0)\<rparr>"

definition two_payloads :: payload_queue where
  "two_payloads =
     pq_push 2 7 [1, 2, 3] \<lparr>po_priority = 1, po_compressed = False\<rparr> 1
       (pq_push 1 7 [9] \<lparr>po_priority = 0, po_compressed = False\<rparr> 1 [])"

lemma two_payloads_wf: "pq_wf two_payloads"
  by (simp add: two_payloads_def pq_push_def pq_wf_def item_wf_def message_ids kNoPayload_def
      engine_message_def)

theorem pump_returns_witness:
  "\<exists>n items' ts' credit'. pump rat_arith quiet_transport 2 5 \<lparr>aging_per_tick = 0, backlog_bytes = 10\<rparr>
     two_payloads 0 100 = Some (n, items', ts', credit') \<and> pq_wf items' \<and> pq_ids items' = [1, 2]"
  using pump_returns [OF two_payloads_wf, of rat_arith quiet_transport 2 5
      "\<lparr>aging_per_tick = 0, backlog_bytes = 10\<rparr>" 0 100]
  by (simp add: two_payloads_def pq_push_def pq_ids_def)

text \<open>
  The item \<open>next_to_send\<close> chooses still has something to send, and no other such item has a
  higher priority plus age, nor the same with a smaller id; and it finds one whenever there is one.
\<close>

lemma next_is_best:
  assumes "ordered_on F (item_priority F now a ` set items)"
  shows "(case next_to_send F now a items of
      None \<Rightarrow> \<forall>x \<in> set items. it_awaiting x
    | Some (k, it) \<Rightarrow> k < length items \<and> items ! k = it \<and> \<not> it_awaiting it \<and>
        (\<forall>x \<in> set items. \<not> it_awaiting x \<longrightarrow>
           \<not> f_less F (item_priority F now a it) (item_priority F now a x) \<and>
           (f_eq F (item_priority F now a x) (item_priority F now a it) \<longrightarrow> it_id it \<le> it_id x)))"
proof (cases "next_to_send F now a items")
  case None
  then show ?thesis using next_to_send_None [OF None] by simp
next
  case (Some t)
  obtain k it where t: "t = (k, it)" by (cases t)
  have "\<not> beats F now a x it" if "x \<in> set items" "\<not> it_awaiting x" for x
    using next_to_send_best [OF assms _ Some [unfolded t] that] by simp
  then show ?thesis
    using next_to_send_Some [OF Some [unfolded t]] by (auto simp: Some t beats_def Let_def not_less)
qed

lemma next_is_best_witness:
  "next_to_send rat_arith 5 0 two_payloads = Some (1, two_payloads ! 1) \<and>
   \<not> f_less rat_arith (item_priority rat_arith 5 0 (two_payloads ! 1))
       (item_priority rat_arith 5 0 (two_payloads ! 0))"
proof -
  have "ordered_on rat_arith (item_priority rat_arith 5 0 ` set two_payloads)"
    by (auto simp: ordered_on_def rat_arith_def)
  from next_is_best [OF this]
  show ?thesis
    by (simp add: next_to_send_def pick_best_def two_payloads_def pq_push_def item_priority_def
        rat_arith_def)
qed

end
