(* ===== verification/Payload_Assembler.thy ===== *)
theory Payload_Assembler
  imports Net_Types Compression "HOL-Library.AList"
begin

section \<open>Incoming payloads of the client\<close>

text \<open>
  \<^verbatim>\<open>src/net/payload_assembler.h\<close> and \<^verbatim>\<open>src/net/payload_assembler.cpp\<close>. The open payloads
  are an association list with one entry per id (the code's \<open>std::map\<close>). A \<open>Result\<close> is nothing
  yet, a finished message, or the reason the stream is malformed; the log text of a reason is left
  out, its numbers are kept.
\<close>

record open_payload =
  op_message :: message_id
  op_compressed :: bool
  op_total :: u32
  op_bytes :: bytes

record assembler =
  as_limit :: nat
  as_held :: nat
  as_open :: "(payload_id \<times> open_payload) list"

datatype payload_error =
    TruncatedBegin | BeginWithNoId | BeginForMessage message_id | UnknownFlags
  | OverLimit u32 | AlreadyOpen | TooManyUnfinished
  | TruncatedFragment | FragmentNotOpen | FragmentAtOffset u32 nat
  | MalformedCancel | BeyondItsSize | UnfinishedOverLimit | TruncatedPayloadBytes
  | DoesNotDecompress compression_error

datatype assembler_result = Nothing | Done payload_id bytes | Failed payload_error

definition kMaxOpen :: nat where "kMaxOpen = 4096"

definition new_assembler :: assembler where
  "new_assembler = \<lparr>as_limit = 0, as_held = 0, as_open = []\<rparr>"

definition set_limit :: "nat \<Rightarrow> assembler \<Rightarrow> assembler" where
  "set_limit n a = a\<lparr>as_limit := n\<rparr>"

definition finish :: "lz4_decompress \<Rightarrow> payload_id \<Rightarrow> open_payload \<Rightarrow> assembler \<Rightarrow> assembler_result" where
  "finish lzd i p a =
     (let message = (\<lambda>raw. Done i (buffer (append_bytes raw (write_u16 (op_message p) new_writer))))
      in if op_compressed p
         then (case decompress lzd (op_bytes p) (as_limit a) of
                 Inl e \<Rightarrow> Failed (DoesNotDecompress e)
               | Inr unpacked \<Rightarrow> message unpacked)
         else message (op_bytes p))"

text \<open>\<open>take_bytes\<close> works on the entry of \<open>i\<close>, which its callers have just found or made.\<close>

definition take_bytes ::
  "lz4_decompress \<Rightarrow> payload_id \<Rightarrow> open_payload \<Rightarrow> assembler \<Rightarrow> byte_reader \<Rightarrow>
   assembler_result \<times> assembler \<times> byte_reader" where
  "take_bytes lzd i p a r =
     (let n = remaining r
      in if n > unat (op_total p) - length (op_bytes p) then (Failed BeyondItsSize, a, r)
         else if as_held a + n > as_limit a then (Failed UnfinishedOverLimit, a, r)
         else (case read_bytes n r of
                 (None, r') \<Rightarrow> (Failed TruncatedPayloadBytes, a, r')
               | (Some bs, r') \<Rightarrow>
                   (let p' = p\<lparr>op_bytes := op_bytes p @ bs\<rparr>;
                        a' = a\<lparr>as_held := as_held a + n, as_open := AList.update i p' (as_open a)\<rparr>
                    in if length (op_bytes p') < unat (op_total p') then (Nothing, a', r')
                       else
                         (let a'' = a'\<lparr>as_held := as_held a' - length (op_bytes p'),
                                       as_open := AList.delete i (as_open a')\<rparr>
                          in (finish lzd i p' a'', a'', r')))))"

definition begin_payload ::
  "lz4_decompress \<Rightarrow> assembler \<Rightarrow> byte_reader \<Rightarrow> assembler_result \<times> assembler \<times> byte_reader" where
  "begin_payload lzd a r =
     (let (i, r1) = read_u32 r; (m, r2) = read_u16 r1; (flags, r3) = read_u8 r2; (n, r4) = read_u32 r3
      in case (i, m, flags, n) of
           (Some i, Some m, Some flags, Some n) \<Rightarrow>
             (if i = kNoPayload then (Failed BeginWithNoId, a, r4)
              else if m = kInvalidMessageId \<or> engine_message m then (Failed (BeginForMessage m), a, r4)
              else if and flags (not 1) \<noteq> 0 then (Failed UnknownFlags, a, r4)
              else if unat n > as_limit a then (Failed (OverLimit n), a, r4)
              else if map_of (as_open a) i \<noteq> None then (Failed AlreadyOpen, a, r4)
              else if length (as_open a) \<ge> kMaxOpen then (Failed TooManyUnfinished, a, r4)
              else
                (let p = \<lparr>op_message = m, op_compressed = (and flags 1 \<noteq> 0), op_total = n, op_bytes = []\<rparr>
                 in take_bytes lzd i p (a\<lparr>as_open := AList.update i p (as_open a)\<rparr>) r4))
         | _ \<Rightarrow> (Failed TruncatedBegin, a, r4))"

definition fragment_payload ::
  "lz4_decompress \<Rightarrow> assembler \<Rightarrow> byte_reader \<Rightarrow> assembler_result \<times> assembler \<times> byte_reader" where
  "fragment_payload lzd a r =
     (let (i, r1) = read_u32 r; (offset, r2) = read_u32 r1
      in case (i, offset) of
           (Some i, Some offset) \<Rightarrow>
             (case map_of (as_open a) i of
                None \<Rightarrow> (Failed FragmentNotOpen, a, r2)
              | Some p \<Rightarrow>
                  (if unat offset \<noteq> length (op_bytes p)
                   then (Failed (FragmentAtOffset offset (length (op_bytes p))), a, r2)
                   else take_bytes lzd i p a r2))
         | _ \<Rightarrow> (Failed TruncatedFragment, a, r2))"

definition cancel_payload_message ::
  "assembler \<Rightarrow> byte_reader \<Rightarrow> assembler_result \<times> assembler \<times> byte_reader" where
  "cancel_payload_message a r =
     (let (i, r1) = read_u32 r
      in case i of
           None \<Rightarrow> (Failed MalformedCancel, a, r1)
         | Some i \<Rightarrow>
             (if remaining r1 \<noteq> 0 then (Failed MalformedCancel, a, r1)
              else (case map_of (as_open a) i of
                      None \<Rightarrow> (Nothing, a, r1)
                    | Some p \<Rightarrow>
                        (Nothing, a\<lparr>as_held := as_held a - length (op_bytes p),
                           as_open := AList.delete i (as_open a)\<rparr>, r1))))"

definition clear_assembler :: "assembler \<Rightarrow> assembler" where
  "clear_assembler a = a\<lparr>as_open := [], as_held := 0\<rparr>"

definition open_count :: "assembler \<Rightarrow> nat" where
  "open_count a = length (as_open a)"

subsection \<open>The invariant\<close>

definition bytes_held :: "(payload_id \<times> open_payload) list \<Rightarrow> nat" where
  "bytes_held ps = sum_list (map (length \<circ> op_bytes \<circ> snd) ps)"

text \<open>
  One entry per id, no entry has all of its bytes (it would be finished) or more, \<open>held\<close> is what
  the entries hold, and both the bytes and the entries are within their limits. An entry that was
  refused its first bytes stays, empty; its connection is closed by the caller.
\<close>

definition assembler_inv :: "assembler \<Rightarrow> bool" where
  "assembler_inv a \<longleftrightarrow>
     distinct (map fst (as_open a)) \<and>
     (\<forall>(i, p) \<in> set (as_open a). i \<noteq> kNoPayload \<and> length (op_bytes p) \<le> unat (op_total p)) \<and>
     as_held a = bytes_held (as_open a) \<and> as_held a \<le> as_limit a \<and>
     length (as_open a) \<le> kMaxOpen"

lemma bytes_held_append [simp]: "bytes_held (xs @ ys) = bytes_held xs + bytes_held ys"
  and bytes_held_Cons [simp]: "bytes_held (x # xs) = length (op_bytes (snd x)) + bytes_held xs"
  and bytes_held_Nil [simp]: "bytes_held [] = 0"
  by (simp_all add: bytes_held_def)

lemma bytes_held_update:
  "distinct (map fst ps) \<Longrightarrow> map_of ps i = Some p \<Longrightarrow>
     bytes_held (AList.update i p' ps) + length (op_bytes p) = bytes_held ps + length (op_bytes p')"
  by (induction ps) (auto split: if_splits)

lemma bytes_held_update_new:
  "map_of ps i = None \<Longrightarrow> bytes_held (AList.update i p ps) = bytes_held ps + length (op_bytes p)"
  by (induction ps) (auto split: if_splits)

lemma bytes_held_delete:
  "distinct (map fst ps) \<Longrightarrow> map_of ps i = Some p \<Longrightarrow>
     bytes_held (AList.delete i ps) + length (op_bytes p) = bytes_held ps"
proof (induction ps)
  case Nil
  then show ?case by simp
next
  case (Cons x ps)
  show ?case
  proof (cases "fst x = i")
    case True
    moreover from this Cons.prems have "i \<notin> fst ` set ps" by auto
    moreover from this have "AList.delete i ps = ps" by (rule delete_id)
    ultimately show ?thesis using Cons.prems by auto
  next
    case False
    then show ?thesis using Cons by (cases x) (auto split: if_splits)
  qed
qed

lemma length_update_present: "map_of ps i = Some p \<Longrightarrow> length (AList.update i p' ps) = length ps"
  by (induction ps) (auto split: if_splits)

lemma length_update_new: "map_of ps i = None \<Longrightarrow> length (AList.update i p' ps) = Suc (length ps)"
  by (induction ps) (auto split: if_splits)

lemma set_update_distinct:
  "distinct (map fst ps) \<Longrightarrow> x \<in> set (AList.update i p ps) \<Longrightarrow> x = (i, p) \<or> x \<in> set ps \<and> fst x \<noteq> i"
  by (induction ps) (auto split: if_splits)

lemma assembler_invI:
  assumes "distinct (map fst (as_open a))"
    and "\<And>i p. (i, p) \<in> set (as_open a) \<Longrightarrow> i \<noteq> kNoPayload \<and> length (op_bytes p) \<le> unat (op_total p)"
    and "as_held a = bytes_held (as_open a)" and "as_held a \<le> as_limit a"
    and "length (as_open a) \<le> kMaxOpen"
  shows "assembler_inv a"
  using assms by (auto simp: assembler_inv_def)

lemma assembler_invD:
  assumes "assembler_inv a"
  shows "distinct (map fst (as_open a))"
    and "\<And>i p. map_of (as_open a) i = Some p \<Longrightarrow> i \<noteq> kNoPayload \<and> length (op_bytes p) \<le> unat (op_total p)"
    and "\<And>i p. (i, p) \<in> set (as_open a) \<Longrightarrow> i \<noteq> kNoPayload \<and> length (op_bytes p) \<le> unat (op_total p)"
    and "as_held a = bytes_held (as_open a)" and "as_held a \<le> as_limit a"
    and "length (as_open a) \<le> kMaxOpen"
  using assms by (auto simp: assembler_inv_def dest!: map_of_SomeD)

lemma inv_update:
  assumes "assembler_inv a" and "map_of (as_open a) i = Some p"
    and "length (op_bytes p') \<le> unat (op_total p')"
    and "as_held a - length (op_bytes p) + length (op_bytes p') \<le> as_limit a"
  shows "assembler_inv (a\<lparr>as_held := as_held a + length (op_bytes p') - length (op_bytes p),
    as_open := AList.update i p' (as_open a)\<rparr>)"
proof (rule assembler_invI)
  note inv = assembler_invD [OF assms(1)]
  have le: "length (op_bytes p) \<le> as_held a"
    using bytes_held_delete [OF inv(1) assms(2)] inv(4) by simp
  show "as_held (a\<lparr>as_held := as_held a + length (op_bytes p') - length (op_bytes p),
      as_open := AList.update i p' (as_open a)\<rparr>) =
    bytes_held (as_open (a\<lparr>as_held := as_held a + length (op_bytes p') - length (op_bytes p),
      as_open := AList.update i p' (as_open a)\<rparr>))"
    using bytes_held_update [OF inv(1) assms(2), of p'] inv(4) le by simp
  show "length (as_open (a\<lparr>as_held := as_held a + length (op_bytes p') - length (op_bytes p),
      as_open := AList.update i p' (as_open a)\<rparr>)) \<le> kMaxOpen"
    using inv(6) by (simp add: length_update_present [OF assms(2)])
qed (use assms assembler_invD [OF assms(1)] in \<open>auto simp: distinct_update dest!: set_update_distinct\<close>)

lemma delete_memberD:
  "distinct (map fst ps) \<Longrightarrow> x \<in> set (AList.delete i ps) \<Longrightarrow> x \<in> set ps \<and> fst x \<noteq> i"
  by (induction ps) (auto split: if_splits)

lemma delete_keeps_distinct: "distinct (map fst ps) \<Longrightarrow> distinct (map fst (AList.delete i ps))"
  by (simp add: distinct_delete)

lemma inv_delete:
  assumes "assembler_inv a" and "map_of (as_open a) i = Some p"
  shows "assembler_inv (a\<lparr>as_held := as_held a - length (op_bytes p),
    as_open := AList.delete i (as_open a)\<rparr>)"
proof (rule assembler_invI)
  note inv = assembler_invD [OF assms(1)]
  show "length (as_open (a\<lparr>as_held := as_held a - length (op_bytes p),
      as_open := AList.delete i (as_open a)\<rparr>)) \<le> kMaxOpen"
    using inv(6) length_delete_le [of i "as_open a"] by simp
  show "j \<noteq> kNoPayload \<and> length (op_bytes q) \<le> unat (op_total q)"
    if "(j, q) \<in> set (as_open (a\<lparr>as_held := as_held a - length (op_bytes p),
      as_open := AList.delete i (as_open a)\<rparr>))" for j q
    using that delete_memberD [OF inv(1)] inv(3) by fastforce
qed (use assembler_invD [OF assms(1)] bytes_held_delete [OF assembler_invD(1) [OF assms(1)] assms(2)]
    in \<open>auto simp: delete_keeps_distinct\<close>)

subsection \<open>Every operation keeps the invariant\<close>

lemma read_bytes_Some_length: "read_bytes n r = (Some bs, r') \<Longrightarrow> length bs = n"
  by (auto simp: read_bytes_def split: if_splits)

lemma new_assembler_inv: "assembler_inv (set_limit n new_assembler)"
  by (auto simp: assembler_inv_def set_limit_def new_assembler_def)

lemma update_update_delete:
  "AList.delete i (AList.update i p ps) = AList.delete i ps"
  by (induction ps) auto

lemma take_bytes_inv:
  assumes inv: "assembler_inv a" and p: "map_of (as_open a) i = Some p"
  shows "assembler_inv (fst (snd (take_bytes lzd i p a r)))"
proof -
  note I = assembler_invD [OF inv]
  have held: "length (op_bytes p) \<le> as_held a"
    using bytes_held_delete [OF I(1) p] I(4) by simp
  show ?thesis
  proof (cases "remaining r > unat (op_total p) - length (op_bytes p) \<or>
      as_held a + remaining r > as_limit a")
    case True
    then show ?thesis using inv by (auto simp: take_bytes_def Let_def)
  next
    case fits: False
    show ?thesis
    proof (cases "read_bytes (remaining r) r")
      case (Pair res r')
      show ?thesis
      proof (cases res)
        case None
        with Pair fits inv show ?thesis by (simp add: take_bytes_def Let_def)
      next
        case (Some bs)
        define q where "q = p\<lparr>op_bytes := op_bytes p @ bs\<rparr>"
        have len: "length bs = remaining r" using Pair Some read_bytes_Some_length by simp
        have q: "length (op_bytes q) \<le> unat (op_total q)"
          using fits len I(2) [OF p] by (simp add: q_def not_less) linarith
        have step: "assembler_inv (a\<lparr>as_held := as_held a + remaining r, as_open := AList.update i q (as_open a)\<rparr>)"
          using inv_update [OF inv p q] fits held by (simp add: q_def len)
        have gone: "assembler_inv (a\<lparr>as_held := as_held a + remaining r - length (op_bytes q),
            as_open := AList.delete i (AList.update i q (as_open a))\<rparr>)"
          using inv_delete [OF step, of i q] by (simp add: update_conv')
        show ?thesis using Pair Some fits step gone
          by (simp add: take_bytes_def Let_def q_def)
      qed
    qed
  qed
qed

lemma inv_open:
  assumes inv: "assembler_inv a" and "map_of (as_open a) i = None" and "i \<noteq> kNoPayload"
    and "length (as_open a) < kMaxOpen" and "op_bytes p = []"
  shows "assembler_inv (a\<lparr>as_open := AList.update i p (as_open a)\<rparr>)"
proof (rule assembler_invI)
  note I = assembler_invD [OF inv]
  show "j \<noteq> kNoPayload \<and> length (op_bytes q) \<le> unat (op_total q)"
    if "(j, q) \<in> set (as_open (a\<lparr>as_open := AList.update i p (as_open a)\<rparr>))" for j q
    using that set_update_distinct [OF I(1)] I(3) assms(3,5) by fastforce
qed (use assms assembler_invD [OF inv] in
    \<open>auto simp: distinct_update length_update_new bytes_held_update_new\<close>)

lemma begin_inv: "assembler_inv a \<Longrightarrow> assembler_inv (fst (snd (begin_payload lzd a r)))"
  unfolding begin_payload_def
  by (auto simp: Let_def update_conv' intro!: take_bytes_inv inv_open split: prod.splits option.splits)

lemma fragment_inv: "assembler_inv a \<Longrightarrow> assembler_inv (fst (snd (fragment_payload lzd a r)))"
  unfolding fragment_payload_def
  by (auto simp: Let_def intro!: take_bytes_inv split: prod.splits option.splits)

lemma cancel_inv: "assembler_inv a \<Longrightarrow> assembler_inv (fst (snd (cancel_payload_message a r)))"
  unfolding cancel_payload_message_def
  by (auto simp: Let_def intro!: inv_delete split: prod.splits option.splits)

lemma clear_inv: "assembler_inv a \<Longrightarrow> assembler_inv (clear_assembler a)"
  by (simp add: assembler_inv_def clear_assembler_def)

lemma set_limit_inv: "assembler_inv a \<Longrightarrow> as_limit a \<le> n \<Longrightarrow> assembler_inv (set_limit n a)"
  by (auto simp: assembler_inv_def set_limit_def)

end
