(* ===== verification/Payload_Stream.thy ===== *)
theory Payload_Stream
  imports Payload_Queue Payload_Assembler Loopback
begin

section \<open>A payload from the server's queue to the client's assembler\<close>

text \<open>
  The two ends of the reliable payload stream together. The server's side is the queue of one peer
  (\<open>Payload_Queue\<close>) over a transport that keeps what it accepted; the client's side hands each of
  those messages, in order, to the assembler (\<open>Payload_Assembler\<close>), by the id the way
  \<open>receive_payload_message\<close> of \<^verbatim>\<open>src/net/net_client.cpp\<close> does; what the client does with the
  assembler's results, and when it stops, is in \<open>Payload_Client\<close>. The simulation \<open>in_step\<close> relates
  the two ends: the assembler holds exactly what the queue has sent of the payloads it has begun and
  not finished.
\<close>

definition payload_message ::
  "lz4_decompress \<Rightarrow> message_id \<Rightarrow> assembler \<Rightarrow> byte_reader \<Rightarrow> assembler_result \<times> assembler \<times> byte_reader" where
  "payload_message lzd m a r =
     (if m = kPayloadBeginMessageId then begin_payload lzd a r
      else if m = kPayloadFragmentMessageId then fragment_payload lzd a r
      else cancel_payload_message a r)"

text \<open>
  One message of the stream: its id, then what the id's handler reads. \<open>deliver_all\<close> goes on after a fault, which
  the client does not; the client's run is a prefix of it.
\<close>

definition deliver :: "lz4_decompress \<Rightarrow> assembler \<Rightarrow> bytes \<Rightarrow> assembler_result \<times> assembler" where
  "deliver lzd a bs =
     (case read_u16 (new_reader bs) of
        (None, _) \<Rightarrow> (Nothing, a)
      | (Some m, r) \<Rightarrow> (case payload_message lzd m a r of (res, a', _) \<Rightarrow> (res, a')))"

fun deliver_all :: "lz4_decompress \<Rightarrow> assembler \<Rightarrow> bytes list \<Rightarrow> assembler_result list \<times> assembler" where
  "deliver_all lzd a [] = ([], a)"
| "deliver_all lzd a (bs # rest) =
     (let (res, a1) = deliver lzd a bs; (results, a2) = deliver_all lzd a1 rest
      in (res # results, a2))"

definition stream_id :: "message_id \<Rightarrow> bool" where
  "stream_id m \<longleftrightarrow> m = kPayloadBeginMessageId \<or> m = kPayloadFragmentMessageId \<or> m = kPayloadCancelMessageId"

definition stream_message :: "bytes \<Rightarrow> bool" where
  "stream_message bs \<longleftrightarrow> (case read_u16 (new_reader bs) of (Some m, _) \<Rightarrow> stream_id m | _ \<Rightarrow> False)"

lemma deliver_all_append:
  "deliver_all lzd a (xs @ ys) =
     (let (r1, a1) = deliver_all lzd a xs; (r2, a2) = deliver_all lzd a1 ys in (r1 @ r2, a2))"
  by (induction xs arbitrary: a) (auto simp: Let_def split: prod.splits)

subsection \<open>What is on the wire\<close>

lemma cancel_message_bytes: "cancel_message i = enc_u16 kPayloadCancelMessageId @ enc_u32 i"
  by (simp add: cancel_message_def wire)

lemma fragment_message_bytes:
  "fragment_message it =
     (if it_started it
      then enc_u16 kPayloadFragmentMessageId @ enc_u32 (it_id it) @ enc_u32 (of_nat (it_sent it)) @
        take (fragment_data it) (drop (it_sent it) (it_bytes it))
      else enc_u16 kPayloadBeginMessageId @ enc_u32 (it_id it) @ enc_u16 (it_message it) @
        enc_u8 (if it_compressed it then kPayloadFlagCompressed else 0) @
        enc_u32 (of_nat (length (it_bytes it))) @
        take (fragment_data it) (drop (it_sent it) (it_bytes it)))"
  by (simp add: fragment_message_def wire Let_def)

lemma queue_messages: "stream_message (fragment_message it)" "stream_message (cancel_message i)"
  by (simp_all add: stream_message_def stream_id_def fragment_message_bytes cancel_message_bytes new_reader_at wire)

subsection \<open>The simulation\<close>

definition held_part :: "payload_item \<Rightarrow> open_payload option" where
  "held_part it =
     (if it_started it \<and> \<not> it_awaiting it
      then Some \<lparr>op_message = it_message it, op_compressed = it_compressed it,
        op_total = of_nat (length (it_bytes it)), op_bytes = take (it_sent it) (it_bytes it)\<rparr>
      else None)"

definition in_step :: "payload_queue \<Rightarrow> assembler \<Rightarrow> bool" where
  "in_step items a \<longleftrightarrow>
     pq_wf items \<and> assembler_inv a \<and>
     (\<forall>i. map_of (as_open a) i = Option.bind (pq_find i items) held_part)"

text \<open>What the client's memory limit and its cap on open payloads ask of the server's queue.\<close>

definition within_limits :: "payload_queue \<Rightarrow> assembler \<Rightarrow> bool" where
  "within_limits items a \<longleftrightarrow>
     sum_list (map (\<lambda>it. length (it_bytes it)) items) \<le> as_limit a \<and> length items \<le> kMaxOpen"

definition whole :: "payload_item \<Rightarrow> open_payload" where
  "whole it = \<lparr>op_message = it_message it, op_compressed = it_compressed it,
     op_total = of_nat (length (it_bytes it)), op_bytes = it_bytes it\<rparr>"

definition sent_part :: "payload_item \<Rightarrow> nat" where
  "sent_part it = (if it_started it \<and> \<not> it_awaiting it then it_sent it else 0)"

text \<open>The assembler holds the sent parts: by one entry per id on both sides.\<close>

lemma bytes_held_map_of:
  assumes "distinct (map fst ps)" and "finite A" and "fst ` set ps \<subseteq> A"
  shows "bytes_held ps = (\<Sum>i \<in> A. case map_of ps i of None \<Rightarrow> 0 | Some p \<Rightarrow> length (op_bytes p))"
  using assms
proof (induction ps arbitrary: A)
  case Nil
  then show ?case by simp
next
  case (Cons x ps)
  have x: "fst x \<in> A" and notin: "fst x \<notin> fst ` set ps" using Cons.prems by auto
  then have none: "map_of ps (fst x) = None" by (simp add: map_of_eq_None_iff)
  have "bytes_held ps = (\<Sum>i \<in> A. case map_of ps i of None \<Rightarrow> 0 | Some p \<Rightarrow> length (op_bytes p))"
    using Cons by simp
  also have "\<dots> = (\<Sum>i \<in> A - {fst x}. case map_of ps i of None \<Rightarrow> 0 | Some p \<Rightarrow> length (op_bytes p))"
    using none by (simp add: sum.remove [OF Cons.prems(2) x])
  also have "\<dots> = (\<Sum>i \<in> A - {fst x}. case map_of (x # ps) i of None \<Rightarrow> 0 | Some p \<Rightarrow> length (op_bytes p))"
    by (rule sum.cong) (auto simp: split_beta)
  finally show ?case
    using sum.remove [OF Cons.prems(2) x, of "\<lambda>i. case map_of (x # ps) i of None \<Rightarrow> 0 | Some p \<Rightarrow> length (op_bytes p)"]
    by (simp add: split_beta)
qed

lemma sum_pq_find:
  assumes "pq_wf items" and "f None = 0"
  shows "(\<Sum>i \<in> it_id ` set items. f (Option.bind (pq_find i items) g)) = sum_list (map (\<lambda>it. f (g it)) items)"
proof -
  have d: "distinct (map it_id items)" using assms by (simp add: pq_wf_def)
  then have inj: "inj_on it_id (set items)" by (simp add: distinct_map)
  have "(\<Sum>i \<in> it_id ` set items. f (Option.bind (pq_find i items) g)) =
      (\<Sum>it \<in> set items. f (Option.bind (pq_find (it_id it) items) g))"
    by (simp add: sum.reindex [OF inj])
  also have "\<dots> = (\<Sum>it \<in> set items. f (g it))"
    by (rule sum.cong) (simp_all add: pq_find_self [OF assms(1)])
  also have "\<dots> = sum_list (map (\<lambda>it. f (g it)) items)"
    using d by (simp add: sum_list_distinct_conv_sum_set distinct_map)
  finally show ?thesis .
qed

lemma in_step_held:
  assumes "in_step items a"
  shows "as_held a = sum_list (map sent_part items)"
    and "length (as_open a) = length (filter (\<lambda>it. it_started it \<and> \<not> it_awaiting it) items)"
proof -
  have wf: "pq_wf items" and inv: "assembler_inv a"
    and sim: "map_of (as_open a) i = Option.bind (pq_find i items) held_part" for i
    using assms by (auto simp: in_step_def)
  note I = assembler_invD [OF inv]
  have keys: "fst ` set (as_open a) \<subseteq> it_id ` set items"
  proof
    fix i
    assume "i \<in> fst ` set (as_open a)"
    then have "map_of (as_open a) i \<noteq> None" by (simp add: map_of_eq_None_iff)
    then obtain it where "pq_find i items = Some it" using sim [of i] by (cases "pq_find i items") auto
    then show "i \<in> it_id ` set items" using pq_find_mem [OF wf] by auto
  qed
  have "as_held a = (\<Sum>i \<in> it_id ` set items. case map_of (as_open a) i of None \<Rightarrow> 0 | Some p \<Rightarrow> length (op_bytes p))"
    using bytes_held_map_of [OF I(1) _ keys] I(4) by simp
  also have "\<dots> = sum_list (map (\<lambda>it. case held_part it of None \<Rightarrow> 0 | Some p \<Rightarrow> length (op_bytes p)) items)"
    unfolding sim
    by (rule sum_pq_find [OF wf, where f = "\<lambda>x. case x of None \<Rightarrow> 0 | Some p \<Rightarrow> length (op_bytes p)"]) simp
  also have "\<dots> = sum_list (map sent_part items)"
  proof (rule arg_cong [where f = sum_list], rule map_cong [OF refl])
    fix it
    assume "it \<in> set items"
    then have "it_sent it \<le> length (it_bytes it)" using wf by (simp add: pq_wf_def item_wf_def)
    then show "(case held_part it of None \<Rightarrow> 0 | Some p \<Rightarrow> length (op_bytes p)) = sent_part it"
      by (simp add: held_part_def sent_part_def)
  qed
  finally show "as_held a = sum_list (map sent_part items)" .
  have "length (as_open a) = card (fst ` set (as_open a))"
    using I(1) by (metis distinct_card length_map set_map)
  also have "fst ` set (as_open a) = it_id ` set (filter (\<lambda>it. it_started it \<and> \<not> it_awaiting it) items)"
  proof -
    have "i \<in> fst ` set (as_open a) \<longleftrightarrow> (\<exists>it \<in> set items. it_id it = i \<and> it_started it \<and> \<not> it_awaiting it)" for i
    proof -
      have "i \<in> fst ` set (as_open a) \<longleftrightarrow> map_of (as_open a) i \<noteq> None" by (simp add: map_of_eq_None_iff)
      also have "\<dots> \<longleftrightarrow> (\<exists>it. pq_find i items = Some it \<and> it_started it \<and> \<not> it_awaiting it)"
        by (cases "pq_find i items") (auto simp: sim held_part_def)
      finally show ?thesis using pq_find_mem [OF wf] by auto
    qed
    then show ?thesis by (intro set_eqI) (simp only: image_iff set_filter mem_Collect_eq, blast)
  qed
  also have "card \<dots> = length (filter (\<lambda>it. it_started it \<and> \<not> it_awaiting it) items)"
  proof -
    have "distinct (map it_id (filter (\<lambda>it. it_started it \<and> \<not> it_awaiting it) items))"
      using wf by (simp add: pq_wf_def distinct_map_filter)
    from distinct_card [OF this] show ?thesis by simp
  qed
  finally show "length (as_open a) = length (filter (\<lambda>it. it_started it \<and> \<not> it_awaiting it) items)" .
qed

subsection \<open>One message delivered\<close>

lemma take_bytes_at:
  assumes "length data \<le> unat (op_total p) - length (op_bytes p)"
    and "as_held a + length data \<le> as_limit a"
  shows "take_bytes lzd i p a (reader_at pre data) =
    (let p' = p\<lparr>op_bytes := op_bytes p @ data\<rparr>;
         a' = a\<lparr>as_held := as_held a + length data, as_open := AList.update i p' (as_open a)\<rparr>;
         a'' = a'\<lparr>as_held := as_held a' - length (op_bytes p'), as_open := AList.delete i (as_open a')\<rparr>
     in if length (op_bytes p') < unat (op_total p') then (Nothing, a', reader_at (pre @ data) [])
        else (finish lzd i p' a'', a'', reader_at (pre @ data) []))"
  using assms by (simp add: take_bytes_def wire Let_def)

lemma finish_limit: "as_limit a = as_limit b \<Longrightarrow> finish lzd i p a = finish lzd i p b"
  by (simp add: finish_def)

lemma sum_list_room:
  assumes "k < length xs" and "\<forall>x \<in> set xs. f x \<le> (g x :: nat)" and "f (xs ! k) + d \<le> g (xs ! k)"
  shows "sum_list (map f xs) + d \<le> sum_list (map g xs)"
  using assms
proof (induction xs arbitrary: k)
  case Nil
  then show ?case by simp
next
  case (Cons x xs)
  show ?case
  proof (cases k)
    case 0
    have "sum_list (map f xs) \<le> sum_list (map g xs)"
      using Cons.prems(2) by (intro sum_list_mono) auto
    with 0 Cons.prems show ?thesis by simp
  next
    case (Suc n)
    then show ?thesis using Cons.IH [of n] Cons.prems by simp
  qed
qed

lemma filter_room:
  assumes "k < length xs" and "\<not> P (xs ! k)"
  shows "length (filter P xs) < length xs"
  using assms by (meson length_filter_less nth_mem)

lemma entry_held:
  assumes "assembler_inv a" and "map_of (as_open a) i = Some p"
  shows "length (op_bytes p) \<le> as_held a"
  using bytes_held_delete [OF assembler_invD(1) [OF assms(1)] assms(2)] assembler_invD(4) [OF assms(1)]
  by simp

lemma in_step_update:
  assumes sim: "in_step items a" and k: "k < length items"
    and "it_id it' = it_id (items ! k)" and "item_wf it'" and "assembler_inv a'"
    and "map_of (as_open a') = (map_of (as_open a))(it_id (items ! k) := held_part it')"
  shows "in_step (items[k := it']) a'"
  using assms
  by (auto simp: in_step_def pq_wf_update pq_find_update)

lemma part_step:
  "item_wf it \<Longrightarrow> take (it_sent it) (it_bytes it) @ take (fragment_data it) (drop (it_sent it) (it_bytes it)) =
     take (it_sent (after_fragment it)) (it_bytes it)"
  by (simp add: take_add)

lemma in_stepD:
  assumes "in_step items a"
  shows "pq_wf items" and "assembler_inv a"
    and "map_of (as_open a) i = Option.bind (pq_find i items) held_part"
  using assms by (auto simp: in_step_def)

text \<open>The limits leave room for the next fragment of any item.\<close>

lemma fragment_room:
  assumes "in_step items a" and "within_limits items a" and "k < length items"
    and "\<not> it_awaiting (items ! k)"
  shows "as_held a + fragment_data (items ! k) \<le> as_limit a"
    and "length (it_bytes (items ! k)) \<le> as_limit a"
    and "\<not> it_started (items ! k) \<Longrightarrow> length (as_open a) < kMaxOpen"
proof -
  note D = in_stepD [OF assms(1)]
  have wf: "item_wf it" if "it \<in> set items" for it using that D(1) by (simp add: pq_wf_def)
  have le: "\<forall>it \<in> set items. sent_part it \<le> length (it_bytes it)"
    using wf by (auto simp: sent_part_def item_wf_def)
  have "sent_part (items ! k) + fragment_data (items ! k) \<le> length (it_bytes (items ! k))"
    using wf [OF nth_mem [OF assms(3)]] by (auto simp: sent_part_def item_wf_def fragment_data_def)
  from sum_list_room [OF assms(3) le this]
  show "as_held a + fragment_data (items ! k) \<le> as_limit a"
    using in_step_held(1) [OF assms(1)] assms(2) by (simp add: within_limits_def)
  show "length (it_bytes (items ! k)) \<le> as_limit a"
    using member_le_sum_list [of "length (it_bytes (items ! k))" "map (\<lambda>it. length (it_bytes it)) items"]
      assms(2) nth_mem [OF assms(3)] by (simp add: within_limits_def)
  show "length (as_open a) < kMaxOpen" if "\<not> it_started (items ! k)"
    using filter_room [OF assms(3), of "\<lambda>it. it_started it \<and> \<not> it_awaiting it"] that
      in_step_held(2) [OF assms(1)] assms(2) by (simp add: within_limits_def)
qed

text \<open>The entry an item has in the assembler while its fragments arrive, and what the next one does.\<close>

lemma take_fragment:
  assumes sim: "in_step items a" and lim: "within_limits items a" and k: "k < length items"
    and wait: "\<not> it_awaiting (items ! k)"
    and p: "p = \<lparr>op_message = it_message (items ! k), op_compressed = it_compressed (items ! k),
      op_total = of_nat (length (it_bytes (items ! k))),
      op_bytes = take (it_sent (items ! k)) (it_bytes (items ! k))\<rparr>"
    and b: "assembler_inv b" "as_limit b = as_limit a" "as_held b = as_held a"
      "map_of (as_open b) = (map_of (as_open a))(it_id (items ! k) \<mapsto> p)"
  shows "\<exists>a' r. take_bytes lzd (it_id (items ! k)) p b
      (reader_at pre (take (fragment_data (items ! k)) (drop (it_sent (items ! k)) (it_bytes (items ! k))))) =
      ((if it_awaiting (after_fragment (items ! k))
        then finish lzd (it_id (items ! k)) (whole (items ! k)) a else Nothing), a', r) \<and>
    in_step (items[k := after_fragment (items ! k)]) a' \<and> as_limit a' = as_limit a"
proof -
  define it where "it = items ! k"
  define data where "data = take (fragment_data it) (drop (it_sent it) (it_bytes it))"
  have wf: "item_wf it" using in_stepD(1) [OF sim] k by (simp add: pq_wf_def it_def)
  have total: "unat (op_total p) = length (it_bytes it)"
    using wf by (simp add: p it_def [symmetric] item_wf_def unat_of_nat)
  have len_data: "length data = fragment_data it"
    by (simp add: data_def fragment_data_def)
  have len_p: "length (op_bytes p) = it_sent it"
    using wf by (simp add: p it_def [symmetric] item_wf_def)
  note room = fragment_room(1,2) [OF sim lim k wait, folded it_def]
  define q where "q = p\<lparr>op_bytes := op_bytes p @ data\<rparr>"
  have bytes_q: "op_bytes q = take (it_sent (after_fragment it)) (it_bytes it)"
    by (simp add: q_def p data_def it_def [symmetric] take_add)
  have len_q: "length (op_bytes q) = it_sent it + fragment_data it"
    using len_p len_data by (simp add: q_def)
  define b1 where "b1 = b\<lparr>as_held := as_held b + length data, as_open := AList.update (it_id it) q (as_open b)\<rparr>"
  define b2 where "b2 = b1\<lparr>as_held := as_held b1 - length (op_bytes q),
    as_open := AList.delete (it_id it) (as_open b1)\<rparr>"
  have run: "take_bytes lzd (it_id it) p b (reader_at pre data) =
      (if length (op_bytes q) < length (it_bytes it) then (Nothing, b1, reader_at (pre @ data) [])
       else (finish lzd (it_id it) q b2, b2, reader_at (pre @ data) []))"
    using take_bytes_at [of data p b lzd "it_id it" pre] total len_p len_data room b(2,3) wf
    by (simp add: Let_def q_def b1_def b2_def item_wf_def fragment_data_def)
  have pb: "map_of (as_open b) (it_id it) = Some p" using b(4) by (simp add: it_def)
  have whole_le: "it_sent it + fragment_data it \<le> length (it_bytes it)"
    using wf fragment_data_le by (simp add: item_wf_def)
  have inv1: "assembler_inv b1"
    using inv_update [OF b(1) pb, of q] entry_held [OF b(1) pb] len_q len_p len_data room b(2,3) total whole_le
    by (simp add: b1_def q_def)
  have q1: "map_of (as_open b1) (it_id it) = Some q" by (simp add: b1_def update_conv')
  have inv2: "assembler_inv b2" using inv_delete [OF inv1 q1] by (simp add: b2_def)
  note upd = in_step_update [OF sim k, of "after_fragment it", folded it_def]
  show ?thesis
  proof (cases "it_sent it + fragment_data it = length (it_bytes it)")
    case True
    have "q = whole it" using bytes_q True by (simp add: q_def whole_def p it_def)
    moreover have "in_step (items[k := after_fragment it]) b2"
      by (rule upd) (use inv2 wf True b(4) in
        \<open>auto simp: item_wf_after b2_def b1_def update_conv' delete_conv' held_part_def it_def [symmetric]\<close>)
    moreover have "finish lzd (it_id it) q b2 = finish lzd (it_id it) q a" "as_limit b2 = as_limit a"
      using b(2) by (simp_all add: finish_def b2_def b1_def)
    ultimately show ?thesis
      using run len_q True by (simp add: it_def [symmetric] data_def)
  next
    case False
    then have less: "it_sent it + fragment_data it < length (it_bytes it)"
      using fragment_data_le [of it] wf by (simp add: item_wf_def)
    have "held_part (after_fragment it) = Some q"
      using False bytes_q by (simp add: held_part_def q_def p it_def [symmetric])
    then have "in_step (items[k := after_fragment it]) b1"
      by (intro upd) (use inv1 wf b(4) in
        \<open>auto simp: item_wf_after b1_def update_conv' it_def [symmetric]\<close>)
    moreover have "as_limit b1 = as_limit a" using b(2) by (simp add: b1_def)
    ultimately show ?thesis
      using run len_q less by (simp add: it_def [symmetric] data_def)
  qed
qed

text \<open>
  A fragment the queue sends is accepted: the assembler's part grows with the queue's, and the last
  fragment finishes the payload with all of its bytes.
\<close>

lemma deliver_fragment:
  assumes sim: "in_step items a" and lim: "within_limits items a" and k: "k < length items"
    and wait: "\<not> it_awaiting (items ! k)"
  shows "\<exists>a'. deliver lzd a (fragment_message (items ! k)) =
      ((if it_awaiting (after_fragment (items ! k))
        then finish lzd (it_id (items ! k)) (whole (items ! k)) a else Nothing), a') \<and>
    in_step (items[k := after_fragment (items ! k)]) a' \<and> as_limit a' = as_limit a"
proof -
  define it where "it = items ! k"
  define data where "data = take (fragment_data it) (drop (it_sent it) (it_bytes it))"
  note D = in_stepD [OF sim]
  have wf: "item_wf it" using D(1) k by (simp add: pq_wf_def it_def)
  have found: "pq_find (it_id it) items = Some it"
    using D(1) k by (simp add: pq_find_self it_def)
  define p where "p = \<lparr>op_message = it_message it, op_compressed = it_compressed it,
    op_total = of_nat (length (it_bytes it)) :: u32, op_bytes = take (it_sent it) (it_bytes it)\<rparr>"
  note go = take_fragment [OF sim lim k wait, folded it_def, folded data_def, OF p_def]
  note room = fragment_room [OF sim lim k wait, folded it_def]
  have n: "unat (of_nat (it_sent it) :: u32) = it_sent it"
    "unat (of_nat (length (it_bytes it)) :: u32) = length (it_bytes it)"
    using wf by (auto simp: item_wf_def unat_of_nat)
  show ?thesis
  proof (cases "it_started it")
    case True
    have e: "map_of (as_open a) (it_id it) = Some p"
      using D(3) [of "it_id it"] True wait [folded it_def] by (simp add: found held_part_def p_def)
    have "deliver lzd a (fragment_message it) =
        (case take_bytes lzd (it_id it) p a (reader_at
           (enc_u16 kPayloadFragmentMessageId @ enc_u32 (it_id it) @ enc_u32 (of_nat (it_sent it))) data) of
         (res, a', _) \<Rightarrow> (res, a'))"
      using True e n(1) wf
      by (simp add: deliver_def payload_message_def fragment_payload_def fragment_message_bytes
          new_reader_at wire message_ids data_def p_def item_wf_def)
    then show ?thesis
      using go [of a lzd "enc_u16 kPayloadFragmentMessageId @ enc_u32 (it_id it) @ enc_u32 (of_nat (it_sent it))"]
        D(2) e by (auto simp: it_def [symmetric] fun_upd_idem)
  next
    case False
    then have s0: "it_sent it = 0" using wf by (simp add: item_wf_def)
    have e: "map_of (as_open a) (it_id it) = None"
      using D(3) [of "it_id it"] False by (simp add: found held_part_def)
    define b where "b = a\<lparr>as_open := AList.update (it_id it) p (as_open a)\<rparr>"
    have p0: "p = \<lparr>op_message = it_message it, op_compressed = it_compressed it,
        op_total = of_nat (length (it_bytes it)) :: u32, op_bytes = []\<rparr>"
      using s0 by (simp add: p_def)
    have inv: "assembler_inv b"
      unfolding b_def by (rule inv_open [OF D(2) e]) (use wf room(3) False in \<open>auto simp: item_wf_def p0\<close>)
    let ?pre = "enc_u16 kPayloadBeginMessageId @ enc_u32 (it_id it) @ enc_u16 (it_message it) @
        enc_u8 (if it_compressed it then kPayloadFlagCompressed else 0) @
        enc_u32 (of_nat (length (it_bytes it)))"
    have "deliver lzd a (fragment_message it) =
        (case take_bytes lzd (it_id it) p b (reader_at ?pre data) of (res, a', _) \<Rightarrow> (res, a'))"
      using False e n(2) wf room(2,3)
      by (simp add: deliver_def payload_message_def begin_payload_def fragment_message_bytes
          new_reader_at wire data_def p0 item_wf_def kPayloadFlagCompressed_def Let_def b_def s0)
    then show ?thesis
      using go [of b lzd ?pre] inv by (auto simp: it_def [symmetric] b_def update_conv')
  qed
qed

lemma deliver_cancel:
  assumes sim: "in_step items a" and found: "pq_find i items = Some it"
    and part: "it_started it" "\<not> it_awaiting it"
  shows "\<exists>a'. deliver lzd a (cancel_message i) = (Nothing, a') \<and>
    in_step (filter (\<lambda>held. it_id held \<noteq> i) items) a' \<and> as_limit a' = as_limit a"
proof -
  note D = in_stepD [OF sim]
  obtain p where p: "map_of (as_open a) i = Some p"
    using D(3) [of i] found part by (simp add: held_part_def)
  define a' where "a' = a\<lparr>as_held := as_held a - length (op_bytes p), as_open := AList.delete i (as_open a)\<rparr>"
  have "deliver lzd a (cancel_message i) = (Nothing, a')"
    by (simp add: deliver_def payload_message_def cancel_payload_message_def cancel_message_bytes
        new_reader_at wire message_ids p a'_def)
  moreover have "in_step (filter (\<lambda>held. it_id held \<noteq> i) items) a'"
    using D inv_delete [OF D(2) p]
    by (simp add: in_step_def a'_def pq_wf_filter pq_find_filter delete_conv')
  ultimately show ?thesis by (simp add: a'_def)
qed

lemma in_step_forget:
  assumes "in_step items a" and "\<And>it. pq_find i items = Some it \<Longrightarrow> held_part it = None"
  shows "in_step (filter (\<lambda>held. it_id held \<noteq> i) items) a"
  using assms by (cases "pq_find i items") (auto simp: in_step_def pq_wf_filter pq_find_filter)

lemma in_step_push:
  assumes "in_step items a" and "pq_find i items = None" and "i \<noteq> kNoPayload"
    and "m \<noteq> kInvalidMessageId" and "\<not> engine_message m" and "length bs < 2 ^ 32"
  shows "in_step (pq_push i m bs opts now items) a"
  using assms by (auto simp: in_step_def pq_wf_push pq_find_push held_part_def)

lemma in_step_set_priority:
  assumes "in_step items a"
  shows "in_step (snd (pq_set_priority i p items)) a"
proof -
  have "Option.bind (pq_find j (snd (pq_set_priority i p items))) held_part =
      Option.bind (pq_find j items) held_part" for j
    by (cases "pq_find j items")
      (auto simp: pq_set_priority_def pq_find_update_first held_part_def split: option.split)
  with assms show ?thesis by (simp add: in_step_def pq_wf_set_priority)
qed

lemma within_limits_filter: "within_limits items a \<Longrightarrow> within_limits (filter P items) a"
proof -
  have "sum_list (map (\<lambda>it. length (it_bytes it)) (filter P items)) \<le> sum_list (map (\<lambda>it. length (it_bytes it)) items)"
    by (induction items) auto
  then show "within_limits items a \<Longrightarrow> within_limits (filter P items) a"
    by (auto simp: within_limits_def intro: order_trans [OF length_filter_le])
qed

lemma within_limits_cong:
  fixes a a' :: assembler
  shows "map it_bytes items' = map it_bytes items \<Longrightarrow> as_limit a' = as_limit a \<Longrightarrow>
     within_limits items' a' = within_limits items a"
proof -
  assume "map it_bytes items' = map it_bytes items" and "as_limit a' = as_limit a"
  moreover from this have "map (\<lambda>it. length (it_bytes it)) items' = map (\<lambda>it. length (it_bytes it)) items"
    by (metis (no_types, lifting) list.map_comp comp_def map_eq_conv)
  moreover have "length items' = length items" using calculation(1) by (metis length_map)
  ultimately show ?thesis by (simp add: within_limits_def)
qed

lemma update_first_bytes:
  "map it_bytes (update_first i (\<lambda>it. it\<lparr>it_priority := p\<rparr>) items) = map it_bytes items"
  by (induction items) simp_all

subsection \<open>The whole stream\<close>

text \<open>
  What the server does to one peer's queue: \<open>send_payload\<close> pushes, the send system pumps (one turn
  of its loop is one step here), the game cancels or changes a priority, an acknowledgement comes
  in. \<open>limit\<close> is the client's memory limit: the queue stays within it. A cancel that the transport
  refused is not a step: the client would keep its part, and a transport that refuses a reliable
  message has lost the connection. \<open>dones\<close> collects the payloads in the order they were sent whole.
\<close>

inductive stream_reach ::
  "'d float_arith \<Rightarrow> 't transport_ops \<Rightarrow> peer_id \<Rightarrow> nat \<Rightarrow> 't \<Rightarrow> payload_queue \<Rightarrow> 't \<Rightarrow> payload_item list \<Rightarrow> bool"
  for F T peer limit ts0 where
  start: "stream_reach F T peer limit ts0 [] ts0 []"
| push: "stream_reach F T peer limit ts0 items ts dones \<Longrightarrow>
    pq_find i items = None \<Longrightarrow> i \<noteq> kNoPayload \<Longrightarrow> m \<noteq> kInvalidMessageId \<Longrightarrow> \<not> engine_message m \<Longrightarrow>
    length bs < 2 ^ 32 \<Longrightarrow> sum_list (map (\<lambda>it. length (it_bytes it)) items) + length bs \<le> limit \<Longrightarrow>
    length items < kMaxOpen \<Longrightarrow>
    stream_reach F T peer limit ts0 (pq_push i m bs opts now items) ts dones"
| turn: "stream_reach F T peer limit ts0 items ts dones \<Longrightarrow>
    pump_step F T peer now lims (items, ts, credit) = (Some (n, items', ts', credit'), ts'') \<Longrightarrow>
    stream_reach F T peer limit ts0 items' ts'
      (dones @ filter (\<lambda>it. it_awaiting it \<and> it \<notin> set items) items')"
| stopped: "stream_reach F T peer limit ts0 items ts dones \<Longrightarrow>
    pump_step F T peer now lims (items, ts, credit) = (None, ts') \<Longrightarrow>
    stream_reach F T peer limit ts0 items ts' dones"
| cancel: "stream_reach F T peer limit ts0 items ts dones \<Longrightarrow>
    pq_cancel T peer i items ts = (b, items', ts') \<Longrightarrow>
    fst (t_send T peer (cancel_message i) ReliableOrdered ts) \<Longrightarrow>
    stream_reach F T peer limit ts0 items' ts' dones"
| acknowledge: "stream_reach F T peer limit ts0 items ts dones \<Longrightarrow>
    stream_reach F T peer limit ts0 (snd (pq_acknowledge i items)) ts dones"
| priority: "stream_reach F T peer limit ts0 items ts dones \<Longrightarrow>
    stream_reach F T peer limit ts0 (snd (pq_set_priority i p items)) ts dones"

text \<open>What a transport promises of its reliable messages, with \<open>sent\<close> those it took for the peer.\<close>

locale reliable_transport =
  fixes T :: "'t transport_ops" and peer :: peer_id and sent :: "'t \<Rightarrow> bytes list"
  assumes sent_accepted: "t_send T peer bs ReliableOrdered ts = (True, ts') \<Longrightarrow> sent ts' = sent ts @ [bs]"
    and sent_refused: "t_send T peer bs ReliableOrdered ts = (False, ts') \<Longrightarrow> sent ts' = sent ts"
begin

text \<open>Feeding the messages taken since the start to a fresh assembler keeps it in step.\<close>

definition follows :: "lz4_decompress \<Rightarrow> nat \<Rightarrow> 't \<Rightarrow> payload_queue \<Rightarrow> 't \<Rightarrow> payload_item list \<Rightarrow> bool" where
  "follows lzd limit ts0 items ts dones \<longleftrightarrow>
     (\<exists>log results a. sent ts = sent ts0 @ log \<and> list_all stream_message log \<and>
        deliver_all lzd (set_limit limit new_assembler) log = (results, a) \<and>
        filter (\<lambda>r. r \<noteq> Nothing) results = map (\<lambda>it. finish lzd (it_id it) (whole it) a) dones \<and>
        in_step items a \<and> within_limits items a \<and> as_limit a = limit)"

lemma follows_quiet:
  assumes "follows lzd limit ts0 items ts dones" and "sent ts' = sent ts"
    and "\<And>a. in_step items a \<Longrightarrow> in_step items' a"
    and "\<And>a. within_limits items a \<Longrightarrow> as_limit a = limit \<Longrightarrow> within_limits items' a"
  shows "follows lzd limit ts0 items' ts' dones"
proof -
  obtain log results a where "sent ts = sent ts0 @ log" "list_all stream_message log"
    "deliver_all lzd (set_limit limit new_assembler) log = (results, a)"
    "filter (\<lambda>r. r \<noteq> Nothing) results = map (\<lambda>it. finish lzd (it_id it) (whole it) a) dones"
    "in_step items a" "within_limits items a" "as_limit a = limit"
    using assms(1) unfolding follows_def by (elim exE conjE)
  then show ?thesis
    unfolding follows_def using assms(2) assms(3) [of a] assms(4) [of a]
    by (intro exI [of _ log] exI [of _ results] exI [of _ a]) simp
qed

lemma follows_message:
  assumes f: "follows lzd limit ts0 items ts dones" and sent: "sent ts' = sent ts @ [bs]"
    and bs: "stream_message bs"
    and step: "\<And>a. in_step items a \<Longrightarrow> within_limits items a \<Longrightarrow>
      \<exists>a'. deliver lzd a bs = (res a, a') \<and> in_step items' a' \<and> as_limit a' = as_limit a"
    and lim: "\<And>a a'. within_limits items a \<Longrightarrow> as_limit a' = as_limit a \<Longrightarrow> within_limits items' a'"
    and res: "\<And>a. filter (\<lambda>r. r \<noteq> Nothing) [res a] = map (\<lambda>it. finish lzd (it_id it) (whole it) a) new"
  shows "follows lzd limit ts0 items' ts' (dones @ new)"
proof -
  obtain log results a where f: "sent ts = sent ts0 @ log"
    "deliver_all lzd (set_limit limit new_assembler) log = (results, a)"
    "filter (\<lambda>r. r \<noteq> Nothing) results = map (\<lambda>it. finish lzd (it_id it) (whole it) a) dones"
    "in_step items a" "within_limits items a" "as_limit a = limit" "list_all stream_message log"
    using f unfolding follows_def by (elim exE conjE)
  obtain a' where a': "deliver lzd a bs = (res a, a')" "in_step items' a'" "as_limit a' = as_limit a"
    using step [OF f(4,5)] by metis
  have fin: "finish lzd (it_id it) (whole it) a' = finish lzd (it_id it) (whole it) a" for it
    using a'(3) by (rule finish_limit)
  have "deliver_all lzd (set_limit limit new_assembler) (log @ [bs]) = (results @ [res a], a')"
    by (simp add: deliver_all_append f(2) a'(1))
  moreover have "filter (\<lambda>r. r \<noteq> Nothing) (results @ [res a]) =
      map (\<lambda>it. finish lzd (it_id it) (whole it) a') (dones @ new)"
    unfolding filter_append f(3) res map_append fin by (rule refl)
  ultimately show ?thesis
    unfolding follows_def using f a' sent bs lim [OF f(5) a'(3)]
    by (intro exI [of _ "log @ [bs]"] exI [of _ "results @ [res a]"] exI [of _ a']) simp
qed

lemma follows_wf: "follows lzd limit ts0 items ts dones \<Longrightarrow> pq_wf items"
  unfolding follows_def in_step_def by blast

lemma follows_start: "follows lzd limit ts0 [] ts0 []"
proof -
  have "in_step [] (set_limit limit new_assembler)"
    using new_assembler_inv [of limit]
    by (simp add: in_step_def pq_wf_def pq_find_def set_limit_def new_assembler_def)
  moreover have "within_limits [] (set_limit limit new_assembler)"
    by (simp add: within_limits_def)
  ultimately show ?thesis
    unfolding follows_def
    by (intro exI [of _ "[]"] exI [of _ "set_limit limit new_assembler"]) (simp add: set_limit_def)
qed

lemma follows_push:
  assumes "follows lzd limit ts0 items ts dones"
    and "pq_find i items = None" and "i \<noteq> kNoPayload" and "m \<noteq> kInvalidMessageId"
    and "\<not> engine_message m" and "length bs < 2 ^ 32"
    and "sum_list (map (\<lambda>it. length (it_bytes it)) items) + length bs \<le> limit"
    and "length items < kMaxOpen"
  shows "follows lzd limit ts0 (pq_push i m bs opts now items) ts dones"
proof (rule follows_quiet [OF assms(1) refl])
  fix a
  show "in_step items a \<Longrightarrow> in_step (pq_push i m bs opts now items) a"
    by (rule in_step_push [OF _ assms(2-6)])
  show "within_limits items a \<Longrightarrow> as_limit a = limit \<Longrightarrow> within_limits (pq_push i m bs opts now items) a"
    using assms(7,8) by (simp add: within_limits_def pq_push_def)
qed

lemma newly_awaiting:
  assumes "pq_wf items" and "k < length items" and "\<not> it_awaiting (items ! k)"
    and "it_id it' = it_id (items ! k)"
  shows "filter (\<lambda>it. it_awaiting it \<and> it \<notin> set items) (items[k := it']) = (if it_awaiting it' then [it'] else [])"
proof -
  have new: "it' \<notin> set items" if "it_awaiting it'"
  proof
    assume "it' \<in> set items"
    from pq_find_self [OF assms(1) this] have "Some it' = pq_find (it_id (items ! k)) items"
      by (simp only: assms(4))
    also have "\<dots> = Some (items ! k)" by (rule pq_find_nth [OF assms(1,2)])
    finally have "it' = items ! k" by (rule option.inject [THEN iffD1])
    with that assms(3) show False by simp
  qed
  have l: "items[k := it'] = take k items @ it' # drop (Suc k) items"
    using assms(2) by (rule upd_conv_take_nth_drop)
  have t: "filter (\<lambda>it. it_awaiting it \<and> it \<notin> set items) (take k items) = []"
    by (auto simp: filter_empty_conv dest: in_set_takeD)
  have d: "filter (\<lambda>it. it_awaiting it \<and> it \<notin> set items) (drop (Suc k) items) = []"
    by (auto simp: filter_empty_conv dest: in_set_dropD)
  show ?thesis unfolding l using new by (auto simp: t d)
qed

lemma whole_after [simp]: "whole (after_fragment it) = whole it"
  by (simp add: whole_def)

lemma finish_not_Nothing: "finish lzd i p a \<noteq> Nothing"
  by (auto simp: finish_def Let_def split: sum.split)

lemma follows_turn:
  assumes f: "follows lzd limit ts0 items ts dones"
    and step: "pump_step F T peer now lims (items, ts, credit) = (Some (n, items', ts', credit'), ts'')"
  shows "follows lzd limit ts0 items' ts'
    (dones @ filter (\<lambda>it. it_awaiting it \<and> it \<notin> set items) items')"
proof -
  obtain k it where k: "k < length items" "it = items ! k" "\<not> it_awaiting it"
    "items' = items[k := after_fragment it]"
    and send: "t_send T peer (fragment_message it) ReliableOrdered ts = (True, ts')"
    by (rule pump_step_Some [OF step])
  have new: "filter (\<lambda>it. it_awaiting it \<and> it \<notin> set items) items' =
      (if it_awaiting (after_fragment it) then [after_fragment it] else [])"
    using newly_awaiting [OF follows_wf [OF f] k(1)] k by simp
  have bytes: "map it_bytes items' = map it_bytes items"
    using k by (metis after_fragment_sel(3) list_update_id map_update)
  show ?thesis
  proof (rule follows_message [OF f sent_accepted [OF send] queue_messages(1),
        where res = "\<lambda>a. if it_awaiting (after_fragment it) then finish lzd (it_id it) (whole it) a else Nothing"])
    fix a
    assume "in_step items a" "within_limits items a"
    note d = deliver_fragment [OF this k(1) k(3) [unfolded k(2)], of lzd]
    show "\<exists>a'. deliver lzd a (fragment_message it) =
      (if it_awaiting (after_fragment it) then finish lzd (it_id it) (whole it) a else Nothing, a') \<and>
      in_step items' a' \<and> as_limit a' = as_limit a"
      unfolding k(4) k(2) by (rule d)
  next
    fix a a' :: assembler
    assume "within_limits items a" "as_limit a' = as_limit a"
    then show "within_limits items' a'" using within_limits_cong [OF bytes] by metis
  next
    fix a
    show "filter (\<lambda>r. r \<noteq> Nothing)
        [if it_awaiting (after_fragment it) then finish lzd (it_id it) (whole it) a else Nothing] =
      map (\<lambda>it. finish lzd (it_id it) (whole it) a)
        (filter (\<lambda>it. it_awaiting it \<and> it \<notin> set items) items')"
      unfolding new by (simp add: finish_not_Nothing del: after_fragment_sel(7))
  qed
qed

lemma follows_cancel:
  assumes f: "follows lzd limit ts0 items ts dones"
    and step: "pq_cancel T peer i items ts = (b, items', ts')"
    and ok: "fst (t_send T peer (cancel_message i) ReliableOrdered ts)"
  shows "follows lzd limit ts0 items' ts' dones"
proof (cases "pq_find i items")
  case None
  then show ?thesis using f step by (simp add: pq_cancel_def)
next
  case (Some it)
  have items': "items' = filter (\<lambda>held. it_id held \<noteq> i) items"
    using step Some by (simp add: pq_cancel_def Let_def)
  show ?thesis
  proof (cases "it_started it \<and> \<not> it_awaiting it")
    case True
    then have "t_send T peer (cancel_message i) ReliableOrdered ts = (True, ts')"
      using step Some ok by (auto simp: pq_cancel_def Let_def prod_eq_iff)
    note msg = follows_message [OF f sent_accepted [OF this] queue_messages(2), where res = "\<lambda>_. Nothing" and items' = items' and new = "[]"]
    have "follows lzd limit ts0 items' ts' (dones @ [])"
    proof (rule msg)
      fix a a' :: assembler
      show "in_step items a \<Longrightarrow>
        \<exists>a'. deliver lzd a (cancel_message i) = (Nothing, a') \<and> in_step items' a' \<and> as_limit a' = as_limit a"
        unfolding items' using True by (intro deliver_cancel [OF _ Some]) simp_all
      show "within_limits items' a'" if "within_limits items a" "as_limit a' = as_limit a"
        using within_limits_filter [of items a] that by (simp add: within_limits_def items')
    qed simp
    then show ?thesis by simp
  next
    case False
    then have "ts' = ts" using step Some by (auto simp: pq_cancel_def Let_def)
    show ?thesis unfolding \<open>ts' = ts\<close> items'
    proof (rule follows_quiet [OF f refl])
      fix a
      show "in_step items a \<Longrightarrow> in_step (filter (\<lambda>held. it_id held \<noteq> i) items) a"
        by (erule in_step_forget) (use Some False in \<open>auto simp: held_part_def\<close>)
    qed (rule within_limits_filter)
  qed
qed

theorem stream_follows:
  "stream_reach F T peer limit ts0 items ts dones \<Longrightarrow> follows lzd limit ts0 items ts dones"
proof (induction rule: stream_reach.induct)
  case start
  show ?case by (rule follows_start)
next
  case push
  then show ?case by (intro follows_push)
next
  case (turn items ts dones now lims credit n items' ts' credit' ts'')
  show ?case by (rule follows_turn [OF turn.IH turn.hyps(2)])
next
  case (stopped items ts dones now lims credit ts')
  have "sent ts' = sent ts"
    using pump_step_None [OF stopped.hyps(2)] sent_refused by auto
  then show ?case by (rule follows_quiet [OF stopped.IH])
next
  case (cancel items ts dones i b items' ts')
  show ?case by (rule follows_cancel [OF cancel.IH cancel.hyps(2,3)])
next
  case (acknowledge items ts dones i)
  show ?case
  proof (rule follows_quiet [OF acknowledge.IH refl])
    fix a
    show "in_step items a \<Longrightarrow> in_step (snd (pq_acknowledge i items)) a"
      by (auto simp: pq_acknowledge_def held_part_def intro!: in_step_forget split: option.split)
    show "within_limits items a \<Longrightarrow> within_limits (snd (pq_acknowledge i items)) a"
      by (auto simp: pq_acknowledge_def intro: within_limits_filter split: option.split)
  qed
next
  case (priority items ts dones i p)
  have "map it_bytes (snd (pq_set_priority i p items)) = map it_bytes items"
    by (simp add: pq_set_priority_def update_first_bytes split: option.split)
  from within_limits_cong [OF this]
  show ?case
    by (intro follows_quiet [OF priority.IH refl] in_step_set_priority) auto
qed

end

subsection \<open>Over the loopback transport\<close>

definition loop_ops :: "nat \<Rightarrow> loop_net transport_ops" where
  "loop_ops t = \<lparr>t_send = send t, t_pending = pending_send_bytes t\<rparr>"

text \<open>The messages of \<open>t\<close> that wait in the event queue of the endpoint its peer stands for.\<close>

definition loop_sent :: "nat \<Rightarrow> peer_id \<Rightarrow> loop_net \<Rightarrow> bytes list" where
  "loop_sent t peer net =
     (case lt_conns (transports net t) peer of
        None \<Rightarrow> []
      | Some c \<Rightarrow>
          (case endpoint c of
             None \<Rightarrow> []
           | Some e \<Rightarrow>
               map ev_payload (filter (\<lambda>ev. ev_type ev = DataReceived \<and> ev_peer ev = remote_peer_id c)
                 (lt_queue (transports net e)))))"

interpretation loop_stream: reliable_transport "loop_ops t" peer "loop_sent t peer" for t peer
  by unfold_locales
    (auto simp: loop_ops_def loop_sent_def send_def receive_incoming_data_def enqueue_event_def upd_def
      split: if_splits option.splits)

lemma finish_whole:
  "finish lzd (it_id it) (whole it) a =
     (if it_compressed it
      then (case decompress lzd (it_bytes it) (as_limit a) of
              Inl e \<Rightarrow> Failed (DoesNotDecompress e)
            | Inr raw \<Rightarrow> Done (it_id it) (enc_u16 (it_message it) @ raw))
      else Done (it_id it) (enc_u16 (it_message it) @ it_bytes it))"
  by (simp add: finish_def whole_def wire Let_def)

text \<open>Every item that waits for its acknowledgement is one of those sent whole.\<close>

definition awaiting_done :: "payload_queue \<Rightarrow> payload_item list \<Rightarrow> bool" where
  "awaiting_done items dones \<longleftrightarrow>
     (\<forall>it \<in> set items. it_awaiting it \<longrightarrow> (\<exists>d \<in> set dones. it_id d = it_id it \<and> whole d = whole it))"

lemma awaiting_done_filter: "awaiting_done items dones \<Longrightarrow> awaiting_done (filter P items) dones"
  by (simp add: awaiting_done_def)

lemma stream_awaiting:
  "stream_reach F T peer limit ts0 items ts dones \<Longrightarrow> awaiting_done items dones"
proof (induction rule: stream_reach.induct)
  case (turn items ts dones now lims credit n items' ts' credit' ts'')
  then show ?case by (fastforce simp: awaiting_done_def)
next
  case (cancel items ts dones i b items' ts')
  then show ?case
    by (auto simp: pq_cancel_def Let_def intro: awaiting_done_filter split: option.splits)
next
  case (acknowledge items ts dones i)
  then show ?case
    by (auto simp: pq_acknowledge_def intro: awaiting_done_filter split: option.split)
next
  case (priority items ts dones i p)
  then show ?case
    by (fastforce simp: pq_set_priority_def awaiting_done_def whole_def dest: update_first_mem
        split: option.split)
qed (auto simp: awaiting_done_def pq_push_def)

lemma stream_results:
  assumes "stream_reach F (loop_ops t) peer limit net0 items net dones"
  obtains log results a where "loop_sent t peer net = loop_sent t peer net0 @ log" "list_all stream_message log"
    and "deliver_all lzd (set_limit limit new_assembler) log = (results, a)"
    and "filter (\<lambda>r. r \<noteq> Nothing) results = map (\<lambda>it. finish lzd (it_id it) (whole it) a) dones"
    and "as_limit a = limit" "\<And>i. map_of (as_open a) i = Option.bind (pq_find i items) held_part"
proof -
  obtain log results a where "loop_sent t peer net = loop_sent t peer net0 @ log" "list_all stream_message log"
    "deliver_all lzd (set_limit limit new_assembler) log = (results, a)"
    "filter (\<lambda>r. r \<noteq> Nothing) results = map (\<lambda>it. finish lzd (it_id it) (whole it) a) dones"
    "in_step items a" "as_limit a = limit"
    using loop_stream.stream_follows [OF assms, of lzd] unfolding loop_stream.follows_def
    by (elim exE conjE)
  then show ?thesis using in_stepD(3) by (intro that) auto
qed

subsection \<open>A run\<close>

definition demo_net :: loop_net where
  "demo_net = snd (connect 1 5 (snd (start_server 0 5 init_net)))"

lemma demo_run:
  "stream_reach rat_arith (loop_ops 0) 2 100 demo_net
     [after_fragment (pq_push 1 7 [1, 2, 3] \<lparr>po_priority = 0, po_compressed = False\<rparr> 1 [] ! 0)]
     (snd (send 0 2 (fragment_message (pq_push 1 7 [1, 2, 3] \<lparr>po_priority = 0, po_compressed = False\<rparr> 1 [] ! 0))
       ReliableOrdered demo_net))
     [after_fragment (pq_push 1 7 [1, 2, 3] \<lparr>po_priority = 0, po_compressed = False\<rparr> 1 [] ! 0)]"
  (is "stream_reach _ _ _ _ _ [?after] ?net _")
proof -
  let ?items = "pq_push 1 7 [1, 2, 3] \<lparr>po_priority = 0, po_compressed = False\<rparr> 1 []"
  have push: "stream_reach rat_arith (loop_ops 0) 2 100 demo_net ?items demo_net []"
    by (rule stream_reach.push [OF stream_reach.start])
      (simp_all add: pq_find_def kNoPayload_def message_ids engine_message_def kMaxOpen_def)
  have conn: "send 0 2 bs mode demo_net = (True, receive_incoming_data 1 1 bs demo_net)" for bs mode
    by (simp add: send_def demo_net_def connect_def start_server_def init_net_def new_transport_def
        register_server_def find_server_def accept_loopback_client_def upd_def enqueue_event_def
        kServerPeerId_def Let_def)
  have "pump_step rat_arith (loop_ops 0) 2 5 \<lparr>aging_per_tick = 0, backlog_bytes = 10\<rparr>
      (?items, demo_net, 100) = (Some (16, [?after], ?net, 84), ?net)"
    by (simp add: pump_step_def next_to_send_def pick_best_def pq_push_def loop_ops_def
        pending_send_bytes_def rat_arith_def fragment_size_def fragment_data_def
        kPayloadFragmentBytes_def kBeginHeaderBytes_def conn)
  from stream_reach.turn [OF push this] show ?thesis
    by (simp add: after_fragment_def pq_push_def fragment_data_def kPayloadFragmentBytes_def)
qed

subsection \<open>Bounds of a run\<close>

lemma payload_message_inv:
  "assembler_inv a \<Longrightarrow> assembler_inv (fst (snd (payload_message lzd m a r)))"
  by (simp add: payload_message_def begin_inv fragment_inv cancel_inv)

lemma take_bytes_limit: "as_limit (fst (snd (take_bytes lzd i p a r))) = as_limit a"
  by (auto simp: take_bytes_def Let_def split: option.split prod.split)

lemma payload_message_limit: "as_limit (fst (snd (payload_message lzd m a r))) = as_limit a"
  by (auto simp: payload_message_def begin_payload_def fragment_payload_def
      cancel_payload_message_def Let_def take_bytes_limit split: option.split prod.splits)

lemma finish_Done:
  "finish lzd i p a = Done j m \<Longrightarrow> length (op_bytes p) \<le> as_limit a \<Longrightarrow> length m \<le> as_limit a + 2"
  by (auto simp: finish_def wire split: if_splits sum.splits dest: decompress_le)

lemma take_bytes_Done:
  assumes "assembler_inv a" and "map_of (as_open a) i = Some p"
    and "fst (take_bytes lzd i p a r) = Done j m"
  shows "length m \<le> as_limit a + 2"
proof -
  obtain bs r' where b: "read_bytes (remaining r) r = (Some bs, r')"
    and n: "as_held a + remaining r \<le> as_limit a"
    using assms(3) by (auto simp: take_bytes_def Let_def split: if_splits option.splits prod.splits)
  then have "length (op_bytes p @ bs) \<le> as_limit a"
    using entry_held [OF assms(1,2)] read_bytes_Some_length [OF b] by simp
  then show ?thesis
    using assms(3) b n
    by (auto simp: take_bytes_def Let_def split: if_splits dest!: finish_Done)
qed

lemma begin_Done:
  assumes "assembler_inv a" and "fst (begin_payload lzd a r) = Done j m"
  shows "length m \<le> as_limit a + 2"
  using assms
  by (auto simp: begin_payload_def Let_def update_conv' split: prod.splits option.splits if_splits
      intro!: inv_open dest!: take_bytes_Done [rotated 2])

lemma fragment_Done:
  assumes "assembler_inv a" and "fst (fragment_payload lzd a r) = Done j m"
  shows "length m \<le> as_limit a + 2"
  using assms
  by (auto simp: fragment_payload_def Let_def split: prod.splits option.splits if_splits
      dest!: take_bytes_Done [rotated 2])

lemma cancel_not_Done: "fst (cancel_payload_message a r) \<noteq> Done j m"
  by (auto simp: cancel_payload_message_def Let_def split: option.splits prod.splits)

lemma payload_message_Done:
  assumes "assembler_inv a" and "fst (payload_message lzd k a r) = Done j m"
  shows "length m \<le> as_limit a + 2"
proof (cases "k = kPayloadBeginMessageId")
  case True
  then show ?thesis using begin_Done [OF assms(1)] assms(2) by (simp add: payload_message_def)
next
  case False
  then show ?thesis
    using fragment_Done [OF assms(1), of lzd r j m] cancel_not_Done [of a r j m] assms(2)
    by (simp add: payload_message_def split: if_splits)
qed

end
