(* ===== verification/Payload_Client.thy ===== *)
theory Payload_Client
  imports Payload_Stream
begin

section \<open>The client's side of the payload stream\<close>

text \<open>
  \<^verbatim>\<open>src/net/net_client.cpp\<close>: what \<open>run_net_client_receive\<close> does with the events of its transport, as far as it
  concerns payloads: the welcome, the payload messages with the refusal of a malformed stream, the messages of the
  game, and a lost server. A step gives what the client does outwards, in order, and its new state. The fields of
  \<open>NetClient::Impl\<close> that have to do with snapshots, the clock and prediction are not here: a snapshot that passes
  the guard of \<open>receive_snapshot\<close> is the action \<open>SnapshotArrived\<close>, and of what \<open>receive_welcome\<close> keeps the length of
  a tick is left out. \<open>schema\<close> is \<open>welcome_schema_hash\<close> of the client's world. The handlers the dispatcher calls
  are the game's; \<open>Dispatched\<close> is the call.
\<close>

record payload_client =
  pc_welcomed :: bool
  pc_local_peer :: peer_id
  pc_payloads :: assembler
  pc_payloads_refused :: bool

datatype client_action =
    PeerConnected peer_id | PeerDisconnected peer_id disconnect_reason
  | Disconnect peer_id | Dispatched peer_id bytes | Sent peer_id bytes | SnapshotArrived bytes

definition install_net_client :: "nat \<Rightarrow> payload_client" where
  "install_net_client max_payload_bytes =
     \<lparr>pc_welcomed = False, pc_local_peer = kInvalidPeerId,
       pc_payloads = set_limit max_payload_bytes new_assembler, pc_payloads_refused = False\<rparr>"

definition forget_server :: "payload_client \<Rightarrow> payload_client" where
  "forget_server c = c\<lparr>pc_payloads := clear_assembler (pc_payloads c), pc_payloads_refused := False,
     pc_welcomed := False, pc_local_peer := kInvalidPeerId\<rparr>"

definition receive_welcome :: "u32 \<Rightarrow> payload_client \<Rightarrow> byte_reader \<Rightarrow> client_action list \<times> payload_client" where
  "receive_welcome schema c r =
     (let (protocol, r1) = read_u16 r; (hash, r2) = read_u32 r1; (tick_hz, r3) = read_u16 r2;
          (interval, r4) = read_u16 r3; (peer, r5) = read_u64 r4; (server_tick, r6) = read_u32 r5
      in case (protocol, hash, tick_hz, interval, peer, server_tick) of
           (Some protocol, Some hash, Some tick_hz, Some interval, Some peer, Some server_tick) \<Rightarrow>
             (if tick_hz = 0 then ([Disconnect kServerPeerId], c)
              else if protocol \<noteq> kNetProtocolVersion then ([Disconnect kServerPeerId], c)
              else if hash \<noteq> schema then ([Disconnect kServerPeerId], c)
              else ([], c\<lparr>pc_welcomed := True, pc_local_peer := peer\<rparr>))
         | _ \<Rightarrow> ([Disconnect kServerPeerId], c))"

definition payload_ack :: "payload_id \<Rightarrow> bytes" where
  "payload_ack i = buffer (append_bytes (buffer (write_u32 i new_writer)) (write_u16 kPayloadAckMessageId new_writer))"

definition receive_payload_message ::
  "lz4_decompress \<Rightarrow> payload_client \<Rightarrow> message_id \<Rightarrow> byte_reader \<Rightarrow> client_action list \<times> payload_client" where
  "receive_payload_message lzd c m r =
     (if \<not> pc_welcomed c \<or> pc_payloads_refused c then ([], c)
      else (let (result, payloads, _) = payload_message lzd m (pc_payloads c) r; c = c\<lparr>pc_payloads := payloads\<rparr>
        in case result of
             Failed e \<Rightarrow> ([Disconnect kServerPeerId], c\<lparr>pc_payloads_refused := True\<rparr>)
           | Done i message \<Rightarrow> ([Dispatched kServerPeerId message, Sent kServerPeerId (payload_ack i)], c)
           | Nothing \<Rightarrow> ([], c)))"

definition receive_event ::
  "lz4_decompress \<Rightarrow> u32 \<Rightarrow> payload_client \<Rightarrow> transport_event \<Rightarrow> client_action list \<times> payload_client" where
  "receive_event lzd schema c ev =
     (case ev_type ev of
        Connected \<Rightarrow> ([PeerConnected (ev_peer ev)], c)
      | Disconnected \<Rightarrow> ([PeerDisconnected (ev_peer ev) (ev_reason ev)], forget_server c)
      | DataReceived \<Rightarrow>
          (case read_u16 (new_reader (ev_payload ev)) of
             (None, _) \<Rightarrow> ([], c)
           | (Some m, r) \<Rightarrow>
               (if m = kWelcomeMessageId then receive_welcome schema c r
                else if m = kSnapshotMessageId
                then (if \<not> pc_welcomed c then ([], c) else ([SnapshotArrived (ev_payload ev)], c))
                else if m = kPayloadBeginMessageId \<or> m = kPayloadFragmentMessageId \<or> m = kPayloadCancelMessageId
                then receive_payload_message lzd c m r
                else if m < kEngineMessageFirst \<or> m > kEngineMessageLast
                then ([Dispatched (ev_peer ev) (ev_payload ev)], c)
                else ([], c))))"

fun run_net_client_receive ::
  "lz4_decompress \<Rightarrow> u32 \<Rightarrow> payload_client \<Rightarrow> transport_event list \<Rightarrow> client_action list \<times> payload_client" where
  "run_net_client_receive lzd schema c [] = ([], c)"
| "run_net_client_receive lzd schema c (ev # evs) =
     (let (now, c1) = receive_event lzd schema c ev; (later, c2) = run_net_client_receive lzd schema c1 evs
      in (now @ later, c2))"

text \<open>\<open>send_welcome\<close> of \<^verbatim>\<open>src/net/net_server.cpp\<close>, as the message its transport gets.\<close>

definition welcome_message :: "u32 \<Rightarrow> u16 \<Rightarrow> u16 \<Rightarrow> peer_id \<Rightarrow> tick \<Rightarrow> bytes" where
  "welcome_message schema tick_hz interval peer tick =
     buffer (append_bytes
       (buffer (write_u32 tick (write_u64 peer (write_u16 interval (write_u16 tick_hz (write_u32 schema
         (write_u16 kNetProtocolVersion new_writer)))))))
       (write_u16 kWelcomeMessageId new_writer))"

subsection \<open>The client's run follows the assembler's until a fault\<close>

fun result_actions :: "assembler_result list \<Rightarrow> client_action list" where
  "result_actions [] = []"
| "result_actions (Nothing # rs) = result_actions rs"
| "result_actions (Done i m # rs) = Dispatched kServerPeerId m # Sent kServerPeerId (payload_ack i) # result_actions rs"
| "result_actions (Failed e # rs) = [Disconnect kServerPeerId]"

definition fault :: "assembler_result \<Rightarrow> bool" where
  "fault r \<longleftrightarrow> (\<exists>e. r = Failed e)"

lemma fault_simps [simp]: "\<not> fault Nothing" "\<not> fault (Done i m)" "fault (Failed e)"
  by (simp_all add: fault_def)

lemma result_actions_filter: "result_actions (filter (\<lambda>r. r \<noteq> Nothing) rs) = result_actions rs"
  by (induction rs rule: result_actions.induct) simp_all

lemma receive_stream_message:
  assumes "stream_message bs"
  shows "receive_event lzd schema c (data_event q bs) =
    (if \<not> pc_welcomed c \<or> pc_payloads_refused c then ([], c)
     else (let (res, a) = deliver lzd (pc_payloads c) bs
       in (result_actions [res], c\<lparr>pc_payloads := a, pc_payloads_refused := fault res\<rparr>)))"
proof -
  obtain m r where m: "read_u16 (new_reader bs) = (Some m, r)" "stream_id m"
    using assms by (auto simp: stream_message_def split: prod.splits option.splits)
  then have "receive_event lzd schema c (data_event q bs) = receive_payload_message lzd c m r"
    by (auto simp: receive_event_def data_event_def stream_id_def message_ids)
  then show ?thesis
    by (cases "payload_message lzd m (pc_payloads c) r"; cases "fst (payload_message lzd m (pc_payloads c) r)")
      (simp_all add: receive_payload_message_def deliver_def m(1))
qed

lemma run_refused:
  "list_all stream_message msgs \<Longrightarrow> pc_payloads_refused c
    \<Longrightarrow> run_net_client_receive lzd schema c (map (data_event q) msgs) = ([], c)"
  by (induction msgs) (simp_all add: receive_stream_message)

lemma run_stream:
  assumes "list_all stream_message msgs" and "pc_welcomed c" and "\<not> pc_payloads_refused c"
    and "deliver_all lzd (pc_payloads c) msgs = (results, a)"
    and "run_net_client_receive lzd schema c (map (data_event q) msgs) = (actions, c')"
  shows "actions = result_actions results \<and> (pc_payloads_refused c' \<longleftrightarrow> (\<exists>r \<in> set results. fault r))
    \<and> (\<not> pc_payloads_refused c' \<longrightarrow> pc_payloads c' = a)"
  using assms
proof (induction msgs arbitrary: c results actions)
  case (Cons bs msgs)
  obtain res b where d: "deliver lzd (pc_payloads c) bs = (res, b)" by (metis surj_pair)
  obtain rest where rest: "deliver_all lzd b msgs = (rest, a)" "results = res # rest"
    using Cons.prems(4) d by (auto simp: Let_def split: prod.splits)
  let ?c = "c\<lparr>pc_payloads := b, pc_payloads_refused := fault res\<rparr>"
  have now: "receive_event lzd schema c (data_event q bs) = (result_actions [res], ?c)"
    using receive_stream_message [of bs lzd schema c q] Cons.prems(1-3) d by simp
  obtain later where later: "run_net_client_receive lzd schema ?c (map (data_event q) msgs) = (later, c')"
    "actions = result_actions [res] @ later"
    using Cons.prems(5) now by (auto split: prod.splits)
  show ?case
  proof (cases "fault res")
    case True
    then have "later = []" "c' = ?c" using later(1) Cons.prems(1) by (simp_all add: run_refused)
    then show ?thesis using True later(2) rest(2) by (auto simp: fault_def)
  next
    case False
    note IH = Cons.IH [OF _ _ _ _ later(1), of rest]
    have "later = result_actions rest \<and> (pc_payloads_refused c' \<longleftrightarrow> (\<exists>r \<in> set rest. fault r))
      \<and> (\<not> pc_payloads_refused c' \<longrightarrow> pc_payloads c' = a)"
      by (rule IH) (use Cons.prems(1,2) rest(1) False in simp_all)
    then show ?thesis using False later(2) rest(2) by (cases res) auto
  qed
qed simp

lemma welcome_arrives:
  "tick_hz \<noteq> 0 \<Longrightarrow> receive_event lzd schema c (data_event q (welcome_message schema tick_hz interval peer tick))
    = ([], c\<lparr>pc_welcomed := True, pc_local_peer := peer\<rparr>)"
  by (simp add: receive_event_def data_event_def welcome_message_def receive_welcome_def new_reader_at wire message_ids
      kNetProtocolVersion_def)

text \<open>What a payload sent whole becomes at the client: the message for its dispatcher, if it decompresses.\<close>

definition item_message :: "lz4_decompress \<Rightarrow> nat \<Rightarrow> payload_item \<Rightarrow> bytes option" where
  "item_message lzd limit it =
     (if it_compressed it
      then (case decompress lzd (it_bytes it) limit of Inl _ \<Rightarrow> None | Inr raw \<Rightarrow> Some (enc_u16 (it_message it) @ raw))
      else Some (enc_u16 (it_message it) @ it_bytes it))"

fun item_actions :: "lz4_decompress \<Rightarrow> nat \<Rightarrow> payload_item list \<Rightarrow> client_action list" where
  "item_actions lzd limit [] = []"
| "item_actions lzd limit (it # items) =
     (case item_message lzd limit it of
        None \<Rightarrow> [Disconnect kServerPeerId]
      | Some m \<Rightarrow> Dispatched kServerPeerId m # Sent kServerPeerId (enc_u16 kPayloadAckMessageId @ enc_u32 (it_id it))
          # item_actions lzd limit items)"

lemma payload_ack_bytes: "payload_ack i = enc_u16 kPayloadAckMessageId @ enc_u32 i"
  by (simp add: payload_ack_def wire)

lemma finish_item:
  "as_limit a = limit \<Longrightarrow> (case item_message lzd limit it of
      None \<Rightarrow> fault (finish lzd (it_id it) (whole it) a)
    | Some m \<Rightarrow> finish lzd (it_id it) (whole it) a = Done (it_id it) m)"
  by (auto simp: finish_whole item_message_def split: sum.split)

lemma finish_actions:
  "as_limit a = limit \<Longrightarrow> result_actions (map (\<lambda>it. finish lzd (it_id it) (whole it) a) items) = item_actions lzd limit items"
proof (induction items)
  case (Cons it items)
  then show ?case
    using finish_item [of a limit lzd it]
    by (cases "item_message lzd limit it") (auto simp: fault_def payload_ack_bytes)
qed simp

lemma finish_faults:
  "as_limit a = limit \<Longrightarrow> fault (finish lzd (it_id it) (whole it) a) \<longleftrightarrow> item_message lzd limit it = None"
  using finish_item [of a limit lzd it] by (cases "item_message lzd limit it") auto

text \<open>
  C4: whatever the server does with one peer's payloads within the client's limits: a client that receives its
  welcome and then the messages of the queue in order gives its dispatcher exactly the payloads that were sent
  whole, in that order and with their bytes unchanged, and acknowledges each; at the first that is said to be
  compressed and does not decompress within the limit it disconnects, and does nothing more. It refuses the stream
  for no other reason. While it does not, it holds exactly what was sent of those it has begun. Every payload that
  waits for an acknowledgement is among those sent whole.
\<close>

theorem payload_stream:
  assumes "stream_reach F (loop_ops t) peer limit net0 items net dones" and "tick_hz \<noteq> 0"
  shows "\<exists>msgs actions c.
    loop_sent t peer net = loop_sent t peer net0 @ msgs \<and>
    run_net_client_receive lzd schema (install_net_client limit)
      (map (data_event kServerPeerId) (welcome_message schema tick_hz interval peer tick # msgs)) = (actions, c) \<and>
    actions = item_actions lzd limit dones \<and>
    (pc_payloads_refused c \<longleftrightarrow> (\<exists>it \<in> set dones. item_message lzd limit it = None)) \<and>
    (\<not> pc_payloads_refused c \<longrightarrow>
      (\<forall>i. map_of (as_open (pc_payloads c)) i = Option.bind (pq_find i items) held_part)) \<and>
    (\<forall>it \<in> set items. it_awaiting it \<longrightarrow> (\<exists>d \<in> set dones. it_id d = it_id it \<and> whole d = whole it))"
proof -
  obtain msgs results a where msgs: "loop_sent t peer net = loop_sent t peer net0 @ msgs" "list_all stream_message msgs"
    and run: "deliver_all lzd (set_limit limit new_assembler) msgs = (results, a)"
    and res: "filter (\<lambda>r. r \<noteq> Nothing) results = map (\<lambda>it. finish lzd (it_id it) (whole it) a) dones"
    and a: "as_limit a = limit" "\<And>i. map_of (as_open a) i = Option.bind (pq_find i items) held_part"
    by (rule stream_results [OF assms(1), of lzd]) (rule that; assumption)
  let ?c = "(install_net_client limit)\<lparr>pc_welcomed := True, pc_local_peer := peer\<rparr>"
  obtain actions c where c: "run_net_client_receive lzd schema ?c (map (data_event kServerPeerId) msgs) = (actions, c)"
    by (metis surj_pair)
  have all: "run_net_client_receive lzd schema (install_net_client limit)
      (map (data_event kServerPeerId) (welcome_message schema tick_hz interval peer tick # msgs)) = (actions, c)"
    using c welcome_arrives [OF assms(2), of lzd schema "install_net_client limit"] by simp
  have faults: "(\<exists>r \<in> set results. fault r) \<longleftrightarrow> (\<exists>it \<in> set dones. item_message lzd limit it = None)"
  proof -
    have "(\<exists>r \<in> set results. fault r) \<longleftrightarrow> (\<exists>r \<in> set (filter (\<lambda>r. r \<noteq> Nothing) results). fault r)"
      by (auto simp: fault_def)
    then show ?thesis unfolding res using finish_faults [OF a(1), of lzd] by auto
  qed
  have "actions = result_actions results \<and> (pc_payloads_refused c \<longleftrightarrow> (\<exists>r \<in> set results. fault r))
      \<and> (\<not> pc_payloads_refused c \<longrightarrow> pc_payloads c = a)"
    by (rule run_stream [OF msgs(2) _ _ _ c]) (simp_all add: install_net_client_def run)
  moreover have "result_actions results = item_actions lzd limit dones"
    using result_actions_filter [of results] unfolding res finish_actions [OF a(1)] by simp
  ultimately show ?thesis
    using msgs(1) all a(2) faults stream_awaiting [OF assms(1), unfolded awaiting_done_def]
    by (intro exI [of _ msgs] exI [of _ actions] exI [of _ c]) auto
qed

theorem payload_stream_witness:
  "\<exists>msgs c. run_net_client_receive run_decompress 5 (install_net_client 100)
      (map (data_event kServerPeerId) (welcome_message 5 60 3 2 9 # msgs))
    = ([Dispatched kServerPeerId (enc_u16 7 @ [1, 2, 3]), Sent kServerPeerId (enc_u16 kPayloadAckMessageId @ enc_u32 1)], c)
    \<and> \<not> pc_payloads_refused c"
proof -
  let ?it = "after_fragment (pq_push 1 7 [1, 2, 3] \<lparr>po_priority = 0, po_compressed = False\<rparr> 1 [] ! 0)"
  have item: "item_message run_decompress 100 ?it = Some (enc_u16 7 @ [1, 2, 3])" "it_id ?it = 1"
    by (simp_all add: item_message_def pq_push_def)
  have "(60 :: u16) \<noteq> 0" by simp
  from payload_stream [OF demo_run this, of run_decompress 5 3 9] item
  show ?thesis by auto
qed

subsection \<open>Bounds\<close>

lemma receive_event_kept:
  assumes inv: "assembler_inv (pc_payloads c)" and step: "receive_event lzd schema c ev = (now, c')"
  shows "assembler_inv (pc_payloads c')" "as_limit (pc_payloads c') = as_limit (pc_payloads c)"
    and "Dispatched p m \<in> set now \<Longrightarrow> m = ev_payload ev \<or> length m \<le> as_limit (pc_payloads c) + 2"
proof -
  have message: "assembler_inv (pc_payloads d) \<and> as_limit (pc_payloads d) = as_limit (pc_payloads c)
      \<and> (Dispatched p m \<in> set acts \<longrightarrow> length m \<le> as_limit (pc_payloads c) + 2)"
    if "receive_payload_message lzd c k r = (acts, d)" for k r acts d
    using that inv payload_message_inv [OF inv, of lzd k r] payload_message_limit [of lzd k "pc_payloads c" r]
      payload_message_Done [OF inv, of lzd k r _ m]
    by (auto simp: receive_payload_message_def Let_def split: if_splits prod.splits assembler_result.splits)
  have greeted: "pc_payloads d = pc_payloads c \<and> Dispatched p m \<notin> set acts"
    if "receive_welcome schema c r = (acts, d)" for r acts d
    using that by (auto simp: receive_welcome_def Let_def split: if_splits prod.splits option.splits)
  have "assembler_inv (pc_payloads c') \<and> as_limit (pc_payloads c') = as_limit (pc_payloads c)
      \<and> (Dispatched p m \<in> set now \<longrightarrow> m = ev_payload ev \<or> length m \<le> as_limit (pc_payloads c) + 2)"
  proof (cases "ev_type ev")
    case DataReceived
    obtain k r where k: "read_u16 (new_reader (ev_payload ev)) = (k, r)" by (metis surj_pair)
    from step show ?thesis
      using inv message greeted
      by (auto simp: receive_event_def DataReceived k split: option.splits if_splits)
  qed (use step inv clear_inv in \<open>auto simp: receive_event_def forget_server_def clear_assembler_def\<close>)
  then show "assembler_inv (pc_payloads c')" "as_limit (pc_payloads c') = as_limit (pc_payloads c)"
    and "Dispatched p m \<in> set now \<Longrightarrow> m = ev_payload ev \<or> length m \<le> as_limit (pc_payloads c) + 2" by auto
qed

lemma client_run_kept:
  assumes "assembler_inv (pc_payloads c)" and "run_net_client_receive lzd schema c evs = (actions, c')"
  shows "assembler_inv (pc_payloads c') \<and> as_limit (pc_payloads c') = as_limit (pc_payloads c)
    \<and> (\<forall>p m. Dispatched p m \<in> set actions \<longrightarrow> m \<in> ev_payload ` set evs \<or> length m \<le> as_limit (pc_payloads c) + 2)"
  using assms
proof (induction evs arbitrary: c actions)
  case (Cons ev evs)
  obtain now d later where now: "receive_event lzd schema c ev = (now, d)"
    and later: "run_net_client_receive lzd schema d evs = (later, c')" "actions = now @ later"
    using Cons.prems(2) by (auto split: prod.splits)
  note kept = receive_event_kept [OF Cons.prems(1) now]
  from Cons.IH [OF kept(1) later(1)] kept(2,3) later(2) show ?case by auto
qed simp

text \<open>
  C21: whatever events the client gets from its transport, well-formed messages or not, in whatever order, with the
  server lost and found again at any point: it never holds more bytes of unfinished payloads than its limit, nor more
  than 4096 of them, one for an id, and counts the bytes it holds exactly; and a message it gives its dispatcher is
  either one that arrived as it is or no longer than the limit and the two bytes of its message id.
\<close>

theorem assembler_bounded:
  "(let (actions, c) = run_net_client_receive lzd schema (install_net_client limit) evs; a = pc_payloads c
    in as_held a = bytes_held (as_open a) \<and> bytes_held (as_open a) \<le> limit \<and>
       open_count a \<le> kMaxOpen \<and> distinct (map fst (as_open a)) \<and>
       (\<forall>p m. Dispatched p m \<in> set actions \<longrightarrow> m \<in> ev_payload ` set evs \<or> length m \<le> limit + 2))"
proof -
  obtain actions c where c: "run_net_client_receive lzd schema (install_net_client limit) evs = (actions, c)"
    by (metis surj_pair)
  have "pc_payloads (install_net_client limit) = set_limit limit new_assembler" by (simp add: install_net_client_def)
  with client_run_kept [OF _ c] new_assembler_inv [of limit]
  have "assembler_inv (pc_payloads c) \<and> as_limit (pc_payloads c) = limit
      \<and> (\<forall>p m. Dispatched p m \<in> set actions \<longrightarrow> m \<in> ev_payload ` set evs \<or> length m \<le> limit + 2)"
    by (simp add: set_limit_def)
  then show ?thesis using assembler_invD [of "pc_payloads c"] by (simp add: c open_count_def)
qed

theorem assembler_bounded_witness:
  "as_held (pc_payloads (snd (run_net_client_receive run_decompress 5 (install_net_client 2)
     (map (data_event kServerPeerId) [welcome_message 5 60 3 2 9,
       fragment_message (pq_push 1 7 [1, 2, 3] \<lparr>po_priority = 0, po_compressed = False\<rparr> 1 [] ! 0)])))) \<le> 2"
  using assembler_bounded [of run_decompress 5 2 "map (data_event kServerPeerId) [welcome_message 5 60 3 2 9,
       fragment_message (pq_push 1 7 [1, 2, 3] \<lparr>po_priority = 0, po_compressed = False\<rparr> 1 [] ! 0)]"]
  by (simp only: Let_def case_prod_unfold)

end
