(* ===== verification/Ord_Map.thy ===== *)
theory Ord_Map
  imports Wind_Prelude
begin

section \<open>Ordered maps\<close>

text \<open>
  \<open>std::map\<close> as an association list in strictly increasing key order, which is the order its
  iterators give; \<open>map_of\<close> is \<open>find\<close>, \<open>om_put\<close> is \<open>insert_or_assign\<close> (or \<open>emplace\<close> of an absent
  key), \<open>om_del\<close> is \<open>erase\<close> of a key. Two such lists with the same lookups are the same list.
  \<open>om_ok\<close> is the order invariant. The interface \<open>ordered_map\<close> states the laws the components use.
\<close>

definition om_ok :: "('k :: linorder \<times> 'v) list \<Rightarrow> bool" where
  "om_ok m \<longleftrightarrow> sorted_wrt (<) (map fst m)"

fun om_put :: "'k :: linorder \<Rightarrow> 'v \<Rightarrow> ('k \<times> 'v) list \<Rightarrow> ('k \<times> 'v) list" where
  "om_put k v [] = [(k, v)]"
| "om_put k v ((j, w) # m) =
     (if k < j then (k, v) # (j, w) # m
      else if k = j then (k, v) # m
      else (j, w) # om_put k v m)"

fun om_del :: "'k :: linorder \<Rightarrow> ('k \<times> 'v) list \<Rightarrow> ('k \<times> 'v) list" where
  "om_del k [] = []"
| "om_del k ((j, w) # m) = (if k = j then m else (j, w) # om_del k m)"

lemma om_ok_Nil [simp]: "om_ok []"
  by (simp add: om_ok_def)

lemma om_ok_Cons [simp]: "om_ok ((k, v) # m) \<longleftrightarrow> (\<forall>j \<in> fst ` set m. k < j) \<and> om_ok m"
  by (auto simp: om_ok_def)

lemma om_put_keys: "fst ` set (om_put k v m) = insert k (fst ` set m)"
  by (induction m rule: om_put.induct [of _ k v]) auto

lemma om_put_ok: "om_ok m \<Longrightarrow> om_ok (om_put k v m)"
  by (induction k v m rule: om_put.induct) (auto simp: om_put_keys)

lemma om_put_get: "om_ok m \<Longrightarrow> map_of (om_put k v m) j = (if j = k then Some v else map_of m j)"
  by (induction k v m rule: om_put.induct) (auto simp: map_of_eq_None_iff)

lemma om_del_set: "set (om_del k m) \<subseteq> set m"
  by (induction k m rule: om_del.induct) auto

lemma om_del_ok: "om_ok m \<Longrightarrow> om_ok (om_del k m)"
  by (induction k m rule: om_del.induct) (use om_del_set in fastforce)+

lemma om_none: "om_ok m \<Longrightarrow> \<forall>j \<in> fst ` set m. k < j \<Longrightarrow> map_of m k = None"
  by (force simp: map_of_eq_None_iff)

lemma om_del_get: "om_ok m \<Longrightarrow> map_of (om_del k m) j = (if j = k then None else map_of m j)"
  by (induction k m rule: om_del.induct) (auto simp: om_none)

lemma om_distinct: "om_ok m \<Longrightarrow> distinct (map fst m)"
  by (induction m) (auto simp: om_ok_def)

lemma om_mem: "om_ok m \<Longrightarrow> (k, v) \<in> set m \<longleftrightarrow> map_of m k = Some v"
  using om_distinct by (metis map_of_eq_Some_iff)

lemma om_filter: "om_ok m \<Longrightarrow> om_ok (filter P m)"
  by (simp add: om_ok_def sorted_wrt_map sorted_wrt_filter)

lemma om_map_val: "om_ok (map (\<lambda>(k, v). (k, f k v)) m) = om_ok m"
  by (simp add: om_ok_def comp_def case_prod_beta)

lemma om_ext:
  "om_ok m \<Longrightarrow> om_ok n \<Longrightarrow> map_of m = map_of n \<Longrightarrow> m = n"
proof (induction m arbitrary: n)
  case Nil
  then show ?case by (cases n) (auto simp: fun_eq_iff split: if_splits)
next
  case (Cons x m)
  obtain k v where x: "x = (k, v)" by (cases x)
  have "n \<noteq> []" using Cons.prems(3) x by (auto simp: fun_eq_iff split: if_splits)
  then obtain j w n' where n: "n = (j, w) # n'" by (cases n) auto
  have get: "map_of (x # m) i = map_of n i" for i by (rule fun_cong [OF Cons.prems(3)])
  have kj: "k = j"
  proof (rule ccontr)
    assume ne: "k \<noteq> j"
    have "map_of n' k = Some v" using get [of k] ne x n by simp
    then have "j < k" using Cons.prems(2) n by (force dest: map_of_SomeD)
    moreover have "map_of m j = Some w" using get [of j] ne x n by simp
    then have "k < j" using Cons.prems(1) x by (force dest: map_of_SomeD)
    ultimately show False by simp
  qed
  have vw: "v = w" using get [of k] kj x n by simp
  have "map_of m i = map_of n' i" for i
  proof (cases "i = k")
    case True
    have "map_of m k = None" "map_of n' k = None"
      using Cons.prems(1,2) x n kj by (auto simp: om_none)
    with True show ?thesis by simp
  next
    case False
    with get [of i] x n kj show ?thesis by simp
  qed
  then have "map_of m = map_of n'" by (rule ext)
  with Cons.IH [of n'] Cons.prems(1,2) x n kj vw show ?case by simp
qed

text \<open>Dropping the keys below a bound from the front is filtering.\<close>

lemma om_dropWhile: "om_ok m \<Longrightarrow> dropWhile (\<lambda>(k, v). k < b) m = filter (\<lambda>(k, v). \<not> k < b) m"
proof (induction m)
  case Nil
  then show ?case by simp
next
  case (Cons x m)
  obtain k v where x: "x = (k, v)" by (cases x)
  show ?case
  proof (cases "k < b")
    case True
    with Cons x show ?thesis by simp
  next
    case False
    then have "\<forall>(j, w) \<in> set m. \<not> j < b" using Cons.prems x by force
    then have "filter (\<lambda>(k, v). \<not> k < b) m = m" by (simp add: filter_id_conv)
    with False x show ?thesis by simp
  qed
qed

locale ordered_map =
  fixes ok :: "'m \<Rightarrow> bool" and get :: "'m \<Rightarrow> 'k :: linorder \<Rightarrow> 'v option"
    and put :: "'k \<Rightarrow> 'v \<Rightarrow> 'm \<Rightarrow> 'm" and del :: "'k \<Rightarrow> 'm \<Rightarrow> 'm"
  assumes put_ok: "ok m \<Longrightarrow> ok (put k v m)"
    and del_ok: "ok m \<Longrightarrow> ok (del k m)"
    and get_put: "ok m \<Longrightarrow> get (put k v m) j = (if j = k then Some v else get m j)"
    and get_del: "ok m \<Longrightarrow> get (del k m) j = (if j = k then None else get m j)"
    and ext: "ok m \<Longrightarrow> ok n \<Longrightarrow> (\<And>k. get m k = get n k) \<Longrightarrow> m = n"
begin

lemma put_put: "ok m \<Longrightarrow> put k v (put k w m) = put k v m"
  by (rule ext) (simp_all add: put_ok get_put)

lemma put_commute: "ok m \<Longrightarrow> j \<noteq> k \<Longrightarrow> put j v (put k w m) = put k w (put j v m)"
  by (rule ext) (simp_all add: put_ok get_put)

lemma put_same: "ok m \<Longrightarrow> get m k = Some v \<Longrightarrow> put k v m = m"
  by (rule ext) (simp_all add: put_ok get_put)

lemma del_put: "ok m \<Longrightarrow> del k (put k v m) = del k m"
  by (rule ext) (simp_all add: put_ok del_ok get_put get_del)

lemma del_absent: "ok m \<Longrightarrow> get m k = None \<Longrightarrow> del k m = m"
  by (rule ext) (simp_all add: del_ok get_del)

end

interpretation om: ordered_map om_ok map_of om_put om_del
  by unfold_locales (auto simp: om_put_ok om_del_ok om_put_get om_del_get intro: om_ext)

end
