(* ===== verification/Input_Buffer.thy ===== *)
theory Input_Buffer
  imports Net_Types Ord_Map
begin

section \<open>One entity's inputs on the server\<close>

text \<open>
  \<^verbatim>\<open>src/net/input_buffer.h\<close> and \<^verbatim>\<open>src/net/input_buffer.cpp\<close>: the inputs a peer sent for the entity
  it controls, by tick, many of them more than once. The specification \<open>input_spec\<close> forgets
  nothing: it keeps the first copy of every input it accepted and says of another copy that there was one,
  and how many ticks ago it ran. The buffer drops what ran and keeps a
  64-bit mask of the ticks that ran with an input of their own; \<open>code_answer\<close> is what becomes of the answers.
\<close>

record input_buffer =
  ib_pending :: "(tick \<times> bytes) list"
  ib_last :: bytes
  ib_has_last :: bool
  ib_resolved :: tick
  ib_newest :: tick
  ib_mask :: u64

datatype insert_result = Stored | Duplicate | Late | TooFarAhead

record taken =
  tk_bytes :: bytes
  tk_real :: bool
  tk_repeated :: bool

definition new_input_buffer :: "tick \<Rightarrow> input_buffer" where
  "new_input_buffer resolved = \<lparr>ib_pending = [], ib_last = [], ib_has_last = False,
     ib_resolved = resolved, ib_newest = kNoTick, ib_mask = 0\<rparr>"

definition input_insert :: "tick \<Rightarrow> bytes \<Rightarrow> tick \<Rightarrow> input_buffer \<Rightarrow> insert_result \<times> input_buffer" where
  "input_insert t bs server_tick ib =
     (if t = kNoTick then (Late, ib)
      else if t \<le> ib_resolved ib then
        (let gap = ib_resolved ib - t
         in if gap < 64 \<and> and (ib_mask ib) (push_bit (unat gap) 1) \<noteq> 0 then (Duplicate, ib)
            else (Late, ib))
      else if t > server_tick + kMaxInputLeadTicks then (TooFarAhead, ib)
      else if map_of (ib_pending ib) t \<noteq> None then (Duplicate, ib)
      else
        (let ib1 = ib\<lparr>ib_pending := om_put t bs (ib_pending ib)\<rparr>
         in (Stored, if ib_newest ib = kNoTick \<or> t > ib_newest ib then ib1\<lparr>ib_newest := t\<rparr> else ib1)))"

definition input_take :: "tick \<Rightarrow> input_buffer \<Rightarrow> taken \<times> input_buffer" where
  "input_take t ib =
     (let pending = dropWhile (\<lambda>(k, _). k < t) (ib_pending ib);
          advanced = (if t > ib_resolved ib then t - ib_resolved ib else 0);
          mask = (if advanced \<ge> 64 then 0 else push_bit (unat advanced) (ib_mask ib));
          ib1 = ib\<lparr>ib_pending := pending, ib_mask := mask, ib_resolved := t\<rparr>
      in case map_of pending t of
           Some bs \<Rightarrow>
             (\<lparr>tk_bytes = bs, tk_real = True, tk_repeated = False\<rparr>,
              ib1\<lparr>ib_last := bs, ib_has_last := True, ib_pending := om_del t pending, ib_mask := or mask 1\<rparr>)
         | None \<Rightarrow>
             (\<lparr>tk_bytes = ib_last ib, tk_real = False, tk_repeated = ib_has_last ib\<rparr>, ib1))"

definition input_pending :: "input_buffer \<Rightarrow> nat" where
  "input_pending ib = length (ib_pending ib)"

subsection \<open>The specification\<close>

record input_spec =
  is_stored :: "tick \<Rightarrow> bytes option"
  is_resolved :: tick
  is_last :: "bytes option"

text \<open>\<open>Again n\<close>: an input of this tick was accepted before, and it ran \<open>n\<close> ticks ago or waits still (0).\<close>

datatype spec_result = Kept | Again nat | NotInTime | TooEarly

definition spec_insert :: "tick \<Rightarrow> bytes \<Rightarrow> tick \<Rightarrow> input_spec \<Rightarrow> spec_result \<times> input_spec" where
  "spec_insert t bs server_tick s =
     (if t \<le> is_resolved s then
        (if is_stored s t \<noteq> None then Again (unat (is_resolved s) - unat t) else NotInTime, s)
      else if t > server_tick + kMaxInputLeadTicks then (TooEarly, s)
      else if is_stored s t \<noteq> None then (Again 0, s)
      else (Kept, s\<lparr>is_stored := (is_stored s)(t := Some bs)\<rparr>))"

text \<open>The answer of the code, which knows a copy again for 64 ticks.\<close>

fun code_answer :: "spec_result \<Rightarrow> insert_result" where
  "code_answer Kept = Stored"
| "code_answer (Again n) = (if n < 64 then Duplicate else Late)"
| "code_answer NotInTime = Late"
| "code_answer TooEarly = TooFarAhead"

definition spec_take :: "input_spec \<Rightarrow> taken \<times> input_spec" where
  "spec_take s =
     (let t = is_resolved s + 1
      in case is_stored s t of
           Some bs \<Rightarrow> (\<lparr>tk_bytes = bs, tk_real = True, tk_repeated = False\<rparr>,
              s\<lparr>is_resolved := t, is_last := Some bs\<rparr>)
         | None \<Rightarrow> (\<lparr>tk_bytes = (case is_last s of None \<Rightarrow> [] | Some bs \<Rightarrow> bs), tk_real = False,
              tk_repeated = (is_last s \<noteq> None)\<rparr>, s\<lparr>is_resolved := t\<rparr>))"

text \<open>
  What happens to a buffer: an input arrives (tick, bytes, the server's tick then), or the server
  steps the next tick. The server's tick only matters as the bound on how far ahead an input may be.
\<close>

datatype input_event = Arrive tick bytes tick | Step

datatype 'r input_answer = Inserted 'r | Ran taken

fun run_buffer :: "input_event list \<Rightarrow> input_buffer \<Rightarrow> insert_result input_answer list \<times> input_buffer" where
  "run_buffer [] ib = ([], ib)"
| "run_buffer (Arrive t bs now # es) ib =
     (let (r, ib1) = input_insert t bs now ib; (rs, ib2) = run_buffer es ib1 in (Inserted r # rs, ib2))"
| "run_buffer (Step # es) ib =
     (let (r, ib1) = input_take (ib_resolved ib + 1) ib; (rs, ib2) = run_buffer es ib1 in (Ran r # rs, ib2))"

fun run_spec :: "input_event list \<Rightarrow> input_spec \<Rightarrow> spec_result input_answer list \<times> input_spec" where
  "run_spec [] s = ([], s)"
| "run_spec (Arrive t bs now # es) s =
     (let (r, s1) = spec_insert t bs now s; (rs, s2) = run_spec es s1 in (Inserted r # rs, s2))"
| "run_spec (Step # es) s =
     (let (r, s1) = spec_take s; (rs, s2) = run_spec es s1 in (Ran r # rs, s2))"

definition input_abs :: "input_buffer \<Rightarrow> input_spec \<Rightarrow> bool" where
  "input_abs ib s \<longleftrightarrow>
     ib_resolved ib = is_resolved s \<and> om_ok (ib_pending ib) \<and>
     (\<forall>t. map_of (ib_pending ib) t = (if is_resolved s < t then is_stored s t else None)) \<and>
     is_stored s 0 = None \<and>
     (\<forall>n < 64. bit (ib_mask ib) n \<longleftrightarrow>
        n \<le> unat (is_resolved s) \<and> is_stored s (of_nat (unat (is_resolved s) - n)) \<noteq> None) \<and>
     ib_has_last ib = (is_last s \<noteq> None) \<and> ib_last ib = (case is_last s of None \<Rightarrow> [] | Some bs \<Rightarrow> bs)"

lemma input_absD:
  assumes "input_abs ib s"
  shows "ib_resolved ib = is_resolved s" and "om_ok (ib_pending ib)"
    and "\<And>t. map_of (ib_pending ib) t = (if is_resolved s < t then is_stored s t else None)"
    and "is_stored s 0 = None"
    and "\<And>n. n < 64 \<Longrightarrow> bit (ib_mask ib) n \<longleftrightarrow>
        n \<le> unat (is_resolved s) \<and> is_stored s (of_nat (unat (is_resolved s) - n)) \<noteq> None"
    and "ib_has_last ib = (is_last s \<noteq> None)" "ib_last ib = (case is_last s of None \<Rightarrow> [] | Some bs \<Rightarrow> bs)"
  using assms by (simp_all add: input_abs_def)

lemma mask_test: "and (x :: 'a :: len word) (push_bit n 1) \<noteq> 0 \<longleftrightarrow> bit x n"
  by (metis and_exp_eq_0_iff_not_bit push_bit_of_1)

lemma word_of_nat_diff:
  "t \<le> (r :: 'a :: len word) \<Longrightarrow> of_nat (unat r - unat (r - t)) = t"
  by (simp add: unat_sub word_le_nat_alt)

lemma insert_refines:
  assumes "input_abs ib s"
  shows "fst (input_insert t bs now ib) = code_answer (fst (spec_insert t bs now s))"
    and "input_abs (snd (input_insert t bs now ib)) (snd (spec_insert t bs now s))"
proof -
  note A = input_absD [OF assms]
  have old: "(gap < 64 \<and> and (ib_mask ib) (push_bit (unat gap) 1) \<noteq> 0) \<longleftrightarrow>
      is_stored s t \<noteq> None \<and> unat (is_resolved s) - unat t < 64"
    if "t \<le> is_resolved s" "gap = is_resolved s - t" for gap
  proof -
    have g: "unat gap = unat (is_resolved s) - unat t" using that by (simp add: unat_sub)
    have "gap < 64 \<longleftrightarrow> unat gap < 64" by (simp add: word_less_nat_alt)
    moreover have "bit (ib_mask ib) (unat gap) \<longleftrightarrow> is_stored s t \<noteq> None" if "unat gap < 64"
      using A(5) [OF that] g word_of_nat_diff [OF \<open>t \<le> is_resolved s\<close>] \<open>gap = is_resolved s - t\<close>
      by (simp add: g)
    ultimately show ?thesis unfolding mask_test using g by auto
  qed
  show "fst (input_insert t bs now ib) = code_answer (fst (spec_insert t bs now s))"
    using old A(1,3,4) by (auto simp: input_insert_def spec_insert_def Let_def kNoTick_def)
  show "input_abs (snd (input_insert t bs now ib)) (snd (spec_insert t bs now s))"
  proof (cases "fst (spec_insert t bs now s) = Kept")
    case False
    then have "snd (spec_insert t bs now s) = s" "snd (input_insert t bs now ib) = ib"
      using old A(1,3,4)
      by (auto simp: input_insert_def spec_insert_def Let_def kNoTick_def split: if_splits)
    then show ?thesis using assms by simp
  next
    case True
    then have t: "is_resolved s < t" "is_stored s t = None"
      and s': "snd (spec_insert t bs now s) = s\<lparr>is_stored := (is_stored s)(t := Some bs)\<rparr>"
      by (auto simp: spec_insert_def split: if_splits)
    then have t0: "t \<noteq> 0" by auto
    have past: "of_nat (unat (is_resolved s) - n) \<noteq> t" for n
    proof -
      have "(of_nat (unat (is_resolved s) - n) :: tick) \<le> is_resolved s"
        by (simp add: word_le_nat_alt unat_of_nat)
      with t(1) show ?thesis by auto
    qed
    have p: "ib_pending (snd (input_insert t bs now ib)) = om_put t bs (ib_pending ib)"
      "ib_resolved (snd (input_insert t bs now ib)) = ib_resolved ib"
      "ib_mask (snd (input_insert t bs now ib)) = ib_mask ib"
      "ib_last (snd (input_insert t bs now ib)) = ib_last ib"
      "ib_has_last (snd (input_insert t bs now ib)) = ib_has_last ib"
      using True t A(1,3) t0
      by (auto simp: input_insert_def spec_insert_def Let_def kNoTick_def split: if_splits)
    show ?thesis
      unfolding input_abs_def s' p
      using A t t0 past by (auto simp: om_put_ok om_put_get)
  qed
qed

lemma mask_shift:
  "n < 64 \<Longrightarrow> bit (push_bit 1 (m :: u64)) n \<longleftrightarrow> n \<noteq> 0 \<and> bit m (n - 1)"
  by (simp only: bit_push_bit_iff possible_bit_word) auto

lemma take_refines:
  assumes "input_abs ib s" and nowrap: "unat (is_resolved s) < 2 ^ 32 - 1"
  shows "fst (input_take (ib_resolved ib + 1) ib) = fst (spec_take s)"
    and "input_abs (snd (input_take (ib_resolved ib + 1) ib)) (snd (spec_take s))"
proof -
  note A = input_absD [OF assms(1)]
  define t where "t = is_resolved s + 1"
  have ut: "unat t = Suc (unat (is_resolved s))"
    using nowrap by (simp add: t_def unat_succ)
  then have less: "is_resolved s < t" and t0: "t \<noteq> 0" by (auto simp: word_less_nat_alt)
  have tt: "ib_resolved ib + 1 = t" by (simp add: A(1) t_def)
  have adv: "t - is_resolved s = 1" "\<not> 64 \<le> (1 :: tick)"
    by (simp_all add: t_def word_le_nat_alt)
  define pend where "pend = filter (\<lambda>(k, v). \<not> k < t) (ib_pending ib)"
  have pend: "dropWhile (\<lambda>(k, _). k < t) (ib_pending ib) = pend"
    using om_dropWhile [OF A(2)] by (simp add: pend_def)
  have after: "is_resolved s < k \<longleftrightarrow> k = t \<or> t < k" for k
    using ut by (auto simp: word_less_nat_alt word_unat_eq_iff)
  have get: "map_of pend k = (if k = t \<or> t < k then is_stored s k else None)" for k
    by (auto simp: pend_def map_of_filter_key A(3) after not_less)
  have ok: "om_ok pend" using A(2) by (simp add: pend_def om_filter)
  have mask: "bit (push_bit 1 (ib_mask ib)) n \<longleftrightarrow>
      n \<noteq> 0 \<and> n \<le> unat t \<and> is_stored s (of_nat (unat t - n)) \<noteq> None" if "n < 64" for n
    using A(5) [of "n - 1"] that unfolding mask_shift [OF that] by (cases n) (simp_all add: ut)
  show "fst (input_take (ib_resolved ib + 1) ib) = fst (spec_take s)"
    unfolding tt input_take_def spec_take_def Let_def pend t_def [symmetric]
    using get [of t] A(6,7) by (auto split: option.splits)
  show "input_abs (snd (input_take (ib_resolved ib + 1) ib)) (snd (spec_take s))"
  proof (cases "is_stored s t")
    case None
    have "snd (spec_take s) = s\<lparr>is_resolved := t\<rparr>"
      by (simp add: spec_take_def Let_def t_def [symmetric] None)
    moreover have "snd (input_take (ib_resolved ib + 1) ib) =
        ib\<lparr>ib_pending := pend, ib_mask := push_bit 1 (ib_mask ib), ib_resolved := t\<rparr>"
      unfolding tt input_take_def Let_def pend using get [of t] None less A(1) by (simp add: adv)
    moreover have "bit (push_bit 1 (ib_mask ib)) n \<longleftrightarrow>
        n \<le> unat t \<and> is_stored s (of_nat (unat t - n)) \<noteq> None" if "n < 64" for n
      using mask [OF that] None by (cases "n = 0") auto
    ultimately show ?thesis
      unfolding input_abs_def using A(4,6,7) ok get None by auto
  next
    case (Some bs)
    have "snd (spec_take s) = s\<lparr>is_resolved := t, is_last := Some bs\<rparr>"
      by (simp add: spec_take_def Let_def t_def [symmetric] Some)
    moreover have "snd (input_take (ib_resolved ib + 1) ib) =
        ib\<lparr>ib_pending := om_del t pend, ib_mask := or (push_bit 1 (ib_mask ib)) 1, ib_resolved := t,
          ib_last := bs, ib_has_last := True\<rparr>"
      unfolding tt input_take_def Let_def pend using get [of t] Some less A(1) by (simp add: adv)
    moreover have "bit (or (push_bit 1 (ib_mask ib)) 1) n \<longleftrightarrow>
        n \<le> unat t \<and> is_stored s (of_nat (unat t - n)) \<noteq> None" if "n < 64" for n
      using mask [OF that] Some by (auto simp: bit_or_iff bit_1_iff)
    ultimately show ?thesis
      using A(4) ok get by (auto simp: input_abs_def om_del_ok om_del_get)
  qed
qed

subsection \<open>Properties\<close>

fun steps :: "input_event list \<Rightarrow> nat" where
  "steps [] = 0"
| "steps (Step # es) = Suc (steps es)"
| "steps (Arrive t bs now # es) = steps es"

definition fresh_spec :: "tick \<Rightarrow> input_spec" where
  "fresh_spec resolved = \<lparr>is_stored = Map.empty, is_resolved = resolved, is_last = None\<rparr>"

lemma fresh_abs: "input_abs (new_input_buffer resolved) (fresh_spec resolved)"
  by (simp add: input_abs_def new_input_buffer_def fresh_spec_def)

lemma spec_resolved:
  "is_resolved (snd (spec_insert t bs now s)) = is_resolved s"
  "is_resolved (snd (spec_take s)) = is_resolved s + 1"
  by (auto simp: spec_insert_def spec_take_def Let_def split: option.split)

lemma run_refines:
  "input_abs ib s \<Longrightarrow> unat (is_resolved s) + steps es < 2 ^ 32 \<Longrightarrow>
     fst (run_buffer es ib) = map (map_input_answer code_answer) (fst (run_spec es s))"
proof (induction es arbitrary: ib s)
  case Nil
  then show ?case by simp
next
  case (Cons e es)
  show ?case
  proof (cases e)
    case (Arrive t bs now)
    then show ?thesis
      using insert_refines [OF Cons.prems(1), of t bs now] Cons.prems(2)
        Cons.IH [OF insert_refines(2) [OF Cons.prems(1), of t bs now]]
      by (simp add: spec_resolved Let_def case_prod_beta)
  next
    case Step
    have small: "unat (is_resolved s) < 2 ^ 32 - 1" using Cons.prems(2) Step by simp
    note t = take_refines [OF Cons.prems(1) small]
    have "unat (is_resolved s + 1) + steps es < 2 ^ 32"
      using Cons.prems(2) Step small by (simp add: unat_succ)
    with Step t Cons.IH [OF t(2)] show ?thesis
      by (simp add: spec_resolved Let_def case_prod_beta)
  qed
qed

text \<open>
  C6: whatever inputs arrive, in whatever order, early, late or repeated, and however the server's
  steps fall between them, as long as its ticks stay below \<open>2^32\<close>: the buffer steps as a specification that keeps the first
  copy of every accepted input for ever (each is run at its own tick, and a tick without one repeats
  the last), and answers each arrival as \<open>code_answer\<close> says: as the specification does, with one exception. Of
  a copy of an input that ran 64 ticks ago or more it says that it is late, not that it is a duplicate.
\<close>

theorem input_buffer_refines:
  assumes "unat resolved + steps es < 2 ^ 32"
  shows "fst (run_buffer es (new_input_buffer resolved))
    = map (map_input_answer code_answer) (fst (run_spec es (fresh_spec resolved)))"
  using run_refines [OF fresh_abs] assms by (simp add: fresh_spec_def)

theorem input_buffer_refines_witness:
  "fst (run_buffer [Arrive 11 [1] 10, Step, Arrive 11 [2] 11, Step, Arrive 12 [3] 12] (new_input_buffer 10)) =
     [Inserted Stored, Ran \<lparr>tk_bytes = [1], tk_real = True, tk_repeated = False\<rparr>, Inserted Duplicate,
      Ran \<lparr>tk_bytes = [1], tk_real = False, tk_repeated = True\<rparr>, Inserted Late]"
  using input_buffer_refines [of 10 "[Arrive 11 [1] 10, Step, Arrive 11 [2] 11, Step, Arrive 12 [3] 12]"]
  by (simp add: spec_insert_def spec_take_def fresh_spec_def kMaxInputLeadTicks_def)

text \<open>The exception happens: an input that ran 64 ticks ago.\<close>

lemma old_copy_late:
  "last (fst (run_buffer (Arrive 11 [1] 10 # replicate 65 Step @ [Arrive 11 [1] 75]) (new_input_buffer 10))) = Inserted Late
   \<and> last (fst (run_spec (Arrive 11 [1] 10 # replicate 65 Step @ [Arrive 11 [1] 75]) (fresh_spec 10))) = Inserted (Again 64)"
  by code_simp

end
