(* ===== verification/Input_Message.thy ===== *)
theory Input_Message
  imports Net_Types Byte_Codec
begin

section \<open>The Input message\<close>

text \<open>
  \<^verbatim>\<open>src/net/input_message.h\<close> and \<^verbatim>\<open>src/net/input_message.cpp\<close>. The sizes go out as 8 and 16 bits;
  \<open>decode\<close> reads what follows the message id and refuses everything over its caps. The three
  nested formats (an input, an entity, the message) are exact codecs: \<open>decode\<close> accepts the
  encodings of the messages within the caps and nothing else.
\<close>

record input_entity =
  ie_id :: net_id
  ie_inputs :: "bytes list"

record input_message =
  im_newest :: tick
  im_entities :: "input_entity list"

definition write_input :: "bytes \<Rightarrow> byte_writer \<Rightarrow> byte_writer" where
  "write_input bs w = append_bytes bs (write_u16 (of_nat (length bs)) w)"

definition write_entity :: "input_entity \<Rightarrow> byte_writer \<Rightarrow> byte_writer" where
  "write_entity e w =
     fold write_input (ie_inputs e) (write_u8 (of_nat (length (ie_inputs e))) (write_u32 (ie_id e) w))"

definition encode_input :: "input_message \<Rightarrow> bytes" where
  "encode_input m =
     buffer (fold write_entity (im_entities m)
       (write_u8 (of_nat (length (im_entities m)))
         (write_u32 (im_newest m) (write_u16 kInputMessageId new_writer))))"

definition read_input :: "byte_reader \<Rightarrow> bytes option \<times> byte_reader" where
  "read_input r =
     (case read_u16 r of
        (None, r') \<Rightarrow> (None, r')
      | (Some n, r') \<Rightarrow> (if unat n > kMaxInputBytes then (None, r') else read_bytes (unat n) r'))"

definition read_entity :: "tick \<Rightarrow> byte_reader \<Rightarrow> input_entity option \<times> byte_reader" where
  "read_entity newest r =
     (let (i, r1) = read_u32 r; (n, r2) = read_u8 r1
      in case (i, n) of
           (Some i, Some n) \<Rightarrow>
             (if i = kInvalidNetId \<or> n = 0 \<or> unat n > kMaxInputsPerMessage \<or> unat n > unat newest
              then (None, r2)
              else (case read_n (unat n) read_input r2 of
                      (None, r3) \<Rightarrow> (None, r3)
                    | (Some inputs, r3) \<Rightarrow> (Some \<lparr>ie_id = i, ie_inputs = inputs\<rparr>, r3)))
         | _ \<Rightarrow> (None, r2))"

definition decode_input :: "byte_reader \<Rightarrow> input_message option \<times> byte_reader" where
  "decode_input r =
     (let (newest, r1) = read_u32 r; (count, r2) = read_u8 r1
      in case (newest, count) of
           (Some newest, Some count) \<Rightarrow>
             (if newest = kNoTick \<or> count = 0 \<or> unat count > kMaxInputEntities then (None, r2)
              else (case read_n (unat count) (read_entity newest) r2 of
                      (None, r3) \<Rightarrow> (None, r3)
                    | (Some es, r3) \<Rightarrow>
                        (if \<not> rd_ok r3 \<or> remaining r3 \<noteq> 0 then (None, r3)
                         else (Some \<lparr>im_newest = newest, im_entities = es\<rparr>, r3))))
         | _ \<Rightarrow> (None, r2))"

subsection \<open>The nested formats are codecs\<close>

definition enc_input :: "bytes \<Rightarrow> bytes" where
  "enc_input bs = enc_u16 (of_nat (length bs)) @ bs"

definition enc_entity :: "input_entity \<Rightarrow> bytes" where
  "enc_entity e =
     enc_u32 (ie_id e) @ enc_u8 (of_nat (length (ie_inputs e))) @ concat (map enc_input (ie_inputs e))"

definition input_ok :: "bytes \<Rightarrow> bool" where
  "input_ok bs \<longleftrightarrow> length bs \<le> kMaxInputBytes"

definition entity_ok :: "tick \<Rightarrow> input_entity \<Rightarrow> bool" where
  "entity_ok newest e \<longleftrightarrow>
     ie_id e \<noteq> kInvalidNetId \<and> ie_inputs e \<noteq> [] \<and> length (ie_inputs e) \<le> kMaxInputsPerMessage \<and>
     length (ie_inputs e) \<le> unat newest \<and> (\<forall>bs \<in> set (ie_inputs e). input_ok bs)"

definition message_ok :: "input_message \<Rightarrow> bool" where
  "message_ok m \<longleftrightarrow>
     im_newest m \<noteq> kNoTick \<and> im_entities m \<noteq> [] \<and> length (im_entities m) \<le> kMaxInputEntities \<and>
     (\<forall>e \<in> set (im_entities m). entity_ok (im_newest m) e)"

lemmas input_caps = kMaxInputBytes_def kMaxInputsPerMessage_def kMaxInputEntities_def

lemma write_input_buffer: "buffer (write_input bs w) = buffer w @ enc_input bs"
  by (simp add: write_input_def enc_input_def wire)

lemma write_inputs_buffer: "buffer (fold write_input bss w) = buffer w @ concat (map enc_input bss)"
  by (induction bss arbitrary: w) (simp_all add: write_input_buffer)

lemma write_entity_buffer: "buffer (write_entity e w) = buffer w @ enc_entity e"
  by (simp add: write_entity_def enc_entity_def write_inputs_buffer wire)

lemma write_entities_buffer: "buffer (fold write_entity es w) = buffer w @ concat (map enc_entity es)"
  by (induction es arbitrary: w) (simp_all add: write_entity_buffer)

lemma encode_input_bytes:
  "encode_input m = enc_u16 kInputMessageId @ enc_u32 (im_newest m) @
     enc_u8 (of_nat (length (im_entities m))) @ concat (map enc_entity (im_entities m))"
  by (simp add: encode_input_def write_entities_buffer wire)

lemma unat_small16: "n < 2 ^ 16 \<Longrightarrow> unat (of_nat n :: u16) = n"
  and unat_small8: "n < 2 ^ 8 \<Longrightarrow> unat (of_nat n :: u8) = n"
  by (simp_all add: unat_of_nat)

lemma sound_if: "sound_read (\<lambda>r. if b then (None, r) else m r)" if "sound_read m"
  using that by (simp add: sound_read_def)

interpretation input_codec: exact_codec enc_input read_input input_ok
proof unfold_locales
  fix bs pre post
  assume "input_ok bs"
  then have "length bs \<le> 256" by (simp add: input_ok_def input_caps)
  then show "read_input (reader_at pre (enc_input bs @ post)) = (Some bs, reader_at (pre @ enc_input bs) post)"
    by (simp add: read_input_def enc_input_def wire unat_small16 input_caps)
next
  show "sound_read read_input"
    using sound_case [OF sound_read_u16, of "\<lambda>n r. if unat n > kMaxInputBytes then (None, r) else read_bytes (unat n) r"]
    by (simp add: read_input_def [abs_def] sound_read_bytes sound_if)
next
  fix pre rest bs r'
  assume "read_input (reader_at pre rest) = (Some bs, r')"
  then obtain n r1 where n: "read_u16 (reader_at pre rest) = (Some n, r1)"
    and le: "unat n \<le> kMaxInputBytes" and b: "read_bytes (unat n) r1 = (Some bs, r')"
    by (auto simp: read_input_def split: prod.splits option.splits if_splits)
  obtain post where p: "rest = enc_u16 n @ post" "r1 = reader_at (pre @ enc_u16 n) post"
    using read_u16_Some [OF n] by auto
  obtain post' where p': "length bs = unat n" "post = bs @ post'"
    "r' = reader_at ((pre @ enc_u16 n) @ bs) post'"
    using read_bytes_Some [OF b [unfolded p(2)]] by auto
  then have "enc_input bs = enc_u16 n @ bs" by (simp add: enc_input_def)
  with p p' le show "input_ok bs \<and> (\<exists>post. rest = enc_input bs @ post \<and> r' = reader_at (pre @ enc_input bs) post)"
    by (simp add: input_ok_def)
qed

lemma read_entity_at:
  assumes "entity_ok newest e"
  shows "read_entity newest (reader_at pre (enc_entity e @ post)) = (Some e, reader_at (pre @ enc_entity e) post)"
proof -
  have n: "unat (of_nat (length (ie_inputs e)) :: u8) = length (ie_inputs e)"
    using assms by (simp add: entity_ok_def unat_small8 input_caps)
  have "of_nat (length (ie_inputs e)) \<noteq> (0 :: u8)"
    using n assms by (metis entity_ok_def length_0_conv unsigned_0)
  with n assms show ?thesis
    using input_codec.read_n_enc [of "ie_inputs e" "pre @ enc_u32 (ie_id e) @ enc_u8 (of_nat (length (ie_inputs e)))" post]
    by (simp add: read_entity_def enc_entity_def wire entity_ok_def)
qed

lemma read_entity_Some:
  assumes "read_entity newest (reader_at pre rest) = (Some e, r')"
  shows "entity_ok newest e \<and> (\<exists>post. rest = enc_entity e @ post \<and> r' = reader_at (pre @ enc_entity e) post)"
proof -
  obtain i r1 n r2 where i: "read_u32 (reader_at pre rest) = (Some i, r1)" and n: "read_u8 r1 = (Some n, r2)"
    and caps: "i \<noteq> kInvalidNetId" "n \<noteq> 0" "unat n \<le> kMaxInputsPerMessage" "unat n \<le> unat newest"
    and ins: "read_n (unat n) read_input r2 = (Some (ie_inputs e), r')" and e: "e = \<lparr>ie_id = i, ie_inputs = ie_inputs e\<rparr>"
    using assms by (auto simp: read_entity_def Let_def split: prod.splits option.splits if_splits)
  obtain p1 where p1: "rest = enc_u32 i @ p1" "r1 = reader_at (pre @ enc_u32 i) p1"
    using read_u32_Some [OF i] by auto
  obtain p2 where p2: "p1 = enc_u8 n @ p2" "r2 = reader_at ((pre @ enc_u32 i) @ enc_u8 n) p2"
    using read_u8_Some [OF n [unfolded p1(2)]] by auto
  obtain post where p3: "length (ie_inputs e) = unat n" "\<forall>bs \<in> set (ie_inputs e). input_ok bs"
    "p2 = concat (map enc_input (ie_inputs e)) @ post"
    "r' = reader_at (((pre @ enc_u32 i) @ enc_u8 n) @ concat (map enc_input (ie_inputs e))) post"
    using input_codec.read_n_exact [OF ins [unfolded p2(2)]] by auto
  have "of_nat (length (ie_inputs e)) = n" "ie_id e = i" using p3(1) e by (simp, metis input_entity.select_convs(1))
  then have "enc_entity e = enc_u32 i @ enc_u8 n @ concat (map enc_input (ie_inputs e))"
    by (simp add: enc_entity_def)
  moreover have "entity_ok newest e"
    using caps p3(1,2) \<open>ie_id e = i\<close> by (auto simp: entity_ok_def unsigned_eq_0_iff)
  ultimately show ?thesis using p1(1) p2(1) p3(3,4) by simp
qed

lemma sound_read_entity: "sound_read (read_entity newest)"
proof (rule sound_readI)
  fix r e r'
  assume *: "read_entity newest r = (e, r')"
  obtain i r1 where i: "read_u32 r = (i, r1)" by fastforce
  obtain n r2 where n: "read_u8 r1 = (n, r2)" by fastforce
  have le: "reader_le r r2"
    using sound_readD [OF sound_read_u32 i] sound_readD [OF sound_read_u8 n] by (rule reader_le_trans)
  have "reader_le r2 r'"
    using * sound_readD [OF sound_read_n [OF input_codec.dec_sound]]
    by (auto simp: read_entity_def i n split: option.splits if_splits prod.splits)
  with le show "reader_le r r'" by (rule reader_le_trans)
qed

interpretation entity_codec: exact_codec enc_entity "read_entity newest" "entity_ok newest" for newest
  by unfold_locales (simp_all add: read_entity_at read_entity_Some sound_read_entity)

subsection \<open>Properties\<close>

text \<open>
  C24: the server reads back every Input message a client can send within the caps, and it accepts
  nothing else: a payload it decodes is, byte for byte, the encoding of the message it gives, which
  is within every cap.
\<close>

theorem input_decode_iff:
  "(\<exists>r'. decode_input (snd (read_u16 (new_reader (enc_u16 kInputMessageId @ bs)))) = (Some m, r')) \<longleftrightarrow>
     message_ok m \<and> encode_input m = enc_u16 kInputMessageId @ bs"
proof -
  let ?h = "enc_u16 kInputMessageId"
  have start: "snd (read_u16 (new_reader (?h @ bs))) = reader_at ?h bs"
    by (simp add: new_reader_at wire)
  show ?thesis
  proof
    assume "\<exists>r'. decode_input (snd (read_u16 (new_reader (?h @ bs)))) = (Some m, r')"
    then obtain t r1 n r2 r' where t: "read_u32 (reader_at ?h bs) = (Some t, r1)" and n: "read_u8 r1 = (Some n, r2)"
      and caps: "t \<noteq> kNoTick" "n \<noteq> 0" "unat n \<le> kMaxInputEntities"
      and es: "read_n (unat n) (read_entity t) r2 = (Some (im_entities m), r')"
      and m: "im_newest m = t" and fin: "remaining r' = 0"
      unfolding start by (auto simp: decode_input_def Let_def split: prod.splits option.splits if_splits)
    obtain p1 where p1: "bs = enc_u32 t @ p1" "r1 = reader_at (?h @ enc_u32 t) p1"
      using read_u32_Some [OF t] by auto
    obtain p2 where p2: "p1 = enc_u8 n @ p2" "r2 = reader_at ((?h @ enc_u32 t) @ enc_u8 n) p2"
      using read_u8_Some [OF n [unfolded p1(2)]] by auto
    obtain post where p3: "length (im_entities m) = unat n" "\<forall>e \<in> set (im_entities m). entity_ok t e"
      "p2 = concat (map enc_entity (im_entities m)) @ post"
      "r' = reader_at (((?h @ enc_u32 t) @ enc_u8 n) @ concat (map enc_entity (im_entities m))) post"
      using entity_codec.read_n_exact [OF es [unfolded p2(2)]] by auto
    have "post = []" using fin p3(4) by simp
    moreover have "of_nat (length (im_entities m)) = n" using p3(1) by simp
    ultimately show "message_ok m \<and> encode_input m = ?h @ bs"
      using caps m p1(1) p2(1) p3 by (auto simp: message_ok_def encode_input_bytes unsigned_eq_0_iff)
  next
    assume a: "message_ok m \<and> encode_input m = ?h @ bs"
    then have bs: "bs = enc_u32 (im_newest m) @ enc_u8 (of_nat (length (im_entities m))) @
        concat (map enc_entity (im_entities m))"
      by (simp add: encode_input_bytes)
    have n: "unat (of_nat (length (im_entities m)) :: u8) = length (im_entities m)"
      using a by (simp add: message_ok_def unat_small8 input_caps)
    then have "of_nat (length (im_entities m)) \<noteq> (0 :: u8)"
      using a by (metis message_ok_def length_0_conv unsigned_0)
    then show "\<exists>r'. decode_input (snd (read_u16 (new_reader (?h @ bs)))) = (Some m, r')"
      unfolding start unfolding bs
      using a n entity_codec.read_n_enc_end [of "im_entities m" "im_newest m"]
      by (simp add: decode_input_def wire message_ok_def)
  qed
qed

theorem input_decode_iff_witness:
  "\<exists>r'. decode_input (snd (read_u16 (new_reader (encode_input
     \<lparr>im_newest = 5, im_entities = [\<lparr>ie_id = 3, ie_inputs = [[1, 2], []]\<rparr>]\<rparr>)))) =
   (Some \<lparr>im_newest = 5, im_entities = [\<lparr>ie_id = 3, ie_inputs = [[1, 2], []]\<rparr>]\<rparr>, r')"
  using input_decode_iff [of "drop 2 (encode_input
     \<lparr>im_newest = 5, im_entities = [\<lparr>ie_id = 3, ie_inputs = [[1, 2], []]\<rparr>]\<rparr>)"
     "\<lparr>im_newest = 5, im_entities = [\<lparr>ie_id = 3, ie_inputs = [[1, 2], []]\<rparr>]\<rparr>"]
  by (simp add: encode_input_bytes message_ok_def entity_ok_def input_ok_def input_caps kNoTick_def
      kInvalidNetId_def)

end
