(* ===== verification/Pacing.thy ===== *)
theory Pacing
  imports Net_Types Float_Arith
begin

section \<open>The client's two clocks\<close>

text \<open>
  \<^verbatim>\<open>src/net/input_lead.cpp\<close> keeps a predicting client's tick ahead of the server by steering the
  rate of its fixed step; \<^verbatim>\<open>src/net/snapshot_clock.cpp\<close> estimates the server's time from the
  snapshots that arrive. Their \<open>double\<close> arithmetic is an argument. What they promise is proved for
  exact arithmetic: the rates stay within their limits, and the estimates stay bounded and never
  swing through zero.
\<close>

subsection \<open>InputLead\<close>

definition kHistory :: nat where "kHistory = 256"
definition kSnapTicks :: int where "kSnapTicks = 8"
definition kSnapReports :: nat where "kSnapReports = 2"

record 'd input_lead =
  il_error :: 'd
  il_gained :: 'd
  il_gained_at :: "'d list"
  il_hold :: tick
  il_far :: nat

definition new_lead :: "'d float_arith \<Rightarrow> 'd input_lead" where
  "new_lead F = \<lparr>il_error = f_int F 0, il_gained = f_int F 0,
     il_gained_at = replicate kHistory (f_int F 0), il_hold = kNoTick, il_far = 0\<rparr>"

definition lead_adjust :: "'d float_arith \<Rightarrow> 'd input_lead \<Rightarrow> 'd" where
  "lead_adjust F il =
     f_clamp F (f_mul F (il_error il) (f_frac F 5 100)) (f_neg F (f_frac F 1 10)) (f_frac F 1 10)"

definition gained_since :: "'d float_arith \<Rightarrow> tick \<Rightarrow> tick \<Rightarrow> 'd input_lead \<Rightarrow> 'd" where
  "gained_since F t predicted il =
     (if t \<ge> predicted \<or> unat (predicted - t) \<ge> kHistory then f_int F 0
      else f_sub F (il_gained il) (il_gained_at il ! (unat t mod kHistory)))"

definition lead_shortfall :: "'d float_arith \<Rightarrow> tick \<Rightarrow> int \<Rightarrow> int \<Rightarrow> tick \<Rightarrow> 'd input_lead \<Rightarrow> 'd" where
  "lead_shortfall F snapshot_tick slack target predicted il =
     (let reported = uint snapshot_tick + slack;
          in_flight = (if reported > 0 then gained_since F (word_of_int reported) predicted il else f_int F 0)
      in f_sub F (f_int F (target - slack)) in_flight)"

definition lead_smooth :: "'d float_arith \<Rightarrow> 'd \<Rightarrow> 'd input_lead \<Rightarrow> 'd input_lead" where
  "lead_smooth F shortfall il =
     (let clamped = f_clamp F shortfall (f_neg F (f_int F kSnapTicks)) (f_int F kSnapTicks)
      in il\<lparr>il_error := f_add F (il_error il) (f_mul F (f_sub F clamped (il_error il)) (f_frac F 2 10))\<rparr>)"

definition lead_observe ::
  "'d float_arith \<Rightarrow> tick \<Rightarrow> int \<Rightarrow> int \<Rightarrow> tick \<Rightarrow> 'd input_lead \<Rightarrow> int \<times> 'd input_lead" where
  "lead_observe F snapshot_tick slack target predicted il =
     (if il_hold il \<noteq> kNoTick \<and> snapshot_tick < il_hold il then (0, il)
      else
        (let il1 = il\<lparr>il_hold := kNoTick\<rparr>;
             shortfall = lead_shortfall F snapshot_tick slack target predicted il1
         in if f_less F (f_int F kSnapTicks) shortfall then
              (if Suc (il_far il1) \<ge> kSnapReports then
                 (let jump = f_trunc F (f_add F shortfall (f_frac F 1 2))
                  in (jump, il1\<lparr>il_error := f_int F 0, il_far := 0,
                        il_gained_at := replicate kHistory (il_gained il1),
                        il_hold := predicted + word_of_int jump\<rparr>))
               else (0, lead_smooth F shortfall (il1\<lparr>il_far := Suc (il_far il1)\<rparr>)))
            else (0, lead_smooth F shortfall (il1\<lparr>il_far := 0\<rparr>))))"

definition lead_advance :: "'d float_arith \<Rightarrow> tick \<Rightarrow> 'd input_lead \<Rightarrow> 'd input_lead" where
  "lead_advance F predicted il =
     (let step = lead_adjust F il; gained = f_add F (il_gained il) step
      in il\<lparr>il_gained := gained, il_gained_at := (il_gained_at il)[unat predicted mod kHistory := gained],
           il_error := f_sub F (il_error il) step\<rparr>)"

definition lead_rate :: "'d float_arith \<Rightarrow> 'd input_lead \<Rightarrow> 'd" where
  "lead_rate F il = f_single F (f_add F (f_int F 1) (lead_adjust F il))"

definition lead_reset :: "'d float_arith \<Rightarrow> 'd input_lead \<Rightarrow> 'd input_lead" where
  "lead_reset F il = il\<lparr>il_error := f_int F 0, il_gained := f_int F 0,
     il_gained_at := replicate kHistory (f_int F 0), il_hold := kNoTick, il_far := 0\<rparr>"

text \<open>The operations in any order, with the jumps \<open>observe\<close> asked for.\<close>

datatype lead_event = Report tick int int tick | FixedStep tick | LeadReset

fun lead_run :: "'d float_arith \<Rightarrow> lead_event list \<Rightarrow> 'd input_lead \<Rightarrow> int list \<times> 'd input_lead" where
  "lead_run F [] il = ([], il)"
| "lead_run F (Report t slack target p # es) il =
     (let (j, il1) = lead_observe F t slack target p il; (js, il2) = lead_run F es il1 in (j # js, il2))"
| "lead_run F (FixedStep p # es) il = lead_run F es (lead_advance F p il)"
| "lead_run F (LeadReset # es) il = lead_run F es (lead_reset F il)"

definition lead_inv :: "rat input_lead \<Rightarrow> bool" where
  "lead_inv il \<longleftrightarrow> \<bar>il_error il\<bar> \<le> 8 \<and> length (il_gained_at il) = kHistory \<and> il_far il < kSnapReports"

lemma lead_adjust_rat:
  "lead_adjust rat_arith il = max (- 1 / 10) (min (il_error il / 20) (1 / 10))"
  by (simp add: lead_adjust_def rat_clamp f_consts)

lemma lead_smooth_inv:
  assumes "\<bar>il_error il\<bar> \<le> 8"
  shows "\<bar>il_error (lead_smooth rat_arith s il)\<bar> \<le> 8"
  using assms
  by (auto simp: lead_smooth_def rat_clamp f_consts kSnapTicks_def Let_def abs_le_iff max_def min_def
      field_simps)

lemma lead_smooth_sel [simp]:
  "il_gained_at (lead_smooth F s il) = il_gained_at il" "il_far (lead_smooth F s il) = il_far il"
  by (simp_all add: lead_smooth_def Let_def)

lemma rat_trunc_pos: "0 \<le> x \<Longrightarrow> rat_trunc x = \<lfloor>x\<rfloor>"
  by (simp add: rat_trunc_def)

lemma lead_observe_inv:
  assumes "lead_inv il"
  shows "lead_inv (snd (lead_observe rat_arith t slack target p il))"
    and "fst (lead_observe rat_arith t slack target p il) = 0 \<or> fst (lead_observe rat_arith t slack target p il) > kSnapTicks - 1"
proof -
  show "lead_inv (snd (lead_observe rat_arith t slack target p il))"
    using assms lead_smooth_inv
    by (auto simp: lead_observe_def lead_inv_def Let_def kSnapReports_def)
  have "x > of_int kSnapTicks \<Longrightarrow> rat_trunc (x + 1 / 2) > kSnapTicks - 1" for x :: rat
    by (simp add: kSnapTicks_def rat_trunc_def floor_less_iff less_floor_iff)
  then show "fst (lead_observe rat_arith t slack target p il) = 0 \<or> fst (lead_observe rat_arith t slack target p il) > kSnapTicks - 1"
    by (auto simp: lead_observe_def Let_def f_consts)
qed

lemma lead_advance_inv: "lead_inv il \<Longrightarrow> lead_inv (lead_advance rat_arith p il)"
  by (auto simp: lead_advance_def lead_inv_def Let_def lead_adjust_rat abs_le_iff max_def min_def)

lemma lead_reset_inv: "lead_inv (lead_reset rat_arith il)"
  by (simp add: lead_reset_def lead_inv_def kSnapReports_def)

lemma lead_run_inv:
  "lead_inv il \<Longrightarrow> lead_inv (snd (lead_run rat_arith es il)) \<and>
     (\<forall>j \<in> set (fst (lead_run rat_arith es il)). j = 0 \<or> j \<ge> kSnapTicks)"
proof (induction es arbitrary: il)
  case Nil
  then show ?case by simp
next
  case (Cons e es)
  show ?case
  proof (cases e)
    case (Report t slack target p)
    then show ?thesis
      using Cons.IH [OF lead_observe_inv(1) [OF Cons.prems, of t slack target p]]
        lead_observe_inv(2) [OF Cons.prems, of t slack target p]
      by (auto simp: Let_def split: prod.splits)
  qed (use Cons lead_advance_inv lead_reset_inv in auto)
qed

subsection \<open>SnapshotClock\<close>

record 'd snapshot_clock =
  ck_time :: 'd
  ck_error :: 'd
  ck_started :: bool

definition new_clock :: "'d float_arith \<Rightarrow> 'd snapshot_clock" where
  "new_clock F = \<lparr>ck_time = f_int F 0, ck_error = f_int F 0, ck_started = False\<rparr>"

definition clock_observe :: "'d float_arith \<Rightarrow> 'd \<Rightarrow> 'd snapshot_clock \<Rightarrow> 'd snapshot_clock" where
  "clock_observe F seconds ck =
     (if \<not> ck_started ck then ck\<lparr>ck_time := seconds, ck_error := f_int F 0, ck_started := True\<rparr>
      else
        (let err = f_sub F seconds (ck_time ck)
         in if f_less F (f_frac F 1 4) (f_abs F err) then ck\<lparr>ck_time := seconds, ck_error := f_int F 0\<rparr>
            else ck\<lparr>ck_error := f_add F (ck_error ck) (f_mul F (f_sub F err (ck_error ck)) (f_frac F 1 10))\<rparr>))"

definition clock_advance :: "'d float_arith \<Rightarrow> 'd \<Rightarrow> 'd snapshot_clock \<Rightarrow> 'd snapshot_clock" where
  "clock_advance F dt ck =
     (if \<not> ck_started ck \<or> f_less F dt (f_int F 0) \<or> f_eq F dt (f_int F 0) then ck
      else
        (let adjust = f_clamp F (f_mul F (ck_error ck) (f_int F 2)) (f_neg F (f_frac F 5 100)) (f_frac F 5 100)
         in ck\<lparr>ck_time := f_add F (ck_time ck) (f_mul F dt (f_add F (f_int F 1) adjust)),
               ck_error := f_sub F (ck_error ck) (f_mul F dt adjust)\<rparr>))"

definition clock_reset :: "'d float_arith \<Rightarrow> 'd snapshot_clock \<Rightarrow> 'd snapshot_clock" where
  "clock_reset F ck = ck\<lparr>ck_time := f_int F 0, ck_error := f_int F 0, ck_started := False\<rparr>"

datatype 'd clock_event = Snapshot 'd | Frame 'd

fun clock_step :: "'d float_arith \<Rightarrow> 'd clock_event \<Rightarrow> 'd snapshot_clock \<Rightarrow> 'd snapshot_clock" where
  "clock_step F (Snapshot s) ck = clock_observe F s ck"
| "clock_step F (Frame dt) ck = clock_advance F dt ck"

definition clock_inv :: "rat snapshot_clock \<Rightarrow> bool" where
  "clock_inv ck \<longleftrightarrow> \<bar>ck_error ck\<bar> \<le> 1 / 4"

lemma smooth_within:
  fixes e x :: rat
  assumes "\<bar>e\<bar> \<le> b" and "\<bar>x\<bar> \<le> b"
  shows "\<bar>e + (x - e) / 10\<bar> \<le> b"
proof -
  have "e + (x - e) / 10 = 9 / 10 * e + x / 10" by (simp add: field_simps)
  with assms show ?thesis by (simp add: abs_le_iff)
qed

lemma clock_observe_inv: "clock_inv ck \<Longrightarrow> clock_inv (clock_observe rat_arith s ck)"
proof (cases "ck_started ck \<and> \<bar>s - ck_time ck\<bar> \<le> 1 / 4")
  case True
  moreover assume "clock_inv ck"
  ultimately have "\<bar>ck_error ck + (s - ck_time ck - ck_error ck) / 10\<bar> \<le> 1 / 4"
    by (intro smooth_within) (simp_all add: clock_inv_def)
  with True show ?thesis
    by (auto simp: clock_observe_def clock_inv_def Let_def f_consts)
next
  case False
  then show ?thesis
    by (auto simp: clock_observe_def clock_inv_def Let_def f_consts abs_le_iff)
qed

lemma clock_adjust_rat:
  "f_clamp rat_arith (e * 2) (f_neg rat_arith (f_frac rat_arith 5 100)) (f_frac rat_arith 5 100) =
     max (- 1 / 20) (min (e * 2) (1 / 20))"
  by (simp add: rat_clamp f_consts)

lemma shrink:
  fixes e dt :: rat
  assumes "0 < dt" and "dt \<le> 1 / 2"
  shows "\<bar>e - dt * max (- 1 / 20) (min (e * 2) (1 / 20))\<bar> \<le> \<bar>e\<bar>"
proof -
  let ?a = "max (- 1 / 20) (min (e * 2) (1 / 20))"
  have dt2: "dt * (e * 2) \<le> e" if "0 \<le> e" using mult_right_mono [of dt "1 / 2" "e * 2"] assms that by simp
  have dt3: "e \<le> dt * (e * 2)" if "e \<le> 0"
    using mult_right_mono_neg [of dt "1 / 2" "e * 2"] assms that by simp
  show ?thesis
  proof (cases "0 \<le> e")
    case True
    then have a: "0 \<le> ?a" "?a \<le> e * 2" by auto
    then have "0 \<le> dt * ?a" "dt * ?a \<le> dt * (e * 2)" using assms by (auto intro: mult_left_mono)
    with dt2 [OF True] True show ?thesis by simp
  next
    case False
    then have a: "?a \<le> 0" "e * 2 \<le> ?a" by auto
    then have "dt * ?a \<le> 0" "dt * (e * 2) \<le> dt * ?a" using assms
      by (auto intro: mult_left_mono simp: mult_le_0_iff)
    moreover have "e \<le> dt * (e * 2)" using dt3 False by simp
    ultimately show ?thesis using False by linarith
  qed
qed

lemma clock_advance_inv:
  "clock_inv ck \<Longrightarrow> dt \<le> 1 / 2 \<Longrightarrow> clock_inv (clock_advance rat_arith dt ck)"
  using shrink [of dt "ck_error ck"]
  by (auto simp: clock_advance_def clock_inv_def Let_def clock_adjust_rat not_less)

lemma clock_advance_time:
  "ck_started ck \<Longrightarrow> 0 \<le> dt \<Longrightarrow>
     dt * (19 / 20) \<le> ck_time (clock_advance rat_arith dt ck) - ck_time ck \<and>
     ck_time (clock_advance rat_arith dt ck) - ck_time ck \<le> dt * (21 / 20)"
proof (cases "dt = 0")
  case True
  then show ?thesis by (simp add: clock_advance_def)
next
  case False
  let ?a = "max (- 1 / 20) (min (ck_error ck * 2) (1 / 20)) :: rat"
  assume "ck_started ck" "0 \<le> dt"
  moreover have "19 / 20 \<le> 1 + ?a" "1 + ?a \<le> 21 / 20" by auto
  ultimately show ?thesis
    using False mult_left_mono [of "19 / 20" "1 + ?a" dt] mult_left_mono [of "1 + ?a" "21 / 20" dt]
    by (simp add: clock_advance_def Let_def clock_adjust_rat)
qed

subsection \<open>Properties\<close>

text \<open>
  C35: whatever reports arrive, and with however many fixed steps between them, the rate the client
  runs its fixed step at stays within 10% of one, the estimate it steers by stays within 8 ticks, a
  fixed step never makes it larger, and a jump is never backward nor below the snap distance.
\<close>

theorem lead_bounded:
  "(let (jumps, il) = lead_run rat_arith es (new_lead rat_arith)
    in 9 / 10 \<le> lead_rate rat_arith il \<and> lead_rate rat_arith il \<le> 11 / 10 \<and>
       \<bar>il_error il\<bar> \<le> of_int kSnapTicks \<and> (\<forall>j \<in> set jumps. j = 0 \<or> j \<ge> kSnapTicks) \<and>
       \<bar>il_error (lead_advance rat_arith p il)\<bar> \<le> \<bar>il_error il\<bar>)"
proof -
  have "lead_inv (new_lead rat_arith)"
    by (simp add: new_lead_def lead_inv_def kSnapReports_def)
  from lead_run_inv [OF this, of es]
  have inv: "lead_inv (snd (lead_run rat_arith es (new_lead rat_arith)))"
    and jumps: "\<forall>j \<in> set (fst (lead_run rat_arith es (new_lead rat_arith))). j = 0 \<or> j \<ge> kSnapTicks"
    by auto
  have rate: "9 / 10 \<le> lead_rate rat_arith il \<and> lead_rate rat_arith il \<le> 11 / 10" for il
    by (auto simp: lead_rate_def lead_adjust_rat)
  have shrinks: "\<bar>il_error (lead_advance rat_arith p il)\<bar> \<le> \<bar>il_error il\<bar>" for il
    by (auto simp: lead_advance_def Let_def lead_adjust_rat abs_le_iff max_def min_def)
  from inv jumps rate shrinks show ?thesis
    by (auto simp: lead_inv_def kSnapTicks_def split: prod.split)
qed

theorem lead_bounded_witness:
  "fst (lead_run rat_arith [Report 100 (-20) 2 110, Report 101 (-20) 2 111] (new_lead rat_arith)) = [0, 22] \<and>
   9 / 10 \<le> lead_rate rat_arith (snd (lead_run rat_arith [Report 100 (-20) 2 110, Report 101 (-20) 2 111] (new_lead rat_arith)))"
proof
  show "fst (lead_run rat_arith [Report 100 (-20) 2 110, Report 101 (-20) 2 111] (new_lead rat_arith)) = [0, 22]"
    by (simp add: lead_observe_def lead_shortfall_def gained_since_def new_lead_def kHistory_def
        kSnapReports_def kSnapTicks_def kNoTick_def Let_def f_consts rat_trunc_def lead_smooth_def rat_clamp floor_eq_iff)
  show "9 / 10 \<le> lead_rate rat_arith (snd (lead_run rat_arith [Report 100 (-20) 2 110, Report 101 (-20) 2 111] (new_lead rat_arith)))"
    using lead_bounded [of "[Report 100 (-20) 2 110, Report 101 (-20) 2 111]" 0]
    by (auto simp: Let_def split: prod.splits)
qed

text \<open>
  Between snapshots the client's estimate of the server's time moves forward with the frame
  clock, 5% faster or slower at most, whatever snapshots came before; and the error it corrects
  stays within the distance above which it would have snapped, for frames of up to half a second.
\<close>

lemma clock_monotone:
  assumes "\<forall>dt. Frame dt \<in> set es \<longrightarrow> dt \<le> 1 / 2" and "0 \<le> dt"
    and "ck = fold (clock_step rat_arith) es (new_clock rat_arith)"
  shows "\<bar>ck_error ck\<bar> \<le> 1 / 4 \<and>
    (ck_started ck \<longrightarrow>
       dt * (19 / 20) \<le> ck_time (clock_advance rat_arith dt ck) - ck_time ck \<and>
       ck_time (clock_advance rat_arith dt ck) - ck_time ck \<le> dt * (21 / 20))"
proof -
  have run: "clock_inv (fold (clock_step rat_arith) fs c)"
    if "clock_inv c" "\<forall>dt. Frame dt \<in> set fs \<longrightarrow> dt \<le> 1 / 2" for fs c
    using that
  proof (induction fs arbitrary: c)
    case Nil
    then show ?case by simp
  next
    case (Cons e fs)
    then have "clock_inv (clock_step rat_arith e c)"
      by (cases e) (auto intro: clock_observe_inv clock_advance_inv)
    with Cons show ?case by simp
  qed
  have "clock_inv (new_clock rat_arith)" by (simp add: clock_inv_def new_clock_def)
  from run [OF this assms(1)] clock_advance_time [of ck dt] assms(2,3)
  show ?thesis by (auto simp: clock_inv_def)
qed

lemma clock_monotone_witness:
  "ck_time (clock_advance rat_arith (1 / 10)
     (fold (clock_step rat_arith) [Snapshot 5, Frame (1 / 60), Snapshot (51 / 10)] (new_clock rat_arith))) -
   ck_time (fold (clock_step rat_arith) [Snapshot 5, Frame (1 / 60), Snapshot (51 / 10)] (new_clock rat_arith))
   \<le> 1 / 10 * (21 / 20)"
  using clock_monotone [of "[Snapshot 5, Frame (1 / 60), Snapshot (51 / 10)]" "1 / 10", OF _ _ refl]
  by (simp add: clock_observe_def clock_advance_def new_clock_def Let_def f_consts rat_clamp)

end
