(* ===== verification/Slot_Bits.thy ===== *)
theory Slot_Bits
  imports Wind_Prelude
begin

section \<open>Slot masks\<close>

text \<open>
  The 32-bit masks of the replication code, one bit per component slot, and the two standard
  library functions used on them (\<open>std::popcount\<close>, \<open>std::countr_zero\<close>). \<open>bit_slots\<close> is the loop
  \<open>for (bits = mask; bits != 0; bits &= bits - 1)\<close> over the slots of a mask; it visits the set bits
  in ascending order.
\<close>

definition popcount :: "u32 \<Rightarrow> nat" where
  "popcount m = length (filter (bit m) [0..<32])"

definition countr_zero :: "u32 \<Rightarrow> nat" where
  "countr_zero m = length (takeWhile (\<lambda>n. \<not> bit m n) [0..<32])"

definition slot_bit :: "nat \<Rightarrow> u32" where
  "slot_bit s = push_bit s 1"

lemma bit_slot_bit [simp]: "bit (slot_bit s) n \<longleftrightarrow> n = s \<and> s < 32"
  by (simp only: slot_bit_def bit_push_bit_iff possible_bit_word) (auto simp: bit_1_iff)

lemma bit_u32: "bit (m :: u32) n \<Longrightarrow> n < 32"
  using bit_imp_le_length [of m n] by simp

lemma mask_eqI: "(\<And>n. n < 32 \<Longrightarrow> bit a n = bit b n) \<Longrightarrow> a = (b :: u32)"
  by (rule bit_eqI) (use bit_u32 in blast)

lemma has_slot: "s < 32 \<Longrightarrow> and m (slot_bit s) \<noteq> 0 \<longleftrightarrow> bit m s"
  by (metis and_exp_eq_0_iff_not_bit push_bit_of_1 slot_bit_def)

lemma mask_nonzero: "m \<noteq> (0 :: u32) \<longleftrightarrow> (\<exists>n < 32. bit m n)"
  by (metis bit_0_eq bit_u32 bot_apply mask_eqI bot_bool_def)

lemma countr_zero_less:
  assumes "m \<noteq> 0"
  shows "countr_zero m < 32" and "bit m (countr_zero m)" and "\<And>n. n < countr_zero m \<Longrightarrow> \<not> bit m n"
proof -
  obtain n where n: "n < 32" "bit m n" using assms by (auto simp: mask_nonzero)
  have "length (takeWhile (\<lambda>n. \<not> bit m n) [0..<32]) < length [0..<32]"
  proof (rule ccontr)
    assume "\<not> ?thesis"
    then have "takeWhile (\<lambda>n. \<not> bit m n) [0..<32] = [0..<32]"
      by (metis length_takeWhile_le nle_le not_less takeWhile_eq_take take_all)
    then have "\<forall>k \<in> set [0..<32]. \<not> bit m k" by (metis set_takeWhileD)
    with n show False by simp
  qed
  then show l: "countr_zero m < 32" by (simp add: countr_zero_def)
  have "\<not> \<not> bit m ([0..<32] ! countr_zero m)"
    unfolding countr_zero_def by (rule nth_length_takeWhile) (use l countr_zero_def in simp)
  then show "bit m (countr_zero m)" using l by simp
  show "\<not> bit m k" if "k < countr_zero m" for k
  proof -
    have "\<not> bit m (takeWhile (\<lambda>n. \<not> bit m n) [0..<32] ! k)"
      using that nth_mem [of k "takeWhile (\<lambda>n. \<not> bit m n) [0..<32]"] set_takeWhileD
      unfolding countr_zero_def by metis
    then show ?thesis using that l by (simp add: countr_zero_def takeWhile_nth)
  qed
qed

text \<open>\<open>bits & (bits - 1)\<close> clears the lowest set bit.\<close>

lemma clear_lowest:
  assumes "m \<noteq> (0 :: u32)"
  shows "bit (and m (m - 1)) n \<longleftrightarrow> bit m n \<and> n \<noteq> countr_zero m"
proof -
  let ?k = "countr_zero m"
  note k = countr_zero_less [OF assms]
  define p where "p = push_bit (Suc ?k) (drop_bit (Suc ?k) m)"
  have bp: "bit p j \<longleftrightarrow> ?k < j \<and> bit m j" for j
    unfolding p_def
    by (simp only: bit_push_bit_iff possible_bit_word bit_drop_bit_eq comp_def) (auto dest: bit_u32)
  have "m = or p (slot_bit ?k)"
  proof (rule mask_eqI)
    show "bit m n = bit (or p (slot_bit ?k)) n" for n
      using bp [of n] k(1,2) k(3) [of n] by (cases n ?k rule: linorder_cases) (auto simp: bit_or_iff)
  qed
  also have "\<dots> = p + slot_bit ?k"
    by (rule disjunctive_add [symmetric]) (use bp in auto)
  finally have "m - 1 = p + (slot_bit ?k - 1)" by (simp add: algebra_simps)
  also have "slot_bit ?k - 1 = mask ?k" by (simp add: slot_bit_def mask_eq_exp_minus_1)
  also have "p + mask ?k = or p (mask ?k)"
    by (rule disjunctive_add) (use bp in \<open>auto simp: bit_mask_iff\<close>)
  finally have "bit (m - 1) n \<longleftrightarrow> bit p n \<or> n < ?k"
    using k(1) by (auto simp: bit_or_iff bit_mask_iff)
  then show ?thesis using bp k by (auto simp: bit_and_iff not_less order.order_iff_strict)
qed

lemma clear_lowest_less: "m \<noteq> (0 :: u32) \<Longrightarrow> unat (and m (m - 1)) < unat m"
proof -
  assume m: "m \<noteq> 0"
  have "and m (m - 1) \<le> m" by (simp add: word_and_le2)
  moreover have "and m (m - 1) \<noteq> m"
    using clear_lowest [OF m, of "countr_zero m"] countr_zero_less(2) [OF m] by metis
  ultimately show ?thesis by (simp add: word_less_nat_alt word_le_nat_alt word_unat_eq_iff)
qed

function bit_slots :: "u32 \<Rightarrow> nat list" where
  "bit_slots bits = (if bits = 0 then [] else countr_zero bits # bit_slots (and bits (bits - 1)))"
  by auto
termination
  by (relation "measure unat") (auto intro: clear_lowest_less)

declare bit_slots.simps [simp del]

lemma upt_split: "k \<le> n \<Longrightarrow> [0..<n] = [0..<k] @ [k..<n]"
  by (metis add.left_neutral le_add_diff_inverse le0 upt_add_eq_append)

lemma upt_split_at: "k < n \<Longrightarrow> [0..<n] = [0..<k] @ k # [Suc k..<n]"
  using upt_split [of k n] upt_conv_Cons [of k n] by simp

lemma filter_first:
  assumes "k < n" and "P k" and "\<And>j. j < k \<Longrightarrow> \<not> P j"
  shows "filter P [0..<n] = k # filter (\<lambda>j. P j \<and> j \<noteq> k) [0..<n]"
proof -
  have s: "[0..<n] = [0..<k] @ k # [Suc k..<n]"
    using assms(1) by (rule upt_split_at)
  have a: "filter P [0..<k] = []" "filter (\<lambda>j. P j \<and> j \<noteq> k) [0..<k] = []"
    using assms(3) by (auto simp: filter_empty_conv)
  have b: "filter (\<lambda>j. P j \<and> j \<noteq> k) [Suc k..<n] = filter P [Suc k..<n]"
    by (rule filter_cong) auto
  show ?thesis unfolding s using a b assms(2) by simp
qed

lemma bit_slots_filter: "bit_slots m = filter (bit m) [0..<32]"
proof (induction m rule: bit_slots.induct)
  case (1 m)
  show ?case
  proof (cases "m = 0")
    case True
    then show ?thesis by (simp add: bit_slots.simps)
  next
    case False
    have "bit_slots m = countr_zero m # filter (bit (and m (m - 1))) [0..<32]"
      using 1 False by (subst bit_slots.simps) simp
    also have "filter (bit (and m (m - 1))) [0..<32] = filter (\<lambda>j. bit m j \<and> j \<noteq> countr_zero m) [0..<32]"
      by (rule filter_cong) (simp_all add: clear_lowest [OF False])
    also have "countr_zero m # \<dots> = filter (bit m) [0..<32]"
      by (rule filter_first [symmetric]) (use countr_zero_less [OF False] in auto)
    finally show ?thesis .
  qed
qed

lemma bit_slots_facts:
  "set (bit_slots m) = {n. bit m n}" "distinct (bit_slots m)" "length (bit_slots m) = popcount m"
  "sorted (bit_slots m)"
  by (auto simp: bit_slots_filter popcount_def dest: bit_u32 intro: sorted_wrt_filter)

text \<open>\<open>popcount(mask & ((1 << slot) - 1))\<close> is the place of the slot among those of the mask.\<close>

definition slot_index :: "u32 \<Rightarrow> nat \<Rightarrow> nat" where
  "slot_index m s = popcount (and m (slot_bit s - 1))"

lemma slot_index_filter:
  assumes "s < 32"
  shows "slot_index m s = length (filter (bit m) [0..<s])"
proof -
  have "slot_bit s - 1 = mask s" by (simp add: slot_bit_def mask_eq_exp_minus_1)
  then have "bit (and m (slot_bit s - 1)) n \<longleftrightarrow> bit m n \<and> n < s" for n
    by (auto simp: bit_and_iff bit_mask_iff dest: bit_u32)
  moreover have "filter (\<lambda>n. bit m n \<and> n < s) [0..<32] = filter (bit m) [0..<s]"
  proof -
    have s: "[0..<32] = [0..<s] @ [s..<32]" using assms by (intro upt_split) simp
    show ?thesis unfolding s by (auto simp: filter_empty_conv intro!: filter_cong)
  qed
  moreover from calculation(1) have "bit (and m (slot_bit s - 1)) = (\<lambda>n. bit m n \<and> n < s)" by auto
  ultimately show ?thesis by (simp add: slot_index_def popcount_def)
qed

lemma slot_index_less: "bit m s \<Longrightarrow> slot_index m s < popcount m"
proof -
  assume b: "bit m s"
  then have s: "s < 32" by (rule bit_u32)
  have "[0..<32] = [0..<s] @ s # [Suc s..<32]"
    using s by (rule upt_split_at)
  then show ?thesis using b by (simp add: slot_index_filter [OF s] popcount_def)
qed

lemma slot_index_nth: "bit m s \<Longrightarrow> bit_slots m ! slot_index m s = s"
proof -
  assume b: "bit m s"
  then have s: "s < 32" by (rule bit_u32)
  have "[0..<32] = [0..<s] @ s # [Suc s..<32]"
    using s by (rule upt_split_at)
  then show ?thesis using b by (simp add: slot_index_filter [OF s] bit_slots_filter nth_append)
qed

end
