(* ===== verification/Snapshot_State.thy ===== *)
theory Snapshot_State
  imports Net_Types Slot_Bits
begin

section \<open>Replicated state\<close>

text \<open>
  \<^verbatim>\<open>src/net/entity_snapshot.h\<close> and \<^verbatim>\<open>src/net/snapshot_state.h\<close>: an entity's slots are a mask and
  the encoded value of each slot in it, ascending; a state is the list of its entities by id. The
  shared pointer to the values is its values here; where the code compares the pointers, the model
  of that code carries an address beside them. \<open>es_value\<close> and \<open>state_view\<close> are the abstract view: a
  partial map from slots to bytes, and from ids to owners and such maps.
\<close>

record entity_snapshot =
  es_id :: net_id
  es_owner :: peer_id
  es_mask :: u32
  es_blobs :: "bytes list"

definition es_has :: "'a entity_snapshot_scheme \<Rightarrow> nat \<Rightarrow> bool" where
  "es_has e s \<longleftrightarrow> and (es_mask e) (slot_bit s) \<noteq> 0"

definition es_component :: "'a entity_snapshot_scheme \<Rightarrow> nat \<Rightarrow> bytes" where
  "es_component e s = es_blobs e ! slot_index (es_mask e) s"

definition same_values :: "'a entity_snapshot_scheme \<Rightarrow> 'a entity_snapshot_scheme \<Rightarrow> bool" where
  "same_values a b =
     (if es_mask a \<noteq> es_mask b then False
      else if es_mask a = 0 then True
      else es_blobs a = es_blobs b)"

record snapshot_state =
  st_tick :: tick
  st_entities :: "entity_snapshot list"

text \<open>\<open>std::lower_bound\<close>: the first place where the predicate fails, on a range it partitions.\<close>

definition lower_bound :: "('a \<Rightarrow> bool) \<Rightarrow> 'a list \<Rightarrow> nat" where
  "lower_bound P xs = length (takeWhile P xs)"

definition state_find :: "net_id \<Rightarrow> snapshot_state \<Rightarrow> entity_snapshot option" where
  "state_find i st =
     (let k = lower_bound (\<lambda>e. es_id e < i) (st_entities st)
      in if k = length (st_entities st) \<or> es_id (st_entities st ! k) \<noteq> i then None
         else Some (st_entities st ! k))"

subsection \<open>Searching a sorted list\<close>

definition by_key :: "('a \<Rightarrow> 'k :: linorder) \<Rightarrow> 'a list \<Rightarrow> bool" where
  "by_key f xs \<longleftrightarrow> sorted_wrt (<) (map f xs)"

lemma by_key_simps [simp]:
  "by_key f []" "by_key f (x # xs) \<longleftrightarrow> (\<forall>y \<in> set xs. f x < f y) \<and> by_key f xs"
  by (simp_all add: by_key_def)

lemma by_key_distinct: "by_key f xs \<Longrightarrow> distinct (map f xs)"
  by (simp add: by_key_def strict_sorted_iff)

lemma by_key_filter: "by_key f xs \<Longrightarrow> by_key f (filter P xs)"
  by (simp add: by_key_def sorted_wrt_map sorted_wrt_filter)

lemma by_key_nth_eq:
  "by_key f xs \<Longrightarrow> i < length xs \<Longrightarrow> j < length xs \<Longrightarrow> f (xs ! i) = f (xs ! j) \<Longrightarrow> i = j"
  using by_key_distinct by (metis distinct_conv_nth length_map nth_map)

lemma by_key_update:
  "by_key f xs \<Longrightarrow> i < length xs \<Longrightarrow> f y = f (xs ! i) \<Longrightarrow> by_key f (xs[i := y])"
  unfolding by_key_def by (metis list_update_id map_update)

lemma lower_bound_le: "lower_bound P xs \<le> length xs"
  by (simp add: lower_bound_def length_takeWhile_le)

lemma lower_bound_cases:
  "by_key f xs \<Longrightarrow>
     (case find_first (\<lambda>x. f x = k) xs of
        None \<Rightarrow> lower_bound (\<lambda>x. f x < k) xs = length xs \<or> f (xs ! lower_bound (\<lambda>x. f x < k) xs) \<noteq> k
      | Some x \<Rightarrow> lower_bound (\<lambda>x. f x < k) xs < length xs \<and> xs ! lower_bound (\<lambda>x. f x < k) xs = x)"
proof (induction xs)
  case Nil
  then show ?case by (simp add: lower_bound_def)
next
  case (Cons y xs)
  show ?case
  proof (cases "f y < k")
    case True
    have "lower_bound (\<lambda>x. f x < k) (y # xs) = Suc (lower_bound (\<lambda>x. f x < k) xs)"
      using True by (simp add: lower_bound_def)
    with Cons True show ?thesis by (auto split: option.splits)
  next
    case False
    then have "lower_bound (\<lambda>x. f x < k) (y # xs) = 0" by (simp add: lower_bound_def)
    with Cons.prems False show ?thesis
      by (auto simp: find_first_None split: option.splits dest: find_first_Some)
  qed
qed

lemma find_first_by_key:
  "by_key f xs \<Longrightarrow> find_first (\<lambda>x. f x = k) xs = Some x \<longleftrightarrow> x \<in> set xs \<and> f x = k"
  by (induction xs) auto

definition state_ok :: "snapshot_state \<Rightarrow> bool" where
  "state_ok st \<longleftrightarrow> by_key es_id (st_entities st)"

lemma state_find_first: "state_ok st \<Longrightarrow> state_find i st = find_first (\<lambda>e. es_id e = i) (st_entities st)"
  using lower_bound_cases [of es_id "st_entities st" i]
  by (auto simp: state_find_def state_ok_def Let_def split: option.splits dest: find_first_Some)

subsection \<open>The abstract view\<close>

definition es_value :: "'a entity_snapshot_scheme \<Rightarrow> nat \<Rightarrow> bytes option" where
  "es_value e s = (if bit (es_mask e) s then Some (es_component e s) else None)"

definition es_ok :: "'a entity_snapshot_scheme \<Rightarrow> bool" where
  "es_ok e \<longleftrightarrow> length (es_blobs e) = popcount (es_mask e)"

lemma slot_index_of_nth: "i < popcount m \<Longrightarrow> slot_index m (bit_slots m ! i) = i"
proof -
  assume i: "i < popcount m"
  then have mem: "bit m (bit_slots m ! i)"
    using bit_slots_facts(1,3) [of m] nth_mem [of i "bit_slots m"] by simp
  have "bit_slots m ! slot_index m (bit_slots m ! i) = bit_slots m ! i" by (rule slot_index_nth [OF mem])
  with slot_index_less [OF mem] i show ?thesis
    using bit_slots_facts(2,3) [of m] by (simp add: nth_eq_iff_index_eq)
qed

lemma blobs_by_slot: "es_ok e \<Longrightarrow> es_blobs e = map (es_component e) (bit_slots (es_mask e))"
  by (rule nth_equalityI)
    (simp_all add: es_ok_def bit_slots_facts(3) es_component_def slot_index_of_nth)

lemma component_of_blobs:
  "es_mask e = m \<Longrightarrow> es_blobs e = map f (bit_slots m) \<Longrightarrow> bit m s \<Longrightarrow> es_component e s = f s"
  by (simp add: es_component_def bit_slots_facts(3) slot_index_less slot_index_nth)

lemma ok_of_blobs: "es_mask e = m \<Longrightarrow> es_blobs e = map f (bit_slots m) \<Longrightarrow> es_ok e"
  by (simp add: es_ok_def bit_slots_facts(3))

text \<open>The slots and their values determine the mask and the blobs.\<close>

lemma values_ext:
  assumes "es_ok a" and "es_ok b" and "es_value a = es_value b"
  shows "es_mask a = es_mask b" and "es_blobs a = es_blobs b"
proof -
  have v: "es_value a s = es_value b s" for s using assms(3) by simp
  show m: "es_mask a = es_mask b"
  proof (rule mask_eqI)
    show "bit (es_mask a) n = bit (es_mask b) n" for n
      using v [of n] by (simp add: es_value_def split: if_splits)
  qed
  have "es_component a s = es_component b s" if "bit (es_mask a) s" for s
    using v [of s] that m by (simp add: es_value_def)
  then have "map (es_component a) (bit_slots (es_mask a)) = map (es_component b) (bit_slots (es_mask b))"
    using bit_slots_facts(1) m by simp
  then show "es_blobs a = es_blobs b"
    using blobs_by_slot [OF assms(1)] blobs_by_slot [OF assms(2)] by simp
qed

lemma same_values_iff:
  fixes a b :: "'a entity_snapshot_scheme"
  assumes "es_ok a" and "es_ok b"
  shows "same_values a b \<longleftrightarrow> es_value a = es_value b"
proof
  assume s: "same_values a b"
  show "es_value a = es_value b"
  proof (cases "es_mask a = 0")
    case True
    with s show ?thesis by (auto simp: same_values_def es_value_def split: if_splits)
  next
    case False
    with s show ?thesis by (auto simp: same_values_def es_value_def es_component_def split: if_splits)
  qed
next
  assume "es_value a = es_value b"
  from values_ext [OF assms this] show "same_values a b" by (simp add: same_values_def)
qed

type_synonym entity_view = "peer_id \<times> (nat \<Rightarrow> bytes option)"

definition entity_view :: "'a entity_snapshot_scheme \<Rightarrow> entity_view" where
  "entity_view e = (es_owner e, es_value e)"

definition state_view :: "snapshot_state \<Rightarrow> net_id \<Rightarrow> entity_view option" where
  "state_view st i = map_option entity_view (state_find i st)"

end
