(* ===== verification/Snapshot_Codec.thy ===== *)
theory Snapshot_Codec
  imports Snapshot_State Byte_Codec
begin

section \<open>The Snapshot message\<close>

text \<open>
  The wire format of \<^verbatim>\<open>src/net/snapshot_codec.cpp\<close>: \<open>encode_snapshot\<close>, \<open>read_snapshot_header\<close>,
  \<open>decode_snapshot\<close> and the size \<open>snapshot_write_size\<close> foretells. The codec of one record carries
  the two things \<open>decode_snapshot\<close> checks it against (the removed ids and the valid slots).
\<close>

definition kSnapshotHeaderBytes :: nat where "kSnapshotHeaderBytes = 15"
definition kMaxSnapshotBlobBytes :: nat where "kMaxSnapshotBlobBytes = 65535"
definition kMaxSnapshotEntries :: nat where "kMaxSnapshotEntries = 65535"
definition kFlagOwner :: u8 where "kFlagOwner = 1"
definition kFlagRemoved :: u8 where "kFlagRemoved = 2"
definition kSlots :: nat where "kSlots = 32"

record peer_header =
  ph_input_tick :: tick
  ph_input_slack :: int

record 'e snapshot_write =
  sw_entity :: 'e
  sw_write_owner :: bool
  sw_changed :: u32
  sw_lost :: u32

record snapshot_record =
  sr_id :: net_id
  sr_owner :: "peer_id option"
  sr_changed :: u32
  sr_lost :: u32
  sr_blobs :: "bytes list"

record snapshot_delta =
  sd_tick :: tick
  sd_removed :: "net_id list"
  sd_records :: "snapshot_record list"

definition snapshot_write_size :: "'a entity_snapshot_scheme snapshot_write \<Rightarrow> nat" where
  "snapshot_write_size w =
     fold (\<lambda>slot n. n + (2 + length (es_component (sw_entity w) slot))) (bit_slots (sw_changed w))
       (4 + 1 + 4 + (if sw_write_owner w then 8 else 0) + (if sw_lost w \<noteq> 0 then 4 else 0))"

definition write_blob :: "bytes \<Rightarrow> byte_writer \<Rightarrow> byte_writer" where
  "write_blob bs w = append_bytes bs (write_u16 (of_nat (length bs)) w)"

definition write_flags :: "'e snapshot_write \<Rightarrow> u8" where
  "write_flags w =
     or (if sw_write_owner w then kFlagOwner else 0) (if sw_lost w \<noteq> 0 then kFlagRemoved else 0)"

definition write_record :: "'a entity_snapshot_scheme snapshot_write \<Rightarrow> byte_writer \<Rightarrow> byte_writer" where
  "write_record sw w =
     (let e = sw_entity sw;
          w1 = write_u8 (write_flags sw) (write_u32 (es_id e) w);
          w2 = (if sw_write_owner sw then write_u64 (es_owner e) w1 else w1);
          w3 = write_u32 (sw_changed sw) w2;
          w4 = (if sw_lost sw \<noteq> 0 then write_u32 (sw_lost sw) w3 else w3)
      in fold (\<lambda>slot. write_blob (es_component e slot)) (bit_slots (sw_changed sw)) w4)"

definition encode_snapshot ::
  "tick \<Rightarrow> peer_header \<Rightarrow> net_id list \<Rightarrow> 'a entity_snapshot_scheme snapshot_write list \<Rightarrow> bytes" where
  "encode_snapshot t peer removed writes =
     (let w1 = write_i8 (ph_input_slack peer) (write_u32 (ph_input_tick peer)
                 (write_u32 t (write_u16 kSnapshotMessageId new_writer)));
          w2 = fold write_u32 removed (write_u16 (of_nat (length removed)) w1);
          w3 = write_u16 (of_nat (length writes)) w2
      in buffer (fold write_record writes w3))"

definition read_snapshot_header :: "byte_reader \<Rightarrow> (tick \<times> peer_header) option \<times> byte_reader" where
  "read_snapshot_header r =
     (let (t, r1) = read_u32 r; (input_tick, r2) = read_u32 r1; (slack, r3) = read_i8 r2
      in case (t, input_tick, slack) of
           (Some t, Some it, Some s) \<Rightarrow>
             (if t = kNoTick then (None, r3)
              else (Some (t, \<lparr>ph_input_tick = it, ph_input_slack = s\<rparr>), r3))
         | _ \<Rightarrow> (None, r3))"

definition valid_slots :: "nat \<Rightarrow> u32" where
  "valid_slots slot_count = (if slot_count \<ge> kSlots then not 0 else slot_bit slot_count - 1)"

definition read_blob :: "byte_reader \<Rightarrow> bytes option \<times> byte_reader" where
  "read_blob r =
     (case read_u16 r of (None, r') \<Rightarrow> (None, r') | (Some n, r') \<Rightarrow> read_bytes (unat n) r')"

text \<open>An optional field: read when its flag is set; \<open>Some None\<close> is a field that is not there.\<close>

definition read_if :: "bool \<Rightarrow> (byte_reader \<Rightarrow> 'a option \<times> byte_reader) \<Rightarrow> byte_reader \<Rightarrow> 'a option option \<times> byte_reader" where
  "read_if b m r = (if b then apfst (map_option Some) (m r) else (Some None, r))"

definition read_record :: "net_id list \<Rightarrow> nat \<Rightarrow> byte_reader \<Rightarrow> snapshot_record option \<times> byte_reader" where
  "read_record removed slot_count r =
     (let (i, r1) = read_u32 r; (flags, r2) = read_u8 r1
      in case (i, flags) of
           (Some i, Some flags) \<Rightarrow>
             (if i = kInvalidNetId \<or> i \<in> set removed then (None, r2)
              else
                (case read_if (and flags kFlagOwner \<noteq> 0) read_u64 r2 of
                   (None, r3) \<Rightarrow> (None, r3)
                 | (Some owner, r3) \<Rightarrow>
                     (case read_u32 r3 of
                        (None, r4) \<Rightarrow> (None, r4)
                      | (Some changed, r4) \<Rightarrow>
                          (case read_if (and flags kFlagRemoved \<noteq> 0) read_u32 r4 of
                             (None, r5) \<Rightarrow> (None, r5)
                           | (Some lost_field, r5) \<Rightarrow>
                               (let lost = (case lost_field of None \<Rightarrow> 0 | Some l \<Rightarrow> l)
                                in if and changed (not (valid_slots slot_count)) \<noteq> 0 \<or>
                                      and lost (not (valid_slots slot_count)) \<noteq> 0 \<or>
                                      and changed lost \<noteq> 0
                                   then (None, r5)
                                   else (case read_n (length (bit_slots changed)) read_blob r5 of
                                           (None, r6) \<Rightarrow> (None, r6)
                                         | (Some blobs, r6) \<Rightarrow>
                                             (Some \<lparr>sr_id = i, sr_owner = owner, sr_changed = changed,
                                                sr_lost = lost, sr_blobs = blobs\<rparr>, r6)))))))
         | _ \<Rightarrow> (None, r2))"

definition decode_snapshot :: "tick \<Rightarrow> nat \<Rightarrow> byte_reader \<Rightarrow> snapshot_delta option \<times> byte_reader" where
  "decode_snapshot t slot_count r =
     (case read_u16 r of
        (None, r1) \<Rightarrow> (None, r1)
      | (Some removed_count, r1) \<Rightarrow>
          (case read_n (unat removed_count) read_u32 r1 of
             (None, r2) \<Rightarrow> (None, r2)
           | (Some removed, r2) \<Rightarrow>
               (case read_u16 r2 of
                  (None, r3) \<Rightarrow> (None, r3)
                | (Some count, r3) \<Rightarrow>
                    (case read_n (unat count) (read_record removed slot_count) r3 of
                       (None, r4) \<Rightarrow> (None, r4)
                     | (Some records, r4) \<Rightarrow>
                         (if \<not> rd_ok r4 \<or> remaining r4 \<noteq> 0 then (None, r4)
                          else (Some \<lparr>sd_tick = t, sd_removed = removed, sd_records = records\<rparr>, r4))))))"

subsection \<open>Codecs of the parts\<close>

definition enc_blob :: "bytes \<Rightarrow> bytes" where
  "enc_blob bs = enc_u16 (of_nat (length bs)) @ bs"

definition record_flags :: "snapshot_record \<Rightarrow> u8" where
  "record_flags sr =
     or (if sr_owner sr \<noteq> None then kFlagOwner else 0) (if sr_lost sr \<noteq> 0 then kFlagRemoved else 0)"

definition enc_record :: "snapshot_record \<Rightarrow> bytes" where
  "enc_record sr =
     enc_u32 (sr_id sr) @ enc_u8 (record_flags sr) @
     (case sr_owner sr of None \<Rightarrow> [] | Some p \<Rightarrow> enc_u64 p) @ enc_u32 (sr_changed sr) @
     (if sr_lost sr \<noteq> 0 then enc_u32 (sr_lost sr) else []) @ concat (map enc_blob (sr_blobs sr))"

definition record_ok :: "net_id list \<Rightarrow> nat \<Rightarrow> snapshot_record \<Rightarrow> bool" where
  "record_ok removed slot_count sr \<longleftrightarrow>
     sr_id sr \<noteq> kInvalidNetId \<and> sr_id sr \<notin> set removed \<and>
     and (sr_changed sr) (not (valid_slots slot_count)) = 0 \<and>
     and (sr_lost sr) (not (valid_slots slot_count)) = 0 \<and>
     and (sr_changed sr) (sr_lost sr) = 0 \<and>
     length (sr_blobs sr) = popcount (sr_changed sr) \<and>
     (\<forall>bs \<in> set (sr_blobs sr). length bs \<le> kMaxSnapshotBlobBytes)"

lemma flag_tests:
  "and (or (if a then kFlagOwner else 0) (if b then kFlagRemoved else 0)) kFlagOwner \<noteq> 0 \<longleftrightarrow> a"
  "and (or (if a then kFlagOwner else 0) (if b then kFlagRemoved else 0)) kFlagRemoved \<noteq> 0 \<longleftrightarrow> b"
  by (simp_all add: kFlagOwner_def kFlagRemoved_def)

interpretation blob_codec: wire_codec enc_blob read_blob "\<lambda>bs. length bs \<le> kMaxSnapshotBlobBytes"
proof unfold_locales
  fix bs pre post
  assume "length (bs :: bytes) \<le> kMaxSnapshotBlobBytes"
  then have "unat (of_nat (length bs) :: u16) = length bs"
    by (simp add: kMaxSnapshotBlobBytes_def unat_of_nat)
  then show "read_blob (reader_at pre (enc_blob bs @ post)) = (Some bs, reader_at (pre @ enc_blob bs) post)"
    by (simp add: read_blob_def enc_blob_def wire)
next
  show "sound_read read_blob"
    unfolding read_blob_def [abs_def] by (rule sound_case) (simp_all add: sound_reads)
qed

lemma sound_read_if: "sound_read m \<Longrightarrow> sound_read (read_if b m)"
  by (simp add: sound_read_def read_if_def)

lemma read_record_at:
  assumes ok: "record_ok removed slot_count sr"
  shows "read_record removed slot_count (reader_at pre (enc_record sr @ post)) =
    (Some sr, reader_at (pre @ enc_record sr) post)"
proof -
  have blobs: "read_n (length (bit_slots (sr_changed sr))) read_blob
      (reader_at q (concat (map enc_blob (sr_blobs sr)) @ post)) =
      (Some (sr_blobs sr), reader_at (q @ concat (map enc_blob (sr_blobs sr))) post)" for q
    using ok blob_codec.read_n_enc [of "sr_blobs sr" q post]
    by (simp add: record_ok_def bit_slots_facts(3))
  have flags: "(and (record_flags sr) kFlagOwner \<noteq> 0) = (sr_owner sr \<noteq> None)"
    "(and (record_flags sr) kFlagRemoved \<noteq> 0) = (sr_lost sr \<noteq> 0)"
    unfolding record_flags_def by (rule flag_tests)+
  show ?thesis
    using ok
    by (cases "sr_owner sr"; cases "sr_lost sr = 0")
      (simp_all add: read_record_def enc_record_def wire flags read_if_def blobs record_ok_def)
qed

lemma sound_read_record: "sound_read (read_record removed slot_count)"
proof (rule sound_readI)
  fix r x r'
  assume *: "read_record removed slot_count r = (x, r')"
  obtain i r1 where i: "read_u32 r = (i, r1)" by fastforce
  obtain flags r2 where f: "read_u8 r1 = (flags, r2)" by fastforce
  have le2: "reader_le r r2"
    using sound_readD [OF sound_read_u32 i] sound_readD [OF sound_read_u8 f] by (rule reader_le_trans)
  show "reader_le r r'"
  proof (cases "i \<noteq> None \<and> flags \<noteq> None \<and> the i \<noteq> kInvalidNetId \<and> the i \<notin> set removed")
    case False
    then have "r' = r2" using * by (auto simp: read_record_def i f split: option.splits if_splits)
    with le2 show ?thesis by simp
  next
    case True
    then obtain fl where fl: "flags = Some fl" and i': "\<exists>j. i = Some j" by auto
    obtain owner r3 where o: "read_if (and fl kFlagOwner \<noteq> 0) read_u64 r2 = (owner, r3)" by fastforce
    have le3: "reader_le r r3"
      using le2 sound_readD [OF sound_read_if [OF sound_read_u64] o] by (rule reader_le_trans)
    obtain changed r4 where c: "read_u32 r3 = (changed, r4)" by fastforce
    have le4: "reader_le r r4" using le3 sound_readD [OF sound_read_u32 c] by (rule reader_le_trans)
    obtain lost r5 where l: "read_if (and fl kFlagRemoved \<noteq> 0) read_u32 r4 = (lost, r5)" by fastforce
    have le5: "reader_le r r5"
      using le4 sound_readD [OF sound_read_if [OF sound_read_u32] l] by (rule reader_le_trans)
    have "r' \<in> {r3, r4, r5} \<or> (\<exists>n y. read_n n read_blob r5 = (y, r'))"
      using * True i'
      by (auto simp: read_record_def i f fl o c l Let_def split: option.splits if_splits prod.splits)
    then show ?thesis
      using le3 le4 le5 sound_readD [OF sound_read_n [OF blob_codec.dec_sound]] reader_le_trans
      by blast
  qed
qed

interpretation record_codec: wire_codec enc_record "read_record removed slot_count" "record_ok removed slot_count"
  for removed slot_count
  by unfold_locales (simp_all add: read_record_at sound_read_record)

definition record_of :: "'a entity_snapshot_scheme snapshot_write \<Rightarrow> snapshot_record" where
  "record_of w = \<lparr>sr_id = es_id (sw_entity w),
     sr_owner = (if sw_write_owner w then Some (es_owner (sw_entity w)) else None),
     sr_changed = sw_changed w, sr_lost = sw_lost w,
     sr_blobs = map (es_component (sw_entity w)) (bit_slots (sw_changed w))\<rparr>"

lemma write_blobs_buffer:
  "buffer (fold (\<lambda>slot. write_blob (f slot)) ss w) = buffer w @ concat (map enc_blob (map f ss))"
  by (induction ss arbitrary: w) (simp_all add: write_blob_def enc_blob_def wire)

lemma write_record_buffer: "buffer (write_record sw w) = buffer w @ enc_record (record_of sw)"
  by (simp add: write_record_def write_blobs_buffer wire Let_def enc_record_def record_of_def
      write_flags_def record_flags_def)

lemma write_records_buffer:
  "buffer (fold write_record ws w) = buffer w @ concat (map enc_record (map record_of ws))"
  by (induction ws arbitrary: w) (simp_all add: write_record_buffer)

lemma write_ids_buffer: "buffer (fold write_u32 ids w) = buffer w @ concat (map enc_u32 ids)"
  by (induction ids arbitrary: w) (simp_all add: wire)

lemma encode_snapshot_bytes:
  "encode_snapshot t peer removed writes =
     enc_u16 kSnapshotMessageId @ enc_u32 t @ enc_u32 (ph_input_tick peer) @ enc_i8 (ph_input_slack peer) @
     enc_u16 (of_nat (length removed)) @ concat (map enc_u32 removed) @
     enc_u16 (of_nat (length writes)) @ concat (map enc_record (map record_of writes))"
  by (simp add: encode_snapshot_def Let_def write_records_buffer write_ids_buffer wire)

lemma fold_size:
  "fold (\<lambda>slot n. n + (2 + length (f slot))) ss n = n + length (concat (map enc_blob (map f ss)))"
  by (induction ss arbitrary: n) (simp_all add: enc_blob_def)

lemma snapshot_write_size_enc: "snapshot_write_size w = length (enc_record (record_of w))"
  unfolding snapshot_write_size_def fold_size by (simp add: enc_record_def record_of_def)

lemma encode_decode:
  assumes "t \<noteq> kNoTick" and "fits_signed 8 (ph_input_slack peer)"
    and "length removed \<le> kMaxSnapshotEntries" and "length writes \<le> kMaxSnapshotEntries"
    and "\<forall>w \<in> set writes. record_ok removed slot_count (record_of w)"
  shows "\<exists>r1 r2 r3.
    read_u16 (new_reader (encode_snapshot t peer removed writes)) = (Some kSnapshotMessageId, r1) \<and>
    read_snapshot_header r1 = (Some (t, \<lparr>ph_input_tick = ph_input_tick peer, ph_input_slack = ph_input_slack peer\<rparr>), r2) \<and>
    decode_snapshot t slot_count r2 =
      (Some \<lparr>sd_tick = t, sd_removed = removed, sd_records = map record_of writes\<rparr>, r3)"
proof -
  have n: "unat (of_nat (length removed) :: u16) = length removed"
    "unat (of_nat (length writes) :: u16) = length writes"
    using assms(3,4) by (simp_all add: kMaxSnapshotEntries_def unat_of_nat)
  have recs: "read_n (length writes) (read_record removed slot_count)
      (reader_at q (concat (map enc_record (map record_of writes)))) =
      (Some (map record_of writes), reader_at (q @ concat (map enc_record (map record_of writes))) [])" for q
    using record_codec.read_n_enc_end [of "map record_of writes" removed slot_count q] assms(5) by simp
  have ids: "read_n (length removed) read_u32 (reader_at q (concat (map enc_u32 removed) @ post)) =
      (Some removed, reader_at (q @ concat (map enc_u32 removed)) post)" for q post
    using u32_codec.read_n_enc [of removed q post] by simp
  show ?thesis
    using assms(1,2)
    by (simp add: encode_snapshot_bytes new_reader_at wire read_snapshot_header_def decode_snapshot_def
        n ids recs del: map_map)
qed

subsection \<open>Properties\<close>

text \<open>
  C23: what the server encodes the client decodes: the tick and the input report in the header, the
  removed ids, and each record with its owner, its changed slots with their values and its lost
  slots, for any removed ids and records within the limits of the message's fields.
\<close>

theorem snapshot_roundtrip:
  assumes "t \<noteq> kNoTick" and "fits_signed 8 (ph_input_slack peer)"
    and "length removed \<le> kMaxSnapshotEntries" and "length writes \<le> kMaxSnapshotEntries"
    and "\<forall>w \<in> set writes. record_ok removed slot_count (record_of w)"
  shows "\<exists>r1 r2 r3.
    read_u16 (new_reader (encode_snapshot t peer removed writes)) = (Some kSnapshotMessageId, r1) \<and>
    read_snapshot_header r1 = (Some (t, \<lparr>ph_input_tick = ph_input_tick peer, ph_input_slack = ph_input_slack peer\<rparr>), r2) \<and>
    decode_snapshot t slot_count r2 =
      (Some \<lparr>sd_tick = t, sd_removed = removed, sd_records = map record_of writes\<rparr>, r3)"
  using assms by (rule encode_decode)

definition demo_entity :: entity_snapshot where
  "demo_entity = \<lparr>es_id = 4, es_owner = 2, es_mask = 5, es_blobs = [[1, 2], [3]]\<rparr>"

definition demo_write :: "entity_snapshot snapshot_write" where
  "demo_write = \<lparr>sw_entity = demo_entity, sw_write_owner = True, sw_changed = 4, sw_lost = 2\<rparr>"

lemma demo_slots: "bit_slots 4 = [2]" "bit_slots 5 = [0, 2]"
  by (simp_all add: bit_slots_filter upt_rec)

lemma demo_record:
  "record_of demo_write = \<lparr>sr_id = 4, sr_owner = Some 2, sr_changed = 4, sr_lost = 2, sr_blobs = [[3]]\<rparr>"
  by (simp add: record_of_def demo_write_def demo_entity_def demo_slots es_component_def slot_index_filter upt_rec)

theorem snapshot_roundtrip_witness:
  "\<exists>r1 r2 r3. read_u16 (new_reader (encode_snapshot 9 \<lparr>ph_input_tick = 7, ph_input_slack = -3\<rparr> [6] [demo_write]))
       = (Some kSnapshotMessageId, r1) \<and>
     read_snapshot_header r1 = (Some (9, \<lparr>ph_input_tick = 7, ph_input_slack = -3\<rparr>), r2) \<and>
     decode_snapshot 9 3 r2 = (Some \<lparr>sd_tick = 9, sd_removed = [6], sd_records =
       [\<lparr>sr_id = 4, sr_owner = Some 2, sr_changed = 4, sr_lost = 2, sr_blobs = [[3]]\<rparr>]\<rparr>, r3)"
  using snapshot_roundtrip [of 9 "\<lparr>ph_input_tick = 7, ph_input_slack = -3\<rparr>" "[6]" "[demo_write]" 3]
  by (auto simp: demo_record kNoTick_def fits_signed_def kMaxSnapshotEntries_def record_ok_def
      kInvalidNetId_def valid_slots_def kSlots_def slot_bit_def popcount_def upt_rec kMaxSnapshotBlobBytes_def)

lemma encode_size:
  "length (encode_snapshot t peer removed writes) =
     kSnapshotHeaderBytes + 4 * length removed + sum_list (map snapshot_write_size writes)"
proof -
  have "length (concat (map enc_u32 removed)) = 4 * length removed"
    by (induction removed) simp_all
  moreover have "length (concat (map enc_record (map record_of writes))) = sum_list (map snapshot_write_size writes)"
    by (induction writes) (simp_all add: snapshot_write_size_enc)
  ultimately show ?thesis by (simp add: encode_snapshot_bytes kSnapshotHeaderBytes_def)
qed

text \<open>
  a snapshot message is exactly as long as its header, its removed ids and the sizes
  \<open>snapshot_write_size\<close> foretold, so that the budget \<open>PeerGhosts::build\<close> keeps is the budget of
  the bytes sent.
\<close>

theorem snapshot_size:
  "length (encode_snapshot t peer removed writes) =
     kSnapshotHeaderBytes + 4 * length removed + sum_list (map snapshot_write_size writes)"
  by (rule encode_size)

end
