(* ===== verification/Peer_Ghosts.thy ===== *)
theory Peer_Ghosts
  imports Snapshot_Codec Float_Arith
begin

section \<open>What one peer has been sent\<close>

text \<open>
  \<^verbatim>\<open>src/net/peer_ghosts.h\<close> and \<^verbatim>\<open>src/net/peer_ghosts.cpp\<close>: the server's table of one peer, entity by
  entity, and the Snapshot message \<open>build\<close> makes of it within a budget. Captured values are shared:
  the code compares the pointers (\<open>components == components\<close>), so a captured entity carries the
  address \<open>es_ref\<close> of its values beside the values; 0 is the null pointer of a fresh ghost.
\<close>

record ref_snapshot = entity_snapshot +
  es_ref :: nat

record relevant_entity =
  re_entity :: ref_snapshot
  re_capture_index :: u32
  re_parent :: net_id
  re_mandatory :: bool

record 'd ghost =
  gh_id :: net_id
  gh_latest :: ref_snapshot
  gh_written :: bool
  gh_since :: "tick list"
  gh_owner_since :: tick
  gh_max_since :: tick
  gh_confirmed :: tick
  gh_accumulator :: 'd
  gh_leaving :: bool
  gh_leave_since :: tick
  gh_last_listed :: tick

record sent_snapshot =
  se_tick :: tick
  se_written :: "net_id list"
  se_removed :: "net_id list"

record 'd peer_ghosts =
  pg_ghosts :: "'d ghost list"
  pg_sent :: "sent_snapshot list"
  pg_acked :: tick

record candidate =
  ca_ghost :: nat
  ca_relevant :: relevant_entity
  ca_write :: "ref_snapshot snapshot_write"
  ca_size :: nat
  ca_selected :: bool

record built =
  bu_bytes :: bytes
  bu_relevant :: nat
  bu_deferred :: nat

definition no_entity :: ref_snapshot where
  "no_entity = \<lparr>es_id = kInvalidNetId, es_owner = kServerPeerId, es_mask = 0, es_blobs = [], es_ref = 0\<rparr>"

definition new_ghosts :: "'d peer_ghosts" where
  "new_ghosts = \<lparr>pg_ghosts = [], pg_sent = [], pg_acked = kNoTick\<rparr>"

definition new_ghost :: "'d float_arith \<Rightarrow> net_id \<Rightarrow> nat \<Rightarrow> 'd ghost" where
  "new_ghost F i slot_count =
     \<lparr>gh_id = i, gh_latest = no_entity, gh_written = False, gh_since = replicate slot_count kNoTick,
      gh_owner_since = kNoTick, gh_max_since = kNoTick, gh_confirmed = kNoTick,
      gh_accumulator = f_int F 0, gh_leaving = False, gh_leave_since = kNoTick, gh_last_listed = kNoTick\<rparr>"


subsection \<open>One entity\<close>

definition same_slot :: "ref_snapshot \<Rightarrow> ref_snapshot \<Rightarrow> nat \<Rightarrow> bool" where
  "same_slot a b slot =
     (if es_has a slot \<noteq> es_has b slot then False
      else if \<not> es_has a slot \<or> es_ref a = es_ref b then True
      else es_component a slot = es_component b slot)"

definition is_clean :: "'d ghost \<Rightarrow> ref_snapshot \<Rightarrow> bool" where
  "is_clean g current \<longleftrightarrow>
     gh_written g \<and> gh_confirmed g \<ge> gh_max_since g \<and> es_mask (gh_latest g) = es_mask current \<and>
     es_owner (gh_latest g) = es_owner current \<and>
     (es_mask current = 0 \<or> es_ref (gh_latest g) = es_ref current)"

definition dirty_slot :: "'d ghost \<Rightarrow> ref_snapshot \<Rightarrow> nat \<Rightarrow> bool" where
  "dirty_slot g current slot \<longleftrightarrow>
     gh_confirmed g < gh_since g ! slot \<or> \<not> same_slot (gh_latest g) current slot"

definition dirty_write :: "'d ghost \<Rightarrow> ref_snapshot \<Rightarrow> nat \<Rightarrow> ref_snapshot snapshot_write" where
  "dirty_write g current slot_count =
     fold (\<lambda>slot w.
        if dirty_slot g current slot
        then (if es_has current slot then w\<lparr>sw_changed := or (sw_changed w) (slot_bit slot)\<rparr>
              else w\<lparr>sw_lost := or (sw_lost w) (slot_bit slot)\<rparr>)
        else w)
      [0..<slot_count]
      \<lparr>sw_entity = current,
       sw_write_owner = (\<not> gh_written g \<or> es_owner (gh_latest g) \<noteq> es_owner current \<or>
          gh_confirmed g < gh_owner_since g),
       sw_changed = 0, sw_lost = 0\<rparr>"

definition commit_since :: "'d ghost \<Rightarrow> ref_snapshot \<Rightarrow> nat \<Rightarrow> tick \<Rightarrow> tick list" where
  "commit_since g current slot_count t =
     fold (\<lambda>slot since. if same_slot (gh_latest g) current slot then since else since[slot := t])
       [0..<slot_count] (gh_since g)"

definition commit_write :: "'d float_arith \<Rightarrow> 'd ghost \<Rightarrow> ref_snapshot \<Rightarrow> nat \<Rightarrow> tick \<Rightarrow> 'd ghost" where
  "commit_write F g current slot_count t =
     (let since = commit_since g current slot_count t;
          owner_since = (if \<not> gh_written g \<or> es_owner (gh_latest g) \<noteq> es_owner current then t else gh_owner_since g)
      in g\<lparr>gh_since := since, gh_owner_since := owner_since,
           gh_max_since := fold (\<lambda>since m. max m since) since owner_since,
           gh_latest := current, gh_written := True, gh_accumulator := f_int F 0\<rparr>)"

subsection \<open>The walk over the table and the relevant set\<close>

definition start_leaving :: "tick \<Rightarrow> 'd ghost \<Rightarrow> 'd ghost" where
  "start_leaving t g =
     (if gh_leaving g then g
      else g\<lparr>gh_leaving := True, gh_leave_since := t, gh_last_listed := kNoTick\<rparr>)"

definition come_back :: "tick \<Rightarrow> 'd ghost \<Rightarrow> 'd ghost" where
  "come_back t g =
     (if gh_leaving g
      then g\<lparr>gh_leaving := False, gh_since := map (\<lambda>_. t) (gh_since g), gh_owner_since := t, gh_max_since := t\<rparr>
      else g)"

text \<open>What becomes of the ghost of a relevant entity, and its candidate, at place \<open>k\<close> of the new table.\<close>

definition visit ::
  "'d float_arith \<Rightarrow> nat \<Rightarrow> nat \<Rightarrow> 'd ghost \<Rightarrow> relevant_entity \<Rightarrow> 'd ghost \<times> candidate list" where
  "visit F slot_count k g r =
     (if is_clean g (re_entity r) then (g\<lparr>gh_accumulator := f_int F 0\<rparr>, [])
      else
        (let w = dirty_write g (re_entity r) slot_count
         in (g, [\<lparr>ca_ghost = k, ca_relevant = r, ca_write = w, ca_size = snapshot_write_size w,
                  ca_selected = False\<rparr>])))"

fun walk ::
  "'d float_arith \<Rightarrow> tick \<Rightarrow> nat \<Rightarrow> nat \<Rightarrow> 'd ghost list \<Rightarrow> relevant_entity list \<Rightarrow>
     'd ghost list \<times> candidate list" where
  "walk F t slot_count k [] [] = ([], [])"
| "walk F t slot_count k (g # gs) [] =
     (if gh_written g
      then (let (next, cs) = walk F t slot_count (Suc k) gs [] in (start_leaving t g # next, cs))
      else walk F t slot_count k gs [])"
| "walk F t slot_count k [] (r # rs) =
     (let (g', c) = visit F slot_count k (new_ghost F (es_id (re_entity r)) slot_count) r;
          (next, cs) = walk F t slot_count (Suc k) [] rs
      in (g' # next, c @ cs))"
| "walk F t slot_count k (g # gs) (r # rs) =
     (if gh_id g < es_id (re_entity r)
      then (if gh_written g
            then (let (next, cs) = walk F t slot_count (Suc k) gs (r # rs) in (start_leaving t g # next, cs))
            else walk F t slot_count k gs (r # rs))
      else if gh_id g = es_id (re_entity r)
      then (let (g', c) = visit F slot_count k (come_back t g) r;
                (next, cs) = walk F t slot_count (Suc k) gs rs
            in (g' # next, c @ cs))
      else (let (g', c) = visit F slot_count k (new_ghost F (es_id (re_entity r)) slot_count) r;
                (next, cs) = walk F t slot_count (Suc k) (g # gs) rs
            in (g' # next, c @ cs)))"

subsection \<open>Choosing what goes out\<close>

text \<open>\<open>std::stable_sort\<close> with a comparator; \<open>std::sort\<close> where the comparator leaves no ties.\<close>

fun insert_after :: "('a \<Rightarrow> 'a \<Rightarrow> bool) \<Rightarrow> 'a \<Rightarrow> 'a list \<Rightarrow> 'a list" where
  "insert_after lt x [] = [x]"
| "insert_after lt x (y # ys) = (if lt x y then x # y # ys else y # insert_after lt x ys)"

definition stable_sort :: "('a \<Rightarrow> 'a \<Rightarrow> bool) \<Rightarrow> 'a list \<Rightarrow> 'a list" where
  "stable_sort lt xs = fold (insert_after lt) xs []"

definition candidate_id :: "candidate \<Rightarrow> net_id" where
  "candidate_id c = es_id (re_entity (ca_relevant c))"

definition find_candidate :: "candidate list \<Rightarrow> net_id \<Rightarrow> nat option" where
  "find_candidate cs i =
     (let k = lower_bound (\<lambda>c. candidate_id c < i) cs
      in if k \<noteq> length cs \<and> candidate_id (cs ! k) = i then Some k else None)"

fun ancestors :: "'d ghost list \<Rightarrow> candidate list \<Rightarrow> nat \<Rightarrow> nat \<Rightarrow> nat list" where
  "ancestors gs cs 0 w = []"
| "ancestors gs cs (Suc depth) w =
     (if gh_written (gs ! ca_ghost (cs ! w)) \<or> re_parent (ca_relevant (cs ! w)) = kInvalidNetId then []
      else case find_candidate cs (re_parent (ca_relevant (cs ! w))) of
             None \<Rightarrow> []
           | Some p \<Rightarrow> if ca_selected (cs ! p) then [] else p # ancestors gs cs depth p)"

definition mark_all :: "nat list \<Rightarrow> candidate list \<Rightarrow> candidate list" where
  "mark_all is cs = fold (\<lambda>i cs. cs[i := (cs ! i)\<lparr>ca_selected := True\<rparr>]) is cs"

definition select_candidate ::
  "'d ghost list \<Rightarrow> bool \<Rightarrow> nat \<Rightarrow> candidate list \<times> nat \<Rightarrow> candidate list \<times> nat" where
  "select_candidate gs force i s =
     (let (cs, room) = s;
          chain = i # ancestors gs cs kMaxHierarchyDepth i;
          cost = sum_list (map (\<lambda>j. ca_size (cs ! j)) chain)
      in if \<not> force \<and> cost > room then (cs, room)
         else (mark_all chain cs, room - cost))"

text \<open>
  The loop that takes the mandatory candidates and ages the others: the table, the candidates, the
  order and the room left (natural subtraction is the code's \<open>saturating_sub\<close>).
\<close>

fun take_mandatory ::
  "'d float_arith \<Rightarrow> (relevant_entity \<Rightarrow> 'd) \<Rightarrow> nat \<Rightarrow> candidate list \<Rightarrow>
     'd ghost list \<times> candidate list \<times> nat list \<times> nat \<Rightarrow> 'd ghost list \<times> candidate list \<times> nat list \<times> nat" where
  "take_mandatory F weight i [] s = s"
| "take_mandatory F weight i (c # rest) (gs, cs, order, room) =
     take_mandatory F weight (Suc i) rest
       (if re_mandatory (ca_relevant c)
        then (gs, cs[i := c\<lparr>ca_selected := True\<rparr>], order, room - ca_size c)
        else (gs[ca_ghost c := (gs ! ca_ghost c)\<lparr>gh_accumulator :=
                f_add F (gh_accumulator (gs ! ca_ghost c)) (weight (ca_relevant c))\<rparr>], cs, order @ [i], room))"

definition removal_before :: "'d ghost list \<Rightarrow> nat \<Rightarrow> nat \<Rightarrow> bool" where
  "removal_before gs a b =
     (if gh_last_listed (gs ! a) \<noteq> gh_last_listed (gs ! b)
      then gh_last_listed (gs ! a) < gh_last_listed (gs ! b)
      else gh_id (gs ! a) < gh_id (gs ! b))"

definition choose_writes ::
  "'d float_arith \<Rightarrow> (relevant_entity \<Rightarrow> 'd) \<Rightarrow> nat \<Rightarrow> 'd ghost list \<Rightarrow> candidate list \<Rightarrow>
     'd ghost list \<times> candidate list \<times> nat list" where
  "choose_writes F weight budget gs cs =
     (let leaving = filter (\<lambda>i. gh_leaving (gs ! i)) [0..<length gs];
          whole_size = fold (\<lambda>c n. n + ca_size c) cs (kSnapshotHeaderBytes + length leaving * 4)
      in if whole_size \<le> budget then (gs, map (\<lambda>c. c\<lparr>ca_selected := True\<rparr>) cs, leaving)
         else
           (let (gs1, cs1, order0, room1) = take_mandatory F weight 0 cs (gs, cs, [], budget - kSnapshotHeaderBytes);
                order = stable_sort (\<lambda>a b. f_less F (gh_accumulator (gs1 ! ca_ghost (cs1 ! b)))
                          (gh_accumulator (gs1 ! ca_ghost (cs1 ! a)))) order0;
                (cs2, room2) = (case order of [] \<Rightarrow> (cs1, room1)
                                | first # others \<Rightarrow> select_candidate gs1 True first (cs1, room1));
                rest = tl order;
                queue = stable_sort (removal_before gs1) leaving;
                removal_bytes = (if rest \<noteq> [] then room2 div 4 else room2);
                removal_count = min (length queue) (max (removal_bytes div 4) 1);
                (cs3, room3) = fold (\<lambda>i s. if ca_selected (fst s ! i) then s else select_candidate gs1 False i s)
                                 rest (cs2, room2 - removal_count * 4)
            in (gs1, cs3, take removal_count queue)))"

subsection \<open>The message\<close>

text \<open>Past what one message can count, the rest waits.\<close>

fun cap_selected :: "nat \<Rightarrow> candidate list \<Rightarrow> candidate list" where
  "cap_selected n [] = []"
| "cap_selected n (c # cs) =
     (let s = (ca_selected c \<and> n < kMaxSnapshotEntries)
      in c\<lparr>ca_selected := s\<rparr> # cap_selected (if s then Suc n else n) cs)"

definition list_removed :: "tick \<Rightarrow> nat list \<Rightarrow> 'd ghost list \<Rightarrow> 'd ghost list" where
  "list_removed t is gs = fold (\<lambda>i gs. gs[i := (gs ! i)\<lparr>gh_last_listed := t\<rparr>]) is gs"

definition commit_all :: "'d float_arith \<Rightarrow> nat \<Rightarrow> tick \<Rightarrow> candidate list \<Rightarrow> 'd ghost list \<Rightarrow> 'd ghost list" where
  "commit_all F slot_count t cs gs =
     fold (\<lambda>c gs. if ca_selected c
        then gs[ca_ghost c := commit_write F (gs ! ca_ghost c) (sw_entity (ca_write c)) slot_count t]
        else gs) cs gs"

definition build ::
  "'d float_arith \<Rightarrow> (relevant_entity \<Rightarrow> 'd) \<Rightarrow> tick \<Rightarrow> peer_header \<Rightarrow> relevant_entity list \<Rightarrow> nat \<Rightarrow> nat \<Rightarrow>
     'd peer_ghosts \<Rightarrow> built \<times> 'd peer_ghosts" where
  "build F weight t header relevant budget slot_count p =
     (let sent0 = filter (\<lambda>s. \<not> se_tick s + kSnapshotWindowTicks \<le> t) (pg_sent p);
          (gs0, cs0) = walk F t slot_count 0 (pg_ghosts p) relevant;
          (gs1, cs1, listed0) = choose_writes F weight budget gs0 cs0;
          cs2 = cap_selected 0 cs1;
          chosen = filter ca_selected cs2;
          listed = take kMaxSnapshotEntries listed0;
          gs2 = list_removed t listed gs1;
          removed = sort (map (\<lambda>i. gh_id (gs1 ! i)) listed);
          gs3 = commit_all F slot_count t cs2 gs2
      in (\<lparr>bu_bytes = encode_snapshot t header removed (map ca_write chosen),
           bu_relevant = length relevant, bu_deferred = length cs2 - length chosen\<rparr>,
          p\<lparr>pg_ghosts := gs3,
            pg_sent := sent0 @ [\<lparr>se_tick = t, se_written = map (es_id \<circ> sw_entity \<circ> ca_write) chosen,
                                 se_removed = removed\<rparr>]\<rparr>))"

subsection \<open>Acknowledgements\<close>

definition ghost_at :: "net_id \<Rightarrow> 'd ghost list \<Rightarrow> nat option" where
  "ghost_at i gs =
     (let k = lower_bound (\<lambda>g. gh_id g < i) gs
      in if k \<noteq> length gs \<and> gh_id (gs ! k) = i then Some k else None)"

definition confirm_ghost :: "tick \<Rightarrow> net_id \<Rightarrow> 'd ghost list \<Rightarrow> 'd ghost list" where
  "confirm_ghost t i gs =
     (case ghost_at i gs of None \<Rightarrow> gs
      | Some k \<Rightarrow> gs[k := (gs ! k)\<lparr>gh_confirmed := max (gh_confirmed (gs ! k)) t\<rparr>])"

definition removal_confirmed :: "tick \<Rightarrow> net_id \<Rightarrow> 'd ghost list \<times> bool \<Rightarrow> 'd ghost list \<times> bool" where
  "removal_confirmed t i s =
     (let (gs, gone) = s
      in case ghost_at i gs of None \<Rightarrow> (gs, gone)
         | Some k \<Rightarrow>
             (if gh_leaving (gs ! k) \<and> t \<ge> gh_leave_since (gs ! k)
              then (gs[k := (gs ! k)\<lparr>gh_written := False\<rparr>], True) else (gs, gone)))"

fun remove_first :: "('a \<Rightarrow> bool) \<Rightarrow> 'a list \<Rightarrow> 'a list" where
  "remove_first P [] = []"
| "remove_first P (x # xs) = (if P x then xs else x # remove_first P xs)"

definition acknowledge :: "tick \<Rightarrow> 'd peer_ghosts \<Rightarrow> 'd peer_ghosts" where
  "acknowledge t p =
     (case find_first (\<lambda>s. se_tick s = t) (pg_sent p) of
        None \<Rightarrow> p
      | Some s \<Rightarrow>
          (let gs1 = fold (confirm_ghost t) (se_written s) (pg_ghosts p);
               (gs2, gone) = fold (removal_confirmed t) (se_removed s) (gs1, False)
           in \<lparr>pg_ghosts = (if gone then filter (\<lambda>g. \<not> (gh_leaving g \<and> \<not> gh_written g)) gs2 else gs2),
               pg_sent = remove_first (\<lambda>s. se_tick s = t) (pg_sent p),
               pg_acked = max (pg_acked p) t\<rparr>))"

end
