(* ===== verification/Ghost_Table.thy ===== *)
theory Ghost_Table
  imports Peer_Ghosts
begin

section \<open>What building a message does to the table\<close>

text \<open>
  Facts of \<open>PeerGhosts::build\<close> by entity id: the slots a write names, what a commit records, what the
  walk makes of each ghost, and that the choice of what to send touches nothing but the priorities.
\<close>

subsection \<open>One entity\<close>

lemma dirty_write_fold:
  assumes "\<forall>s \<in> set ss. s < 32"
  shows "sw_entity (fold (\<lambda>slot w. if D slot then (if es_has e slot
      then w\<lparr>sw_changed := or (sw_changed w) (slot_bit slot)\<rparr>
      else w\<lparr>sw_lost := or (sw_lost w) (slot_bit slot)\<rparr>) else w) ss w) = sw_entity w \<and>
    sw_write_owner (fold (\<lambda>slot w. if D slot then (if es_has e slot
      then w\<lparr>sw_changed := or (sw_changed w) (slot_bit slot)\<rparr>
      else w\<lparr>sw_lost := or (sw_lost w) (slot_bit slot)\<rparr>) else w) ss w) = sw_write_owner w \<and>
    (bit (sw_changed (fold (\<lambda>slot w. if D slot then (if es_has e slot
      then w\<lparr>sw_changed := or (sw_changed w) (slot_bit slot)\<rparr>
      else w\<lparr>sw_lost := or (sw_lost w) (slot_bit slot)\<rparr>) else w) ss w)) n \<longleftrightarrow>
        bit (sw_changed w) n \<or> n \<in> set ss \<and> D n \<and> es_has e n) \<and>
    (bit (sw_lost (fold (\<lambda>slot w. if D slot then (if es_has e slot
      then w\<lparr>sw_changed := or (sw_changed w) (slot_bit slot)\<rparr>
      else w\<lparr>sw_lost := or (sw_lost w) (slot_bit slot)\<rparr>) else w) ss w)) n \<longleftrightarrow>
        bit (sw_lost w) n \<or> n \<in> set ss \<and> D n \<and> \<not> es_has e n)"
  using assms
proof (induction ss arbitrary: w)
  case Nil
  then show ?case by simp
next
  case (Cons x ss)
  then show ?case by (auto simp: bit_or_iff)
qed

lemma dirty_write_facts:
  assumes "n \<le> 32"
  shows "sw_entity (dirty_write g e n) = e"
    and "sw_write_owner (dirty_write g e n) \<longleftrightarrow>
      \<not> gh_written g \<or> es_owner (gh_latest g) \<noteq> es_owner e \<or> gh_confirmed g < gh_owner_since g"
    and "bit (sw_changed (dirty_write g e n)) s \<longleftrightarrow> s < n \<and> dirty_slot g e s \<and> es_has e s"
    and "bit (sw_lost (dirty_write g e n)) s \<longleftrightarrow> s < n \<and> dirty_slot g e s \<and> \<not> es_has e s"
proof -
  let ?w = "\<lparr>sw_entity = e, sw_write_owner = (\<not> gh_written g \<or> es_owner (gh_latest g) \<noteq> es_owner e \<or>
          gh_confirmed g < gh_owner_since g), sw_changed = 0, sw_lost = 0\<rparr>"
  have "\<forall>s \<in> set [0..<n]. s < 32" using assms by simp
  note f = dirty_write_fold [OF this, of "dirty_slot g e" e ?w s, folded dirty_write_def]
  from f show "sw_entity (dirty_write g e n) = e" by simp
  from f show "sw_write_owner (dirty_write g e n) \<longleftrightarrow>
      \<not> gh_written g \<or> es_owner (gh_latest g) \<noteq> es_owner e \<or> gh_confirmed g < gh_owner_since g"
    by simp
  from f show "bit (sw_changed (dirty_write g e n)) s \<longleftrightarrow> s < n \<and> dirty_slot g e s \<and> es_has e s" by simp
  from f show "bit (sw_lost (dirty_write g e n)) s \<longleftrightarrow> s < n \<and> dirty_slot g e s \<and> \<not> es_has e s" by simp
qed

lemma commit_since_fold:
  "length (fold (\<lambda>slot since. if P slot then since else since[slot := t]) ss since) = length since \<and>
   (s < length since \<longrightarrow>
     fold (\<lambda>slot since. if P slot then since else since[slot := t]) ss since ! s =
       (if s \<in> set ss \<and> \<not> P s then t else since ! s))"
proof (induction ss arbitrary: since)
  case Nil
  then show ?case by simp
next
  case (Cons x ss)
  from Cons [of "since[x := t]"] Cons [of since] show ?case by (cases "x = s") (auto simp: nth_list_update)
qed

lemma commit_since_nth:
  "length (commit_since g e n t) = length (gh_since g)"
  "s < length (gh_since g) \<Longrightarrow>
     commit_since g e n t ! s = (if s < n \<and> \<not> same_slot (gh_latest g) e s then t else gh_since g ! s)"
  using commit_since_fold [of "same_slot (gh_latest g) e" t "[0..<n]" "gh_since g" s]
  by (simp_all add: commit_since_def)

lemma fold_max:
  fixes m :: tick
  shows "m \<le> fold (\<lambda>x m. max m x) xs m \<and> (\<forall>x \<in> set xs. x \<le> fold (\<lambda>x m. max m x) xs m)"
proof (induction xs arbitrary: m)
  case Nil
  then show ?case by simp
next
  case (Cons x xs)
  from Cons [of "max m x"] show ?case by auto
qed

lemma commit_write_sel [simp]:
  "gh_id (commit_write F g e n t) = gh_id g" "gh_latest (commit_write F g e n t) = e"
  "gh_written (commit_write F g e n t)" "gh_since (commit_write F g e n t) = commit_since g e n t"
  "gh_confirmed (commit_write F g e n t) = gh_confirmed g" "gh_leaving (commit_write F g e n t) = gh_leaving g"
  "gh_owner_since (commit_write F g e n t) =
     (if \<not> gh_written g \<or> es_owner (gh_latest g) \<noteq> es_owner e then t else gh_owner_since g)"
  by (simp_all add: commit_write_def Let_def)

lemma commit_max_since:
  "gh_owner_since (commit_write F g e n t) \<le> gh_max_since (commit_write F g e n t)"
  "x \<in> set (gh_since (commit_write F g e n t)) \<Longrightarrow> x \<le> gh_max_since (commit_write F g e n t)"
  using fold_max by (simp_all add: commit_write_def Let_def)

subsection \<open>The walk\<close>

definition ghost_of :: "net_id \<Rightarrow> 'd ghost list \<Rightarrow> 'd ghost option" where
  "ghost_of i gs = find_first (\<lambda>g. gh_id g = i) gs"

definition relevant_of :: "net_id \<Rightarrow> relevant_entity list \<Rightarrow> relevant_entity option" where
  "relevant_of i rs = find_first (\<lambda>r. es_id (re_entity r) = i) rs"

lemma ghost_of_simps [simp]:
  "ghost_of i [] = None"
  "ghost_of i (g # gs) = (if gh_id g = i then Some g else ghost_of i gs)"
  by (simp_all add: ghost_of_def)

lemma relevant_of_simps [simp]:
  "relevant_of i [] = None"
  "relevant_of i (r # rs) = (if es_id (re_entity r) = i then Some r else relevant_of i rs)"
  by (simp_all add: relevant_of_def)

lemma ghost_of_None: "ghost_of i gs = None \<longleftrightarrow> i \<notin> gh_id ` set gs"
  by (induction gs) auto

lemma relevant_of_None: "relevant_of i rs = None \<longleftrightarrow> i \<notin> (\<lambda>r. es_id (re_entity r)) ` set rs"
  by (induction rs) auto

lemma relevant_of_Some: "relevant_of i rs = Some r \<Longrightarrow> r \<in> set rs \<and> es_id (re_entity r) = i"
  by (induction rs) (auto split: if_splits)

lemma ghost_of_Some: "ghost_of i gs = Some g \<Longrightarrow> g \<in> set gs \<and> gh_id g = i"
  by (induction gs) (auto split: if_splits)

lemma ghost_of_mem: "by_key gh_id gs \<Longrightarrow> ghost_of i gs = Some g \<longleftrightarrow> g \<in> set gs \<and> gh_id g = i"
  unfolding ghost_of_def by (rule find_first_by_key)

text \<open>What the walk makes of the ghost and the relevant entity of one id.\<close>

definition arrived :: "'d float_arith \<Rightarrow> tick \<Rightarrow> nat \<Rightarrow> 'd ghost option \<Rightarrow> relevant_entity \<Rightarrow> 'd ghost" where
  "arrived F t n old r =
     (let g = (case old of Some g \<Rightarrow> come_back t g | None \<Rightarrow> new_ghost F (es_id (re_entity r)) n)
      in if is_clean g (re_entity r) then g\<lparr>gh_accumulator := f_int F 0\<rparr> else g)"

definition walked :: "'d float_arith \<Rightarrow> tick \<Rightarrow> nat \<Rightarrow> 'd ghost option \<Rightarrow> relevant_entity option \<Rightarrow> 'd ghost option" where
  "walked F t n old new =
     (case new of
        Some r \<Rightarrow> Some (arrived F t n old r)
      | None \<Rightarrow> (case old of
                 Some g \<Rightarrow> if gh_written g then Some (start_leaving t g) else None
               | None \<Rightarrow> None))"

definition cand_ok :: "nat \<Rightarrow> 'd ghost \<Rightarrow> candidate \<Rightarrow> bool" where
  "cand_ok n g c \<longleftrightarrow>
     gh_id g = candidate_id c \<and> \<not> gh_leaving g \<and> \<not> is_clean g (re_entity (ca_relevant c)) \<and>
     ca_write c = dirty_write g (re_entity (ca_relevant c)) n \<and> ca_size c = snapshot_write_size (ca_write c)"

definition cands_ok :: "nat \<Rightarrow> nat \<Rightarrow> 'd ghost list \<Rightarrow> relevant_entity list \<Rightarrow> candidate list \<Rightarrow> bool" where
  "cands_ok n k gs rs cs \<longleftrightarrow>
     (\<forall>c \<in> set cs. k \<le> ca_ghost c \<and> ca_ghost c < k + length gs \<and> cand_ok n (gs ! (ca_ghost c - k)) c \<and>
        ca_relevant c \<in> set rs) \<and>
     sorted_wrt (<) (map ca_ghost cs) \<and> by_key candidate_id cs \<and>
     (\<forall>r \<in> set rs. \<forall>g. ghost_of (es_id (re_entity r)) gs = Some g \<longrightarrow> \<not> is_clean g (re_entity r) \<longrightarrow>
        r \<in> ca_relevant ` set cs)"

lemma is_clean_accumulator [simp]: "is_clean (g\<lparr>gh_accumulator := x\<rparr>) e = is_clean g e"
  by (simp add: is_clean_def)

lemma visit_arrived:
  "visit F n k (case old of Some g \<Rightarrow> come_back t g | None \<Rightarrow> new_ghost F (es_id (re_entity r)) n) r =
     (arrived F t n old r,
      if is_clean (arrived F t n old r) (re_entity r) then []
      else [\<lparr>ca_ghost = k, ca_relevant = r, ca_write = dirty_write (arrived F t n old r) (re_entity r) n,
             ca_size = snapshot_write_size (dirty_write (arrived F t n old r) (re_entity r) n), ca_selected = False\<rparr>])"
proof -
  define g0 where "g0 = (case old of Some g \<Rightarrow> come_back t g | None \<Rightarrow> new_ghost F (es_id (re_entity r)) n)"
  have a: "arrived F t n old r = (if is_clean g0 (re_entity r) then g0\<lparr>gh_accumulator := f_int F 0\<rparr> else g0)"
    by (simp only: arrived_def g0_def Let_def)
  show ?thesis
    unfolding g0_def [symmetric] a
    by (cases "is_clean g0 (re_entity r)") (simp_all only: visit_def if_True if_False is_clean_accumulator Let_def simp_thms)
qed

lemma arrived_sel:
  "\<not> gh_leaving (arrived F t n old r)"
  "(\<And>g. old = Some g \<Longrightarrow> gh_id g = es_id (re_entity r)) \<Longrightarrow> gh_id (arrived F t n old r) = es_id (re_entity r)"
  by (cases old; simp add: arrived_def Let_def come_back_def new_ghost_def)+

lemma start_leaving_id [simp]: "gh_id (start_leaving t g) = gh_id g"
  by (simp add: start_leaving_def)


lemma cands_ok_Nil: "cands_ok n k [] [] []"
  by (simp add: cands_ok_def by_key_def)

text \<open>A ghost in front of the table, and its candidate when it has one.\<close>

lemma cands_ok_skip:
  assumes "cands_ok n (Suc k) gs rs cs" and "\<forall>r \<in> set rs. gh_id g \<noteq> es_id (re_entity r)"
  shows "cands_ok n k (g # gs) rs cs"
  using assms by (fastforce simp: cands_ok_def Suc_diff_Suc nth_Cons' split: if_splits)

lemma cands_ok_step:
  assumes ok: "cands_ok n (Suc k) gs rs cs" and key: "\<forall>r' \<in> set rs. es_id (re_entity r) < es_id (re_entity r')"
    and g: "gh_id g = es_id (re_entity r)" "\<not> gh_leaving g"
  shows "cands_ok n k (g # gs) (r # rs)
    ((if is_clean g (re_entity r) then []
      else [\<lparr>ca_ghost = k, ca_relevant = r, ca_write = dirty_write g (re_entity r) n,
             ca_size = snapshot_write_size (dirty_write g (re_entity r) n), ca_selected = False\<rparr>]) @ cs)"
proof -
  have rest: "Suc k \<le> ca_ghost c \<and> ca_ghost c < Suc k + length gs \<and>
      cand_ok n (gs ! (ca_ghost c - Suc k)) c \<and> ca_relevant c \<in> set rs" if "c \<in> set cs" for c
    using ok that by (simp add: cands_ok_def)
  have shift: "(g # gs) ! (ca_ghost c - k) = gs ! (ca_ghost c - Suc k)" if "c \<in> set cs" for c
    using rest [OF that] by (simp add: nth_Cons' Suc_diff_Suc)
  have later: "es_id (re_entity r) < candidate_id c" if "c \<in> set cs" for c
    using rest [OF that] key by (simp add: candidate_id_def)
  have later_ghost: "k < ca_ghost c" if "c \<in> set cs" for c using rest [OF that] by simp
  have srt: "sorted_wrt (<) (map ca_ghost cs)" "by_key candidate_id cs"
    using ok by (simp_all add: cands_ok_def)
  have all: "r' \<in> ca_relevant ` set cs"
    if "r' \<in> set rs" "ghost_of (es_id (re_entity r')) (g # gs) = Some g'" "\<not> is_clean g' (re_entity r')" for r' g'
  proof -
    have "gh_id g \<noteq> es_id (re_entity r')" using that(1) key g by fastforce
    with that ok show ?thesis by (auto simp: cands_ok_def)
  qed
  show ?thesis
  proof (cases "is_clean g (re_entity r)")
    case True
    then show ?thesis
      using rest shift srt all g by (fastforce simp: cands_ok_def)
  next
    case False
    define c where "c = \<lparr>ca_ghost = k, ca_relevant = r, ca_write = dirty_write g (re_entity r) n,
             ca_size = snapshot_write_size (dirty_write g (re_entity r) n), ca_selected = False\<rparr>"
    have c: "ca_ghost c = k" "ca_relevant c = r" "cand_ok n g c" "candidate_id c = es_id (re_entity r)"
      using g False by (simp_all add: c_def cand_ok_def candidate_id_def)
    have "cands_ok n k (g # gs) (r # rs) (c # cs)"
      unfolding cands_ok_def
    proof (intro conjI)
      show "\<forall>d \<in> set (c # cs). k \<le> ca_ghost d \<and> ca_ghost d < k + length (g # gs) \<and>
          cand_ok n ((g # gs) ! (ca_ghost d - k)) d \<and> ca_relevant d \<in> set (r # rs)"
        using c rest shift by fastforce
      show "sorted_wrt (<) (map ca_ghost (c # cs))" using srt later_ghost c by simp
      show "by_key candidate_id (c # cs)" using srt later c by simp
      show "\<forall>r' \<in> set (r # rs). \<forall>g'. ghost_of (es_id (re_entity r')) (g # gs) = Some g' \<longrightarrow>
          \<not> is_clean g' (re_entity r') \<longrightarrow> r' \<in> ca_relevant ` set (c # cs)"
        using all c by fastforce
    qed
    with False show ?thesis by (simp add: c_def)
  qed
qed

definition rel_id :: "relevant_entity \<Rightarrow> net_id" where
  "rel_id r = es_id (re_entity r)"

text \<open>The four ways the walk takes its next step, each of which keeps what the walk of the rest promises.\<close>

definition walk_ok :: "'d float_arith \<Rightarrow> tick \<Rightarrow> nat \<Rightarrow> nat \<Rightarrow> 'd ghost list \<Rightarrow> relevant_entity list \<Rightarrow>
    'd ghost list \<Rightarrow> candidate list \<Rightarrow> bool" where
  "walk_ok F t n k gs rs out cs \<longleftrightarrow>
     gh_id ` set out \<subseteq> gh_id ` set gs \<union> rel_id ` set rs \<and> by_key gh_id out \<and>
     (\<forall>i. ghost_of i out = walked F t n (ghost_of i gs) (relevant_of i rs)) \<and> cands_ok n k out rs cs"

abbreviation visited_cands :: "nat \<Rightarrow> nat \<Rightarrow> 'd ghost \<Rightarrow> relevant_entity \<Rightarrow> candidate list" where
  "visited_cands n k g r \<equiv> (if is_clean g (re_entity r) then []
      else [\<lparr>ca_ghost = k, ca_relevant = r, ca_write = dirty_write g (re_entity r) n,
             ca_size = snapshot_write_size (dirty_write g (re_entity r) n), ca_selected = False\<rparr>])"

lemma walk_ok_leave:
  assumes rest: "walk_ok F t n (Suc k) gs rs out cs" and w: "gh_written g"
    and gs: "\<forall>x \<in> set gs. gh_id g < gh_id x" and rs: "\<forall>x \<in> set rs. gh_id g < rel_id x"
  shows "walk_ok F t n k (g # gs) rs (start_leaving t g # out) cs"
proof -
  have keys: "\<forall>x \<in> set out. gh_id g < gh_id x" using rest gs rs by (fastforce simp: walk_ok_def)
  have "relevant_of (gh_id g) rs = None" using rs by (auto simp: relevant_of_None rel_id_def)
  moreover have "cands_ok n k (start_leaving t g # out) rs cs"
    by (rule cands_ok_skip) (use rest rs in \<open>auto simp: walk_ok_def rel_id_def\<close>)
  ultimately show ?thesis using rest w keys by (auto simp: walk_ok_def walked_def)
qed

lemma walk_ok_forget:
  assumes rest: "walk_ok F t n k gs rs out cs" and w: "\<not> gh_written g"
    and gs: "\<forall>x \<in> set gs. gh_id g < gh_id x" and rs: "\<forall>x \<in> set rs. gh_id g < rel_id x"
  shows "walk_ok F t n k (g # gs) rs out cs"
proof -
  have "ghost_of (gh_id g) gs = None" using gs by (auto simp: ghost_of_None)
  moreover have "relevant_of (gh_id g) rs = None" using rs by (auto simp: relevant_of_None rel_id_def)
  ultimately show ?thesis using rest w by (auto simp: walk_ok_def walked_def)
qed

lemma walk_ok_new:
  assumes rest: "walk_ok F t n (Suc k) gs rs out cs"
    and gs: "\<forall>x \<in> set gs. rel_id r < gh_id x" and rs: "\<forall>x \<in> set rs. rel_id r < rel_id x"
  shows "walk_ok F t n k gs (r # rs) (arrived F t n None r # out)
    (visited_cands n k (arrived F t n None r) r @ cs)"
proof -
  let ?g = "arrived F t n None r"
  have g: "gh_id ?g = rel_id r" unfolding rel_id_def by (rule arrived_sel(2)) simp
  have keys: "\<forall>x \<in> set out. rel_id r < gh_id x" using rest gs rs by (fastforce simp: walk_ok_def)
  have nog: "ghost_of (rel_id r) gs = None" using gs by (auto simp: ghost_of_None)
  have "ghost_of i (?g # out) = walked F t n (ghost_of i gs) (relevant_of i (r # rs))" for i
    using rest g nog by (cases "rel_id r = i") (auto simp: walk_ok_def walked_def rel_id_def)
  moreover have "cands_ok n k (?g # out) (r # rs) (visited_cands n k ?g r @ cs)"
    by (rule cands_ok_step [OF _ _ _ arrived_sel(1)]) (use rest rs g in \<open>auto simp: walk_ok_def rel_id_def\<close>)
  ultimately show ?thesis using rest keys g by (auto simp: walk_ok_def)
qed

lemma walk_ok_meet:
  assumes rest: "walk_ok F t n (Suc k) gs rs out cs" and same: "gh_id g = rel_id r"
    and gs: "\<forall>x \<in> set gs. gh_id g < gh_id x" and rs: "\<forall>x \<in> set rs. gh_id g < rel_id x"
  shows "walk_ok F t n k (g # gs) (r # rs) (arrived F t n (Some g) r # out)
    (visited_cands n k (arrived F t n (Some g) r) r @ cs)"
proof -
  let ?g = "arrived F t n (Some g) r"
  have g: "gh_id ?g = rel_id r"
    unfolding rel_id_def by (rule arrived_sel(2)) (use same in \<open>simp add: rel_id_def\<close>)
  have keys: "\<forall>x \<in> set out. rel_id r < gh_id x" using rest gs rs same by (fastforce simp: walk_ok_def)
  have "ghost_of i (?g # out) = walked F t n (ghost_of i (g # gs)) (relevant_of i (r # rs))" for i
    using rest g same by (cases "rel_id r = i") (auto simp: walk_ok_def walked_def rel_id_def)
  moreover have "cands_ok n k (?g # out) (r # rs) (visited_cands n k ?g r @ cs)"
    by (rule cands_ok_step [OF _ _ _ arrived_sel(1)]) (use rest rs g same in \<open>auto simp: walk_ok_def rel_id_def\<close>)
  ultimately show ?thesis using rest keys g same by (auto simp: walk_ok_def)
qed

lemma walk_is_ok:
  assumes "by_key gh_id gs" and "by_key rel_id rs" and "walk F t n k gs rs = (out, cs)"
  shows "walk_ok F t n k gs rs out cs"
  using assms
proof (induction F t n k gs rs arbitrary: out cs rule: walk.induct)
  case (1 F t n k)
  then show ?case by (simp add: walk_ok_def walked_def cands_ok_Nil)
next
  case (2 F t n k g gs)
  have below: "\<forall>x \<in> set gs. gh_id g < gh_id x" using 2(3) by simp
  show ?case
  proof (cases "gh_written g")
    case True
    obtain out' cs' where w: "walk F t n (Suc k) gs [] = (out', cs')" by fastforce
    show ?thesis
      using walk_ok_leave [OF 2(1) [OF True _ _ w] True below] 2(3,5) True w by simp
  next
    case False
    with 2(5) have "walk F t n k gs [] = (out, cs)" by simp
    then show ?thesis using walk_ok_forget [OF 2(2) [OF False] False below] 2(3) by simp
  qed
next
  case (3 F t n k r rs)
  note v = visit_arrived [where old = None, of F n k r t, simplified option.case]
  obtain out' cs' where w: "walk F t n (Suc k) [] rs = (out', cs')" by fastforce
  show ?case
    using walk_ok_new [where r = r, OF 3(1) [OF v [symmetric] _ _ _ w]] 3(3,4) w by (simp add: v)
next
  case (4 F t n k g gs r rs)
  have below: "\<forall>x \<in> set gs. gh_id g < gh_id x" "\<forall>x \<in> set rs. rel_id r < rel_id x" using 4(5,6) by simp_all
  consider "gh_id g < es_id (re_entity r)" | "gh_id g = es_id (re_entity r)" | "es_id (re_entity r) < gh_id g"
    by fastforce
  then show ?case
  proof cases
    case 1
    then have first: "\<forall>x \<in> set (r # rs). gh_id g < rel_id x" using below(2) by (auto simp: rel_id_def)
    show ?thesis
    proof (cases "gh_written g")
      case True
      obtain out' cs' where w: "walk F t n (Suc k) gs (r # rs) = (out', cs')" by fastforce
      show ?thesis
        using walk_ok_leave [OF 4(1) [OF 1 True _ _ w] True below(1) first] 4(5-7) 1 True w by simp
    next
      case False
      with 1 4(7) have "walk F t n k gs (r # rs) = (out, cs)" by simp
      then show ?thesis using walk_ok_forget [OF 4(2) [OF 1 False] False below(1) first] 4(5,6) by simp
    qed
  next
    case 2
    then have n2: "\<not> gh_id g < es_id (re_entity r)" by simp
    note v = visit_arrived [where old = "Some g", of F n k r t, simplified option.case]
    obtain out' cs' where w: "walk F t n (Suc k) gs rs = (out', cs')" by fastforce
    have same: "gh_id g = rel_id r" using 2 by (simp add: rel_id_def)
    show ?thesis
      using walk_ok_meet [OF 4(3) [OF n2 2 v [symmetric] refl _ _ w] same below(1)] below(2) same 4(5-7) n2 2 w
      by (simp add: v)
  next
    case 3
    then have n3: "\<not> gh_id g < es_id (re_entity r)" "gh_id g \<noteq> es_id (re_entity r)" by auto
    note v = visit_arrived [where old = None, of F n k r t, simplified option.case]
    obtain out' cs' where w: "walk F t n (Suc k) (g # gs) rs = (out', cs')" by fastforce
    have "\<forall>x \<in> set (g # gs). rel_id r < gh_id x" using 3 below(1) by (auto simp: rel_id_def)
    then show ?thesis
      using walk_ok_new [where r = r, OF 4(4) [OF n3 v [symmetric] refl _ _ w] _ below(2)] 4(5-7) n3 w by (simp add: v)
  qed
qed

lemma walk_result:
  assumes "by_key gh_id gs" and "by_key rel_id rs" and "walk F t n k gs rs = (out, cs)"
  shows "gh_id ` set out \<subseteq> gh_id ` set gs \<union> rel_id ` set rs" "by_key gh_id out"
    "ghost_of i out = walked F t n (ghost_of i gs) (relevant_of i rs)" "cands_ok n k out rs cs"
  using walk_is_ok [OF assms] by (simp_all add: walk_ok_def)

end
