(* ===== verification/Ghost_Build.thy ===== *)
theory Ghost_Build
  imports Ghost_Table "HOL-Library.Multiset"
begin

section \<open>What a built message says of each entity\<close>

text \<open>
  The choice of what to send, by budget and priority, only marks candidates and ages ghosts. So a
  message built by \<open>PeerGhosts::build\<close> can be described entity by entity, whatever was chosen
  (\<open>build_result\<close>): it has the dirty record of a ghost and commits it, or leaves the ghost alone.
\<close>

subsection \<open>Sorting\<close>

lemma mset_insert_after: "mset (insert_after lt x ys) = add_mset x (mset ys)"
  by (induction ys) auto

lemma mset_stable_sort [simp]: "mset (stable_sort lt xs) = mset xs"
proof -
  have "mset (fold (insert_after lt) xs ys) = mset xs + mset ys" for ys
    by (induction xs arbitrary: ys) (simp_all add: mset_insert_after)
  from this [of "[]"] show ?thesis by (simp add: stable_sort_def)
qed

lemma set_stable_sort [simp]: "set (stable_sort lt xs) = set xs"
  by (metis mset_stable_sort set_mset_mset)

lemma distinct_stable_sort [simp]: "distinct (stable_sort lt xs) = distinct xs"
  by (metis mset_stable_sort mset_eq_imp_distinct_iff)

lemma length_stable_sort [simp]: "length (stable_sort lt xs) = length xs"
  by (metis mset_stable_sort size_mset)

subsection \<open>What the choice leaves alone\<close>

definition strip :: "'d float_arith \<Rightarrow> 'd ghost \<Rightarrow> 'd ghost" where
  "strip F g = g\<lparr>gh_accumulator := f_int F 0, gh_last_listed := kNoTick\<rparr>"

lemma strip_sel [simp]:
  "gh_id (strip F g) = gh_id g" "gh_latest (strip F g) = gh_latest g" "gh_written (strip F g) = gh_written g"
  "gh_since (strip F g) = gh_since g" "gh_owner_since (strip F g) = gh_owner_since g"
  "gh_max_since (strip F g) = gh_max_since g" "gh_confirmed (strip F g) = gh_confirmed g"
  "gh_leaving (strip F g) = gh_leaving g" "gh_leave_since (strip F g) = gh_leave_since g"
  by (simp_all add: strip_def)

lemma strip_accumulator [simp]: "strip F (g\<lparr>gh_accumulator := x\<rparr>) = strip F g"
  by (simp add: strip_def)

lemma strip_listed [simp]: "strip F (g\<lparr>gh_last_listed := x\<rparr>) = strip F g"
  by (simp add: strip_def)

lemma strip_commit: "strip F (commit_write F g e n t) = commit_write F (strip F g) e n t"
  by (simp add: commit_write_def commit_since_def strip_def Let_def)

lemma strip_dirty: "dirty_write (strip F g) e n = dirty_write g e n"
  by (simp add: dirty_write_def dirty_slot_def)

definition unselected :: "candidate \<Rightarrow> candidate" where
  "unselected c = c\<lparr>ca_selected := False\<rparr>"

lemma unselected_sel [simp]:
  "ca_ghost (unselected c) = ca_ghost c" "ca_relevant (unselected c) = ca_relevant c"
  "ca_write (unselected c) = ca_write c" "ca_size (unselected c) = ca_size c"
  "unselected (c\<lparr>ca_selected := b\<rparr>) = unselected c"
  by (simp_all add: unselected_def)

lemma map_update_same: "f y = f (xs ! i) \<Longrightarrow> map f (xs[i := y]) = map f xs"
  by (metis list_update_id map_update)

lemma take_mandatory_same:
  assumes "map unselected cs = map unselected orig" and "rest = drop i orig"
    and "take_mandatory F weight i rest (gs, cs, order, room) = (gs', cs', order', room')"
  shows "map (strip F) gs' = map (strip F) gs \<and> map unselected cs' = map unselected cs"
  using assms
proof (induction rest arbitrary: i gs cs order room)
  case Nil
  then show ?case by simp
next
  case (Cons c rest)
  have i: "i < length orig" using Cons.prems(2) by (metis drop_all list.distinct(1) not_less)
  then have c: "c = orig ! i" and rest: "rest = drop (Suc i) orig"
    using Cons.prems(2) by (metis Cons_nth_drop_Suc list.inject)+
  have u: "unselected (cs ! i) = unselected c"
    using Cons.prems(1) i c by (metis length_map nth_map)
  show ?case
  proof (cases "re_mandatory (ca_relevant c)")
    case True
    have m: "map unselected (cs[i := c\<lparr>ca_selected := True\<rparr>]) = map unselected cs"
      by (rule map_update_same) (simp add: u)
    have "take_mandatory F weight (Suc i) rest
        (gs, cs[i := c\<lparr>ca_selected := True\<rparr>], order, room - ca_size c) = (gs', cs', order', room')"
      using Cons.prems(3) True by simp
    from Cons.IH [OF _ rest this] m Cons.prems(1) show ?thesis by (simp only: simp_thms)
  next
    case False
    have m: "map (strip F) (gs[ca_ghost c := (gs ! ca_ghost c)\<lparr>gh_accumulator := x\<rparr>]) = map (strip F) gs" for x
      by (rule map_update_same) simp
    have "take_mandatory F weight (Suc i) rest
        (gs[ca_ghost c := (gs ! ca_ghost c)\<lparr>gh_accumulator :=
          f_add F (gh_accumulator (gs ! ca_ghost c)) (weight (ca_relevant c))\<rparr>], cs, order @ [i], room) =
        (gs', cs', order', room')"
      using Cons.prems(3) False by simp
    from Cons.IH [OF Cons.prems(1) rest this] m show ?thesis by (simp only: simp_thms)
  qed
qed

lemma mark_all_same: "map unselected (mark_all js cs) = map unselected cs"
proof (induction js arbitrary: cs)
  case Nil
  then show ?case by (simp add: mark_all_def)
next
  case (Cons j js)
  have "map unselected (cs[j := (cs ! j)\<lparr>ca_selected := True\<rparr>]) = map unselected cs"
    by (rule map_update_same) simp
  with Cons [of "cs[j := (cs ! j)\<lparr>ca_selected := True\<rparr>]"] show ?case by (simp add: mark_all_def)
qed

lemma select_same: "map unselected (fst (select_candidate gs force i s)) = map unselected (fst s)"
  by (cases s) (auto simp: select_candidate_def Let_def mark_all_same)

lemma select_rest_same:
  "map unselected (fst (fold (\<lambda>i s. if ca_selected (fst s ! i) then s else select_candidate gs False i s) js s)) =
     map unselected (fst s)"
  by (induction js arbitrary: s) (simp_all add: select_same)

lemma choose_same:
  assumes "choose_writes F weight budget gs cs = (gs', cs', listed)"
  shows "map (strip F) gs' = map (strip F) gs" and "map unselected cs' = map unselected cs"
    and "set listed \<subseteq> {i. i < length gs \<and> gh_leaving (gs ! i)}" and "distinct listed"
proof -
  define leaving where "leaving = filter (\<lambda>i. gh_leaving (gs ! i)) [0..<length gs]"
  have l: "set leaving = {i. i < length gs \<and> gh_leaving (gs ! i)}" "distinct leaving"
    by (auto simp: leaving_def)
  define whole where "whole = fold (\<lambda>c n. n + ca_size c) cs (kSnapshotHeaderBytes + length leaving * 4)"
  obtain gs1 cs1 order0 room1 where tm:
    "take_mandatory F weight 0 cs (gs, cs, [], budget - kSnapshotHeaderBytes) = (gs1, cs1, order0, room1)"
    using prod_cases4 by blast
  have one: "map (strip F) gs1 = map (strip F) gs \<and> map unselected cs1 = map unselected cs"
    by (rule take_mandatory_same [OF refl _ tm]) simp
  have all: "map (strip F) gs' = map (strip F) gs \<and> map unselected cs' = map unselected cs \<and>
    set listed \<subseteq> set leaving \<and> distinct listed"
  proof (cases "whole \<le> budget")
    case True
    with assms have "gs' = gs" "cs' = map (\<lambda>c. c\<lparr>ca_selected := True\<rparr>) cs" "listed = leaving"
      unfolding choose_writes_def Let_def leaving_def [symmetric] whole_def [symmetric] by simp_all
    then show ?thesis using l by simp
  next
    case False
    define order where "order = stable_sort (\<lambda>a b. f_less F (gh_accumulator (gs1 ! ca_ghost (cs1 ! b)))
                          (gh_accumulator (gs1 ! ca_ghost (cs1 ! a)))) order0"
    obtain cs2 room2 where two: "(case order of [] \<Rightarrow> (cs1, room1)
        | first # others \<Rightarrow> select_candidate gs1 True first (cs1, room1)) = (cs2, room2)"
      by fastforce
    have m2: "map unselected cs2 = map unselected cs1"
      using two select_same [of gs1 True "hd order" "(cs1, room1)"] by (cases order) auto
    obtain count cs3 room3 where three: "fold (\<lambda>i s. if ca_selected (fst s ! i) then s else select_candidate gs1 False i s)
        (tl order) (cs2, room2 - count * 4) = (cs3, room3)"
      and res: "gs' = gs1" "cs' = cs3" "listed = take count (stable_sort (removal_before gs1) leaving)"
      using assms False
      unfolding choose_writes_def Let_def leaving_def [symmetric] whole_def [symmetric] tm prod.case
        order_def [symmetric] two
      by (auto split: prod.splits if_splits)
    have "map unselected cs3 = map unselected cs2"
      using select_rest_same [of gs1 "tl order" "(cs2, room2 - count * 4)"] three by simp
    then show ?thesis
      using res one m2 l set_take_subset [of count "stable_sort (removal_before gs1) leaving"] by auto
  qed
  then show "map (strip F) gs' = map (strip F) gs" "map unselected cs' = map unselected cs"
    "set listed \<subseteq> {i. i < length gs \<and> gh_leaving (gs ! i)}" "distinct listed"
    using l by auto
qed

lemma cap_selected_same: "map unselected (cap_selected n cs) = map unselected cs"
  by (induction cs arbitrary: n) (simp_all add: Let_def)

lemma cap_selected_count: "length (filter ca_selected (cap_selected n cs)) \<le> kMaxSnapshotEntries - n"
proof (induction cs arbitrary: n)
  case Nil
  then show ?case by simp
next
  case (Cons c cs)
  from Cons [of n] Cons [of "Suc n"] show ?case
    by (cases "ca_selected c \<and> n < kMaxSnapshotEntries") (auto simp: Let_def)
qed

lemma list_removed_same: "map (strip F) (list_removed t js gs) = map (strip F) gs"
proof (induction js arbitrary: gs)
  case Nil
  then show ?case by (simp add: list_removed_def)
next
  case (Cons j js)
  have "map (strip F) (gs[j := (gs ! j)\<lparr>gh_last_listed := t\<rparr>]) = map (strip F) gs"
    by (rule map_update_same) simp
  with Cons [of "gs[j := (gs ! j)\<lparr>gh_last_listed := t\<rparr>]"] show ?case by (simp add: list_removed_def)
qed

lemma commit_all_nth:
  assumes "distinct (map ca_ghost cs)"
  shows "length (commit_all F n t cs gs) = length gs \<and>
    (k < length gs \<longrightarrow> commit_all F n t cs gs ! k =
      (case find_first (\<lambda>c. ca_selected c \<and> ca_ghost c = k) cs of
         None \<Rightarrow> gs ! k
       | Some c \<Rightarrow> commit_write F (gs ! k) (sw_entity (ca_write c)) n t))"
  using assms
proof (induction cs arbitrary: gs)
  case Nil
  then show ?case by (simp add: commit_all_def)
next
  case (Cons c cs)
  have rec: "commit_all F n t (c # cs) gs = commit_all F n t cs
      (if ca_selected c then gs[ca_ghost c := commit_write F (gs ! ca_ghost c) (sw_entity (ca_write c)) n t] else gs)"
    by (simp add: commit_all_def)
  have none: "find_first (\<lambda>d. ca_selected d \<and> ca_ghost d = ca_ghost c) cs = None"
    using Cons.prems by (simp add: find_first_None) (metis image_eqI)
  show ?case
    unfolding rec using Cons.IH [of gs] Cons.prems none
      Cons.IH [of "gs[ca_ghost c := commit_write F (gs ! ca_ghost c) (sw_entity (ca_write c)) n t]"]
    by (cases "ca_ghost c = k") (auto simp: nth_list_update split: option.split)
qed

subsection \<open>The message by entity\<close>

lemma ghost_of_nth: "by_key gh_id gs \<Longrightarrow> k < length gs \<Longrightarrow> ghost_of (gh_id (gs ! k)) gs = Some (gs ! k)"
  by (simp add: ghost_of_mem)

lemma ghost_of_map:
  assumes "map gh_id gs' = map gh_id gs" and "by_key gh_id gs" and "k < length gs"
  shows "ghost_of (gh_id (gs ! k)) gs' = Some (gs' ! k)"
proof -
  have "by_key gh_id gs'" using assms(1,2) by (simp add: by_key_def)
  moreover have "length gs' = length gs" using assms(1) by (rule map_eq_imp_length_eq)
  moreover have "gh_id (gs' ! k) = gh_id (gs ! k)"
    using assms(1,3) \<open>length gs' = length gs\<close> by (metis nth_map)
  ultimately show ?thesis using assms(3) ghost_of_nth by metis
qed

text \<open>\<open>g0\<close> is the ghost of \<open>i\<close> after the walk, \<open>g'\<close> after the whole build.\<close>

definition built_entity ::
  "'d float_arith \<Rightarrow> nat \<Rightarrow> tick \<Rightarrow> relevant_entity option \<Rightarrow> 'd ghost option \<Rightarrow> 'd ghost option \<Rightarrow>
     ref_snapshot snapshot_write option \<Rightarrow> bool \<Rightarrow> bool" where
  "built_entity F n t rel g0 g' w listed \<longleftrightarrow>
     (case w of
        Some w \<Rightarrow> (\<exists>r g. rel = Some r \<and> g0 = Some g \<and> w = dirty_write g (re_entity r) n \<and> \<not> listed \<and>
           \<not> gh_leaving g \<and> map_option (strip F) g' = Some (strip F (commit_write F g (re_entity r) n t)))
      | None \<Rightarrow> map_option (strip F) g' = map_option (strip F) g0 \<and>
          (listed \<longrightarrow> (\<exists>g. g0 = Some g \<and> gh_leaving g)))"

lemma built_entity_Some:
  assumes "built_entity F n t rel g0 g' (Some w) listed"
  obtains r g where "rel = Some r" "g0 = Some g" "w = dirty_write g (re_entity r) n" "\<not> listed" "\<not> gh_leaving g"
    "map_option (strip F) g' = map_option (strip F) (Some (commit_write F g (re_entity r) n t))"
  using assms by (auto simp: built_entity_def)

lemma built_entity_None:
  "built_entity F n t rel g0 g' None listed \<Longrightarrow>
     map_option (strip F) g' = map_option (strip F) g0 \<and> (listed \<longrightarrow> (\<exists>g. g0 = Some g \<and> gh_leaving g))"
  by (simp add: built_entity_def)

lemma build_result:
  assumes key: "by_key gh_id (pg_ghosts p)" and rel: "by_key rel_id rs" and n: "n \<le> 32"
    and b: "build F weight t header rs budget n p = (bt, p')"
  shows "\<exists>writes removed.
    bu_bytes bt = encode_snapshot t header removed writes \<and>
    pg_sent p' = filter (\<lambda>s. \<not> se_tick s + kSnapshotWindowTicks \<le> t) (pg_sent p) @
      [\<lparr>se_tick = t, se_written = map (es_id \<circ> sw_entity) writes, se_removed = removed\<rparr>] \<and>
    pg_acked p' = pg_acked p \<and> by_key gh_id (pg_ghosts p') \<and>
    by_key (es_id \<circ> sw_entity) writes \<and>
    length writes \<le> kMaxSnapshotEntries \<and> length removed \<le> kMaxSnapshotEntries \<and>
    (\<forall>i. built_entity F n t (relevant_of i rs) (walked F t n (ghost_of i (pg_ghosts p)) (relevant_of i rs))
       (ghost_of i (pg_ghosts p')) (find_first (\<lambda>w. es_id (sw_entity w) = i) writes) (i \<in> set removed)) \<and>
    (bu_deferred bt = 0 \<longrightarrow> (\<forall>r \<in> set rs. \<forall>g.
       walked F t n (ghost_of (rel_id r) (pg_ghosts p)) (relevant_of (rel_id r) rs) = Some g \<longrightarrow>
       \<not> is_clean g (re_entity r) \<longrightarrow> rel_id r \<in> (es_id \<circ> sw_entity) ` set writes))"
proof -
  obtain gs0 cs0 where w: "walk F t n 0 (pg_ghosts p) rs = (gs0, cs0)" by fastforce
  have key0: "by_key gh_id gs0" and of0: "\<And>i. ghost_of i gs0 = walked F t n (ghost_of i (pg_ghosts p)) (relevant_of i rs)"
    and ok: "cands_ok n 0 gs0 rs cs0"
    using walk_result [OF key rel w] by simp_all
  obtain gs1 cs1 listed0 where ch: "choose_writes F weight budget gs0 cs0 = (gs1, cs1, listed0)"
    using prod_cases3 by blast
  note same = choose_same [OF ch]
  define cs2 where "cs2 = cap_selected 0 cs1"
  define listed where "listed = take kMaxSnapshotEntries listed0"
  define gs2 where "gs2 = list_removed t listed gs1"
  define gs3 where "gs3 = commit_all F n t cs2 gs2"
  define writes where "writes = map ca_write (filter ca_selected cs2)"
  define removed where "removed = sort (map (\<lambda>i. gh_id (gs1 ! i)) listed)"
  have deferred: "bu_deferred bt = length cs2 - length (filter ca_selected cs2)"
    using b unfolding build_def Let_def w ch prod.case cs2_def [symmetric] by auto
  have res: "bu_bytes bt = encode_snapshot t header removed writes"
    "pg_sent p' = filter (\<lambda>s. \<not> se_tick s + kSnapshotWindowTicks \<le> t) (pg_sent p) @
      [\<lparr>se_tick = t, se_written = map (es_id \<circ> sw_entity) writes, se_removed = removed\<rparr>]"
    "pg_acked p' = pg_acked p" "pg_ghosts p' = gs3"
    using b unfolding build_def Let_def w ch prod.case cs2_def [symmetric] listed_def [symmetric]
      gs2_def [symmetric] gs3_def [symmetric] removed_def [symmetric]
    by (auto simp: writes_def comp_assoc)
  have u: "map unselected cs2 = map unselected cs0"
    by (simp add: cs2_def cap_selected_same same)
  have cand: "\<exists>c0 \<in> set cs0. unselected c = unselected c0" if "c \<in> set cs2" for c
    using that arg_cong [OF u, of set] by (auto simp: image_iff)
  have cand: "ca_ghost c < length gs0 \<and> cand_ok n (gs0 ! ca_ghost c) c \<and> ca_relevant c \<in> set rs" if c: "c \<in> set cs2" for c
  proof -
    obtain c0 where c0: "c0 \<in> set cs0" "unselected c = unselected c0" using cand [OF c] by blast
    then have "ca_ghost c = ca_ghost c0" "ca_relevant c = ca_relevant c0" "ca_write c = ca_write c0" "ca_size c = ca_size c0"
      using unselected_sel by metis+
    then show ?thesis using c0(1) ok by (simp add: cands_ok_def cand_ok_def candidate_id_def)
  qed
  have gmap: "map ca_ghost cs2 = map ca_ghost cs0"
    using arg_cong [OF u, of "map ca_ghost"] by (simp add: comp_def)
  have imap: "map candidate_id cs2 = map candidate_id cs0"
    using arg_cong [OF u, of "map candidate_id"] by (simp add: comp_def candidate_id_def [abs_def])
  have gdist: "distinct (map ca_ghost cs2)"
    unfolding gmap using ok by (auto simp: cands_ok_def strict_sorted_iff)
  have ikey: "by_key candidate_id cs2" using ok by (simp add: cands_ok_def by_key_def imap)
  have wid: "es_id (sw_entity (ca_write c)) = candidate_id c" if "c \<in> set cs2" for c
    using cand [OF that] n by (simp add: cand_ok_def candidate_id_def dirty_write_facts(1))
  have ids: "map (es_id \<circ> sw_entity) writes = map candidate_id (filter ca_selected cs2)"
    using wid by (simp add: writes_def)
  have s1: "map (strip F) gs2 = map (strip F) gs0"
    by (simp add: gs2_def list_removed_same same)
  have len2: "length gs2 = length gs0" "length gs1 = length gs0"
    using s1 same(1) by (metis length_map)+
  have id1: "gh_id (gs1 ! k) = gh_id (gs0 ! k)" if "k < length gs0" for k
    using same(1) len2 that by (metis nth_map strip_sel(1))
  have nth2: "strip F (gs2 ! k) = strip F (gs0 ! k)" if "k < length gs0" for k
    using s1 len2 that by (metis nth_map)
  have nth3: "gs3 ! k = (case find_first (\<lambda>c. ca_selected c \<and> ca_ghost c = k) cs2 of
         None \<Rightarrow> gs2 ! k | Some c \<Rightarrow> commit_write F (gs2 ! k) (sw_entity (ca_write c)) n t)" if "k < length gs0" for k
    using commit_all_nth [OF gdist, of F n t gs2 k] that len2 by (simp add: gs3_def)
  have len3: "length gs3 = length gs0"
    using commit_all_nth [OF gdist, of F n t gs2 0] len2 by (simp add: gs3_def)
  have id3: "gh_id (gs3 ! k) = gh_id (gs0 ! k)" if "k < length gs0" for k
    using nth3 [OF that] arg_cong [OF nth2 [OF that], of gh_id] by (simp split: option.split)
  have map3: "map gh_id gs3 = map gh_id gs0"
    by (rule nth_equalityI) (simp_all add: len3 id3)
  have key3: "by_key gh_id gs3" using key0 by (simp add: by_key_def map3)
  have leaving: "k < length gs0 \<and> gh_leaving (gs0 ! k)" if "k \<in> set listed" for k
    using that same(3) by (auto simp: listed_def dest: in_set_takeD)
  have "set removed = (\<lambda>k. gh_id (gs1 ! k)) ` set listed" by (simp add: removed_def)
  also have "\<dots> = (\<lambda>k. gh_id (gs0 ! k)) ` set listed"
    by (rule image_cong [OF refl]) (use leaving id1 in blast)
  finally have rset: "set removed = (\<lambda>k. gh_id (gs0 ! k)) ` set listed" .
  have one: "built_entity F n t (relevant_of i rs) (ghost_of i gs0) (ghost_of i gs3)
      (find_first (\<lambda>w. es_id (sw_entity w) = i) writes) (i \<in> set removed)" for i
  proof (cases "find_first (\<lambda>w. es_id (sw_entity w) = i) writes")
    case (Some wr)
    note wr = find_first_Some [OF Some]
    then have "wr \<in> ca_write ` set (filter ca_selected cs2)" by (simp add: writes_def)
    then obtain c where c: "c \<in> set cs2" "ca_selected c" "wr = ca_write c" by auto
    then have ci: "candidate_id c = i" using wid [OF c(1)] wr by simp
    define k where "k = ca_ghost c"
    have k: "k < length gs0" "gh_id (gs0 ! k) = i" "\<not> gh_leaving (gs0 ! k)"
      "wr = dirty_write (gs0 ! k) (re_entity (ca_relevant c)) n" "ca_relevant c \<in> set rs"
      using cand [OF c(1)] ci c(3) by (simp_all add: k_def cand_ok_def)
    have r: "relevant_of i rs = Some (ca_relevant c)"
      using k(5) ci find_first_by_key [OF rel, of i] by (simp add: relevant_of_def rel_id_def candidate_id_def)
    have g0: "ghost_of i gs0 = Some (gs0 ! k)" using ghost_of_nth [OF key0 k(1)] k(2) by simp
    have "find_first (\<lambda>d. ca_selected d \<and> ca_ghost d = k) cs2 = Some c"
    proof -
      have "find_first (\<lambda>d. ca_selected d \<and> ca_ghost d = k) cs2 \<noteq> None"
        unfolding find_first_None using c k_def by blast
      then obtain d where d: "find_first (\<lambda>d. ca_selected d \<and> ca_ghost d = k) cs2 = Some d" by blast
      from find_first_Some [OF d] have "d \<in> set cs2" "ca_ghost d = ca_ghost c" by (simp_all add: k_def)
      with gdist c(1) have "d = c" by (simp add: distinct_map inj_on_def)
      with d show ?thesis by simp
    qed
    then have "gs3 ! k = commit_write F (gs2 ! k) (re_entity (ca_relevant c)) n t"
      using nth3 [OF k(1)] cand [OF c(1)] n by (simp add: cand_ok_def dirty_write_facts(1))
    then have "strip F (gs3 ! k) = strip F (commit_write F (gs0 ! k) (re_entity (ca_relevant c)) n t)"
      by (simp add: strip_commit nth2 [OF k(1)])
    moreover have "ghost_of i gs3 = Some (gs3 ! k)"
      using ghost_of_map [OF map3 key0 k(1)] k(2) by simp
    moreover have "i \<notin> set removed"
    proof
      assume "i \<in> set removed"
      then obtain j where j: "j \<in> set listed" "gh_id (gs0 ! j) = gh_id (gs0 ! k)"
        unfolding rset using k(2) by auto
      have "j = k" by (rule by_key_nth_eq [OF key0 _ k(1) j(2)]) (use leaving [OF j(1)] in simp)
      with leaving [OF j(1)] k(3) show False by simp
    qed
    ultimately show ?thesis using Some r g0 k by (simp add: built_entity_def)
  next
    case None
    have nsel: "\<not> (ca_selected c \<and> candidate_id c = i)" if "c \<in> set cs2" for c
    proof
      assume c: "ca_selected c \<and> candidate_id c = i"
      then have "ca_write c \<in> set writes" using that by (simp add: writes_def)
      with None [unfolded find_first_None] have "es_id (sw_entity (ca_write c)) \<noteq> i" by blast
      with wid [OF that] c show False by simp
    qed
    have same_ghost: "map_option (strip F) (ghost_of i gs3) = map_option (strip F) (ghost_of i gs0)"
    proof (cases "ghost_of i gs0")
      case None
      then have "i \<notin> set (map gh_id gs0)" by (simp add: ghost_of_None)
      then have "ghost_of i gs3 = None" unfolding map3 [symmetric] by (simp add: ghost_of_None)
      with None show ?thesis by simp
    next
      case (Some g)
      then obtain k where k: "k < length gs0" "g = gs0 ! k" "gh_id (gs0 ! k) = i"
        using ghost_of_Some [OF Some] by (auto simp: in_set_conv_nth)
      have "candidate_id d = i" if "d \<in> set cs2" "ca_ghost d = k" for d
        using cand [OF that(1)] that(2) k(3) by (simp add: cand_ok_def)
      then have "find_first (\<lambda>d. ca_selected d \<and> ca_ghost d = k) cs2 = None"
        unfolding find_first_None using nsel by blast
      then have "gs3 ! k = gs2 ! k" using nth3 [OF k(1)] by simp
      then show ?thesis
        using ghost_of_map [OF map3 key0 k(1)] k nth2 [OF k(1)] Some by simp
    qed
    have "\<exists>g. ghost_of i gs0 = Some g \<and> gh_leaving g" if r: "i \<in> set removed"
    proof -
      obtain j where j: "j \<in> set listed" "i = gh_id (gs0 ! j)" using r unfolding rset by auto
      with leaving [OF j(1)] ghost_of_nth [OF key0] show ?thesis by blast
    qed
    with None same_ghost show ?thesis by (simp add: built_entity_def)
  qed
  have everything: "rel_id r \<in> (es_id \<circ> sw_entity) ` set writes"
    if d: "bu_deferred bt = 0" and r: "r \<in> set rs" "ghost_of (rel_id r) gs0 = Some g" "\<not> is_clean g (re_entity r)" for r g
  proof -
    have "length (filter ca_selected cs2) = length cs2"
      using d deferred length_filter_le [of ca_selected cs2] by simp
    then have sel: "filter ca_selected cs2 = cs2" by (metis filter_id_conv filter_True length_filter_less less_irrefl)
    have "r \<in> ca_relevant ` set cs0" using ok r by (auto simp: cands_ok_def rel_id_def)
    moreover have "map ca_relevant cs2 = map ca_relevant cs0"
      using arg_cong [OF u, of "map ca_relevant"] by (simp add: comp_def)
    ultimately have "r \<in> ca_relevant ` set cs2" by (metis list.set_map)
    then have "rel_id r \<in> set (map candidate_id cs2)" by (auto simp: rel_id_def candidate_id_def)
    then show ?thesis using ids by (metis list.set_map sel)
  qed
  have lens: "length writes \<le> kMaxSnapshotEntries" "length removed \<le> kMaxSnapshotEntries"
    using cap_selected_count [of 0 cs1] by (simp_all add: writes_def removed_def listed_def cs2_def)
  have wkey: "by_key (es_id \<circ> sw_entity) writes"
    using by_key_filter [OF ikey, of ca_selected] by (simp add: by_key_def ids)
  show ?thesis
    using res key3 wkey lens one of0 everything by (intro exI [of _ writes] exI [of _ removed]) (simp add: comp_def)
qed

end
