(* ===== verification/Snapshot_Apply.thy ===== *)
theory Snapshot_Apply
  imports Snapshot_Codec
begin

section \<open>A snapshot on top of the state before it\<close>

text \<open>
  \<open>apply_snapshot\<close> of \<^verbatim>\<open>src/net/snapshot_codec.cpp\<close>, and its specification on the abstract view of
  a state (\<open>view_delta\<close>): a removed id goes, a record sets its changed slots, clears its lost ones
  and keeps the rest.
\<close>

text \<open>The loop over the slots of the new mask; \<open>written\<close> counts the record's values used so far.\<close>

fun merge_blobs :: "nat list \<Rightarrow> u32 \<Rightarrow> entity_snapshot option \<Rightarrow> snapshot_record \<Rightarrow> nat \<Rightarrow> bytes list" where
  "merge_blobs [] m old r written = []"
| "merge_blobs (slot # slots) m old r written =
     (if and m (slot_bit slot) = 0 then merge_blobs slots m old r written
      else if and (sr_changed r) (slot_bit slot) \<noteq> 0
      then sr_blobs r ! written # merge_blobs slots m old r (Suc written)
      else (case old of None \<Rightarrow> [] | Some e \<Rightarrow> es_component e slot) # merge_blobs slots m old r written)"

definition merge_record :: "entity_snapshot option \<Rightarrow> snapshot_record \<Rightarrow> entity_snapshot" where
  "merge_record old r =
     (let old_mask = (case old of None \<Rightarrow> 0 | Some e \<Rightarrow> es_mask e);
          m = or (and old_mask (not (sr_lost r))) (sr_changed r)
      in \<lparr>es_id = sr_id r,
          es_owner = (case sr_owner r of Some p \<Rightarrow> p
                      | None \<Rightarrow> (case old of Some e \<Rightarrow> es_owner e | None \<Rightarrow> kServerPeerId)),
          es_mask = m,
          es_blobs = merge_blobs [0..<kSlots] m old r 0\<rparr>)"

text \<open>One turn of the loop over the records; the first \<open>held\<close> entities are those of the state before.\<close>

definition apply_record ::
  "nat \<Rightarrow> bool \<Rightarrow> snapshot_record \<Rightarrow> entity_snapshot list \<Rightarrow> entity_snapshot list option" where
  "apply_record held strict r ents =
     (let k = lower_bound (\<lambda>e. es_id e < sr_id r) (take held ents);
          known = (k \<noteq> held \<and> es_id (ents ! k) = sr_id r)
      in if \<not> known \<and> sr_owner r = None then (if strict then None else Some ents)
         else
           (let new = merge_record (if known then Some (ents ! k) else None) r
            in Some (if known then ents[k := new] else ents @ [new])))"

fun apply_records ::
  "nat \<Rightarrow> bool \<Rightarrow> snapshot_record list \<Rightarrow> entity_snapshot list \<Rightarrow> entity_snapshot list option" where
  "apply_records held strict [] ents = Some ents"
| "apply_records held strict (r # rs) ents =
     (case apply_record held strict r ents of
        None \<Rightarrow> None
      | Some ents' \<Rightarrow> apply_records held strict rs ents')"

text \<open>\<open>std::unique\<close>: the first of each run of elements with one key.\<close>

fun unique_by :: "('a \<Rightarrow> 'k) \<Rightarrow> 'a list \<Rightarrow> 'a list" where
  "unique_by f [] = []"
| "unique_by f [x] = [x]"
| "unique_by f (x # y # zs) = (if f x = f y then unique_by f (x # zs) else x # unique_by f (y # zs))"

definition apply_snapshot :: "snapshot_state option \<Rightarrow> snapshot_delta \<Rightarrow> bool \<Rightarrow> snapshot_state option" where
  "apply_snapshot previous delta strict =
     (let ents0 = (case previous of None \<Rightarrow> [] | Some st \<Rightarrow> st_entities st);
          ents1 = (if sd_removed delta \<noteq> []
                   then filter (\<lambda>e. es_id e \<notin> set (sd_removed delta)) ents0 else ents0);
          held = length ents1
      in case apply_records held strict (sd_records delta) ents1 of
           None \<Rightarrow> None
         | Some ents \<Rightarrow>
             Some \<lparr>st_tick = sd_tick delta,
                st_entities = (if length ents \<noteq> held
                  then rev (unique_by es_id (rev (sort_key es_id ents))) else ents)\<rparr>)"

subsection \<open>The specification\<close>

definition record_value :: "snapshot_record \<Rightarrow> nat \<Rightarrow> bytes" where
  "record_value r s = sr_blobs r ! slot_index (sr_changed r) s"

definition view_merge :: "entity_view option \<Rightarrow> snapshot_record \<Rightarrow> entity_view" where
  "view_merge old r =
     (case sr_owner r of Some p \<Rightarrow> p | None \<Rightarrow> (case old of Some (p, _) \<Rightarrow> p | None \<Rightarrow> kServerPeerId),
      \<lambda>s. if bit (sr_changed r) s then Some (record_value r s)
          else if bit (sr_lost r) s then None
          else (case old of None \<Rightarrow> None | Some (_, vals) \<Rightarrow> vals s))"

text \<open>
  \<open>base\<close> is the state before, less what was removed. A record that creates an entity starts it
  over; one for an entity of the base goes on top of what the message made of it so far.
\<close>

definition view_record :: "(net_id \<Rightarrow> entity_view option) \<Rightarrow> snapshot_record \<Rightarrow>
    (net_id \<Rightarrow> entity_view option) \<Rightarrow> net_id \<Rightarrow> entity_view option" where
  "view_record base r v =
     (if base (sr_id r) = None
      then (if sr_owner r = None then v else v(sr_id r \<mapsto> view_merge None r))
      else v(sr_id r \<mapsto> view_merge (v (sr_id r)) r))"

definition view_base :: "snapshot_delta \<Rightarrow> (net_id \<Rightarrow> entity_view option) \<Rightarrow> net_id \<Rightarrow> entity_view option" where
  "view_base d v i = (if i \<in> set (sd_removed d) then None else v i)"

definition view_delta :: "snapshot_delta \<Rightarrow> (net_id \<Rightarrow> entity_view option) \<Rightarrow> net_id \<Rightarrow> entity_view option" where
  "view_delta d v = fold (view_record (view_base d v)) (sd_records d) (view_base d v)"

definition fits_view :: "snapshot_delta \<Rightarrow> (net_id \<Rightarrow> entity_view option) \<Rightarrow> bool" where
  "fits_view d v \<longleftrightarrow> (\<forall>r \<in> set (sd_records d). sr_owner r = None \<longrightarrow> view_base d v (sr_id r) \<noteq> None)"

definition delta_ok :: "snapshot_delta \<Rightarrow> bool" where
  "delta_ok d \<longleftrightarrow> (\<forall>r \<in> set (sd_records d). length (sr_blobs r) = popcount (sr_changed r))"

definition view_of :: "snapshot_state option \<Rightarrow> net_id \<Rightarrow> entity_view option" where
  "view_of st = (case st of None \<Rightarrow> Map.empty | Some st \<Rightarrow> state_view st)"

definition state_wf :: "snapshot_state \<Rightarrow> bool" where
  "state_wf st \<longleftrightarrow> state_ok st \<and> (\<forall>e \<in> set (st_entities st). es_ok e)"

subsection \<open>Merging one record\<close>

lemma merge_blobs_map:
  assumes "\<And>s. s \<in> set slots \<Longrightarrow> s < 32" and "distinct slots"
  shows "merge_blobs slots m old r w =
    map (\<lambda>s. if bit (sr_changed r) s
             then sr_blobs r ! (w + length (filter (\<lambda>t. bit m t \<and> bit (sr_changed r) t) (takeWhile (\<lambda>t. t \<noteq> s) slots)))
             else (case old of None \<Rightarrow> [] | Some e \<Rightarrow> es_component e s))
      (filter (bit m) slots)"
  using assms
proof (induction slots arbitrary: w)
  case Nil
  then show ?case by simp
next
  case (Cons x slots)
  have x: "x < 32" using Cons.prems by simp
  have tw: "takeWhile (\<lambda>t. t \<noteq> s) (x # slots) = x # takeWhile (\<lambda>t. t \<noteq> s) slots" if "s \<in> set slots" for s
    using that Cons.prems by auto
  show ?case
    using Cons.IH [of w] Cons.IH [of "Suc w"] Cons.prems has_slot [OF x] tw
    by (auto simp: intro!: map_cong)
qed

lemma merge_blobs_all:
  assumes sub: "\<And>s. bit (sr_changed r) s \<Longrightarrow> bit m s"
  shows "merge_blobs [0..<kSlots] m old r 0 =
    map (\<lambda>s. if bit (sr_changed r) s then record_value r s
             else (case old of None \<Rightarrow> [] | Some e \<Rightarrow> es_component e s)) (bit_slots m)"
proof -
  have tw: "takeWhile (\<lambda>t. t \<noteq> s) [0..<32] = [0..<s]" if "s < 32" for s :: nat
  proof -
    have "takeWhile (\<lambda>t. t \<noteq> s) ([0..<s] @ s # [Suc s..<32]) = [0..<s]"
      by (subst takeWhile_append2) auto
    then show ?thesis using upt_split_at [OF that] by simp
  qed
  have "merge_blobs [0..<kSlots] m old r 0 =
    map (\<lambda>s. if bit (sr_changed r) s
             then sr_blobs r ! (0 + length (filter (\<lambda>t. bit m t \<and> bit (sr_changed r) t) (takeWhile (\<lambda>t. t \<noteq> s) [0..<kSlots])))
             else (case old of None \<Rightarrow> [] | Some e \<Rightarrow> es_component e s))
      (filter (bit m) [0..<kSlots])"
    by (rule merge_blobs_map) (simp_all add: kSlots_def)
  also have "\<dots> = map (\<lambda>s. if bit (sr_changed r) s then record_value r s
             else (case old of None \<Rightarrow> [] | Some e \<Rightarrow> es_component e s)) (bit_slots m)"
    unfolding bit_slots_filter kSlots_def
  proof (rule map_cong [OF refl])
    fix s
    assume "s \<in> set (filter (bit m) [0..<32])"
    then have s: "s < 32" by simp
    have "filter (\<lambda>t. bit m t \<and> bit (sr_changed r) t) [0..<s] = filter (bit (sr_changed r)) [0..<s]"
      by (rule filter_cong) (use sub in auto)
    then show "(if bit (sr_changed r) s
          then sr_blobs r ! (0 + length (filter (\<lambda>t. bit m t \<and> bit (sr_changed r) t) (takeWhile (\<lambda>t. t \<noteq> s) [0..<32])))
          else (case old of None \<Rightarrow> [] | Some e \<Rightarrow> es_component e s)) =
        (if bit (sr_changed r) s then record_value r s
         else (case old of None \<Rightarrow> [] | Some e \<Rightarrow> es_component e s))"
      by (simp add: tw [OF s] record_value_def slot_index_filter [OF s])
  qed
  finally show ?thesis .
qed

lemma merge_record_view:
  shows "es_ok (merge_record old r)" and "es_id (merge_record old r) = sr_id r"
    and "entity_view (merge_record old r) = view_merge (map_option entity_view old) r"
proof -
  define m where "m = or (and (case old of None \<Rightarrow> 0 | Some e \<Rightarrow> es_mask e) (not (sr_lost r))) (sr_changed r)"
  have bm: "bit m s \<longleftrightarrow> (\<exists>e. old = Some e \<and> bit (es_mask e) s) \<and> \<not> bit (sr_lost r) s \<or> bit (sr_changed r) s" for s
    by (cases old) (auto simp: m_def bit_or_iff bit_and_iff bit_not_iff dest: bit_u32)
  let ?f = "\<lambda>s. if bit (sr_changed r) s then record_value r s
             else (case old of None \<Rightarrow> [] | Some e \<Rightarrow> es_component e s)"
  have mask: "es_mask (merge_record old r) = m"
    and blobs: "es_blobs (merge_record old r) = map ?f (bit_slots m)"
    using merge_blobs_all [of r m old] bm by (auto simp: merge_record_def Let_def m_def)
  show "es_ok (merge_record old r)" by (rule ok_of_blobs [OF mask blobs])
  show "es_id (merge_record old r) = sr_id r" by (simp add: merge_record_def Let_def)
  have comp: "es_component (merge_record old r) s = ?f s" if "bit m s" for s
    by (rule component_of_blobs [OF mask blobs that])
  have "es_value (merge_record old r) s = snd (view_merge (map_option entity_view old) r) s" for s
  proof -
    have "es_value (merge_record old r) s = (if bit m s then Some (?f s) else None)"
      using comp [of s] by (simp add: es_value_def mask)
    also have "\<dots> = snd (view_merge (map_option entity_view old) r) s"
      using bm [of s] by (cases old) (auto simp: es_value_def view_merge_def entity_view_def)
    finally show ?thesis .
  qed
  moreover have "es_owner (merge_record old r) = fst (view_merge (map_option entity_view old) r)"
    by (cases old; cases "sr_owner r") (simp_all add: merge_record_def Let_def view_merge_def entity_view_def)
  ultimately show "entity_view (merge_record old r) = view_merge (map_option entity_view old) r"
    by (simp add: entity_view_def prod_eq_iff fun_eq_iff)
qed

subsection \<open>The loop over the records\<close>

text \<open>The last entity with an id, which is the one the message leaves standing.\<close>

definition last_with :: "('a \<Rightarrow> 'k) \<Rightarrow> 'k \<Rightarrow> 'a list \<Rightarrow> 'a option" where
  "last_with f i xs = find_first (\<lambda>x. f x = i) (rev xs)"

lemma last_with_Nil [simp]: "last_with f i [] = None"
  by (simp add: last_with_def)

lemma last_with_snoc: "last_with f i (xs @ [x]) = (if f x = i then Some x else last_with f i xs)"
  by (simp add: last_with_def)

lemma last_with_None: "last_with f i xs = None \<longleftrightarrow> i \<notin> f ` set xs"
  by (auto simp: last_with_def find_first_None)

lemma last_with_Some: "last_with f i xs = Some x \<Longrightarrow> x \<in> set xs \<and> f x = i"
  using find_first_Some by (force simp: last_with_def)

lemma last_with_unique:
  "k < length xs \<Longrightarrow> (\<And>j. j < length xs \<Longrightarrow> f (xs ! j) = f (xs ! k) \<Longrightarrow> j = k) \<Longrightarrow>
     last_with f (f (xs ! k)) xs = Some (xs ! k)"
proof -
  assume k: "k < length xs" and u: "\<And>j. j < length xs \<Longrightarrow> f (xs ! j) = f (xs ! k) \<Longrightarrow> j = k"
  have "last_with f (f (xs ! k)) xs \<noteq> None" using k by (auto simp: last_with_None)
  then obtain x where x: "last_with f (f (xs ! k)) xs = Some x" by auto
  from last_with_Some [OF this] obtain j where "j < length xs" "x = xs ! j" "f x = f (xs ! k)"
    by (auto simp: in_set_conv_nth)
  with u x show ?thesis by metis
qed

lemma last_with_update:
  assumes "k < length xs" and "f y = f (xs ! k)"
    and "\<And>j. j < length xs \<Longrightarrow> f (xs ! j) = f (xs ! k) \<Longrightarrow> j = k"
  shows "last_with f i (xs[k := y]) = (if i = f y then Some y else last_with f i xs)"
  using assms
proof (induction xs rule: rev_induct)
  case Nil
  then show ?case by simp
next
  case (snoc x xs)
  show ?case
  proof (cases "k = length xs")
    case True
    then show ?thesis using snoc.prems by (auto simp: last_with_snoc)
  next
    case False
    then have k: "k < length xs" using snoc.prems(1) by simp
    have x: "f x \<noteq> f (xs ! k)" using snoc.prems(3) [of "length xs"] k by (auto simp: nth_append)
    have "last_with f i (xs[k := y]) = (if i = f y then Some y else last_with f i xs)"
    proof (rule snoc.IH [OF k])
      show "f y = f (xs ! k)" using snoc.prems(2) k by (simp add: nth_append)
      show "j = k" if "j < length xs" "f (xs ! j) = f (xs ! k)" for j
        using snoc.prems(3) [of j] that k by (simp add: nth_append)
    qed
    then show ?thesis using k x snoc.prems(2) by (auto simp: list_update_append last_with_snoc nth_append)
  qed
qed

definition loop_ok :: "nat \<Rightarrow> (net_id \<Rightarrow> entity_view option) \<Rightarrow> entity_snapshot list \<Rightarrow>
    (net_id \<Rightarrow> entity_view option) \<Rightarrow> bool" where
  "loop_ok held base ents v \<longleftrightarrow>
     held \<le> length ents \<and> by_key es_id (take held ents) \<and>
     (\<forall>e \<in> set (drop held ents). es_id e \<notin> es_id ` set (take held ents)) \<and>
     (\<forall>e \<in> set ents. es_ok e) \<and>
     (\<forall>i. map_option entity_view (last_with es_id i ents) = v i) \<and>
     (\<forall>i. base i \<noteq> None \<longleftrightarrow> i \<in> es_id ` set (take held ents))"

lemma loop_okD:
  assumes "loop_ok held base ents v"
  shows "held \<le> length ents" "by_key es_id (take held ents)"
    "\<And>e. e \<in> set (drop held ents) \<Longrightarrow> es_id e \<notin> es_id ` set (take held ents)"
    "\<And>e. e \<in> set ents \<Longrightarrow> es_ok e"
    "\<And>i. map_option entity_view (last_with es_id i ents) = v i"
    "\<And>i. base i \<noteq> None \<longleftrightarrow> i \<in> es_id ` set (take held ents)"
  using assms by (simp_all add: loop_ok_def)

lemma known_iff:
  assumes ok: "loop_ok held base ents v"
    and k: "k = lower_bound (\<lambda>e. es_id e < i) (take held ents)"
  shows "(k \<noteq> held \<and> es_id (ents ! k) = i) \<longleftrightarrow> base i \<noteq> None"
    and "k \<noteq> held \<Longrightarrow> k < held"
proof -
  note D = loop_okD [OF ok]
  have len: "length (take held ents) = held" using D(1) by simp
  have le: "k \<le> held" using lower_bound_le k len by metis
  then show "k \<noteq> held \<Longrightarrow> k < held" by simp
  note c = lower_bound_cases [OF D(2), of i, folded k, unfolded len]
  show "(k \<noteq> held \<and> es_id (ents ! k) = i) \<longleftrightarrow> base i \<noteq> None"
  proof (cases "find_first (\<lambda>x. es_id x = i) (take held ents)")
    case None
    then have "i \<notin> es_id ` set (take held ents)" by (auto simp: find_first_None)
    then show ?thesis using c None D(6) [of i] le by auto
  next
    case (Some x)
    have "x \<in> set (take held ents) \<and> es_id x = i" by (rule find_first_Some [OF Some])
    then have "i \<in> es_id ` set (take held ents)" by auto
    moreover have "k < held" "ents ! k = x" using c Some by auto
    ultimately show ?thesis using D(6) [of i] find_first_Some [OF Some] by auto
  qed
qed

lemma held_unique:
  assumes "loop_ok held base ents v" and k: "k < held" and j: "j < length ents"
    and eq: "es_id (ents ! j) = es_id (ents ! k)"
  shows "j = k"
proof (cases "j < held")
  case True
  with by_key_nth_eq [OF loop_okD(2) [OF assms(1)], of j k] k eq loop_okD(1) [OF assms(1)]
  show ?thesis by simp
next
  case False
  then have "ents ! j \<in> set (drop held ents)"
    using j by (metis add_diff_inverse_nat in_set_conv_nth length_drop nth_drop diff_less_mono not_le
        loop_okD(1) [OF assms(1)])
  moreover have "ents ! k \<in> set (take held ents)"
    using k loop_okD(1) [OF assms(1)] by (metis in_set_conv_nth length_take min.absorb2 nth_take)
  ultimately show ?thesis using loop_okD(3) [OF assms(1)] eq by auto
qed

lemma apply_record_step:
  assumes ok: "loop_ok held base ents v"
  shows "apply_record held strict r ents = None \<longleftrightarrow> strict \<and> base (sr_id r) = None \<and> sr_owner r = None"
    and "apply_record held strict r ents = Some ents' \<Longrightarrow> loop_ok held base ents' (view_record base r v)"
proof -
  note D = loop_okD [OF ok]
  define k where "k = lower_bound (\<lambda>e. es_id e < sr_id r) (take held ents)"
  note known = known_iff [OF ok k_def]
  show "apply_record held strict r ents = None \<longleftrightarrow> strict \<and> base (sr_id r) = None \<and> sr_owner r = None"
    using known(1) by (auto simp: apply_record_def Let_def k_def [symmetric])
  assume app: "apply_record held strict r ents = Some ents'"
  show "loop_ok held base ents' (view_record base r v)"
  proof (cases "base (sr_id r) = None")
    case True
    show ?thesis
    proof (cases "sr_owner r")
      case None
      then have "ents' = ents" using app known(1) True
        by (auto simp: apply_record_def Let_def k_def [symmetric] split: if_splits)
      with ok True None show ?thesis by (simp add: view_record_def)
    next
      case (Some p)
      define new where "new = merge_record None r"
      have e: "ents' = ents @ [new]"
        using app known(1) True Some by (auto simp: apply_record_def Let_def k_def [symmetric] new_def)
      have id: "es_id new = sr_id r" "es_ok new" "entity_view new = view_merge None r"
        using merge_record_view [of None r] by (simp_all add: new_def)
      have "sr_id r \<notin> es_id ` set (take held ents)" using D(6) [of "sr_id r"] True by simp
      moreover have "take held ents' = take held ents" "drop held ents' = drop held ents @ [new]"
        using e D(1) by simp_all
      moreover have "map_option entity_view (last_with es_id i ents') = view_record base r v i" for i
        using D(5) [of i] id True Some by (simp add: e last_with_snoc view_record_def)
      ultimately show ?thesis
        unfolding loop_ok_def using D id e by auto
    qed
  next
    case False
    then have kk: "k < held" "es_id (ents ! k) = sr_id r" using known by auto
    define new where "new = merge_record (Some (ents ! k)) r"
    have e: "ents' = ents[k := new]"
      using app known(1) False kk by (auto simp: apply_record_def Let_def k_def [symmetric] new_def)
    have kl: "k < length ents" using kk D(1) by simp
    have id: "es_id new = es_id (ents ! k)" "es_ok new"
      "entity_view new = view_merge (Some (entity_view (ents ! k))) r"
      using merge_record_view [of "Some (ents ! k)" r] kk(2) by (simp_all add: new_def)
    note u = held_unique [OF ok kk(1)]
    have "last_with es_id (sr_id r) ents = Some (ents ! k)"
      using last_with_unique [of k ents es_id, OF kl u] kk(2) by simp
    then have vk: "v (sr_id r) = Some (entity_view (ents ! k))" using D(5) [of "sr_id r"] by simp
    have "map_option entity_view (last_with es_id i ents') = view_record base r v i" for i
    proof -
      have new_id: "es_id new = sr_id r" using id(1) kk(2) by simp
      have "last_with es_id i ents' = (if i = sr_id r then Some new else last_with es_id i ents)"
        unfolding e using last_with_update [of k ents es_id new i, OF kl id(1) u] new_id by simp
      then show ?thesis
        using D(5) [of i] False id(3) vk by (auto simp: view_record_def)
    qed
    moreover have t: "take held ents' = (take held ents)[k := new]" using e by (simp add: take_update_swap)
    moreover have "drop held ents' = drop held ents" using e kk by simp
    moreover have ids: "es_id ` set (take held ents') = es_id ` set (take held ents)"
    proof -
      have "map es_id ((take held ents)[k := new]) = map es_id (take held ents)"
        using id(1) kk(1) by (simp add: map_update) (metis kl list_update_id nth_map nth_take take_map)
      then show ?thesis unfolding t by (metis list.set_map)
    qed
    moreover have "by_key es_id (take held ents')"
      unfolding t by (rule by_key_update [OF D(2)]) (use kk kl id in auto)
    moreover have "\<forall>x \<in> set ents'. es_ok x"
      using D(4) id(2) e by (auto dest: set_update_subset_insert [THEN subsetD])
    ultimately show ?thesis
      unfolding loop_ok_def using D e by simp
  qed
qed

lemma apply_records_loop:
  "loop_ok held base ents v \<Longrightarrow>
     (apply_records held strict rs ents = None \<longleftrightarrow>
        strict \<and> (\<exists>r \<in> set rs. base (sr_id r) = None \<and> sr_owner r = None)) \<and>
     (\<forall>ents'. apply_records held strict rs ents = Some ents' \<longrightarrow>
        loop_ok held base ents' (fold (view_record base) rs v))"
proof (induction rs arbitrary: ents v)
  case Nil
  then show ?case by simp
next
  case (Cons r rs)
  note st = apply_record_step [OF Cons.prems, of strict r]
  show ?case
  proof (cases "apply_record held strict r ents")
    case None
    with st(1) show ?thesis by auto
  next
    case (Some ents1)
    with st(1) Cons.IH [OF st(2) [OF Some]] show ?thesis by auto
  qed
qed

subsection \<open>Sorting and dropping duplicates\<close>

lemma unique_by_set: "set (unique_by f xs) \<subseteq> set xs"
  by (induction f xs rule: unique_by.induct) auto

lemma unique_by_hd: "xs \<noteq> [] \<Longrightarrow> unique_by f xs \<noteq> [] \<and> f (hd (unique_by f xs)) = f (hd xs)"
  by (induction f xs rule: unique_by.induct) (auto split: if_splits)

lemma unique_by_desc:
  "sorted_wrt (\<lambda>a b. f b \<le> (f a :: 'k :: linorder)) xs \<Longrightarrow> sorted_wrt (\<lambda>a b. f b < f a) (unique_by f xs)"
proof (induction f xs rule: unique_by.induct)
  case (3 f x y zs)
  show ?case
  proof (cases "f x = f y")
    case True
    with 3 show ?thesis by simp
  next
    case False
    have lt: "f w < f x" if "w \<in> set (y # zs)" for w
    proof -
      have "f y < f x" using 3(3) False by (simp add: order.not_eq_order_implies_strict)
      moreover have "f w \<le> f y" using 3(3) that by auto
      ultimately show ?thesis by simp
    qed
    then have "\<forall>w \<in> set (unique_by f (y # zs)). f w < f x" using unique_by_set [of f "y # zs"] by blast
    with 3 False show ?thesis by simp
  qed
qed simp_all

lemma unique_by_find:
  "find_first (\<lambda>x. f x = k) (unique_by f xs) = find_first (\<lambda>x. f x = k) xs"
  by (induction f xs rule: unique_by.induct) auto

lemma find_first_filter: "find_first P xs = (case filter P xs of [] \<Rightarrow> None | x # _ \<Rightarrow> Some x)"
  by (induction xs) auto

lemma last_with_sort: "last_with f i (sort_key f xs) = last_with f i xs"
proof -
  have "filter (\<lambda>x. f x = i) (sort_key f xs) = filter (\<lambda>x. f x = i) xs"
    using sort_key_stable [of f i xs] by (simp add: eq_commute)
  then show ?thesis by (simp add: last_with_def find_first_filter rev_filter [symmetric])
qed

lemma desc_rev: "sorted_wrt (\<lambda>a b. f b < (f a :: 'k :: linorder)) xs \<Longrightarrow> by_key f (rev xs)"
  by (simp add: by_key_def sorted_wrt_map sorted_wrt_rev rev_map [symmetric])

definition settle :: "('a \<Rightarrow> 'k :: linorder) \<Rightarrow> 'a list \<Rightarrow> 'a list" where
  "settle f xs = rev (unique_by f (rev (sort_key f xs)))"

lemma settle_by_key: "by_key f (settle f xs)"
proof -
  have "sorted_wrt (\<lambda>a b. f b \<le> f a) (rev (sort_key f xs))"
    using sorted_sort_key [of f xs] by (simp add: sorted_wrt_rev sorted_map)
  from desc_rev [OF unique_by_desc [OF this]] show ?thesis by (simp add: settle_def)
qed

lemma settle_set: "set (settle f xs) \<subseteq> set xs"
  using unique_by_set [of f "rev (sort_key f xs)"] by (simp add: settle_def)

lemma find_first_rev_by_key: "by_key f xs \<Longrightarrow> find_first (\<lambda>x. f x = i) (rev xs) = find_first (\<lambda>x. f x = i) xs"
proof -
  assume b: "by_key f xs"
  have "find_first (\<lambda>x. f x = i) (rev xs) = Some x \<longleftrightarrow> x \<in> set xs \<and> f x = i" for x
  proof
    assume "x \<in> set xs \<and> f x = i"
    moreover from this obtain y where y: "find_first (\<lambda>x. f x = i) (rev xs) = Some y"
      by (cases "find_first (\<lambda>x. f x = i) (rev xs)") (auto simp: find_first_None)
    moreover from find_first_Some [OF this] have "y \<in> set xs \<and> f y = i" by simp
    ultimately show "find_first (\<lambda>x. f x = i) (rev xs) = Some x"
      using find_first_by_key [OF b] by metis
  qed (use find_first_Some in force)
  with find_first_by_key [OF b] show ?thesis by (metis not_None_eq)
qed

lemma settle_find: "find_first (\<lambda>x. f x = i) (settle f xs) = last_with f i xs"
proof -
  have "find_first (\<lambda>x. f x = i) (settle f xs) = find_first (\<lambda>x. f x = i) (rev (settle f xs))"
    by (simp add: find_first_rev_by_key settle_by_key)
  also have "\<dots> = last_with f i xs"
    by (simp add: settle_def unique_by_find last_with_def [symmetric] last_with_sort)
  finally show ?thesis .
qed

subsection \<open>The refinement\<close>

lemma state_view_find:
  "state_ok st \<Longrightarrow> state_view st i = map_option entity_view (find_first (\<lambda>e. es_id e = i) (st_entities st))"
  by (simp add: state_view_def state_find_first)

lemma find_first_filter_key:
  "find_first (\<lambda>x. f x = i) (filter (\<lambda>x. P (f x)) xs) = (if P i then find_first (\<lambda>x. f x = i) xs else None)"
  by (induction xs) auto

lemma not_fits_view:
  "\<not> fits_view d v \<longleftrightarrow> (\<exists>r \<in> set (sd_records d). view_base d v (sr_id r) = None \<and> sr_owner r = None)"
  by (simp add: fits_view_def del: not_None_eq) (metis (no_types, lifting))

lemma apply_snapshot_spec:
  assumes prev: "\<And>st. previous = Some st \<Longrightarrow> state_wf st"
  shows "apply_snapshot previous d strict = None \<longleftrightarrow> strict \<and> \<not> fits_view d (view_of previous)"
    and "apply_snapshot previous d strict = Some st \<Longrightarrow>
      state_wf st \<and> st_tick st = sd_tick d \<and> state_view st = view_delta d (view_of previous)"
proof -
  define ents0 where "ents0 = (case previous of None \<Rightarrow> [] | Some st \<Rightarrow> st_entities st)"
  define ents1 where "ents1 = filter (\<lambda>e. es_id e \<notin> set (sd_removed d)) ents0"
  have e1: "(if sd_removed d \<noteq> [] then filter (\<lambda>e. es_id e \<notin> set (sd_removed d)) ents0 else ents0) = ents1"
    by (simp add: ents1_def)
  have ok0: "by_key es_id ents0" "\<forall>e \<in> set ents0. es_ok e"
    using prev by (auto simp: ents0_def state_wf_def state_ok_def split: option.splits)
  have view0: "view_of previous i = map_option entity_view (find_first (\<lambda>e. es_id e = i) ents0)" for i
    using prev by (cases previous) (auto simp: view_of_def ents0_def state_wf_def state_view_find)
  define base where "base = view_base d (view_of previous)"
  have ok1: "by_key es_id ents1" "\<forall>e \<in> set ents1. es_ok e"
    using ok0 by (auto simp: ents1_def by_key_filter)
  have base: "base i = map_option entity_view (find_first (\<lambda>e. es_id e = i) ents1)" for i
    using find_first_filter_key [of es_id i "\<lambda>j. j \<notin> set (sd_removed d)" ents0]
    by (auto simp: base_def view_base_def view0 ents1_def)
  have start: "loop_ok (length ents1) base ents1 base"
    using ok1 base
    by (auto simp: loop_ok_def last_with_def find_first_rev_by_key find_first_None)
  note loop = apply_records_loop [OF start, of strict "sd_records d"]
  have app: "apply_snapshot previous d strict =
      map_option (\<lambda>ents. \<lparr>st_tick = sd_tick d, st_entities =
        (if length ents \<noteq> length ents1 then settle es_id ents else ents)\<rparr>)
        (apply_records (length ents1) strict (sd_records d) ents1)"
    unfolding apply_snapshot_def ents0_def [symmetric] Let_def e1 settle_def
    by (simp split: option.split)
  show "apply_snapshot previous d strict = None \<longleftrightarrow> strict \<and> \<not> fits_view d (view_of previous)"
    using loop [THEN conjunct1] by (simp add: app not_fits_view base_def)
  assume "apply_snapshot previous d strict = Some st"
  then obtain ents where ents: "apply_records (length ents1) strict (sd_records d) ents1 = Some ents"
    and st: "st = \<lparr>st_tick = sd_tick d, st_entities =
        (if length ents \<noteq> length ents1 then settle es_id ents else ents)\<rparr>"
    unfolding app by auto
  have fin: "loop_ok (length ents1) base ents (view_delta d (view_of previous))"
    using loop ents by (simp add: view_delta_def base_def)
  note D = loop_okD [OF fin]
  have keyed: "by_key es_id (st_entities st)"
    using D(1,2) by (auto simp: st settle_by_key)
  have sub: "set (st_entities st) \<subseteq> set ents" using settle_set [of es_id ents] by (simp add: st)
  have find: "find_first (\<lambda>e. es_id e = i) (st_entities st) = last_with es_id i ents" for i
  proof (cases "length ents = length ents1")
    case True
    with keyed find_first_rev_by_key [of es_id ents i] show ?thesis by (simp add: st last_with_def)
  qed (simp add: st settle_find)
  have "state_wf st" using keyed sub D(4) by (auto simp: state_wf_def state_ok_def)
  moreover have "state_view st i = view_delta d (view_of previous) i" for i
    using keyed D(5) [of i] by (simp add: state_view_find state_ok_def find)
  ultimately show "state_wf st \<and> st_tick st = sd_tick d \<and> state_view st = view_delta d (view_of previous)"
    by (auto simp: st)
qed

subsection \<open>Properties\<close>


definition demo_state :: snapshot_state where
  "demo_state = \<lparr>st_tick = 3, st_entities = [demo_entity]\<rparr>"

lemma demo_state_wf: "state_wf demo_state"
  by (simp add: demo_state_def state_wf_def state_ok_def es_ok_def demo_entity_def popcount_def upt_rec)


end
