(* ===== verification/Ghost_Claims.thy ===== *)
theory Ghost_Claims
  imports Ghost_Build Snapshot_Apply
begin

section \<open>What the server knows of the client, entity by entity\<close>

text \<open>
  The invariant behind \<^verbatim>\<open>peer_ghosts.cpp\<close>'s "a slot is clean once a snapshot that wrote the entity,
  no older than the slot's current value, is acknowledged": whatever snapshots the client holds, if
  one of those that wrote the entity is no older than a slot's value, the client has that value
  (\<open>agrees\<close>). \<open>v\<close> is the client's view of the entity, \<open>W\<close> the ticks of the snapshots it holds that
  wrote the entity, \<open>Rm\<close> those that listed it as removed.
\<close>

text \<open>Shared values: an address determines a mask and the values in its slots.\<close>

type_synonym blob_heap = "nat \<Rightarrow> u32 \<times> bytes list"

definition shared :: "blob_heap \<Rightarrow> ref_snapshot \<Rightarrow> bool" where
  "shared h e \<longleftrightarrow> h (es_ref e) = (es_mask e, es_blobs e)"

definition slot_value :: "entity_view option \<Rightarrow> nat \<Rightarrow> bytes option" where
  "slot_value v s = (case v of None \<Rightarrow> None | Some (_, vals) \<Rightarrow> vals s)"

lemma slot_value_simps [simp]: "slot_value None s = None" "slot_value (Some (p, vals)) s = vals s"
  by (simp_all add: slot_value_def)

lemma es_has_bit: "es_has e s \<longleftrightarrow> bit (es_mask e) s"
proof (cases "s < 32")
  case True
  then show ?thesis by (simp add: es_has_def has_slot)
next
  case False
  then have "slot_bit s = 0" by (intro mask_eqI) simp
  with False show ?thesis by (auto simp: es_has_def dest: bit_u32)
qed

lemma same_slot_value:
  assumes "shared h a" and "shared h b"
  shows "same_slot a b s \<longleftrightarrow> es_value a s = es_value b s"
proof -
  have "es_component a s = es_component b s" if "es_ref a = es_ref b"
    using assms that by (simp add: shared_def es_component_def)
  then show ?thesis by (auto simp: same_slot_def es_has_bit es_value_def)
qed

definition agrees :: "nat \<Rightarrow> entity_view option \<Rightarrow> 'd ghost \<Rightarrow> tick set \<Rightarrow> bool" where
  "agrees n v g C \<longleftrightarrow>
     (\<forall>c \<in> C. (\<forall>s < n. gh_since g ! s \<le> c \<longrightarrow> slot_value v s = es_value (gh_latest g) s) \<and>
        (gh_written g \<longrightarrow> gh_owner_since g \<le> c \<longrightarrow> (\<exists>vals. v = Some (es_owner (gh_latest g), vals))))"

definition ghost_wf :: "blob_heap \<Rightarrow> nat \<Rightarrow> 'd ghost \<Rightarrow> bool" where
  "ghost_wf h n g \<longleftrightarrow>
     length (gh_since g) = n \<and> shared h (gh_latest g) \<and> (\<forall>s. bit (es_mask (gh_latest g)) s \<longrightarrow> s < n) \<and>
     gh_owner_since g \<le> gh_max_since g \<and> (\<forall>x \<in> set (gh_since g). x \<le> gh_max_since g)"

definition ghost_claim :: "blob_heap \<Rightarrow> nat \<Rightarrow> entity_view option \<Rightarrow> 'd ghost \<Rightarrow> tick set \<Rightarrow> tick set \<Rightarrow> bool" where
  "ghost_claim h n v g W Rm \<longleftrightarrow>
     ghost_wf h n g \<and> (\<forall>s \<ge> n. slot_value v s = None) \<and>
     (\<not> gh_written g \<longrightarrow> v = None \<and> \<not> gh_leaving g) \<and>
     (\<not> gh_leaving g \<longrightarrow> agrees n v g (insert (gh_confirmed g) W)) \<and>
     (gh_leaving g \<longrightarrow> (\<exists>x \<in> Rm. gh_leave_since g \<le> x) \<longrightarrow> v = None)"

definition entity_claim ::
  "blob_heap \<Rightarrow> nat \<Rightarrow> entity_view option \<Rightarrow> 'd ghost option \<Rightarrow> tick set \<Rightarrow> tick set \<Rightarrow> bool" where
  "entity_claim h n v g W Rm \<longleftrightarrow> (case g of None \<Rightarrow> v = None | Some g \<Rightarrow> ghost_claim h n v g W Rm)"

lemma entity_claim_simps [simp]:
  "entity_claim h n v None W Rm \<longleftrightarrow> v = None"
  "entity_claim h n v (Some g) W Rm \<longleftrightarrow> ghost_claim h n v g W Rm"
  by (simp_all add: entity_claim_def)

definition entity_fits :: "blob_heap \<Rightarrow> nat \<Rightarrow> ref_snapshot \<Rightarrow> bool" where
  "entity_fits h n e \<longleftrightarrow> shared h e \<and> (\<forall>s. bit (es_mask e) s \<longrightarrow> s < n)"

lemma agrees_mono: "agrees n v g C \<Longrightarrow> C' \<subseteq> C \<Longrightarrow> agrees n v g C'"
  by (auto simp: agrees_def)

lemma ghost_claim_mono: "ghost_claim h n v g W Rm \<Longrightarrow> W' \<subseteq> W \<Longrightarrow> Rm' \<subseteq> Rm \<Longrightarrow> ghost_claim h n v g W' Rm'"
  by (auto simp: ghost_claim_def intro: agrees_mono)

lemma entity_claim_mono: "entity_claim h n v g W Rm \<Longrightarrow> W' \<subseteq> W \<Longrightarrow> Rm' \<subseteq> Rm \<Longrightarrow> entity_claim h n v g W' Rm'"
  by (cases g) (auto intro: ghost_claim_mono)

lemma ghost_claim_strip: "ghost_claim h n v (strip F g) W Rm \<longleftrightarrow> ghost_claim h n v g W Rm"
  by (simp add: ghost_claim_def ghost_wf_def agrees_def)

lemma entity_claim_strip:
  "map_option (strip F) g = map_option (strip F) g' \<Longrightarrow> entity_claim h n v g W Rm \<longleftrightarrow> entity_claim h n v g' W Rm"
proof (induction g; induction g')
  fix a b :: "'a ghost"
  assume "map_option (strip F) (Some a) = map_option (strip F) (Some b)"
  then have "strip F a = strip F b" by simp
  then have "ghost_claim h n v a W Rm \<longleftrightarrow> ghost_claim h n v b W Rm" using ghost_claim_strip by metis
  then show "entity_claim h n v (Some a) W Rm \<longleftrightarrow> entity_claim h n v (Some b) W Rm" by simp
qed simp_all

subsection \<open>The walk\<close>

lemma come_back_claim:
  assumes claim: "ghost_claim h n v g W Rm" and old: "\<forall>c \<in> insert (gh_confirmed g) W. c < t"
  shows "ghost_claim h n v (come_back t g) W Rm"
proof (cases "gh_leaving g")
  case True
  have len: "length (gh_since g) = n" using claim by (simp add: ghost_claim_def ghost_wf_def)
  have "agrees n v (come_back t g) (insert (gh_confirmed g) W)"
    using old len True by (auto simp: agrees_def come_back_def leD)
  with claim True show ?thesis by (auto simp: ghost_claim_def ghost_wf_def come_back_def)
next
  case False
  with claim show ?thesis by (simp add: come_back_def)
qed

lemma new_ghost_claim: "h 0 = (0, []) \<Longrightarrow> ghost_claim h n None (new_ghost F i n) W Rm"
  by (auto simp: ghost_claim_def ghost_wf_def new_ghost_def no_entity_def shared_def agrees_def es_value_def)

lemma start_leaving_claim:
  "ghost_claim h n v g W Rm \<Longrightarrow> gh_written g \<Longrightarrow> \<forall>x \<in> Rm. x < t \<Longrightarrow> ghost_claim h n v (start_leaving t g) W Rm"
  by (auto simp: ghost_claim_def ghost_wf_def start_leaving_def)

lemma claim_accumulator: "ghost_claim h n v (g\<lparr>gh_accumulator := x\<rparr>) W Rm \<longleftrightarrow> ghost_claim h n v g W Rm"
  by (simp add: ghost_claim_def ghost_wf_def agrees_def)

lemma walked_claim:
  assumes h: "h 0 = (0, [])" and claim: "entity_claim h n v old W Rm"
    and ticks: "\<forall>c \<in> W \<union> Rm. c < t" "\<And>g. old = Some g \<Longrightarrow> gh_confirmed g < t"
  shows "entity_claim h n v (walked F t n old rel) W Rm"
proof (cases rel)
  case None
  show ?thesis
  proof (cases old)
    case None
    with claim \<open>rel = None\<close> show ?thesis by (simp add: walked_def)
  next
    case (Some g)
    then have g: "ghost_claim h n v g W Rm" using claim by simp
    show ?thesis
    proof (cases "gh_written g")
      case True
      then show ?thesis using None Some ticks start_leaving_claim [OF g True] by (simp add: walked_def)
    next
      case False
      with g have "v = None" by (simp add: ghost_claim_def)
      with False None Some show ?thesis by (simp add: walked_def)
    qed
  qed
next
  case (Some r)
  have "ghost_claim h n v (case old of Some g \<Rightarrow> come_back t g | None \<Rightarrow> new_ghost F (es_id (re_entity r)) n) W Rm"
  proof (cases old)
    case None
    then show ?thesis using claim new_ghost_claim [of h, OF h] by simp
  next
    case (Some g)
    then show ?thesis using claim ticks come_back_claim [of h n v g W Rm t] by simp
  qed
  then show ?thesis using Some by (simp add: walked_def arrived_def Let_def claim_accumulator)
qed

subsection \<open>Writing\<close>

lemma dirty_value:
  assumes "n \<le> 32" and "shared h e" and "ghost_wf h n g"
  shows "slot_value (Some (view_merge v (record_of (dirty_write g e n)))) s =
    (if s < n \<and> dirty_slot g e s then es_value e s else slot_value v s)"
proof -
  let ?w = "dirty_write g e n"
  note f = dirty_write_facts [OF assms(1), of g e]
  have "record_value (record_of ?w) s = es_component e s" if "bit (sw_changed ?w) s"
    using that slot_index_less [OF that] slot_index_nth [OF that]
    by (simp add: record_value_def record_of_def f(1) bit_slots_facts(3))
  then show ?thesis
    by (auto simp: view_merge_def record_of_def f(3,4) es_value_def es_has_bit slot_value_def
        split: option.splits prod.splits)
qed

definition written_view :: "entity_view option \<Rightarrow> ref_snapshot snapshot_write \<Rightarrow> entity_view option" where
  "written_view v w =
     (if v = None \<and> \<not> sw_write_owner w then None else Some (view_merge v (record_of w)))"

text \<open>A client that got the record, and one that did not.\<close>

lemma commit_claim:
  assumes n: "n \<le> 32" and claim: "ghost_claim h n v g W Rm" and stay: "\<not> gh_leaving g"
    and e: "entity_fits h n e" and ticks: "\<forall>c \<in> insert (gh_confirmed g) W. c < t"
  shows "ghost_claim h n (written_view v (dirty_write g e n)) (commit_write F g e n t) (insert t W) Rm"
    and "ghost_claim h n v (commit_write F g e n t) W Rm"
proof -
  have wf: "ghost_wf h n g" and agr: "agrees n v g (insert (gh_confirmed g) W)"
    and high: "\<And>s. n \<le> s \<Longrightarrow> slot_value v s = None" and unw: "\<not> gh_written g \<Longrightarrow> v = None"
    using claim stay by (auto simp: ghost_claim_def)
  have sh: "shared h (gh_latest g)" "shared h e" "length (gh_since g) = n"
    using wf e by (simp_all add: ghost_wf_def entity_fits_def)
  have wf': "ghost_wf h n (commit_write F g e n t)"
    using wf e commit_max_since(1) [of F g e n t] commit_max_since(2) [of _ F g e n t] by (simp add: ghost_wf_def entity_fits_def commit_since_nth)
  have owned: "\<exists>vals. v = Some (es_owner (gh_latest g), vals)"
    if "c \<in> insert (gh_confirmed g) W" "gh_written g" "gh_owner_since g \<le> c" for c
    using agr that by (auto simp: agrees_def)
  have old_value: "slot_value v s = es_value (gh_latest g) s"
    if "c \<in> insert (gh_confirmed g) W" "s < n" "gh_since g ! s \<le> c" for c s
    using agr that by (auto simp: agrees_def)
  have stale: "slot_value v s = es_value e s"
    if "c \<in> insert (gh_confirmed g) W" "s < n" "commit_since g e n t ! s \<le> c" for c s
  proof -
    have "c < t" using ticks that(1) by blast
    then have "same_slot (gh_latest g) e s" "gh_since g ! s \<le> c"
      using that(2,3) commit_since_nth(2) [of s g e n t] sh(3) by (auto split: if_splits)
    then show ?thesis using old_value [OF that(1,2)] same_slot_value [OF sh(1,2)] by simp
  qed
  have agr0: "agrees n v (commit_write F g e n t) (insert (gh_confirmed g) W)"
    unfolding agrees_def
  proof (intro ballI conjI allI impI)
    fix c assume c: "c \<in> insert (gh_confirmed g) W"
    show "slot_value v s = es_value (gh_latest (commit_write F g e n t)) s"
      if "s < n" "gh_since (commit_write F g e n t) ! s \<le> c" for s
      using stale [OF c that(1)] that(2) by simp
    assume "gh_owner_since (commit_write F g e n t) \<le> c"
    moreover have "c < t" using ticks c by blast
    ultimately have "gh_written g" "es_owner (gh_latest g) = es_owner e" "gh_owner_since g \<le> c"
      by (auto split: if_splits)
    then show "\<exists>vals. v = Some (es_owner (gh_latest (commit_write F g e n t)), vals)"
      using owned [OF c] by simp
  qed
  have nl: "\<not> gh_leaving (commit_write F g e n t)" "gh_written (commit_write F g e n t)"
    "gh_confirmed (commit_write F g e n t) = gh_confirmed g"
    using stay by simp_all
  show "ghost_claim h n v (commit_write F g e n t) W Rm"
    using wf' high agr0 nl by (simp add: ghost_claim_def)
  let ?w = "dirty_write g e n" and ?v = "written_view v (dirty_write g e n)"
  note f = dirty_write_facts [OF n, of g e]
  have clean_value: "slot_value v s = es_value e s" if "s < n" "\<not> dirty_slot g e s" for s
    using that old_value [of "gh_confirmed g" s] same_slot_value [OF sh(1,2)] by (auto simp: dirty_slot_def)
  have new_owner: "\<exists>vals. ?v = Some (es_owner e, vals)"
  proof (cases "sw_write_owner ?w")
    case True
    then show ?thesis by (simp add: written_view_def view_merge_def record_of_def f(1))
  next
    case False
    then have "gh_written g" "es_owner (gh_latest g) = es_owner e" "gh_owner_since g \<le> gh_confirmed g"
      by (simp_all add: f(2) linorder_not_less)
    then obtain vals where "v = Some (es_owner e, vals)" using owned [of "gh_confirmed g"] by auto
    with False show ?thesis by (simp add: written_view_def view_merge_def record_of_def)
  qed
  then have some: "?v = Some (view_merge v (record_of ?w))"
    by (auto simp: written_view_def split: if_splits)
  have filled: "slot_value ?v s = es_value e s" if "s < n" for s
    unfolding some dirty_value [OF n sh(2) wf] using clean_value [OF that] that by simp
  have high': "slot_value ?v s = None" if "n \<le> s" for s
    unfolding some dirty_value [OF n sh(2) wf] using high [OF that] that by simp
  have "agrees n ?v (commit_write F g e n t) C" for C
    using filled new_owner by (simp add: agrees_def)
  then show "ghost_claim h n ?v (commit_write F g e n t) (insert t W) Rm"
    using wf' high' nl by (simp add: ghost_claim_def)
qed

subsection \<open>Acknowledgements\<close>

lemma confirm_claim:
  "ghost_claim h n v g W Rm \<Longrightarrow> c \<in> W \<Longrightarrow> ghost_claim h n v (g\<lparr>gh_confirmed := max (gh_confirmed g) c\<rparr>) W Rm"
proof -
  assume a: "ghost_claim h n v g W Rm" "c \<in> W"
  then have "insert (max (gh_confirmed g) c) W \<subseteq> insert (gh_confirmed g) W" by (auto simp: max_def)
  with a show ?thesis
    by (auto simp: ghost_claim_def ghost_wf_def agrees_def)
qed

text \<open>A clean ghost, when something acknowledged is no older than everything in it.\<close>

lemma clean_value:
  assumes "ghost_claim h n v g W Rm" and "\<not> gh_leaving g" and "is_clean g e" and "shared h e"
  shows "v = Some (entity_view e)"
proof -
  have wf: "ghost_wf h n g" and agr: "agrees n v g (insert (gh_confirmed g) W)"
    and high: "\<And>s. n \<le> s \<Longrightarrow> slot_value v s = None"
    using assms(1,2) by (auto simp: ghost_claim_def)
  have c: "gh_written g" "gh_max_since g \<le> gh_confirmed g" "es_mask (gh_latest g) = es_mask e"
    "es_owner (gh_latest g) = es_owner e" "es_mask e = 0 \<or> es_ref (gh_latest g) = es_ref e"
    using assms(3) by (simp_all add: is_clean_def)
  have same: "es_value (gh_latest g) s = es_value e s" for s
    using c(3,5) wf assms(4) by (auto simp: ghost_wf_def shared_def es_value_def es_component_def)
  obtain vals where v: "v = Some (es_owner e, vals)"
    using agr c wf by (auto simp: agrees_def ghost_wf_def)
  have "vals s = es_value e s" for s
  proof (cases "s < n")
    case True
    then have "gh_since g ! s \<in> set (gh_since g)" using wf by (simp add: ghost_wf_def)
    then have "gh_since g ! s \<le> gh_confirmed g" using wf c(2) by (auto simp: ghost_wf_def)
    then show ?thesis using agr True v same by (auto simp: agrees_def)
  next
    case False
    then have "\<not> bit (es_mask e) s" using wf c(3) by (auto simp: ghost_wf_def)
    then show ?thesis using high [of s] False v by (simp add: es_value_def)
  qed
  then show ?thesis using v by (simp add: entity_view_def fun_eq_iff)
qed

end
