(* ===== verification/Ghost_Acks.thy ===== *)
theory Ghost_Acks
  imports Ghost_Claims
begin

section \<open>Messages and acknowledgements, entity by entity\<close>

subsection \<open>What a message does to the client's view\<close>

lemma view_records_at:
  assumes "distinct (map sr_id rs)" and "\<forall>r \<in> set rs. acc (sr_id r) = base (sr_id r)"
  shows "fold (view_record base) rs acc i =
    (case find_first (\<lambda>r. sr_id r = i) rs of
       None \<Rightarrow> acc i
     | Some r \<Rightarrow> if base i = None \<and> sr_owner r = None then None else Some (view_merge (base i) r))"
  using assms
proof (induction rs arbitrary: acc)
  case Nil
  then show ?case by simp
next
  case (Cons r rs)
  let ?acc = "view_record base r acc"
  have other: "?acc j = acc j" if "j \<noteq> sr_id r" for j using that by (simp add: view_record_def)
  have ih: "fold (view_record base) rs ?acc i = (case find_first (\<lambda>r. sr_id r = i) rs of
       None \<Rightarrow> ?acc i
     | Some r \<Rightarrow> if base i = None \<and> sr_owner r = None then None else Some (view_merge (base i) r))"
    by (rule Cons.IH) (use Cons.prems other in \<open>auto simp: image_iff\<close>)
  show ?case
  proof (cases "sr_id r = i")
    case True
    then have "find_first (\<lambda>r. sr_id r = i) rs = None"
      using Cons.prems(1) by (simp add: find_first_None) (metis image_eqI)
    moreover have "?acc (sr_id r) = (if base (sr_id r) = None \<and> sr_owner r = None then None
        else Some (view_merge (base (sr_id r)) r))"
      using Cons.prems(2) by (auto simp: view_record_def)
    ultimately show ?thesis using ih True by simp
  next
    case False
    then show ?thesis using ih other [of i] by (cases "find_first (\<lambda>r. sr_id r = i) rs") simp_all
  qed
qed

lemma view_delta_at:
  "distinct (map sr_id (sd_records d)) \<Longrightarrow>
     view_delta d v i =
       (case find_first (\<lambda>r. sr_id r = i) (sd_records d) of
          None \<Rightarrow> view_base d v i
        | Some r \<Rightarrow> if view_base d v i = None \<and> sr_owner r = None then None
                   else Some (view_merge (view_base d v i) r))"
  unfolding view_delta_def by (rule view_records_at) simp_all

lemma view_writes_at:
  assumes "by_key (es_id \<circ> sw_entity) writes"
  shows "view_delta \<lparr>sd_tick = t, sd_removed = removed, sd_records = map record_of writes\<rparr> v i =
    (let b = (if i \<in> set removed then None else v i)
     in case find_first (\<lambda>w. es_id (sw_entity w) = i) writes of None \<Rightarrow> b | Some w \<Rightarrow> written_view b w)"
proof -
  have "distinct (map sr_id (map record_of writes))"
    using by_key_distinct [OF assms] by (simp add: comp_def record_of_def)
  moreover have "find_first (\<lambda>r. sr_id r = i) (map record_of writes) =
      map_option record_of (find_first (\<lambda>w. es_id (sw_entity w) = i) writes)"
    by (simp add: find_first_map comp_def record_of_def)
  moreover have "sr_owner (record_of w) = None \<longleftrightarrow> \<not> sw_write_owner w" for w :: "ref_snapshot snapshot_write"
    by (simp add: record_of_def)
  ultimately show ?thesis
    by (cases "find_first (\<lambda>w. es_id (sw_entity w) = i) writes"; cases "i \<in> set removed"; cases "v i")
      (simp_all add: view_delta_at view_base_def written_view_def Let_def)
qed

subsection \<open>Acknowledging\<close>

lemma ghost_at_cases:
  assumes "by_key gh_id gs"
  shows "case ghost_at i gs of
      None \<Rightarrow> ghost_of i gs = None
    | Some k \<Rightarrow> k < length gs \<and> gh_id (gs ! k) = i \<and> ghost_of i gs = Some (gs ! k)"
proof -
  have "k \<noteq> length gs \<Longrightarrow> k < length gs" if "k = lower_bound (\<lambda>g. gh_id g < i) gs" for k
    using that lower_bound_le [of "\<lambda>g. gh_id g < i" gs] by simp
  then show ?thesis
    using lower_bound_cases [OF assms, of i] find_first_Some [of "\<lambda>g. gh_id g = i" gs]
    by (auto simp: ghost_at_def ghost_of_def Let_def split: option.splits)
qed

lemma ghost_of_other:
  "k < length gs \<Longrightarrow> gh_id y = gh_id (gs ! k) \<Longrightarrow> i \<noteq> gh_id y \<Longrightarrow> ghost_of i (gs[k := y]) = ghost_of i gs"
  by (induction gs arbitrary: k) (auto split: nat.split)

lemma ghost_of_update:
  assumes "by_key gh_id gs" and "k < length gs" and "gh_id y = gh_id (gs ! k)"
  shows "ghost_of i (gs[k := y]) = (if i = gh_id y then Some y else ghost_of i gs)"
    and "map gh_id (gs[k := y]) = map gh_id gs"
proof -
  show m: "map gh_id (gs[k := y]) = map gh_id gs" by (rule map_update_same) (rule assms(3))
  show "ghost_of i (gs[k := y]) = (if i = gh_id y then Some y else ghost_of i gs)"
    using ghost_of_map [OF m assms(1,2)] ghost_of_other [OF assms(2,3)] assms(2,3) by simp
qed

definition confirm :: "tick \<Rightarrow> 'd ghost \<Rightarrow> 'd ghost" where
  "confirm t g = g\<lparr>gh_confirmed := max (gh_confirmed g) t\<rparr>"

lemma confirm_ghost_of:
  assumes "by_key gh_id gs"
  shows "ghost_of i (confirm_ghost t j gs) = (if i = j then map_option (confirm t) (ghost_of i gs) else ghost_of i gs)"
    and "map gh_id (confirm_ghost t j gs) = map gh_id gs"
  using ghost_at_cases [OF assms, of j] ghost_of_update [OF assms, of _ "confirm t (gs ! _)"]
  by (auto simp: confirm_ghost_def confirm_def split: option.splits)

lemma confirm_confirm: "confirm t (confirm t g) = confirm t g"
  by (simp add: confirm_def)

lemma confirm_all:
  assumes "by_key gh_id gs"
  shows "ghost_of i (fold (confirm_ghost t) js gs) =
      (if i \<in> set js then map_option (confirm t) (ghost_of i gs) else ghost_of i gs)"
    and "map gh_id (fold (confirm_ghost t) js gs) = map gh_id gs"
proof -
  have "ghost_of i (fold (confirm_ghost t) js gs) =
      (if i \<in> set js then map_option (confirm t) (ghost_of i gs) else ghost_of i gs) \<and>
    map gh_id (fold (confirm_ghost t) js gs) = map gh_id gs"
    using assms
  proof (induction js arbitrary: gs)
    case Nil
    then show ?case by simp
  next
    case (Cons j js)
    have "by_key gh_id (confirm_ghost t j gs)"
      using confirm_ghost_of(2) [OF Cons.prems] Cons.prems by (simp add: by_key_def)
    from Cons.IH [OF this] confirm_ghost_of [OF Cons.prems] show ?case
      by (auto simp: option.map_comp comp_def confirm_confirm)
  qed
  then show "ghost_of i (fold (confirm_ghost t) js gs) =
      (if i \<in> set js then map_option (confirm t) (ghost_of i gs) else ghost_of i gs)"
    and "map gh_id (fold (confirm_ghost t) js gs) = map gh_id gs" by simp_all
qed

definition goes :: "tick \<Rightarrow> 'd ghost \<Rightarrow> bool" where
  "goes t g \<longleftrightarrow> gh_leaving g \<and> gh_leave_since g \<le> t"

definition unwrite :: "tick \<Rightarrow> 'd ghost \<Rightarrow> 'd ghost" where
  "unwrite t g = (if goes t g then g\<lparr>gh_written := False\<rparr> else g)"

lemma unwrite_sel [simp]: "gh_id (unwrite t g) = gh_id g" "goes t (unwrite t g) = goes t g"
  "unwrite t (unwrite t g) = unwrite t g"
  by (simp_all add: unwrite_def goes_def)

lemma removal_confirmed_of:
  assumes "by_key gh_id gs"
  shows "ghost_of i (fst (removal_confirmed t j (gs, gone))) =
      (if i = j then map_option (unwrite t) (ghost_of i gs) else ghost_of i gs)"
    and "map gh_id (fst (removal_confirmed t j (gs, gone))) = map gh_id gs"
    and "snd (removal_confirmed t j (gs, gone)) \<longleftrightarrow> gone \<or> (\<exists>g. ghost_of j gs = Some g \<and> goes t g)"
  using ghost_at_cases [OF assms, of j] ghost_of_update [OF assms, of _ "(gs ! _)\<lparr>gh_written := False\<rparr>"]
  by (auto simp: removal_confirmed_def unwrite_def goes_def Let_def split: option.splits)

lemma removals_of:
  assumes "by_key gh_id gs"
  shows "ghost_of i (fst (fold (removal_confirmed t) js (gs, gone))) =
      (if i \<in> set js then map_option (unwrite t) (ghost_of i gs) else ghost_of i gs)"
    and "map gh_id (fst (fold (removal_confirmed t) js (gs, gone))) = map gh_id gs"
    and "snd (fold (removal_confirmed t) js (gs, gone)) \<longleftrightarrow>
      gone \<or> (\<exists>j \<in> set js. \<exists>g. ghost_of j gs = Some g \<and> goes t g)"
proof -
  have "(\<forall>i. ghost_of i (fst (fold (removal_confirmed t) js (gs, gone))) =
      (if i \<in> set js then map_option (unwrite t) (ghost_of i gs) else ghost_of i gs)) \<and>
    map gh_id (fst (fold (removal_confirmed t) js (gs, gone))) = map gh_id gs \<and>
    (snd (fold (removal_confirmed t) js (gs, gone)) \<longleftrightarrow>
      gone \<or> (\<exists>j \<in> set js. \<exists>g. ghost_of j gs = Some g \<and> goes t g))"
    using assms
  proof (induction js arbitrary: gs gone)
    case Nil
    then show ?case by simp
  next
    case (Cons j js)
    obtain gs' gone' where step: "removal_confirmed t j (gs, gone) = (gs', gone')" by fastforce
    note one = removal_confirmed_of [OF Cons.prems, where t = t and j = j and gone = gone, unfolded step fst_conv snd_conv]
    have "by_key gh_id gs'" using one(2) Cons.prems by (simp add: by_key_def)
    note ih = Cons.IH [OF this, of gone']
    have g: "(\<exists>g. ghost_of k gs' = Some g \<and> goes t g) \<longleftrightarrow> (\<exists>g. ghost_of k gs = Some g \<and> goes t g)" for k
      using one(1) [of k] by (cases "ghost_of k gs") (auto split: if_splits)
    show ?case
      using ih one g by (auto simp: step option.map_comp comp_def)
  qed
  then show "ghost_of i (fst (fold (removal_confirmed t) js (gs, gone))) =
      (if i \<in> set js then map_option (unwrite t) (ghost_of i gs) else ghost_of i gs)"
    and "map gh_id (fst (fold (removal_confirmed t) js (gs, gone))) = map gh_id gs"
    and "snd (fold (removal_confirmed t) js (gs, gone)) \<longleftrightarrow>
      gone \<or> (\<exists>j \<in> set js. \<exists>g. ghost_of j gs = Some g \<and> goes t g)" by blast+
qed

lemma ghost_of_filter:
  "by_key gh_id gs \<Longrightarrow>
     ghost_of i (filter P gs) = (case ghost_of i gs of None \<Rightarrow> None | Some g \<Rightarrow> if P g then Some g else None)"
proof (induction gs)
  case Nil
  then show ?case by simp
next
  case (Cons g gs)
  have "ghost_of (gh_id g) gs = None" "ghost_of (gh_id g) (filter P gs) = None"
    using Cons.prems by (auto simp: ghost_of_None)
  with Cons show ?case by (cases "gh_id g = i") auto
qed

lemma remove_first_subset: "set (remove_first P xs) \<subseteq> set xs"
  by (induction xs) auto

text \<open>One entity through an acknowledgement, when only written ghosts are leaving.\<close>

definition acked_ghost :: "tick \<Rightarrow> bool \<Rightarrow> bool \<Rightarrow> 'd ghost \<Rightarrow> 'd ghost option" where
  "acked_ghost t wrote listed g =
     (if listed \<and> goes t g then None else Some (if wrote then confirm t g else g))"

lemma acknowledge_result:
  assumes key: "by_key gh_id (pg_ghosts p)"
    and leaving: "\<forall>g \<in> set (pg_ghosts p). gh_leaving g \<longrightarrow> gh_written g"
    and s: "find_first (\<lambda>s. se_tick s = t) (pg_sent p) = Some s"
  shows "by_key gh_id (pg_ghosts (acknowledge t p))"
    and "ghost_of i (pg_ghosts (acknowledge t p)) =
      Option.bind (ghost_of i (pg_ghosts p)) (acked_ghost t (i \<in> set (se_written s)) (i \<in> set (se_removed s)))"
    and "set (pg_sent (acknowledge t p)) \<subseteq> set (pg_sent p)"
proof -
  define gs1 where "gs1 = fold (confirm_ghost t) (se_written s) (pg_ghosts p)"
  obtain gs2 gone where two: "fold (removal_confirmed t) (se_removed s) (gs1, False) = (gs2, gone)" by fastforce
  have res: "pg_ghosts (acknowledge t p) = (if gone then filter (\<lambda>g. \<not> (gh_leaving g \<and> \<not> gh_written g)) gs2 else gs2)"
    "pg_sent (acknowledge t p) = remove_first (\<lambda>s. se_tick s = t) (pg_sent p)"
    by (simp_all add: acknowledge_def s gs1_def [symmetric] two Let_def)
  note one = confirm_all [OF key, where t = t and js = "se_written s", folded gs1_def]
  have key1: "by_key gh_id gs1" using one(2) key by (simp add: by_key_def)
  note rem = removals_of [OF key1, where t = t and js = "se_removed s" and gone = False, unfolded two fst_conv snd_conv]
  have key2: "by_key gh_id gs2" using rem(2) key1 by (simp add: by_key_def)
  show "by_key gh_id (pg_ghosts (acknowledge t p))"
    using key2 by (simp add: res by_key_filter)
  show "set (pg_sent (acknowledge t p)) \<subseteq> set (pg_sent p)"
    by (simp add: res remove_first_subset)
  have confirm_same: "goes t (confirm t g) = goes t g" "gh_leaving (confirm t g) = gh_leaving g"
    "gh_written (confirm t g) = gh_written g" for g :: "'a ghost"
    by (simp_all add: confirm_def goes_def)
  show "ghost_of i (pg_ghosts (acknowledge t p)) =
      Option.bind (ghost_of i (pg_ghosts p)) (acked_ghost t (i \<in> set (se_written s)) (i \<in> set (se_removed s)))"
  proof (cases "ghost_of i (pg_ghosts p)")
    case None
    then have "ghost_of i gs2 = None" using one(1) [of i] rem(1) [of i] by simp
    then show ?thesis using None by (simp add: res ghost_of_filter [OF key2])
  next
    case (Some g)
    have w: "gh_leaving g \<Longrightarrow> gh_written g" using leaving ghost_of_Some [OF Some] by blast
    define g1 where "g1 = (if i \<in> set (se_written s) then confirm t g else g)"
    have g1: "ghost_of i gs1 = Some g1" "goes t g1 = goes t g" "gh_leaving g1 = gh_leaving g" "gh_written g1 = gh_written g"
      using one(1) [of i] Some by (simp_all add: g1_def confirm_same)
    have g2: "ghost_of i gs2 = Some (if i \<in> set (se_removed s) then unwrite t g1 else g1)"
      using rem(1) [of i] g1 by simp
    show ?thesis
    proof (cases "i \<in> set (se_removed s) \<and> goes t g")
      case True
      then have "gone" using rem(3) g1 by auto
      moreover have "gh_leaving (unwrite t g1) \<and> \<not> gh_written (unwrite t g1)"
        using True g1 by (simp add: unwrite_def goes_def)
      ultimately show ?thesis
        using True Some g2 by (simp add: res ghost_of_filter [OF key2] acked_ghost_def)
    next
      case False
      then have "ghost_of i gs2 = Some g1" using g2 g1 by (auto simp: unwrite_def)
      then show ?thesis
        using False Some w g1 by (auto simp: res ghost_of_filter [OF key2] acked_ghost_def g1_def)
    qed
  qed
qed

end
