(* ===== verification/Snapshot_Buffer.thy ===== *)
theory Snapshot_Buffer
  imports Snapshot_Apply Float_Arith "HOL-Library.Multiset"
begin

section \<open>The client's received snapshots\<close>

text \<open>
  \<^verbatim>\<open>src/net/snapshot_buffer.h\<close> and \<^verbatim>\<open>src/net/snapshot_buffer.cpp\<close>: the states by tick, each derived
  from the one before it, whatever the order of arrival. \<open>derive\<close> says what the entries are in one
  pass over their deltas.
\<close>

record sb_entry =
  en_state :: snapshot_state
  en_delta :: snapshot_delta

record snapshot_buffer =
  sb_entries :: "sb_entry list"
  sb_base :: "snapshot_state option"

definition en_tick :: "sb_entry \<Rightarrow> tick" where
  "en_tick e = st_tick (en_state e)"

definition empty_buffer :: snapshot_buffer where
  "empty_buffer = \<lparr>sb_entries = [], sb_base = None\<rparr>"

definition outside_window :: "tick \<Rightarrow> tick \<Rightarrow> bool" where
  "outside_window t newest \<longleftrightarrow> newest \<ge> kSnapshotWindowTicks \<and> t \<le> newest - kSnapshotWindowTicks"

definition buffer_find :: "tick \<Rightarrow> snapshot_buffer \<Rightarrow> snapshot_state option" where
  "buffer_find t b =
     (let k = lower_bound (\<lambda>e. en_tick e < t) (sb_entries b)
      in if k = length (sb_entries b) \<or> en_tick (sb_entries b ! k) \<noteq> t then None
         else Some (en_state (sb_entries b ! k)))"

definition buffer_newest :: "snapshot_buffer \<Rightarrow> tick" where
  "buffer_newest b = (if sb_entries b = [] then kNoTick else en_tick (last (sb_entries b)))"

definition buffer_ticks :: "snapshot_buffer \<Rightarrow> tick list" where
  "buffer_ticks b = map en_tick (sb_entries b)"

text \<open>
  The loop over the later entries. \<open>apply_snapshot\<close> in its lenient form always has a result
  (\<open>lenient_result\<close>), so that the code's \<open>*derived\<close> is defined.
\<close>

fun rederive :: "snapshot_state \<Rightarrow> sb_entry list \<Rightarrow> sb_entry list" where
  "rederive st [] = []"
| "rederive st (e # es) =
     (let st' = the (apply_snapshot (Some st) (en_delta e) False)
      in e\<lparr>en_state := st'\<rparr> # rederive st' es)"

fun drop_old :: "tick \<Rightarrow> snapshot_state option \<Rightarrow> sb_entry list \<Rightarrow> snapshot_state option \<times> sb_entry list" where
  "drop_old newest base [] = (base, [])"
| "drop_old newest base (e # es) =
     (if outside_window (en_tick e) newest then drop_old newest (Some (en_state e)) es
      else (base, e # es))"

definition buffer_insert :: "snapshot_delta \<Rightarrow> snapshot_buffer \<Rightarrow> bool \<times> snapshot_buffer" where
  "buffer_insert d b =
     (let t = sd_tick d
      in if t = kNoTick \<or> buffer_find t b \<noteq> None then (False, b)
         else
           (let newest_tick = max (buffer_newest b) t
            in if outside_window t newest_tick then (False, b)
               else
                 (let k = lower_bound (\<lambda>e. en_tick e < t) (sb_entries b);
                      previous = (if k \<noteq> 0 then Some (en_state (sb_entries b ! (k - 1))) else sb_base b)
                  in case apply_snapshot previous d True of
                       None \<Rightarrow> (False, b)
                     | Some st \<Rightarrow>
                         (let entries = take k (sb_entries b) @ \<lparr>en_state = st, en_delta = d\<rparr> #
                                rederive st (drop k (sb_entries b));
                              (base, kept) = drop_old newest_tick (sb_base b) entries
                          in (True, \<lparr>sb_entries = kept, sb_base = base\<rparr>)))))"

definition buffer_clear :: "snapshot_buffer \<Rightarrow> snapshot_buffer" where
  "buffer_clear b = \<lparr>sb_entries = [], sb_base = None\<rparr>"

text \<open>\<open>sample\<close>: the states around a render tick and the position between them.\<close>

definition buffer_sample ::
  "'d float_arith \<Rightarrow> 'd \<Rightarrow> snapshot_buffer \<Rightarrow> (snapshot_state \<times> snapshot_state option \<times> 'd) option" where
  "buffer_sample F render_tick b =
     (let es = sb_entries b;
          real = (\<lambda>t. f_int F (uint t));
          after = lower_bound (\<lambda>e. \<not> f_less F render_tick (real (en_tick e))) es
      in if after = 0 then None
         else
           (let from_state = en_state (es ! (after - 1))
            in if after = length es then Some (from_state, None, f_int F 0)
               else
                 (let to_state = en_state (es ! after);
                      width = f_sub F (real (st_tick to_state)) (real (st_tick from_state))
                  in Some (from_state, Some to_state,
                       f_single F (f_clamp F (f_div F (f_sub F render_tick (real (st_tick from_state))) width)
                         (f_int F 0) (f_int F 1))))))"

subsection \<open>The entries are derived from their deltas\<close>

lemma lenient_result: "apply_snapshot previous d False \<noteq> None"
proof -
  have "apply_record held False r ents \<noteq> None" for held r ents
    by (simp add: apply_record_def Let_def)
  then have all: "apply_records held False rs ents \<noteq> None" for held rs ents
    by (induction rs arbitrary: ents) (auto split: option.split)
  show ?thesis
    unfolding apply_snapshot_def Let_def
    by (subst option.case_eq_if) (simp add: all del: not_None_eq)
qed

lemma strict_lenient: "apply_snapshot previous d True = Some st \<Longrightarrow> apply_snapshot previous d False = Some st"
proof -
  have one: "apply_record held True r ents = Some x \<Longrightarrow> apply_record held False r ents = Some x" for held r ents x
    by (auto simp: apply_record_def Let_def split: if_splits)
  have "apply_records held True rs ents = Some x \<Longrightarrow> apply_records held False rs ents = Some x" for held rs ents x
    by (induction rs arbitrary: ents) (auto dest: one split: option.splits)
  then show "apply_snapshot previous d True = Some st \<Longrightarrow> apply_snapshot previous d False = Some st"
    by (auto simp: apply_snapshot_def Let_def split: option.splits if_splits)
qed

fun derive :: "snapshot_state option \<Rightarrow> snapshot_delta list \<Rightarrow> sb_entry list" where
  "derive previous [] = []"
| "derive previous (d # ds) =
     (let st = the (apply_snapshot previous d False)
      in \<lparr>en_state = st, en_delta = d\<rparr> # derive (Some st) ds)"

lemma rederive_derive: "rederive st es = derive (Some st) (map en_delta es)"
  by (induction es arbitrary: st) (simp_all add: Let_def)

lemma map_derive [simp]: "map en_delta (derive p ds) = ds"
  by (induction ds arbitrary: p) (simp_all add: Let_def)

lemma length_derive [simp]: "length (derive p ds) = length ds"
  by (induction ds arbitrary: p) (simp_all add: Let_def)

lemma derive_append:
  "derive p (xs @ ys) =
     derive p xs @ derive (if xs = [] then p else Some (en_state (last (derive p xs)))) ys"
proof (induction xs arbitrary: p)
  case Nil
  then show ?case by simp
next
  case (Cons x xs)
  show ?case
  proof (cases xs)
    case Nil
    then show ?thesis by (simp add: Let_def)
  next
    case (Cons y zs)
    then have "derive q xs \<noteq> []" for q by (simp add: Let_def)
    with Cons.IH Cons show ?thesis by (simp add: Let_def)
  qed
qed

lemma apply_tick: "apply_snapshot p d strict = Some st \<Longrightarrow> st_tick st = sd_tick d"
  by (auto simp: apply_snapshot_def Let_def split: option.splits)

lemma derive_ticks: "map en_tick (derive p ds) = map sd_tick ds"
proof (induction ds arbitrary: p)
  case Nil
  then show ?case by simp
next
  case (Cons d ds)
  obtain st where "apply_snapshot p d False = Some st" using lenient_result by fastforce
  with Cons apply_tick [OF this] show ?case by (simp add: Let_def en_tick_def)
qed

definition prev_wf :: "snapshot_state option \<Rightarrow> bool" where
  "prev_wf p \<longleftrightarrow> (\<forall>st. p = Some st \<longrightarrow> state_wf st)"

lemma derive_wf: "prev_wf p \<Longrightarrow> e \<in> set (derive p ds) \<Longrightarrow> state_wf (en_state e)"
proof (induction ds arbitrary: p)
  case Nil
  then show ?case by simp
next
  case (Cons d ds)
  obtain st where st: "apply_snapshot p d False = Some st" using lenient_result by fastforce
  have "state_wf st" using apply_snapshot_spec(2) [of p d False st] Cons.prems(1) st by (simp add: prev_wf_def)
  with Cons st show ?case by (auto simp: Let_def prev_wf_def)
qed

text \<open>What the states say, whatever they are made of: the deltas on top of each other.\<close>

lemma derive_view:
  "prev_wf p \<Longrightarrow> k < length ds \<Longrightarrow>
     state_view (en_state (derive p ds ! k)) = fold view_delta (take (Suc k) ds) (view_of p)"
proof (induction ds arbitrary: p k)
  case Nil
  then show ?case by simp
next
  case (Cons d ds)
  obtain st where st: "apply_snapshot p d False = Some st" using lenient_result by fastforce
  have s: "state_wf st" "state_view st = view_delta d (view_of p)"
    using apply_snapshot_spec(2) [of p d False st] Cons.prems(1) st by (simp_all add: prev_wf_def)
  show ?case
  proof (cases k)
    case 0
    with st s show ?thesis by (simp add: Let_def)
  next
    case (Suc n)
    then show ?thesis
      using Cons.IH [of "Some st" n] Cons.prems(2) st s by (simp add: Let_def prev_wf_def view_of_def)
  qed
qed

definition buffer_inv :: "snapshot_buffer \<Rightarrow> bool" where
  "buffer_inv b \<longleftrightarrow>
     prev_wf (sb_base b) \<and>
     sb_entries b = derive (sb_base b) (map en_delta (sb_entries b)) \<and>
     by_key en_tick (sb_entries b) \<and>
     (\<forall>e \<in> set (sb_entries b). en_tick e \<noteq> kNoTick \<and> \<not> outside_window (en_tick e) (buffer_newest b))"

lemma empty_buffer_inv: "buffer_inv empty_buffer"
  by (simp add: buffer_inv_def empty_buffer_def prev_wf_def)

lemma drop_old_split:
  "\<exists>pre. es = pre @ snd (drop_old n p es) \<and>
     fst (drop_old n p es) = (if pre = [] then p else Some (en_state (last pre))) \<and>
     (\<forall>e \<in> set pre. outside_window (en_tick e) n) \<and>
     (snd (drop_old n p es) \<noteq> [] \<longrightarrow> \<not> outside_window (en_tick (hd (snd (drop_old n p es)))) n)"
proof (induction es arbitrary: p)
  case Nil
  then show ?case by simp
next
  case (Cons e es)
  show ?case
  proof (cases "outside_window (en_tick e) n")
    case True
    from Cons [of "Some (en_state e)"] obtain pre where pre:
      "es = pre @ snd (drop_old n (Some (en_state e)) es)"
      "fst (drop_old n (Some (en_state e)) es) = (if pre = [] then Some (en_state e) else Some (en_state (last pre)))"
      "\<forall>e \<in> set pre. outside_window (en_tick e) n"
      "snd (drop_old n (Some (en_state e)) es) \<noteq> [] \<longrightarrow>
         \<not> outside_window (en_tick (hd (snd (drop_old n (Some (en_state e)) es)))) n"
      by blast
    then show ?thesis using True by (intro exI [of _ "e # pre"]) auto
  next
    case False
    then show ?thesis by (intro exI [of _ "[]"]) simp
  qed
qed

subsection \<open>Inserting keeps the invariant\<close>

lemma lower_bound_parts:
  assumes "by_key f xs" and "k = lower_bound (\<lambda>x. f x < t) xs"
  shows "x \<in> set (take k xs) \<Longrightarrow> f x < t" and "x \<in> set (drop k xs) \<Longrightarrow> t \<le> f x"
proof -
  have tk: "take k xs = takeWhile (\<lambda>x. f x < t) xs" and dk: "drop k xs = dropWhile (\<lambda>x. f x < t) xs"
    by (simp_all add: assms(2) lower_bound_def takeWhile_eq_take [symmetric] dropWhile_eq_drop [symmetric])
  show "x \<in> set (take k xs) \<Longrightarrow> f x < t" unfolding tk by (rule set_takeWhileD [THEN conjunct2])
  assume x: "x \<in> set (drop k xs)"
  then obtain y ys where y: "drop k xs = y # ys" by (cases "drop k xs") auto
  have "\<not> f y < t" using y dk hd_dropWhile [of "\<lambda>x. f x < t" xs] by (metis list.sel(1) list.distinct(1))
  moreover have "sorted_wrt (<) (map f (take k xs @ y # ys))"
    using assms(1) y by (metis append_take_drop_id by_key_def)
  then have "\<forall>z \<in> set ys. f y < f z" by (simp add: sorted_wrt_append)
  ultimately show "t \<le> f x" using x y by auto
qed

lemma by_key_append:
  "by_key f (xs @ ys) \<longleftrightarrow> by_key f xs \<and> by_key f ys \<and> (\<forall>x \<in> set xs. \<forall>y \<in> set ys. f x < f y)"
  by (auto simp: by_key_def sorted_wrt_append)

lemma buffer_find_first:
  "by_key en_tick (sb_entries b) \<Longrightarrow>
     buffer_find t b = map_option en_state (find_first (\<lambda>e. en_tick e = t) (sb_entries b))"
  using lower_bound_cases [of en_tick "sb_entries b" t]
  by (auto simp: buffer_find_def Let_def split: option.splits dest: find_first_Some)

lemma window_self: "\<not> outside_window n n"
proof -
  have "n - kSnapshotWindowTicks < n" if "kSnapshotWindowTicks \<le> n"
  proof -
    have "unat kSnapshotWindowTicks = 128" "128 \<le> unat n"
      using that by (simp_all add: kSnapshotWindowTicks_def word_le_nat_alt)
    then show ?thesis using that by (simp add: word_less_nat_alt unat_sub)
  qed
  then show ?thesis by (auto simp: outside_window_def)
qed

lemma window_mono: "t \<le> u \<Longrightarrow> outside_window u n \<Longrightarrow> outside_window t n"
  by (auto simp: outside_window_def)

text \<open>The entries of an accepted insert before the old ones are dropped.\<close>

lemma insert_accepted:
  assumes inv: "buffer_inv b" and ins: "buffer_insert d b = (True, b')"
  obtains k es where "k \<le> length (sb_entries b)"
    and "es = derive (sb_base b) (take k (map en_delta (sb_entries b)) @ d # drop k (map en_delta (sb_entries b)))"
    and "by_key en_tick es" and "sd_tick d \<noteq> kNoTick"
    and "buffer_find (sd_tick d) b = None"
    and "en_tick (last es) = max (buffer_newest b) (sd_tick d)"
    and "b' = (let (base, kept) = drop_old (max (buffer_newest b) (sd_tick d)) (sb_base b) es
               in \<lparr>sb_entries = kept, sb_base = base\<rparr>)"
    and "\<not> outside_window (sd_tick d) (max (buffer_newest b) (sd_tick d))"
proof -
  let ?t = "sd_tick d" and ?es = "sb_entries b"
  define k where "k = lower_bound (\<lambda>e. en_tick e < ?t) ?es"
  define previous where "previous = (if k \<noteq> 0 then Some (en_state (?es ! (k - 1))) else sb_base b)"
  have keyed: "by_key en_tick ?es" and der: "?es = derive (sb_base b) (map en_delta ?es)"
    using inv by (simp_all add: buffer_inv_def)
  have t0: "?t \<noteq> kNoTick" and nofind: "buffer_find ?t b = None"
    and win: "\<not> outside_window ?t (max (buffer_newest b) ?t)"
    using ins by (auto simp: buffer_insert_def Let_def split: if_splits)
  have eq: "buffer_insert d b =
      (case apply_snapshot previous d True of
         None \<Rightarrow> (False, b)
       | Some st \<Rightarrow>
           (let (base, kept) = drop_old (max (buffer_newest b) ?t) (sb_base b)
              (take k ?es @ \<lparr>en_state = st, en_delta = d\<rparr> # rederive st (drop k ?es))
            in (True, \<lparr>sb_entries = kept, sb_base = base\<rparr>)))"
    unfolding buffer_insert_def Let_def k_def [symmetric] previous_def [symmetric]
    using t0 nofind win by simp
  obtain st where st: "apply_snapshot previous d True = Some st"
    using ins eq by (cases "apply_snapshot previous d True") auto
  have b': "b' = (let (base, kept) = drop_old (max (buffer_newest b) ?t) (sb_base b)
        (take k ?es @ \<lparr>en_state = st, en_delta = d\<rparr> # rederive st (drop k ?es))
      in \<lparr>sb_entries = kept, sb_base = base\<rparr>)"
    using ins eq unfolding st by (auto simp: Let_def split: prod.splits)
  have kle: "k \<le> length ?es" by (simp add: k_def lower_bound_le)
  define ds where "ds = map en_delta ?es"
  have "derive (sb_base b) (take k ds @ drop k ds) = ?es" using der by (simp add: ds_def)
  then have pre: "derive (sb_base b) (take k ds) = take k ?es"
    unfolding derive_append by (metis append_eq_conv_conj length_derive length_map length_take
        ds_def min.absorb2 kle)
  have prev: "(if take k ds = [] then sb_base b else Some (en_state (last (derive (sb_base b) (take k ds))))) = previous"
  proof (cases "k = 0")
    case True
    then show ?thesis by (simp add: previous_def)
  next
    case False
    have "last (take k ?es) = ?es ! (k - 1)"
      using False kle by (subst last_conv_nth) auto
    moreover have "take k ds \<noteq> []" using False kle by (auto simp: ds_def)
    ultimately show ?thesis using False by (simp add: previous_def pre)
  qed
  define es where "es = take k ?es @ \<lparr>en_state = st, en_delta = d\<rparr> # rederive st (drop k ?es)"
  have es: "es = derive (sb_base b) (take k ds @ d # drop k ds)"
    unfolding derive_append unfolding prev unfolding pre
    using strict_lenient [OF st] by (simp add: es_def rederive_derive ds_def drop_map Let_def)
  have ticks: "map en_tick es = map en_tick (take k ?es) @ ?t # map en_tick (drop k ?es)"
  proof -
    have dt: "map sd_tick ds = map en_tick ?es"
      using der derive_ticks [of "sb_base b" ds] by (simp add: ds_def)
    have "map en_tick es = map sd_tick (take k ds @ d # drop k ds)"
      unfolding es by (rule derive_ticks)
    then show ?thesis using dt by (simp add: take_map [symmetric] drop_map [symmetric])
  qed
  note parts = lower_bound_parts [OF keyed k_def]
  have ne: "en_tick e \<noteq> ?t" if "e \<in> set ?es" for e
    using nofind that buffer_find_first [OF keyed, of ?t] by (auto simp: find_first_None)
  have after: "?t < en_tick e" if "e \<in> set (drop k ?es)" for e
    using parts(2) [OF that] ne [of e] in_set_dropD [OF that] by auto
  have k2: "by_key en_tick (take k ?es)" "by_key en_tick (drop k ?es)"
    "\<forall>x \<in> set (take k ?es). \<forall>y \<in> set (drop k ?es). en_tick x < en_tick y"
    using keyed append_take_drop_id [of k ?es] by (metis by_key_append)+
  have kes: "by_key en_tick es"
    unfolding by_key_def ticks using k2 parts(1) after
    by (auto simp: sorted_wrt_append by_key_def)
  have lst: "en_tick (last es) = max (buffer_newest b) ?t"
  proof -
    have "en_tick (last es) = last (map en_tick es)" by (simp add: last_map es_def)
    also have "\<dots> = last (?t # map en_tick (drop k ?es))" unfolding ticks by simp
    also have "\<dots> = max (buffer_newest b) ?t"
    proof (cases "drop k ?es = []")
      case True
      have "buffer_newest b \<le> ?t"
      proof (cases "?es = []")
        case False
        then have "last ?es \<in> set (take k ?es)" using True by simp
        then show ?thesis using parts(1) by (force simp: buffer_newest_def False)
      qed (simp add: buffer_newest_def kNoTick_def)
      with True show ?thesis by (simp add: max_def)
    next
      case False
      have l: "last (drop k ?es) \<in> set (drop k ?es)" "last (drop k ?es) = last ?es" "?es \<noteq> []"
        using False last_in_set [OF False] last_drop [of k ?es] by auto
      then have "?t < buffer_newest b" using after [OF l(1)] by (simp add: buffer_newest_def)
      then have "max (buffer_newest b) ?t = buffer_newest b" by (rule max.absorb1 [OF less_imp_le])
      then show ?thesis using False l by (simp add: last_map buffer_newest_def)
    qed
    finally show ?thesis .
  qed
  show thesis
    by (rule that [of k es])
      (use kle es kes t0 nofind lst b' win in \<open>simp_all add: ds_def es_def\<close>)
qed

lemma refused: "\<not> fst (buffer_insert d b) \<Longrightarrow> snd (buffer_insert d b) = b"
  by (auto simp: buffer_insert_def Let_def split: option.splits prod.splits)

lemma insert_inv:
  assumes inv: "buffer_inv b"
  shows "buffer_inv (snd (buffer_insert d b))"
proof (cases "fst (buffer_insert d b)")
  case False
  then have "snd (buffer_insert d b) = b" by (rule refused)
  with inv show ?thesis by simp
next
  case True
  then obtain b' where ins: "buffer_insert d b = (True, b')" by (cases "buffer_insert d b") auto
  obtain k es where es: "es = derive (sb_base b) (take k (map en_delta (sb_entries b)) @ d # drop k (map en_delta (sb_entries b)))"
    and keyed: "by_key en_tick es" and t0: "sd_tick d \<noteq> kNoTick"
    and newest: "en_tick (last es) = max (buffer_newest b) (sd_tick d)"
    and b': "b' = (let (base, kept) = drop_old (max (buffer_newest b) (sd_tick d)) (sb_base b) es
               in \<lparr>sb_entries = kept, sb_base = base\<rparr>)"
    by (rule insert_accepted [OF inv ins])
  define n where "n = max (buffer_newest b) (sd_tick d)"
  obtain pre where pre: "es = pre @ sb_entries b'"
    and base: "sb_base b' = (if pre = [] then sb_base b else Some (en_state (last pre)))"
    and gone: "\<forall>e \<in> set pre. outside_window (en_tick e) n"
    and first: "sb_entries b' \<noteq> [] \<longrightarrow> \<not> outside_window (en_tick (hd (sb_entries b'))) n"
    using drop_old_split [of es n "sb_base b"] b' by (auto simp: n_def Let_def split: prod.splits)
  have "length es \<noteq> 0" unfolding es length_derive by simp
  then have "es \<noteq> []" by simp
  have kept: "sb_entries b' \<noteq> []"
  proof
    assume "sb_entries b' = []"
    then have "last es \<in> set pre" using pre \<open>es \<noteq> []\<close> by simp
    with gone newest window_self show False by (auto simp: n_def)
  qed
  have new': "buffer_newest b' = n"
    using kept pre newest by (simp add: buffer_newest_def n_def)
  have pwf: "prev_wf (sb_base b)" using inv by (simp add: buffer_inv_def)
  have wf: "state_wf (en_state e)" if "e \<in> set es" for e
    using derive_wf [OF pwf] that es by blast
  have "prev_wf (sb_base b')"
    using pwf wf base pre by (auto simp: prev_wf_def)
  moreover have "sb_entries b' = derive (sb_base b') (map en_delta (sb_entries b'))"
  proof -
    have "es = derive (sb_base b) (map en_delta es)" unfolding es map_derive by (rule refl)
    then have "pre @ sb_entries b' = derive (sb_base b) (map en_delta pre) @
        derive (if map en_delta pre = [] then sb_base b
          else Some (en_state (last (derive (sb_base b) (map en_delta pre))))) (map en_delta (sb_entries b'))"
      unfolding pre map_append derive_append .
    then have "pre = derive (sb_base b) (map en_delta pre)"
      and "sb_entries b' = derive (if map en_delta pre = [] then sb_base b
          else Some (en_state (last (derive (sb_base b) (map en_delta pre))))) (map en_delta (sb_entries b'))"
      by (simp_all add: append_eq_append_conv)
    then show ?thesis using base by auto
  qed
  moreover have "by_key en_tick (sb_entries b')" using keyed by (simp add: pre by_key_append)
  moreover have "en_tick e \<noteq> kNoTick \<and> \<not> outside_window (en_tick e) n" if "e \<in> set (sb_entries b')" for e
  proof
    obtain h tl where h: "sb_entries b' = h # tl" using kept by (cases "sb_entries b'") auto
    have "en_tick h \<le> en_tick e" using that keyed h by (auto simp: pre by_key_append order.strict_iff_order)
    then show "\<not> outside_window (en_tick e) n" using first h window_mono by auto
    have "en_tick e \<in> set (map en_tick es)" using that by (simp add: pre)
    also have "map en_tick es = map sd_tick (take k (map en_delta (sb_entries b)) @ d # drop k (map en_delta (sb_entries b)))"
      unfolding es by (rule derive_ticks)
    finally have "en_tick e = sd_tick d \<or> en_tick e \<in> set (map sd_tick (map en_delta (sb_entries b)))"
      by (auto dest: in_set_takeD in_set_dropD simp: take_map drop_map)
    moreover have "map sd_tick (map en_delta (sb_entries b)) = map en_tick (sb_entries b)"
      using inv derive_ticks [of "sb_base b" "map en_delta (sb_entries b)"] by (simp add: buffer_inv_def)
    ultimately show "en_tick e \<noteq> kNoTick" using t0 inv by (auto simp: buffer_inv_def)
  qed
  ultimately show ?thesis
    using ins new' by (simp add: buffer_inv_def)
qed


subsection \<open>Late snapshots and dropped ones\<close>

text \<open>A run of arrivals: the deltas the buffer accepted, in order of arrival, and the buffer.\<close>

definition arrive :: "snapshot_delta \<Rightarrow> snapshot_delta list \<times> snapshot_buffer \<Rightarrow> snapshot_delta list \<times> snapshot_buffer" where
  "arrive d s =
     (let (accepted, b) = buffer_insert d (snd s) in (if accepted then fst s @ [d] else fst s, b))"

definition history_inv :: "snapshot_delta list \<Rightarrow> snapshot_buffer \<Rightarrow> snapshot_delta list \<Rightarrow> bool" where
  "history_inv acc b gone \<longleftrightarrow>
     buffer_inv b \<and>
     mset acc = mset (gone @ map en_delta (sb_entries b)) \<and>
     by_key sd_tick (gone @ map en_delta (sb_entries b)) \<and>
     view_of (sb_base b) = fold view_delta gone (\<lambda>_. None) \<and>
     (\<forall>g \<in> set gone. outside_window (sd_tick g) (buffer_newest b))"

lemma window_later: "outside_window t n \<Longrightarrow> n \<le> n' \<Longrightarrow> outside_window t n'"
proof -
  assume a: "outside_window t n" "n \<le> n'"
  have w: "unat kSnapshotWindowTicks = 128" by (simp add: kSnapshotWindowTicks_def)
  have "kSnapshotWindowTicks \<le> n" using a by (simp add: outside_window_def)
  then have "unat (n - kSnapshotWindowTicks) = unat n - 128" "unat (n' - kSnapshotWindowTicks) = unat n' - 128"
    using a(2) w by (simp_all add: word_le_nat_alt unat_sub)
  then show ?thesis using a w by (auto simp: outside_window_def word_le_nat_alt)
qed

lemma inv_deltas: "buffer_inv b \<Longrightarrow> by_key sd_tick (map en_delta (sb_entries b)) \<and>
    map sd_tick (map en_delta (sb_entries b)) = map en_tick (sb_entries b)"
proof -
  assume inv: "buffer_inv b"
  then have "map sd_tick (map en_delta (sb_entries b)) = map en_tick (sb_entries b)"
    using derive_ticks [of "sb_base b" "map en_delta (sb_entries b)"] by (simp only: buffer_inv_def)
  with inv show ?thesis unfolding buffer_inv_def by_key_def by (simp only:)
qed

lemma history_step:
  assumes inv: "history_inv acc b gone" and ins: "buffer_insert d b = (True, b')"
  shows "\<exists>gone'. history_inv (acc @ [d]) b' gone'"
proof -
  have binv: "buffer_inv b" using inv by (simp add: history_inv_def)
  define ds where "ds = map en_delta (sb_entries b)"
  define n where "n = max (buffer_newest b) (sd_tick d)"
  obtain k es where k: "k \<le> length (sb_entries b)"
    and es: "es = derive (sb_base b) (take k ds @ d # drop k ds)"
    and keyed: "by_key en_tick es" and newest: "en_tick (last es) = n"
    and b': "b' = (let (base, kept) = drop_old n (sb_base b) es in \<lparr>sb_entries = kept, sb_base = base\<rparr>)"
    and win: "\<not> outside_window (sd_tick d) n"
    unfolding ds_def n_def by (rule insert_accepted [OF binv ins])
  obtain pre where pre: "es = pre @ sb_entries b'"
    and base: "sb_base b' = (if pre = [] then sb_base b else Some (en_state (last pre)))"
    and gone: "\<forall>e \<in> set pre. outside_window (en_tick e) n"
    using drop_old_split [of es n "sb_base b"] b' by (auto simp: Let_def split: prod.splits)
  have deltas: "map en_delta pre @ map en_delta (sb_entries b') = take k ds @ d # drop k ds"
    using arg_cong [OF es, of "map en_delta"] unfolding pre map_append map_derive .
  have ticks: "map sd_tick (take k ds @ d # drop k ds) = map en_tick es"
    unfolding es by (rule derive_ticks [symmetric])
  have "length es \<noteq> 0" unfolding es length_derive by simp
  then have ne: "es \<noteq> []" by simp
  have "sb_entries b' \<noteq> []"
  proof
    assume "sb_entries b' = []"
    then have "last es \<in> set pre" using pre ne by simp
    with gone newest window_self show False by auto
  qed
  then have new': "buffer_newest b' = n" using pre newest by (simp add: buffer_newest_def)
  have inv': "buffer_inv b'" using insert_inv [OF binv, of d] ins by simp
  have old: "outside_window (sd_tick g) n" if "g \<in> set gone" for g
    using inv that window_later [of "sd_tick g" "buffer_newest b" n] by (simp add: history_inv_def n_def)
  have all: "map en_delta es = take k ds @ d # drop k ds" unfolding es by (rule map_derive)
  have same: "sd_tick (en_delta e) = en_tick e" if "e \<in> set es" for e
    using ticks [folded all] that by simp
  define gone' where "gone' = gone @ map en_delta pre"
  have split_all: "gone' @ map en_delta (sb_entries b') = gone @ take k ds @ d # drop k ds"
    by (simp add: gone'_def deltas)
  have m: "mset (acc @ [d]) = mset (gone' @ map en_delta (sb_entries b'))"
  proof -
    have "mset (take k ds @ d # drop k ds) = add_mset d (mset ds)"
      by (metis append_take_drop_id mset.simps(2) mset_append union_mset_add_mset_right)
    then show ?thesis using inv by (simp add: split_all history_inv_def ds_def)
  qed
  have key: "by_key sd_tick (gone' @ map en_delta (sb_entries b'))"
    unfolding split_all by_key_append [of _ gone]
  proof (intro conjI ballI)
    show "by_key sd_tick gone" using inv by (simp add: history_inv_def by_key_append)
    show "by_key sd_tick (take k ds @ d # drop k ds)"
      using keyed ticks unfolding by_key_def by (simp only:)
    fix g x assume g: "g \<in> set gone" and "x \<in> set (take k ds @ d # drop k ds)"
    then have "x = d \<or> x \<in> set ds" by (auto dest: in_set_takeD in_set_dropD)
    then show "sd_tick g < sd_tick x"
    proof
      assume "x = d"
      with old [OF g] win window_mono show ?thesis by (metis linorder_not_less)
    next
      assume "x \<in> set ds"
      with inv g show ?thesis by (auto simp: history_inv_def by_key_append ds_def)
    qed
  qed
  have pwf: "prev_wf (sb_base b)" using binv by (simp add: buffer_inv_def)
  have view: "view_of (sb_base b') = fold view_delta gone' (\<lambda>_. None)"
  proof (cases "pre = []")
    case True
    then show ?thesis using inv base by (simp add: gone'_def history_inv_def)
  next
    case False
    define j where "j = length pre - 1"
    have j: "Suc j = length pre" using False by (simp add: j_def)
    have "last pre = es ! j" using False by (simp add: pre last_conv_nth nth_append j_def)
    moreover have "j < length (take k ds @ d # drop k ds)"
      using j arg_cong [OF all, of length] pre by simp
    ultimately have v: "state_view (en_state (last pre)) =
        fold view_delta (take (Suc j) (take k ds @ d # drop k ds)) (view_of (sb_base b))"
      using derive_view [OF pwf] es by simp
    have t: "take (Suc j) (take k ds @ d # drop k ds) = map en_delta pre"
      unfolding deltas [symmetric] j by simp
    show ?thesis
      using v [unfolded t] False base inv by (simp add: view_of_def gone'_def history_inv_def)
  qed
  have out: "\<forall>g \<in> set gone'. outside_window (sd_tick g) (buffer_newest b')"
    unfolding new' using old gone same pre by (auto simp: gone'_def)
  show ?thesis
    using inv' m key view out unfolding history_inv_def by blast
qed

lemma refused_same: "\<not> fst (buffer_insert d b) \<Longrightarrow> buffer_insert d b = (False, b)"
  using refused [of d b] by (cases "buffer_insert d b") auto

lemma arrive_history:
  "\<exists>gone. history_inv acc b gone \<Longrightarrow>
     \<exists>gone. history_inv (fst (fold arrive ds (acc, b))) (snd (fold arrive ds (acc, b))) gone"
proof (induction ds arbitrary: acc b)
  case Nil
  then show ?case by simp
next
  case (Cons d ds)
  show ?case
  proof (cases "fst (buffer_insert d b)")
    case False
    then show ?thesis using Cons refused_same [of d b] by (simp add: arrive_def)
  next
    case True
    then obtain b' where ins: "buffer_insert d b = (True, b')" by (cases "buffer_insert d b") auto
    then have "\<exists>gone. history_inv (acc @ [d]) b' gone" using Cons.prems history_step by blast
    from Cons.IH [OF this] show ?thesis using ins by (simp add: arrive_def)
  qed
qed

lemma empty_history: "history_inv [] empty_buffer []"
  using empty_buffer_inv by (simp add: history_inv_def empty_buffer_def by_key_def view_of_def)

lemma sort_by_key: "by_key f ys \<Longrightarrow> mset xs = mset ys \<Longrightarrow> sort_key f xs = ys"
  by (rule sort_key_inj_key_eq)
    (auto simp: by_key_def strict_sorted_iff distinct_map dest: mset_eq_setD)

lemma history_find:
  assumes h: "history_inv accepted b gone" and found: "buffer_find t b = Some st"
  shows "st_tick st = t \<and>
    state_view st = fold view_delta (filter (\<lambda>d. sd_tick d \<le> t) (sort_key sd_tick accepted)) (\<lambda>_. None)"
proof -
  define es where "es = sb_entries b"
  have inv: "buffer_inv b" and keyed: "by_key en_tick es" and pwf: "prev_wf (sb_base b)"
    and der: "es = derive (sb_base b) (map en_delta es)"
    using h by (simp_all add: history_inv_def buffer_inv_def es_def)
  have "buffer_find t b = map_option en_state (find_first (\<lambda>e. en_tick e = t) es)"
    using buffer_find_first [of b t] keyed by (simp add: es_def)
  with found obtain e where "find_first (\<lambda>e. en_tick e = t) es = Some e" and st: "st = en_state e"
    by (cases "find_first (\<lambda>e. en_tick e = t) es") auto
  then have e: "e \<in> set es" "en_tick e = t" using find_first_by_key [OF keyed] by auto
  then obtain j where j: "j < length es" "e = es ! j" by (auto simp: in_set_conv_nth)
  have view: "state_view st = fold view_delta (take (Suc j) (map en_delta es)) (view_of (sb_base b))"
    using derive_view [OF pwf, of j "map en_delta es"] j st der by simp
  have sorted: "sort_key sd_tick accepted = gone @ map en_delta es"
    using h by (intro sort_by_key) (simp_all add: history_inv_def es_def)
  have tick: "sd_tick (map en_delta es ! i) = en_tick (es ! i)" if "i < length es" for i
    using inv_deltas [OF inv] that unfolding es_def by (metis length_map nth_map)
  have whole: "by_key sd_tick (gone @ map en_delta es)" using h by (simp add: history_inv_def es_def)
  have split: "map en_delta es = take j (map en_delta es) @ (map en_delta es ! j) # drop (Suc j) (map en_delta es)"
    by (rule id_take_nth_drop) (simp add: j)
  have keys: "by_key sd_tick (gone @ take j (map en_delta es) @ (map en_delta es ! j) # drop (Suc j) (map en_delta es))"
    using whole split by simp
  have at: "sd_tick (map en_delta es ! j) = t" using tick j e by simp
  have below: "sd_tick x \<le> t" if "x \<in> set (gone @ take (Suc j) (map en_delta es))" for x
    using that keys at j by (auto simp: by_key_append take_Suc_conv_app_nth order.strict_iff_order)
  have above: "t < sd_tick x" if "x \<in> set (drop (Suc j) (map en_delta es))" for x
    using that keys at by (auto simp: by_key_append)
  have "filter (\<lambda>d. sd_tick d \<le> t) ((gone @ take (Suc j) (map en_delta es)) @ drop (Suc j) (map en_delta es)) =
      gone @ take (Suc j) (map en_delta es)"
    using below above by (subst filter_append) (auto simp: filter_id_conv filter_empty_conv linorder_not_le)
  then have "filter (\<lambda>d. sd_tick d \<le> t) (sort_key sd_tick accepted) = gone @ take (Suc j) (map en_delta es)"
    by (simp add: sorted)
  moreover have "view_of (sb_base b) = fold view_delta gone (\<lambda>_. None)"
    using h by (simp add: history_inv_def)
  ultimately show ?thesis using view e(2) st by (simp add: en_tick_def)
qed


lemma arrivals_view:
  assumes "fold arrive ds ([], empty_buffer) = (accepted, b)" and "buffer_find t b = Some st"
  shows "st_tick st = t \<and>
    state_view st = fold view_delta (filter (\<lambda>d. sd_tick d \<le> t) (sort_key sd_tick accepted)) (\<lambda>_. None)"
proof -
  obtain gone where h: "history_inv accepted b gone"
    using arrive_history [of "[]" empty_buffer ds] empty_history assms(1) by auto
  show ?thesis by (rule history_find [OF h assms(2)])
qed

text \<open>
  C5: Whatever the order in which snapshots arrive, and whichever the buffer refused or has since
  dropped, the state it holds for a tick is that tick's, and says what the accepted deltas up to
  that tick say, applied in tick order from nothing.
\<close>

theorem snapshot_order:
  assumes "fold arrive ds ([], empty_buffer) = (accepted, b)" and "buffer_find t b = Some st"
  shows "st_tick st = t \<and>
    state_view st = fold view_delta (filter (\<lambda>d. sd_tick d \<le> t) (sort_key sd_tick accepted)) (\<lambda>_. None)"
  using assms by (rule arrivals_view)

definition demo_first :: snapshot_delta where
  "demo_first = \<lparr>sd_tick = 1, sd_removed = [],
     sd_records = [\<lparr>sr_id = 5, sr_owner = Some 1, sr_changed = 1, sr_lost = 0, sr_blobs = [[7]]\<rparr>]\<rparr>"

definition demo_second :: snapshot_delta where
  "demo_second = \<lparr>sd_tick = 2, sd_removed = [],
     sd_records = [\<lparr>sr_id = 6, sr_owner = Some 2, sr_changed = 2, sr_lost = 0, sr_blobs = [[8, 9]]\<rparr>]\<rparr>"

lemma demo_arrivals:
  "fst (fold arrive [demo_second, demo_first, demo_first] ([], empty_buffer)) = [demo_second, demo_first]"
  "buffer_find 2 (snd (fold arrive [demo_second, demo_first, demo_first] ([], empty_buffer))) \<noteq> None"
  by code_simp+

theorem snapshot_order_witness:
  "state_view (the (buffer_find 2 (snd (fold arrive [demo_second, demo_first, demo_first] ([], empty_buffer))))) =
     fold view_delta [demo_first, demo_second] (\<lambda>_. None)"
proof -
  have "sort_key sd_tick [demo_second, demo_first] = [demo_first, demo_second]"
    by (rule sort_by_key) (simp_all add: by_key_def demo_first_def demo_second_def)
  then have "filter (\<lambda>d. sd_tick d \<le> 2) (sort_key sd_tick [demo_second, demo_first]) = [demo_first, demo_second]"
    by (simp add: demo_first_def demo_second_def)
  then show ?thesis
    using snapshot_order [of "[demo_second, demo_first, demo_first]" "[demo_second, demo_first]"
        "snd (fold arrive [demo_second, demo_first, demo_first] ([], empty_buffer))" 2]
      demo_arrivals by (metis option.collapse prod.collapse)
qed

subsection \<open>What the buffer accepts\<close>

lemma previous_view:
  assumes inv: "buffer_inv b" and k: "k = lower_bound (\<lambda>e. en_tick e < t) (sb_entries b)"
    and p: "p = (if k \<noteq> 0 then Some (en_state (sb_entries b ! (k - 1))) else sb_base b)"
  shows "prev_wf p"
    and "view_of p = fold view_delta (filter (\<lambda>d. sd_tick d < t) (map en_delta (sb_entries b))) (view_of (sb_base b))"
proof -
  let ?es = "sb_entries b" and ?ds = "map en_delta (sb_entries b)"
  have der: "?es = derive (sb_base b) ?ds" and pwf: "prev_wf (sb_base b)" and keyed: "by_key en_tick ?es"
    using inv by (simp_all add: buffer_inv_def)
  have kle: "k \<le> length ?es" by (simp add: k lower_bound_le)
  have "en_state (?es ! (k - 1)) = en_state (derive (sb_base b) ?ds ! (k - 1))" using der by simp
  show "prev_wf p"
  proof (cases "k = 0")
    case False
    then have "?es ! (k - 1) \<in> set (derive (sb_base b) ?ds)" using kle der by (metis One_nat_def Suc_pred
          less_eq_Suc_le nth_mem neq0_conv)
    then show ?thesis using p False derive_wf [OF pwf] by (simp add: prev_wf_def)
  qed (use p pwf in simp)
  have tk: "sd_tick (en_delta e) = en_tick e" if "e \<in> set ?es" for e
    using inv_deltas [OF inv] that by (simp add: comp_def)
  have "filter (\<lambda>d. sd_tick d < t) ?ds = map en_delta (filter (\<lambda>e. en_tick e < t) ?es)"
    using tk by (simp add: filter_map comp_def cong: filter_cong)
  also have "filter (\<lambda>e. en_tick e < t) ?es = take k ?es"
  proof -
    have "filter (\<lambda>e. en_tick e < t) (take k ?es @ drop k ?es) = take k ?es"
      using lower_bound_parts [OF keyed k]
      by (subst filter_append) (auto simp: filter_id_conv filter_empty_conv linorder_not_less)
    then show ?thesis by simp
  qed
  finally have f: "filter (\<lambda>d. sd_tick d < t) ?ds = take k ?ds" by (simp add: take_map)
  show "view_of p = fold view_delta (filter (\<lambda>d. sd_tick d < t) ?ds) (view_of (sb_base b))"
  proof (cases "k = 0")
    case True
    then show ?thesis using p f by simp
  next
    case False
    then show ?thesis
      using p f derive_view [OF pwf, of "k - 1" ?ds] der kle by (simp add: view_of_def)
  qed
qed

lemma find_ticks: "by_key en_tick (sb_entries b) \<Longrightarrow> buffer_find t b = None \<longleftrightarrow> t \<notin> set (buffer_ticks b)"
  by (auto simp: buffer_find_first find_first_None buffer_ticks_def)

text \<open>
  C25: The buffer accepts a snapshot exactly when its tick is a real one, not held yet and inside the
  window, and its records fit the state the entries before it make; a refused one changes nothing.
\<close>

theorem insert_accepts:
  assumes inv: "buffer_inv b"
  shows "(fst (buffer_insert d b) \<longleftrightarrow>
      sd_tick d \<noteq> kNoTick \<and> sd_tick d \<notin> set (buffer_ticks b) \<and>
      \<not> outside_window (sd_tick d) (max (buffer_newest b) (sd_tick d)) \<and>
      fits_view d (fold view_delta (filter (\<lambda>x. sd_tick x < sd_tick d) (map en_delta (sb_entries b)))
        (view_of (sb_base b)))) \<and>
    (\<not> fst (buffer_insert d b) \<longrightarrow> snd (buffer_insert d b) = b) \<and>
    buffer_inv (snd (buffer_insert d b))"
proof (intro conjI impI)
  define k where "k = lower_bound (\<lambda>e. en_tick e < sd_tick d) (sb_entries b)"
  define p where "p = (if k \<noteq> 0 then Some (en_state (sb_entries b ! (k - 1))) else sb_base b)"
  have keyed: "by_key en_tick (sb_entries b)" using inv by (simp add: buffer_inv_def)
  note view = previous_view [OF inv k_def p_def]
  have "apply_snapshot p d True = None \<longleftrightarrow> \<not> fits_view d (view_of p)"
    using apply_snapshot_spec(1) [of p d True] view(1) by (simp add: prev_wf_def)
  then show "fst (buffer_insert d b) \<longleftrightarrow>
      sd_tick d \<noteq> kNoTick \<and> sd_tick d \<notin> set (buffer_ticks b) \<and>
      \<not> outside_window (sd_tick d) (max (buffer_newest b) (sd_tick d)) \<and>
      fits_view d (fold view_delta (filter (\<lambda>x. sd_tick x < sd_tick d) (map en_delta (sb_entries b)))
        (view_of (sb_base b)))"
    unfolding view(2) [symmetric] buffer_insert_def Let_def k_def [symmetric] p_def [symmetric]
      find_ticks [OF keyed]
    by (cases "apply_snapshot p d True") (simp_all split: prod.split)
qed (use refused insert_inv [OF inv] in blast)+

theorem insert_accepts_witness:
  "fst (buffer_insert demo_first empty_buffer) \<and> buffer_inv (snd (buffer_insert demo_first empty_buffer))"
proof -
  have "sd_tick demo_first \<noteq> kNoTick \<and> sd_tick demo_first \<notin> set (buffer_ticks empty_buffer) \<and>
      \<not> outside_window (sd_tick demo_first) (max (buffer_newest empty_buffer) (sd_tick demo_first)) \<and>
      fits_view demo_first (fold view_delta (filter (\<lambda>x. sd_tick x < sd_tick demo_first)
        (map en_delta (sb_entries empty_buffer))) (view_of (sb_base empty_buffer)))"
    by (simp add: demo_first_def empty_buffer_def buffer_ticks_def buffer_newest_def outside_window_def
        kSnapshotWindowTicks_def kNoTick_def word_le_nat_alt fits_view_def)
  then show ?thesis using insert_accepts [OF empty_buffer_inv, of demo_first] by blast
qed

end
