(* ===== verification/Ghost_Sync.thy ===== *)
theory Ghost_Sync
  imports Ghost_Acks Snapshot_Buffer
begin

section \<open>Server and client together\<close>

text \<open>
  The server's table of a peer, the messages it built, and the peer's snapshot buffer. Messages are
  delivered in any order, any number of times or never, and an acknowledgement may come long after
  the snapshot it names was accepted. \<open>ghosts_in_sync\<close>: where the table says that the peer has an
  entity's state, the peer has it.
\<close>

record 'd sync =
  sy_server :: "'d peer_ghosts"
  sy_sent :: "snapshot_delta list"
  sy_accepted :: "snapshot_delta list"
  sy_buffer :: snapshot_buffer

definition sync_start :: "'d sync" where
  "sync_start = \<lparr>sy_server = new_ghosts, sy_sent = [], sy_accepted = [], sy_buffer = empty_buffer\<rparr>"

text \<open>What a client makes of the bytes: the message id, the header, then the rest.\<close>

definition message_delta :: "nat \<Rightarrow> bytes \<Rightarrow> snapshot_delta option" where
  "message_delta slot_count bs =
     (let (message, r1) = read_u16 (new_reader bs)
      in if message \<noteq> Some kSnapshotMessageId then None
         else (let (header, r2) = read_snapshot_header r1
               in case header of None \<Rightarrow> None | Some (t, _) \<Rightarrow> fst (decode_snapshot t slot_count r2)))"

text \<open>What the capture and the interest management give to \<open>build\<close>.\<close>

definition relevant_ok :: "blob_heap \<Rightarrow> nat \<Rightarrow> relevant_entity \<Rightarrow> bool" where
  "relevant_ok h n r \<longleftrightarrow>
     rel_id r \<noteq> kInvalidNetId \<and> entity_fits h n (re_entity r) \<and> es_ok (re_entity r) \<and>
     (\<forall>bs \<in> set (es_blobs (re_entity r)). length bs \<le> kMaxSnapshotBlobBytes)"

inductive sync_reach :: "blob_heap \<Rightarrow> 'd float_arith \<Rightarrow> nat \<Rightarrow> 'd sync \<Rightarrow> bool" for h F n where
  Start: "sync_reach h F n sync_start"
| Build: "sync_reach h F n s \<Longrightarrow> t \<noteq> kNoTick \<Longrightarrow> (\<forall>d \<in> set (sy_sent s). sd_tick d < t) \<Longrightarrow>
    by_key rel_id relevant \<Longrightarrow> (\<forall>r \<in> set relevant. relevant_ok h n r) \<Longrightarrow>
    fits_signed 8 (ph_input_slack header) \<Longrightarrow>
    build F weight t header relevant budget n (sy_server s) = (b, p) \<Longrightarrow>
    message_delta n (bu_bytes b) = Some d \<Longrightarrow>
    sync_reach h F n (s\<lparr>sy_server := p, sy_sent := sy_sent s @ [d]\<rparr>)"
| Deliver: "sync_reach h F n s \<Longrightarrow> d \<in> set (sy_sent s) \<Longrightarrow>
    arrive d (sy_accepted s, sy_buffer s) = (accepted, b) \<Longrightarrow>
    sync_reach h F n (s\<lparr>sy_accepted := accepted, sy_buffer := b\<rparr>)"
| Ack: "sync_reach h F n s \<Longrightarrow> t \<in> sd_tick ` set (sy_accepted s) \<Longrightarrow>
    sync_reach h F n (s\<lparr>sy_server := acknowledge t (sy_server s)\<rparr>)"

subsection \<open>The message a build makes\<close>

lemma masked_out: "(\<forall>s. bit (m :: u32) s \<longrightarrow> s < n) \<Longrightarrow> and m (not (valid_slots n)) = 0"
proof -
  assume a: "\<forall>s. bit m s \<longrightarrow> s < n"
  have "bit (valid_slots n) s" if "s < n" "s < 32" for s
  proof (cases "n \<ge> kSlots")
    case True
    then show ?thesis using that by (simp add: valid_slots_def bit_not_iff possible_bit_word)
  next
    case False
    then have "slot_bit n - 1 = mask n" by (simp add: slot_bit_def mask_eq_exp_minus_1)
    with False that show ?thesis by (simp add: valid_slots_def bit_mask_iff possible_bit_word)
  qed
  with a show ?thesis
    by (intro mask_eqI) (auto simp: bit_and_iff bit_not_iff)
qed

lemma dirty_record_ok:
  assumes n: "n \<le> 32" and r: "relevant_ok h n r" and id: "rel_id r \<notin> set removed"
  shows "record_ok removed n (record_of (dirty_write g (re_entity r) n))"
proof -
  let ?e = "re_entity r" and ?w = "dirty_write g (re_entity r) n"
  note f = dirty_write_facts [OF n, of g ?e]
  have "and (sw_changed ?w) (sw_lost ?w) = 0"
    by (intro mask_eqI) (auto simp: bit_and_iff f)
  moreover have "length (es_component ?e s) \<le> kMaxSnapshotBlobBytes" if "bit (sw_changed ?w) s" for s
  proof -
    have "bit (es_mask ?e) s" using that by (simp add: f es_has_bit)
    then have "slot_index (es_mask ?e) s < length (es_blobs ?e)"
      using r slot_index_less by (simp add: relevant_ok_def es_ok_def)
    then show ?thesis using r nth_mem by (auto simp: relevant_ok_def es_component_def)
  qed
  ultimately show ?thesis
    using r id by (auto simp: record_ok_def record_of_def f(1) rel_id_def relevant_ok_def bit_slots_facts
        intro!: masked_out) (simp_all add: f)
qed

lemma build_delta:
  assumes key: "by_key gh_id (pg_ghosts p)" and rel: "by_key rel_id rs" and n: "n \<le> 32"
    and ok: "\<forall>r \<in> set rs. relevant_ok h n r" and t: "t \<noteq> kNoTick" and hd: "fits_signed 8 (ph_input_slack header)"
    and b: "build F weight t header rs budget n p = (bt, p')"
  shows "\<exists>writes removed.
    message_delta n (bu_bytes bt) = Some \<lparr>sd_tick = t, sd_removed = removed, sd_records = map record_of writes\<rparr> \<and>
    pg_sent p' = filter (\<lambda>s. \<not> se_tick s + kSnapshotWindowTicks \<le> t) (pg_sent p) @
      [\<lparr>se_tick = t, se_written = map (es_id \<circ> sw_entity) writes, se_removed = removed\<rparr>] \<and>
    by_key gh_id (pg_ghosts p') \<and> by_key (es_id \<circ> sw_entity) writes \<and>
    (\<forall>i. built_entity F n t (relevant_of i rs) (walked F t n (ghost_of i (pg_ghosts p)) (relevant_of i rs))
       (ghost_of i (pg_ghosts p')) (find_first (\<lambda>w. es_id (sw_entity w) = i) writes) (i \<in> set removed))"
proof -
  obtain writes removed where r: "bu_bytes bt = encode_snapshot t header removed writes"
    "pg_sent p' = filter (\<lambda>s. \<not> se_tick s + kSnapshotWindowTicks \<le> t) (pg_sent p) @
      [\<lparr>se_tick = t, se_written = map (es_id \<circ> sw_entity) writes, se_removed = removed\<rparr>]"
    "by_key gh_id (pg_ghosts p')" "by_key (es_id \<circ> sw_entity) writes"
    "length writes \<le> kMaxSnapshotEntries" "length removed \<le> kMaxSnapshotEntries"
    and e: "\<And>i. built_entity F n t (relevant_of i rs) (walked F t n (ghost_of i (pg_ghosts p)) (relevant_of i rs))
       (ghost_of i (pg_ghosts p')) (find_first (\<lambda>w. es_id (sw_entity w) = i) writes) (i \<in> set removed)"
    using build_result [OF key rel n b] by blast
  have wok: "record_ok removed n (record_of w)" if w: "w \<in> set writes" for w
  proof -
    let ?i = "es_id (sw_entity w)"
    have "find_first (\<lambda>w. es_id (sw_entity w) = ?i) writes = Some w"
      using find_first_by_key [OF r(4), of ?i w] w by simp
    then have "built_entity F n t (relevant_of ?i rs) (walked F t n (ghost_of ?i (pg_ghosts p)) (relevant_of ?i rs))
        (ghost_of ?i (pg_ghosts p')) (Some w) (?i \<in> set removed)"
      using e [of ?i] by simp
    then obtain r g where rg: "relevant_of ?i rs = Some r"
        "walked F t n (ghost_of ?i (pg_ghosts p)) (relevant_of ?i rs) = Some g"
        "w = dirty_write g (re_entity r) n" "?i \<notin> set removed" "\<not> gh_leaving g"
        "map_option (strip F) (ghost_of ?i (pg_ghosts p')) = map_option (strip F) (Some (commit_write F g (re_entity r) n t))"
      by (rule built_entity_Some)
    have "r \<in> set rs" "rel_id r = ?i" using relevant_of_Some [OF rg(1)] by (simp_all add: rel_id_def)
    with dirty_record_ok [OF n, of h r removed g] ok rg show ?thesis by simp
  qed
  have "message_delta n (bu_bytes bt) = Some \<lparr>sd_tick = t, sd_removed = removed, sd_records = map record_of writes\<rparr>"
    using encode_decode [OF t hd r(6,5), of n] wok by (auto simp: r(1) message_delta_def)
  then show ?thesis using r e by blast
qed


subsection \<open>The invariant\<close>

definition history_view :: "snapshot_delta list \<Rightarrow> tick set \<Rightarrow> net_id \<Rightarrow> entity_view option" where
  "history_view H A = fold view_delta (filter (\<lambda>d. sd_tick d \<in> A) H) (\<lambda>_. None)"

text \<open>The ticks in \<open>A\<close> of the messages still remembered that wrote, or removed, an entity.\<close>

definition ticks_with :: "(sent_snapshot \<Rightarrow> net_id list) \<Rightarrow> 'd peer_ghosts \<Rightarrow> tick set \<Rightarrow> net_id \<Rightarrow> tick set" where
  "ticks_with f p A i = se_tick ` {r \<in> set (pg_sent p). se_tick r \<in> A \<and> i \<in> set (f r)}"

definition sync_inv :: "blob_heap \<Rightarrow> nat \<Rightarrow> 'd sync \<Rightarrow> bool" where
  "sync_inv h n s \<longleftrightarrow>
     (let p = sy_server s; H = sy_sent s; ticks = sd_tick ` set H
      in by_key gh_id (pg_ghosts p) \<and> by_key sd_tick H \<and>
         (\<forall>r \<in> set (pg_sent p). se_tick r \<in> ticks) \<and>
         (\<forall>i g. ghost_of i (pg_ghosts p) = Some g \<longrightarrow> gh_confirmed g \<in> insert kNoTick ticks) \<and>
         set (sy_accepted s) \<subseteq> set H \<and>
         (\<exists>gone. history_inv (sy_accepted s) (sy_buffer s) gone) \<and>
         (\<forall>A i. sd_tick ` set (sy_accepted s) \<subseteq> A \<longrightarrow> A \<subseteq> ticks \<longrightarrow>
            entity_claim h n (history_view H A i) (ghost_of i (pg_ghosts p))
              (ticks_with se_written p A i) (ticks_with se_removed p A i)))"

lemma sync_invD:
  assumes "sync_inv h n s"
  shows "by_key gh_id (pg_ghosts (sy_server s))" and "by_key sd_tick (sy_sent s)"
    and "r \<in> set (pg_sent (sy_server s)) \<Longrightarrow> se_tick r \<in> sd_tick ` set (sy_sent s)"
    and "ghost_of i (pg_ghosts (sy_server s)) = Some g \<Longrightarrow> gh_confirmed g \<in> insert kNoTick (sd_tick ` set (sy_sent s))"
    and "set (sy_accepted s) \<subseteq> set (sy_sent s)"
    and "\<exists>gone. history_inv (sy_accepted s) (sy_buffer s) gone"
    and "sd_tick ` set (sy_accepted s) \<subseteq> A \<Longrightarrow> A \<subseteq> sd_tick ` set (sy_sent s) \<Longrightarrow>
      entity_claim h n (history_view (sy_sent s) A i) (ghost_of i (pg_ghosts (sy_server s)))
        (ticks_with se_written (sy_server s) A i) (ticks_with se_removed (sy_server s) A i)"
  using assms unfolding sync_inv_def Let_def by blast+

lemma sync_start_inv: "sync_inv h n sync_start"
  using empty_history by (auto simp: sync_inv_def sync_start_def new_ghosts_def by_key_def history_view_def)

lemma ticks_with_sub: "set (pg_sent p') \<subseteq> set (pg_sent p) \<Longrightarrow> ticks_with f p' A i \<subseteq> ticks_with f p A i"
  by (auto simp: ticks_with_def)

lemma sync_deliver_inv:
  assumes inv: "sync_inv h n s" and d: "d \<in> set (sy_sent s)"
    and step: "arrive d (sy_accepted s, sy_buffer s) = (accepted, b)"
  shows "sync_inv h n (s\<lparr>sy_accepted := accepted, sy_buffer := b\<rparr>)"
proof -
  obtain gone where g: "history_inv (sy_accepted s) (sy_buffer s) gone" using sync_invD(6) [OF inv] by blast
  obtain ok where ins: "buffer_insert d (sy_buffer s) = (ok, b)" and acc: "accepted = (if ok then sy_accepted s @ [d] else sy_accepted s)"
    using step by (auto simp: arrive_def split: prod.splits)
  have h: "\<exists>gone. history_inv accepted b gone"
  proof (cases ok)
    case True
    then show ?thesis using history_step [OF g, of d b] ins acc by simp
  next
    case False
    then show ?thesis using refused_same [of d "sy_buffer s"] ins acc g by auto
  qed
  have more: "set (sy_accepted s) \<subseteq> set accepted" "set accepted \<subseteq> set (sy_sent s)"
    using acc d sync_invD(5) [OF inv] by auto
  then have "sd_tick ` set accepted \<subseteq> A \<Longrightarrow> sd_tick ` set (sy_accepted s) \<subseteq> A" for A by blast
  with inv h more(2) show ?thesis by (auto simp: sync_inv_def Let_def)
qed

lemma sync_ack_inv:
  assumes inv: "sync_inv h n s" and t: "t \<in> sd_tick ` set (sy_accepted s)"
  shows "sync_inv h n (s\<lparr>sy_server := acknowledge t (sy_server s)\<rparr>)"
proof (cases "find_first (\<lambda>r. se_tick r = t) (pg_sent (sy_server s))")
  case None
  then show ?thesis using inv by (simp add: acknowledge_def)
next
  case (Some r)
  let ?p = "sy_server s" and ?ticks = "sd_tick ` set (sy_sent s)"
  have key: "by_key gh_id (pg_ghosts ?p)" by (rule sync_invD(1) [OF inv])
  have r: "r \<in> set (pg_sent ?p)" "se_tick r = t" using find_first_Some [OF Some] by auto
  have tt: "t \<in> ?ticks" using sync_invD(5) [OF inv] t by blast
  have "\<forall>g \<in> set (pg_ghosts ?p). gh_leaving g \<longrightarrow> gh_written g"
  proof
    fix g assume "g \<in> set (pg_ghosts ?p)"
    then have "ghost_of (gh_id g) (pg_ghosts ?p) = Some g" using ghost_of_mem [OF key] by simp
    moreover have "sd_tick ` set (sy_accepted s) \<subseteq> ?ticks" using sync_invD(5) [OF inv] by blast
    ultimately show "gh_leaving g \<longrightarrow> gh_written g"
      using sync_invD(7) [OF inv, of "sd_tick ` set (sy_accepted s)" "gh_id g"] by (auto simp: ghost_claim_def)
  qed
  note ack = acknowledge_result [OF key this Some]
  have confirmed: "gh_confirmed g \<in> insert kNoTick ?ticks"
    if g: "ghost_of i (pg_ghosts (acknowledge t ?p)) = Some g" for i g
  proof -
    obtain g0 where "ghost_of i (pg_ghosts ?p) = Some g0" "gh_confirmed g = gh_confirmed g0 \<or> gh_confirmed g = t"
      using g unfolding ack(2)
      by (cases "ghost_of i (pg_ghosts ?p)") (auto simp: acked_ghost_def confirm_def max_def split: if_splits)
    then show ?thesis using sync_invD(4) [OF inv, of i g0] tt by auto
  qed
  have claim: "entity_claim h n (history_view (sy_sent s) A i) (ghost_of i (pg_ghosts (acknowledge t ?p)))
        (ticks_with se_written (acknowledge t ?p) A i) (ticks_with se_removed (acknowledge t ?p) A i)"
    if A: "sd_tick ` set (sy_accepted s) \<subseteq> A" "A \<subseteq> ?ticks" for A i
  proof -
    have tA: "t \<in> A" using A(1) t by blast
    note c = sync_invD(7) [OF inv A, of i]
    have "entity_claim h n (history_view (sy_sent s) A i) (ghost_of i (pg_ghosts (acknowledge t ?p)))
        (ticks_with se_written ?p A i) (ticks_with se_removed ?p A i)"
    proof (cases "ghost_of i (pg_ghosts ?p)")
      case None
      with c show ?thesis by (simp add: ack(2))
    next
      case (Some g)
      with c have g: "ghost_claim h n (history_view (sy_sent s) A i) g (ticks_with se_written ?p A i) (ticks_with se_removed ?p A i)"
        by simp
      have inW: "t \<in> ticks_with f ?p A i" if "i \<in> set (f r)" for f
        using that r tA by (auto simp: ticks_with_def image_iff)
      show ?thesis
      proof (cases "i \<in> set (se_removed r) \<and> goes t g")
        case True
        then have "history_view (sy_sent s) A i = None"
          using g inW [of se_removed] by (auto simp: ghost_claim_def goes_def)
        with True Some show ?thesis by (simp add: ack(2) acked_ghost_def)
      next
        case False
        then have "acked_ghost t (i \<in> set (se_written r)) (i \<in> set (se_removed r)) g =
            Some (if i \<in> set (se_written r) then confirm t g else g)"
          by (auto simp: acked_ghost_def)
        then show ?thesis
          using Some g confirm_claim [OF g inW] by (simp add: ack(2) confirm_def)
      qed
    qed
    then show ?thesis
      by (rule entity_claim_mono) (rule ticks_with_sub [OF ack(3)])+
  qed
  have sent: "\<forall>r \<in> set (pg_sent (acknowledge t ?p)). se_tick r \<in> ?ticks"
    using ack(3) sync_invD(3) [OF inv] by blast
  show ?thesis
    using inv ack(1) sent confirmed claim unfolding sync_inv_def Let_def by simp
qed


lemma walked_confirmed:
  "walked F t n old rel = Some g \<Longrightarrow> gh_confirmed g = kNoTick \<or> (\<exists>g0. old = Some g0 \<and> gh_confirmed g = gh_confirmed g0)"
  by (cases old; cases rel)
    (auto simp: walked_def arrived_def Let_def new_ghost_def come_back_def start_leaving_def split: if_splits)

lemma history_view_snoc:
  assumes "sd_tick d \<notin> sd_tick ` set H"
  shows "history_view (H @ [d]) A =
    (if sd_tick d \<in> A then view_delta d (history_view H (A - {sd_tick d})) else history_view H (A - {sd_tick d}))"
proof -
  have "filter (\<lambda>x. sd_tick x \<in> A) H = filter (\<lambda>x. sd_tick x \<in> A - {sd_tick d}) H"
    by (rule filter_cong) (use assms in \<open>auto simp: image_iff\<close>)
  then show ?thesis by (simp add: history_view_def)
qed

lemma leaving_gone:
  "ghost_claim h n v g W Rm \<Longrightarrow> gh_leaving g \<Longrightarrow> ghost_claim h n None g W' Rm'"
  by (auto simp: ghost_claim_def)

text \<open>One entity through a build: \<open>got\<close> says whether the client holds the new message.\<close>

lemma built_claim:
  assumes n: "n \<le> 32" and h: "h 0 = (0, [])"
    and claim: "entity_claim h n v old W Rm" and old: "\<forall>c \<in> W \<union> Rm. c < t" "\<And>g. old = Some g \<Longrightarrow> gh_confirmed g < t"
    and be: "built_entity F n t rel (walked F t n old rel) g' w listed"
    and rel: "\<And>r. rel = Some r \<Longrightarrow> relevant_ok h n r" and t: "t \<noteq> kNoTick"
  shows "entity_claim h n
    (if got then (let b = (if listed then None else v)
                  in case w of None \<Rightarrow> b | Some w \<Rightarrow> written_view b w) else v)
    g' (W \<union> {c. got \<and> w \<noteq> None \<and> c = t}) (Rm \<union> {c. got \<and> listed \<and> c = t})"
proof -
  have c0: "entity_claim h n v (walked F t n old rel) W Rm" by (rule walked_claim [OF h claim old])
  show ?thesis
  proof (cases w)
    case None
    note b = built_entity_None [OF be [unfolded None]]
    show ?thesis
    proof (cases "got \<and> listed")
      case True
      then obtain g where "walked F t n old rel = Some g" "gh_leaving g" using b by blast
      with c0 have "entity_claim h n None (walked F t n old rel) (W \<union> {}) (Rm \<union> {t})"
        using leaving_gone by auto
      then show ?thesis
        unfolding entity_claim_strip [OF conjunct1 [OF b]] using True None by (auto elim: entity_claim_mono)
    next
      case False
      with c0 None show ?thesis
        unfolding entity_claim_strip [OF conjunct1 [OF b]] by (auto elim: entity_claim_mono)
    qed
  next
    case (Some wr)
    obtain r g where
      r: "rel = Some r" "walked F t n old rel = Some g" "wr = dirty_write g (re_entity r) n" "\<not> listed"
        "\<not> gh_leaving g"
      and strip: "map_option (strip F) g' = map_option (strip F) (Some (commit_write F g (re_entity r) n t))"
      by (rule built_entity_Some [OF be [unfolded Some]])
    have e: "entity_fits h n (re_entity r)" using rel [OF r(1)] by (simp add: relevant_ok_def)
    have g: "ghost_claim h n v g W Rm" using c0 r(2) by simp
    have "gh_confirmed g < t"
      using walked_confirmed [OF r(2)] old(2) claim n
    proof (elim disjE exE conjE)
      assume "gh_confirmed g = kNoTick"
      then show ?thesis using t by (simp add: kNoTick_def word_neq_0_conv)
    next
      fix g0 assume "old = Some g0" "gh_confirmed g = gh_confirmed g0"
      then show ?thesis using old(2) by simp
    qed
    then have ticks: "\<forall>c \<in> insert (gh_confirmed g) W. c < t" using old(1) by auto
    note c = commit_claim [OF n g r(5) e ticks]
    show ?thesis
      unfolding entity_claim_strip [OF strip] using c Some r by (auto simp: r(3) elim: ghost_claim_mono)
  qed
qed


lemma sync_build_inv:
  assumes n: "n \<le> 32" and h: "h 0 = (0, [])" and inv: "sync_inv h n s" and t: "t \<noteq> kNoTick"
    and later: "\<forall>d \<in> set (sy_sent s). sd_tick d < t" and rel: "by_key rel_id relevant"
    and ok: "\<forall>r \<in> set relevant. relevant_ok h n r" and hd: "fits_signed 8 (ph_input_slack header)"
    and b: "build F weight t header relevant budget n (sy_server s) = (bt, p)"
    and d: "message_delta n (bu_bytes bt) = Some d"
  shows "sync_inv h n (s\<lparr>sy_server := p, sy_sent := sy_sent s @ [d]\<rparr>)"
proof -
  let ?p = "sy_server s" and ?H = "sy_sent s" and ?ticks = "sd_tick ` set (sy_sent s)"
  have key: "by_key gh_id (pg_ghosts ?p)" by (rule sync_invD(1) [OF inv])
  obtain writes removed where
    d': "d = \<lparr>sd_tick = t, sd_removed = removed, sd_records = map record_of writes\<rparr>"
    and sent: "pg_sent p = filter (\<lambda>s. \<not> se_tick s + kSnapshotWindowTicks \<le> t) (pg_sent ?p) @
      [\<lparr>se_tick = t, se_written = map (es_id \<circ> sw_entity) writes, se_removed = removed\<rparr>]"
    and key': "by_key gh_id (pg_ghosts p)" and wkey: "by_key (es_id \<circ> sw_entity) writes"
    and be: "\<And>i. built_entity F n t (relevant_of i relevant)
       (walked F t n (ghost_of i (pg_ghosts ?p)) (relevant_of i relevant))
       (ghost_of i (pg_ghosts p)) (find_first (\<lambda>w. es_id (sw_entity w) = i) writes) (i \<in> set removed)"
    using build_delta [OF key rel n ok t hd b] d by auto
  have dt: "sd_tick d = t" by (simp add: d')
  have fresh: "t \<notin> ?ticks" using later by blast
  have wrote: "i \<in> set (map (es_id \<circ> sw_entity) writes) \<longleftrightarrow> find_first (\<lambda>w. es_id (sw_entity w) = i) writes \<noteq> None" for i
    by (auto simp: find_first_None)
  have confirmed_old: "gh_confirmed g < t" if "ghost_of i (pg_ghosts ?p) = Some g" for i g
    using sync_invD(4) [OF inv that] later t by (auto simp: kNoTick_def word_neq_0_conv)
  have confirmed: "gh_confirmed g \<in> insert kNoTick ?ticks" if g: "ghost_of i (pg_ghosts p) = Some g" for i g
  proof -
    obtain g0 where g0: "walked F t n (ghost_of i (pg_ghosts ?p)) (relevant_of i relevant) = Some g0"
      "gh_confirmed g = gh_confirmed g0"
    proof (cases "find_first (\<lambda>w. es_id (sw_entity w) = i) writes")
      case None
      from built_entity_None [OF be [of i, unfolded None]] g obtain g0 where
        "walked F t n (ghost_of i (pg_ghosts ?p)) (relevant_of i relevant) = Some g0" "strip F g = strip F g0"
        by (cases "walked F t n (ghost_of i (pg_ghosts ?p)) (relevant_of i relevant)") auto
      then show thesis using that strip_sel(7) by metis
    next
      case (Some w)
      obtain r g0 where "relevant_of i relevant = Some r"
        and g0: "walked F t n (ghost_of i (pg_ghosts ?p)) (relevant_of i relevant) = Some g0"
        and "w = dirty_write g0 (re_entity r) n" "i \<notin> set removed" "\<not> gh_leaving g0"
        and strip: "map_option (strip F) (ghost_of i (pg_ghosts p)) = map_option (strip F) (Some (commit_write F g0 (re_entity r) n t))"
        by (rule built_entity_Some [OF be [of i, unfolded Some]])
      then have "strip F g = strip F (commit_write F g0 (re_entity r) n t)" using g strip by simp
      from arg_cong [OF this, of gh_confirmed] have "gh_confirmed g = gh_confirmed g0" by simp
      with g0 that show thesis by blast
    qed
    from walked_confirmed [OF g0(1)] show ?thesis
    proof (elim disjE exE conjE)
      fix g1 assume "ghost_of i (pg_ghosts ?p) = Some g1" "gh_confirmed g0 = gh_confirmed g1"
      with sync_invD(4) [OF inv this(1)] g0(2) show ?thesis by simp
    qed (simp add: g0(2))
  qed
  have claim: "entity_claim h n (history_view (?H @ [d]) A i) (ghost_of i (pg_ghosts p))
      (ticks_with se_written p A i) (ticks_with se_removed p A i)"
    if A: "sd_tick ` set (sy_accepted s) \<subseteq> A" "A \<subseteq> insert t ?ticks" for A i
  proof -
    let ?A = "A - {t}" and ?w = "find_first (\<lambda>w. es_id (sw_entity w) = i) writes"
    have A': "sd_tick ` set (sy_accepted s) \<subseteq> ?A" "?A \<subseteq> ?ticks"
      using A sync_invD(5) [OF inv] fresh by auto
    have "ticks_with f ?p ?A i \<subseteq> ?ticks" for f using A' by (auto simp: ticks_with_def)
    then have old: "\<forall>c \<in> ticks_with se_written ?p ?A i \<union> ticks_with se_removed ?p ?A i. c < t"
      using later by fast
    have view: "history_view (?H @ [d]) A i =
        (if t \<in> A then (let b = (if i \<in> set removed then None else history_view ?H ?A i)
                        in case ?w of None \<Rightarrow> b | Some w \<Rightarrow> written_view b w)
         else history_view ?H ?A i)"
      using history_view_snoc [of d ?H A] fresh unfolding dt by (simp add: d' view_writes_at [OF wkey])
    have sub: "ticks_with f p A i \<subseteq> ticks_with f ?p ?A i \<union>
        {c. t \<in> A \<and> i \<in> set (f \<lparr>se_tick = t, se_written = map (es_id \<circ> sw_entity) writes, se_removed = removed\<rparr>) \<and> c = t}" for f
    proof
      fix c assume "c \<in> ticks_with f p A i"
      then obtain r where r: "r \<in> set (pg_sent p)" "se_tick r \<in> A" "i \<in> set (f r)" "c = se_tick r"
        by (auto simp: ticks_with_def)
      show "c \<in> ticks_with f ?p ?A i \<union>
        {c. t \<in> A \<and> i \<in> set (f \<lparr>se_tick = t, se_written = map (es_id \<circ> sw_entity) writes, se_removed = removed\<rparr>) \<and> c = t}"
      proof (cases "r \<in> set (pg_sent ?p)")
        case True
        then have "se_tick r \<noteq> t" using sync_invD(3) [OF inv True] fresh by blast
        with True r show ?thesis by (auto simp: ticks_with_def)
      next
        case False
        with r sent show ?thesis by auto
      qed
    qed
    have "entity_claim h n (history_view (?H @ [d]) A i) (ghost_of i (pg_ghosts p))
      (ticks_with se_written ?p ?A i \<union> {c. t \<in> A \<and> ?w \<noteq> None \<and> c = t})
      (ticks_with se_removed ?p ?A i \<union> {c. t \<in> A \<and> i \<in> set removed \<and> c = t})"
      unfolding view
      by (rule built_claim [OF n h sync_invD(7) [OF inv A'] old confirmed_old be _ t])
        (assumption, rule bspec [OF ok], drule relevant_of_Some, erule conjunct1)
    then show ?thesis
      by (rule entity_claim_mono) (use sub [of se_written] sub [of se_removed] wrote [of i] in auto)
  qed
  have "by_key sd_tick (?H @ [d])"
    using sync_invD(2) [OF inv] later by (simp add: by_key_append dt)
  then show ?thesis
    using key' sync_invD(3,5,6) [OF inv] confirmed claim
    by (auto simp: sync_inv_def Let_def dt sent)
qed


theorem sync_reach_inv: "sync_reach h F n s \<Longrightarrow> n \<le> 32 \<Longrightarrow> h 0 = (0, []) \<Longrightarrow> sync_inv h n s"
proof (induction rule: sync_reach.induct)
  case Start
  show ?case by (rule sync_start_inv)
next
  case (Build s t relevant header weight budget b p d)
  then show ?case by (intro sync_build_inv)
next
  case (Deliver s d accepted b)
  then show ?case by (intro sync_deliver_inv)
next
  case (Ack s t)
  then show ?case by (intro sync_ack_inv)
qed

text \<open>The newest state a client holds is what it accepted, all of it.\<close>

lemma newest_view:
  assumes hist: "history_inv acc b gone" and found: "buffer_find (buffer_newest b) b = Some st"
    and H: "by_key sd_tick H" and sub: "set acc \<subseteq> set H"
  shows "state_view st = history_view H (sd_tick ` set acc)"
proof -
  define ds where "ds = map en_delta (sb_entries b)"
  have inv: "buffer_inv b" and m: "mset acc = mset (gone @ ds)" and key: "by_key sd_tick (gone @ ds)"
    using hist by (simp_all add: history_inv_def ds_def)
  have ne: "sb_entries b \<noteq> []"
    using found by (auto simp: buffer_find_def lower_bound_def Let_def)
  have last: "buffer_newest b = sd_tick (last ds)"
    using inv_deltas [OF inv] ne by (metis buffer_newest_def ds_def last_map map_is_Nil_conv)
  have "x \<le> buffer_newest b" if "x \<in> sd_tick ` set (gone @ ds)" for x
  proof -
    have "ds \<noteq> []" using ne by (simp add: ds_def)
    then have "gone @ ds = (gone @ butlast ds) @ [last ds]" by simp
    with key have "\<forall>y \<in> set (gone @ butlast ds). sd_tick y < sd_tick (last ds)"
      by (metis by_key_append list.set_intros(1))
    then show ?thesis
      using that \<open>gone @ ds = (gone @ butlast ds) @ [last ds]\<close> unfolding last
      by (auto simp: order.strict_iff_order)
  qed
  moreover have sa: "set acc = set (gone @ ds)" using m by (rule mset_eq_setD)
  ultimately have all: "filter (\<lambda>d. sd_tick d \<le> buffer_newest b) (sort_key sd_tick acc) = sort_key sd_tick acc"
    by (simp add: filter_id_conv)
  have "filter (\<lambda>d. sd_tick d \<in> sd_tick ` set acc) H = sort_key sd_tick acc"
  proof (rule sort_by_key [symmetric])
    show k: "by_key sd_tick (filter (\<lambda>d. sd_tick d \<in> sd_tick ` set acc) H)" by (rule by_key_filter [OF H])
    have inj: "inj_on sd_tick (set H)" using by_key_distinct [OF H] by (simp add: distinct_map)
    have "set (filter (\<lambda>d. sd_tick d \<in> sd_tick ` set acc) H) = set acc"
      using sub inj by (auto dest: inj_onD)
    moreover have "distinct acc"
      using m by_key_distinct [OF key] by (metis distinct_map mset_eq_imp_distinct_iff)
    moreover have "distinct (filter (\<lambda>d. sd_tick d \<in> sd_tick ` set acc) H)"
      using by_key_distinct [OF k] by (simp add: distinct_map)
    ultimately show "mset acc = mset (filter (\<lambda>d. sd_tick d \<in> sd_tick ` set acc) H)"
      using set_eq_iff_mset_eq_distinct by metis
  qed
  then show ?thesis
    using history_find [OF hist found] all by (simp add: history_view_def)
qed

text \<open>
  C1: Whatever is lost, late, repeated or acknowledged late, and however the budget defers entities:
  where the server's table says an entity is clean at a state, the newest state the client holds has
  exactly that entity state, owner and every slot; and of an entity the table does not know the
  client has nothing.
\<close>

theorem ghosts_in_sync:
  assumes reach: "sync_reach h F n s" and n: "n \<le> 32" and h: "h 0 = (0, [])"
    and newest: "buffer_find (buffer_newest (sy_buffer s)) (sy_buffer s) = Some st"
  shows "(\<forall>g \<in> set (pg_ghosts (sy_server s)). \<forall>e. shared h e \<longrightarrow> \<not> gh_leaving g \<longrightarrow> is_clean g e \<longrightarrow>
      state_view st (gh_id g) = Some (entity_view e)) \<and>
    (\<forall>i. i \<notin> gh_id ` set (pg_ghosts (sy_server s)) \<longrightarrow> state_view st i = None)"
proof -
  have inv: "sync_inv h n s" by (rule sync_reach_inv [OF reach n h])
  let ?A = "sd_tick ` set (sy_accepted s)"
  have A: "?A \<subseteq> sd_tick ` set (sy_sent s)" using sync_invD(5) [OF inv] by blast
  obtain gone where hist: "history_inv (sy_accepted s) (sy_buffer s) gone" using sync_invD(6) [OF inv] by blast
  note view = newest_view [OF hist newest sync_invD(2,5) [OF inv]]
  note claim = sync_invD(7) [OF inv order_refl A]
  show ?thesis
  proof (intro conjI ballI allI impI)
    fix g e
    assume g: "g \<in> set (pg_ghosts (sy_server s))" "shared h e" "\<not> gh_leaving g" "is_clean g e"
    then have "ghost_of (gh_id g) (pg_ghosts (sy_server s)) = Some g"
      using ghost_of_mem [OF sync_invD(1) [OF inv]] by simp
    with claim [of "gh_id g"] clean_value g(2-4) show "state_view st (gh_id g) = Some (entity_view e)"
      unfolding view by fastforce
  next
    fix i assume "i \<notin> gh_id ` set (pg_ghosts (sy_server s))"
    with claim [of i] show "state_view st i = None" unfolding view by (simp add: ghost_of_None [symmetric])
  qed
qed


text \<open>One entity, one message, delivered and acknowledged.\<close>

definition unit_arith :: "unit float_arith" where
  "unit_arith = \<lparr>f_int = (\<lambda>_. ()), f_add = (\<lambda>_ _. ()), f_sub = (\<lambda>_ _. ()), f_mul = (\<lambda>_ _. ()),
     f_div = (\<lambda>_ _. ()), f_less = (\<lambda>_ _. False), f_eq = (\<lambda>_ _. True), f_trunc = (\<lambda>_. 0), f_single = (\<lambda>_. ())\<rparr>"

definition demo_ref :: ref_snapshot where
  "demo_ref = \<lparr>es_id = 5, es_owner = 2, es_mask = 1, es_blobs = [[7]], es_ref = 1\<rparr>"

definition demo_relevant :: relevant_entity where
  "demo_relevant = \<lparr>re_entity = demo_ref, re_capture_index = 0, re_parent = 0, re_mandatory = False\<rparr>"

definition demo_heap :: blob_heap where
  "demo_heap r = (if r = 1 then (1, [[7]]) else (0, []))"

definition demo_built :: "built \<times> unit peer_ghosts" where
  "demo_built = build unit_arith (\<lambda>_. ()) 1 \<lparr>ph_input_tick = 0, ph_input_slack = 0\<rparr> [demo_relevant] 1200 2 new_ghosts"

definition demo_message :: snapshot_delta where
  "demo_message = \<lparr>sd_tick = 1, sd_removed = [],
     sd_records = [\<lparr>sr_id = 5, sr_owner = Some 2, sr_changed = 1, sr_lost = 0, sr_blobs = [[7]]\<rparr>]\<rparr>"

definition demo_sync :: "unit sync" where
  "demo_sync = \<lparr>sy_server = acknowledge 1 (snd demo_built), sy_sent = [demo_message],
     sy_accepted = [demo_message], sy_buffer = snd (buffer_insert demo_message empty_buffer)\<rparr>"

lemma demo_walk: "walk unit_arith 1 2 0 [] [demo_relevant] =
  ([new_ghost unit_arith 5 2], [\<lparr>ca_ghost = 0, ca_relevant = demo_relevant,
     ca_write = \<lparr>sw_entity = demo_ref, sw_write_owner = True, sw_changed = 1, sw_lost = 0\<rparr>, ca_size = 20, ca_selected = False\<rparr>])"
  by (simp add: visit_def is_clean_def new_ghost_def demo_relevant_def demo_ref_def dirty_write_def upt_rec dirty_slot_def same_slot_def es_has_def slot_bit_def no_entity_def snapshot_write_size_def bit_slots_filter es_component_def slot_index_def popcount_def)

lemma demo_built_eq: "demo_built =
  (\<lparr>bu_bytes = encode_snapshot 1 \<lparr>ph_input_tick = 0, ph_input_slack = 0\<rparr> []
      [\<lparr>sw_entity = demo_ref, sw_write_owner = True, sw_changed = 1, sw_lost = 0\<rparr>], bu_relevant = 1, bu_deferred = 0\<rparr>,
   \<lparr>pg_ghosts = [commit_write unit_arith (new_ghost unit_arith 5 2) demo_ref 2 1],
     pg_sent = [\<lparr>se_tick = 1, se_written = [5], se_removed = []\<rparr>], pg_acked = 0\<rparr>)"
proof -
  let ?c = "\<lparr>ca_ghost = 0, ca_relevant = demo_relevant,
     ca_write = \<lparr>sw_entity = demo_ref, sw_write_owner = True, sw_changed = 1, sw_lost = 0\<rparr>, ca_size = 20, ca_selected = False\<rparr>"
  have l: "\<not> gh_leaving (new_ghost unit_arith 5 2)" "gh_id (new_ghost unit_arith 5 2) = 5" by (simp_all add: new_ghost_def)
  have c: "choose_writes unit_arith (\<lambda>_. ()) 1200 [new_ghost unit_arith 5 2] [?c] =
      ([new_ghost unit_arith 5 2], [?c\<lparr>ca_selected := True\<rparr>], [])"
    by (simp add: choose_writes_def l kSnapshotHeaderBytes_def)
  show ?thesis
    unfolding demo_built_def build_def new_ghosts_def peer_ghosts.select_convs demo_walk Let_def prod.case c
    by (simp add: kMaxSnapshotEntries_def list_removed_def commit_all_def kNoTick_def demo_ref_def)
qed

lemma demo_ghost: "commit_write unit_arith (new_ghost unit_arith 5 2) demo_ref 2 1 =
  \<lparr>gh_id = 5, gh_latest = demo_ref, gh_written = True, gh_since = [1, 0], gh_owner_since = 1, gh_max_since = 1,
   gh_confirmed = 0, gh_accumulator = (), gh_leaving = False, gh_leave_since = 0, gh_last_listed = 0\<rparr>"
  by (simp add: commit_write_def commit_since_def new_ghost_def demo_ref_def same_slot_def es_has_def slot_bit_def no_entity_def upt_rec kNoTick_def Let_def numeral_2_eq_2)

lemma demo_acked: "pg_ghosts (acknowledge 1 (snd demo_built)) =
  [\<lparr>gh_id = 5, gh_latest = demo_ref, gh_written = True, gh_since = [1, 0], gh_owner_since = 1, gh_max_since = 1,
   gh_confirmed = 1, gh_accumulator = (), gh_leaving = False, gh_leave_since = 0, gh_last_listed = 0\<rparr>]"
  by (simp add: demo_built_eq acknowledge_def confirm_ghost_def ghost_at_def lower_bound_def demo_ghost max_def)

lemma demo_delta: "message_delta 2 (bu_bytes (fst demo_built)) = Some demo_message"
proof -
  let ?w = "\<lparr>sw_entity = demo_ref, sw_write_owner = True, sw_changed = 1, sw_lost = 0\<rparr>"
  have r: "record_of ?w = \<lparr>sr_id = 5, sr_owner = Some 2, sr_changed = 1, sr_lost = 0, sr_blobs = [[7]]\<rparr>"
    by (simp add: record_of_def demo_ref_def bit_slots_filter upt_rec es_component_def slot_index_def popcount_def slot_bit_def)
  have "record_ok [] 2 (record_of ?w)"
    by (simp add: r record_ok_def kInvalidNetId_def valid_slots_def kSlots_def slot_bit_def popcount_def upt_rec kMaxSnapshotBlobBytes_def)
  then show ?thesis
    using encode_decode [of 1 "\<lparr>ph_input_tick = 0, ph_input_slack = 0\<rparr>" "[]" "[?w]" 2]
    by (auto simp: demo_built_eq message_delta_def demo_message_def r kNoTick_def fits_signed_def kMaxSnapshotEntries_def)
qed

lemma demo_accepts:
  "fst (buffer_insert demo_message empty_buffer)"
  "buffer_find (buffer_newest (snd (buffer_insert demo_message empty_buffer))) (snd (buffer_insert demo_message empty_buffer)) \<noteq> None"
  by code_simp+
lemma demo_reach: "sync_reach demo_heap unit_arith 2 demo_sync"
proof -
  have ok: "relevant_ok demo_heap 2 demo_relevant"
    by (auto simp: relevant_ok_def demo_relevant_def demo_ref_def rel_id_def kInvalidNetId_def entity_fits_def
        shared_def demo_heap_def es_ok_def popcount_def upt_rec kMaxSnapshotBlobBytes_def bit_1_iff)
  have one: "sync_reach demo_heap unit_arith 2 (sync_start\<lparr>sy_server := snd demo_built,
      sy_sent := sy_sent sync_start @ [demo_message]\<rparr>)"
    using sync_reach.Build [OF sync_reach.Start, where t = 1 and relevant = "[demo_relevant]" and n = 2 and
          header = "\<lparr>ph_input_tick = 0, ph_input_slack = 0\<rparr>" and weight = "\<lambda>_. ()" and budget = 1200 and
          h = demo_heap and F = unit_arith and b = "fst demo_built" and p = "snd demo_built" and d = demo_message]
      ok demo_delta
    by (simp add: sync_start_def kNoTick_def by_key_def fits_signed_def flip: demo_built_def)
  have two: "sync_reach demo_heap unit_arith 2 (sync_start\<lparr>sy_server := snd demo_built,
      sy_sent := sy_sent sync_start @ [demo_message],
      sy_accepted := [demo_message], sy_buffer := snd (buffer_insert demo_message empty_buffer)\<rparr>)"
    using sync_reach.Deliver [OF one, where d = demo_message and accepted = "[demo_message]" and
        b = "snd (buffer_insert demo_message empty_buffer)"] demo_accepts(1)
    by (cases "buffer_insert demo_message empty_buffer") (simp add: sync_start_def arrive_def)
  show ?thesis
    using sync_reach.Ack [OF two, of 1] by (simp add: sync_start_def demo_sync_def demo_message_def)
qed

theorem ghosts_in_sync_witness:
  "state_view (the (buffer_find (buffer_newest (sy_buffer demo_sync)) (sy_buffer demo_sync))) 5 =
     Some (entity_view demo_ref) \<and>
   state_view (the (buffer_find (buffer_newest (sy_buffer demo_sync)) (sy_buffer demo_sync))) 6 = None"
proof -
  let ?g = "\<lparr>gh_id = 5, gh_latest = demo_ref, gh_written = True, gh_since = [1, 0], gh_owner_since = 1, gh_max_since = 1,
   gh_confirmed = 1, gh_accumulator = (), gh_leaving = False, gh_leave_since = 0, gh_last_listed = 0\<rparr> :: unit ghost"
  have buf: "buffer_find (buffer_newest (sy_buffer demo_sync)) (sy_buffer demo_sync) =
      Some (the (buffer_find (buffer_newest (sy_buffer demo_sync)) (sy_buffer demo_sync)))"
    using demo_accepts(2) by (simp add: demo_sync_def)
  have h: "demo_heap 0 = (0, [])" "shared demo_heap demo_ref"
    by (simp_all add: demo_heap_def shared_def demo_ref_def)
  have g: "pg_ghosts (sy_server demo_sync) = [?g]"
    by (simp add: demo_sync_def demo_acked)
  have clean: "is_clean ?g demo_ref" by (simp add: is_clean_def)
  note sync = ghosts_in_sync [OF demo_reach _ h(1) buf, unfolded g]
  show ?thesis
  proof
    have "state_view (the (buffer_find (buffer_newest (sy_buffer demo_sync)) (sy_buffer demo_sync))) (gh_id ?g) =
        Some (entity_view demo_ref)"
      using sync clean h(2) by fastforce
    then show "state_view (the (buffer_find (buffer_newest (sy_buffer demo_sync)) (sy_buffer demo_sync))) 5 =
        Some (entity_view demo_ref)" by simp
    show "state_view (the (buffer_find (buffer_newest (sy_buffer demo_sync)) (sy_buffer demo_sync))) 6 = None"
      using sync by simp
  qed
qed

end
