(* ===== verification/Ghost_Budget.thy ===== *)
theory Ghost_Budget
  imports Ghost_Sync
begin

section \<open>Progress and the byte budget\<close>

text \<open>
  Two promises of \<open>PeerGhosts::build\<close> beside the safety of \<open>Ghost_Sync\<close>: a snapshot that leaves
  nothing out makes every relevant entity clean once it is acknowledged, and a snapshot is over its
  budget only by what must go out (the mandatory entities, the top of the order with its unwritten
  ancestors, one removal).
\<close>

subsection \<open>An acknowledged snapshot that left nothing out\<close>

definition table_before :: "tick \<Rightarrow> 'd peer_ghosts \<Rightarrow> bool" where
  "table_before t p \<longleftrightarrow>
     (\<forall>r \<in> set (pg_sent p). se_tick r < t) \<and>
     (\<forall>g \<in> set (pg_ghosts p). (gh_leaving g \<longrightarrow> gh_written g) \<and> gh_owner_since g \<le> t \<and> (\<forall>x \<in> set (gh_since g). x \<le> t))"

lemma fold_max_le: "(m :: tick) \<le> t \<Longrightarrow> \<forall>x \<in> set xs. x \<le> t \<Longrightarrow> fold (\<lambda>x m. max m x) xs m \<le> t"
  by (induction xs arbitrary: m) simp_all

lemma walked_before:
  assumes "walked F t n old rel = Some g" and "\<And>g0. old = Some g0 \<Longrightarrow>
    (gh_leaving g0 \<longrightarrow> gh_written g0) \<and> gh_owner_since g0 \<le> t \<and> (\<forall>x \<in> set (gh_since g0). x \<le> t)"
  shows "(gh_leaving g \<longrightarrow> gh_written g) \<and> gh_owner_since g \<le> t \<and> (\<forall>x \<in> set (gh_since g). x \<le> t)"
  using assms
  by (cases old; cases rel)
    (auto simp: walked_def arrived_def Let_def new_ghost_def come_back_def start_leaving_def kNoTick_def split: if_splits)

lemma commit_clean:
  assumes "gh_owner_since g \<le> t" and "\<forall>x \<in> set (gh_since g). x \<le> t"
  shows "is_clean (confirm t (commit_write F g e n t)) e"
proof -
  have "\<forall>x \<in> set (commit_since g e n t). x \<le> t"
    using bspec [OF assms(2) nth_mem] commit_since_nth(1) [of g e n t] commit_since_nth(2) [of _ g e n t]
    by (auto simp: in_set_conv_nth)
  then have "gh_max_since (commit_write F g e n t) \<le> t"
    using fold_max_le [of "if \<not> gh_written g \<or> es_owner (gh_latest g) \<noteq> es_owner e then t else gh_owner_since g" t] assms(1)
    by (simp add: commit_write_def Let_def)
  then show ?thesis by (simp add: is_clean_def confirm_def max.coboundedI2)
qed

lemma clean_strip: "strip F g = strip F g' \<Longrightarrow> is_clean g e = is_clean g' e"
proof -
  assume s: "strip F g = strip F g'"
  have "is_clean (strip F x) e = is_clean x e" for x :: "'a ghost" by (simp add: is_clean_def)
  with s show ?thesis by metis
qed

lemma confirm_strip: "strip F (confirm t g) = confirm t (strip F g)"
  by (simp add: confirm_def strip_def)

text \<open>One entity after \<open>build\<close>: no ghost leaves unwritten, what was not written was clean, what was written is.\<close>

lemma built_leaving_written:
  assumes be: "built_entity F n t r (walked F t n old r) (Some g) w gone"
    and wb: "\<And>g0. walked F t n old r = Some g0 \<Longrightarrow> gh_leaving g0 \<longrightarrow> gh_written g0"
  shows "gh_leaving g \<longrightarrow> gh_written g"
proof (cases w)
  case None
  from built_entity_None [OF be [unfolded None]] obtain g0 where
    g0: "walked F t n old r = Some g0" and s: "strip F g = strip F g0"
    by (cases "walked F t n old r") auto
  have "gh_leaving g = gh_leaving g0" "gh_written g = gh_written g0"
    using arg_cong [OF s, of gh_leaving] arg_cong [OF s, of gh_written] by simp_all
  then show ?thesis using wb [OF g0] by blast
next
  case (Some x)
  with be show ?thesis by (auto simp: built_entity_def dest!: arg_cong [where f = gh_leaving])
qed

lemma unwritten_clean:
  assumes be: "built_entity F n t r (Some g0) new None gone" and nl: "\<not> gh_leaving g0" and clean: "is_clean g0 e"
  obtains g where "new = Some g" "\<not> gone" "\<not> gh_leaving g" "is_clean g e"
proof -
  from built_entity_None [OF be] nl obtain g where g: "new = Some g" "strip F g = strip F g0" and nr: "\<not> gone"
    by (cases new) auto
  have "is_clean g e" using clean_strip [OF g(2)] clean by simp
  moreover have "\<not> gh_leaving g" using nl arg_cong [OF g(2), of gh_leaving] by simp
  ultimately show thesis using that g(1) nr by blast
qed

lemma written_clean:
  assumes be: "built_entity F n t (Some r) (Some g0) new (Some w) gone" and nl: "\<not> gh_leaving g0" and n: "n \<le> 32"
    and before: "gh_owner_since g0 \<le> t" "\<forall>x \<in> set (gh_since g0). x \<le> t"
  obtains g where "new = Some g" "\<not> gone" "\<not> gh_leaving (confirm t g)" "is_clean (confirm t g) (re_entity r)"
proof -
  obtain r' g1 where same: "Some r = Some r'" "Some g0 = Some g1" and nr: "\<not> gone"
    and st: "map_option (strip F) new = map_option (strip F) (Some (commit_write F g1 (re_entity r') n t))"
    by (rule built_entity_Some [OF be])
  then obtain g where g: "new = Some g" "strip F g = strip F (commit_write F g0 (re_entity r) n t)" by auto
  have "is_clean (confirm t (commit_write F g0 (re_entity r) n t)) (re_entity r)"
    using before by (intro commit_clean) auto
  moreover have "strip F (confirm t g) = strip F (confirm t (commit_write F g0 (re_entity r) n t))"
    by (simp only: confirm_strip g(2))
  ultimately have "is_clean (confirm t g) (re_entity r)" using clean_strip by blast
  moreover have "\<not> gh_leaving (confirm t g)"
    using nl arg_cong [OF g(2), of gh_leaving] by (simp add: confirm_def)
  ultimately show thesis using that g(1) nr by blast
qed

text \<open>
  C19: When a snapshot left no relevant entity out, its acknowledgement makes the ghost of every one of
  them clean: the server has nothing more to send of them.
\<close>

theorem build_ack_clean:
  assumes key: "by_key gh_id (pg_ghosts p)" and rel: "by_key rel_id rs" and n: "n \<le> 32"
    and before: "table_before t p"
    and b: "build F weight t header rs budget n p = (bt, p')" and all: "bu_deferred bt = 0"
  shows "\<forall>r \<in> set rs. \<exists>g \<in> set (pg_ghosts (acknowledge t p')).
    gh_id g = rel_id r \<and> \<not> gh_leaving g \<and> is_clean g (re_entity r)"
proof
  fix r assume r: "r \<in> set rs"
  let ?i = "rel_id r"
  obtain writes removed where
    sent: "pg_sent p' = filter (\<lambda>s. \<not> se_tick s + kSnapshotWindowTicks \<le> t) (pg_sent p) @
      [\<lparr>se_tick = t, se_written = map (es_id \<circ> sw_entity) writes, se_removed = removed\<rparr>]"
    and key': "by_key gh_id (pg_ghosts p')"
    and be: "\<And>i. built_entity F n t (relevant_of i rs) (walked F t n (ghost_of i (pg_ghosts p)) (relevant_of i rs))
       (ghost_of i (pg_ghosts p')) (find_first (\<lambda>w. es_id (sw_entity w) = i) writes) (i \<in> set removed)"
    and every: "\<And>r g. r \<in> set rs \<Longrightarrow>
       walked F t n (ghost_of (rel_id r) (pg_ghosts p)) (relevant_of (rel_id r) rs) = Some g \<Longrightarrow>
       \<not> is_clean g (re_entity r) \<Longrightarrow> rel_id r \<in> (es_id \<circ> sw_entity) ` set writes"
    using build_result [OF key rel n b] all by blast
  have old: "(gh_leaving g0 \<longrightarrow> gh_written g0) \<and> gh_owner_since g0 \<le> t \<and> (\<forall>x \<in> set (gh_since g0). x \<le> t)"
    if "ghost_of i (pg_ghosts p) = Some g0" for i g0
    using before ghost_of_Some [OF that] by (auto simp: table_before_def)
  have wb: "(gh_leaving g \<longrightarrow> gh_written g) \<and> gh_owner_since g \<le> t \<and> (\<forall>x \<in> set (gh_since g). x \<le> t)"
    if "walked F t n (ghost_of i (pg_ghosts p)) rel = Some g" for i rel g
    by (rule walked_before [OF that]) (rule old)
  have lw: "gh_leaving g \<longrightarrow> gh_written g" if "ghost_of i (pg_ghosts p') = Some g" for i g
    using built_leaving_written [OF be [of i, unfolded that]] wb by blast
  have leaving: "\<forall>g \<in> set (pg_ghosts p'). gh_leaving g \<longrightarrow> gh_written g"
    using lw ghost_of_mem [OF key'] by blast
  define s where "s = \<lparr>se_tick = t, se_written = map (es_id \<circ> sw_entity) writes, se_removed = removed\<rparr>"
  have last: "find_first (\<lambda>s. se_tick s = t) (xs @ [s]) = Some s" if "\<forall>x \<in> set xs. se_tick x \<noteq> t" for xs
    using that by (induction xs) (simp_all add: s_def)
  have found: "find_first (\<lambda>s. se_tick s = t) (pg_sent p') = Some s"
    unfolding sent s_def [symmetric] by (rule last) (use before in \<open>auto simp: table_before_def\<close>)
  note ack = acknowledge_result [OF key' leaving found]
  have relof: "relevant_of ?i rs = Some r"
    using find_first_by_key [OF rel, of ?i r] r by (simp add: relevant_of_def rel_id_def)
  define g0 where "g0 = arrived F t n (ghost_of ?i (pg_ghosts p)) r"
  have w0: "walked F t n (ghost_of ?i (pg_ghosts p)) (relevant_of ?i rs) = Some g0"
    by (simp add: relof walked_def g0_def)
  have nl: "\<not> gh_leaving g0" by (simp add: g0_def arrived_sel)
  note here = be [of ?i, unfolded w0]
  obtain g where g: "ghost_of ?i (pg_ghosts (acknowledge t p')) = Some g" "\<not> gh_leaving g" "is_clean g (re_entity r)"
  proof (cases "find_first (\<lambda>w. es_id (sw_entity w) = ?i) writes")
    case None
    then have nw: "?i \<notin> (es_id \<circ> sw_entity) ` set writes" by (auto simp: find_first_None)
    then have "is_clean g0 (re_entity r)" using every [OF r w0] by blast
    from unwritten_clean [OF here [unfolded None] nl this] obtain g' where
      "ghost_of ?i (pg_ghosts p') = Some g'" "?i \<notin> set removed" "\<not> gh_leaving g'" "is_clean g' (re_entity r)" by blast
    then show thesis using that ack(2) [of ?i] nw by (simp add: s_def acked_ghost_def)
  next
    case (Some w)
    then have "w \<in> set writes" "es_id (sw_entity w) = ?i" using find_first_Some [OF Some] by blast+
    then have wrote: "?i \<in> set (se_written s)" by (force simp: s_def)
    from written_clean [OF here [unfolded Some relof] nl n] wb [OF w0] obtain g' where
      "ghost_of ?i (pg_ghosts p') = Some g'" "?i \<notin> set removed" "\<not> gh_leaving (confirm t g')"
      "is_clean (confirm t g') (re_entity r)" by blast
    then show thesis using that ack(2) [of ?i] wrote by (simp add: s_def acked_ghost_def)
  qed
  then show "\<exists>g \<in> set (pg_ghosts (acknowledge t p')). gh_id g = rel_id r \<and> \<not> gh_leaving g \<and> is_clean g (re_entity r)"
    using ghost_of_Some [OF g(1)] by blast
qed


theorem build_ack_clean_witness:
  "\<exists>g \<in> set (pg_ghosts (acknowledge 1 (snd demo_built))).
     gh_id g = 5 \<and> \<not> gh_leaving g \<and> is_clean g demo_ref"
proof -
  have b: "build unit_arith (\<lambda>_. ()) 1 \<lparr>ph_input_tick = 0, ph_input_slack = 0\<rparr> [demo_relevant] 1200 2 new_ghosts =
      (fst demo_built, snd demo_built)"
    by (simp add: demo_built_def)
  have d: "bu_deferred (fst demo_built) = 0" by (simp add: demo_built_eq)
  have "by_key gh_id (pg_ghosts (new_ghosts :: unit peer_ghosts))" "table_before 1 (new_ghosts :: unit peer_ghosts)"
    by (simp_all add: new_ghosts_def table_before_def by_key_def)
  then show ?thesis
    using build_ack_clean [OF _ _ _ _ b d]
    by (simp add: by_key_def rel_id_def demo_relevant_def demo_ref_def)
qed

subsection \<open>The budget\<close>

definition chosen_size :: "candidate list \<Rightarrow> nat" where
  "chosen_size cs = sum_list (map (\<lambda>c. if ca_selected c then ca_size c else 0) cs)"

lemma sum_list_update_nat:
  "k < length xs \<Longrightarrow> sum_list (xs[k := (y :: nat)]) + xs ! k = sum_list xs + y"
  by (induction xs arbitrary: k) (auto split: nat.split simp: algebra_simps)

lemma sum_list_update_le: "sum_list (xs[k := (y :: nat)]) \<le> sum_list xs + y"
proof (cases "k < length xs")
  case True
  from sum_list_update_nat [OF this, of y] show ?thesis by linarith
next
  case False
  then show ?thesis by (simp add: list_update_beyond)
qed

lemma chosen_update: "ca_size c = ca_size (cs ! k) \<Longrightarrow> chosen_size (cs[k := c]) \<le> chosen_size cs + ca_size c"
  unfolding chosen_size_def map_update
  by (rule order_trans [OF sum_list_update_le]) simp

lemma mark_all_nth:
  "length (mark_all js cs) = length cs"
  "k < length cs \<Longrightarrow> mark_all js cs ! k = (if k \<in> set js then (cs ! k)\<lparr>ca_selected := True\<rparr> else cs ! k)"
proof -
  have "length (mark_all js cs) = length cs \<and> (k < length cs \<longrightarrow>
    mark_all js cs ! k = (if k \<in> set js then (cs ! k)\<lparr>ca_selected := True\<rparr> else cs ! k))"
  proof (induction js arbitrary: cs)
    case (Cons j js)
    have "mark_all (j # js) cs = mark_all js (cs[j := (cs ! j)\<lparr>ca_selected := True\<rparr>])" by (simp add: mark_all_def)
    then show ?case using Cons [of "cs[j := (cs ! j)\<lparr>ca_selected := True\<rparr>]"] by (cases "k = j") simp_all
  qed (simp add: mark_all_def)
  then show "length (mark_all js cs) = length cs"
    "k < length cs \<Longrightarrow> mark_all js cs ! k = (if k \<in> set js then (cs ! k)\<lparr>ca_selected := True\<rparr> else cs ! k)" by simp_all
qed

lemma chosen_mark_all: "chosen_size (mark_all js cs) \<le> chosen_size cs + (\<Sum>j \<in> set js. ca_size (cs ! j))"
proof -
  have sum: "chosen_size xs = (\<Sum>j < length xs. if ca_selected (xs ! j) then ca_size (xs ! j) else 0)" for xs
    by (simp add: chosen_size_def sum_list_sum_nth atLeast0LessThan)
  have "chosen_size (mark_all js cs) \<le> (\<Sum>j < length cs. (if ca_selected (cs ! j) then ca_size (cs ! j) else 0)
      + (if j \<in> set js then ca_size (cs ! j) else 0))"
    unfolding sum mark_all_nth(1) by (rule sum_mono) (simp add: mark_all_nth(2))
  also have "\<dots> = chosen_size cs + (\<Sum>j \<in> {..<length cs} \<inter> set js. ca_size (cs ! j))"
    by (simp add: sum sum.distrib sum.inter_restrict)
  also have "\<dots> \<le> chosen_size cs + (\<Sum>j \<in> set js. ca_size (cs ! j))"
    by (intro add_left_mono sum_mono2) auto
  finally show ?thesis .
qed

lemma chosen_marked:
  "chosen_size (mark_all js cs) \<le> chosen_size cs + sum_list (map (\<lambda>j. ca_size (cs ! j)) js)"
  "(\<Sum>j \<in> set js. ca_size (cs ! j)) \<le> sum_list (map (\<lambda>j. ca_size (cs ! j)) js)"
proof -
  show le: "(\<Sum>j \<in> set js. ca_size (cs ! j)) \<le> sum_list (map (\<lambda>j. ca_size (cs ! j)) js)"
    by (induction js) (auto simp: sum.insert_if)
  show "chosen_size (mark_all js cs) \<le> chosen_size cs + sum_list (map (\<lambda>j. ca_size (cs ! j)) js)"
    using chosen_mark_all [of js cs] le by linarith
qed

definition chain_cost :: "'d ghost list \<Rightarrow> candidate list \<Rightarrow> nat \<Rightarrow> nat" where
  "chain_cost gs cs i = sum_list (map (\<lambda>j. ca_size (cs ! j)) (i # ancestors gs cs kMaxHierarchyDepth i))"

text \<open>Unforced, a candidate and its ancestors go out within the room, and use it up.\<close>

lemma select_unforced:
  "select_candidate gs False i (cs, room) = (cs', room') \<Longrightarrow>
     room' \<le> room \<and> chosen_size cs' \<le> chosen_size cs + (room - room')"
  using chosen_marked(1) [of "i # ancestors gs cs kMaxHierarchyDepth i" cs]
  by (auto simp: select_candidate_def Let_def split: if_splits)

lemma select_forced:
  "select_candidate gs True i (cs, room) = (cs', room') \<Longrightarrow>
     room' = room - chain_cost gs cs i
     \<and> chosen_size cs' \<le> chosen_size cs + (\<Sum>j \<in> set (i # ancestors gs cs kMaxHierarchyDepth i). ca_size (cs ! j))"
  using chosen_mark_all [of "i # ancestors gs cs kMaxHierarchyDepth i" cs]
  by (auto simp: select_candidate_def Let_def chain_cost_def simp del: list.set)

lemma select_rest:
  "fold (\<lambda>i s. if ca_selected (fst s ! i) then s else select_candidate gs False i s) js (cs, room) = (cs', room') \<Longrightarrow>
     room' \<le> room \<and> chosen_size cs' \<le> chosen_size cs + (room - room')"
proof (induction js arbitrary: cs room)
  case Nil
  then show ?case by simp
next
  case (Cons j js)
  show ?case
  proof (cases "ca_selected (cs ! j)")
    case True
    with Cons.prems have "fold (\<lambda>i s. if ca_selected (fst s ! i) then s else select_candidate gs False i s) js
        (cs, room) = (cs', room')" by simp
    from Cons.IH [OF this] show ?thesis .
  next
    case False
    obtain cs1 room1 where s: "select_candidate gs False j (cs, room) = (cs1, room1)" by fastforce
    with Cons.prems False have "fold (\<lambda>i s. if ca_selected (fst s ! i) then s else select_candidate gs False i s) js
        (cs1, room1) = (cs', room')" by simp
    from Cons.IH [OF this] select_unforced [OF s] show ?thesis by linarith
  qed
qed

definition mandatory_size :: "candidate list \<Rightarrow> nat" where
  "mandatory_size cs = sum_list (map (\<lambda>c. if re_mandatory (ca_relevant c) then ca_size c else 0) cs)"

lemma take_mandatory_size:
  assumes "map unselected cs = map unselected orig" and "rest = drop i orig"
    and "take_mandatory F weight i rest (gs, cs, order, room) = (gs', cs', order', room')"
  shows "chosen_size cs' \<le> chosen_size cs + mandatory_size rest \<and> room' = room - mandatory_size rest"
  using assms
proof (induction rest arbitrary: i gs cs order room)
  case Nil
  then show ?case by (simp add: mandatory_size_def)
next
  case (Cons c rest)
  have i: "i < length orig" using Cons.prems(2) by (metis drop_all list.distinct(1) not_less)
  then have c: "c = orig ! i" and rest: "rest = drop (Suc i) orig"
    using Cons.prems(2) by (metis Cons_nth_drop_Suc list.inject)+
  have u: "unselected (cs ! i) = unselected c"
    using Cons.prems(1) i c by (metis length_map nth_map)
  then have sz: "ca_size (cs ! i) = ca_size c" by (metis unselected_sel(4))
  show ?case
  proof (cases "re_mandatory (ca_relevant c)")
    case True
    have m: "map unselected (cs[i := c\<lparr>ca_selected := True\<rparr>]) = map unselected orig"
      using map_update_same [of unselected "c\<lparr>ca_selected := True\<rparr>" cs i] u Cons.prems(1) by simp
    have "take_mandatory F weight (Suc i) rest
        (gs, cs[i := c\<lparr>ca_selected := True\<rparr>], order, room - ca_size c) = (gs', cs', order', room')"
      using Cons.prems(3) True by simp
    from Cons.IH [OF m rest this] show ?thesis
      using True sz chosen_update [of "c\<lparr>ca_selected := True\<rparr>" cs i] by (simp add: mandatory_size_def)
  next
    case False
    have "take_mandatory F weight (Suc i) rest
        (gs[ca_ghost c := (gs ! ca_ghost c)\<lparr>gh_accumulator :=
          f_add F (gh_accumulator (gs ! ca_ghost c)) (weight (ca_relevant c))\<rparr>], cs, order @ [i], room) =
        (gs', cs', order', room')"
      using Cons.prems(3) False by simp
    from Cons.IH [OF Cons.prems(1) rest this] False show ?thesis by (simp add: mandatory_size_def)
  qed
qed

lemma fold_sizes: "fold (\<lambda>c n. n + ca_size c) cs k = k + sum_list (map ca_size cs)"
  by (induction cs arbitrary: k) simp_all

text \<open>
  A family: an entity that is not mandatory and the unwritten ones above it, as far as there is something to write
  of them: the parent of an entity the client has not been given yet, and again for the parent.
\<close>

definition mandatory_at :: "candidate list \<Rightarrow> nat \<Rightarrow> bool" where
  "mandatory_at cs j \<longleftrightarrow> re_mandatory (ca_relevant (cs ! j))"

fun family :: "'d ghost list \<Rightarrow> candidate list \<Rightarrow> nat list \<Rightarrow> bool" where
  "family gs cs [] \<longleftrightarrow> True"
| "family gs cs [i] \<longleftrightarrow> i < length cs \<and> \<not> mandatory_at cs i"
| "family gs cs (i # j # js) \<longleftrightarrow> i < length cs \<and> \<not> mandatory_at cs i
     \<and> \<not> gh_written (gs ! ca_ghost (cs ! i)) \<and> re_parent (ca_relevant (cs ! i)) \<noteq> kInvalidNetId
     \<and> candidate_id (cs ! j) = re_parent (ca_relevant (cs ! i)) \<and> family gs cs (j # js)"

lemma find_candidate_Some:
  "find_candidate cs i = Some p \<Longrightarrow> p < length cs \<and> candidate_id (cs ! p) = i"
  using lower_bound_le [of "\<lambda>c. candidate_id c < i" cs]
  by (auto simp: find_candidate_def Let_def split: if_splits)

lemma ancestors_family:
  assumes same: "map unselected cs1 = map unselected cs"
    and selected: "\<And>j. j < length cs \<Longrightarrow> ca_selected (cs1 ! j) \<longleftrightarrow> mandatory_at cs j"
    and written: "\<And>j. j < length cs \<Longrightarrow> gh_written (gs1 ! ca_ghost (cs ! j)) = gh_written (gs ! ca_ghost (cs ! j))"
    and w: "w < length cs" "\<not> mandatory_at cs w"
  shows "family gs cs (w # ancestors gs1 cs1 depth w) \<and> length (ancestors gs1 cs1 depth w) \<le> depth"
  using w
proof (induction depth arbitrary: w)
  case (Suc depth)
  have len: "length cs1 = length cs" using same by (rule map_eq_imp_length_eq)
  have at: "unselected (cs1 ! j) = unselected (cs ! j)" if "j < length cs" for j
    using arg_cong [OF same, of "\<lambda>xs. xs ! j"] that len by simp
  have sel: "ca_ghost (cs1 ! j) = ca_ghost (cs ! j)" "ca_relevant (cs1 ! j) = ca_relevant (cs ! j)"
    if "j < length cs" for j using at [OF that] by (metis unselected_sel(1), metis unselected_sel(2))
  show ?case
  proof (cases "gh_written (gs1 ! ca_ghost (cs1 ! w)) \<or> re_parent (ca_relevant (cs1 ! w)) = kInvalidNetId")
    case True
    then show ?thesis using Suc.prems by simp
  next
    case unwritten: False
    show ?thesis
    proof (cases "find_candidate cs1 (re_parent (ca_relevant (cs1 ! w)))")
      case None
      then show ?thesis using Suc.prems by simp
    next
      case (Some p)
      from find_candidate_Some [OF Some] have p: "p < length cs" "candidate_id (cs ! p) = re_parent (ca_relevant (cs ! w))"
        using sel(2) [OF Suc.prems(1)] sel(2) [of p] by (simp_all add: len candidate_id_def)
      show ?thesis
      proof (cases "ca_selected (cs1 ! p)")
        case True
        then show ?thesis using Suc.prems Some by simp
      next
        case False
        then have "\<not> mandatory_at cs p" using selected [OF p(1)] by simp
        from Suc.IH [OF p(1) this] show ?thesis
          using Suc.prems unwritten Some False p sel written [OF Suc.prems(1)] by simp
      qed
    qed
  qed
qed simp

lemma take_mandatory_selected:
  assumes "map unselected cs = map unselected orig" and "rest = drop i orig"
    and "take_mandatory F weight i rest (gs, cs, order, room) = (gs', cs', order', room')"
    and "\<And>j. j < length orig \<Longrightarrow> ca_selected (cs ! j) \<longleftrightarrow> j < i \<and> mandatory_at orig j"
    and "set order \<subseteq> {j. j < length orig \<and> \<not> mandatory_at orig j}"
  shows "(\<forall>j < length orig. ca_selected (cs' ! j) \<longleftrightarrow> mandatory_at orig j)
    \<and> set order' \<subseteq> {j. j < length orig \<and> \<not> mandatory_at orig j}"
  using assms
proof (induction rest arbitrary: i gs cs order room)
  case Nil
  then show ?case by auto
next
  case (Cons c rest)
  have i: "i < length orig" using Cons.prems(2) by (metis drop_all list.distinct(1) not_less)
  then have c: "c = orig ! i" and rest: "rest = drop (Suc i) orig"
    using Cons.prems(2) by (metis Cons_nth_drop_Suc list.inject)+
  have u: "unselected (cs ! i) = unselected c"
    using Cons.prems(1) i c by (metis length_map nth_map)
  have len: "length cs = length orig" using Cons.prems(1) by (rule map_eq_imp_length_eq)
  show ?case
  proof (cases "re_mandatory (ca_relevant c)")
    case True
    have m: "map unselected (cs[i := c\<lparr>ca_selected := True\<rparr>]) = map unselected orig"
      using map_update_same [of unselected "c\<lparr>ca_selected := True\<rparr>" cs i] u Cons.prems(1) by simp
    have run: "take_mandatory F weight (Suc i) rest
        (gs, cs[i := c\<lparr>ca_selected := True\<rparr>], order, room - ca_size c) = (gs', cs', order', room')"
      using Cons.prems(3) True by simp
    show ?thesis
    proof (rule Cons.IH [OF m rest run _ Cons.prems(5)])
      fix j assume "j < length orig"
      then show "ca_selected (cs[i := c\<lparr>ca_selected := True\<rparr>] ! j) \<longleftrightarrow> j < Suc i \<and> mandatory_at orig j"
        using Cons.prems(4) [of j] True c len by (cases "j = i") (auto simp: mandatory_at_def)
    qed
  next
    case False
    have run: "take_mandatory F weight (Suc i) rest
        (gs[ca_ghost c := (gs ! ca_ghost c)\<lparr>gh_accumulator :=
          f_add F (gh_accumulator (gs ! ca_ghost c)) (weight (ca_relevant c))\<rparr>], cs, order @ [i], room) =
        (gs', cs', order', room')"
      using Cons.prems(3) False by simp
    show ?thesis
      by (rule Cons.IH [OF Cons.prems(1) rest run])
        (use Cons.prems(4,5) False c i in \<open>auto simp: mandatory_at_def less_Suc_eq\<close>)
  qed
qed

definition chain_size :: "candidate list \<Rightarrow> nat list \<Rightarrow> nat" where
  "chain_size cs js = (\<Sum>j \<in> set js. ca_size (cs ! j))"

lemma choose_size:
  assumes fresh: "\<forall>c \<in> set cs. \<not> ca_selected c" and ghosts: "\<forall>c \<in> set cs. ca_ghost c < length gs"
    and ch: "choose_writes F weight budget gs cs = (gs', cs', listed)"
  shows "\<exists>chain. family gs cs chain \<and> length chain \<le> Suc kMaxHierarchyDepth \<and>
    kSnapshotHeaderBytes + 4 * length listed + chosen_size cs' \<le>
      max budget (kSnapshotHeaderBytes + mandatory_size cs + chain_size cs chain + 4)"
proof -
  define leaving where "leaving = filter (\<lambda>i. gh_leaving (gs ! i)) [0..<length gs]"
  define whole where "whole = fold (\<lambda>c n. n + ca_size c) cs (kSnapshotHeaderBytes + length leaving * 4)"
  have none: "chosen_size cs = 0" using fresh by (simp add: chosen_size_def cong: map_cong)
  obtain gs1 cs1 order0 room1 where tm:
    "take_mandatory F weight 0 cs (gs, cs, [], budget - kSnapshotHeaderBytes) = (gs1, cs1, order0, room1)"
    using prod_cases4 by blast
  have m1: "chosen_size cs1 \<le> mandatory_size cs" "room1 = budget - kSnapshotHeaderBytes - mandatory_size cs"
    using take_mandatory_size [OF refl _ tm] none by simp_all
  have same: "map unselected cs1 = map unselected cs" using take_mandatory_same [OF refl _ tm] by simp
  have len: "length cs1 = length cs" using same by (rule map_eq_imp_length_eq)
  have sizes: "ca_size (cs1 ! j) = ca_size (cs ! j)" if "j < length cs" for j
    using arg_cong [OF same, of "\<lambda>xs. ca_size (xs ! j)"] that len by simp
  show ?thesis
  proof (cases "whole \<le> budget")
    case True
    with ch have "cs' = map (\<lambda>c. c\<lparr>ca_selected := True\<rparr>) cs" "listed = leaving"
      unfolding choose_writes_def Let_def leaving_def [symmetric] whole_def [symmetric] by simp_all
    with True show ?thesis
      by (intro exI [of _ "[]"])
        (simp add: chain_size_def whole_def fold_sizes chosen_size_def comp_def le_max_iff_disj)
  next
    case False
    define order where "order = stable_sort (\<lambda>a b. f_less F (gh_accumulator (gs1 ! ca_ghost (cs1 ! b)))
                          (gh_accumulator (gs1 ! ca_ghost (cs1 ! a)))) order0"
    obtain cs2 room2 where two: "(case order of [] \<Rightarrow> (cs1, room1)
        | first # others \<Rightarrow> select_candidate gs1 True first (cs1, room1)) = (cs2, room2)"
      by fastforce
    define chain where "chain = (case order of [] \<Rightarrow> []
        | first # others \<Rightarrow> first # ancestors gs1 cs1 kMaxHierarchyDepth first)"
    have "map (strip F) gs1 = map (strip F) gs" using take_mandatory_same [OF refl _ tm] by simp
    then have written: "gh_written (gs1 ! k) = gh_written (gs ! k)" if "k < length gs" for k
    proof -
      have "strip F (gs1 ! k) = strip F (gs ! k)"
        using \<open>map (strip F) gs1 = map (strip F) gs\<close> that by (metis length_map nth_map)
      from arg_cong [OF this, of gh_written] show ?thesis by simp
    qed
    have marked: "\<forall>j < length cs. ca_selected (cs1 ! j) \<longleftrightarrow> mandatory_at cs j"
      "set order0 \<subseteq> {j. j < length cs \<and> \<not> mandatory_at cs j}"
      using take_mandatory_selected [OF refl _ tm] fresh by auto
    have valid: "family gs cs chain \<and> length chain \<le> Suc kMaxHierarchyDepth"
    proof (cases order)
      case Nil
      then show ?thesis by (simp add: chain_def)
    next
      case (Cons first others)
      have "first \<in> set order0" using arg_cong [OF Cons, of set] by (simp add: order_def)
      then have "first < length cs" "\<not> mandatory_at cs first" using marked(2) by auto
      from ancestors_family [OF same _ _ this, of gs1 gs kMaxHierarchyDepth] show ?thesis
        using Cons marked(1) ghosts written by (simp add: chain_def)
    qed
    have inside: "set js \<subseteq> {..<length cs}" if "family gs cs js" for js
      using that by (induction gs cs js rule: family.induct) auto
    have cost: "(\<Sum>j \<in> set chain. ca_size (cs1 ! j)) = chain_size cs chain"
      unfolding chain_size_def using inside valid sizes by (intro sum.cong) auto
    have m2: "chosen_size cs2 \<le> chosen_size cs1 + chain_size cs chain \<and> room2 \<le> room1 - chain_size cs chain"
    proof (cases order)
      case Nil
      with two show ?thesis by (simp add: chain_def chain_size_def)
    next
      case (Cons top others)
      have "chain_size cs chain \<le> chain_cost gs1 cs1 top"
        using chosen_marked(2) [where cs = cs1 and js = chain] Cons cost by (simp add: chain_def chain_cost_def)
      moreover have "chain = top # ancestors gs1 cs1 kMaxHierarchyDepth top" using Cons by (simp add: chain_def)
      ultimately show ?thesis using two Cons select_forced [of gs1 top cs1 room1 cs2 room2] cost by auto
    qed
    define queue where "queue = stable_sort (removal_before gs1) leaving"
    define count where "count = min (length queue)
      (max ((if tl order \<noteq> [] then room2 div 4 else room2) div 4) 1)"
    obtain cs3 room3 where three: "fold (\<lambda>i s. if ca_selected (fst s ! i) then s else select_candidate gs1 False i s)
        (tl order) (cs2, room2 - count * 4) = (cs3, room3)"
      by fastforce
    have res: "cs' = cs3" "listed = take count queue"
      using ch False
      unfolding choose_writes_def Let_def leaving_def [symmetric] whole_def [symmetric] tm prod.case
        order_def [symmetric] two queue_def [symmetric] count_def [symmetric] three
      by (simp_all only: if_False prod.inject)
    have l: "length listed = count" by (simp add: res count_def)
    have c4: "count * 4 \<le> max room2 4"
    proof -
      have "count \<le> max (room2 div 4) 1"
        unfolding count_def by (rule min.coboundedI2) (auto simp: max_def div_le_mono le_trans [OF div_le_dividend])
      then show ?thesis by (auto simp: max_def split: if_splits)
    qed
    have m3: "chosen_size cs3 \<le> chosen_size cs2 + (room2 - count * 4)"
      using select_rest [OF three] by linarith
    have "kSnapshotHeaderBytes + 4 * length listed + chosen_size cs' \<le>
        max budget (kSnapshotHeaderBytes + mandatory_size cs + chain_size cs chain + 4)"
      using m1 m2 m3 c4 unfolding res(1) l by (simp only: max_def split: if_splits) linarith+
    then show ?thesis using valid by blast
  qed
qed

lemma cap_selected_size: "chosen_size (cap_selected n cs) \<le> chosen_size cs"
  by (induction cs arbitrary: n) (auto simp: chosen_size_def Let_def add_mono)

lemma chosen_size_filter: "chosen_size cs = sum_list (map ca_size (filter ca_selected cs))"
  by (induction cs) (simp_all add: chosen_size_def)

lemma visit_unselected: "c \<in> set (snd (visit F n k g r)) \<Longrightarrow> \<not> ca_selected c"
  by (auto simp: visit_def Let_def split: if_splits)

lemma walk_unselected: "c \<in> set (snd (walk F t n k gs rs)) \<Longrightarrow> \<not> ca_selected c"
proof (induction F t n k gs rs rule: walk.induct)
  case (1 F t n k)
  then show ?case by simp
next
  case (2 F t n k g gs)
  then show ?case by (cases "gh_written g") (simp_all add: case_prod_unfold Let_def)
next
  case (3 F t n k r rs)
  from 3(2) show ?case
    using 3(1) [OF refl surjective_pairing [symmetric]]
    by (auto simp: case_prod_unfold Let_def dest: visit_unselected)
next
  case (4 F t n k g gs r rs)
  from 4(5) show ?case
    using 4(1,2) 4(3,4) [OF _ _ refl surjective_pairing [symmetric]]
    by (cases "gh_id g < es_id (re_entity r)"; cases "gh_written g"; cases "gh_id g = es_id (re_entity r)")
      (auto simp: case_prod_unfold Let_def dest: visit_unselected)
qed

text \<open>
  C20: A snapshot message is within its budget, or over it only by what always goes out: the records of the mandatory
  entities, those of one family, and one removal. A family is one more entity with its parent, the parent of that and
  so on, each a candidate that is not mandatory, and each only because the client has never been given the one below
  it; it has at most 33 members.
\<close>

theorem build_budget:
  assumes key: "by_key gh_id (pg_ghosts p)" and rel: "by_key rel_id rs" and n: "n \<le> 32"
    and w: "walk F t n 0 (pg_ghosts p) rs = (gs, cs)"
    and b: "build F weight t header rs budget n p = (bt, p')"
  shows "\<exists>chain. family gs cs chain \<and> length chain \<le> Suc kMaxHierarchyDepth \<and>
    length (bu_bytes bt) \<le> max budget (kSnapshotHeaderBytes + mandatory_size cs + chain_size cs chain + 4)"
proof -
  obtain gs1 cs1 listed0 where ch: "choose_writes F weight budget gs cs = (gs1, cs1, listed0)"
    using prod_cases3 by blast
  have fresh: "\<forall>c \<in> set cs. \<not> ca_selected c" using walk_unselected [of _ F t n 0 "pg_ghosts p" rs] w by simp
  have ok: "cands_ok n 0 gs rs cs" using walk_result [OF key rel w] by blast
  then have ghosts: "\<forall>c \<in> set cs. ca_ghost c < length gs" by (simp add: cands_ok_def cand_ok_def)
  define cs2 where "cs2 = cap_selected 0 cs1"
  have u: "map unselected cs2 = map unselected cs"
    by (simp add: cs2_def cap_selected_same choose_same(2) [OF ch])
  have size: "snapshot_write_size (ca_write c) = ca_size c" if "c \<in> set cs2" for c
  proof -
    have "unselected c \<in> unselected ` set cs" using that arg_cong [OF u, of set] by auto
    then obtain c0 where "c0 \<in> set cs" "unselected c = unselected c0" by blast
    then show ?thesis using ok unselected_sel(3,4) by (metis cand_ok_def cands_ok_def)
  qed
  have "bu_bytes bt = encode_snapshot t header
      (sort (map (\<lambda>i. gh_id (gs1 ! i)) (take kMaxSnapshotEntries listed0))) (map ca_write (filter ca_selected cs2))"
    using b unfolding build_def Let_def w ch prod.case cs2_def [symmetric] by auto
  then have "length (bu_bytes bt) = kSnapshotHeaderBytes + 4 * min (length listed0) kMaxSnapshotEntries +
      sum_list (map snapshot_write_size (map ca_write (filter ca_selected cs2)))"
    by (simp add: encode_size)
  also have "sum_list (map snapshot_write_size (map ca_write (filter ca_selected cs2))) = chosen_size cs2"
    unfolding chosen_size_filter map_map using size by (intro arg_cong [where f = sum_list] map_cong) auto
  also have "kSnapshotHeaderBytes + 4 * min (length listed0) kMaxSnapshotEntries + chosen_size cs2 \<le>
      kSnapshotHeaderBytes + 4 * length listed0 + chosen_size cs1"
    using cap_selected_size [of 0 cs1] by (simp add: cs2_def)
  finally have "length (bu_bytes bt) \<le> kSnapshotHeaderBytes + 4 * length listed0 + chosen_size cs1" .
  with choose_size [OF fresh ghosts ch] show ?thesis by (meson order_trans)
qed

theorem build_budget_witness: "length (bu_bytes (fst demo_built)) \<le> 1200"
proof -
  have b: "build unit_arith (\<lambda>_. ()) 1 \<lparr>ph_input_tick = 0, ph_input_slack = 0\<rparr> [demo_relevant] 1200 2 new_ghosts =
      (fst demo_built, snd demo_built)"
    by (simp add: demo_built_def)
  obtain gs where w: "walk unit_arith 1 2 0 (pg_ghosts new_ghosts) [demo_relevant] =
      (gs, [\<lparr>ca_ghost = 0, ca_relevant = demo_relevant,
        ca_write = \<lparr>sw_entity = demo_ref, sw_write_owner = True, sw_changed = 1, sw_lost = 0\<rparr>,
        ca_size = 20, ca_selected = False\<rparr>])" (is "_ = (_, ?cs)")
    unfolding new_ghosts_def peer_ghosts.select_convs demo_walk by blast
  obtain chain where chain: "family gs ?cs chain"
    "length (bu_bytes (fst demo_built)) \<le> max 1200 (kSnapshotHeaderBytes + mandatory_size ?cs + chain_size ?cs chain + 4)"
    using build_budget [OF _ _ _ w b] by (auto simp: new_ghosts_def by_key_def)
  have "set js \<subseteq> {0}" if "family gs ?cs js" for js
    using that by (induction gs ?cs js rule: family.induct) auto
  then have "chain_size ?cs chain \<le> (\<Sum>j \<in> {0 :: nat}. ca_size (?cs ! j))"
    unfolding chain_size_def by (intro sum_mono2) (use chain(1) in auto)
  moreover have "mandatory_size ?cs = 0" by (simp add: mandatory_size_def demo_relevant_def)
  ultimately show ?thesis
    using chain(2) by (simp add: kSnapshotHeaderBytes_def max_def split: if_splits)
qed

end
