(* ===== verification/Snapshot_Capture.thy ===== *)
theory Snapshot_Capture
  imports Ghost_Claims
begin

section \<open>Capturing the world\<close>

text \<open>
  \<open>capture_snapshot\<close> of \<^verbatim>\<open>src/net/snapshot_codec.cpp\<close>. The world is the list of its entities with
  \<open>NetIdentity\<close>, each with what the registry's entries write of it (None where the entity does not
  have the component). A captured entity whose bytes did not change shares the values of the last
  capture; otherwise they get a new address. \<open>std::make_shared\<close> is the argument \<open>alloc\<close>: given the addresses
  in use it gives one that is not, which may have been in use before (\<open>allocates\<close>). The addresses in use are those
  anything still holds: the last capture, the ghosts of the peers, this capture so far. The error logged once for a
  value that is too large is not modelled; the value kept in its place is.
\<close>

definition allocates :: "(nat list \<Rightarrow> nat) \<Rightarrow> bool" where
  "allocates alloc \<longleftrightarrow> (\<forall>live. alloc live \<notin> set live \<and> alloc live \<noteq> 0)"

record world_entity =
  we_id :: net_id
  we_owner :: peer_id
  we_slots :: "bytes option list"

text \<open>The loop over the slots: the mask and the values so far.\<close>

fun capture_slots ::
  "ref_snapshot option \<Rightarrow> nat \<Rightarrow> bytes option list \<Rightarrow> u32 \<times> bytes list \<Rightarrow> u32 \<times> bytes list" where
  "capture_slots old slot [] s = s"
| "capture_slots old slot (w # ws) (m, blobs) =
     capture_slots old (Suc slot) ws
       (case w of
          None \<Rightarrow> (m, blobs)
        | Some bs \<Rightarrow>
            (if length bs \<le> kMaxSnapshotBlobBytes then (or m (slot_bit slot), blobs @ [bs])
             else (case old of
                     Some e \<Rightarrow> if es_has e slot then (or m (slot_bit slot), blobs @ [es_component e slot])
                              else (m, blobs)
                   | None \<Rightarrow> (m, blobs))))"

definition find_captured :: "net_id \<Rightarrow> ref_snapshot list \<Rightarrow> ref_snapshot option" where
  "find_captured i es =
     (let k = lower_bound (\<lambda>e. es_id e < i) es
      in if k = length es \<or> es_id (es ! k) \<noteq> i then None else Some (es ! k))"

definition capture_entity ::
  "(nat list \<Rightarrow> nat) \<Rightarrow> ref_snapshot list \<Rightarrow> world_entity \<Rightarrow> nat list \<Rightarrow> ref_snapshot \<times> nat list" where
  "capture_entity alloc previous w live =
     (let old = find_captured (we_id w) previous;
          (m, blobs) = capture_slots old 0 (we_slots w) (0, []);
          made = (\<lparr>es_id = we_id w, es_owner = we_owner w, es_mask = m, es_blobs = blobs, es_ref = alloc live\<rparr>,
            alloc live # live)
      in case old of
           Some e \<Rightarrow>
             (if es_mask e = m \<and> es_ref e \<noteq> 0 \<and> es_blobs e = blobs
              then (\<lparr>es_id = we_id w, es_owner = we_owner w, es_mask = m, es_blobs = blobs, es_ref = es_ref e\<rparr>, live)
              else made)
         | None \<Rightarrow> made)"

fun capture_entities ::
  "(nat list \<Rightarrow> nat) \<Rightarrow> ref_snapshot list \<Rightarrow> world_entity list \<Rightarrow> nat list \<Rightarrow> ref_snapshot list \<times> nat list" where
  "capture_entities alloc previous [] live = ([], live)"
| "capture_entities alloc previous (w # ws) live =
     (if we_id w = kInvalidNetId then capture_entities alloc previous ws live
      else (let (e, live1) = capture_entity alloc previous w live;
                (es, live2) = capture_entities alloc previous ws live1
            in (e # es, live2)))"

definition capture_snapshot ::
  "(nat list \<Rightarrow> nat) \<Rightarrow> world_entity list \<Rightarrow> ref_snapshot list option \<Rightarrow> nat list \<Rightarrow> ref_snapshot list \<times> nat list" where
  "capture_snapshot alloc world previous live =
     (let (es, live') = capture_entities alloc (case previous of None \<Rightarrow> [] | Some es \<Rightarrow> es) world live
      in (sort_key es_id es, live'))"

subsection \<open>What a captured entity is\<close>

definition captured_ok :: "blob_heap \<Rightarrow> nat list \<Rightarrow> nat \<Rightarrow> ref_snapshot \<Rightarrow> bool" where
  "captured_ok h live n e \<longleftrightarrow>
     es_id e \<noteq> kInvalidNetId \<and> es_ok e \<and> shared h e \<and> es_ref e \<noteq> 0 \<and> es_ref e \<in> set live \<and>
     (\<forall>s. bit (es_mask e) s \<longrightarrow> s < n) \<and> (\<forall>bs \<in> set (es_blobs e). length bs \<le> kMaxSnapshotBlobBytes)"

text \<open>The world's entities with their bytes: a component that is too large is not replicated.\<close>

definition world_fits :: "nat \<Rightarrow> world_entity \<Rightarrow> bool" where
  "world_fits n w \<longleftrightarrow> length (we_slots w) = n"

definition slots_done :: "nat \<Rightarrow> u32 \<times> bytes list \<Rightarrow> bool" where
  "slots_done k s \<longleftrightarrow>
     length (snd s) = popcount (fst s) \<and> (\<forall>j. bit (fst s) j \<longrightarrow> j < k) \<and>
     (\<forall>bs \<in> set (snd s). length bs \<le> kMaxSnapshotBlobBytes)"

lemma popcount_add:
  assumes "\<forall>j. bit m j \<longrightarrow> j < k" and "k < 32"
  shows "popcount (or m (slot_bit k)) = Suc (popcount m)"
proof -
  have s: "[0..<32] = [0..<k] @ k # [Suc k..<32]" using assms(2) by (rule upt_split_at)
  have hi: "filter (bit m) [Suc k..<32] = []" "filter (bit (or m (slot_bit k))) [Suc k..<32] = []" "\<not> bit m k"
    using assms(1) by (auto simp: filter_empty_conv bit_or_iff)
  have lo: "filter (bit (or m (slot_bit k))) [0..<k] = filter (bit m) [0..<k]"
    by (rule filter_cong) (simp_all add: bit_or_iff)
  show ?thesis
    unfolding popcount_def s using hi lo assms(2) by (simp add: bit_or_iff)
qed

lemma slots_add:
  "slots_done k (m, blobs) \<Longrightarrow> k < 32 \<Longrightarrow> length bs \<le> kMaxSnapshotBlobBytes \<Longrightarrow>
     slots_done (Suc k) (or m (slot_bit k), blobs @ [bs])"
  by (auto simp: slots_done_def popcount_add bit_or_iff less_Suc_eq)

lemma slots_skip: "slots_done k s \<Longrightarrow> slots_done (Suc k) s"
  by (auto simp: slots_done_def less_Suc_eq)

lemma capture_slots_done:
  assumes "slots_done k s" and "k + length ws \<le> 32"
    and "\<And>e bs. old = Some e \<Longrightarrow> es_ok e \<and> (\<forall>bs \<in> set (es_blobs e). length bs \<le> kMaxSnapshotBlobBytes)"
  shows "slots_done (k + length ws) (capture_slots old k ws s)"
  using assms(1,2)
proof (induction ws arbitrary: k s)
  case Nil
  then show ?case by simp
next
  case (Cons w ws)
  obtain m blobs where s: "s = (m, blobs)" by fastforce
  have kept: "length (es_component e k) \<le> kMaxSnapshotBlobBytes" if "old = Some e" "es_has e k" for e
  proof -
    have "slot_index (es_mask e) k < length (es_blobs e)"
      using assms(3) [OF that(1)] that(2) slot_index_less by (simp add: es_ok_def es_has_bit)
    then show ?thesis using assms(3) [OF that(1)] nth_mem by (fastforce simp: es_component_def)
  qed
  have "slots_done (Suc k) (case w of
          None \<Rightarrow> (m, blobs)
        | Some bs \<Rightarrow>
            (if length bs \<le> kMaxSnapshotBlobBytes then (or m (slot_bit k), blobs @ [bs])
             else (case old of
                     Some e \<Rightarrow> if es_has e k then (or m (slot_bit k), blobs @ [es_component e k])
                              else (m, blobs)
                   | None \<Rightarrow> (m, blobs))))"
    using Cons.prems kept by (auto simp: s slots_add slots_skip split: option.split)
  from Cons.IH [OF this] Cons.prems(2) show ?case by (simp add: s)
qed

lemma find_captured_Some: "find_captured i es = Some e \<Longrightarrow> e \<in> set es \<and> es_id e = i"
  using lower_bound_le [of "\<lambda>e. es_id e < i" es]
  by (auto simp: find_captured_def Let_def split: if_splits)

text \<open>An address in use keeps what it stands for.\<close>

definition heap_extends :: "nat list \<Rightarrow> blob_heap \<Rightarrow> blob_heap \<Rightarrow> bool" where
  "heap_extends live h h' \<longleftrightarrow> (\<forall>a \<in> set live. h' a = h a)"

lemma captured_extend:
  "captured_ok h live n e \<Longrightarrow> heap_extends live h h' \<Longrightarrow> set live \<subseteq> set live' \<Longrightarrow> captured_ok h' live' n e"
  by (auto simp: captured_ok_def heap_extends_def shared_def)

lemma capture_entity_ok:
  assumes alloc: "allocates alloc" and prev: "\<forall>e \<in> set previous. captured_ok h live n e" and n: "n \<le> 32"
    and w: "we_id w \<noteq> kInvalidNetId" "world_fits n w"
    and res: "capture_entity alloc previous w live = (e, live')"
  shows "\<exists>h'. heap_extends live h h' \<and> captured_ok h' live' n e \<and> set live \<subseteq> set live' \<and> es_id e = we_id w
    \<and> es_owner e = we_owner w"
proof -
  define old where "old = find_captured (we_id w) previous"
  obtain m blobs where s: "capture_slots old 0 (we_slots w) (0, []) = (m, blobs)" by fastforce
  have old_ok: "captured_ok h live n x" if "old = Some x" for x
    using find_captured_Some that prev by (auto simp: old_def)
  have "slots_done (0 + length (we_slots w)) (capture_slots old 0 (we_slots w) (0, []))"
    by (rule capture_slots_done)
      (use w n old_ok in \<open>auto simp: slots_done_def world_fits_def popcount_def captured_ok_def\<close>)
  then have slots: "length blobs = popcount m" "\<forall>j. bit m j \<longrightarrow> j < n" "\<forall>bs \<in> set blobs. length bs \<le> kMaxSnapshotBlobBytes"
    using w by (simp_all add: s slots_done_def world_fits_def)
  have new: "alloc live \<notin> set live" "alloc live \<noteq> 0" using alloc by (simp_all add: allocates_def)
  define made where "made = (\<lparr>es_id = we_id w, es_owner = we_owner w, es_mask = m, es_blobs = blobs, es_ref = alloc live\<rparr>,
    alloc live # live)"
  note res0 = res [unfolded capture_entity_def Let_def old_def [symmetric] s prod.case made_def [symmetric]]
  consider x where "old = Some x" "es_mask x = m" "es_blobs x = blobs"
      "e = \<lparr>es_id = we_id w, es_owner = we_owner w, es_mask = m, es_blobs = blobs, es_ref = es_ref x\<rparr>" "live' = live"
    | "made = (e, live')"
  proof (cases old)
    case None
    show thesis by (rule that(2)) (use res0 in \<open>simp only: None option.case\<close>)
  next
    case (Some x)
    note res' = res0 [unfolded Some option.case]
    show thesis
    proof (cases "es_mask x = m \<and> es_ref x \<noteq> 0 \<and> es_blobs x = blobs")
      case True
      with res' have "e = \<lparr>es_id = we_id w, es_owner = we_owner w, es_mask = m, es_blobs = blobs, es_ref = es_ref x\<rparr> \<and> live' = live"
        by (simp only: if_True prod.inject simp_thms)
      with Some True that(1) show thesis by blast
    next
      case False
      with res' have "made = (e, live')" by (simp only: if_False simp_thms)
      then show thesis by (rule that(2))
    qed
  qed
  then show ?thesis
  proof cases
    case 1
    then show ?thesis
      using old_ok [OF 1(1)] slots w
      by (intro exI [of _ h]) (auto simp: heap_extends_def captured_ok_def es_ok_def shared_def)
  next
    case 2
    then show ?thesis
      using slots w new
      by (intro exI [of _ "h(alloc live := (m, blobs))"])
        (auto simp: made_def heap_extends_def captured_ok_def es_ok_def shared_def)
  qed
qed

lemma capture_entities_ok:
  assumes "allocates alloc" and "\<forall>e \<in> set previous. captured_ok h live n e" and "n \<le> 32"
    and "\<forall>w \<in> set ws. world_fits n w" and "capture_entities alloc previous ws live = (es, live')"
  shows "\<exists>h'. heap_extends live h h' \<and> (\<forall>e \<in> set es. captured_ok h' live' n e) \<and> set live \<subseteq> set live' \<and>
    map es_id es = filter (\<lambda>i. i \<noteq> kInvalidNetId) (map we_id ws)"
  using assms(2-)
proof (induction ws arbitrary: h live es)
  case Nil
  then show ?case by (auto simp: heap_extends_def)
next
  case (Cons w ws)
  show ?case
  proof (cases "we_id w = kInvalidNetId")
    case True
    with Cons show ?thesis by simp
  next
    case False
    obtain e live1 where one: "capture_entity alloc previous w live = (e, live1)" by fastforce
    obtain es1 live2 where rest: "capture_entities alloc previous ws live1 = (es1, live2)" by fastforce
    from Cons.prems(4) False one rest have eq: "es = e # es1" "live' = live2" by simp_all
    obtain h1 where h1: "heap_extends live h h1" "captured_ok h1 live1 n e" "set live \<subseteq> set live1" "es_id e = we_id w"
      using capture_entity_ok [OF assms(1) Cons.prems(1,2) False _ one] Cons.prems(3) by auto
    have prev1: "\<forall>e \<in> set previous. captured_ok h1 live1 n e"
      using Cons.prems(1) captured_extend h1 by blast
    obtain h2 where h2: "heap_extends live1 h1 h2" "\<forall>e \<in> set es1. captured_ok h2 live2 n e" "set live1 \<subseteq> set live2"
      "map es_id es1 = filter (\<lambda>i. i \<noteq> kInvalidNetId) (map we_id ws)"
      using Cons.IH [OF prev1 Cons.prems(2)] rest Cons.prems(3) eq by auto
    have "heap_extends live h h2" using h1 h2 by (auto simp: heap_extends_def)
    moreover have "captured_ok h2 live2 n e" using captured_extend [OF h1(2) h2(1,3)] .
    ultimately show ?thesis using h1 h2 False by (intro exI [of _ h2]) (auto simp: eq)
  qed
qed

text \<open>
  C18: Capture after capture, and wherever new addresses come from as long as none in use is given out again: an
  address in use stands for one mask and one list of values, so that comparing addresses is comparing values; and every
  captured entity has a real id, an address in use, a value for each slot of its mask and no value the message cannot
  carry, sorted by id.
\<close>

theorem capture_shares:
  assumes "\<forall>e \<in> set (case previous of None \<Rightarrow> [] | Some es \<Rightarrow> es). captured_ok h live n e" and "allocates alloc"
    and "n \<le> 32" and "\<forall>w \<in> set world. world_fits n w" and "distinct (map we_id world)"
    and "capture_snapshot alloc world previous live = (es, live')"
  shows "\<exists>h'. heap_extends live h h' \<and> (\<forall>e \<in> set es. captured_ok h' live' n e) \<and> set live \<subseteq> set live' \<and> by_key es_id es \<and>
    es_id ` set es = we_id ` set world - {kInvalidNetId}"
proof -
  obtain es0 where es0: "capture_entities alloc (case previous of None \<Rightarrow> [] | Some es \<Rightarrow> es) world live = (es0, live')"
    and es: "es = sort_key es_id es0"
    using assms(6) by (auto simp: capture_snapshot_def split: prod.splits)
  obtain h' where h': "heap_extends live h h'" "\<forall>e \<in> set es0. captured_ok h' live' n e" "set live \<subseteq> set live'"
    and ids: "map es_id es0 = filter (\<lambda>i. i \<noteq> kInvalidNetId) (map we_id world)"
    using capture_entities_ok [OF assms(2,1,3,4) es0] by blast
  have "distinct (map es_id es0)" unfolding ids using assms(5) by (rule distinct_filter)
  then have "distinct (map es_id es)"
    unfolding es by (metis distinct_map distinct_sort inj_on_cong set_sort)
  then have "by_key es_id es" by (simp add: by_key_def strict_sorted_iff es)
  moreover have "es_id ` set es = we_id ` set world - {kInvalidNetId}"
    using arg_cong [OF ids, of set] by (auto simp: es)
  ultimately show ?thesis using h' by (intro exI [of _ h']) (simp add: es)
qed

text \<open>An allocator that gives the least free address, so that a freed one is used again.\<close>

definition least_free :: "nat list \<Rightarrow> nat" where
  "least_free live = hd (filter (\<lambda>a. a \<notin> set live) [1..<length live + 2])"

lemma least_free_allocates: "allocates least_free"
  unfolding allocates_def
proof
  fix live :: "nat list"
  have "filter (\<lambda>a. a \<notin> set live) [1..<length live + 2] \<noteq> []"
  proof
    assume "filter (\<lambda>a. a \<notin> set live) [1..<length live + 2] = []"
    then have "set [1..<length live + 2] \<subseteq> set live" by (auto simp: filter_empty_conv)
    then have "card (set [1..<length live + 2]) \<le> card (set live)" by (rule card_mono [rotated]) simp
    then have "length live + 2 - 1 \<le> card (set live)" by (simp only: set_upt card_atLeastLessThan)
    then show False using card_length [of live] by linarith
  qed
  from hd_in_set [OF this] show "least_free live \<notin> set live \<and> least_free live \<noteq> 0"
    by (auto simp: least_free_def simp del: upt_Suc)
qed

theorem capture_shares_witness:
  "\<exists>h'. heap_extends [2] (\<lambda>_. (0, [])) h' \<and>
     captured_ok h' [1, 2] 2 \<lparr>es_id = 5, es_owner = 2, es_mask = 1, es_blobs = [[7]], es_ref = 1\<rparr>"
proof -
  let ?w = "\<lparr>we_id = 5, we_owner = 2, we_slots = [Some [7], None]\<rparr>"
  have c: "capture_snapshot least_free [?w] None [2]
      = ([\<lparr>es_id = 5, es_owner = 2, es_mask = 1, es_blobs = [[7]], es_ref = 1\<rparr>], [1, 2])"
    by (simp add: capture_snapshot_def capture_entity_def find_captured_def lower_bound_def kInvalidNetId_def
        kMaxSnapshotBlobBytes_def slot_bit_def least_free_def)
  show ?thesis
    using capture_shares [OF _ least_free_allocates _ _ _ c, of "\<lambda>_. (0, [])" 2] by (auto simp: world_fits_def)
qed

end
