(* ===== verification/Dock_Layout.thy ===== *)
theory Dock_Layout
  imports Ord_Map Float_Arith
begin

section \<open>The dock layout\<close>

text \<open>
  \<open>DockLayout\<close> of \<open>src/src/ui/dock_layout.cpp\<close>: panels in tab stacks, stacks in trees of splits, one
  docked tree and a list of floating trees. The nodes lie in one \<open>std::map\<close> by id and point to each
  other by id, which is the ordered association list \<open>dl_nodes\<close> here; ids are 32 bits wide and come
  from a counter that wraps. \<open>DockNodeId\<close> 0 is no node.

  A pointer \<open>node_mut\<close> gives is dereferenced by the code without a test in places where the node is
  there in every valid layout; \<open>with_node\<close> changes the node an id names and leaves the layout alone
  where there is none. \<open>node_ratio\<close> is a \<open>float\<close> of an arithmetic given as an argument and the frame
  rect of a float is opaque. An operation gives its result and the layout after it.
\<close>

type_synonym dock_id = u32

abbreviation kNoDockNode :: dock_id where
  "kNoDockNode \<equiv> 0"

datatype dock_axis = AxisHorizontal | AxisVertical

datatype dock_zone = ZoneCenter | ZoneLeft | ZoneRight | ZoneTop | ZoneBottom

datatype dock_kind = KindTabs | KindSplit

record 'f dock_node =
  node_id :: dock_id
  node_parent :: dock_id
  node_kind :: dock_kind
  node_panels :: "string list"
  node_active :: nat
  node_axis :: dock_axis
  node_ratio :: 'f
  node_first :: dock_id
  node_second :: dock_id

record 'r dock_float =
  float_id :: dock_id
  float_root :: dock_id
  float_rect :: 'r

record dock_target =
  target_node :: dock_id
  target_zone :: dock_zone

record panel_place =
  place_stack :: dock_id
  place_index :: nat
  place_float :: dock_id

record ('f, 'r) dock_layout =
  dl_root :: dock_id
  dl_nodes :: "(dock_id \<times> 'f dock_node) list"
  dl_floats :: "'r dock_float list"
  dl_next :: dock_id

definition empty_layout :: "('f, 'r) dock_layout" where
  "empty_layout = \<lparr>dl_root = kNoDockNode, dl_nodes = [], dl_floats = [], dl_next = 1\<rparr>"

text \<open>The member initializers of \<open>DockNode\<close>, and the two ends of the range of a ratio.\<close>

definition new_node :: "'f float_arith \<Rightarrow> 'f dock_node" where
  "new_node F = \<lparr>node_id = kNoDockNode, node_parent = kNoDockNode, node_kind = KindTabs,
     node_panels = [], node_active = 0, node_axis = AxisHorizontal,
     node_ratio = f_single F (f_frac F 5 10), node_first = kNoDockNode,
     node_second = kNoDockNode\<rparr>"

definition kDockRatioMin :: "'f float_arith \<Rightarrow> 'f" where
  "kDockRatioMin F = f_single F (f_frac F 1 100)"

definition kDockRatioMax :: "'f float_arith \<Rightarrow> 'f" where
  "kDockRatioMax F = f_single F (f_frac F 99 100)"

definition axis_for :: "dock_zone \<Rightarrow> dock_axis" where
  "axis_for zone = (if zone = ZoneLeft \<or> zone = ZoneRight then AxisHorizontal else AxisVertical)"

definition goes_first :: "dock_zone \<Rightarrow> bool" where
  "goes_first zone \<longleftrightarrow> zone = ZoneLeft \<or> zone = ZoneTop"

subsection \<open>Lookups\<close>

definition node :: "('f, 'r) dock_layout \<Rightarrow> dock_id \<Rightarrow> 'f dock_node option" where
  "node l i = map_of (dl_nodes l) i"

definition with_node :: "dock_id \<Rightarrow> ('f dock_node \<Rightarrow> 'f dock_node) \<Rightarrow> ('f, 'r) dock_layout
    \<Rightarrow> ('f, 'r) dock_layout" where
  "with_node i f l = (case node l i of None \<Rightarrow> l
     | Some n \<Rightarrow> l\<lparr>dl_nodes := om_put i (f n) (dl_nodes l)\<rparr>)"

text \<open>\<open>std::map::emplace\<close> keeps the value of a key that is there.\<close>

definition emplace_node :: "dock_id \<Rightarrow> 'f dock_node \<Rightarrow> ('f, 'r) dock_layout
    \<Rightarrow> ('f, 'r) dock_layout" where
  "emplace_node i n l = (case node l i of None \<Rightarrow> l\<lparr>dl_nodes := om_put i n (dl_nodes l)\<rparr>
     | Some _ \<Rightarrow> l)"

definition erase_node :: "dock_id \<Rightarrow> ('f, 'r) dock_layout \<Rightarrow> ('f, 'r) dock_layout" where
  "erase_node i l = l\<lparr>dl_nodes := om_del i (dl_nodes l)\<rparr>"

definition find_float :: "('f, 'r) dock_layout \<Rightarrow> dock_id \<Rightarrow> 'r dock_float option" where
  "find_float l fid = find_first (\<lambda>f. float_id f = fid) (dl_floats l)"

primrec climb :: "nat \<Rightarrow> ('f, 'r) dock_layout \<Rightarrow> 'f dock_node \<Rightarrow> 'f dock_node option" where
  "climb 0 l n = Some n"
| "climb (Suc k) l n =
     (if node_parent n = kNoDockNode then Some n
      else case node l (node_parent n) of None \<Rightarrow> None | Some m \<Rightarrow> climb k l m)"

definition float_of :: "('f, 'r) dock_layout \<Rightarrow> dock_id \<Rightarrow> dock_id" where
  "float_of l i =
     (case node l i of None \<Rightarrow> kNoDockNode
      | Some n \<Rightarrow> (case climb (length (dl_nodes l)) l n of None \<Rightarrow> kNoDockNode
        | Some m \<Rightarrow> (case find_first (\<lambda>f. float_root f = node_id m) (dl_floats l) of
            None \<Rightarrow> kNoDockNode | Some f \<Rightarrow> float_id f)))"

text \<open>The index \<open>std::ranges::find\<close> gives: the length of the list where the element is not in it.\<close>

fun index_of :: "'a \<Rightarrow> 'a list \<Rightarrow> nat" where
  "index_of x [] = 0"
| "index_of x (y # ys) = (if y = x then 0 else Suc (index_of x ys))"

definition find_panel :: "('f, 'r) dock_layout \<Rightarrow> string \<Rightarrow> panel_place option" where
  "find_panel l key =
     (case find_first (\<lambda>(i, n). node_kind n = KindTabs \<and> key \<in> set (node_panels n)) (dl_nodes l) of
        None \<Rightarrow> None
      | Some (i, n) \<Rightarrow> Some \<lparr>place_stack = i, place_index = index_of key (node_panels n),
          place_float = float_of l i\<rparr>)"

definition contains_panel :: "('f, 'r) dock_layout \<Rightarrow> string \<Rightarrow> bool" where
  "contains_panel l key \<longleftrightarrow> find_panel l key \<noteq> None"

definition is_visible :: "('f, 'r) dock_layout \<Rightarrow> string \<Rightarrow> bool" where
  "is_visible l key = (case find_panel l key of None \<Rightarrow> False
     | Some p \<Rightarrow> (case node l (place_stack p) of None \<Rightarrow> False
         | Some n \<Rightarrow> node_active n = place_index p))"

text \<open>
  The walk below a node. Its bound is on the stacks found, so that it would go on for ever on splits
  that point at each other: it is a partial function, with None where the loop does not end. The back
  of \<open>pending\<close> is the head of the list.
\<close>

partial_function (option) stack_loop :: "('f, 'r) dock_layout \<Rightarrow> dock_id list \<Rightarrow> dock_id list
    \<Rightarrow> dock_id list option" where
  "stack_loop l out pending =
     (case pending of [] \<Rightarrow> Some out
      | i # rest \<Rightarrow>
          if length out \<le> length (dl_nodes l) then
            (case node l i of None \<Rightarrow> stack_loop l out rest
             | Some n \<Rightarrow>
                 if node_kind n = KindTabs then stack_loop l (out @ [node_id n]) rest
                 else stack_loop l out (node_first n # node_second n # rest))
          else Some out)"

definition stacks_under :: "('f, 'r) dock_layout \<Rightarrow> dock_id \<Rightarrow> dock_id list option" where
  "stacks_under l i = stack_loop l [] (if i \<noteq> kNoDockNode then [i] else [])"

definition stack_panels :: "('f, 'r) dock_layout \<Rightarrow> dock_id list \<Rightarrow> string list" where
  "stack_panels l stacks =
     concat (map (\<lambda>s. case node l s of None \<Rightarrow> [] | Some n \<Rightarrow> node_panels n) stacks)"

fun panels_of :: "('f, 'r) dock_layout \<Rightarrow> dock_id list \<Rightarrow> string list option" where
  "panels_of l [] = Some []"
| "panels_of l (tree # trees) =
     (case stacks_under l tree of None \<Rightarrow> None
      | Some stacks \<Rightarrow> map_option ((@) (stack_panels l stacks)) (panels_of l trees))"

definition panels :: "('f, 'r) dock_layout \<Rightarrow> string list option" where
  "panels l = panels_of l (dl_root l # map float_root (dl_floats l))"

subsection \<open>The steps of the operations\<close>

definition make_stack :: "'f float_arith \<Rightarrow> string \<Rightarrow> ('f, 'r) dock_layout
    \<Rightarrow> dock_id \<times> ('f, 'r) dock_layout" where
  "make_stack F key l =
     (let i = dl_next l in
      (i, emplace_node i ((new_node F)\<lparr>node_id := i, node_kind := KindTabs, node_panels := [key]\<rparr>)
            (l\<lparr>dl_next := dl_next l + 1\<rparr>)))"

definition relink :: "dock_id \<Rightarrow> dock_id \<Rightarrow> 'f dock_node \<Rightarrow> 'f dock_node" where
  "relink old_child new_child p =
     (if node_first p = old_child then p\<lparr>node_first := new_child\<rparr>
      else p\<lparr>node_second := new_child\<rparr>)"

definition replace_child :: "dock_id \<Rightarrow> dock_id \<Rightarrow> dock_id \<Rightarrow> ('f, 'r) dock_layout
    \<Rightarrow> ('f, 'r) dock_layout" where
  "replace_child parent old_child new_child l =
     with_node new_child (node_parent_update (\<lambda>_. parent))
       (if parent = kNoDockNode then
          (if dl_root l = old_child then l\<lparr>dl_root := new_child\<rparr>
           else l\<lparr>dl_floats := map (\<lambda>f. if float_root f = old_child
                    then f\<lparr>float_root := new_child\<rparr> else f) (dl_floats l)\<rparr>)
        else with_node parent (relink old_child new_child) l)"

text \<open>\<open>take\<close>: whether the key was there, the split that collapsed and its survivor, the layout.\<close>

definition delete_at :: "nat \<Rightarrow> 'a list \<Rightarrow> 'a list" where
  "delete_at i xs = List.take i xs @ drop (Suc i) xs"

definition insert_at :: "nat \<Rightarrow> 'a \<Rightarrow> 'a list \<Rightarrow> 'a list" where
  "insert_at i x xs = List.take i xs @ x # drop i xs"

definition close_tab :: "nat \<Rightarrow> 'f dock_node \<Rightarrow> 'f dock_node" where
  "close_tab i n =
     (let ps = delete_at i (node_panels n) in
      n\<lparr>node_panels := ps,
        node_active := (if ps \<noteq> [] \<and> (i < node_active n \<or> length ps \<le> node_active n)
          then node_active n - 1 else node_active n)\<rparr>)"

definition take_panel :: "string \<Rightarrow> ('f, 'r) dock_layout
    \<Rightarrow> bool \<times> dock_id \<times> dock_id \<times> ('f, 'r) dock_layout" where
  "take_panel key l =
     (case find_panel l key of None \<Rightarrow> (False, kNoDockNode, kNoDockNode, l)
      | Some p \<Rightarrow>
          (let i = place_stack p; l1 = with_node i (close_tab (place_index p)) l in
           case node l1 i of None \<Rightarrow> (False, kNoDockNode, kNoDockNode, l)
           | Some stack \<Rightarrow>
               if node_panels stack \<noteq> [] then (True, kNoDockNode, kNoDockNode, l1)
               else
                 (let parent = node_parent stack; l2 = erase_node i l1 in
                  if parent = kNoDockNode then
                    (True, kNoDockNode, kNoDockNode,
                     if dl_root l2 = i then l2\<lparr>dl_root := kNoDockNode\<rparr>
                     else l2\<lparr>dl_floats := filter (\<lambda>f. float_root f \<noteq> i) (dl_floats l2)\<rparr>)
                  else
                    (case node l2 parent of None \<Rightarrow> (True, kNoDockNode, kNoDockNode, l2)
                     | Some split \<Rightarrow>
                         (let other = (if node_first split = i then node_second split
                            else node_first split) in
                          (True, parent, other,
                           erase_node parent (replace_child (node_parent split) parent other l2)))))))"

definition new_split :: "'f float_arith \<Rightarrow> dock_id \<Rightarrow> dock_zone \<Rightarrow> dock_id \<Rightarrow> dock_id
    \<Rightarrow> 'f dock_node" where
  "new_split F i zone subtree dest = (new_node F)\<lparr>node_id := i, node_kind := KindSplit,
     node_axis := axis_for zone,
     node_first := (if goes_first zone then subtree else dest),
     node_second := (if goes_first zone then dest else subtree)\<rparr>"

definition insert_subtree :: "'f float_arith \<Rightarrow> dock_id \<Rightarrow> dock_target \<Rightarrow> ('f, 'r) dock_layout
    \<Rightarrow> bool \<times> ('f, 'r) dock_layout" where
  "insert_subtree F subtree target l =
     (if target_node target = kNoDockNode \<and> dl_root l = kNoDockNode then
        (True, with_node subtree (node_parent_update (\<lambda>_. kNoDockNode)) (l\<lparr>dl_root := subtree\<rparr>))
      else if target_zone target = ZoneCenter then (False, l)
      else
        (let dest = (if target_node target = kNoDockNode then dl_root l else target_node target) in
         case node l dest of None \<Rightarrow> (False, l)
         | Some n \<Rightarrow>
             (let split_id = dl_next l;
                  l1 = emplace_node split_id (new_split F split_id (target_zone target) subtree dest)
                         (l\<lparr>dl_next := dl_next l + 1\<rparr>);
                  l2 = replace_child (node_parent n) dest split_id l1;
                  l3 = with_node dest (node_parent_update (\<lambda>_. split_id)) l2
              in (True, with_node subtree (node_parent_update (\<lambda>_. split_id)) l3))))"

definition center_stack :: "('f, 'r) dock_layout \<Rightarrow> dock_target \<Rightarrow> dock_id" where
  "center_stack l target =
     (let dest = (if target_node target = kNoDockNode then dl_root l else target_node target) in
      case node l dest of None \<Rightarrow> kNoDockNode
      | Some n \<Rightarrow> if node_kind n = KindTabs then dest else kNoDockNode)"

text \<open>
  \<open>erase_subtree\<close> erases the nodes below a node and the node. It ends on trees; on splits in a cycle it
  would not, so it is a partial function.
\<close>

partial_function (option) erase_subtree :: "dock_id \<Rightarrow> ('f, 'r) dock_layout
    \<Rightarrow> ('f, 'r) dock_layout option" where
  "erase_subtree i l =
     (case node l i of None \<Rightarrow> Some l
      | Some n \<Rightarrow>
          if node_kind n = KindSplit then
            Option.bind (erase_subtree (node_first n) l) (\<lambda>l1.
            Option.bind (erase_subtree (node_second n) l1) (\<lambda>l2. Some (erase_node i l2)))
          else Some (erase_node i l))"

subsection \<open>The operations\<close>

definition target_lost :: "('f, 'r) dock_layout \<Rightarrow> dock_target \<Rightarrow> bool" where
  "target_lost l target \<longleftrightarrow>
     target_node target \<noteq> kNoDockNode \<and> node l (target_node target) = None"

definition fills_root :: "('f, 'r) dock_layout \<Rightarrow> dock_target \<Rightarrow> bool" where
  "fills_root l target \<longleftrightarrow> target_node target = kNoDockNode \<and> dl_root l = kNoDockNode"

definition add_panel :: "'f float_arith \<Rightarrow> string \<Rightarrow> dock_target \<Rightarrow> ('f, 'r) dock_layout
    \<Rightarrow> bool \<times> ('f, 'r) dock_layout" where
  "add_panel F key target l =
     (if key = [] \<or> contains_panel l key \<or> target_lost l target then (False, l)
      else if target_zone target = ZoneCenter \<and> \<not> fills_root l target then
        (let stack = center_stack l target in
         if stack = kNoDockNode then (False, l)
         else (True, with_node stack (\<lambda>n. n\<lparr>node_panels := node_panels n @ [key],
                 node_active := length (node_panels n @ [key]) - 1\<rparr>) l))
      else
        (let (stack, l1) = make_stack F key l; (ok, l2) = insert_subtree F stack target l1 in
         if ok then (True, l2) else (False, l)))"

definition remove_panel :: "string \<Rightarrow> ('f, 'r) dock_layout \<Rightarrow> bool \<times> ('f, 'r) dock_layout" where
  "remove_panel key l = (let (ok, collapsed, survivor, l1) = take_panel key l in (ok, l1))"

definition alone_in :: "('f, 'r) dock_layout \<Rightarrow> dock_id \<Rightarrow> bool" where
  "alone_in l i = (case node l i of None \<Rightarrow> False | Some n \<Rightarrow> length (node_panels n) = 1)"

definition move_panel :: "'f float_arith \<Rightarrow> string \<Rightarrow> dock_target \<Rightarrow> ('f, 'r) dock_layout
    \<Rightarrow> bool \<times> ('f, 'r) dock_layout" where
  "move_panel F key target l =
     (case find_panel l key of None \<Rightarrow> (False, l)
      | Some p \<Rightarrow>
          if target_lost l target then (False, l)
          else
            (let alone = alone_in l (place_stack p);
                 dest = (if target_node target = kNoDockNode then dl_root l else target_node target)
             in if dest = place_stack p \<and> (alone \<or> target_zone target = ZoneCenter) then (False, l)
                else
                  (let (took, collapsed, survivor, l1) = take_panel key l;
                       target1 = (if target_node target \<noteq> kNoDockNode \<and> target_node target = collapsed
                                  then target\<lparr>target_node := survivor\<rparr> else target);
                       (ok, l2) = add_panel F key target1 l1
                   in if ok then (True, l2) else (False, l))))"

fun with_float :: "dock_id \<Rightarrow> ('r dock_float \<Rightarrow> 'r dock_float) \<Rightarrow> 'r dock_float list
    \<Rightarrow> 'r dock_float list" where
  "with_float fid f [] = []"
| "with_float fid f (x # xs) = (if float_id x = fid then f x # xs else x # with_float fid f xs)"

fun drop_float :: "dock_id \<Rightarrow> 'r dock_float list \<Rightarrow> 'r dock_float list" where
  "drop_float fid [] = []"
| "drop_float fid (x # xs) = (if float_id x = fid then xs else x # drop_float fid xs)"

definition set_float_rect :: "dock_id \<Rightarrow> 'r \<Rightarrow> ('f, 'r) dock_layout
    \<Rightarrow> bool \<times> ('f, 'r) dock_layout" where
  "set_float_rect fid rect l =
     (case find_float l fid of None \<Rightarrow> (False, l)
      | Some _ \<Rightarrow> (True, l\<lparr>dl_floats := with_float fid (float_rect_update (\<lambda>_. rect)) (dl_floats l)\<rparr>))"

definition raise_float :: "dock_id \<Rightarrow> ('f, 'r) dock_layout \<Rightarrow> bool \<times> ('f, 'r) dock_layout" where
  "raise_float fid l =
     (case find_float l fid of None \<Rightarrow> (False, l)
      | Some f \<Rightarrow> (True, l\<lparr>dl_floats := drop_float fid (dl_floats l) @ [f]\<rparr>))"

definition fills_float :: "('f, 'r) dock_layout \<Rightarrow> panel_place \<Rightarrow> bool" where
  "fills_float l p \<longleftrightarrow>
     place_float p \<noteq> kNoDockNode \<and>
     (case find_float l (place_float p) of None \<Rightarrow> False | Some f \<Rightarrow> float_root f = place_stack p) \<and>
     alone_in l (place_stack p)"

definition float_panel :: "'f float_arith \<Rightarrow> string \<Rightarrow> 'r \<Rightarrow> ('f, 'r) dock_layout
    \<Rightarrow> bool \<times> ('f, 'r) dock_layout" where
  "float_panel F key rect l =
     (case find_panel l key of None \<Rightarrow> (False, l)
      | Some p \<Rightarrow>
          if fills_float l p then
            (True, snd (raise_float (place_float p) (snd (set_float_rect (place_float p) rect l))))
          else
            (let (took, collapsed, survivor, l1) = take_panel key l;
                 (stack, l2) = make_stack F key l1
             in (True, l2\<lparr>dl_next := dl_next l2 + 1,
                   dl_floats := dl_floats l2
                     @ [\<lparr>float_id = dl_next l2, float_root = stack, float_rect = rect\<rparr>]\<rparr>)))"

definition join_stacks :: "'f dock_node \<Rightarrow> 'f dock_node \<Rightarrow> 'f dock_node" where
  "join_stacks source n = n\<lparr>node_active := length (node_panels n) + node_active source,
     node_panels := node_panels n @ node_panels source\<rparr>"

definition dock_float_at :: "'f float_arith \<Rightarrow> dock_id \<Rightarrow> dock_target \<Rightarrow> ('f, 'r) dock_layout
    \<Rightarrow> bool \<times> ('f, 'r) dock_layout" where
  "dock_float_at F fid target l =
     (case find_float l fid of None \<Rightarrow> (False, l)
      | Some f \<Rightarrow>
          if target_lost l target
             \<or> target_node target \<noteq> kNoDockNode \<and> float_of l (target_node target) = fid
          then (False, l)
          else
            (let subtree = float_root f;
                 l1 = l\<lparr>dl_floats := filter (\<lambda>x. float_id x \<noteq> fid) (dl_floats l)\<rparr>
             in if target_zone target = ZoneCenter \<and> \<not> fills_root l1 target then
                  (let stack = center_stack l1 target in
                   case node l1 subtree of None \<Rightarrow> (False, l)
                   | Some source \<Rightarrow>
                       if stack = kNoDockNode \<or> node_kind source \<noteq> KindTabs then (False, l)
                       else (True, erase_node subtree (with_node stack (join_stacks source) l1)))
                else
                  (let (ok, l2) = insert_subtree F subtree target l1 in
                   if ok then (True, l2) else (False, l))))"

definition activate_panel :: "string \<Rightarrow> ('f, 'r) dock_layout \<Rightarrow> bool \<times> ('f, 'r) dock_layout" where
  "activate_panel key l =
     (case find_panel l key of None \<Rightarrow> (False, l)
      | Some p \<Rightarrow> (True, with_node (place_stack p) (node_active_update (\<lambda>_. place_index p)) l))"

definition reorder_tabs :: "nat \<Rightarrow> nat \<Rightarrow> 'f dock_node \<Rightarrow> 'f dock_node" where
  "reorder_tabs from index n =
     (let active = node_panels n ! node_active n; moved = node_panels n ! from;
          rest = delete_at from (node_panels n);
          ps = insert_at (min index (length rest)) moved rest
      in n\<lparr>node_panels := ps, node_active := index_of active ps\<rparr>)"

definition reorder_panel :: "string \<Rightarrow> nat \<Rightarrow> ('f, 'r) dock_layout
    \<Rightarrow> bool \<times> ('f, 'r) dock_layout" where
  "reorder_panel key index l =
     (case find_panel l key of None \<Rightarrow> (False, l)
      | Some p \<Rightarrow> (True, with_node (place_stack p) (reorder_tabs (place_index p) index) l))"

definition f_isnan :: "'f float_arith \<Rightarrow> 'f \<Rightarrow> bool" where
  "f_isnan F x \<longleftrightarrow> \<not> f_eq F x x"

definition set_ratio :: "'f float_arith \<Rightarrow> dock_id \<Rightarrow> 'f \<Rightarrow> ('f, 'r) dock_layout
    \<Rightarrow> bool \<times> ('f, 'r) dock_layout" where
  "set_ratio F split ratio l =
     (case node l split of None \<Rightarrow> (False, l)
      | Some n \<Rightarrow>
          if node_kind n \<noteq> KindSplit \<or> f_isnan F ratio then (False, l)
          else (True, with_node split (node_ratio_update
                 (\<lambda>_. f_clamp F ratio (kDockRatioMin F) (kDockRatioMax F))) l))"

subsection \<open>The check of a layout\<close>

fun claim_keys :: "string list \<Rightarrow> string set \<Rightarrow> string set option" where
  "claim_keys [] keys = Some keys"
| "claim_keys (key # rest) keys =
     (if key = [] \<or> key \<in> keys then None else claim_keys rest (insert key keys))"

definition bad_ratio :: "'f float_arith \<Rightarrow> 'f \<Rightarrow> bool" where
  "bad_ratio F x \<longleftrightarrow> f_isnan F x \<or> f_less F x (kDockRatioMin F) \<or> f_less F (kDockRatioMax F) x"

text \<open>
  \<open>walk\<close> of \<open>valid\<close>: the ids and the keys seen so far go along, None is false. A walk ends because
  a node is seen once.
\<close>

function dock_walk :: "'f float_arith \<Rightarrow> ('f, 'r) dock_layout \<Rightarrow> (dock_id \<times> dock_id) list
    \<Rightarrow> dock_id set \<Rightarrow> string set \<Rightarrow> (dock_id set \<times> string set) option" where
  "dock_walk F l [] seen keys = Some (seen, keys)"
| "dock_walk F l ((i, parent) # pending) seen keys =
     (case node l i of None \<Rightarrow> None
      | Some n \<Rightarrow>
          if node_parent n \<noteq> parent \<or> i \<in> seen then None
          else if node_kind n = KindTabs then
            (if node_panels n = [] \<or> length (node_panels n) \<le> node_active n then None
             else (case claim_keys (node_panels n) keys of None \<Rightarrow> None
               | Some keys1 \<Rightarrow> dock_walk F l pending (insert i seen) keys1))
          else
            (if bad_ratio F (node_ratio n) \<or> node_first n = kNoDockNode
                \<or> node_second n = kNoDockNode then None
             else dock_walk F l ((node_second n, i) # (node_first n, i) # pending)
                    (insert i seen) keys))"
  by pat_completeness auto

lemma unseen_less:
  "node l i = Some n \<Longrightarrow> i \<notin> seen
   \<Longrightarrow> card (fst ` set (dl_nodes l) - insert i seen) < card (fst ` set (dl_nodes l) - seen)"
proof (rule psubset_card_mono)
  assume "node l i = Some n" and new: "i \<notin> seen"
  then have "i \<in> fst ` set (dl_nodes l)" by (force simp: node_def dest: map_of_SomeD)
  with new show "fst ` set (dl_nodes l) - insert i seen \<subset> fst ` set (dl_nodes l) - seen" by blast
qed simp

termination dock_walk
  by (relation "measure (\<lambda>(F, l, pending, seen, keys). card (fst ` set (dl_nodes l) - seen))")
    (auto simp: unseen_less)

fun walk_floats :: "'f float_arith \<Rightarrow> ('f, 'r) dock_layout \<Rightarrow> 'r dock_float list
    \<Rightarrow> dock_id set \<Rightarrow> dock_id set \<Rightarrow> string set \<Rightarrow> (dock_id set \<times> string set) option" where
  "walk_floats F l [] float_ids seen keys = Some (seen, keys)"
| "walk_floats F l (f # fs) float_ids seen keys =
     (if float_id f = kNoDockNode \<or> dl_next l \<le> float_id f \<or> node l (float_id f) \<noteq> None
         \<or> float_id f \<in> float_ids \<or> float_root f = kNoDockNode then None
      else (case dock_walk F l [(float_root f, kNoDockNode)] seen keys of None \<Rightarrow> None
        | Some (seen1, keys1) \<Rightarrow> walk_floats F l fs (insert (float_id f) float_ids) seen1 keys1))"

definition dock_valid :: "'f float_arith \<Rightarrow> ('f, 'r) dock_layout \<Rightarrow> bool" where
  "dock_valid F l \<longleftrightarrow>
     (\<forall>(i, n) \<in> set (dl_nodes l). i \<noteq> kNoDockNode \<and> i = node_id n \<and> i < dl_next l) \<and>
     (case (if dl_root l \<noteq> kNoDockNode then dock_walk F l [(dl_root l, kNoDockNode)] {} {}
            else Some ({}, {})) of
        None \<Rightarrow> False
      | Some (seen, keys) \<Rightarrow>
          (case walk_floats F l (dl_floats l) {} seen keys of None \<Rightarrow> False
           | Some (seen1, keys1) \<Rightarrow> card seen1 = length (dl_nodes l)))"

definition from_parts :: "'f float_arith \<Rightarrow> (dock_id \<times> 'f dock_node) list \<Rightarrow> dock_id
    \<Rightarrow> 'r dock_float list \<Rightarrow> dock_id \<Rightarrow> ('f, 'r) dock_layout option" where
  "from_parts F nodes root_id floats next_id =
     (let l = \<lparr>dl_root = root_id, dl_nodes = nodes, dl_floats = floats, dl_next = next_id\<rparr> in
      if dock_valid F l then Some l else None)"

end
