(* ===== verification/Dock_Tree.thy ===== *)
theory Dock_Tree
  imports Dock_Layout "HOL-Library.Multiset"
begin

section \<open>Dock trees\<close>

text \<open>
  What a dock layout stands for: trees of splits with tab stacks at their leaves. \<open>shape N p t\<close> says
  that a map \<open>N\<close> from ids to nodes holds the tree \<open>t\<close>, with the node at its top a child of \<open>p\<close>. The
  lemmas say what is left of a shape when nodes outside the tree change, when its top gets another
  parent, and when the subtree at an id is replaced, which is how every operation works on the nodes.
\<close>

datatype 'f dtree =
    Stack dock_id "string list" nat
  | Split dock_id dock_axis 'f "'f dtree" "'f dtree"

primrec top_id :: "'f dtree \<Rightarrow> dock_id" where
  "top_id (Stack i ps a) = i"
| "top_id (Split i ax r x y) = i"

primrec tree_ids :: "'f dtree \<Rightarrow> dock_id list" where
  "tree_ids (Stack i ps a) = [i]"
| "tree_ids (Split i ax r x y) = i # tree_ids x @ tree_ids y"

primrec tree_keys :: "'f dtree \<Rightarrow> string list" where
  "tree_keys (Stack i ps a) = ps"
| "tree_keys (Split i ax r x y) = tree_keys x @ tree_keys y"

primrec tree_stacks :: "'f dtree \<Rightarrow> dock_id list" where
  "tree_stacks (Stack i ps a) = [i]"
| "tree_stacks (Split i ax r x y) = tree_stacks x @ tree_stacks y"

fun sub_at :: "dock_id \<Rightarrow> 'f dtree \<Rightarrow> 'f dtree option" where
  "sub_at i (Stack j ps a) = (if i = j then Some (Stack j ps a) else None)"
| "sub_at i (Split j ax r x y) =
     (if i = j then Some (Split j ax r x y)
      else case sub_at i x of Some s \<Rightarrow> Some s | None \<Rightarrow> sub_at i y)"

fun put_at :: "dock_id \<Rightarrow> 'f dtree \<Rightarrow> 'f dtree \<Rightarrow> 'f dtree" where
  "put_at i u (Stack j ps a) = (if i = j then u else Stack j ps a)"
| "put_at i u (Split j ax r x y) =
     (if i = j then u else Split j ax r (put_at i u x) (put_at i u y))"

fun tree_ok :: "'f float_arith \<Rightarrow> 'f dtree \<Rightarrow> bool" where
  "tree_ok F (Stack i ps a) \<longleftrightarrow> a < length ps"
| "tree_ok F (Split i ax r x y) \<longleftrightarrow> \<not> bad_ratio F r \<and> tree_ok F x \<and> tree_ok F y"

fun holds :: "'f dock_node option \<Rightarrow> dock_id \<Rightarrow> 'f dtree \<Rightarrow> bool" where
  "holds None p t \<longleftrightarrow> False"
| "holds (Some n) p (Stack i ps a) \<longleftrightarrow> node_id n = i \<and> node_parent n = p
     \<and> node_kind n = KindTabs \<and> node_panels n = ps \<and> node_active n = a"
| "holds (Some n) p (Split i ax r x y) \<longleftrightarrow> node_id n = i \<and> node_parent n = p
     \<and> node_kind n = KindSplit \<and> node_axis n = ax \<and> node_ratio n = r
     \<and> node_first n = top_id x \<and> node_second n = top_id y"

primrec shape :: "(dock_id \<Rightarrow> 'f dock_node option) \<Rightarrow> dock_id \<Rightarrow> 'f dtree \<Rightarrow> bool" where
  "shape N p (Stack i ps a) \<longleftrightarrow> holds (N i) p (Stack i ps a)"
| "shape N p (Split i ax r x y) \<longleftrightarrow> holds (N i) p (Split i ax r x y) \<and> shape N i x \<and> shape N i y"

lemma holdsE:
  assumes "holds no p t"
  obtains n where "no = Some n" "node_id n = top_id t" "node_parent n = p"
  using assms by (cases "(no, p, t)" rule: holds.cases) auto

lemma top_in_ids [simp]: "top_id t \<in> set (tree_ids t)"
  by (cases t) auto

lemma shape_top: "shape N p t \<Longrightarrow> holds (N (top_id t)) p t"
  by (cases t) auto

lemma shape_node:
  assumes "shape N p t" and "i \<in> set (tree_ids t)"
  obtains n where "N i = Some n" "node_id n = i"
  using assms
  by (induction t arbitrary: p thesis) (auto elim: holdsE)

lemma shape_cong: "(\<And>i. i \<in> set (tree_ids t) \<Longrightarrow> N i = M i) \<Longrightarrow> shape N p t \<longleftrightarrow> shape M p t"
  by (induction t arbitrary: p) auto

lemma holds_reparent:
  "holds no p t \<Longrightarrow> holds (map_option (node_parent_update (\<lambda>_. q)) no) q t"
  by (cases "(no, p, t)" rule: holds.cases) auto

lemma shape_reparent:
  assumes "shape N p t" and "distinct (tree_ids t)"
    and "M (top_id t) = map_option (node_parent_update (\<lambda>_. q)) (N (top_id t))"
    and "\<And>i. i \<in> set (tree_ids t) \<Longrightarrow> i \<noteq> top_id t \<Longrightarrow> M i = N i"
  shows "shape M q t"
proof (cases t)
  case (Stack i ps a)
  with assms show ?thesis using holds_reparent [of "N i" p t q] by simp
next
  case (Split i ax r x y)
  have "shape M i x \<longleftrightarrow> shape N i x" "shape M i y \<longleftrightarrow> shape N i y"
    by (rule shape_cong, use assms(2,4) Split in force)+
  with assms(1,3) Split show ?thesis using holds_reparent [of "N i" p t q] by simp
qed

subsection \<open>The subtree at an id\<close>

lemma sub_at_None [simp]: "i \<notin> set (tree_ids t) \<Longrightarrow> sub_at i t = None"
  by (induction t) auto

lemma put_at_None [simp]: "i \<notin> set (tree_ids t) \<Longrightarrow> put_at i u t = t"
  by (induction t) auto

lemma sub_at_in: "sub_at i t = None \<longleftrightarrow> i \<notin> set (tree_ids t)"
  by (induction t) (auto split: option.splits)

lemma sub_at_SomeD: "sub_at i t = Some s \<Longrightarrow> i \<in> set (tree_ids t)"
  using sub_at_in [of i t] by (cases "i \<in> set (tree_ids t)") auto

lemma sub_at_top [simp]: "sub_at (top_id t) t = Some t"
  by (cases t) auto

lemma sub_at_sub:
  "sub_at i t = Some s \<Longrightarrow> top_id s = i \<and> set (tree_ids s) \<subseteq> set (tree_ids t)
     \<and> set (tree_keys s) \<subseteq> set (tree_keys t)"
  by (induction t) (auto split: if_splits option.splits)

lemma sub_at_distinct: "sub_at i t = Some s \<Longrightarrow> distinct (tree_ids t) \<Longrightarrow> distinct (tree_ids s)"
  by (induction t) (auto split: if_splits option.splits)

lemma put_at_top: "top_id (put_at i u t) = (if i = top_id t then top_id u else top_id t)"
  by (cases t) auto

lemma put_at_ok: "tree_ok F t \<Longrightarrow> tree_ok F u \<Longrightarrow> tree_ok F (put_at i u t)"
  by (induction t) auto

lemma sub_at_ok: "sub_at i t = Some s \<Longrightarrow> tree_ok F t \<Longrightarrow> tree_ok F s"
  by (induction t) (auto split: if_splits option.splits)

lemma put_at_mset:
  assumes "sub_at i t = Some s" and "distinct (tree_ids t)"
  shows "mset (tree_ids (put_at i u t)) + mset (tree_ids s) = mset (tree_ids t) + mset (tree_ids u)"
    and "mset (tree_keys (put_at i u t)) + mset (tree_keys s) = mset (tree_keys t) + mset (tree_keys u)"
proof -
  have "mset (tree_ids (put_at i u t)) + mset (tree_ids s) = mset (tree_ids t) + mset (tree_ids u) \<and>
      mset (tree_keys (put_at i u t)) + mset (tree_keys s) = mset (tree_keys t) + mset (tree_keys u)"
    using assms
  proof (induction t)
    case (Stack j ps a)
    then show ?case by (auto split: if_splits)
  next
    case (Split j ax r x y)
    show ?case
    proof (cases "i = j")
      case True
      then have "s = Split j ax r x y" using Split.prems by simp
      with True show ?thesis by (simp add: ac_simps)
    next
      case False
      show ?thesis
      proof (cases "sub_at i x")
        case None
        then have "put_at i u x = x" by (simp add: sub_at_in)
        with None False Split show ?thesis by (simp add: ac_simps)
      next
        case (Some s')
        then have "i \<in> set (tree_ids x)" by (rule sub_at_SomeD)
        then have "put_at i u y = y" using Split.prems(2) by (intro put_at_None) auto
        with Some False Split show ?thesis by (simp add: ac_simps)
      qed
    qed
  qed
  then show "mset (tree_ids (put_at i u t)) + mset (tree_ids s) = mset (tree_ids t) + mset (tree_ids u)"
    and "mset (tree_keys (put_at i u t)) + mset (tree_keys s) = mset (tree_keys t) + mset (tree_keys u)"
    by simp_all
qed

lemma shape_sub_ex:
  "shape N p t \<Longrightarrow> sub_at i t = Some s \<Longrightarrow> distinct (tree_ids t)
   \<Longrightarrow> \<exists>q. shape N q s \<and> (if i = top_id t then q = p else q \<in> set (tree_ids t) - set (tree_ids s))"
proof (induction t arbitrary: p)
  case (Stack j ps a)
  then show ?case by (auto split: if_splits)
next
  case (Split j ax r x y)
  show ?case
  proof (cases "i = j")
    case True
    with Split.prems show ?thesis by auto
  next
    case False
    from False Split.prems consider "sub_at i x = Some s" | "sub_at i y = Some s"
      by (auto split: option.splits)
    then obtain z where z: "z = x \<or> z = y" "sub_at i z = Some s" by blast
    have "shape N j z" "distinct (tree_ids z)" "j \<notin> set (tree_ids z)" using z(1) Split.prems by auto
    then obtain q where "shape N q s" "if i = top_id z then q = j else q \<in> set (tree_ids z) - set (tree_ids s)"
      using Split.IH z by metis
    with False z show ?thesis
      using \<open>j \<notin> set (tree_ids z)\<close> sub_at_sub [OF z(2)] by (auto intro!: exI [of _ q] split: if_splits)
  qed
qed

text \<open>
  The parent of the node at \<open>i\<close> points to the top of \<open>u\<close> instead, \<open>u\<close> is in place below that parent,
  and nothing else of the tree has changed: the map holds the tree with \<open>u\<close> at \<open>i\<close>.
\<close>

lemma shape_parent: "shape N p t \<Longrightarrow> shape N q t \<Longrightarrow> p = q"
  by (cases t) (auto elim!: holdsE)

lemma shape_put:
  assumes "shape N p t" and "distinct (tree_ids t)" and "sub_at i t = Some s" and "shape N q s"
    and "\<And>j. j \<in> set (tree_ids t) \<Longrightarrow> j \<notin> set (tree_ids s) \<Longrightarrow> j \<noteq> q \<Longrightarrow> M j = N j"
    and "i \<noteq> top_id t \<Longrightarrow>
      M q = (if top_id u = i then N q else map_option (relink i (top_id u)) (N q))"
    and "shape M q u"
  shows "shape M p (put_at i u t)"
  using assms
proof (induction t arbitrary: p)
  case (Stack j ps a)
  then show ?case by (auto split: if_splits elim!: holdsE)
next
  case (Split j ax r x y)
  show ?case
  proof (cases "i = j")
    case True
    then have "q = p" using Split.prems(1,3,4) by (auto elim!: holdsE)
    with True Split.prems(7) show ?thesis by simp
  next
    case False
    have shapes: "shape N j x" "shape N j y" and parts: "distinct (tree_ids x)" "distinct (tree_ids y)"
      and apart: "j \<notin> set (tree_ids x)" "j \<notin> set (tree_ids y)"
        "set (tree_ids x) \<inter> set (tree_ids y) = {}"
      using Split.prems(1,2) by auto
    have top: "top_id x \<noteq> top_id y" using apart(3) top_in_ids [of x] top_in_ids [of y] by (metis IntI empty_iff)
    have below: "if i = top_id z then q = j else q \<in> set (tree_ids z) - set (tree_ids s)"
      if "z = x \<or> z = y" "sub_at i z = Some s" for z
      using shape_sub_ex [of N j z i s] that shapes parts shape_parent Split.prems(4) by metis
    from False Split.prems(3) consider (x) "sub_at i x = Some s" | (y) "sub_at i x = None" "sub_at i y = Some s"
      by (auto split: option.splits)
    then show ?thesis
    proof cases
      case x
      have q: "q = j \<or> q \<in> set (tree_ids x)" and i: "i \<in> set (tree_ids x)"
        using below [OF _ x] sub_at_SomeD [OF x] by (auto split: if_splits)
      have y: "shape M j y \<longleftrightarrow> shape N j y"
        by (rule shape_cong, rule Split.prems(5)) (use apart q sub_at_sub [OF x] in auto)
      have "shape M j (put_at i u x)"
        using Split.IH(1) [OF shapes(1) parts(1) x Split.prems(4)] Split.prems(5-7) False by auto
      moreover have "holds (M j) p (Split j ax r (put_at i u x) y)"
      proof (cases "i = top_id x")
        case True
        then show ?thesis
          using below [OF _ x] Split.prems(1,6) False
          by (cases "N j") (auto simp: relink_def put_at_top)
      next
        case False
        then have "M j = N j"
          using below [OF _ x] sub_at_sub [OF x] apart by (intro Split.prems(5)) auto
        with False Split.prems(1) show ?thesis by (cases "N j") (auto simp: put_at_top)
      qed
      moreover have "put_at i u y = y" using i apart(3) by (intro put_at_None) auto
      ultimately show ?thesis using y shapes \<open>i \<noteq> j\<close> by simp
    next
      case y
      have q: "q = j \<or> q \<in> set (tree_ids y)" and i: "i \<in> set (tree_ids y)"
        using below [OF _ y(2)] sub_at_SomeD [OF y(2)] by (auto split: if_splits)
      have x: "shape M j x \<longleftrightarrow> shape N j x"
        by (rule shape_cong, rule Split.prems(5)) (use apart q sub_at_sub [OF y(2)] in auto)
      have "shape M j (put_at i u y)"
        using Split.IH(2) [OF shapes(2) parts(2) y(2) Split.prems(4)] Split.prems(5-7) False by auto
      moreover have "holds (M j) p (Split j ax r x (put_at i u y))"
      proof (cases "i = top_id y")
        case True
        then show ?thesis
          using below [OF _ y(2)] Split.prems(1,6) False top
          by (cases "N j") (auto simp: relink_def put_at_top)
      next
        case False
        then have "M j = N j"
          using below [OF _ y(2)] sub_at_sub [OF y(2)] apart by (intro Split.prems(5)) auto
        with False Split.prems(1) show ?thesis by (cases "N j") (auto simp: put_at_top)
      qed
      ultimately show ?thesis using x shapes i apart y(1) \<open>i \<noteq> j\<close> by (auto simp: sub_at_in)
    qed
  qed
qed

end
