(* ===== verification/Dock_Spec.thy ===== *)
theory Dock_Spec
  imports Dock_Tree
begin

section \<open>What a dock layout stands for\<close>

text \<open>
  The abstract layout: one docked tree or none, the floating trees bottom to top, and the id counter,
  which the specification keeps because the layout gives ids out. \<open>rep l A W\<close> says that the layout
  \<open>l\<close> holds the trees of \<open>A\<close> and, between the steps of an operation, the detached trees \<open>W\<close>, and no
  other node; \<open>wf F A W\<close> are the invariants. \<open>wf_step\<close> is the one place where the invariants of a new
  layout are derived from those of an old one: all it needs is which ids and keys are gone or new.
\<close>

record ('f, 'r) dock_spec =
  ds_root :: "'f dtree option"
  ds_floats :: "(dock_id \<times> 'f dtree \<times> 'r) list"
  ds_next :: dock_id

definition ds_trees :: "('f, 'r) dock_spec \<Rightarrow> 'f dtree list" where
  "ds_trees A = (case ds_root A of None \<Rightarrow> [] | Some t \<Rightarrow> [t]) @ map (fst \<circ> snd) (ds_floats A)"

abbreviation forest_ids :: "'f dtree list \<Rightarrow> dock_id list" where
  "forest_ids ts \<equiv> concat (map tree_ids ts)"

abbreviation forest_keys :: "'f dtree list \<Rightarrow> string list" where
  "forest_keys ts \<equiv> concat (map tree_keys ts)"

fun forest_sub :: "dock_id \<Rightarrow> 'f dtree list \<Rightarrow> 'f dtree option" where
  "forest_sub i [] = None"
| "forest_sub i (t # ts) = (case sub_at i t of None \<Rightarrow> forest_sub i ts | Some s \<Rightarrow> Some s)"

definition ds_put :: "dock_id \<Rightarrow> 'f dtree \<Rightarrow> ('f, 'r) dock_spec \<Rightarrow> ('f, 'r) dock_spec" where
  "ds_put i u A = A\<lparr>ds_root := map_option (put_at i u) (ds_root A),
     ds_floats := map (\<lambda>(j, t, r). (j, put_at i u t, r)) (ds_floats A)\<rparr>"

definition all_ids :: "('f, 'r) dock_spec \<Rightarrow> 'f dtree list \<Rightarrow> dock_id list" where
  "all_ids A W = forest_ids (ds_trees A) @ forest_ids W @ map fst (ds_floats A)"

definition all_keys :: "('f, 'r) dock_spec \<Rightarrow> 'f dtree list \<Rightarrow> string list" where
  "all_keys A W = forest_keys (ds_trees A) @ forest_keys W"

definition abs_float :: "dock_id \<times> 'f dtree \<times> 'r \<Rightarrow> 'r dock_float" where
  "abs_float = (\<lambda>(j, t, r). \<lparr>float_id = j, float_root = top_id t, float_rect = r\<rparr>)"

definition root_top :: "'f dtree option \<Rightarrow> dock_id" where
  "root_top ot = (case ot of None \<Rightarrow> kNoDockNode | Some t \<Rightarrow> top_id t)"

definition rep :: "('f, 'r) dock_layout \<Rightarrow> ('f, 'r) dock_spec \<Rightarrow> 'f dtree list \<Rightarrow> bool" where
  "rep l A W \<longleftrightarrow> om_ok (dl_nodes l) \<and> dl_next l = ds_next A
     \<and> dl_root l = root_top (ds_root A) \<and> dl_floats l = map abs_float (ds_floats A)
     \<and> (\<forall>t \<in> set (ds_trees A). shape (node l) kNoDockNode t)
     \<and> (\<forall>t \<in> set W. \<exists>p. shape (node l) p t)
     \<and> dom (node l) = set (forest_ids (ds_trees A @ W))"

definition wf :: "'f float_arith \<Rightarrow> ('f, 'r) dock_spec \<Rightarrow> 'f dtree list \<Rightarrow> bool" where
  "wf F A W \<longleftrightarrow> distinct (all_ids A W) \<and> (\<forall>i \<in> set (all_ids A W). i \<noteq> kNoDockNode \<and> i < ds_next A)
     \<and> distinct (all_keys A W) \<and> [] \<notin> set (all_keys A W)
     \<and> (\<forall>t \<in> set (ds_trees A @ W). tree_ok F t)"

lemma repI:
  assumes "om_ok (dl_nodes l)" and "dl_next l = ds_next A" and "dl_root l = root_top (ds_root A)"
    and "dl_floats l = map abs_float (ds_floats A)"
    and "\<And>t. t \<in> set (ds_trees A) \<Longrightarrow> shape (node l) kNoDockNode t"
    and "\<And>t. t \<in> set W \<Longrightarrow> \<exists>p. shape (node l) p t"
    and "dom (node l) = set (forest_ids (ds_trees A @ W))"
  shows "rep l A W"
  using assms by (auto simp: rep_def)

lemma repD:
  assumes "rep l A W"
  shows "om_ok (dl_nodes l)" "dl_next l = ds_next A" "dl_root l = root_top (ds_root A)"
    "dl_floats l = map abs_float (ds_floats A)"
    "t \<in> set (ds_trees A) \<Longrightarrow> shape (node l) kNoDockNode t"
    "dom (node l) = set (forest_ids (ds_trees A @ W))"
  using assms by (auto simp: rep_def)

lemma wfD:
  assumes "wf F A W"
  shows "distinct (forest_ids (ds_trees A))" "distinct (forest_ids (ds_trees A @ W))"
    "i \<in> set (all_ids A W) \<Longrightarrow> i \<noteq> kNoDockNode \<and> i < ds_next A"
    "distinct (all_keys A W)" "[] \<notin> set (all_keys A W)"
    "t \<in> set (ds_trees A @ W) \<Longrightarrow> tree_ok F t" "distinct (all_ids A W)"
  using assms by (auto simp: wf_def all_ids_def)

lemma distinct_submset: "mset xs \<subseteq># mset ys \<Longrightarrow> distinct ys \<Longrightarrow> distinct xs"
  by (metis distinct_append ex_mset mset_append mset_eq_imp_distinct_iff subset_mset.le_iff_add)

lemma wf_step:
  assumes wf: "wf F A W"
    and ids: "mset (all_ids B V) \<subseteq># mset (new @ all_ids A W)"
    and new: "distinct new" "\<And>i. i \<in> set new \<Longrightarrow> \<not> i < ds_next A \<and> i \<noteq> kNoDockNode \<and> i < ds_next B"
    and step: "ds_next A \<le> ds_next B"
    and keys: "mset (all_keys B V) \<subseteq># mset (nk @ all_keys A W)"
    and nk: "distinct nk" "set nk \<inter> set (all_keys A W) = {}" "[] \<notin> set nk"
    and trees: "\<And>t. t \<in> set (ds_trees B @ V) \<Longrightarrow> tree_ok F t"
  shows "wf F B V"
  unfolding wf_def
proof (intro conjI)
  have "distinct (new @ all_ids A W)" using new wfD [OF wf] by force
  then show "distinct (all_ids B V)" by (rule distinct_submset [OF ids])
  have "distinct (nk @ all_keys A W)" using nk wfD [OF wf] by simp
  then show "distinct (all_keys B V)" by (rule distinct_submset [OF keys])
  have "set (all_ids B V) \<subseteq> set new \<union> set (all_ids A W)"
    using set_mset_mono [OF ids] by simp
  then show "\<forall>i \<in> set (all_ids B V). i \<noteq> kNoDockNode \<and> i < ds_next B"
    using new(2) wfD(3) [OF wf] step order_less_le_trans by blast
  have "set (all_keys B V) \<subseteq> set nk \<union> set (all_keys A W)"
    using set_mset_mono [OF keys] by simp
  then show "[] \<notin> set (all_keys B V)" using nk(3) wfD(5) [OF wf] by blast
  show "\<forall>t \<in> set (ds_trees B @ V). tree_ok F t" using trees by blast
qed

subsection \<open>Trees in a forest\<close>

lemma forest_sub_Some:
  "forest_sub i ts = Some s \<Longrightarrow> \<exists>t \<in> set ts. sub_at i t = Some s"
  by (induction ts) (auto split: option.splits)

lemma forest_sub_None: "forest_sub i ts = None \<longleftrightarrow> i \<notin> set (forest_ids ts)"
  by (induction ts) (auto simp: sub_at_in dest: sub_at_SomeD split: option.splits)

lemma forest_put_mset:
  assumes "forest_sub i ts = Some s" and "distinct (forest_ids ts)"
  shows "mset (forest_ids (map (put_at i u) ts)) + mset (tree_ids s)
       = mset (forest_ids ts) + mset (tree_ids u)"
    and "mset (forest_keys (map (put_at i u) ts)) + mset (tree_keys s)
       = mset (forest_keys ts) + mset (tree_keys u)"
proof -
  have "mset (forest_ids (map (put_at i u) ts)) + mset (tree_ids s)
       = mset (forest_ids ts) + mset (tree_ids u)
    \<and> mset (forest_keys (map (put_at i u) ts)) + mset (tree_keys s)
       = mset (forest_keys ts) + mset (tree_keys u)"
    using assms
  proof (induction ts)
    case Nil
    then show ?case by simp
  next
    case (Cons t ts)
    show ?case
    proof (cases "sub_at i t")
      case None
      then have "put_at i u t = t" by (simp add: sub_at_in)
      with None Cons show ?thesis by (simp add: ac_simps)
    next
      case (Some s')
      have "map (put_at i u) ts = ts"
        using sub_at_SomeD [OF Some] Cons.prems(2) by (intro map_idI put_at_None) auto
      with Some Cons.prems put_at_mset [of i t s u] show ?thesis by (simp add: ac_simps)
    qed
  qed
  then show "mset (forest_ids (map (put_at i u) ts)) + mset (tree_ids s)
       = mset (forest_ids ts) + mset (tree_ids u)"
    and "mset (forest_keys (map (put_at i u) ts)) + mset (tree_keys s)
       = mset (forest_keys ts) + mset (tree_keys u)" by simp_all
qed

lemma ds_trees_put [simp]: "ds_trees (ds_put i u A) = map (put_at i u) (ds_trees A)"
  by (auto simp: ds_trees_def ds_put_def split: option.splits)

lemma ds_put_sel [simp]:
  "map fst (ds_floats (ds_put i u A)) = map fst (ds_floats A)" "ds_next (ds_put i u A) = ds_next A"
  by (auto simp: ds_put_def)

lemma ds_next_update_sel [simp]:
  "ds_trees (ds_next_update f A) = ds_trees A" "all_ids (ds_next_update f A) W = all_ids A W"
  "all_keys (ds_next_update f A) W = all_keys A W"
  by (auto simp: ds_trees_def all_ids_def all_keys_def)

lemma float_tree: "(j, t, r) \<in> set (ds_floats A) \<Longrightarrow> t \<in> set (ds_trees A)"
  by (force simp: ds_trees_def)

lemma root_tree: "ds_root A = Some t \<Longrightarrow> t \<in> set (ds_trees A)"
  by (simp add: ds_trees_def)

text \<open>The subtree at an id of a well-formed layout, with its parent.\<close>

lemma rep_sub:
  assumes rep: "rep l A W" and ids: "distinct (forest_ids (ds_trees A))"
    and sub: "forest_sub i (ds_trees A) = Some s"
  obtains t n where "t \<in> set (ds_trees A)" "sub_at i t = Some s" "node l i = Some n"
    "shape (node l) (node_parent n) s"
    "if i = top_id t then node_parent n = kNoDockNode
     else node_parent n \<in> set (tree_ids t) - set (tree_ids s)"
proof -
  obtain t where t: "t \<in> set (ds_trees A)" "sub_at i t = Some s"
    using forest_sub_Some [OF sub] by blast
  have "distinct (tree_ids t)" using ids t(1) by (simp add: distinct_concat_iff)
  then obtain q where q: "shape (node l) q s"
    "if i = top_id t then q = kNoDockNode else q \<in> set (tree_ids t) - set (tree_ids s)"
    using shape_sub_ex [OF repD(5) [OF rep t(1)] t(2)] by blast
  obtain n where "node l i = Some n" "node_parent n = q"
    using shape_top [OF q(1)] sub_at_sub [OF t(2)] by (auto elim: holdsE)
  with t q that show thesis by metis
qed

lemma rep_sub_node:
  assumes "rep l A W" and "wf F A W" and "forest_sub i (ds_trees A) = Some s" and n: "node l i = Some n"
  obtains t where "t \<in> set (ds_trees A)" "sub_at i t = Some s" "shape (node l) (node_parent n) s"
    "if i = top_id t then node_parent n = kNoDockNode
     else node_parent n \<in> set (tree_ids t) - set (tree_ids s)"
proof (rule rep_sub [OF assms(1) wfD(1) [OF assms(2)] assms(3)])
  fix t m
  assume t: "t \<in> set (ds_trees A)" "sub_at i t = Some s" and m: "node l i = Some m"
    "shape (node l) (node_parent m) s"
    "if i = top_id t then node_parent m = kNoDockNode
     else node_parent m \<in> set (tree_ids t) - set (tree_ids s)"
  have "m = n" using m(1) n by simp
  with t m that show thesis by blast
qed

lemma forest_apart:
  "distinct (forest_ids ts) \<Longrightarrow> t \<in> set ts \<Longrightarrow> t' \<in> set ts \<Longrightarrow> t \<noteq> t'
   \<Longrightarrow> set (tree_ids t) \<inter> set (tree_ids t') = {}"
  by (induction ts) auto

lemma shape_put_forest:
  assumes rep: "rep l A W" and wf: "wf F A W"
    and sub: "forest_sub i (ds_trees A) = Some s" and n: "node l i = Some n" and q: "q = node_parent n"
    and frame: "\<And>j. j \<in> set (forest_ids (ds_trees A)) \<Longrightarrow> j \<notin> set (tree_ids s) \<Longrightarrow> j \<noteq> q
      \<Longrightarrow> M j = node l j"
    and link: "q \<noteq> kNoDockNode \<Longrightarrow>
      M q = (if top_id u = i then node l q else map_option (relink i (top_id u)) (node l q))"
    and u: "shape M q u"
    and t: "t \<in> set (ds_trees A)"
  shows "shape M kNoDockNode (put_at i u t)"
proof -
  have ids: "distinct (forest_ids (ds_trees A))" by (rule wfD [OF wf])
  obtain t' where t': "t' \<in> set (ds_trees A)" "sub_at i t' = Some s" "shape (node l) q s"
    "if i = top_id t' then q = kNoDockNode else q \<in> set (tree_ids t') - set (tree_ids s)"
    using rep_sub_node [OF rep wf sub n] unfolding q by blast
  show ?thesis
  proof (cases "t = t'")
    case True
    show ?thesis unfolding True
    proof (rule shape_put [OF repD(5) [OF rep t'(1)] _ t'(2,3) _ _ u])
      show "distinct (tree_ids t')" using ids t'(1) by (simp add: distinct_concat_iff)
      show "M j = node l j" if "j \<in> set (tree_ids t')" "j \<notin> set (tree_ids s)" "j \<noteq> q" for j
        using that t'(1) by (intro frame) auto
      have "q \<noteq> kNoDockNode" if "i \<noteq> top_id t'"
      proof -
        have "q \<in> set (all_ids A W)" using that t'(1,4) by (auto simp: all_ids_def)
        then show ?thesis using wfD(3) [OF wf] by blast
      qed
      then show "M q = (if top_id u = i then node l q else map_option (relink i (top_id u)) (node l q))"
        if "i \<noteq> top_id t'"
        using that link by blast
    qed
  next
    case False
    have apart: "set (tree_ids t) \<inter> set (tree_ids t') = {}"
      by (rule forest_apart [OF ids t t'(1) False])
    have i: "i \<notin> set (tree_ids t)" using apart sub_at_SomeD [OF t'(2)] by blast
    have "j \<notin> set (tree_ids s) \<and> j \<noteq> q" if j: "j \<in> set (tree_ids t)" for j
    proof -
      have "j \<in> set (all_ids A W)" using j t by (auto simp: all_ids_def)
      then have "j \<noteq> kNoDockNode" using wfD(3) [OF wf] by blast
      then show ?thesis using j apart t'(4) sub_at_sub [OF t'(2)] by (auto split: if_splits)
    qed
    then have "shape M kNoDockNode t \<longleftrightarrow> shape (node l) kNoDockNode t"
      using t by (intro shape_cong frame) auto
    with i repD(5) [OF rep t] show ?thesis by simp
  qed
qed

lemma wf_root: "wf F A W \<Longrightarrow> root_top (ds_root A) = kNoDockNode \<longleftrightarrow> ds_root A = None"
  using wfD(3) [of F A W "root_top (ds_root A)"]
  by (cases "ds_root A") (auto simp: root_top_def all_ids_def ds_trees_def)

lemma rep_put:
  assumes rep: "rep l A W" and wf: "wf F A W"
    and sub: "forest_sub i (ds_trees A) = Some s" and n: "node l i = Some n" and q: "q = node_parent n"
    and frame: "\<And>j. j \<in> set (forest_ids (ds_trees A)) \<Longrightarrow> j \<notin> set (tree_ids s) \<Longrightarrow> j \<noteq> q
      \<Longrightarrow> node m j = node l j"
    and link: "q \<noteq> kNoDockNode \<Longrightarrow>
      node m q = (if top_id u = i then node l q else map_option (relink i (top_id u)) (node l q))"
    and u: "shape (node m) q u"
    and ok: "om_ok (dl_nodes m)"
    and root: "dl_root m = (if dl_root l = i then top_id u else dl_root l)"
    and floats: "dl_floats m = map (\<lambda>f. if float_root f = i then f\<lparr>float_root := top_id u\<rparr> else f) (dl_floats l)"
    and dom: "dom (node m) = set (forest_ids (map (put_at i u) (ds_trees A) @ V))"
    and V: "\<And>t. t \<in> set V \<Longrightarrow> \<exists>p. shape (node m) p t"
  shows "rep m (ds_put i u A\<lparr>ds_next := dl_next m\<rparr>) V"
proof (rule repI)
  have "i \<in> set (forest_ids (ds_trees A))" using sub forest_sub_None [of i "ds_trees A"] by auto
  then have "i \<in> set (all_ids A W)" by (simp add: all_ids_def)
  then have i: "i \<noteq> kNoDockNode" using wfD(3) [OF wf] by blast
  show "dl_root m = root_top (ds_root (ds_put i u A\<lparr>ds_next := dl_next m\<rparr>))"
    using root repD(3) [OF rep] i by (cases "ds_root A") (auto simp: root_top_def ds_put_def put_at_top)
  show "dl_floats m = map abs_float (ds_floats (ds_put i u A\<lparr>ds_next := dl_next m\<rparr>))"
    using floats repD(4) [OF rep] by (auto simp: ds_put_def abs_float_def put_at_top)
  show "shape (node m) kNoDockNode t" if "t \<in> set (ds_trees (ds_put i u A\<lparr>ds_next := dl_next m\<rparr>))" for t
    using that shape_put_forest [OF rep wf sub n q frame link u] by auto
qed (use assms in auto)

end
