(* ===== verification/Dock_Steps.thy ===== *)
theory Dock_Steps
  imports Dock_Spec
begin

section \<open>The steps of the dock operations on trees\<close>

text \<open>
  What each step of the code does to the map of nodes, as an updated function, and from these the
  steps on trees: a node changed in place, a panel in a new detached stack, a detached subtree put at
  a side of a node.
\<close>

lemma layout_update_sel [simp]:
  "node (dl_root_update f l) = node l" "node (dl_floats_update g l) = node l"
  "node (dl_next_update h l) = node l"
  by (auto simp: node_def fun_eq_iff)

lemma with_node_sel [simp]:
  "dl_root (with_node i f l) = dl_root l" "dl_floats (with_node i f l) = dl_floats l"
  "dl_next (with_node i f l) = dl_next l"
  "om_ok (dl_nodes l) \<Longrightarrow> om_ok (dl_nodes (with_node i f l))"
  "om_ok (dl_nodes l) \<Longrightarrow> node (with_node i f l) = (node l)(i := map_option f (node l i))"
  by (auto simp: with_node_def om_put_ok fun_eq_iff split: option.splits)
    (auto simp: node_def om_put_get)

lemma emplace_node_sel [simp]:
  "dl_root (emplace_node i n l) = dl_root l" "dl_floats (emplace_node i n l) = dl_floats l"
  "dl_next (emplace_node i n l) = dl_next l"
  "om_ok (dl_nodes l) \<Longrightarrow> om_ok (dl_nodes (emplace_node i n l))"
  "om_ok (dl_nodes l) \<Longrightarrow> node l i = None \<Longrightarrow> node (emplace_node i n l) = (node l)(i \<mapsto> n)"
  by (auto simp: emplace_node_def om_put_ok fun_eq_iff split: option.splits)
    (auto simp: node_def om_put_get)

lemma erase_node_sel [simp]:
  "dl_root (erase_node i l) = dl_root l" "dl_floats (erase_node i l) = dl_floats l"
  "dl_next (erase_node i l) = dl_next l"
  "om_ok (dl_nodes l) \<Longrightarrow> om_ok (dl_nodes (erase_node i l))"
  "om_ok (dl_nodes l) \<Longrightarrow> node (erase_node i l) = (node l)(i := None)"
  by (auto simp: erase_node_def om_del_ok fun_eq_iff) (auto simp: node_def om_del_get)

lemma replace_child_sel [simp]:
  "dl_next (replace_child p old new l) = dl_next l"
  "om_ok (dl_nodes l) \<Longrightarrow> om_ok (dl_nodes (replace_child p old new l))"
  "om_ok (dl_nodes l) \<Longrightarrow> node (replace_child p old new l) =
     (let N = (if p = kNoDockNode then node l
        else (node l)(p := map_option (relink old new) (node l p)))
      in N(new := map_option (node_parent_update (\<lambda>_. p)) (N new)))"
  by (auto simp: replace_child_def Let_def)

lemma replace_child_ends:
  "dl_root (replace_child p old new l) =
     (if p = kNoDockNode \<and> dl_root l = old then new else dl_root l)"
  "dl_floats (replace_child p old new l) =
     (if p = kNoDockNode \<and> dl_root l \<noteq> old
      then map (\<lambda>f. if float_root f = old then f\<lparr>float_root := new\<rparr> else f) (dl_floats l)
      else dl_floats l)"
  by (auto simp: replace_child_def)

text \<open>
  Whether the id is the top of the docked tree, of a float or of neither, the docked root and the
  roots of the floats are what an unconditional replacement would give.
\<close>

lemma forest_top_float:
  assumes ids: "distinct (forest_ids (ds_trees A))" and root: "ds_root A = Some t"
    and f: "(j, t', r) \<in> set (ds_floats A)"
  shows "top_id t' \<noteq> top_id t"
proof -
  have "top_id t' \<in> set (forest_ids (map (fst \<circ> snd) (ds_floats A)))" using f by force
  moreover have "top_id t \<notin> set (forest_ids (map (fst \<circ> snd) (ds_floats A)))"
    using ids root top_in_ids [of t] unfolding ds_trees_def by (simp, blast)
  ultimately show ?thesis by metis
qed

lemma replace_child_root:
  assumes rep: "rep l A W" and wf: "wf F A W" and t: "t \<in> set (ds_trees A)" "sub_at i t = Some s"
    and p: "if i = top_id t then p = kNoDockNode else p \<noteq> kNoDockNode"
    and m: "dl_root m = dl_root l" "dl_floats m = dl_floats l"
  shows "dl_root (replace_child p i new m) = (if dl_root l = i then new else dl_root l)"
    and "dl_floats (replace_child p i new m) =
      map (\<lambda>f. if float_root f = i then f\<lparr>float_root := new\<rparr> else f) (dl_floats l)"
proof -
  have ids: "distinct (forest_ids (ds_trees A))" by (rule wfD [OF wf])
  have tops: "t' = t" if "t' \<in> set (ds_trees A)" "top_id t' = i" for t'
    using forest_apart [OF ids that(1) t(1)] that(2) sub_at_SomeD [OF t(2)] top_in_ids [of t'] by blast
  have i: "i \<noteq> kNoDockNode"
    using wfD(3) [OF wf, of i] t sub_at_SomeD by (force simp: all_ids_def)
  show "dl_root (replace_child p i new m) = (if dl_root l = i then new else dl_root l)"
    using tops [of "the (ds_root A)"] p i m repD(3) [OF rep]
    by (cases "ds_root A") (auto simp: replace_child_ends root_top_def root_tree split: if_splits)
  have "dl_floats l = map (\<lambda>f. if float_root f = i then f\<lparr>float_root := new\<rparr> else f) (dl_floats l)"
    if "p \<noteq> kNoDockNode \<or> dl_root l = i"
  proof (rule map_idI [symmetric])
    fix f assume "f \<in> set (dl_floats l)"
    then obtain j t' r where f: "(j, t', r) \<in> set (ds_floats A)" "float_root f = top_id t'"
      using repD(4) [OF rep] by (auto simp: abs_float_def)
    have "top_id t' \<noteq> i"
    proof
      assume top: "top_id t' = i"
      then have "t' = t" using tops float_tree [OF f(1)] by blast
      then have "p = kNoDockNode" using p top by auto
      then have "root_top (ds_root A) = i" using that repD(3) [OF rep] by auto
      then obtain t2 where "ds_root A = Some t2" "top_id t2 = i"
        using i by (cases "ds_root A") (auto simp: root_top_def)
      then show False using forest_top_float [OF ids _ f(1)] top by auto
    qed
    with f(2) show "(if float_root f = i then f\<lparr>float_root := new\<rparr> else f) = f" by simp
  qed
  then show "dl_floats (replace_child p i new m) =
      map (\<lambda>f. if float_root f = i then f\<lparr>float_root := new\<rparr> else f) (dl_floats l)"
    using m by (auto simp: replace_child_ends)
qed

lemma rep_node:
  assumes "rep l A W" and "i \<in> set (forest_ids (ds_trees A @ W))"
  obtains n where "node l i = Some n"
  using assms repD(6) [OF assms(1)] by blast

lemma detached_shape:
  assumes "rep l A W" and "t \<in> set W"
  obtains p where "shape (node l) p t"
  using assms by (auto simp: rep_def)

lemma wf_nonzero: "wf F A W \<Longrightarrow> i \<in> set (forest_ids (ds_trees A @ W)) \<Longrightarrow> i \<noteq> kNoDockNode"
  using wfD(3) [of F A W i] by (auto simp: all_ids_def)

text \<open>A node changed in place: the tree at its id changes, with the same ids.\<close>

lemma rep_in_place:
  assumes rep: "rep l A W" and wf: "wf F A W"
    and sub: "forest_sub i (ds_trees A) = Some s" and n: "node l i = Some n"
    and u: "mset (tree_ids u) = mset (tree_ids s)" "top_id u = i"
      "shape ((node l)(i \<mapsto> f n)) (node_parent n) u"
  shows "rep (with_node i f l) (ds_put i u A) W"
proof -
  have ok: "om_ok (dl_nodes l)" by (rule repD [OF rep])
  obtain t where t: "t \<in> set (ds_trees A)" "sub_at i t = Some s"
    "if i = top_id t then node_parent n = kNoDockNode
     else node_parent n \<in> set (tree_ids t) - set (tree_ids s)"
    by (rule rep_sub_node [OF rep wf sub n]) (rule that)
  have i: "i \<in> set (forest_ids (ds_trees A))" "i \<in> set (tree_ids s)"
    using t sub_at_SomeD sub_at_sub [OF t(2)] top_in_ids [of s] by fastforce+
  then have up: "node_parent n \<noteq> i" using t(3) wf_nonzero [OF wf, of i] by (auto split: if_splits)
  have "rep (with_node i f l) (ds_put i u A\<lparr>ds_next := dl_next (with_node i f l)\<rparr>) W"
  proof (rule rep_put [OF rep wf sub n refl])
    have "mset (forest_ids (map (put_at i u) (ds_trees A))) = mset (forest_ids (ds_trees A))"
      using forest_put_mset(1) [OF sub wfD(1) [OF wf], of u] u(1) by simp
    then have "set (forest_ids (map (put_at i u) (ds_trees A))) = set (forest_ids (ds_trees A))"
      by (rule mset_eq_setD)
    then show "dom (node (with_node i f l)) = set (forest_ids (map (put_at i u) (ds_trees A) @ W))"
      using repD(6) [OF rep] n ok by (auto simp: insert_absorb)
    show "\<exists>p. shape (node (with_node i f l)) p t" if tW: "t \<in> set W" for t
    proof -
      obtain p where "shape (node l) p t" using detached_shape [OF rep tW] by blast
      moreover have "i \<notin> set (tree_ids t)" using i tW wfD(2) [OF wf] by auto
      ultimately have "shape (node (with_node i f l)) p t"
        using ok by (subst shape_cong [of t _ "node l"]) auto
      then show ?thesis ..
    qed
  qed (use n ok up u i in \<open>auto simp: map_idI\<close>)
  then show ?thesis using repD(2) [OF rep] by (simp add: ds_put_def)
qed

lemma rep_stack:
  assumes "rep l A W" and "wf F A W"
    and "forest_sub i (ds_trees A) = Some (Stack i ps a)" and n: "node l i = Some n"
    and f: "node_id (f n) = node_id n" "node_parent (f n) = node_parent n"
      "node_kind (f n) = node_kind n" "node_panels (f n) = ps'" "node_active (f n) = a'"
  shows "rep (with_node i f l) (ds_put i (Stack i ps' a') A) W"
proof (rule rep_in_place [OF assms(1-4)])
  obtain t :: "'a dtree" where "shape (node l) (node_parent n) (Stack i ps a)"
    by (rule rep_sub_node [OF assms(1-4)])
  then show "shape ((node l)(i \<mapsto> f n)) (node_parent n) (Stack i ps' a')" using f n by simp
qed auto

lemma rep_ratio:
  assumes rep: "rep l A W" and wf: "wf F A W"
    and sub: "forest_sub i (ds_trees A) = Some (Split i ax r x y)" and n: "node l i = Some n"
  shows "rep (with_node i (node_ratio_update (\<lambda>_. r')) l) (ds_put i (Split i ax r' x y) A) W"
proof (rule rep_in_place [OF assms])
  obtain t where t: "t \<in> set (ds_trees A)" "sub_at i t = Some (Split i ax r x y)"
    and sh: "shape (node l) (node_parent n) (Split i ax r x y)"
    by (rule rep_sub_node [OF rep wf sub n])
  have "distinct (tree_ids t)" using wfD(1) [OF wf] t(1) by (simp add: distinct_concat_iff)
  then have ids: "distinct (tree_ids (Split i ax r x y))"
    using t(2) by (rule sub_at_distinct [rotated])
  have "shape ((node l)(i \<mapsto> m)) i x" "shape ((node l)(i \<mapsto> m)) i y" for m
    using sh ids by (subst shape_cong [where M = "node l"]; auto)+
  with sh n show "shape ((node l)(i \<mapsto> n\<lparr>node_ratio := r'\<rparr>)) (node_parent n) (Split i ax r' x y)"
    by simp
qed auto

lemma rep_make_stack:
  assumes rep: "rep l A []" and wf: "wf F A []" and n: "ds_next A \<noteq> kNoDockNode"
  shows "make_stack F key l = (ds_next A, snd (make_stack F key l))"
    and "rep (snd (make_stack F key l)) (A\<lparr>ds_next := ds_next A + 1\<rparr>) [Stack (ds_next A) [key] 0]"
    and "shape (node (snd (make_stack F key l))) kNoDockNode (Stack (ds_next A) [key] 0)"
proof -
  let ?i = "ds_next A"
  have ok: "om_ok (dl_nodes l)" and next_id: "dl_next l = ?i" by (rule repD [OF rep])+
  have new: "?i \<notin> set (forest_ids (ds_trees A))" using wfD(3) [OF wf, of ?i] by (auto simp: all_ids_def)
  then have none: "node l ?i = None" using repD(6) [OF rep] by auto
  show "make_stack F key l = (?i, snd (make_stack F key l))"
    using next_id by (simp add: make_stack_def Let_def)
  have "emplace_node ?i n (l\<lparr>dl_next := ?i + 1\<rparr>) = emplace_node ?i n l\<lparr>dl_next := ?i + 1\<rparr>" for n
    by (simp add: emplace_node_def node_def split: option.splits)
  then have map: "node (snd (make_stack F key l)) = (node l)(?i \<mapsto>
      (new_node F)\<lparr>node_id := ?i, node_kind := KindTabs, node_panels := [key]\<rparr>)"
    using next_id ok none by (simp add: make_stack_def Let_def)
  show "shape (node (snd (make_stack F key l))) kNoDockNode (Stack ?i [key] 0)"
    using map by (simp add: new_node_def)
  show "rep (snd (make_stack F key l)) (A\<lparr>ds_next := ?i + 1\<rparr>) [Stack ?i [key] 0]"
  proof (rule repI)
    show "shape (node (snd (make_stack F key l))) kNoDockNode t"
      if "t \<in> set (ds_trees (A\<lparr>ds_next := ?i + 1\<rparr>))" for t
      using that new repD(5) [OF rep, of t] map
      by (subst shape_cong [where M = "node l"]) auto
    show "\<exists>p. shape (node (snd (make_stack F key l))) p t" if "t \<in> set [Stack ?i [key] 0]" for t
      using that map by (auto simp: new_node_def)
    show "dom (node (snd (make_stack F key l)))
        = set (forest_ids (ds_trees (A\<lparr>ds_next := ?i + 1\<rparr>) @ [Stack ?i [key] 0]))"
      using map repD(6) [OF rep] by auto
  qed (use repD(1-4) [OF rep] in \<open>auto simp: make_stack_def Let_def\<close>)
qed

text \<open>A detached subtree put at a side of the node an id names.\<close>

definition beside :: "'f float_arith \<Rightarrow> dock_id \<Rightarrow> dock_zone \<Rightarrow> 'f dtree \<Rightarrow> 'f dtree \<Rightarrow> 'f dtree" where
  "beside F i zone w s = Split i (axis_for zone) (f_single F (f_frac F 5 10))
     (if goes_first zone then w else s) (if goes_first zone then s else w)"

lemma beside_mset:
  "mset (tree_ids (beside F i zone w s)) = add_mset i (mset (tree_ids w) + mset (tree_ids s))"
  "mset (tree_keys (beside F i zone w s)) = mset (tree_keys w) + mset (tree_keys s)"
  "top_id (beside F i zone w s) = i"
  by (simp_all add: beside_def)

lemma insert_root:
  assumes rep: "rep l A [w]" and wf: "wf F A [w]" and root: "ds_root A = None"
    and target: "target_node target = kNoDockNode"
  shows "insert_subtree F (top_id w) target l = (True, snd (insert_subtree F (top_id w) target l))"
    and "rep (snd (insert_subtree F (top_id w) target l)) (A\<lparr>ds_root := Some w\<rparr>) []"
proof -
  have ok: "om_ok (dl_nodes l)" by (rule repD [OF rep])
  have none: "dl_root l = kNoDockNode" using repD(3) [OF rep] root by (simp add: root_top_def)
  let ?m = "with_node (top_id w) (node_parent_update (\<lambda>_. kNoDockNode)) (l\<lparr>dl_root := top_id w\<rparr>)"
  have eq: "insert_subtree F (top_id w) target l = (True, ?m)"
    using target none by (simp add: insert_subtree_def)
  then show "insert_subtree F (top_id w) target l = (True, snd (insert_subtree F (top_id w) target l))" by simp
  obtain p where w: "shape (node l) p w" by (rule detached_shape [OF rep]) auto
  have okm: "om_ok (dl_nodes (l\<lparr>dl_root := top_id w\<rparr>))" using ok by simp
  have map: "node ?m = (node l)(top_id w := map_option (node_parent_update (\<lambda>_. kNoDockNode)) (node l (top_id w)))"
    using okm by simp
  have ids: "distinct (forest_ids (ds_trees A @ [w]))" by (rule wfD [OF wf])
  have "rep ?m (A\<lparr>ds_root := Some w\<rparr>) []"
  proof (rule repI)
    show "shape (node ?m) kNoDockNode t" if t: "t \<in> set (ds_trees (A\<lparr>ds_root := Some w\<rparr>))" for t
    proof (cases "t = w")
      case True
      show ?thesis unfolding True
        by (rule shape_reparent [OF w]) (use ids map in auto)
    next
      case False
      then have old: "t \<in> set (ds_trees A)" using t root by (auto simp: ds_trees_def)
      have "top_id w \<notin> set (tree_ids t)" using ids old top_in_ids [of w] by auto
      then have "shape (node ?m) kNoDockNode t \<longleftrightarrow> shape (node l) kNoDockNode t"
        by (intro shape_cong) (auto simp: map)
      then show ?thesis using repD(5) [OF rep old] by simp
    qed
    show "dom (node ?m) = set (forest_ids (ds_trees (A\<lparr>ds_root := Some w\<rparr>) @ []))"
      using map repD(6) [OF rep] root top_in_ids [of w] by (auto simp: ds_trees_def split: if_splits)
  qed (use repD(1-4) [OF rep] in \<open>auto simp: root_top_def\<close>)
  then show "rep (snd (insert_subtree F (top_id w) target l)) (A\<lparr>ds_root := Some w\<rparr>) []"
    by (simp add: eq)
qed

lemma upd_chain_dom:
  "N i = Some n \<Longrightarrow> k \<noteq> i \<Longrightarrow> k \<noteq> w \<Longrightarrow> k \<noteq> q \<Longrightarrow>
   dom (N(k \<mapsto> a, i \<mapsto> b, w := map_option f (N w), q := (if z then N q else map_option g (N q))))
   = insert k (dom N)"
  by (auto simp: dom_def fun_upd_apply)

lemma insert_side:
  assumes rep: "rep l A [w]" and wf: "wf F A [w]"
    and room: "ds_next A \<noteq> kNoDockNode"
    and target: "\<not> (target_node target = kNoDockNode \<and> ds_root A = None)" "target_zone target \<noteq> ZoneCenter"
    and i: "i = (if target_node target = kNoDockNode then dl_root l else target_node target)"
    and sub: "forest_sub i (ds_trees A) = Some s"
  shows "insert_subtree F (top_id w) target l = (True, snd (insert_subtree F (top_id w) target l))"
    and "rep (snd (insert_subtree F (top_id w) target l))
      (ds_put i (beside F (ds_next A) (target_zone target) w s) A\<lparr>ds_next := ds_next A + 1\<rparr>) []"
proof -
  let ?k = "ds_next A" and ?u = "beside F (ds_next A) (target_zone target) w s"
  have ok: "om_ok (dl_nodes l)" and next_id: "dl_next l = ?k" by (rule repD [OF rep])+
  have i_in: "i \<in> set (forest_ids (ds_trees A))"
    using sub forest_sub_None [of i "ds_trees A"] by auto
  then obtain n where n: "node l i = Some n" using rep_node [OF rep, of i] by auto
  let ?q = "node_parent n"
  obtain t where t: "t \<in> set (ds_trees A)" "sub_at i t = Some s" "shape (node l) ?q s"
    "if i = top_id t then ?q = kNoDockNode else ?q \<in> set (tree_ids t) - set (tree_ids s)"
    by (rule rep_sub_node [OF rep wf sub n]) (rule that)
  obtain p where w: "shape (node l) p w" by (rule detached_shape [OF rep]) auto
  have ids: "distinct (forest_ids (ds_trees A @ [w]))" by (rule wfD [OF wf])
  have fresh: "?k \<notin> set (forest_ids (ds_trees A @ [w]))"
    using wfD(3) [OF wf, of ?k] by (auto simp: all_ids_def)
  have none: "node l ?k = None" using repD(6) [OF rep] fresh by auto
  have q_in: "?q = kNoDockNode \<or> ?q \<in> set (forest_ids (ds_trees A))"
    using t(1,4) by (auto split: if_splits)
  have zero: "kNoDockNode \<notin> set (forest_ids (ds_trees A @ [w]))"
    using wf_nonzero [OF wf] by blast
  have w_in: "top_id w \<in> set (tree_ids w)" by simp
  have w_out: "top_id w \<notin> set (forest_ids (ds_trees A))" using ids by auto
  have "?q \<noteq> i"
  proof (cases "i = top_id t")
    case True
    then show ?thesis using t(4) i_in zero by auto
  next
    case False
    have "i \<in> set (tree_ids s)" using sub_at_sub [OF t(2)] top_in_ids [of s] by auto
    then show ?thesis using t(4) False by auto
  qed
  moreover have "top_id w \<noteq> kNoDockNode" "top_id w \<noteq> ?k" using zero fresh w_in by fastforce+
  ultimately have apart: "?q \<noteq> i" "?q \<noteq> ?k" "?q \<noteq> top_id w" "i \<noteq> ?k" "i \<noteq> top_id w" "?k \<noteq> top_id w"
    using q_in i_in zero fresh room w_in w_out by auto
  let ?l1 = "emplace_node ?k (new_split F ?k (target_zone target) (top_id w) i) (l\<lparr>dl_next := ?k + 1\<rparr>)"
  let ?l2 = "replace_child ?q i ?k ?l1"
  let ?m = "with_node (top_id w) (node_parent_update (\<lambda>_. ?k)) (with_node i (node_parent_update (\<lambda>_. ?k)) ?l2)"
  have "\<not> (target_node target = kNoDockNode \<and> dl_root l = kNoDockNode)"
    using target(1) wf_root [OF wf] repD(3) [OF rep] by simp
  then have eq: "insert_subtree F (top_id w) target l = (True, ?m)"
    using target(2) n next_id unfolding insert_subtree_def Let_def i [symmetric] by auto
  then show "insert_subtree F (top_id w) target l = (True, snd (insert_subtree F (top_id w) target l))" by simp
  have map: "node ?m = (node l)(?k \<mapsto> (new_split F ?k (target_zone target) (top_id w) i)\<lparr>node_parent := ?q\<rparr>,
      i \<mapsto> n\<lparr>node_parent := ?k\<rparr>, top_id w := map_option (node_parent_update (\<lambda>_. ?k)) (node l (top_id w)),
      ?q := (if ?q = kNoDockNode then node l ?q else map_option (relink i ?k) (node l ?q)))"
    using ok none n apart room by (auto simp: Let_def fun_eq_iff)
  have s_top: "top_id s = i" using sub_at_sub [OF t(2)] by simp
  have s_ids: "distinct (tree_ids s)"
    using sub_at_distinct [OF t(2)] ids t(1) by (auto simp: distinct_concat_iff)
  have s_in: "set (tree_ids s) \<subseteq> set (forest_ids (ds_trees A))"
    using sub_at_sub [OF t(2)] t(1) by auto
  have q_out: "?q \<notin> set (tree_ids s)"
    using t(4) s_in zero by (auto split: if_splits)
  have w_ids: "distinct (tree_ids w)" "set (tree_ids w) \<inter> set (forest_ids (ds_trees A)) = {}"
    using ids by auto
  have out_s: "?k \<notin> set (tree_ids s)" "top_id w \<notin> set (tree_ids s)"
    using s_in fresh w_ids(2) w_in unfolding disjoint_iff set_append map_append concat_append by blast+
  have out_w: "?k \<notin> set (tree_ids w)" "i \<notin> set (tree_ids w)" "?q \<notin> set (tree_ids w)"
    using fresh w_ids(2) i_in q_in zero by auto
  have below: "shape (node ?m) ?k s" "shape (node ?m) ?k w"
    by (rule shape_reparent [OF t(3) s_ids] shape_reparent [OF w w_ids(1)];
        use out_s out_w q_out apart n in \<open>auto simp: map s_top\<close>)+
  have up: "if i = top_id t then ?q = kNoDockNode else ?q \<noteq> kNoDockNode"
  proof (cases "i = top_id t")
    case False
    then have "?q \<in> set (forest_ids (ds_trees A @ [w]))" using t(1,4) by auto
    with False zero show ?thesis by metis
  qed (use t(4) in simp)
  have "rep ?m (ds_put i ?u A\<lparr>ds_next := dl_next ?m\<rparr>) []"
  proof (rule rep_put [OF rep wf sub n refl])
    show "node ?m j = node l j"
      if "j \<in> set (forest_ids (ds_trees A))" "j \<notin> set (tree_ids s)" "j \<noteq> ?q" for j
      using that fresh w_out top_in_ids [of s] by (auto simp: map s_top)
    show "node ?m ?q = (if top_id ?u = i then node l ?q else map_option (relink i (top_id ?u)) (node l ?q))"
      if "?q \<noteq> kNoDockNode"
      using that apart by (simp add: map beside_mset(3))
    show "shape (node ?m) ?q ?u"
    proof -
      have k: "node ?m ?k = Some ((new_split F ?k (target_zone target) (top_id w) i)\<lparr>node_parent := ?q\<rparr>)"
        using apart by (simp add: map)
      have "holds (node ?m ?k) ?q ?u"
        unfolding k by (simp add: beside_def new_split_def new_node_def s_top)
      then show ?thesis
        using below by (cases "goes_first (target_zone target)") (simp_all only: beside_def shape.simps if_True if_False simp_thms)
    qed
    show "om_ok (dl_nodes ?m)" using ok by simp
    show "dl_root ?m = (if dl_root l = i then top_id ?u else dl_root l)"
      and "dl_floats ?m = map (\<lambda>f. if float_root f = i then f\<lparr>float_root := top_id ?u\<rparr> else f) (dl_floats l)"
      using replace_child_root [OF rep wf t(1,2) up, of ?l1 ?k] by (simp_all add: beside_mset(3))
    have "mset (forest_ids (map (put_at i ?u) (ds_trees A)))
        = mset (?k # tree_ids w @ forest_ids (ds_trees A))"
      using forest_put_mset(1) [OF sub wfD(1) [OF wf], of ?u] by (simp add: beside_mset(1))
    then have ids': "set (forest_ids (map (put_at i ?u) (ds_trees A)))
        = set (?k # tree_ids w @ forest_ids (ds_trees A))"
      by (rule mset_eq_setD)
    have "dom (node ?m) = insert ?k (dom (node l))"
      unfolding map by (rule upd_chain_dom [where N = "node l" and i = i and n = n, OF n]) (use apart in simp_all)
    then show "dom (node ?m) = set (forest_ids (map (put_at i ?u) (ds_trees A) @ []))"
      using ids' repD(6) [OF rep] by (simp add: Un_commute)
  qed simp
  then show "rep (snd (insert_subtree F (top_id w) target l)) (ds_put i ?u A\<lparr>ds_next := ?k + 1\<rparr>) []"
    by (simp add: eq)
qed

end
