(* ===== verification/Dock_Take.thy ===== *)
theory Dock_Take
  imports Dock_Steps
begin

section \<open>Taking a panel out\<close>

text \<open>
  Where \<open>find\<close> finds a panel, and \<open>take\<close> as the pruning of a tree: a tab closed in place, a tree that
  was the one panel gone, or a split collapsed onto its other child.
\<close>

subsection \<open>Where a panel is\<close>

lemma tree_key_stack:
  "key \<in> set (tree_keys t) \<Longrightarrow> distinct (tree_ids t)
   \<Longrightarrow> \<exists>i ps a. sub_at i t = Some (Stack i ps a) \<and> key \<in> set ps"
proof (induction t)
  case (Stack i ps a)
  then show ?case by auto
next
  case (Split j ax r x y)
  show ?case
  proof (cases "key \<in> set (tree_keys x)")
    case True
    then obtain i ps a where x: "sub_at i x = Some (Stack i ps a)" "key \<in> set ps"
      using Split by auto
    then have "i \<noteq> j" using sub_at_SomeD [OF x(1)] Split.prems(2) by auto
    with x show ?thesis by auto
  next
    case False
    then obtain i ps a where y: "sub_at i y = Some (Stack i ps a)" "key \<in> set ps"
      using Split by auto
    then have "i \<noteq> j" "i \<notin> set (tree_ids x)" using sub_at_SomeD [OF y(1)] Split.prems(2) by auto
    with y show ?thesis by auto
  qed
qed

lemma forest_sub_in:
  "distinct (forest_ids ts) \<Longrightarrow> t \<in> set ts \<Longrightarrow> sub_at i t = Some s \<Longrightarrow> forest_sub i ts = Some s"
proof (induction ts)
  case (Cons t' ts)
  show ?case
  proof (cases "t = t'")
    case False
    then have "sub_at i t' = None" using Cons.prems sub_at_SomeD [OF Cons.prems(3)] by (intro sub_at_None) auto
    with False Cons show ?thesis by simp
  qed (use Cons in simp)
qed simp

lemma forest_key_stack:
  assumes "key \<in> set (forest_keys ts)" and "distinct (forest_ids ts)"
  obtains i ps a where "forest_sub i ts = Some (Stack i ps a)" "key \<in> set ps"
proof -
  obtain t where t: "t \<in> set ts" "key \<in> set (tree_keys t)" using assms(1) by auto
  have "distinct (tree_ids t)" using assms(2) t(1) by (simp add: distinct_concat_iff)
  then obtain i ps a where "sub_at i t = Some (Stack i ps a)" "key \<in> set ps"
    using tree_key_stack [OF t(2)] by blast
  with forest_sub_in [OF assms(2) t(1)] that show thesis by blast
qed

lemma stack_node:
  assumes rep: "rep l A W" and wf: "wf F A W" and n: "node l i = Some n"
    and sub: "forest_sub i (ds_trees A) = Some s"
  shows "holds (Some n) (node_parent n) s"
proof -
  obtain t where t: "sub_at i t = Some s" "shape (node l) (node_parent n) s"
    by (rule rep_sub_node [OF rep wf sub n])
  show ?thesis using shape_top [OF t(2)] sub_at_sub [OF t(1)] n by simp
qed

lemma find_panel_Some:
  assumes rep: "rep l A []" and wf: "wf F A []" and p: "find_panel l key = Some p"
  obtains ps a n where "forest_sub (place_stack p) (ds_trees A) = Some (Stack (place_stack p) ps a)"
    "key \<in> set ps" "place_index p = index_of key ps" "place_float p = float_of l (place_stack p)"
    "node l (place_stack p) = Some n" "node_panels n = ps" "node_active n = a"
proof -
  obtain i n where first: "find_first (\<lambda>(i, n). node_kind n = KindTabs \<and> key \<in> set (node_panels n))
      (dl_nodes l) = Some (i, n)"
    and p': "p = \<lparr>place_stack = i, place_index = index_of key (node_panels n), place_float = float_of l i\<rparr>"
    using p by (auto simp: find_panel_def split: option.splits)
  have mem: "(i, n) \<in> set (dl_nodes l)" and tabs: "node_kind n = KindTabs" "key \<in> set (node_panels n)"
    using find_first_Some [OF first] by auto
  have n: "node l i = Some n" using mem om_mem [OF repD(1) [OF rep]] by (simp add: node_def)
  then have "i \<in> set (forest_ids (ds_trees A))" using repD(6) [OF rep] by auto
  then obtain s where sub: "forest_sub i (ds_trees A) = Some s"
    using forest_sub_None [of i "ds_trees A"] by (cases "forest_sub i (ds_trees A)") auto
  have "holds (Some n) (node_parent n) s" by (rule stack_node [OF rep wf n sub])
  moreover have "top_id s = i" using forest_sub_Some [OF sub] sub_at_sub by blast
  ultimately have "s = Stack i (node_panels n) (node_active n)" using tabs(1) by (cases s) auto
  with sub tabs n p' that show thesis by simp
qed

lemma find_panel_None:
  assumes rep: "rep l A []" and wf: "wf F A []"
  shows "find_panel l key = None \<longleftrightarrow> key \<notin> set (all_keys A [])"
proof
  assume none: "find_panel l key = None"
  show "key \<notin> set (all_keys A [])"
  proof
    assume "key \<in> set (all_keys A [])"
    then obtain i ps a where sub: "forest_sub i (ds_trees A) = Some (Stack i ps a)" "key \<in> set ps"
      using forest_key_stack [OF _ wfD(1) [OF wf], of key] by (auto simp: all_keys_def)
    then have "i \<in> set (forest_ids (ds_trees A))" using forest_sub_None [of i "ds_trees A"] by auto
    then obtain n where n: "node l i = Some n" using rep_node [OF rep, of i] by auto
    then have "(i, n) \<in> set (dl_nodes l)" using om_mem [OF repD(1) [OF rep]] by (simp add: node_def)
    moreover have "node_kind n = KindTabs" "node_panels n = ps"
      using stack_node [OF rep wf n sub(1)] by auto
    ultimately show False
      using none sub(2) by (auto simp: find_panel_def find_first_None split: option.splits)
  qed
next
  assume "key \<notin> set (all_keys A [])"
  then show "find_panel l key = None"
  proof (rule contrapos_np)
    assume "find_panel l key \<noteq> None"
    then obtain p where "find_panel l key = Some p" by blast
    then obtain i ps a where "forest_sub i (ds_trees A) = Some (Stack i ps a)" "key \<in> set ps"
      using find_panel_Some [OF rep wf] by metis
    then show "key \<in> set (all_keys A [])"
      using forest_sub_Some sub_at_sub by (fastforce simp: all_keys_def)
  qed
qed

subsection \<open>A panel taken out of its tree\<close>

definition close_spec :: "string \<Rightarrow> dock_id \<Rightarrow> string list \<Rightarrow> nat \<Rightarrow> 'f dtree" where
  "close_spec key i ps a =
     (let k = index_of key ps; ps' = delete_at k ps
      in Stack i ps' (if k < a \<or> length ps' \<le> a then a - 1 else a))"

fun prune :: "string \<Rightarrow> 'f dtree \<Rightarrow> 'f dtree option" where
  "prune key (Stack i ps a) =
     (if key \<notin> set ps then Some (Stack i ps a)
      else if length ps = 1 then None else Some (close_spec key i ps a))"
| "prune key (Split i ax r x y) =
     (case (prune key x, prune key y) of
        (None, _) \<Rightarrow> Some y
      | (Some x', None) \<Rightarrow> Some x'
      | (Some x', Some y') \<Rightarrow> Some (Split i ax r x' y'))"

definition ds_prune :: "string \<Rightarrow> ('f, 'r) dock_spec \<Rightarrow> ('f, 'r) dock_spec" where
  "ds_prune key A = A\<lparr>ds_root := Option.bind (ds_root A) (prune key),
     ds_floats := List.map_filter (\<lambda>(j, t, r). map_option (\<lambda>t'. (j, t', r)) (prune key t)) (ds_floats A)\<rparr>"

lemma prune_absent [simp]: "key \<notin> set (tree_keys t) \<Longrightarrow> prune key t = Some t"
  by (induction t) auto

lemma prune_close:
  assumes "sub_at i t = Some (Stack i ps a)" and "key \<in> set ps" and "length ps \<noteq> 1"
    and "distinct (tree_ids t)" and "distinct (tree_keys t)"
  shows "prune key t = Some (put_at i (close_spec key i ps a) t)"
  using assms
proof (induction t)
  case (Stack j qs b)
  then show ?case by (auto split: if_splits)
next
  case (Split j ax r x y)
  have ij: "i \<noteq> j" using Split.prems(1) by (auto split: if_splits)
  show ?case
  proof (cases "sub_at i x")
    case None
    then have y: "sub_at i y = Some (Stack i ps a)" using Split.prems(1) ij by simp
    have "key \<in> set (tree_keys y)" using sub_at_sub [OF y] Split.prems(2) by auto
    then have "key \<notin> set (tree_keys x)" using Split.prems(5) by auto
    moreover have "put_at i u x = x" for u :: "'a dtree" using None by (simp add: sub_at_in)
    ultimately show ?thesis using Split y ij by simp
  next
    case (Some s)
    then have x: "sub_at i x = Some (Stack i ps a)" using Split.prems(1) ij by simp
    have "key \<in> set (tree_keys x)" using sub_at_sub [OF x] Split.prems(2) by auto
    then have "key \<notin> set (tree_keys y)" using Split.prems(5) by auto
    moreover have "put_at i u y = y" for u :: "'a dtree"
      using sub_at_SomeD [OF x] Split.prems(4) by (intro put_at_None) auto
    ultimately show ?thesis using Split x ij by simp
  qed
qed

text \<open>The split that collapses with a panel alone in its stack, and the top of what is left of it.\<close>

fun collapsed :: "string \<Rightarrow> 'f dtree \<Rightarrow> (dock_id \<times> dock_id) option" where
  "collapsed key (Stack i ps a) = None"
| "collapsed key (Split i ax r x y) =
     (if prune key x = None then Some (i, top_id y)
      else if prune key y = None then Some (i, top_id x)
      else case collapsed key x of None \<Rightarrow> collapsed key y | Some c \<Rightarrow> Some c)"

lemma collapsed_absent [simp]: "key \<notin> set (tree_keys t) \<Longrightarrow> collapsed key t = None"
  by (induction t) auto

lemma collapsed_close:
  assumes "sub_at i t = Some (Stack i ps a)" and "key \<in> set ps" and "length ps \<noteq> 1"
    and "distinct (tree_ids t)" and "distinct (tree_keys t)"
  shows "collapsed key t = None"
  using assms
proof (induction t)
  case (Split j ax r x y)
  then have "sub_at i x = Some (Stack i ps a) \<or> sub_at i y = Some (Stack i ps a)"
    by (auto split: if_splits option.splits)
  then obtain z z' where z: "z = x \<and> z' = y \<or> z = y \<and> z' = x" "sub_at i z = Some (Stack i ps a)"
    by blast
  have dist: "distinct (tree_ids z)" "distinct (tree_keys z)" "key \<notin> set (tree_keys z')"
    using z(1) Split.prems(2,4,5) sub_at_sub [OF z(2)] by auto
  then have "prune key z \<noteq> None" using prune_close [OF z(2) Split.prems(2,3)] by simp
  moreover have "collapsed key z = None"
    using z(1) Split.IH(1) [OF _ Split.prems(2,3)] Split.IH(2) [OF _ Split.prems(2,3)] z(2) dist(1,2) by metis
  ultimately show ?case using z(1) dist(3) by auto
qed simp

lemma prune_collapse:
  assumes "sub_at i t = Some (Stack i [key] a)" and "i \<noteq> top_id t"
    and "distinct (tree_ids t)" and "distinct (tree_keys t)"
  obtains q ax r x y u where "sub_at q t = Some (Split q ax r x y)"
    "x = Stack i [key] a \<and> u = y \<or> y = Stack i [key] a \<and> u = x"
    "prune key t = Some (put_at q u t)" "collapsed key t = Some (q, top_id u)"
proof -
  have "\<exists>q ax r x y u. sub_at q t = Some (Split q ax r x y) \<and>
    (x = Stack i [key] a \<and> u = y \<or> y = Stack i [key] a \<and> u = x) \<and>
    prune key t = Some (put_at q u t) \<and> collapsed key t = Some (q, top_id u)"
    using assms
  proof (induction t)
    case (Stack j qs b)
    then show ?case by (auto split: if_splits)
  next
    case (Split j ax r x y)
    have ij: "i \<noteq> j" using Split.prems(2) by simp
    show ?case
    proof (cases "sub_at i x")
      case None
      then have y: "sub_at i y = Some (Stack i [key] a)" using Split.prems(1) ij by simp
      have "key \<in> set (tree_keys y)" using sub_at_sub [OF y] by auto
      then have "key \<notin> set (tree_keys x)" using Split.prems(4) by auto
      then have x: "prune key x = Some x" "collapsed key x = None" by simp_all
      show ?thesis
      proof (cases "i = top_id y")
        case True
        then have "y = Stack i [key] a" using y by simp
        with x show ?thesis
          by (intro exI [of _ j] exI [of _ ax] exI [of _ r] exI [of _ x] exI [of _ y] exI [of _ x]) simp
      next
        case False
        then obtain q ax' r' x' y' u where IH: "sub_at q y = Some (Split q ax' r' x' y')"
          "x' = Stack i [key] a \<and> u = y' \<or> y' = Stack i [key] a \<and> u = x'"
          "prune key y = Some (put_at q u y)" "collapsed key y = Some (q, top_id u)"
          using Split.IH(2) [OF y False] Split.prems(3,4) unfolding tree_ids.simps tree_keys.simps
            distinct.simps distinct_append by blast
        have "q \<noteq> j" "q \<notin> set (tree_ids x)" using sub_at_SomeD [OF IH(1)] Split.prems(3) by auto
        with IH x show ?thesis
          by (intro exI [of _ q] exI [of _ ax'] exI [of _ r'] exI [of _ x'] exI [of _ y'] exI [of _ u]) simp
      qed
    next
      case (Some s)
      then have x: "sub_at i x = Some (Stack i [key] a)" using Split.prems(1) ij by simp
      have "key \<in> set (tree_keys x)" using sub_at_sub [OF x] by auto
      then have y: "prune key y = Some y" using Split.prems(4) by (intro prune_absent) auto
      show ?thesis
      proof (cases "i = top_id x")
        case True
        then have "x = Stack i [key] a" using x by simp
        then show ?thesis
          by (intro exI [of _ j] exI [of _ ax] exI [of _ r] exI [of _ x] exI [of _ y] exI [of _ y]) simp
      next
        case False
        then obtain q ax' r' x' y' u where IH: "sub_at q x = Some (Split q ax' r' x' y')"
          "x' = Stack i [key] a \<and> u = y' \<or> y' = Stack i [key] a \<and> u = x'"
          "prune key x = Some (put_at q u x)" "collapsed key x = Some (q, top_id u)"
          using Split.IH(1) [OF x False] Split.prems(3,4) unfolding tree_ids.simps tree_keys.simps
            distinct.simps distinct_append by blast
        have "q \<noteq> j" "q \<notin> set (tree_ids y)" using sub_at_SomeD [OF IH(1)] Split.prems(3) by auto
        with IH y show ?thesis
          by (intro exI [of _ q] exI [of _ ax'] exI [of _ r'] exI [of _ x'] exI [of _ y'] exI [of _ u]) simp
      qed
    qed
  qed
  with that show thesis by blast
qed

lemma prune_gone: "prune key (Stack i [key] a) = None"
  by simp

lemma map_filter_Some: "(\<And>x. x \<in> set xs \<Longrightarrow> f x = Some (g x)) \<Longrightarrow> List.map_filter f xs = map g xs"
  by (induction xs) (auto simp: List.map_filter_simps)

lemma ds_prune_put:
  assumes "\<And>t. t \<in> set (ds_trees A) \<Longrightarrow> prune key t = Some (put_at i u t)"
  shows "ds_prune key A = ds_put i u A"
proof -
  have "Option.bind (ds_root A) (prune key) = map_option (put_at i u) (ds_root A)"
    using assms root_tree by (cases "ds_root A") auto
  moreover have "List.map_filter (\<lambda>(j, t, r). map_option (\<lambda>t'. (j, t', r)) (prune key t)) (ds_floats A)
      = map (\<lambda>(j, t, r). (j, put_at i u t, r)) (ds_floats A)"
    by (rule map_filter_Some) (use assms float_tree in fastforce)
  ultimately show ?thesis by (simp add: ds_prune_def ds_put_def)
qed

text \<open>Only the tree that holds a panel changes when the panel is taken out.\<close>

lemma forest_keys_apart:
  "distinct (forest_keys ts) \<Longrightarrow> t \<in> set ts \<Longrightarrow> t' \<in> set ts \<Longrightarrow> t \<noteq> t'
   \<Longrightarrow> set (tree_keys t) \<inter> set (tree_keys t') = {}"
  by (induction ts) auto

lemma prune_others:
  assumes wf: "wf F A W" and t: "t \<in> set (ds_trees A)" "t' \<in> set (ds_trees A)" "t' \<noteq> t"
    and key: "key \<in> set (tree_keys t)" and i: "i \<in> set (tree_ids t)"
  shows "prune key t' = Some t'" "put_at i u t' = t'"
proof -
  have "distinct (forest_keys (ds_trees A))" using wfD(4) [OF wf] by (simp add: all_keys_def)
  then have "key \<notin> set (tree_keys t')" using forest_keys_apart t key by blast
  then show "prune key t' = Some t'" by simp
  show "put_at i u t' = t'"
    using forest_apart [OF wfD(1) [OF wf] t(2,1,3)] i by (intro put_at_None) auto
qed

fun forest_collapsed :: "string \<Rightarrow> 'f dtree list \<Rightarrow> (dock_id \<times> dock_id) option" where
  "forest_collapsed key [] = None"
| "forest_collapsed key (t # ts) =
     (case collapsed key t of None \<Rightarrow> forest_collapsed key ts | Some c \<Rightarrow> Some c)"

definition ds_collapsed :: "string \<Rightarrow> ('f, 'r) dock_spec \<Rightarrow> dock_id \<times> dock_id" where
  "ds_collapsed key A = (case forest_collapsed key (ds_trees A) of None \<Rightarrow> (kNoDockNode, kNoDockNode)
     | Some c \<Rightarrow> c)"

lemma forest_collapsed_in:
  "distinct (forest_keys ts) \<Longrightarrow> t \<in> set ts \<Longrightarrow> key \<in> set (tree_keys t)
   \<Longrightarrow> forest_collapsed key ts = collapsed key t"
proof (induction ts)
  case (Cons t' ts)
  show ?case
  proof (cases "t = t'")
    case True
    have "forest_collapsed key ts = None" if "key \<notin> set (forest_keys ts)"
      using that by (induction ts) auto
    with True Cons.prems show ?thesis by (auto split: option.splits)
  next
    case False
    then have "key \<notin> set (tree_keys t')" using Cons.prems by auto
    with False Cons show ?thesis by simp
  qed
qed simp

text \<open>A tab closed in a stack of several.\<close>

lemma take_close:
  fixes l :: "('f, 'r) dock_layout"
  assumes rep: "rep l A []" and wf: "wf F A []" and p: "find_panel l key = Some p"
    and sub: "forest_sub (place_stack p) (ds_trees A) = Some (Stack (place_stack p) ps a)"
    and key: "key \<in> set ps" "place_index p = index_of key ps" and many: "length ps \<noteq> 1"
    and n: "node l (place_stack p) = Some n" "node_panels n = ps" "node_active n = a"
  shows "\<exists>m. take_panel key l = (True, kNoDockNode, kNoDockNode, m) \<and> rep m (ds_prune key A) []
    \<and> ds_collapsed key A = (kNoDockNode, kNoDockNode)"
proof -
  let ?i = "place_stack p" and ?k = "index_of key ps"
  let ?f = "close_tab ?k"
  obtain t where t: "t \<in> set (ds_trees A)" "sub_at ?i t = Some (Stack ?i ps a)"
    using forest_sub_Some [OF sub] by blast
  have ok: "om_ok (dl_nodes l)" by (rule repD [OF rep])
  have keys: "key \<in> set (tree_keys t)" using sub_at_sub [OF t(2)] key(1) by auto
  have dist: "distinct (tree_ids t)" "distinct (tree_keys t)"
    using wfD(1,4) [OF wf] t(1) by (simp_all add: distinct_concat_iff all_keys_def)
  have "ds_prune key A = ds_put ?i (close_spec key ?i ps a) A"
  proof (rule ds_prune_put)
    fix t' assume t': "t' \<in> set (ds_trees A)"
    show "prune key t' = Some (put_at ?i (close_spec key ?i ps a) t')"
      using prune_close [OF t(2) key(1) many dist]
        prune_others [OF wf t(1) t' _ keys sub_at_SomeD [OF t(2)]] by (cases "t' = t") simp_all
  qed
  moreover have "rep (with_node ?i ?f l) (ds_put ?i (close_spec key ?i ps a) A) []"
  proof -
    have k: "?k < length ps" using key(1) by (induction ps) auto
    then have "delete_at ?k ps \<noteq> []" using many by (cases ps) (auto simp: delete_at_def)
    then have "(close_spec key ?i ps a :: 'f dtree) = Stack ?i (node_panels (?f n)) (node_active (?f n))"
      using n(2,3) by (simp add: close_spec_def close_tab_def Let_def)
    moreover have "rep (with_node ?i ?f l) (ds_put ?i (Stack ?i (node_panels (?f n)) (node_active (?f n))) A) []"
      by (rule rep_stack [OF rep wf sub n(1)]) (simp_all add: close_tab_def Let_def)
    ultimately show ?thesis by simp
  qed
  moreover have "ds_collapsed key A = (kNoDockNode, kNoDockNode)"
    using forest_collapsed_in [OF _ t(1) keys] collapsed_close [OF t(2) key(1) many dist] wfD(4) [OF wf]
    by (simp add: ds_collapsed_def all_keys_def)
  moreover have "take_panel key l = (True, kNoDockNode, kNoDockNode, with_node ?i ?f l)"
  proof -
    have "node_panels (?f n) \<noteq> []"
      using many key(1) n(2) by (cases ps) (auto simp: close_tab_def delete_at_def Let_def)
    then show ?thesis using p n(1) ok key(2) by (simp add: take_panel_def Let_def)
  qed
  ultimately show ?thesis by simp
qed

text \<open>A panel alone in a tree of its own: the tree goes.\<close>

definition ds_drop :: "dock_id \<Rightarrow> ('f, 'r) dock_spec \<Rightarrow> ('f, 'r) dock_spec" where
  "ds_drop i A = A\<lparr>ds_root := (if root_top (ds_root A) = i then None else ds_root A),
     ds_floats := filter (\<lambda>f. top_id (fst (snd f)) \<noteq> i) (ds_floats A)\<rparr>"

lemma ds_trees_drop: "i \<noteq> kNoDockNode \<Longrightarrow> ds_trees (ds_drop i A) = filter (\<lambda>t. top_id t \<noteq> i) (ds_trees A)"
  by (cases "ds_root A")
    (auto simp: ds_trees_def ds_drop_def root_top_def filter_map comp_def case_prod_beta)

lemma map_filter_drop:
  "(\<And>x. x \<in> set xs \<Longrightarrow> f x = (if P x then Some x else None)) \<Longrightarrow> List.map_filter f xs = filter P xs"
  by (induction xs) (auto simp: List.map_filter_simps)

lemma drop_ids:
  assumes "distinct (forest_ids ts)" and "Stack i ps a \<in> set ts"
  shows "set (forest_ids (filter (\<lambda>t. top_id t \<noteq> i) ts)) = set (forest_ids ts) - {i}"
proof -
  have "i \<notin> set (tree_ids t)" if "t \<in> set ts" "top_id t \<noteq> i" for t
  proof -
    have "t \<noteq> Stack i ps a" using that(2) by auto
    then show ?thesis using forest_apart [OF assms(1) that(1) assms(2)] by auto
  qed
  moreover have "tree_ids t = [i]" if "t \<in> set ts" "top_id t = i" for t
  proof -
    have "t = Stack i ps a"
      using forest_apart [OF assms(1) that(1) assms(2)] that(2) top_in_ids [of t] by auto
    then show ?thesis by simp
  qed
  ultimately show ?thesis by fastforce
qed

lemma take_last:
  fixes l :: "('f, 'r) dock_layout"
  assumes rep: "rep l A []" and wf: "wf F A []" and p: "find_panel l key = Some p"
    and t: "Stack (place_stack p) [key] a \<in> set (ds_trees A)"
    and idx: "place_index p = 0"
    and n: "node l (place_stack p) = Some n" "node_panels n = [key]"
  shows "\<exists>m. take_panel key l = (True, kNoDockNode, kNoDockNode, m) \<and> rep m (ds_prune key A) []
    \<and> ds_collapsed key A = (kNoDockNode, kNoDockNode)"
proof -
  let ?i = "place_stack p" and ?t = "Stack (place_stack p) [key] a :: 'f dtree"
  have ok: "om_ok (dl_nodes l)" by (rule repD [OF rep])
  have ids: "distinct (forest_ids (ds_trees A))" by (rule wfD [OF wf])
  have i: "?i \<noteq> kNoDockNode" using wf_nonzero [OF wf, of ?i] t by force
  have parent: "node_parent n = kNoDockNode" using repD(5) [OF rep t] n by simp
  have others: "prune key t' = Some t'" if "t' \<in> set (ds_trees A)" "top_id t' \<noteq> ?i" for t'
    by (rule prune_others [OF wf t that(1)]) (use that in auto)
  have same: "t' = ?t" if "t' \<in> set (ds_trees A)" "top_id t' = ?i" for t'
    using forest_apart [OF ids that(1) t] that(2) top_in_ids [of t'] by auto
  have pruned: "prune key t' = (if top_id t' \<noteq> ?i then Some t' else None)" if "t' \<in> set (ds_trees A)" for t'
    using others [OF that] same [OF that] by auto
  have "ds_prune key A = ds_drop ?i A"
  proof -
    have "List.map_filter (\<lambda>(j, t, r). map_option (\<lambda>t'. (j, t', r)) (prune key t)) (ds_floats A)
        = filter (\<lambda>f. top_id (fst (snd f)) \<noteq> ?i) (ds_floats A)"
      by (rule map_filter_drop) (use pruned float_tree in fastforce)
    moreover have "Option.bind (ds_root A) (prune key) = (if root_top (ds_root A) = ?i then None else ds_root A)"
      using pruned [OF root_tree] i by (cases "ds_root A") (auto simp: root_top_def)
    ultimately show ?thesis by (simp add: ds_prune_def ds_drop_def)
  qed
  moreover obtain m where m: "take_panel key l = (True, kNoDockNode, kNoDockNode, m)"
    "node m = (node l)(?i := None)" "om_ok (dl_nodes m)" "dl_next m = dl_next l"
    "dl_root m = (if dl_root l = ?i then kNoDockNode else dl_root l)"
    "dl_floats m = (if dl_root l = ?i then dl_floats l else filter (\<lambda>f. float_root f \<noteq> ?i) (dl_floats l))"
    using p n ok idx parent by (simp add: take_panel_def Let_def close_tab_def delete_at_def)
  moreover have "rep m (ds_drop ?i A) []"
  proof (rule repI)
    show "dl_root m = root_top (ds_root (ds_drop ?i A))"
      using m(5) repD(3) [OF rep] by (auto simp: ds_drop_def root_top_def)
    have "filter (\<lambda>f. top_id (fst (snd f)) \<noteq> ?i) (ds_floats A) = ds_floats A" if here: "dl_root l = ?i"
    proof -
      obtain t' where root: "ds_root A = Some t'" "top_id t' = ?i"
        using here repD(3) [OF rep] i by (cases "ds_root A") (auto simp: root_top_def)
      show ?thesis
        using forest_top_float [OF ids root(1)] root(2) by (auto intro!: filter_True)
    qed
    then show "dl_floats m = map abs_float (ds_floats (ds_drop ?i A))"
      using m(6) repD(4) [OF rep]
      by (auto simp: ds_drop_def filter_map comp_def abs_float_def case_prod_beta)
    show "shape (node m) kNoDockNode t'" if t': "t' \<in> set (ds_trees (ds_drop ?i A))" for t'
    proof -
      have old: "t' \<in> set (ds_trees A)" "top_id t' \<noteq> ?i" using t' ds_trees_drop [OF i, of A] by auto
      have "t' \<noteq> ?t" using old(2) by auto
      then have "?i \<notin> set (tree_ids t')" using forest_apart [OF ids old(1) t] by auto
      then have "shape (node m) kNoDockNode t' \<longleftrightarrow> shape (node l) kNoDockNode t'"
        by (intro shape_cong) (auto simp: m(2))
      then show ?thesis using repD(5) [OF rep old(1)] by simp
    qed
    show "dom (node m) = set (forest_ids (ds_trees (ds_drop ?i A) @ []))"
      using drop_ids [OF ids t] repD(6) [OF rep] by (auto simp: ds_trees_drop [OF i] m(2))
  qed (use m repD(2) [OF rep] in \<open>auto simp: ds_drop_def\<close>)
  moreover have "ds_collapsed key A = (kNoDockNode, kNoDockNode)"
    using forest_collapsed_in [OF _ t, of key] wfD(4) [OF wf]
    by (simp add: ds_collapsed_def all_keys_def)
  ultimately show ?thesis by auto
qed

text \<open>A panel alone below a split: the split goes too and its other child takes its place.\<close>

lemma shape_sub_at:
  assumes rep: "rep l A W" and wf: "wf F A W" and t: "t \<in> set (ds_trees A)" "sub_at i t = Some s"
    and n: "node l i = Some n"
  shows "shape (node l) (node_parent n) s"
    and "if i = top_id t then node_parent n = kNoDockNode
      else node_parent n \<in> set (tree_ids t) - set (tree_ids s)"
proof -
  have "distinct (tree_ids t)" using wfD(1) [OF wf] t(1) by (simp add: distinct_concat_iff)
  then obtain q where q: "shape (node l) q s"
    "if i = top_id t then q = kNoDockNode else q \<in> set (tree_ids t) - set (tree_ids s)"
    using shape_sub_ex [OF repD(5) [OF rep t(1)] t(2)] by blast
  have "q = node_parent n"
    using shape_top [OF q(1)] sub_at_sub [OF t(2)] n by (auto elim: holdsE)
  with q show "shape (node l) (node_parent n) s"
    and "if i = top_id t then node_parent n = kNoDockNode
      else node_parent n \<in> set (tree_ids t) - set (tree_ids s)" by metis+
qed

lemma collapse_chain_dom:
  "q \<noteq> i \<Longrightarrow> g \<noteq> i \<Longrightarrow> w \<noteq> i \<Longrightarrow> w \<noteq> q \<Longrightarrow> g \<noteq> q \<Longrightarrow>
   dom (N(i := None, g := (if z then N g else map_option f (N g)), w := map_option h (N w), q := None))
   = dom N - {q, i}"
  by (auto simp: dom_def fun_upd_apply)

lemma take_collapse:
  fixes l :: "('f, 'r) dock_layout"
  assumes rep: "rep l A []" and wf: "wf F A []" and p: "find_panel l key = Some p"
    and t: "t \<in> set (ds_trees A)" "sub_at (place_stack p) t = Some (Stack (place_stack p) [key] a)"
    and idx: "place_index p = 0" and below: "place_stack p \<noteq> top_id t"
    and n: "node l (place_stack p) = Some n" "node_panels n = [key]"
  shows "\<exists>m. take_panel key l = (True, fst (ds_collapsed key A), snd (ds_collapsed key A), m)
    \<and> rep m (ds_prune key A) []"
proof -
  let ?i = "place_stack p"
  have ok: "om_ok (dl_nodes l)" by (rule repD [OF rep])
  have ids: "distinct (forest_ids (ds_trees A))" by (rule wfD [OF wf])
  have dist: "distinct (tree_ids t)" "distinct (tree_keys t)"
    using ids wfD(4) [OF wf] t(1) by (simp_all add: distinct_concat_iff all_keys_def)
  have key: "key \<in> set (tree_keys t)" using sub_at_sub [OF t(2)] by auto
  obtain q ax r x y u where split: "sub_at q t = Some (Split q ax r x y)"
      "x = Stack ?i [key] a \<and> u = y \<or> y = Stack ?i [key] a \<and> u = x"
      "prune key t = Some (put_at q u t)" "collapsed key t = Some (q, top_id u)"
    by (rule prune_collapse [OF t(2) below dist]) (rule that)
  have sub: "forest_sub q (ds_trees A) = Some (Split q ax r x y)"
    by (rule forest_sub_in [OF ids t(1) split(1)])
  have put: "ds_prune key A = ds_put q u A"
  proof (rule ds_prune_put)
    fix t' assume t': "t' \<in> set (ds_trees A)"
    show "prune key t' = Some (put_at q u t')"
      using split(3) prune_others [OF wf t(1) t' _ key sub_at_SomeD [OF split(1)]]
      by (cases "t' = t") simp_all
  qed
  have col: "ds_collapsed key A = (q, top_id u)"
    using forest_collapsed_in [OF _ t(1) key] split(4) wfD(4) [OF wf]
    by (simp add: ds_collapsed_def all_keys_def)
  have q_in: "q \<in> set (forest_ids (ds_trees A))" using sub_at_SomeD [OF split(1)] t(1) by auto
  then obtain m where m: "node l q = Some m" using rep_node [OF rep, of q] by auto
  let ?g = "node_parent m"
  have sh: "shape (node l) ?g (Split q ax r x y)"
    and g: "if q = top_id t then ?g = kNoDockNode
      else ?g \<in> set (tree_ids t) - set (tree_ids (Split q ax r x y))"
    using shape_sub_at [OF rep wf t(1) split(1) m] by simp_all
  have s_ids: "distinct (tree_ids (Split q ax r x y))" by (rule sub_at_distinct [OF split(1) dist(1)])
  have up: "node_parent n = q" using sh split(2) n by auto
  have ends: "node_first m = top_id x" "node_second m = top_id y" using sh m by auto
  have other: "(if node_first m = ?i then node_second m else node_first m) = top_id u"
  proof -
    have "top_id x \<noteq> top_id y" using s_ids top_in_ids [of x] top_in_ids [of y] by fastforce
    with split(2) ends show ?thesis by auto
  qed
  have zero: "kNoDockNode \<notin> set (forest_ids (ds_trees A))" using wf_nonzero [OF wf, of kNoDockNode] by auto
  have apart: "q \<noteq> kNoDockNode" "?i \<noteq> q" "top_id u \<noteq> q" "top_id u \<noteq> ?i" "?g \<noteq> q" "?g \<noteq> ?i" "?g \<noteq> top_id u"
  proof -
    have u: "set (tree_ids u) \<subseteq> set (tree_ids (Split q ax r x y))" "?i \<in> set (tree_ids (Split q ax r x y))"
      using split(2) by auto
    have s: "set (tree_ids (Split q ax r x y)) \<subseteq> set (forest_ids (ds_trees A))"
      using sub_at_sub [OF split(1)] t(1) by auto
    have g_out: "?g \<notin> set (tree_ids (Split q ax r x y))"
      using g s zero by (auto split: if_splits)
    show "q \<noteq> kNoDockNode" using q_in zero by metis
    show "?i \<noteq> q" "top_id u \<noteq> q" "top_id u \<noteq> ?i"
      using split(2) s_ids top_in_ids [of u] by (auto simp del: top_in_ids)
    show "?g \<noteq> q" "?g \<noteq> ?i" "?g \<noteq> top_id u"
    proof -
      have "top_id u \<in> set (tree_ids (Split q ax r x y))" using u(1) top_in_ids [of u] by blast
      with g_out u(2) show "?g \<noteq> q" "?g \<noteq> ?i" "?g \<noteq> top_id u" by auto
    qed
  qed
  let ?l2 = "erase_node ?i (with_node ?i (close_tab 0) l)"
  let ?m = "erase_node q (replace_child ?g q (top_id u) ?l2)"
  have take: "take_panel key l = (True, q, top_id u, ?m)"
    using p n ok idx up m apart other by (simp add: take_panel_def Let_def close_tab_def delete_at_def)
  have map: "node ?m = (node l)(?i := None,
      ?g := (if ?g = kNoDockNode then node l ?g else map_option (relink q (top_id u)) (node l ?g)),
      top_id u := map_option (node_parent_update (\<lambda>_. ?g)) (node l (top_id u)), q := None)"
    using ok apart by (auto simp: Let_def fun_eq_iff)
  have ue: "shape (node l) q u" using sh split(2) by auto
  have u_ids: "distinct (tree_ids u)" "?i \<notin> set (tree_ids u)" "q \<notin> set (tree_ids u)"
    "set (tree_ids (Split q ax r x y)) = {q, ?i} \<union> set (tree_ids u)"
    "mset (tree_ids (Split q ax r x y)) = mset ([q, ?i] @ tree_ids u)"
    using split(2) s_ids by auto
  have g_out: "?g \<notin> set (tree_ids u)"
  proof (cases "q = top_id t")
    case True
    have "set (tree_ids u) \<subseteq> set (forest_ids (ds_trees A))"
      using u_ids(4) sub_at_sub [OF split(1)] t(1) by fastforce
    with True g zero show ?thesis by (metis subsetD)
  next
    case False
    with g u_ids(4) show ?thesis by auto
  qed
  have up': "if q = top_id t then ?g = kNoDockNode else ?g \<noteq> kNoDockNode"
  proof (cases "q = top_id t")
    case False
    then have "?g \<in> set (forest_ids (ds_trees A))" using t(1) g by auto
    with False zero show ?thesis by metis
  qed (use g in simp)
  have "rep ?m (ds_put q u A\<lparr>ds_next := dl_next ?m\<rparr>) []"
  proof (rule rep_put [OF rep wf sub m refl])
    show "node ?m j = node l j" if "j \<notin> set (tree_ids (Split q ax r x y))" "j \<noteq> ?g" for j
    proof -
      have "j \<noteq> q" "j \<noteq> ?i" "j \<noteq> top_id u"
        using that(1) u_ids(4) top_in_ids [of u] by blast+
      with that(2) show ?thesis unfolding map by (simp only: fun_upd_other simp_thms)
    qed
    show "node ?m ?g = (if top_id u = q then node l ?g else map_option (relink q (top_id u)) (node l ?g))"
      if "?g \<noteq> kNoDockNode"
      using that apart unfolding map by (simp only: fun_upd_other fun_upd_same if_False not_sym simp_thms)
    show "shape (node ?m) ?g u"
    proof (rule shape_reparent [OF ue u_ids(1)])
      show "node ?m (top_id u) = map_option (node_parent_update (\<lambda>_. ?g)) (node l (top_id u))"
        unfolding map using apart by (simp only: fun_upd_other fun_upd_same simp_thms)
      show "node ?m j = node l j" if j: "j \<in> set (tree_ids u)" "j \<noteq> top_id u" for j
      proof -
        have "j \<noteq> q" "j \<noteq> ?i" "j \<noteq> ?g" using j(1) u_ids(2,3) g_out by metis+
        with j(2) show ?thesis unfolding map by (simp only: fun_upd_other simp_thms)
      qed
    qed
    show "om_ok (dl_nodes ?m)" using ok by simp
    show "dl_root ?m = (if dl_root l = q then top_id u else dl_root l)"
      and "dl_floats ?m = map (\<lambda>f. if float_root f = q then f\<lparr>float_root := top_id u\<rparr> else f) (dl_floats l)"
      using replace_child_root [OF rep wf t(1) split(1) up', of ?l2 "top_id u"] by simp_all
    have "mset (forest_ids (ds_trees A)) = mset ([q, ?i] @ forest_ids (List.map (put_at q u) (ds_trees A)))"
      using forest_put_mset(1) [OF sub ids, of u] unfolding u_ids(5) by (simp add: add_mset_commute)
    from mset_eq_setD [OF this] mset_eq_imp_distinct_iff [OF this]
    have left: "set (forest_ids (List.map (put_at q u) (ds_trees A))) = set (forest_ids (ds_trees A)) - {q, ?i}"
      using ids by auto
    have "dom (node ?m) = dom (node l) - {q, ?i}"
      unfolding map by (rule collapse_chain_dom [where N = "node l"]) (use apart ue in \<open>auto dest: shape_top elim: holdsE\<close>)
    then show "dom (node ?m) = set (forest_ids (List.map (put_at q u) (ds_trees A) @ []))"
      using left repD(6) [OF rep] by simp
  qed simp
  then show ?thesis using take col put repD(2) [OF rep] by (simp add: ds_put_def)
qed

lemma take_panel_rep:
  fixes l :: "('f, 'r) dock_layout"
  assumes rep: "rep l A []" and wf: "wf F A []" and p: "find_panel l key = Some p"
  shows "\<exists>m. take_panel key l = (True, fst (ds_collapsed key A), snd (ds_collapsed key A), m)
    \<and> rep m (ds_prune key A) []"
proof -
  obtain ps a n where sub: "forest_sub (place_stack p) (ds_trees A) = Some (Stack (place_stack p) ps a)"
    and key: "key \<in> set ps" "place_index p = index_of key ps"
    and n: "node l (place_stack p) = Some n" "node_panels n = ps" "node_active n = a"
    by (rule find_panel_Some [OF rep wf p]) (rule that)
  show ?thesis
  proof (cases "length ps = 1")
    case False
    with take_close [OF rep wf p sub key _ n] show ?thesis by auto
  next
    case True
    then have ps: "ps = [key]" using key(1) by (cases ps) auto
    have idx: "place_index p = 0" using key(2) ps by simp
    obtain t where t: "t \<in> set (ds_trees A)" "sub_at (place_stack p) t = Some (Stack (place_stack p) [key] a)"
      using forest_sub_Some [OF sub] ps by blast
    show ?thesis
    proof (cases "place_stack p = top_id t")
      case False
      with take_collapse [OF rep wf p t idx _ n(1)] n(2) ps show ?thesis by simp
    next
      case True
      then have t': "Stack (place_stack p) [key] a \<in> set (ds_trees A)" using t by simp
      show ?thesis using take_last [OF rep wf p t' idx n(1)] n(2) ps by auto
    qed
  qed
qed

subsection \<open>The invariants of what is left\<close>

lemma delete_index: "x \<in> set xs \<Longrightarrow> delete_at (index_of x xs) xs = remove1 x xs"
  by (induction xs) (auto simp: delete_at_def)

lemma length_delete_at: "k < length xs \<Longrightarrow> length (delete_at k xs) = length xs - 1"
  by (simp add: delete_at_def)

lemma index_of_less: "x \<in> set xs \<longleftrightarrow> index_of x xs < length xs"
  by (induction xs) auto

lemma index_of_nth: "x \<in> set xs \<Longrightarrow> xs ! index_of x xs = x"
  by (induction xs) auto

lemma prune_keys:
  "distinct (tree_keys t) \<Longrightarrow> (case prune key t of None \<Rightarrow> [] | Some t' \<Rightarrow> tree_keys t')
     = filter (\<lambda>k. k \<noteq> key) (tree_keys t)"
proof (induction t)
  case (Stack i ps a)
  show ?case
  proof (cases "key \<in> set ps")
    case True
    have "filter (\<lambda>k. k \<noteq> key) ps = filter ((\<noteq>) key) ps" by (rule filter_cong) auto
    then have "filter (\<lambda>k. k \<noteq> key) ps = remove1 key ps"
      using Stack by (simp add: distinct_remove1_removeAll removeAll_filter_not_eq)
    moreover have "length ps = 1 \<Longrightarrow> remove1 key ps = []" using True by (cases ps) auto
    ultimately show ?thesis using True by (simp add: close_spec_def Let_def delete_index)
  next
    case False
    then have "filter (\<lambda>k. k \<noteq> key) ps = ps" by (auto intro: filter_True)
    with False show ?thesis by simp
  qed
next
  case (Split i ax r x y)
  show ?case
  proof (cases "prune key x")
    case None
    then have "key \<in> set (tree_keys x)" using prune_absent [of key x] by auto
    then have "filter (\<lambda>k. k \<noteq> key) (tree_keys y) = tree_keys y"
      using Split.prems by (auto intro: filter_True)
    with None Split show ?thesis by simp
  next
    case (Some x')
    with Split show ?thesis by (auto split: option.splits)
  qed
qed

lemma submset_more: "a \<subseteq># b \<Longrightarrow> a \<subseteq># add_mset i (b + c)" "a \<subseteq># b \<Longrightarrow> a \<subseteq># add_mset i b"
proof -
  have "b \<subseteq># add_mset i (b + c)" for c by (metis mset_subset_eq_add_left union_mset_add_mset_right)
  then show "a \<subseteq># b \<Longrightarrow> a \<subseteq># add_mset i (b + c)" "a \<subseteq># b \<Longrightarrow> a \<subseteq># add_mset i b"
    using subset_mset.order_trans by (blast, metis add_cancel_right_right)
qed

lemma prune_sub:
  "prune key t = Some t' \<Longrightarrow> mset (tree_ids t') \<subseteq># mset (tree_ids t) \<and> (tree_ok F t \<longrightarrow> tree_ok F t')"
proof (induction t arbitrary: t')
  case (Stack i ps a)
  then show ?case
    by (auto simp: close_spec_def Let_def delete_index length_remove1 split: if_splits)
next
  case (Split i ax r x y)
  show ?case
  proof (cases "prune key x")
    case None
    then have "t' = y" using Split.prems by simp
    then show ?thesis by (simp add: subset_mset.add_increasing)
  next
    case (Some x')
    note x = this
    show ?thesis
    proof (cases "prune key y")
      case None
      then have "t' = x'" using Split.prems x by simp
      then show ?thesis
        using Split.IH(1) [OF x] by (auto intro: submset_more)
    next
      case (Some y')
      then have "t' = Split i ax r x' y'" using Split.prems x by simp
      then show ?thesis using Split.IH(1) [OF x] Split.IH(2) [OF Some] by (auto intro: subset_mset.add_mono)
    qed
  qed
qed

lemma ds_trees_prune: "ds_trees (ds_prune key A) = List.map_filter (prune key) (ds_trees A)"
proof -
  have "map (fst \<circ> snd) (List.map_filter (\<lambda>(j, t, r). map_option (\<lambda>t'. (j, t', r)) (prune key t)) fs)
      = List.map_filter (prune key) (map (fst \<circ> snd) fs)" for fs :: "(dock_id \<times> 'a dtree \<times> 'b) list"
    by (induction fs) (auto simp: List.map_filter_simps split: option.splits)
  then show ?thesis
    by (cases "ds_root A") (auto simp: ds_trees_def ds_prune_def List.map_filter_simps split: option.splits)
qed

lemma map_filter_mset:
  "(\<And>x y. f x = Some y \<Longrightarrow> mset (g y) \<subseteq># mset (g x))
   \<Longrightarrow> mset (concat (map g (List.map_filter f xs))) \<subseteq># mset (concat (map g xs))"
  by (induction xs)
    (auto simp: List.map_filter_simps subset_mset.add_increasing subset_mset.add_mono split: option.splits)

lemma prune_forest_keys:
  "distinct (forest_keys ts) \<Longrightarrow>
   forest_keys (List.map_filter (prune key) ts) = filter (\<lambda>k. k \<noteq> key) (forest_keys ts)"
proof (induction ts)
  case (Cons t ts)
  then show ?case
    using prune_keys [of t key] by (auto simp: List.map_filter_simps split: option.splits)
qed (simp add: List.map_filter_simps)

lemma prune_all_keys:
  "wf F A [] \<Longrightarrow> all_keys (ds_prune key A) [] = filter (\<lambda>k. k \<noteq> key) (all_keys A [])"
  using wfD(4) [of F A "[]"] by (simp add: all_keys_def ds_trees_prune prune_forest_keys)

lemma float_ids_sub:
  "mset (map fst (List.map_filter (\<lambda>(j, t, r). map_option (\<lambda>t'. (j, t', r)) (f t)) fs))
   \<subseteq># mset (map fst fs)"
  by (induction fs)
    (auto simp: List.map_filter_simps submset_more split: option.splits)

lemma prune_wf: "wf F A [] \<Longrightarrow> wf F (ds_prune key A) []"
proof (rule wf_step [where new = "[]" and nk = "[]"])
  assume wf: "wf F A []"
  have "mset (forest_ids (ds_trees (ds_prune key A))) \<subseteq># mset (forest_ids (ds_trees A))"
    unfolding ds_trees_prune by (rule map_filter_mset) (use prune_sub in blast)
  moreover have "mset (map fst (ds_floats (ds_prune key A))) \<subseteq># mset (map fst (ds_floats A))"
    using float_ids_sub [of "prune key" "ds_floats A"] by (simp add: ds_prune_def)
  ultimately show "mset (all_ids (ds_prune key A) []) \<subseteq># mset ([] @ all_ids A [])"
    by (simp add: all_ids_def subset_mset.add_mono)
  show "mset (all_keys (ds_prune key A) []) \<subseteq># mset ([] @ all_keys A [])"
    using prune_all_keys [OF wf] by (simp add: mset_filter)
  show "tree_ok F t" if "t \<in> set (ds_trees (ds_prune key A) @ [])" for t
    using that wfD(6) [OF wf] prune_sub by (fastforce simp: ds_trees_prune List.map_filter_def)
qed (auto simp: ds_prune_def)

end
