(* ===== verification/Dock_Refine.thy ===== *)
theory Dock_Refine
  imports Dock_Take
begin

section \<open>The dock operations refine operations on trees\<close>

text \<open>
  The operations as a reader of the header would state them, on trees: None where the operation
  refuses. \<open>agrees F l out sp\<close> says that the code's result \<open>out\<close> from the layout \<open>l\<close> is what the
  specification says: refused and \<open>l\<close> unchanged, or done, with a layout that holds the specified
  trees and has the invariants. \<open>room k A\<close> leaves \<open>k\<close> ids before the counter wraps, and
  \<open>dock_floats\<close> is what the operations need of \<open>float\<close>: the two ends of the ratio range and the
  initial ratio are in the range.
\<close>

definition room :: "nat \<Rightarrow> ('f, 'r) dock_spec \<Rightarrow> bool" where
  "room k A \<longleftrightarrow> ds_next A \<noteq> kNoDockNode \<and> unat (ds_next A) + k < 2 ^ 32"

definition dock_floats :: "'f float_arith \<Rightarrow> bool" where
  "dock_floats F \<longleftrightarrow> \<not> bad_ratio F (kDockRatioMin F) \<and> \<not> bad_ratio F (kDockRatioMax F)
     \<and> \<not> bad_ratio F (f_single F (f_frac F 5 10))"

definition agrees :: "'f float_arith \<Rightarrow> ('f, 'r) dock_layout \<Rightarrow> bool \<times> ('f, 'r) dock_layout
    \<Rightarrow> ('f, 'r) dock_spec option \<Rightarrow> bool" where
  "agrees F l out sp \<longleftrightarrow> (case sp of None \<Rightarrow> out = (False, l)
     | Some B \<Rightarrow> fst out \<and> rep (snd out) B [] \<and> wf F B [])"

definition spec_dest :: "('f, 'r) dock_spec \<Rightarrow> dock_target \<Rightarrow> dock_id" where
  "spec_dest A target =
     (if target_node target = kNoDockNode then root_top (ds_root A) else target_node target)"

definition spec_lost :: "('f, 'r) dock_spec \<Rightarrow> dock_target \<Rightarrow> bool" where
  "spec_lost A target \<longleftrightarrow> target_node target \<noteq> kNoDockNode
     \<and> target_node target \<notin> set (forest_ids (ds_trees A))"

definition spec_fills :: "('f, 'r) dock_spec \<Rightarrow> dock_target \<Rightarrow> bool" where
  "spec_fills A target \<longleftrightarrow> target_node target = kNoDockNode \<and> ds_root A = None"

definition spec_insert :: "'f float_arith \<Rightarrow> 'f dtree \<Rightarrow> dock_target \<Rightarrow> ('f, 'r) dock_spec
    \<Rightarrow> ('f, 'r) dock_spec option" where
  "spec_insert F w target A =
     (if spec_fills A target then Some (A\<lparr>ds_root := Some w\<rparr>)
      else if target_zone target = ZoneCenter then None
      else map_option (\<lambda>s. ds_put (spec_dest A target)
             (beside F (ds_next A) (target_zone target) w s) A\<lparr>ds_next := ds_next A + 1\<rparr>)
           (forest_sub (spec_dest A target) (ds_trees A)))"

definition spec_add :: "'f float_arith \<Rightarrow> string \<Rightarrow> dock_target \<Rightarrow> ('f, 'r) dock_spec
    \<Rightarrow> ('f, 'r) dock_spec option" where
  "spec_add F key target A =
     (if key = [] \<or> key \<in> set (all_keys A []) \<or> spec_lost A target then None
      else if target_zone target = ZoneCenter \<and> \<not> spec_fills A target then
        (case forest_sub (spec_dest A target) (ds_trees A) of
           Some (Stack i ps a) \<Rightarrow> Some (ds_put i (Stack i (ps @ [key]) (length ps)) A)
         | _ \<Rightarrow> None)
      else spec_insert F (Stack (ds_next A) [key] 0) target (A\<lparr>ds_next := ds_next A + 1\<rparr>))"

subsection \<open>Ids and invariants\<close>

lemma room_facts:
  assumes "room (Suc k) A"
  shows "ds_next A \<noteq> kNoDockNode" "ds_next A < ds_next A + 1"
    "room k (A\<lparr>ds_next := ds_next A + 1\<rparr>)" "ds_next A + 1 \<noteq> kNoDockNode"
proof -
  have u: "unat (ds_next A + 1) = Suc (unat (ds_next A))"
    using assms by (intro unat_succ) (simp add: room_def)
  then show nz: "ds_next A + 1 \<noteq> kNoDockNode" by (metis nat.distinct(1) unat_0)
  then show "ds_next A < ds_next A + 1" by (rule word_less_suc)
  show "ds_next A \<noteq> kNoDockNode" using assms by (simp add: room_def)
  show "room k (A\<lparr>ds_next := ds_next A + 1\<rparr>)" using assms u nz by (simp add: room_def)
qed

lemma room_mono: "room k A \<Longrightarrow> j \<le> k \<Longrightarrow> room j A"
  by (auto simp: room_def)

lemma put_all_ids:
  assumes wf: "wf F A W" and sub: "forest_sub i (ds_trees A) = Some s"
  shows "mset (all_ids (ds_put i u A) V) + mset (tree_ids s) + mset (forest_ids W)
      = mset (all_ids A W) + mset (tree_ids u) + mset (forest_ids V)"
    and "mset (all_keys (ds_put i u A) V) + mset (tree_keys s) + mset (forest_keys W)
      = mset (all_keys A W) + mset (tree_keys u) + mset (forest_keys V)"
  using forest_put_mset [OF sub wfD(1) [OF wf], of u] ds_put_sel(1) [of i u A]
  by (simp_all add: all_ids_def all_keys_def ac_simps del: map_map)

lemma wf_put:
  assumes wf: "wf F A W" and sub: "forest_sub i (ds_trees A) = Some s" and u: "tree_ok F u"
    and ids: "mset (tree_ids u) + mset (forest_ids V) \<subseteq># mset new + mset (tree_ids s) + mset (forest_ids W)"
    and new: "distinct new" "\<And>i. i \<in> set new \<Longrightarrow> \<not> i < ds_next A \<and> i \<noteq> kNoDockNode \<and> i < k"
    and k: "ds_next A \<le> k"
    and keys: "mset (tree_keys u) + mset (forest_keys V) \<subseteq># mset nk + mset (tree_keys s) + mset (forest_keys W)"
    and nk: "distinct nk" "set nk \<inter> set (all_keys A W) = {}" "[] \<notin> set nk"
    and V: "\<And>t. t \<in> set V \<Longrightarrow> tree_ok F t"
  shows "wf F (ds_put i u A\<lparr>ds_next := k\<rparr>) V"
proof (rule wf_step [OF wf, where new = new and nk = nk])
  have "mset (all_ids (ds_put i u A) V) + (mset (tree_ids s) + mset (forest_ids W))
      \<subseteq># mset (all_ids A W) + (mset new + (mset (tree_ids s) + mset (forest_ids W)))"
    using put_all_ids(1) [OF wf sub, of u V] ids by (simp add: ac_simps)
  then show "mset (all_ids (ds_put i u A\<lparr>ds_next := k\<rparr>) V) \<subseteq># mset (new @ all_ids A W)"
    by (simp add: ac_simps)
  have "mset (all_keys (ds_put i u A) V) + (mset (tree_keys s) + mset (forest_keys W))
      \<subseteq># mset (all_keys A W) + (mset nk + (mset (tree_keys s) + mset (forest_keys W)))"
    using put_all_ids(2) [OF wf sub, of u V] keys by (simp add: ac_simps)
  then show "mset (all_keys (ds_put i u A\<lparr>ds_next := k\<rparr>) V) \<subseteq># mset (nk @ all_keys A W)"
    by (simp add: ac_simps)
  show "tree_ok F t" if "t \<in> set (ds_trees (ds_put i u A\<lparr>ds_next := k\<rparr>) @ V)" for t
    using that V wfD(6) [OF wf] by (auto intro!: put_at_ok [OF _ u])
qed (use assms in auto)

lemma rep_ids: "rep l A [] \<Longrightarrow> node l i = None \<longleftrightarrow> i \<notin> set (forest_ids (ds_trees A))"
  using repD(6) [of l A "[]"] by auto

lemma dest_in:
  assumes "wf F A W" and "\<not> spec_lost A target" and "\<not> spec_fills A target"
  obtains s where "forest_sub (spec_dest A target) (ds_trees A) = Some s" "top_id s = spec_dest A target"
proof -
  have "spec_dest A target \<in> set (forest_ids (ds_trees A))"
  proof (cases "target_node target = kNoDockNode")
    case True
    then obtain t where "ds_root A = Some t" using assms(3) by (auto simp: spec_fills_def)
    then show ?thesis using True root_tree [of A t]
      by (auto simp: spec_dest_def root_top_def intro!: bexI [of _ t])
  next
    case False
    then show ?thesis using assms(2) by (simp add: spec_dest_def spec_lost_def)
  qed
  then obtain s where s: "forest_sub (spec_dest A target) (ds_trees A) = Some s"
    using forest_sub_None by (cases "forest_sub (spec_dest A target) (ds_trees A)") fastforce+
  with that forest_sub_Some [OF s] sub_at_sub show thesis by blast
qed

lemma insert_agrees:
  assumes rep: "rep l A [w]" and wf: "wf F A [w]" and F: "dock_floats F" and room: "room 1 A"
    and target: "\<not> spec_lost A target"
  shows "case spec_insert F w target A of
      None \<Rightarrow> insert_subtree F (top_id w) target l = (False, l)
    | Some B \<Rightarrow> \<exists>m. insert_subtree F (top_id w) target l = (True, m) \<and> rep m B [] \<and> wf F B []"
proof -
  have root: "dl_root l = root_top (ds_root A)" by (rule repD [OF rep])
  have nz: "ds_next A \<noteq> kNoDockNode" "ds_next A < ds_next A + 1" "ds_next A + 1 \<noteq> kNoDockNode"
    using room_facts [of 0 A] room by simp_all
  have w_ok: "tree_ok F w" using wfD(6) [OF wf] by auto
  consider (fills) "spec_fills A target" | (center) "\<not> spec_fills A target" "target_zone target = ZoneCenter"
    | (side) "\<not> spec_fills A target" "target_zone target \<noteq> ZoneCenter" by blast
  then show ?thesis
  proof cases
    case fills
    then have empty: "ds_root A = None" "target_node target = kNoDockNode" by (simp_all add: spec_fills_def)
    have "wf F (A\<lparr>ds_root := Some w\<rparr>) []"
      by (rule wf_step [OF wf, where new = "[]" and nk = "[]"])
        (use empty wfD(6) [OF wf] in \<open>auto simp: all_ids_def all_keys_def ds_trees_def\<close>)
    with insert_root [OF rep wf empty] fills show ?thesis by (auto simp: spec_insert_def)
  next
    case center
    have "\<not> (target_node target = kNoDockNode \<and> dl_root l = kNoDockNode)"
      using center(1) root wf_root [OF wf] by (simp add: spec_fills_def)
    with center show ?thesis by (auto simp: spec_insert_def insert_subtree_def)
  next
    case side
    obtain s where s: "forest_sub (spec_dest A target) (ds_trees A) = Some s" "top_id s = spec_dest A target"
      by (rule dest_in [OF wf target side(1)]) (rule that)
    have s_ok: "tree_ok F s"
      using forest_sub_Some [OF s(1)] sub_at_ok wfD(6) [OF wf] by fastforce
    let ?u = "beside F (ds_next A) (target_zone target) w s"
    have u_ok: "tree_ok F ?u"
      using w_ok s_ok F by (simp add: beside_def dock_floats_def)
    have "wf F (ds_put (spec_dest A target) ?u A\<lparr>ds_next := ds_next A + 1\<rparr>) []"
      by (rule wf_put [OF wf s(1) u_ok, where new = "[ds_next A]" and nk = "[]"])
        (use nz in \<open>auto simp: beside_mset ac_simps\<close>)
    moreover have "spec_dest A target = (if target_node target = kNoDockNode then dl_root l else target_node target)"
      by (simp add: spec_dest_def root)
    note insert_side [OF rep wf nz(1) _ side(2) this s(1)]
    ultimately show ?thesis using side s(1) by (auto simp: spec_insert_def spec_fills_def)
  qed
qed

lemma make_stack_wf:
  assumes wf: "wf F A []" and room: "room 1 A" and key: "key \<noteq> []" "key \<notin> set (all_keys A [])"
  shows "wf F (A\<lparr>ds_next := ds_next A + 1\<rparr>) [Stack (ds_next A) [key] 0]"
  by (rule wf_step [OF wf, where new = "[ds_next A]" and nk = "[key]"])
    (use room_facts [of 0 A] room key wfD(6) [OF wf] in \<open>auto simp: all_ids_def all_keys_def\<close>)

lemma add_agrees:
  assumes rep: "rep l A []" and wf: "wf F A []" and F: "dock_floats F" and room: "room 2 A"
  shows "agrees F l (add_panel F key target l) (spec_add F key target A)"
proof -
  have root: "dl_root l = root_top (ds_root A)" by (rule repD [OF rep])
  have lost: "target_lost l target \<longleftrightarrow> spec_lost A target"
    using rep_ids [OF rep] by (simp add: target_lost_def spec_lost_def)
  have fills: "fills_root l target \<longleftrightarrow> spec_fills A target"
    using root wf_root [OF wf] by (simp add: fills_root_def spec_fills_def)
  have known: "contains_panel l key \<longleftrightarrow> key \<in> set (all_keys A [])"
    using find_panel_None [OF rep wf] by (simp add: contains_panel_def)
  show ?thesis
  proof (cases "key = [] \<or> key \<in> set (all_keys A []) \<or> spec_lost A target")
    case True
    then show ?thesis using lost known by (auto simp: agrees_def add_panel_def spec_add_def)
  next
    case False
    then have new: "key \<noteq> []" "key \<notin> set (all_keys A [])" "\<not> spec_lost A target" by auto
    show ?thesis
    proof (cases "target_zone target = ZoneCenter \<and> \<not> spec_fills A target")
      case True
      obtain s where s: "forest_sub (spec_dest A target) (ds_trees A) = Some s" "top_id s = spec_dest A target"
        by (rule dest_in [OF wf new(3)]) (use True that in auto)
      have dest: "spec_dest A target = (if target_node target = kNoDockNode then dl_root l else target_node target)"
        by (simp add: spec_dest_def root)
      obtain n where n: "node l (spec_dest A target) = Some n"
        using rep_ids [OF rep, of "spec_dest A target"] forest_sub_None [of "spec_dest A target" "ds_trees A"] s(1)
        by auto
      have holds: "holds (Some n) (node_parent n) s" by (rule stack_node [OF rep wf n s(1)])
      have nz: "spec_dest A target \<noteq> kNoDockNode"
        using wf_nonzero [OF wf, of "spec_dest A target"] rep_ids [OF rep, of "spec_dest A target"] n by auto
      have common: "add_panel F key target l = (let stack = center_stack l target in
          if stack = kNoDockNode then (False, l)
          else (True, with_node stack (\<lambda>n. n\<lparr>node_panels := node_panels n @ [key],
                 node_active := length (node_panels n @ [key]) - 1\<rparr>) l))"
        using new lost known fills True by (simp add: add_panel_def)
      have stack: "center_stack l target = (if node_kind n = KindTabs then spec_dest A target else kNoDockNode)"
        using n unfolding center_stack_def dest [symmetric] Let_def by simp
      show ?thesis
      proof (cases s)
        case (Split i ax r x y)
        then have "node_kind n \<noteq> KindTabs" using holds by simp
        then have "add_panel F key target l = (False, l)" unfolding common stack by simp
        moreover have "spec_add F key target A = None" using new True s(1) Split by (simp add: spec_add_def)
        ultimately show ?thesis by (simp add: agrees_def)
      next
        case (Stack i ps a)
        have i: "i = spec_dest A target" using s(2) Stack by simp
        let ?f = "\<lambda>n. n\<lparr>node_panels := node_panels n @ [key], node_active := length (node_panels n @ [key]) - 1\<rparr>"
        have tabs: "node_kind n = KindTabs" "node_panels n = ps" using holds Stack by simp_all
        then have "add_panel F key target l = (True, with_node i ?f l)"
          unfolding common stack i using nz by simp
        moreover have "spec_add F key target A = Some (ds_put i (Stack i (ps @ [key]) (length ps)) A)"
          using new True s(1) Stack i by (simp add: spec_add_def)
        moreover have "rep (with_node i ?f l) (ds_put i (Stack i (ps @ [key]) (length ps)) A) []"
          by (rule rep_stack [OF rep wf s(1) [unfolded Stack, folded i] n [folded i]]) (simp_all add: tabs)
        moreover have "wf F (ds_put i (Stack i (ps @ [key]) (length ps)) A\<lparr>ds_next := ds_next A\<rparr>) []"
          by (rule wf_put [OF wf, where s = s and new = "[]" and nk = "[key]"]) (use s(1) Stack i new in auto)
        ultimately show ?thesis by (simp add: agrees_def ds_put_def)
      qed
    next
      case False
      have next1: "room 1 (A\<lparr>ds_next := ds_next A + 1\<rparr>)" "ds_next A \<noteq> kNoDockNode"
        using room_facts [of 1 A] room by (simp_all add: numeral_2_eq_2)
      let ?A = "A\<lparr>ds_next := ds_next A + 1\<rparr>" and ?w = "Stack (ds_next A) [key] 0 :: 'a dtree"
      have wf1: "wf F ?A [?w]" by (rule make_stack_wf [OF wf _ new(1,2)]) (rule room_mono [OF room], simp)
      obtain l1 where made: "make_stack F key l = (ds_next A, l1)" "rep l1 ?A [?w]"
        using rep_make_stack [OF rep wf next1(2), where key = key] by blast
      have "\<not> spec_lost ?A target" using new(3) by (simp add: spec_lost_def)
      note ins = insert_agrees [OF made(2) wf1 F next1(1) this]
      have "add_panel F key target l =
          (let (ok, l2) = insert_subtree F (top_id ?w) target l1
           in if ok then (True, l2) else (False, l))"
        using new lost known fills False by (auto simp: add_panel_def made(1))
      moreover have "spec_add F key target A = spec_insert F ?w target ?A"
        using new False by (auto simp: spec_add_def)
      ultimately show ?thesis using ins by (auto simp: agrees_def split: option.splits)
    qed
  qed
qed

subsection \<open>The stack of a panel\<close>

fun tree_stack :: "string \<Rightarrow> 'f dtree \<Rightarrow> (dock_id \<times> string list \<times> nat) option" where
  "tree_stack key (Stack i ps a) = (if key \<in> set ps then Some (i, ps, a) else None)"
| "tree_stack key (Split i ax r x y) =
     (case tree_stack key x of None \<Rightarrow> tree_stack key y | Some p \<Rightarrow> Some p)"

fun forest_stack :: "string \<Rightarrow> 'f dtree list \<Rightarrow> (dock_id \<times> string list \<times> nat) option" where
  "forest_stack key [] = None"
| "forest_stack key (t # ts) =
     (case tree_stack key t of None \<Rightarrow> forest_stack key ts | Some p \<Rightarrow> Some p)"

definition ds_stack :: "string \<Rightarrow> ('f, 'r) dock_spec \<Rightarrow> (dock_id \<times> string list \<times> nat) option" where
  "ds_stack key A = forest_stack key (ds_trees A)"

lemma tree_stack_None: "tree_stack key t = None \<longleftrightarrow> key \<notin> set (tree_keys t)"
  by (induction t) (auto split: option.splits)

lemma tree_stack_at:
  "sub_at i t = Some (Stack i ps a) \<Longrightarrow> key \<in> set ps \<Longrightarrow> distinct (tree_keys t)
   \<Longrightarrow> tree_stack key t = Some (i, ps, a)"
proof (induction t)
  case (Split j ax r x y)
  then have ij: "i \<noteq> j" by (auto split: if_splits)
  show ?case
  proof (cases "sub_at i x")
    case None
    then have y: "sub_at i y = Some (Stack i ps a)" using Split.prems(1) ij by simp
    then have "key \<notin> set (tree_keys x)" using sub_at_sub [OF y] Split.prems(2,3) by auto
    then have "tree_stack key x = None" by (simp add: tree_stack_None)
    with Split y show ?thesis by simp
  next
    case (Some s)
    with Split ij show ?thesis by simp
  qed
qed (auto split: if_splits)

lemma ds_stack_at:
  assumes wf: "wf F A W" and sub: "forest_sub i (ds_trees A) = Some (Stack i ps a)" and key: "key \<in> set ps"
  shows "ds_stack key A = Some (i, ps, a)"
proof -
  obtain t where t: "t \<in> set (ds_trees A)" "sub_at i t = Some (Stack i ps a)"
    using forest_sub_Some [OF sub] by blast
  have keys: "distinct (forest_keys (ds_trees A))" using wfD(4) [OF wf] by (simp add: all_keys_def)
  then have "tree_stack key t = Some (i, ps, a)"
    using t(1) by (intro tree_stack_at [OF t(2) key]) (simp add: distinct_concat_iff)
  moreover have "key \<in> set (tree_keys t)" using sub_at_sub [OF t(2)] key by auto
  moreover have "forest_stack key ts = tree_stack key t"
    if "distinct (forest_keys ts)" "t \<in> set ts" "key \<in> set (tree_keys t)" for ts
    using that
  proof (induction ts)
    case (Cons t' ts)
    show ?case
    proof (cases "t = t'")
      case True
      have "tree_stack key t' \<noteq> None" using True Cons.prems(3) by (simp add: tree_stack_None)
      with True show ?thesis by auto
    next
      case False
      then have "tree_stack key t' = None" using Cons.prems by (auto simp: tree_stack_None)
      with False Cons show ?thesis by simp
    qed
  qed simp
  ultimately show ?thesis using keys t(1) by (simp add: ds_stack_def)
qed

text \<open>What the code finds of a panel, against the trees.\<close>

lemma place_rep:
  assumes rep: "rep l A []" and wf: "wf F A []" and key: "key \<in> set (all_keys A [])"
  obtains p ps a n where "find_panel l key = Some p" "ds_stack key A = Some (place_stack p, ps, a)"
    "forest_sub (place_stack p) (ds_trees A) = Some (Stack (place_stack p) ps a)" "key \<in> set ps"
    "place_index p = index_of key ps" "place_float p = float_of l (place_stack p)"
    "node l (place_stack p) = Some n" "node_panels n = ps" "node_active n = a"
    "place_stack p \<noteq> kNoDockNode"
proof -
  obtain p where p: "find_panel l key = Some p"
    using find_panel_None [OF rep wf, of key] key by auto
  obtain ps a n where at: "forest_sub (place_stack p) (ds_trees A) = Some (Stack (place_stack p) ps a)" "key \<in> set ps"
    "place_index p = index_of key ps" "place_float p = float_of l (place_stack p)"
    "node l (place_stack p) = Some n" "node_panels n = ps" "node_active n = a"
    by (rule find_panel_Some [OF rep wf p]) (rule that)
  have "place_stack p \<noteq> kNoDockNode"
    using wf_nonzero [OF wf, of "place_stack p"] rep_ids [OF rep, of "place_stack p"] at(5) by auto
  with that [OF p ds_stack_at [OF wf at(1,2)] at] show thesis by blast
qed

definition spec_remove :: "string \<Rightarrow> ('f, 'r) dock_spec \<Rightarrow> ('f, 'r) dock_spec option" where
  "spec_remove key A = (if key \<in> set (all_keys A []) then Some (ds_prune key A) else None)"

definition spec_move :: "'f float_arith \<Rightarrow> string \<Rightarrow> dock_target \<Rightarrow> ('f, 'r) dock_spec
    \<Rightarrow> ('f, 'r) dock_spec option" where
  "spec_move F key target A =
     (case ds_stack key A of None \<Rightarrow> None
      | Some (i, ps, a) \<Rightarrow>
          if spec_lost A target
             \<or> spec_dest A target = i \<and> (length ps = 1 \<or> target_zone target = ZoneCenter) then None
          else
            (let (gone, left) = ds_collapsed key A in
             spec_add F key (if target_node target \<noteq> kNoDockNode \<and> target_node target = gone
               then target\<lparr>target_node := left\<rparr> else target) (ds_prune key A)))"

definition spec_activate :: "string \<Rightarrow> ('f, 'r) dock_spec \<Rightarrow> ('f, 'r) dock_spec option" where
  "spec_activate key A =
     map_option (\<lambda>(i, ps, a). ds_put i (Stack i ps (index_of key ps)) A) (ds_stack key A)"

definition spec_reorder :: "string \<Rightarrow> nat \<Rightarrow> ('f, 'r) dock_spec \<Rightarrow> ('f, 'r) dock_spec option" where
  "spec_reorder key index A =
     map_option (\<lambda>(i, ps, a).
         let rest = remove1 key ps; ps' = insert_at (min index (length rest)) key rest
         in ds_put i (Stack i ps' (index_of (ps ! a) ps')) A) (ds_stack key A)"

definition spec_ratio :: "'f float_arith \<Rightarrow> dock_id \<Rightarrow> 'f \<Rightarrow> ('f, 'r) dock_spec
    \<Rightarrow> ('f, 'r) dock_spec option" where
  "spec_ratio F i ratio A =
     (case forest_sub i (ds_trees A) of
        Some (Split j ax r x y) \<Rightarrow>
          if f_isnan F ratio then None
          else Some (ds_put i (Split i ax (f_clamp F ratio (kDockRatioMin F) (kDockRatioMax F)) x y) A)
      | _ \<Rightarrow> None)"

lemma stack_None: "wf F A [] \<Longrightarrow> rep l A [] \<Longrightarrow> ds_stack key A = None \<longleftrightarrow> key \<notin> set (all_keys A [])"
proof
  assume "ds_stack key A = None"
  moreover have "forest_stack key ts = None \<Longrightarrow> key \<notin> set (forest_keys ts)" for ts :: "'a dtree list"
    by (induction ts) (auto simp: tree_stack_None split: option.splits)
  ultimately show "key \<notin> set (all_keys A [])" by (simp add: ds_stack_def all_keys_def)
next
  assume "key \<notin> set (all_keys A [])"
  moreover have "key \<notin> set (forest_keys ts) \<Longrightarrow> forest_stack key ts = None" for ts :: "'a dtree list"
    by (induction ts) (auto simp: tree_stack_None [THEN iffD2])
  ultimately show "ds_stack key A = None" by (simp add: ds_stack_def all_keys_def)
qed

lemma remove_agrees:
  assumes rep: "rep l A []" and wf: "wf F A []"
  shows "agrees F l (remove_panel key l) (spec_remove key A)"
proof (cases "find_panel l key")
  case None
  then have "key \<notin> set (all_keys A [])" using find_panel_None [OF rep wf] by simp
  with None show ?thesis by (simp add: agrees_def remove_panel_def take_panel_def spec_remove_def)
next
  case (Some p)
  then have "key \<in> set (all_keys A [])" using find_panel_None [OF rep wf, of key] by auto
  with take_panel_rep [OF rep wf Some] prune_wf [OF wf] show ?thesis
    by (auto simp: agrees_def remove_panel_def spec_remove_def)
qed

lemma panel_absent:
  assumes "rep l A []" and "wf F A []" and "key \<notin> set (all_keys A [])"
  shows "find_panel l key = None" "ds_stack key A = None"
  using find_panel_None [OF assms(1,2)] stack_None [OF assms(2,1)] assms(3) by simp_all

text \<open>A copy changed and kept only where the change was done.\<close>

lemma agrees_retry:
  "agrees F m out sp \<Longrightarrow> agrees F l (let (ok, l2) = out in if ok then (True, l2) else (False, l)) sp"
  by (cases out; cases sp) (auto simp: agrees_def)

lemma room_prune: "room k A \<Longrightarrow> room k (ds_prune key A)"
  by (simp add: room_def ds_prune_def)

lemma move_agrees:
  assumes rep: "rep l A []" and wf: "wf F A []" and F: "dock_floats F" and room: "room 2 A"
  shows "agrees F l (move_panel F key target l) (spec_move F key target A)"
proof (cases "key \<in> set (all_keys A [])")
  case False
  from panel_absent [OF rep wf this] show ?thesis by (simp add: agrees_def move_panel_def spec_move_def)
next
  case True
  obtain p ps a n where p: "find_panel l key = Some p" "ds_stack key A = Some (place_stack p, ps, a)"
    and n: "node l (place_stack p) = Some n" "node_panels n = ps"
    by (rule place_rep [OF rep wf True]) (rule that)
  have lost: "target_lost l target \<longleftrightarrow> spec_lost A target"
    using rep_ids [OF rep] by (simp add: target_lost_def spec_lost_def)
  have dest: "(if target_node target = kNoDockNode then dl_root l else target_node target) = spec_dest A target"
    by (simp add: spec_dest_def repD(3) [OF rep])
  have alone: "alone_in l (place_stack p) \<longleftrightarrow> length ps = 1" using n by (simp add: alone_in_def)
  obtain m where m: "take_panel key l = (True, fst (ds_collapsed key A), snd (ds_collapsed key A), m)"
    "rep m (ds_prune key A) []"
    using take_panel_rep [OF rep wf p(1)] by blast
  let ?t = "if target_node target \<noteq> kNoDockNode \<and> target_node target = fst (ds_collapsed key A)
    then target\<lparr>target_node := snd (ds_collapsed key A)\<rparr> else target"
  have add: "agrees F m (add_panel F key ?t m) (spec_add F key ?t (ds_prune key A))"
    by (rule add_agrees [OF m(2) prune_wf [OF wf] F room_prune [OF room]])
  show ?thesis
  proof (cases "spec_lost A target
      \<or> spec_dest A target = place_stack p \<and> (length ps = 1 \<or> target_zone target = ZoneCenter)")
    case True
    then show ?thesis
      using p lost alone unfolding move_panel_def spec_move_def dest Let_def agrees_def by auto
  next
    case False
    have "move_panel F key target l =
        (let (ok, l2) = add_panel F key ?t m in if ok then (True, l2) else (False, l))"
      using p(1) lost alone False m(1) unfolding move_panel_def dest Let_def by auto
    moreover have "spec_move F key target A = spec_add F key ?t (ds_prune key A)"
      using p(2) False unfolding spec_move_def by (auto simp: case_prod_beta)
    ultimately show ?thesis using agrees_retry [OF add] by (simp only:)
  qed
qed

lemma activate_agrees:
  assumes rep: "rep l A []" and wf: "wf F A []"
  shows "agrees F l (activate_panel key l) (spec_activate key A)"
proof (cases "key \<in> set (all_keys A [])")
  case False
  from panel_absent [OF rep wf this] show ?thesis
    by (simp add: agrees_def activate_panel_def spec_activate_def)
next
  case True
  obtain p ps a n where p: "find_panel l key = Some p" "ds_stack key A = Some (place_stack p, ps, a)"
    and sub: "forest_sub (place_stack p) (ds_trees A) = Some (Stack (place_stack p) ps a)" "key \<in> set ps"
    and idx: "place_index p = index_of key ps"
    and n: "node l (place_stack p) = Some n" "node_panels n = ps"
    by (rule place_rep [OF rep wf True]) (rule that)
  let ?u = "Stack (place_stack p) ps (index_of key ps)"
  have "rep (with_node (place_stack p) (node_active_update (\<lambda>_. place_index p)) l) (ds_put (place_stack p) ?u A) []"
    by (rule rep_stack [OF rep wf sub(1) n(1)]) (simp_all add: n idx)
  moreover have "wf F (ds_put (place_stack p) ?u A\<lparr>ds_next := ds_next A\<rparr>) []"
    by (rule wf_put [OF wf sub(1), where new = "[]" and nk = "[]"]) (use sub(2) in \<open>auto simp: index_of_less\<close>)
  ultimately show ?thesis
    using p by (simp add: agrees_def activate_panel_def spec_activate_def ds_put_def)
qed

lemma insert_at_mset: "mset (insert_at i x xs) = add_mset x (mset xs)"
proof -
  have "mset (take i xs) + mset (drop i xs) = mset xs" by (metis append_take_drop_id mset_append)
  then show ?thesis by (simp add: insert_at_def)
qed

lemma reorder_agrees:
  assumes rep: "rep l A []" and wf: "wf F A []"
  shows "agrees F l (reorder_panel key index l) (spec_reorder key index A)"
proof (cases "key \<in> set (all_keys A [])")
  case False
  from panel_absent [OF rep wf this] show ?thesis
    by (simp add: agrees_def reorder_panel_def spec_reorder_def)
next
  case True
  obtain p ps a n where p: "find_panel l key = Some p" "ds_stack key A = Some (place_stack p, ps, a)"
    and sub: "forest_sub (place_stack p) (ds_trees A) = Some (Stack (place_stack p) ps a)" "key \<in> set ps"
    and idx: "place_index p = index_of key ps"
    and n: "node l (place_stack p) = Some n" "node_panels n = ps" "node_active n = a"
    by (rule place_rep [OF rep wf True]) (rule that)
  let ?rest = "remove1 key ps"
  let ?ps = "insert_at (min index (length ?rest)) key ?rest"
  let ?u = "Stack (place_stack p) ?ps (index_of (ps ! a) ?ps)"
  have tabs: "reorder_tabs (place_index p) index n = n\<lparr>node_panels := ?ps, node_active := index_of (ps ! a) ?ps\<rparr>"
    using sub(2) idx n by (simp add: reorder_tabs_def Let_def delete_index index_of_nth)
  have "rep (with_node (place_stack p) (reorder_tabs (place_index p) index) l) (ds_put (place_stack p) ?u A) []"
    by (rule rep_stack [OF rep wf sub(1) n(1)]) (simp_all add: tabs)
  moreover have keys: "mset ?ps = mset ps" using sub(2) by (simp add: insert_at_mset)
  moreover have "wf F (ds_put (place_stack p) ?u A\<lparr>ds_next := ds_next A\<rparr>) []"
  proof (rule wf_put [OF wf sub(1), where new = "[]" and nk = "[]"])
    have "tree_ok F (Stack (place_stack p) ps a)"
      using forest_sub_Some [OF sub(1)] sub_at_ok wfD(6) [OF wf] by fastforce
    then have "ps ! a \<in> set ps" by simp
    then have "ps ! a \<in> set ?ps" using mset_eq_setD [OF keys] by simp
    then show "tree_ok F ?u" by (simp add: index_of_less)
  qed (use keys in auto)
  ultimately show ?thesis
    using p by (simp add: agrees_def reorder_panel_def spec_reorder_def ds_put_def Let_def)
qed

lemma clamp_ok: "dock_floats F \<Longrightarrow> \<not> f_isnan F x \<Longrightarrow>
    \<not> bad_ratio F (f_clamp F x (kDockRatioMin F) (kDockRatioMax F))"
  by (auto simp: dock_floats_def bad_ratio_def f_clamp_def)

lemma ratio_agrees:
  assumes rep: "rep l A []" and wf: "wf F A []" and F: "dock_floats F"
  shows "agrees F l (set_ratio F i ratio l) (spec_ratio F i ratio A)"
proof (cases "forest_sub i (ds_trees A)")
  case None
  then have "node l i = None" using rep_ids [OF rep] forest_sub_None by blast
  with None show ?thesis by (simp add: agrees_def set_ratio_def spec_ratio_def)
next
  case (Some s)
  note sub = this
  then obtain n where n: "node l i = Some n"
    using rep_ids [OF rep, of i] forest_sub_None [of i "ds_trees A"] by auto
  have holds: "holds (Some n) (node_parent n) s" by (rule stack_node [OF rep wf n sub])
  have i: "top_id s = i" using forest_sub_Some [OF sub] sub_at_sub by blast
  show ?thesis
  proof (cases s)
    case (Stack j ps a)
    with holds sub n show ?thesis by (simp add: agrees_def set_ratio_def spec_ratio_def)
  next
    case (Split j ax r x y)
    then have s: "forest_sub i (ds_trees A) = Some (Split i ax r x y)" using sub i by simp
    have kind: "node_kind n = KindSplit" using holds Split by simp
    show ?thesis
    proof (cases "f_isnan F ratio")
      case True
      with kind n s show ?thesis by (simp add: agrees_def set_ratio_def spec_ratio_def)
    next
      case False
      let ?r = "f_clamp F ratio (kDockRatioMin F) (kDockRatioMax F)"
      have "tree_ok F (Split i ax r x y)"
        using forest_sub_Some [OF s] sub_at_ok wfD(6) [OF wf] by fastforce
      then have "wf F (ds_put i (Split i ax ?r x y) A\<lparr>ds_next := ds_next A\<rparr>) []"
        using clamp_ok [OF F False] by (intro wf_put [OF wf s, where new = "[]" and nk = "[]"]) auto
      with rep_ratio [OF rep wf s n, of ?r] False kind n s show ?thesis
        by (simp add: agrees_def set_ratio_def spec_ratio_def ds_put_def)
    qed
  qed
qed

end
