(* ===== verification/Dock_Floats.thy ===== *)
theory Dock_Floats
  imports Dock_Refine
begin

section \<open>The floating trees of a dock layout\<close>

text \<open>
  The operations on floats and their specifications: the climb of \<open>float_of\<close> ends at the top of the
  tree of a node, so that it names the float that holds the node, and a float taken out of the list
  leaves its tree detached.
\<close>

definition ds_float :: "dock_id \<Rightarrow> ('f, 'r) dock_spec \<Rightarrow> (dock_id \<times> 'f dtree \<times> 'r) option" where
  "ds_float fid A = find_first (\<lambda>f. fst f = fid) (ds_floats A)"

definition spec_float_of :: "('f, 'r) dock_spec \<Rightarrow> dock_id \<Rightarrow> dock_id" where
  "spec_float_of A i = (case find_first (\<lambda>f. i \<in> set (tree_ids (fst (snd f)))) (ds_floats A) of
     None \<Rightarrow> kNoDockNode | Some f \<Rightarrow> fst f)"

definition spec_rect :: "dock_id \<Rightarrow> 'r \<Rightarrow> ('f, 'r) dock_spec \<Rightarrow> ('f, 'r) dock_spec option" where
  "spec_rect fid rect A = (case ds_float fid A of None \<Rightarrow> None
     | Some _ \<Rightarrow> Some (A\<lparr>ds_floats := map (\<lambda>f. if fst f = fid then (fid, fst (snd f), rect) else f)
         (ds_floats A)\<rparr>))"

definition spec_raise :: "dock_id \<Rightarrow> ('f, 'r) dock_spec \<Rightarrow> ('f, 'r) dock_spec option" where
  "spec_raise fid A = (case ds_float fid A of None \<Rightarrow> None
     | Some f \<Rightarrow> Some (A\<lparr>ds_floats := filter (\<lambda>f. fst f \<noteq> fid) (ds_floats A) @ [f]\<rparr>))"

text \<open>A panel that is all of a float is raised with its new rect, another goes into a new float.\<close>

definition spec_float :: "'f float_arith \<Rightarrow> string \<Rightarrow> 'r \<Rightarrow> ('f, 'r) dock_spec
    \<Rightarrow> ('f, 'r) dock_spec option" where
  "spec_float F key rect A =
     (if key \<notin> set (all_keys A []) then None
      else case find_first (\<lambda>f. tree_keys (fst (snd f)) = [key]) (ds_floats A) of
        Some (j, t, r) \<Rightarrow> Some (A\<lparr>ds_floats := filter (\<lambda>f. fst f \<noteq> j) (ds_floats A) @ [(j, t, rect)]\<rparr>)
      | None \<Rightarrow> Some ((ds_prune key A)\<lparr>ds_floats := ds_floats (ds_prune key A)
            @ [(ds_next A + 1, Stack (ds_next A) [key] 0, rect)], ds_next := ds_next A + 2\<rparr>))"

definition spec_dock_float :: "'f float_arith \<Rightarrow> dock_id \<Rightarrow> dock_target \<Rightarrow> ('f, 'r) dock_spec
    \<Rightarrow> ('f, 'r) dock_spec option" where
  "spec_dock_float F fid target A =
     (case ds_float fid A of None \<Rightarrow> None
      | Some (j, t, r) \<Rightarrow>
          (let B = A\<lparr>ds_floats := filter (\<lambda>f. fst f \<noteq> fid) (ds_floats A)\<rparr> in
           if spec_lost A target
              \<or> target_node target \<noteq> kNoDockNode \<and> target_node target \<in> set (tree_ids t) then None
           else if target_zone target = ZoneCenter \<and> \<not> spec_fills B target then
             (case (forest_sub (spec_dest B target) (ds_trees B), t) of
                (Some (Stack i ps a), Stack k qs b) \<Rightarrow>
                  Some (ds_put i (Stack i (ps @ qs) (length ps + b)) B)
              | _ \<Rightarrow> None)
           else spec_insert F t target B))"

subsection \<open>The climb to the top of a tree\<close>

lemma climb_tree:
  assumes "shape (node l) p t" and "distinct (tree_ids t)" and "i \<in> set (tree_ids t)"
    and "kNoDockNode \<notin> set (tree_ids t)" and "node l i = Some n"
  shows "\<exists>d m. d < length (tree_ids t) \<and> node l (top_id t) = Some m \<and> (\<forall>k. climb (d + k) l n = climb k l m)"
  using assms
proof (induction t arbitrary: p)
  case (Stack j ps a)
  then show ?case by (intro exI [of _ 0] exI [of _ n]) auto
next
  case (Split j ax r x y)
  show ?case
  proof (cases "i = j")
    case True
    with Split.prems show ?thesis by (intro exI [of _ 0] exI [of _ n]) auto
  next
    case False
    then obtain z where z: "z = x \<or> z = y" "i \<in> set (tree_ids z)" using Split.prems(3) by auto
    have sh: "shape (node l) j z" "distinct (tree_ids z)" "kNoDockNode \<notin> set (tree_ids z)"
      using z(1) Split.prems(1,2,4) by auto
    obtain d m where d: "d < length (tree_ids z)" "node l (top_id z) = Some m"
      "\<forall>k. climb (d + k) l n = climb k l m"
      using z Split.IH(1) [OF _ _ _ _ Split.prems(5)] Split.IH(2) [OF _ _ _ _ Split.prems(5)] sh by metis
    obtain nj where nj: "node l j = Some nj" using Split.prems(1) by (auto elim: holdsE)
    have "node_parent m = j" using shape_top [OF sh(1)] d(2) by (auto elim: holdsE)
    then have "climb (Suc k) l m = climb k l nj" for k
      using nj Split.prems(4) by simp
    then have "\<forall>k. climb (Suc d + k) l n = climb k l nj"
      using d(3) by (metis add_Suc_right add_Suc)
    moreover have "Suc d < length (tree_ids (Split j ax r x y))" using d(1) z(1) by auto
    ultimately show ?thesis using nj by auto
  qed
qed

lemma float_tops:
  assumes "distinct (forest_ids (map (fst \<circ> snd) fs))" and "t \<in> set (map (fst \<circ> snd) fs)"
    and "i \<in> set (tree_ids t)"
  shows "find_first (\<lambda>f. top_id (fst (snd f)) = top_id t) fs
      = find_first (\<lambda>f. i \<in> set (tree_ids (fst (snd f)))) fs"
  using assms
proof (induction fs)
  case (Cons f fs)
  have apart: "fst (snd f) \<noteq> t \<Longrightarrow> set (tree_ids (fst (snd f))) \<inter> set (tree_ids t) = {}"
    using forest_apart [OF Cons.prems(1) _ Cons.prems(2), of "fst (snd f)"] by simp
  have "top_id (fst (snd f)) = top_id t \<longleftrightarrow> fst (snd f) = t"
    using apart top_in_ids [of t] top_in_ids [of "fst (snd f)"] by (metis IntI empty_iff)
  moreover have "i \<in> set (tree_ids (fst (snd f))) \<longleftrightarrow> fst (snd f) = t"
    using apart Cons.prems(3) by auto
  ultimately show ?case using Cons by auto
qed simp

lemma float_of_rep:
  assumes rep: "rep l A []" and wf: "wf F A []" and i: "i \<in> set (forest_ids (ds_trees A))"
  shows "float_of l i = spec_float_of A i"
proof -
  obtain t where t: "t \<in> set (ds_trees A)" "i \<in> set (tree_ids t)" using i by auto
  obtain n where n: "node l i = Some n" using rep_node [OF rep, of i] i by auto
  have ids: "distinct (forest_ids (ds_trees A))" by (rule wfD [OF wf])
  have zero: "kNoDockNode \<notin> set (tree_ids t)" using wf_nonzero [OF wf, of kNoDockNode] t(1) by auto
  have dist: "distinct (tree_ids t)" using ids t(1) by (simp add: distinct_concat_iff)
  obtain d m where d: "d < length (tree_ids t)" "node l (top_id t) = Some m"
    "\<forall>k. climb (d + k) l n = climb k l m"
    using climb_tree [OF repD(5) [OF rep t(1)] dist t(2) zero n] by blast
  have top: "node_parent m = kNoDockNode" "node_id m = top_id t"
    using shape_top [OF repD(5) [OF rep t(1)]] d(2) by (auto elim: holdsE)
  have "set (tree_ids t) \<subseteq> fst ` set (dl_nodes l)"
  proof -
    have "dom (node l) = fst ` set (dl_nodes l)"
      by (metis dom_map_of_conv_image_fst node_def ext)
    then show ?thesis using repD(6) [OF rep] t(1) by auto
  qed
  then have "length (tree_ids t) \<le> length (dl_nodes l)"
    using card_mono [of "fst ` set (dl_nodes l)" "set (tree_ids t)"] card_image_le [of "set (dl_nodes l)" fst]
      card_length [of "dl_nodes l"] distinct_card [OF dist] by simp
  then have "d \<le> length (dl_nodes l)" using d(1) by simp
  then obtain k where "length (dl_nodes l) = d + k" by (metis le_Suc_ex)
  moreover have "climb k l m = Some m" using top(1) by (cases k) auto
  ultimately have "climb (length (dl_nodes l)) l n = Some m" using d(3) by simp
  then have "float_of l i = (case find_first (\<lambda>f. float_root f = top_id t) (dl_floats l) of
      None \<Rightarrow> kNoDockNode | Some f \<Rightarrow> float_id f)"
    using n top(2) by (simp add: float_of_def)
  also have "\<dots> = (case find_first (\<lambda>f. top_id (fst (snd f)) = top_id t) (ds_floats A) of
      None \<Rightarrow> kNoDockNode | Some f \<Rightarrow> fst f)"
    unfolding repD(4) [OF rep] find_first_map
    by (simp add: comp_def abs_float_def case_prod_beta split: option.splits)
  also have "find_first (\<lambda>f. top_id (fst (snd f)) = top_id t) (ds_floats A)
      = find_first (\<lambda>f. i \<in> set (tree_ids (fst (snd f)))) (ds_floats A)"
  proof (cases "t \<in> set (map (fst \<circ> snd) (ds_floats A))")
    case True
    then show ?thesis using ids t(2) by (intro float_tops) (auto simp: ds_trees_def)
  next
    case False
    have "t' \<in> set (ds_trees A) \<and> t' \<noteq> t" if "t' \<in> set (map (fst \<circ> snd) (ds_floats A))" for t'
      using that False by (auto simp: ds_trees_def)
    then have "top_id t' \<noteq> top_id t \<and> i \<notin> set (tree_ids t')"
      if "t' \<in> set (map (fst \<circ> snd) (ds_floats A))" for t'
      using that forest_apart [OF ids _ t(1), of t'] t(2) top_in_ids [of t] top_in_ids [of t']
      by (metis IntI empty_iff)
    then have "find_first (\<lambda>f. top_id (fst (snd f)) = top_id t) (ds_floats A) = None"
      "find_first (\<lambda>f. i \<in> set (tree_ids (fst (snd f)))) (ds_floats A) = None"
      by (auto simp: find_first_None)
    then show ?thesis by simp
  qed
  finally show ?thesis by (simp add: spec_float_of_def)
qed

subsection \<open>Lists of floats\<close>

lemma wf_fids: "wf F A W \<Longrightarrow> distinct (map fst (ds_floats A))"
  using wfD(7) [of F A W] by (simp add: all_ids_def)

lemma find_float_rep:
  fixes l :: "('f, 'r) dock_layout"
  assumes rep: "rep l A W"
  shows "find_float l fid = map_option abs_float (ds_float fid A)"
proof -
  have "(\<lambda>f. float_id f = fid) \<circ> abs_float = (\<lambda>f :: dock_id \<times> 'f dtree \<times> 'r. fst f = fid)"
    by (auto simp: abs_float_def fun_eq_iff)
  then show ?thesis by (simp only: find_float_def ds_float_def repD(4) [OF rep] find_first_map)
qed

lemma ds_float_mem:
  "ds_float fid A = Some f \<Longrightarrow> f \<in> set (ds_floats A) \<and> fst f = fid"
  unfolding ds_float_def using find_first_Some by fast

lemma other_fids: "distinct (map fst (f # fs)) \<Longrightarrow> g \<in> set fs \<Longrightarrow> fst g \<noteq> fst f"
  by (metis distinct.simps(2) image_eqI list.set_map list.simps(9))

lemma with_float_map:
  "distinct (map fst fs) \<Longrightarrow> with_float fid (float_rect_update (\<lambda>_. rect)) (map abs_float fs)
   = map abs_float (map (\<lambda>f. if fst f = fid then (fid, fst (snd f), rect) else f) fs)"
proof (induction fs)
  case (Cons f fs)
  have "map (\<lambda>f. if fst f = fid then (fid, fst (snd f), rect) else f) fs = fs" if "fst f = fid"
    using other_fids [OF Cons.prems] that by (intro map_idI) simp
  with Cons show ?case
    by (cases "fst f = fid") (simp_all add: abs_float_def case_prod_beta del: map_map)
qed simp

lemma drop_float_map:
  "distinct (map fst fs) \<Longrightarrow> drop_float fid (map abs_float fs) = map abs_float (filter (\<lambda>f. fst f \<noteq> fid) fs)"
proof (induction fs)
  case (Cons f fs)
  have "filter (\<lambda>f. fst f \<noteq> fid) fs = fs" if "fst f = fid"
    using other_fids [OF Cons.prems] that by (intro filter_True) simp
  with Cons show ?case by (auto simp: abs_float_def case_prod_beta)
qed simp

lemma filter_float_map:
  "filter (\<lambda>f. float_id f \<noteq> fid) (map abs_float fs) = map abs_float (filter (\<lambda>f. fst f \<noteq> fid) fs)"
  by (induction fs) (auto simp: abs_float_def)

text \<open>Other floats in the list, other trees detached, but the same trees in all.\<close>

lemma rep_floats:
  assumes rep: "rep l A W"
    and sub: "\<And>t. t \<in> set (ds_trees (A\<lparr>ds_floats := fs\<rparr>)) \<Longrightarrow> shape (node l) kNoDockNode t"
    and V: "\<And>t. t \<in> set V \<Longrightarrow> \<exists>p. shape (node l) p t"
    and same: "set (ds_trees (A\<lparr>ds_floats := fs\<rparr>) @ V) = set (ds_trees A @ W)"
  shows "rep (l\<lparr>dl_floats := map abs_float fs\<rparr>) (A\<lparr>ds_floats := fs\<rparr>) V"
proof (rule repI)
  have "set (forest_ids (ds_trees (A\<lparr>ds_floats := fs\<rparr>) @ V)) = set (forest_ids (ds_trees A @ W))"
    unfolding set_concat set_map same ..
  then show "dom (node (l\<lparr>dl_floats := map abs_float fs\<rparr>))
      = set (forest_ids (ds_trees (A\<lparr>ds_floats := fs\<rparr>) @ V))"
    using repD(6) [OF rep] by (simp only: layout_update_sel)
qed (use repD(1-3) [OF rep] sub V in simp_all)

lemma wf_floats:
  assumes wf: "wf F A W"
    and ids: "mset (all_ids (A\<lparr>ds_floats := fs\<rparr>) V) \<subseteq># mset (all_ids A W)"
    and keys: "mset (all_keys (A\<lparr>ds_floats := fs\<rparr>) V) \<subseteq># mset (all_keys A W)"
    and trees: "set (ds_trees (A\<lparr>ds_floats := fs\<rparr>) @ V) \<subseteq> set (ds_trees A @ W)"
  shows "wf F (A\<lparr>ds_floats := fs\<rparr>) V"
  by (rule wf_step [OF wf, where new = "[]" and nk = "[]"])
    (use ids keys trees wfD(6) [OF wf] in auto)

lemma rect_agrees:
  assumes rep: "rep l A []" and wf: "wf F A []"
  shows "agrees F l (set_float_rect fid rect l) (spec_rect fid rect A)"
proof (cases "ds_float fid A")
  case None
  with find_float_rep [OF rep, of fid] show ?thesis by (simp add: agrees_def set_float_rect_def spec_rect_def)
next
  case (Some f)
  let ?fs = "map (\<lambda>f. if fst f = fid then (fid, fst (snd f), rect) else f) (ds_floats A)"
  have "map (fst \<circ> snd) ?fs = map (fst \<circ> snd) (ds_floats A)" "map fst ?fs = map fst (ds_floats A)"
    by auto
  then have same: "ds_trees (A\<lparr>ds_floats := ?fs\<rparr>) = ds_trees A" "all_ids (A\<lparr>ds_floats := ?fs\<rparr>) [] = all_ids A []"
    "all_keys (A\<lparr>ds_floats := ?fs\<rparr>) [] = all_keys A []"
    by (simp_all add: ds_trees_def all_ids_def all_keys_def del: map_map list.map_comp)
  have "rep (l\<lparr>dl_floats := map abs_float ?fs\<rparr>) (A\<lparr>ds_floats := ?fs\<rparr>) []"
    by (rule rep_floats [OF rep]) (use same repD(5) [OF rep] in auto)
  moreover have "wf F (A\<lparr>ds_floats := ?fs\<rparr>) []"
    by (rule wf_floats [OF wf]) (use same in auto)
  moreover have "set_float_rect fid rect l = (True, l\<lparr>dl_floats := map abs_float ?fs\<rparr>)"
    using Some find_float_rep [OF rep, of fid]
    by (simp add: set_float_rect_def repD(4) [OF rep] with_float_map [OF wf_fids [OF wf]])
  ultimately show ?thesis using Some by (simp add: agrees_def spec_rect_def)
qed

lemma filter_other_mset:
  "distinct (map fst fs) \<Longrightarrow> f \<in> set fs \<Longrightarrow> mset fs = add_mset f (mset (filter (\<lambda>g. fst g \<noteq> fst f) fs))"
proof (induction fs)
  case (Cons g fs)
  show ?case
  proof (cases "g = f")
    case True
    then have "filter (\<lambda>g. fst g \<noteq> fst f) fs = fs" using other_fids [OF Cons.prems(1)] True by (intro filter_True) simp
    with True show ?thesis by simp
  next
    case False
    then have "fst g \<noteq> fst f" using Cons.prems by force
    with False Cons show ?thesis by simp
  qed
qed simp

lemma floats_mset:
  assumes "mset fs = mset (ds_floats A)"
  shows "mset (all_ids (A\<lparr>ds_floats := fs\<rparr>) W) = mset (all_ids A W)"
    and "mset (all_keys (A\<lparr>ds_floats := fs\<rparr>) W) = mset (all_keys A W)"
    and "set (ds_trees (A\<lparr>ds_floats := fs\<rparr>)) = set (ds_trees A)"
proof -
  have sums: "sum_list (map h fs) = sum_list (map h (ds_floats A))" for h :: "_ \<Rightarrow> 'c multiset"
    using assms by (metis mset_map sum_mset_sum_list)
  have "mset (map fst fs) = mset (map fst (ds_floats A))"
    "mset (concat (map (tree_ids \<circ> (fst \<circ> snd)) fs)) = mset (concat (map (tree_ids \<circ> (fst \<circ> snd)) (ds_floats A)))"
    "mset (concat (map (tree_keys \<circ> (fst \<circ> snd)) fs)) = mset (concat (map (tree_keys \<circ> (fst \<circ> snd)) (ds_floats A)))"
    using assms sums by (simp_all add: mset_concat)
  then show "mset (all_ids (A\<lparr>ds_floats := fs\<rparr>) W) = mset (all_ids A W)"
    and "mset (all_keys (A\<lparr>ds_floats := fs\<rparr>) W) = mset (all_keys A W)"
    by (simp_all add: all_ids_def all_keys_def ds_trees_def)
  show "set (ds_trees (A\<lparr>ds_floats := fs\<rparr>)) = set (ds_trees A)"
    using mset_eq_setD [OF assms] by (simp add: ds_trees_def)
qed

lemma raise_agrees:
  assumes rep: "rep l A []" and wf: "wf F A []"
  shows "agrees F l (raise_float fid l) (spec_raise fid A)"
proof (cases "ds_float fid A")
  case None
  with find_float_rep [OF rep, of fid] show ?thesis by (simp add: agrees_def raise_float_def spec_raise_def)
next
  case (Some f)
  let ?fs = "filter (\<lambda>g. fst g \<noteq> fid) (ds_floats A) @ [f]"
  have f: "f \<in> set (ds_floats A)" "fst f = fid" using ds_float_mem [OF Some] by auto
  have "mset ?fs = mset (ds_floats A)" using filter_other_mset [OF wf_fids [OF wf] f(1)] f(2) by simp
  note same = floats_mset [OF this]
  have "rep (l\<lparr>dl_floats := map abs_float ?fs\<rparr>) (A\<lparr>ds_floats := ?fs\<rparr>) []"
    by (rule rep_floats [OF rep]) (use same(3) repD(5) [OF rep] in auto)
  moreover have "wf F (A\<lparr>ds_floats := ?fs\<rparr>) []"
    by (rule wf_floats [OF wf]) (use same in auto)
  moreover have "raise_float fid l = (True, l\<lparr>dl_floats := map abs_float ?fs\<rparr>)"
    using Some find_float_rep [OF rep, of fid]
    by (simp add: raise_float_def repD(4) [OF rep] drop_float_map [OF wf_fids [OF wf]])
  ultimately show ?thesis using Some by (simp add: agrees_def spec_raise_def)
qed

text \<open>The one float that holds a node.\<close>

lemma find_float_holding:
  "distinct (forest_ids (map (fst \<circ> snd) fs)) \<Longrightarrow> f \<in> set fs \<Longrightarrow> i \<in> set (tree_ids (fst (snd f)))
   \<Longrightarrow> find_first (\<lambda>g. i \<in> set (tree_ids (fst (snd g)))) fs = Some f"
proof (induction fs)
  case (Cons g fs)
  show ?case
  proof (cases "f = g")
    case False
    then have "f \<in> set fs" using Cons.prems(2) by simp
    moreover have "i \<notin> set (tree_ids (fst (snd g)))" using calculation Cons.prems(1,3) by force
    ultimately show ?thesis using Cons by simp
  qed (use Cons.prems(3) in simp)
qed simp

lemma float_forest: "wf F A W \<Longrightarrow> distinct (forest_ids (map (fst \<circ> snd) (ds_floats A)))"
  using wfD(1) [of F A W] by (simp add: ds_trees_def)

lemma float_of_holding:
  assumes "wf F A W" and "f \<in> set (ds_floats A)" and "i \<in> set (tree_ids (fst (snd f)))"
  shows "spec_float_of A i = fst f"
  using find_float_holding [OF float_forest [OF assms(1)] assms(2,3)] by (simp add: spec_float_of_def)

lemma fid_facts:
  assumes wf: "wf F A W" and f: "f \<in> set (ds_floats A)"
  shows "fst f \<noteq> kNoDockNode" "ds_float (fst f) A = Some f"
proof -
  have "fst f \<in> set (all_ids A W)" using f by (simp add: all_ids_def)
  then show "fst f \<noteq> kNoDockNode" using wfD(3) [OF wf] by blast
  have "find_first (\<lambda>g. fst g = fst f) fs = Some f" if "distinct (map fst fs)" "f \<in> set fs" for fs
    using that
  proof (induction fs)
    case (Cons g fs)
    then show ?case using other_fids [OF Cons.prems(1)] by (cases "f = g") auto
  qed simp
  then show "ds_float (fst f) A = Some f" using wf_fids [OF wf] f by (simp add: ds_float_def)
qed

lemma ds_float_unique:
  "wf F A W \<Longrightarrow> f \<in> set (ds_floats A) \<Longrightarrow> g \<in> set (ds_floats A) \<Longrightarrow> fst f = fst g \<Longrightarrow> f = g"
  by (metis fid_facts(2) option.inject)

lemma tree_ok_keys: "tree_ok F t \<Longrightarrow> tree_keys t \<noteq> []"
  by (induction t) auto

lemma single_panel_tree:
  assumes "tree_ok F t" and "tree_keys t = [key]"
  obtains i a where "t = Stack i [key] a"
proof (cases t)
  case (Split i ax r x y)
  then have "tree_ok F x" "tree_ok F y" using assms(1) by simp_all
  then have "tree_keys x \<noteq> []" "tree_keys y \<noteq> []" using tree_ok_keys by blast+
  then have "length (tree_keys t) \<ge> 2" using Split by (cases "tree_keys x"; cases "tree_keys y") auto
  then show thesis using assms(2) by simp
qed (use assms that in auto)

lemma fills_float_iff:
  assumes rep: "rep l A []" and wf: "wf F A []" and p: "find_panel l key = Some p"
  shows "find_first (\<lambda>f. tree_keys (fst (snd f)) = [key]) (ds_floats A) =
    (if fills_float l p then ds_float (place_float p) A else None)"
proof -
  have key: "key \<in> set (all_keys A [])" using find_panel_None [OF rep wf, of key] p by auto
  obtain p' ps a n where "find_panel l key = Some p'" "ds_stack key A = Some (place_stack p', ps, a)"
    "forest_sub (place_stack p') (ds_trees A) = Some (Stack (place_stack p') ps a)" "key \<in> set ps"
    "place_float p' = float_of l (place_stack p')"
    "node l (place_stack p') = Some n" "node_panels n = ps"
    by (rule place_rep [OF rep wf key]) (rule that)
  then have st: "ds_stack key A = Some (place_stack p, ps, a)"
    and sub: "forest_sub (place_stack p) (ds_trees A) = Some (Stack (place_stack p) ps a)" "key \<in> set ps"
    and pf: "place_float p = float_of l (place_stack p)"
    and n: "node l (place_stack p) = Some n" "node_panels n = ps" using p by simp_all
  let ?i = "place_stack p"
  have i_in: "?i \<in> set (forest_ids (ds_trees A))" using rep_ids [OF rep, of ?i] n by auto
  have pf: "place_float p = spec_float_of A ?i" using pf float_of_rep [OF rep wf i_in] by simp
  have alone: "alone_in l ?i \<longleftrightarrow> length ps = 1" using n by (simp add: alone_in_def)
  show ?thesis
  proof (cases "find_first (\<lambda>f. tree_keys (fst (snd f)) = [key]) (ds_floats A)")
    case (Some f)
    have f: "f \<in> set (ds_floats A)" "tree_keys (fst (snd f)) = [key]" using find_first_Some [OF Some] by auto
    have t: "fst (snd f) \<in> set (ds_trees A)" using f(1) by (auto simp: ds_trees_def)
    obtain j b where st': "fst (snd f) = Stack j [key] b"
      by (rule single_panel_tree [OF _ f(2)]) (use wfD(6) [OF wf] t in auto)
    have "forest_sub j (ds_trees A) = Some (Stack j [key] b)"
      by (rule forest_sub_in [OF wfD(1) [OF wf] t]) (simp add: st')
    then have "ds_stack key A = Some (j, [key], b)" by (intro ds_stack_at [OF wf]) auto
    then have j: "j = ?i" "ps = [key]" using st by auto
    have "place_float p = fst f" using pf float_of_holding [OF wf f(1), of ?i] st' j by simp
    then have "fills_float l p \<and> ds_float (place_float p) A = Some f"
      using fid_facts [OF wf f(1)] find_float_rep [OF rep, of "fst f"] alone j st'
      by (auto simp: fills_float_def abs_float_def case_prod_beta)
    with Some show ?thesis by simp
  next
    case None
    have "\<not> fills_float l p"
    proof
      assume fills: "fills_float l p"
      then obtain f where f: "find_first (\<lambda>f. ?i \<in> set (tree_ids (fst (snd f)))) (ds_floats A) = Some f"
        "place_float p = fst f"
        using pf by (auto simp: fills_float_def spec_float_of_def split: option.splits)
      have mem: "f \<in> set (ds_floats A)" using find_first_Some [OF f(1)] by simp
      have top: "top_id (fst (snd f)) = ?i"
        using fills find_float_rep [OF rep, of "fst f"] fid_facts [OF wf mem] f(2)
        by (simp add: fills_float_def abs_float_def case_prod_beta)
      have "fst (snd f) \<in> set (ds_trees A)" using mem by (auto simp: ds_trees_def)
      then have "forest_sub ?i (ds_trees A) = Some (fst (snd f))"
        using forest_sub_in [OF wfD(1) [OF wf], of "fst (snd f)" ?i] top by (metis sub_at_top)
      then have "fst (snd f) = Stack ?i ps a" using sub(1) by simp
      moreover have "ps = [key]" using fills alone sub(2) by (cases ps) (auto simp: fills_float_def)
      ultimately show False using None mem by (auto simp: find_first_None)
    qed
    with None show ?thesis by simp
  qed
qed

lemma rep_next: "rep l A W \<Longrightarrow> rep (l\<lparr>dl_next := k\<rparr>) (A\<lparr>ds_next := k\<rparr>) W"
  by (simp add: rep_def)

lemma float_agrees:
  assumes rep: "rep l A []" and wf: "wf F A []" and room: "room 2 A"
  shows "agrees F l (float_panel F key rect l) (spec_float F key rect A)"
proof (cases "key \<in> set (all_keys A [])")
  case False
  from panel_absent [OF rep wf this] False show ?thesis by (simp add: agrees_def float_panel_def spec_float_def)
next
  case True
  obtain p where p: "find_panel l key = Some p" using find_panel_None [OF rep wf, of key] True by auto
  note fills = fills_float_iff [OF rep wf p]
  show ?thesis
  proof (cases "fills_float l p")
    case True
    then obtain f where f: "ds_float (place_float p) A = Some f"
      using find_float_rep [OF rep, of "place_float p"] by (auto simp: fills_float_def split: option.splits)
    let ?j = "place_float p" and ?fs = "map (\<lambda>f. if fst f = place_float p then (place_float p, fst (snd f), rect) else f) (ds_floats A)"
    let ?B = "A\<lparr>ds_floats := ?fs\<rparr>"
    have mem: "f \<in> set (ds_floats A)" "fst f = ?j" using ds_float_mem [OF f] by auto
    have B: "rep (snd (set_float_rect ?j rect l)) ?B []" "wf F ?B []"
      using rect_agrees [OF rep wf, of ?j rect] f by (auto simp: agrees_def spec_rect_def)
    have f': "ds_float ?j ?B = Some (?j, fst (snd f), rect)"
      using fid_facts(2) [OF B(2), of "(?j, fst (snd f), rect)"] mem by (force simp: image_iff)
    have "filter (\<lambda>f. fst f \<noteq> ?j) ?fs = filter (\<lambda>f. fst f \<noteq> ?j) (ds_floats A)"
      by (induction "ds_floats A") (auto simp: filter_map comp_def intro!: map_idI)
    then have same: "spec_float F key rect A = spec_raise ?j ?B"
      using True fills f f' \<open>key \<in> set (all_keys A [])\<close> mem(2)
      by (simp add: spec_raise_def spec_float_def case_prod_beta)
    obtain C where C: "spec_raise ?j ?B = Some C" using f' by (simp add: spec_raise_def)
    have "agrees F (snd (set_float_rect ?j rect l)) (raise_float ?j (snd (set_float_rect ?j rect l))) (Some C)"
      using raise_agrees [OF B, of ?j] unfolding C .
    then show ?thesis using p True unfolding same C by (simp add: agrees_def float_panel_def)
  next
    case False
    let ?P = "ds_prune key A" and ?i = "ds_next A"
    obtain m where m: "take_panel key l = (True, fst (ds_collapsed key A), snd (ds_collapsed key A), m)"
      "rep m ?P []"
      using take_panel_rep [OF rep wf p] by blast
    have wfP: "wf F ?P []" by (rule prune_wf [OF wf])
    have nxt: "ds_next ?P = ?i" by (simp add: ds_prune_def)
    have nz: "?i \<noteq> kNoDockNode" "?i < ?i + 1" "?i + 1 \<noteq> kNoDockNode" "?i + 1 < ?i + 2" "?i + 2 \<noteq> kNoDockNode"
      using room_facts [of 1 A] room_facts [of 0 "A\<lparr>ds_next := ?i + 1\<rparr>"] room
      by (simp_all add: numeral_2_eq_2 add.assoc)
    have new: "key \<notin> set (all_keys ?P [])" by (simp add: prune_all_keys [OF wf])
    have key: "key \<noteq> []" using wfD(5) [OF wf] \<open>key \<in> set (all_keys A [])\<close> by metis
    let ?w = "Stack ?i [key] 0 :: 'a dtree"
    let ?fs = "ds_floats ?P @ [(?i + 1, ?w, rect)]"
    obtain l1 where l1: "make_stack F key m = (?i, l1)" "rep l1 (?P\<lparr>ds_next := ?i + 1\<rparr>) [?w]"
      "shape (node l1) kNoDockNode ?w"
      using rep_make_stack [OF m(2) wfP, of key] nz(1) unfolding nxt by blast
    have "rep (l1\<lparr>dl_floats := map abs_float ?fs\<rparr>) ((?P\<lparr>ds_next := ?i + 1\<rparr>)\<lparr>ds_floats := ?fs\<rparr>) []"
      by (rule rep_floats [OF l1(2)]) (use l1(3) repD(5) [OF l1(2)] in \<open>auto simp: ds_trees_def\<close>)
    moreover have "(?P\<lparr>ds_next := ?i + 1\<rparr>)\<lparr>ds_floats := ?fs, ds_next := ?i + 2\<rparr>
        = ?P\<lparr>ds_floats := ?fs, ds_next := ?i + 2\<rparr>" by (rule dock_spec.equality) simp_all
    ultimately have "rep (l1\<lparr>dl_floats := map abs_float ?fs, dl_next := ?i + 2\<rparr>)
        (?P\<lparr>ds_floats := ?fs, ds_next := ?i + 2\<rparr>) []"
      using rep_next [of _ _ _ "?i + 2"] by metis
    moreover have "wf F (?P\<lparr>ds_floats := ?fs, ds_next := ?i + 2\<rparr>) []"
      by (rule wf_step [OF wfP, where new = "[?i, ?i + 1]" and nk = "[key]"])
        (use nz new key nxt wfD(6) [OF wfP] in \<open>auto simp: all_ids_def all_keys_def ds_trees_def\<close>)
    moreover have "float_panel F key rect l = (True, l1\<lparr>dl_floats := map abs_float ?fs, dl_next := ?i + 2\<rparr>)"
      using p False m(1) l1(1) repD(2,4) [OF l1(2)]
      by (simp add: float_panel_def abs_float_def)
    moreover have "spec_float F key rect A = Some (?P\<lparr>ds_floats := ?fs, ds_next := ?i + 2\<rparr>)"
      using fills False \<open>key \<in> set (all_keys A [])\<close> by (simp add: spec_float_def)
    ultimately show ?thesis by (simp add: agrees_def)
  qed
qed

lemma rep_erase:
  assumes rep: "rep l A [Stack k qs b]" and k: "k \<notin> set (forest_ids (ds_trees A))"
  shows "rep (erase_node k l) A []"
proof (rule repI)
  have ok: "om_ok (dl_nodes l)" by (rule repD [OF rep])
  show "shape (node (erase_node k l)) kNoDockNode t" if t: "t \<in> set (ds_trees A)" for t
  proof -
    have "k \<notin> set (tree_ids t)" using k t by auto
    then have "shape (node (erase_node k l)) kNoDockNode t \<longleftrightarrow> shape (node l) kNoDockNode t"
      using ok by (intro shape_cong) auto
    then show ?thesis using repD(5) [OF rep t] by simp
  qed
  show "dom (node (erase_node k l)) = set (forest_ids (ds_trees A @ []))"
    using repD(6) [OF rep] k ok by auto
qed (use repD(1-4) [OF rep] in auto)

lemma subset_eq_add_one: "add_mset x M = N \<Longrightarrow> M \<subseteq># N"
  using submset_more(2) [of M M x] by simp

text \<open>A detached stack joined to the stack a target names.\<close>

lemma join_agrees:
  fixes l :: "('f, 'r) dock_layout"
  assumes rep: "rep m B [t]" and wf: "wf F B [t]" and lost: "\<not> spec_lost B target"
    and fills: "\<not> spec_fills B target"
  shows "agrees F l
     (let stack = center_stack m target in
      case node m (top_id t) of None \<Rightarrow> (False, l)
      | Some source \<Rightarrow>
          if stack = kNoDockNode \<or> node_kind source \<noteq> KindTabs then (False, l)
          else (True, erase_node (top_id t) (with_node stack (join_stacks source) m)))
     (case (forest_sub (spec_dest B target) (ds_trees B), t) of
        (Some (Stack i ps a), Stack k qs b) \<Rightarrow>
          Some (ds_put i (Stack i (ps @ qs) (length ps + b)) B)
      | _ \<Rightarrow> None)"
proof -
  let ?d = "spec_dest B target"
  obtain s where s: "forest_sub ?d (ds_trees B) = Some s" "top_id s = ?d"
    by (rule dest_in [OF wf lost fills]) (rule that)
  have d_in: "?d \<in> set (forest_ids (ds_trees B @ [t]))"
    using forest_sub_None [of ?d "ds_trees B"] s(1) by auto
  obtain n where n: "node m ?d = Some n" by (rule rep_node [OF rep d_in])
  have holds: "holds (Some n) (node_parent n) s" by (rule stack_node [OF rep wf n s(1)])
  have nz: "?d \<noteq> kNoDockNode" by (rule wf_nonzero [OF wf d_in])
  have stack: "center_stack m target = (if node_kind n = KindTabs then ?d else kNoDockNode)"
    using n by (auto simp: center_stack_def spec_dest_def repD(3) [OF rep] Let_def)
  obtain q where sh: "shape (node m) q t" by (rule detached_shape [OF rep]) auto
  then obtain src where src: "node m (top_id t) = Some src" "holds (Some src) q t"
    using shape_top [OF sh] by (metis holds.simps(1) option.exhaust)
  show ?thesis
  proof (cases "\<exists>ps a k qs b. s = Stack ?d ps a \<and> t = Stack k qs b")
    case False
    then have "node_kind n \<noteq> KindTabs \<or> node_kind src \<noteq> KindTabs"
      using holds src(2) s(2) by (cases s; cases t) auto
    moreover have "(case (Some s, t) of
        (Some (Stack i ps a), Stack k qs b) \<Rightarrow> Some (ds_put i (Stack i (ps @ qs) (length ps + b)) B)
      | _ \<Rightarrow> None) = None"
      using False s(2) by (cases s; cases t) auto
    ultimately show ?thesis using src(1) stack unfolding s(1) by (auto simp: agrees_def Let_def)
  next
    case True
    then obtain ps a k qs b where st: "s = Stack ?d ps a" "t = Stack k qs b" by blast
    have tabs: "node_kind n = KindTabs" "node_panels n = ps" "node_kind src = KindTabs"
      "node_panels src = qs" "node_active src = b"
      using holds src(2) st by auto
    let ?u = "Stack ?d (ps @ qs) (length ps + b) :: 'f dtree" and ?l2 = "with_node ?d (join_stacks src) m"
    have "rep ?l2 (ds_put ?d ?u B) [t]"
      by (rule rep_stack [OF rep wf s(1) [unfolded st(1)] n]) (simp_all add: join_stacks_def tabs)
    moreover have "k \<notin> set (forest_ids (ds_trees (ds_put ?d ?u B)))"
    proof -
      have "mset (forest_ids (map (put_at ?d ?u) (ds_trees B))) = mset (forest_ids (ds_trees B))"
        using forest_put_mset(1) [OF s(1) wfD(1) [OF wf], of ?u] st(1) by simp
      from mset_eq_setD [OF this] show ?thesis using wfD(2) [OF wf] st(2) by simp
    qed
    ultimately have "rep (erase_node k ?l2) (ds_put ?d ?u B) []" unfolding st(2) by (rule rep_erase)
    moreover have "wf F (ds_put ?d ?u B\<lparr>ds_next := ds_next B\<rparr>) []"
    proof (rule wf_put [OF wf s(1), where new = "[]" and nk = "[]"])
      have "tree_ok F t" using wfD(6) [OF wf] by simp
      then show "tree_ok F ?u" by (simp add: st(2))
    qed (use st in auto)
    ultimately show ?thesis
      using src(1) st nz tabs unfolding s(1) stack by (simp add: agrees_def ds_put_def)
  qed
qed

lemma dock_float_agrees:
  assumes rep: "rep l A []" and wf: "wf F A []" and F: "dock_floats F" and room: "room 1 A"
  shows "agrees F l (dock_float_at F fid target l) (spec_dock_float F fid target A)"
proof (cases "ds_float fid A")
  case None
  with find_float_rep [OF rep, of fid] show ?thesis by (simp add: agrees_def dock_float_at_def spec_dock_float_def)
next
  case (Some f)
  obtain j t r where f: "f = (j, t, r)" by (cases f)
  have mem: "(fid, t, r) \<in> set (ds_floats A)" and j: "j = fid" using ds_float_mem [OF Some] f by auto
  have ff: "find_float l fid = Some \<lparr>float_id = fid, float_root = top_id t, float_rect = r\<rparr>"
    using find_float_rep [OF rep, of fid] Some f j by (simp add: abs_float_def)
  have lost: "target_lost l target \<longleftrightarrow> spec_lost A target"
    using rep_ids [OF rep] by (simp add: target_lost_def spec_lost_def)
  let ?fs = "filter (\<lambda>f. fst f \<noteq> fid) (ds_floats A)"
  let ?B = "A\<lparr>ds_floats := ?fs\<rparr>" and ?l1 = "l\<lparr>dl_floats := map abs_float ?fs\<rparr>"
  have split: "mset (ds_floats A) = add_mset (fid, t, r) (mset ?fs)"
    using filter_other_mset [OF wf_fids [OF wf] mem] by simp
  have trees: "set (ds_trees ?B @ [t]) = set (ds_trees A)"
  proof -
    have s: "set (ds_floats A) = insert (fid, t, r) (set ?fs)"
      using arg_cong [OF split, of set_mset] unfolding set_mset_mset set_mset_add_mset_insert .
    have "set (map (fst \<circ> snd) (ds_floats A)) = insert t (set (map (fst \<circ> snd) ?fs))"
      unfolding set_map s by simp
    then show ?thesis by (simp add: ds_trees_def del: set_map set_filter)
  qed
  have rep1: "rep ?l1 ?B [t]"
  proof (rule rep_floats [OF rep])
    show "shape (node l) kNoDockNode t'" if tB: "t' \<in> set (ds_trees ?B)" for t'
    proof (rule repD(5) [OF rep])
      have "t' \<in> set (ds_trees ?B @ [t])" using tB by simp
      then show "t' \<in> set (ds_trees A)" unfolding trees .
    qed
    show "\<exists>p. shape (node l) p t'" if "t' \<in> set [t]" for t'
      using repD(5) [OF rep float_tree [OF mem]] that by auto
    show "set (ds_trees ?B @ [t]) = set (ds_trees A @ [])" using trees by simp
  qed
  have wf1: "wf F ?B [t]"
  proof (rule wf_floats [OF wf])
    have "mset (all_ids (A\<lparr>ds_floats := (fid, t, r) # ?fs\<rparr>) []) = mset (all_ids A [])"
      "mset (all_keys (A\<lparr>ds_floats := (fid, t, r) # ?fs\<rparr>) []) = mset (all_keys A [])"
      by (rule floats_mset, simp only: mset.simps split)+
    then show "mset (all_ids ?B [t]) \<subseteq># mset (all_ids A [])" "mset (all_keys ?B [t]) \<subseteq># mset (all_keys A [])"
      by (auto simp: all_ids_def all_keys_def ds_trees_def ac_simps intro: subset_eq_add_one)
    show "set (ds_trees ?B @ [t]) \<subseteq> set (ds_trees A @ [])" using trees by simp
  qed
  have inside: "float_of l (target_node target) = fid \<longleftrightarrow> target_node target \<in> set (tree_ids t)"
    if tgt: "target_node target \<noteq> kNoDockNode" "\<not> spec_lost A target"
  proof -
    have i: "target_node target \<in> set (forest_ids (ds_trees A))" using tgt by (simp add: spec_lost_def)
    have of_eq: "float_of l (target_node target) = spec_float_of A (target_node target)"
      by (rule float_of_rep [OF rep wf i])
    have "target_node target \<in> set (tree_ids t)" if here: "spec_float_of A (target_node target) = fid"
    proof -
      obtain g where g: "find_first (\<lambda>f. target_node target \<in> set (tree_ids (fst (snd f)))) (ds_floats A) = Some g"
        "fst g = fid"
        using here fid_facts(1) [OF wf mem] by (auto simp: spec_float_of_def split: option.splits)
      then have "g = (fid, t, r)"
        using ds_float_unique [OF wf _ mem, of g] find_first_Some [OF g(1)] by simp
      then show ?thesis using find_first_Some [OF g(1)] by simp
    qed
    then show ?thesis using of_eq float_of_holding [OF wf mem] by auto
  qed
  show ?thesis
  proof (cases "spec_lost A target \<or> target_node target \<noteq> kNoDockNode \<and> target_node target \<in> set (tree_ids t)")
    case True
    then show ?thesis
      using inside lost ff Some f by (auto simp: agrees_def dock_float_at_def spec_dock_float_def)
  next
    case False
    have lostB: "\<not> spec_lost ?B target"
    proof -
      have "set (forest_ids (ds_trees A)) = set (forest_ids (ds_trees ?B)) \<union> set (tree_ids t)"
        unfolding set_concat set_map trees [symmetric] by auto
      then show ?thesis using False by (auto simp: spec_lost_def)
    qed
    have fills: "fills_root ?l1 target \<longleftrightarrow> spec_fills ?B target"
      using repD(3) [OF rep1] wf_root [OF wf1] by (simp add: fills_root_def spec_fills_def)
    have l1: "l\<lparr>dl_floats := filter (\<lambda>x. float_id x \<noteq> fid) (dl_floats l)\<rparr> = ?l1"
      by (simp add: repD(4) [OF rep] filter_float_map)
    have go: "dock_float_at F fid target l =
       (if target_zone target = ZoneCenter \<and> \<not> spec_fills ?B target then
          (let stack = center_stack ?l1 target in
           case node ?l1 (top_id t) of None \<Rightarrow> (False, l)
           | Some source \<Rightarrow>
               if stack = kNoDockNode \<or> node_kind source \<noteq> KindTabs then (False, l)
               else (True, erase_node (top_id t) (with_node stack (join_stacks source) ?l1)))
        else (let (ok, l2) = insert_subtree F (top_id t) target ?l1 in if ok then (True, l2) else (False, l)))"
      using False ff inside lost fills unfolding dock_float_at_def Let_def l1 by (auto split: option.splits)
    have go_spec: "spec_dock_float F fid target A =
       (if target_zone target = ZoneCenter \<and> \<not> spec_fills ?B target then
          (case (forest_sub (spec_dest ?B target) (ds_trees ?B), t) of
             (Some (Stack i ps a), Stack k qs b) \<Rightarrow>
               Some (ds_put i (Stack i (ps @ qs) (length ps + b)) ?B)
           | _ \<Rightarrow> None)
        else spec_insert F t target ?B)"
      using False Some f by (auto simp: spec_dock_float_def Let_def)
    show ?thesis
    proof (cases "target_zone target = ZoneCenter \<and> \<not> spec_fills ?B target")
      case True
      show ?thesis
        unfolding go go_spec if_P [OF True]
        by (rule join_agrees [OF rep1 wf1 lostB]) (use True in simp)
    next
      case False
      have "room 1 ?B" using room by (simp add: room_def)
      from insert_agrees [OF rep1 wf1 F this lostB] show ?thesis
        unfolding go go_spec if_not_P [OF False] by (auto simp: agrees_def split: option.splits)
    qed
  qed
qed

end
