(* ===== verification/Dock_Valid.thy ===== *)
theory Dock_Valid
  imports Dock_Floats
begin

section \<open>What the check of a dock layout decides\<close>

text \<open>
  \<open>valid\<close> walks the nodes with a list of pending ids. A walk over a tree that is there sees its ids and
  keys, a walk that ends well has seen one tree for each pending id, and so the check accepts exactly
  the layouts that hold trees with the invariants.
\<close>

lemma claim_keys_Some:
  "claim_keys ps keys = Some keys' \<longleftrightarrow>
   distinct ps \<and> [] \<notin> set ps \<and> set ps \<inter> keys = {} \<and> keys' = keys \<union> set ps"
  by (induction ps arbitrary: keys) auto

lemma dock_walk_tree:
  assumes "shape (node l) p t" and "distinct (tree_ids t)" and "set (tree_ids t) \<inter> seen = {}"
    and "kNoDockNode \<notin> set (tree_ids t)" and "distinct (tree_keys t)" and "set (tree_keys t) \<inter> keys = {}"
    and "[] \<notin> set (tree_keys t)" and "tree_ok F t"
  shows "dock_walk F l ((top_id t, p) # rest) seen keys
    = dock_walk F l rest (seen \<union> set (tree_ids t)) (keys \<union> set (tree_keys t))"
  using assms
proof (induction t arbitrary: p rest seen keys)
  case (Stack i ps a)
  obtain n where n: "node l i = Some n" "node_parent n = p" "node_kind n = KindTabs"
    "node_panels n = ps" "node_active n = a"
    using Stack.prems(1) by (cases "node l i") auto
  have "claim_keys ps keys = Some (keys \<union> set ps)"
    using Stack.prems by (simp add: claim_keys_Some)
  then show ?case using n Stack.prems by auto
next
  case (Split i ax r x y)
  obtain n where n: "node l i = Some n" "node_parent n = p" "node_kind n = KindSplit"
    "node_ratio n = r" "node_first n = top_id x" "node_second n = top_id y"
    using Split.prems(1) by (cases "node l i") auto
  have nz: "top_id x \<noteq> kNoDockNode" "top_id y \<noteq> kNoDockNode"
    using Split.prems(4) top_in_ids [of x] top_in_ids [of y] by (auto simp del: top_in_ids)
  have "dock_walk F l ((top_id (Split i ax r x y), p) # rest) seen keys
      = dock_walk F l ((top_id y, i) # (top_id x, i) # rest) (insert i seen) keys"
    using n nz Split.prems(3,8) by simp
  also have "\<dots> = dock_walk F l ((top_id x, i) # rest) (insert i seen \<union> set (tree_ids y)) (keys \<union> set (tree_keys y))"
    by (rule Split.IH(2)) (use Split.prems in auto)
  also have "\<dots> = dock_walk F l rest (insert i seen \<union> set (tree_ids y) \<union> set (tree_ids x))
      (keys \<union> set (tree_keys y) \<union> set (tree_keys x))"
    by (rule Split.IH(1)) (use Split.prems in auto)
  also have "insert i seen \<union> set (tree_ids y) \<union> set (tree_ids x) = seen \<union> set (tree_ids (Split i ax r x y))"
    by auto
  also have "keys \<union> set (tree_keys y) \<union> set (tree_keys x) = keys \<union> set (tree_keys (Split i ax r x y))"
    by auto
  finally show ?case .
qed

text \<open>And what a walk that ends well has seen: one tree for each pending node.\<close>

definition walk_found :: "('f, 'r) dock_layout \<Rightarrow> 'f float_arith \<Rightarrow> (dock_id \<times> dock_id) list \<Rightarrow> dock_id set
    \<Rightarrow> string set \<Rightarrow> dock_id set \<Rightarrow> string set \<Rightarrow> 'f dtree list \<Rightarrow> bool" where
  "walk_found l F pending seen keys seen' keys' ts \<longleftrightarrow>
     list_all2 (\<lambda>(i, p) t. top_id t = i \<and> shape (node l) p t) pending ts
     \<and> distinct (forest_ids ts) \<and> set (forest_ids ts) \<inter> seen = {} \<and> seen' = seen \<union> set (forest_ids ts)
     \<and> distinct (forest_keys ts) \<and> set (forest_keys ts) \<inter> keys = {} \<and> keys' = keys \<union> set (forest_keys ts)
     \<and> [] \<notin> set (forest_keys ts) \<and> (\<forall>t \<in> set ts. tree_ok F t)"

lemma walk_found_stack:
  assumes "walk_found l F pending (insert i seen) (keys \<union> set ps) seen' keys' ts"
    and "holds (node l i) p (Stack i ps a)" and "i \<notin> seen" and "a < length ps"
    and "distinct ps" and "[] \<notin> set ps" and "set ps \<inter> keys = {}"
  shows "walk_found l F ((i, p) # pending) seen keys seen' keys' (Stack i ps a # ts)"
  using assms by (auto simp: walk_found_def)

lemma walk_found_split:
  assumes "walk_found l F ((j, i) # (k, i) # pending) (insert i seen) keys seen' keys' (y # x # ts)"
    and "holds (node l i) p (Split i ax r x y)" and "i \<notin> seen" and "\<not> bad_ratio F r"
  shows "walk_found l F ((i, p) # pending) seen keys seen' keys' (Split i ax r x y # ts)"
  using assms by (auto simp: walk_found_def)

lemma dock_walk_found:
  assumes "dock_walk F l pending seen keys = Some (seen', keys')"
    and "\<And>i n. node l i = Some n \<Longrightarrow> node_id n = i"
  shows "\<exists>ts. walk_found l F pending seen keys seen' keys' ts"
  using assms
proof (induction F l pending seen keys rule: dock_walk.induct)
  case (1 F l seen keys)
  then show ?case by (intro exI [of _ "[]"]) (simp add: walk_found_def)
next
  case (2 F l i p pending seen keys)
  obtain n where n: "node l i = Some n" "node_parent n = p" "i \<notin> seen" "node_id n = i"
    using 2 by (auto split: option.splits if_splits)
  show ?case
  proof (cases "node_kind n = KindTabs")
    case True
    obtain keys1 where c: "claim_keys (node_panels n) keys = Some keys1"
      "dock_walk F l pending (insert i seen) keys1 = Some (seen', keys')" "node_active n < length (node_panels n)"
      using 2(3) n True by (auto split: option.splits if_splits)
    have "\<exists>ts. walk_found l F pending (insert i seen) keys1 seen' keys' ts"
    proof -
      have "node_panels n \<noteq> []" using c(3) by auto
      then show ?thesis using "2.IH"(1) [OF n(1) _ True _ c(1,2) 2(4)] n c(3) by auto
    qed
    then obtain ts where ts: "walk_found l F pending (insert i seen) (keys \<union> set (node_panels n)) seen' keys' ts"
      using c(1) by (auto simp: claim_keys_Some)
    have "walk_found l F ((i, p) # pending) seen keys seen' keys' (Stack i (node_panels n) (node_active n) # ts)"
      by (rule walk_found_stack [OF ts]) (use n True c in \<open>auto simp: claim_keys_Some\<close>)
    then show ?thesis ..
  next
    case False
    then have kind: "node_kind n = KindSplit" by (cases "node_kind n") auto
    have ok: "\<not> bad_ratio F (node_ratio n)" "node_first n \<noteq> kNoDockNode" "node_second n \<noteq> kNoDockNode"
      "dock_walk F l ((node_second n, i) # (node_first n, i) # pending) (insert i seen) keys = Some (seen', keys')"
      using 2(3) n False by (auto split: if_splits)
    have "\<exists>ts. walk_found l F ((node_second n, i) # (node_first n, i) # pending) (insert i seen) keys seen' keys' ts"
      using "2.IH"(2) [OF n(1) _ False _ ok(4) 2(4)] n ok by auto
    then obtain y x ts where ts: "walk_found l F ((node_second n, i) # (node_first n, i) # pending) (insert i seen) keys
        seen' keys' (y # x # ts)" "top_id y = node_second n" "top_id x = node_first n"
      by (auto simp: walk_found_def list_all2_Cons1)
    have "walk_found l F ((i, p) # pending) seen keys seen' keys' (Split i (node_axis n) (node_ratio n) x y # ts)"
      by (rule walk_found_split [OF ts(1)]) (use n kind ok ts in auto)
    then show ?thesis ..
  qed
qed

text \<open>The floats, and the whole check.\<close>

definition floats_found :: "('f, 'r) dock_layout \<Rightarrow> 'f float_arith \<Rightarrow> 'r dock_float list \<Rightarrow> dock_id set
    \<Rightarrow> dock_id set \<Rightarrow> string set \<Rightarrow> dock_id set \<Rightarrow> string set \<Rightarrow> 'f dtree list \<Rightarrow> bool" where
  "floats_found l F fs fids seen keys seen' keys' ts \<longleftrightarrow>
     walk_found l F (map (\<lambda>f. (float_root f, kNoDockNode)) fs) seen keys seen' keys' ts
     \<and> distinct (map float_id fs) \<and> set (map float_id fs) \<inter> fids = {}
     \<and> (\<forall>f \<in> set fs. float_id f \<noteq> kNoDockNode \<and> float_id f < dl_next l \<and> node l (float_id f) = None)"

lemma walk_found_append:
  assumes "walk_found l F ps seen keys seen1 keys1 ts" and "walk_found l F qs seen1 keys1 seen' keys' us"
  shows "walk_found l F (ps @ qs) seen keys seen' keys' (ts @ us)"
  using assms by (auto simp: walk_found_def list_all2_appendI)

lemma walk_floats_found:
  assumes "walk_floats F l fs fids seen keys = Some (seen', keys')"
    and "\<And>i n. node l i = Some n \<Longrightarrow> node_id n = i"
  shows "\<exists>ts. floats_found l F fs fids seen keys seen' keys' ts"
  using assms
proof (induction fs arbitrary: fids seen keys)
  case Nil
  then show ?case by (intro exI [of _ "[]"]) (simp add: floats_found_def walk_found_def)
next
  case (Cons f fs)
  obtain seen1 keys1 where w: "dock_walk F l [(float_root f, kNoDockNode)] seen keys = Some (seen1, keys1)"
    "walk_floats F l fs (insert (float_id f) fids) seen1 keys1 = Some (seen', keys')"
    and f: "float_id f \<noteq> kNoDockNode" "float_id f < dl_next l" "node l (float_id f) = None" "float_id f \<notin> fids"
    using Cons.prems(1) by (auto simp del: dock_walk.simps split: option.splits if_splits)
  obtain ts where ts: "walk_found l F [(float_root f, kNoDockNode)] seen keys seen1 keys1 ts"
    using dock_walk_found [OF w(1) Cons.prems(2)] by blast
  obtain us where us: "floats_found l F fs (insert (float_id f) fids) seen1 keys1 seen' keys' us"
    using Cons.IH [OF w(2) Cons.prems(2)] by blast
  have "walk_found l F (map (\<lambda>f. (float_root f, kNoDockNode)) (f # fs)) seen keys seen' keys' (ts @ us)"
    using walk_found_append [OF ts] us by (simp add: floats_found_def)
  then have "floats_found l F (f # fs) fids seen keys seen' keys' (ts @ us)"
    using us f by (auto simp: floats_found_def)
  then show ?case ..
qed

lemma walk_floats_trees:
  assumes "\<And>f. f \<in> set fs \<Longrightarrow> shape (node l) kNoDockNode (fst (snd f)) \<and> fst f \<noteq> kNoDockNode
      \<and> fst f < dl_next l \<and> node l (fst f) = None \<and> tree_ok F (fst (snd f))"
    and "distinct (map fst fs)" and "set (map fst fs) \<inter> fids = {}"
    and "distinct (forest_ids (map (fst \<circ> snd) fs))" and "set (forest_ids (map (fst \<circ> snd) fs)) \<inter> seen = {}"
    and "kNoDockNode \<notin> set (forest_ids (map (fst \<circ> snd) fs))"
    and "distinct (forest_keys (map (fst \<circ> snd) fs))" and "set (forest_keys (map (fst \<circ> snd) fs)) \<inter> keys = {}"
    and "[] \<notin> set (forest_keys (map (fst \<circ> snd) fs))"
  shows "walk_floats F l (map abs_float fs) fids seen keys
    = Some (seen \<union> set (forest_ids (map (fst \<circ> snd) fs)), keys \<union> set (forest_keys (map (fst \<circ> snd) fs)))"
  using assms
proof (induction fs arbitrary: fids seen keys)
  case (Cons f fs)
  obtain j t r where f: "f = (j, t, r)" by (cases f)
  have top: "top_id t \<noteq> kNoDockNode" proof
    assume "top_id t = kNoDockNode"
    then have "kNoDockNode \<in> set (tree_ids t)" using top_in_ids [of t] by metis
    then show False using Cons.prems(6) f by simp
  qed
  have fj: "shape (node l) kNoDockNode t" "j \<noteq> kNoDockNode" "j < dl_next l" "node l j = None" "tree_ok F t"
    using Cons.prems(1) [of f] f by simp_all
  have "dock_walk F l [(top_id t, kNoDockNode)] seen keys = dock_walk F l [] (seen \<union> set (tree_ids t)) (keys \<union> set (tree_keys t))"
    by (rule dock_walk_tree [OF fj(1) _ _ _ _ _ _ fj(5)]) (use Cons.prems(4-9) f in auto)
  then have "dock_walk F l [(top_id t, kNoDockNode)] seen keys = Some (seen \<union> set (tree_ids t), keys \<union> set (tree_keys t))"
    unfolding dock_walk.simps(1) .
  moreover have "walk_floats F l (map abs_float fs) (insert j fids) (seen \<union> set (tree_ids t)) (keys \<union> set (tree_keys t))
    = Some ((seen \<union> set (tree_ids t)) \<union> set (forest_ids (map (fst \<circ> snd) fs)),
        (keys \<union> set (tree_keys t)) \<union> set (forest_keys (map (fst \<circ> snd) fs)))"
    by (rule Cons.IH [OF Cons.prems(1)]) (use Cons.prems(2-9) f in auto)
  moreover have "j \<notin> fids" using Cons.prems(3) f by simp
  ultimately show ?case
    using fj(2-4) f top by (simp add: abs_float_def Un_assoc not_le del: dock_walk.simps)
qed simp

lemma node_list: "om_ok (dl_nodes l) \<Longrightarrow> (i, n) \<in> set (dl_nodes l) \<longleftrightarrow> node l i = Some n"
  by (simp add: om_mem node_def)

lemma nodes_card:
  assumes "om_ok (dl_nodes l)"
  shows "finite (dom (node l))" "card (dom (node l)) = length (dl_nodes l)"
proof -
  have dom: "dom (node l) = set (map fst (dl_nodes l))"
    unfolding set_map by (metis dom_map_of_conv_image_fst node_def ext)
  then show "finite (dom (node l))" by simp
  show "card (dom (node l)) = length (dl_nodes l)"
    unfolding dom distinct_card [OF om_distinct [OF assms]] by simp
qed

abbreviation root_trees :: "('f, 'r) dock_spec \<Rightarrow> 'f dtree list" where
  "root_trees A \<equiv> (case ds_root A of None \<Rightarrow> [] | Some t \<Rightarrow> [t])"

lemma wf_valid:
  assumes rep: "rep l A []" and wf: "wf F A []"
  shows "dock_valid F l"
proof -
  have ok: "om_ok (dl_nodes l)" by (rule repD [OF rep])
  have ids: "distinct (forest_ids (ds_trees A))" and keys: "distinct (forest_keys (ds_trees A))"
    and nokey: "[] \<notin> set (forest_keys (ds_trees A))"
    using wfD(1,4,5) [OF wf] by (simp_all add: all_keys_def)
  have nz: "kNoDockNode \<notin> set (forest_ids (ds_trees A))" using wf_nonzero [OF wf, of kNoDockNode] by auto
  have parts: "ds_trees A = root_trees A @ map (fst \<circ> snd) (ds_floats A)" by (simp add: ds_trees_def)
  have root: "(if dl_root l \<noteq> kNoDockNode then dock_walk F l [(dl_root l, kNoDockNode)] {} {} else Some ({}, {}))
      = Some (set (forest_ids (root_trees A)), set (forest_keys (root_trees A)))"
  proof (cases "ds_root A")
    case None
    then show ?thesis using repD(3) [OF rep] by (simp add: root_top_def)
  next
    case (Some t)
    then have t: "t \<in> set (ds_trees A)" by (rule root_tree)
    have "dl_root l = top_id t" "dl_root l \<noteq> kNoDockNode"
      using repD(3) [OF rep] wf_root [OF wf] Some by (simp_all add: root_top_def)
    moreover have "dock_walk F l [(top_id t, kNoDockNode)] {} {} = dock_walk F l [] ({} \<union> set (tree_ids t)) ({} \<union> set (tree_keys t))"
      by (rule dock_walk_tree [OF repD(5) [OF rep t]])
        (use ids keys nokey nz t wfD(6) [OF wf] in \<open>auto simp: distinct_concat_iff\<close>)
    ultimately show ?thesis using Some unfolding dock_walk.simps(1) by simp
  qed
  have floats: "walk_floats F l (dl_floats l) {} (set (forest_ids (root_trees A))) (set (forest_keys (root_trees A)))
      = Some (set (forest_ids (root_trees A)) \<union> set (forest_ids (map (fst \<circ> snd) (ds_floats A))),
          set (forest_keys (root_trees A)) \<union> set (forest_keys (map (fst \<circ> snd) (ds_floats A))))"
    unfolding repD(4) [OF rep]
  proof (rule walk_floats_trees)
    fix f assume f: "f \<in> set (ds_floats A)"
    have t: "fst (snd f) \<in> set (ds_trees A)" using f by (auto simp: ds_trees_def)
    have fid: "fst f \<in> set (all_ids A [])" using f by (simp add: all_ids_def)
    have "fst f \<notin> set (forest_ids (ds_trees A))" using wfD(7) [OF wf] f by (auto simp: all_ids_def)
    then show "shape (node l) kNoDockNode (fst (snd f)) \<and> fst f \<noteq> kNoDockNode \<and> fst f < dl_next l
        \<and> node l (fst f) = None \<and> tree_ok F (fst (snd f))"
      using repD(5) [OF rep t] wfD(3) [OF wf fid] wfD(6) [OF wf] t rep_ids [OF rep] repD(2) [OF rep] by simp
  next
    show "distinct (map fst (ds_floats A))" by (rule wf_fids [OF wf])
  qed (use ids keys nokey nz in \<open>simp_all add: parts Int_commute\<close>)
  have all: "set (forest_ids (root_trees A)) \<union> set (forest_ids (map (fst \<circ> snd) (ds_floats A))) = dom (node l)"
    using repD(6) [OF rep] unfolding parts by simp
  have nodes: "i \<noteq> kNoDockNode \<and> i = node_id n \<and> i < dl_next l" if "(i, n) \<in> set (dl_nodes l)" for i n
  proof -
    have n: "node l i = Some n" using that node_list [OF ok] by simp
    then have i: "i \<in> set (forest_ids (ds_trees A))" using rep_ids [OF rep, of i] by auto
    then obtain t where t: "t \<in> set (ds_trees A)" "i \<in> set (tree_ids t)" by auto
    have "node_id n = i" using shape_node [OF repD(5) [OF rep t(1)] t(2)] n by auto
    moreover have "i \<in> set (all_ids A [])" using i by (simp add: all_ids_def)
    ultimately show ?thesis using wfD(3) [OF wf] repD(2) [OF rep] by simp
  qed
  show ?thesis
    unfolding dock_valid_def root floats option.case case_prod_conv all
    using nodes nodes_card(2) [OF ok] by auto
qed

lemma zip_floats:
  "list_all2 (\<lambda>(i, p) t. top_id t = i \<and> shape N p t) (map (\<lambda>f. (float_root f, kNoDockNode)) fs) ts \<Longrightarrow>
   map (fst \<circ> snd) (map2 (\<lambda>f t. (float_id f, t, float_rect f)) fs ts) = ts
   \<and> map fst (map2 (\<lambda>f t. (float_id f, t, float_rect f)) fs ts) = map float_id fs
   \<and> map abs_float (map2 (\<lambda>f t. (float_id f, t, float_rect f)) fs ts) = fs"
proof (induction fs arbitrary: ts)
  case (Cons f fs)
  then show ?case by (cases ts) (auto simp: abs_float_def)
qed simp

lemma pending_shapes:
  assumes "list_all2 (\<lambda>(i, p) t. top_id t = i \<and> shape N p t) pending ts"
    and "\<And>i p. (i, p) \<in> set pending \<Longrightarrow> p = kNoDockNode" and "t \<in> set ts"
  shows "shape N kNoDockNode t"
  using assms by (induction rule: list_all2_induct) force+

lemma valid_wf:
  assumes ok: "om_ok (dl_nodes l)" and valid: "dock_valid F l"
  obtains A where "rep l A []" "wf F A []"
proof -
  have nodes: "i \<noteq> kNoDockNode \<and> node_id n = i \<and> i < dl_next l" if "node l i = Some n" for i n
    using that valid node_list [OF ok, of i n] by (auto simp: dock_valid_def)
  let ?rp = "if dl_root l \<noteq> kNoDockNode then [(dl_root l, kNoDockNode)] else []"
  obtain seen keys seen1 keys1 where w: "dock_walk F l ?rp {} {} = Some (seen, keys)"
    "walk_floats F l (dl_floats l) {} seen keys = Some (seen1, keys1)" "card seen1 = length (dl_nodes l)"
    using valid unfolding dock_valid_def
    by (auto simp del: dock_walk.simps simp: dock_walk.simps(1) split: option.splits if_splits)
  obtain rs where rs: "walk_found l F ?rp {} {} seen keys rs"
    using dock_walk_found [OF w(1)] nodes by blast
  obtain ts where ts: "floats_found l F (dl_floats l) {} seen keys seen1 keys1 ts"
    using walk_floats_found [OF w(2)] nodes by blast
  let ?fp = "map (\<lambda>f. (float_root f, kNoDockNode)) (dl_floats l)"
  have all: "walk_found l F (?rp @ ?fp) {} {} seen1 keys1 (rs @ ts)"
    by (rule walk_found_append [OF rs]) (use ts in \<open>simp add: floats_found_def\<close>)
  have fl: "list_all2 (\<lambda>(i, p) t. top_id t = i \<and> shape (node l) p t) ?fp ts"
    using ts by (simp add: floats_found_def walk_found_def)
  let ?fs = "map2 (\<lambda>f t. (float_id f, t, float_rect f)) (dl_floats l) ts"
  let ?A = "\<lparr>ds_root = (case rs of [] \<Rightarrow> None | t # _ \<Rightarrow> Some t), ds_floats = ?fs, ds_next = dl_next l\<rparr>"
  have fs: "map (fst \<circ> snd) ?fs = ts" "map fst ?fs = map float_id (dl_floats l)" "map abs_float ?fs = dl_floats l"
    using zip_floats [OF fl] by simp_all
  have rs_root: "rs = (if dl_root l \<noteq> kNoDockNode then [hd rs] else [])" "rs \<noteq> [] \<longrightarrow> top_id (hd rs) = dl_root l"
    using rs by (auto simp: walk_found_def list_all2_Cons1 split: if_splits)
  have trees: "ds_trees ?A = rs @ ts"
    using rs_root(1) fs(1) by (auto simp: ds_trees_def split: list.splits if_splits)
  have shapes: "shape (node l) kNoDockNode t" if "t \<in> set (rs @ ts)" for t
  proof (rule pending_shapes [OF _ _ that])
    show "list_all2 (\<lambda>(i, p) t. top_id t = i \<and> shape (node l) p t) (?rp @ ?fp) (rs @ ts)"
      using all unfolding walk_found_def by blast
  qed (auto split: if_splits)
  have seen1: "seen1 = set (forest_ids (rs @ ts))" using all by (simp add: walk_found_def)
  have "seen1 \<subseteq> dom (node l)"
  proof
    fix i assume "i \<in> seen1"
    then obtain t where t: "t \<in> set (rs @ ts)" "i \<in> set (tree_ids t)" unfolding seen1 by auto
    show "i \<in> dom (node l)" using shape_node [OF shapes [OF t(1)] t(2)] by auto
  qed
  then have dom: "dom (node l) = set (forest_ids (rs @ ts))"
    using card_subset_eq [OF nodes_card(1) [OF ok]] w(3) nodes_card(2) [OF ok] seen1 by metis
  have "rep l ?A []"
    by (rule repI) (use ok fs(3) trees shapes dom rs_root in \<open>auto simp: root_top_def split: list.splits if_splits\<close>)
  moreover have "wf F ?A []"
  proof -
    have f: "distinct (map float_id (dl_floats l))"
      "\<forall>f \<in> set (dl_floats l). float_id f \<noteq> kNoDockNode \<and> float_id f < dl_next l \<and> node l (float_id f) = None"
      using ts by (simp_all add: floats_found_def)
    have ids: "all_ids ?A [] = forest_ids (rs @ ts) @ map float_id (dl_floats l)"
      using trees fs(2) by (simp add: all_ids_def)
    have keys: "all_keys ?A [] = forest_keys (rs @ ts)" using trees by (simp add: all_keys_def)
    have "distinct (all_ids ?A [])"
      unfolding ids using all f dom by (auto simp: walk_found_def)
    moreover have "\<forall>i \<in> set (all_ids ?A []). i \<noteq> kNoDockNode \<and> i < ds_next ?A"
      unfolding ids set_append dom [symmetric] using nodes f(2) by auto
    ultimately show ?thesis
      using all unfolding wf_def keys trees by (auto simp: walk_found_def)
  qed
  ultimately show thesis by (rule that)
qed

subsection \<open>The panels of a layout\<close>

lemma stacks_le: "length (tree_stacks t) \<le> length (tree_ids t)"
  by (induction t) auto

lemma stack_loop_tree:
  assumes "shape (node l) p t" and "length out + length (tree_ids t) \<le> length (dl_nodes l)"
  shows "stack_loop l out (top_id t # rest) = stack_loop l (out @ tree_stacks t) rest"
  using assms
proof (induction t arbitrary: p out rest)
  case (Stack i ps a)
  then obtain n where "node l i = Some n" "node_kind n = KindTabs" "node_id n = i"
    by (cases "node l i") auto
  then show ?case using Stack.prems(2) by (subst stack_loop.simps) simp
next
  case (Split i ax r x y)
  obtain n where n: "node l i = Some n" "node_kind n = KindSplit" "node_first n = top_id x" "node_second n = top_id y"
    using Split.prems(1) by (cases "node l i") auto
  have "stack_loop l out (i # rest) = stack_loop l out (top_id x # top_id y # rest)"
    using n Split.prems(2) by (subst stack_loop.simps) simp
  also have "\<dots> = stack_loop l (out @ tree_stacks x) (top_id y # rest)"
    by (rule Split.IH(1)) (use Split.prems in auto)
  also have "\<dots> = stack_loop l ((out @ tree_stacks x) @ tree_stacks y) rest"
    by (rule Split.IH(2)) (use Split.prems stacks_le [of x] in auto)
  finally show ?case by simp
qed

lemma tree_panels: "shape (node l) p t \<Longrightarrow> stack_panels l (tree_stacks t) = tree_keys t"
proof (induction t arbitrary: p)
  case (Stack i ps a)
  then show ?case by (cases "node l i") (auto simp: stack_panels_def)
qed (auto simp: stack_panels_def)

lemma stacks_under_tree:
  assumes rep: "rep l A []" and wf: "wf F A []" and t: "t \<in> set (ds_trees A)"
  shows "stacks_under l (top_id t) = Some (tree_stacks t)"
proof -
  have sub: "set (tree_ids t) \<subseteq> dom (node l)" using repD(6) [OF rep] t by auto
  have ids: "distinct (tree_ids t)" using wfD(1) [OF wf] t by (simp add: distinct_concat_iff)
  have "length (tree_ids t) \<le> length (dl_nodes l)"
    using card_mono [OF nodes_card(1) sub] nodes_card(2) distinct_card [OF ids] repD(1) [OF rep] by metis
  then have "stack_loop l [] [top_id t] = stack_loop l ([] @ tree_stacks t) []"
    by (intro stack_loop_tree [OF repD(5) [OF rep t]]) simp
  moreover have "stack_loop l out [] = Some out" for out by (subst stack_loop.simps) simp
  moreover have "top_id t \<in> set (forest_ids (ds_trees A @ []))" using t by (auto intro!: bexI [of _ t])
  ultimately show ?thesis using wf_nonzero [OF wf] by (simp add: stacks_under_def)
qed

lemma panels_rep:
  assumes rep: "rep l A []" and wf: "wf F A []"
  shows "panels l = Some (all_keys A [])"
proof -
  have one: "stacks_under l (top_id t) = Some (tree_stacks t) \<and> stack_panels l (tree_stacks t) = tree_keys t"
    if "t \<in> set (ds_trees A)" for t
    using stacks_under_tree [OF rep wf that] tree_panels [OF repD(5) [OF rep that]] by simp
  have trees: "panels_of l (map top_id ts) = Some (forest_keys ts)" if "set ts \<subseteq> set (ds_trees A)" for ts
    using that by (induction ts) (auto simp: one)
  have floats: "map float_root (dl_floats l) = map top_id (map (fst \<circ> snd) (ds_floats A))"
    by (simp add: repD(4) [OF rep] abs_float_def case_prod_beta)
  have "set (map (fst \<circ> snd) (ds_floats A)) \<subseteq> set (ds_trees A)" by (auto simp: ds_trees_def)
  from trees [OF this]
  have fl: "panels_of l (map float_root (dl_floats l)) = Some (forest_keys (map (fst \<circ> snd) (ds_floats A)))"
    unfolding floats .
  show ?thesis
  proof (cases "ds_root A")
    case None
    have "stack_loop l [] [] = Some []" by (subst stack_loop.simps) simp
    then show ?thesis using None fl repD(3) [OF rep]
      by (simp add: panels_def stacks_under_def root_top_def stack_panels_def all_keys_def ds_trees_def)
  next
    case (Some t)
    then show ?thesis using one [OF root_tree [OF Some]] fl repD(3) [OF rep]
      by (simp add: panels_def root_top_def all_keys_def ds_trees_def)
  qed
qed

end
