(* ===== verification/Dock_Claims.thy ===== *)
theory Dock_Claims
  imports Dock_Valid
begin

section \<open>The dock layout as a whole\<close>

text \<open>
  Any sequence of the operations of a layout, each as the code does it and as the specification on
  trees does it, the panels a layout lists, and what a sequence keeps.
\<close>

datatype ('f, 'r) dock_op =
    OpAdd string dock_target
  | OpRemove string
  | OpMove string dock_target
  | OpFloat string 'r
  | OpDock dock_id dock_target
  | OpRect dock_id 'r
  | OpRaise dock_id
  | OpActivate string
  | OpReorder string nat
  | OpRatio dock_id 'f

fun dock_step :: "'f float_arith \<Rightarrow> ('f, 'r) dock_op \<Rightarrow> ('f, 'r) dock_layout
    \<Rightarrow> bool \<times> ('f, 'r) dock_layout" where
  "dock_step F (OpAdd key target) l = add_panel F key target l"
| "dock_step F (OpRemove key) l = remove_panel key l"
| "dock_step F (OpMove key target) l = move_panel F key target l"
| "dock_step F (OpFloat key rect) l = float_panel F key rect l"
| "dock_step F (OpDock fid target) l = dock_float_at F fid target l"
| "dock_step F (OpRect fid rect) l = set_float_rect fid rect l"
| "dock_step F (OpRaise fid) l = raise_float fid l"
| "dock_step F (OpActivate key) l = activate_panel key l"
| "dock_step F (OpReorder key index) l = reorder_panel key index l"
| "dock_step F (OpRatio i ratio) l = set_ratio F i ratio l"

fun spec_step :: "'f float_arith \<Rightarrow> ('f, 'r) dock_op \<Rightarrow> ('f, 'r) dock_spec
    \<Rightarrow> ('f, 'r) dock_spec option" where
  "spec_step F (OpAdd key target) A = spec_add F key target A"
| "spec_step F (OpRemove key) A = spec_remove key A"
| "spec_step F (OpMove key target) A = spec_move F key target A"
| "spec_step F (OpFloat key rect) A = spec_float F key rect A"
| "spec_step F (OpDock fid target) A = spec_dock_float F fid target A"
| "spec_step F (OpRect fid rect) A = spec_rect fid rect A"
| "spec_step F (OpRaise fid) A = spec_raise fid A"
| "spec_step F (OpActivate key) A = spec_activate key A"
| "spec_step F (OpReorder key index) A = spec_reorder key index A"
| "spec_step F (OpRatio i ratio) A = spec_ratio F i ratio A"

lemma step_agrees:
  assumes "rep l A []" and "wf F A []" and "dock_floats F" and room: "room 2 A"
  shows "agrees F l (dock_step F op l) (spec_step F op A)"
  using assms room_mono [OF room, of 1]
  by (cases op) (simp_all add: add_agrees remove_agrees move_agrees float_agrees dock_float_agrees
      rect_agrees raise_agrees activate_agrees reorder_agrees ratio_agrees)

text \<open>How many ids an operation may take from the counter.\<close>

fun ids_needed :: "('f, 'r) dock_op \<Rightarrow> nat" where
  "ids_needed (OpAdd key target) = 2"
| "ids_needed (OpMove key target) = 2"
| "ids_needed (OpFloat key rect) = 2"
| "ids_needed (OpDock fid target) = 1"
| "ids_needed _ = 0"

text \<open>A counter of 0 stands in a layout without nodes only, where no panel and no float is found.\<close>

lemma zero_empty:
  assumes "wf F A []" and "ds_next A = kNoDockNode"
  shows "all_keys A [] = []" "ds_floats A = []"
proof -
  have "all_ids A [] = []"
    using wfD(3) [OF assms(1)] assms(2) by (cases "all_ids A []") auto
  then have "ds_floats A = []" "forest_ids (ds_trees A) = []" by (simp_all add: all_ids_def)
  moreover have "tree_ids t \<noteq> []" for t :: "'a dtree" by (cases t) simp_all
  ultimately have "ds_trees A = []" by (cases "ds_trees A") simp_all
  then show "all_keys A [] = []" "ds_floats A = []" using \<open>ds_floats A = []\<close> by (simp_all add: all_keys_def)
qed

lemma step_agrees_zero:
  assumes rep: "rep l A []" and wf: "wf F A []" and F: "dock_floats F" and zero: "ds_next A = kNoDockNode"
    and op: "\<And>key target. op \<noteq> OpAdd key target"
  shows "agrees F l (dock_step F op l) (spec_step F op A)"
proof -
  note empty = zero_empty [OF wf zero]
  have "key \<notin> set (all_keys A [])" for key using empty(1) by simp
  note absent = panel_absent [OF rep wf this]
  have no_float: "ds_float fid A = None" for fid using empty(2) by (simp add: ds_float_def)
  then have lost: "find_float l fid = None" for fid using find_float_rep [OF rep, of fid] by simp
  note same = remove_agrees [OF rep wf] rect_agrees [OF rep wf] raise_agrees [OF rep wf]
    activate_agrees [OF rep wf] reorder_agrees [OF rep wf] ratio_agrees [OF rep wf F]
  show ?thesis
  proof (cases op)
    case (OpAdd key target)
    then show ?thesis using op by blast
  next
    case (OpMove key target)
    then show ?thesis using absent by (simp add: agrees_def move_panel_def spec_move_def)
  next
    case (OpFloat key rect)
    then show ?thesis using absent empty(1) by (simp add: agrees_def float_panel_def spec_float_def)
  next
    case (OpDock fid target)
    then show ?thesis using no_float lost by (simp add: agrees_def dock_float_at_def spec_dock_float_def)
  qed (simp_all add: same)
qed

lemma step_agrees_needed:
  assumes rep: "rep l A []" and wf: "wf F A []" and F: "dock_floats F" and zero: "ds_next A \<noteq> kNoDockNode"
    and left: "unat (ds_next A) + ids_needed op < 2 ^ 32"
  shows "agrees F l (dock_step F op l) (spec_step F op A)"
proof -
  have "room (ids_needed op) A" using zero left by (simp add: room_def)
  then show ?thesis
    by (cases op) (simp_all add: add_agrees remove_agrees move_agrees float_agrees dock_float_agrees
        rect_agrees raise_agrees activate_agrees reorder_agrees ratio_agrees rep wf F)
qed

text \<open>The counter grows by two at most in a step.\<close>

lemma next_insert:
  "spec_insert F w target A = Some B \<Longrightarrow> ds_next B \<in> {ds_next A, ds_next A + 1}"
  by (auto simp: spec_insert_def split: if_splits)

lemma next_add:
  "spec_add F key target A = Some B \<Longrightarrow> ds_next B \<in> {ds_next A, ds_next A + 1, ds_next A + 2}"
  using next_insert [of F "Stack (ds_next A) [key] 0" target "A\<lparr>ds_next := ds_next A + 1\<rparr>" B]
  by (auto simp: spec_add_def add.assoc split: option.splits dtree.splits if_splits)

lemma next_move:
  "spec_move F key target A = Some B \<Longrightarrow> ds_next B \<in> {ds_next A, ds_next A + 1, ds_next A + 2}"
  using next_add [of F key _ "ds_prune key A" B]
  by (auto simp: spec_move_def ds_prune_def Let_def split: option.splits prod.splits if_splits)

lemma next_dock:
  "spec_dock_float F fid target A = Some B \<Longrightarrow> ds_next B \<in> {ds_next A, ds_next A + 1, ds_next A + 2}"
  using next_insert [of F _ target "A\<lparr>ds_floats := filter (\<lambda>f. fst f \<noteq> fid) (ds_floats A)\<rparr>" B]
  by (force simp: spec_dock_float_def Let_def split: option.splits prod.splits dtree.splits if_splits)

lemma next_step:
  "spec_step F op A = Some B \<Longrightarrow> ds_next B \<in> {ds_next A, ds_next A + 1, ds_next A + 2}"
proof (cases op)
  case (OpFloat key rect)
  then show "spec_step F op A = Some B \<Longrightarrow> ?thesis"
    by (auto simp: spec_float_def split: option.splits prod.splits if_splits)
next
  case (OpRatio i r)
  then show "spec_step F op A = Some B \<Longrightarrow> ?thesis"
    by (auto simp: spec_ratio_def split: option.splits dtree.splits if_splits)
next
  case (OpReorder key index)
  then show "spec_step F op A = Some B \<Longrightarrow> ?thesis"
    by (auto simp: spec_reorder_def Let_def)
qed (auto simp: next_add next_move next_dock spec_remove_def ds_prune_def spec_rect_def spec_raise_def
    spec_activate_def split: option.splits if_splits dest: next_add next_move next_dock)

lemma room_step:
  assumes "room (k + 2) A" and "spec_step F op A = Some B"
  shows "room k B"
proof -
  have r: "room (Suc (Suc k)) A" using assms(1) by simp
  have "room (Suc k) (A\<lparr>ds_next := ds_next A + 1\<rparr>)" by (rule room_facts(3) [OF r])
  from room_facts(3) [OF this] this r show ?thesis
    using next_step [OF assms(2)] by (auto simp: room_def add.assoc)
qed


primrec dock_run :: "'f float_arith \<Rightarrow> ('f, 'r) dock_layout \<Rightarrow> ('f, 'r) dock_op list
    \<Rightarrow> ('f, 'r) dock_layout" where
  "dock_run F l [] = l"
| "dock_run F l (op # ops) = dock_run F (snd (dock_step F op l)) ops"

lemma run_rep:
  assumes "rep l A []" and "wf F A []" and "dock_floats F" and "room (2 * length ops) A"
  shows "\<exists>B. rep (dock_run F l ops) B [] \<and> wf F B []"
  using assms
proof (induction ops arbitrary: l A)
  case (Cons op ops)
  have room: "room (2 * length ops + 2) A" using Cons.prems(4) by simp
  have "agrees F l (dock_step F op l) (spec_step F op A)"
    by (rule step_agrees [OF Cons.prems(1-3) room_mono [OF room]]) simp
  then show ?case
    using Cons room_step [OF room] room_mono [OF room, of "2 * length ops"]
    by (cases "spec_step F op A") (auto simp: agrees_def)
qed auto

lemma layout_room: "rep l A [] \<Longrightarrow> dl_next l \<noteq> kNoDockNode \<Longrightarrow> unat (dl_next l) + k < 2 ^ 32 \<Longrightarrow> room k A"
  by (simp add: room_def repD(2))

subsection \<open>The panels after an operation\<close>

lemma put_keys:
  assumes "distinct (forest_ids (ds_trees A))" and "forest_sub i (ds_trees A) = Some s"
  shows "mset (all_keys (ds_put i u A) []) + mset (tree_keys s) = mset (all_keys A []) + mset (tree_keys u)"
  using forest_put_mset(2) [OF assms(2,1), of u] by (simp add: all_keys_def del: map_map)

lemma put_same_keys:
  assumes "distinct (forest_ids (ds_trees A))" and "forest_sub i (ds_trees A) = Some s"
    and "mset (tree_keys u) = mset (tree_keys s)"
  shows "set (all_keys (ds_put i u A) []) = set (all_keys A [])"
  using mset_eq_setD [of "all_keys (ds_put i u A) []" "all_keys A []"] put_keys [OF assms(1,2), of u] assms(3)
  by simp

lemma insert_keys:
  assumes "distinct (forest_ids (ds_trees A))" and "spec_insert F w target A = Some B"
  shows "set (all_keys B []) = set (tree_keys w) \<union> set (all_keys A [])"
proof (cases "spec_fills A target")
  case True
  then show ?thesis using assms(2) by (auto simp: spec_insert_def spec_fills_def all_keys_def ds_trees_def)
next
  case False
  then obtain s where s: "forest_sub (spec_dest A target) (ds_trees A) = Some s"
    and B: "B = ds_put (spec_dest A target) (beside F (ds_next A) (target_zone target) w s) A\<lparr>ds_next := ds_next A + 1\<rparr>"
    using assms(2) by (auto simp: spec_insert_def split: if_splits)
  have "mset (all_keys B []) = mset (tree_keys w @ all_keys A [])"
    using put_keys [OF assms(1) s, of "beside F (ds_next A) (target_zone target) w s"]
    unfolding B by (simp add: beside_mset ac_simps)
  from mset_eq_setD [OF this] show ?thesis by simp
qed

lemma add_keys:
  assumes "distinct (forest_ids (ds_trees A))" and "spec_add F key target A = Some B"
  shows "set (all_keys B []) = insert key (set (all_keys A []))"
proof (cases "target_zone target = ZoneCenter \<and> \<not> spec_fills A target")
  case True
  then obtain i ps a where s: "forest_sub (spec_dest A target) (ds_trees A) = Some (Stack i ps a)"
    and B: "B = ds_put i (Stack i (ps @ [key]) (length ps)) A"
    using assms(2) by (auto simp: spec_add_def split: if_splits option.splits dtree.splits)
  have "i = spec_dest A target" using forest_sub_Some [OF s] sub_at_sub by fastforce
  then have "mset (all_keys B []) = mset (key # all_keys A [])"
    using put_keys [OF assms(1) s, of "Stack i (ps @ [key]) (length ps)"] unfolding B by simp
  from mset_eq_setD [OF this] show ?thesis by simp
next
  case False
  then have "spec_insert F (Stack (ds_next A) [key] 0) target (A\<lparr>ds_next := ds_next A + 1\<rparr>) = Some B"
    using assms(2) by (auto simp: spec_add_def split: if_splits)
  from insert_keys [OF _ this] show ?thesis using assms(1) by simp
qed

lemma stack_sub:
  assumes rep: "rep l A []" and wf: "wf F A []" and st: "ds_stack key A = Some (i, ps, a)"
  shows "forest_sub i (ds_trees A) = Some (Stack i ps a)" "key \<in> set ps"
proof -
  have key: "key \<in> set (all_keys A [])" using stack_None [OF wf rep, of key] st by auto
  show "forest_sub i (ds_trees A) = Some (Stack i ps a)" "key \<in> set ps"
    by (rule place_rep [OF rep wf key]; use st in auto)+
qed

definition panels_after :: "('f, 'r) dock_op \<Rightarrow> string set \<Rightarrow> string set" where
  "panels_after op S = (case op of OpAdd key target \<Rightarrow> insert key S | OpRemove key \<Rightarrow> S - {key} | _ \<Rightarrow> S)"

lemma dock_keys:
  assumes wf: "wf F A []" and B: "spec_dock_float F fid target A = Some B"
  shows "set (all_keys B []) = set (all_keys A [])"
proof -
  let ?C = "A\<lparr>ds_floats := filter (\<lambda>f. fst f \<noteq> fid) (ds_floats A)\<rparr>"
  obtain t r where f: "ds_float fid A = Some (fid, t, r)"
    using B ds_float_mem by (fastforce simp: spec_dock_float_def split: option.splits)
  have mem: "(fid, t, r) \<in> set (ds_floats A)" using ds_float_mem [OF f] by simp
  have split: "mset (ds_floats A) = add_mset (fid, t, r) (mset (filter (\<lambda>f. fst f \<noteq> fid) (ds_floats A)))"
    using filter_other_mset [OF wf_fids [OF wf] mem] by simp
  then have keys: "mset (all_keys (A\<lparr>ds_floats := (fid, t, r) # filter (\<lambda>f. fst f \<noteq> fid) (ds_floats A)\<rparr>) [])
      = mset (all_keys A [])"
    by (intro floats_mset) (simp only: mset.simps)
  then have C: "mset (all_keys A []) = mset (tree_keys t @ all_keys ?C [])"
    by (simp add: all_keys_def ds_trees_def ac_simps)
  have "mset (all_ids (A\<lparr>ds_floats := (fid, t, r) # filter (\<lambda>f. fst f \<noteq> fid) (ds_floats A)\<rparr>) []) = mset (all_ids A [])"
    using split by (intro floats_mset) (simp only: mset.simps)
  from mset_eq_imp_distinct_iff [OF this] have ids: "distinct (forest_ids (ds_trees ?C))"
    using wfD(7) [OF wf] by (auto simp: all_ids_def ds_trees_def)
  have "set (all_keys B []) = set (tree_keys t) \<union> set (all_keys ?C [])"
  proof (cases "target_zone target = ZoneCenter \<and> \<not> spec_fills ?C target")
    case True
    then obtain i ps a k qs b where s: "forest_sub (spec_dest ?C target) (ds_trees ?C) = Some (Stack i ps a)"
      and t: "t = Stack k qs b" and B': "B = ds_put i (Stack i (ps @ qs) (length ps + b)) ?C"
      using B f by (auto simp: spec_dock_float_def Let_def split: if_splits option.splits dtree.splits)
    have "i = spec_dest ?C target" using forest_sub_Some [OF s] sub_at_sub by fastforce
    then have "mset (all_keys B []) = mset (qs @ all_keys ?C [])"
      using put_keys [OF ids s, of "Stack i (ps @ qs) (length ps + b)"] unfolding B' by simp
    from mset_eq_setD [OF this] show ?thesis using t by simp
  next
    case False
    then have "spec_insert F t target ?C = Some B"
      using B f by (auto simp: spec_dock_float_def Let_def split: if_splits)
    from insert_keys [OF ids this] show ?thesis .
  qed
  with mset_eq_setD [OF C] show ?thesis by simp
qed

lemma step_keys:
  assumes rep: "rep l A []" and wf: "wf F A []" and step: "spec_step F op A = Some B"
  shows "set (all_keys B []) = panels_after op (set (all_keys A []))"
proof -
  have ids: "distinct (forest_ids (ds_trees A))" by (rule wfD [OF wf])
  have prune: "distinct (forest_ids (ds_trees (ds_prune key A)))" for key by (rule wfD [OF prune_wf [OF wf]])
  show ?thesis
  proof (cases op)
    case (OpAdd key target)
    with step add_keys [OF ids] show ?thesis by (simp add: panels_after_def)
  next
    case (OpRemove key)
    with step show ?thesis
      by (auto simp: spec_remove_def panels_after_def prune_all_keys [OF wf] split: if_splits)
  next
    case (OpMove key target)
    then have "key \<in> set (all_keys A [])"
      using step stack_None [OF wf rep, of key] by (auto simp: spec_move_def split: option.splits)
    moreover obtain target' where "spec_add F key target' (ds_prune key A) = Some B"
      using step OpMove by (auto simp: spec_move_def Let_def split: option.splits prod.splits if_splits)
    ultimately show ?thesis
      using add_keys [OF prune] OpMove by (auto simp: panels_after_def prune_all_keys [OF wf])
  next
    case (OpFloat key rect)
    then have key: "key \<in> set (all_keys A [])" using step by (auto simp: spec_float_def split: if_splits)
    show ?thesis
    proof (cases "find_first (\<lambda>f. tree_keys (fst (snd f)) = [key]) (ds_floats A)")
      case None
      then obtain fs where B: "B = (ds_prune key A)\<lparr>ds_floats := ds_floats (ds_prune key A)
          @ [(ds_next A + 1, Stack (ds_next A) [key] 0, rect)], ds_next := fs\<rparr>"
        using step OpFloat key by (auto simp: spec_float_def)
      have "set (all_keys B []) = insert key (set (all_keys (ds_prune key A) []))"
        unfolding B by (auto simp: all_keys_def ds_trees_def)
      then show ?thesis using OpFloat key by (auto simp: prune_all_keys [OF wf] panels_after_def)
    next
      case (Some f)
      let ?g = "(fst f, fst (snd f), rect)"
      have "mset (ds_floats A) = add_mset f (mset (filter (\<lambda>g. fst g \<noteq> fst f) (ds_floats A)))"
        using filter_other_mset [OF wf_fids [OF wf], of f] find_first_Some [OF Some] by blast
      from arg_cong [OF this, of set_mset]
      have trees: "set (map (fst \<circ> snd) (ds_floats A)) = set (map (fst \<circ> snd) (filter (\<lambda>g. fst g \<noteq> fst f) (ds_floats A) @ [?g]))"
        by (metis (no_types, lifting) Un_insert_right append_Nil2 comp_apply fst_conv image_insert list.set_map
            list.simps(15) map_append set_append set_mset_add_mset_insert set_mset_mset snd_conv list.set(1) list.map sup_bot_right)
      have B: "B = A\<lparr>ds_floats := filter (\<lambda>g. fst g \<noteq> fst f) (ds_floats A) @ [?g]\<rparr>"
        using step OpFloat key Some by (auto simp: spec_float_def split: prod.splits)
      have keys: "set (all_keys C []) = (\<Union>t\<in>set_option (ds_root C). set (tree_keys t))
          \<union> (\<Union>t\<in>set (map (fst \<circ> snd) (ds_floats C)). set (tree_keys t))" for C :: "('a, 'b) dock_spec"
        by (cases "ds_root C") (auto simp: all_keys_def ds_trees_def)
      have "ds_root B = ds_root A" "set (map (fst \<circ> snd) (ds_floats B)) = set (map (fst \<circ> snd) (ds_floats A))"
        unfolding trees B by simp_all
      then show ?thesis using OpFloat unfolding keys by (simp only: panels_after_def dock_op.case)
    qed
  next
    case (OpDock fid target)
    with step dock_keys [OF wf] show ?thesis by (simp add: panels_after_def)
  next
    case (OpRect fid rect)
    then obtain f where "B = A\<lparr>ds_floats := map (\<lambda>f. if fst f = fid then (fid, fst (snd f), rect) else f) (ds_floats A)\<rparr>"
      using step by (auto simp: spec_rect_def split: option.splits)
    moreover have "map (fst \<circ> snd) (map (\<lambda>f. if fst f = fid then (fid, fst (snd f), rect) else f) (ds_floats A))
        = map (fst \<circ> snd) (ds_floats A)" by simp
    ultimately show ?thesis
      using OpRect by (simp add: panels_after_def all_keys_def ds_trees_def del: map_map list.map_comp)
  next
    case (OpRaise fid)
    then obtain f where f: "ds_float fid A = Some f" "B = A\<lparr>ds_floats := filter (\<lambda>f. fst f \<noteq> fid) (ds_floats A) @ [f]\<rparr>"
      using step by (auto simp: spec_raise_def split: option.splits)
    have "mset (filter (\<lambda>f. fst f \<noteq> fid) (ds_floats A) @ [f]) = mset (ds_floats A)"
      using filter_other_mset [OF wf_fids [OF wf], of f] ds_float_mem [OF f(1)] by simp
    from mset_eq_setD [OF floats_mset(2) [OF this]] show ?thesis using OpRaise f(2) by (simp add: panels_after_def)
  next
    case (OpActivate key)
    then obtain i ps a where st: "ds_stack key A = Some (i, ps, a)" "B = ds_put i (Stack i ps (index_of key ps)) A"
      using step by (auto simp: spec_activate_def)
    show ?thesis
      using put_same_keys [OF ids stack_sub(1) [OF rep wf st(1)]] OpActivate st(2) by (simp add: panels_after_def)
  next
    case (OpReorder key index)
    then obtain i ps a where st: "ds_stack key A = Some (i, ps, a)"
      "B = ds_put i (Stack i (insert_at (min index (length (remove1 key ps))) key (remove1 key ps))
        (index_of (ps ! a) (insert_at (min index (length (remove1 key ps))) key (remove1 key ps)))) A"
      using step by (auto simp: spec_reorder_def Let_def)
    show ?thesis
      using put_same_keys [OF ids stack_sub(1) [OF rep wf st(1)]] stack_sub(2) [OF rep wf st(1)] OpReorder st(2)
      by (simp add: panels_after_def insert_at_mset)
  next
    case (OpRatio i ratio)
    then obtain j ax r x y where s: "forest_sub i (ds_trees A) = Some (Split j ax r x y)"
      "B = ds_put i (Split i ax (f_clamp F ratio (kDockRatioMin F) (kDockRatioMax F)) x y) A"
      using step by (auto simp: spec_ratio_def split: option.splits dtree.splits if_splits)
    show ?thesis using put_same_keys [OF ids s(1)] OpRatio s(2) by (simp add: panels_after_def)
  qed
qed

subsection \<open>The properties\<close>

text \<open>A layout over the rationals to try them on: two stacks beside each other and a float.\<close>

definition demo_ops :: "(rat, nat) dock_op list" where
  "demo_ops = [OpAdd ''a'' \<lparr>target_node = 0, target_zone = ZoneCenter\<rparr>,
     OpAdd ''b'' \<lparr>target_node = 1, target_zone = ZoneRight\<rparr>,
     OpAdd ''c'' \<lparr>target_node = 2, target_zone = ZoneCenter\<rparr>, OpFloat ''b'' 7]"

definition demo_layout :: "(rat, nat) dock_layout" where
  "demo_layout = dock_run rat_arith empty_layout demo_ops"

lemma rat_dock_floats: "dock_floats rat_arith"
  by (simp add: dock_floats_def bad_ratio_def f_isnan_def kDockRatioMin_def kDockRatioMax_def f_frac_def)

definition empty_spec :: "('f, 'r) dock_spec" where
  "empty_spec = \<lparr>ds_root = None, ds_floats = [], ds_next = 1\<rparr>"

lemma empty_rep: "rep empty_layout empty_spec []" "wf F empty_spec []"
  by (auto simp: rep_def wf_def empty_layout_def empty_spec_def root_top_def ds_trees_def all_ids_def
      all_keys_def node_def)

lemma empty_rep_rat:
  "rep (empty_layout :: (rat, nat) dock_layout) empty_spec []" "wf rat_arith (empty_spec :: (rat, nat) dock_spec) []"
  by (rule empty_rep)+

lemma om_ok_empty: "om_ok (dl_nodes empty_layout)"
  by (simp add: empty_layout_def)

text \<open>
  C17: valid() is true of exactly the layouts whose nodes are a forest: there are a docked tree or none and
  a tree for each float, with every node in one of them once, matching parents, ids below the counter,
  distinct keys that are not empty and tabs and ratios in range.
\<close>

theorem dock_valid_trees:
  assumes "om_ok (dl_nodes l)"
  shows "dock_valid F l \<longleftrightarrow> (\<exists>A. rep l A [] \<and> wf F A [])"
  using valid_wf [OF assms] wf_valid by metis

theorem dock_valid_trees_witness: "\<exists>A. rep (empty_layout :: (rat, nat) dock_layout) A [] \<and> wf rat_arith A []"
  using dock_valid_trees [of "empty_layout :: (rat, nat) dock_layout" rat_arith]
  by (simp add: om_ok_empty dock_valid_def) (simp add: empty_layout_def)

text \<open>
  C2: on a layout that stands for trees and whose counter has the ids left that the operation may take (two to add,
  move or float a panel, one to dock a float, none for the others), an operation fails and leaves the layout as it is
  where the specification on trees has no result, and else succeeds and gives a layout that stands for
  the trees the specification gives. The one layout this leaves out is the one without nodes whose counter is 0,
  when a panel is added to it: \<open>next_zero_breaks\<close> shows what happens there.
\<close>

theorem dock_refines:
  assumes "rep l A []" and "wf F A []" and "dock_floats F"
    and "unat (ds_next A) + ids_needed op < 2 ^ 32"
    and "\<forall>key target. op = OpAdd key target \<longrightarrow> ds_next A \<noteq> kNoDockNode"
  shows "case spec_step F op A of None \<Rightarrow> dock_step F op l = (False, l)
    | Some B \<Rightarrow> fst (dock_step F op l) \<and> rep (snd (dock_step F op l)) B [] \<and> wf F B []"
proof (cases "ds_next A = kNoDockNode")
  case True
  have "agrees F l (dock_step F op l) (spec_step F op A)"
    by (rule step_agrees_zero [OF assms(1-3) True]) (use assms(5) True in blast)
  then show ?thesis by (simp add: agrees_def)
next
  case False
  from step_agrees_needed [OF assms(1-3) False assms(4)] show ?thesis by (simp add: agrees_def)
qed

theorem dock_refines_witness:
  "fst (dock_step rat_arith (OpAdd ''a'' \<lparr>target_node = 0, target_zone = ZoneLeft\<rparr>) (empty_layout :: (rat, nat) dock_layout))
   \<and> dock_step rat_arith (OpRemove ''a'') (empty_layout :: (rat, nat) dock_layout) = (False, empty_layout)"
proof -
  note now = dock_refines [OF empty_rep_rat rat_dock_floats]
  have "spec_step rat_arith (OpAdd ''a'' \<lparr>target_node = 0, target_zone = ZoneLeft\<rparr>) (empty_spec :: (rat, nat) dock_spec) \<noteq> None"
    by (simp add: spec_add_def spec_insert_def spec_fills_def empty_spec_def all_keys_def ds_trees_def spec_lost_def)
  moreover have "spec_step rat_arith (OpRemove ''a'') (empty_spec :: (rat, nat) dock_spec) = None"
    by (simp add: spec_remove_def empty_spec_def all_keys_def ds_trees_def)
  ultimately show ?thesis
    using now [of "OpAdd ''a'' \<lparr>target_node = 0, target_zone = ZoneLeft\<rparr>"] now [of "OpRemove ''a''"]
    by (auto simp: empty_spec_def)
qed

text \<open>
  C16: no sequence of operations, with any arguments, makes a valid layout invalid, as long as the ids
  its counter has left are twice as many as the operations.
\<close>

theorem dock_keeps_valid:
  assumes "om_ok (dl_nodes l)" and "dock_valid F l" and "dock_floats F"
    and "dl_next l \<noteq> kNoDockNode" and "unat (dl_next l) + 2 * length ops < 2 ^ 32"
  shows "dock_valid F (dock_run F l ops)"
proof -
  obtain A where A: "rep l A []" "wf F A []" by (rule valid_wf [OF assms(1,2)])
  from run_rep [OF A assms(3) layout_room [OF A(1) assms(4,5)]] show ?thesis using wf_valid by blast
qed

theorem dock_keeps_valid_witness: "dock_valid rat_arith demo_layout"
  unfolding demo_layout_def
  by (rule dock_keeps_valid [OF om_ok_empty wf_valid [OF empty_rep] rat_dock_floats])
    (simp_all add: empty_layout_def demo_ops_def)

text \<open>
  C40: The panels of a valid layout whose counter is not 0 and has two ids left are listed once each, and an operation that
  succeeds changes which they are as its name says: add adds its key, remove drops it, and every other keeps them.
\<close>

theorem dock_panel_set:
  assumes "om_ok (dl_nodes l)" and "dock_valid F l" and "dock_floats F"
    and "dl_next l \<noteq> kNoDockNode" and "unat (dl_next l) + 2 < 2 ^ 32" and "fst (dock_step F op l)"
  shows "\<exists>ps qs. panels l = Some ps \<and> panels (snd (dock_step F op l)) = Some qs
    \<and> distinct ps \<and> distinct qs \<and> set qs = panels_after op (set ps)"
proof -
  obtain A where A: "rep l A []" "wf F A []" by (rule valid_wf [OF assms(1,2)])
  have "agrees F l (dock_step F op l) (spec_step F op A)"
    by (rule step_agrees [OF A assms(3) layout_room [OF A(1) assms(4,5)]])
  then obtain B where B: "spec_step F op A = Some B" "rep (snd (dock_step F op l)) B []" "wf F B []"
    using assms(6) by (auto simp: agrees_def split: option.splits)
  show ?thesis
    using panels_rep [OF A] panels_rep [OF B(2,3)] step_keys [OF A B(1)] A(2) B(3)
    by (simp add: wf_def)
qed

theorem dock_panel_set_witness:
  "\<exists>qs. panels (snd (dock_step rat_arith (OpAdd ''a'' \<lparr>target_node = 0, target_zone = ZoneCenter\<rparr>)
      (empty_layout :: (rat, nat) dock_layout))) = Some qs \<and> distinct qs \<and> set qs = {''a''}"
proof -
  let ?op = "OpAdd ''a'' \<lparr>target_node = 0, target_zone = ZoneCenter\<rparr> :: (rat, nat) dock_op"
  have "fst (dock_step rat_arith ?op empty_layout)"
    by (simp add: add_panel_def contains_panel_def find_panel_def target_lost_def fills_root_def
        make_stack_def insert_subtree_def empty_layout_def emplace_node_def node_def)
  from dock_panel_set [OF om_ok_empty wf_valid [OF empty_rep] rat_dock_floats _ _ this]
  show ?thesis using panels_rep [OF empty_rep_rat]
    by (simp add: empty_layout_def panels_after_def empty_spec_def all_keys_def ds_trees_def)
qed

text \<open>
  valid() does not look at the counter of a layout without nodes: from_parts takes one whose counter
  is 0, and the next add gives its stack the id 0, reports success and leaves an invalid layout.
\<close>

lemma next_zero_breaks:
  "\<exists>l. from_parts F [] kNoDockNode [] 0 = Some l
     \<and> fst (add_panel F ''a'' \<lparr>target_node = 0, target_zone = ZoneCenter\<rparr> l)
     \<and> \<not> dock_valid F (snd (add_panel F ''a'' \<lparr>target_node = 0, target_zone = ZoneCenter\<rparr> l))"
  by (simp add: from_parts_def dock_valid_def add_panel_def contains_panel_def find_panel_def
      target_lost_def fills_root_def make_stack_def insert_subtree_def emplace_node_def node_def
      with_node_def)

text \<open>\<open>erase_subtree\<close> leaves exactly the nodes outside the tree it is called on.\<close>

lemma erase_subtree_tree:
  assumes "shape (node l) p t" and "distinct (tree_ids t)" and "om_ok (dl_nodes l)"
  shows "\<exists>l'. erase_subtree (top_id t) l = Some l' \<and> om_ok (dl_nodes l')
    \<and> node l' = node l |` (- set (tree_ids t))"
  using assms
proof (induction t arbitrary: p l)
  case (Stack i ps a)
  then show ?case
    by (cases "node l i") (auto simp: erase_subtree.simps [of i] fun_eq_iff restrict_map_def)
next
  case (Split i ax r x y)
  then obtain n where n: "node l i = Some n" "node_kind n = KindSplit" "node_first n = top_id x" "node_second n = top_id y"
    by (cases "node l i") auto
  obtain l1 where l1: "erase_subtree (top_id x) l = Some l1" "om_ok (dl_nodes l1)" "node l1 = node l |` (- set (tree_ids x))"
    using Split.IH(1) [of l i] Split.prems by auto
  have "node l1 k = node l k" if "k \<in> set (tree_ids y)" for k
    using that Split.prems by (auto simp: l1(3) restrict_map_def)
  then have "shape (node l1) i y"
    using Split.prems shape_cong [of y "node l1" "node l" i] by simp
  then obtain l2 where l2: "erase_subtree (top_id y) l1 = Some l2" "om_ok (dl_nodes l2)" "node l2 = node l1 |` (- set (tree_ids y))"
    using Split.IH(2) [of l1 i] Split.prems l1 by auto
  have "node (erase_node i l2) = node l |` (- set (tree_ids (Split i ax r x y)))"
    using l2(2,3) l1(3) by (auto simp: fun_eq_iff restrict_map_def)
  moreover have "om_ok (dl_nodes (erase_node i l2))" using l2(2) by simp
  ultimately show ?case
    using n l1(1) l2(1) by (simp add: erase_subtree.simps [of i])
qed

end
