(* ===== verification/Dock_Reconcile.thy ===== *)
theory Dock_Reconcile
  imports Dock_Claims
begin

section \<open>Reconciling a layout\<close>

text \<open>
  \<open>reconcile_dock_layout\<close> of \<open>src/src/ui/dock_reconcile.cpp\<close>: it drops the panels that are not
  registered and adds the registered ones a layout lacks. The walks over a layout may not return on a
  broken one, so that the function is None there.
\<close>

record dock_spot =
  spot_beside :: string
  spot_zone :: dock_zone

fun drop_unregistered :: "string list \<Rightarrow> string list \<Rightarrow> bool \<times> ('f, 'r) dock_layout
    \<Rightarrow> bool \<times> ('f, 'r) dock_layout" where
  "drop_unregistered registered [] (changed, l) = (changed, l)"
| "drop_unregistered registered (key # keys) (changed, l) =
     (if key \<notin> set registered then
        (let (removed, l1) = remove_panel key l
         in drop_unregistered registered keys (changed \<or> removed, l1))
      else drop_unregistered registered keys (changed, l))"

definition place_at_spot :: "'f float_arith \<Rightarrow> dock_spot \<Rightarrow> string \<Rightarrow> ('f, 'r) dock_layout
    \<Rightarrow> bool \<times> ('f, 'r) dock_layout" where
  "place_at_spot F spot key l =
     (case find_panel l (spot_beside spot) of
        Some p \<Rightarrow> add_panel F key \<lparr>target_node = place_stack p, target_zone = spot_zone spot\<rparr> l
      | None \<Rightarrow> add_panel F key \<lparr>target_node = kNoDockNode, target_zone = spot_zone spot\<rparr> l)"

definition place_panel :: "'f float_arith \<Rightarrow> dock_spot \<Rightarrow> string \<Rightarrow> ('f, 'r) dock_layout
    \<Rightarrow> (bool \<times> ('f, 'r) dock_layout) option" where
  "place_panel F spot key l =
     (let (placed, l1) = place_at_spot F spot key l in
      if placed then Some (True, l1)
      else (case stacks_under l1 (dl_root l1) of None \<Rightarrow> None
        | Some [] \<Rightarrow> Some (False, l1)
        | Some (s # ss) \<Rightarrow> Some (add_panel F key \<lparr>target_node = s, target_zone = ZoneCenter\<rparr> l1)))"

fun add_registered :: "'f float_arith \<Rightarrow> dock_spot \<Rightarrow> string list \<Rightarrow> bool \<times> ('f, 'r) dock_layout
    \<Rightarrow> (bool \<times> ('f, 'r) dock_layout) option" where
  "add_registered F spot [] (changed, l) = Some (changed, l)"
| "add_registered F spot (key # keys) (changed, l) =
     (if key = [] \<or> contains_panel l key then add_registered F spot keys (changed, l)
      else (case place_panel F spot key l of None \<Rightarrow> None
        | Some (placed, l1) \<Rightarrow> add_registered F spot keys (changed \<or> placed, l1)))"

definition reconcile_dock_layout :: "'f float_arith \<Rightarrow> string list \<Rightarrow> dock_spot
    \<Rightarrow> ('f, 'r) dock_layout \<Rightarrow> (bool \<times> ('f, 'r) dock_layout) option" where
  "reconcile_dock_layout F registered spot l =
     (case panels l of None \<Rightarrow> None
      | Some keys \<Rightarrow> add_registered F spot registered (drop_unregistered registered keys (False, l)))"

subsection \<open>What is left\<close>

text \<open>A state of the loops: the layout stands for trees with the panels \<open>S\<close> and has ids for \<open>k\<close> more panels.\<close>

definition stands :: "'f float_arith \<Rightarrow> ('f, 'r) dock_layout \<Rightarrow> string set \<Rightarrow> nat \<Rightarrow> bool" where
  "stands F l S k \<longleftrightarrow> (\<exists>A. rep l A [] \<and> wf F A [] \<and> room (2 * k) A \<and> set (all_keys A []) = S)"

lemma stands_contains: "stands F l S k \<Longrightarrow> contains_panel l key \<longleftrightarrow> key \<in> S"
  unfolding stands_def contains_panel_def by (metis find_panel_None)

lemma stands_remove:
  assumes "stands F l S k" and "key \<in> S"
  shows "\<exists>l'. remove_panel key l = (True, l') \<and> stands F l' (S - {key}) k"
proof -
  obtain A where A: "rep l A []" "wf F A []" "room (2 * k) A" "set (all_keys A []) = S"
    using assms(1) by (auto simp: stands_def)
  have "agrees F l (remove_panel key l) (spec_remove key A)" by (rule remove_agrees [OF A(1,2)])
  moreover have "spec_remove key A = Some (ds_prune key A)" using A(4) assms(2) by (simp add: spec_remove_def)
  moreover have "room (2 * k) (ds_prune key A)" using A(3) by (simp add: room_def ds_prune_def)
  ultimately show ?thesis
    using prune_all_keys [OF A(2)] A(4)
    by (cases "remove_panel key l") (auto simp: agrees_def stands_def)
qed

lemma stands_add:
  assumes "stands F l S (Suc k)" and "dock_floats F" and "fst (add_panel F key target l)"
  shows "stands F (snd (add_panel F key target l)) (insert key S) k"
proof -
  obtain A where A: "rep l A []" "wf F A []" "room (2 * k + 2) A" "set (all_keys A []) = S"
    using assms(1) by (auto simp: stands_def)
  have "agrees F l (add_panel F key target l) (spec_add F key target A)"
    by (rule add_agrees [OF A(1,2) assms(2) room_mono [OF A(3)]]) simp
  then obtain B where B: "spec_add F key target A = Some B" "rep (snd (add_panel F key target l)) B []" "wf F B []"
    using assms(3) by (auto simp: agrees_def split: option.splits)
  moreover have "set (all_keys B []) = insert key S"
    using add_keys [OF wfD(1) [OF A(2)] B(1)] A(4) by simp
  moreover have "room (2 * k) B" using room_step [OF A(3), of F "OpAdd key target"] B(1) by simp
  ultimately show ?thesis by (auto simp: stands_def)
qed

text \<open>An add works at a stack, in an empty dock area, beside its tree and on a tree that is a stack.\<close>

lemma spec_add_works:
  assumes "key \<noteq> []" and "key \<notin> set (all_keys A [])"
  shows "forest_sub i (ds_trees A) = Some (Stack i ps a) \<Longrightarrow> i \<noteq> kNoDockNode
      \<Longrightarrow> spec_add F key \<lparr>target_node = i, target_zone = zone\<rparr> A \<noteq> None"
    and "ds_root A = None \<Longrightarrow> spec_add F key \<lparr>target_node = kNoDockNode, target_zone = zone\<rparr> A \<noteq> None"
    and "ds_root A = Some t \<Longrightarrow> zone \<noteq> ZoneCenter \<or> (\<exists>i ps a. t = Stack i ps a)
      \<Longrightarrow> spec_add F key \<lparr>target_node = kNoDockNode, target_zone = zone\<rparr> A \<noteq> None"
proof -
  assume sub: "forest_sub i (ds_trees A) = Some (Stack i ps a)" and "i \<noteq> kNoDockNode"
  moreover have "i \<in> set (forest_ids (ds_trees A))" using sub forest_sub_None [of i "ds_trees A"] by auto
  ultimately show "spec_add F key \<lparr>target_node = i, target_zone = zone\<rparr> A \<noteq> None"
    using assms by (simp add: spec_add_def spec_insert_def spec_lost_def spec_fills_def spec_dest_def)
next
  assume "ds_root A = None"
  then show "spec_add F key \<lparr>target_node = kNoDockNode, target_zone = zone\<rparr> A \<noteq> None"
    using assms by (simp add: spec_add_def spec_insert_def spec_lost_def spec_fills_def)
next
  assume root: "ds_root A = Some t" and "zone \<noteq> ZoneCenter \<or> (\<exists>i ps a. t = Stack i ps a)"
  moreover have "forest_sub (top_id t) (ds_trees A) = Some t"
    using root by (cases t) (simp_all add: ds_trees_def)
  ultimately show "spec_add F key \<lparr>target_node = kNoDockNode, target_zone = zone\<rparr> A \<noteq> None"
    using assms
    by (auto simp: spec_add_def spec_insert_def spec_lost_def spec_fills_def spec_dest_def root_top_def)
qed

lemma stack_in_tree:
  assumes "distinct (tree_ids t)" and "s \<in> set (tree_stacks t)"
  shows "\<exists>ps a. sub_at s t = Some (Stack s ps a)"
  using assms
proof (induction t)
  case (Split i ax r x y)
  have ids: "set (tree_stacks u) \<subseteq> set (tree_ids u)" for u :: "'a dtree" by (induction u) auto
  consider (x) "s \<in> set (tree_stacks x)" | (y) "s \<in> set (tree_stacks y)" using Split.prems by auto
  then show ?case
  proof cases
    case x
    with Split ids [of x] show ?thesis by (auto split: option.splits)
  next
    case y
    then have "s \<noteq> i" "s \<notin> set (tree_ids x)" using Split.prems ids [of y] by auto
    with y Split sub_at_None [of s x] show ?thesis by (auto split: option.splits)
  qed
qed auto

lemma stacks_some: "tree_stacks t \<noteq> []"
  by (induction t) auto

lemma place_panel_works:
  assumes st: "stands F l S (Suc k)" and F: "dock_floats F" and key: "key \<noteq> []" "key \<notin> S"
  shows "\<exists>l'. place_panel F spot key l = Some (True, l') \<and> stands F l' (insert key S) k"
proof -
  obtain A where A: "rep l A []" "wf F A []" "room (2 * Suc k) A" "set (all_keys A []) = S"
    using st by (auto simp: stands_def)
  have agrees: "agrees F l (add_panel F key target l) (spec_add F key target A)" for target
    by (rule add_agrees [OF A(1,2) F room_mono [OF A(3)]]) simp
  have works: "\<exists>l'. add_panel F key target l = (True, l') \<and> stands F l' (insert key S) k"
    if "spec_add F key target A \<noteq> None" for target
    using that agrees [of target] stands_add [OF st F, of key target]
    by (cases "add_panel F key target l") (auto simp: agrees_def)
  have fails: "add_panel F key target l = (False, l)" if "spec_add F key target A = None" for target
    using that agrees [of target] by (simp add: agrees_def)
  note spec = spec_add_works [of key A, OF key(1) key(2) [folded A(4)]]
  show ?thesis
  proof (cases "find_panel l (spot_beside spot)")
    case (Some p)
    obtain ps a where "forest_sub (place_stack p) (ds_trees A) = Some (Stack (place_stack p) ps a)"
      by (rule find_panel_Some [OF A(1,2) Some])
    moreover from this have "place_stack p \<noteq> kNoDockNode"
      using wfD(3) [OF A(2)] forest_sub_None [of "place_stack p" "ds_trees A"] by (auto simp: all_ids_def)
    ultimately have "spec_add F key \<lparr>target_node = place_stack p, target_zone = spot_zone spot\<rparr> A \<noteq> None"
      by (rule spec(1))
    from works [OF this] Some show ?thesis by (auto simp: place_panel_def place_at_spot_def)
  next
    case None
    let ?target = "\<lparr>target_node = kNoDockNode, target_zone = spot_zone spot\<rparr>"
    show ?thesis
    proof (cases "spec_add F key ?target A")
      case (Some B)
      with works [of ?target] None show ?thesis by (auto simp: place_panel_def place_at_spot_def)
    next
      case lost: None
      then obtain t where t: "ds_root A = Some t" using spec(2) by (cases "ds_root A") auto
      then have mem: "t \<in> set (ds_trees A)" by (simp add: ds_trees_def)
      have "dl_root l = top_id t" using repD(3) [OF A(1)] t by (simp add: root_top_def)
      with stacks_under_tree [OF A(1,2) mem] have stacks: "stacks_under l (dl_root l) = Some (tree_stacks t)"
        by simp
      obtain s ss where ss: "tree_stacks t = s # ss" using stacks_some [of t] by (cases "tree_stacks t") auto
      have "distinct (tree_ids t)" using wfD(1) [OF A(2)] mem by (simp add: distinct_concat_iff)
      then obtain ps a where sub: "sub_at s t = Some (Stack s ps a)"
        using stack_in_tree [of t s] ss by auto
      have "forest_sub s (ds_trees A) = Some (Stack s ps a)"
        by (rule forest_sub_in [OF wfD(1) [OF A(2)] mem sub])
      moreover from this have "s \<noteq> kNoDockNode"
        using wfD(3) [OF A(2)] forest_sub_None [of s "ds_trees A"] by (auto simp: all_ids_def)
      ultimately have "spec_add F key \<lparr>target_node = s, target_zone = ZoneCenter\<rparr> A \<noteq> None"
        by (rule spec(1))
      from works [OF this] fails [OF lost] None stacks ss show ?thesis
        by (auto simp: place_panel_def place_at_spot_def)
    qed
  qed
qed

lemma drop_works:
  assumes "stands F l S k" and "distinct keys" and "set keys \<subseteq> S"
  shows "\<exists>l'. drop_unregistered registered keys (c, l) = (c \<or> \<not> set keys \<subseteq> set registered, l')
    \<and> stands F l' (S - (set keys - set registered)) k"
  using assms
proof (induction keys arbitrary: c l S)
  case (Cons key keys)
  show ?case
  proof (cases "key \<in> set registered")
    case True
    with Cons.IH [OF Cons.prems(1)] Cons.prems show ?thesis by (simp add: insert_Diff_if)
  next
    case False
    obtain l1 where l1: "remove_panel key l = (True, l1)" "stands F l1 (S - {key}) k"
      using stands_remove [OF Cons.prems(1), of key] Cons.prems(3) by auto
    have "S - (set (key # keys) - set registered) = S - {key} - (set keys - set registered)"
      using False by auto
    with Cons.IH [OF l1(2), of True] Cons.prems False l1(1) show ?thesis by auto
  qed
qed auto

lemma add_works:
  assumes "stands F l S (length keys)" and "dock_floats F"
  shows "\<exists>l'. add_registered F spot keys (c, l) = Some (c \<or> \<not> set keys - {[]} \<subseteq> S, l')
    \<and> stands F l' (S \<union> (set keys - {[]})) 0"
  using assms
proof (induction keys arbitrary: c l S)
  case (Cons key keys)
  have less: "stands F l S (length keys)"
    using Cons.prems(1) room_mono by (fastforce simp: stands_def)
  show ?case
  proof (cases "key = [] \<or> key \<in> S")
    case True
    then have "S \<union> (set (key # keys) - {[]}) = S \<union> (set keys - {[]})"
      "set (key # keys) - {[]} \<subseteq> S \<longleftrightarrow> set keys - {[]} \<subseteq> S" by auto
    with Cons.IH [OF less Cons.prems(2), of c] True stands_contains [OF less, of key]
    show ?thesis by (simp only: add_registered.simps if_True)
  next
    case False
    obtain l1 where l1: "place_panel F spot key l = Some (True, l1)" "stands F l1 (insert key S) (length keys)"
      using place_panel_works [of F l S "length keys" key spot] Cons.prems False by auto
    have "S \<union> (set (key # keys) - {[]}) = insert key S \<union> (set keys - {[]})"
      "\<not> set (key # keys) - {[]} \<subseteq> S" using False by auto
    with Cons.IH [OF l1(2) Cons.prems(2), of True] l1(1) False stands_contains [OF less, of key]
    show ?thesis by simp
  qed
qed (simp add: stands_def)

text \<open>
  C34: on a valid layout with ids left, reconciling returns a valid layout whose panels are exactly the
  registered ones with a key, and reports a change exactly when they were not before.
\<close>

theorem reconcile_panels:
  assumes "om_ok (dl_nodes l)" and "dock_valid F l" and "dock_floats F"
    and "dl_next l \<noteq> kNoDockNode" and "unat (dl_next l) + 2 * length registered < 2 ^ 32"
  shows "\<exists>ps c l' qs. panels l = Some ps \<and> reconcile_dock_layout F registered spot l = Some (c, l')
    \<and> dock_valid F l' \<and> panels l' = Some qs \<and> distinct qs \<and> set qs = set registered - {[]}
    \<and> (c \<longleftrightarrow> set ps \<noteq> set registered - {[]})"
proof -
  obtain A where A: "rep l A []" "wf F A []" by (rule valid_wf [OF assms(1,2)])
  define ps where "ps = all_keys A []"
  have ps: "distinct ps" "[] \<notin> set ps" using A(2) by (simp_all add: ps_def wf_def)
  have "stands F l (set ps) (length registered)"
    using A layout_room [OF A(1) assms(4,5)] by (auto simp: stands_def ps_def)
  from drop_works [OF this ps(1) subset_refl, of registered False]
  obtain l1 where l1: "drop_unregistered registered ps (False, l) = (\<not> set ps \<subseteq> set registered, l1)"
    "stands F l1 (set ps - (set ps - set registered)) (length registered)" by auto
  from add_works [OF l1(2) assms(3), of spot "\<not> set ps \<subseteq> set registered"]
  obtain l' where l': "add_registered F spot registered (\<not> set ps \<subseteq> set registered, l1)
      = Some (\<not> set ps \<subseteq> set registered \<or> \<not> set registered - {[]} \<subseteq> set ps - (set ps - set registered), l')"
    "stands F l' (set ps - (set ps - set registered) \<union> (set registered - {[]})) 0" by blast
  have "set ps - (set ps - set registered) \<union> (set registered - {[]}) = set registered - {[]}" using ps(2) by auto
  with l'(2) obtain B where B: "rep l' B []" "wf F B []" "set (all_keys B []) = set registered - {[]}"
    by (auto simp: stands_def)
  have panels: "panels l = Some ps" using panels_rep [OF A] by (simp add: ps_def)
  have "distinct (all_keys B [])" using B(2) by (simp add: wf_def)
  moreover have "(\<not> set ps \<subseteq> set registered \<or> \<not> set registered - {[]} \<subseteq> set ps - (set ps - set registered))
      \<longleftrightarrow> set ps \<noteq> set registered - {[]}" using ps(2) by blast
  ultimately show ?thesis
    using panels l1(1) l'(1) B(3) panels_rep [OF B(1,2)] wf_valid [OF B(1,2)]
    by (simp add: reconcile_dock_layout_def)
qed

theorem reconcile_panels_witness:
  "\<exists>c l' qs. reconcile_dock_layout rat_arith [''a'', ''b'', []] \<lparr>spot_beside = ''b'', spot_zone = ZoneLeft\<rparr>
      (empty_layout :: (rat, nat) dock_layout) = Some (c, l')
    \<and> panels l' = Some qs \<and> set qs = {''a'', ''b''}"
proof -
  have valid: "dock_valid rat_arith (empty_layout :: (rat, nat) dock_layout)"
    by (rule wf_valid [OF empty_rep_rat])
  have "set [''a'', ''b'', []] - {[]} = {''a'', ''b''}" by auto
  then show ?thesis
    using reconcile_panels [OF om_ok_empty valid rat_dock_floats,
      of "[''a'', ''b'', []]" "\<lparr>spot_beside = ''b'', spot_zone = ZoneLeft\<rparr>"]
    by (fastforce simp: empty_layout_def simp del: set_simps)
qed

end
