(* ===== verification/Ascii_Text.thy ===== *)
theory Ascii_Text
  imports Wind_Prelude
begin

section \<open>Text as the parsers read it\<close>

text \<open>
  What the parsers of the engine use of the standard library on texts of bytes: \<open>find\<close> of a character
  and of a text, \<open>std::from_chars\<close> and \<open>std::to_string\<close> on numbers that are not negative, and ASCII
  case. A text is a list of characters, and a \<open>string_view\<close> that moves on is the rest of the list.
\<close>

abbreviation ascii :: "char \<Rightarrow> nat" where
  "ascii c \<equiv> of_char c"

definition is_digit :: "char \<Rightarrow> bool" where
  "is_digit c \<longleftrightarrow> 48 \<le> ascii c \<and> ascii c \<le> 57"

definition ascii_lower :: "char \<Rightarrow> char" where
  "ascii_lower c = (if 65 \<le> ascii c \<and> ascii c \<le> 90 then char_of (ascii c - 65 + 97) else c)"

definition equals_ignore_case :: "string \<Rightarrow> string \<Rightarrow> bool" where
  "equals_ignore_case a b = list_all2 (\<lambda>x y. ascii_lower x = ascii_lower y) a b"

lemma equals_ignore_case_map: "equals_ignore_case a b \<longleftrightarrow> map ascii_lower a = map ascii_lower b"
  by (simp add: equals_ignore_case_def list_all2_conv_all_nth list_eq_iff_nth_eq) (metis nth_map)

subsection \<open>Finding\<close>

fun find_char :: "char \<Rightarrow> string \<Rightarrow> nat option" where
  "find_char c [] = None"
| "find_char c (x # xs) = (if x = c then Some 0 else map_option Suc (find_char c xs))"

fun find_text :: "string \<Rightarrow> string \<Rightarrow> nat option" where
  "find_text p [] = (if p = [] then Some 0 else None)"
| "find_text p (x # xs) =
     (if take (length p) (x # xs) = p then Some 0 else map_option Suc (find_text p xs))"

lemma find_char_None: "find_char c s = None \<longleftrightarrow> c \<notin> set s"
  by (induction s) auto

lemma find_char_append:
  "c \<notin> set a \<Longrightarrow> find_char c (a @ c # b) = Some (length a)"
  by (induction a) auto

lemma find_char_SomeD:
  assumes "find_char c s = Some n"
  shows "s = take n s @ c # drop (Suc n) s" "c \<notin> set (take n s)" "n < length s"
  using assms by (induction s arbitrary: n) (auto split: if_splits)

lemma find_char_Some:
  "find_char c s = Some n \<longleftrightarrow> (\<exists>a b. s = a @ c # b \<and> c \<notin> set a \<and> n = length a)"
  using find_char_SomeD [of c s n] find_char_append [of c] 
  by (metis length_take min.absorb4 min.commute)

lemma find_text_append:
  assumes "p \<noteq> []" and "hd p \<notin> set a"
  shows "find_text p (a @ p @ b) = Some (length a)"
  using assms
proof (induction a)
  case Nil
  then show ?case by (cases p) auto
next
  case (Cons x a)
  then have "take (length p) (x # a @ p @ b) \<noteq> p" by (cases p) auto
  with Cons show ?case by auto
qed

lemma find_text_SomeD:
  "find_text p s = Some n \<Longrightarrow> s = take n s @ p @ drop (n + length p) s \<and> n + length p \<le> length s"
proof (induction s arbitrary: n)
  case (Cons x s)
  show ?case
  proof (cases "take (length p) (x # s) = p")
    case True
    with Cons.prems have "n = 0" by simp
    moreover have "length p \<le> length (x # s)" using True by (metis length_take min.cobounded1)
    ultimately show ?thesis using True by (metis add_0 append_take_drop_id self_append_conv2 take0)
  next
    case False
    with Cons.prems obtain m where m: "find_text p s = Some m" "n = Suc m" by auto
    with Cons.IH show ?thesis by simp
  qed
qed (auto split: if_splits)

subsection \<open>Numbers\<close>

text \<open>
  \<open>std::from_chars\<close> into an unsigned type, or into a signed one on a text that starts with a digit: it
  reads all the digits at the front and fails where there is none or the value is above the limit
  of the type. It gives the value and the text behind the digits.
\<close>

definition digits_value :: "string \<Rightarrow> nat" where
  "digits_value ds = foldl (\<lambda>n d. 10 * n + (ascii d - 48)) 0 ds"

definition from_chars :: "nat \<Rightarrow> string \<Rightarrow> (nat \<times> string) option" where
  "from_chars limit s =
     (let ds = takeWhile is_digit s in
      if ds = [] \<or> limit < digits_value ds then None
      else Some (digits_value ds, dropWhile is_digit s))"

definition digit :: "nat \<Rightarrow> char" where
  "digit n = char_of (48 + n)"

fun number_text :: "nat \<Rightarrow> string" where
  "number_text n = (if n < 10 then [digit n] else number_text (n div 10) @ [digit (n mod 10)])"

declare number_text.simps [simp del]

lemma ascii_digit: "n < 10 \<Longrightarrow> ascii (digit n) = 48 + n"
  by (simp add: digit_def)

lemma number_text_digits: "c \<in> set (number_text n) \<Longrightarrow> is_digit c"
proof (induction n rule: number_text.induct)
  case (1 n)
  then show ?case
    by (cases "n < 10") (auto simp: number_text.simps [of n] is_digit_def ascii_digit)
qed

lemma number_text_some [simp]: "number_text n \<noteq> []"
  by (simp add: number_text.simps [of n])

lemma number_text_value [simp]: "digits_value (number_text n) = n"
proof (induction n rule: number_text.induct)
  case (1 n)
  then show ?case
    by (cases "n < 10") (auto simp: number_text.simps [of n] digits_value_def ascii_digit)
qed

definition stops :: "string \<Rightarrow> bool" where
  "stops s \<longleftrightarrow> s = [] \<or> \<not> is_digit (hd s)"

lemma stops_simps [simp]: "stops []" "stops (c # s) \<longleftrightarrow> \<not> is_digit c"
  by (simp_all add: stops_def)

lemma from_chars_digits:
  assumes "ds \<noteq> []" and "\<forall>c \<in> set ds. is_digit c" and "stops rest"
  shows "from_chars limit (ds @ rest) = (if digits_value ds \<le> limit then Some (digits_value ds, rest) else None)"
proof -
  have "takeWhile is_digit (ds @ rest) = ds" "dropWhile is_digit (ds @ rest) = rest"
    using assms(2,3) by (cases rest; simp add: takeWhile_append2 dropWhile_append2)+
  with assms(1) show ?thesis by (simp add: from_chars_def)
qed

lemma from_chars_number:
  "n \<le> limit \<Longrightarrow> stops rest \<Longrightarrow> from_chars limit (number_text n @ rest) = Some (n, rest)"
  using from_chars_digits [of "number_text n" rest limit] number_text_digits by auto

lemma from_chars_SomeD:
  assumes "from_chars limit s = Some (n, rest)"
  shows "\<exists>ds. s = ds @ rest \<and> ds \<noteq> [] \<and> (\<forall>c \<in> set ds. is_digit c) \<and> stops rest
    \<and> n = digits_value ds \<and> n \<le> limit"
proof (intro exI conjI)
  show "s = takeWhile is_digit s @ rest" using assms by (auto simp: from_chars_def Let_def split: if_splits)
  show "\<forall>c \<in> set (takeWhile is_digit s). is_digit c" by (auto dest: set_takeWhileD)
  show "stops rest"
    using assms hd_dropWhile [of is_digit s] by (auto simp: from_chars_def stops_def Let_def split: if_splits)
qed (use assms in \<open>auto simp: from_chars_def Let_def split: if_splits\<close>)

end
