(* ===== verification/Http_Parse.thy ===== *)
theory Http_Parse
  imports Ascii_Text
begin

section \<open>HTTP texts\<close>

text \<open>
  \<open>src/src/net/http_parse.cpp\<close>: the parser of a request url, the names of the methods, the parser of the
  raw headers of a response and its content length. \<open>std::expected\<close> is a sum with the error on the left,
  and the end of a text where \<open>find\<close> finds nothing is the length of the text.
\<close>

datatype http_method = HttpGet | HttpPost | HttpPut | HttpPatch | HttpDelete | HttpHead

datatype http_error =
    InvalidUrl | Unsupported | Network | Timeout | TooLarge | Dns | Tls | ConnectionReset
  | RedirectRefused | SinkAborted

record http_header =
  header_name :: string
  header_value :: string

record http_url =
  url_secure :: bool
  url_host :: string
  url_port :: u16
  url_target :: string
  url_text :: string

record http_response =
  response_status :: int
  response_headers :: "http_header list"
  response_body :: string

definition http_method_name :: "http_method \<Rightarrow> string" where
  "http_method_name method = (case method of HttpGet \<Rightarrow> ''GET'' | HttpPost \<Rightarrow> ''POST''
     | HttpPut \<Rightarrow> ''PUT'' | HttpPatch \<Rightarrow> ''PATCH'' | HttpDelete \<Rightarrow> ''DELETE'' | HttpHead \<Rightarrow> ''HEAD'')"

abbreviation return_char :: char where
  "return_char \<equiv> CHR 0x0D"

abbreviation line_feed :: char where
  "line_feed \<equiv> CHR 0x0A"

definition is_space :: "char \<Rightarrow> bool" where
  "is_space c \<longleftrightarrow> c = CHR '' '' \<or> c = CHR 0x09"

definition trim :: "string \<Rightarrow> string" where
  "trim text = rev (dropWhile (\<lambda>c. is_space c \<or> c = return_char) (rev (dropWhile is_space text)))"

definition bad_url_char :: "char \<Rightarrow> bool" where
  "bad_url_char c \<longleftrightarrow> ascii c \<le> 32 \<or> ascii c = 127"

text \<open>The host and the text of the port, when there is one.\<close>

definition split_authority :: "string \<Rightarrow> (string \<times> string option) option" where
  "split_authority authority =
     (if hd authority = CHR ''['' then
        (case find_char CHR '']'' authority of None \<Rightarrow> None
         | Some close \<Rightarrow>
             (let host = take (close - 1) (drop 1 authority); after = drop (close + 1) authority in
              if after = [] then Some (host, None)
              else if hd after \<noteq> CHR '':'' then None
              else Some (host, Some (drop 1 after))))
      else
        (case find_char CHR '':'' authority of None \<Rightarrow> Some (authority, None)
         | Some colon \<Rightarrow> Some (take colon authority, Some (drop (colon + 1) authority))))"

definition read_port :: "bool \<Rightarrow> string option \<Rightarrow> u16 option" where
  "read_port secure port =
     (case port of None \<Rightarrow> Some (if secure then 443 else 80)
      | Some p \<Rightarrow>
          (case from_chars (2 ^ 32 - 1) p of None \<Rightarrow> None
           | Some (value, end) \<Rightarrow>
               if p = [] \<or> 5 < length p \<or> end \<noteq> [] \<or> value = 0 \<or> 65535 < value then None
               else Some (of_nat value)))"

definition least_end :: "string \<Rightarrow> nat option \<Rightarrow> nat option \<Rightarrow> nat" where
  "least_end text a b = min (case a of None \<Rightarrow> length text | Some i \<Rightarrow> i)
     (case b of None \<Rightarrow> length text | Some i \<Rightarrow> i)"

definition parse_after_scheme :: "bool \<Rightarrow> string \<Rightarrow> string \<Rightarrow> http_error + http_url" where
  "parse_after_scheme secure url rest =
     (let authority_end = least_end rest (find_char CHR ''/'' rest) (find_char CHR ''?'' rest);
          authority = take authority_end rest;
          target = drop authority_end rest
      in if authority = [] \<or> CHR ''@'' \<in> set authority then Inl InvalidUrl
         else (case split_authority authority of None \<Rightarrow> Inl InvalidUrl
           | Some (host, port) \<Rightarrow>
               if host = [] then Inl InvalidUrl
               else (case read_port secure port of None \<Rightarrow> Inl InvalidUrl
                 | Some p \<Rightarrow> Inr \<lparr>url_secure = secure, url_host = host, url_port = p,
                     url_target = (if target = [] \<or> hd target = CHR ''?'' then CHR ''/'' # target else target),
                     url_text = url\<rparr>)))"

definition parse_http_url :: "string \<Rightarrow> http_error + http_url" where
  "parse_http_url url0 =
     (if (\<exists>c \<in> set url0. bad_url_char c) then Inl InvalidUrl
      else
        (let url = (case find_char CHR ''#'' url0 of None \<Rightarrow> url0 | Some hash \<Rightarrow> take hash url0) in
         case find_text ''://'' url of None \<Rightarrow> Inl InvalidUrl
         | Some scheme_end \<Rightarrow>
             (let scheme = take scheme_end url; rest = drop (scheme_end + 3) url in
              if equals_ignore_case scheme ''https'' then parse_after_scheme True url rest
              else if \<not> equals_ignore_case scheme ''http'' then Inl InvalidUrl
              else parse_after_scheme False url rest)))"

text \<open>\<open>first\<close> is whether no line was read before.\<close>

function parse_header_lines :: "bool \<Rightarrow> string \<Rightarrow> http_header list" where
  "parse_header_lines first raw =
     (if raw = [] then []
      else
        (let end = (case find_char line_feed raw of None \<Rightarrow> length raw | Some i \<Rightarrow> i);
             line = take end raw;
             line = (if line \<noteq> [] \<and> last line = return_char then butlast line else line);
             headers = parse_header_lines False (drop (Suc end) raw)
         in if first \<and> take 5 line = ''HTTP/'' then headers
            else (case find_char CHR '':'' line of None \<Rightarrow> headers
              | Some colon \<Rightarrow>
                  if colon = 0 then headers
                  else \<lparr>header_name = trim (take colon line),
                         header_value = trim (drop (Suc colon) line)\<rparr> # headers)))"
  by pat_completeness auto
termination
  by (relation "measure (\<lambda>(first, raw). length raw)") auto

declare parse_header_lines.simps [simp del]

definition parse_raw_headers :: "string \<Rightarrow> http_header list" where
  "parse_raw_headers raw = parse_header_lines True raw"

definition response_header :: "http_response \<Rightarrow> string \<Rightarrow> string option" where
  "response_header response n = map_option header_value
     (find_first (\<lambda>h. equals_ignore_case (header_name h) n) (response_headers response))"

definition content_length :: "http_response \<Rightarrow> u64 option" where
  "content_length response =
     (case response_header response ''Content-Length'' of None \<Rightarrow> None
      | Some text \<Rightarrow>
          if text = [] then None
          else (case from_chars (2 ^ 64 - 1) text of None \<Rightarrow> None
            | Some (value, end) \<Rightarrow> if end \<noteq> [] then None else Some (of_nat value)))"

subsection \<open>The urls the parser takes\<close>

primrec port_text :: "string option \<Rightarrow> string" where
  "port_text None = []"
| "port_text (Some p) = CHR '':'' # p"

definition authority_grammar :: "string \<Rightarrow> string \<Rightarrow> string option \<Rightarrow> bool" where
  "authority_grammar authority host port \<longleftrightarrow>
     authority = CHR ''['' # host @ CHR '']'' # port_text port \<and> CHR '']'' \<notin> set host
     \<or> authority = host @ port_text port \<and> CHR '':'' \<notin> set host \<and> hd host \<noteq> CHR ''[''"

definition port_grammar :: "bool \<Rightarrow> string option \<Rightarrow> u16 \<Rightarrow> bool" where
  "port_grammar secure port p = (case port of None \<Rightarrow> p = (if secure then 443 else 80)
     | Some t \<Rightarrow> t \<noteq> [] \<and> length t \<le> 5 \<and> (\<forall>c \<in> set t. is_digit c) \<and> digits_value t \<in> {1..65535}
         \<and> p = of_nat (digits_value t))"

definition rest_grammar :: "string \<Rightarrow> http_url \<Rightarrow> bool" where
  "rest_grammar rest u \<longleftrightarrow> (\<exists>authority tail port.
     rest = authority @ tail
     \<and> set authority \<inter> {CHR ''/'', CHR ''?'', CHR ''@''} = {} \<and> (tail = [] \<or> hd tail \<in> {CHR ''/'', CHR ''?''})
     \<and> url_host u \<noteq> [] \<and> authority_grammar authority (url_host u) port
     \<and> port_grammar (url_secure u) port (url_port u)
     \<and> url_target u = (if tail = [] \<or> hd tail = CHR ''?'' then CHR ''/'' # tail else tail))"

definition url_grammar :: "string \<Rightarrow> http_url \<Rightarrow> bool" where
  "url_grammar s u \<longleftrightarrow> (\<exists>scheme rest fragment.
     s = scheme @ ''://'' @ rest @ fragment \<and> (\<forall>c \<in> set s. \<not> bad_url_char c)
     \<and> (fragment = [] \<or> hd fragment = CHR ''#'') \<and> CHR ''#'' \<notin> set (scheme @ rest)
     \<and> equals_ignore_case scheme (if url_secure u then ''https'' else ''http'')
     \<and> rest_grammar rest u \<and> url_text u = scheme @ ''://'' @ rest)"

lemma least_end_Cons:
  "least_end (x # r) (find_char a (x # r)) (find_char b (x # r)) =
    (if x = a \<or> x = b then 0 else Suc (least_end r (find_char a r) (find_char b r)))"
  by (auto simp: least_end_def split: option.splits)

lemma least_end_take:
  "take (least_end r (find_char a r) (find_char b r)) r = takeWhile (\<lambda>c. c \<noteq> a \<and> c \<noteq> b) r"
  "drop (least_end r (find_char a r) (find_char b r)) r = dropWhile (\<lambda>c. c \<noteq> a \<and> c \<noteq> b) r"
  by (induction r) (simp_all add: least_end_Cons del: find_char.simps)

lemma before_char:
  "(case find_char c s of None \<Rightarrow> s | Some i \<Rightarrow> take i s) = takeWhile (\<lambda>x. x \<noteq> c) s"
  by (induction s) (auto split: option.splits)

lemma takeWhile_parts:
  "takeWhile P s = a \<and> dropWhile P s = b \<longleftrightarrow> s = a @ b \<and> (\<forall>x \<in> set a. P x) \<and> (b = [] \<or> \<not> P (hd b))"
proof
  assume "takeWhile P s = a \<and> dropWhile P s = b"
  then show "s = a @ b \<and> (\<forall>x \<in> set a. P x) \<and> (b = [] \<or> \<not> P (hd b))"
    using hd_dropWhile [of P s] by (auto dest: set_takeWhileD)
next
  assume "s = a @ b \<and> (\<forall>x \<in> set a. P x) \<and> (b = [] \<or> \<not> P (hd b))"
  then show "takeWhile P s = a \<and> dropWhile P s = b"
    by (cases b) (auto simp: takeWhile_append2 dropWhile_append2)
qed

lemma split_authority_Some:
  assumes "authority \<noteq> []" and "host \<noteq> []"
  shows "split_authority authority = Some (host, port) \<longleftrightarrow> authority_grammar authority host port"
proof
  assume split: "split_authority authority = Some (host, port)"
  show "authority_grammar authority host port"
  proof (cases "hd authority = CHR ''[''")
    case True
    then obtain a where a: "authority = CHR ''['' # a" using assms(1) by (cases authority) auto
    then obtain k where k: "find_char CHR '']'' a = Some k" using split True
      by (cases "find_char CHR '']'' a") (auto simp: split_authority_def)
    have a': "a = take k a @ CHR '']'' # drop (Suc k) a" "CHR '']'' \<notin> set (take k a)"
      using find_char_SomeD [OF k] by auto
    have "host = take k a \<and> (drop (Suc k) a = [] \<and> port = None
        \<or> drop (Suc k) a \<noteq> [] \<and> hd (drop (Suc k) a) = CHR '':'' \<and> port = Some (drop 1 (drop (Suc k) a)))"
      using split a k by (auto simp: split_authority_def Let_def simp del: drop_drop split: if_splits)
    then have "host = take k a" "drop (Suc k) a = port_text port"
      by (cases "drop (Suc k) a"; auto)+
    then show ?thesis using a a' by (simp add: authority_grammar_def)
  next
    case False
    show ?thesis
    proof (cases "find_char CHR '':'' authority")
      case None
      then have "CHR '':'' \<notin> set authority" by (simp add: find_char_None)
      then show ?thesis using None split False by (auto simp: split_authority_def authority_grammar_def)
    next
      case (Some k)
      note parts = find_char_SomeD [OF Some]
      have "host = take k authority" "port = Some (drop (Suc k) authority)"
        using split False Some by (auto simp: split_authority_def)
      moreover from this have "hd host = hd authority" using assms by (cases k; cases authority) auto
      ultimately show ?thesis using parts False by (simp add: authority_grammar_def)
    qed
  qed
next
  assume "authority_grammar authority host port"
  then consider (bracket) "authority = CHR ''['' # host @ CHR '']'' # port_text port" "CHR '']'' \<notin> set host"
    | (plain) "authority = host @ port_text port" "CHR '':'' \<notin> set host" "hd host \<noteq> CHR ''[''"
    by (auto simp: authority_grammar_def)
  then show "split_authority authority = Some (host, port)"
  proof cases
    case bracket
    then show ?thesis
      by (cases port) (simp_all add: split_authority_def find_char_append)
  next
    case plain
    then have "find_char CHR '':'' host = None" by (simp add: find_char_None)
    with plain assms(2) show ?thesis
      by (cases port) (simp_all add: split_authority_def find_char_append)
  qed
qed

lemma read_port_Some: "read_port secure port = Some p \<longleftrightarrow> port_grammar secure port p"
proof (cases port)
  case None
  then show ?thesis by (auto simp: read_port_def port_grammar_def)
next
  case (Some t)
  have "from_chars (2 ^ 32 - 1) t = Some (v, []) \<longleftrightarrow> t \<noteq> [] \<and> (\<forall>c \<in> set t. is_digit c) \<and> v = digits_value t
      \<and> v \<le> 2 ^ 32 - 1" for v
    using from_chars_SomeD [of "2 ^ 32 - 1" t v "[]"] from_chars_digits [of t "[]" "2 ^ 32 - 1"]
    by auto
  moreover have "read_port secure port = Some p \<longleftrightarrow> (\<exists>v. from_chars (2 ^ 32 - 1) t = Some (v, []) \<and> t \<noteq> []
      \<and> length t \<le> 5 \<and> v \<noteq> 0 \<and> v \<le> 65535 \<and> p = of_nat v)"
    using Some by (auto simp: read_port_def split: option.splits if_splits)
  ultimately show ?thesis using Some by (auto simp: port_grammar_def)
qed

lemma scheme_colon:
  assumes "equals_ignore_case scheme w" and "CHR '':'' \<notin> set w" and "\<forall>c \<in> set w. ascii_lower c = c"
  shows "CHR '':'' \<notin> set scheme"
proof
  assume "CHR '':'' \<in> set scheme"
  then have "ascii_lower CHR '':'' \<in> set (map ascii_lower scheme)" by simp
  also have "\<dots> = set w" using assms(1,3) by (simp add: equals_ignore_case_map map_idI)
  finally show False using assms(2) by (simp add: ascii_lower_def)
qed

lemma scheme_once: "\<not> (equals_ignore_case s ''https'' \<and> equals_ignore_case s ''http'')"
  by (auto simp: equals_ignore_case_def dest!: list_all2_lengthD)

lemma colon_free: "equals_ignore_case scheme (if secure then ''https'' else ''http'') \<Longrightarrow> CHR '':'' \<notin> set scheme"
  using scheme_colon [of scheme "''https''"] scheme_colon [of scheme "''http''"]
  by (cases secure) (simp_all add: ascii_lower_def)

lemma after_scheme_Inr:
  "parse_after_scheme secure url rest = Inr u \<longleftrightarrow> rest_grammar rest u \<and> url_secure u = secure \<and> url_text u = url"
proof -
  let ?P = "\<lambda>c. c \<noteq> CHR ''/'' \<and> c \<noteq> CHR ''?''"
  let ?a = "takeWhile ?P rest" and ?t = "dropWhile ?P rest"
  let ?target = "if ?t = [] \<or> hd ?t = CHR ''?'' then CHR ''/'' # ?t else ?t"
  have "parse_after_scheme secure url rest = Inr u \<longleftrightarrow> (\<exists>host port p. ?a \<noteq> [] \<and> CHR ''@'' \<notin> set ?a
      \<and> split_authority ?a = Some (host, port) \<and> host \<noteq> [] \<and> read_port secure port = Some p
      \<and> u = \<lparr>url_secure = secure, url_host = host, url_port = p, url_target = ?target, url_text = url\<rparr>)"
    unfolding parse_after_scheme_def least_end_take Let_def
    by (auto split: if_splits option.splits prod.splits)
  also have "\<dots> \<longleftrightarrow> (\<exists>port. CHR ''@'' \<notin> set ?a \<and> url_host u \<noteq> []
      \<and> authority_grammar ?a (url_host u) port \<and> port_grammar secure port (url_port u)
      \<and> url_target u = ?target) \<and> url_secure u = secure \<and> url_text u = url"
  proof -
    obtain se h p tg tx where u: "u = \<lparr>url_secure = se, url_host = h, url_port = p, url_target = tg, url_text = tx\<rparr>"
      by (cases u)
    define a g where "a = ?a" and "g = ?target"
    have E: "authority_grammar [] h port \<Longrightarrow> h = []" for port
      by (cases h) (auto simp: authority_grammar_def)
    have A: "h \<noteq> [] \<Longrightarrow> a \<noteq> [] \<and> split_authority a = Some (h, port) \<longleftrightarrow> authority_grammar a h port" for port
      using split_authority_Some [of a h port] E by (cases "a = []") auto
    have "(\<exists>port. a \<noteq> [] \<and> CHR ''@'' \<notin> set a \<and> split_authority a = Some (h, port) \<and> h \<noteq> []
        \<and> port_grammar secure port p \<and> se = secure \<and> tg = g \<and> tx = url) \<longleftrightarrow>
      (\<exists>port. CHR ''@'' \<notin> set a \<and> h \<noteq> [] \<and> authority_grammar a h port \<and> port_grammar secure port p \<and> tg = g)
        \<and> se = secure \<and> tx = url" by (auto simp: A [symmetric] dest: E)
    then show ?thesis unfolding u read_port_Some a_def [symmetric] g_def [symmetric] by simp
  qed
  also have "\<dots> \<longleftrightarrow> rest_grammar rest u \<and> url_secure u = secure \<and> url_text u = url"
  proof
    assume L: "(\<exists>port. CHR ''@'' \<notin> set ?a \<and> url_host u \<noteq> []
      \<and> authority_grammar ?a (url_host u) port \<and> port_grammar secure port (url_port u)
      \<and> url_target u = ?target) \<and> url_secure u = secure \<and> url_text u = url"
    define a t where "a = ?a" and "t = ?t"
    obtain port where "CHR ''@'' \<notin> set a" "url_host u \<noteq> []" "authority_grammar a (url_host u) port"
      "port_grammar (url_secure u) port (url_port u)"
      "url_target u = (if t = [] \<or> hd t = CHR ''?'' then CHR ''/'' # t else t)"
      using L by (auto simp: a_def t_def)
    moreover have "rest = a @ t \<and> (\<forall>x \<in> set a. ?P x) \<and> (t = [] \<or> \<not> ?P (hd t))"
      by (rule takeWhile_parts [THEN iffD1]) (simp add: a_def t_def)
    ultimately have "rest_grammar rest u"
      unfolding rest_grammar_def by (rule_tac x = a in exI, rule_tac x = t in exI, rule_tac x = port in exI) auto
    with L show "rest_grammar rest u \<and> url_secure u = secure \<and> url_text u = url" by (elim conjE) (intro conjI)
  next
    assume "rest_grammar rest u \<and> url_secure u = secure \<and> url_text u = url"
    then obtain a t port where g: "rest = a @ t" "set a \<inter> {CHR ''/'', CHR ''?'', CHR ''@''} = {}"
      "t = [] \<or> hd t \<in> {CHR ''/'', CHR ''?''}" "url_host u \<noteq> []" "authority_grammar a (url_host u) port"
      "port_grammar secure port (url_port u)"
      "url_target u = (if t = [] \<or> hd t = CHR ''?'' then CHR ''/'' # t else t)"
      "url_secure u = secure" "url_text u = url"
      unfolding rest_grammar_def by blast
    moreover have "?a = a \<and> ?t = t"
      unfolding takeWhile_parts using g(1-3) by auto
    ultimately show "(\<exists>port. CHR ''@'' \<notin> set ?a \<and> url_host u \<noteq> []
      \<and> authority_grammar ?a (url_host u) port \<and> port_grammar secure port (url_port u)
      \<and> url_target u = ?target) \<and> url_secure u = secure \<and> url_text u = url"
      by auto
  qed
  finally show ?thesis .
qed

lemma url_once: "equals_ignore_case s ''https'' \<Longrightarrow> \<not> equals_ignore_case s ''http''"
  by (auto simp: equals_ignore_case_def dest!: list_all2_lengthD)

lemma parse_url_Inr: "parse_http_url s = Inr u \<longleftrightarrow> url_grammar s u"
proof
  assume parsed: "parse_http_url s = Inr u"
  define url where "url = takeWhile (\<lambda>x. x \<noteq> CHR ''#'') s"
  have good: "\<not> (\<exists>c \<in> set s. bad_url_char c)"
    using parsed by (cases "\<exists>c \<in> set s. bad_url_char c") (simp_all add: parse_http_url_def)
  obtain n where n: "find_text ''://'' url = Some n"
    using parsed good by (auto simp: parse_http_url_def before_char url_def [symmetric] split: option.splits)
  let ?scheme = "take n url" and ?rest = "drop (n + 3) url"
  have url: "url = ?scheme @ ''://'' @ ?rest" using find_text_SomeD [OF n] by (simp add: eval_nat_numeral)
  have parts: "equals_ignore_case ?scheme (if url_secure u then ''https'' else ''http'')"
    "rest_grammar ?rest u" "url_text u = url"
    using parsed good n
    by (auto simp: parse_http_url_def before_char url_def [symmetric] after_scheme_Inr Let_def split: if_splits)
  define fragment where "fragment = dropWhile (\<lambda>x. x \<noteq> CHR ''#'') s"
  have "s = url @ fragment" by (simp add: url_def fragment_def)
  then have s: "s = ?scheme @ ''://'' @ ?rest @ fragment" using url by (metis append.assoc)
  have "CHR ''#'' \<notin> set url" by (auto simp: url_def dest: set_takeWhileD)
  then have free: "CHR ''#'' \<notin> set (?scheme @ ?rest)" by (metis Un_iff set_append url)
  have "fragment = [] \<or> hd fragment = CHR ''#''"
    using hd_dropWhile [of "\<lambda>x. x \<noteq> CHR ''#''" s] by (auto simp: fragment_def)
  then show "url_grammar s u"
    unfolding url_grammar_def using good parts url s free by blast
next
  assume "url_grammar s u"
  then obtain scheme rest fragment where g: "s = scheme @ ''://'' @ rest @ fragment" "\<forall>c \<in> set s. \<not> bad_url_char c"
    "fragment = [] \<or> hd fragment = CHR ''#''" "CHR ''#'' \<notin> set (scheme @ rest)"
    "equals_ignore_case scheme (if url_secure u then ''https'' else ''http'')" "rest_grammar rest u"
    "url_text u = scheme @ ''://'' @ rest"
    unfolding url_grammar_def by blast
  have url: "takeWhile (\<lambda>x. x \<noteq> CHR ''#'') s = scheme @ ''://'' @ rest"
    using takeWhile_parts [of "\<lambda>x. x \<noteq> CHR ''#''" s "scheme @ ''://'' @ rest" fragment] g(1,3,4) by auto
  have found: "find_text ''://'' (scheme @ ''://'' @ rest) = Some (length scheme)"
    using find_text_append [of "''://''" scheme rest] colon_free [OF g(5)] by simp
  have "parse_after_scheme (url_secure u) (scheme @ ''://'' @ rest) rest = Inr u"
    using g(6,7) by (simp add: after_scheme_Inr)
  then show "parse_http_url s = Inr u"
    unfolding parse_http_url_def before_char url Let_def found option.case
    using g(2,5) url_once [of scheme] by (cases "url_secure u") auto
qed

text \<open>
  C36: a url is taken exactly when it has the form the header promises, http or https in any case, a host
  that is not empty, in brackets or without a colon, a port of at most five digits between 1 and
  65535 or the one of the scheme, no user, no blank and no control character; the parts are the ones of the
  text, its fragment is dropped, and every other text is the error InvalidUrl.
\<close>

theorem url_parse_iff:
  "(parse_http_url s = Inr u \<longleftrightarrow> url_grammar s u)
   \<and> (parse_http_url s = Inl e \<longleftrightarrow> e = InvalidUrl \<and> \<not> (\<exists>v. url_grammar s v))"
proof -
  have "parse_http_url s = Inl e' \<Longrightarrow> e' = InvalidUrl" for e'
    by (auto simp: parse_http_url_def parse_after_scheme_def Let_def split: if_splits option.splits prod.splits)
  then show ?thesis using parse_url_Inr [of s]
    by (cases "parse_http_url s") auto
qed

subsection \<open>The headers of a response\<close>

text \<open>
  What a line says: a header, with blanks around its name and its value, or nothing, when it is the status line, has no
  colon or starts with one. A block is a list of lines with their ends, \<open>CRLF\<close> or \<open>LF\<close>, which the last may lack.
\<close>

datatype block_line = Header_line string http_header string string string | Other_line string

definition blank :: "char \<Rightarrow> bool" where
  "blank c \<longleftrightarrow> is_space c \<or> c = return_char"

fun line_string :: "block_line \<Rightarrow> string" where
  "line_string (Header_line pre h mid pad post) =
     pre @ header_name h @ mid @ CHR '':'' # pad @ header_value h @ post"
| "line_string (Other_line s) = s"

definition status_line :: "bool \<Rightarrow> string \<Rightarrow> bool" where
  "status_line first s \<longleftrightarrow> first \<and> take 5 s = ''HTTP/''"

fun line_ok :: "bool \<Rightarrow> block_line \<Rightarrow> bool" where
  "line_ok first (Header_line pre h mid pad post) \<longleftrightarrow>
     list_all is_space pre \<and> list_all blank mid \<and> list_all is_space pad \<and> list_all blank post
     \<and> trim (header_name h) = header_name h \<and> trim (header_value h) = header_value h
     \<and> pre @ header_name h @ mid \<noteq> [] \<and> CHR '':'' \<notin> set (header_name h)
     \<and> line_feed \<notin> set (header_name h) \<and> line_feed \<notin> set (header_value h)
     \<and> \<not> status_line first (line_string (Header_line pre h mid pad post))"
| "line_ok first (Other_line s) \<longleftrightarrow> line_feed \<notin> set s \<and> (CHR '':'' \<notin> set s \<or> hd s = CHR '':'' \<or> status_line first s)"

fun line_headers :: "block_line \<Rightarrow> http_header list" where
  "line_headers (Header_line pre h mid pad post) = [h]"
| "line_headers (Other_line s) = []"

fun block_ok :: "bool \<Rightarrow> (block_line \<times> string) list \<Rightarrow> bool" where
  "block_ok first [] \<longleftrightarrow> True"
| "block_ok first ((l, e) # ls) \<longleftrightarrow> line_ok first l
     \<and> (e = [return_char, line_feed] \<or> e = [line_feed] \<or> e = [] \<and> ls = []) \<and> block_ok False ls"

definition block_string :: "(block_line \<times> string) list \<Rightarrow> string" where
  "block_string ls = concat (map (\<lambda>(l, e). line_string l @ e) ls)"

definition block_headers :: "(block_line \<times> string) list \<Rightarrow> http_header list" where
  "block_headers ls = concat (map (line_headers \<circ> fst) ls)"

subsubsection \<open>Blanks\<close>

lemma trim_parts:
  "t = takeWhile is_space t @ trim t @ rev (takeWhile blank (rev (dropWhile is_space t)))"
proof -
  have "dropWhile is_space t = rev (takeWhile blank (rev (dropWhile is_space t)) @ dropWhile blank (rev (dropWhile is_space t)))"
    by simp
  also have "\<dots> = trim t @ rev (takeWhile blank (rev (dropWhile is_space t)))"
    by (simp only: rev_append) (simp add: trim_def blank_def [abs_def])
  finally show ?thesis by (metis takeWhile_dropWhile_id)
qed

lemma trimmed_ends:
  assumes "trim t = t" and "t \<noteq> []" shows "\<not> is_space (hd t)" "\<not> blank (last t)"
proof -
  have len: "length t = length (takeWhile is_space t) + length (trim t)
      + length (rev (takeWhile blank (rev (dropWhile is_space t))))"
    using arg_cong [OF trim_parts [of t], of length] by simp
  then have none: "takeWhile is_space t = []" "takeWhile blank (rev (dropWhile is_space t)) = []"
    using assms(1) by simp_all
  then show "\<not> is_space (hd t)" using assms(2) by (cases t) (auto split: if_splits)
  have "dropWhile is_space t = t" using none(1) takeWhile_dropWhile_id [of is_space t] by simp
  then show "\<not> blank (last t)" using none(2) assms(2) by (cases t rule: rev_cases) (auto split: if_splits)
qed

lemma dropWhile_all: "list_all P xs \<Longrightarrow> dropWhile P (xs @ ys) = dropWhile P ys"
  by (induction xs) simp_all

lemma trim_blanks:
  assumes "list_all is_space pre" and "list_all blank post" and "trim t = t"
  shows "trim (pre @ t @ post) = t"
proof (cases "t = []")
  case True
  have "list_all blank (dropWhile is_space post)" using assms(2) by (auto simp: list_all_iff dest: set_dropWhileD)
  then have "dropWhile blank (rev (dropWhile is_space post)) = []" by (auto simp: list_all_iff)
  then show ?thesis using True assms(1) by (simp add: trim_def dropWhile_all blank_def [abs_def])
next
  case False
  have "dropWhile is_space (pre @ t @ post) = t @ post"
    using False trimmed_ends(1) [OF assms(3)] assms(1) by (cases t) (simp_all add: dropWhile_all)
  moreover have "dropWhile blank (rev post @ rev t) = rev t"
  proof -
    have "list_all blank (rev post)" using assms(2) by simp
    moreover have "dropWhile blank (rev t) = rev t"
      using False trimmed_ends(2) [OF assms(3)] by (cases t rule: rev_cases) simp_all
    ultimately show ?thesis by (simp add: dropWhile_all)
  qed
  ultimately show ?thesis by (simp add: trim_def blank_def [abs_def])
qed

subsubsection \<open>A line\<close>

definition strip_return :: "string \<Rightarrow> string" where
  "strip_return line = (if line \<noteq> [] \<and> last line = return_char then butlast line else line)"

definition found_header :: "bool \<Rightarrow> string \<Rightarrow> http_header list" where
  "found_header first line = (if status_line first line then []
     else case find_char CHR '':'' line of None \<Rightarrow> []
       | Some colon \<Rightarrow> if colon = 0 then []
           else [\<lparr>header_name = trim (take colon line), header_value = trim (drop (Suc colon) line)\<rparr>])"

lemma parse_line:
  assumes "line_feed \<notin> set l"
  shows "parse_header_lines first (l @ line_feed # rest) = found_header first (strip_return l) @ parse_header_lines False rest"
    "l \<noteq> [] \<Longrightarrow> parse_header_lines first l = found_header first (strip_return l)"
proof -
  have "find_char line_feed (l @ line_feed # rest) = Some (length l)" by (rule find_char_append [OF assms])
  then show "parse_header_lines first (l @ line_feed # rest)
      = found_header first (strip_return l) @ parse_header_lines False rest"
    by (simp add: parse_header_lines.simps [of first "l @ line_feed # rest"] Let_def found_header_def strip_return_def
        status_line_def split: option.split)
  have "find_char line_feed l = None" using assms by (simp add: find_char_None)
  then show "l \<noteq> [] \<Longrightarrow> parse_header_lines first l = found_header first (strip_return l)"
    by (simp add: parse_header_lines.simps [of first l] parse_header_lines.simps [of False "[]"] Let_def found_header_def
        strip_return_def status_line_def split: option.split)
qed

lemma blank_chars: "list_all is_space xs \<Longrightarrow> list_all blank xs"
  "list_all blank xs \<Longrightarrow> CHR '':'' \<notin> set xs \<and> line_feed \<notin> set xs"
proof -
  show "list_all is_space xs \<Longrightarrow> list_all blank xs" by (induction xs) (simp_all add: blank_def)
  show "list_all blank xs \<Longrightarrow> CHR '':'' \<notin> set xs \<and> line_feed \<notin> set xs"
    by (induction xs) (auto simp: blank_def is_space_def)
qed

lemma found_line: "line_ok first l \<Longrightarrow> found_header first (line_string l) = line_headers l"
proof (cases l)
  case (Header_line pre h mid pad post)
  assume ok: "line_ok first l"
  let ?a = "pre @ header_name h @ mid"
  have "CHR '':'' \<notin> set ?a" using ok blank_chars [of pre] blank_chars(2) [of mid] by (auto simp: Header_line)
  from find_char_append [OF this, of "pad @ header_value h @ post"]
  have "find_char CHR '':'' (line_string l) = Some (length ?a)" by (simp add: Header_line)
  moreover have "trim (take (length ?a) (line_string l)) = header_name h"
    "trim (drop (Suc (length ?a)) (line_string l)) = header_value h"
    using trim_blanks [of pre mid "header_name h"] trim_blanks [of pad post "header_value h"] ok
    by (simp_all add: Header_line)
  ultimately show ?thesis using ok by (simp add: Header_line found_header_def)
next
  case (Other_line s)
  assume "line_ok first l"
  then consider "status_line first s" | "CHR '':'' \<notin> set s" | "\<exists>t. s = CHR '':'' # t"
    by (cases s) (auto simp: Other_line)
  then show ?thesis
  proof cases
    case 2
    then have "find_char CHR '':'' s = None" by (simp add: find_char_None)
    then show ?thesis by (simp add: Other_line found_header_def)
  qed (auto simp: Other_line found_header_def)
qed

lemma line_no_feed: "line_ok first l \<Longrightarrow> line_feed \<notin> set (line_string l)"
  using blank_chars by (cases l) auto

lemma status_strip: "status_line first (s @ [return_char]) \<longleftrightarrow> status_line first s"
proof -
  consider "length s < 4" | "length s = 4" | "5 \<le> length s" by linarith
  then show ?thesis
  proof cases
    case 2
    have "last (s @ [return_char]) \<noteq> CHR ''/''" by simp
    then have "s @ [return_char] \<noteq> ''HTTP/''" by (metis last.simps list.distinct(1))
    then show ?thesis using 2 by (auto simp: status_line_def dest!: arg_cong [where f = length])
  qed (auto simp: status_line_def dest!: arg_cong [where f = length])
qed

text \<open>A \<open>CR\<close> in front of the end is a blank of the line or its end.\<close>

lemma strip_line:
  assumes "line_ok first l"
  shows "\<exists>m. line_ok first m \<and> line_string m = strip_return (line_string l) \<and> line_headers m = line_headers l"
proof (cases "line_string l \<noteq> [] \<and> last (line_string l) = return_char")
  case False
  then show ?thesis using assms by (auto simp: strip_return_def)
next
  case True
  then obtain x where x: "line_string l = x @ [return_char]" by (metis append_butlast_last_id)
  then have strip: "strip_return (line_string l) = x" by (simp add: strip_return_def)
  show ?thesis
  proof (cases l)
    case (Header_line pre h mid pad post)
    have "post \<noteq> []"
    proof
      assume "post = []"
      then have "line_string l = (pre @ header_name h @ mid) @ (CHR '':'' # pad @ header_value h)" by (simp add: Header_line)
      then have "last (CHR '':'' # pad @ header_value h) = return_char" using True by (simp only: last_append) simp
      moreover have "header_value h \<noteq> [] \<Longrightarrow> last (header_value h) \<noteq> return_char"
        using trimmed_ends(2) [of "header_value h"] assms by (auto simp: Header_line blank_def)
      moreover have "pad \<noteq> [] \<Longrightarrow> last pad \<noteq> return_char"
      proof -
        assume pad: "pad \<noteq> []"
        have "list_all is_space pad" using assms by (simp add: Header_line)
        then have "is_space (last pad)" using last_in_set [OF pad] by (simp only: list_all_iff)
        moreover have "\<not> is_space return_char" by (simp add: is_space_def)
        ultimately show "last pad \<noteq> return_char" by metis
      qed
      ultimately show False by (cases "header_value h = []"; cases "pad = []") simp_all
    qed
    then obtain post' c where post: "post = post' @ [c]" by (metis append_butlast_last_id)
    then have "x = line_string (Header_line pre h mid pad post')" "c = return_char" using x Header_line by auto
    then show ?thesis
      using assms strip post status_strip [of first x]
      by (intro exI [of _ "Header_line pre h mid pad post'"]) (simp add: Header_line)
  next
    case (Other_line s)
    then have "line_ok first (Other_line x)" using assms x status_strip [of first x] by (cases x) auto
    then show ?thesis using strip Other_line by (intro exI [of _ "Other_line x"]) simp
  qed
qed

lemma found_stripped: "line_ok first l \<Longrightarrow> found_header first (strip_return (line_string l)) = line_headers l"
  using strip_line [of first l] found_line by metis

subsubsection \<open>A block\<close>

lemma parse_block: "block_ok first ls \<Longrightarrow> parse_header_lines first (block_string ls) = block_headers ls"
proof (induction first ls rule: block_ok.induct)
  case (1 first)
  then show ?case by (simp add: block_string_def block_headers_def parse_header_lines.simps [of first "[]"])
next
  case (2 first l e ls)
  have ok: "line_ok first l" and rest: "parse_header_lines False (block_string ls) = block_headers ls"
    using 2 by simp_all
  have tail: "block_string ((l, e) # ls) = line_string l @ e @ block_string ls"
    "block_headers ((l, e) # ls) = line_headers l @ block_headers ls"
    by (simp_all add: block_string_def block_headers_def)
  have ends: "e = [return_char, line_feed] \<or> e = [line_feed] \<or> e = [] \<and> ls = []" using 2(2) by simp
  then show ?case
  proof (elim disjE conjE)
    assume e: "e = [return_char, line_feed]"
    have "line_feed \<notin> set (line_string l @ [return_char])" using line_no_feed [OF ok] by simp
    from parse_line(1) [OF this, of first "block_string ls"] show ?thesis
      unfolding tail using found_line [OF ok] rest by (simp add: e strip_return_def)
  next
    assume e: "e = [line_feed]"
    from parse_line(1) [OF line_no_feed [OF ok], of first "block_string ls"] show ?thesis
      unfolding tail using found_stripped [OF ok] rest by (simp add: e)
  next
    assume e: "e = []" "ls = []"
    show ?thesis
    proof (cases "line_string l = []")
      case True
      then have "line_headers l = []" by (cases l) simp_all
      then show ?thesis
        unfolding tail using True e
        by (simp add: block_string_def block_headers_def parse_header_lines.simps [of first "[]"])
    next
      case False
      from parse_line(2) [OF line_no_feed [OF ok] False, of first] show ?thesis
        unfolding tail using found_stripped [OF ok] e by (simp add: block_string_def block_headers_def)
    qed
  qed
qed

text \<open>Every text is a block.\<close>

lemma trim_trim: "trim (trim t) = trim t"
proof (cases "trim t = []")
  case True
  show ?thesis unfolding True by (simp add: trim_def)
next
  case False
  have rev: "rev (trim t) = dropWhile blank (rev (dropWhile is_space t))" by (simp add: trim_def blank_def [abs_def])
  have "\<not> blank (last (trim t))"
    using False rev hd_dropWhile [of blank "rev (dropWhile is_space t)"] by (metis hd_rev rev_is_Nil_conv)
  then have last: "dropWhile blank (rev (trim t)) = rev (trim t)"
    using False by (cases "trim t" rule: rev_cases) simp_all
  have "dropWhile is_space t = trim t @ rev (takeWhile blank (rev (dropWhile is_space t)))"
    using trim_parts [of t] takeWhile_dropWhile_id [of is_space t] by (metis same_append_eq)
  then have "hd (dropWhile is_space t) = hd (trim t)" "dropWhile is_space t \<noteq> []" using False
    by (metis hd_append2, metis append_is_Nil_conv)
  then have "\<not> is_space (hd (trim t))" using hd_dropWhile [of is_space t] by metis
  then have "dropWhile is_space (trim t) = trim t" using False by (cases "trim t") simp_all
  then show ?thesis using last by (simp add: trim_def [of "trim t"] blank_def [abs_def])
qed

lemma text_line: 
  assumes "line_feed \<notin> set s" shows "\<exists>l. line_ok first l \<and> line_string l = s"
proof (cases "CHR '':'' \<notin> set s \<or> hd s = CHR '':'' \<or> status_line first s")
  case True
  then show ?thesis using assms by (intro exI [of _ "Other_line s"]) simp
next
  case False
  then obtain a b where s: "s = a @ CHR '':'' # b" "CHR '':'' \<notin> set a" by (meson split_list_first)
  have "a \<noteq> []" using False s by (cases a) auto
  let ?rest = "\<lambda>t. rev (takeWhile blank (rev (dropWhile is_space t)))"
  let ?l = "Header_line (takeWhile is_space a) \<lparr>header_name = trim a, header_value = trim b\<rparr> (?rest a)
    (takeWhile is_space b) (?rest b)"
  have ab: "takeWhile is_space a @ trim a @ ?rest a = a" "takeWhile is_space b @ trim b @ ?rest b = b"
    using trim_parts by metis+
  have says: "line_string ?l = s" 
  proof -
    have "line_string ?l = (takeWhile is_space a @ trim a @ ?rest a) @ CHR '':'' # (takeWhile is_space b @ trim b @ ?rest b)"
      by simp
    then show ?thesis unfolding ab s(1) .
  qed
  have "set (trim a) \<subseteq> set a" "set (trim b) \<subseteq> set b"
    using arg_cong [OF ab(1), of set] arg_cong [OF ab(2), of set] by auto
  moreover have "list_all is_space (takeWhile is_space t)" "list_all blank (?rest t)" for t
    by (auto simp: list_all_iff dest: set_takeWhileD)
  ultimately have "line_ok first ?l"
    using False assms s \<open>a \<noteq> []\<close> ab(1) says by (auto simp: trim_trim simp del: line_string.simps)
  then show ?thesis using says by blast
qed

lemma text_block: "\<exists>ls. block_ok first ls \<and> block_string ls = raw"
proof (induction raw arbitrary: first rule: length_induct)
  case (1 raw)
  show ?case
  proof (cases "line_feed \<in> set raw")
    case False
    then obtain l where "line_ok first l" "line_string l = raw" using text_line by blast
    then show ?thesis by (intro exI [of _ "[(l, [])]"]) (simp add: block_string_def)
  next
    case True
    then obtain a b where raw: "raw = a @ line_feed # b" "line_feed \<notin> set a" by (meson split_list_first)
    obtain l where l: "line_ok first l" "line_string l = a" using text_line [OF raw(2)] by blast
    have "length b < length raw" using raw(1) by simp
    then obtain ls where "block_ok False ls" "block_string ls = b" using 1 by blast
    then show ?thesis using l raw(1) by (intro exI [of _ "(l, [line_feed]) # ls"]) (simp add: block_string_def)
  qed
qed

subsubsection \<open>The content length\<close>

definition length_header :: "http_header list \<Rightarrow> http_header option" where
  "length_header hs = find_first (\<lambda>h. equals_ignore_case (header_name h) ''Content-Length'') hs"

definition decimal_u64 :: "string \<Rightarrow> bool" where
  "decimal_u64 t \<longleftrightarrow> t \<noteq> [] \<and> (\<forall>c \<in> set t. is_digit c) \<and> digits_value t < 2 ^ 64"

lemma content_length_iff:
  "content_length r = Some k \<longleftrightarrow> (\<exists>h. length_header (response_headers r) = Some h
     \<and> decimal_u64 (header_value h) \<and> k = of_nat (digits_value (header_value h)))"
proof -
  have whole: "from_chars (2 ^ 64 - 1) t = Some (v, []) \<longleftrightarrow> decimal_u64 t \<and> v = digits_value t" for t v
    using from_chars_SomeD [of "2 ^ 64 - 1" t v "[]"] from_chars_digits [of t "[]" "2 ^ 64 - 1"]
    by (auto simp: decimal_u64_def)
  show ?thesis
  proof (cases "length_header (response_headers r)")
    case None
    then show ?thesis by (simp add: content_length_def response_header_def length_header_def)
  next
    case (Some h)
    let ?v = "header_value h"
    have found: "response_header r ''Content-Length'' = Some ?v" using Some by (simp add: response_header_def length_header_def)
    show ?thesis
    proof (cases "decimal_u64 ?v")
      case True
      then have "from_chars (2 ^ 64 - 1) ?v = Some (digits_value ?v, [])" "?v \<noteq> []"
        using whole by (simp, simp add: decimal_u64_def)
      then show ?thesis using True by (auto simp add: content_length_def found Some simp del: One_nat_def)
    next
      case False
      then have "from_chars (2 ^ 64 - 1) ?v \<noteq> Some (v, [])" for v using whole by blast
      then have "content_length r = None"
        unfolding content_length_def found by (auto split: option.split if_split simp del: One_nat_def)
      then show ?thesis using False Some by simp
    qed
  qed
qed

text \<open>
  C37: every text is a block of lines, each a header line with any blanks around its name and its value or a line that
  says nothing (the status line, a line without a colon, one that starts with a colon), ended by CRLF or LF, the last
  perhaps by nothing; and of every block the parser gives exactly the headers, in order. The content length of the
  response is known exactly when the first header of that name, in any case, is a decimal number below 2^64, and is
  that number.
\<close>

theorem headers_roundtrip:
  "(\<forall>raw. \<exists>ls. block_ok True ls \<and> block_string ls = raw)
   \<and> (\<forall>ls. block_ok True ls \<longrightarrow> parse_raw_headers (block_string ls) = block_headers ls)
   \<and> (\<forall>k. content_length r = Some k \<longleftrightarrow> (\<exists>h. length_header (response_headers r) = Some h
        \<and> decimal_u64 (header_value h) \<and> k = of_nat (digits_value (header_value h))))"
  using text_block parse_block content_length_iff by (simp add: parse_raw_headers_def)

theorem headers_roundtrip_witness:
  "parse_raw_headers (''HTTP/1.1 200 OK'' @ [return_char, line_feed] @ ''content-length:42 '' @ [line_feed] @ ''x'')
    = [\<lparr>header_name = ''content-length'', header_value = ''42''\<rparr>]"
proof -
  let ?h = "\<lparr>header_name = ''content-length'', header_value = ''42''\<rparr>"
  let ?ls = "[(Other_line ''HTTP/1.1 200 OK'', [return_char, line_feed]),
    (Header_line [] ?h [] [] '' '', [line_feed]), (Other_line ''x'', [])]"
  have "trim ''content-length'' = ''content-length''" "trim ''42'' = ''42''" by code_simp+
  then have "block_ok True ?ls" by (simp add: status_line_def blank_def is_space_def)
  then have "parse_raw_headers (block_string ?ls) = block_headers ?ls" using headers_roundtrip by blast
  then show ?thesis by (simp add: block_string_def block_headers_def)
qed

end
