(* ===== verification/Line_Splitter.thy ===== *)
theory Line_Splitter
  imports Ascii_Text
begin

section \<open>The lines a child writes\<close>

text \<open>
  \<open>LineSplitter\<close> of \<open>src/src/process/line_splitter.cpp\<close>, which cuts the output of a process into lines as
  it arrives: the rest of an unfinished line is kept for the next call.
\<close>

abbreviation newline :: char where
  "newline \<equiv> CHR 0x0A"

abbreviation carriage_return :: char where
  "carriage_return \<equiv> CHR 0x0D"

record line_splitter =
  ls_partial :: string

definition new_splitter :: line_splitter where
  "new_splitter = \<lparr>ls_partial = []\<rparr>"

definition strip_return :: "string \<Rightarrow> string" where
  "strip_return line = (if line \<noteq> [] \<and> last line = carriage_return then butlast line else line)"

definition push_line :: "string \<Rightarrow> string list \<Rightarrow> string list" where
  "push_line line lines = lines @ [strip_return line]"

function feed :: "string \<Rightarrow> line_splitter \<Rightarrow> string list \<Rightarrow> line_splitter \<times> string list" where
  "feed bytes s lines =
     (if bytes = [] then (s, lines)
      else case find_char newline bytes of
        None \<Rightarrow> (s\<lparr>ls_partial := ls_partial s @ bytes\<rparr>, lines)
      | Some end \<Rightarrow>
          feed (drop (Suc end) bytes) (s\<lparr>ls_partial := []\<rparr>)
            (push_line (ls_partial s @ take end bytes) lines))"
  by pat_completeness auto
termination
  by (relation "measure (\<lambda>(bytes, _). length bytes)") (auto dest: find_char_SomeD)

declare feed.simps [simp del]

definition finish_lines :: "line_splitter \<Rightarrow> string list \<Rightarrow> line_splitter \<times> string list" where
  "finish_lines s lines =
     (if ls_partial s \<noteq> [] then (s\<lparr>ls_partial := []\<rparr>, push_line (ls_partial s) lines) else (s, lines))"

primrec feed_all :: "string list \<Rightarrow> line_splitter \<Rightarrow> string list \<Rightarrow> line_splitter \<times> string list" where
  "feed_all [] s lines = (s, lines)"
| "feed_all (chunk # chunks) s lines = (case feed chunk s lines of (s', lines') \<Rightarrow> feed_all chunks s' lines')"

text \<open>Character by character: the chunks make no difference.\<close>

definition feed_char :: "char \<Rightarrow> line_splitter \<times> string list \<Rightarrow> line_splitter \<times> string list" where
  "feed_char c = (\<lambda>(s, lines). if c = newline then (s\<lparr>ls_partial := []\<rparr>, push_line (ls_partial s) lines)
     else (s\<lparr>ls_partial := ls_partial s @ [c]\<rparr>, lines))"

lemma feed_chars_line:
  "newline \<notin> set bytes \<Longrightarrow> fold feed_char bytes (s, lines) = (s\<lparr>ls_partial := ls_partial s @ bytes\<rparr>, lines)"
  by (induction bytes arbitrary: s) (auto simp: feed_char_def)

lemma feed_chars: "feed bytes s lines = fold feed_char bytes (s, lines)"
proof (induction bytes s lines rule: feed.induct)
  case (1 bytes s lines)
  show ?case
  proof (cases "find_char newline bytes")
    case None
    then have "newline \<notin> set bytes" by (simp add: find_char_None)
    then show ?thesis using None
      by (cases "bytes = []") (simp_all add: feed.simps [of bytes] feed.simps [of "[]"] feed_chars_line)
  next
    case (Some k)
    note parts = find_char_SomeD [OF Some]
    have "fold feed_char bytes (s, lines) = fold feed_char (take k bytes @ newline # drop (Suc k) bytes) (s, lines)"
      using parts(1) by simp
    also have "\<dots> = fold feed_char (drop (Suc k) bytes)
        (s\<lparr>ls_partial := []\<rparr>, push_line (ls_partial s @ take k bytes) lines)"
      using parts(2) by (simp add: feed_chars_line) (simp add: feed_char_def)
    finally show ?thesis using 1 [OF _ Some] parts(3) Some by (auto simp: feed.simps [of bytes])
  qed
qed

lemma feed_all_chars: "feed_all chunks s lines = fold feed_char (concat chunks) (s, lines)"
  by (induction chunks arbitrary: s lines) (simp_all add: feed_chars split: prod.splits)

text \<open>What was fed is the raw lines, each with its newline, and the rest that is kept.\<close>

definition stands_for :: "string list \<Rightarrow> string \<Rightarrow> string \<Rightarrow> bool" where
  "stands_for raw rest whole \<longleftrightarrow> whole = concat (map (\<lambda>line. line @ [newline]) raw) @ rest
     \<and> newline \<notin> set (concat raw) \<union> set rest"

lemma feed_chars_stand:
  assumes "stands_for raw (ls_partial s) whole"
  shows "\<exists>raw' s'. fold feed_char bytes (s, map strip_return raw) = (s', map strip_return raw')
    \<and> stands_for raw' (ls_partial s') (whole @ bytes)"
  using assms
proof (induction bytes arbitrary: raw s whole)
  case (Cons c bytes)
  show ?case
  proof (cases "c = newline")
    case True
    have "stands_for (raw @ [ls_partial s]) (ls_partial (s\<lparr>ls_partial := []\<rparr>)) (whole @ [c])"
      using Cons.prems True by (auto simp: stands_for_def)
    from Cons.IH [OF this] True show ?thesis by (simp add: feed_char_def push_line_def)
  next
    case False
    have "stands_for raw (ls_partial (s\<lparr>ls_partial := ls_partial s @ [c]\<rparr>)) (whole @ [c])"
      using Cons.prems False by (auto simp: stands_for_def)
    from Cons.IH [OF this] False show ?thesis by (simp add: feed_char_def)
  qed
qed auto

text \<open>
  However the output of a child is cut into chunks, feeding them and finishing gives the lines of the
  whole: the texts between its newlines, each without one carriage return at its end, and the text
  behind the last newline when there is any.
\<close>

lemma lines_of_chunks:
  "\<exists>raw rest. stands_for raw rest (concat chunks)
    \<and> (case feed_all chunks new_splitter [] of (s, lines) \<Rightarrow> finish_lines s lines)
      = (new_splitter, map strip_return (raw @ (if rest = [] then [] else [rest])))"
proof -
  have "stands_for [] (ls_partial new_splitter) []" by (simp add: stands_for_def new_splitter_def)
  from feed_chars_stand [OF this, of "concat chunks"] obtain raw s where
    "fold feed_char (concat chunks) (new_splitter, []) = (s, map strip_return raw)"
    "stands_for raw (ls_partial s) (concat chunks)" by auto
  then show ?thesis
    by (intro exI [of _ raw] exI [of _ "ls_partial s"])
      (cases s, auto simp: feed_all_chars finish_lines_def push_line_def new_splitter_def)
qed

end
