(* ===== verification/Process_Text.thy ===== *)
theory Process_Text
  imports Ascii_Text
begin

section \<open>Command lines and environments of processes\<close>

text \<open>
  \<open>src/src/process/process_command_line.cpp\<close>: the quoting of arguments for the one text Windows passes a
  child, and the environment of a child from the entries of its parent and the variables to set.
\<close>

definition same_name :: "string \<Rightarrow> string \<Rightarrow> bool \<Rightarrow> bool" where
  "same_name a b ignore_case =
     (if \<not> ignore_case then a = b else list_all2 (\<lambda>x y. ascii_lower x = ascii_lower y) a b)"

text \<open>\<open>find('=', 1)\<close>: the search starts behind the first character.\<close>

definition entry_name :: "string \<Rightarrow> string" where
  "entry_name entry = (case entry of [] \<Rightarrow> entry
     | c # rest \<Rightarrow> (case find_char CHR ''='' rest of None \<Rightarrow> entry
         | Some i \<Rightarrow> take (Suc i) entry))"

subsection \<open>Quoting\<close>

abbreviation quote :: char where
  "quote \<equiv> CHR 0x22"

abbreviation backslash :: char where
  "backslash \<equiv> CHR 0x5C"

definition needs_quotes :: "string \<Rightarrow> bool" where
  "needs_quotes argument \<longleftrightarrow> argument = []
     \<or> (\<exists>c \<in> set argument. c \<in> {CHR '' '', CHR 0x09, CHR 0x0A, CHR 0x0B, quote})"

fun quote_loop :: "string \<Rightarrow> nat \<Rightarrow> string \<Rightarrow> string \<times> nat" where
  "quote_loop [] backslashes quoted = (quoted, backslashes)"
| "quote_loop (c # rest) backslashes quoted =
     (if c = backslash then quote_loop rest (Suc backslashes) quoted
      else if c = quote then
        quote_loop rest 0 (quoted @ replicate (backslashes * 2 + 1) backslash @ [c])
      else quote_loop rest 0 (quoted @ replicate backslashes backslash @ [c]))"

definition quote_windows_argument :: "string \<Rightarrow> string" where
  "quote_windows_argument argument =
     (if \<not> needs_quotes argument then argument
      else case quote_loop argument 0 [quote] of
        (quoted, backslashes) \<Rightarrow> quoted @ replicate (backslashes * 2) backslash @ [quote])"

definition windows_command_line :: "string \<Rightarrow> string list \<Rightarrow> string" where
  "windows_command_line program arguments =
     quote # program @ quote # concat (map (\<lambda>a. CHR '' '' # quote_windows_argument a) arguments)"

text \<open>
  How a child cuts the text: \<open>scan q s\<close> reads one argument from \<open>s\<close>, inside quotes where \<open>q\<close>, and gives
  the argument and the rest of the text. These are the documented rules of \<open>CommandLineToArgvW\<close> and of the C
  runtime that the code relies on: a run of backslashes is itself but before a quote, where
  two stand for one and one that is left over makes the quote a character; another quote opens or
  closes; a blank outside quotes or the end of the text ends the argument. A quote that closes is not
  followed by a quote here, where the runtimes differ.
\<close>

definition argv_rules :: "(bool \<Rightarrow> string \<Rightarrow> string \<times> string) \<Rightarrow> bool" where
  "argv_rules scan \<longleftrightarrow>
     (\<forall>q n c s. c \<noteq> backslash \<longrightarrow> c \<noteq> quote \<longrightarrow> q \<or> c \<notin> {CHR '' '', CHR 0x09} \<longrightarrow>
        scan q (replicate n backslash @ c # s) = apfst ((@) (replicate n backslash @ [c])) (scan q s)) \<and>
     (\<forall>q n s. scan q (replicate (2 * n + 1) backslash @ quote # s)
        = apfst ((@) (replicate n backslash @ [quote])) (scan q s)) \<and>
     (\<forall>q n s. \<not> (q \<and> s \<noteq> [] \<and> hd s = quote) \<longrightarrow> scan q (replicate (2 * n) backslash @ quote # s)
        = apfst ((@) (replicate n backslash)) (scan (\<not> q) s)) \<and>
     (\<forall>n c s. c \<in> {CHR '' '', CHR 0x09} \<longrightarrow> scan False (replicate n backslash @ c # s) = (replicate n backslash, c # s)) \<and>
     (\<forall>q n. scan q (replicate n backslash) = (replicate n backslash, []))"

text \<open>The arguments behind the program, each behind one blank.\<close>

fun argv_after :: "(bool \<Rightarrow> string \<Rightarrow> string \<times> string) \<Rightarrow> nat \<Rightarrow> string \<Rightarrow> string list" where
  "argv_after scan 0 s = []"
| "argv_after scan (Suc n) s =
     (case s of [] \<Rightarrow> []
      | c # rest \<Rightarrow> if c \<in> {CHR '' '', CHR 0x09}
          then (case scan False rest of (argument, rest') \<Rightarrow> argument # argv_after scan n rest')
          else [])"

text \<open>The program is the text between the first two quotes, which takes no escapes.\<close>

definition argv :: "(bool \<Rightarrow> string \<Rightarrow> string \<times> string) \<Rightarrow> string \<Rightarrow> string list" where
  "argv scan line = (case line of [] \<Rightarrow> []
     | c # s \<Rightarrow> (let program = takeWhile (\<lambda>x. x \<noteq> quote) s
         in program # argv_after scan (length s) (drop (Suc (length program)) s)))"

lemma argv_rulesD:
  assumes "argv_rules scan"
  shows "c \<noteq> backslash \<Longrightarrow> c \<noteq> quote \<Longrightarrow> q \<or> c \<notin> {CHR '' '', CHR 0x09}
      \<Longrightarrow> scan q (replicate n backslash @ c # s) = apfst ((@) (replicate n backslash @ [c])) (scan q s)"
    and "scan q (replicate (2 * n + 1) backslash @ quote # s)
      = apfst ((@) (replicate n backslash @ [quote])) (scan q s)"
    and "\<not> (q \<and> s \<noteq> [] \<and> hd s = quote) \<Longrightarrow> scan q (replicate (2 * n) backslash @ quote # s)
      = apfst ((@) (replicate n backslash)) (scan (\<not> q) s)"
    and "c \<in> {CHR '' '', CHR 0x09} \<Longrightarrow> scan False (replicate n backslash @ c # s) = (replicate n backslash, c # s)"
    and "scan q (replicate n backslash) = (replicate n backslash, [])"
  by (rule assms [unfolded argv_rules_def, THEN conjunct1, rule_format]
      assms [unfolded argv_rules_def, THEN conjunct2, THEN conjunct1, rule_format]
      assms [unfolded argv_rules_def, THEN conjunct2, THEN conjunct2, THEN conjunct1, rule_format]
      assms [unfolded argv_rules_def, THEN conjunct2, THEN conjunct2, THEN conjunct2, THEN conjunct1, rule_format]
      assms [unfolded argv_rules_def, THEN conjunct2, THEN conjunct2, THEN conjunct2, THEN conjunct2, rule_format];
      assumption?)+

definition ends_argument :: "string \<Rightarrow> bool" where
  "ends_argument s \<longleftrightarrow> s = [] \<or> hd s \<in> {CHR '' '', CHR 0x09}"

lemma scan_end:
  assumes "argv_rules scan" and "ends_argument s"
  shows "scan False (replicate n backslash @ s) = (replicate n backslash, s)"
proof (cases s)
  case Nil
  then show ?thesis using argv_rulesD(5) [OF assms(1)] by simp
next
  case (Cons c t)
  then show ?thesis using argv_rulesD(4) [OF assms(1), of c] assms(2) by (simp add: ends_argument_def)
qed

lemma quote_loop_acc:
  "quote_loop a n acc = (acc @ fst (quote_loop a n []), snd (quote_loop a n []))"
proof (induction a arbitrary: n acc)
  case (Cons c a)
  show ?case
  proof (cases "c = backslash")
    case True
    with Cons.IH [of "Suc n" acc] show ?thesis by simp
  next
    case False
    define t where "t = (if c = quote then replicate (n * 2 + 1) backslash @ [c] else replicate n backslash @ [c])"
    have "quote_loop (c # a) n x = quote_loop a 0 (x @ t)" for x using False by (simp add: t_def)
    then show ?thesis using Cons.IH [of 0 "acc @ t"] Cons.IH [of 0 t] by simp
  qed
qed simp

lemma quote_loop_step:
  "c \<noteq> backslash \<Longrightarrow> quote_loop (c # a) n [] =
    ((if c = quote then replicate (2 * n + 1) backslash @ [c] else replicate n backslash @ [c])
       @ fst (quote_loop a 0 []), snd (quote_loop a 0 []))"
  using quote_loop_acc [of a 0 "replicate (n * 2 + 1) backslash @ [c]"]
    quote_loop_acc [of a 0 "replicate n backslash @ [c]"]
  by (auto simp: mult.commute)

lemma scan_quoted:
  assumes "argv_rules scan" and "ends_argument s"
  shows "scan True (fst (quote_loop a n []) @ replicate (snd (quote_loop a n []) * 2) backslash @ quote # s)
    = (replicate n backslash @ a, s)"
proof (induction a arbitrary: n)
  case Nil
  have "\<not> (True \<and> s \<noteq> [] \<and> hd s = quote)" using assms(2) by (auto simp: ends_argument_def)
  from argv_rulesD(3) [OF assms(1) this, of n] scan_end [OF assms, of 0] show ?case
    by (simp add: mult.commute)
next
  case (Cons c a)
  consider "c = backslash" | "c = quote" | "c \<noteq> backslash" "c \<noteq> quote" by blast
  then show ?case
  proof cases
    case 1
    then show ?thesis using Cons.IH [of "Suc n"] by (simp add: replicate_app_Cons_same)
  next
    case 2
    then show ?thesis
      using Cons.IH [of 0] argv_rulesD(2) [OF assms(1), of True n]
      by (simp add: quote_loop_step del: replicate_Suc replicate.simps quote_loop.simps)
  next
    case 3
    then show ?thesis
      using Cons.IH [of 0] argv_rulesD(1) [OF assms(1) 3, of True n]
      by (simp add: quote_loop_step del: quote_loop.simps)
  qed
qed

lemma scan_plain:
  assumes "argv_rules scan" and "ends_argument s"
  shows "\<not> (\<exists>c \<in> set a. c \<in> {CHR '' '', CHR 0x09, CHR 0x0A, CHR 0x0B, quote})
    \<Longrightarrow> scan False (replicate n backslash @ a @ s) = (replicate n backslash @ a, s)"
proof (induction a arbitrary: n)
  case Nil
  then show ?case using scan_end [OF assms] by simp
next
  case (Cons c a)
  show ?case
  proof (cases "c = backslash")
    case True
    then show ?thesis using Cons.IH [of "Suc n"] Cons.prems by (simp add: replicate_app_Cons_same)
  next
    case False
    then show ?thesis
      using Cons.IH [of 0] Cons.prems argv_rulesD(1) [OF assms(1) False, of False n] by auto
  qed
qed

lemma scan_argument:
  assumes "argv_rules scan" and "ends_argument s"
  shows "scan False (quote_windows_argument a @ s) = (a, s)"
proof (cases "needs_quotes a")
  case True
  have "quote_windows_argument a = quote # fst (quote_loop a 0 [])
      @ replicate (snd (quote_loop a 0 []) * 2) backslash @ [quote]"
    using True quote_loop_acc [of a 0 "[quote]"] by (simp add: quote_windows_argument_def)
  moreover have "scan False (quote # t) = scan True t" for t
    using argv_rulesD(3) [OF assms(1), of False t 0] by (cases "scan True t") simp
  ultimately show ?thesis using scan_quoted [OF assms, of a 0] by simp
next
  case False
  then show ?thesis using scan_plain [OF assms, of a 0] by (simp add: quote_windows_argument_def needs_quotes_def)
qed

lemma argv_after_line:
  assumes "argv_rules scan" and "length arguments \<le> n"
  shows "argv_after scan n (concat (map (\<lambda>a. CHR '' '' # quote_windows_argument a) arguments)) = arguments"
  using assms(2)
proof (induction arguments arbitrary: n)
  case Nil
  then show ?case by (cases n) auto
next
  case (Cons a arguments)
  let ?s = "concat (map (\<lambda>a. CHR '' '' # quote_windows_argument a) arguments)"
  have "ends_argument ?s" by (cases arguments) (auto simp: ends_argument_def)
  from scan_argument [OF assms(1) this, of a] Cons show ?case by (cases n) auto
qed

text \<open>
  C38: a child that cuts its command line by the documented rules gets the program and every argument as
  they were, whatever blanks, quotes and backslashes the arguments hold, as long as the path of the
  program holds no quote.
\<close>

theorem command_line_arrives:
  assumes "argv_rules scan" and "quote \<notin> set program"
  shows "argv scan (windows_command_line program arguments) = program # arguments"
proof -
  let ?s = "concat (map (\<lambda>a. CHR '' '' # quote_windows_argument a) arguments)"
  have "length arguments \<le> length ?s" by (induction arguments) auto
  then have "argv_after scan (length (program @ quote # ?s)) ?s = arguments"
    by (intro argv_after_line [OF assms(1)]) simp
  moreover have "takeWhile (\<lambda>x. x \<noteq> quote) (program @ quote # ?s) = program"
    using assms(2) by (auto simp: takeWhile_tail)
  ultimately show ?thesis by (simp add: argv_def windows_command_line_def)
qed

text \<open>The rules hold of a scanner that counts the backslashes.\<close>

fun scan_count :: "nat \<Rightarrow> bool \<Rightarrow> string \<Rightarrow> string \<times> string" where
  "scan_count k q [] = (replicate k backslash, [])"
| "scan_count k q (c # s) =
     (if c = backslash then scan_count (Suc k) q s
      else if c = quote then
        (if odd k then apfst ((@) (replicate (k div 2) backslash @ [quote])) (scan_count 0 q s)
         else apfst ((@) (replicate (k div 2) backslash)) (scan_count 0 (\<not> q) s))
      else if \<not> q \<and> c \<in> {CHR '' '', CHR 0x09} then (replicate k backslash, c # s)
      else apfst ((@) (replicate k backslash @ [c])) (scan_count 0 q s))"

lemma scan_count_run: "scan_count k q (replicate n backslash @ s) = scan_count (k + n) q s"
  by (induction n arbitrary: k) auto

lemma scan_count_rules: "argv_rules (scan_count 0)"
  unfolding argv_rules_def
  using scan_count_run [of 0 _ _ "[]"] by (simp add: scan_count_run del: replicate_Suc)

theorem command_line_arrives_witness:
  "argv (scan_count 0) (windows_command_line ''C:/a b.exe'' [[], ''a b'', [backslash, quote, backslash]])
    = [''C:/a b.exe'', [], ''a b'', [backslash, quote, backslash]]"
  by (rule command_line_arrives [OF scan_count_rules]) simp

subsection \<open>Environments\<close>

record process_variable =
  pv_name :: string
  pv_value :: string

fun replace_entry :: "(string \<Rightarrow> bool) \<Rightarrow> string \<Rightarrow> string list \<Rightarrow> string list" where
  "replace_entry P entry [] = [entry]"
| "replace_entry P entry (x # xs) = (if P x then entry # xs else x # replace_entry P entry xs)"

fun merge_environment :: "string list \<Rightarrow> process_variable list \<Rightarrow> bool \<Rightarrow> string list" where
  "merge_environment entries [] ignore_case = entries"
| "merge_environment entries (v # vars) ignore_case =
     merge_environment
       (replace_entry (\<lambda>existing. same_name (entry_name existing) (pv_name v) ignore_case)
         (pv_name v @ ''='' @ pv_value v) entries)
       vars ignore_case"

definition variable_ok :: "process_variable \<Rightarrow> bool" where
  "variable_ok v \<longleftrightarrow> pv_name v \<noteq> [] \<and> CHR ''='' \<notin> set (tl (pv_name v))"

definition env_lookup :: "bool \<Rightarrow> string \<Rightarrow> string list \<Rightarrow> string option" where
  "env_lookup ignore_case n = find_first (\<lambda>e. same_name (entry_name e) n ignore_case)"

lemma same_name_map: "same_name a b ic \<longleftrightarrow> (if ic then map ascii_lower a = map ascii_lower b else a = b)"
  using equals_ignore_case_map [of a b] by (simp add: same_name_def equals_ignore_case_def)

lemma entry_name_entry: "variable_ok v \<Longrightarrow> entry_name (pv_name v @ CHR ''='' # s) = pv_name v"
  by (cases "pv_name v") (auto simp: variable_ok_def entry_name_def find_char_append)

lemma lookup_replace:
  assumes "variable_ok v"
  shows "env_lookup ic n (replace_entry (\<lambda>e. same_name (entry_name e) (pv_name v) ic) (pv_name v @ CHR ''='' # s) es)
    = (if same_name (pv_name v) n ic then Some (pv_name v @ CHR ''='' # s) else env_lookup ic n es)"
  by (induction es) (auto simp: env_lookup_def same_name_map entry_name_entry [OF assms] split: if_splits)

text \<open>
  In the merged environment a name stands for the last variable of that name that was set, and where
  none was set for the entry of the parent, names compared without case where asked for.
\<close>

theorem merged_lookup:
  assumes "\<forall>v \<in> set vars. variable_ok v"
  shows "env_lookup ic n (merge_environment entries vars ic) =
    (case find_first (\<lambda>v. same_name (pv_name v) n ic) (rev vars) of
       None \<Rightarrow> env_lookup ic n entries
     | Some v \<Rightarrow> Some (pv_name v @ ''='' @ pv_value v))"
  using assms
proof (induction vars arbitrary: entries)
  case (Cons v vars)
  have "find_first P (xs @ [x]) = (case find_first P xs of None \<Rightarrow> if P x then Some x else None | Some y \<Rightarrow> Some y)"
    for P and x :: process_variable and xs by (induction xs) auto
  with Cons lookup_replace [of v ic n "pv_value v" entries] show ?case by (auto split: option.splits)
qed simp

theorem merged_lookup_witness:
  "env_lookup True ''path'' (merge_environment [''=C:=C:/x'', ''Path=a'', ''HOME=h'']
      [\<lparr>pv_name = ''PATH'', pv_value = ''b''\<rparr>, \<lparr>pv_name = ''x'', pv_value = ''''\<rparr>] True) = Some ''PATH=b''"
proof -
  have "\<forall>v \<in> set [\<lparr>pv_name = ''PATH'', pv_value = ''b''\<rparr>, \<lparr>pv_name = ''x'', pv_value = ''''\<rparr>]. variable_ok v"
    by (simp add: variable_ok_def)
  note merged = merged_lookup [OF this, of True "''path''" "[''=C:=C:/x'', ''Path=a'', ''HOME=h'']"]
  have "find_first (\<lambda>v. same_name (pv_name v) ''path'' True)
      (rev [\<lparr>pv_name = ''PATH'', pv_value = ''b''\<rparr>, \<lparr>pv_name = ''x'', pv_value = ''''\<rparr>])
    = Some \<lparr>pv_name = ''PATH'', pv_value = ''b''\<rparr>" by code_simp
  with merged show ?thesis by simp
qed

end
