(* ===== verification/Engine_Version.thy ===== *)
theory Engine_Version
  imports Ascii_Text "HOL-Library.Product_Lexorder"
begin

section \<open>Engine versions\<close>

text \<open>
  \<open>src/src/project/engine_version.cpp\<close>: the order of the versions of the engine, the parser of a
  version text and its printer. The struct is a datatype, so that its order can be an instance of the
  preorders of the library; it is no partial order, as the stage is any character and the order ranks
  every one that is not an a or a b as a production stage.
\<close>

datatype engine_version = EngineVersion
  (v_major: int) (v_minor: int) (v_patch: int) (v_stage: char) (v_dev: bool)

definition no_stage :: char where
  "no_stage = CHR 0x00"

definition new_version :: engine_version where
  "new_version = EngineVersion 0 0 0 no_stage False"

definition stage_rank :: "char \<Rightarrow> int" where
  "stage_rank stage = (if stage = CHR ''a'' then 0 else if stage = CHR ''b'' then 1 else 2)"

subsection \<open>The order\<close>

datatype strong_ordering = OrdLess | OrdEqual | OrdGreater

definition three_way :: "'a::linorder \<Rightarrow> 'a \<Rightarrow> strong_ordering" where
  "three_way a b = (if a < b then OrdLess else if a = b then OrdEqual else OrdGreater)"

definition compare_versions :: "engine_version \<Rightarrow> engine_version \<Rightarrow> strong_ordering" where
  "compare_versions a b =
     (let order = three_way (v_major a) (v_major b) in
      if order \<noteq> OrdEqual then order
      else let order = three_way (v_minor a) (v_minor b) in
      if order \<noteq> OrdEqual then order
      else let order = three_way (v_patch a) (v_patch b) in
      if order \<noteq> OrdEqual then order
      else if v_dev a \<noteq> v_dev b then (if v_dev a then OrdLess else OrdGreater)
      else three_way (stage_rank (v_stage a)) (stage_rank (v_stage b)))"

text \<open>The order is the lexicographic one of a key in which a build for development comes first.\<close>

definition version_key :: "engine_version \<Rightarrow> int \<times> int \<times> int \<times> bool \<times> int" where
  "version_key v = (v_major v, v_minor v, v_patch v, \<not> v_dev v, stage_rank (v_stage v))"

lemma compare_key: "compare_versions a b = three_way (version_key a) (version_key b)"
  by (cases a; cases b) (auto simp: compare_versions_def three_way_def version_key_def less_prod_def)

instantiation engine_version :: preorder
begin

definition less_eq_engine_version :: "engine_version \<Rightarrow> engine_version \<Rightarrow> bool" where
  "a \<le> b \<longleftrightarrow> compare_versions a b \<noteq> OrdGreater"

definition less_engine_version :: "engine_version \<Rightarrow> engine_version \<Rightarrow> bool" where
  "a < b \<longleftrightarrow> compare_versions a b = OrdLess"

instance
  by standard (auto simp: less_eq_engine_version_def less_engine_version_def compare_key three_way_def
      split: if_splits)

end

subsection \<open>Parsing and printing\<close>

abbreviation int_max :: nat where
  "int_max \<equiv> 2147483647"

definition take_number :: "string \<Rightarrow> (int \<times> string) option" where
  "take_number text = (let digits = takeWhile is_digit text in
     if digits = [] then None
     else case from_chars int_max digits of
       None \<Rightarrow> None
     | Some (number, end) \<Rightarrow>
         if end \<noteq> [] then None else Some (int number, drop (length digits) text))"

definition take_dot :: "string \<Rightarrow> string option" where
  "take_dot text = (case text of [] \<Rightarrow> None | c # rest \<Rightarrow> if c \<noteq> CHR ''.'' then None else Some rest)"

definition parse_suffix :: "string \<Rightarrow> (char \<times> bool) option" where
  "parse_suffix text =
     (let staged = (text \<noteq> [] \<and> (hd text = CHR ''a'' \<or> hd text = CHR ''b''));
          stage = (if staged then hd text else no_stage);
          text = (if staged then tl text else text);
          dev = (text = ''-dev'');
          text = (if dev then [] else text)
      in if text \<noteq> [] then None else Some (stage, dev))"

definition parse_engine_version :: "string \<Rightarrow> engine_version option" where
  "parse_engine_version text =
     Option.bind (take_number text) (\<lambda>(major, text).
     Option.bind (take_dot text) (\<lambda>text.
     Option.bind (take_number text) (\<lambda>(minor, text).
     Option.bind (take_dot text) (\<lambda>text.
     Option.bind (take_number text) (\<lambda>(patch, text).
     Option.bind (parse_suffix text) (\<lambda>(stage, dev).
     Some (EngineVersion major minor patch stage dev)))))))"

definition int_text :: "int \<Rightarrow> string" where
  "int_text i = (if i < 0 then CHR ''-'' # number_text (nat (- i)) else number_text (nat i))"

definition version_text :: "engine_version \<Rightarrow> string" where
  "version_text v = int_text (v_major v) @ ''.'' @ int_text (v_minor v) @ ''.'' @ int_text (v_patch v)
     @ (if v_stage v \<noteq> no_stage then [v_stage v] else [])
     @ (if v_dev v then ''-dev'' else [])"

text \<open>The grammar of the header, with each number at most the largest \<open>int\<close>.\<close>

definition is_number :: "string \<Rightarrow> int \<Rightarrow> bool" where
  "is_number ds n \<longleftrightarrow> ds \<noteq> [] \<and> (\<forall>c \<in> set ds. is_digit c) \<and> digits_value ds \<le> int_max
     \<and> n = int (digits_value ds)"

definition stage_text :: "char \<Rightarrow> string" where
  "stage_text stage = (if stage \<noteq> no_stage then [stage] else [])"

definition dev_text :: "bool \<Rightarrow> string" where
  "dev_text dev = (if dev then ''-dev'' else [])"

definition version_grammar :: "string \<Rightarrow> engine_version \<Rightarrow> bool" where
  "version_grammar text v \<longleftrightarrow> (\<exists>a b c. is_number a (v_major v) \<and> is_number b (v_minor v)
     \<and> is_number c (v_patch v) \<and> v_stage v \<in> {no_stage, CHR ''a'', CHR ''b''}
     \<and> text = a @ ''.'' @ b @ ''.'' @ c @ stage_text (v_stage v) @ dev_text (v_dev v))"

lemma take_number_Some:
  "take_number s = Some (n, rest) \<longleftrightarrow> (\<exists>ds. is_number ds n \<and> s = ds @ rest \<and> stops rest)"
proof
  assume "take_number s = Some (n, rest)"
  moreover define ds where "ds = takeWhile is_digit s"
  ultimately have "ds \<noteq> []" "from_chars int_max ds = Some (nat n, [])" "0 \<le> n" "rest = drop (length ds) s"
    by (auto simp: take_number_def Let_def split: option.splits if_splits)
  moreover have s: "s = ds @ dropWhile is_digit s" by (simp add: ds_def)
  moreover have "stops (dropWhile is_digit s)"
    using hd_dropWhile [of is_digit s] by (auto simp: stops_def)
  moreover have "\<forall>c \<in> set ds. is_digit c" by (auto simp: ds_def dest: set_takeWhileD)
  moreover from this have "from_chars int_max (ds @ []) = (if digits_value ds \<le> int_max then Some (digits_value ds, []) else None)"
    by (intro from_chars_digits) (use \<open>ds \<noteq> []\<close> in auto)
  moreover have "rest = dropWhile is_digit s" using \<open>rest = drop (length ds) s\<close> s by (metis append_eq_conv_conj)
  ultimately show "\<exists>ds. is_number ds n \<and> s = ds @ rest \<and> stops rest"
    by (intro exI [of _ ds]) (auto simp: is_number_def split: if_splits)
next
  assume "\<exists>ds. is_number ds n \<and> s = ds @ rest \<and> stops rest"
  then obtain ds where ds: "is_number ds n" "s = ds @ rest" "stops rest" by blast
  then have "takeWhile is_digit s = ds"
    by (cases rest) (auto simp: is_number_def takeWhile_append2)
  moreover have "from_chars int_max (ds @ []) = Some (digits_value ds, [])"
    using ds(1) by (subst from_chars_digits) (auto simp: is_number_def)
  ultimately show "take_number s = Some (n, rest)"
    using ds by (simp add: take_number_def is_number_def)
qed

lemma take_dot_Some: "take_dot s = Some rest \<longleftrightarrow> s = ''.'' @ rest"
  by (auto simp: take_dot_def split: list.splits if_splits)

lemma parse_suffix_Some:
  "parse_suffix s = Some (stage, dev) \<longleftrightarrow>
   stage \<in> {no_stage, CHR ''a'', CHR ''b''} \<and> s = stage_text stage @ dev_text dev"
  by (cases s) (auto simp: parse_suffix_def Let_def stage_text_def dev_text_def no_stage_def split: if_splits)

lemma stops_tail [simp]: "stage \<in> {no_stage, CHR ''a'', CHR ''b''} \<Longrightarrow> stops (stage_text stage @ dev_text dev)"
  by (auto simp: stops_def stage_text_def dev_text_def no_stage_def is_digit_def)

lemma stops_dot [simp]: "stops (''.'' @ s)"
  by (simp add: is_digit_def)

lemma version_parse_core:
  "parse_engine_version text = Some v \<longleftrightarrow> version_grammar text v"
proof (cases v)
  case (EngineVersion major minor patch stage dev)
  have "parse_engine_version text = Some v \<longleftrightarrow>
    (\<exists>t2 t4 s. take_number text = Some (major, ''.'' @ t2) \<and> take_number t2 = Some (minor, ''.'' @ t4)
      \<and> take_number t4 = Some (patch, s) \<and> stage \<in> {no_stage, CHR ''a'', CHR ''b''}
      \<and> s = stage_text stage @ dev_text dev)"
    unfolding parse_engine_version_def bind_eq_Some_conv EngineVersion
    by (simp add: bind_eq_Some_conv split_paired_Ex take_dot_Some parse_suffix_Some del: append.simps insert_iff) blast
  also have "\<dots> \<longleftrightarrow> version_grammar text v"
    unfolding take_number_Some version_grammar_def EngineVersion engine_version.sel
    by (metis append.assoc stops_dot stops_tail)
  finally show ?thesis .
qed

definition version_ok :: "engine_version \<Rightarrow> bool" where
  "version_ok v \<longleftrightarrow> v_major v \<in> {0..int int_max} \<and> v_minor v \<in> {0..int int_max}
     \<and> v_patch v \<in> {0..int int_max} \<and> v_stage v \<in> {no_stage, CHR ''a'', CHR ''b''}"

lemma is_number_text: "n \<in> {0..int int_max} \<Longrightarrow> is_number (int_text n) n"
  using number_text_digits [of _ "nat n"] by (auto simp: is_number_def int_text_def)

lemma grammar_text: "version_ok v \<Longrightarrow> version_grammar (version_text v) v"
  unfolding version_grammar_def version_ok_def version_text_def stage_text_def dev_text_def
  using is_number_text by blast

lemma grammar_ok: "version_grammar text v \<Longrightarrow> version_ok v"
  by (auto simp: version_grammar_def version_ok_def is_number_def)

text \<open>
  C39: a text parses to a version exactly when it is in the grammar of the header, three numbers that
  fit an int between dots, an optional a or b and an optional -dev, and nothing else; and a version is printed
  to a text that reads back to it exactly when its numbers are not negative and fit an int and its stage
  is a, b or none, which holds of every version the parser gives.
\<close>

theorem version_parse_print:
  "(parse_engine_version text = Some v \<longleftrightarrow> version_grammar text v)
   \<and> (version_ok v \<longleftrightarrow> parse_engine_version (version_text v) = Some v)
   \<and> \<not> (parse_engine_version text = Some v \<and> \<not> version_ok v)"
  using grammar_text grammar_ok by (auto simp: version_parse_core)

lemma key_inject: "version_ok a \<Longrightarrow> version_ok b \<Longrightarrow> version_key a = version_key b \<Longrightarrow> a = b"
  by (cases a; cases b) (auto simp: version_ok_def version_key_def stage_rank_def no_stage_def split: if_splits)

text \<open>
  on the versions the parser gives, the order is total and strict, and equal is the same version: of
  two texts exactly one holds of older, same and newer, older goes through, and a build for
  development of a number comes before the alpha, beta and production releases of that number.
\<close>

theorem version_order:
  assumes "parse_engine_version s = Some a" and "parse_engine_version t = Some b"
    and "parse_engine_version u = Some c"
  shows "(a < b \<or> a = b \<or> b < a) \<and> \<not> (a < b \<and> b < a) \<and> (a < b \<and> b < c \<longrightarrow> a < c)
    \<and> (compare_versions a b = OrdEqual \<longleftrightarrow> a = b)
    \<and> (v_dev a \<and> \<not> v_dev b \<and> v_major a = v_major b \<and> v_minor a = v_minor b \<and> v_patch a = v_patch b
        \<longrightarrow> a < b)"
proof -
  have same: "version_key a = version_key b \<longleftrightarrow> a = b"
    using key_inject [of a b] grammar_ok assms(1,2) by (auto simp: version_parse_core)
  have less: "x < y \<longleftrightarrow> version_key x < version_key y" for x y
    by (auto simp: less_engine_version_def compare_key three_way_def)
  show ?thesis
    unfolding less compare_key
    using same by (auto simp: three_way_def) (auto simp: version_key_def)
qed

theorem version_order_witness:
  "EngineVersion 0 1 99 CHR ''a'' False < EngineVersion 0 2 0 CHR ''a'' True
   \<and> EngineVersion 0 2 0 CHR ''a'' True < EngineVersion 0 2 0 CHR ''a'' False"
proof -
  have parsed: "parse_engine_version (version_text (EngineVersion 0 1 99 CHR ''a'' False)) = Some (EngineVersion 0 1 99 CHR ''a'' False)"
    "parse_engine_version (version_text (EngineVersion 0 2 0 CHR ''a'' True)) = Some (EngineVersion 0 2 0 CHR ''a'' True)"
    "parse_engine_version (version_text (EngineVersion 0 2 0 CHR ''a'' False)) = Some (EngineVersion 0 2 0 CHR ''a'' False)"
    by (simp_all add: version_parse_core grammar_text version_ok_def)
  have "\<not> EngineVersion 0 2 0 CHR ''a'' True < EngineVersion 0 1 99 CHR ''a'' False"
    by (simp add: less_engine_version_def compare_versions_def three_way_def)
  with version_order [OF parsed] version_order [OF parsed(2,3,1)] show ?thesis by simp
qed

end
