(* ===== verification/Entity_Pool.thy ===== *)
theory Entity_Pool
  imports Wind_Prelude "HOL-Library.Multiset"
begin

section \<open>Entities and component pools\<close>

text \<open>
  \<open>Entity\<close> of \<open>src/include/engine/ecs/entity.h\<close> and the sparse sets \<open>World::Pool\<close> of
  \<open>src/include/engine/ecs/world.inl\<close> that hold the components of one type: \<open>pool_packed\<close> and
  \<open>pool_dense\<close> hold the entities and their components side by side, \<open>pool_sparse\<close> the place of an
  entity by its index. The locale \<open>component_store\<close> is what the world and the hierarchy rely on, a partial map
  from entities to components.
\<close>

datatype entity = Entity (ent_index: u32) (ent_generation: u32)

definition null_entity :: entity where
  "null_entity = Entity 0 0"

definition entity_less :: "entity \<Rightarrow> entity \<Rightarrow> bool" where
  "entity_less a b =
     (if ent_index a \<noteq> ent_index b then ent_index a < ent_index b
      else ent_generation a < ent_generation b)"

instantiation entity :: linorder
begin

definition less_entity :: "entity \<Rightarrow> entity \<Rightarrow> bool" where
  "a < b \<longleftrightarrow> entity_less a b"

definition less_eq_entity :: "entity \<Rightarrow> entity \<Rightarrow> bool" where
  "a \<le> b \<longleftrightarrow> a = b \<or> entity_less a b"

instance
  by standard (auto simp: less_entity_def less_eq_entity_def entity_less_def entity.expand split: if_splits)

end

record 'a pool =
  pool_sparse :: "u32 list"
  pool_packed :: "entity list"
  pool_dense :: "'a list"

definition kTombstone :: u32 where
  "kTombstone = 0xFFFFFFFF"

definition empty_pool :: "'a pool" where
  "empty_pool = \<lparr>pool_sparse = [], pool_packed = [], pool_dense = []\<rparr>"

abbreviation slot :: "entity \<Rightarrow> nat" where
  "slot e \<equiv> unat (ent_index e)"

definition pool_contains :: "'a pool \<Rightarrow> entity \<Rightarrow> bool" where
  "pool_contains p e =
     (if length (pool_sparse p) \<le> slot e then False
      else (let packed_index = pool_sparse p ! slot e in
            if packed_index = kTombstone \<or> length (pool_packed p) \<le> unat packed_index then False
            else pool_packed p ! unat packed_index = e))"

definition ensure_sparse :: "u32 \<Rightarrow> 'a pool \<Rightarrow> 'a pool" where
  "ensure_sparse index p =
     (if length (pool_sparse p) \<le> unat index
      then p\<lparr>pool_sparse := pool_sparse p @ replicate (unat index + 1 - length (pool_sparse p)) kTombstone\<rparr>
      else p)"

definition pool_emplace :: "entity \<Rightarrow> 'a \<Rightarrow> 'a pool \<Rightarrow> 'a pool" where
  "pool_emplace e v p =
     (let q = ensure_sparse (ent_index e) p in
      q\<lparr>pool_sparse := (pool_sparse q)[slot e := of_nat (length (pool_packed q))],
        pool_packed := pool_packed q @ [e], pool_dense := pool_dense q @ [v]\<rparr>)"

definition pool_get :: "'a pool \<Rightarrow> entity \<Rightarrow> 'a option" where
  "pool_get p e = (if \<not> pool_contains p e then None
     else Some (pool_dense p ! unat (pool_sparse p ! slot e)))"

text \<open>A write through the pointer \<open>try_get\<close> gives.\<close>

definition pool_put :: "entity \<Rightarrow> 'a \<Rightarrow> 'a pool \<Rightarrow> 'a pool" where
  "pool_put e v p = (if \<not> pool_contains p e then p
     else p\<lparr>pool_dense := (pool_dense p)[unat (pool_sparse p ! slot e) := v]\<rparr>)"

definition pool_remove :: "entity \<Rightarrow> 'a pool \<Rightarrow> 'a pool" where
  "pool_remove e p =
     (if \<not> pool_contains p e then p
      else
        (let packed_index = pool_sparse p ! slot e;
             last_index = of_nat (length (pool_packed p) - 1);
             q = (if packed_index \<noteq> last_index then
                    (let moved = pool_packed p ! unat last_index in
                     p\<lparr>pool_packed := (pool_packed p)[unat packed_index := moved],
                       pool_dense := (pool_dense p)[unat packed_index := pool_dense p ! unat last_index],
                       pool_sparse := (pool_sparse p)[slot moved := packed_index]\<rparr>)
                  else p)
         in q\<lparr>pool_packed := butlast (pool_packed q), pool_dense := butlast (pool_dense q),
              pool_sparse := (pool_sparse q)[slot e := kTombstone]\<rparr>))"

subsection \<open>The sparse set is a partial map\<close>

definition pool_ok :: "'a pool \<Rightarrow> bool" where
  "pool_ok p \<longleftrightarrow> length (pool_dense p) = length (pool_packed p)
     \<and> length (pool_packed p) < 2 ^ 32
     \<and> (\<forall>k < length (pool_packed p). slot (pool_packed p ! k) < length (pool_sparse p)
          \<and> pool_sparse p ! slot (pool_packed p ! k) = of_nat k)"

lemma pool_okD:
  assumes "pool_ok p"
  shows "length (pool_dense p) = length (pool_packed p)" "length (pool_packed p) < 2 ^ 32"
    and "k < length (pool_packed p) \<Longrightarrow> slot (pool_packed p ! k) < length (pool_sparse p)"
    and "k < length (pool_packed p) \<Longrightarrow> pool_sparse p ! slot (pool_packed p ! k) = of_nat k"
  using assms by (auto simp: pool_ok_def)

lemma unat_place: "k < 2 ^ 32 \<Longrightarrow> unat (of_nat k :: u32) = k"
  by (simp add: unat_of_nat)

lemma place_no_tombstone: "k < 2 ^ 32 - 1 \<Longrightarrow> (of_nat k :: u32) \<noteq> kTombstone"
proof
  assume k: "k < 2 ^ 32 - 1" "(of_nat k :: u32) = kTombstone"
  have "k = unat (of_nat k :: u32)" using k(1) by (simp add: unat_of_nat)
  also have "\<dots> = 2 ^ 32 - 1" by (simp add: k(2) kTombstone_def)
  finally show False using k(1) by simp
qed

lemma pool_contains_iff:
  assumes "pool_ok p"
  shows "pool_contains p e \<longleftrightarrow> e \<in> set (pool_packed p)"
proof
  assume "e \<in> set (pool_packed p)"
  then obtain k where k: "k < length (pool_packed p)" "pool_packed p ! k = e" by (auto simp: in_set_conv_nth)
  moreover have "k < 2 ^ 32 - 1" using k(1) pool_okD(2) [OF assms] by simp
  ultimately show "pool_contains p e"
    using pool_okD(3,4) [OF assms k(1)] place_no_tombstone [of k]
    by (simp add: pool_contains_def unat_place Let_def)
next
  assume "pool_contains p e"
  then show "e \<in> set (pool_packed p)"
    unfolding pool_contains_def Let_def by (metis leI nth_mem)
qed

lemma packed_distinct:
  assumes "pool_ok p"
  shows "distinct (map ent_index (pool_packed p))"
proof -
  have "k = j" if kj: "k < length (pool_packed p)" "j < length (pool_packed p)"
      "ent_index (pool_packed p ! k) = ent_index (pool_packed p ! j)" for k j
  proof -
    have "(of_nat k :: u32) = of_nat j"
      using pool_okD(4) [OF assms kj(1)] pool_okD(4) [OF assms kj(2)] kj(3) by simp
    then show "k = j" using kj(1,2) pool_okD(2) [OF assms] by (metis less_trans unat_place)
  qed
  then show ?thesis by (auto simp: distinct_conv_nth)
qed

lemma pool_get_nth:
  assumes "pool_ok p" and "k < length (pool_packed p)"
  shows "pool_get p (pool_packed p ! k) = Some (pool_dense p ! k)"
  using pool_okD(4) [OF assms] pool_contains_iff [OF assms(1)] assms(2) pool_okD(2) [OF assms(1)]
  by (simp add: pool_get_def unat_place)

lemma pool_get_map:
  assumes "pool_ok p"
  shows "pool_get p = map_of (zip (pool_packed p) (pool_dense p))"
proof
  fix e
  show "pool_get p e = map_of (zip (pool_packed p) (pool_dense p)) e"
  proof (cases "e \<in> set (pool_packed p)")
    case True
    then obtain k where k: "k < length (pool_packed p)" "e = pool_packed p ! k" by (auto simp: in_set_conv_nth)
    have "distinct (pool_packed p)" using packed_distinct [OF assms] by (simp add: distinct_map)
    then have "map_of (zip (pool_packed p) (pool_dense p)) e = Some (pool_dense p ! k)"
      using k pool_okD(1) [OF assms] by (simp add: map_of_zip_nth)
    with pool_get_nth [OF assms k(1)] k(2) show ?thesis by simp
  next
    case False
    then show ?thesis
      using pool_contains_iff [OF assms] pool_okD(1) [OF assms]
      by (simp add: pool_get_def) (metis map_of_zip_is_None)
  qed
qed

lemma pool_get_dom: "pool_ok p \<Longrightarrow> dom (pool_get p) = set (pool_packed p)"
  by (auto simp: pool_get_def pool_contains_iff split: if_splits)

lemma empty_pool_ok [simp]: "pool_ok empty_pool" "pool_get empty_pool = Map.empty"
  by (auto simp: pool_ok_def empty_pool_def pool_get_def pool_contains_def)

lemma pool_put_ok [simp]: "pool_ok p \<Longrightarrow> pool_ok (pool_put e v p)"
  by (auto simp: pool_ok_def pool_put_def)

lemma pool_put_get:
  assumes "pool_ok p" and "pool_get p e \<noteq> None"
  shows "pool_get (pool_put e v p) = (pool_get p)(e \<mapsto> v)"
proof
  fix f
  have e: "pool_contains p e" using assms(2) by (auto simp: pool_get_def split: if_splits)
  have c: "pool_contains (pool_put e v p) f = pool_contains p f"
    by (simp add: pool_contains_def pool_put_def)
  obtain k where k: "k < length (pool_packed p)" "pool_packed p ! k = e"
    using e pool_contains_iff [OF assms(1)] by (auto simp: in_set_conv_nth)
  have k': "unat (pool_sparse p ! slot e) = k"
    using pool_okD(2,4) [OF assms(1)] k by (auto simp: unat_place)
  show "pool_get (pool_put e v p) f = ((pool_get p)(e \<mapsto> v)) f"
  proof (cases "pool_contains p f")
    case True
    then obtain j where j: "j < length (pool_packed p)" "pool_packed p ! j = f"
      using pool_contains_iff [OF assms(1)] by (auto simp: in_set_conv_nth)
    have "unat (pool_sparse p ! slot f) = j"
      using pool_okD(2,4) [OF assms(1)] j by (auto simp: unat_place)
    moreover have "f = e \<longleftrightarrow> j = k"
      using j k packed_distinct [OF assms(1)] by (metis distinct_map nth_eq_iff_index_eq)
    ultimately show ?thesis
      using True e c j k k' pool_okD(1) [OF assms(1)]
      by (simp add: pool_get_def) (simp add: pool_put_def)
  next
    case False
    then show ?thesis using c e by (auto simp: pool_get_def)
  qed
qed

lemma ensure_sparse_sel [simp]:
  "pool_packed (ensure_sparse i p) = pool_packed p" "pool_dense (ensure_sparse i p) = pool_dense p"
  "unat i < length (pool_sparse (ensure_sparse i p))"
  by (auto simp: ensure_sparse_def)

lemma ensure_sparse_nth:
  "k < length (pool_sparse p) \<Longrightarrow> k < length (pool_sparse (ensure_sparse i p))
    \<and> pool_sparse (ensure_sparse i p) ! k = pool_sparse p ! k"
  by (auto simp: ensure_sparse_def nth_append)

lemma pool_emplace_ok:
  assumes ok: "pool_ok p" and fresh: "ent_index e \<notin> ent_index ` set (pool_packed p)"
    and room: "length (pool_packed p) + 1 < 2 ^ 32"
  shows "pool_ok (pool_emplace e v p)" "pool_get (pool_emplace e v p) = (pool_get p)(e \<mapsto> v)"
proof -
  let ?q = "pool_emplace e v p" and ?n = "length (pool_packed p)"
  have place: "slot (pool_packed ?q ! k) < length (pool_sparse ?q)
      \<and> pool_sparse ?q ! slot (pool_packed ?q ! k) = of_nat k" if k: "k < length (pool_packed ?q)" for k
  proof (cases "k = ?n")
    case True
    then show ?thesis by (simp add: pool_emplace_def Let_def)
  next
    case False
    then have k: "k < ?n" using that by (simp add: pool_emplace_def Let_def)
    then have "pool_packed p ! k \<in> set (pool_packed p)" by simp
    then have "slot e \<noteq> slot (pool_packed p ! k)" using fresh by (metis image_eqI word_unat_eq_iff)
    moreover have "pool_packed ?q ! k = pool_packed p ! k" using k by (simp add: pool_emplace_def Let_def nth_append)
    ultimately show ?thesis
      using ensure_sparse_nth [OF pool_okD(3) [OF ok k], of "ent_index e"] pool_okD(4) [OF ok k]
      by (simp add: pool_emplace_def Let_def)
  qed
  moreover have "length (pool_dense ?q) = length (pool_packed ?q)" "length (pool_packed ?q) < 2 ^ 32"
    using pool_okD(1) [OF ok] room by (simp_all add: pool_emplace_def Let_def)
  ultimately show q: "pool_ok ?q" unfolding pool_ok_def by blast
  have lists: "pool_packed ?q = pool_packed p @ [e]" "pool_dense ?q = pool_dense p @ [v]"
    by (simp_all add: pool_emplace_def Let_def)
  define m where "m = map_of (zip (pool_packed p) (pool_dense p))"
  have "e \<notin> set (pool_packed p)" using fresh by blast
  then have "m e = None" unfolding m_def using pool_okD(1) [OF ok] by (metis map_of_zip_is_None)
  then have "[e \<mapsto> v] ++ m = m(e \<mapsto> v)" by (auto simp: map_add_def fun_eq_iff split: option.splits)
  moreover have "map_of (zip (pool_packed ?q) (pool_dense ?q)) = [e \<mapsto> v] ++ m"
    using pool_okD(1) [OF ok] by (simp add: lists m_def)
  ultimately show "pool_get ?q = (pool_get p)(e \<mapsto> v)"
    by (simp only: pool_get_map [OF q] pool_get_map [OF ok] m_def)
qed

lemma swap_pop_nth:
  assumes "k < length xs" and "j < length xs - 1"
  shows "butlast (if k \<noteq> length xs - 1 then xs[k := xs ! (length xs - 1)] else xs) ! j
    = xs ! (if j = k then length xs - 1 else j)"
  using assms by (auto simp: nth_butlast nth_list_update)

lemma pool_remove_lists:
  assumes ok: "pool_ok p" and k: "k < length (pool_packed p)"
  shows "pool_packed (pool_remove (pool_packed p ! k) p)
      = butlast (if k \<noteq> length (pool_packed p) - 1 then (pool_packed p)[k := pool_packed p ! (length (pool_packed p) - 1)]
          else pool_packed p)"
    and "pool_dense (pool_remove (pool_packed p ! k) p)
      = butlast (if k \<noteq> length (pool_dense p) - 1 then (pool_dense p)[k := pool_dense p ! (length (pool_dense p) - 1)]
          else pool_dense p)"
    and "pool_sparse (pool_remove (pool_packed p ! k) p)
      = (if k \<noteq> length (pool_packed p) - 1
         then (pool_sparse p)[slot (pool_packed p ! (length (pool_packed p) - 1)) := of_nat k]
         else pool_sparse p)[slot (pool_packed p ! k) := kTombstone]"
proof -
  define n where "n = length (pool_packed p) - 1"
  have c: "pool_contains p (pool_packed p ! k)" using pool_contains_iff [OF ok] k by simp
  have n: "unat (of_nat n :: u32) = n" "unat (of_nat k :: u32) = k"
    using pool_okD(2) [OF ok] k by (intro unat_place; simp add: n_def)+
  then have same: "(of_nat k :: u32) = of_nat n \<longleftrightarrow> k = n" by metis
  have dense: "length (pool_dense p) - 1 = n" using pool_okD(1) [OF ok] by (simp add: n_def)
  note parts = pool_remove_def [of "pool_packed p ! k" p] Let_def pool_okD(4) [OF ok k] same n
  show "pool_packed (pool_remove (pool_packed p ! k) p)
      = butlast (if k \<noteq> length (pool_packed p) - 1 then (pool_packed p)[k := pool_packed p ! (length (pool_packed p) - 1)]
          else pool_packed p)"
    and "pool_dense (pool_remove (pool_packed p ! k) p)
      = butlast (if k \<noteq> length (pool_dense p) - 1 then (pool_dense p)[k := pool_dense p ! (length (pool_dense p) - 1)]
          else pool_dense p)"
    and "pool_sparse (pool_remove (pool_packed p ! k) p)
      = (if k \<noteq> length (pool_packed p) - 1
         then (pool_sparse p)[slot (pool_packed p ! (length (pool_packed p) - 1)) := of_nat k]
         else pool_sparse p)[slot (pool_packed p ! k) := kTombstone]"
    unfolding dense n_def [symmetric] parts using c by simp_all
qed

lemma pool_remove_ok:
  assumes ok: "pool_ok p"
  shows "pool_ok (pool_remove e p)" "pool_get (pool_remove e p) = (pool_get p)(e := None)"
proof -
  have "pool_ok (pool_remove e p) \<and> pool_get (pool_remove e p) = (pool_get p)(e := None)"
  proof (cases "e \<in> set (pool_packed p)")
    case False
    then have "\<not> pool_contains p e" using pool_contains_iff [OF ok] by simp
    with ok show ?thesis by (auto simp: pool_remove_def pool_get_def fun_eq_iff)
  next
    case True
    then obtain k where k: "k < length (pool_packed p)" and e: "e = pool_packed p ! k" by (auto simp: in_set_conv_nth)
    let ?n = "length (pool_packed p) - 1" and ?q = "pool_remove e p"
    define src where "src j = (if j = k then ?n else j)" for j
    note lists = pool_remove_lists [OF ok k, folded e]
    have len: "length (pool_packed ?q) = ?n" "length (pool_dense ?q) = ?n"
      using pool_okD(1) [OF ok] by (simp_all add: lists)
    have packed: "pool_packed ?q ! j = pool_packed p ! src j" if "j < ?n" for j
      unfolding lists src_def by (rule swap_pop_nth [OF k that])
    have dense: "pool_dense ?q ! j = pool_dense p ! src j" if "j < ?n" for j
      using swap_pop_nth [of k "pool_dense p" j] k that pool_okD(1) [OF ok] by (simp add: lists src_def)
    have src: "src j < length (pool_packed p)" "src j \<noteq> k" if "j < ?n" for j
      using that k by (auto simp: src_def)
    have inj: "i = j" if "slot (pool_packed p ! i) = slot (pool_packed p ! j)" "i < length (pool_packed p)" "j < length (pool_packed p)" for i j
    proof -
      have "ent_index (pool_packed p ! i) = ent_index (pool_packed p ! j)"
        using that(1) by (simp add: word_unat_eq_iff)
      then have "map ent_index (pool_packed p) ! i = map ent_index (pool_packed p) ! j" using that by simp
      then show ?thesis using packed_distinct [OF ok] that(2,3) by (metis length_map nth_eq_iff_index_eq)
    qed
    have place: "slot (pool_packed ?q ! j) < length (pool_sparse ?q)
        \<and> pool_sparse ?q ! slot (pool_packed ?q ! j) = of_nat j" if j: "j < ?n" for j
    proof -
      have s: "slot (pool_packed p ! src j) < length (pool_sparse p)"
        "pool_sparse p ! slot (pool_packed p ! src j) = of_nat (src j)"
        using pool_okD(3,4) [OF ok src(1) [OF j]] by auto
      have "slot (pool_packed p ! src j) \<noteq> slot e" using inj [of "src j" k] src [OF j] k e by auto
      moreover have "slot (pool_packed p ! src j) = slot (pool_packed p ! ?n) \<longleftrightarrow> j = k"
      proof -
        have "?n < length (pool_packed p)" using k by linarith
        with inj [of "src j" ?n] src(1) [OF j] j show ?thesis by (auto simp: src_def)
      qed
      ultimately show ?thesis
        unfolding packed [OF j] lists(3) using s j by (auto simp: src_def)
    qed
    have q: "pool_ok ?q"
      unfolding pool_ok_def using len place pool_okD(2) [OF ok] by auto
    have "pool_get ?q f = ((pool_get p)(e := None)) f" for f
    proof (cases "f \<in> set (pool_packed ?q)")
      case True
      then obtain j where j: "j < ?n" "pool_packed ?q ! j = f" using len by (auto simp: in_set_conv_nth)
      have "f \<noteq> e" using inj [of "src j" k] src [OF j(1)] k e packed [OF j(1)] j(2) by auto
      moreover have "pool_get ?q f = Some (pool_dense ?q ! j)" using pool_get_nth [OF q, of j] j len by simp
      moreover have "pool_get p f = Some (pool_dense p ! src j)"
        using pool_get_nth [OF ok src(1) [OF j(1)]] packed [OF j(1)] j(2) by simp
      ultimately show ?thesis by (simp add: dense [OF j(1)])
    next
      case False
      have "f \<notin> set (pool_packed p) \<or> f = e"
      proof (rule ccontr)
        assume "\<not> (f \<notin> set (pool_packed p) \<or> f = e)"
        then obtain i where i: "i < length (pool_packed p)" "pool_packed p ! i = f" "i \<noteq> k"
          using e by (auto simp: in_set_conv_nth)
        let ?j = "if i = ?n then k else i"
        have "?j < ?n" "src ?j = i" using i k by (auto simp: src_def)
        then have "pool_packed ?q ! ?j = f" using packed [of ?j] i by simp
        then show False using False \<open>?j < ?n\<close> len nth_mem by metis
      qed
      then show ?thesis using False
        by (auto simp: pool_get_def pool_contains_iff [OF q] pool_contains_iff [OF ok])
    qed
    with q show ?thesis by blast
  qed
  then show "pool_ok (pool_remove e p)" "pool_get (pool_remove e p) = (pool_get p)(e := None)" by auto
qed

subsection \<open>The interface\<close>

text \<open>
  A store of components is a partial map; a component goes in where \<open>fits\<close> holds of its entity. What a
  client does with a pool, a write where the component is there and an emplace where it is not, and the
  removal from it of a list of entities, follows from the laws.
\<close>

locale component_store =
  fixes ok :: "'p \<Rightarrow> bool" and get :: "'p \<Rightarrow> entity \<Rightarrow> 'a option" and put :: "entity \<Rightarrow> 'a \<Rightarrow> 'p \<Rightarrow> 'p"
    and emplace :: "entity \<Rightarrow> 'a \<Rightarrow> 'p \<Rightarrow> 'p" and remove :: "entity \<Rightarrow> 'p \<Rightarrow> 'p" and fits :: "'p \<Rightarrow> entity \<Rightarrow> bool"
  assumes put_law: "ok p \<Longrightarrow> get p e \<noteq> None \<Longrightarrow> ok (put e v p) \<and> get (put e v p) = (get p)(e \<mapsto> v)"
    and emplace_law: "ok p \<Longrightarrow> fits p e \<Longrightarrow> ok (emplace e v p) \<and> get (emplace e v p) = (get p)(e \<mapsto> v)"
    and remove_law: "ok p \<Longrightarrow> ok (remove e p) \<and> get (remove e p) = (get p)(e := None)"
begin

lemma write_or_emplace:
  assumes "ok p" and "get p e = None \<Longrightarrow> fits p e"
  shows "ok (case get p e of Some u \<Rightarrow> put e (f u) p | None \<Rightarrow> emplace e v p)"
    and "get (case get p e of Some u \<Rightarrow> put e (f u) p | None \<Rightarrow> emplace e v p)
      = (get p)(e \<mapsto> (case get p e of Some u \<Rightarrow> f u | None \<Rightarrow> v))"
  using assms put_law [of p e] emplace_law [of p e v] by (auto split: option.splits)

lemma remove_all:
  "ok p \<Longrightarrow> ok (fold remove es p) \<and> get (fold remove es p) = (\<lambda>e. if e \<in> set es then None else get p e)"
  using remove_law by (induction es arbitrary: p) (auto simp: fun_eq_iff)

end

definition pool_fits :: "'a pool \<Rightarrow> entity \<Rightarrow> bool" where
  "pool_fits p e \<longleftrightarrow> ent_index e \<notin> ent_index ` set (pool_packed p) \<and> length (pool_packed p) + 1 < 2 ^ 32"

interpretation pools: component_store pool_ok pool_get pool_put pool_emplace pool_remove pool_fits
  by unfold_locales (simp_all add: pool_put_get pool_emplace_ok pool_fits_def pool_remove_ok)

text \<open>A live entity without a component fits, as long as the indices in use are fewer than 2^32 - 1.\<close>

lemma pool_fitsI:
  assumes ok: "pool_ok p" and dom: "dom (pool_get p) \<subseteq> V" and e: "e \<in> V" "pool_get p e = None"
    and one: "\<And>f g. f \<in> V \<Longrightarrow> g \<in> V \<Longrightarrow> ent_index f = ent_index g \<Longrightarrow> f = g"
    and small: "\<And>f. f \<in> V \<Longrightarrow> slot f < n" "n < 2 ^ 32 - 1"
  shows "pool_fits p e"
proof -
  have packed: "set (pool_packed p) \<subseteq> V" using dom pool_get_dom [OF ok] by simp
  have "e \<notin> set (pool_packed p)" using e(2) pool_get_dom [OF ok] by (metis domIff)
  then have "ent_index e \<notin> ent_index ` set (pool_packed p)" using packed one e(1) by blast
  moreover have "length (pool_packed p) = card (slot ` set (pool_packed p))"
  proof -
    have "distinct (map unat (map ent_index (pool_packed p)))"
      using packed_distinct [OF ok] by (simp add: distinct_map inj_on_def word_unat_eq_iff)
    then have "card (set (map unat (map ent_index (pool_packed p)))) = length (pool_packed p)"
      by (metis distinct_card length_map)
    then show ?thesis by (simp add: image_image)
  qed
  moreover have "slot ` set (pool_packed p) \<subseteq> {..<n}" using packed small(1) by blast
  then have "card (slot ` set (pool_packed p)) \<le> n" using card_mono [of "{..<n}"] by fastforce
  ultimately show ?thesis using small(2) by (simp add: pool_fits_def)
qed

end
