(* ===== verification/Ecs_World.thy ===== *)
theory Ecs_World
  imports Entity_Pool "HOL-Library.AList"
begin

section \<open>The world of entities\<close>

text \<open>
  \<open>World\<close> of \<open>src/src/ecs/world.cpp\<close>: handles of entities with an index and a generation, the pools of
  their components, and the destruction of an entity with everything below it. The pools of \<open>Parent\<close>,
  \<open>Children\<close>, \<open>Transform\<close> and \<open>WorldTransform\<close> are fields of their own, as the code of the hierarchy reads
  them by type; the pools of all other types are in \<open>w_pools\<close> by the name of their type. A pool that was
  not made yet is an empty one. The backs of \<open>free_list_\<close> and of the other vectors are the ends of
  the lists. The walk over what is destroyed goes on for ever on parents and children that go in a circle,
  where it is None.
\<close>

record ('t, 'm, 'c) world =
  w_generations :: "u32 list"
  w_alive :: "bool list"
  w_free :: "u32 list"
  w_parents :: "entity pool"
  w_children :: "entity list pool"
  w_transforms :: "'t pool"
  w_matrices :: "'m pool"
  w_pools :: "(string \<times> 'c pool) list"
  w_pending :: "entity list"
  w_view_depth :: int

definition new_world :: "('t, 'm, 'c) world" where
  "new_world = \<lparr>w_generations = [], w_alive = [], w_free = [], w_parents = empty_pool,
     w_children = empty_pool, w_transforms = empty_pool, w_matrices = empty_pool, w_pools = [],
     w_pending = [], w_view_depth = 0\<rparr>"

definition world_create :: "('t, 'm, 'c) world \<Rightarrow> entity \<times> ('t, 'm, 'c) world" where
  "world_create W =
     (if w_free W \<noteq> [] then
        (let index = last (w_free W) in
         (Entity index (w_generations W ! unat index),
          W\<lparr>w_free := butlast (w_free W), w_alive := (w_alive W)[unat index := True]\<rparr>))
      else
        (let index = of_nat (length (w_generations W)) in
         (Entity index 1,
          W\<lparr>w_generations := w_generations W @ [1], w_alive := w_alive W @ [True]\<rparr>)))"

definition world_valid :: "('t, 'm, 'c) world \<Rightarrow> entity \<Rightarrow> bool" where
  "world_valid W e \<longleftrightarrow> slot e < length (w_alive W) \<and> w_alive W ! slot e
     \<and> w_generations W ! slot e = ent_generation e"

definition alive_entities :: "('t, 'm, 'c) world \<Rightarrow> entity list" where
  "alive_entities W = map (\<lambda>i. Entity (of_nat i) (w_generations W ! i))
     (filter (\<lambda>i. w_alive W ! i) [0..<length (w_alive W)])"

text \<open>\<open>remove\<close> of every pool, and the next generation, which is never 0.\<close>

definition next_generation :: "u32 \<Rightarrow> u32" where
  "next_generation g = (if g + 1 = 0 then 1 else g + 1)"

definition world_release :: "entity \<Rightarrow> ('t, 'm, 'c) world \<Rightarrow> ('t, 'm, 'c) world" where
  "world_release e W =
     W\<lparr>w_parents := pool_remove e (w_parents W), w_children := pool_remove e (w_children W),
       w_transforms := pool_remove e (w_transforms W), w_matrices := pool_remove e (w_matrices W),
       w_pools := map (\<lambda>(type, pool). (type, pool_remove e pool)) (w_pools W),
       w_alive := (w_alive W)[slot e := False],
       w_generations := (w_generations W)[slot e := next_generation (w_generations W ! slot e)],
       w_free := w_free W @ [ent_index e]\<rparr>"

text \<open>The child leaves the list of its parent, and a list that becomes empty goes.\<close>

definition drop_child :: "entity \<Rightarrow> entity \<Rightarrow> ('t, 'm, 'c) world \<Rightarrow> ('t, 'm, 'c) world" where
  "drop_child child parent W =
     (case pool_get (w_children W) parent of None \<Rightarrow> W
      | Some siblings \<Rightarrow>
          (let rest = removeAll child siblings; pool = pool_put parent rest (w_children W) in
           W\<lparr>w_children := (if rest = [] then pool_remove parent pool else pool)\<rparr>))"

definition doomed_children :: "('t, 'm, 'c) world \<Rightarrow> entity \<Rightarrow> entity list" where
  "doomed_children W e =
     (case pool_get (w_children W) e of None \<Rightarrow> []
      | Some children \<Rightarrow>
          filter (\<lambda>child. world_valid W child \<and> pool_get (w_parents W) child = Some e) children)"

text \<open>\<open>doomed\<close> up to the index of the loop, and from it.\<close>

partial_function (option) doomed_loop :: "('t, 'm, 'c) world \<Rightarrow> entity list \<Rightarrow> entity list
    \<Rightarrow> entity list option" where
  "doomed_loop W walked doomed =
     (case doomed of [] \<Rightarrow> Some walked
      | e # rest \<Rightarrow> doomed_loop W (walked @ [e]) (rest @ doomed_children W e))"

definition destroy_immediate :: "entity \<Rightarrow> ('t, 'm, 'c) world \<Rightarrow> ('t, 'm, 'c) world option" where
  "destroy_immediate e W =
     (if \<not> world_valid W e then Some W
      else
        (let W1 = (case pool_get (w_parents W) e of None \<Rightarrow> W | Some parent \<Rightarrow> drop_child e parent W) in
         map_option (\<lambda>doomed. fold world_release doomed W1) (doomed_loop W1 [] [e])))"

definition world_destroy :: "entity \<Rightarrow> ('t, 'm, 'c) world \<Rightarrow> ('t, 'm, 'c) world option" where
  "world_destroy e W =
     (if \<not> world_valid W e then Some W
      else if 0 < w_view_depth W then Some (W\<lparr>w_pending := w_pending W @ [e]\<rparr>)
      else destroy_immediate e W)"

fun destroy_all :: "entity list \<Rightarrow> ('t, 'm, 'c) world \<Rightarrow> ('t, 'm, 'c) world option" where
  "destroy_all [] W = Some W"
| "destroy_all (e # es) W = Option.bind (destroy_immediate e W) (destroy_all es)"

definition flush_destroyed :: "('t, 'm, 'c) world \<Rightarrow> ('t, 'm, 'c) world option" where
  "flush_destroyed W = destroy_all (w_pending W) (W\<lparr>w_pending := []\<rparr>)"

definition begin_view :: "('t, 'm, 'c) world \<Rightarrow> ('t, 'm, 'c) world" where
  "begin_view W = W\<lparr>w_view_depth := w_view_depth W + 1\<rparr>"

definition end_view :: "('t, 'm, 'c) world \<Rightarrow> ('t, 'm, 'c) world option" where
  "end_view W =
     (let W1 = W\<lparr>w_view_depth := w_view_depth W - 1\<rparr> in
      if w_view_depth W1 = 0 then flush_destroyed W1 else Some W1)"

text \<open>Components of the other types: \<open>assure_pool\<close>, \<open>emplace\<close>, \<open>try_get\<close> and \<open>remove\<close>.\<close>

definition pool_of :: "string \<Rightarrow> ('t, 'm, 'c) world \<Rightarrow> 'c pool" where
  "pool_of type W = (case map_of (w_pools W) type of None \<Rightarrow> empty_pool | Some pool \<Rightarrow> pool)"

definition with_pool :: "string \<Rightarrow> ('c pool \<Rightarrow> 'c pool) \<Rightarrow> ('t, 'm, 'c) world
    \<Rightarrow> ('t, 'm, 'c) world" where
  "with_pool type f W =
     W\<lparr>w_pools := AList.update type (f (pool_of type W)) (w_pools W)\<rparr>"

definition world_emplace :: "string \<Rightarrow> entity \<Rightarrow> 'c \<Rightarrow> ('t, 'm, 'c) world
    \<Rightarrow> ('t, 'm, 'c) world" where
  "world_emplace type e v = with_pool type (pool_emplace e v)"

definition world_remove :: "string \<Rightarrow> entity \<Rightarrow> ('t, 'm, 'c) world \<Rightarrow> ('t, 'm, 'c) world" where
  "world_remove type e W = (case map_of (w_pools W) type of None \<Rightarrow> W
     | Some _ \<Rightarrow> with_pool type (pool_remove e) W)"

definition world_get :: "string \<Rightarrow> ('t, 'm, 'c) world \<Rightarrow> entity \<Rightarrow> 'c option" where
  "world_get type W e = pool_get (pool_of type W) e"

end
