(* ===== verification/Forest.thy ===== *)
theory Forest
  imports Entity_Pool
begin

section \<open>Forests of entities\<close>

text \<open>
  What the hierarchy keeps of its two maps, from a child to its parent and from a parent to its children:
  the maps are inverse to each other, they hold live entities, and every entity has a depth of at most
  32 below a root. The lemmas say what is left when an entity is detached, attached to another and destroyed
  with everything below it.
\<close>

definition below :: "(entity \<Rightarrow> entity option) \<Rightarrow> (entity \<times> entity) set" where
  "below P = {(c, p). P c = Some p}"

definition subtree :: "(entity \<Rightarrow> entity option) \<Rightarrow> entity \<Rightarrow> entity set" where
  "subtree P e = {x. (x, e) \<in> (below P)\<^sup>*}"

definition depths :: "(entity \<Rightarrow> entity option) \<Rightarrow> (entity \<Rightarrow> nat) \<Rightarrow> bool" where
  "depths P d \<longleftrightarrow> (\<forall>e. P e = None \<longrightarrow> d e = 0)
     \<and> (\<forall>c p. P c = Some p \<longrightarrow> d c = Suc (d p) \<and> d c \<le> kMaxHierarchyDepth)"

definition family :: "entity set \<Rightarrow> (entity \<Rightarrow> entity option) \<Rightarrow> (entity \<Rightarrow> entity list option) \<Rightarrow> bool" where
  "family V P K \<longleftrightarrow> dom P \<subseteq> V \<and> dom K \<subseteq> V
     \<and> (\<forall>c p. P c = Some p \<longrightarrow> p \<in> V \<and> (\<exists>l. K p = Some l \<and> c \<in> set l))
     \<and> (\<forall>p l. K p = Some l \<longrightarrow> l \<noteq> [] \<and> distinct l \<and> (\<forall>c \<in> set l. P c = Some p))"

definition forest :: "entity set \<Rightarrow> (entity \<Rightarrow> entity option) \<Rightarrow> (entity \<Rightarrow> entity list option) \<Rightarrow> bool" where
  "forest V P K \<longleftrightarrow> family V P K \<and> (\<exists>d. depths P d)"

definition kids_without :: "entity \<Rightarrow> entity \<Rightarrow> (entity \<Rightarrow> entity list option) \<Rightarrow> entity \<Rightarrow> entity list option" where
  "kids_without c p K = (case K p of None \<Rightarrow> K
     | Some l \<Rightarrow> if removeAll c l = [] then K(p := None) else K(p \<mapsto> removeAll c l))"

definition kids_with :: "entity \<Rightarrow> entity \<Rightarrow> (entity \<Rightarrow> entity list option) \<Rightarrow> entity \<Rightarrow> entity list option" where
  "kids_with c p K = K(p \<mapsto> (case K p of None \<Rightarrow> [c] | Some l \<Rightarrow> l @ [c]))"

subsection \<open>Subtrees\<close>

lemma below_iff [simp]: "(c, p) \<in> below P \<longleftrightarrow> P c = Some p"
  by (simp add: below_def)

lemma depthsD:
  assumes "depths P d"
  shows "P e = None \<Longrightarrow> d e = 0" "P c = Some p \<Longrightarrow> d c = Suc (d p)"
    "P c = Some p \<Longrightarrow> d c \<le> kMaxHierarchyDepth"
  using assms unfolding depths_def by blast+

lemma subtree_self [simp]: "e \<in> subtree P e"
  by (simp add: subtree_def)

lemma subtree_step: "P c = Some p \<Longrightarrow> p \<in> subtree P e \<Longrightarrow> c \<in> subtree P e"
  unfolding subtree_def mem_Collect_eq by (rule converse_rtrancl_into_rtrancl) simp_all

lemma subtree_up:
  assumes "x \<in> subtree P e" and "x \<noteq> e"
  obtains p where "P x = Some p" "p \<in> subtree P e"
  using assms unfolding subtree_def mem_Collect_eq by (auto elim: converse_rtranclE)

lemma subtree_trans: "x \<in> subtree P y \<Longrightarrow> y \<in> subtree P z \<Longrightarrow> x \<in> subtree P z"
  unfolding subtree_def mem_Collect_eq by (rule rtrancl_trans)

lemma subtree_depth:
  assumes "depths P d" and "x \<in> subtree P e"
  shows "d e \<le> d x"
  using assms(2) unfolding subtree_def mem_Collect_eq
  by (induction rule: converse_rtrancl_induct) (use assms(1) in \<open>auto simp: depths_def\<close>)

lemma subtree_children:
  assumes "family V P K"
  shows "subtree P e = insert e (\<Union>c \<in> set (case K e of None \<Rightarrow> [] | Some l \<Rightarrow> l). subtree P c)"
proof (intro equalityI subsetI)
  fix x assume "x \<in> subtree P e"
  then have "(x, e) \<in> (below P)\<^sup>*" by (simp add: subtree_def)
  then show "x \<in> insert e (\<Union>c \<in> set (case K e of None \<Rightarrow> [] | Some l \<Rightarrow> l). subtree P c)"
  proof (cases rule: rtranclE)
    case (step c)
    then have "P c = Some e" "x \<in> subtree P c" by (simp_all add: subtree_def)
    with assms show ?thesis by (force simp: family_def)
  qed simp
next
  fix x assume "x \<in> insert e (\<Union>c \<in> set (case K e of None \<Rightarrow> [] | Some l \<Rightarrow> l). subtree P c)"
  then consider "x = e" | l c where "K e = Some l" "c \<in> set l" "x \<in> subtree P c"
    by (cases "K e") auto
  then show "x \<in> subtree P e"
  proof cases
    case 2
    then have "P c = Some e" using assms by (auto simp: family_def)
    then have "c \<in> subtree P e" by (rule subtree_step) simp
    with 2(3) show ?thesis by (rule subtree_trans)
  qed simp
qed

lemma no_circle:
  assumes "depths P d" and "P c = Some p" shows "p \<notin> subtree P c"
  using subtree_depth [OF assms(1), of p c] assms by (auto simp: depths_def)

subsection \<open>Detaching\<close>

lemma familyD:
  assumes "family V P K"
  shows "P c = Some p \<Longrightarrow> c \<in> V \<and> p \<in> V \<and> (\<exists>l. K p = Some l \<and> c \<in> set l)"
    and "K p = Some l \<Longrightarrow> p \<in> V \<and> l \<noteq> [] \<and> distinct l \<and> (\<forall>c \<in> set l. P c = Some p)"
  using assms by (auto simp: family_def)

lemma family_detach:
  assumes fam: "family V P K" and c: "P c = Some p"
  shows "family V (P(c := None)) (kids_without c p K)"
proof -
  obtain l where l: "K p = Some l" "c \<in> set l" using familyD(1) [OF fam c] by blast
  have other: "c \<notin> set m" if "K q = Some m" "q \<noteq> p" for q m
    using familyD(2) [OF fam that(1)] c that(2) by auto
  show ?thesis
    unfolding family_def
  proof (intro conjI allI impI)
    show "dom (P(c := None)) \<subseteq> V" "dom (kids_without c p K) \<subseteq> V"
      using fam l by (auto simp: family_def kids_without_def split: if_splits)
  next
    fix x q assume x: "(P(c := None)) x = Some q"
    then have P: "P x = Some q" "x \<noteq> c" by (auto split: if_splits)
    show "q \<in> V" using familyD(1) [OF fam P(1)] by blast
    obtain m where m: "K q = Some m" "x \<in> set m" using familyD(1) [OF fam P(1)] by blast
    have "x \<in> set (removeAll c m)" using m P by simp
    moreover from this have "removeAll c m \<noteq> []" by force
    ultimately show "\<exists>l. kids_without c p K q = Some l \<and> x \<in> set l"
      using m l by (cases "q = p") (auto simp: kids_without_def)
  next
    fix q m assume m: "kids_without c p K q = Some m"
    show "m \<noteq> []" "distinct m"
      using m l familyD(2) [OF fam l(1)] familyD(2) [OF fam, of q m]
      by (auto simp: kids_without_def distinct_removeAll split: if_splits)
    show "\<forall>x \<in> set m. (P(c := None)) x = Some q"
      using m l familyD(2) [OF fam l(1)] familyD(2) [OF fam, of q m] other [of q m]
      by (auto simp: kids_without_def split: if_splits)
  qed
qed

lemma depths_detach:
  assumes "depths P d"
  shows "depths (P(c := None)) (\<lambda>x. if x \<in> subtree P c then d x - d c else d x)"
    (is "depths _ ?d")
  unfolding depths_def
proof (intro conjI allI impI)
  fix e assume "(P(c := None)) e = None"
  then show "?d e = 0"
    using assms by (cases "e = c") (auto simp: depths_def)
next
  fix x q assume x: "(P(c := None)) x = Some q"
  then have P: "P x = Some q" "x \<noteq> c" by (auto split: if_splits)
  have "x \<in> subtree P c \<longleftrightarrow> q \<in> subtree P c"
    using P subtree_step [where P = P and c = x and p = q and e = c] by (auto elim: subtree_up)
  moreover have "d x = Suc (d q)" "d x \<le> kMaxHierarchyDepth" using depthsD [OF assms] P(1) by blast+
  moreover have "q \<in> subtree P c \<Longrightarrow> d c \<le> d q" by (rule subtree_depth [OF assms])
  ultimately show "?d x = Suc (?d q)" "?d x \<le> kMaxHierarchyDepth" by auto
qed

lemma forest_detach:
  "forest V P K \<Longrightarrow> P c = Some p \<Longrightarrow> forest V (P(c := None)) (kids_without c p K)"
  using family_detach depths_detach by (metis forest_def)

subsection \<open>Attaching\<close>

lemma family_attach:
  assumes fam: "family V P K" and c: "P c = None" "c \<in> V" "p \<in> V"
  shows "family V (P(c \<mapsto> p)) (kids_with c p K)"
proof -
  have other: "c \<notin> set m" if "K q = Some m" for q m using familyD(2) [OF fam that] c(1) by auto
  show ?thesis
    unfolding family_def
  proof (intro conjI allI impI)
    show "dom (P(c \<mapsto> p)) \<subseteq> V" "dom (kids_with c p K) \<subseteq> V"
      using fam c by (auto simp: family_def kids_with_def)
  next
    fix x q assume x: "(P(c \<mapsto> p)) x = Some q"
    then show "q \<in> V" using familyD(1) [OF fam, of x q] c by (auto split: if_splits)
    show "\<exists>l. kids_with c p K q = Some l \<and> x \<in> set l"
      using x familyD(1) [OF fam, of x q] by (auto simp: kids_with_def split: if_splits option.splits)
  next
    fix q m assume m: "kids_with c p K q = Some m"
    show "m \<noteq> []" "distinct m"
      using m familyD(2) [OF fam, of q m] familyD(2) [OF fam, of p] other
      by (auto simp: kids_with_def split: if_splits option.splits)
    show "\<forall>x \<in> set m. (P(c \<mapsto> p)) x = Some q"
      using m familyD(2) [OF fam, of q] other
      by (auto simp: kids_with_def split: if_splits option.splits)
  qed
qed

lemma depths_attach:
  assumes d: "depths P d" and c: "P c = None" "p \<notin> subtree P c"
    and fits: "\<And>x. x \<in> subtree P c \<Longrightarrow> d p + 1 + d x \<le> kMaxHierarchyDepth"
  shows "depths (P(c \<mapsto> p)) (\<lambda>x. if x \<in> subtree P c then d p + 1 + d x else d x)"
  unfolding depths_def
proof (intro conjI allI impI)
  let ?d = "\<lambda>x. if x \<in> subtree P c then d p + 1 + d x else d x"
  fix e assume "(P(c \<mapsto> p)) e = None"
  then have "P e = None" "e \<noteq> c" by (auto split: if_splits)
  moreover from this have "e \<notin> subtree P c" by (auto elim: subtree_up)
  ultimately show "?d e = 0" using depthsD(1) [OF d] by simp
next
  let ?d = "\<lambda>x. if x \<in> subtree P c then d p + 1 + d x else d x"
  fix x q assume x: "(P(c \<mapsto> p)) x = Some q"
  have "?d x = Suc (?d q) \<and> ?d x \<le> kMaxHierarchyDepth"
  proof (cases "x = c")
    case True
    then show ?thesis using x c fits [of c] depthsD(1) [OF d c(1)] by simp
  next
    case False
    then have P: "P x = Some q" using x by simp
    have "x \<in> subtree P c \<longleftrightarrow> q \<in> subtree P c"
      using P False subtree_step [where P = P and c = x and p = q and e = c] by (auto elim: subtree_up)
    then show ?thesis using depthsD(2,3) [OF d P] fits [of x] by auto
  qed
  then show "?d x = Suc (?d q)" "?d x \<le> kMaxHierarchyDepth" by auto
qed

subsection \<open>Destroying\<close>

lemma kids_without_get:
  "kids_without c p K q = (if q = p then case K p of None \<Rightarrow> None
      | Some l \<Rightarrow> if removeAll c l = [] then None else Some (removeAll c l) else K q)"
  by (auto simp: kids_without_def split: option.splits)

lemma forest_drop_tree:
  assumes f: "forest V P K" and e: "P e = None"
  shows "forest (V - subtree P e) (P |` (- subtree P e)) (K |` (- subtree P e))"
proof -
  let ?D = "subtree P e"
  have fam: "family V P K" using f by (simp add: forest_def)
  obtain d where d: "depths P d" using f by (auto simp: forest_def)
  have up: "x \<in> ?D" if "P x = Some q" "q \<in> ?D" for x q using that by (rule subtree_step)
  have down: "q \<in> ?D" if "P x = Some q" "x \<in> ?D" for x q
    using that e by (metis option.distinct(1) option.inject subtree_up)
  have "family (V - ?D) (P |` (- ?D)) (K |` (- ?D))"
    unfolding family_def
  proof (intro conjI allI impI)
    show "dom (P |` (- ?D)) \<subseteq> V - ?D" "dom (K |` (- ?D)) \<subseteq> V - ?D" using fam by (auto simp: family_def)
  next
    fix x q assume "(P |` (- ?D)) x = Some q"
    then have x: "P x = Some q" "x \<notin> ?D" by (auto simp: restrict_map_def split: if_splits)
    then have q: "q \<notin> ?D" using up by blast
    with familyD(1) [OF fam x(1)] show "q \<in> V - ?D" "\<exists>l. (K |` (- ?D)) q = Some l \<and> x \<in> set l" by auto
  next
    fix q l assume "(K |` (- ?D)) q = Some l"
    then have l: "K q = Some l" "q \<notin> ?D" by (auto simp: restrict_map_def split: if_splits)
    with familyD(2) [OF fam l(1)] show "l \<noteq> []" "distinct l" by auto
    show "\<forall>x \<in> set l. (P |` (- ?D)) x = Some q"
    proof
      fix x assume "x \<in> set l"
      then have x: "P x = Some q" using familyD(2) [OF fam l(1)] by blast
      then show "(P |` (- ?D)) x = Some q" using down [OF x] l(2) by (auto simp: restrict_map_def)
    qed
  qed
  moreover have "depths (P |` (- ?D)) (\<lambda>x. if x \<in> ?D then 0 else d x)"
    unfolding depths_def
  proof (intro conjI allI impI)
    fix x assume "(P |` (- ?D)) x = None"
    then show "(if x \<in> ?D then 0 else d x) = 0" using depthsD(1) [OF d, of x] by (auto simp: restrict_map_def split: if_splits)
  next
    fix x q assume "(P |` (- ?D)) x = Some q"
    then have x: "P x = Some q" "x \<notin> ?D" by (auto simp: restrict_map_def split: if_splits)
    then have "q \<notin> ?D" using up by blast
    with x depthsD(2,3) [OF d x(1)]
    show "(if x \<in> ?D then 0 else d x) = Suc (if q \<in> ?D then 0 else d q)"
      "(if x \<in> ?D then 0 else d x) \<le> kMaxHierarchyDepth" by auto
  qed
  ultimately show ?thesis unfolding forest_def by blast
qed

lemma subtree_cut: "subtree (P(e := None)) e = subtree P e"
proof (intro equalityI subsetI)
  fix x assume "x \<in> subtree (P(e := None)) e"
  then show "x \<in> subtree P e"
    unfolding subtree_def mem_Collect_eq
    by (rule rtrancl_mono [THEN subsetD, rotated]) (auto simp: below_def split: if_splits)
next
  fix x assume "x \<in> subtree P e"
  then have "(x, e) \<in> (below P)\<^sup>*" by (simp add: subtree_def)
  then show "x \<in> subtree (P(e := None)) e"
  proof (induction rule: converse_rtrancl_induct)
    case (step x y)
    show ?case
    proof (cases "x = e")
      case False
      then have "(P(e := None)) x = Some y" using step(1) by simp
      from this step(3) show ?thesis by (rule subtree_step)
    qed simp
  qed simp
qed

lemma forest_destroy:
  assumes f: "forest V P K"
  shows "forest (V - subtree P e) (P |` (- subtree P e))
    ((case P e of None \<Rightarrow> K | Some p \<Rightarrow> kids_without e p K) |` (- subtree P e))"
proof (cases "P e")
  case None
  then show ?thesis using forest_drop_tree [OF f None] by simp
next
  case (Some p)
  from forest_drop_tree [OF forest_detach [OF f Some], of e]
  have "forest (V - subtree P e) (P(e := None) |` (- subtree P e)) (kids_without e p K |` (- subtree P e))"
    by (simp add: subtree_cut)
  moreover have "P(e := None) |` (- subtree P e) = P |` (- subtree P e)"
    by (auto simp: restrict_map_def fun_eq_iff)
  ultimately show ?thesis using Some by simp
qed

end
