(* ===== verification/World_Inv.thy ===== *)
theory World_Inv
  imports Ecs_World Forest
begin

section \<open>What a world keeps\<close>

text \<open>
  The invariant of a world, in four parts: its slots (indices, generations and the free list), its pools
  (each a sparse set of live entities), its hierarchy (a forest of live entities) and the handles its counters
  have left. \<open>world_use\<close> counts the entities that were ever made, as the generations that went by and
  the entities that live; while it is below 2^32 - 1 no index and no generation wraps.
\<close>

abbreviation par :: "('t, 'm, 'c) world \<Rightarrow> entity \<Rightarrow> entity option" where
  "par W \<equiv> pool_get (w_parents W)"

abbreviation kids :: "('t, 'm, 'c) world \<Rightarrow> entity \<Rightarrow> entity list option" where
  "kids W \<equiv> pool_get (w_children W)"

abbreviation live :: "('t, 'm, 'c) world \<Rightarrow> entity set" where
  "live W \<equiv> {e. world_valid W e}"

definition slots_ok :: "('t, 'm, 'c) world \<Rightarrow> bool" where
  "slots_ok W \<longleftrightarrow> length (w_alive W) = length (w_generations W)
     \<and> (\<forall>i < length (w_generations W). w_generations W ! i \<noteq> 0
          \<and> (\<not> w_alive W ! i \<longrightarrow> w_generations W ! i \<noteq> 1))
     \<and> distinct (w_free W)
     \<and> (\<forall>i \<in> set (w_free W). unat i < length (w_generations W) \<and> \<not> w_alive W ! unat i)"

definition world_use :: "('t, 'm, 'c) world \<Rightarrow> nat" where
  "world_use W = sum_list (map (\<lambda>g. unat g - 1) (w_generations W)) + length (filter (\<lambda>a. a) (w_alive W))"

definition handles_left :: "nat \<Rightarrow> ('t, 'm, 'c) world \<Rightarrow> bool" where
  "handles_left n W \<longleftrightarrow> world_use W + n < 2 ^ 32 - 1"

definition pool_live :: "entity set \<Rightarrow> 'a pool \<Rightarrow> bool" where
  "pool_live V p \<longleftrightarrow> pool_ok p \<and> dom (pool_get p) \<subseteq> V"

definition pools_live :: "entity set \<Rightarrow> ('t, 'm, 'c) world \<Rightarrow> bool" where
  "pools_live V W \<longleftrightarrow> pool_live V (w_parents W) \<and> pool_live V (w_children W)
     \<and> pool_live V (w_transforms W) \<and> pool_live V (w_matrices W)
     \<and> (\<forall>p \<in> snd ` set (w_pools W). pool_live V p)"

definition world_ok :: "nat \<Rightarrow> ('t, 'm, 'c) world \<Rightarrow> bool" where
  "world_ok n W \<longleftrightarrow> slots_ok W \<and> handles_left n W \<and> pools_live (live W) W
     \<and> forest (live W) (par W) (kids W)"

text \<open>A handle that was given out: its entity lives, or its slot has gone on to a later generation.\<close>

definition issued :: "('t, 'm, 'c) world \<Rightarrow> entity \<Rightarrow> bool" where
  "issued W e \<longleftrightarrow> slot e < length (w_generations W)
     \<and> (world_valid W e \<or> ent_generation e < w_generations W ! slot e)"

subsection \<open>Slots\<close>

lemma slots_okD:
  assumes "slots_ok W"
  shows "length (w_alive W) = length (w_generations W)" "distinct (w_free W)"
    and "i < length (w_generations W) \<Longrightarrow> w_generations W ! i \<noteq> 0"
    and "i < length (w_generations W) \<Longrightarrow> \<not> w_alive W ! i \<Longrightarrow> w_generations W ! i \<noteq> 1"
    and "j \<in> set (w_free W) \<Longrightarrow> unat j < length (w_generations W) \<and> \<not> w_alive W ! unat j"
  using assms by (auto simp: slots_ok_def)

lemma live_one: "e \<in> live W \<Longrightarrow> f \<in> live W \<Longrightarrow> ent_index e = ent_index f \<Longrightarrow> e = f"
  by (auto simp: world_valid_def entity.expand)

lemma slots_use:
  assumes "length as = length gs"
    and "\<forall>i < length gs. gs ! i \<noteq> (0 :: u32) \<and> (\<not> as ! i \<longrightarrow> gs ! i \<noteq> 1)"
  shows "length gs \<le> sum_list (map (\<lambda>g. unat g - 1) gs) + length (filter (\<lambda>a. a) as)"
  using assms
proof (induction rule: list_induct2)
  case (Cons a as g gs)
  have IH: "length gs \<le> sum_list (map (\<lambda>g. unat g - 1) gs) + length (filter (\<lambda>a. a) as)"
    using Cons.prems by (intro Cons.IH) fastforce
  have g: "g \<noteq> 0" "\<not> a \<longrightarrow> g \<noteq> 1" using Cons.prems by force+
  have "1 \<le> (unat g - 1) + (if a then 1 else 0)"
  proof (cases a)
    case False
    with g have "unat g \<noteq> 0" "unat g \<noteq> 1" by (simp_all add: word_unat_eq_iff)
    then show ?thesis by simp
  qed simp
  with IH show ?case by auto
qed simp

lemma slots_length: "slots_ok W \<Longrightarrow> length (w_generations W) \<le> world_use W"
  unfolding world_use_def by (rule slots_use) (auto simp: slots_ok_def)

lemma generation_use: "i < length (w_generations W) \<Longrightarrow> unat (w_generations W ! i) - 1 \<le> world_use W"
  using member_le_sum_list [of "unat (w_generations W ! i) - 1" "map (\<lambda>g. unat g - 1) (w_generations W)"]
  by (simp add: world_use_def)

lemma alive_use:
  assumes "i < length (w_generations W)" and "i < length (w_alive W)" and "w_alive W ! i"
  shows "unat (w_generations W ! i) \<le> world_use W"
proof -
  have "w_alive W ! i \<in> set (filter (\<lambda>a. a) (w_alive W))" using nth_mem [OF assms(2)] assms(3) by simp
  then have "0 < length (filter (\<lambda>a. a) (w_alive W))" by (metis length_pos_if_in_set)
  moreover have "unat (w_generations W ! i) - 1 \<le> sum_list (map (\<lambda>g. unat g - 1) (w_generations W))"
    using member_le_sum_list [of "unat (w_generations W ! i) - 1" "map (\<lambda>g. unat g - 1) (w_generations W)"]
      assms(1) by simp
  ultimately show ?thesis unfolding world_use_def by linarith
qed

lemma filter_id_set: "i < length as \<Longrightarrow> \<not> as ! i \<Longrightarrow> length (filter (\<lambda>a. a) (as[i := True])) = Suc (length (filter (\<lambda>a. a) as))"
  by (induction as arbitrary: i) (auto split: nat.splits)

lemma filter_id_clear: "i < length as \<Longrightarrow> as ! i \<Longrightarrow> Suc (length (filter (\<lambda>a. a) (as[i := False]))) = length (filter (\<lambda>a. a) as)"
  by (induction as arbitrary: i) (auto split: nat.splits)

lemma sum_generation:
  "i < length gs \<Longrightarrow> sum_list (map (\<lambda>g. unat (g :: u32) - 1) (gs[i := h])) + (unat (gs ! i) - 1)
    = sum_list (map (\<lambda>g. unat g - 1) gs) + (unat h - 1)"
  by (induction gs arbitrary: i) (auto split: nat.splits)

text \<open>A new entity was not live, and is the one that is live in addition.\<close>

lemma create_facts:
  assumes ok: "slots_ok W" and left: "handles_left (Suc n) W" and make: "world_create W = (e, W')"
  shows "slots_ok W'" "handles_left n W'" "e \<notin> live W" "live W' = insert e (live W)"
    and "ent_generation e = w_generations W' ! slot e" "slot e < length (w_generations W')"
    and "w_parents W' = w_parents W \<and> w_children W' = w_children W \<and> w_transforms W' = w_transforms W
      \<and> w_matrices W' = w_matrices W \<and> w_pools W' = w_pools W \<and> w_pending W' = w_pending W
      \<and> w_view_depth W' = w_view_depth W"
    and "\<And>i. i < length (w_generations W) \<Longrightarrow> w_generations W' ! i = w_generations W ! i"
    and "length (w_generations W) \<le> length (w_generations W')"
proof -
  have len: "length (w_generations W) < 2 ^ 32 - 2"
    using slots_length [OF ok] left by (simp add: handles_left_def)
  have "slots_ok W' \<and> handles_left n W' \<and> e \<notin> live W \<and> live W' = insert e (live W)
    \<and> ent_generation e = w_generations W' ! slot e \<and> slot e < length (w_generations W')
    \<and> (w_parents W' = w_parents W \<and> w_children W' = w_children W \<and> w_transforms W' = w_transforms W
      \<and> w_matrices W' = w_matrices W \<and> w_pools W' = w_pools W \<and> w_pending W' = w_pending W
      \<and> w_view_depth W' = w_view_depth W)
    \<and> (\<forall>i < length (w_generations W). w_generations W' ! i = w_generations W ! i)
    \<and> length (w_generations W) \<le> length (w_generations W')"
  proof (cases "w_free W = []")
    case False
    define i where "i = last (w_free W)"
    have "i \<in> set (w_free W)" using False by (simp add: i_def)
    from slots_okD(5) [OF ok this] have i: "unat i < length (w_generations W)" "\<not> w_alive W ! unat i" by auto
    have W': "e = Entity i (w_generations W ! unat i)"
      "W' = W\<lparr>w_free := butlast (w_free W), w_alive := (w_alive W)[unat i := True]\<rparr>"
      using make False by (simp_all add: world_create_def i_def Let_def)
    have free: "distinct (butlast (w_free W))" "i \<notin> set (butlast (w_free W))" "set (butlast (w_free W)) \<subseteq> set (w_free W)"
      using slots_okD(2) [OF ok] append_butlast_last_id [OF False] 
      by (metis distinct_append i_def, metis distinct_append disjoint_insert(1) i_def list.simps(15), meson in_set_butlastD subsetI)
    have "slots_ok W'"
      unfolding slots_ok_def
    proof (intro conjI allI impI ballI)
      fix j assume "j \<in> set (w_free W')"
      then have j: "j \<in> set (w_free W)" "j \<noteq> i" using free W'(2) by auto
      then have "unat j \<noteq> unat i" by (simp add: word_unat_eq_iff)
      with slots_okD(5) [OF ok j(1)] show "unat j < length (w_generations W')" "\<not> w_alive W' ! unat j"
        by (simp_all add: W'(2))
    qed (use slots_okD [OF ok] free(1) i in \<open>auto simp: W'(2) nth_list_update split: if_splits\<close>)
    moreover have "world_use W' = Suc (world_use W)"
      using filter_id_set [of "unat i" "w_alive W"] i slots_okD(1) [OF ok] by (simp add: world_use_def W'(2))
    moreover have "live W' = insert e (live W)"
      using i slots_okD(1) [OF ok]
      by (auto simp: world_valid_def W' nth_list_update word_unat_eq_iff entity.expand split: if_splits)
    ultimately show ?thesis
      using i left by (auto simp: W' world_valid_def handles_left_def)
  next
    case True
    define i where "i = (of_nat (length (w_generations W)) :: u32)"
    have i: "unat i = length (w_generations W)" unfolding i_def by (rule unat_place) (use len in simp)
    have W': "e = Entity i 1" "W' = W\<lparr>w_generations := w_generations W @ [1], w_alive := w_alive W @ [True]\<rparr>"
      using make True by (simp_all add: world_create_def i_def Let_def)
    have "slots_ok W'"
      using slots_okD [OF ok] True by (auto simp: slots_ok_def W'(2) nth_append less_Suc_eq)
    moreover have "world_use W' = Suc (world_use W)" by (simp add: world_use_def W'(2))
    moreover have "x \<in> live W' \<longleftrightarrow> x = e \<or> x \<in> live W" for x
    proof (cases "slot x = length (w_generations W)")
      case True
      then have "ent_index x = i" using i by (simp add: word_unat_eq_iff)
      then show ?thesis
        using True slots_okD(1) [OF ok] by (cases x) (auto simp: world_valid_def W' nth_append)
    next
      case False
      then show ?thesis using i slots_okD(1) [OF ok] by (auto simp: world_valid_def W' nth_append)
    qed
    then have "live W' = insert e (live W)" by blast
    ultimately show ?thesis
      using i left slots_okD(1) [OF ok] by (auto simp: W' world_valid_def handles_left_def nth_append)
  qed
  then show "slots_ok W'" "handles_left n W'" "e \<notin> live W" "live W' = insert e (live W)"
    and "ent_generation e = w_generations W' ! slot e" "slot e < length (w_generations W')"
    and "w_parents W' = w_parents W \<and> w_children W' = w_children W \<and> w_transforms W' = w_transforms W
      \<and> w_matrices W' = w_matrices W \<and> w_pools W' = w_pools W \<and> w_pending W' = w_pending W
      \<and> w_view_depth W' = w_view_depth W"
    and "\<And>i. i < length (w_generations W) \<Longrightarrow> w_generations W' ! i = w_generations W ! i"
    and "length (w_generations W) \<le> length (w_generations W')"
    by blast+
qed

lemma next_generation_unat: "unat g < 2 ^ 32 - 1 \<Longrightarrow> unat (next_generation g) = Suc (unat g)"
  using unat_succ [of g] by (simp add: next_generation_def) (metis nat.distinct(1) unat_0)

subsection \<open>Releasing\<close>

lemma pool_liveD: "pool_live V p \<Longrightarrow> pool_ok p" "pool_live V p \<Longrightarrow> pool_get p e = Some v \<Longrightarrow> e \<in> V"
  by (auto simp: pool_live_def)

lemma pool_live_remove: "pool_live V p \<Longrightarrow> pool_live (V - {e}) (pool_remove e p)"
  by (auto simp: pool_live_def pool_remove_ok split: if_splits)

lemma pool_live_mono: "pool_live V p \<Longrightarrow> V \<subseteq> U \<Longrightarrow> pool_live U p"
  by (auto simp: pool_live_def)

lemma pools_liveD:
  assumes "pools_live V W"
  shows "pool_live V (w_parents W)" "pool_live V (w_children W)" "pool_live V (w_transforms W)"
    "pool_live V (w_matrices W)" "(ty, p) \<in> set (w_pools W) \<Longrightarrow> pool_live V p"
  using assms by (force simp: pools_live_def)+

lemma release_facts:
  assumes ok: "slots_ok W" and left: "handles_left n W" and e: "e \<in> live W" and pools: "pools_live (live W) W"
  shows "slots_ok (world_release e W)" "handles_left n (world_release e W)"
    "live (world_release e W) = live W - {e}"
    "pools_live (live W - {e}) (world_release e W)"
proof -
  let ?W = "world_release e W" and ?i = "slot e"
  have i: "?i < length (w_generations W)" "w_alive W ! ?i" "w_generations W ! ?i = ent_generation e"
    using e slots_okD(1) [OF ok] by (auto simp: world_valid_def)
  have small: "unat (w_generations W ! ?i) < 2 ^ 32 - 1"
    using alive_use [OF i(1) _ i(2)] i(1) slots_okD(1) [OF ok] left by (simp add: handles_left_def)
  have g: "unat (next_generation (w_generations W ! ?i)) = Suc (unat (w_generations W ! ?i))"
    by (rule next_generation_unat [OF small])
  have pos: "unat (w_generations W ! ?i) \<noteq> 0" using slots_okD(3) [OF ok i(1)] by (simp add: word_unat_eq_iff)
  have new: "next_generation (w_generations W ! ?i) \<noteq> 0" "next_generation (w_generations W ! ?i) \<noteq> 1"
    using g pos by (auto simp: word_unat_eq_iff)
  have free: "ent_index e \<notin> set (w_free W)" using slots_okD(5) [OF ok] i(2) by blast
  show "slots_ok ?W"
    unfolding slots_ok_def
  proof (intro conjI allI impI ballI)
    fix j assume "j \<in> set (w_free ?W)"
    then show "unat j < length (w_generations ?W)" "\<not> w_alive ?W ! unat j"
      using slots_okD(1,5) [OF ok] i by (auto simp: world_release_def nth_list_update)
  qed (use slots_okD [OF ok] new free i in \<open>auto simp: world_release_def nth_list_update split: if_splits\<close>)
  have "world_use ?W = world_use W"
    using sum_generation [OF i(1), of "next_generation (w_generations W ! ?i)"] g pos
      filter_id_clear [of ?i "w_alive W"] i slots_okD(1) [OF ok]
    by (simp add: world_use_def world_release_def)
  with left show "handles_left n ?W" by (simp add: handles_left_def)
  have "x \<in> live ?W \<longleftrightarrow> x \<in> live W - {e}" for x
  proof (cases "slot x = ?i")
    case True
    then have "ent_index x = ent_index e" by (simp add: word_unat_eq_iff)
    moreover from this have "x \<in> live W \<longleftrightarrow> x = e" using live_one [of x W e] e by blast
    ultimately show ?thesis using True i slots_okD(1) [OF ok] by (auto simp: world_valid_def world_release_def)
  next
    case False
    then show ?thesis by (auto simp: world_valid_def world_release_def)
  qed
  then show "live ?W = live W - {e}" by blast
  show "pools_live (live W - {e}) ?W"
    using pools_liveD(1-4) [OF pools]
    by (auto simp: pools_live_def world_release_def intro!: pool_live_remove intro: pools_liveD(5) [OF pools])
qed

lemma release_issued:
  assumes ok: "slots_ok W" and left: "handles_left n W" and e: "e \<in> live W" and x: "issued W x"
  shows "issued (world_release e W) x"
proof (cases "slot x = slot e")
  case True
  have i: "slot e < length (w_generations W)" "w_alive W ! slot e" "w_generations W ! slot e = ent_generation e"
    using e slots_okD(1) [OF ok] by (auto simp: world_valid_def)
  have "unat (w_generations W ! slot e) < 2 ^ 32 - 1"
    using alive_use [OF i(1) _ i(2)] i(1) slots_okD(1) [OF ok] left by (simp add: handles_left_def)
  then have "w_generations W ! slot e < next_generation (w_generations W ! slot e)"
    by (simp add: word_less_nat_alt next_generation_unat)
  moreover have "ent_generation x \<le> w_generations W ! slot e"
    using x True by (auto simp: issued_def world_valid_def)
  ultimately have "ent_generation x < next_generation (w_generations W ! slot e)" by order
  then show ?thesis using i True by (simp add: issued_def world_release_def)
next
  case False
  then show ?thesis using x by (auto simp: issued_def world_release_def world_valid_def)
qed

lemma release_sel:
  assumes "pools_live V W"
  shows "par (world_release e W) = (par W)(e := None)" "kids (world_release e W) = (kids W)(e := None)"
    "pool_get (w_transforms (world_release e W)) = (pool_get (w_transforms W))(e := None)"
    "pool_get (w_matrices (world_release e W)) = (pool_get (w_matrices W))(e := None)"
    "w_pending (world_release e W) = w_pending W" "w_view_depth (world_release e W) = w_view_depth W"
  using pools_liveD [OF assms] by (simp_all add: world_release_def pool_remove_ok pool_live_def)

lemma release_all:
  assumes "slots_ok W" and "handles_left n W" and "distinct ds" and "set ds \<subseteq> live W"
    and "pools_live (live W) W"
  shows "slots_ok (fold world_release ds W) \<and> handles_left n (fold world_release ds W)
    \<and> live (fold world_release ds W) = live W - set ds
    \<and> pools_live (live W - set ds) (fold world_release ds W)
    \<and> par (fold world_release ds W) = par W |` (- set ds)
    \<and> kids (fold world_release ds W) = kids W |` (- set ds)
    \<and> w_pending (fold world_release ds W) = w_pending W
    \<and> w_view_depth (fold world_release ds W) = w_view_depth W
    \<and> (\<forall>x. issued W x \<longrightarrow> issued (fold world_release ds W) x)"
  using assms
proof (induction ds arbitrary: W)
  case (Cons e ds)
  have e: "e \<in> live W" using Cons.prems by simp
  note facts = release_facts [OF Cons.prems(1,2) e Cons.prems(5)]
  have ds: "set ds \<subseteq> live (world_release e W)" "distinct ds" using Cons.prems facts(3) by auto
  have "pools_live (live (world_release e W)) (world_release e W)" using facts(3,4) by simp
  note IH = Cons.IH [OF facts(1,2) ds(2,1) this]
  have left: "live W - {e} - set ds = live W - set (e # ds)" by auto
  have cut: "f(e := None) |` (- set ds) = f |` (- set (e # ds))" for f :: "entity \<Rightarrow> 'x option"
    by (auto simp: restrict_map_def)
  note old = release_issued [OF Cons.prems(1,2) e]
  show ?case
    using IH old unfolding fold_Cons comp_apply facts(3) release_sel [OF Cons.prems(5)] left cut by blast
qed (auto simp: restrict_map_def)

end
