(* ===== verification/World_Destroy.thy ===== *)
theory World_Destroy
  imports World_Inv
begin

section \<open>Destroying entities\<close>

text \<open>
  The walk of \<open>destroy_immediate\<close> returns and finds exactly the entities at and below the one it starts
  from, each once, so that destroying an entity takes its subtree out of the world and leaves the rest.
\<close>

text \<open>A walk that replaces an entity by its children goes down in the multiset of the heights below 33.\<close>

definition heights_left :: "(entity \<Rightarrow> nat) \<Rightarrow> entity list \<Rightarrow> nat multiset" where
  "heights_left d todo = mset (map (\<lambda>n. kMaxHierarchyDepth + 1 - d n) todo)"

lemma heights_left_less:
  assumes "depths P d" and "\<And>c. c \<in> set cs \<Longrightarrow> P c = Some n"
  shows "(heights_left d (rest @ cs), heights_left d (n # rest)) \<in> mult less_than"
proof -
  let ?h = "\<lambda>n. kMaxHierarchyDepth + 1 - d n"
  have "(mset (map ?h rest) + mset (map ?h cs), mset (map ?h rest) + {#?h n#}) \<in> mult less_than"
  proof (rule one_step_implies_mult)
    show "\<forall>k \<in># mset (map ?h cs). \<exists>j \<in># {#?h n#}. (k, j) \<in> less_than"
      using depthsD(2,3) [OF assms(1) assms(2)] by fastforce
  qed simp
  then show ?thesis by (simp add: heights_left_def)
qed

definition apart :: "(entity \<Rightarrow> entity option) \<Rightarrow> entity list \<Rightarrow> entity list \<Rightarrow> bool" where
  "apart P walked todo \<longleftrightarrow> distinct (walked @ todo)
     \<and> (\<forall>x \<in> set (walked @ todo). \<forall>y \<in> set todo. x \<in> subtree P y \<longrightarrow> x = y)"

lemma apart_step:
  assumes "depths P d" and "apart P walked (n # rest)" and "distinct cs" and cs: "\<And>c. c \<in> set cs \<Longrightarrow> P c = Some n"
  shows "apart P (walked @ [n]) (rest @ cs)"
proof -
  have n: "c \<in> subtree P n" "c \<noteq> n" "n \<notin> subtree P c" if "c \<in> set cs" for c
  proof -
    show up: "c \<in> subtree P n" using cs [OF that] subtree_self by (rule subtree_step)
    show "n \<notin> subtree P c" by (rule no_circle [OF assms(1) cs [OF that]])
    then show "c \<noteq> n" by auto
  qed
  have new: "c \<notin> set (walked @ n # rest)" if "c \<in> set cs" for c
    using assms(2) n(1,2) [OF that] by (auto simp: apart_def)
  have "distinct ((walked @ [n]) @ rest @ cs)"
    using assms(2,3) new by (auto simp: apart_def)
  moreover have "x = y" if x: "x \<in> set ((walked @ [n]) @ rest @ cs)" and y: "y \<in> set (rest @ cs)"
    and xy: "x \<in> subtree P y" for x y
  proof (rule ccontr)
    assume ne: "x \<noteq> y"
    show False
    proof (cases "y \<in> set cs")
      case True
      then have xn: "x \<in> subtree P n" using subtree_trans [OF xy n(1)] by blast
      show False
      proof (cases "x \<in> set cs")
        case x_child: True
        obtain p where "P x = Some p" "p \<in> subtree P y" using xy ne by (rule subtree_up)
        then show False using cs [OF x_child] n(3) [OF True] by simp
      next
        case False
        then have "x = n" using assms(2) x xn by (auto simp: apart_def)
        then show False using n(3) [OF True] xy by simp
      qed
    next
      case False
      then have y': "y \<in> set rest" using y by simp
      show False
      proof (cases "x \<in> set cs")
        case x_child: True
        obtain p where "P x = Some p" "p \<in> subtree P y" using xy ne by (rule subtree_up)
        then have "n \<in> subtree P y" using cs [OF x_child] by simp
        then have "n = y" using assms(2) y' by (auto simp: apart_def)
        then show False using assms(2) y' by (auto simp: apart_def)
      next
        case False
        then show False using assms(2) x xy ne y' by (auto simp: apart_def)
      qed
    qed
  qed
  ultimately show ?thesis unfolding apart_def by blast
qed

lemma doomed_children_kids:
  assumes fam: "family (live W) (par W) K" and "kids W n = K n"
  shows "doomed_children W n = (case K n of None \<Rightarrow> [] | Some l \<Rightarrow> l)"
    and "distinct (doomed_children W n)" and "c \<in> set (doomed_children W n) \<Longrightarrow> par W c = Some n"
proof -
  show "doomed_children W n = (case K n of None \<Rightarrow> [] | Some l \<Rightarrow> l)"
  proof (cases "K n")
    case (Some l)
    have "world_valid W c \<and> par W c = Some n" if "c \<in> set l" for c
      using familyD [OF fam] Some that by blast
    with Some assms(2) show ?thesis by (simp add: doomed_children_def)
  qed (simp add: doomed_children_def assms(2))
  then show "distinct (doomed_children W n)" "c \<in> set (doomed_children W n) \<Longrightarrow> par W c = Some n"
    using familyD(2) [OF fam, of n] by (auto split: option.splits)
qed

lemma doomed_loop_finds:
  assumes d: "depths (par W) d" and fam: "family (live W) (par W) K"
    and same: "\<And>n. n \<in> subtree (par W) e \<Longrightarrow> kids W n = K n"
  shows "apart (par W) walked todo \<Longrightarrow> set todo \<subseteq> subtree (par W) e \<Longrightarrow>
    \<exists>ds. doomed_loop W walked todo = Some ds \<and> distinct ds
      \<and> set ds = set walked \<union> (\<Union>n \<in> set todo. subtree (par W) n)"
proof (induction todo arbitrary: walked rule: wf_induct_rule [OF wf_inv_image [OF wf_mult [OF wf_less_than], of "heights_left d"]])
  case (1 todo)
  show ?case
  proof (cases todo)
    case Nil
    then show ?thesis using 1(2) by (simp add: doomed_loop.simps apart_def)
  next
    case (Cons n rest)
    then have n: "n \<in> subtree (par W) e" using 1(3) by simp
    note cs = doomed_children_kids [OF fam same [OF n]]
    let ?todo = "rest @ doomed_children W n"
    have "(?todo, todo) \<in> inv_image (mult less_than) (heights_left d)"
      using heights_left_less [OF d cs(3)] Cons by simp
    moreover have "apart (par W) (walked @ [n]) ?todo"
      using 1(2) Cons apart_step [OF d _ cs(2,3)] by blast
    moreover have "c \<in> subtree (par W) e" if "c \<in> set (doomed_children W n)" for c
      using cs(3) [OF that] n by (rule subtree_step)
    then have "set ?todo \<subseteq> subtree (par W) e" using 1(3) Cons by auto
    ultimately have "\<exists>ds. doomed_loop W (walked @ [n]) ?todo = Some ds \<and> distinct ds
      \<and> set ds = set (walked @ [n]) \<union> (\<Union>n \<in> set ?todo. subtree (par W) n)" by (rule 1(1))
    then obtain ds where ds: "doomed_loop W (walked @ [n]) ?todo = Some ds" "distinct ds"
      "set ds = set (walked @ [n]) \<union> (\<Union>n \<in> set ?todo. subtree (par W) n)" by (elim exE conjE)
    have tree: "subtree (par W) n = insert n (\<Union>c \<in> set (doomed_children W n). subtree (par W) c)"
      unfolding cs(1) by (rule subtree_children [OF fam])
    have "set ds = set walked \<union> (\<Union>n \<in> set todo. subtree (par W) n)"
      unfolding ds(3) Cons set_append list.set UN_Un UN_insert tree by blast
    moreover have "doomed_loop W walked todo = doomed_loop W (walked @ [n]) ?todo"
      by (subst doomed_loop.simps) (simp add: Cons)
    ultimately show ?thesis using ds(1,2) by auto
  qed
qed

subsection \<open>Leaving the parent\<close>

lemma drop_child_sel [simp]:
  "w_generations (drop_child c p W) = w_generations W" "w_alive (drop_child c p W) = w_alive W"
  "w_free (drop_child c p W) = w_free W" "w_parents (drop_child c p W) = w_parents W"
  "w_transforms (drop_child c p W) = w_transforms W" "w_matrices (drop_child c p W) = w_matrices W"
  "w_pools (drop_child c p W) = w_pools W" "w_pending (drop_child c p W) = w_pending W"
  "w_view_depth (drop_child c p W) = w_view_depth W"
  by (simp_all add: drop_child_def Let_def split: option.splits)

lemma world_valid_cong:
  "w_generations W' = w_generations W \<Longrightarrow> w_alive W' = w_alive W \<Longrightarrow> world_valid W' = world_valid W"
  by (simp add: world_valid_def fun_eq_iff)

lemma slots_cong:
  "w_generations W' = w_generations W \<Longrightarrow> w_alive W' = w_alive W \<Longrightarrow> w_free W' = w_free W
    \<Longrightarrow> slots_ok W' = slots_ok W \<and> handles_left n W' = handles_left n W"
  by (simp add: slots_ok_def handles_left_def world_use_def)

lemma drop_child_kids:
  assumes "pool_ok (w_children W)"
  shows "pool_ok (w_children (drop_child c p W))" "kids (drop_child c p W) = kids_without c p (kids W)"
proof -
  have "pool_ok (w_children (drop_child c p W)) \<and> kids (drop_child c p W) = kids_without c p (kids W)"
  proof (cases "kids W p")
    case None
    with assms show ?thesis by (simp add: drop_child_def kids_without_def)
  next
    case (Some l)
    then show ?thesis
      using pool_put_get [OF assms, of p "removeAll c l"] assms
      by (auto simp: drop_child_def kids_without_def Let_def pool_remove_ok)
  qed
  then show "pool_ok (w_children (drop_child c p W))" "kids (drop_child c p W) = kids_without c p (kids W)" by auto
qed

lemma kids_without_dom: "dom (kids_without c p K) \<subseteq> dom K"
  by (auto simp: kids_without_get split: if_splits option.splits)

lemma drop_child_pools:
  assumes "pools_live V W" shows "pools_live V (drop_child c p W)"
proof -
  have "pool_live V (w_children W)" by (rule pools_liveD [OF assms])
  then have "pool_live V (w_children (drop_child c p W))"
    using drop_child_kids [of W c p] subset_trans [OF kids_without_dom [of c p "kids W"], of V]
    by (simp add: pool_live_def)
  with assms show ?thesis by (simp add: pools_live_def)
qed

subsection \<open>The subtree goes\<close>

lemma world_okD:
  assumes "world_ok n W"
  shows "slots_ok W" "handles_left n W" "pools_live (live W) W" "forest (live W) (par W) (kids W)"
  using assms by (simp_all add: world_ok_def)

lemma destroy_immediate_ok:
  assumes ok: "world_ok n W" and e: "world_valid W e"
  shows "\<exists>W'. destroy_immediate e W = Some W' \<and> world_ok n W' \<and> live W' = live W - subtree (par W) e
    \<and> par W' = par W |` (- subtree (par W) e) \<and> w_pending W' = w_pending W \<and> w_view_depth W' = w_view_depth W
    \<and> (\<forall>x. issued W x \<longrightarrow> issued W' x)"
proof -
  note okD = world_okD [OF ok]
  define W1 where "W1 = (case par W e of None \<Rightarrow> W | Some p \<Rightarrow> drop_child e p W)"
  define K where "K = (case par W e of None \<Rightarrow> kids W | Some p \<Rightarrow> kids_without e p (kids W))"
  have same: "w_generations W1 = w_generations W" "w_alive W1 = w_alive W" "w_free W1 = w_free W"
    "w_parents W1 = w_parents W" "w_pending W1 = w_pending W" "w_view_depth W1 = w_view_depth W"
    by (simp_all add: W1_def split: option.splits)
  have live: "live W1 = live W" using world_valid_cong [OF same(1,2)] by simp
  have kids: "kids W1 = K"
    using drop_child_kids [of W e] pool_liveD(1) [OF pools_liveD(2) [OF okD(3)]]
    by (simp add: W1_def K_def split: option.splits)
  have pools: "pools_live (live W1) W1"
    using okD(3) drop_child_pools [OF okD(3)] unfolding live by (simp add: W1_def split: option.splits)
  obtain d where d: "depths (par W) d" and fam: "family (live W) (par W) (kids W)"
    using okD(4) by (auto simp: forest_def)
  have keep: "kids W1 x = kids W x" if x: "x \<in> subtree (par W1) e" for x
  proof (cases "par W e")
    case (Some p)
    then have "x \<noteq> p" using no_circle [OF d Some] x by (auto simp: same)
    then show ?thesis using Some by (simp add: kids K_def kids_without_get)
  qed (simp add: kids K_def)
  have d1: "depths (par W1) d" and fam1: "family (live W1) (par W1) (kids W)"
    using d fam live by (simp_all add: same)
  have "apart (par W1) [] [e]" by (simp add: apart_def)
  then have "\<exists>ds. doomed_loop W1 [] [e] = Some ds \<and> distinct ds
      \<and> set ds = set [] \<union> (\<Union>n \<in> set [e]. subtree (par W1) n)"
    by (intro doomed_loop_finds [OF d1 fam1, of e] keep) auto
  then obtain ds where ds: "doomed_loop W1 [] [e] = Some ds" "distinct ds" "set ds = subtree (par W) e"
    by (auto simp: same)
  have sub: "set ds \<subseteq> live W1"
  proof
    fix x assume "x \<in> set ds"
    then show "x \<in> live W1"
      unfolding live ds(3) using e familyD(1) [OF fam, of x] by (cases "x = e") (auto elim: subtree_up)
  qed
  have "slots_ok W1" "handles_left n W1" using slots_cong [OF same(1-3)] okD(1,2) by simp_all
  from release_all [OF this ds(2) sub pools] have all: "slots_ok (fold world_release ds W1) \<and> handles_left n (fold world_release ds W1)
    \<and> live (fold world_release ds W1) = live W - subtree (par W) e
    \<and> pools_live (live W - subtree (par W) e) (fold world_release ds W1)
    \<and> par (fold world_release ds W1) = par W |` (- subtree (par W) e)
    \<and> kids (fold world_release ds W1) = K |` (- subtree (par W) e)
    \<and> w_pending (fold world_release ds W1) = w_pending W \<and> w_view_depth (fold world_release ds W1) = w_view_depth W
    \<and> (\<forall>x. issued W1 x \<longrightarrow> issued (fold world_release ds W1) x)"
    unfolding ds(3) live kids same .
  moreover have "issued W1 = issued W"
    using world_valid_cong [OF same(1,2)] by (simp add: issued_def fun_eq_iff same)
  moreover have "destroy_immediate e W = Some (fold world_release ds W1)"
    using e ds(1) by (simp add: destroy_immediate_def W1_def)
  moreover have "forest (live W - subtree (par W) e) (par W |` (- subtree (par W) e)) (K |` (- subtree (par W) e))"
    unfolding K_def by (rule forest_destroy [OF okD(4)])
  ultimately show ?thesis unfolding world_ok_def by (intro exI [of _ "fold world_release ds W1"]) simp
qed

end
