(* ===== verification/Hierarchy.thy ===== *)
theory Hierarchy
  imports World_Destroy Float_Arith
begin

section \<open>The transform hierarchy\<close>

text \<open>
  \<open>src/src/ecs/hierarchy.cpp\<close>: parents and children, the world matrix of an entity by the slow path up its
  parents, and the propagation of all of them. The vectors are triples of a \<open>float\<close> arithmetic; matrices,
  quaternions and what GLM does with them are one argument of the definitions, of which nothing is assumed.
  The writes to the log are left out. The tops of the stacks are the heads of the lists.
\<close>

record 'f vector3 =
  comp_x :: 'f
  comp_y :: 'f
  comp_z :: 'f

record ('f, 'q) transform =
  tf_position :: "'f vector3"
  tf_rotation :: 'q
  tf_scale :: "'f vector3"

record ('f, 'q, 'm) glm =
  g_float :: "'f float_arith"
  g_identity :: 'm
  g_translate :: "'m \<Rightarrow> 'f vector3 \<Rightarrow> 'm"
  g_mat4_cast :: "'q \<Rightarrow> 'm"
  g_scale :: "'m \<Rightarrow> 'f vector3 \<Rightarrow> 'm"
  g_mul :: "'m \<Rightarrow> 'm \<Rightarrow> 'm"
  g_inverse :: "'m \<Rightarrow> 'm"
  g_column :: "'m \<Rightarrow> nat \<Rightarrow> 'f vector3"
  g_point :: "'m \<Rightarrow> 'f vector3 \<Rightarrow> 'f vector3"
  g_length :: "'f vector3 \<Rightarrow> 'f"
  g_dot :: "'f vector3 \<Rightarrow> 'f vector3 \<Rightarrow> 'f"
  g_cross :: "'f vector3 \<Rightarrow> 'f vector3 \<Rightarrow> 'f vector3"
  g_rotation :: "'f vector3 \<Rightarrow> 'f vector3 \<Rightarrow> 'f vector3 \<Rightarrow> 'q"

text \<open>
  \<open>g_column\<close> is the first three entries of a column, \<open>g_point\<close> those of the product with a point, and
  \<open>g_rotation\<close> the normalized quaternion of the matrix of three axes.
\<close>

type_synonym ('f, 'q, 'm, 'c) scene = "(('f, 'q) transform, 'm, 'c) world"

definition vec_over :: "'f float_arith \<Rightarrow> 'f vector3 \<Rightarrow> 'f \<Rightarrow> 'f vector3" where
  "vec_over F v s = \<lparr>comp_x = f_div F (comp_x v) s, comp_y = f_div F (comp_y v) s, comp_z = f_div F (comp_z v) s\<rparr>"

definition vec_times :: "'f float_arith \<Rightarrow> 'f \<Rightarrow> 'f vector3 \<Rightarrow> 'f vector3" where
  "vec_times F s v = \<lparr>comp_x = f_mul F s (comp_x v), comp_y = f_mul F s (comp_y v), comp_z = f_mul F s (comp_z v)\<rparr>"

definition vec_minus :: "'f float_arith \<Rightarrow> 'f vector3 \<Rightarrow> 'f vector3 \<Rightarrow> 'f vector3" where
  "vec_minus F u v = \<lparr>comp_x = f_sub F (comp_x u) (comp_x v), comp_y = f_sub F (comp_y u) (comp_y v),
     comp_z = f_sub F (comp_z u) (comp_z v)\<rparr>"

definition vec_neg :: "'f float_arith \<Rightarrow> 'f vector3 \<Rightarrow> 'f vector3" where
  "vec_neg F v = \<lparr>comp_x = f_neg F (comp_x v), comp_y = f_neg F (comp_y v), comp_z = f_neg F (comp_z v)\<rparr>"

definition model_matrix :: "('f, 'q, 'm) glm \<Rightarrow> ('f, 'q) transform \<Rightarrow> 'm" where
  "model_matrix G t = g_scale G
     (g_mul G (g_translate G (g_identity G) (tf_position t)) (g_mat4_cast G (tf_rotation t))) (tf_scale t)"

definition local_matrix :: "('f, 'q, 'm) glm \<Rightarrow> ('f, 'q, 'm, 'c) scene \<Rightarrow> entity \<Rightarrow> 'm" where
  "local_matrix G W e = (case pool_get (w_transforms W) e of Some t \<Rightarrow> model_matrix G t
     | None \<Rightarrow> g_identity G)"

definition live_parent :: "('t, 'm, 'c) world \<Rightarrow> entity \<Rightarrow> entity" where
  "live_parent W e = (case pool_get (w_parents W) e of None \<Rightarrow> null_entity
     | Some parent \<Rightarrow> if \<not> world_valid W parent then null_entity else parent)"

function height_loop :: "('t, 'm, 'c) world \<Rightarrow> nat \<Rightarrow> (entity \<times> nat) list \<Rightarrow> nat" where
  "height_loop W height [] = height"
| "height_loop W height ((node, level) # stack) =
     (let height = max height level in
      if kMaxHierarchyDepth < level then height
      else case pool_get (w_children W) node of None \<Rightarrow> height_loop W height stack
        | Some children \<Rightarrow>
            height_loop W height (rev (map (\<lambda>child. (child, level + 1)) children) @ stack))"
  by pat_completeness auto

definition levels_left :: "(entity \<times> nat) list \<Rightarrow> nat multiset" where
  "levels_left stack = mset (map (\<lambda>(node, level). kMaxHierarchyDepth + 1 - level) stack)"

lemma levels_left_less:
  assumes "level \<le> kMaxHierarchyDepth"
  shows "(levels_left (rev (map (\<lambda>child. (child, level + 1)) children) @ stack),
      levels_left ((node, level) # stack)) \<in> mult less_than"
proof -
  let ?K = "mset (map (\<lambda>child. kMaxHierarchyDepth + 1 - (level + 1)) children)"
  have "(levels_left stack + ?K, levels_left stack + {#kMaxHierarchyDepth + 1 - level#}) \<in> mult less_than"
    by (rule one_step_implies_mult) (use assms in auto)
  moreover have "levels_left (rev (map (\<lambda>child. (child, level + 1)) children) @ stack) = levels_left stack + ?K"
    by (simp add: levels_left_def image_mset.compositionality comp_def)
  moreover have "levels_left ((node, level) # stack) = levels_left stack + {#kMaxHierarchyDepth + 1 - level#}"
    by (simp add: levels_left_def)
  ultimately show ?thesis by simp
qed

termination height_loop
proof (relation "inv_image (mult less_than) (\<lambda>(W, height, stack). levels_left stack)")
  show "wf (inv_image (mult less_than) (\<lambda>(W, height, stack). levels_left stack))"
    by (intro wf_inv_image wf_mult wf_less_than)
next
  fix W :: "('t, 'm, 'c) world" and height node level stack h
  have "(levels_left stack + {#}, levels_left stack + {#kMaxHierarchyDepth + 1 - level#}) \<in> mult less_than"
    by (rule one_step_implies_mult) auto
  then show "((W, h, stack), W, height, (node, level) # stack)
      \<in> inv_image (mult less_than) (\<lambda>(W, height, stack). levels_left stack)"
    by (simp add: levels_left_def)
next
  fix W :: "('t, 'm, 'c) world" and height node level stack h children
  assume "\<not> kMaxHierarchyDepth < level"
  then show "((W, h, rev (map (\<lambda>child. (child, level + 1)) children) @ stack), W, height, (node, level) # stack)
      \<in> inv_image (mult less_than) (\<lambda>(W, height, stack). levels_left stack)"
    using levels_left_less by simp
qed

definition height_of :: "('t, 'm, 'c) world \<Rightarrow> entity \<Rightarrow> nat" where
  "height_of W e = height_loop W 0 [(e, 0)]"

definition detach_from_parent :: "entity \<Rightarrow> entity \<Rightarrow> ('t, 'm, 'c) world \<Rightarrow> ('t, 'm, 'c) world" where
  "detach_from_parent child parent W = drop_child child parent W"

definition decompose :: "('f, 'q, 'm) glm \<Rightarrow> 'm \<Rightarrow> ('f, 'q) transform" where
  "decompose G matrix =
     (let F = g_float G; eps = f_single F (f_frac F 1 100000000);
          a0 = g_column G matrix 0; a1 = g_column G matrix 1; a2 = g_column G matrix 2;
          scale = \<lparr>comp_x = g_length G a0, comp_y = g_length G a1, comp_z = g_length G a2\<rparr>;
          a0 = (if f_less F eps (comp_x scale) then vec_over F a0 (comp_x scale) else a0);
          a1 = (if f_less F eps (comp_y scale) then vec_over F a1 (comp_y scale) else a1);
          a2 = (if f_less F eps (comp_z scale) then vec_over F a2 (comp_z scale) else a2);
          mirrored = f_less F (g_dot G (g_cross G a0 a1) a2) (f_int F 0);
          scale = (if mirrored then scale\<lparr>comp_x := f_neg F (comp_x scale)\<rparr> else scale);
          a0 = (if mirrored then vec_neg F a0 else a0);
          y_axis = vec_minus F a1 (vec_times F (g_dot G a1 a0) a0);
          y_length = g_length G y_axis;
          proper = (f_less F eps (f_abs F (comp_x scale)) \<and> f_less F eps y_length);
          a1 = (if proper then vec_over F y_axis y_length else a1);
          a2 = (if proper then g_cross G a0 a1 else a2)
      in \<lparr>tf_position = g_column G matrix 3, tf_rotation = g_rotation G a0 a1 a2, tf_scale = scale\<rparr>)"

definition store_local :: "entity \<Rightarrow> 't \<Rightarrow> ('t, 'm, 'c) world \<Rightarrow> ('t, 'm, 'c) world" where
  "store_local e local W = W\<lparr>w_transforms :=
     (case pool_get (w_transforms W) e of Some _ \<Rightarrow> pool_put e local (w_transforms W)
      | None \<Rightarrow> pool_emplace e local (w_transforms W))\<rparr>"

text \<open>The way up: \<open>up\<close> is the next ancestor and \<open>steps\<close> counts those behind.\<close>

function matrix_up :: "('f, 'q, 'm) glm \<Rightarrow> ('f, 'q, 'm, 'c) scene \<Rightarrow> entity \<Rightarrow> nat \<Rightarrow> 'm \<Rightarrow> 'm" where
  "matrix_up G W up steps result =
     (if \<not> world_valid W up \<or> kMaxHierarchyDepth < steps + 1 then result
      else matrix_up G W (live_parent W up) (steps + 1) (g_mul G (local_matrix G W up) result))"
  by pat_completeness auto
termination
  by (relation "measure (\<lambda>(G, W, up, steps, result). kMaxHierarchyDepth - steps)") auto

declare matrix_up.simps [simp del]

definition compute_world_matrix :: "('f, 'q, 'm) glm \<Rightarrow> ('f, 'q, 'm, 'c) scene \<Rightarrow> entity \<Rightarrow> 'm" where
  "compute_world_matrix G W e = matrix_up G W (live_parent W e) 0 (local_matrix G W e)"

text \<open>The depth of the parent, or None where the child is above it or it is too deep.\<close>

function depth_up :: "('t, 'm, 'c) world \<Rightarrow> entity \<Rightarrow> entity \<Rightarrow> nat \<Rightarrow> nat option" where
  "depth_up W child up parent_depth =
     (if \<not> world_valid W up then Some parent_depth
      else if up = child \<or> kMaxHierarchyDepth < parent_depth + 1 then None
      else depth_up W child (live_parent W up) (parent_depth + 1))"
  by pat_completeness auto
termination
  by (relation "measure (\<lambda>(W, child, up, parent_depth). kMaxHierarchyDepth - parent_depth)") auto

declare depth_up.simps [simp del]

definition link_child :: "entity \<Rightarrow> entity \<Rightarrow> ('t, 'm, 'c) world \<Rightarrow> ('t, 'm, 'c) world" where
  "link_child child parent W =
     (let W1 = (case pool_get (w_parents W) child of
          Some current \<Rightarrow>
            (let W0 = detach_from_parent child current W in
             W0\<lparr>w_parents := pool_put child parent (w_parents W0)\<rparr>)
        | None \<Rightarrow> W\<lparr>w_parents := pool_emplace child parent (w_parents W)\<rparr>)
      in W1\<lparr>w_children := (case pool_get (w_children W1) parent of
             Some children \<Rightarrow> pool_put parent (children @ [child]) (w_children W1)
           | None \<Rightarrow> pool_emplace parent [child] (w_children W1))\<rparr>)"

definition set_parent :: "('f, 'q, 'm) glm \<Rightarrow> bool \<Rightarrow> entity \<Rightarrow> entity \<Rightarrow> ('f, 'q, 'm, 'c) scene
    \<Rightarrow> bool \<times> ('f, 'q, 'm, 'c) scene" where
  "set_parent G keep child parent W =
     (if \<not> world_valid W child \<or> \<not> world_valid W parent \<or> child = parent then (False, W)
      else if pool_get (w_parents W) child = Some parent then (True, W)
      else (case depth_up W child (live_parent W parent) 0 of None \<Rightarrow> (False, W)
        | Some parent_depth \<Rightarrow>
            if kMaxHierarchyDepth < parent_depth + 1 + height_of W child then (False, W)
            else
              (let child_world = (if keep then compute_world_matrix G W child else g_identity G);
                   W1 = link_child child parent W
               in (True, if keep then store_local child
                       (decompose G (g_mul G (g_inverse G (compute_world_matrix G W1 parent)) child_world)) W1
                     else W1))))"

definition clear_parent :: "('f, 'q, 'm) glm \<Rightarrow> bool \<Rightarrow> entity \<Rightarrow> ('f, 'q, 'm, 'c) scene
    \<Rightarrow> ('f, 'q, 'm, 'c) scene" where
  "clear_parent G keep child W =
     (if \<not> world_valid W child then W
      else (case pool_get (w_parents W) child of None \<Rightarrow> W
        | Some parent \<Rightarrow>
            (let child_world = (if keep then compute_world_matrix G W child else g_identity G);
                 W1 = detach_from_parent child parent W;
                 W2 = W1\<lparr>w_parents := pool_remove child (w_parents W1),
                         w_matrices := pool_remove child (w_matrices W1)\<rparr>
             in if keep then store_local child (decompose G child_world) W2 else W2)))"

definition world_matrix :: "('f, 'q, 'm) glm \<Rightarrow> ('f, 'q, 'm, 'c) scene \<Rightarrow> entity \<Rightarrow> 'm" where
  "world_matrix G W e = (case pool_get (w_matrices W) e of Some matrix \<Rightarrow> matrix
     | None \<Rightarrow> local_matrix G W e)"

definition world_position :: "('f, 'q, 'm) glm \<Rightarrow> ('f, 'q, 'm, 'c) scene \<Rightarrow> entity \<Rightarrow> 'f vector3" where
  "world_position G W e = g_column G (world_matrix G W e) 3"

definition set_world_position :: "('f, 'q, 'm) glm \<Rightarrow> entity \<Rightarrow> 'f vector3 \<Rightarrow> ('f, 'q, 'm, 'c) scene
    \<Rightarrow> ('f, 'q, 'm, 'c) scene" where
  "set_world_position G e position W =
     (case (if world_valid W e then pool_get (w_transforms W) e else None) of None \<Rightarrow> W
      | Some t \<Rightarrow>
          (let parent = live_parent W e in
           if \<not> world_valid W parent then
             W\<lparr>w_transforms := pool_put e (t\<lparr>tf_position := position\<rparr>) (w_transforms W)\<rparr>
           else W\<lparr>w_transforms := pool_put e (t\<lparr>tf_position :=
               g_point G (g_inverse G (compute_world_matrix G W parent)) position\<rparr>) (w_transforms W)\<rparr>))"

subsection \<open>The propagation\<close>

text \<open>A view over the pool of one type: its entities, and the world behind the view.\<close>

definition view_entities :: "'a pool \<Rightarrow> entity list" where
  "view_entities p = filter (pool_contains p) (pool_packed p)"

definition view_done :: "('t, 'm, 'c) world \<Rightarrow> ('t, 'm, 'c) world option" where
  "view_done W = end_view (begin_view W)"

definition store_matrix :: "entity \<Rightarrow> 'm \<Rightarrow> ('t, 'm, 'c) world \<Rightarrow> ('t, 'm, 'c) world" where
  "store_matrix e matrix W = W\<lparr>w_matrices :=
     (case pool_get (w_matrices W) e of Some _ \<Rightarrow> pool_put e matrix (w_matrices W)
      | None \<Rightarrow> pool_emplace e matrix (w_matrices W))\<rparr>"

partial_function (option) propagate :: "('f, 'q, 'm) glm \<Rightarrow> (entity \<times> 'm) list
    \<Rightarrow> ('f, 'q, 'm, 'c) scene \<Rightarrow> ('f, 'q, 'm, 'c) scene option" where
  "propagate G stack W =
     (case stack of [] \<Rightarrow> Some W
      | (node, matrix) # rest \<Rightarrow>
          (let followed = map (\<lambda>child. (child, g_mul G matrix (local_matrix G W child)))
                 (filter (\<lambda>child. pool_get (w_parents W) child = Some node)
                   (case pool_get (w_children W) node of None \<Rightarrow> [] | Some children \<Rightarrow> children))
           in propagate G (rev followed @ rest)
                (fold (\<lambda>(child, m). store_matrix child m) followed W)))"

fun propagate_roots :: "('f, 'q, 'm) glm \<Rightarrow> entity list \<Rightarrow> ('f, 'q, 'm, 'c) scene
    \<Rightarrow> ('f, 'q, 'm, 'c) scene option" where
  "propagate_roots G [] W = Some W"
| "propagate_roots G (e # roots) W =
     Option.bind (propagate G [(e, local_matrix G W e)] W) (propagate_roots G roots)"

definition update_world_transforms :: "('f, 'q, 'm) glm \<Rightarrow> ('f, 'q, 'm, 'c) scene
    \<Rightarrow> ('f, 'q, 'm, 'c) scene option" where
  "update_world_transforms G W =
     (let dead_parents = filter (\<lambda>e. case pool_get (w_parents W) e of None \<Rightarrow> False
            | Some parent \<Rightarrow> \<not> world_valid W parent) (view_entities (w_parents W)) in
      Option.bind (view_done W) (\<lambda>W.
      let W = W\<lparr>w_parents := fold pool_remove dead_parents (w_parents W)\<rparr>;
          stale = filter (\<lambda>e. pool_get (w_parents W) e = None) (view_entities (w_matrices W)) in
      Option.bind (view_done W) (\<lambda>W.
      let W = W\<lparr>w_matrices := fold pool_remove stale (w_matrices W)\<rparr>;
          roots = filter (\<lambda>e. pool_get (w_parents W) e = None) (view_entities (w_children W)) in
      Option.bind (view_done W) (propagate_roots G roots))))"

end
