(* ===== verification/Hierarchy_Inv.thy ===== *)
theory Hierarchy_Inv
  imports Hierarchy
begin

section \<open>The hierarchy keeps the world\<close>

text \<open>
  What the walks up and down the hierarchy compute in a world that is well formed, and that the operations on
  parents and on world matrices leave one: the parent and the children of an entity stay inverse to each other, no
  entity comes to stand above itself and none deeper than 32 below a root.
\<close>

subsection \<open>The parent, the depth and the height\<close>

lemma world_depths:
  assumes "world_ok n W"
  obtains d where "depths (par W) d" "family (live W) (par W) (kids W)"
  using world_okD(4) [OF assms] by (auto simp: forest_def)

lemma null_entity_invalid: "slots_ok W \<Longrightarrow> \<not> world_valid W null_entity"
  using slots_okD(1,3) [of W] by (auto simp: world_valid_def null_entity_def)

lemma live_parent_par:
  assumes "world_ok n W"
  shows "live_parent W e = (case par W e of None \<Rightarrow> null_entity | Some p \<Rightarrow> p)"
    and "world_valid W (live_parent W e) \<longleftrightarrow> par W e \<noteq> None"
proof -
  obtain d where fam: "family (live W) (par W) (kids W)" using world_depths [OF assms] by blast
  note none = null_entity_invalid [OF world_okD(1) [OF assms]]
  show "live_parent W e = (case par W e of None \<Rightarrow> null_entity | Some p \<Rightarrow> p)"
    "world_valid W (live_parent W e) \<longleftrightarrow> par W e \<noteq> None"
    using familyD(1) [OF fam, of e] none by (auto simp: live_parent_def split: option.split)
qed

lemma height_loop_above: "height \<le> height_loop W height stack"
  by (induction W height stack rule: height_loop.induct) (fastforce simp: Let_def split: option.split)+

lemma height_loop_covers:
  assumes d: "depths (par W) d" and fam: "family (live W) (par W) (kids W)"
  shows "height_loop W height stack \<le> kMaxHierarchyDepth \<Longrightarrow> (n, level) \<in> set stack \<Longrightarrow> x \<in> subtree (par W) n
    \<Longrightarrow> level + d x \<le> height_loop W height stack + d n"
proof (induction stack arbitrary: height n level rule:
    wf_induct_rule [OF wf_inv_image [OF wf_mult [OF wf_less_than], of levels_left]])
  case (1 stack)
  then obtain m k rest where stack: "stack = (m, k) # rest" by (cases stack) auto
  have k: "k \<le> kMaxHierarchyDepth"
    using 1(2) height_loop_above by (auto simp: stack Let_def split: if_splits)
  show ?case
  proof (cases "kids W m")
    case None
    have loop: "height_loop W height stack = height_loop W (max height k) rest" using k None by (simp add: stack)
    have "(levels_left rest + {#}, levels_left rest + {#kMaxHierarchyDepth + 1 - k#}) \<in> mult less_than"
      by (rule one_step_implies_mult) auto
    then have less: "(rest, stack) \<in> inv_image (mult less_than) levels_left" by (simp add: stack levels_left_def)
    show ?thesis
    proof (cases "(n, level) = (m, k)")
      case True
      then have "x = m" using 1(4) subtree_children [OF fam, of m] None by simp
      then show ?thesis using True height_loop_above [of "max height k" W rest] by (simp add: loop)
    next
      case False
      then have "(n, level) \<in> set rest" using 1(3) by (auto simp: stack)
      then show ?thesis using 1(1) [OF less _ _ 1(4)] 1(2) by (simp add: loop)
    qed
  next
    case (Some cs)
    let ?stack = "rev (map (\<lambda>c. (c, k + 1)) cs) @ rest"
    have loop: "height_loop W height stack = height_loop W (max height k) ?stack" using k Some by (simp add: stack)
    have less: "(?stack, stack) \<in> inv_image (mult less_than) levels_left"
      using levels_left_less [OF k] by (simp add: stack)
    note IH = 1(1) [OF less 1(2) [unfolded loop]]
    show ?thesis
    proof (cases "(n, level) = (m, k)")
      case True
      consider "x = m" | c where "c \<in> set cs" "x \<in> subtree (par W) c"
        using 1(4) True subtree_children [OF fam, of m] Some by auto
      then show ?thesis
      proof cases
        case 1
        then show ?thesis using True height_loop_above [of "max height k" W ?stack] by (simp add: loop)
      next
        case (2 c)
        have "par W c = Some m" using familyD(2) [OF fam Some] 2(1) by blast
        moreover have "(k + 1) + d x \<le> height_loop W (max height k) ?stack + d c"
          by (rule IH) (use 2 in auto)
        ultimately show ?thesis using True depthsD(2) [OF d, of c m] by (simp add: loop)
      qed
    next
      case False
      then have "(n, level) \<in> set ?stack" using 1(3) by (auto simp: stack)
      then show ?thesis unfolding loop by (rule IH [OF _ 1(4)])
    qed
  qed
qed

lemma height_of_covers:
  assumes "depths (par W) d" and "family (live W) (par W) (kids W)" and "height_of W e \<le> kMaxHierarchyDepth"
    and "x \<in> subtree (par W) e"
  shows "d x \<le> height_of W e + d e"
  using height_loop_covers [OF assms(1,2) assms(3) [unfolded height_of_def], of e 0 x] assms(4)
  by (simp add: height_of_def)

lemma depth_up_valid:
  assumes ok: "world_ok n W" and d: "depths (par W) d"
  shows "depth_up W c up k = Some m \<Longrightarrow> world_valid W up \<Longrightarrow> m = k + Suc (d up) \<and> up \<notin> subtree (par W) c"
proof (induction "d up" arbitrary: up k rule: less_induct)
  case less
  then have step: "up \<noteq> c" "depth_up W c (live_parent W up) (k + 1) = Some m"
    by (auto simp: depth_up.simps [of W c up k] split: if_splits)
  show ?case
  proof (cases "par W up")
    case None
    then have "m = k + 1" using step(2) live_parent_par [OF ok, of up] by (simp add: depth_up.simps)
    moreover have "up \<notin> subtree (par W) c" using None step(1) by (auto elim: subtree_up)
    ultimately show ?thesis using depthsD(1) [OF d None] by simp
  next
    case (Some p)
    then have "live_parent W up = p" "world_valid W p" using live_parent_par [OF ok, of up] by auto
    then have "m = k + 1 + Suc (d p)" "p \<notin> subtree (par W) c"
      using less.hyps [of p "k + 1"] step(2) depthsD(2) [OF d Some] by auto
    moreover from this have "up \<notin> subtree (par W) c" using Some step(1) by (auto elim: subtree_up)
    ultimately show ?thesis using depthsD(2) [OF d Some] by simp
  qed
qed

lemma depth_up_parent:
  assumes ok: "world_ok n W" and d: "depths (par W) d" and "depth_up W c (live_parent W p) 0 = Some k" and "c \<noteq> p"
  shows "k = d p" and "p \<notin> subtree (par W) c"
proof -
  have "k = d p \<and> p \<notin> subtree (par W) c"
  proof (cases "par W p")
    case None
    then show ?thesis
      using assms(3,4) live_parent_par [OF ok, of p] depthsD(1) [OF d None]
      by (auto simp: depth_up.simps elim: subtree_up)
  next
    case (Some q)
    then have q: "live_parent W p = q" "world_valid W q" using live_parent_par [OF ok, of p] by auto
    have "k = 0 + Suc (d q) \<and> q \<notin> subtree (par W) c"
      by (rule depth_up_valid [OF ok d]) (use assms(3) q in auto)
    then show ?thesis using depthsD(2) [OF d Some] Some assms(4) by (auto elim: subtree_up)
  qed
  then show "k = d p" "p \<notin> subtree (par W) c" by auto
qed

end
