(* ===== verification/Hierarchy_Ops.thy ===== *)
theory Hierarchy_Ops
  imports Hierarchy_Inv
begin

section \<open>The operations of the hierarchy\<close>

text \<open>
  Setting and clearing a parent, moving an entity to a position and storing a component leave a world that is well
  formed.
\<close>

lemma world_valid_upd [simp]:
  "world_valid (W\<lparr>w_parents := a\<rparr>) = world_valid W" "world_valid (W\<lparr>w_children := b\<rparr>) = world_valid W"
  "world_valid (W\<lparr>w_transforms := c\<rparr>) = world_valid W" "world_valid (W\<lparr>w_matrices := d\<rparr>) = world_valid W"
  "world_valid (W\<lparr>w_pools := f\<rparr>) = world_valid W" "world_valid (W\<lparr>w_pending := g\<rparr>) = world_valid W"
  "world_valid (W\<lparr>w_view_depth := h\<rparr>) = world_valid W"
  by (rule world_valid_cong; simp)+

text \<open>What the operations on components leave alone: the slots, and so the handles that are valid.\<close>

definition same_slots :: "('t, 'm, 'c) world \<Rightarrow> ('t, 'm, 'c) world \<Rightarrow> bool" where
  "same_slots W W' \<longleftrightarrow> w_generations W' = w_generations W \<and> w_alive W' = w_alive W \<and> w_free W' = w_free W
     \<and> w_pending W' = w_pending W \<and> w_view_depth W' = w_view_depth W"

lemma same_slotsD:
  assumes "same_slots W W'"
  shows "world_valid W' = world_valid W" "slots_ok W' = slots_ok W" "handles_left n W' = handles_left n W"
    "issued W' = issued W"
  using assms world_valid_cong [of W' W]
  by (simp_all add: same_slots_def slots_ok_def handles_left_def world_use_def issued_def fun_eq_iff)

lemma same_slots_refl [simp]: "same_slots W W"
  by (simp add: same_slots_def)

lemma same_slots_trans: "same_slots W W' \<Longrightarrow> same_slots W' W'' \<Longrightarrow> same_slots W W''"
  by (simp add: same_slots_def)

lemma world_ok_same:
  assumes "world_ok n W" and "same_slots W W'" and "pools_live (live W) W'" and "forest (live W) (par W') (kids W')"
  shows "world_ok n W'"
  using assms same_slotsD [OF assms(2)] by (simp add: world_ok_def)

subsection \<open>Storing components\<close>

lemma live_fits:
  assumes ok: "world_ok n W" and e: "world_valid W e" and p: "pool_live (live W) p" and none: "pool_get p e = None"
  shows "pool_fits p e"
proof (rule pool_fitsI [where V = "live W" and n = "length (w_generations W)"])
  show "pool_ok p" "dom (pool_get p) \<subseteq> live W" using p by (simp_all add: pool_live_def)
  show "e \<in> live W" "pool_get p e = None" using e none by simp_all
  show "f = g" if "f \<in> live W" "g \<in> live W" "ent_index f = ent_index g" for f g
    using that by (rule live_one)
  show "slot f < length (w_generations W)" if "f \<in> live W" for f
    using that slots_okD(1) [OF world_okD(1) [OF ok]] by (simp add: world_valid_def)
  show "length (w_generations W) < 2 ^ 32 - 1"
    using slots_length [OF world_okD(1) [OF ok]] world_okD(2) [OF ok] by (simp add: handles_left_def)
qed

lemma store_live:
  assumes "world_ok n W" and "world_valid W e" and p: "pool_live (live W) p"
  shows "pool_live (live W) (case pool_get p e of Some u \<Rightarrow> pool_put e (f u) p | None \<Rightarrow> pool_emplace e v p)"
    and "pool_get (case pool_get p e of Some u \<Rightarrow> pool_put e (f u) p | None \<Rightarrow> pool_emplace e v p)
      = (pool_get p)(e \<mapsto> (case pool_get p e of Some u \<Rightarrow> f u | None \<Rightarrow> v))"
proof -
  note store = pools.write_or_emplace [where e = e and f = f and v = v, OF pool_liveD(1) [OF p] live_fits [OF assms]]
  show "pool_get (case pool_get p e of Some u \<Rightarrow> pool_put e (f u) p | None \<Rightarrow> pool_emplace e v p)
      = (pool_get p)(e \<mapsto> (case pool_get p e of Some u \<Rightarrow> f u | None \<Rightarrow> v))" by (rule store(2))
  have "dom (pool_get p) \<subseteq> live W" using p by (simp add: pool_live_def)
  with store assms(2)
  show "pool_live (live W) (case pool_get p e of Some u \<Rightarrow> pool_put e (f u) p | None \<Rightarrow> pool_emplace e v p)"
    unfolding pool_live_def by (simp only: store) auto
qed

lemma put_live:
  "pool_live V p \<Longrightarrow> pool_get p e = Some u \<Longrightarrow> pool_live V (pool_put e v p)"
  by (auto simp: pool_live_def pool_put_get)

lemma removed_live: "pool_live V p \<Longrightarrow> pool_live V (pool_remove e p)"
  using pool_live_mono [OF pool_live_remove] by blast

lemma set_transforms_ok:
  assumes ok: "world_ok n W" and q: "pool_live (live W) q"
  shows "world_ok n (W\<lparr>w_transforms := q\<rparr>)" "same_slots W (W\<lparr>w_transforms := q\<rparr>)"
proof -
  show same: "same_slots W (W\<lparr>w_transforms := q\<rparr>)" by (simp add: same_slots_def)
  show "world_ok n (W\<lparr>w_transforms := q\<rparr>)"
    by (rule world_ok_same [OF ok same])
      (use world_okD(3,4) [OF ok] q in \<open>simp_all add: pools_live_def\<close>)
qed

lemma set_matrices_ok:
  assumes ok: "world_ok n W" and q: "pool_live (live W) q"
  shows "world_ok n (W\<lparr>w_matrices := q\<rparr>)" "same_slots W (W\<lparr>w_matrices := q\<rparr>)"
proof -
  show same: "same_slots W (W\<lparr>w_matrices := q\<rparr>)" by (simp add: same_slots_def)
  show "world_ok n (W\<lparr>w_matrices := q\<rparr>)"
    by (rule world_ok_same [OF ok same])
      (use world_okD(3,4) [OF ok] q in \<open>simp_all add: pools_live_def\<close>)
qed

lemma store_local_ok:
  assumes ok: "world_ok n W" and e: "world_valid W e"
  shows "world_ok n (store_local e v W)" "same_slots W (store_local e v W)"
    and "par (store_local e v W) = par W" "kids (store_local e v W) = kids W"
proof -
  have live: "pool_live (live W) (w_transforms W)" by (rule pools_liveD [OF world_okD(3) [OF ok]])
  note q = store_live(1) [OF ok e live, where f = "\<lambda>_. v" and v = v]
  show "world_ok n (store_local e v W)" "same_slots W (store_local e v W)"
    using set_transforms_ok [OF ok q] by (simp_all add: store_local_def)
  show "par (store_local e v W) = par W" "kids (store_local e v W) = kids W" by (simp_all add: store_local_def)
qed

subsection \<open>Parents\<close>

lemma link_child_maps:
  assumes ok: "world_ok n W" and c: "world_valid W c" and p: "world_valid W p"
  defines "K \<equiv> case par W c of None \<Rightarrow> kids W | Some q \<Rightarrow> kids_without c q (kids W)"
  shows "same_slots W (link_child c p W)" "pools_live (live W) (link_child c p W)"
    and "par (link_child c p W) = (par W)(c \<mapsto> p)" "kids (link_child c p W) = kids_with c p K"
    and "w_transforms (link_child c p W) = w_transforms W" "w_matrices (link_child c p W) = w_matrices W"
proof -
  note pools = world_okD(3) [OF ok]
  define W0 where "W0 = (case par W c of None \<Rightarrow> W | Some q \<Rightarrow> drop_child c q W)"
  have W0: "w_parents W0 = w_parents W" "w_transforms W0 = w_transforms W" "w_matrices W0 = w_matrices W"
    "same_slots W W0"
    by (simp_all add: W0_def same_slots_def split: option.split)
  have pools0: "pools_live (live W) W0"
    using pools drop_child_pools [OF pools] by (simp add: W0_def split: option.split)
  have kids0: "kids W0 = K"
    using drop_child_kids [OF pool_liveD(1) [OF pools_liveD(2) [OF pools]]]
    by (simp add: W0_def K_def split: option.split)
  define P where "P = (case par W c of Some _ \<Rightarrow> pool_put c p (w_parents W) | None \<Rightarrow> pool_emplace c p (w_parents W))"
  have P: "pool_live (live W) P" "pool_get P = (par W)(c \<mapsto> p)"
    using store_live [OF ok c pools_liveD(1) [OF pools], where f = "\<lambda>_. p" and v = p]
    by (simp_all add: P_def split: option.splits)
  define Q where "Q = (case kids W0 p of Some l \<Rightarrow> pool_put p (l @ [c]) (w_children W0)
      | None \<Rightarrow> pool_emplace p [c] (w_children W0))"
  have Q: "pool_live (live W) Q" "pool_get Q = kids_with c p K"
    using store_live [OF ok p pools_liveD(2) [OF pools0], where f = "\<lambda>l. l @ [c]" and v = "[c]"] kids0
    by (simp_all add: Q_def kids_with_def)
  have link: "link_child c p W = W0\<lparr>w_parents := P, w_children := Q\<rparr>"
    by (simp add: link_child_def W0_def P_def Q_def detach_from_parent_def Let_def split: option.split)
  show "same_slots W (link_child c p W)" using W0(4) by (simp add: link same_slots_def)
  show "pools_live (live W) (link_child c p W)" using pools0 P(1) Q(1) by (simp add: link pools_live_def)
  show "par (link_child c p W) = (par W)(c \<mapsto> p)" "kids (link_child c p W) = kids_with c p K"
    "w_transforms (link_child c p W) = w_transforms W" "w_matrices (link_child c p W) = w_matrices W"
    using P(2) Q(2) W0 by (simp_all add: link)
qed

lemma link_child_ok:
  assumes ok: "world_ok n W" and c: "world_valid W c" and p: "world_valid W p"
    and d: "depths (par W) d" and apart: "p \<notin> subtree (par W) c"
    and fits: "\<And>x. x \<in> subtree (par W) c \<Longrightarrow> d p + 1 + (d x - d c) \<le> kMaxHierarchyDepth"
  shows "world_ok n (link_child c p W)"
proof (rule world_ok_same [OF ok])
  note link = link_child_maps [OF ok c p]
  show "same_slots W (link_child c p W)" "pools_live (live W) (link_child c p W)" by (fact link)+
  define K where "K = (case par W c of None \<Rightarrow> kids W | Some q \<Rightarrow> kids_without c q (kids W))"
  let ?d = "\<lambda>x. if x \<in> subtree (par W) c then d x - d c else d x"
  have "forest (live W) ((par W)(c := None)) K"
  proof (cases "par W c")
    case None
    then have "(par W)(c := None) = par W" by auto
    with world_okD(4) [OF ok] None show ?thesis by (simp add: K_def)
  next
    case (Some q)
    then show ?thesis using forest_detach [OF world_okD(4) [OF ok] Some] by (simp add: K_def)
  qed
  then have "family (live W) ((par W)(c := None)) K" by (simp add: forest_def)
  then have "family (live W) ((par W)(c := None, c \<mapsto> p)) (kids_with c p K)"
    by (rule family_attach) (use c p in auto)
  moreover have "\<exists>d'. depths ((par W)(c := None, c \<mapsto> p)) d'"
    by (rule exI, rule depths_attach [OF depths_detach [OF d, of c]])
      (use apart fits in \<open>auto simp: subtree_cut\<close>)
  ultimately show "forest (live W) (par (link_child c p W)) (kids (link_child c p W))"
    using link(3,4) by (simp add: forest_def K_def)
qed

lemma set_parent_ok:
  assumes ok: "world_ok n W" and set: "set_parent G keep c p W = (done, W')"
  shows "world_ok n W'" "same_slots W W'"
    and "if done then par W' = (par W)(c \<mapsto> p) else W' = W"
proof -
  obtain d where d: "depths (par W) d" "family (live W) (par W) (kids W)" by (rule world_depths [OF ok])
  have "world_ok n W' \<and> same_slots W W' \<and> (if done then par W' = (par W)(c \<mapsto> p) else W' = W)"
  proof (cases "\<not> world_valid W c \<or> \<not> world_valid W p \<or> c = p \<or> par W c = Some p
      \<or> depth_up W c (live_parent W p) 0 = None")
    case True
    then show ?thesis using set ok by (auto simp: set_parent_def split: if_splits)
  next
    case False
    then obtain k where k: "depth_up W c (live_parent W p) 0 = Some k" by auto
    have cp: "world_valid W c" "world_valid W p" "c \<noteq> p" using False by auto
    note up = depth_up_parent [OF ok d(1) k cp(3)]
    show ?thesis
    proof (cases "kMaxHierarchyDepth < k + 1 + height_of W c")
      case True
      then show ?thesis using set ok False k by (auto simp: set_parent_def)
    next
      case high: False
      have "d p + 1 + (d x - d c) \<le> kMaxHierarchyDepth" if "x \<in> subtree (par W) c" for x
        using height_of_covers [OF d _ that] high up(1) by simp
      with link_child_ok [OF ok cp(1,2) d(1) up(2)] have link: "world_ok n (link_child c p W)" by blast
      note maps = link_child_maps [OF ok cp(1,2)]
      have valid: "world_valid (link_child c p W) c" using same_slotsD(1) [OF maps(1)] cp(1) by simp
      note store = store_local_ok [OF link valid]
      have "done" "W' = (if keep then store_local c (decompose G (g_mul G (g_inverse G
          (compute_world_matrix G (link_child c p W) p)) (compute_world_matrix G W c))) (link_child c p W)
        else link_child c p W)"
        using set False k high by (auto simp: set_parent_def Let_def split: if_splits)
      then show ?thesis
        using link store(1) same_slots_trans [OF maps(1) store(2)] maps(1,3) store(3) by simp
    qed
  qed
  then show "world_ok n W'" "same_slots W W'" "if done then par W' = (par W)(c \<mapsto> p) else W' = W" by auto
qed

lemma clear_parent_ok:
  assumes ok: "world_ok n W"
  shows "world_ok n (clear_parent G keep c W)" "same_slots W (clear_parent G keep c W)"
    and "world_valid W c \<Longrightarrow> par (clear_parent G keep c W) = (par W)(c := None)"
proof -
  let ?W = "clear_parent G keep c W"
  have "world_ok n ?W \<and> same_slots W ?W \<and> (world_valid W c \<longrightarrow> par ?W = (par W)(c := None))"
  proof (cases "world_valid W c \<and> par W c \<noteq> None")
    case False
    then show ?thesis using ok by (auto simp: clear_parent_def)
  next
    case True
    then obtain p where c: "world_valid W c" "par W c = Some p" by auto
    note pools = drop_child_pools [OF world_okD(3) [OF ok], of c p]
    note kids = drop_child_kids [OF pool_liveD(1) [OF pools_liveD(2) [OF world_okD(3) [OF ok]]], of c p]
    define W2 where "W2 = (drop_child c p W)\<lparr>w_parents := pool_remove c (w_parents W),
        w_matrices := pool_remove c (w_matrices W)\<rparr>"
    have same: "same_slots W W2" by (simp add: same_slots_def W2_def)
    have par: "par W2 = (par W)(c := None)"
      using pool_remove_ok(2) [OF pool_liveD(1) [OF pools_liveD(1) [OF world_okD(3) [OF ok]]]] by (simp add: W2_def)
    have W2: "world_ok n W2"
    proof (rule world_ok_same [OF ok same])
      show "pools_live (live W) W2"
        using pools pools_liveD(1,4) [OF world_okD(3) [OF ok]] by (simp add: pools_live_def W2_def removed_live)
      show "forest (live W) (par W2) (kids W2)"
        unfolding par using forest_detach [OF world_okD(4) [OF ok] c(2)] kids(2) by (simp add: W2_def)
    qed
    have "world_valid W2 c" using same_slotsD(1) [OF same] c(1) by simp
    note store = store_local_ok [OF W2 this]
    have "?W = (if keep then store_local c (decompose G (compute_world_matrix G W c)) W2 else W2)"
      using c by (simp add: clear_parent_def detach_from_parent_def Let_def W2_def)
    then show ?thesis using W2 store(1,3) same_slots_trans [OF same store(2)] same par by simp
  qed
  then show "world_ok n ?W" "same_slots W ?W" "world_valid W c \<Longrightarrow> par ?W = (par W)(c := None)" by auto
qed

lemma set_world_position_ok:
  assumes ok: "world_ok n W"
  shows "world_ok n (set_world_position G e v W)" "same_slots W (set_world_position G e v W)"
proof -
  have "world_ok n (set_world_position G e v W) \<and> same_slots W (set_world_position G e v W)"
  proof (cases "pool_get (w_transforms W) e")
    case None
    then show ?thesis using ok by (simp add: set_world_position_def)
  next
    case (Some t)
    note q = put_live [OF pools_liveD(3) [OF world_okD(3) [OF ok]] Some]
    note upd = set_transforms_ok [OF ok q]
    show ?thesis
      using upd ok Some by (simp add: set_world_position_def Let_def)
  qed
  then show "world_ok n (set_world_position G e v W)" "same_slots W (set_world_position G e v W)" by auto
qed

end
