(* ===== verification/World_Propagate.thy ===== *)
theory World_Propagate
  imports Hierarchy_Ops
begin

section \<open>The propagation of world matrices\<close>

text \<open>
  \<open>path_matrix\<close> is the reference: the local matrices of the ancestors multiplied from the root down to the
  entity. The walk of \<open>update_world_transforms\<close> returns and stores exactly this matrix for every entity with a
  parent, and removes what others had.
\<close>

fun path_matrix :: "('f, 'q, 'm) glm \<Rightarrow> ('f, 'q, 'm, 'c) scene \<Rightarrow> nat \<Rightarrow> entity \<Rightarrow> 'm" where
  "path_matrix G W 0 e = local_matrix G W e"
| "path_matrix G W (Suc k) e = (case par W e of None \<Rightarrow> local_matrix G W e
     | Some p \<Rightarrow> g_mul G (path_matrix G W k p) (local_matrix G W e))"

lemma local_matrix_upd [simp]: "local_matrix G (W\<lparr>w_matrices := q\<rparr>) = local_matrix G W"
  by (simp add: local_matrix_def fun_eq_iff)

lemma path_matrix_upd [simp]: "path_matrix G (W\<lparr>w_matrices := q\<rparr>) k e = path_matrix G W k e"
  by (induction k arbitrary: e) (simp_all split: option.split)

lemma path_matrix_enough:
  assumes d: "depths (par W) d"
  shows "d e \<le> k \<Longrightarrow> d e \<le> j \<Longrightarrow> path_matrix G W k e = path_matrix G W j e"
proof (induction "d e" arbitrary: e k j)
  case 0
  then have "par W e = None" using depthsD(2) [OF d, of e] by (cases "par W e") auto
  then show ?case by (cases k; cases j) simp_all
next
  case (Suc m)
  then obtain p where p: "par W e = Some p" using depthsD(1) [OF d, of e] by (cases "par W e") auto
  then have "d p = m" using depthsD(2) [OF d p] Suc.hyps(2) by simp
  moreover obtain k' j' where "k = Suc k'" "j = Suc j'" using Suc.hyps(2) Suc.prems by (cases k; cases j) auto
  ultimately show ?case using Suc.hyps(1) [of p k' j'] Suc.hyps(2) Suc.prems p by simp
qed

lemma depths_bound: "depths P d \<Longrightarrow> d e \<le> kMaxHierarchyDepth"
  using depthsD(1) [of P d e] depthsD(3) [of P d e] by (cases "P e") auto

lemma path_matrix_step:
  assumes d: "depths (par W) d" and p: "par W e = Some p"
  shows "path_matrix G W kMaxHierarchyDepth e
    = g_mul G (path_matrix G W kMaxHierarchyDepth p) (local_matrix G W e)"
proof -
  have "path_matrix G W kMaxHierarchyDepth e = path_matrix G W (Suc kMaxHierarchyDepth) e"
    using depths_bound [OF d, of e] by (intro path_matrix_enough [OF d]) auto
  with p show ?thesis by simp
qed

lemma path_matrix_top: "par W e = None \<Longrightarrow> path_matrix G W k e = local_matrix G W e"
  by (cases k) simp_all

lemma top_above:
  assumes d: "depths P d"
  shows "\<exists>r. P r = None \<and> e \<in> subtree P r"
proof (induction "d e" arbitrary: e)
  case 0
  then have "P e = None" using depthsD(2) [OF d, of e] by (cases "P e") auto
  then show ?case by (intro exI [of _ e]) simp
next
  case (Suc m)
  then obtain p where p: "P e = Some p" using depthsD(1) [OF d, of e] by (cases "P e") auto
  then obtain r where "P r = None" "p \<in> subtree P r" using Suc.hyps(1) [of p] Suc.hyps(2) depthsD(2) [OF d p] by auto
  then show ?case using subtree_step [of P e p r] p by blast
qed

subsection \<open>The walk\<close>

definition under :: "(entity \<Rightarrow> entity option) \<Rightarrow> entity set \<Rightarrow> entity set" where
  "under P R = (\<Union>r \<in> R. subtree P r - {r})"

lemma under_children:
  assumes fam: "family V P K" and d: "depths P d" and cs: "cs = (case K n of None \<Rightarrow> [] | Some l \<Rightarrow> l)"
  shows "under P (insert n R) = set cs \<union> under P (set cs \<union> R)"
proof -
  have tree: "subtree P n = insert n (\<Union>c \<in> set cs. subtree P c)" unfolding cs by (rule subtree_children [OF fam])
  have "P c = Some n" if "c \<in> set cs" for c
    using familyD(2) [OF fam, of n] that by (cases "K n") (auto simp: cs)
  then have "n \<notin> subtree P c" if "c \<in> set cs" for c using no_circle [OF d, of c n] that by blast
  then have "subtree P n - {n} = (\<Union>c \<in> set cs. subtree P c)" unfolding tree by blast
  moreover have "(\<Union>c \<in> set cs. subtree P c) = set cs \<union> (\<Union>c \<in> set cs. subtree P c - {c})" by auto
  ultimately show ?thesis unfolding under_def by auto
qed

lemma fold_store:
  assumes ok: "world_ok n W" and "\<And>c m. (c, m) \<in> set cs \<Longrightarrow> world_valid W c \<and> m = M c"
    and p: "pool_live (live W) p"
  shows "\<exists>q. fold (\<lambda>(c, m). store_matrix c m) cs (W\<lparr>w_matrices := p\<rparr>) = W\<lparr>w_matrices := q\<rparr>
    \<and> pool_live (live W) q
    \<and> pool_get q = (\<lambda>e. if e \<in> fst ` set cs then Some (M e) else pool_get p e)"
  using assms(2) p
proof (induction cs arbitrary: p)
  case (Cons cm cs)
  obtain c m where cm: "cm = (c, m)" by (cases cm)
  have c: "world_valid W c" "m = M c" using Cons.prems(1) [of c m] cm by auto
  define p' where "p' = (case pool_get p c of Some _ \<Rightarrow> pool_put c m p | None \<Rightarrow> pool_emplace c m p)"
  note store = store_live [OF ok c(1) Cons.prems(2), where f = "\<lambda>_. m" and v = m]
  have p': "pool_live (live W) p'" "pool_get p' = (pool_get p)(c \<mapsto> M c)"
    using store c(2) by (simp_all add: p'_def split: option.splits)
  have "store_matrix c m (W\<lparr>w_matrices := p\<rparr>) = W\<lparr>w_matrices := p'\<rparr>"
    by (simp add: store_matrix_def p'_def split: option.split)
  moreover obtain q where "fold (\<lambda>(c, m). store_matrix c m) cs (W\<lparr>w_matrices := p'\<rparr>) = W\<lparr>w_matrices := q\<rparr>"
    "pool_live (live W) q" "pool_get q = (\<lambda>e. if e \<in> fst ` set cs then Some (M e) else pool_get p' e)"
    using Cons.IH [OF Cons.prems(1) p'(1)] by auto
  ultimately show ?case using p'(2) by (intro exI [of _ q]) (auto simp: cm fun_eq_iff)
qed auto

lemma propagate_ok:
  fixes G :: "('f, 'q, 'm) glm" and W :: "('f, 'q, 'm, 'c) scene"
  assumes ok: "world_ok n W" and d: "depths (par W) d" and fam: "family (live W) (par W) (kids W)"
  defines "M \<equiv> path_matrix G W kMaxHierarchyDepth"
  shows "(\<And>e m. (e, m) \<in> set stack \<Longrightarrow> m = M e) \<Longrightarrow> pool_live (live W) p \<Longrightarrow>
    \<exists>q. propagate G stack (W\<lparr>w_matrices := p\<rparr>) = Some (W\<lparr>w_matrices := q\<rparr>) \<and> pool_live (live W) q
      \<and> pool_get q = (\<lambda>e. if e \<in> under (par W) (fst ` set stack) then Some (M e) else pool_get p e)"
proof (induction stack arbitrary: p rule: wf_induct_rule [OF wf_inv_image [OF wf_mult [OF wf_less_than],
      of "\<lambda>s. heights_left d (map fst s)"]])
  case (1 stack)
  show ?case
  proof (cases stack)
    case Nil
    then show ?thesis using 1(3) by (intro exI [of _ p]) (simp add: propagate.simps under_def)
  next
    case (Cons nm rest)
    obtain b m where nm: "nm = (b, m)" by (cases nm)
    have m: "m = M b" using 1(2) Cons nm by simp
    define cs where "cs = (case kids W b of None \<Rightarrow> [] | Some l \<Rightarrow> l)"
    have cs: "par W c = Some b \<and> world_valid W c" if "c \<in> set cs" for c
      using familyD [OF fam] that by (force simp: cs_def split: option.splits)
    define followed where "followed = map (\<lambda>c. (c, g_mul G m (local_matrix G W c))) cs"
    have followed: "world_valid W c \<and> k = M c" if "(c, k) \<in> set followed" for c k
      using that cs path_matrix_step [OF d, of c b] m by (auto simp: followed_def M_def)
    obtain p' where p': "fold (\<lambda>(c, m). store_matrix c m) followed (W\<lparr>w_matrices := p\<rparr>) = W\<lparr>w_matrices := p'\<rparr>"
      "pool_live (live W) p'" "pool_get p' = (\<lambda>e. if e \<in> fst ` set followed then Some (M e) else pool_get p e)"
      using fold_store [OF ok followed 1(3)] by blast
    have dom: "fst ` set followed = set cs" by (simp add: followed_def image_image)
    have "filter (\<lambda>child. par W child = Some b) cs = cs" using cs by simp
    then have step: "propagate G stack (W\<lparr>w_matrices := p\<rparr>)
        = propagate G (rev followed @ rest) (W\<lparr>w_matrices := p'\<rparr>)"
      by (subst propagate.simps) (simp add: Cons nm cs_def [symmetric] followed_def [symmetric] p'(1) Let_def)
    have less: "(rev followed @ rest, stack) \<in> inv_image (mult less_than) (\<lambda>s. heights_left d (map fst s))"
    proof -
      have "heights_left d (map fst (rev followed @ rest)) = heights_left d (map fst rest @ cs)"
        by (simp add: heights_left_def followed_def image_mset.compositionality comp_def)
      then show ?thesis
        using heights_left_less [OF d, of cs b "map fst rest"] cs by (simp add: Cons nm)
    qed
    have tops: "k = M c" if "(c, k) \<in> set (rev followed @ rest)" for c k
      using that followed 1(2) Cons by auto
    obtain q where q: "propagate G (rev followed @ rest) (W\<lparr>w_matrices := p'\<rparr>) = Some (W\<lparr>w_matrices := q\<rparr>)"
      "pool_live (live W) q" "pool_get q = (\<lambda>e. if e \<in> under (par W) (fst ` set (rev followed @ rest)) then Some (M e)
        else pool_get p' e)"
      using 1(1) [OF less tops p'(2)] by blast
    have "under (par W) (fst ` set stack) = set cs \<union> under (par W) (fst ` set (rev followed @ rest))"
      using under_children [OF fam d cs_def, of "fst ` set rest"] by (simp add: Cons nm dom image_Un)
    then show ?thesis
      using q p'(3) dom by (intro exI [of _ q]) (auto simp: step fun_eq_iff)
  qed
qed

lemma propagate_roots_ok:
  assumes ok: "world_ok n W" and d: "depths (par W) d" and fam: "family (live W) (par W) (kids W)"
  shows "(\<And>r. r \<in> set roots \<Longrightarrow> par W r = None) \<Longrightarrow> pool_live (live W) p \<Longrightarrow>
    \<exists>q. propagate_roots G roots (W\<lparr>w_matrices := p\<rparr>) = Some (W\<lparr>w_matrices := q\<rparr>) \<and> pool_live (live W) q
      \<and> pool_get q = (\<lambda>e. if e \<in> under (par W) (set roots) then Some (path_matrix G W kMaxHierarchyDepth e)
          else pool_get p e)"
proof (induction roots arbitrary: p)
  case Nil
  then show ?case by (intro exI [of _ p]) (simp add: under_def)
next
  case (Cons r roots)
  have r: "local_matrix G W r = path_matrix G W kMaxHierarchyDepth r" using path_matrix_top [of W r] Cons.prems(1) by simp
  have "\<exists>q. propagate G [(r, local_matrix G W r)] (W\<lparr>w_matrices := p\<rparr>) = Some (W\<lparr>w_matrices := q\<rparr>)
      \<and> pool_live (live W) q \<and> pool_get q = (\<lambda>e. if e \<in> under (par W) (fst ` set [(r, local_matrix G W r)])
        then Some (path_matrix G W kMaxHierarchyDepth e) else pool_get p e)"
    by (rule propagate_ok [OF ok d fam _ Cons.prems(2)]) (simp add: r)
  then obtain p' where p': "propagate G [(r, local_matrix G W r)] (W\<lparr>w_matrices := p\<rparr>) = Some (W\<lparr>w_matrices := p'\<rparr>)"
    "pool_live (live W) p'" "pool_get p' = (\<lambda>e. if e \<in> under (par W) {r}
        then Some (path_matrix G W kMaxHierarchyDepth e) else pool_get p e)" by auto
  obtain q where q: "propagate_roots G roots (W\<lparr>w_matrices := p'\<rparr>) = Some (W\<lparr>w_matrices := q\<rparr>)" "pool_live (live W) q"
    "pool_get q = (\<lambda>e. if e \<in> under (par W) (set roots) then Some (path_matrix G W kMaxHierarchyDepth e)
          else pool_get p' e)"
    using Cons.IH [OF _ p'(2)] Cons.prems(1) by auto
  have "under (par W) (set (r # roots)) = under (par W) {r} \<union> under (par W) (set roots)" by (auto simp: under_def)
  then show ?case using q p' by (intro exI [of _ q]) (auto simp: fun_eq_iff)
qed

end
