(* ===== verification/World_Runs.thy ===== *)
theory World_Runs
  imports World_Propagate
begin

section \<open>Runs of a world\<close>

text \<open>
  The operations of a world and of its hierarchy as steps, labelled with the handles they give out, and the runs
  they make up. Steps keep the invariant \<open>world_ok\<close> and the discipline of the views, \<open>views_ok\<close>: outside
  every view nothing waits to be destroyed.
\<close>

definition views_ok :: "('t, 'm, 'c) world \<Rightarrow> bool" where
  "views_ok W \<longleftrightarrow> 0 \<le> w_view_depth W \<and> (w_view_depth W = 0 \<longrightarrow> w_pending W = [])"

text \<open>What a step does to handles: those it gives out were never given out, and no other becomes valid.\<close>

definition keeps_handles :: "entity list \<Rightarrow> ('t, 'm, 'c) world \<Rightarrow> ('t, 'm, 'c) world \<Rightarrow> bool" where
  "keeps_handles es W W' \<longleftrightarrow> live W' \<subseteq> live W \<union> set es \<and> (\<forall>x. issued W x \<longrightarrow> issued W' x)
     \<and> distinct es \<and> (\<forall>e \<in> set es. \<not> issued W e \<and> issued W' e)"

lemma keeps_handles_trans:
  assumes "keeps_handles es U V" and "keeps_handles fs V W" shows "keeps_handles (es @ fs) U W"
  using assms unfolding keeps_handles_def by fastforce

lemma keeps_same: "same_slots W W' \<Longrightarrow> keeps_handles [] W W'"
  using same_slotsD(1,4) [of W W'] by (simp add: keeps_handles_def)

subsection \<open>Creating and destroying\<close>

lemma forest_more: "forest V P K \<Longrightarrow> V \<subseteq> U \<Longrightarrow> forest U P K"
  unfolding forest_def family_def by blast

lemma world_create_ok:
  assumes ok: "world_ok (Suc n) W" and make: "world_create W = (e, W')"
  shows "world_ok n W'" "keeps_handles [e] W W'" "w_pending W' = w_pending W" "w_view_depth W' = w_view_depth W"
proof -
  note okD = world_okD [OF ok]
  note facts = create_facts [OF okD(1,2) make]
  have more: "live W \<subseteq> live W'" using facts(4) by blast
  have "pools_live (live W') W'"
    using okD(3) facts(7) by (simp add: pools_live_def pool_live_mono [OF _ more])
  moreover have "forest (live W') (par W') (kids W')"
    using forest_more [OF okD(4) more] facts(7) by simp
  ultimately show "world_ok n W'" using facts(1,2) by (simp add: world_ok_def)
  show "w_pending W' = w_pending W" "w_view_depth W' = w_view_depth W" using facts(7) by simp_all
  have e: "issued W' e" using facts(4,6) by (auto simp: issued_def)
  moreover have "\<not> issued W e"
  proof
    assume "issued W e"
    then show False using facts(3,5,8) by (auto simp: issued_def)
  qed
  moreover have "issued W' x" if "issued W x" for x
    using that more facts(8,9) unfolding issued_def by fastforce
  ultimately show "keeps_handles [e] W W'" using facts(4) by (auto simp: keeps_handles_def)
qed

text \<open>An operation that may destroy: it returns, and leaves the world well formed.\<close>

definition settles :: "nat \<Rightarrow> ('t, 'm, 'c) world \<Rightarrow> ('t, 'm, 'c) world option \<Rightarrow> bool" where
  "settles n W R \<longleftrightarrow> (\<exists>W'. R = Some W' \<and> world_ok n W' \<and> keeps_handles [] W W'
     \<and> w_pending W' = w_pending W \<and> w_view_depth W' = w_view_depth W)"

lemma destroy_settles: "world_ok n W \<Longrightarrow> settles n W (destroy_immediate e W)"
  using destroy_immediate_ok [of n W e]
  by (cases "world_valid W e") (auto simp: settles_def keeps_handles_def destroy_immediate_def)

lemma settlesD:
  assumes "settles n W R"
  obtains W' where "R = Some W'" "world_ok n W'" "keeps_handles [] W W'" "w_pending W' = w_pending W"
    "w_view_depth W' = w_view_depth W"
  using assms unfolding settles_def by blast

lemma destroy_all_settles: "world_ok n W \<Longrightarrow> settles n W (destroy_all es W)"
proof (induction es arbitrary: W)
  case Nil
  then show ?case by (simp add: settles_def keeps_handles_def)
next
  case (Cons e es)
  obtain V where V: "destroy_immediate e W = Some V" "world_ok n V" "keeps_handles [] W V"
    "w_pending V = w_pending W" "w_view_depth V = w_view_depth W"
    by (rule settlesD [OF destroy_settles [OF Cons.prems]])
  from Cons.IH [OF V(2)] show ?case
    using V keeps_handles_trans [OF V(3)] by (auto simp: settles_def)
qed

lemma world_ok_views [simp]:
  "world_ok n (W\<lparr>w_pending := ps\<rparr>) = world_ok n W" "world_ok n (W\<lparr>w_view_depth := k\<rparr>) = world_ok n W"
  by (simp_all add: world_ok_def slots_ok_def handles_left_def world_use_def pools_live_def)

lemma issued_views [simp]:
  "issued (W\<lparr>w_pending := ps\<rparr>) = issued W" "issued (W\<lparr>w_view_depth := k\<rparr>) = issued W"
  by (simp_all add: issued_def fun_eq_iff)

lemma end_view_ok:
  assumes ok: "world_ok n W" and depth: "0 < w_view_depth W"
  shows "\<exists>W'. end_view W = Some W' \<and> world_ok n W' \<and> views_ok W' \<and> keeps_handles [] W W'"
proof (cases "w_view_depth W = 1")
  case True
  let ?W = "W\<lparr>w_view_depth := 0, w_pending := []\<rparr>"
  have "world_ok n ?W" using ok by simp
  then obtain W' where "destroy_all (w_pending W) ?W = Some W'" "world_ok n W'" "keeps_handles [] ?W W'"
    "w_pending W' = w_pending ?W" "w_view_depth W' = w_view_depth ?W"
    by (rule settlesD [OF destroy_all_settles])
  then show ?thesis
    using True by (intro exI [of _ W']) (simp add: end_view_def flush_destroyed_def views_ok_def keeps_handles_def)
next
  case False
  then show ?thesis using assms by (simp add: end_view_def views_ok_def keeps_handles_def)
qed

lemma world_destroy_ok:
  assumes ok: "world_ok n W" and views: "views_ok W"
  shows "\<exists>W'. world_destroy e W = Some W' \<and> world_ok n W' \<and> views_ok W' \<and> keeps_handles [] W W'"
proof -
  consider "\<not> world_valid W e" | "0 < w_view_depth W" "world_valid W e" | "w_view_depth W = 0" "world_valid W e"
    using views unfolding views_ok_def by linarith
  then show ?thesis
  proof cases
    case 3
    obtain W' where "destroy_immediate e W = Some W'" "world_ok n W'" "keeps_handles [] W W'"
      "w_pending W' = w_pending W" "w_view_depth W' = w_view_depth W"
      by (rule settlesD [OF destroy_settles [OF ok]])
    then show ?thesis using 3 views by (simp add: world_destroy_def views_ok_def)
  qed (use ok views in \<open>simp_all add: world_destroy_def views_ok_def keeps_handles_def\<close>)
qed

subsection \<open>The propagation, from the pools of a world\<close>

lemma view_done_same: "views_ok W \<Longrightarrow> view_done W = Some W"
  by (simp add: view_done_def begin_view_def end_view_def flush_destroyed_def views_ok_def)

lemma view_entities_dom: "pool_ok p \<Longrightarrow> set (view_entities p) = dom (pool_get p)"
  using pool_get_dom [of p] by (auto simp: view_entities_def pool_contains_iff)

lemma update_ok:
  fixes G :: "('f, 'q, 'm) glm" and W :: "('f, 'q, 'm, 'c) scene"
  assumes ok: "world_ok n W" and views: "views_ok W"
  shows "\<exists>q. update_world_transforms G W = Some (W\<lparr>w_matrices := q\<rparr>) \<and> pool_live (live W) q
    \<and> pool_get q = (\<lambda>e. if par W e = None then None else Some (path_matrix G W kMaxHierarchyDepth e))"
proof -
  obtain d where d: "depths (par W) d" and fam: "family (live W) (par W) (kids W)" by (rule world_depths [OF ok])
  note pools = pools_liveD [OF world_okD(3) [OF ok]]
  define stale where "stale = filter (\<lambda>e. par W e = None) (view_entities (w_matrices W))"
  define p where "p = fold pool_remove stale (w_matrices W)"
  define roots where "roots = filter (\<lambda>e. par W e = None) (view_entities (w_children W))"
  have "(case par W e of None \<Rightarrow> False | Some q \<Rightarrow> \<not> world_valid W q) = False" for e
    using familyD(1) [OF fam, of e] by (auto split: option.split)
  then have none: "filter (\<lambda>e. case par W e of None \<Rightarrow> False | Some q \<Rightarrow> \<not> world_valid W q) es = []" for es
    by simp
  have update: "update_world_transforms G W = propagate_roots G roots (W\<lparr>w_matrices := p\<rparr>)"
    using views
    by (simp add: update_world_transforms_def none view_done_same Let_def stale_def [symmetric] p_def [symmetric]
        roots_def [symmetric] views_ok_def)
  have p_ok: "pool_ok p" and p_get: "pool_get p = (\<lambda>e. if e \<in> set stale then None else pool_get (w_matrices W) e)"
    using pools.remove_all [OF pool_liveD(1) [OF pools(4)], of stale] by (simp_all add: p_def)
  have p_live: "pool_live (live W) p" 
    using p_ok pool_liveD(2) [OF pools(4)] by (auto simp: pool_live_def p_get split: if_splits)
  have gone: "pool_get p e = None" if "par W e = None" for e
    using that view_entities_dom [OF pool_liveD(1) [OF pools(4)]] by (auto simp: p_get stale_def)
  have roots: "par W r = None" if "r \<in> set roots" for r using that by (simp add: roots_def)
  have "e \<in> under (par W) (set roots) \<longleftrightarrow> par W e \<noteq> None" for e
  proof
    assume "e \<in> under (par W) (set roots)"
    then show "par W e \<noteq> None" by (auto simp: under_def elim: subtree_up)
  next
    assume e: "par W e \<noteq> None"
    obtain r where r: "par W r = None" "e \<in> subtree (par W) r" using top_above [OF d] by blast
    then have "e \<noteq> r" using e by auto
    moreover have "kids W r \<noteq> None"
      using r(2) \<open>e \<noteq> r\<close> subtree_children [OF fam, of r] by (cases "kids W r") auto
    then have "r \<in> set roots" using view_entities_dom [OF pool_liveD(1) [OF pools(2)]] r(1) by (auto simp: roots_def)
    ultimately show "e \<in> under (par W) (set roots)" using r(2) by (auto simp: under_def)
  qed
  then show ?thesis
    using propagate_roots_ok [OF ok d fam roots p_live, of roots G] gone by (auto simp: update fun_eq_iff)
qed

lemma matrix_up_path:
  assumes ok: "world_ok n W" and d: "depths (par W) d"
    and assoc: "\<And>a b c. g_mul G (g_mul G a b) c = g_mul G a (g_mul G b c)"
  shows "world_valid W up \<Longrightarrow> k + Suc (d up) \<le> kMaxHierarchyDepth \<Longrightarrow>
    matrix_up G W up k r = g_mul G (path_matrix G W kMaxHierarchyDepth up) r"
proof (induction "d up" arbitrary: up k r rule: less_induct)
  case less
  then have step: "matrix_up G W up k r = matrix_up G W (live_parent W up) (k + 1) (g_mul G (local_matrix G W up) r)"
    by (subst matrix_up.simps) simp
  show ?case
  proof (cases "par W up")
    case None
    then show ?thesis
      using live_parent_par [OF ok, of up] path_matrix_top [OF None] by (simp add: step matrix_up.simps [of G W null_entity])
  next
    case (Some p)
    then have p: "live_parent W up = p" "world_valid W p" using live_parent_par [OF ok, of up] by auto
    then show ?thesis
      using less.hyps [of p "k + 1"] less.prems depthsD(2) [OF d Some] path_matrix_step [OF d Some]
      by (simp add: step assoc)
  qed
qed

lemma compute_path:
  assumes ok: "world_ok n W"
    and assoc: "\<And>a b c. g_mul G (g_mul G a b) c = g_mul G a (g_mul G b c)"
  shows "compute_world_matrix G W e = path_matrix G W kMaxHierarchyDepth e"
proof -
  obtain d where d: "depths (par W) d" by (rule world_depths [OF ok])
  show ?thesis
  proof (cases "par W e")
    case None
    then show ?thesis
      using live_parent_par [OF ok, of e] path_matrix_top [OF None] by (simp add: compute_world_matrix_def matrix_up.simps)
  next
    case (Some p)
    then have "live_parent W e = p" "world_valid W p" using live_parent_par [OF ok, of e] by auto
    then show ?thesis
      using matrix_up_path [OF ok d assoc, of p 0] depthsD(2,3) [OF d Some] path_matrix_step [OF d Some]
      by (simp add: compute_world_matrix_def)
  qed
qed

end
