(* ===== verification/World_Claims.thy ===== *)
theory World_Claims
  imports World_Runs
begin

section \<open>What holds in every run of a world\<close>

subsection \<open>Components of named types\<close>

lemma update_mem: "(k, v) \<in> set (AList.update key val xs) \<Longrightarrow> v = val \<or> (k, v) \<in> set xs"
  by (induction xs) (auto split: if_splits)

lemma pool_of_live: "pools_live V W \<Longrightarrow> pool_live V (pool_of type W)"
  by (auto simp: pool_of_def pool_live_def pools_live_def split: option.split dest!: map_of_SomeD) force+

lemma with_pool_ok:
  assumes ok: "world_ok n W" and f: "pool_live (live W) (f (pool_of type W))"
  shows "world_ok n (with_pool type f W)" "same_slots W (with_pool type f W)"
proof -
  show same: "same_slots W (with_pool type f W)" by (simp add: same_slots_def with_pool_def)
  have "pools_live (live W) (with_pool type f W)"
    using world_okD(3) [OF ok] f by (auto simp: pools_live_def with_pool_def dest!: update_mem)
  then show "world_ok n (with_pool type f W)"
    using world_okD(4) [OF ok] by (intro world_ok_same [OF ok same]) (simp_all add: with_pool_def)
qed

lemma world_emplace_ok:
  assumes ok: "world_ok n W" and e: "world_valid W e" and none: "world_get type W e = None"
  shows "world_ok n (world_emplace type e v W)" "same_slots W (world_emplace type e v W)"
proof -
  have p: "pool_live (live W) (pool_of type W)" by (rule pool_of_live [OF world_okD(3) [OF ok]])
  have "pool_live (live W) (pool_emplace e v (pool_of type W))"
    using store_live(1) [OF ok e p, where f = "\<lambda>u. u" and v = v] none by (simp add: world_get_def)
  then show "world_ok n (world_emplace type e v W)" "same_slots W (world_emplace type e v W)"
    unfolding world_emplace_def by (rule with_pool_ok [OF ok])+
qed

lemma world_remove_ok:
  assumes ok: "world_ok n W"
  shows "world_ok n (world_remove type e W)" "same_slots W (world_remove type e W)"
proof -
  have "pool_live (live W) (pool_remove e (pool_of type W))"
    by (rule removed_live [OF pool_of_live [OF world_okD(3) [OF ok]]])
  with with_pool_ok [OF ok, where f = "pool_remove e" and type = type]
  show "world_ok n (world_remove type e W)" "same_slots W (world_remove type e W)"
    using ok by (simp_all add: world_remove_def split: option.split)
qed

text \<open>What was stored under a type and an entity is read back, and nothing else changes.\<close>

lemma pool_of_with: "pool_of ty (with_pool type f W) = (if ty = type then f (pool_of type W) else pool_of ty W)"
  by (simp add: pool_of_def with_pool_def update_conv')

lemma world_get_emplace:
  assumes ok: "world_ok n W" and e: "world_valid W e" and none: "world_get type W e = None"
  shows "world_get ty (world_emplace type e v W) x
    = (if ty = type \<and> x = e then Some v else world_get ty W x)"
proof -
  have p: "pool_live (live W) (pool_of type W)" by (rule pool_of_live [OF world_okD(3) [OF ok]])
  have "pool_get (pool_emplace e v (pool_of type W)) = (pool_get (pool_of type W))(e \<mapsto> v)"
    using store_live(2) [OF ok e p, where f = "\<lambda>u. u" and v = v] none by (simp add: world_get_def)
  then show ?thesis by (simp add: world_get_def world_emplace_def pool_of_with)
qed

subsection \<open>Steps and runs\<close>

inductive scene_step :: "('f, 'q, 'm) glm \<Rightarrow> ('f, 'q, 'm, 'c) scene \<Rightarrow> entity list
    \<Rightarrow> ('f, 'q, 'm, 'c) scene \<Rightarrow> bool" for G where
  created: "world_create W = (e, W') \<Longrightarrow> scene_step G W [e] W'"
| destroyed: "world_destroy e W = Some W' \<Longrightarrow> scene_step G W [] W'"
| viewed: "scene_step G W [] (begin_view W)"
| view_ended: "0 < w_view_depth W \<Longrightarrow> end_view W = Some W' \<Longrightarrow> scene_step G W [] W'"
| emplaced: "world_valid W e \<Longrightarrow> world_get type W e = None \<Longrightarrow> scene_step G W [] (world_emplace type e v W)"
| removed: "scene_step G W [] (world_remove type e W)"
| transformed: "world_valid W e \<Longrightarrow> scene_step G W [] (store_local e t W)"
| untransformed: "scene_step G W [] (W\<lparr>w_transforms := pool_remove e (w_transforms W)\<rparr>)"
| parented: "set_parent G keep c p W = (b, W') \<Longrightarrow> scene_step G W [] W'"
| cleared: "scene_step G W [] (clear_parent G keep c W)"
| moved: "scene_step G W [] (set_world_position G e v W)"
| propagated: "update_world_transforms G W = Some W' \<Longrightarrow> scene_step G W [] W'"

inductive scene_run :: "('f, 'q, 'm) glm \<Rightarrow> ('f, 'q, 'm, 'c) scene \<Rightarrow> entity list
    \<Rightarrow> ('f, 'q, 'm, 'c) scene \<Rightarrow> bool" for G where
  run_start: "scene_run G W [] W"
| run_step: "scene_run G U es V \<Longrightarrow> scene_step G V fs W \<Longrightarrow> scene_run G U (es @ fs) W"

definition kept :: "nat \<Rightarrow> entity list \<Rightarrow> ('t, 'm, 'c) world \<Rightarrow> ('t, 'm, 'c) world \<Rightarrow> bool" where
  "kept n es W W' \<longleftrightarrow> world_ok n W' \<and> views_ok W' \<and> keeps_handles es W W'"

lemma views_same: "same_slots W W' \<Longrightarrow> views_ok W' = views_ok W"
  by (simp add: same_slots_def views_ok_def)

lemma keptI: "world_ok n W' \<Longrightarrow> same_slots W W' \<Longrightarrow> views_ok W \<Longrightarrow> kept n [] W W'"
  by (simp add: kept_def views_same keeps_same)

lemma scene_step_kept:
  assumes "scene_step G W es W'"
  shows "world_ok (n + length es) W \<Longrightarrow> views_ok W \<Longrightarrow> kept n es W W'"
  using assms
proof (induction rule: scene_step.induct)
  case (created W e W')
  then show ?case using world_create_ok [of n W e W'] by (simp add: kept_def views_ok_def)
next
  case (destroyed e W W')
  then show ?case using world_destroy_ok [of n W e] by (auto simp: kept_def)
next
  case (viewed W)
  then show ?case by (simp add: kept_def begin_view_def views_ok_def keeps_handles_def)
next
  case (view_ended W W')
  then show ?case using end_view_ok [of n W] by (auto simp: kept_def)
next
  case (emplaced W e type v)
  then show ?case using world_emplace_ok [of n W e type v] by (intro keptI) simp_all
next
  case (removed W type e)
  then show ?case using world_remove_ok [of n W type e] by (intro keptI) simp_all
next
  case (transformed W e t)
  then show ?case using store_local_ok(1,2) [of n W e t] by (intro keptI) simp_all
next
  case (untransformed W e)
  then have "pool_live (live W) (pool_remove e (w_transforms W))"
    using removed_live [OF pools_liveD(3) [OF world_okD(3)]] by simp
  then show ?case using untransformed set_transforms_ok [of n W] by (intro keptI) simp_all
next
  case (parented keep c p W b W')
  then show ?case using set_parent_ok(1,2) [of n W G keep c p b W'] by (intro keptI) simp_all
next
  case (cleared W keep c)
  then show ?case using clear_parent_ok(1,2) [of n W G keep c] by (intro keptI) simp_all
next
  case (moved W e v)
  then show ?case using set_world_position_ok [of n W G e v] by (intro keptI) simp_all
next
  case (propagated W W')
  then obtain q where "W' = W\<lparr>w_matrices := q\<rparr>" "pool_live (live W) q" using update_ok [of n W G] by auto
  then show ?case using propagated set_matrices_ok [of n W q] by (intro keptI) simp_all
qed

lemma scene_run_kept:
  assumes "scene_run G W es W'"
  shows "world_ok (n + length es) W \<Longrightarrow> views_ok W \<Longrightarrow> kept n es W W'"
  using assms
proof (induction arbitrary: n rule: scene_run.induct)
  case (run_start W)
  then show ?case by (simp add: kept_def keeps_handles_def)
next
  case (run_step U es V fs W)
  have "kept (n + length fs) es U V" using run_step.IH [of "n + length fs"] run_step.prems by (simp add: ac_simps)
  moreover from this have "kept n fs V W" using scene_step_kept [OF run_step.hyps(2), of n] by (simp add: kept_def)
  ultimately show ?case using keeps_handles_trans by (auto simp: kept_def)
qed

lemma new_world_ok: "n < 2 ^ 32 - 1 \<Longrightarrow> world_ok n new_world" "views_ok new_world"
  by (simp_all add: world_ok_def slots_ok_def handles_left_def world_use_def new_world_def pools_live_def
      pool_live_def forest_def family_def depths_def views_ok_def world_valid_def) auto

lemma run_kept:
  assumes "scene_run G new_world es W" and "n + length es < 2 ^ 32 - 1"
  shows "kept n es new_world W"
  by (rule scene_run_kept [OF assms(1) new_world_ok(1) new_world_ok(2)]) (rule assms(2))

subsection \<open>A world of two entities\<close>

text \<open>Translations alone, with exact numbers: the product of two is their sum.\<close>

definition shift_by :: "rat vector3 \<Rightarrow> rat vector3 \<Rightarrow> rat vector3" where
  "shift_by u v = \<lparr>comp_x = comp_x u + comp_x v, comp_y = comp_y u + comp_y v, comp_z = comp_z u + comp_z v\<rparr>"

definition demo_glm :: "(rat, unit, rat vector3) glm" where
  "demo_glm = \<lparr>g_float = rat_arith, g_identity = \<lparr>comp_x = 0, comp_y = 0, comp_z = 0\<rparr>, g_translate = shift_by,
     g_mat4_cast = (\<lambda>_. \<lparr>comp_x = 0, comp_y = 0, comp_z = 0\<rparr>), g_scale = (\<lambda>m _. m), g_mul = shift_by,
     g_inverse = (\<lambda>m. \<lparr>comp_x = - comp_x m, comp_y = - comp_y m, comp_z = - comp_z m\<rparr>), g_column = (\<lambda>m _. m),
     g_point = shift_by, g_length = comp_x, g_dot = (\<lambda>_ _. 0), g_cross = (\<lambda>u _. u), g_rotation = (\<lambda>_ _ _. ())\<rparr>"

definition demo_at :: "rat \<Rightarrow> (rat, unit) transform" where
  "demo_at x = \<lparr>tf_position = \<lparr>comp_x = x, comp_y = 2, comp_z = 3\<rparr>, tf_rotation = (),
     tf_scale = \<lparr>comp_x = 1, comp_y = 1, comp_z = 1\<rparr>\<rparr>"

definition demo_pair :: "(rat, unit, rat vector3, unit) scene" where
  "demo_pair = snd (world_create (snd (world_create new_world)))"

definition demo_scene :: "(rat, unit, rat vector3, unit) scene" where
  "demo_scene = snd (set_parent demo_glm False (Entity 1 1) (Entity 0 1)
     (store_local (Entity 1 1) (demo_at 10) (store_local (Entity 0 1) (demo_at 1) demo_pair)))"

lemma demo_pair_run: "scene_run demo_glm new_world [Entity 0 1, Entity 1 1] demo_pair"
proof -
  let ?W = "snd (world_create (new_world :: (rat, unit, rat vector3, unit) scene))"
  have first: "world_create new_world = (Entity 0 1, ?W)" by (simp add: world_create_def new_world_def)
  have second: "world_create ?W = (Entity 1 1, demo_pair)"
    by (simp add: world_create_def new_world_def demo_pair_def)
  have "scene_run demo_glm new_world ([] @ [Entity 0 1]) ?W"
    by (rule run_step [OF run_start created [OF first]])
  then have "scene_run demo_glm new_world (([] @ [Entity 0 1]) @ [Entity 1 1]) demo_pair"
    by (rule run_step [OF _ created [OF second]])
  then show ?thesis by simp
qed

lemma demo_scene_run: "scene_run demo_glm new_world [Entity 0 1, Entity 1 1] demo_scene"
proof -
  let ?U = "store_local (Entity 0 1) (demo_at 1) demo_pair"
  let ?V = "store_local (Entity 1 1) (demo_at 10) ?U"
  have "world_valid demo_pair (Entity 0 1)" "world_valid ?U (Entity 1 1)" by code_simp+
  then have "scene_step demo_glm demo_pair [] ?U" "scene_step demo_glm ?U [] ?V"
    by (simp_all add: scene_step.transformed)
  moreover have "scene_step demo_glm ?V [] demo_scene"
    unfolding demo_scene_def by (rule parented [OF prod.collapse [symmetric]])
  ultimately have "scene_run demo_glm new_world ((([Entity 0 1, Entity 1 1] @ []) @ []) @ []) demo_scene"
    using demo_pair_run by (intro run_step)
  then show ?thesis by simp
qed

subsection \<open>The properties\<close>

text \<open>
  The claims are stated for runs from the new world. \<open>keeps_handles\<close> of the two parts of a run gives the handles
  their identity.
\<close>

lemma handles_apart:
  assumes "keeps_handles es U V" and "keeps_handles fs V W"
  shows "distinct (es @ fs)" "x \<in> set es \<Longrightarrow> \<not> world_valid V x \<Longrightarrow> \<not> world_valid W x"
  using assms unfolding keeps_handles_def by auto

text \<open>
  C3: In every run of a world from the new one with fewer than 2^32 - 1 creations, whatever entities and components
  are created, destroyed, stored, removed, viewed, set under a parent or taken from it, the invariant holds: every
  pool is a sparse set of live entities, the parent and the children of each entity are inverse to each other, no
  entity stands above itself and none is deeper than 32 below a root, and the free slots are dead ones. In every
  such world, destroying any entity, the end of any view and the propagation return.
\<close>

theorem world_runs_ok:
  assumes run: "scene_run G new_world es W" and few: "length es < 2 ^ 32 - 1"
  shows "world_ok (2 ^ 32 - 2 - length es) W \<and> views_ok W
    \<and> (\<forall>e. world_destroy e W \<noteq> None) \<and> (w_view_depth W = 0 \<or> end_view W \<noteq> None)
    \<and> update_world_transforms G W \<noteq> None"
proof -
  have "2 ^ 32 - 2 - length es + length es < 2 ^ 32 - 1" using few by simp
  from run_kept [OF run this] have ok: "world_ok (2 ^ 32 - 2 - length es) W" and views: "views_ok W"
    by (simp_all add: kept_def)
  have "world_destroy e W \<noteq> None" for e using world_destroy_ok [OF ok views, of e] by auto
  moreover have "w_view_depth W = 0 \<or> end_view W \<noteq> None"
  proof (cases "w_view_depth W = 0")
    case False
    then have "0 < w_view_depth W" using views by (simp add: views_ok_def)
    from end_view_ok [OF ok this] show ?thesis by auto
  qed simp
  moreover have "update_world_transforms G W \<noteq> None" using update_ok [OF ok views, of G] by auto
  ultimately show ?thesis using ok views by blast
qed

theorem world_runs_ok_witness:
  "world_ok (2 ^ 32 - 2 - length [Entity 0 1, Entity 1 1]) demo_scene \<and> views_ok demo_scene
    \<and> world_destroy (Entity 0 1) demo_scene \<noteq> None \<and> update_world_transforms demo_glm demo_scene \<noteq> None"
proof -
  have "length [Entity 0 1, Entity 1 1] < 2 ^ 32 - 1" by simp
  from world_runs_ok [OF demo_scene_run this] show ?thesis by blast
qed

text \<open>
  C8: In a run with fewer than 2^32 - 1 creations no handle is given out twice, only handles that were given out
  are valid, and a handle that has become invalid stays invalid for the rest of the run, even where its slot is used
  again.
\<close>

theorem handles_given_once:
  assumes first: "scene_run G new_world es V" and then_run: "scene_run G V fs W"
    and few: "length (es @ fs) < 2 ^ 32 - 1"
  shows "distinct (es @ fs) \<and> live W \<subseteq> set (es @ fs)
    \<and> (\<forall>e \<in> set es. \<not> world_valid V e \<longrightarrow> \<not> world_valid W e)"
proof -
  have V: "kept (length fs) es new_world V" by (rule run_kept [OF first]) (use few in simp)
  have W: "kept 0 fs V W"
    by (rule scene_run_kept [OF then_run]) (use V in \<open>simp_all add: kept_def\<close>)
  have keeps: "keeps_handles es new_world V" "keeps_handles fs V W" using V W by (simp_all add: kept_def)
  have "live W \<subseteq> set (es @ fs)"
    using keeps_handles_trans [OF keeps] by (simp add: keeps_handles_def new_world_def world_valid_def)
  with handles_apart [OF keeps] show ?thesis by blast
qed

text \<open>The first entity is destroyed and its slot used again, with the next generation.\<close>

theorem handles_given_once_witness:
  "\<exists>V W. world_destroy (Entity 0 1) demo_pair = Some V \<and> world_create V = (Entity 0 2, W)
    \<and> distinct [Entity 0 1, Entity 1 1, Entity 0 2] \<and> \<not> world_valid W (Entity 0 1)"
proof -
  define V where "V = world_release (Entity 0 1) demo_pair"
  define W where "W = snd (world_create V)"
  have "par demo_pair (Entity 0 1) = None" "doomed_children demo_pair (Entity 0 1) = []"
    "world_valid demo_pair (Entity 0 1)" "w_view_depth demo_pair = 0" by code_simp+
  then have V: "world_destroy (Entity 0 1) demo_pair = Some V"
    by (simp add: world_destroy_def destroy_immediate_def doomed_loop.simps V_def)
  have "fst (world_create V) = Entity 0 2" unfolding V_def by code_simp
  then have W: "world_create V = (Entity 0 2, W)" by (simp add: W_def prod_eq_iff)
  have gone: "\<not> world_valid V (Entity 0 1)" unfolding V_def by code_simp
  have first: "scene_run demo_glm new_world ([Entity 0 1, Entity 1 1] @ []) V"
    by (rule run_step [OF demo_pair_run destroyed [OF V]])
  have later: "scene_run demo_glm V ([] @ [Entity 0 2]) W" by (rule run_step [OF run_start created [OF W]])
  have "length (([Entity 0 1, Entity 1 1] @ []) @ [] @ [Entity 0 2]) < 2 ^ 32 - 1" by simp
  from handles_given_once [OF first later this] have "\<not> world_valid W (Entity 0 1)"
    "distinct [Entity 0 1, Entity 1 1, Entity 0 2]" using gone by simp_all
  then show ?thesis using V W by blast
qed

text \<open>
  C7: In every world a run reaches, the propagation of the transforms changes nothing but the world matrices, and
  leaves exactly the entities with a parent with one: the product of the local matrices on the path from the root
  down to the entity, in this order. The world matrix an entity reports is then this product, and where the product
  of matrices is associative also what the slow way up the parents computes.
\<close>

theorem transforms_propagate:
  assumes run: "scene_run G new_world es W" and few: "length es < 2 ^ 32 - 1"
  shows "\<exists>q. update_world_transforms G W = Some (W\<lparr>w_matrices := q\<rparr>)
    \<and> pool_get q = (\<lambda>e. if par W e = None then None else Some (path_matrix G W kMaxHierarchyDepth e))
    \<and> (\<forall>e. world_matrix G (W\<lparr>w_matrices := q\<rparr>) e = path_matrix G W kMaxHierarchyDepth e)
    \<and> ((\<forall>a b c. g_mul G (g_mul G a b) c = g_mul G a (g_mul G b c)) \<longrightarrow>
        (\<forall>e. world_matrix G (W\<lparr>w_matrices := q\<rparr>) e = compute_world_matrix G W e))"
proof -
  have kept: "kept 0 es new_world W" by (rule run_kept [OF run]) (use few in simp)
  then have ok: "world_ok 0 W" and views: "views_ok W" by (simp_all add: kept_def)
  obtain q where q: "update_world_transforms G W = Some (W\<lparr>w_matrices := q\<rparr>)"
    "pool_get q = (\<lambda>e. if par W e = None then None else Some (path_matrix G W kMaxHierarchyDepth e))"
    using update_ok [OF ok views, of G] by blast
  have "world_matrix G (W\<lparr>w_matrices := q\<rparr>) e = path_matrix G W kMaxHierarchyDepth e" for e
    using path_matrix_top [of W e G kMaxHierarchyDepth] by (simp add: world_matrix_def q(2))
  then show ?thesis using q compute_path [OF ok, of G] by (intro exI [of _ q]) simp
qed

lemma shift_assoc: "shift_by (shift_by a b) c = shift_by a (shift_by b c)"
  by (simp add: shift_by_def)

theorem transforms_propagate_witness:
  "\<exists>q. update_world_transforms demo_glm demo_scene = Some (demo_scene\<lparr>w_matrices := q\<rparr>)
    \<and> pool_get q (Entity 1 1) = Some \<lparr>comp_x = 11, comp_y = 4, comp_z = 6\<rparr>
    \<and> world_matrix demo_glm (demo_scene\<lparr>w_matrices := q\<rparr>) (Entity 1 1)
      = compute_world_matrix demo_glm demo_scene (Entity 1 1)"
proof -
  have parent: "par demo_scene (Entity 1 1) \<noteq> None" by code_simp
  have path: "path_matrix demo_glm demo_scene kMaxHierarchyDepth (Entity 1 1) = \<lparr>comp_x = 11, comp_y = 4, comp_z = 6\<rparr>"
    by code_simp
  have "\<forall>a b c. g_mul demo_glm (g_mul demo_glm a b) c = g_mul demo_glm a (g_mul demo_glm b c)"
    by (simp add: demo_glm_def shift_assoc)
  with transforms_propagate [OF demo_scene_run] parent path show ?thesis by auto
qed

end
