(* ===== verification/Net_Entity_Map.thy ===== *)
theory Net_Entity_Map
  imports World_Claims Net_Types
begin

section \<open>Entities and their network ids\<close>

text \<open>
  \<open>src/src/net/net_entity_map.cpp\<close>: the two-way map from network ids to the entities of this machine, and what it
  does together with the component \<open>NetIdentity\<close> of an entity. A world has one such map; where its context has none
  yet, it is the empty one. The components of other types than the hierarchy's are the identities here. The order
  in which the \<open>std::unordered_map\<close> gives its ids to \<open>unbind_dead\<close> is an argument.
\<close>

record net_identity =
  ni_id :: net_id
  ni_owner :: peer_id

record net_entity_map =
  nm_entity :: "net_id \<Rightarrow> entity option"
  nm_id :: "entity \<Rightarrow> net_id option"

definition new_net_map :: net_entity_map where
  "new_net_map = \<lparr>nm_entity = Map.empty, nm_id = Map.empty\<rparr>"

definition net_bind :: "net_id \<Rightarrow> entity \<Rightarrow> net_entity_map \<Rightarrow> bool \<times> net_entity_map" where
  "net_bind i e m =
     (if i = kInvalidNetId then (False, m)
      else if nm_entity m i \<noteq> None \<or> nm_id m e \<noteq> None then (False, m)
      else (True, m\<lparr>nm_entity := (nm_entity m)(i \<mapsto> e), nm_id := (nm_id m)(e \<mapsto> i)\<rparr>))"

definition net_unbind_id :: "net_id \<Rightarrow> net_entity_map \<Rightarrow> bool \<times> net_entity_map" where
  "net_unbind_id i m = (case nm_entity m i of None \<Rightarrow> (False, m)
     | Some e \<Rightarrow> (True, m\<lparr>nm_id := (nm_id m)(e := None), nm_entity := (nm_entity m)(i := None)\<rparr>))"

definition net_unbind_entity :: "entity \<Rightarrow> net_entity_map \<Rightarrow> bool \<times> net_entity_map" where
  "net_unbind_entity e m = (case nm_id m e of None \<Rightarrow> (False, m)
     | Some i \<Rightarrow> (True, m\<lparr>nm_entity := (nm_entity m)(i := None), nm_id := (nm_id m)(e := None)\<rparr>))"

definition unbind_dead :: "net_id list \<Rightarrow> ('t, 'm, 'c) world \<Rightarrow> net_entity_map \<Rightarrow> net_id list \<times> net_entity_map" where
  "unbind_dead order W m =
     (let dead = filter (\<lambda>i. case nm_entity m i of None \<Rightarrow> False | Some e \<Rightarrow> \<not> world_valid W e) order
      in (dead, fold (\<lambda>i m. snd (net_unbind_id i m)) dead m))"

definition net_clear :: "net_entity_map \<Rightarrow> net_entity_map" where
  "net_clear m = m\<lparr>nm_entity := Map.empty, nm_id := Map.empty\<rparr>"

definition bind_net_entity :: "entity \<Rightarrow> net_id \<Rightarrow> peer_id \<Rightarrow> ('t, 'm, net_identity) world \<Rightarrow> net_entity_map
    \<Rightarrow> bool \<times> ('t, 'm, net_identity) world \<times> net_entity_map" where
  "bind_net_entity e i owner W m =
     (if \<not> world_valid W e \<or> i = kInvalidNetId then (False, W, m)
      else (let (done, m') = net_bind i e m in
        if \<not> done then (False, W, m')
        else (let v = \<lparr>ni_id = i, ni_owner = owner\<rparr> in
          (True, with_pool ''NetIdentity'' (\<lambda>p. case pool_get p e of Some _ \<Rightarrow> pool_put e v p
              | None \<Rightarrow> pool_emplace e v p) W, m'))))"

definition unbind_net_entity :: "entity \<Rightarrow> ('t, 'm, net_identity) world \<Rightarrow> net_entity_map
    \<Rightarrow> bool \<times> ('t, 'm, net_identity) world \<times> net_entity_map" where
  "unbind_net_entity e W m =
     (if \<not> world_valid W e then (False, W, m)
      else (let (done, m') = net_unbind_entity e m in (done, world_remove ''NetIdentity'' e W, m')))"

definition find_entity :: "('t, 'm, 'c) world \<Rightarrow> net_entity_map \<Rightarrow> net_id \<Rightarrow> entity option" where
  "find_entity W m i = (case nm_entity m i of None \<Rightarrow> None
     | Some e \<Rightarrow> if \<not> world_valid W e then None else Some e)"

definition find_net_id :: "('t, 'm, net_identity) world \<Rightarrow> entity \<Rightarrow> net_id option" where
  "find_net_id W e = (if \<not> world_valid W e then None else map_option ni_id (world_get ''NetIdentity'' W e))"

subsection \<open>Components of a type through the steps of a world\<close>

lemma pool_remove_empty [simp]: "pool_remove e empty_pool = empty_pool"
  by (simp add: pool_remove_def pool_contains_def empty_pool_def)

lemma pool_of_release: "pool_of type (world_release e W) = pool_remove e (pool_of type W)"
  by (simp add: pool_of_def world_release_def map_of_map split: option.split)

lemma pool_of_cong: "w_pools W' = w_pools W \<Longrightarrow> pool_of type W' = pool_of type W"
  by (simp add: pool_of_def)

lemma release_dead: "slot e < length (w_alive W) \<Longrightarrow> \<not> world_valid (world_release e W) e"
  by (simp add: world_valid_def world_release_def)

lemma release_valid: "world_valid (world_release e W) x \<Longrightarrow> slot x \<noteq> slot e \<and> world_valid W x"
  by (cases "slot x = slot e") (auto simp: world_valid_def world_release_def)

lemma releases_get:
  "pool_ok (pool_of type W) \<Longrightarrow> world_valid (fold world_release ds W) x
    \<Longrightarrow> world_get type (fold world_release ds W) x = world_get type W x \<and> world_valid W x"
proof (induction ds arbitrary: W)
  case (Cons d ds)
  have ok: "pool_ok (pool_of type (world_release d W))"
    using Cons.prems(1) by (simp add: pool_of_release pool_remove_ok)
  then have IH: "world_get type (fold world_release ds (world_release d W)) x = world_get type (world_release d W) x"
    "world_valid (world_release d W) x" using Cons by auto
  from release_valid [OF IH(2)] have "x \<noteq> d" "world_valid W x" by auto
  then show ?case using IH(1) Cons.prems(1) by (simp add: world_get_def pool_of_release pool_remove_ok)
qed simp

definition keeps_components :: "string \<Rightarrow> ('t, 'm, 'c) world \<Rightarrow> ('t, 'm, 'c) world \<Rightarrow> bool" where
  "keeps_components type W W' \<longleftrightarrow> (\<forall>x. world_valid W' x \<longrightarrow> world_valid W x \<and> world_get type W' x = world_get type W x)"

lemma destroy_keeps:
  assumes ok: "world_ok n W" and "destroy_immediate e W = Some W'"
  shows "keeps_components type W W'"
proof (cases "world_valid W e")
  case False
  then show ?thesis using assms(2) by (simp add: destroy_immediate_def keeps_components_def)
next
  case True
  define W1 where "W1 = (case par W e of None \<Rightarrow> W | Some p \<Rightarrow> drop_child e p W)"
  have "map_option (\<lambda>doomed. fold world_release doomed W1) (doomed_loop W1 [] [e]) = Some W'"
    using assms(2) True by (simp only: destroy_immediate_def Let_def W1_def not_True_eq_False if_False)
  then obtain ds where W': "W' = fold world_release ds W1" by blast
  have same: "w_pools W1 = w_pools W" by (simp add: W1_def split: option.split)
  have valid: "world_valid W1 = world_valid W"
    by (rule world_valid_cong) (simp_all add: W1_def split: option.split)
  have "pool_ok (pool_of type W)" by (rule pool_liveD(1) [OF pool_of_live [OF world_okD(3) [OF ok]]])
  then show ?thesis
    using releases_get [of type W1 ds] valid pool_of_cong [OF same]
    by (simp add: keeps_components_def W' world_get_def)
qed

lemma keeps_components_trans:
  "keeps_components type U V \<Longrightarrow> keeps_components type V W \<Longrightarrow> keeps_components type U W"
  by (simp add: keeps_components_def)

lemma destroy_all_keeps:
  "world_ok n W \<Longrightarrow> destroy_all es W = Some W' \<Longrightarrow> keeps_components type W W'"
proof (induction es arbitrary: W)
  case Nil
  then show ?case by (simp add: keeps_components_def)
next
  case (Cons e es)
  obtain V where V: "destroy_immediate e W = Some V" "world_ok n V"
    by (rule settlesD [OF destroy_settles [OF Cons.prems(1)]])
  then have "destroy_all es V = Some W'" using Cons.prems(2) by simp
  from keeps_components_trans [OF destroy_keeps [OF Cons.prems(1) V(1)] Cons.IH [OF V(2) this]] show ?case .
qed

lemma world_get_views [simp]:
  "world_get type (W\<lparr>w_pending := ps\<rparr>) = world_get type W" "world_get type (W\<lparr>w_view_depth := k\<rparr>) = world_get type W"
  by (simp_all add: world_get_def pool_of_def fun_eq_iff)

lemma world_destroy_keeps:
  "world_ok n W \<Longrightarrow> world_destroy e W = Some W' \<Longrightarrow> keeps_components type W W'"
  using destroy_keeps [of n W e W' type]
  by (auto simp: world_destroy_def keeps_components_def split: if_splits)

lemma end_view_keeps:
  assumes ok: "world_ok n W" and "end_view W = Some W'"
  shows "keeps_components type W W'"
proof (cases "w_view_depth W = 1")
  case True
  let ?W = "W\<lparr>w_view_depth := 0, w_pending := []\<rparr>"
  have "world_ok n ?W" "destroy_all (w_pending W) ?W = Some W'"
    using ok assms(2) True by (simp_all add: end_view_def flush_destroyed_def)
  from destroy_all_keeps [OF this, of type] show ?thesis by (simp add: keeps_components_def)
next
  case False
  then show ?thesis using assms(2) by (auto simp: end_view_def keeps_components_def)
qed

subsection \<open>The map and the identities agree\<close>

definition net_map_ok :: "net_entity_map \<Rightarrow> bool" where
  "net_map_ok m \<longleftrightarrow> (\<forall>i e. nm_entity m i = Some e \<longleftrightarrow> nm_id m e = Some i) \<and> nm_entity m kInvalidNetId = None"

text \<open>
  The map is public: \<open>bind\<close>, \<open>unbind\<close> and \<open>clear\<close> change it without the component, as the client does when an
  entity leaves it. \<open>D\<close> holds the entities whose entry was changed so and not through \<open>bind_net_entity\<close> or
  \<open>unbind_net_entity\<close> since.
\<close>

definition identities_ok :: "('t, 'm, net_identity) world \<Rightarrow> net_entity_map \<Rightarrow> entity set \<Rightarrow> bool" where
  "identities_ok W m D \<longleftrightarrow> net_map_ok m \<and> (\<forall>e \<in> dom (nm_id m) - D. issued W e)
     \<and> (\<forall>e. e \<notin> D \<longrightarrow> world_valid W e \<longrightarrow> map_option ni_id (world_get ''NetIdentity'' W e) = nm_id m e)"

lemma net_map_okD:
  assumes "net_map_ok m"
  shows "nm_entity m i = Some e \<longleftrightarrow> nm_id m e = Some i" "nm_entity m kInvalidNetId = None"
  using assms by (auto simp: net_map_ok_def)

lemma net_bind_ok:
  "net_map_ok m \<Longrightarrow> net_bind i e m = (b, m') \<Longrightarrow> net_map_ok m' \<and> (if b then nm_id m' = (nm_id m)(e \<mapsto> i) else m' = m)"
  by (auto simp: net_bind_def net_map_ok_def split: if_splits)

lemma net_map_inj: "net_map_ok m \<Longrightarrow> nm_id m e = Some i \<Longrightarrow> nm_id m f = Some i \<Longrightarrow> e = f"
  using net_map_okD(1) [of m i e] net_map_okD(1) [of m i f] by simp

lemma net_map_cut:
  assumes ok: "net_map_ok m" and e: "nm_id m e = Some i"
  shows "net_map_ok (m\<lparr>nm_entity := (nm_entity m)(i := None), nm_id := (nm_id m)(e := None)\<rparr>)"
  unfolding net_map_ok_def
proof (intro conjI allI)
  fix j f
  have "nm_id m f = Some j \<Longrightarrow> f = e \<longleftrightarrow> j = i" using net_map_inj [OF ok _ e, of f] e by auto
  then show "nm_entity (m\<lparr>nm_entity := (nm_entity m)(i := None), nm_id := (nm_id m)(e := None)\<rparr>) j = Some f
      \<longleftrightarrow> nm_id (m\<lparr>nm_entity := (nm_entity m)(i := None), nm_id := (nm_id m)(e := None)\<rparr>) f = Some j"
    using net_map_okD(1) [OF ok, of j f] by auto
qed (use net_map_okD(2) [OF ok] in simp)

lemma net_unbind_id_ok:
  assumes ok: "net_map_ok m"
  shows "net_map_ok (snd (net_unbind_id i m))"
    and "nm_id (snd (net_unbind_id i m)) = (\<lambda>e. if nm_id m e = Some i then None else nm_id m e)"
proof -
  have "net_map_ok (snd (net_unbind_id i m))
    \<and> nm_id (snd (net_unbind_id i m)) = (\<lambda>e. if nm_id m e = Some i then None else nm_id m e)"
  proof (cases "nm_entity m i")
    case None
    then have "nm_id m e \<noteq> Some i" for e using net_map_okD(1) [OF ok, of i e] by simp
    then show ?thesis using None ok by (auto simp: net_unbind_id_def)
  next
    case (Some e)
    then have e: "nm_id m e = Some i" using net_map_okD(1) [OF ok] by simp
    have "(\<lambda>f. if nm_id m f = Some i then None else nm_id m f) = (nm_id m)(e := None)"
      using e by (auto simp: fun_eq_iff dest: net_map_inj [OF ok _ e])
    then show ?thesis using net_map_cut [OF ok e] Some by (simp add: net_unbind_id_def net_map_ok_def)
  qed
  then show "net_map_ok (snd (net_unbind_id i m))"
    "nm_id (snd (net_unbind_id i m)) = (\<lambda>e. if nm_id m e = Some i then None else nm_id m e)" by auto
qed

lemma net_unbind_entity_ok:
  assumes ok: "net_map_ok m"
  shows "net_map_ok (snd (net_unbind_entity e m))" "nm_id (snd (net_unbind_entity e m)) = (nm_id m)(e := None)"
  using net_map_cut [OF ok, of e] ok by (auto simp: net_unbind_entity_def fun_eq_iff split: option.split)

lemma unbind_ids:
  "net_map_ok m \<Longrightarrow> net_map_ok (fold (\<lambda>i m. snd (net_unbind_id i m)) is m)
    \<and> nm_id (fold (\<lambda>i m. snd (net_unbind_id i m)) is m) = (\<lambda>e. if nm_id m e \<in> Some ` set is then None else nm_id m e)"
  by (induction "is" arbitrary: m) (auto simp: net_unbind_id_ok fun_eq_iff)

lemma unbind_dead_ok:
  assumes ok: "net_map_ok m" and dead: "unbind_dead order W m = (is, m')"
  shows "net_map_ok m'" "world_valid W e \<Longrightarrow> nm_id m' e = nm_id m e" "nm_id m' e = Some i \<Longrightarrow> nm_id m e = Some i"
    and "set order = dom (nm_entity m) \<Longrightarrow> nm_id m' e = Some i \<Longrightarrow> world_valid W e"
proof -
  define gone where "gone = filter (\<lambda>i. case nm_entity m i of None \<Rightarrow> False | Some e \<Rightarrow> \<not> world_valid W e) order"
  have m': "m' = fold (\<lambda>i m. snd (net_unbind_id i m)) gone m"
    using dead by (auto simp: unbind_dead_def Let_def gone_def)
  note all = unbind_ids [OF ok, of gone, folded m']
  show "net_map_ok m'" using all by blast
  show "world_valid W e \<Longrightarrow> nm_id m' e = nm_id m e"
    using all net_map_okD(1) [OF ok, of _ e] by (auto simp: gone_def split: option.splits)
  show "nm_id m' e = Some i \<Longrightarrow> nm_id m e = Some i" using all by (auto split: if_splits)
  show "world_valid W e" if order: "set order = dom (nm_entity m)" and e: "nm_id m' e = Some i"
  proof (rule ccontr)
    assume "\<not> world_valid W e"
    moreover have i: "nm_id m e = Some i" "nm_id m e \<notin> Some ` set gone" using all e by (auto split: if_splits)
    ultimately have "i \<in> set gone" using order net_map_okD(1) [OF ok, of i e] by (auto simp: gone_def)
    then show False using i by auto
  qed
qed

subsection \<open>Runs\<close>

inductive net_step :: "('f, 'q, 'm) glm \<Rightarrow> ('f, 'q, 'm, net_identity) scene \<Rightarrow> net_entity_map \<Rightarrow> entity set
    \<Rightarrow> entity list \<Rightarrow> ('f, 'q, 'm, net_identity) scene \<Rightarrow> net_entity_map \<Rightarrow> entity set \<Rightarrow> bool" for G where
  scene_moved: "scene_step G W es W' \<Longrightarrow> w_pools W' = w_pools W \<Longrightarrow> net_step G W m D es W' m D"
| entity_destroyed: "world_destroy e W = Some W' \<Longrightarrow> net_step G W m D [] W' m D"
| view_left: "0 < w_view_depth W \<Longrightarrow> end_view W = Some W' \<Longrightarrow> net_step G W m D [] W' m D"
| entity_bound: "bind_net_entity e i owner W m = (b, W', m') \<Longrightarrow> net_step G W m D [] W' m' (if b then D - {e} else D)"
| entity_unbound: "unbind_net_entity e W m = (b, W', m')
    \<Longrightarrow> net_step G W m D [] W' m' (if world_valid W e then D - {e} else D)"
| dead_unbound: "unbind_dead order W m = (dead, m') \<Longrightarrow> net_step G W m D [] W m' D"
| map_bound: "net_bind i e m = (b, m') \<Longrightarrow> net_step G W m D [] W m' (if b then insert e D else D)"
| map_unbound_id: "net_unbind_id i m = (b, m') \<Longrightarrow> net_step G W m D [] W m' (D \<union> {e. nm_id m e = Some i})"
| map_unbound_entity: "net_unbind_entity e m = (b, m') \<Longrightarrow> net_step G W m D [] W m' (insert e D)"
| map_cleared: "net_step G W m D [] W (net_clear m) (D \<union> dom (nm_id m))"

inductive net_run :: "('f, 'q, 'm) glm \<Rightarrow> entity list \<Rightarrow> ('f, 'q, 'm, net_identity) scene \<Rightarrow> net_entity_map
    \<Rightarrow> entity set \<Rightarrow> bool" for G where
  net_start: "net_run G [] new_world new_net_map {}"
| net_more: "net_run G es W m D \<Longrightarrow> net_step G W m D fs W' m' D' \<Longrightarrow> net_run G (es @ fs) W' m' D'"

lemma bind_net_entity_ok:
  assumes ok: "world_ok n W" and ids: "identities_ok W m D" and bind: "bind_net_entity e i owner W m = (b, W', m')"
  shows "world_ok n W'" "same_slots W W'" "identities_ok W' m' (if b then D - {e} else D)"
proof -
  have net: "net_map_ok m" using ids by (simp add: identities_ok_def)
  have "world_ok n W' \<and> same_slots W W' \<and> identities_ok W' m' (if b then D - {e} else D)"
  proof (cases "world_valid W e \<and> i \<noteq> kInvalidNetId \<and> fst (net_bind i e m)")
    case False
    then have "W' = W" "m' = m" "\<not> b"
      using bind net_bind_ok [OF net, of i e] by (auto simp: bind_net_entity_def split: if_splits prod.splits)
    then show ?thesis using ok ids by simp
  next
    case True
    let ?v = "\<lparr>ni_id = i, ni_owner = owner\<rparr>"
    let ?f = "\<lambda>p. case pool_get p e of Some _ \<Rightarrow> pool_put e ?v p | None \<Rightarrow> pool_emplace e ?v p"
    have b: b and m': "net_bind i e m = (True, m')" and W': "W' = with_pool ''NetIdentity'' ?f W"
      using bind True by (auto simp: bind_net_entity_def Let_def split: prod.splits)
    have p: "pool_live (live W) (pool_of ''NetIdentity'' W)" by (rule pool_of_live [OF world_okD(3) [OF ok]])
    have e: "world_valid W e" using True by blast
    note store = store_live [OF ok e p, where f = "\<lambda>_. ?v" and v = ?v]
    note made = with_pool_ok [OF ok, of ?f "''NetIdentity''", OF store(1), folded W']
    have get: "world_get ''NetIdentity'' W' = (world_get ''NetIdentity'' W)(e \<mapsto> ?v)"
      using store(2) by (simp add: world_get_def W' pool_of_with fun_eq_iff split: option.splits)
    have "issued W e" using e slots_okD(1) [OF world_okD(1) [OF ok]] by (simp add: issued_def world_valid_def)
    then have "identities_ok W' m' (D - {e})"
      using net_bind_ok [OF net m'] ids same_slotsD(1,4) [OF made(2)] get by (auto simp: identities_ok_def)
    then show ?thesis using made b by simp
  qed
  then show "world_ok n W'" "same_slots W W'" "identities_ok W' m' (if b then D - {e} else D)" by auto
qed

lemma world_remove_get:
  "pool_ok (pool_of type W) \<Longrightarrow> world_get type (world_remove type e W) = (world_get type W)(e := None)"
proof (cases "map_of (w_pools W) type")
  case None
  then show ?thesis by (simp add: world_get_def [abs_def] world_remove_def pool_of_def)
next
  case (Some p)
  assume "pool_ok (pool_of type W)"
  then show ?thesis using Some by (simp add: world_get_def [abs_def] world_remove_def pool_of_with pool_remove_ok)
qed

lemma unbind_net_entity_ok:
  assumes ok: "world_ok n W" and ids: "identities_ok W m D" and unbind: "unbind_net_entity e W m = (b, W', m')"
  shows "world_ok n W'" "same_slots W W'" "identities_ok W' m' (if world_valid W e then D - {e} else D)"
proof -
  have net: "net_map_ok m" using ids by (simp add: identities_ok_def)
  have "world_ok n W' \<and> same_slots W W' \<and> identities_ok W' m' (if world_valid W e then D - {e} else D)"
  proof (cases "world_valid W e")
    case False
    then show ?thesis using ok ids unbind by (simp add: unbind_net_entity_def)
  next
    case True
    have m': "m' = snd (net_unbind_entity e m)" and W': "W' = world_remove ''NetIdentity'' e W"
      using unbind True by (auto simp: unbind_net_entity_def split: prod.splits)
    note removed = world_remove_ok [OF ok, of "''NetIdentity''" e, folded W']
    have "pool_ok (pool_of ''NetIdentity'' W)" by (rule pool_liveD(1) [OF pool_of_live [OF world_okD(3) [OF ok]]])
    then have get: "world_get ''NetIdentity'' W' = (world_get ''NetIdentity'' W)(e := None)"
      unfolding W' by (rule world_remove_get)
    have "identities_ok W' m' (D - {e})"
      using net_unbind_entity_ok [OF net, of e] ids same_slotsD(1,4) [OF removed(2)] get
      by (auto simp: identities_ok_def m')
    then show ?thesis using removed True by simp
  qed
  then show "world_ok n W'" "same_slots W W'" "identities_ok W' m' (if world_valid W e then D - {e} else D)" by auto
qed

lemma identities_keep:
  assumes "identities_ok W m D" and "keeps_handles [] W W'" and "keeps_components ''NetIdentity'' W W'"
  shows "identities_ok W' m D"
  using assms by (auto simp: identities_ok_def keeps_handles_def keeps_components_def)

lemma identities_moved:
  assumes ids: "identities_ok W m D" and ok: "world_ok n W" and handles: "keeps_handles es W W'"
    and pools: "w_pools W' = w_pools W"
  shows "identities_ok W' m D"
proof -
  have "map_option ni_id (world_get ''NetIdentity'' W' e) = nm_id m e" if e: "world_valid W' e" "e \<notin> D" for e
  proof (cases "world_valid W e")
    case True
    then show ?thesis using ids e pool_of_cong [OF pools] by (simp add: identities_ok_def world_get_def)
  next
    case False
    then have "e \<in> set es" using handles e by (auto simp: keeps_handles_def)
    then have "nm_id m e = None" using handles ids e by (auto simp: keeps_handles_def identities_ok_def)
    moreover have "world_get ''NetIdentity'' W e = None"
      using False pool_liveD(2) [OF pool_of_live [OF world_okD(3) [OF ok]], of "''NetIdentity''" e]
      by (cases "world_get ''NetIdentity'' W e") (auto simp: world_get_def)
    ultimately show ?thesis using pool_of_cong [OF pools] by (simp add: world_get_def)
  qed
  then show ?thesis using ids handles by (auto simp: identities_ok_def keeps_handles_def)
qed

lemma identities_changed:
  assumes "identities_ok W m D" and "net_map_ok m'" and "\<And>e. e \<notin> D' \<Longrightarrow> e \<notin> D \<and> nm_id m' e = nm_id m e"
  shows "identities_ok W m' D'"
  using assms by (fastforce simp: identities_ok_def)

lemma net_step_kept:
  assumes "net_step G W m D es W' m' D'"
  shows "world_ok (n + length es) W \<Longrightarrow> views_ok W \<Longrightarrow> identities_ok W m D
    \<Longrightarrow> kept n es W W' \<and> identities_ok W' m' D'"
  using assms
proof (induction rule: net_step.induct)
  case (scene_moved W es W' m D)
  then show ?case
    using scene_step_kept [of G W es W' n] identities_moved [of W m D "n + length es" es W'] by (auto simp: kept_def)
next
  case (entity_destroyed e W W' m D)
  then show ?case
    using scene_step_kept [OF scene_step.destroyed [OF entity_destroyed(1)], of n]
      identities_keep [of W m D W'] world_destroy_keeps [of n W e W' "''NetIdentity''"] by (auto simp: kept_def)
next
  case (view_left W W' m D)
  then show ?case
    using scene_step_kept [OF scene_step.view_ended [OF view_left(1,2)], of n]
      identities_keep [of W m D W'] end_view_keeps [of n W W' "''NetIdentity''"] by (auto simp: kept_def)
next
  case (entity_bound e i owner W m b W' m' D)
  then show ?case using bind_net_entity_ok [of n W m D e i owner b W' m'] by (auto intro!: keptI)
next
  case (entity_unbound e W m b W' m' D)
  then show ?case using unbind_net_entity_ok [of n W m D e b W' m'] by (auto intro!: keptI)
next
  case (dead_unbound order W m dead m' D)
  then have "net_map_ok m" by (simp add: identities_ok_def)
  note dead = unbind_dead_ok [OF this dead_unbound(1)]
  have "identities_ok W m' D"
    using dead(1) dead_unbound(4) by (auto simp: identities_ok_def dead(2) dest: dead(3))
  then show ?case using dead_unbound by (auto intro!: keptI)
next
  case (map_bound i e m b m' W D)
  then have net: "net_map_ok m" by (simp add: identities_ok_def)
  have "identities_ok W m' (if b then insert e D else D)"
    by (rule identities_changed [OF map_bound(4)]) (use net_bind_ok [OF net map_bound(1)] in \<open>auto split: if_splits\<close>)
  then show ?case using map_bound by (auto intro!: keptI)
next
  case (map_unbound_id i m b m' W D)
  then have net: "net_map_ok m" by (simp add: identities_ok_def)
  have "identities_ok W m' (D \<union> {e. nm_id m e = Some i})"
    by (rule identities_changed [OF map_unbound_id(4)]) (use net_unbind_id_ok [OF net, of i] map_unbound_id(1) in auto)
  then show ?case using map_unbound_id by (auto intro!: keptI)
next
  case (map_unbound_entity e m b m' W D)
  then have net: "net_map_ok m" by (simp add: identities_ok_def)
  have "identities_ok W m' (insert e D)"
    by (rule identities_changed [OF map_unbound_entity(4)])
      (use net_unbind_entity_ok [OF net, of e] map_unbound_entity(1) in auto)
  then show ?case using map_unbound_entity by (auto intro!: keptI)
next
  case (map_cleared W m D)
  have "identities_ok W (net_clear m) (D \<union> dom (nm_id m))"
    by (rule identities_changed [OF map_cleared(3)]) (simp_all add: net_clear_def net_map_ok_def domIff)
  then show ?case using map_cleared by (auto intro!: keptI)
qed

lemma net_run_kept:
  assumes "net_run G es W m D"
  shows "n + length es < 2 ^ 32 - 1 \<Longrightarrow> kept n es new_world W \<and> identities_ok W m D"
  using assms
proof (induction arbitrary: n rule: net_run.induct)
  case net_start
  then show ?case
    using new_world_ok(1) [of n] new_world_ok(2)
    by (simp add: kept_def keeps_handles_def identities_ok_def net_map_ok_def new_net_map_def new_world_def world_valid_def)
next
  case (net_more es W m D fs W' m' D')
  have old: "kept (n + length fs) es new_world W" "identities_ok W m D"
    using net_more.IH [of "n + length fs"] net_more.prems by (simp_all add: ac_simps)
  then have "kept n fs W W' \<and> identities_ok W' m' D'"
    using net_step_kept [OF net_more.hyps(2), of n] by (simp add: kept_def)
  then show ?case using old(1) keeps_handles_trans by (auto simp: kept_def)
qed

text \<open>
  C13: However entities are made, destroyed, bound to network ids and unbound, through \<open>bind_net_entity\<close> and
  \<open>unbind_net_entity\<close> or through the map itself, the map cleared and the ids of dead entities dropped, in a run with
  fewer than 2^32 - 1 creations: an id finds a live entity exactly when the map has that entity under that id, and no
  two ids find the same one; no entity is found under the invalid id; \<open>find_net_id\<close> gives only live entities an id,
  and for every entity but those in \<open>D\<close>, whose entry was last changed through the map itself, it is the inverse of
  \<open>find_entity\<close>. After \<open>unbind_dead\<close> has seen every id, only live entities are bound.
\<close>

theorem net_ids_inverse:
  assumes "net_run G es W m D" and "length es < 2 ^ 32 - 1"
  shows "(\<forall>i e. find_entity W m i = Some e \<longleftrightarrow> world_valid W e \<and> nm_id m e = Some i)
    \<and> (\<forall>i j e. find_entity W m i = Some e \<and> find_entity W m j = Some e \<longrightarrow> i = j)
    \<and> find_entity W m kInvalidNetId = None
    \<and> (\<forall>i e. find_net_id W e = Some i \<longrightarrow> world_valid W e)
    \<and> (\<forall>i e. e \<notin> D \<longrightarrow> (find_entity W m i = Some e \<longleftrightarrow> find_net_id W e = Some i))
    \<and> (\<forall>order. set order = dom (nm_entity m) \<longrightarrow>
        (\<forall>e \<in> dom (nm_id (snd (unbind_dead order W m))). world_valid W e))"
proof -
  have ids: "identities_ok W m D" using net_run_kept [OF assms(1), of 0] assms(2) by simp
  then have net: "net_map_ok m" by (simp add: identities_ok_def)
  have by_id: "find_entity W m i = Some e \<longleftrightarrow> world_valid W e \<and> nm_id m e = Some i" for i e
    using net_map_okD(1) [OF net, of i e] by (auto simp: find_entity_def split: option.split)
  have "find_net_id W e = Some i \<longleftrightarrow> world_valid W e \<and> nm_id m e = Some i" if "e \<notin> D" for i e
    using ids that by (simp add: find_net_id_def identities_ok_def)
  moreover have "find_entity W m kInvalidNetId = None" using net_map_okD(2) [OF net] by (simp add: find_entity_def)
  moreover have "find_net_id W e = Some i \<Longrightarrow> world_valid W e" for i e by (simp add: find_net_id_def split: if_splits)
  moreover have "world_valid W e" if "set order = dom (nm_entity m)" "e \<in> dom (nm_id (snd (unbind_dead order W m)))" for order e
    using unbind_dead_ok(4) [OF net, of order W] that by (cases "unbind_dead order W m") auto
  ultimately show ?thesis unfolding by_id by auto
qed

subsection \<open>A run\<close>

definition net_demo :: "(rat, unit, rat vector3, net_identity) scene \<times> net_entity_map" where
  "net_demo = (let (_, W1) = world_create new_world; (_, W2) = world_create W1;
                   (_, W, m) = bind_net_entity (Entity 0 1) 7 1 W2 new_net_map
               in (W, snd (net_bind 9 (Entity 1 1) m)))"

lemma net_demo_run: "net_run demo_glm [Entity 0 1, Entity 1 1] (fst net_demo) (snd net_demo) {Entity 1 1}"
proof -
  let ?W0 = "new_world :: (rat, unit, rat vector3, net_identity) scene"
  let ?W1 = "snd (world_create ?W0)"
  let ?W2 = "snd (world_create ?W1)"
  let ?B = "bind_net_entity (Entity 0 1) 7 1 ?W2 new_net_map"
  let ?M = "net_bind 9 (Entity 1 1) (snd (snd ?B))"
  have first: "world_create ?W0 = (Entity 0 1, ?W1)" "world_create ?W1 = (Entity 1 1, ?W2)"
    by (simp_all add: world_create_def new_world_def)
  have same: "w_pools ?W1 = w_pools ?W0" "w_pools ?W2 = w_pools ?W1" by (simp_all add: world_create_def new_world_def)
  have "fst ?B" "fst ?M" by code_simp+
  then have bound: "?B = (True, fst (snd ?B), snd (snd ?B))" "?M = (True, snd ?M)" by (simp_all add: prod_eq_iff)
  have "net_run demo_glm ([] @ [Entity 0 1]) ?W1 new_net_map {}"
    by (rule net_more [OF net_start scene_moved [OF scene_step.created [OF first(1)] same(1)]])
  from net_more [OF this scene_moved [OF scene_step.created [OF first(2)] same(2)]]
  have "net_run demo_glm (([] @ [Entity 0 1]) @ [Entity 1 1]) ?W2 new_net_map {}" .
  from net_more [OF net_more [OF this entity_bound [OF bound(1)]] map_bound [OF bound(2)]]
  show ?thesis by (simp add: net_demo_def Let_def case_prod_unfold)
qed

theorem net_ids_inverse_witness:
  "find_entity (fst net_demo) (snd net_demo) 7 = Some (Entity 0 1) \<and> find_net_id (fst net_demo) (Entity 0 1) = Some 7
    \<and> find_entity (fst net_demo) (snd net_demo) 9 = Some (Entity 1 1) \<and> find_net_id (fst net_demo) (Entity 1 1) = None"
proof -
  have "find_entity (fst net_demo) (snd net_demo) 7 = Some (Entity 0 1)"
    "find_entity (fst net_demo) (snd net_demo) 9 = Some (Entity 1 1)"
    "find_net_id (fst net_demo) (Entity 1 1) = None" by code_simp+
  moreover have "Entity 0 1 \<notin> {Entity 1 1}" "length [Entity 0 1, Entity 1 1] < 2 ^ 32 - 1" by simp_all
  ultimately show ?thesis using net_ids_inverse [OF net_demo_run] by blast
qed

end
