(* ===== verification/Ecs_Events.thy ===== *)
theory Ecs_Events
  imports Main "HOL-Library.Sublist"
begin

section \<open>Event queues\<close>

text \<open>
  \<open>Events\<close>, \<open>EventCursor\<close> and \<open>EventReader\<close> of \<open>src/include/engine/ecs/events.h\<close>: an event stays in the
  queue until the second \<open>update\<close> after it was sent, and a reader with a cursor sees what was sent since its
  last read. The ids of events are numbers of \<open>std::size_t\<close>, which are natural numbers here: fewer than
  2^64 events are sent.
\<close>

record 'a events =
  ev_previous :: "'a list"
  ev_current :: "'a list"
  ev_count :: nat
  ev_oldest :: nat

definition new_events :: "'a events" where
  "new_events = \<lparr>ev_previous = [], ev_current = [], ev_count = 0, ev_oldest = 0\<rparr>"

definition events_send :: "'a \<Rightarrow> 'a events \<Rightarrow> 'a events" where
  "events_send x q = q\<lparr>ev_current := ev_current q @ [x], ev_count := ev_count q + 1\<rparr>"

definition events_update :: "'a events \<Rightarrow> 'a events" where
  "events_update q = q\<lparr>ev_oldest := ev_oldest q + length (ev_previous q),
     ev_previous := ev_current q, ev_current := []\<rparr>"

text \<open>A reader is where it starts and where it ends in the two generations, one behind the other.\<close>

record event_reader =
  reader_start :: nat
  reader_end :: nat

definition event_at :: "'a events \<Rightarrow> nat \<Rightarrow> 'a" where
  "event_at q i = (if i < length (ev_previous q) then ev_previous q ! i
     else ev_current q ! (i - length (ev_previous q)))"

definition open_reader :: "'a events \<Rightarrow> event_reader" where
  "open_reader q = \<lparr>reader_start = 0, reader_end = length (ev_previous q) + length (ev_current q)\<rparr>"

text \<open>The reader of a cursor, and the cursor after it.\<close>

definition open_cursor :: "'a events \<Rightarrow> nat \<Rightarrow> event_reader \<times> nat" where
  "open_cursor q next_id =
     (let start = (if ev_oldest q < next_id then next_id - ev_oldest q else 0);
          stop = length (ev_previous q) + length (ev_current q)
      in (\<lparr>reader_start = (if stop < start then stop else start), reader_end = stop\<rparr>, ev_count q))"

definition reader_events :: "'a events \<Rightarrow> event_reader \<Rightarrow> 'a list" where
  "reader_events q r = map (event_at q) [reader_start r..<reader_end r]"

subsection \<open>Runs\<close>

text \<open>A run of a queue with one reader that keeps a cursor: what was read, and the queue and the cursor behind.\<close>

datatype 'a event_op = SendEvent 'a | UpdateEvents | ReadEvents

fun event_run :: "'a event_op list \<Rightarrow> 'a events \<Rightarrow> nat \<Rightarrow> 'a list list" where
  "event_run [] q c = []"
| "event_run (SendEvent x # ops) q c = event_run ops (events_send x q) c"
| "event_run (UpdateEvents # ops) q c = event_run ops (events_update q) c"
| "event_run (ReadEvents # ops) q c =
     (let (r, c') = open_cursor q c in reader_events q r # event_run ops q c')"

fun events_sent :: "'a event_op list \<Rightarrow> 'a list" where
  "events_sent [] = []"
| "events_sent (SendEvent x # ops) = x # events_sent ops"
| "events_sent (_ # ops) = events_sent ops"

text \<open>A reader is in time where at most one update goes by between its reads.\<close>

fun in_time :: "nat \<Rightarrow> 'a event_op list \<Rightarrow> bool" where
  "in_time k [] = True"
| "in_time k (SendEvent x # ops) = in_time k ops"
| "in_time k (UpdateEvents # ops) = (k = 0 \<and> in_time 1 ops)"
| "in_time k (ReadEvents # ops) = in_time 0 ops"

subsection \<open>What a reader sees\<close>

text \<open>The queue holds the newest of the events that were sent, \<open>h\<close>.\<close>

definition events_hold :: "'a list \<Rightarrow> 'a events \<Rightarrow> bool" where
  "events_hold h q \<longleftrightarrow> ev_count q = length h \<and> ev_oldest q \<le> length h
     \<and> ev_previous q @ ev_current q = drop (ev_oldest q) h"

lemma event_at_append: "i < length (ev_previous q) + length (ev_current q)
    \<Longrightarrow> event_at q i = (ev_previous q @ ev_current q) ! i"
  by (simp add: event_at_def nth_append)

lemma reader_events_drop:
  assumes "events_hold h q"
  shows "reader_events q \<lparr>reader_start = a, reader_end = length (ev_previous q) + length (ev_current q)\<rparr>
    = drop (ev_oldest q + a) h"
proof -
  let ?es = "ev_previous q @ ev_current q"
  have "reader_events q \<lparr>reader_start = a, reader_end = length (ev_previous q) + length (ev_current q)\<rparr>
    = map ((!) ?es) [a..<length ?es]"
    by (simp add: reader_events_def event_at_append)
  also have "\<dots> = drop a ?es" by (rule nth_equalityI) (simp_all del: drop_append)
  also have "\<dots> = drop (ev_oldest q + a) h" using assms by (simp add: events_hold_def ac_simps)
  finally show ?thesis .
qed

lemma open_cursor_reads:
  assumes hold: "events_hold h q" and c: "c \<le> length h"
  shows "\<exists>r. open_cursor q c = (r, length h) \<and> reader_events q r = drop (max c (ev_oldest q)) h"
proof -
  have "length (ev_previous q) + length (ev_current q) = length h - ev_oldest q"
    using hold by (metis events_hold_def length_append length_drop)
  then show ?thesis
    using reader_events_drop [OF hold, of "c - ev_oldest q"] reader_events_drop [OF hold, of 0] hold c
    by (auto simp: open_cursor_def events_hold_def Let_def max_def)
qed

lemma events_hold_new [simp]: "events_hold [] new_events"
  by (simp add: events_hold_def new_events_def)

lemma events_hold_send: "events_hold h q \<Longrightarrow> events_hold (h @ [x]) (events_send x q)"
  by (simp add: events_hold_def events_send_def)

lemma events_hold_update:
  assumes "events_hold h q" shows "events_hold h (events_update q)"
proof -
  have "length (ev_previous q) + length (ev_current q) = length h - ev_oldest q"
    using assms by (metis events_hold_def length_append length_drop)
  then have "ev_oldest q + length (ev_previous q) \<le> length h" using assms by (auto simp: events_hold_def)
  moreover have "ev_current q = drop (length (ev_previous q)) (drop (ev_oldest q) h)"
    using assms by (metis append_eq_conv_conj events_hold_def)
  ultimately show ?thesis using assms by (simp add: events_hold_def events_update_def ac_simps)
qed

text \<open>An event is read at most once, and in order; a reader that is in time misses none.\<close>

lemma event_run_subseq:
  "events_hold h q \<Longrightarrow> c \<le> length h \<Longrightarrow> subseq (concat (event_run ops q c)) (drop c h @ events_sent ops)"
proof (induction ops q c arbitrary: h rule: event_run.induct)
  case (2 x ops q c)
  then show ?case using events_hold_send [OF 2(2), of x] by force
next
  case (3 ops q c)
  then show ?case using events_hold_update [OF 3(2)] by simp
next
  case (4 ops q c)
  obtain r where r: "open_cursor q c = (r, length h)" "reader_events q r = drop (max c (ev_oldest q)) h"
    using open_cursor_reads [OF 4(2,3)] by blast
  have "subseq (concat (event_run ops q (length h))) (drop (length h) h @ events_sent ops)"
    using 4(1) [OF r(1) [symmetric] refl 4(2)] by simp
  moreover have "drop (max c (ev_oldest q)) h = drop (max c (ev_oldest q) - c) (drop c h)" by simp
  then have "subseq (drop (max c (ev_oldest q)) h) (drop c h)" by (metis suffix_drop suffix_imp_subseq)
  ultimately show ?case using r by (simp add: list_emb_append_mono)
qed simp

text \<open>What is in the current generation, and by one update in the previous one, the reader has not missed.\<close>

definition not_missed :: "nat \<Rightarrow> 'a events \<Rightarrow> nat \<Rightarrow> bool" where
  "not_missed k q c \<longleftrightarrow> ev_oldest q \<le> c \<and> (k = 0 \<longrightarrow> ev_oldest q + length (ev_previous q) \<le> c)"

lemma event_run_complete:
  "events_hold h q \<Longrightarrow> c \<le> length h \<Longrightarrow> not_missed k q c \<Longrightarrow> in_time k ops
    \<Longrightarrow> concat (event_run (ops @ [ReadEvents]) q c) = drop c h @ events_sent ops"
proof (induction k ops arbitrary: h q c rule: in_time.induct)
  case (1 k)
  have "max c (ev_oldest q) = c" using 1(3) by (simp add: not_missed_def max_def)
  then show ?case using open_cursor_reads [OF 1(1,2)] by auto
next
  case (2 k x ops)
  then show ?case
    using 2(1) [OF events_hold_send [OF 2(2), of x]] by (simp add: not_missed_def events_send_def)
next
  case (3 k ops)
  then show ?case
    using 3(1) [OF events_hold_update [OF 3(2)] 3(3)] by (simp add: not_missed_def events_update_def)
next
  case (4 k ops)
  obtain r where r: "open_cursor q c = (r, length h)" "reader_events q r = drop (max c (ev_oldest q)) h"
    using open_cursor_reads [OF 4(2,3)] by blast
  have "max c (ev_oldest q) = c" using 4(4) by (simp add: not_missed_def max_def)
  moreover have "not_missed 0 q (length h)"
    using 4(2) by (auto simp: not_missed_def events_hold_def dest!: arg_cong [where f = length])
  then have "concat (event_run (ops @ [ReadEvents]) q (length h)) = drop (length h) h @ events_sent ops"
    using 4(1) [OF 4(2)] 4(5) by simp
  ultimately show ?case using r by simp
qed



end
