(* ===== verification/Machine_Int.thy ===== *)
theory Machine_Int
  imports Main "HOL-Library.Monad_Syntax"
begin

section \<open>Signed machine integers\<close>

text \<open>
  A computation on \<open>int\<close> or \<open>std::int64_t\<close> in C++ has no meaning when its result does not fit. \<open>i32\<close> and \<open>i64\<close>
  guard each result: \<open>None\<close> says that the computation overflowed. \<open>for_range\<close> is the loop
  \<open>for (int x = lo; x <= hi; ++x)\<close>, in which the last increment can overflow as well.
\<close>

definition kIntMax :: int where
  "kIntMax = 2147483647"

definition is_i32 :: "int \<Rightarrow> bool" where
  "is_i32 x \<longleftrightarrow> - kIntMax - 1 \<le> x \<and> x \<le> kIntMax"

definition i32 :: "int \<Rightarrow> int option" where
  "i32 x = (if is_i32 x then Some x else None)"

definition is_i64 :: "int \<Rightarrow> bool" where
  "is_i64 x \<longleftrightarrow> - (2 ^ 63) \<le> x \<and> x < 2 ^ 63"

definition i64 :: "int \<Rightarrow> int option" where
  "i64 x = (if is_i64 x then Some x else None)"

function for_range :: "int \<Rightarrow> int \<Rightarrow> (int \<Rightarrow> 's \<Rightarrow> 's option) \<Rightarrow> 's \<Rightarrow> 's option" where
  "for_range lo hi body s =
     (if hi < lo then Some s
      else body lo s \<bind> (\<lambda>s. i32 (lo + 1) \<bind> (\<lambda>next. for_range next hi body s)))"
  by auto
termination
  by (relation "measure (\<lambda>(lo, hi, body, s). nat (hi + 1 - lo))") (auto simp: i32_def split: if_splits)

declare for_range.simps [simp del]

lemma i32_Some: "i32 x = Some y \<longleftrightarrow> is_i32 x \<and> y = x"
  by (auto simp: i32_def)

lemma i64_Some: "i64 x = Some y \<longleftrightarrow> is_i64 x \<and> y = x"
  by (auto simp: i64_def)

lemma i32_small: "is_i32 x \<Longrightarrow> i32 x = Some x" and i64_small: "is_i64 x \<Longrightarrow> i64 x = Some x"
  by (simp_all add: i32_def i64_def)

text \<open>The loop where nothing overflows.\<close>

lemma for_range_fold:
  assumes "hi < kIntMax" and "- kIntMax - 1 \<le> lo"
    and "\<And>x s. lo \<le> x \<Longrightarrow> x \<le> hi \<Longrightarrow> body x s = Some (f x s)"
  shows "for_range lo hi body s = Some (fold f [lo..hi] s)"
  using assms
proof (induction "nat (hi + 1 - lo)" arbitrary: lo s)
  case 0
  then show ?case by (simp add: for_range.simps [of lo hi])
next
  case (Suc n)
  then have le: "lo \<le> hi" by simp
  have "i32 (lo + 1) = Some (lo + 1)" using Suc.prems(1,2) le by (simp add: i32_def is_i32_def)
  moreover have "for_range (lo + 1) hi body t = Some (fold f [lo + 1..hi] t)" for t
    by (rule Suc.hyps(1)) (use Suc in simp_all)
  ultimately show ?case
    using le Suc.prems(3) [of lo] by (simp add: for_range.simps [of lo hi] upto_rec1 [of lo hi])
qed

text \<open>Folds with a step that can fail.\<close>

fun fold_opt :: "('a \<Rightarrow> 's \<Rightarrow> 's option) \<Rightarrow> 'a list \<Rightarrow> 's \<Rightarrow> 's option" where
  "fold_opt f [] s = Some s"
| "fold_opt f (x # xs) s = f x s \<bind> fold_opt f xs"

lemma fold_opt_fold: "(\<And>x s. x \<in> set xs \<Longrightarrow> g x s = Some (f x s)) \<Longrightarrow> fold_opt g xs s = Some (fold f xs s)"
  by (induction xs arbitrary: s) simp_all

end
