(* ===== verification/Relevance_Grid.thy ===== *)
theory Relevance_Grid
  imports Wind_Prelude Machine_Int "HOL-Library.Multiset"
begin

section \<open>The relevance grid\<close>

text \<open>
  \<open>RelevanceGrid\<close> of \<open>src/src/net/relevance_grid.cpp\<close>: the captured entities by the cell they are in, and the
  marking of all within some cells of a center, by scanning the occupied cells or by looking up each cell of the
  cube. Coordinates are numbers of \<open>int\<close>: a difference, a sum or a cube that does not fit is \<open>None\<close>, as is an index
  behind the end of the marks. What \<open>std::sort\<close> makes
  of equal cells is not said by the standard, so that it is an argument, \<open>srt\<close>.
\<close>

datatype cell = Cell (cell_x: int) (cell_y: int) (cell_z: int)

definition cell_less :: "cell \<Rightarrow> cell \<Rightarrow> bool" where
  "cell_less a b = (if cell_x a \<noteq> cell_x b then cell_x a < cell_x b
     else if cell_y a \<noteq> cell_y b then cell_y a < cell_y b else cell_z a < cell_z b)"

instantiation cell :: linorder
begin

definition less_cell :: "cell \<Rightarrow> cell \<Rightarrow> bool" where
  "a < b \<longleftrightarrow> cell_less a b"

definition less_eq_cell :: "cell \<Rightarrow> cell \<Rightarrow> bool" where
  "a \<le> b \<longleftrightarrow> a = b \<or> cell_less a b"

instance
  by standard (auto simp: less_cell_def less_eq_cell_def cell_less_def cell.expand split: if_splits)

end

record grid_item =
  item_cell :: cell
  item_index :: nat

record grid_cell =
  gc_cell :: cell
  gc_first :: nat
  gc_count :: nat

record relevance_grid =
  rg_items :: "grid_item list"
  rg_cells :: "grid_cell list"

text \<open>\<open>std::abs\<close> of the least \<open>int\<close> overflows as well.\<close>

definition coord_distance :: "int \<Rightarrow> int \<Rightarrow> int option" where
  "coord_distance a b = do { d \<leftarrow> i32 (a - b); i32 \<bar>d\<bar> }"

definition cell_distance :: "cell \<Rightarrow> cell \<Rightarrow> int option" where
  "cell_distance a b = do {
     x \<leftarrow> coord_distance (cell_x a) (cell_x b);
     y \<leftarrow> coord_distance (cell_y a) (cell_y b);
     z \<leftarrow> coord_distance (cell_z a) (cell_z b);
     Some (max (max x y) z) }"

text \<open>The loop of \<open>rebuild\<close> at the place \<open>i\<close>; the last cell is the end of the list.\<close>

fun collect_cells :: "nat \<Rightarrow> grid_item list \<Rightarrow> grid_cell list \<Rightarrow> grid_cell list" where
  "collect_cells i [] cells = cells"
| "collect_cells i (item # items) cells =
     (let cells = (if cells = [] \<or> gc_cell (last cells) \<noteq> item_cell item
            then cells @ [\<lparr>gc_cell = item_cell item, gc_first = i, gc_count = 0\<rparr>] else cells)
      in collect_cells (i + 1) items
           (butlast cells @ [(last cells)\<lparr>gc_count := gc_count (last cells) + 1\<rparr>]))"

text \<open>The loop counts in 32 bits, so that it does not end where there are more items.\<close>

definition rebuild :: "(grid_item list \<Rightarrow> grid_item list) \<Rightarrow> grid_item list \<Rightarrow> relevance_grid option" where
  "rebuild srt items = (let sorted = srt items in
     if 2 ^ 32 \<le> length sorted then None
     else Some \<lparr>rg_items = sorted, rg_cells = collect_cells 0 sorted []\<rparr>)"

definition set_mark :: "relevance_grid \<Rightarrow> grid_cell \<Rightarrow> nat \<Rightarrow> u8 list \<Rightarrow> u8 list option" where
  "set_mark g c i marks = (let k = item_index (rg_items g ! (gc_first c + i)) in
     if length marks \<le> k then None else Some (marks[k := 1]))"

definition mark_cell :: "relevance_grid \<Rightarrow> grid_cell \<Rightarrow> u8 list \<Rightarrow> u8 list option" where
  "mark_cell g c marks = fold_opt (set_mark g c) [0..<gc_count c] marks"

definition mark_by_scanning :: "relevance_grid \<Rightarrow> cell \<Rightarrow> int \<Rightarrow> u8 list \<Rightarrow> u8 list option" where
  "mark_by_scanning g center radius = fold_opt (\<lambda>c marks. do {
       d \<leftarrow> cell_distance (gc_cell c) center;
       if d \<le> radius then mark_cell g c marks else Some marks }) (rg_cells g)"

text \<open>\<open>std::lower_bound\<close>: the first cell that is not less than the wanted one.\<close>

definition grid_lower_bound :: "grid_cell list \<Rightarrow> cell \<Rightarrow> nat" where
  "grid_lower_bound cells wanted = length (takeWhile (\<lambda>c. cell_less (gc_cell c) wanted) cells)"

definition probe_cell :: "relevance_grid \<Rightarrow> cell \<Rightarrow> u8 list \<Rightarrow> u8 list option" where
  "probe_cell g wanted marks =
     (let at_place = grid_lower_bound (rg_cells g) wanted in
      if at_place \<noteq> length (rg_cells g) \<and> gc_cell (rg_cells g ! at_place) = wanted
      then mark_cell g (rg_cells g ! at_place) marks else Some marks)"

text \<open>The loop over one coordinate of the cube.\<close>

definition for_around :: "int \<Rightarrow> int \<Rightarrow> (int \<Rightarrow> 's \<Rightarrow> 's option) \<Rightarrow> 's \<Rightarrow> 's option" where
  "for_around c radius body s = do {
     lo \<leftarrow> i32 (c - radius);
     hi \<leftarrow> i32 (c + radius);
     for_range lo hi body s }"

definition mark_by_probing :: "relevance_grid \<Rightarrow> cell \<Rightarrow> int \<Rightarrow> u8 list \<Rightarrow> u8 list option" where
  "mark_by_probing g center radius =
     for_around (cell_x center) radius (\<lambda>x.
       for_around (cell_y center) radius (\<lambda>y.
         for_around (cell_z center) radius (\<lambda>z. probe_cell g (Cell x y z))))"

definition mark_around :: "relevance_grid \<Rightarrow> cell \<Rightarrow> int \<Rightarrow> u8 list \<Rightarrow> u8 list option" where
  "mark_around g center radius marks = do {
     twice \<leftarrow> i64 (radius * 2);
     side \<leftarrow> i64 (twice + 1);
     square \<leftarrow> i64 (side * side);
     cube \<leftarrow> i64 (square * side);
     if int (length (rg_cells g)) \<le> cube then mark_by_scanning g center radius marks
     else mark_by_probing g center radius marks }"

subsection \<open>What the cells hold\<close>

text \<open>The specification: one mark for every item that is near enough, in any order.\<close>

definition marked :: "grid_item list \<Rightarrow> (cell \<Rightarrow> bool) \<Rightarrow> u8 list \<Rightarrow> u8 list" where
  "marked items near marks = map (\<lambda>i. if \<exists>item \<in> set items. item_index item = i \<and> near (item_cell item)
     then 1 else marks ! i) [0..<length marks]"

lemma marked_nth: "i < length marks \<Longrightarrow> marked items near marks ! i
    = (if \<exists>item \<in> set items. item_index item = i \<and> near (item_cell item) then 1 else marks ! i)"
  by (auto simp: marked_def)

lemma length_marked [simp]: "length (marked items near marks) = length marks"
  by (simp add: marked_def)

lemma marked_none: "(\<And>item. item \<in> set items \<Longrightarrow> \<not> near (item_cell item)) \<Longrightarrow> marked items near marks = marks"
  by (rule nth_equalityI) (simp_all add: marked_nth)

lemma marked_twice: "marked items near (marked items far marks) = marked items (\<lambda>c. near c \<or> far c) marks"
  by (rule nth_equalityI) (simp_all add: marked_nth, blast)

lemma fold_marks:
  "fold (\<lambda>i marks. marks[f i := 1]) is marks = map (\<lambda>k. if k \<in> f ` set is then 1 else marks ! k) [0..<length marks]"
  by (induction "is" arbitrary: marks) (auto intro!: nth_equalityI simp: map_nth nth_list_update)

text \<open>A grid: the cells are sorted, and a cell is a stretch of the items, namely all with its coordinates.\<close>

definition grid_ok :: "relevance_grid \<Rightarrow> bool" where
  "grid_ok g \<longleftrightarrow> sorted_wrt cell_less (map gc_cell (rg_cells g))
     \<and> (\<forall>c \<in> set (rg_cells g). gc_first c + gc_count c \<le> length (rg_items g)
          \<and> set (take (gc_count c) (drop (gc_first c) (rg_items g))) = {i \<in> set (rg_items g). item_cell i = gc_cell c})
     \<and> item_cell ` set (rg_items g) = gc_cell ` set (rg_cells g)"

text \<open>The marks have a place for every item.\<close>

definition marks_fit :: "relevance_grid \<Rightarrow> u8 list \<Rightarrow> bool" where
  "marks_fit g marks \<longleftrightarrow> (\<forall>i \<in> set (rg_items g). item_index i < length marks)"

lemma marks_fit_marked [simp]: "marks_fit g (marked items near marks) = marks_fit g marks"
  by (simp add: marks_fit_def)

lemma set_marks:
  assumes "\<And>i. i \<in> set is \<Longrightarrow> item_index (rg_items g ! (gc_first c + i)) < length marks"
  shows "fold_opt (set_mark g c) is marks
    = Some (fold (\<lambda>i marks. marks[item_index (rg_items g ! (gc_first c + i)) := 1]) is marks)"
  using assms by (induction "is" arbitrary: marks) (simp_all add: set_mark_def Let_def not_le)

lemma mark_cell_marked:
  assumes ok: "grid_ok g" and c: "c \<in> set (rg_cells g)" and fit: "marks_fit g marks"
  shows "mark_cell g c marks = Some (marked (rg_items g) (\<lambda>k. k = gc_cell c) marks)"
proof -
  have len: "gc_first c + gc_count c \<le> length (rg_items g)" using ok c by (auto simp: grid_ok_def)
  have stretch: "set (take (gc_count c) (drop (gc_first c) (rg_items g))) = {i \<in> set (rg_items g). item_cell i = gc_cell c}"
    using ok c by (auto simp: grid_ok_def)
  have "map (\<lambda>i. rg_items g ! (gc_first c + i)) [0..<gc_count c] = take (gc_count c) (drop (gc_first c) (rg_items g))"
    using len by (intro nth_equalityI) simp_all
  then have "(\<lambda>i. rg_items g ! (gc_first c + i)) ` set [0..<gc_count c] = {i \<in> set (rg_items g). item_cell i = gc_cell c}"
    using stretch by (metis list.set_map)
  then have "(\<lambda>i. item_index (rg_items g ! (gc_first c + i))) ` set [0..<gc_count c]
    = item_index ` {i \<in> set (rg_items g). item_cell i = gc_cell c}"
    by (metis image_image)
  then have "k \<in> (\<lambda>i. item_index (rg_items g ! (gc_first c + i))) ` set [0..<gc_count c]
      \<longleftrightarrow> (\<exists>item \<in> set (rg_items g). item_index item = k \<and> item_cell item = gc_cell c)" for k
    by (simp only:) blast
  moreover have "mark_cell g c marks
      = Some (fold (\<lambda>i marks. marks[item_index (rg_items g ! (gc_first c + i)) := 1]) [0..<gc_count c] marks)"
    unfolding mark_cell_def by (rule set_marks) (use len fit in \<open>simp add: marks_fit_def\<close>)
  ultimately show ?thesis unfolding fold_marks marked_def by (simp only:)
qed

lemma fold_marked:
  assumes "\<And>c marks. c \<in> set cs \<Longrightarrow> f c marks = marked items (near c) marks"
  shows "fold f cs marks = marked items (\<lambda>k. \<exists>c \<in> set cs. near c k) marks"
  using assms
proof (induction cs arbitrary: marks)
  case (Cons c cs)
  then show ?case by (simp add: marked_twice disj_commute)
qed (simp add: marked_none)

lemma fold_opt_marked:
  assumes "\<And>c marks. c \<in> set cs \<Longrightarrow> marks_fit g marks \<Longrightarrow> f c marks = Some (marked items (near c) marks)"
    and "marks_fit g marks"
  shows "fold_opt f cs marks = Some (marked items (\<lambda>k. \<exists>c \<in> set cs. near c k) marks)"
  using assms
proof (induction cs arbitrary: marks)
  case (Cons c cs)
  then show ?case by (simp add: marked_twice disj_commute)
qed (simp add: marked_none)

text \<open>The specification of nearness, and where the code's differences do not overflow.\<close>

definition near_cell :: "cell \<Rightarrow> int \<Rightarrow> cell \<Rightarrow> bool" where
  "near_cell center radius c \<longleftrightarrow>
     \<bar>cell_x c - cell_x center\<bar> \<le> radius \<and> \<bar>cell_y c - cell_y center\<bar> \<le> radius \<and> \<bar>cell_z c - cell_z center\<bar> \<le> radius"

definition no_overflow :: "cell \<Rightarrow> cell \<Rightarrow> bool" where
  "no_overflow center c \<longleftrightarrow> near_cell center kIntMax c"

lemma coord_distance_small: "\<bar>a - b\<bar> \<le> kIntMax \<Longrightarrow> coord_distance a b = Some \<bar>a - b\<bar>"
  by (auto simp: coord_distance_def i32_def is_i32_def)

lemma cell_distance_near:
  assumes "no_overflow center c"
  obtains d where "cell_distance c center = Some d" "d \<le> radius \<longleftrightarrow> near_cell center radius c"
  using assms that by (simp add: no_overflow_def near_cell_def cell_distance_def coord_distance_small)

lemma scanning_marked:
  assumes ok: "grid_ok g" and fit: "marks_fit g marks" and small: "\<forall>i \<in> set (rg_items g). no_overflow center (item_cell i)"
  shows "mark_by_scanning g center radius marks = Some (marked (rg_items g) (near_cell center radius) marks)"
proof -
  have "mark_by_scanning g center radius marks = Some (marked (rg_items g)
      (\<lambda>k. \<exists>c \<in> set (rg_cells g). k = gc_cell c \<and> near_cell center radius (gc_cell c)) marks)"
    unfolding mark_by_scanning_def
  proof (rule fold_opt_marked [OF _ fit])
    fix c marks assume c: "c \<in> set (rg_cells g)" and fit: "marks_fit g marks"
    have "gc_cell c \<in> item_cell ` set (rg_items g)" using ok c by (simp add: grid_ok_def)
    then have "no_overflow center (gc_cell c)" using small by auto
    then obtain d where "cell_distance (gc_cell c) center = Some d" "d \<le> radius \<longleftrightarrow> near_cell center radius (gc_cell c)"
      by (rule cell_distance_near)
    then show "(cell_distance (gc_cell c) center \<bind> (\<lambda>d. if d \<le> radius then mark_cell g c marks else Some marks))
        = Some (marked (rg_items g) (\<lambda>k. k = gc_cell c \<and> near_cell center radius (gc_cell c)) marks)"
      using mark_cell_marked [OF ok c fit] by (simp add: marked_none)
  qed
  also have "\<dots> = Some (marked (rg_items g) (near_cell center radius) marks)"
  proof -
    have "\<exists>c \<in> set (rg_cells g). item_cell item = gc_cell c" if "item \<in> set (rg_items g)" for item
      using ok that by (auto simp: grid_ok_def)
    then have "(\<exists>item \<in> set (rg_items g). item_index item = i \<and> (\<exists>c \<in> set (rg_cells g).
          item_cell item = gc_cell c \<and> near_cell center radius (gc_cell c)))
      \<longleftrightarrow> (\<exists>item \<in> set (rg_items g). item_index item = i \<and> near_cell center radius (item_cell item))" for i
      by metis
    then show ?thesis unfolding marked_def by (simp only:)
  qed
  finally show ?thesis .
qed

lemma grid_lower_bound_finds:
  assumes "sorted_wrt cell_less (map gc_cell cells)" and "c \<in> set cells"
  shows "grid_lower_bound cells (gc_cell c) < length cells \<and> cells ! grid_lower_bound cells (gc_cell c) = c"
  using assms
proof (induction cells)
  case (Cons d cells)
  then show ?case
    using less_irrefl [of "gc_cell d"] by (auto simp: grid_lower_bound_def less_cell_def [symmetric])
qed simp

lemma probe_marked:
  assumes ok: "grid_ok g" and fit: "marks_fit g marks"
  shows "probe_cell g wanted marks = Some (marked (rg_items g) (\<lambda>k. k = wanted) marks)"
proof (cases "\<exists>c \<in> set (rg_cells g). gc_cell c = wanted")
  case True
  then obtain c where c: "c \<in> set (rg_cells g)" "gc_cell c = wanted" by blast
  moreover have "sorted_wrt cell_less (map gc_cell (rg_cells g))" using ok by (simp add: grid_ok_def)
  ultimately show ?thesis
    using grid_lower_bound_finds [of "rg_cells g" c] mark_cell_marked [OF ok c(1) fit] by (auto simp: probe_cell_def Let_def)
next
  case False
  have "grid_lower_bound (rg_cells g) wanted \<le> length (rg_cells g)" by (simp add: grid_lower_bound_def length_takeWhile_le)
  then have "probe_cell g wanted marks = Some marks"
    using False by (auto simp: probe_cell_def Let_def)
  moreover have "wanted \<notin> item_cell ` set (rg_items g)" using ok False by (auto simp: grid_ok_def)
  then have "marked (rg_items g) (\<lambda>k. k = wanted) marks = marks" by (intro marked_none) auto
  ultimately show ?thesis by simp
qed

text \<open>Where the loops over the cube do not overflow.\<close>

definition cube_fits :: "cell \<Rightarrow> int \<Rightarrow> bool" where
  "cube_fits center radius \<longleftrightarrow> (\<forall>c \<in> {cell_x center, cell_y center, cell_z center}.
     is_i32 (c - radius) \<and> is_i32 (c + radius) \<and> c + radius < kIntMax)"

lemma for_range_marked:
  assumes "hi < kIntMax" and "- kIntMax - 1 \<le> lo" and "marks_fit g marks"
    and "\<And>x marks. lo \<le> x \<Longrightarrow> x \<le> hi \<Longrightarrow> marks_fit g marks \<Longrightarrow> body x marks = Some (marked items (near x) marks)"
  shows "for_range lo hi body marks = Some (marked items (\<lambda>k. \<exists>x \<in> {lo..hi}. near x k) marks)"
  using assms
proof (induction "nat (hi + 1 - lo)" arbitrary: lo marks)
  case 0
  then show ?case by (simp add: for_range.simps [of lo hi] marked_none)
next
  case (Suc n)
  then have le: "lo \<le> hi" by simp
  have "i32 (lo + 1) = Some (lo + 1)" using Suc.prems(1,2) le by (simp add: i32_def is_i32_def)
  moreover have "for_range (lo + 1) hi body (marked items (near lo) marks)
      = Some (marked items (\<lambda>k. \<exists>x \<in> {lo + 1..hi}. near x k) (marked items (near lo) marks))"
    by (rule Suc.hyps(1)) (use Suc in simp_all)
  moreover have "(\<exists>x \<in> {lo..hi}. near x k) \<longleftrightarrow> (\<exists>x \<in> {lo + 1..hi}. near x k) \<or> near lo k" for k
  proof -
    have "{lo..hi} = insert lo {lo + 1..hi}" using le by auto
    then show ?thesis by (simp only: bex_simps disj_commute)
  qed
  ultimately show ?case
    using le Suc.prems(3) Suc.prems(4) [of lo marks] by (simp add: for_range.simps [of lo hi] marked_twice)
qed

lemma for_around_marked:
  assumes "is_i32 (c - radius)" "is_i32 (c + radius)" "c + radius < kIntMax" and "marks_fit g marks"
    and "\<And>x marks. marks_fit g marks \<Longrightarrow> body x marks = Some (marked items (near x) marks)"
  shows "for_around c radius body marks = Some (marked items (\<lambda>k. \<exists>x. \<bar>x - c\<bar> \<le> radius \<and> near x k) marks)"
proof -
  have "for_range (c - radius) (c + radius) body marks
      = Some (marked items (\<lambda>k. \<exists>x \<in> {c - radius..c + radius}. near x k) marks)"
    by (rule for_range_marked [OF assms(3) _ assms(4)]) (use assms(1,5) in \<open>auto simp: is_i32_def\<close>)
  moreover have "(\<lambda>k. \<exists>x \<in> {c - radius..c + radius}. near x k) = (\<lambda>k. \<exists>x. \<bar>x - c\<bar> \<le> radius \<and> near x k)"
  proof -
    have "x \<in> {c - radius..c + radius} \<longleftrightarrow> \<bar>x - c\<bar> \<le> radius" for x by auto
    then show ?thesis unfolding Bex_def by simp
  qed
  ultimately show ?thesis using assms(1,2) by (simp only: for_around_def i32_small Option.bind.bind_lunit)
qed

lemma probing_marked:
  assumes ok: "grid_ok g" and fit: "marks_fit g marks" and cube: "cube_fits center radius"
  shows "mark_by_probing g center radius marks = Some (marked (rg_items g) (near_cell center radius) marks)"
proof -
  note around = for_around_marked [where g = g and items = "rg_items g"]
  have c: "is_i32 (c - radius)" "is_i32 (c + radius)" "c + radius < kIntMax"
    if "c \<in> {cell_x center, cell_y center, cell_z center}" for c
    using cube that unfolding cube_fits_def by blast+
  have "mark_by_probing g center radius marks = Some (marked (rg_items g) (\<lambda>k. \<exists>x. \<bar>x - cell_x center\<bar> \<le> radius \<and>
      (\<exists>y. \<bar>y - cell_y center\<bar> \<le> radius \<and> (\<exists>z. \<bar>z - cell_z center\<bar> \<le> radius \<and> k = Cell x y z))) marks)"
    unfolding mark_by_probing_def by (intro around c fit probe_marked [OF ok]) (simp_all add: fit)
  also have "(\<lambda>k. \<exists>x. \<bar>x - cell_x center\<bar> \<le> radius \<and>
      (\<exists>y. \<bar>y - cell_y center\<bar> \<le> radius \<and> (\<exists>z. \<bar>z - cell_z center\<bar> \<le> radius \<and> k = Cell x y z))) = near_cell center radius"
  proof
    fix k show "(\<exists>x. \<bar>x - cell_x center\<bar> \<le> radius \<and>
      (\<exists>y. \<bar>y - cell_y center\<bar> \<le> radius \<and> (\<exists>z. \<bar>z - cell_z center\<bar> \<le> radius \<and> k = Cell x y z))) = near_cell center radius k"
      by (cases k) (auto simp: near_cell_def)
  qed
  finally show ?thesis .
qed

subsection \<open>What rebuild makes\<close>

definition cells_hold :: "grid_item list \<Rightarrow> grid_cell list \<Rightarrow> bool" where
  "cells_hold seen cells \<longleftrightarrow> grid_ok \<lparr>rg_items = seen, rg_cells = cells\<rparr>
     \<and> (cells \<noteq> [] \<longrightarrow> gc_first (last cells) + gc_count (last cells) = length seen)"

text \<open>A stretch of the items stays where it is when an item comes behind.\<close>

lemma stretch_append:
  "gc_first c + gc_count c \<le> length seen \<Longrightarrow>
    take (gc_count c) (drop (gc_first c) (seen @ [item])) = take (gc_count c) (drop (gc_first c) seen)"
  by simp

lemma cells_hold_new:
  assumes hold: "cells_hold seen cells" and more: "\<And>c. c \<in> set cells \<Longrightarrow> gc_cell c < item_cell item"
  shows "cells_hold (seen @ [item]) (cells @ [\<lparr>gc_cell = item_cell item, gc_first = length seen, gc_count = 1\<rparr>])"
proof -
  have g: "grid_ok \<lparr>rg_items = seen, rg_cells = cells\<rparr>" using hold by (simp add: cells_hold_def)
  have apart: "gc_cell c \<noteq> item_cell item" if "c \<in> set cells" for c using more [OF that] by auto
  have "item_cell i \<noteq> item_cell item" if "i \<in> set seen" for i
  proof -
    have "item_cell i \<in> gc_cell ` set cells" using g that by (auto simp: grid_ok_def)
    then obtain c where "c \<in> set cells" "item_cell i = gc_cell c" by auto
    then show ?thesis using apart [of c] by simp
  qed
  then have other: "{i \<in> set (seen @ [item]). item_cell i = item_cell item} = {item}" by auto
  have old: "gc_first c + gc_count c \<le> length (seen @ [item])
      \<and> set (take (gc_count c) (drop (gc_first c) (seen @ [item]))) = {i \<in> set (seen @ [item]). item_cell i = gc_cell c}"
    if c: "c \<in> set cells" for c
    using g c apart [OF c] stretch_append [of c seen item] by (auto simp: grid_ok_def)
  have "item_cell ` set (seen @ [item]) = insert (item_cell item) (gc_cell ` set cells)"
    using g by (simp add: grid_ok_def)
  moreover have "sorted_wrt cell_less (map gc_cell cells @ [item_cell item])"
    using g more by (auto simp: grid_ok_def sorted_wrt_append less_cell_def)
  ultimately show ?thesis
    using old other unfolding cells_hold_def grid_ok_def by simp
qed

lemma cells_hold_grow:
  assumes hold: "cells_hold seen (cells @ [c])" and same: "gc_cell c = item_cell item"
  shows "cells_hold (seen @ [item]) (cells @ [c\<lparr>gc_count := gc_count c + 1\<rparr>])"
proof -
  have g: "grid_ok \<lparr>rg_items = seen, rg_cells = cells @ [c]\<rparr>" and stop: "gc_first c + gc_count c = length seen"
    using hold by (simp_all add: cells_hold_def)
  have less: "gc_cell d < item_cell item" if "d \<in> set cells" for d
    using g that same by (auto simp: grid_ok_def sorted_wrt_append less_cell_def)
  have old: "set (take (gc_count d) (drop (gc_first d) (seen @ [item]))) = {i \<in> set (seen @ [item]). item_cell i = gc_cell d}
      \<and> gc_first d + gc_count d \<le> length (seen @ [item])" if d: "d \<in> set cells" for d
    using g d less [OF d] stretch_append [of d seen item] by (auto simp: grid_ok_def)
  have "take (gc_count c + 1) (drop (gc_first c) (seen @ [item])) = take (gc_count c) (drop (gc_first c) seen) @ [item]"
    using stop by simp
  moreover have "set (take (gc_count c) (drop (gc_first c) seen)) = {i \<in> set seen. item_cell i = item_cell item}"
    using g same by (simp add: grid_ok_def)
  ultimately have new: "set (take (gc_count c + 1) (drop (gc_first c) (seen @ [item])))
      = {i \<in> set (seen @ [item]). item_cell i = item_cell item}" by auto
  have "item_cell ` set (seen @ [item]) = gc_cell ` set (cells @ [c])"
    using g same by (auto simp: grid_ok_def)
  then show ?thesis
    using old new same stop g unfolding cells_hold_def grid_ok_def by (simp add: sorted_wrt_append)
qed

lemma collect_cells_hold:
  "cells_hold seen cells \<Longrightarrow> sorted (map item_cell (seen @ items)) \<Longrightarrow>
    \<exists>cells'. collect_cells (length seen) items cells = cells' \<and> cells_hold (seen @ items) cells'"
proof (induction items arbitrary: seen cells)
  case (Cons item items)
  have below: "gc_cell c \<le> item_cell item" if "c \<in> set cells" for c
  proof -
    have "gc_cell c \<in> item_cell ` set seen" using Cons.prems(1) that by (auto simp: cells_hold_def grid_ok_def)
    then show ?thesis using Cons.prems(2) by (auto simp: sorted_append)
  qed
  have "\<exists>cells''. collect_cells (length seen) (item # items) cells = collect_cells (length (seen @ [item])) items cells''
      \<and> cells_hold (seen @ [item]) cells''"
  proof (cases "cells = [] \<or> gc_cell (last cells) \<noteq> item_cell item")
    case True
    have "gc_cell c < item_cell item" if c: "c \<in> set cells" for c
    proof -
      obtain ds d where cells: "cells = ds @ [d]" using c by (metis empty_iff list.set(1) rev_exhaust)
      have "sorted_wrt cell_less (map gc_cell cells)" using Cons.prems(1) by (simp add: cells_hold_def grid_ok_def)
      then have "gc_cell c \<le> gc_cell d" using c by (auto simp: cells sorted_wrt_append less_eq_cell_def)
      moreover have "gc_cell d < item_cell item" using True below [of d] by (auto simp: cells order.strict_iff_order)
      ultimately show ?thesis by order
    qed
    note cells_hold_new [OF Cons.prems(1) this]
    then show ?thesis using True by (intro exI conjI) (auto simp: Let_def)
  next
    case False
    then obtain ds d where cells: "cells = ds @ [d]" by (metis rev_exhaust)
    with False have "gc_cell d = item_cell item" by simp
    note cells_hold_grow [OF Cons.prems(1) [unfolded cells] this]
    then show ?thesis using False by (intro exI conjI) (auto simp: cells Let_def)
  qed
  then show ?case using Cons.IH [of "seen @ [item]"] Cons.prems(2) by auto
qed simp

text \<open>What the standard says of \<open>std::sort\<close>: the same items, in an order by their cells.\<close>

definition sorts_items :: "(grid_item list \<Rightarrow> grid_item list) \<Rightarrow> bool" where
  "sorts_items srt \<longleftrightarrow> (\<forall>items. mset (srt items) = mset items \<and> sorted (map item_cell (srt items)))"

lemma rebuild_ok:
  assumes "sorts_items srt" and "length items < 2 ^ 32"
  obtains g where "rebuild srt items = Some g" "grid_ok g" "set (rg_items g) = set items"
proof -
  have len: "length (srt items) = length items" using assms(1) by (metis size_mset sorts_items_def)
  have "cells_hold [] []" by (simp add: cells_hold_def grid_ok_def)
  then have "grid_ok \<lparr>rg_items = srt items, rg_cells = collect_cells 0 (srt items) []\<rparr>"
    using collect_cells_hold [of "[]" "[]" "srt items"] assms(1)
    by (auto simp: sorts_items_def cells_hold_def Let_def)
  moreover have "set (srt items) = set items" using assms(1) unfolding sorts_items_def by (metis set_mset_mset)
  ultimately show thesis using that len assms(2) by (simp add: rebuild_def Let_def)
qed

lemma cube_small:
  fixes radius :: int
  assumes "\<bar>radius\<bar> \<le> 1048575"
  shows "is_i64 (radius * 2)" "is_i64 (radius * 2 + 1)" "is_i64 ((radius * 2 + 1) * (radius * 2 + 1))"
    "is_i64 ((radius * 2 + 1) * (radius * 2 + 1) * (radius * 2 + 1))"
proof -
  let ?s = "radius * 2 + 1"
  have s: "\<bar>?s\<bar> \<le> 2097151" using assms by linarith
  have sq: "\<bar>?s * ?s\<bar> \<le> 2097151 * 2097151" unfolding abs_mult by (rule mult_mono [OF s s]) simp_all
  have cube: "\<bar>?s * ?s * ?s\<bar> \<le> 2097151 * 2097151 * 2097151"
    unfolding abs_mult [of "?s * ?s"] by (rule mult_mono [OF sq s]) simp_all
  have small: "is_i64 x" if "\<bar>x\<bar> \<le> 2097151 * 2097151 * 2097151" for x
    using that unfolding is_i64_def abs_le_iff by auto
  show "is_i64 (radius * 2)" "is_i64 ?s" "is_i64 (?s * ?s)" "is_i64 (?s * ?s * ?s)"
    by (rule small, use assms sq cube in linarith)+
qed

text \<open>
  C29: After \<open>rebuild\<close> of fewer than \<open>2^32\<close> items, marking around a center sets exactly the marks of the items whose
  cell is at most the radius away from it in each coordinate, and leaves the others, whichever of the two ways
  \<open>mark_around\<close> takes, by scanning the occupied cells or by looking up every cell of the cube, and however the sort
  orders equal cells: where the marks have a place for every item, no cell is further from the center than the
  largest \<open>int\<close>, the cube lies inside the range of \<open>int\<close> below its last number, and the radius is at most
  1048575, beyond which the volume of the cube does not fit 64 bits.
\<close>

theorem relevance_marks:
  assumes "sorts_items srt" and "length items < 2 ^ 32"
    and "\<forall>i \<in> set items. item_index i < length marks \<and> no_overflow center (item_cell i)"
    and "cube_fits center radius" and "\<bar>radius\<bar> \<le> 1048575"
  shows "\<exists>g. rebuild srt items = Some g
    \<and> mark_by_scanning g center radius marks = Some (marked items (near_cell center radius) marks)
    \<and> mark_by_probing g center radius marks = Some (marked items (near_cell center radius) marks)
    \<and> mark_around g center radius marks = Some (marked items (near_cell center radius) marks)"
proof -
  obtain g where g: "rebuild srt items = Some g" "grid_ok g" "set (rg_items g) = set items"
    by (rule rebuild_ok [OF assms(1,2)])
  have same: "marked (rg_items g) = marked items" by (simp add: g(3) marked_def fun_eq_iff)
  have fit: "marks_fit g marks" using assms(3) by (simp add: marks_fit_def g(3))
  have near: "\<forall>i \<in> set (rg_items g). no_overflow center (item_cell i)" using assms(3) by (simp add: g(3))
  have "mark_by_scanning g center radius marks = Some (marked items (near_cell center radius) marks)"
    "mark_by_probing g center radius marks = Some (marked items (near_cell center radius) marks)"
    using scanning_marked [OF g(2) fit near] probing_marked [OF g(2) fit assms(4)] by (simp_all add: same)
  then show ?thesis using g(1) by (simp add: mark_around_def i64_small cube_small [OF assms(5)])
qed

lemma sort_key_sorts: "sorts_items (sort_key item_cell)"
  by (simp add: sorts_items_def)

definition demo_items :: "grid_item list" where
  "demo_items = [\<lparr>item_cell = Cell 3 0 0, item_index = 0\<rparr>, \<lparr>item_cell = Cell 0 1 0, item_index = 1\<rparr>,
     \<lparr>item_cell = Cell 3 0 0, item_index = 2\<rparr>]"

theorem relevance_marks_witness:
  "\<exists>g. rebuild (sort_key item_cell) demo_items = Some g \<and> mark_around g (Cell 2 0 0) 1 [0, 0, 0, 0] = Some [1, 0, 1, 0]"
proof -
  have "marked demo_items (near_cell (Cell 2 0 0) 1) [0, 0, 0, 0] = [1, 0, 1, 0]" by code_simp
  moreover have "cube_fits (Cell 2 0 0) 1" by (simp add: cube_fits_def is_i32_def kIntMax_def)
  moreover have "\<forall>i \<in> set demo_items. item_index i < length ([0, 0, 0, 0] :: u8 list) \<and> no_overflow (Cell 2 0 0) (item_cell i)"
    by (simp add: demo_items_def no_overflow_def near_cell_def kIntMax_def)
  moreover have "length demo_items < 2 ^ 32" by (simp add: demo_items_def)
  ultimately show ?thesis using relevance_marks [OF sort_key_sorts, of demo_items "[0, 0, 0, 0]" "Cell 2 0 0" 1] by auto
qed

end
