(* ===== verification/Toml_Text.thy ===== *)
theory Toml_Text
  imports Ascii_Text
begin

section \<open>The TOML the engine writes\<close>

text \<open>
  The engine reads TOML with a library outside the sources. \<open>toml_read\<close> says what the language means by the part of
  TOML 1.0 that the engine writes itself: lines that are blank, a header of an array of tables or a pair of a bare key
  and a value, where a value is a decimal integer, a float (\<open>inf\<close>, \<open>-inf\<close> and \<open>nan\<close> among them), a basic string in one line or an
  array of these. A
  text outside this part has no meaning here. The library is an argument, \<open>parse\<close>, and \<open>toml_reads\<close> is what its
  documentation says on this part: it reads every such text in UTF-8 as the language means it. How a number
  is read, converted and printed by the C++ library is the argument \<open>number_syntax\<close>: \<open>std::isinf\<close>, \<open>std::to_chars\<close> of a
  \<open>float\<close> and of a \<open>double\<close>, the value of a TOML float, \<open>std::from_chars\<close> of a \<open>double\<close> with
  the number of characters it used, and an integer as a \<open>float\<close>.
\<close>

datatype 'f toml =
    TomlInt int
  | TomlFloat 'f
  | TomlString string
  | TomlArray "'f toml list"
  | TomlTable "string \<Rightarrow> 'f toml option"

type_synonym 'f toml_table = "string \<Rightarrow> 'f toml option"

record 'f number_syntax =
  nt_inf :: "'f \<Rightarrow> bool"
  nt_single :: "'f \<Rightarrow> string"
  nt_double :: "'f \<Rightarrow> string"
  nt_read :: "string \<Rightarrow> 'f option"
  nt_chars :: "string \<Rightarrow> ('f \<times> nat) option"
  nt_of_int :: "int \<Rightarrow> 'f"

abbreviation quote_mark :: char where "quote_mark \<equiv> CHR 0x22"
abbreviation back_slash :: char where "back_slash \<equiv> CHR 0x5C"
abbreviation new_line :: char where "new_line \<equiv> CHR 0x0A"

definition is_control :: "char \<Rightarrow> bool" where
  "is_control c \<longleftrightarrow> ascii c < 32 \<or> ascii c = 127"

subsection \<open>Basic strings\<close>

definition hex_value :: "char \<Rightarrow> nat option" where
  "hex_value c = (if is_digit c then Some (ascii c - 48)
     else if 65 \<le> ascii c \<and> ascii c \<le> 70 then Some (ascii c - 55) else None)"

text \<open>A \<open>\u\<close> escape, of an ASCII character.\<close>

definition escaped_char :: "char \<Rightarrow> char \<Rightarrow> char \<Rightarrow> char \<Rightarrow> char option" where
  "escaped_char a b x y =
     (case (hex_value a, hex_value b, hex_value x, hex_value y) of
        (Some i, Some j, Some k, Some m) \<Rightarrow>
          (let n = ((i * 16 + j) * 16 + k) * 16 + m in if n < 128 then Some (char_of n) else None)
      | _ \<Rightarrow> None)"

text \<open>The content of a string and the text behind its closing mark.\<close>

fun take_basic :: "string \<Rightarrow> (string \<times> string) option" where
  "take_basic [] = None"
| "take_basic (c # s) =
     (if c = quote_mark then Some ([], s)
      else if c = back_slash then
        (case s of [] \<Rightarrow> None
         | d # s' \<Rightarrow>
             if d = quote_mark \<or> d = back_slash then map_option (\<lambda>(v, r). (d # v, r)) (take_basic s')
             else if d = CHR ''u'' then
               (case s' of a # b # x # y # s'' \<Rightarrow>
                  (case escaped_char a b x y of None \<Rightarrow> None
                   | Some e \<Rightarrow> map_option (\<lambda>(v, r). (e # v, r)) (take_basic s''))
                | _ \<Rightarrow> None)
             else None)
      else if is_control c then None
      else map_option (\<lambda>(v, r). (c # v, r)) (take_basic s))"

subsection \<open>Values\<close>

definition number_char :: "char \<Rightarrow> bool" where
  "number_char c \<longleftrightarrow> is_digit c \<or> c = CHR ''-'' \<or> c = CHR ''+'' \<or> c = CHR ''.'' \<or> c = CHR ''e''"

text \<open>Digits without leading zeros, a fraction and an exponent.\<close>

definition plain_digits :: "string \<Rightarrow> bool" where
  "plain_digits ds \<longleftrightarrow> ds \<noteq> [] \<and> list_all is_digit ds \<and> (hd ds = CHR ''0'' \<longrightarrow> ds = ''0'')"

definition fraction_form :: "string \<Rightarrow> bool" where
  "fraction_form f \<longleftrightarrow> f = [] \<or> (hd f = CHR ''.'' \<and> tl f \<noteq> [] \<and> list_all is_digit (tl f))"

definition exponent_form :: "string \<Rightarrow> bool" where
  "exponent_form e \<longleftrightarrow> e = [] \<or> (hd e = CHR ''e'' \<and>
     (let ds = (if tl e \<noteq> [] \<and> (hd (tl e) = CHR ''+'' \<or> hd (tl e) = CHR ''-'') then tl (tl e) else tl e)
      in ds \<noteq> [] \<and> list_all is_digit ds))"

definition number_form :: "string \<Rightarrow> bool" where
  "number_form t =
     (let u = (if t \<noteq> [] \<and> hd t = CHR ''-'' then tl t else t);
          ds = takeWhile is_digit u; v = dropWhile is_digit u;
          f = takeWhile (\<lambda>c. c \<noteq> CHR ''e'') v; e = dropWhile (\<lambda>c. c \<noteq> CHR ''e'') v
      in plain_digits ds \<and> fraction_form f \<and> exponent_form e)"

definition has_point :: "string \<Rightarrow> bool" where
  "has_point t \<longleftrightarrow> CHR ''.'' \<in> set t \<or> CHR ''e'' \<in> set t"

definition kInt64Max :: nat where
  "kInt64Max = 2 ^ 63 - 1"

text \<open>The floats that are words.\<close>

definition take_special :: "string \<Rightarrow> string option" where
  "take_special s = (if take 3 s = ''inf'' then Some ''inf'' else if take 4 s = ''-inf'' then Some ''-inf''
     else if take 3 s = ''nan'' then Some ''nan'' else None)"

definition take_scalar :: "'f number_syntax \<Rightarrow> string \<Rightarrow> ('f toml \<times> string) option" where
  "take_scalar T s =
     (if s \<noteq> [] \<and> hd s = quote_mark then map_option (\<lambda>(v, r). (TomlString v, r)) (take_basic (tl s))
      else if take_special s \<noteq> None then
        (let w = the (take_special s) in map_option (\<lambda>d. (TomlFloat d, drop (length w) s)) (nt_read T w))
      else
        (let t = takeWhile number_char s; r = dropWhile number_char s in
         if \<not> number_form t then None
         else if has_point t then map_option (\<lambda>d. (TomlFloat d, r)) (nt_read T t)
         else (case from_chars kInt64Max t of
             Some (n, rest) \<Rightarrow> if rest = [] then Some (TomlInt (int n), r) else None
           | None \<Rightarrow> None)))"

fun take_elements :: "'f number_syntax \<Rightarrow> nat \<Rightarrow> string \<Rightarrow> ('f toml list \<times> string) option" where
  "take_elements T 0 s = None"
| "take_elements T (Suc k) s =
     (case take_scalar T s of None \<Rightarrow> None
      | Some (v, r) \<Rightarrow>
          if take 2 r = '', '' then map_option (\<lambda>(vs, r'). (v # vs, r')) (take_elements T k (drop 2 r))
          else if take 1 r = '']'' then Some ([v], drop 1 r) else None)"

definition take_value :: "'f number_syntax \<Rightarrow> string \<Rightarrow> ('f toml \<times> string) option" where
  "take_value T s =
     (if take 2 s = ''[]'' then Some (TomlArray [], drop 2 s)
      else if take 1 s = ''['' then
        map_option (\<lambda>(vs, r). (TomlArray vs, r)) (take_elements T (length s) (drop 1 s))
      else take_scalar T s)"

subsection \<open>Documents\<close>

definition bare_key :: "string \<Rightarrow> bool" where
  "bare_key k \<longleftrightarrow> k \<noteq> [] \<and> list_all (\<lambda>c. 97 \<le> ascii c \<and> ascii c \<le> 122 \<or> c = CHR ''_'') k"

definition read_pair :: "'f number_syntax \<Rightarrow> string \<Rightarrow> (string \<times> 'f toml) option" where
  "read_pair T line =
     (case find_text '' = '' line of None \<Rightarrow> None
      | Some k \<Rightarrow> (case take_value T (drop (k + 3) line) of
            Some (v, []) \<Rightarrow> if bare_key (take k line) then Some (take k line, v) else None
          | _ \<Rightarrow> None))"

definition read_header :: "string \<Rightarrow> string option" where
  "read_header line =
     (let name = drop 2 (butlast (butlast line)) in
      if line = ''[['' @ name @ '']]'' \<and> bare_key name then Some name else None)"

fun text_lines :: "string \<Rightarrow> string list" where
  "text_lines [] = [[]]"
| "text_lines (c # s) = (if c = new_line then [] # text_lines s
     else (case text_lines s of [] \<Rightarrow> [[c]] | l # ls \<Rightarrow> (c # l) # ls))"

text \<open>The pairs in front of the first header, and the tables of the headers.\<close>

fun read_lines :: "'f number_syntax \<Rightarrow> string list
    \<Rightarrow> ((string \<times> 'f toml) list \<times> (string \<times> (string \<times> 'f toml) list) list) option" where
  "read_lines T [] = Some ([], [])"
| "read_lines T (line # ls) =
     (case read_lines T ls of None \<Rightarrow> None
      | Some (kvs, tables) \<Rightarrow>
          if line = [] then Some (kvs, tables)
          else (case read_header line of
              Some name \<Rightarrow> Some ([], (name, kvs) # tables)
            | None \<Rightarrow> map_option (\<lambda>kv. (kv # kvs, tables)) (read_pair T line)))"

definition toml_document :: "(string \<times> 'f toml) list \<Rightarrow> (string \<times> (string \<times> 'f toml) list) list \<Rightarrow> 'f toml_table" where
  "toml_document kvs tables k =
     (case map_of kvs k of Some v \<Rightarrow> Some v
      | None \<Rightarrow> if k \<in> fst ` set tables
          then Some (TomlArray (map (\<lambda>t. TomlTable (map_of (snd t))) (filter (\<lambda>t. fst t = k) tables))) else None)"

definition toml_read :: "'f number_syntax \<Rightarrow> string \<Rightarrow> 'f toml_table option" where
  "toml_read T text =
     (case read_lines T (text_lines text) of None \<Rightarrow> None
      | Some (kvs, tables) \<Rightarrow>
          if distinct (map fst kvs) \<and> list_all (\<lambda>t. distinct (map fst (snd t)) \<and> fst t \<notin> fst ` set kvs) tables
          then Some (toml_document kvs tables) else None)"

subsection \<open>UTF-8\<close>

text \<open>The well-formed byte sequences of one character.\<close>

definition trail_byte :: "nat \<Rightarrow> bool" where
  "trail_byte b \<longleftrightarrow> 128 \<le> b \<and> b \<le> 191"

fun utf8_char :: "nat list \<Rightarrow> bool" where
  "utf8_char [a] \<longleftrightarrow> a < 128"
| "utf8_char [a, b] \<longleftrightarrow> 194 \<le> a \<and> a \<le> 223 \<and> trail_byte b"
| "utf8_char [a, b, c] \<longleftrightarrow> trail_byte b \<and> trail_byte c \<and>
     (a = 224 \<and> 160 \<le> b \<or> a = 237 \<and> b \<le> 159 \<or> 225 \<le> a \<and> a \<le> 239 \<and> a \<noteq> 237)"
| "utf8_char [a, b, c, d] \<longleftrightarrow> trail_byte b \<and> trail_byte c \<and> trail_byte d \<and>
     (a = 240 \<and> 144 \<le> b \<or> 241 \<le> a \<and> a \<le> 243 \<or> a = 244 \<and> b \<le> 143)"
| "utf8_char _ \<longleftrightarrow> False"

inductive utf8 :: "string \<Rightarrow> bool" where
  utf8_empty: "utf8 []"
| utf8_more: "utf8_char (map of_char bs) \<Longrightarrow> utf8 s \<Longrightarrow> utf8 (bs @ s)"

definition toml_reads :: "'f number_syntax \<Rightarrow> (string \<Rightarrow> 'f toml_table option) \<Rightarrow> bool" where
  "toml_reads T parse \<longleftrightarrow> (\<forall>text d. utf8 text \<longrightarrow> toml_read T text = Some d \<longrightarrow> parse text = Some d)"

lemma utf8_append: "utf8 s \<Longrightarrow> utf8 t \<Longrightarrow> utf8 (s @ t)"
  by (induction rule: utf8.induct) (auto intro: utf8.intros)

lemma utf8_ascii: "list_all (\<lambda>c. ascii c < 128) s \<Longrightarrow> utf8 s"
proof (induction s)
  case (Cons c s)
  then show ?case using utf8_more [of "[c]" s] by simp
qed (rule utf8_empty)

lemma utf8_concat: "(\<And>s. s \<in> set ss \<Longrightarrow> utf8 s) \<Longrightarrow> utf8 (concat ss)"
  by (induction ss) (auto intro: utf8_empty utf8_append)

lemma toml_read_reads: "toml_reads T (toml_read T)"
  by (simp add: toml_reads_def)

subsection \<open>What is read back\<close>

text \<open>A text that is a value wherever no more of a number follows, and one that is a value up to the end of a line.\<close>

definition value_stops :: "string \<Rightarrow> bool" where
  "value_stops r \<longleftrightarrow> r = [] \<or> \<not> number_char (hd r)"

definition scalar_text :: "'f number_syntax \<Rightarrow> string \<Rightarrow> 'f toml \<Rightarrow> bool" where
  "scalar_text T t v \<longleftrightarrow> (\<forall>r. value_stops r \<longrightarrow> take_scalar T (t @ r) = Some (v, r))"

definition value_text :: "'f number_syntax \<Rightarrow> string \<Rightarrow> 'f toml \<Rightarrow> bool" where
  "value_text T t v \<longleftrightarrow> take_value T t = Some (v, [])"

lemma ascii_inj: "ascii c = ascii d \<longleftrightarrow> c = d"
  by (metis char_of_char)

lemma value_stops_simps [simp]:
  "value_stops []" "value_stops (CHR '','' # r)" "value_stops (CHR '']'' # r)"
  by (simp_all add: value_stops_def number_char_def is_digit_def)

lemma plain_number: "plain_digits (number_text n)"
proof -
  have "hd (number_text n) = CHR ''0'' \<longrightarrow> n = 0"
  proof (induction n rule: number_text.induct)
    case (1 n)
    show ?case
    proof (cases "n < 10")
      case True
      then show ?thesis using ascii_digit [OF True] by (simp add: number_text.simps [of n]) force
    next
      case False
      then have "hd (number_text n) = hd (number_text (n div 10))" by (simp add: number_text.simps [of n])
      then show ?thesis using 1 False by auto
    qed
  qed
  moreover have "number_text 0 = ''0''" by code_simp
  ultimately show ?thesis
    using number_text_digits by (auto simp: plain_digits_def list_all_iff)
qed

lemma span_digits:
  "list_all is_digit ds \<Longrightarrow> r = [] \<or> \<not> is_digit (hd r) \<Longrightarrow> takeWhile is_digit (ds @ r) = ds \<and> dropWhile is_digit (ds @ r) = r"
  by (induction ds) (cases r; auto)+

lemma digits_form: "plain_digits ds \<Longrightarrow> number_form ds \<and> \<not> has_point ds"
proof -
  assume ds: "plain_digits ds"
  have "ds \<noteq> []" "hd ds \<noteq> CHR ''-''" "CHR ''.'' \<notin> set ds" "CHR ''e'' \<notin> set ds"
    using ds by (cases ds; force simp: plain_digits_def is_digit_def list_all_iff)+
  moreover have all: "takeWhile is_digit ds = ds" "dropWhile is_digit ds = []"
    using ds by (simp_all add: plain_digits_def list_all_iff)
  ultimately show ?thesis
    using ds
    by (simp add: all number_form_def has_point_def fraction_form_def exponent_form_def plain_digits_def Let_def)
qed

lemma number_form_chars:
  assumes "number_form t" shows "t \<noteq> []" "list_all number_char t"
proof -
  define u where "u = (if t \<noteq> [] \<and> hd t = CHR ''-'' then tl t else t)"
  define ds v where "ds = takeWhile is_digit u" and "v = dropWhile is_digit u"
  define f e where "f = takeWhile (\<lambda>c. c \<noteq> CHR ''e'') v" and "e = dropWhile (\<lambda>c. c \<noteq> CHR ''e'') v"
  have form: "plain_digits ds" "fraction_form f" "exponent_form e"
    using assms by (simp_all add: number_form_def u_def ds_def v_def f_def e_def Let_def)
  have u: "u = ds @ f @ e" by (simp add: ds_def v_def f_def e_def)
  have "list_all number_char ds" using form(1) by (auto simp: plain_digits_def number_char_def list_all_iff)
  moreover have "list_all number_char f" using form(2)
    by (cases f) (auto simp: fraction_form_def number_char_def list_all_iff)
  moreover have "list_all number_char e"
  proof (cases e)
    case (Cons c es)
    then show ?thesis using form(3)
      by (cases es) (auto simp: exponent_form_def number_char_def list_all_iff Let_def split: if_splits)
  qed simp
  ultimately have "list_all number_char u" by (simp add: u)
  then show "list_all number_char t"
    by (cases t) (auto simp: u_def number_char_def split: if_splits)
  show "t \<noteq> []" using form(1) by (auto simp: plain_digits_def ds_def u_def)
qed

lemma span_number:
  "list_all number_char t \<Longrightarrow> value_stops r \<Longrightarrow> takeWhile number_char (t @ r) = t \<and> dropWhile number_char (t @ r) = r"
  by (induction t) (cases r; auto simp: value_stops_def)+

lemma number_not_quoted: "number_form t \<Longrightarrow> t \<noteq> [] \<and> hd t \<noteq> quote_mark"
  using number_form_chars [of t] by (cases t) (auto simp: number_char_def is_digit_def)

lemma number_not_special: "number_form t \<Longrightarrow> take_special (t @ r) = None"
proof -
  assume t: "number_form t"
  define u where "u = (if t \<noteq> [] \<and> hd t = CHR ''-'' then tl t else t)"
  have "plain_digits (takeWhile is_digit u)" using t by (simp add: number_form_def u_def Let_def)
  then obtain c v where u: "u = c # v" "is_digit c" by (cases u) (auto simp: plain_digits_def split: if_splits)
  have "c \<noteq> CHR ''i''" "c \<noteq> CHR ''n''" "c \<noteq> CHR ''-''" using u(2) by (auto simp: is_digit_def)
  moreover have "t = c # v \<or> t = CHR ''-'' # c # v" using u(1) by (cases t) (auto simp: u_def split: if_splits)
  ultimately show ?thesis by (auto simp: take_special_def)
qed

lemma scalar_int:
  assumes "n \<le> kInt64Max" shows "scalar_text T (number_text n) (TomlInt (int n))"
  unfolding scalar_text_def
proof (intro allI impI)
  fix r assume r: "value_stops r"
  have form: "number_form (number_text n)" "\<not> has_point (number_text n)" using digits_form [OF plain_number] by auto
  have "from_chars kInt64Max (number_text n) = Some (n, [])" using from_chars_number [OF assms, of "[]"] by simp
  then show "take_scalar T (number_text n @ r) = Some (TomlInt (int n), r)"
    using span_number [OF number_form_chars(2) [OF form(1)] r] form number_not_quoted [OF form(1)]
      number_not_special [OF form(1)]
    by (simp add: take_scalar_def Let_def)
qed

lemma scalar_float:
  assumes "number_form t" and "has_point t" and "nt_read T t = Some d"
  shows "scalar_text T t (TomlFloat d)"
  unfolding scalar_text_def
proof (intro allI impI)
  fix r assume r: "value_stops r"
  show "take_scalar T (t @ r) = Some (TomlFloat d, r)"
    using span_number [OF number_form_chars(2) [OF assms(1)] r] assms number_not_quoted [OF assms(1)]
      number_not_special [OF assms(1)]
    by (simp add: take_scalar_def Let_def)
qed

lemma scalar_special:
  assumes "w \<in> {''inf'', ''-inf'', ''nan''}" and "nt_read T w = Some d"
  shows "scalar_text T w (TomlFloat d)"
proof -
  consider "w = ''inf''" | "w = ''-inf''" | "w = ''nan''" using assms(1) by blast
  then have "take_special (w @ r) = Some w \<and> hd (w @ r) \<noteq> quote_mark \<and> w @ r \<noteq> []" for r
    by cases (simp_all add: take_special_def)
  then show ?thesis using assms(2) by (simp add: scalar_text_def take_scalar_def Let_def)
qed

lemma add_point:
  assumes "number_form t" and "\<not> has_point t"
  shows "number_form (t @ ''.0'')" "has_point (t @ ''.0'')"
proof -
  define u where "u = (if t \<noteq> [] \<and> hd t = CHR ''-'' then tl t else t)"
  define ds v where "ds = takeWhile is_digit u" and "v = dropWhile is_digit u"
  define f e where "f = takeWhile (\<lambda>c. c \<noteq> CHR ''e'') v" and "e = dropWhile (\<lambda>c. c \<noteq> CHR ''e'') v"
  have form: "plain_digits ds" "fraction_form f" "exponent_form e"
    using assms(1) by (simp_all add: number_form_def u_def ds_def v_def f_def e_def Let_def)
  have u: "u = ds @ f @ e" by (simp add: ds_def v_def f_def e_def)
  have "set u \<subseteq> set t" by (cases t) (auto simp: u_def)
  then have "f = []" "e = []"
    using form(2,3) assms(2) u by (cases f; cases e; auto simp: fraction_form_def exponent_form_def has_point_def)+
  then have u: "u = ds" using u by simp
  have "(if t @ ''.0'' \<noteq> [] \<and> hd (t @ ''.0'') = CHR ''-'' then tl (t @ ''.0'') else t @ ''.0'') = ds @ ''.0''"
    using number_form_chars(1) [OF assms(1)] u by (auto simp: u_def split: if_splits)
  moreover have "takeWhile is_digit (ds @ ''.0'') = ds \<and> dropWhile is_digit (ds @ ''.0'') = ''.0''"
    by (rule span_digits) (use form(1) in \<open>auto simp: plain_digits_def is_digit_def\<close>)
  ultimately show "number_form (t @ ''.0'')"
    using form(1) by (simp add: number_form_def Let_def fraction_form_def exponent_form_def is_digit_def)
  show "has_point (t @ ''.0'')" by (simp add: has_point_def)
qed

end
