(* ===== verification/Toml_Lines.thy ===== *)
theory Toml_Lines
  imports Toml_Text
begin

section \<open>Written documents are read back\<close>

text \<open>
  A document as its writer sees it: pairs of a key and a value, and tables with a header, each on lines of their
  own. A pair comes with the text and the value of its right side, and \<open>toml_read\<close> gives the values.
\<close>

type_synonym 'f written_pair = "string \<times> string \<times> 'f toml"

definition pair_line :: "'f written_pair \<Rightarrow> string" where
  "pair_line p = fst p @ '' = '' @ fst (snd p)"

definition pair_value :: "'f written_pair \<Rightarrow> string \<times> 'f toml" where
  "pair_value p = (fst p, snd (snd p))"

definition table_lines :: "string \<times> 'f written_pair list \<Rightarrow> string list" where
  "table_lines t = [] # (''[['' @ fst t @ '']]'') # map pair_line (snd t)"

definition document_lines :: "'f written_pair list \<Rightarrow> (string \<times> 'f written_pair list) list \<Rightarrow> string list" where
  "document_lines front tables = map pair_line front @ concat (map table_lines tables)"

definition unlines :: "string list \<Rightarrow> string" where
  "unlines ls = concat (map (\<lambda>l. l @ [new_line]) ls)"

definition good_pair :: "'f number_syntax \<Rightarrow> 'f written_pair \<Rightarrow> bool" where
  "good_pair T p \<longleftrightarrow> bare_key (fst p) \<and> value_text T (fst (snd p)) (snd (snd p)) \<and> new_line \<notin> set (fst (snd p))
     \<and> utf8 (fst (snd p))"

definition table_value :: "string \<times> 'f written_pair list \<Rightarrow> string \<times> (string \<times> 'f toml) list" where
  "table_value t = (fst t, map pair_value (snd t))"

lemma pair_value_fst: "fst \<circ> pair_value = fst" "fst ` pair_value ` S = fst ` S"
  by (simp_all add: fun_eq_iff pair_value_def image_image)

lemma unlines_simps [simp]:
  "unlines [] = []" "unlines (l # ls) = l @ new_line # unlines ls" "unlines (ls @ ms) = unlines ls @ unlines ms"
  by (simp_all add: unlines_def)

lemma text_lines_line: "new_line \<notin> set l \<Longrightarrow> text_lines (l @ new_line # s) = l # text_lines s"
  by (induction l) auto

lemma text_lines_unlines: "(\<And>l. l \<in> set ls \<Longrightarrow> new_line \<notin> set l) \<Longrightarrow> text_lines (unlines ls) = ls @ [[]]"
  by (induction ls) (auto simp: text_lines_line)

lemma bare_key_chars:
  assumes "bare_key k" and "c \<in> set k"
  shows "c \<noteq> CHR '' ''" "c \<noteq> new_line" "c \<noteq> CHR ''[''" "ascii c < 128"
  using assms by (auto simp: bare_key_def list_all_iff)

lemma read_pair_line:
  assumes "good_pair T p" shows "read_pair T (pair_line p) = Some (pair_value p)"
proof -
  obtain k t v where p: "p = (k, t, v)" by (cases p)
  have "find_text '' = '' (k @ '' = '' @ t) = Some (length k)"
    by (rule find_text_append) (use assms p bare_key_chars(1) in \<open>auto simp: good_pair_def\<close>)
  then show ?thesis
    using assms p by (simp add: read_pair_def pair_line_def pair_value_def good_pair_def value_text_def)
qed

lemma pair_line_no_header:
  assumes "bare_key (fst p)" shows "read_header (pair_line p) = None" "pair_line p \<noteq> []"
proof -
  have "fst p \<noteq> []" using assms by (simp add: bare_key_def)
  then have "hd (pair_line p) = hd (fst p)" "hd (fst p) \<in> set (fst p)" by (simp_all add: pair_line_def)
  then have "hd (pair_line p) \<noteq> CHR ''[''" using bare_key_chars(3) [OF assms] by metis
  then show "read_header (pair_line p) = None" by (auto simp: read_header_def Let_def) (metis list.sel(1))
  show "pair_line p \<noteq> []" by (simp add: pair_line_def)
qed

lemma read_header_line: "bare_key name \<Longrightarrow> read_header (''[['' @ name @ '']]'') = Some name"
  by (simp add: read_header_def Let_def butlast_append)

lemma read_pairs_lines:
  assumes "list_all (good_pair T) ps" and "read_lines T ls = Some (kvs, tables)"
  shows "read_lines T (map pair_line ps @ ls) = Some (map pair_value ps @ kvs, tables)"
  using assms(1)
proof (induction ps)
  case (Cons p ps)
  then have "good_pair T p" "bare_key (fst p)" by (simp_all add: good_pair_def)
  then show ?case using Cons read_pair_line [of T p] pair_line_no_header [of p] by simp
qed (simp add: assms(2))

lemma read_tables_lines:
  assumes "list_all (\<lambda>t. bare_key (fst t) \<and> list_all (good_pair T) (snd t)) ts"
  shows "read_lines T (concat (map table_lines ts) @ [[]]) = Some ([], map table_value ts)"
  using assms
proof (induction ts)
  case (Cons t ts)
  have "read_lines T (map pair_line (snd t) @ concat (map table_lines ts) @ [[]])
      = Some (map pair_value (snd t) @ [], map table_value ts)"
    by (rule read_pairs_lines) (use Cons in simp_all)
  moreover have "concat (map table_lines (t # ts)) @ [[]]
      = [] # (''[['' @ fst t @ '']]'') # map pair_line (snd t) @ concat (map table_lines ts) @ [[]]"
    by (simp add: table_lines_def [of t])
  ultimately show ?case using Cons.prems read_header_line [of "fst t"] by (simp add: table_value_def [of t])
qed simp

lemma document_line:
  assumes "list_all (good_pair T) front" and "list_all (\<lambda>t. bare_key (fst t) \<and> list_all (good_pair T) (snd t)) ts"
    and "l \<in> set (document_lines front ts)"
  shows "new_line \<notin> set l" "utf8 l"
proof -
  have pair: "new_line \<notin> set (pair_line p) \<and> utf8 (pair_line p)" if "good_pair T p" for p
  proof -
    have key: "bare_key (fst p)" using that by (simp add: good_pair_def)
    have "utf8 (fst p)" by (rule utf8_ascii) (use bare_key_chars(4) [OF key] in \<open>simp add: list_all_iff\<close>)
    moreover have "utf8 '' = ''" by (rule utf8_ascii) simp
    ultimately have "utf8 (pair_line p)"
      using that unfolding pair_line_def good_pair_def by (blast intro: utf8_append)
    then show ?thesis using that bare_key_chars(2) [OF key] by (auto simp: pair_line_def good_pair_def)
  qed
  have header: "new_line \<notin> set (''[['' @ k @ '']]'') \<and> utf8 (''[['' @ k @ '']]'')" if "bare_key k" for k
  proof
    show "new_line \<notin> set (''[['' @ k @ '']]'')" using that bare_key_chars(2) [OF that] by auto
    show "utf8 (''[['' @ k @ '']]'')"
      by (rule utf8_ascii) (use bare_key_chars(4) [OF that] in \<open>auto simp: list_all_iff\<close>)
  qed
  consider p where "l = pair_line p" "good_pair T p" | k where "l = ''[['' @ k @ '']]''" "bare_key k" | "l = []"
  proof -
    have "(\<exists>p \<in> set front. l = pair_line p) \<or> l = []
        \<or> (\<exists>t \<in> set ts. l = ''[['' @ fst t @ '']]'' \<or> (\<exists>p \<in> set (snd t). l = pair_line p))"
      using assms(3) by (auto simp: document_lines_def table_lines_def split: if_splits)
    then show ?thesis using assms(1,2) that unfolding list_all_iff by blast
  qed
  then have "new_line \<notin> set l \<and> utf8 l"
    using pair header by cases (auto simp: utf8_empty)
  then show "new_line \<notin> set l" "utf8 l" by simp_all
qed

lemma toml_read_document:
  assumes "list_all (good_pair T) front" and "list_all (\<lambda>t. bare_key (fst t) \<and> list_all (good_pair T) (snd t)) ts"
    and "distinct (map fst front)" and "\<And>t. t \<in> set ts \<Longrightarrow> distinct (map fst (snd t)) \<and> fst t \<notin> fst ` set front"
  shows "toml_read T (unlines (document_lines front ts)) = Some (toml_document (map pair_value front) (map table_value ts))"
proof -
  have "text_lines (unlines (document_lines front ts)) = document_lines front ts @ [[]]"
    by (rule text_lines_unlines) (rule document_line [OF assms(1,2)])
  moreover have "read_lines T (document_lines front ts @ [[]]) = Some (map pair_value front, map table_value ts)"
    unfolding document_lines_def using read_pairs_lines [OF assms(1) read_tables_lines [OF assms(2)]] by simp
  ultimately show ?thesis
    using assms(3,4) by (simp add: toml_read_def table_value_def list_all_iff pair_value_fst)
qed

lemma utf8_document:
  assumes "list_all (good_pair T) front" and "list_all (\<lambda>t. bare_key (fst t) \<and> list_all (good_pair T) (snd t)) ts"
  shows "utf8 (unlines (document_lines front ts))"
  unfolding unlines_def
proof (rule utf8_concat)
  fix s assume "s \<in> set (map (\<lambda>l. l @ [new_line]) (document_lines front ts))"
  then obtain l where "s = l @ [new_line]" "l \<in> set (document_lines front ts)" by auto
  then show "utf8 s"
    using document_line(2) [OF assms] by (simp add: utf8_append utf8_ascii)
qed

end
