(* ===== verification/Dock_Text.thy ===== *)
theory Dock_Text
  imports Toml_Lines Dock_Claims
begin

section \<open>Dock layouts as text\<close>

text \<open>
  \<open>src/src/ui/dock_text.cpp\<close>: a layout is saved as TOML and read back. The writer is the code's, character by
  character; the reader takes the table the TOML library makes of a text, which is the argument \<open>parse\<close>. Parent links are not
  stored and follow from the splits. A rect is four numbers here.
\<close>

record 'f dock_rect =
  rect_x :: 'f
  rect_y :: 'f
  rect_w :: 'f
  rect_h :: 'f

type_synonym 'f screen_layout = "('f, 'f dock_rect) dock_layout"

abbreviation kDockTextVersion :: nat where
  "kDockTextVersion \<equiv> 1"

subsection \<open>Writing\<close>

text \<open>
  \<^verbatim>\<open>src/include/engine/core/parse_float.h\<close>, where the library has \<open>std::from_chars\<close>: the characters used and the value.
\<close>

definition float_char :: "char \<Rightarrow> bool" where
  "float_char c \<longleftrightarrow> c \<in> set ''+-0123456789.eE''"

definition parse_float_prefix :: "'f number_syntax \<Rightarrow> string \<Rightarrow> (nat \<times> 'f) option" where
  "parse_float_prefix T text =
     (let n = length (takeWhile float_char text) in
      if n = 0 \<or> 64 \<le> n then None
      else
        (let skip = (if text ! 0 = CHR ''+'' then 1 else 0) in
         if skip = 1 \<and> 1 < n \<and> (text ! 1 = CHR ''+'' \<or> text ! 1 = CHR ''-'') then None
         else (case nt_chars T (drop skip (take n text)) of None \<Rightarrow> None
           | Some (v, used) \<Rightarrow> Some (skip + used, v))))"

definition parse_float :: "'f number_syntax \<Rightarrow> string \<Rightarrow> 'f option" where
  "parse_float T text =
     (if text = [] then None
      else (case parse_float_prefix T text of None \<Rightarrow> None
        | Some (n, v) \<Rightarrow> if n \<noteq> length text then None else Some v))"

definition append_number :: "'f float_arith \<Rightarrow> 'f number_syntax \<Rightarrow> 'f \<Rightarrow> string" where
  "append_number F T v =
     (if f_isnan F v then ''nan''
      else if nt_inf T v then (if f_less F v (f_int F 0) then ''-inf'' else ''inf'')
      else
        (let shortest = nt_single T v;
             text = (case parse_float T shortest of None \<Rightarrow> nt_double T v
               | Some back \<Rightarrow> if \<not> f_eq F (f_single F back) v then nt_double T v else shortest)
         in text @ (if \<not> list_ex (\<lambda>c. c = CHR ''.'' \<or> c = CHR ''e'' \<or> c = CHR ''E'') text then ''.0'' else [])))"

text \<open>A digit of \<^verbatim>\<open>%04X\<close>.\<close>

definition hex_digit :: "nat \<Rightarrow> char" where
  "hex_digit n = (if n < 10 then char_of (48 + n) else char_of (55 + n))"

definition escape_char :: "char \<Rightarrow> string" where
  "escape_char c =
     (if c = quote_mark \<or> c = back_slash then [back_slash, c]
      else if ascii c < 0x20 \<or> ascii c = 0x7f then
        [back_slash, CHR ''u'', CHR ''0'', CHR ''0'', hex_digit (ascii c div 16), hex_digit (ascii c mod 16)]
      else [c])"

definition append_string :: "string \<Rightarrow> string" where
  "append_string v = [quote_mark] @ concat (map escape_char v) @ [quote_mark]"

text \<open>The loops over panels and over the numbers of a rect put a separator in front of all but the first.\<close>

fun joined :: "string list \<Rightarrow> string" where
  "joined [] = []"
| "joined [t] = t"
| "joined (t # u # ts) = t @ '', '' @ joined (u # ts)"

definition id_text :: "dock_id \<Rightarrow> string" where
  "id_text i = number_text (unat i)"

definition quoted :: "string \<Rightarrow> string" where
  "quoted t = [quote_mark] @ t @ [quote_mark]"

definition node_text :: "'f float_arith \<Rightarrow> 'f number_syntax \<Rightarrow> dock_id \<times> 'f dock_node \<Rightarrow> string" where
  "node_text F T = (\<lambda>(i, n).
     [new_line] @ ''[[node]]'' @ [new_line] @ ''id = '' @ id_text i @ [new_line] @
     (if node_kind n = KindTabs then
        ''kind = '' @ quoted ''tabs'' @ [new_line] @ ''panels = ['' @ joined (map append_string (node_panels n)) @
        '']'' @ [new_line] @ ''active = '' @ number_text (node_active n) @ [new_line]
      else
        ''kind = '' @ quoted ''split'' @ [new_line] @ ''axis = '' @
        quoted (if node_axis n = AxisHorizontal then ''horizontal'' else ''vertical'') @ [new_line] @
        ''ratio = '' @ append_number F T (node_ratio n) @ [new_line] @ ''first = '' @ id_text (node_first n) @
        [new_line] @ ''second = '' @ id_text (node_second n) @ [new_line]))"

definition float_text :: "'f float_arith \<Rightarrow> 'f number_syntax \<Rightarrow> 'f dock_rect dock_float \<Rightarrow> string" where
  "float_text F T f =
     [new_line] @ ''[[float]]'' @ [new_line] @ ''id = '' @ id_text (float_id f) @ [new_line] @ ''root = '' @
     id_text (float_root f) @ [new_line] @ ''rect = ['' @
     joined (map (append_number F T) [rect_x (float_rect f), rect_y (float_rect f), rect_w (float_rect f), rect_h (float_rect f)]) @
     '']'' @ [new_line]"

definition dock_layout_to_text :: "'f float_arith \<Rightarrow> 'f number_syntax \<Rightarrow> 'f screen_layout \<Rightarrow> string" where
  "dock_layout_to_text F T l =
     ''version = '' @ number_text kDockTextVersion @ [new_line] @ ''next_id = '' @ id_text (dl_next l) @ [new_line] @
     ''root = '' @ id_text (dl_root l) @ [new_line] @
     concat (map (node_text F T) (dl_nodes l)) @ concat (map (float_text F T) (dl_floats l))"

subsection \<open>Reading\<close>

definition read_int :: "'f toml_table \<Rightarrow> string \<Rightarrow> int option" where
  "read_int t key = (case t key of Some (TomlInt i) \<Rightarrow> Some i | _ \<Rightarrow> None)"

definition read_text :: "'f toml_table \<Rightarrow> string \<Rightarrow> string option" where
  "read_text t key = (case t key of Some (TomlString s) \<Rightarrow> Some s | _ \<Rightarrow> None)"

definition read_id :: "'f toml_table \<Rightarrow> string \<Rightarrow> dock_id option" where
  "read_id t key = (case read_int t key of None \<Rightarrow> None
     | Some v \<Rightarrow> if v < 0 \<or> 2 ^ 32 - 1 < v then None else Some (of_int v))"

definition read_number :: "'f float_arith \<Rightarrow> 'f number_syntax \<Rightarrow> 'f toml option \<Rightarrow> 'f option" where
  "read_number F T v = (case v of Some (TomlFloat d) \<Rightarrow> Some (f_single F d)
     | Some (TomlInt i) \<Rightarrow> Some (nt_of_int T i) | _ \<Rightarrow> None)"

fun read_keys :: "'f toml list \<Rightarrow> string list option" where
  "read_keys [] = Some []"
| "read_keys (TomlString key # vs) = map_option ((#) key) (read_keys vs)"
| "read_keys (_ # vs) = None"

definition read_tabs :: "'f float_arith \<Rightarrow> dock_id \<Rightarrow> 'f toml_table \<Rightarrow> 'f dock_node option" where
  "read_tabs F i t =
     (case (t ''panels'', read_int t ''active'') of
        (Some (TomlArray items), Some tab) \<Rightarrow>
          if tab < 0 then None
          else map_option (\<lambda>keys. (new_node F)\<lparr>node_id := i, node_kind := KindTabs, node_panels := keys,
                 node_active := nat tab\<rparr>) (read_keys items)
      | _ \<Rightarrow> None)"

definition read_split :: "'f float_arith \<Rightarrow> 'f number_syntax \<Rightarrow> dock_id \<Rightarrow> 'f toml_table \<Rightarrow> 'f dock_node option" where
  "read_split F T i t =
     (case (read_text t ''axis'', read_number F T (t ''ratio''), read_id t ''first'', read_id t ''second'') of
        (Some ax, Some r, Some x, Some y) \<Rightarrow>
          if ax \<noteq> ''horizontal'' \<and> ax \<noteq> ''vertical'' then None
          else Some ((new_node F)\<lparr>node_id := i, node_kind := KindSplit,
                 node_axis := (if ax = ''horizontal'' then AxisHorizontal else AxisVertical),
                 node_ratio := r, node_first := x, node_second := y\<rparr>)
      | _ \<Rightarrow> None)"

definition read_node :: "'f float_arith \<Rightarrow> 'f number_syntax \<Rightarrow> 'f toml_table \<Rightarrow> 'f dock_node option" where
  "read_node F T t =
     (case (read_id t ''id'', read_text t ''kind'') of
        (Some i, Some kind) \<Rightarrow>
          if kind = ''tabs'' then read_tabs F i t else if kind = ''split'' then read_split F T i t else None
      | _ \<Rightarrow> None)"

definition read_dock_float :: "'f float_arith \<Rightarrow> 'f number_syntax \<Rightarrow> 'f toml_table \<Rightarrow> 'f dock_rect dock_float option" where
  "read_dock_float F T t =
     (case (read_id t ''id'', read_id t ''root'', t ''rect'') of
        (Some i, Some r, Some (TomlArray [a, b, c, d])) \<Rightarrow>
          (case (read_number F T (Some a), read_number F T (Some b), read_number F T (Some c), read_number F T (Some d)) of
             (Some x, Some y, Some w, Some h) \<Rightarrow> Some \<lparr>float_id = i, float_root = r,
                 float_rect = \<lparr>rect_x = x, rect_y = y, rect_w = w, rect_h = h\<rparr>\<rparr>
           | _ \<Rightarrow> None)
      | _ \<Rightarrow> None)"

text \<open>The tables of an array; None where the value is no array or holds anything else.\<close>

definition read_list :: "('f toml_table \<Rightarrow> 'a option) \<Rightarrow> 'f toml option \<Rightarrow> 'a list option" where
  "read_list read v = (case v of None \<Rightarrow> Some []
     | Some (TomlArray items) \<Rightarrow> those (map (\<lambda>item. case item of TomlTable t \<Rightarrow> read t | _ \<Rightarrow> None) items)
     | Some _ \<Rightarrow> None)"

fun emplace_all :: "'f dock_node list \<Rightarrow> (dock_id \<times> 'f dock_node) list \<Rightarrow> (dock_id \<times> 'f dock_node) list option" where
  "emplace_all [] N = Some N"
| "emplace_all (n # ns) N = (if map_of N (node_id n) \<noteq> None then None
     else emplace_all ns (om_put (node_id n) n N))"

definition link_parent :: "dock_id \<Rightarrow> dock_id \<Rightarrow> (dock_id \<times> 'f dock_node) list \<Rightarrow> (dock_id \<times> 'f dock_node) list" where
  "link_parent i child N = (case map_of N child of None \<Rightarrow> N
     | Some m \<Rightarrow> om_put child (m\<lparr>node_parent := i\<rparr>) N)"

text \<open>The loop writes parents only, so that it sees the kinds and children of the nodes it started with.\<close>

definition link_parents :: "(dock_id \<times> 'f dock_node) list \<Rightarrow> (dock_id \<times> 'f dock_node) list" where
  "link_parents nodes = fold (\<lambda>(i, n) N. if node_kind n \<noteq> KindSplit then N
     else link_parent i (node_second n) (link_parent i (node_first n) N)) nodes nodes"

definition dock_layout_from_text :: "'f float_arith \<Rightarrow> 'f number_syntax \<Rightarrow> (string \<Rightarrow> 'f toml_table option) \<Rightarrow> string
    \<Rightarrow> 'f screen_layout option" where
  "dock_layout_from_text F T parse text =
     (case parse text of None \<Rightarrow> None
      | Some t \<Rightarrow>
          (case (read_int t ''version'', read_id t ''next_id'', read_id t ''root'') of
             (Some version, Some next_id, Some root_id) \<Rightarrow>
               if version \<noteq> int kDockTextVersion then None
               else Option.bind (read_list (read_node F T) (t ''node'')) (\<lambda>ns.
                 Option.bind (emplace_all ns []) (\<lambda>nodes.
                 Option.bind (read_list (read_dock_float F T) (t ''float'')) (\<lambda>floats.
                   from_parts F (link_parents nodes) root_id floats next_id)))
           | _ \<Rightarrow> None))"

end
