(* ===== verification/Dock_Saved.thy ===== *)
theory Dock_Saved
  imports Dock_Text
begin

section \<open>A saved layout is read back\<close>

subsection \<open>Values\<close>

lemma hex_read: "n < 16 \<Longrightarrow> hex_value (hex_digit n) = Some n"
  by (auto simp: hex_value_def hex_digit_def is_digit_def)

lemma escaped_read:
  assumes "ascii c < 128"
  shows "escaped_char CHR ''0'' CHR ''0'' (hex_digit (ascii c div 16)) (hex_digit (ascii c mod 16)) = Some c"
proof -
  have "hex_value CHR ''0'' = Some 0" by (simp add: hex_value_def is_digit_def)
  moreover have "hex_value (hex_digit (ascii c div 16)) = Some (ascii c div 16)"
    by (rule hex_read) (use assms in simp)
  moreover have "hex_value (hex_digit (ascii c mod 16)) = Some (ascii c mod 16)"
    by (rule hex_read) simp
  moreover have "ascii c div 16 * 16 + ascii c mod 16 = ascii c" by simp
  ultimately show ?thesis using assms by (simp add: escaped_char_def Let_def del: div_mult_mod_eq)
qed

lemma take_basic_char: "take_basic (escape_char c @ s) = map_option (\<lambda>(v, r). (c # v, r)) (take_basic s)"
proof -
  consider "c = quote_mark \<or> c = back_slash" | "c \<noteq> quote_mark" "c \<noteq> back_slash" "is_control c"
    | "c \<noteq> quote_mark" "c \<noteq> back_slash" "\<not> is_control c" by blast
  then show ?thesis
  proof cases
    case 2
    then have "ascii c < 128" by (auto simp: is_control_def)
    from escaped_read [OF this] 2 show ?thesis by (auto simp: escape_char_def is_control_def)
  qed (auto simp: escape_char_def is_control_def)
qed

lemma take_basic_escape: "take_basic (concat (map escape_char v) @ quote_mark # r) = Some (v, r)"
  by (induction v) (simp_all add: take_basic_char)

lemma string_scalar: "scalar_text T (append_string v) (TomlString v)"
  by (simp add: scalar_text_def append_string_def take_scalar_def take_basic_escape)

lemma hex_ascii: "n < 16 \<Longrightarrow> ascii (hex_digit n) = (if n < 10 then 48 + n else 55 + n)"
  by (simp add: hex_digit_def)

lemma escape_char_line: "new_line \<notin> set (escape_char c)"
proof -
  have "hex_digit n \<noteq> new_line" if "n < 16" for n using hex_ascii [OF that] by (auto split: if_splits)
  then have "hex_digit (ascii c mod 16) \<noteq> new_line" "ascii c < 128 \<Longrightarrow> hex_digit (ascii c div 16) \<noteq> new_line"
    by simp_all
  then show ?thesis by (auto simp: escape_char_def)
qed

lemma escape_char_utf8: "ascii c < 128 \<Longrightarrow> utf8 (escape_char c)"
proof (rule utf8_ascii)
  assume c: "ascii c < 128"
  have "ascii (hex_digit n) < 128" if "n < 16" for n using hex_ascii [OF that] that by auto
  then have "ascii (hex_digit (ascii c mod 16)) < 128" "ascii (hex_digit (ascii c div 16)) < 128"
    using c by simp_all
  then show "list_all (\<lambda>d. ascii d < 128) (escape_char c)" using c by (auto simp: escape_char_def)
qed

lemma escape_char_high: "128 \<le> ascii c \<Longrightarrow> escape_char c = [c]"
  by (auto simp: escape_char_def)

lemma utf8_char_cases:
  "utf8_char bs \<Longrightarrow> (\<exists>a. bs = [a] \<and> a < 128) \<or> (\<forall>b \<in> set bs. 128 \<le> b)"
  by (induction bs rule: utf8_char.induct) (auto simp: trail_byte_def)

lemma escape_utf8: "utf8 v \<Longrightarrow> utf8 (concat (map escape_char v))"
proof (induction rule: utf8.induct)
  case (utf8_more bs s)
  have "utf8 (concat (map escape_char bs))"
  proof (cases "\<exists>c. bs = [c] \<and> ascii c < 128")
    case False
    then have "\<forall>b \<in> set bs. 128 \<le> ascii b" using utf8_char_cases [OF utf8_more(1)] by (auto simp: map_eq_Cons_conv)
    then have "concat (map escape_char bs) = bs" by (induction bs) (simp_all add: escape_char_high)
    then show ?thesis using utf8.utf8_more [OF utf8_more(1) utf8_empty] by simp
  qed (auto simp: escape_char_utf8)
  then show ?case using utf8_more(3) by (simp add: utf8_append)
qed (simp add: utf8_empty)

lemma string_text:
  shows "new_line \<notin> set (append_string v)" "utf8 v \<Longrightarrow> utf8 (append_string v)"
proof -
  show "new_line \<notin> set (append_string v)" using escape_char_line by (auto simp: append_string_def)
  have "utf8 [quote_mark]" by (rule utf8_ascii) simp
  then show "utf8 (append_string v)" if "utf8 v"
    unfolding append_string_def using escape_utf8 [OF that] by (blast intro: utf8_append)
qed

lemma take_elements_joined:
  assumes "list_all2 (scalar_text T) ts vs" and "ts \<noteq> []" and "length ts \<le> k"
  shows "take_elements T k (joined ts @ CHR '']'' # r) = Some (vs, r)"
  using assms
proof (induction ts arbitrary: vs k rule: joined.induct)
  case (2 t)
  obtain v k' where vk: "vs = [v]" "k = Suc k'" "scalar_text T t v"
    using 2 by (cases k) (auto simp: list_all2_Cons1)
  have "take_scalar T (t @ CHR '']'' # r) = Some (v, CHR '']'' # r)"
    using vk(3) by (simp add: scalar_text_def)
  then show ?case using vk by simp
next
  case (3 t u ts)
  obtain v vs' k' where vk: "vs = v # vs'" "k = Suc k'" "scalar_text T t v" "list_all2 (scalar_text T) (u # ts) vs'"
    using 3(2-4) by (cases k) (auto simp: list_all2_Cons1)
  have "take_elements T k' (joined (u # ts) @ CHR '']'' # r) = Some (vs', r)"
    using 3(1) [OF vk(4)] 3(4) vk(2) by simp
  moreover have "take_scalar T (t @ '', '' @ joined (u # ts) @ CHR '']'' # r)
      = Some (v, '', '' @ joined (u # ts) @ CHR '']'' # r)"
    using vk(3) by (simp add: scalar_text_def)
  ultimately show ?case using vk by simp
qed simp

lemma scalar_start:
  assumes "scalar_text T t v" shows "t \<noteq> []" "hd t \<noteq> CHR ''[''" "hd t \<noteq> CHR '']''"
proof -
  have no: "take_scalar T (CHR ''['' # r) = None" "take_scalar T (CHR '']'' # r) = None" for r
    by (simp_all add: take_scalar_def take_special_def number_char_def is_digit_def number_form_def plain_digits_def Let_def)
  have "take_scalar T (t @ '']'') = Some (v, '']'')" using assms by (simp add: scalar_text_def)
  then show "t \<noteq> []" "hd t \<noteq> CHR ''[''" "hd t \<noteq> CHR '']''" using no by (cases t; auto)+
qed

lemma scalar_value: "scalar_text T t v \<Longrightarrow> value_text T t v"
  using scalar_start [of T t v] by (cases t) (auto simp: value_text_def take_value_def scalar_text_def dest: spec [of _ "[]"])

lemma length_joined: "length ts \<le> Suc (length (joined ts))"
  by (induction ts rule: joined.induct) auto

lemma array_value:
  assumes "list_all2 (scalar_text T) ts vs"
  shows "value_text T (''['' @ joined ts @ '']'') (TomlArray vs)"
proof (cases ts)
  case Nil
  then show ?thesis using assms by (simp add: value_text_def take_value_def)
next
  case (Cons t ts')
  then have "scalar_text T t (hd vs)" using assms by (auto simp: list_all2_Cons1)
  then have "joined ts \<noteq> [] \<and> hd (joined ts) \<noteq> CHR '']''"
    using scalar_start [of T t] Cons by (cases ts') auto
  moreover have "take_elements T (Suc (Suc (length (joined ts)))) (joined ts @ '']'') = Some (vs, [])"
    using take_elements_joined [OF assms, of "Suc (Suc (length (joined ts)))" "[]"] length_joined [of ts] Cons by simp
  ultimately show ?thesis by (cases "joined ts") (auto simp: value_text_def take_value_def)
qed

subsection \<open>Numbers\<close>

text \<open>
  What the libraries promise of a number the code writes, a \<open>float\<close> kept as a \<open>double\<close>. Of a finite one: the shortest
  text is a TOML number and tells the two zeros apart, the text of the \<open>double\<close> reads back as itself, a number that
  \<open>std::from_chars\<close> takes as a whole has the same value in TOML, and a fraction of zero changes nothing. The TOML
  words for the infinities are the infinities, and the one for NaN is a NaN as a \<open>float\<close> too.
\<close>

definition single_number :: "'f float_arith \<Rightarrow> 'f \<Rightarrow> bool" where
  "single_number F v \<longleftrightarrow> f_single F v = v"

definition number_laws :: "'f float_arith \<Rightarrow> 'f number_syntax \<Rightarrow> bool" where
  "number_laws F T \<longleftrightarrow>
     (\<forall>v. single_number F v \<longrightarrow> \<not> f_isnan F v \<longrightarrow> \<not> nt_inf T v \<longrightarrow>
        number_form (nt_single T v) \<and> number_form (nt_double T v) \<and> nt_read T (nt_double T v) = Some v
        \<and> (\<forall>d. nt_chars T (nt_single T v) = Some (d, length (nt_single T v)) \<longrightarrow> f_eq F (f_single F d) v \<longrightarrow> f_single F d = v))
     \<and> (\<forall>t d. number_form t \<longrightarrow> nt_chars T t = Some (d, length t) \<longrightarrow> nt_read T t = Some d)
     \<and> (\<forall>t. number_form t \<longrightarrow> \<not> has_point t \<longrightarrow> nt_read T (t @ ''.0'') = nt_read T t)
     \<and> (\<forall>v. single_number F v \<longrightarrow> \<not> f_isnan F v \<longrightarrow> nt_inf T v \<longrightarrow>
        nt_read T (if f_less F v (f_int F 0) then ''-inf'' else ''inf'') = Some v)
     \<and> (\<exists>d. nt_read T ''nan'' = Some d \<and> f_isnan F (f_single F d))"

text \<open>The value of the text of a number, and the \<open>float\<close> read from it: the same number, where all NaN count as one.\<close>

definition float_value :: "'f float_arith \<Rightarrow> 'f number_syntax \<Rightarrow> 'f \<Rightarrow> 'f toml" where
  "float_value F T v = TomlFloat (the (nt_read T (append_number F T v)))"

definition stored_number :: "'f float_arith \<Rightarrow> 'f number_syntax \<Rightarrow> 'f \<Rightarrow> 'f" where
  "stored_number F T v = f_single F (the (nt_read T (append_number F T v)))"

definition same_number :: "'f float_arith \<Rightarrow> 'f \<Rightarrow> 'f \<Rightarrow> bool" where
  "same_number F u v \<longleftrightarrow> u = v \<or> f_isnan F u \<and> f_isnan F v"

lemma no_capital: "number_form t \<Longrightarrow> CHR ''E'' \<notin> set t"
  using number_form_chars(2) [of t] by (auto simp: list_all_iff number_char_def is_digit_def)

lemma digit_chars: "is_digit c \<Longrightarrow> c \<in> set ''0123456789''"
proof -
  assume "is_digit c"
  then have "48 \<le> ascii c \<and> ascii c < 58" unfolding is_digit_def by linarith
  then have "ascii c \<in> set [48..<58]" by (simp only: set_upt atLeastLessThan_iff)
  then have "char_of (ascii c) \<in> set (map (char_of :: nat \<Rightarrow> char) [48..<58])" unfolding set_map by (rule imageI)
  moreover have "map (char_of :: nat \<Rightarrow> char) [48..<58] = ''0123456789''" by code_simp
  ultimately show "c \<in> set ''0123456789''" by simp
qed

lemma number_plus: "number_form t \<Longrightarrow> t ! 0 \<noteq> CHR ''+''"
  by (cases t) (auto simp: number_form_def plain_digits_def is_digit_def Let_def split: if_splits)

lemma parse_float_form:
  assumes "number_form t" and "parse_float T t = Some d"
  shows "nt_chars T t = Some (d, length t)"
proof -
  have "list_all float_char t"
    using number_form_chars(2) [OF assms(1)] digit_chars by (fastforce simp: list_all_iff number_char_def float_char_def)
  then have "takeWhile float_char t = t" unfolding list_all_iff takeWhile_eq_all_conv .
  moreover have "t ! 0 \<noteq> CHR ''+''"
    using assms(1) number_plus by blast
  ultimately show ?thesis
    using assms(2) by (auto simp: parse_float_def parse_float_prefix_def Let_def simp del: takeWhile_eq_all_conv split: option.splits if_splits)
qed

lemma append_finite_reads:
  assumes "number_laws F T" and "single_number F v" and finite: "\<not> f_isnan F v" "\<not> nt_inf T v"
  shows "number_form (append_number F T v)" "has_point (append_number F T v)"
    "\<exists>d. nt_read T (append_number F T v) = Some d \<and> f_single F d = v"
proof -
  define t where "t = (case parse_float T (nt_single T v) of None \<Rightarrow> nt_double T v
     | Some back \<Rightarrow> if \<not> f_eq F (f_single F back) v then nt_double T v else nt_single T v)"
  have v: "f_single F v = v" "\<not> f_isnan F v" "\<not> nt_inf T v" using assms(2) finite by (simp_all add: single_number_def)
  have laws: "number_form (nt_single T v)" "number_form (nt_double T v)" "nt_read T (nt_double T v) = Some v"
    "\<And>d. nt_chars T (nt_single T v) = Some (d, length (nt_single T v)) \<Longrightarrow> f_eq F (f_single F d) v \<Longrightarrow> f_single F d = v"
    "\<And>u. number_form u \<Longrightarrow> \<not> has_point u \<Longrightarrow> nt_read T (u @ ''.0'') = nt_read T u"
    "\<And>u d. number_form u \<Longrightarrow> nt_chars T u = Some (d, length u) \<Longrightarrow> nt_read T u = Some d"
    using assms unfolding number_laws_def by blast+
 have whole: "nt_chars T (nt_single T v) = Some (d, length (nt_single T v))" "nt_read T (nt_single T v) = Some d"
    if "parse_float T (nt_single T v) = Some d" for d
    using parse_float_form [OF laws(1) that] laws(6) [OF laws(1)] by simp_all
  have t: "number_form t" "\<exists>d. nt_read T t = Some d \<and> f_single F d = v"
    using laws v(1) whole by (auto simp: t_def split: option.splits)
  have "append_number F T v = (if has_point t then t else t @ ''.0'')"
    using v no_capital [OF t(1)] by (auto simp: append_number_def t_def Let_def has_point_def list_ex_iff)
  then show "number_form (append_number F T v)" "has_point (append_number F T v)"
    "\<exists>d. nt_read T (append_number F T v) = Some d \<and> f_single F d = v"
    using t add_point [OF t(1)] laws(5) [OF t(1)] by auto
qed

text \<open>Texts without a line end in UTF-8, which may stand on a line.\<close>

definition line_text :: "string \<Rightarrow> bool" where
  "line_text t \<longleftrightarrow> new_line \<notin> set t \<and> utf8 t"

lemma line_text_ascii: "list_all (\<lambda>c. ascii c < 128 \<and> c \<noteq> new_line) t \<Longrightarrow> line_text t"
  using utf8_ascii [of t] by (auto simp: line_text_def list_all_iff)

lemma line_text_append: "line_text s \<Longrightarrow> line_text t \<Longrightarrow> line_text (s @ t)"
  by (simp add: line_text_def utf8_append)

lemma number_line:
  assumes "number_form t" shows "line_text t"
proof (rule line_text_ascii)
  have "ascii c < 128 \<and> c \<noteq> new_line" if "number_char c" for c
    using that by (auto simp: number_char_def is_digit_def)
  then show "list_all (\<lambda>c. ascii c < 128 \<and> c \<noteq> new_line) t"
    using number_form_chars(2) [OF assms] by (simp add: list_all_iff)
qed

lemma number_scalar:
  assumes "number_laws F T" and "single_number F v"
  shows "scalar_text T (append_number F T v) (float_value F T v)" "line_text (append_number F T v)"
    "same_number F (stored_number F T v) v"
proof -
  have "scalar_text T (append_number F T v) (float_value F T v) \<and> line_text (append_number F T v)
    \<and> same_number F (stored_number F T v) v"
  proof (cases "f_isnan F v \<or> nt_inf T v")
    case True
    have word: "append_number F T v \<in> {''inf'', ''-inf'', ''nan''}" using True by (auto simp: append_number_def)
    then have "line_text (append_number F T v)" by (auto intro!: line_text_ascii)
    moreover obtain d where "nt_read T (append_number F T v) = Some d" "same_number F (f_single F d) v"
    proof (cases "f_isnan F v")
      case True
      then obtain d where "nt_read T (append_number F T v) = Some d" "f_isnan F (f_single F d)"
        using assms(1) by (auto simp: number_laws_def append_number_def)
      then show ?thesis using that True by (auto simp: same_number_def)
    next
      case False
      then have "nt_read T (append_number F T v) = Some v"
        using assms \<open>f_isnan F v \<or> nt_inf T v\<close> unfolding number_laws_def append_number_def by (simp split del: if_split)
      then show ?thesis using that assms(2) by (auto simp: same_number_def single_number_def)
    qed
    ultimately show ?thesis using scalar_special [OF word] by (simp add: float_value_def stored_number_def)
  next
    case False
    then have finite: "\<not> f_isnan F v" "\<not> nt_inf T v" by simp_all
    note reads = append_finite_reads [OF assms finite]
    from reads(3) obtain d where d: "nt_read T (append_number F T v) = Some d" "f_single F d = v" by blast
    show ?thesis
      using scalar_float [OF reads(1,2) d(1)] number_line [OF reads(1)] d
      by (simp add: float_value_def stored_number_def same_number_def)
  qed
  then show "scalar_text T (append_number F T v) (float_value F T v)" "line_text (append_number F T v)"
    "same_number F (stored_number F T v) v" by simp_all
qed

lemma read_stored: "read_number F T (Some (float_value F T v)) = Some (stored_number F T v)"
  by (simp add: read_number_def float_value_def stored_number_def)

lemma joined_line: "(\<And>t. t \<in> set ts \<Longrightarrow> line_text t) \<Longrightarrow> line_text (joined ts)"
proof (induction ts rule: joined.induct)
  case (3 t u ts)
  have "line_text '', ''" by (rule line_text_ascii) simp
  moreover have "line_text t" "line_text (joined (u # ts))" using 3 by simp_all
  ultimately have "line_text (t @ '', '' @ joined (u # ts))" by (blast intro: line_text_append)
  then show ?case by simp
qed (simp_all add: line_text_def utf8_empty)

lemma array_line:
  assumes "\<And>t. t \<in> set ts \<Longrightarrow> line_text t" shows "line_text (''['' @ joined ts @ '']'')"
proof -
  have "line_text ''[''" "line_text '']''" by (rule line_text_ascii, simp)+
  then show ?thesis using joined_line [OF assms] by (blast intro: line_text_append)
qed

lemma good_pairI: "bare_key k \<Longrightarrow> value_text T t v \<Longrightarrow> line_text t \<Longrightarrow> good_pair T (k, t, v)"
  by (simp add: good_pair_def line_text_def)

lemma id_good: "bare_key k \<Longrightarrow> good_pair T (k, id_text i, TomlInt (uint i))"
proof (rule good_pairI)
  have "unat i \<le> kInt64Max" using unsigned_less [of i, where 'a = nat] by (simp add: kInt64Max_def)
  then have "scalar_text T (id_text i) (TomlInt (int (unat i)))" unfolding id_text_def by (rule scalar_int)
  then show "value_text T (id_text i) (TomlInt (uint i))" by (simp add: scalar_value)
qed (simp_all add: id_text_def number_line digits_form plain_number)

lemma string_good: "bare_key k \<Longrightarrow> utf8 s \<Longrightarrow> good_pair T (k, append_string s, TomlString s)"
  by (rule good_pairI) (simp_all add: scalar_value string_scalar line_text_def string_text)

subsection \<open>The document of a layout\<close>

definition node_pairs :: "'f float_arith \<Rightarrow> 'f number_syntax \<Rightarrow> dock_id \<times> 'f dock_node \<Rightarrow> 'f written_pair list" where
  "node_pairs F T = (\<lambda>(i, n). (''id'', id_text i, TomlInt (uint i)) #
     (if node_kind n = KindTabs then
        [(''kind'', append_string ''tabs'', TomlString ''tabs''),
         (''panels'', ''['' @ joined (map append_string (node_panels n)) @ '']'', TomlArray (map TomlString (node_panels n))),
         (''active'', number_text (node_active n), TomlInt (int (node_active n)))]
      else
        (let ax = (if node_axis n = AxisHorizontal then ''horizontal'' else ''vertical'') in
        [(''kind'', append_string ''split'', TomlString ''split''), (''axis'', append_string ax, TomlString ax),
         (''ratio'', append_number F T (node_ratio n), float_value F T (node_ratio n)),
         (''first'', id_text (node_first n), TomlInt (uint (node_first n))),
         (''second'', id_text (node_second n), TomlInt (uint (node_second n)))])))"

definition rect_list :: "'f dock_rect \<Rightarrow> 'f list" where
  "rect_list r = [rect_x r, rect_y r, rect_w r, rect_h r]"

definition float_pairs :: "'f float_arith \<Rightarrow> 'f number_syntax \<Rightarrow> 'f dock_rect dock_float \<Rightarrow> 'f written_pair list" where
  "float_pairs F T f = [(''id'', id_text (float_id f), TomlInt (uint (float_id f))),
     (''root'', id_text (float_root f), TomlInt (uint (float_root f))),
     (''rect'', ''['' @ joined (map (append_number F T) (rect_list (float_rect f))) @ '']'',
       TomlArray (map (float_value F T) (rect_list (float_rect f))))]"

definition front_pairs :: "'f screen_layout \<Rightarrow> 'f written_pair list" where
  "front_pairs l = [(''version'', number_text 1, TomlInt 1), (''next_id'', id_text (dl_next l), TomlInt (uint (dl_next l))),
     (''root'', id_text (dl_root l), TomlInt (uint (dl_root l)))]"

definition layout_tables :: "'f float_arith \<Rightarrow> 'f number_syntax \<Rightarrow> 'f screen_layout
    \<Rightarrow> (string \<times> 'f written_pair list) list" where
  "layout_tables F T l = map (\<lambda>p. (''node'', node_pairs F T p)) (dl_nodes l)
     @ map (\<lambda>f. (''float'', float_pairs F T f)) (dl_floats l)"

lemma quoted_plain: "quoted ''tabs'' = append_string ''tabs''" "quoted ''split'' = append_string ''split''"
  "quoted ''horizontal'' = append_string ''horizontal''" "quoted ''vertical'' = append_string ''vertical''"
  by (simp_all add: quoted_def append_string_def escape_char_def)

lemma node_text_lines: "node_text F T p = unlines (table_lines (''node'', node_pairs F T p))"
  by (cases p) (simp add: node_text_def node_pairs_def table_lines_def pair_line_def quoted_plain Let_def)

lemma float_text_lines: "float_text F T f = unlines (table_lines (''float'', float_pairs F T f))"
  by (simp add: float_text_def float_pairs_def table_lines_def pair_line_def rect_list_def)

lemma unlines_concat: "unlines (concat (map f xs)) = concat (map (\<lambda>x. unlines (f x)) xs)"
  by (induction xs) simp_all

lemma layout_text_lines:
  "dock_layout_to_text F T l = unlines (document_lines (front_pairs l) (layout_tables F T l))"
  by (simp add: dock_layout_to_text_def document_lines_def layout_tables_def front_pairs_def pair_line_def
      node_text_lines [abs_def] float_text_lines [abs_def] unlines_concat comp_def)

text \<open>
  What a layout must be for its text to keep it: keys in UTF-8, and active tabs below \<open>2^63\<close>. Its numbers are
  values of the type \<open>float\<close>, infinities and NaN among them.
\<close>

definition savable :: "'f float_arith \<Rightarrow> 'f screen_layout \<Rightarrow> bool" where
  "savable F l \<longleftrightarrow>
     (\<forall>(i, n) \<in> set (dl_nodes l). node_active n \<le> kInt64Max \<and> list_all utf8 (node_panels n)
        \<and> (node_kind n = KindSplit \<longrightarrow> single_number F (node_ratio n)))
     \<and> (\<forall>f \<in> set (dl_floats l). list_all (single_number F) (rect_list (float_rect f)))"

lemma strings_value: "list_all2 (scalar_text T) (map append_string ss) (map TomlString ss)"
  by (simp add: list_all2_conv_all_nth string_scalar)

lemma number_good:
  "number_laws F T \<Longrightarrow> single_number F v \<Longrightarrow> bare_key k \<Longrightarrow> good_pair T (k, append_number F T v, float_value F T v)"
  by (rule good_pairI) (simp_all add: scalar_value number_scalar)

lemma int_good: "bare_key k \<Longrightarrow> n \<le> kInt64Max \<Longrightarrow> good_pair T (k, number_text n, TomlInt (int n))"
  by (rule good_pairI) (simp_all add: scalar_value scalar_int number_line digits_form plain_number)

lemma keys_good: "bare_key ''id''" "bare_key ''kind''" "bare_key ''panels''" "bare_key ''active''" "bare_key ''axis''"
  "bare_key ''ratio''" "bare_key ''first''" "bare_key ''second''" "bare_key ''root''" "bare_key ''rect''"
  "bare_key ''version''" "bare_key ''next_id''" "bare_key ''node''" "bare_key ''float''"
  by (simp_all add: bare_key_def)

lemma node_good:
  assumes "number_laws F T" and "node_active n \<le> kInt64Max" and "list_all utf8 (node_panels n)"
    and "node_kind n = KindSplit \<Longrightarrow> single_number F (node_ratio n)"
  shows "list_all (good_pair T) (node_pairs F T (i, n))"
proof -
  have "line_text t" if "t \<in> set (map append_string (node_panels n))" for t
    using that assms(3) by (auto simp: line_text_def string_text list_all_iff)
  from array_line [OF this]
  have "good_pair T (''panels'', ''['' @ joined (map append_string (node_panels n)) @ '']'', TomlArray (map TomlString (node_panels n)))"
    by (intro good_pairI keys_good array_value strings_value)
  moreover have "utf8 ''tabs''" "utf8 ''split''" "utf8 ''horizontal''" "utf8 ''vertical''"
    by (rule utf8_ascii, simp)+
  ultimately show ?thesis
    using assms by (cases "node_kind n") (simp_all add: node_pairs_def Let_def keys_good id_good string_good int_good number_good del: append_Cons)
qed

lemma float_good:
  assumes "number_laws F T" and "list_all (single_number F) (rect_list (float_rect f))"
  shows "list_all (good_pair T) (float_pairs F T f)"
proof -
  have "line_text t" if "t \<in> set (map (append_number F T) (rect_list (float_rect f)))" for t
    using that assms(2) number_scalar(2) [OF assms(1)] by (auto simp: list_all_iff)
  note line = array_line [OF this]
  have "list_all2 (scalar_text T) (map (append_number F T) (rect_list (float_rect f)))
      (map (float_value F T) (rect_list (float_rect f)))"
    using assms(2) number_scalar(1) [OF assms(1)] by (simp add: list_all2_conv_all_nth list_all_length)
  from good_pairI [OF keys_good(10) array_value [OF this] line]
  show ?thesis by (simp add: float_pairs_def id_good keys_good del: append_Cons)
qed

end
