(* ===== verification/Dock_Restored.thy ===== *)
theory Dock_Restored
  imports Dock_Saved
begin

section \<open>The round trip of a layout\<close>

subsection \<open>Nodes and floats\<close>

text \<open>A node as it is read: the members its kind does not store have their defaults, and the parent is given.\<close>

definition stored_node :: "'f float_arith \<Rightarrow> dock_id \<Rightarrow> 'f dock_node \<Rightarrow> 'f dock_node" where
  "stored_node F p n = (if node_kind n = KindTabs
     then (new_node F)\<lparr>node_id := node_id n, node_parent := p, node_kind := KindTabs, node_panels := node_panels n,
       node_active := node_active n\<rparr>
     else (new_node F)\<lparr>node_id := node_id n, node_parent := p, node_kind := KindSplit, node_axis := node_axis n,
       node_ratio := node_ratio n, node_first := node_first n, node_second := node_second n\<rparr>)"

lemma read_id_value: "t k = Some (TomlInt (uint i)) \<Longrightarrow> read_id t k = Some (i :: dock_id)"
  using unsigned_less [of i, where 'a = int] by (simp add: read_id_def read_int_def not_less)

lemma read_keys_value: "read_keys (map TomlString ss) = Some ss"
  by (induction ss) simp_all

lemma read_node_value:
  assumes "number_laws F T" and "node_kind n = KindSplit \<Longrightarrow> single_number F (node_ratio n) \<and> \<not> f_isnan F (node_ratio n)"
    and "node_id n = i"
  shows "read_node F T (map_of (map pair_value (node_pairs F T (i, n)))) = Some (stored_node F kNoDockNode n)"
proof (cases "node_kind n")
  case KindTabs
  then show ?thesis
    using assms(3) by (simp add: read_node_def read_text_def read_int_def read_id_value node_pairs_def pair_value_def
        read_tabs_def read_keys_value stored_node_def new_node_def)
next
  case KindSplit
  then have "read_number F T (Some (float_value F T (node_ratio n))) = Some (node_ratio n)"
    using number_scalar(3) [OF assms(1), of "node_ratio n"] assms(2) by (auto simp: read_stored same_number_def)
  with KindSplit show ?thesis
    using assms(3) by (cases "node_axis n") (simp_all add: read_node_def read_text_def read_id_value node_pairs_def
        pair_value_def read_split_def stored_node_def new_node_def Let_def)
qed

text \<open>A float as it is read.\<close>

definition stored_rect :: "'f float_arith \<Rightarrow> 'f number_syntax \<Rightarrow> 'f dock_rect \<Rightarrow> 'f dock_rect" where
  "stored_rect F T r = \<lparr>rect_x = stored_number F T (rect_x r), rect_y = stored_number F T (rect_y r),
     rect_w = stored_number F T (rect_w r), rect_h = stored_number F T (rect_h r)\<rparr>"

definition stored_float :: "'f float_arith \<Rightarrow> 'f number_syntax \<Rightarrow> 'f dock_rect dock_float \<Rightarrow> 'f dock_rect dock_float" where
  "stored_float F T f = \<lparr>float_id = float_id f, float_root = float_root f, float_rect = stored_rect F T (float_rect f)\<rparr>"

lemma read_float_value: "read_dock_float F T (map_of (map pair_value (float_pairs F T f))) = Some (stored_float F T f)"
  by (simp add: read_dock_float_def float_pairs_def pair_value_def rect_list_def read_id_value read_stored
      stored_float_def stored_rect_def)

definition same_rect :: "'f float_arith \<Rightarrow> 'f dock_rect \<Rightarrow> 'f dock_rect \<Rightarrow> bool" where
  "same_rect F r s \<longleftrightarrow> list_all2 (same_number F) (rect_list r) (rect_list s)"

lemma stored_same:
  "number_laws F T \<Longrightarrow> list_all (single_number F) (rect_list r) \<Longrightarrow> same_rect F (stored_rect F T r) r"
  by (simp add: same_rect_def rect_list_def stored_rect_def number_scalar(3))

lemma those_map: "(\<And>x. x \<in> set xs \<Longrightarrow> f x = Some (g x)) \<Longrightarrow> those (map f xs) = Some (map g xs)"
  by (induction xs) auto

lemma read_list_tables:
  assumes "\<And>x. x \<in> set xs \<Longrightarrow> read (map_of (f x)) = Some (g x)"
  shows "read_list read (if xs = [] then None else Some (TomlArray (map (\<lambda>x. TomlTable (map_of (f x))) xs)))
    = Some (map g xs)"
  using those_map [of xs "\<lambda>x. read (map_of (f x))" g] assms by (simp add: read_list_def comp_def)

lemma document_tables:
  fixes l :: "'f screen_layout" and F :: "'f float_arith" and T :: "'f number_syntax"
  defines "t \<equiv> toml_document (map pair_value (front_pairs l)) (map table_value (layout_tables F T l))"
  shows "t ''node'' = (if dl_nodes l = [] then None
      else Some (TomlArray (map (\<lambda>p. TomlTable (map_of (map pair_value (node_pairs F T p)))) (dl_nodes l))))"
    and "t ''float'' = (if dl_floats l = [] then None
      else Some (TomlArray (map (\<lambda>f. TomlTable (map_of (map pair_value (float_pairs F T f)))) (dl_floats l))))"
    and "t ''version'' = Some (TomlInt 1)" "t ''next_id'' = Some (TomlInt (uint (dl_next l)))"
    "t ''root'' = Some (TomlInt (uint (dl_root l)))"
  by (auto simp: t_def toml_document_def front_pairs_def pair_value_def layout_tables_def table_value_def comp_def
      filter_map image_image image_Un image_constant_conv)

subsection \<open>Parents\<close>

lemma emplace_all_sorted:
  "om_ok (acc @ map (\<lambda>n. (node_id n, n)) ns) \<Longrightarrow> emplace_all ns acc = Some (acc @ map (\<lambda>n. (node_id n, n)) ns)"
proof (induction ns arbitrary: acc)
  case (Cons n ns)
  have "map_of acc (node_id n) = None"
    using Cons.prems by (force simp: om_ok_def sorted_wrt_append map_of_eq_None_iff)
  moreover have "om_put (node_id n) n acc = acc @ [(node_id n, n)]"
    using Cons.prems by (induction acc) (auto simp: om_ok_def sorted_wrt_append)
  ultimately show ?case using Cons.IH [of "acc @ [(node_id n, n)]"] Cons.prems by simp
qed simp

text \<open>The parents the loop gives, which are those of the splits where no node has two.\<close>

definition points_to :: "'f dock_node \<Rightarrow> dock_id \<Rightarrow> bool" where
  "points_to n j \<longleftrightarrow> node_kind n = KindSplit \<and> (node_first n = j \<or> node_second n = j)"

lemma link_parent_get:
  assumes "om_ok N"
  shows "om_ok (link_parent i c N)"
    "map_of (link_parent i c N) j = (if j = c then map_option (node_parent_update (\<lambda>_. i)) (map_of N j) else map_of N j)"
  using assms by (auto simp: link_parent_def om_put_ok om_put_get split: option.splits)

definition link_step :: "dock_id \<times> 'f dock_node \<Rightarrow> (dock_id \<times> 'f dock_node) list \<Rightarrow> (dock_id \<times> 'f dock_node) list" where
  "link_step = (\<lambda>(i, n) N. if node_kind n \<noteq> KindSplit then N
     else link_parent i (node_second n) (link_parent i (node_first n) N))"

lemma link_step_get:
  assumes "om_ok N"
  shows "om_ok (link_step (i, n) N)"
    "map_of (link_step (i, n) N) j
      = (if points_to n j then map_option (node_parent_update (\<lambda>_. i)) (map_of N j) else map_of N j)"
  using assms by (auto simp: link_step_def points_to_def link_parent_get option.map_comp comp_def)

lemma fold_link_step:
  assumes "om_ok N" and "\<And>i n. (i, n) \<in> set xs \<Longrightarrow> points_to n j \<Longrightarrow> i = p"
  shows "om_ok (fold link_step xs N)"
    "map_of (fold link_step xs N) j = (if \<exists>(i, n) \<in> set xs. points_to n j
      then map_option (node_parent_update (\<lambda>_. p)) (map_of N j) else map_of N j)"
proof -
  have "om_ok (fold link_step xs N) \<and> map_of (fold link_step xs N) j = (if \<exists>(i, n) \<in> set xs. points_to n j
      then map_option (node_parent_update (\<lambda>_. p)) (map_of N j) else map_of N j)"
    using assms
  proof (induction xs arbitrary: N)
    case (Cons x xs)
    obtain i n where x: "x = (i, n)" by (cases x)
    have ok: "om_ok (link_step (i, n) N)" using Cons.prems(1) by (rule link_step_get)
    have "k = p" if "(k, m) \<in> set xs" "points_to m j" for k m using Cons.prems(2) [of k m] that by simp
    note IH = Cons.IH [OF ok this]
    have i: "points_to n j \<Longrightarrow> i = p" using Cons.prems(2) [of i n] x by simp
    have "fold link_step (x # xs) N = fold link_step xs (link_step (i, n) N)" by (simp add: x)
    then show ?case using IH i
      by (auto simp: x link_step_get(2) [OF Cons.prems(1)] option.map_comp comp_def)
  qed simp
  then show "om_ok (fold link_step xs N)"
    "map_of (fold link_step xs N) j = (if \<exists>(i, n) \<in> set xs. points_to n j
      then map_option (node_parent_update (\<lambda>_. p)) (map_of N j) else map_of N j)" by simp_all
qed

lemma shape_points:
  assumes "shape N p t" and "i \<in> set (tree_ids t)" and "N i = Some n" and "points_to n j"
  shows "\<exists>m. N j = Some m \<and> node_parent m = i"
  using assms
proof (induction t arbitrary: p)
  case (Split k ax r x y)
  show ?case
  proof (cases "i = k")
    case True
    have "shape N k x" "shape N k y" "j = top_id x \<or> j = top_id y"
      using Split.prems True by (auto simp: points_to_def)
    then show ?thesis using True shape_top [of N k x] shape_top [of N k y] by (auto elim!: holdsE)
  next
    case False
    then show ?thesis using Split by auto
  qed
qed (auto simp: points_to_def)

lemma shape_pointed:
  assumes "shape N p t" and "j \<in> set (tree_ids t)" and "N j = Some m"
  shows "node_parent m = p \<and> j = top_id t \<or> (\<exists>n. N (node_parent m) = Some n \<and> points_to n j)"
  using assms
proof (induction t arbitrary: p)
  case (Split k ax r x y)
  obtain n where n: "N k = Some n" "node_parent n = p" "node_kind n = KindSplit" "node_first n = top_id x"
    "node_second n = top_id y" using Split.prems(1) by (cases "N k") auto
  consider "j = k" | "j \<in> set (tree_ids x)" | "j \<in> set (tree_ids y)" using Split.prems(2) by auto
  then show ?case
  proof cases
    case 1
    then show ?thesis using n Split.prems(3) by simp
  next
    case 2
    then show ?thesis using Split.IH(1) [of k] Split.prems n by (auto simp: points_to_def)
  next
    case 3
    then show ?thesis using Split.IH(2) [of k] Split.prems n by (auto simp: points_to_def)
  qed
qed auto

lemma stored_node_simps [simp]:
  "points_to (stored_node F p n) j \<longleftrightarrow> points_to n j" "node_id (stored_node F p n) = node_id n"
  "node_parent_update (\<lambda>_. q) (stored_node F p n) = stored_node F q n"
  by (cases "node_kind n"; simp add: points_to_def stored_node_def)+

lemma holds_stored: "holds no p t \<Longrightarrow> holds (map_option (\<lambda>m. stored_node F (node_parent m) m) no) p t"
  by (cases "(no, p, t)" rule: holds.cases) (auto simp: stored_node_def)

lemma shape_stored:
  "shape N p t \<Longrightarrow> (\<And>j. M j = map_option (\<lambda>m. stored_node F (node_parent m) m) (N j)) \<Longrightarrow> shape M p t"
  by (induction t arbitrary: p) (simp_all add: holds_stored del: holds.simps)

lemma rep_tree:
  assumes "rep l A []" and "node l j = Some m"
  obtains t where "shape (node l) kNoDockNode t" "j \<in> set (tree_ids t)"
proof -
  have "j \<in> dom (node l)" using assms(2) by auto
  then have "j \<in> set (forest_ids (ds_trees A))" using repD(6) [OF assms(1)] by simp
  then show thesis using that repD(5) [OF assms(1)] by auto
qed

lemma link_parents_stored:
  fixes l :: "('f, 'r) dock_layout" and F :: "'f float_arith"
  assumes rep: "rep l A []"
  defines "nodes \<equiv> map (\<lambda>(i, n). (i, stored_node F kNoDockNode n)) (dl_nodes l)"
  shows "om_ok (link_parents nodes)"
    "map_of (link_parents nodes) j = map_option (\<lambda>m. stored_node F (node_parent m) m) (node l j)"
proof -
  define p where "p = (case node l j of None \<Rightarrow> kNoDockNode | Some m \<Rightarrow> node_parent m)"
  have ok: "om_ok (dl_nodes l)" by (rule repD [OF rep])
  have get: "map_of nodes k = map_option (stored_node F kNoDockNode) (node l k)" for k
    by (simp add: nodes_def node_def map_of_map)
  have mem: "(i, n) \<in> set (dl_nodes l) \<longleftrightarrow> node l i = Some n" for i n by (rule node_list [OF ok])
  have points: "\<exists>m. node l j = Some m \<and> node_parent m = i" if n: "node l i = Some n" "points_to n j" for i n
  proof -
    obtain t where "shape (node l) kNoDockNode t" "i \<in> set (tree_ids t)" by (rule rep_tree [OF rep n(1)])
    from shape_points [OF this n] show ?thesis .
  qed
  have one: "i = p" if "(i, n) \<in> set nodes" "points_to n j" for i n
    using that points mem by (force simp: nodes_def p_def)
  have link: "link_parents nodes = fold link_step nodes nodes"
    by (simp add: link_parents_def link_step_def)
  have ok': "om_ok nodes" using ok by (simp add: nodes_def om_map_val)
  show "om_ok (link_parents nodes)" unfolding link by (rule fold_link_step(1) [OF ok' one])
  have linked: "map_of (link_parents nodes) j = (if \<exists>(i, n) \<in> set nodes. points_to n j
      then map_option (node_parent_update (\<lambda>_. p)) (map_of nodes j) else map_of nodes j)"
    unfolding link by (rule fold_link_step(2) [OF ok' one])
  show "map_of (link_parents nodes) j = map_option (\<lambda>m. stored_node F (node_parent m) m) (node l j)"
  proof (cases "node l j")
    case None
    then show ?thesis using linked get by simp
  next
    case (Some m)
    obtain t where t: "shape (node l) kNoDockNode t" "j \<in> set (tree_ids t)" by (rule rep_tree [OF rep Some])
    have "node_parent m = kNoDockNode" if none: "\<not> (\<exists>(i, n) \<in> set nodes. points_to n j)"
    proof (rule ccontr)
      assume "node_parent m \<noteq> kNoDockNode"
      then obtain n where "node l (node_parent m) = Some n" "points_to n j"
        using shape_pointed [OF t Some] by auto
      then show False using none mem by (force simp: nodes_def)
    qed
    then show ?thesis using linked get Some by (auto simp: p_def)
  qed
qed

subsection \<open>The property\<close>

lemma saved_document:
  assumes "savable F l" and "number_laws F T" and "toml_reads T parse"
  shows "parse (dock_layout_to_text F T l)
    = Some (toml_document (map pair_value (front_pairs l)) (map table_value (layout_tables F T l)))"
proof -
  have "good_pair T (''version'', number_text 1, TomlInt (int 1))"
    by (rule int_good [OF keys_good(11)]) (simp add: kInt64Max_def)
  then have front: "list_all (good_pair T) (front_pairs l)"
    by (simp add: front_pairs_def id_good keys_good)
  have tables: "list_all (\<lambda>t. bare_key (fst t) \<and> list_all (good_pair T) (snd t)) (layout_tables F T l)"
    using assms(1) by (auto simp: layout_tables_def list_all_iff [of _ "map _ _"] keys_good savable_def
        intro!: node_good [OF assms(2)] float_good [OF assms(2)])
  have keys: "distinct (map fst (snd t)) \<and> fst t \<notin> fst ` set (front_pairs l)" if "t \<in> set (layout_tables F T l)" for t
    using that by (auto simp: layout_tables_def front_pairs_def node_pairs_def float_pairs_def Let_def)
  have "toml_read T (dock_layout_to_text F T l)
      = Some (toml_document (map pair_value (front_pairs l)) (map table_value (layout_tables F T l)))"
    unfolding layout_text_lines
    by (rule toml_read_document [OF front tables _ keys]) (simp add: front_pairs_def)
  moreover have "utf8 (dock_layout_to_text F T l)"
    unfolding layout_text_lines by (rule utf8_document [OF front tables])
  ultimately show ?thesis using assms(3) by (simp add: toml_reads_def)
qed

lemma read_saved_nodes:
  assumes "savable F l" and "number_laws F T" and "\<And>i n. (i, n) \<in> set (dl_nodes l) \<Longrightarrow> node_id n = i"
    and "\<And>i n. (i, n) \<in> set (dl_nodes l) \<Longrightarrow> node_kind n = KindSplit \<Longrightarrow> \<not> bad_ratio F (node_ratio n)"
  defines "t \<equiv> toml_document (map pair_value (front_pairs l)) (map table_value (layout_tables F T l))"
  shows "read_list (read_node F T) (t ''node'') = Some (map (stored_node F kNoDockNode \<circ> snd) (dl_nodes l))"
    "read_list (read_dock_float F T) (t ''float'') = Some (map (stored_float F T) (dl_floats l))"
proof -
  have "read_node F T (map_of (map pair_value (node_pairs F T p))) = Some ((stored_node F kNoDockNode \<circ> snd) p)"
    if "p \<in> set (dl_nodes l)" for p
  proof -
    obtain i n where p: "p = (i, n)" by (cases p)
    show ?thesis unfolding p snd_conv comp_apply
      by (rule read_node_value [OF assms(2)]) (use that p assms(1,3,4) in \<open>auto simp: savable_def bad_ratio_def\<close>)
  qed
  then show "read_list (read_node F T) (t ''node'') = Some (map (stored_node F kNoDockNode \<circ> snd) (dl_nodes l))"
    unfolding t_def document_tables(1) by (rule read_list_tables)
  show "read_list (read_dock_float F T) (t ''float'') = Some (map (stored_float F T) (dl_floats l))"
    unfolding t_def document_tables(2) by (rule read_list_tables) (rule read_float_value)
qed

lemma shape_ratio:
  assumes "shape N p t" and "tree_ok F t" and "i \<in> set (tree_ids t)" and "N i = Some n" and "node_kind n = KindSplit"
  shows "\<not> bad_ratio F (node_ratio n)"
  using assms by (induction t arbitrary: p) auto

text \<open>The same trees and floats, but for which NaN a rect has.\<close>

definition same_layout :: "'f float_arith \<Rightarrow> ('f, 'f dock_rect) dock_spec \<Rightarrow> ('f, 'f dock_rect) dock_spec \<Rightarrow> bool" where
  "same_layout F A B \<longleftrightarrow> ds_root A = ds_root B \<and> ds_next A = ds_next B
     \<and> list_all2 (\<lambda>(i, t, r) (j, u, s). i = j \<and> t = u \<and> same_rect F r s) (ds_floats A) (ds_floats B)"

text \<open>The halves as numbers, with the texts \<open>to_chars\<close> gives, and a layout with a split and a float.\<close>

definition half_text :: "rat \<Rightarrow> string" where
  "half_text v = number_text (nat \<lfloor>v\<rfloor>) @ (if v = of_int \<lfloor>v\<rfloor> then [] else ''.5'')"

definition half_read :: "string \<Rightarrow> rat option" where
  "half_read t = (let ds = takeWhile is_digit t; r = dropWhile is_digit t in
     if ds = [] then None else if r = [] \<or> r = ''.0'' then Some (of_nat (digits_value ds))
     else if r = ''.5'' then Some (of_nat (digits_value ds) + 1 / 2) else None)"

text \<open>Exact numbers with the infinities and NaN, where a \<open>float\<close> is a half.\<close>

datatype extended = Num rat | PosInf | NegInf | NotNum

fun ext_less :: "extended \<Rightarrow> extended \<Rightarrow> bool" where
  "ext_less (Num a) (Num b) \<longleftrightarrow> a < b"
| "ext_less (Num a) PosInf \<longleftrightarrow> True"
| "ext_less NegInf (Num b) \<longleftrightarrow> True"
| "ext_less NegInf PosInf \<longleftrightarrow> True"
| "ext_less _ _ \<longleftrightarrow> False"

definition ext_lift :: "(rat \<Rightarrow> rat \<Rightarrow> rat) \<Rightarrow> extended \<Rightarrow> extended \<Rightarrow> extended" where
  "ext_lift g a b = (case (a, b) of (Num x, Num y) \<Rightarrow> Num (g x y) | _ \<Rightarrow> NotNum)"

definition ext_single :: "extended \<Rightarrow> extended" where
  "ext_single a = (case a of Num x \<Rightarrow> if x < 0 then Num 0 else Num (of_int \<lfloor>2 * x\<rfloor> / 2) | _ \<Rightarrow> a)"

definition ext_arith :: "extended float_arith" where
  "ext_arith = \<lparr>f_int = (\<lambda>i. Num (of_int i)), f_add = ext_lift (+), f_sub = ext_lift (-), f_mul = ext_lift (*),
     f_div = ext_lift (/), f_less = ext_less, f_eq = (\<lambda>a b. a = b \<and> a \<noteq> NotNum),
     f_trunc = (\<lambda>a. case a of Num x \<Rightarrow> rat_trunc x | _ \<Rightarrow> 0), f_single = ext_single\<rparr>"

definition half_number :: "extended \<Rightarrow> string" where
  "half_number v = (case v of Num x \<Rightarrow> half_text x | _ \<Rightarrow> [])"

definition half_value :: "string \<Rightarrow> extended option" where
  "half_value t = (if t = ''inf'' then Some PosInf else if t = ''-inf'' then Some NegInf
     else if t = ''nan'' then Some NotNum else map_option Num (half_read t))"

definition half_syntax :: "extended number_syntax" where
  "half_syntax = \<lparr>nt_inf = (\<lambda>v. v = PosInf \<or> v = NegInf), nt_single = half_number, nt_double = half_number,
     nt_read = half_value, nt_chars = (\<lambda>t. map_option (\<lambda>x. (Num x, length t)) (half_read t)),
     nt_of_int = (\<lambda>i. Num (of_int i))\<rparr>"

lemma digits_span:
  assumes "\<not> is_digit c"
  shows "takeWhile is_digit (number_text n @ c # r) = number_text n" "dropWhile is_digit (number_text n @ c # r) = c # r"
    "takeWhile is_digit (number_text n) = number_text n" "dropWhile is_digit (number_text n) = []"
  using span_digits [of "number_text n" "c # r"] span_digits [of "number_text n" "[]"] plain_number [of n] assms
  by (simp_all add: plain_digits_def)

lemma half_form: "number_form (number_text n @ ''.5'')"
proof -
  have "number_text n \<noteq> [] \<and> hd (number_text n) \<noteq> CHR ''-''"
    using number_text_digits [of "hd (number_text n)" n] by (auto simp: is_digit_def)
  then show ?thesis
    using plain_number [of n]
    by (simp add: number_form_def Let_def digits_span is_digit_def fraction_form_def exponent_form_def)
qed

lemma half_read_text:
  assumes "0 \<le> v" and "of_int \<lfloor>2 * v\<rfloor> = 2 * v"
  shows "half_read (half_text v) = Some v" "number_form (half_text v)"
proof -
  have n: "of_nat (nat \<lfloor>v\<rfloor>) = (of_int \<lfloor>v\<rfloor> :: rat)" using assms(1) by simp
  have point: "\<not> is_digit CHR ''.''" by (simp add: is_digit_def)
  show "number_form (half_text v)"
    using digits_form [OF plain_number, of "nat \<lfloor>v\<rfloor>"] half_form by (simp add: half_text_def)
  show "half_read (half_text v) = Some v"
  proof (cases "v = of_int \<lfloor>v\<rfloor>")
    case True
    then show ?thesis using n by (simp add: half_read_def half_text_def Let_def digits_span(3,4) [OF point])
  next
    case False
    define m where "m = \<lfloor>2 * v\<rfloor>"
    have "of_int \<lfloor>v\<rfloor> < v" using False of_int_floor_le [of v] by linarith
    moreover have "v < of_int \<lfloor>v\<rfloor> + 1" by linarith
    moreover have "of_int m = 2 * v" using assms(2) by (simp add: m_def)
    ultimately have "of_int (2 * \<lfloor>v\<rfloor>) < (of_int m :: rat)" "(of_int m :: rat) < of_int (2 * \<lfloor>v\<rfloor> + 2)"
      by simp_all
    then have "m = 2 * \<lfloor>v\<rfloor> + 1" by linarith
    then have "v = of_int \<lfloor>v\<rfloor> + 1 / 2" using \<open>of_int m = 2 * v\<close> by simp
    then show ?thesis using False n by (simp add: half_read_def half_text_def Let_def digits_span(1,2) [OF point])
  qed
qed

lemma half_read_point:
  assumes "\<not> has_point t" shows "half_read (t @ ''.0'') = half_read t"
proof -
  have "takeWhile is_digit (t @ ''.0'') = takeWhile is_digit t" "dropWhile is_digit (t @ ''.0'') = dropWhile is_digit t @ ''.0''"
    by (induction t) (auto simp: is_digit_def)
  moreover have "CHR ''.'' \<notin> set (dropWhile is_digit t)" using assms by (auto simp: has_point_def dest: set_dropWhileD)
  ultimately show ?thesis by (cases "dropWhile is_digit t") (auto simp: half_read_def Let_def append_eq_Cons_conv)
qed

lemma half_words:
  assumes "number_form t" shows "t \<noteq> ''inf''" "t \<noteq> ''-inf''" "t \<noteq> ''nan''"
proof -
  have "take_special t = None" using number_not_special [OF assms, of "[]"] by simp
  then show "t \<noteq> ''inf''" "t \<noteq> ''-inf''" "t \<noteq> ''nan''" by (auto simp: take_special_def)
qed

lemma half_read_form: "number_form t \<Longrightarrow> nt_read half_syntax t = map_option Num (half_read t)"
  using half_words [of t] by (simp add: half_syntax_def half_value_def)

lemma ext_nan [simp]: "f_isnan ext_arith v \<longleftrightarrow> v = NotNum"
  by (simp add: f_isnan_def ext_arith_def)

lemma ext_finite:
  assumes "single_number ext_arith v" and "v \<noteq> NotNum" and "\<not> nt_inf half_syntax v"
  obtains x where "v = Num x" "0 \<le> x" "of_int \<lfloor>2 * x\<rfloor> = 2 * x"
proof (cases v)
  case (Num x)
  then have "0 \<le> x" "of_int \<lfloor>2 * x\<rfloor> / 2 = x"
    using assms(1) by (auto simp: single_number_def ext_arith_def ext_single_def split: if_splits)
  then show ?thesis using that Num by (simp add: divide_eq_eq ac_simps)
qed (use assms in \<open>simp_all add: half_syntax_def\<close>)

lemma half_laws: "number_laws ext_arith half_syntax"
  unfolding number_laws_def
proof (intro conjI allI impI)
  fix v assume v: "single_number ext_arith v" "\<not> f_isnan ext_arith v" "\<not> nt_inf half_syntax v"
  then obtain x where x: "v = Num x" "0 \<le> x" "of_int \<lfloor>2 * x\<rfloor> = 2 * x" using ext_finite by auto
  have says: "nt_single half_syntax v = half_text x" "nt_double half_syntax v = half_text x"
    by (simp_all add: half_syntax_def half_number_def x(1))
  note form = half_read_text [OF x(2,3)]
  show "number_form (nt_single half_syntax v)" "number_form (nt_double half_syntax v)" unfolding says by (rule form)+
  show "nt_read half_syntax (nt_double half_syntax v) = Some v"
    unfolding says half_read_form [OF form(2)] using form(1) x(1) by simp
  show "f_single ext_arith d = v" if "f_eq ext_arith (f_single ext_arith d) v" for d
    using that by (simp add: ext_arith_def)
next
  fix t d assume t: "number_form t" "nt_chars half_syntax t = Some (d, length t)"
  then show "nt_read half_syntax t = Some d"
    unfolding half_read_form [OF t(1)] by (auto simp: half_syntax_def)
next
  fix t assume t: "number_form t" "\<not> has_point t"
  show "nt_read half_syntax (t @ ''.0'') = nt_read half_syntax t"
    unfolding half_read_form [OF t(1)] half_read_form [OF add_point(1) [OF t]] half_read_point [OF t(2)] ..
next
  fix v assume "\<not> f_isnan ext_arith v" "nt_inf half_syntax v"
  then show "nt_read half_syntax (if f_less ext_arith v (f_int ext_arith 0) then ''-inf'' else ''inf'') = Some v"
    by (auto simp: half_syntax_def half_value_def ext_arith_def)
next
  show "\<exists>d. nt_read half_syntax ''nan'' = Some d \<and> f_isnan ext_arith (f_single ext_arith d)"
    by (simp add: half_syntax_def half_value_def) (simp add: ext_arith_def ext_single_def)
qed

definition demo_rect :: "extended dock_rect" where
  "demo_rect = \<lparr>rect_x = NegInf, rect_y = NotNum, rect_w = Num (401 / 2), rect_h = PosInf\<rparr>"

definition saved_demo :: "extended screen_layout" where
  "saved_demo = \<lparr>dl_root = 3, dl_nodes =
     [(1, (new_node ext_arith)\<lparr>node_id := 1, node_parent := 3, node_panels := [''a'', ''b\"'']\<rparr>),
      (2, (new_node ext_arith)\<lparr>node_id := 2, node_parent := 3, node_panels := [''c'']\<rparr>),
      (3, (new_node ext_arith)\<lparr>node_id := 3, node_kind := KindSplit, node_first := 1, node_second := 2\<rparr>),
      (4, (new_node ext_arith)\<lparr>node_id := 4, node_panels := [''d'']\<rparr>)],
     dl_floats = [\<lparr>float_id = 5, float_root = 4, float_rect = demo_rect\<rparr>], dl_next = 6\<rparr>"

definition saved_spec :: "(extended, extended dock_rect) dock_spec" where
  "saved_spec = \<lparr>ds_root = Some (Split 3 AxisHorizontal (Num (1 / 2)) (Stack 1 [''a'', ''b\"''] 0) (Stack 2 [''c''] 0)),
     ds_floats = [(5, Stack 4 [''d''] 0, demo_rect)], ds_next = 6\<rparr>"

lemma ext_half: "node_ratio (new_node ext_arith) = Num (1 / 2)"
  by (simp add: new_node_def ext_arith_def f_frac_def ext_lift_def ext_single_def)

lemma saved_demo_rep: "rep saved_demo saved_spec []"
  using ext_half
  by (auto simp: rep_def saved_demo_def saved_spec_def root_top_def ds_trees_def abs_float_def node_def new_node_def
      split: if_splits)

lemma ext_ratio: "\<not> bad_ratio ext_arith (Num (1 / 2))"
  by (simp add: bad_ratio_def kDockRatioMin_def kDockRatioMax_def f_frac_def ext_lift_def)
    (simp add: ext_arith_def ext_lift_def ext_single_def)

lemma saved_demo_wf: "wf ext_arith saved_spec []"
  by (simp add: wf_def saved_spec_def ds_trees_def all_ids_def all_keys_def ext_ratio)

lemma saved_demo_savable: "savable ext_arith saved_demo"
proof -
  have "utf8 ''a''" "utf8 ''b\"''" "utf8 ''c''" "utf8 ''d''" by (rule utf8_ascii, simp)+
  moreover have "list_all (single_number ext_arith) (Num (1 / 2) # rect_list demo_rect)"
    by (simp add: single_number_def rect_list_def demo_rect_def ext_arith_def ext_single_def)
  ultimately show ?thesis
    using ext_half by (simp add: savable_def saved_demo_def new_node_def kInt64Max_def)
qed

text \<open>
  C15: a layout that stands for trees is read back from its text: the reader accepts what the writer wrote, and what
  it gives stands for the same trees, floats and counter. Of the layout this asks that its keys are UTF-8 and that no
  active tab is above 2^63 - 1; its numbers may be any floats, and an infinity stays the same infinity. A rect that holds
  NaN has NaN in the same place, which need not be the same NaN.
\<close>

theorem dock_text_roundtrip:
  assumes "rep l A []" and "wf F A []" and "savable F l" and "number_laws F T" and "toml_reads T parse"
  shows "\<exists>l' B. dock_layout_from_text F T parse (dock_layout_to_text F T l) = Some l' \<and> rep l' B [] \<and> same_layout F B A"
proof -
  define nodes where "nodes = map (\<lambda>(i, n). (i, stored_node F kNoDockNode n)) (dl_nodes l)"
  define l' where "l' = l\<lparr>dl_nodes := link_parents nodes, dl_floats := map (stored_float F T) (dl_floats l)\<rparr>"
  define B where "B = A\<lparr>ds_floats := map (\<lambda>(i, t, r). (i, t, stored_rect F T r)) (ds_floats A)\<rparr>"
  define t where "t = toml_document (map pair_value (front_pairs l)) (map table_value (layout_tables F T l))"
  have trees: "ds_trees B = ds_trees A" by (simp add: ds_trees_def B_def comp_def case_prod_unfold)
  have ok: "om_ok (dl_nodes l)" by (rule repD [OF assms(1)])
  have in_tree: "\<exists>s \<in> set (ds_trees A). shape (node l) kNoDockNode s \<and> i \<in> set (tree_ids s)"
    if "node l i = Some n" for i n
  proof -
    have "i \<in> set (forest_ids (ds_trees A))" using repD(6) [OF assms(1)] that by auto
    then show ?thesis using repD(5) [OF assms(1)] by auto
  qed
  have node: "node l i = Some n" if "(i, n) \<in> set (dl_nodes l)" for i n using that node_list [OF ok] by blast
  have ids: "node_id n = i" if n: "(i, n) \<in> set (dl_nodes l)" for i n
  proof -
    obtain s where "shape (node l) kNoDockNode s" "i \<in> set (tree_ids s)" using in_tree [OF node [OF n]] by blast
    then obtain m where "node l i = Some m" "node_id m = i" by (rule shape_node)
    then show ?thesis using node [OF n] by simp
  qed
  have ratios: "\<not> bad_ratio F (node_ratio n)" if n: "(i, n) \<in> set (dl_nodes l)" "node_kind n = KindSplit" for i n
  proof -
    obtain s where s: "s \<in> set (ds_trees A)" "shape (node l) kNoDockNode s" "i \<in> set (tree_ids s)"
      using in_tree [OF node [OF n(1)]] by blast
    have "tree_ok F s" by (rule wfD(6) [OF assms(2)]) (simp add: s(1))
    from shape_ratio [OF s(2) this s(3) node [OF n(1)] n(2)] show ?thesis .
  qed
  have get: "node l' j = map_option (\<lambda>m. stored_node F (node_parent m) m) (node l j)" for j
    using link_parents_stored(2) [OF assms(1), of F j] by (simp add: l'_def node_def nodes_def)
  have rep: "rep l' B []"
  proof (rule repI)
    show "om_ok (dl_nodes l')"
      using link_parents_stored(1) [OF assms(1), of F] by (simp add: l'_def nodes_def)
    show "shape (node l') kNoDockNode s" if "s \<in> set (ds_trees B)" for s
      by (rule shape_stored [OF repD(5) [OF assms(1)] get]) (use that trees in simp)
    have "dom (node l') = dom (node l)" by (auto simp: get dom_def)
    then show "dom (node l') = set (forest_ids (ds_trees B @ []))" using repD(6) [OF assms(1)] trees by simp
    show "dl_floats l' = map abs_float (ds_floats B)"
      using repD(4) [OF assms(1)]
      by (simp add: l'_def B_def comp_def case_prod_unfold abs_float_def stored_float_def)
  qed (use repD [OF assms(1)] in \<open>simp_all add: l'_def B_def\<close>)
  have wf: "wf F B []" using assms(2) trees by (simp add: wf_def all_ids_def all_keys_def B_def comp_def case_prod_unfold)
  have same: "same_layout F B A"
    using stored_same [OF assms(4)] assms(3) repD(4) [OF assms(1)]
    by (auto simp: same_layout_def B_def list_all2_conv_all_nth savable_def abs_float_def case_prod_unfold)
  have "dock_layout_from_text F T parse (dock_layout_to_text F T l) = Some l'"
  proof -
    have nodes: "map (\<lambda>n. (node_id n, n)) (map (stored_node F kNoDockNode \<circ> snd) (dl_nodes l)) = nodes"
      using ids by (force simp: nodes_def)
    have "om_ok nodes" using ok by (simp add: nodes_def om_map_val)
    then have "emplace_all (map (stored_node F kNoDockNode \<circ> snd) (dl_nodes l)) [] = Some nodes"
      using emplace_all_sorted [of "[]" "map (stored_node F kNoDockNode \<circ> snd) (dl_nodes l)"] unfolding nodes by simp
    moreover have "from_parts F (link_parents nodes) (dl_root l) (map (stored_float F T) (dl_floats l)) (dl_next l) = Some l'"
      using wf_valid [OF rep wf] by (cases l) (simp add: from_parts_def l'_def Let_def)
    moreover have "read_int t ''version'' = Some 1" "read_id t ''next_id'' = Some (dl_next l)"
      "read_id t ''root'' = Some (dl_root l)"
      unfolding t_def by (simp_all add: read_int_def read_id_value document_tables)
    ultimately show ?thesis
      using read_saved_nodes [OF assms(3,4) ids ratios] saved_document [OF assms(3-5)]
      by (simp add: dock_layout_from_text_def t_def)
  qed
  with rep same show ?thesis by blast
qed

theorem dock_text_roundtrip_witness:
  "\<exists>l' B. dock_layout_from_text ext_arith half_syntax (toml_read half_syntax)
      (dock_layout_to_text ext_arith half_syntax saved_demo) = Some l' \<and> rep l' B [] \<and> same_layout ext_arith B saved_spec"
  by (rule dock_text_roundtrip [OF saved_demo_rep saved_demo_wf saved_demo_savable half_laws toml_read_reads])

end
