(* ===== verification/Skyline.thy ===== *)
theory Skyline
  imports Machine_Int
begin

section \<open>The rectangle packer\<close>

text \<open>
  \<open>SkylinePacker\<close> of \<open>src/src/ui/render/skyline_packer.cpp\<close>, which places glyphs and images in an atlas: the
  taken area is what lies above a skyline of spans, and a rectangle goes where its far edge ends lowest.
  An \<open>int\<close> of the code is an integer in its range: each operation gives \<open>None\<close> where a computation overflows, which the
  language leaves undefined.
\<close>

record span =
  span_x :: int
  span_y :: int
  span_width :: int

record skyline_packer =
  sp_width :: int
  sp_height :: int
  sp_spans :: "span list"

definition new_packer :: "int \<Rightarrow> int \<Rightarrow> skyline_packer" where
  "new_packer w h = \<lparr>sp_width = w, sp_height = h, sp_spans = [\<lparr>span_x = 0, span_y = 0, span_width = w\<rparr>]\<rparr>"

text \<open>The loop of \<open>fits\<close>, on the spans from the index on.\<close>

fun fits_loop :: "int \<Rightarrow> int \<Rightarrow> int \<Rightarrow> int \<Rightarrow> span list \<Rightarrow> int option" where
  "fits_loop height h space_left y spans =
     (if space_left \<le> 0 then Some y
      else (case spans of [] \<Rightarrow> Some (-1)
        | s # rest \<Rightarrow>
            (let y' = max y (span_y s) in do {
               far \<leftarrow> i32 (y' + h);
               if height < far then Some (-1)
               else do { left \<leftarrow> i32 (space_left - span_width s); fits_loop height h left y' rest } })))"

definition fits :: "skyline_packer \<Rightarrow> nat \<Rightarrow> int \<Rightarrow> int \<Rightarrow> int option" where
  "fits P i w h = (let s = sp_spans P ! i in do {
     right \<leftarrow> i32 (span_x s + w);
     if sp_width P < right then Some (-1)
     else fits_loop (sp_height P) h w (span_y s) (drop i (sp_spans P)) })"

text \<open>The new span stays in front of the ones it shadows, so that the loop compares with its end.\<close>

fun drop_shadowed :: "span \<Rightarrow> span list \<Rightarrow> span list option" where
  "drop_shadowed previous [] = Some []"
| "drop_shadowed previous (s # rest) = do {
     end_x \<leftarrow> i32 (span_x previous + span_width previous);
     if end_x \<le> span_x s then Some (s # rest)
     else do {
       shrink \<leftarrow> i32 (end_x - span_x s);
       x \<leftarrow> i32 (span_x s + shrink);
       width \<leftarrow> i32 (span_width s - shrink);
       if 0 < width then Some (s\<lparr>span_x := x, span_width := width\<rparr> # rest) else drop_shadowed previous rest } }"

fun merge_spans :: "span list \<Rightarrow> span list option" where
  "merge_spans (s # t # rest) = (if span_y s = span_y t
     then do { width \<leftarrow> i32 (span_width s + span_width t); merge_spans (s\<lparr>span_width := width\<rparr> # rest) }
     else do { merged \<leftarrow> merge_spans (t # rest); Some (s # merged) })"
| "merge_spans spans = Some spans"

definition add_level :: "nat \<Rightarrow> int \<Rightarrow> int \<Rightarrow> int \<Rightarrow> int \<Rightarrow> skyline_packer \<Rightarrow> skyline_packer option" where
  "add_level i x y w h P = do {
     far \<leftarrow> i32 (y + h);
     let new = \<lparr>span_x = x, span_y = far, span_width = w\<rparr>;
     rest \<leftarrow> drop_shadowed new (drop i (sp_spans P));
     spans \<leftarrow> merge_spans (take i (sp_spans P) @ new # rest);
     Some (P\<lparr>sp_spans := spans\<rparr>) }"

record skyline_best =
  best_h :: int
  best_w :: int
  best_at :: "(nat \<times> int \<times> int) option"

definition try_span :: "skyline_packer \<Rightarrow> int \<Rightarrow> int \<Rightarrow> nat \<Rightarrow> skyline_best \<Rightarrow> skyline_best option" where
  "try_span P w h i b = do {
     y \<leftarrow> fits P i w h;
     let s = sp_spans P ! i;
     if y = -1 then Some b
     else do {
       far \<leftarrow> i32 (y + h);
       if far < best_h b \<or> far = best_h b \<and> span_width s < best_w b
       then Some \<lparr>best_h = far, best_w = span_width s, best_at = Some (i, span_x s, y)\<rparr>
       else Some b } }"

definition packer_add :: "int \<Rightarrow> int \<Rightarrow> skyline_packer \<Rightarrow> ((int \<times> int) option \<times> skyline_packer) option" where
  "packer_add w h P =
     (if w \<le> 0 \<or> h \<le> 0 then Some (None, P)
      else do {
        b \<leftarrow> fold_opt (try_span P w h) [0..<length (sp_spans P)]
          \<lparr>best_h = sp_height P, best_w = sp_width P, best_at = None\<rparr>;
        (case best_at b of None \<Rightarrow> Some (None, P)
         | Some (i, x, y) \<Rightarrow> do { P' \<leftarrow> add_level i x y w h P; Some (Some (x, y), P') }) })"

text \<open>Any sequence of requests, with what each got.\<close>

fun pack_all :: "(int \<times> int) list \<Rightarrow> skyline_packer
    \<Rightarrow> (((int \<times> int) \<times> (int \<times> int) option) list \<times> skyline_packer) option" where
  "pack_all [] P = Some ([], P)"
| "pack_all (wh # sizes) P = do {
     (place, P') \<leftarrow> packer_add (fst wh) (snd wh) P;
     (out, P'') \<leftarrow> pack_all sizes P';
     Some ((wh, place) # out, P'') }"

end
