(* ===== verification/Skyline_Exact.thy ===== *)
theory Skyline_Exact
  imports Skyline
begin

section \<open>The rectangle packer over the integers\<close>

text \<open>
  The steps of \<open>Skyline\<close> with integers that do not overflow, and what they do: \<open>level\<close> is the skyline as a function,
  and \<open>peak\<close> the highest level below a rectangle. \<open>Skyline_Claims\<close> says when the code computes the same.
\<close>

text \<open>The loop of \<open>fits\<close>, on the spans from the index on.\<close>

fun fits_loop_z :: "int \<Rightarrow> int \<Rightarrow> int \<Rightarrow> int \<Rightarrow> span list \<Rightarrow> int" where
  "fits_loop_z height h space_left y spans =
     (if space_left \<le> 0 then y
      else (case spans of [] \<Rightarrow> -1
        | s # rest \<Rightarrow>
            (let y' = max y (span_y s) in
             if height < y' + h then -1 else fits_loop_z height h (space_left - span_width s) y' rest)))"

definition fits_z :: "skyline_packer \<Rightarrow> nat \<Rightarrow> int \<Rightarrow> int \<Rightarrow> int" where
  "fits_z P i w h = (let s = sp_spans P ! i in
     if sp_width P < span_x s + w then -1
     else fits_loop_z (sp_height P) h w (span_y s) (drop i (sp_spans P)))"

text \<open>The new span stays in front of the ones it shadows, so that the loop compares with its end.\<close>

fun drop_shadowed_z :: "int \<Rightarrow> span list \<Rightarrow> span list" where
  "drop_shadowed_z e [] = []"
| "drop_shadowed_z e (s # rest) =
     (if e \<le> span_x s then s # rest
      else (let shrink = e - span_x s; s' = s\<lparr>span_x := span_x s + shrink, span_width := span_width s - shrink\<rparr>
        in if 0 < span_width s' then s' # rest else drop_shadowed_z e rest))"

fun merge_spans_z :: "span list \<Rightarrow> span list" where
  "merge_spans_z (s # t # rest) = (if span_y s = span_y t
     then merge_spans_z (s\<lparr>span_width := span_width s + span_width t\<rparr> # rest) else s # merge_spans_z (t # rest))"
| "merge_spans_z spans = spans"

definition add_level_z :: "nat \<Rightarrow> int \<Rightarrow> int \<Rightarrow> int \<Rightarrow> int \<Rightarrow> skyline_packer \<Rightarrow> skyline_packer" where
  "add_level_z i x y w h P = P\<lparr>sp_spans := merge_spans_z (take i (sp_spans P)
     @ \<lparr>span_x = x, span_y = y + h, span_width = w\<rparr> # drop_shadowed_z (x + w) (drop i (sp_spans P)))\<rparr>"

definition try_span_z :: "skyline_packer \<Rightarrow> int \<Rightarrow> int \<Rightarrow> nat \<Rightarrow> skyline_best \<Rightarrow> skyline_best" where
  "try_span_z P w h i b =
     (let y = fits_z P i w h; s = sp_spans P ! i in
      if y = -1 then b
      else if y + h < best_h b \<or> y + h = best_h b \<and> span_width s < best_w b
        then \<lparr>best_h = y + h, best_w = span_width s, best_at = Some (i, span_x s, y)\<rparr>
      else b)"

definition packer_add_z :: "int \<Rightarrow> int \<Rightarrow> skyline_packer \<Rightarrow> (int \<times> int) option \<times> skyline_packer" where
  "packer_add_z w h P =
     (if w \<le> 0 \<or> h \<le> 0 then (None, P)
      else
        (let b = fold (try_span_z P w h) [0..<length (sp_spans P)]
             \<lparr>best_h = sp_height P, best_w = sp_width P, best_at = None\<rparr>
         in case best_at b of None \<Rightarrow> (None, P)
            | Some (i, x, y) \<Rightarrow> (Some (x, y), add_level_z i x y w h P)))"

subsection \<open>The skyline\<close>

fun chain :: "int \<Rightarrow> span list \<Rightarrow> int \<Rightarrow> bool" where
  "chain a [] b \<longleftrightarrow> a = b"
| "chain a (s # ss) b \<longleftrightarrow> span_x s = a \<and> 0 < span_width s \<and> 0 \<le> span_y s \<and> chain (a + span_width s) ss b"

fun level :: "span list \<Rightarrow> int \<Rightarrow> int" where
  "level [] c = 0"
| "level (s # ss) c = (if span_x s \<le> c \<and> c < span_x s + span_width s then span_y s else level ss c)"

definition skyline_ok :: "skyline_packer \<Rightarrow> bool" where
  "skyline_ok P \<longleftrightarrow> chain 0 (sp_spans P) (sp_width P)"

lemma chain_le: "chain a ss b \<Longrightarrow> a \<le> b"
  by (induction ss arbitrary: a) force+

lemma level_outside: "chain a ss b \<Longrightarrow> c < a \<or> b \<le> c \<Longrightarrow> level ss c = 0"
proof (induction ss arbitrary: a)
  case (Cons s ss)
  then show ?case using chain_le [of "a + span_width s" ss b] by force
qed simp

lemma level_nonneg: "chain a ss b \<Longrightarrow> 0 \<le> level ss c"
  by (induction ss arbitrary: a) auto

lemma chain_append: "chain a (xs @ ys) b \<longleftrightarrow> (\<exists>m. chain a xs m \<and> chain m ys b)"
  by (induction xs arbitrary: a) auto

lemma level_append:
  "chain a xs m \<Longrightarrow> level (xs @ ys) c = (if a \<le> c \<and> c < m then level xs c else level ys c)"
proof (induction xs arbitrary: a)
  case (Cons s xs)
  then show ?case using chain_le [of "a + span_width s" xs m] by force
qed simp

lemma drop_shadowed_chain:
  "chain a ss b \<Longrightarrow> a \<le> e \<Longrightarrow> e \<le> b \<Longrightarrow> chain e (drop_shadowed_z e ss) b"
  by (induction ss arbitrary: a) (auto simp: Let_def add.commute)

lemma drop_shadowed_level:
  "chain a ss b \<Longrightarrow> a \<le> e \<Longrightarrow> e \<le> c \<Longrightarrow> level (drop_shadowed_z e ss) c = level ss c"
  by (induction ss arbitrary: a) (auto simp: Let_def)

lemma merge_chain: "chain a ss b \<Longrightarrow> chain a (merge_spans_z ss) b"
  by (induction ss arbitrary: a rule: merge_spans_z.induct) (auto simp: add.assoc)

lemma merge_level: "chain a ss b \<Longrightarrow> level (merge_spans_z ss) c = level ss c"
proof (induction ss arbitrary: a rule: merge_spans_z.induct)
  case (1 s t rest)
  then show ?case by (cases "span_y s = span_y t") (auto simp: add.assoc)
qed simp_all

lemma add_level_ok:
  assumes "skyline_ok P" and "i < length (sp_spans P)" and "x = span_x (sp_spans P ! i)" and "0 < w" and "0 \<le> y + h"
    and "x + w \<le> sp_width P"
  shows "skyline_ok (add_level_z i x y w h P)"
    "level (sp_spans (add_level_z i x y w h P)) c = (if x \<le> c \<and> c < x + w then y + h else level (sp_spans P) c)"
proof -
  define ss new where "ss = sp_spans P" and "new = \<lparr>span_x = x, span_y = y + h, span_width = w\<rparr>"
  have split: "ss = take i ss @ drop i ss" "drop i ss = ss ! i # drop (Suc i) ss"
    using assms(2) by (simp_all add: ss_def Cons_nth_drop_Suc)
  have "chain 0 (take i ss @ drop i ss) (sp_width P)" using assms(1) by (simp add: skyline_ok_def ss_def)
  then obtain m where m: "chain 0 (take i ss) m" "chain m (drop i ss) (sp_width P)" unfolding chain_append by blast
  then have "m = x" using assms(3) split(2) by (simp add: ss_def)
  note m = m [unfolded this]
  have rest: "chain (x + w) (drop_shadowed_z (x + w) (drop i ss)) (sp_width P)"
    by (rule drop_shadowed_chain [OF m(2)]) (use assms(4,6) in simp_all)
  have whole: "chain 0 (take i ss @ new # drop_shadowed_z (x + w) (drop i ss)) (sp_width P)"
    unfolding chain_append using m(1) rest assms(4,5) by (auto simp: new_def)
  then show "skyline_ok (add_level_z i x y w h P)"
    by (simp add: skyline_ok_def add_level_z_def merge_chain ss_def new_def)
  have "level (sp_spans (add_level_z i x y w h P)) c = level (take i ss @ new # drop_shadowed_z (x + w) (drop i ss)) c"
    using merge_level [OF whole] by (simp add: add_level_z_def ss_def new_def)
  also have "\<dots> = (if 0 \<le> c \<and> c < x then level (take i ss) c else if x \<le> c \<and> c < x + w then y + h
      else level (drop_shadowed_z (x + w) (drop i ss)) c)"
    unfolding level_append [OF m(1)] by (simp add: new_def)
  also have "\<dots> = (if x \<le> c \<and> c < x + w then y + h else level (take i ss @ drop i ss) c)"
  proof -
    have "0 \<le> x" using chain_le [OF m(1)] .
    moreover have "level (drop_shadowed_z (x + w) (drop i ss)) c = level (drop i ss) c" if "x + w \<le> c"
      by (rule drop_shadowed_level [OF m(2) _ that]) (use assms(4) in simp)
    moreover have "level (drop_shadowed_z (x + w) (drop i ss)) c = 0" "level (drop i ss) c = 0" if "c < x"
      using level_outside [OF rest] level_outside [OF m(2)] that assms(4) by simp_all
    ultimately show ?thesis unfolding level_append [OF m(1)] by auto
  qed
  finally show "level (sp_spans (add_level_z i x y w h P)) c
      = (if x \<le> c \<and> c < x + w then y + h else level (sp_spans P) c)"
    using split(1) by (simp add: ss_def)
qed

subsection \<open>Where a rectangle fits\<close>

declare fits_loop_z.simps [simp del]

text \<open>What the loop says of the columns \<open>a\<close> to \<open>a + left\<close> below the spans \<open>ss\<close>, which end at \<open>b\<close>.\<close>

definition fits_means :: "int \<Rightarrow> int \<Rightarrow> int \<Rightarrow> int \<Rightarrow> int \<Rightarrow> int \<Rightarrow> span list \<Rightarrow> int \<Rightarrow> bool" where
  "fits_means H h left a b y ss r \<longleftrightarrow>
     (if r = -1 then b < a + left \<or> H < y + h \<or> (\<exists>c \<in> {a..<a + left}. H < level ss c + h)
      else y \<le> r \<and> (\<forall>c \<in> {a..<a + left}. level ss c \<le> r) \<and> (r = y \<or> (\<exists>c \<in> {a..<a + left}. level ss c = r))
        \<and> (0 < left \<longrightarrow> r + h \<le> H \<and> a + left \<le> b))"

lemma fits_means_step:
  assumes s: "chain a (s # ss) b" and left: "0 < left" and room: "max y (span_y s) + h \<le> H"
    and rest: "fits_means H h (left - span_width s) (a + span_width s) b (max y (span_y s)) ss r"
  shows "fits_means H h left a b y (s # ss) r"
proof -
  have low: "level (s # ss) c = (if c < a + span_width s then span_y s else level ss c)" if "a \<le> c" for c
    using that s by simp
  have width: "0 < span_width s" "a + span_width s \<le> b" using s chain_le [of "a + span_width s" ss b] by simp_all
  show ?thesis
  proof (cases "r = -1")
    case True
    then have "b < a + left \<or> (\<exists>c \<in> {a + span_width s..<a + left}. H < level ss c + h)"
      using rest room by (auto simp: fits_means_def)
    then have "b < a + left \<or> (\<exists>c \<in> {a..<a + left}. H < level (s # ss) c + h)"
    proof
      assume "\<exists>c \<in> {a + span_width s..<a + left}. H < level ss c + h"
      then obtain c where c: "c \<in> {a + span_width s..<a + left}" "H < level ss c + h" by blast
      then have "c \<in> {a..<a + left}" "H < level (s # ss) c + h" using low [of c] width(1) by simp_all
      then show ?thesis by blast
    qed simp
    then show ?thesis unfolding fits_means_def if_P [OF True] by blast
  next
    case False
    then have r: "max y (span_y s) \<le> r" "\<forall>c \<in> {a + span_width s..<a + left}. level ss c \<le> r"
      "r = max y (span_y s) \<or> (\<exists>c \<in> {a + span_width s..<a + left}. level ss c = r)"
      "span_width s < left \<Longrightarrow> r + h \<le> H \<and> a + left \<le> b"
      using rest by (simp_all add: fits_means_def)
    have "\<forall>c \<in> {a..<a + left}. level (s # ss) c \<le> r"
    proof
      fix c assume "c \<in> {a..<a + left}"
      then show "level (s # ss) c \<le> r"
        using r(1,2) low [of c] by (cases "c < a + span_width s") (simp_all del: level.simps)
    qed
    moreover have "r = y \<or> (\<exists>c \<in> {a..<a + left}. level (s # ss) c = r)"
      using r(3)
    proof
      assume "r = max y (span_y s)"
      then have "r = y \<or> level (s # ss) a = r" using low [of a] width(1) by (auto simp: max_def)
      then show ?thesis using left by force
    next
      assume "\<exists>c \<in> {a + span_width s..<a + left}. level ss c = r"
      then obtain c where c: "c \<in> {a + span_width s..<a + left}" "level ss c = r" by blast
      then have "c \<in> {a..<a + left}" "level (s # ss) c = r" using low [of c] width(1) by (simp_all del: level.simps)
      then show ?thesis by blast
    qed
    moreover have "r + h \<le> H \<and> a + left \<le> b"
      using r(3,4) room width(2) by (cases "span_width s < left") auto
    ultimately show ?thesis using False r(1) by (simp add: fits_means_def)
  qed
qed

lemma fits_loop_means: "chain a ss b \<Longrightarrow> 0 \<le> y \<Longrightarrow> fits_means H h left a b y ss (fits_loop_z H h left y ss)"
proof (induction ss arbitrary: a left y)
  case Nil
  then show ?case by (simp add: fits_loop_z.simps [of H h left y] fits_means_def)
next
  case (Cons s ss)
  have s: "span_x s = a" "0 < span_width s" "0 \<le> span_y s" "chain (a + span_width s) ss b"
    using Cons.prems(1) by simp_all
  consider "left \<le> 0" | "0 < left" "H < max y (span_y s) + h" | "0 < left" "max y (span_y s) + h \<le> H" by linarith
  then show ?case
  proof cases
    case 1
    then show ?thesis using Cons.prems by (simp add: fits_loop_z.simps [of H h left y] fits_means_def)
  next
    case 2
    have "H < y + h \<or> H < level (s # ss) a + h" using 2 s by (auto simp: max_def split: if_splits)
    moreover have "a \<in> {a..<a + left}" using 2 by simp
    ultimately have "H < y + h \<or> (\<exists>c \<in> {a..<a + left}. H < level (s # ss) c + h)" by blast
    then show ?thesis using 2 by (simp add: fits_loop_z.simps [of H h left y] Let_def fits_means_def del: level.simps)
  next
    case 3
    show ?thesis
      using fits_means_step [OF Cons.prems(1) 3 Cons.IH [OF s(4)]] Cons.prems(2) 3
      by (simp add: fits_loop_z.simps [of H h left y] Let_def)
  qed
qed

text \<open>The highest level below the columns of a rectangle, which is where its near edge must be.\<close>

definition peak :: "skyline_packer \<Rightarrow> int \<Rightarrow> int \<Rightarrow> int" where
  "peak P x w = Max (level (sp_spans P) ` {x..<x + w})"

lemma fits_peak:
  assumes ok: "skyline_ok P" and i: "i < length (sp_spans P)" and w: "0 < w" and x: "x = span_x (sp_spans P ! i)"
  shows "fits_z P i w h = (if x + w \<le> sp_width P \<and> peak P x w + h \<le> sp_height P then peak P x w else -1)"
    "0 \<le> peak P x w"
proof -
  define ss where "ss = sp_spans P"
  have split: "ss = take i ss @ drop i ss" "drop i ss = ss ! i # drop (Suc i) ss"
    using i by (simp_all add: ss_def Cons_nth_drop_Suc)
  have "chain 0 (take i ss @ drop i ss) (sp_width P)" using ok by (simp add: skyline_ok_def ss_def)
  then obtain m where m: "chain 0 (take i ss) m" "chain m (drop i ss) (sp_width P)" unfolding chain_append by blast
  then have "m = x" using x split(2) by (simp add: ss_def)
  note m = m [unfolded this]
  have low: "level (drop i ss) c = level ss c" if "x \<le> c" for c
    using level_append [OF m(1), of "drop i ss" c] that split(1) by simp
  have first: "level ss x = span_y (ss ! i)" "0 \<le> span_y (ss ! i)" using low [of x] m(2) split(2) by simp_all
  have fin: "finite (level ss ` {x..<x + w})" "x \<in> {x..<x + w}" using w by simp_all
  have below: "level ss c \<le> peak P x w" if "c \<in> {x..<x + w}" for c
    using that by (simp add: peak_def ss_def)
  show "0 \<le> peak P x w" using below [OF fin(2)] first by simp
  define r where "r = fits_loop_z (sp_height P) h w (span_y (ss ! i)) (drop i ss)"
  have means: "fits_means (sp_height P) h w x (sp_width P) (span_y (ss ! i)) (drop i ss) r"
    unfolding r_def by (rule fits_loop_means [OF m(2) first(2)])
  have fits_z: "fits_z P i w h = (if sp_width P < x + w then -1 else r)"
    by (simp add: fits_z_def ss_def r_def x Let_def)
  show "fits_z P i w h = (if x + w \<le> sp_width P \<and> peak P x w + h \<le> sp_height P then peak P x w else -1)"
  proof (cases "r = -1")
    case True
    then have "sp_width P < x + w \<or> (\<exists>c \<in> {x..<x + w}. sp_height P < level ss c + h)"
      using means first(1) fin(2) low by (force simp: fits_means_def)
    then show ?thesis using below fits_z True by fastforce
  next
    case False
    then have r: "\<And>c. c \<in> {x..<x + w} \<Longrightarrow> level ss c \<le> r" "\<exists>c \<in> {x..<x + w}. level ss c = r"
      "r + h \<le> sp_height P" "x + w \<le> sp_width P"
      using means w low first(1) fin(2) by (auto simp: fits_means_def)
    have "peak P x w = r" unfolding peak_def ss_def [symmetric] by (rule Max_eqI) (use r fin in auto)
    then show ?thesis using fits_z r by simp
  qed
qed

subsection \<open>The span that is chosen\<close>

definition best_of :: "skyline_packer \<Rightarrow> int \<Rightarrow> int \<Rightarrow> nat \<Rightarrow> skyline_best \<Rightarrow> bool" where
  "best_of P w h n b \<longleftrightarrow>
     (case best_at b of None \<Rightarrow> best_h b = sp_height P \<and> best_w b = sp_width P
      | Some (i, x, y) \<Rightarrow> i < n \<and> x = span_x (sp_spans P ! i) \<and> y = fits_z P i w h \<and> y \<noteq> -1
          \<and> best_h b = y + h \<and> best_w b = span_width (sp_spans P ! i))
     \<and> (\<forall>j < n. fits_z P j w h = -1 \<or> best_h b < fits_z P j w h + h
          \<or> best_h b = fits_z P j w h + h \<and> best_w b \<le> span_width (sp_spans P ! j))"

lemma best_of_step: "best_of P w h n b \<Longrightarrow> best_of P w h (Suc n) (try_span_z P w h n b)"
  by (auto simp: best_of_def try_span_z_def Let_def less_Suc_eq split: option.splits)

lemma best_of_fold:
  "best_of P w h n (fold (try_span_z P w h) [0..<n] \<lparr>best_h = sp_height P, best_w = sp_width P, best_at = None\<rparr>)"
proof (induction n)
  case (Suc n)
  then show ?case using best_of_step by simp
qed (simp add: best_of_def)

text \<open>A span with room for a rectangle whose near edge is on it.\<close>

definition has_room :: "skyline_packer \<Rightarrow> int \<Rightarrow> int \<Rightarrow> span \<Rightarrow> bool" where
  "has_room P w h s \<longleftrightarrow> span_x s + w \<le> sp_width P \<and> peak P (span_x s) w + h \<le> sp_height P"

lemma fits_room:
  assumes "skyline_ok P" and "0 < w" and "i < length (sp_spans P)"
  shows "fits_z P i w h \<noteq> -1 \<longleftrightarrow> has_room P w h (sp_spans P ! i)"
    "has_room P w h (sp_spans P ! i) \<Longrightarrow> fits_z P i w h = peak P (span_x (sp_spans P ! i)) w"
  using fits_peak [OF assms(1,3,2) refl] by (auto simp: has_room_def)

lemma packer_add_cases:
  assumes ok: "skyline_ok P" and w: "0 < w" "0 < h"
  shows "case packer_add_z w h P of
      (None, P') \<Rightarrow> P' = P \<and> (\<forall>s \<in> set (sp_spans P). has_room P w h s \<longrightarrow>
          peak P (span_x s) w + h = sp_height P \<and> sp_width P \<le> span_width s)
    | (Some (x, y), P') \<Rightarrow> \<exists>i < length (sp_spans P). P' = add_level_z i x y w h P
        \<and> x = span_x (sp_spans P ! i) \<and> y = peak P x w \<and> has_room P w h (sp_spans P ! i)
        \<and> (\<forall>s \<in> set (sp_spans P). has_room P w h s \<longrightarrow> y < peak P (span_x s) w
            \<or> y = peak P (span_x s) w \<and> span_width (sp_spans P ! i) \<le> span_width s)"
proof -
  define b where "b = fold (try_span_z P w h) [0..<length (sp_spans P)]
      \<lparr>best_h = sp_height P, best_w = sp_width P, best_at = None\<rparr>"
  have best: "best_of P w h (length (sp_spans P)) b" unfolding b_def by (rule best_of_fold)
  note room = fits_room [OF ok w(1)]
  have others: "best_h b < peak P (span_x s) w + h \<or> best_h b = peak P (span_x s) w + h \<and> best_w b \<le> span_width s"
    if s: "s \<in> set (sp_spans P)" "has_room P w h s" for s
  proof -
    obtain j where j: "j < length (sp_spans P)" "s = sp_spans P ! j" using s(1) unfolding in_set_conv_nth by blast
    have "has_room P w h (sp_spans P ! j)" using s(2) unfolding j(2) .
    then have fits_z: "fits_z P j w h \<noteq> -1" "fits_z P j w h = peak P (span_x s) w"
      using room [OF j(1)] unfolding j(2) by blast+
    have "fits_z P j w h = -1 \<or> best_h b < fits_z P j w h + h
        \<or> best_h b = fits_z P j w h + h \<and> best_w b \<le> span_width (sp_spans P ! j)"
      using best j(1) unfolding best_of_def by blast
    then show ?thesis using fits_z unfolding j(2) by linarith
  qed
  show ?thesis
  proof (cases "best_at b")
    case None
    then have start: "best_h b = sp_height P" "best_w b = sp_width P" using best by (simp_all add: best_of_def)
    have "peak P (span_x s) w + h = sp_height P \<and> sp_width P \<le> span_width s"
      if "s \<in> set (sp_spans P)" "has_room P w h s" for s
      using others [OF that] that(2) unfolding start has_room_def by linarith
    moreover have "packer_add_z w h P = (None, P)" using None w by (simp add: packer_add_z_def b_def [symmetric])
    ultimately show ?thesis by simp
  next
    case (Some t)
    obtain i x y where t: "t = (i, x, y)" by (cases t)
    have i: "i < length (sp_spans P)" "x = span_x (sp_spans P ! i)" "y = fits_z P i w h" "y \<noteq> -1"
      "best_h b = y + h" "best_w b = span_width (sp_spans P ! i)"
      using best Some t by (simp_all add: best_of_def)
    then have "has_room P w h (sp_spans P ! i)" "y = peak P x w" using room [OF i(1)] by metis+
    moreover have "y < peak P (span_x s) w \<or> y = peak P (span_x s) w \<and> span_width (sp_spans P ! i) \<le> span_width s"
      if "s \<in> set (sp_spans P)" "has_room P w h s" for s
      using others [OF that] unfolding i(5,6) by linarith
    moreover have "packer_add_z w h P = (Some (x, y), add_level_z i x y w h P)"
      using Some t w by (simp add: packer_add_z_def b_def [symmetric])
    ultimately show ?thesis using i(1,2) by auto
  qed
qed

subsection \<open>Sequences of requests\<close>

text \<open>Any sequence of requests, with what each got.\<close>

fun pack_all_z :: "(int \<times> int) list \<Rightarrow> skyline_packer \<Rightarrow> ((int \<times> int) \<times> (int \<times> int) option) list \<times> skyline_packer" where
  "pack_all_z [] P = ([], P)"
| "pack_all_z (wh # sizes) P =
     (case packer_add_z (fst wh) (snd wh) P of (place, P') \<Rightarrow>
        (case pack_all_z sizes P' of (out, P'') \<Rightarrow> ((wh, place) # out, P'')))"

fun placed :: "((int \<times> int) \<times> (int \<times> int) option) list \<Rightarrow> (int \<times> int \<times> int \<times> int) list" where
  "placed [] = []"
| "placed (((w, h), Some (x, y)) # out) = (x, y, w, h) # placed out"
| "placed ((wh, None) # out) = placed out"

definition apart :: "int \<times> int \<times> int \<times> int \<Rightarrow> int \<times> int \<times> int \<times> int \<Rightarrow> bool" where
  "apart = (\<lambda>(x, y, w, h) (x', y', w', h'). x + w \<le> x' \<or> x' + w' \<le> x \<or> y + h \<le> y' \<or> y' + h' \<le> y)"

definition inside :: "int \<Rightarrow> int \<Rightarrow> int \<times> int \<times> int \<times> int \<Rightarrow> bool" where
  "inside W H = (\<lambda>(x, y, w, h). 0 \<le> x \<and> 0 \<le> y \<and> 0 < w \<and> 0 < h \<and> x + w \<le> W \<and> y + h \<le> H)"

definition above_skyline :: "skyline_packer \<Rightarrow> int \<times> int \<times> int \<times> int \<Rightarrow> bool" where
  "above_skyline P = (\<lambda>(x, y, w, h). \<forall>c. x \<le> c \<longrightarrow> c < x + w \<longrightarrow> y + h \<le> level (sp_spans P) c)"

lemma chain_start: "chain a ss b \<Longrightarrow> s \<in> set ss \<Longrightarrow> a \<le> span_x s"
  by (induction ss arbitrary: a) force+

lemma packer_add_places:
  assumes ok: "skyline_ok P" and add: "packer_add_z w h P = (Some (x, y), P')"
  shows "skyline_ok P'" "sp_width P' = sp_width P" "sp_height P' = sp_height P"
    "inside (sp_width P) (sp_height P) (x, y, w, h)" "above_skyline P' (x, y, w, h)"
    "above_skyline P r \<Longrightarrow> 0 < fst (snd (snd r)) \<Longrightarrow> above_skyline P' r \<and> apart (x, y, w, h) r"
proof -
  have w: "0 < w" "0 < h" using add by (auto simp: packer_add_z_def split: if_splits)
  obtain i where i: "i < length (sp_spans P)" "P' = add_level_z i x y w h P" "x = span_x (sp_spans P ! i)"
    "y = peak P x w" "has_room P w h (sp_spans P ! i)"
    using packer_add_cases [OF ok w] add by auto
  have y: "0 \<le> y" using fits_peak(2) [OF ok i(1) w(1) i(3)] i(4) by simp
  have room: "x + w \<le> sp_width P" "y + h \<le> sp_height P" using i(3-5) by (simp_all add: has_room_def)
  have "0 \<le> y + h" using y w(2) by simp
  note new = add_level_ok [OF ok i(1,3) w(1) this room(1)]
  show "skyline_ok P'" using new(1) by (simp add: i(2))
  show "sp_width P' = sp_width P" "sp_height P' = sp_height P" by (simp_all add: i(2) add_level_z_def)
  have "0 \<le> x" using chain_start [of 0 "sp_spans P" _ "sp_spans P ! i"] ok i(1,3) by (auto simp: skyline_ok_def)
  then show "inside (sp_width P) (sp_height P) (x, y, w, h)" using w y room by (simp add: inside_def)
  have level: "level (sp_spans P') c = (if x \<le> c \<and> c < x + w then y + h else level (sp_spans P) c)" for c
    unfolding i(2) by (rule new(2))
  show "above_skyline P' (x, y, w, h)" by (simp add: above_skyline_def level)
  have below: "level (sp_spans P) c \<le> y" if "x \<le> c" "c < x + w" for c
    using that by (simp add: i(4) peak_def)
  show "above_skyline P' r \<and> apart (x, y, w, h) r" if r: "above_skyline P r" "0 < fst (snd (snd r))"
  proof -
    obtain a b u v where abuv: "r = (a, b, u, v)" by (cases r)
    have top: "b + v \<le> level (sp_spans P) c" if "a \<le> c" "c < a + u" for c
      using r(1) that by (simp add: above_skyline_def abuv)
    have "b + v \<le> level (sp_spans P') c" if c: "a \<le> c" "c < a + u" for c
      using top [OF c] below [of c] w(2) by (auto simp: level)
    moreover have "b + v \<le> y" if over: "\<not> (x + w \<le> a \<or> a + u \<le> x)"
      using top [of x] below [of x] top [of a] below [of a] over r(2) w(1) by (cases "a \<le> x") (simp_all add: abuv)
    ultimately show ?thesis by (auto simp: above_skyline_def apart_def abuv)
  qed
qed

lemma pack_all_places:
  assumes "skyline_ok P" and "pack_all_z sizes P = (out, P')" and "W = sp_width P" and "H = sp_height P"
  shows "sorted_wrt apart (placed out) \<and> list_all (inside W H) (placed out)
    \<and> (\<forall>r. above_skyline P r \<longrightarrow> 0 < fst (snd (snd r)) \<longrightarrow> list_all (\<lambda>q. apart q r) (placed out))"
  using assms
proof (induction sizes arbitrary: P out)
  case (Cons wh sizes)
  obtain w h where wh: "wh = (w, h)" by (cases wh)
  obtain place Q where add: "packer_add_z w h P = (place, Q)" by (cases "packer_add_z w h P")
  obtain out' where rest: "pack_all_z sizes Q = (out', P')" "out = (wh, place) # out'"
    using Cons.prems(2) add wh by (auto split: prod.splits)
  show ?case
  proof (cases place)
    case None
    then have "Q = P" using add by (auto simp: packer_add_z_def Let_def split: if_splits option.splits)
    then show ?thesis using Cons.IH [OF Cons.prems(1)] rest Cons.prems(3,4) None by simp
  next
    case (Some xy)
    obtain x y where xy: "xy = (x, y)" by (cases xy)
    note new = packer_add_places [OF Cons.prems(1) add [unfolded Some xy]]
    have "W = sp_width Q" "H = sp_height Q" using new(2,3) Cons.prems(3,4) by simp_all
    note all = Cons.IH [OF new(1) rest(1) this]
    have IH: "sorted_wrt apart (placed out')" "list_all (inside W H) (placed out')"
      "\<And>r. above_skyline Q r \<Longrightarrow> 0 < fst (snd (snd r)) \<Longrightarrow> list_all (\<lambda>q. apart q r) (placed out')"
      using all by blast+
    have "list_all (\<lambda>q. apart q (x, y, w, h)) (placed out')"
      by (rule IH(3) [OF new(5)]) (use new(4) in \<open>simp add: inside_def\<close>)
    then have "list_all (apart (x, y, w, h)) (placed out')" by (auto simp: list_all_iff apart_def)
    then show ?thesis
      using IH new(4,6) rest(2) wh Some xy Cons.prems(3,4) by (auto simp: list_all_iff)
  qed
qed simp

lemma no_width:
  assumes "W \<le> 0" shows "packer_add_z w h (new_packer W H) = (None, new_packer W H)"
  using assms by (simp add: packer_add_z_def new_packer_def try_span_z_def fits_z_def)

lemma pack_no_width: "W \<le> 0 \<Longrightarrow> placed (fst (pack_all_z sizes (new_packer W H))) = []"
proof (induction sizes)
  case (Cons wh sizes)
  obtain out P where "pack_all_z sizes (new_packer W H) = (out, P)" by fastforce
  with Cons show ?case by (cases wh) (simp add: no_width)
qed simp

end
