(* ===== verification/Skyline_Claims.thy ===== *)
theory Skyline_Claims
  imports Skyline_Exact
begin

section \<open>The rectangle packer in 32 bits\<close>

text \<open>
  What a step gives is what it gives over the integers, and a step overflows only for a size that does not add to a side of
  the area within the range of \<open>int\<close>.
\<close>

declare fits_loop.simps [simp del]

subsection \<open>What the steps give\<close>

lemma fits_loop_Some: "fits_loop H h left y ss = Some r \<Longrightarrow> r = fits_loop_z H h left y ss"
proof (induction ss arbitrary: left y)
  case (Cons s ss)
  show ?case
    using Cons.prems Cons.IH [of "left - span_width s" "max y (span_y s)"]
    by (auto simp: fits_loop.simps [of H h left y] fits_loop_z.simps [of H h left y] Let_def bind_eq_Some_conv i32_Some
        split: if_splits)
qed (auto simp: fits_loop.simps [of H h left y for left y] fits_loop_z.simps [of H h left y for left y])

lemma fits_Some: "fits P i w h = Some r \<Longrightarrow> r = fits_z P i w h"
  by (auto simp: fits_def fits_z_def Let_def bind_eq_Some_conv i32_Some fits_loop_Some split: if_splits)

lemma drop_shadowed_Some:
  "drop_shadowed p ss = Some r \<Longrightarrow> r = drop_shadowed_z (span_x p + span_width p) ss"
  by (induction ss) (auto simp: Let_def bind_eq_Some_conv i32_Some split: if_splits)

lemma merge_spans_Some: "merge_spans ss = Some r \<Longrightarrow> r = merge_spans_z ss"
proof (induction ss arbitrary: r rule: merge_spans_z.induct)
  case (1 s t rest)
  then show ?case by (auto simp: bind_eq_Some_conv i32_Some split: if_splits)
qed auto

lemma add_level_Some: "add_level i x y w h P = Some Q \<Longrightarrow> Q = add_level_z i x y w h P"
  by (auto simp: add_level_def add_level_z_def Let_def bind_eq_Some_conv i32_Some
      dest!: drop_shadowed_Some merge_spans_Some)

lemma try_span_Some: "try_span P w h i b = Some c \<Longrightarrow> c = try_span_z P w h i b"
  by (auto simp: try_span_def try_span_z_def Let_def bind_eq_Some_conv i32_Some dest!: fits_Some split: if_splits)

lemma fold_try_Some: "fold_opt (try_span P w h) is b = Some c \<Longrightarrow> c = fold (try_span_z P w h) is b"
  by (induction "is" arbitrary: b) (auto simp: bind_eq_Some_conv dest!: try_span_Some)

lemma packer_add_Some: "packer_add w h P = Some out \<Longrightarrow> out = packer_add_z w h P"
  by (auto simp: packer_add_def packer_add_z_def Let_def bind_eq_Some_conv dest!: fold_try_Some add_level_Some
      split: if_splits option.splits)

subsection \<open>Where no step overflows\<close>

definition packer_ok :: "skyline_packer \<Rightarrow> bool" where
  "packer_ok P \<longleftrightarrow> is_i32 (sp_width P) \<and> is_i32 (sp_height P) \<and>
     (\<forall>s \<in> set (sp_spans P). 0 \<le> span_y s \<and> span_y s \<le> max 0 (sp_height P)) \<and>
     (skyline_ok P \<or> sp_width P \<le> 0 \<and> sp_spans P = [\<lparr>span_x = 0, span_y = 0, span_width = sp_width P\<rparr>])"

text \<open>A size that adds to both sides of the area within the range of \<open>int\<close>.\<close>

definition size_fits :: "int \<Rightarrow> int \<Rightarrow> int \<times> int \<Rightarrow> bool" where
  "size_fits W H wh \<longleftrightarrow> max 0 W + fst wh \<le> kIntMax \<and> max 0 H + snd wh \<le> kIntMax"

lemma chain_spans: "chain a ss b \<Longrightarrow> s \<in> set ss \<Longrightarrow> a \<le> span_x s \<and> span_x s + span_width s \<le> b \<and> 0 < span_width s"
proof (induction ss arbitrary: a)
  case (Cons t ss)
  then show ?case using chain_le [of "a + span_width t" ss b] by fastforce
qed simp

lemma fits_loop_fits:
  assumes "\<And>s. s \<in> set ss \<Longrightarrow> 0 \<le> span_y s \<and> span_y s \<le> max 0 H \<and> 0 < span_width s \<and> span_width s \<le> kIntMax"
    and "0 \<le> y" and "y \<le> max 0 H" and "left \<le> kIntMax" and "0 < h" and "max 0 H + h \<le> kIntMax"
  shows "fits_loop H h left y ss \<noteq> None"
  using assms
proof (induction ss arbitrary: left y)
  case (Cons s ss)
  have s: "0 \<le> span_y s" "span_y s \<le> max 0 H" "0 < span_width s" "span_width s \<le> kIntMax" using Cons.prems(1) by auto
  have y: "0 \<le> max y (span_y s)" "max y (span_y s) \<le> max 0 H" using s Cons.prems(2,3) by auto
  have far: "is_i32 (max y (span_y s) + h)" using y Cons.prems(5,6) unfolding is_i32_def kIntMax_def by linarith
  have left: "is_i32 (left - span_width s)" if "0 < left"
    using that s(3,4) Cons.prems(4) unfolding is_i32_def kIntMax_def by linarith
  have less: "left - span_width s \<le> kIntMax" using s(3) Cons.prems(4) by linarith
  have "fits_loop H h (left - span_width s) (max y (span_y s)) ss \<noteq> None"
    by (rule Cons.IH [OF _ y less Cons.prems(5,6)]) (use Cons.prems(1) in auto)
  then show ?case
    using far left by (simp add: fits_loop.simps [of H h left y] Let_def i32_small del: max_less_iff_conj)
qed (simp add: fits_loop.simps [of H h left y for left y])

lemma fits_fits:
  assumes ok: "packer_ok P" and i: "i < length (sp_spans P)" and size: "size_fits (sp_width P) (sp_height P) (w, h)"
    and pos: "0 < w" "0 < h"
  shows "fits P i w h \<noteq> None"
proof (cases "skyline_ok P")
  case True
  define s where "s = sp_spans P ! i"
  have mem: "s \<in> set (sp_spans P)" using i by (simp add: s_def)
  have all: "0 \<le> span_x t \<and> span_x t + span_width t \<le> sp_width P \<and> 0 < span_width t" if "t \<in> set (sp_spans P)" for t
    using chain_spans [of 0 "sp_spans P" "sp_width P" t] True that by (simp add: skyline_ok_def)
  have low: "0 \<le> span_y t \<and> span_y t \<le> max 0 (sp_height P)" if "t \<in> set (sp_spans P)" for t
    using ok that by (simp add: packer_ok_def)
  have W: "max 0 (sp_width P) + w \<le> kIntMax" and H: "max 0 (sp_height P) + h \<le> kIntMax"
    using size by (simp_all add: size_fits_def)
  have "is_i32 (span_x s + w)" using all [OF mem] W pos(1) unfolding is_i32_def kIntMax_def by linarith
  moreover have "fits_loop (sp_height P) h w (span_y s) (drop i (sp_spans P)) \<noteq> None"
  proof (rule fits_loop_fits [OF _ _ _ _ pos(2) H])
    show "0 \<le> span_y t \<and> span_y t \<le> max 0 (sp_height P) \<and> 0 < span_width t \<and> span_width t \<le> kIntMax"
      if "t \<in> set (drop i (sp_spans P))" for t
      using all [of t] low [of t] in_set_dropD [OF that] W pos(1) by linarith
    show "w \<le> kIntMax" using W by linarith
  qed (use low [OF mem] in simp_all)
  ultimately show ?thesis by (simp add: fits_def Let_def s_def i32_small)
next
  case False
  then have "sp_spans P ! i = \<lparr>span_x = 0, span_y = 0, span_width = sp_width P\<rparr>" "sp_width P \<le> 0"
    using ok i by (auto simp: packer_ok_def)
  then show ?thesis using size pos(1) by (simp add: fits_def i32_def is_i32_def size_fits_def kIntMax_def)
qed

lemma drop_shadowed_fits:
  assumes "chain a ss W" and "0 \<le> a" and "a \<le> span_x p + span_width p" and "span_x p + span_width p \<le> W" and "W \<le> kIntMax"
  shows "drop_shadowed p ss \<noteq> None"
  using assms
proof (induction ss arbitrary: a)
  case (Cons s ss)
  let ?e = "span_x p + span_width p"
  have s: "span_x s = a" "0 < span_width s" "chain (a + span_width s) ss W" using Cons.prems(1) by simp_all
  have w: "a + span_width s \<le> W" by (rule chain_le [OF s(3)])
  have "is_i32 ?e" "is_i32 (?e - a)" "is_i32 (a + (?e - a))" "is_i32 (span_width s - (?e - a))"
    using Cons.prems(2-5) s(2) w unfolding is_i32_def kIntMax_def by linarith+
  moreover have "drop_shadowed p ss \<noteq> None" if "\<not> 0 < span_width s - (?e - a)"
    by (rule Cons.IH [OF s(3)]) (use Cons.prems(2-5) s(2) that in linarith)+
  ultimately show ?case by (simp add: s(1) i32_small)
qed simp

lemma merge_spans_fits: "chain a ss W \<Longrightarrow> 0 \<le> a \<Longrightarrow> W \<le> kIntMax \<Longrightarrow> merge_spans ss \<noteq> None"
proof (induction ss arbitrary: a rule: merge_spans_z.induct)
  case (1 s t rest)
  let ?s = "s\<lparr>span_width := span_width s + span_width t\<rparr>"
  have c: "span_x s = a" "0 < span_width s" "0 < span_width t" "chain (a + span_width s) (t # rest) W"
    "chain (a + span_width s + span_width t) rest W"
    using 1(3) by simp_all
  have "a + span_width s + span_width t \<le> W" by (rule chain_le [OF c(5)])
  then have "is_i32 (span_width s + span_width t)" using c(2,3) 1(4,5) unfolding is_i32_def kIntMax_def by linarith
  moreover have "merge_spans (?s # rest) \<noteq> None" if "span_y s = span_y t"
    by (rule 1(1) [OF that _ 1(4,5)]) (use 1(3) in \<open>simp add: add.assoc\<close>)
  moreover have "merge_spans (t # rest) \<noteq> None" if "span_y s \<noteq> span_y t"
    by (rule 1(2) [OF that c(4) _ 1(5)]) (use 1(4) c(2) in simp)
  ultimately show ?case by (cases "span_y s = span_y t") (auto simp: i32_small)
qed simp_all

lemma add_level_fits:
  assumes ok: "packer_ok P" "skyline_ok P" and i: "i < length (sp_spans P)" and x: "x = span_x (sp_spans P ! i)"
    and w: "0 < w" "x + w \<le> sp_width P" and y: "0 \<le> y" "0 < h" "y + h \<le> sp_height P"
  shows "add_level i x y w h P \<noteq> None"
proof -
  define new where "new = \<lparr>span_x = x, span_y = y + h, span_width = w\<rparr>"
  have W: "sp_width P \<le> kIntMax" and H: "sp_height P \<le> kIntMax" using ok(1) by (simp_all add: packer_ok_def is_i32_def)
  have split: "sp_spans P = take i (sp_spans P) @ drop i (sp_spans P)" "drop i (sp_spans P) = sp_spans P ! i # drop (Suc i) (sp_spans P)"
    using i by (simp_all add: Cons_nth_drop_Suc)
  obtain m where m: "chain 0 (take i (sp_spans P)) m" "chain m (drop i (sp_spans P)) (sp_width P)"
    using ok(2) chain_append [of 0 "take i (sp_spans P)" "drop i (sp_spans P)" "sp_width P"] by (auto simp: skyline_ok_def)
  then have "m = x" using x split(2) by simp
  note m = m [unfolded this]
  have x0: "0 \<le> x" by (rule chain_le [OF m(1)])
  have "drop_shadowed new (drop i (sp_spans P)) \<noteq> None"
    by (rule drop_shadowed_fits [OF m(2) x0 _ _ W]) (use w in \<open>simp_all add: new_def\<close>)
  then obtain rest where rest: "drop_shadowed new (drop i (sp_spans P)) = Some rest" by blast
  then have "rest = drop_shadowed_z (x + w) (drop i (sp_spans P))" using drop_shadowed_Some [OF rest] by (simp add: new_def)
  then have "chain (x + w) rest (sp_width P)" using drop_shadowed_chain [OF m(2)] w by simp
  then have "chain 0 (take i (sp_spans P) @ new # rest) (sp_width P)"
    unfolding chain_append using m(1) w(1) y by (auto simp: new_def)
  from merge_spans_fits [OF this _ W] have "merge_spans (take i (sp_spans P) @ new # rest) \<noteq> None" by simp
  moreover have "is_i32 (y + h)" using y H unfolding is_i32_def kIntMax_def by linarith
  ultimately show ?thesis using rest by (auto simp: add_level_def Let_def i32_small new_def)
qed

lemma try_span_fits:
  assumes ok: "packer_ok P" and i: "i < length (sp_spans P)" and size: "size_fits (sp_width P) (sp_height P) (w, h)"
    and pos: "0 < w" "0 < h"
  shows "try_span P w h i b = Some (try_span_z P w h i b)"
proof -
  obtain y where y: "fits P i w h = Some y" using fits_fits [OF assms] by blast
  have "is_i32 (y + h)" if "y \<noteq> -1"
  proof (cases "skyline_ok P")
    case True
    note peak = fits_peak(1) [OF True i pos(1) refl, of h] fits_peak(2) [OF True i pos(1) refl]
    have "y = fits_z P i w h" using y by (rule fits_Some)
    with that peak have "0 \<le> y \<and> y + h \<le> sp_height P" by (auto split: if_splits)
    moreover have "sp_height P \<le> kIntMax" using ok by (simp add: packer_ok_def is_i32_def)
    ultimately show ?thesis using pos(2) unfolding is_i32_def kIntMax_def by linarith
  next
    case False
    then have "sp_spans P ! i = \<lparr>span_x = 0, span_y = 0, span_width = sp_width P\<rparr>" "sp_width P \<le> 0"
      using ok i by (auto simp: packer_ok_def)
    then have "fits_z P i w h = -1" using pos(1) by (simp add: fits_z_def)
    then show ?thesis using fits_Some [OF y] that by simp
  qed
  then have "try_span P w h i b \<noteq> None" using y by (simp add: try_span_def Let_def i32_small)
  then show ?thesis using try_span_Some by blast
qed

lemma packer_add_fits:
  assumes ok: "packer_ok P" and size: "size_fits (sp_width P) (sp_height P) (w, h)"
  shows "packer_add w h P = Some (packer_add_z w h P)"
proof (cases "w \<le> 0 \<or> h \<le> 0")
  case False
  then have pos: "0 < w" "0 < h" by simp_all
  let ?start = "\<lparr>best_h = sp_height P, best_w = sp_width P, best_at = None\<rparr>"
  define b where "b = fold (try_span_z P w h) [0..<length (sp_spans P)] ?start"
  have b: "fold_opt (try_span P w h) [0..<length (sp_spans P)] ?start = Some b"
    unfolding b_def by (rule fold_opt_fold) (use try_span_fits [OF ok _ size pos] in simp)
  have "add_level i x y w h P \<noteq> None" if at: "best_at b = Some (i, x, y)" for i x y
  proof (cases "skyline_ok P")
    case True
    have "packer_add_z w h P = (Some (x, y), add_level_z i x y w h P)"
      using at pos by (simp add: packer_add_z_def b_def [symmetric])
    have best: "best_of P w h (length (sp_spans P)) b" unfolding b_def by (rule best_of_fold)
    then have i: "i < length (sp_spans P)" "x = span_x (sp_spans P ! i)" "y = fits_z P i w h" "y \<noteq> -1"
      using at by (simp_all add: best_of_def)
    note peak = fits_peak(1) [OF True i(1) pos(1) i(2), of h] fits_peak(2) [OF True i(1) pos(1) i(2)]
    show ?thesis
      by (rule add_level_fits [OF ok True i(1,2) pos(1)]) (use peak i(3,4) pos(2) in \<open>auto split: if_splits\<close>)
  next
    case False
    then have "sp_spans P = [\<lparr>span_x = 0, span_y = 0, span_width = sp_width P\<rparr>]" "sp_width P \<le> 0"
      using ok by (auto simp: packer_ok_def)
    then have "b = ?start" using pos(1) by (simp add: b_def try_span_z_def fits_z_def)
    then show ?thesis using at by simp
  qed
  then have "packer_add w h P \<noteq> None" using pos b by (auto simp: packer_add_def split: option.split)
  then show ?thesis using packer_add_Some by blast
qed (simp add: packer_add_def packer_add_z_def)

subsection \<open>Sequences of requests\<close>

lemma drop_shadowed_ys: "s \<in> set (drop_shadowed_z e ss) \<Longrightarrow> span_y s \<in> span_y ` set ss"
  by (induction ss) (auto simp: Let_def split: if_splits)

lemma merge_spans_ys: "s \<in> set (merge_spans_z ss) \<Longrightarrow> span_y s \<in> span_y ` set ss"
proof (induction ss rule: merge_spans_z.induct)
  case (1 a b rest)
  then show ?case by (cases "span_y a = span_y b") auto
qed auto

lemma packer_add_ok:
  assumes ok: "packer_ok P" and add: "packer_add_z w h P = (place, P')"
  shows "packer_ok P' \<and> sp_width P' = sp_width P \<and> sp_height P' = sp_height P"
proof (cases place)
  case None
  then have "P' = P" using add by (auto simp: packer_add_z_def Let_def split: if_splits option.splits)
  then show ?thesis using ok by simp
next
  case (Some xy)
  obtain x y where xy: "xy = (x, y)" by (cases xy)
  have pos: "0 < w" "0 < h" using add Some by (auto simp: packer_add_z_def split: if_splits)
  have sky: "skyline_ok P"
  proof (rule ccontr)
    assume "\<not> skyline_ok P"
    then have "sp_spans P = [\<lparr>span_x = 0, span_y = 0, span_width = sp_width P\<rparr>]" "sp_width P \<le> 0"
      using ok by (auto simp: packer_ok_def)
    then show False using add Some pos by (simp add: packer_add_z_def try_span_z_def fits_z_def)
  qed
  note new = packer_add_places [OF sky add [unfolded Some xy]]
  obtain i where i: "P' = add_level_z i x y w h P"
    using packer_add_cases [OF sky pos] add Some xy by auto
  have yh: "0 \<le> y + h" "y + h \<le> sp_height P" using new(4) by (simp_all add: inside_def)
  have "0 \<le> span_y s \<and> span_y s \<le> max 0 (sp_height P)" if s: "s \<in> set (sp_spans P')" for s
  proof -
    have "span_y s \<in> span_y ` set (take i (sp_spans P)
        @ \<lparr>span_x = x, span_y = y + h, span_width = w\<rparr> # drop_shadowed_z (x + w) (drop i (sp_spans P)))"
      by (rule merge_spans_ys) (use s in \<open>simp add: i add_level_z_def\<close>)
    then consider "span_y s = y + h" | t where "t \<in> set (sp_spans P)" "span_y s = span_y t"
      using drop_shadowed_ys by (fastforce dest: in_set_takeD in_set_dropD)
    then show ?thesis using yh ok by cases (auto simp: packer_ok_def)
  qed
  then show ?thesis using new(1-3) ok by (simp add: packer_ok_def)
qed

lemma new_packer_ok: "is_i32 W \<Longrightarrow> is_i32 H \<Longrightarrow> packer_ok (new_packer W H)"
  by (auto simp: packer_ok_def new_packer_def skyline_ok_def)

lemma pack_all_exact:
  assumes "packer_ok P" and "W = sp_width P" and "H = sp_height P"
  shows "case pack_all sizes P of None \<Rightarrow> \<exists>wh \<in> set sizes. \<not> size_fits W H wh | Some out \<Rightarrow> out = pack_all_z sizes P"
  using assms
proof (induction sizes arbitrary: P)
  case (Cons wh sizes)
  obtain w h where wh: "wh = (w, h)" by (cases wh)
  obtain place P' where add: "packer_add_z w h P = (place, P')" by (cases "packer_add_z w h P")
  note ok' = packer_add_ok [OF Cons.prems(1) add]
  have IH: "case pack_all sizes P' of None \<Rightarrow> \<exists>wh \<in> set sizes. \<not> size_fits W H wh | Some out \<Rightarrow> out = pack_all_z sizes P'"
    by (rule Cons.IH) (use ok' Cons.prems(2,3) in simp_all)
  show ?case
  proof (cases "packer_add w h P")
    case None
    then have "\<not> size_fits W H wh" using packer_add_fits [OF Cons.prems(1)] Cons.prems(2,3) wh by auto
    then show ?thesis using None wh by simp
  next
    case (Some r)
    then have "r = (place, P')" using packer_add_Some [OF Some] add by simp
    then show ?thesis using IH Some add wh by (auto split: option.splits prod.splits)
  qed
qed simp

subsection \<open>The properties\<close>

text \<open>
  C9: In a packer whose sides are any two numbers of \<open>int\<close>, whatever sizes are asked for, in whatever order: the rectangles
  it has given out lie inside its area and no two of them overlap, or a computation overflowed; and one overflows only
  where a size asked for and the side of the area (or 0, where that is negative) add up beyond the largest \<open>int\<close>.
\<close>

theorem skyline_packs:
  assumes "is_i32 W" and "is_i32 H"
  shows "case pack_all sizes (new_packer W H) of
      None \<Rightarrow> \<exists>(w, h) \<in> set sizes. kIntMax < max 0 W + w \<or> kIntMax < max 0 H + h
    | Some (out, P) \<Rightarrow> sorted_wrt apart (placed out) \<and> list_all (inside W H) (placed out)"
proof -
  have exact: "case pack_all sizes (new_packer W H) of None \<Rightarrow> \<exists>wh \<in> set sizes. \<not> size_fits W H wh
      | Some out \<Rightarrow> out = pack_all_z sizes (new_packer W H)"
    by (rule pack_all_exact [OF new_packer_ok [OF assms]]) (simp_all add: new_packer_def)
  have "sorted_wrt apart (placed (fst (pack_all_z sizes (new_packer W H))))
     \<and> list_all (inside W H) (placed (fst (pack_all_z sizes (new_packer W H))))"
  proof (cases "0 < W")
    case True
    then have "skyline_ok (new_packer W H)" by (simp add: skyline_ok_def new_packer_def)
    from pack_all_places [OF this surjective_pairing refl refl] show ?thesis by (simp add: new_packer_def)
  qed (simp add: pack_no_width)
  with exact show ?thesis by (cases "pack_all sizes (new_packer W H)") (auto simp: size_fits_def not_le)
qed

theorem skyline_packs_witness:
  "case pack_all [(2, 3), (1, 1), (2, 2)] (new_packer 4 4) of None \<Rightarrow> False
    | Some (out, P) \<Rightarrow> sorted_wrt apart (placed out) \<and> list_all (inside 4 4) (placed out)"
  using skyline_packs [of 4 4 "[(2, 3), (1, 1), (2, 2)]"]
  by (auto simp: is_i32_def kIntMax_def placed.simps split: option.splits prod.splits)

text \<open>
  C32: In any packer in order, a rectangle that is placed stands on the highest level below it, at a span where its
  far edge ends lowest, and among those at the narrowest; one is refused only where no span has room, or where the
  packer has one level across its whole width that the rectangle would fill to the very end; and an \<open>int\<close> overflows only
  where a side of the rectangle and the side of the area add up beyond the largest one.
\<close>

theorem packer_add_best:
  assumes "packer_ok P" and "skyline_ok P" and "0 < w" and "0 < h"
  shows "case packer_add w h P of
      None \<Rightarrow> kIntMax < max 0 (sp_width P) + w \<or> kIntMax < max 0 (sp_height P) + h
    | Some (None, P') \<Rightarrow> P' = P \<and> (\<forall>s \<in> set (sp_spans P). has_room P w h s \<longrightarrow>
          peak P (span_x s) w + h = sp_height P \<and> sp_width P \<le> span_width s)
    | Some (Some (x, y), P') \<Rightarrow> packer_ok P' \<and> skyline_ok P' \<and> y = peak P x w
        \<and> (\<exists>s \<in> set (sp_spans P). x = span_x s \<and> has_room P w h s
        \<and> (\<forall>t \<in> set (sp_spans P). has_room P w h t \<longrightarrow> y < peak P (span_x t) w
            \<or> y = peak P (span_x t) w \<and> span_width s \<le> span_width t))"
proof (cases "packer_add w h P")
  case None
  then have "\<not> size_fits (sp_width P) (sp_height P) (w, h)" using packer_add_fits [OF assms(1)] by auto
  then show ?thesis using None by (auto simp: size_fits_def)
next
  case (Some out)
  obtain place P' where out: "out = (place, P')" by (cases out)
  have add: "packer_add_z w h P = (place, P')" using packer_add_Some [OF Some] out by simp
  show ?thesis
  proof (cases place)
    case None
    then show ?thesis using packer_add_cases [OF assms(2-4)] add Some out by simp
  next
    case (Some xy)
    obtain x y where xy: "xy = (x, y)" by (cases xy)
    obtain i where "i < length (sp_spans P)" "x = span_x (sp_spans P ! i)" "y = peak P x w" "has_room P w h (sp_spans P ! i)"
      "\<forall>t \<in> set (sp_spans P). has_room P w h t \<longrightarrow> y < peak P (span_x t) w
            \<or> y = peak P (span_x t) w \<and> span_width (sp_spans P ! i) \<le> span_width t"
      using packer_add_cases [OF assms(2-4)] add Some xy by auto
    then show ?thesis
      using packer_add_places(1) [OF assms(2) add [unfolded Some xy]] packer_add_ok [OF assms(1) add] nth_mem
      by (auto simp: \<open>packer_add w h P = Some out\<close> out Some xy)
  qed
qed

text \<open>The refusal that is not for want of room: a rectangle of the packer's own size in an empty packer.\<close>

lemma flat_peak: "0 < w \<Longrightarrow> peak (new_packer W H) 0 w = 0"
proof -
  have "level (sp_spans (new_packer W H)) c = 0" for c by (simp add: new_packer_def)
  then show "0 < w \<Longrightarrow> peak (new_packer W H) 0 w = 0" by (simp add: peak_def)
qed

lemma full_size_refused: "packer_add 4 4 (new_packer 4 4) = Some (None, new_packer 4 4)"
  by code_simp

lemma full_size_room: "0 < W \<Longrightarrow> has_room (new_packer W H) W H \<lparr>span_x = 0, span_y = 0, span_width = W\<rparr>"
  by (simp add: has_room_def flat_peak) (simp add: new_packer_def)

text \<open>A height near the largest \<open>int\<close> overflows behind a rectangle of height 1.\<close>

lemma tall_overflows:
  "pack_all [(1, 1), (1, kIntMax)] (new_packer 4 4) = None"
  by code_simp

theorem packer_add_best_witness:
  "\<exists>P. packer_add 2 3 (new_packer 4 4) = Some (Some (0, 0), P) \<and> packer_ok P"
proof -
  have ok: "packer_ok (new_packer 4 4)" "skyline_ok (new_packer 4 4)"
    by (simp_all add: packer_ok_def skyline_ok_def new_packer_def is_i32_def kIntMax_def)
  have "map_option fst (packer_add 2 3 (new_packer 4 4)) = Some (Some (0, 0))" by code_simp
  then show ?thesis using packer_add_best [OF ok, of 2 3] by (auto split: option.splits)
qed

end
