(* ===== verification/Random_Numbers.thy ===== *)
theory Random_Numbers
  imports Wind_Prelude Float_Arith
begin

unbundle bit_operations_syntax

section \<open>Random numbers\<close>

text \<open>
  \<open>Random\<close> of \<open>src/src/core/random.cpp\<close>, the generator PCG32 of gameplay: a linear congruence on 64 bits whose state
  is scrambled into a draw of 32 bits. A state runs through all \<open>2^64\<close> before it comes back, from which it follows
  that the loop of \<open>uniform\<close> ends, whatever the state. The clock that seeds a default \<open>Random\<close> is an argument.
\<close>

record random =
  rn_state :: u64
  rn_inc :: u64

definition kMultiplier :: u64 where
  "kMultiplier = 6364136223846793005"

definition next_u32 :: "random \<Rightarrow> u32 \<times> random" where
  "next_u32 r =
     (let old = rn_state r;
          xorshifted = (ucast (drop_bit 27 (drop_bit 18 old XOR old)) :: u32);
          rot = (ucast (drop_bit 59 old) :: u32)
      in (drop_bit (unat rot) xorshifted OR push_bit (unat ((NOT rot + 1) AND 31)) xorshifted,
          r\<lparr>rn_state := old * kMultiplier + rn_inc r\<rparr>))"

definition seed_random :: "u64 \<Rightarrow> u64 \<Rightarrow> random" where
  "seed_random seed stream =
     (let r = snd (next_u32 \<lparr>rn_state = 0, rn_inc = push_bit 1 stream OR 1\<rparr>)
      in snd (next_u32 (r\<lparr>rn_state := rn_state r + seed\<rparr>)))"

definition default_random :: "u64 \<Rightarrow> random" where
  "default_random clock = seed_random clock 0"

definition next_u64 :: "random \<Rightarrow> u64 \<times> random" where
  "next_u64 r = (case next_u32 r of (high, r') \<Rightarrow>
     (case next_u32 r' of (low, r'') \<Rightarrow> (push_bit 32 (ucast high) OR ucast low, r'')))"

definition next_float :: "'f float_arith \<Rightarrow> random \<Rightarrow> 'f \<times> random" where
  "next_float F r = (case next_u32 r of (d, r') \<Rightarrow>
     (f_mul F (f_int F (uint (drop_bit 8 d))) (f_frac F 1 16777216), r'))"

text \<open>A conversion to \<open>int\<close> takes the low 32 bits.\<close>

definition to_int32 :: "int \<Rightarrow> int" where
  "to_int32 v = (v + 2 ^ 31) mod 2 ^ 32 - 2 ^ 31"

partial_function (option) redraw :: "u32 \<Rightarrow> u32 \<Rightarrow> random \<Rightarrow> (u32 \<times> random) option" where
  "redraw threshold draw r =
     (if draw < threshold then (case next_u32 r of (d, r') \<Rightarrow> redraw threshold d r') else Some (draw, r))"

definition uniform_int :: "int \<Rightarrow> int \<Rightarrow> random \<Rightarrow> (int \<times> random) option" where
  "uniform_int lo hi r =
     (if hi \<le> lo then Some (lo, r)
      else
        (let span = (of_int (hi - lo) :: u64) + 1 in
         if 0xFFFFFFFF < span then (case next_u32 r of (d, r') \<Rightarrow> Some (to_int32 (lo + uint d), r'))
         else
           (let bound = (ucast span :: u32); threshold = (0 - bound) mod bound in
            case next_u32 r of (d, r') \<Rightarrow>
              map_option (\<lambda>(draw, r''). (to_int32 (lo + uint (draw mod bound)), r'')) (redraw threshold d r'))))"

definition uniform_float :: "'f float_arith \<Rightarrow> 'f \<Rightarrow> 'f \<Rightarrow> random \<Rightarrow> 'f \<times> random" where
  "uniform_float F lo hi r = (case next_float F r of (x, r') \<Rightarrow> (f_add F lo (f_mul F (f_sub F hi lo) x), r'))"

definition chance :: "'f float_arith \<Rightarrow> 'f \<Rightarrow> random \<Rightarrow> bool \<times> random" where
  "chance F p r = (case next_float F r of (x, r') \<Rightarrow> (f_less F x (f_clamp F p (f_int F 0) (f_int F 1)), r'))"

subsection \<open>The period\<close>

definition advance :: "u64 \<Rightarrow> u64 \<Rightarrow> u64" where
  "advance c s = s * kMultiplier + c"

text \<open>\<open>2^k\<close> steps are one step with another multiplier and another increment.\<close>

primrec jump_mul :: "nat \<Rightarrow> u64" where
  "jump_mul 0 = kMultiplier"
| "jump_mul (Suc k) = jump_mul k * jump_mul k"

primrec jump_add :: "u64 \<Rightarrow> nat \<Rightarrow> u64" where
  "jump_add c 0 = c"
| "jump_add c (Suc k) = jump_add c k * (jump_mul k + 1)"

lemma jump: "(advance c ^^ (2 ^ k)) s = s * jump_mul k + jump_add c k"
proof (induction k arbitrary: s)
  case (Suc k)
  have "(advance c ^^ (2 ^ Suc k)) s = (advance c ^^ (2 ^ k)) ((advance c ^^ (2 ^ k)) s)"
    by (simp add: mult_2 funpow_add)
  then show ?case by (simp add: Suc algebra_simps)
qed (simp add: advance_def)

lemma jump_mul_form: "\<exists>n. jump_mul k = 1 + 2 ^ (k + 2) * n"
proof (induction k)
  case 0
  show ?case by (rule exI [of _ 1591034055961698251]) (simp add: kMultiplier_def)
next
  case (Suc k)
  then obtain n where "jump_mul k = 1 + 2 ^ (k + 2) * n" by blast
  then have "jump_mul (Suc k) = 1 + 2 ^ (Suc k + 2) * (n + 2 ^ (k + 1) * n * n)"
    by (simp add: algebra_simps power_add power2_eq_square)
  then show ?case by blast
qed

lemma jump_add_form:
  assumes "odd c" shows "\<exists>m. jump_add c k = 2 ^ k * (2 * m + 1)"
proof (induction k)
  case 0
  obtain m where "c = 2 * m + 1" using assms by (rule oddE)
  then show ?case by auto
next
  case (Suc k)
  then obtain m where m: "jump_add c k = 2 ^ k * (2 * m + 1)" by blast
  obtain n where n: "jump_mul k = 1 + 2 ^ (k + 2) * n" using jump_mul_form by blast
  have "jump_add c (Suc k) = 2 ^ Suc k * (2 * (m + 2 ^ k * n * (2 * m + 1)) + 1)"
    by (simp add: m n algebra_simps power_add)
  then show ?case by blast
qed

lemma high_power: "64 \<le> k \<Longrightarrow> (2 :: u64) ^ k = 0" "k < 64 \<Longrightarrow> (2 :: u64) ^ k \<noteq> 0"
  by (simp_all only: exp_eq_zero_iff) simp_all

lemma jump_high:
  assumes "odd c" and "63 \<le> k"
  shows "(advance c ^^ (2 ^ k)) s = s + 2 ^ k"
proof -
  obtain m where m: "jump_add c k = 2 ^ k * (2 * m + 1)" using jump_add_form [OF assms(1)] by blast
  obtain n where n: "jump_mul k = 1 + 2 ^ (k + 2) * n" using jump_mul_form by blast
  have "(2 :: u64) ^ (k + 2) = 0" "(2 :: u64) ^ Suc k = 0" using assms(2) by (simp_all only: high_power)
  then have "jump_mul k = 1" "jump_add c k = 2 ^ Suc k * m + 2 ^ k" "2 ^ Suc k * m = 0"
    unfolding m n by (simp_all add: algebra_simps)
  then show ?thesis unfolding jump by simp
qed

lemma advance_half: "odd c \<Longrightarrow> (advance c ^^ (2 ^ 63)) s \<noteq> s"
  unfolding jump_high [of c 63, OF _ order_refl] add_cancel_left_right by (rule high_power) simp

lemma advance_whole: "odd c \<Longrightarrow> (advance c ^^ (2 ^ 64)) s = s"
  using jump_high [of c 64 s] high_power(1) [of 64] by (simp only: add_0_right) simp

lemma power_two_divisor: "(d :: nat) dvd 2 ^ k \<Longrightarrow> \<exists>j \<le> k. d = 2 ^ j"
proof (induction k arbitrary: d)
  case (Suc k)
  show ?case
  proof (cases "even d")
    case True
    then obtain e where e: "d = 2 * e" by (rule evenE)
    then have "e dvd 2 ^ k" using Suc.prems by simp
    then obtain j where "j \<le> k" "e = 2 ^ j" using Suc.IH by blast
    then have "Suc j \<le> Suc k \<and> d = 2 ^ Suc j" using e by simp
    then show ?thesis by blast
  next
    case False
    then have "coprime d 2" by simp
    then have "d dvd 2 ^ k" using Suc.prems by (simp add: coprime_dvd_mult_right_iff)
    then show ?thesis using Suc.IH by fastforce
  qed
qed simp

text \<open>Two numbers of steps that come back, and their greatest common divisor.\<close>

lemma funpow_gcd: "(f ^^ m) x = x \<Longrightarrow> (f ^^ n) x = x \<Longrightarrow> (f ^^ gcd m n) x = x"
proof (induction m n rule: gcd_nat_induct)
  case (step m n)
  have "(f ^^ (m mod n)) ((f ^^ (n * (m div n))) x) = (f ^^ m) x"
    by (metis funpow_add o_apply mod_mult_div_eq add.commute)
  moreover have "(f ^^ (n * k)) x = x" for k
    by (induction k) (simp_all add: funpow_add step.prems(2))
  ultimately have "(f ^^ (m mod n)) x = x" using step.prems(1) by simp
  then show ?case using step by (simp add: gcd_red_nat [of m n])
qed simp

lemma advance_period:
  assumes "odd c" shows "(advance c ^^ n) s = s \<longleftrightarrow> 2 ^ 64 dvd n"
proof
  assume "(advance c ^^ n) s = s"
  then have g: "(advance c ^^ gcd n (2 ^ 64)) s = s" using advance_whole [OF assms] by (rule funpow_gcd)
  have "gcd n (2 ^ 64) dvd 2 ^ 64" by (rule gcd_dvd2)
  then obtain j where j: "gcd n (2 ^ 64) = 2 ^ j" "j \<le> 64" using power_two_divisor by blast
  have "j = 64"
  proof (rule ccontr)
    assume "j \<noteq> 64"
    then have "(2 :: nat) ^ 63 = 2 ^ j * 2 ^ (63 - j)" using j(2) by (simp add: power_add [symmetric])
    moreover have "(advance c ^^ (2 ^ j * k)) s = s" for k
      using g unfolding j(1) by (induction k) (simp_all add: funpow_add)
    ultimately show False using advance_half [OF assms, of s] by metis
  qed
  then show "2 ^ 64 dvd n" using j(1) by (metis gcd_dvd1)
next
  assume "2 ^ 64 dvd n"
  then obtain k where k: "n = 2 ^ 64 * k" by (rule dvdE)
  have "(advance c ^^ (2 ^ 64 * k)) s = s"
    by (induction k) (simp_all only: funpow_add advance_whole [OF assms] mult_0_right mult_Suc_right o_apply funpow_0)
  then show "(advance c ^^ n) s = s" using k by simp
qed

lemma advance_differ:
  assumes "odd c" and "i < j" and "j < 2 ^ 64" shows "(advance c ^^ i) s \<noteq> (advance c ^^ j) s"
proof
  assume same: "(advance c ^^ i) s = (advance c ^^ j) s"
  have "(advance c ^^ (2 ^ 64 - i + j)) s = (advance c ^^ (2 ^ 64 - i)) ((advance c ^^ j) s)"
    by (simp only: funpow_add o_apply)
  also have "\<dots> = (advance c ^^ (2 ^ 64 - i + i)) s" unfolding same [symmetric] by (simp only: funpow_add o_apply)
  also have "\<dots> = s" using advance_whole [OF assms(1)] assms(2,3) by simp
  finally have "2 ^ 64 dvd 2 ^ 64 - i + j" using advance_period [OF assms(1)] by blast
  moreover have "2 ^ 64 - i + j = 2 ^ 64 + (j - i)" using assms(2,3) by simp
  ultimately have "2 ^ 64 dvd j - i" by (metis dvd_add_right_iff dvd_refl)
  moreover have "0 < j - i" "j - i < 2 ^ 64" using assms(2,3) by linarith+
  ultimately show False using nat_dvd_not_less by blast
qed

lemma advance_reaches:
  assumes "odd c" shows "\<exists>n < 2 ^ 64. (advance c ^^ n) s = t"
proof -
  have "inj_on (\<lambda>n. (advance c ^^ n) s) {..<2 ^ 64}"
  proof (rule inj_onI)
    fix i j assume "i \<in> {..<(2 :: nat) ^ 64}" "j \<in> {..<(2 :: nat) ^ 64}" "(advance c ^^ i) s = (advance c ^^ j) s"
    then show "i = j"
      using advance_differ [OF assms, of i j s] advance_differ [OF assms, of j i s] unfolding lessThan_iff
      by (metis linorder_neqE_nat)
  qed
  then have "card ((\<lambda>n. (advance c ^^ n) s) ` {..<2 ^ 64}) = 2 ^ 64" by (simp only: card_image card_lessThan)
  also have "2 ^ 64 = card (UNIV :: u64 set)" by (simp only: card_word) simp
  finally have "(\<lambda>n. (advance c ^^ n) s) ` {..<2 ^ 64} = UNIV"
    by (intro card_subset_eq) (simp_all only: finite subset_UNIV)
  then have "t \<in> (\<lambda>n. (advance c ^^ n) s) ` {..<2 ^ 64}" by (simp only: UNIV_I)
  then show ?thesis by blast
qed

text \<open>The generator after \<open>n\<close> draws.\<close>

definition after_draws :: "nat \<Rightarrow> random \<Rightarrow> random" where
  "after_draws n r = ((snd \<circ> next_u32) ^^ n) r"

definition draw_at :: "nat \<Rightarrow> random \<Rightarrow> u32" where
  "draw_at n r = fst (next_u32 (after_draws n r))"

lemma next_u32_state: "snd (next_u32 r) = r\<lparr>rn_state := advance (rn_inc r) (rn_state r)\<rparr>"
  by (simp add: next_u32_def advance_def Let_def)

lemma after_draws_state: "after_draws n r = r\<lparr>rn_state := (advance (rn_inc r) ^^ n) (rn_state r)\<rparr>"
  unfolding after_draws_def by (induction n) (simp_all add: next_u32_state)

lemma after_draws_Suc: "after_draws (Suc n) r = after_draws n (snd (next_u32 r))"
  unfolding after_draws_def funpow_Suc_right by simp

lemma after_draws_0: "after_draws 0 r = r"
  by (simp add: after_draws_def)

lemma seed_odd: "odd (rn_inc (seed_random seed stream))"
  by (simp add: seed_random_def next_u32_state Let_def even_or_iff)

text \<open>A state whose draw is the largest number there is.\<close>

lemma top_draw: "fst (next_u32 \<lparr>rn_state = 576458553405997536, rn_inc = c\<rparr>) = 0xFFFFFFFF"
  by (simp add: next_u32_def Let_def)

lemma draws_reach_top:
  assumes "odd (rn_inc r)" shows "\<exists>n. draw_at n r = 0xFFFFFFFF"
proof -
  obtain n where "(advance (rn_inc r) ^^ n) (rn_state r) = 576458553405997536" using advance_reaches [OF assms] by blast
  then have "after_draws n r = \<lparr>rn_state = 576458553405997536, rn_inc = rn_inc r\<rparr>"
    by (cases r) (simp add: after_draws_state)
  then have "draw_at n r = 0xFFFFFFFF" by (simp only: draw_at_def top_draw)
  then show ?thesis ..
qed

subsection \<open>Numbers in a range\<close>

text \<open>What \<open>uniform\<close> makes of one draw: None where it draws again.\<close>

definition draw_value :: "int \<Rightarrow> int \<Rightarrow> u32 \<Rightarrow> int option" where
  "draw_value lo hi d =
     (let b = nat (hi - lo + 1) in
      if unat d < 2 ^ 32 mod b then None else Some (lo + int (unat d mod b)))"

definition int_range :: "int \<Rightarrow> int \<Rightarrow> bool" where
  "int_range lo hi \<longleftrightarrow> - (2 ^ 31) \<le> lo \<and> lo < hi \<and> hi < 2 ^ 31"

lemma to_int32_id: "- (2 ^ 31) \<le> v \<Longrightarrow> v < 2 ^ 31 \<Longrightarrow> to_int32 v = v"
  by (simp add: to_int32_def)

lemma draw_value_range:
  assumes "int_range lo hi" and "draw_value lo hi d = Some v" shows "lo \<le> v" "v \<le> hi"
proof -
  have "0 < nat (hi - lo + 1)" using assms(1) by (simp add: int_range_def)
  then have "unat d mod nat (hi - lo + 1) < nat (hi - lo + 1)" by (rule mod_less_divisor)
  then have "int (unat d mod nat (hi - lo + 1)) \<le> hi - lo" by linarith
  then show "lo \<le> v" "v \<le> hi" using assms by (auto simp: draw_value_def Let_def int_range_def split: if_splits)
qed

lemma redraw_first:
  assumes "\<And>i. i < n \<Longrightarrow> draw_at i r < t" and "\<not> draw_at n r < t"
  shows "redraw t (fst (next_u32 r)) (snd (next_u32 r)) = Some (draw_at n r, after_draws (Suc n) r)"
  using assms
proof (induction n arbitrary: r)
  case 0
  then show ?case
    by (subst redraw.simps) (simp add: draw_at_def after_draws_0 after_draws_Suc)
next
  case (Suc n)
  have shift: "draw_at (Suc i) r = draw_at i (snd (next_u32 r))" for i by (simp add: draw_at_def after_draws_Suc)
  have "draw_at 0 r < t" using Suc.prems(1) by blast
  then have less: "fst (next_u32 r) < t" by (simp add: draw_at_def after_draws_0)
  have "redraw t (fst (next_u32 (snd (next_u32 r)))) (snd (next_u32 (snd (next_u32 r))))
      = Some (draw_at n (snd (next_u32 r)), after_draws (Suc n) (snd (next_u32 r)))"
    by (rule Suc.IH) (use Suc.prems shift in fastforce)+
  then show ?case using less by (subst redraw.simps) (simp add: shift after_draws_Suc case_prod_beta)
qed

lemma range_bound:
  assumes "int_range lo hi"
  defines "width \<equiv> (of_int (hi - lo) :: u64) + 1"
  shows "unat width = nat (hi - lo + 1)" "0xFFFFFFFF < width \<longleftrightarrow> nat (hi - lo + 1) = 2 ^ 32"
    "\<not> 0xFFFFFFFF < width \<Longrightarrow> unat (ucast width :: u32) = nat (hi - lo + 1)"
    "\<not> 0xFFFFFFFF < width \<Longrightarrow> unat ((0 - (ucast width :: u32)) mod ucast width) = 2 ^ 32 mod nat (hi - lo + 1)"
proof -
  have range: "0 < hi - lo" "hi - lo < 2 ^ 32" using assms(1) by (auto simp: int_range_def)
  have "uint (of_int w :: u64) = w" if "0 < w" "w < 2 ^ 32" for w :: int
    using that by (simp add: unsigned_of_int take_bit_int_eq_self)
  from this [OF range] have "uint (of_int (hi - lo) :: u64) = hi - lo" .
  then have "unat (of_int (hi - lo) :: u64) = nat (hi - lo)" by (simp only: unat_eq_nat_uint)
  then show width: "unat width = nat (hi - lo + 1)"
    using range by (simp add: width_def unat_plus_if' nat_add_distrib)
  show big: "0xFFFFFFFF < width \<longleftrightarrow> nat (hi - lo + 1) = 2 ^ 32"
    unfolding word_less_nat_alt width using range by auto
  assume "\<not> 0xFFFFFFFF < width"
  then have small: "nat (hi - lo + 1) < 2 ^ 32" using big range by auto
  show bound: "unat (ucast width :: u32) = nat (hi - lo + 1)"
    using small by (simp add: unsigned_ucast_eq take_bit_nat_eq_self width)
  have "unat (0 - (ucast width :: u32)) = 2 ^ 32 - nat (hi - lo + 1)"
    unfolding unat_sub_if' bound using range by simp
  then show "unat ((0 - (ucast width :: u32)) mod ucast width) = 2 ^ 32 mod nat (hi - lo + 1)"
    using small le_mod_geq [of "nat (hi - lo + 1)" "2 ^ 32"] by (simp add: unat_mod bound)
qed

lemma uniform_int_first:
  assumes "int_range lo hi" and "draw_value lo hi (draw_at n r) = Some v"
    and "\<And>i. i < n \<Longrightarrow> draw_value lo hi (draw_at i r) = None"
  shows "uniform_int lo hi r = Some (v, after_draws (Suc n) r)"
proof -
  define width where "width = (of_int (hi - lo) :: u64) + 1"
  define b where "b = nat (hi - lo + 1)"
  note w = range_bound [OF assms(1), folded width_def b_def]
  have v: "v = lo + int (unat (draw_at n r) mod b)" "2 ^ 32 mod b \<le> unat (draw_at n r)"
    using assms(2) by (auto simp: draw_value_def b_def Let_def split: if_splits)
  have small: "to_int32 v = v"
    using draw_value_range [OF assms(1,2)] assms(1) by (intro to_int32_id) (simp_all add: int_range_def)
  have "lo < hi" using assms(1) by (simp add: int_range_def)
  show ?thesis
  proof (cases "0xFFFFFFFF < width")
    case True
    then have b: "b = 2 ^ 32" using w(2) by simp
    have "n = 0"
    proof (rule ccontr)
      assume "n \<noteq> 0"
      then have "draw_value lo hi (draw_at 0 r) = None" using assms(3) by simp
      then show False by (simp add: draw_value_def b [unfolded b_def])
    qed
    moreover have "unat (draw_at n r) mod b = unat (draw_at n r)"
      unfolding b by (rule mod_less) (use unsigned_less [of "draw_at n r", where 'a = nat] in simp)
    ultimately have "v = lo + uint (fst (next_u32 r))" using v(1) by (simp add: draw_at_def after_draws_0)
    then show ?thesis
      using True small \<open>lo < hi\<close> \<open>n = 0\<close>
      unfolding uniform_int_def Let_def width_def [symmetric] by (simp add: case_prod_beta after_draws_def)
  next
    case False
    define t where "t = (0 - (ucast width :: u32)) mod ucast width"
    have t: "unat t = 2 ^ 32 mod b" unfolding t_def by (rule w(4) [OF False])
    have low: "draw_at i r < t" if "i < n" for i
      using assms(3) [OF that] t by (auto simp: draw_value_def b_def word_less_nat_alt Let_def split: if_splits)
    have "\<not> draw_at n r < t" using v(2) t by (simp add: word_less_nat_alt)
    then have first: "redraw t (fst (next_u32 r)) (snd (next_u32 r)) = Some (draw_at n r, after_draws (Suc n) r)"
      using redraw_first [of n r t] low by blast
    have "uint (draw_at n r mod ucast width) = int (unat (draw_at n r) mod b)"
      by (simp only: uint_nat unat_mod w(3) [OF False])
    then have v: "v = lo + uint (draw_at n r mod ucast width)" using v(1) by simp
    have "\<not> hi \<le> lo" using \<open>lo < hi\<close> by simp
    then have uniform: "uniform_int lo hi r = map_option (\<lambda>(draw, r''). (to_int32 (lo + uint (draw mod ucast width)), r''))
        (redraw t (fst (next_u32 r)) (snd (next_u32 r)))"
      unfolding uniform_int_def Let_def width_def [symmetric] t_def [symmetric] case_prod_beta if_not_P [OF False]
      by (rule if_not_P)
    show ?thesis
      unfolding uniform first using small v by (simp only: option.map prod.case)
  qed
qed

lemma draws_accepted:
  assumes "int_range lo hi" and "odd (rn_inc r)"
  shows "\<exists>n v. draw_value lo hi (draw_at n r) = Some v \<and> (\<forall>i < n. draw_value lo hi (draw_at i r) = None)"
proof -
  obtain k where k: "draw_at k r = 0xFFFFFFFF" using draws_reach_top [OF assms(2)] by blast
  have "0 < nat (hi - lo + 1)" "nat (hi - lo + 1) \<le> 2 ^ 32" using assms(1) by (auto simp: int_range_def)
  then have "2 ^ 32 mod nat (hi - lo + 1) < 2 ^ 32" by (meson mod_less_divisor order_less_le_trans)
  then have "draw_value lo hi (draw_at k r) \<noteq> None" by (simp add: draw_value_def k Let_def)
  from LeastI_ex [OF exI, of "\<lambda>n. draw_value lo hi (draw_at n r) \<noteq> None", OF this]
  show ?thesis using not_less_Least [of _ "\<lambda>n. draw_value lo hi (draw_at n r) \<noteq> None"] by blast
qed

text \<open>The accepted draws of one value: a whole number of rounds of the bound.\<close>

lemma count_residues:
  fixes b u m :: nat
  assumes "u < b"
  shows "card {k. m mod b \<le> k \<and> k < m \<and> k mod b = u} = m div b"
proof -
  define q t where "q = m div b" and "t = m mod b"
  have m: "m = b * q + t" "t < b" using assms by (simp_all add: q_def t_def)
  define first where "first = (if t \<le> u then 0 else 1 :: nat)"
  have "{k. t \<le> k \<and> k < m \<and> k mod b = u} = (\<lambda>j. u + b * j) ` {first..<first + q}"
  proof (intro set_eqI iffI)
    fix k assume "k \<in> {k. t \<le> k \<and> k < m \<and> k mod b = u}"
    then have k: "t \<le> k" "k < b * q + t" "k = u + b * (k div b)" using m(1) by auto
    have "first \<le> k div b" using k(1,3) by (cases "k div b") (auto simp: first_def)
    moreover have "k div b < first + q"
    proof (rule ccontr)
      assume "\<not> k div b < first + q"
      then have "b * (first + q) \<le> b * (k div b)" by simp
      then show False using k(2,3) m(2) by (auto simp: first_def algebra_simps split: if_splits)
    qed
    ultimately show "k \<in> (\<lambda>j. u + b * j) ` {first..<first + q}" using k(3) by auto
  next
    fix k assume "k \<in> (\<lambda>j. u + b * j) ` {first..<first + q}"
    then obtain j where "k = u + b * j" "j \<in> {first..<first + q}" by blast
    then have j: "k = u + b * j" "first \<le> j" "Suc j \<le> first + q" by simp_all
    have "k mod b = u" using assms by (simp add: j(1))
    moreover have "t \<le> k" using j(1,2) m(2) by (cases j) (auto simp: first_def split: if_splits)
    moreover have "k < m"
    proof -
      have "b * Suc j \<le> b * (first + q)" using j(3) by (rule mult_le_mono2)
      then have "b + b * j \<le> b * first + b * q" by (simp only: mult_Suc_right add_mult_distrib2)
      moreover have "b * first + u < b + t" using assms m(2) by (cases "t \<le> u") (simp_all add: first_def)
      ultimately show ?thesis using j(1) m(1) by linarith
    qed
    ultimately show "k \<in> {k. t \<le> k \<and> k < m \<and> k mod b = u}" by simp
  qed
  moreover have "inj_on (\<lambda>j. u + b * j) {first..<first + q}" using assms by (auto simp: inj_on_def)
  ultimately show ?thesis by (simp add: card_image q_def t_def)
qed

lemma card_draws: "card {d :: u32. P (unat d)} = card {k. k < 2 ^ 32 \<and> P k}"
proof (rule bij_betw_same_card)
  have "bij_betw (unat :: u32 \<Rightarrow> nat) {d. P (unat d)} {k. k < 2 ^ 32 \<and> P k}"
  proof (rule bij_betw_imageI)
    show "inj_on (unat :: u32 \<Rightarrow> nat) {d. P (unat d)}" by (rule inj_onI) (simp only: word_unat_eq_iff)
    show "unat ` {d :: u32. P (unat d)} = {k. k < 2 ^ 32 \<and> P k}"
    proof (intro set_eqI iffI)
      fix k assume "k \<in> {k. k < 2 ^ 32 \<and> P k}"
      then have "k = unat (of_nat k :: u32)" "P k" by (simp_all add: unsigned_of_nat take_bit_nat_eq_self)
      then show "k \<in> unat ` {d :: u32. P (unat d)}" by (metis imageI mem_Collect_eq)
    next
      fix k assume "k \<in> unat ` {d :: u32. P (unat d)}"
      then obtain d :: u32 where "k = unat d" "P (unat d)" by auto
      then show "k \<in> {k. k < 2 ^ 32 \<and> P k}" using unsigned_less [of d, where 'a = nat] by simp
    qed
  qed
  then show "bij_betw (unat :: u32 \<Rightarrow> nat) {d. P (unat d)} {k. k < 2 ^ 32 \<and> P k}" .
qed

lemma draw_value_fair:
  assumes "int_range lo hi" and "lo \<le> u" and "u \<le> hi"
  shows "card {d. draw_value lo hi d = Some u} = 2 ^ 32 div nat (hi - lo + 1)"
proof -
  define b where "b = nat (hi - lo + 1)"
  have "draw_value lo hi d = Some u \<longleftrightarrow> 2 ^ 32 mod b \<le> unat d \<and> unat d mod b = nat (u - lo)" for d
    using assms(2) by (auto simp: draw_value_def b_def Let_def)
  then have "card {d. draw_value lo hi d = Some u}
      = card {k. k < 2 ^ 32 \<and> 2 ^ 32 mod b \<le> k \<and> k mod b = nat (u - lo)}"
    using card_draws [of "\<lambda>k. 2 ^ 32 mod b \<le> k \<and> k mod b = nat (u - lo)"] by simp
  also have "{k. k < 2 ^ 32 \<and> 2 ^ 32 mod b \<le> k \<and> k mod b = nat (u - lo)}
      = {k. 2 ^ 32 mod b \<le> k \<and> k < 2 ^ 32 \<and> k mod b = nat (u - lo)}" by blast
  also have "card \<dots> = 2 ^ 32 div b" by (rule count_residues) (use assms in \<open>simp add: b_def int_range_def\<close>)
  finally show ?thesis by (simp add: b_def)
qed

subsection \<open>The properties\<close>

lemma after_draws_sel: "rn_inc (after_draws n r) = rn_inc r" "rn_state (after_draws n r) = (advance (rn_inc r) ^^ n) (rn_state r)"
  "after_draws n r = r \<longleftrightarrow> rn_state (after_draws n r) = rn_state r"
  by (cases r; simp add: after_draws_state)+

lemma next_float_unit: "0 \<le> fst (next_float rat_arith r) \<and> fst (next_float rat_arith r) < 1"
proof -
  obtain d r' where d: "next_u32 r = (d, r')" by (cases "next_u32 r")
  have "uint d < 4294967296" using unsigned_less [of d, where 'a = int] by simp
  then have "uint d div 256 < 16777216" by presburger
  then have "uint (drop_bit 8 d) < 16777216" by (simp add: drop_bit_eq_div uint_div_distrib)
  then have "rat_of_int (uint (drop_bit 8 d)) < rat_of_int 16777216" unfolding of_int_less_iff .
  moreover have "0 \<le> rat_of_int (uint (drop_bit 8 d))" unfolding of_int_0_le_iff by (rule unsigned_greater_eq)
  ultimately show ?thesis by (simp add: next_float_def d f_frac_def)
qed

text \<open>
  C10: a seeded generator comes back to where it started after \<open>2^64\<close> draws and its multiples and after no other number
  of draws, whatever the seed and the stream, and on the way it goes through every state there is.
\<close>

theorem pcg_full_period:
  "(after_draws n (seed_random seed stream) = seed_random seed stream \<longleftrightarrow> 2 ^ 64 dvd n)
   \<and> (\<exists>k < 2 ^ 64. rn_state (after_draws k (seed_random seed stream)) = s)"
proof
  show "after_draws n (seed_random seed stream) = seed_random seed stream \<longleftrightarrow> 2 ^ 64 dvd n"
    using advance_period [OF seed_odd] by (simp only: after_draws_sel(2,3))
  show "\<exists>k < 2 ^ 64. rn_state (after_draws k (seed_random seed stream)) = s"
    using advance_reaches [OF seed_odd] by (simp only: after_draws_sel(2))
qed

text \<open>
  C30: on every range of the type \<open>uniform\<close> returns, with the first draw it accepts, and gives a number of the range; and
  every number of the range is given by the same number of draws.
\<close>

theorem uniform_fair:
  assumes "int_range lo hi" and "r = after_draws m (seed_random seed stream)"
  shows "(\<exists>n v. uniform_int lo hi r = Some (v, after_draws (Suc n) r) \<and> lo \<le> v \<and> v \<le> hi
      \<and> draw_value lo hi (draw_at n r) = Some v \<and> (\<forall>i < n. draw_value lo hi (draw_at i r) = None))
    \<and> (\<forall>u. lo \<le> u \<longrightarrow> u \<le> hi \<longrightarrow> card {d. draw_value lo hi d = Some u} = 2 ^ 32 div nat (hi - lo + 1))"
proof
  have "odd (rn_inc r)" using seed_odd by (simp add: assms(2) after_draws_sel(1))
  then obtain n v where n: "draw_value lo hi (draw_at n r) = Some v" "\<forall>i < n. draw_value lo hi (draw_at i r) = None"
    using draws_accepted [OF assms(1)] by blast
  then show "\<exists>n v. uniform_int lo hi r = Some (v, after_draws (Suc n) r) \<and> lo \<le> v \<and> v \<le> hi
      \<and> draw_value lo hi (draw_at n r) = Some v \<and> (\<forall>i < n. draw_value lo hi (draw_at i r) = None)"
    using uniform_int_first [OF assms(1) n(1)] draw_value_range [OF assms(1) n(1)] by blast
  show "\<forall>u. lo \<le> u \<longrightarrow> u \<le> hi \<longrightarrow> card {d. draw_value lo hi d = Some u} = 2 ^ 32 div nat (hi - lo + 1)"
    using draw_value_fair [OF assms(1)] by blast
qed

theorem uniform_fair_witness:
  "(\<exists>v r'. uniform_int 1 6 (seed_random 7 1) = Some (v, r') \<and> 1 \<le> v \<and> v \<le> 6)
   \<and> card {d. draw_value 1 6 d = Some 4} = 715827882"
proof -
  have "int_range 1 6" by (simp add: int_range_def)
  from uniform_fair [OF this after_draws_0 [symmetric]]
  have "\<exists>v r'. uniform_int 1 6 (seed_random 7 1) = Some (v, r') \<and> 1 \<le> v \<and> v \<le> 6"
    "card {d. draw_value 1 6 d = Some 4} = 2 ^ 32 div nat (6 - 1 + 1)" by (blast, simp)
  then show ?thesis by simp
qed

end
