(* ===== verification/Message_Format.thy ===== *)
theory Message_Format
  imports Ascii_Text
begin

section \<open>Localized messages\<close>

text \<open>
  \<open>src/src/loc/format.cpp\<close> and \<open>src/src/loc/plural.cpp\<close>: patterns of messages with placeholders and plurals, parsed into
  pieces and rendered with arguments. The parser's position is the rest of the text, an error is \<open>Inl\<close>, and the
  recursive descent has fuel, with None where it is used up, which it is for no pattern (\<open>pattern_fuel\<close>). The character
  classes are those of the C locale. The array of branches with its bits is four branches that may be there.
\<close>

datatype plural_category = PluralOne | PluralFew | PluralMany | PluralOther

datatype format_error = Unclosed | BadName | NestedPlural | MissingOther | DuplicateCategory | BadPlural

datatype piece =
    LiteralPiece string
  | PlaceholderPiece string
  | HashPiece
  | PluralPiece string "piece list option" "piece list option" "piece list option" "piece list option"

type_synonym branches = "piece list option \<times> piece list option \<times> piece list option \<times> piece list option"

subsection \<open>Plural categories\<close>

definition language_of :: "string \<Rightarrow> string" where
  "language_of locale_name = map ascii_lower (takeWhile (\<lambda>c. c \<noteq> CHR ''-'' \<and> c \<noteq> CHR ''_'') locale_name)"

definition magnitude :: "int \<Rightarrow> nat" where
  "magnitude n = (if 0 \<le> n then nat n else if n = - (2 ^ 63) then (2 ^ 63 - 1) + 1 else nat (- n))"

definition slavic :: "nat \<Rightarrow> plural_category" where
  "slavic n =
     (let mod10 = n mod 10; mod100 = n mod 100 in
      if mod10 = 1 \<and> mod100 \<noteq> 11 then PluralOne
      else if 2 \<le> mod10 \<and> mod10 \<le> 4 \<and> (mod100 < 12 \<or> 14 < mod100) then PluralFew
      else PluralMany)"

definition english :: "nat \<Rightarrow> plural_category" where
  "english n = (if n = 1 then PluralOne else PluralOther)"

definition plural_category_of :: "string \<Rightarrow> int \<Rightarrow> plural_category" where
  "plural_category_of locale_name n =
     (let language = language_of locale_name in
      if language = ''uk'' \<or> language = ''ru'' \<or> language = ''be'' then slavic (magnitude n) else english (magnitude n))"

subsection \<open>The parser\<close>

definition is_blank :: "char \<Rightarrow> bool" where
  "is_blank c \<longleftrightarrow> c = CHR '' '' \<or> 9 \<le> ascii c \<and> ascii c \<le> 13"

definition is_name_start :: "char \<Rightarrow> bool" where
  "is_name_start c \<longleftrightarrow> 65 \<le> ascii c \<and> ascii c \<le> 90 \<or> 97 \<le> ascii c \<and> ascii c \<le> 122 \<or> c = CHR ''_''"

definition is_name_cont :: "char \<Rightarrow> bool" where
  "is_name_cont c \<longleftrightarrow> is_name_start c \<or> is_digit c"

definition skip_ws :: "string \<Rightarrow> string" where
  "skip_ws s = dropWhile is_blank s"

definition consume :: "char \<Rightarrow> string \<Rightarrow> string option" where
  "consume ch s = (case s of [] \<Rightarrow> None | c # rest \<Rightarrow> if c = ch then Some rest else None)"

definition read_name :: "string \<Rightarrow> format_error + string \<times> string" where
  "read_name s = (case s of [] \<Rightarrow> Inl BadName
     | c # rest \<Rightarrow> if \<not> is_name_start c then Inl BadName
         else Inr (c # takeWhile is_name_cont rest, dropWhile is_name_cont rest))"

definition category_of :: "string \<Rightarrow> plural_category option" where
  "category_of name =
     (if name = ''one'' then Some PluralOne else if name = ''few'' then Some PluralFew
      else if name = ''many'' then Some PluralMany else if name = ''other'' then Some PluralOther else None)"

fun get_branch :: "plural_category \<Rightarrow> branches \<Rightarrow> piece list option" where
  "get_branch PluralOne (o1, f, m, t) = o1"
| "get_branch PluralFew (o1, f, m, t) = f"
| "get_branch PluralMany (o1, f, m, t) = m"
| "get_branch PluralOther (o1, f, m, t) = t"

fun set_branch :: "plural_category \<Rightarrow> piece list \<Rightarrow> branches \<Rightarrow> branches" where
  "set_branch PluralOne b (o1, f, m, t) = (Some b, f, m, t)"
| "set_branch PluralFew b (o1, f, m, t) = (o1, Some b, m, t)"
| "set_branch PluralMany b (o1, f, m, t) = (o1, f, Some b, t)"
| "set_branch PluralOther b (o1, f, m, t) = (o1, f, m, Some b)"

fun plural_piece :: "string \<Rightarrow> branches \<Rightarrow> piece" where
  "plural_piece name (o1, f, m, t) = PluralPiece name o1 f m t"

definition flush :: "string \<Rightarrow> piece list \<Rightarrow> piece list" where
  "flush literal pieces = (if literal = [] then pieces else pieces @ [LiteralPiece literal])"

text \<open>What follows an opening brace: the name, and whether its branches are next or its closing brace was there.\<close>

definition braced_head :: "bool \<Rightarrow> string \<Rightarrow> format_error + string \<times> bool \<times> string" where
  "braced_head in_branch s =
     (case consume CHR ''{'' s of None \<Rightarrow> Inl Unclosed
      | Some s1 \<Rightarrow>
     (case read_name (skip_ws s1) of Inl e \<Rightarrow> Inl e
      | Inr (name, s2) \<Rightarrow>
     (case consume CHR ''}'' (skip_ws s2) of Some s3 \<Rightarrow> Inr (name, False, s3)
      | None \<Rightarrow>
          if skip_ws s2 = [] then Inl Unclosed
          else
     (case consume CHR '','' (skip_ws s2) of None \<Rightarrow> Inl BadPlural
      | Some s3 \<Rightarrow>
          if in_branch then Inl NestedPlural
          else
     (case read_name (skip_ws s3) of Inl _ \<Rightarrow> Inl BadPlural
      | Inr (keyword, s4) \<Rightarrow>
          if keyword \<noteq> ''plural'' then Inl BadPlural
          else
     (case consume CHR '','' (skip_ws s4) of None \<Rightarrow> Inl BadPlural
      | Some s5 \<Rightarrow> Inr (name, True, s5)))))))"

text \<open>What is next in a plural: its closing brace, with the text behind it, or the category and the text of a branch.\<close>

definition branch_head :: "branches \<Rightarrow> string \<Rightarrow> format_error + plural_category option \<times> string" where
  "branch_head bs s =
     (if s = [] then Inl Unclosed
      else (case consume CHR ''}'' s of Some rest \<Rightarrow> Inr (None, rest)
      | None \<Rightarrow>
     (case read_name s of Inl _ \<Rightarrow> Inl BadPlural
      | Inr (category_name, s1) \<Rightarrow>
     (case category_of category_name of None \<Rightarrow> Inl BadPlural
      | Some category \<Rightarrow>
          if get_branch category bs \<noteq> None then Inl DuplicateCategory
          else (case consume CHR ''{'' (skip_ws s1) of None \<Rightarrow> Inl BadPlural
            | Some s2 \<Rightarrow> Inr (Some category, s2))))))"

text \<open>
  What the loop over a sequence meets next: its end, at the rest of the text, a character of a literal, a number sign of
  a branch or an opening brace.
\<close>

datatype seq_step = SeqEnd "format_error + string" | SeqLiteral char string | SeqHash string | SeqBrace

definition next_step :: "bool \<Rightarrow> string \<Rightarrow> seq_step" where
  "next_step in_branch s =
     (case s of [] \<Rightarrow> SeqEnd (if in_branch then Inl Unclosed else Inr [])
      | ch # rest \<Rightarrow>
          if ch = CHR ''{'' \<and> take 1 rest = ''{'' then SeqLiteral CHR ''{'' (tl rest)
          else if ch = CHR ''}'' \<and> in_branch then SeqEnd (Inr s)
          else if ch = CHR ''}'' \<and> take 1 rest = ''}'' then SeqLiteral CHR ''}'' (tl rest)
          else if ch = CHR ''}'' then SeqEnd (Inl Unclosed)
          else if ch = CHR ''#'' \<and> in_branch then SeqHash rest
          else if ch = CHR ''{'' then SeqBrace
          else SeqLiteral ch rest)"

fun parse_sequence :: "nat \<Rightarrow> bool \<Rightarrow> string \<Rightarrow> piece list \<Rightarrow> string \<Rightarrow> (format_error + piece list \<times> string) option"
  and parse_braced :: "nat \<Rightarrow> bool \<Rightarrow> string \<Rightarrow> (format_error + piece \<times> string) option"
  and parse_branches :: "nat \<Rightarrow> string \<Rightarrow> branches \<Rightarrow> string \<Rightarrow> (format_error + piece \<times> string) option" where
  "parse_sequence 0 in_branch literal pieces s = None"
| "parse_sequence (Suc k) in_branch literal pieces s =
     (case next_step in_branch s of
        SeqEnd (Inl e) \<Rightarrow> Some (Inl e)
      | SeqEnd (Inr rest) \<Rightarrow> Some (Inr (flush literal pieces, rest))
      | SeqLiteral ch rest \<Rightarrow> parse_sequence k in_branch (literal @ [ch]) pieces rest
      | SeqHash rest \<Rightarrow> parse_sequence k in_branch [] (flush literal pieces @ [HashPiece]) rest
      | SeqBrace \<Rightarrow>
          (case parse_braced k in_branch s of None \<Rightarrow> None
           | Some (Inl e) \<Rightarrow> Some (Inl e)
           | Some (Inr (piece, rest)) \<Rightarrow> parse_sequence k in_branch [] (flush literal pieces @ [piece]) rest))"
| "parse_braced 0 in_branch s = None"
| "parse_braced (Suc k) in_branch s =
     (case braced_head in_branch s of Inl e \<Rightarrow> Some (Inl e)
      | Inr (name, plural, s') \<Rightarrow>
          if \<not> plural then Some (Inr (PlaceholderPiece name, s'))
          else parse_branches k name (None, None, None, None) s')"
| "parse_branches 0 name bs s = None"
| "parse_branches (Suc k) name bs s =
     (case branch_head bs (skip_ws s) of
        Inl e \<Rightarrow> Some (Inl e)
      | Inr (None, rest) \<Rightarrow> Some (if get_branch PluralOther bs = None then Inl MissingOther
          else Inr (plural_piece name bs, rest))
      | Inr (Some category, rest) \<Rightarrow>
          (case parse_sequence k True [] [] rest of None \<Rightarrow> None
           | Some (Inl e) \<Rightarrow> Some (Inl e)
           | Some (Inr (branch, rest')) \<Rightarrow>
               (case consume CHR ''}'' rest' of None \<Rightarrow> Some (Inl Unclosed)
                | Some rest'' \<Rightarrow> parse_branches k name (set_branch category branch bs) rest'')))"

definition parse_pattern :: "string \<Rightarrow> (format_error + piece list) option" where
  "parse_pattern pattern =
     (case parse_sequence (2 * length pattern + 1) False [] [] pattern of None \<Rightarrow> None
      | Some (Inl e) \<Rightarrow> Some (Inl e)
      | Some (Inr (pieces, rest)) \<Rightarrow> Some (if rest \<noteq> [] then Inl Unclosed else Inr pieces))"

subsection \<open>Rendering\<close>

record format_arg =
  arg_name :: string
  arg_value :: "int + string"

definition find_arg :: "format_arg list \<Rightarrow> string \<Rightarrow> format_arg option" where
  "find_arg args name = find_first (\<lambda>a. arg_name a = name) args"

definition signed_text :: "int \<Rightarrow> string" where
  "signed_text n = (if n < 0 then CHR ''-'' # number_text (nat (- n)) else number_text (nat n))"

fun render_piece :: "format_arg list \<Rightarrow> string \<Rightarrow> string \<Rightarrow> piece \<Rightarrow> string"
  and render :: "format_arg list \<Rightarrow> string \<Rightarrow> string \<Rightarrow> piece list \<Rightarrow> string"
  and render_branch :: "format_arg list \<Rightarrow> string \<Rightarrow> string \<Rightarrow> piece list option \<Rightarrow> string" where
  "render_piece args loc hash (LiteralPiece t) = t"
| "render_piece args loc hash HashPiece = hash"
| "render_piece args loc hash (PlaceholderPiece name) =
     (case find_arg args name of None \<Rightarrow> ''{'' @ name @ ''}''
      | Some a \<Rightarrow> (case arg_value a of Inl n \<Rightarrow> signed_text n | Inr t \<Rightarrow> t))"
| "render_piece args loc hash (PluralPiece name o1 f m t) =
     (case find_arg args name of None \<Rightarrow> ''{'' @ name @ ''}''
      | Some a \<Rightarrow> (case arg_value a of Inr _ \<Rightarrow> ''{'' @ name @ ''}''
          | Inl n \<Rightarrow> (case plural_category_of loc n of
                PluralOne \<Rightarrow> if o1 = None then render_branch args loc (signed_text n) t else render_branch args loc (signed_text n) o1
              | PluralFew \<Rightarrow> if f = None then render_branch args loc (signed_text n) t else render_branch args loc (signed_text n) f
              | PluralMany \<Rightarrow> if m = None then render_branch args loc (signed_text n) t else render_branch args loc (signed_text n) m
              | PluralOther \<Rightarrow> render_branch args loc (signed_text n) t)))"
| "render args loc hash [] = []"
| "render args loc hash (p # ps) = render_piece args loc hash p @ render args loc hash ps"
| "render_branch args loc hash None = []"
| "render_branch args loc hash (Some ps) = render args loc hash ps"

definition validate_pattern :: "string \<Rightarrow> (format_error + unit) option" where
  "validate_pattern pattern = map_option (\<lambda>r. case r of Inl e \<Rightarrow> Inl e | Inr _ \<Rightarrow> Inr ()) (parse_pattern pattern)"

definition format_message :: "string \<Rightarrow> format_arg list \<Rightarrow> string \<Rightarrow> (format_error + string) option" where
  "format_message pattern args loc =
     map_option (\<lambda>r. case r of Inl e \<Rightarrow> Inl e | Inr pieces \<Rightarrow> Inr (render args loc [] pieces)) (parse_pattern pattern)"

subsection \<open>Enough fuel\<close>

lemma skip_ws_length: "length (skip_ws s) \<le> length s"
  by (simp add: skip_ws_def length_dropWhile_le)

lemma consume_length: "consume ch s = Some r \<Longrightarrow> length s = Suc (length r)"
  by (auto simp: consume_def split: list.splits if_splits)

lemma read_name_length: "read_name s = Inr (name, r) \<Longrightarrow> length r < length s"
  by (auto simp: read_name_def length_dropWhile_le less_Suc_eq_le split: list.splits if_splits)

lemma skip_consume: "consume ch (skip_ws s) = Some r \<Longrightarrow> length r < length s"
  using skip_ws_length [of s] by (auto dest: consume_length)

lemma skip_read_name: "read_name (skip_ws s) = Inr (name, r) \<Longrightarrow> length r < length s"
  using skip_ws_length [of s] by (auto dest: read_name_length)

lemma braced_head_length: "braced_head br s = Inr (name, plural, r) \<Longrightarrow> length r < length s"
  by (auto simp: braced_head_def dest!: consume_length skip_consume skip_read_name
      split: option.splits sum.splits prod.splits if_splits)

lemma branch_head_length: "branch_head bs s = Inr (category, r) \<Longrightarrow> length r < length s"
  by (auto simp: branch_head_def dest!: consume_length skip_consume read_name_length
      split: option.splits sum.splits prod.splits if_splits)

lemma next_step_length:
  "next_step br s = SeqEnd (Inr r) \<Longrightarrow> length r \<le> length s"
  "next_step br s = SeqLiteral c r \<Longrightarrow> length r < length s"
  "next_step br s = SeqHash r \<Longrightarrow> length r < length s"
  "next_step br s = SeqBrace \<Longrightarrow> s \<noteq> []"
  by (cases s; auto simp: next_step_def split: if_splits)+

definition shrinks :: "nat \<Rightarrow> (format_error + 'a \<times> string) option \<Rightarrow> bool" where
  "shrinks n r \<longleftrightarrow> (case r of None \<Rightarrow> False | Some (Inl e) \<Rightarrow> True | Some (Inr (a, rest)) \<Rightarrow> length rest < n)"

lemma shrinks_simps [simp]:
  "\<not> shrinks n None" "shrinks n (Some (Inl e))" "shrinks n (Some (Inr (a, rest))) \<longleftrightarrow> length rest < n"
  by (simp_all add: shrinks_def)

lemma shrinks_less: "shrinks m r \<Longrightarrow> m \<le> n \<Longrightarrow> shrinks n r"
  by (auto simp: shrinks_def split: option.splits sum.splits)

lemma shrinksE:
  assumes "shrinks n r"
  obtains e where "r = Some (Inl e)" | a rest where "r = Some (Inr (a, rest))" "length rest < n"
  using assms by (auto simp: shrinks_def split: option.splits sum.splits)

text \<open>Two steps of fuel for every character are enough.\<close>

lemma parse_fuel:
  "2 * length s < k \<Longrightarrow> shrinks (Suc (length s)) (parse_sequence k br literal pieces s)"
  "0 < k \<Longrightarrow> 2 * length s \<le> k \<Longrightarrow> shrinks (length s) (parse_braced k br s)"
  "2 * length s < k \<Longrightarrow> shrinks (Suc (length s)) (parse_branches k name bs s)"
proof (induction k arbitrary: br literal pieces s name bs)
  case (Suc k)
  {
    case 1
    show ?case
    proof (cases "next_step br s")
      case (SeqEnd r)
      then show ?thesis using next_step_length(1) [of br s] by (cases r) auto
    next
      case (SeqLiteral c r)
      then have "2 * length r < k" "Suc (length r) \<le> Suc (length s)" using next_step_length(2) [OF SeqLiteral] 1 by linarith+
      from shrinks_less [OF Suc.IH(1) [OF this(1)] this(2)] show ?thesis by (simp add: SeqLiteral)
    next
      case (SeqHash r)
      then have "2 * length r < k" "Suc (length r) \<le> Suc (length s)" using next_step_length(3) [OF SeqHash] 1 by linarith+
      from shrinks_less [OF Suc.IH(1) [OF this(1)] this(2)] show ?thesis by (simp add: SeqHash)
    next
      case SeqBrace
      then have s: "0 < length s" using next_step_length(4) by simp
      have "shrinks (length s) (parse_braced k br s)"
        using Suc.IH(2) [of s br] 1 s by simp
      then show ?thesis
      proof (cases rule: shrinksE)
        case (2 p r)
        then have "2 * length r < k" "Suc (length r) \<le> Suc (length s)" using 1 s by simp_all
        from shrinks_less [OF Suc.IH(1) [OF this(1)] this(2)] show ?thesis by (simp add: SeqBrace 2)
      qed (simp add: SeqBrace)
    qed
  next
    case 2
    show ?case
    proof (cases "braced_head br s")
      case (Inr x)
      obtain n pl r where x: "x = (n, pl, r)" by (cases x)
      have r: "length r < length s" using braced_head_length Inr x by blast
      then have "2 * length r < k" "Suc (length r) \<le> length s" using 2 by simp_all
      from shrinks_less [OF Suc.IH(3) [OF this(1)] this(2)] show ?thesis using r by (simp add: Inr x)
    qed simp
  next
    case 3
    show ?case
    proof (cases "branch_head bs (skip_ws s)")
      case (Inr x)
      obtain c r where x: "x = (c, r)" by (cases x)
      have r: "length r < length s"
        using branch_head_length [OF Inr [unfolded x]] skip_ws_length [of s] by linarith
      show ?thesis
      proof (cases c)
        case None
        then show ?thesis using r by (simp add: Inr x)
      next
        case (Some cat)
        have "shrinks (Suc (length r)) (parse_sequence k True [] [] r)" by (rule Suc.IH(1)) (use r 3 in simp)
        then show ?thesis
        proof (cases rule: shrinksE)
          case (2 b r')
          show ?thesis
          proof (cases "consume CHR ''}'' r'")
            case (Some r'')
            then have "2 * length r'' < k" "Suc (length r'') \<le> Suc (length s)"
              using consume_length [OF Some] 2(2) r 3 by simp_all
            from shrinks_less [OF Suc.IH(3) [OF this(1)] this(2)] show ?thesis
              by (simp add: Inr x \<open>c = _\<close> 2 Some)
          qed (simp add: Inr x Some 2)
        qed (simp add: Inr x Some)
      qed
    qed simp
  }
qed simp_all

declare parse_sequence.simps [simp del] parse_braced.simps [simp del] parse_branches.simps [simp del]

text \<open>More fuel changes no result.\<close>

lemma parse_more:
  "parse_sequence k br literal pieces s = Some x \<Longrightarrow> parse_sequence (Suc k) br literal pieces s = Some x"
  "parse_braced k br s = Some y \<Longrightarrow> parse_braced (Suc k) br s = Some y"
  "parse_branches k name bs s = Some y \<Longrightarrow> parse_branches (Suc k) name bs s = Some y"
proof (induction k arbitrary: br literal pieces s name bs x y)
  case (Suc k)
  note step = parse_sequence.simps(2) parse_braced.simps(2) parse_branches.simps(2)
  {
    case 1
    note run = 1 [unfolded step]
    show ?case
    proof (cases "next_step br s")
      case (SeqEnd r)
      then show ?thesis using run by (simp add: step)
    next
      case (SeqLiteral c r)
      then have "parse_sequence k br (literal @ [c]) pieces r = Some x" using run by simp
      from Suc.IH(1) [OF this] show ?thesis unfolding step(1) [of "Suc k"] by (simp add: SeqLiteral)
    next
      case (SeqHash r)
      then have "parse_sequence k br [] (flush literal pieces @ [HashPiece]) r = Some x" using run by simp
      from Suc.IH(1) [OF this] show ?thesis unfolding step(1) [of "Suc k"] by (simp add: SeqHash)
    next
      case SeqBrace
      then obtain z where z: "parse_braced k br s = Some z" using run by (cases "parse_braced k br s") auto
      from Suc.IH(2) [OF z] show ?thesis
        using run SeqBrace z Suc.IH(1) unfolding step(1) [of "Suc k"] by (auto split: sum.splits)
    qed
  next
    case 2
    then show ?case
      using Suc.IH(3) unfolding step(2) [of "Suc k"] by (auto simp: step(2) [of k] split: sum.splits if_splits)
  next
    case 3
    note run = 3 [unfolded step]
    show ?case
    proof (cases "branch_head bs (skip_ws s)")
      case (Inl e)
      then show ?thesis using run by (simp add: step)
    next
      case (Inr h)
      show ?thesis
      proof (cases "fst h")
        case None
        then show ?thesis using run Inr by (cases h) (simp add: step)
      next
        case (Some cat)
        obtain z where z: "parse_sequence k True [] [] (snd h) = Some z"
          using run Inr Some by (cases h; cases "parse_sequence k True [] [] (snd h)") auto
        from Suc.IH(1) [OF z] show ?thesis
          using run Inr Some z unfolding step(3) [of "Suc k"]
          by (cases h) (auto intro: Suc.IH(3) split: sum.splits option.splits)
      qed
    qed
  }
qed (simp_all add: parse_sequence.simps parse_braced.simps parse_branches.simps)

lemma parse_enough:
  assumes "k \<le> k'"
  shows "parse_sequence k br literal pieces s = Some x \<Longrightarrow> parse_sequence k' br literal pieces s = Some x"
    "parse_braced k br s = Some y \<Longrightarrow> parse_braced k' br s = Some y"
    "parse_branches k name bs s = Some y \<Longrightarrow> parse_branches k' name bs s = Some y"
  using assms by (induction k' rule: dec_induct) (simp_all add: parse_more)

lemmas parse_steps = parse_sequence.simps(2) parse_braced.simps(2) parse_branches.simps(2)

text \<open>The results with some fuel, and how they come about.\<close>

definition sequence_gives :: "bool \<Rightarrow> string \<Rightarrow> piece list \<Rightarrow> string \<Rightarrow> format_error + piece list \<times> string \<Rightarrow> bool" where
  "sequence_gives br literal pieces s x \<longleftrightarrow> (\<exists>k. parse_sequence k br literal pieces s = Some x)"

definition braced_gives :: "bool \<Rightarrow> string \<Rightarrow> format_error + piece \<times> string \<Rightarrow> bool" where
  "braced_gives br s y \<longleftrightarrow> (\<exists>k. parse_braced k br s = Some y)"

definition branches_give :: "string \<Rightarrow> branches \<Rightarrow> string \<Rightarrow> format_error + piece \<times> string \<Rightarrow> bool" where
  "branches_give name bs s y \<longleftrightarrow> (\<exists>k. parse_branches k name bs s = Some y)"

lemma sequence_end:
  "next_step br s = SeqEnd (Inr r) \<Longrightarrow> sequence_gives br literal pieces s (Inr (flush literal pieces, r))"
  unfolding sequence_gives_def by (rule exI [of _ "Suc 0"]) (simp add: parse_steps)

lemma sequence_literal:
  assumes "next_step br s = SeqLiteral c r" and "sequence_gives br (literal @ [c]) pieces r x"
  shows "sequence_gives br literal pieces s x"
proof -
  obtain k where "parse_sequence k br (literal @ [c]) pieces r = Some x" using assms(2) by (auto simp: sequence_gives_def)
  then have "parse_sequence (Suc k) br literal pieces s = Some x" using assms(1) by (simp add: parse_steps)
  then show ?thesis unfolding sequence_gives_def ..
qed

lemma sequence_hash:
  assumes "next_step br s = SeqHash r" and "sequence_gives br [] (flush literal pieces @ [HashPiece]) r x"
  shows "sequence_gives br literal pieces s x"
proof -
  obtain k where "parse_sequence k br [] (flush literal pieces @ [HashPiece]) r = Some x"
    using assms(2) by (auto simp: sequence_gives_def)
  then have "parse_sequence (Suc k) br literal pieces s = Some x" using assms(1) by (simp add: parse_steps)
  then show ?thesis unfolding sequence_gives_def ..
qed

lemma sequence_brace:
  assumes "next_step br s = SeqBrace" and "braced_gives br s (Inr (p, r))"
    and "sequence_gives br [] (flush literal pieces @ [p]) r x"
  shows "sequence_gives br literal pieces s x"
proof -
  obtain k j where "parse_braced k br s = Some (Inr (p, r))" "parse_sequence j br [] (flush literal pieces @ [p]) r = Some x"
    using assms(2,3) by (auto simp: sequence_gives_def braced_gives_def)
  then have "parse_braced (max k j) br s = Some (Inr (p, r))"
    "parse_sequence (max k j) br [] (flush literal pieces @ [p]) r = Some x"
    using parse_enough(2) [OF max.cobounded1] parse_enough(1) [OF max.cobounded2] by blast+
  then have "parse_sequence (Suc (max k j)) br literal pieces s = Some x" using assms(1) by (simp add: parse_steps)
  then show ?thesis unfolding sequence_gives_def ..
qed

lemma braced_placeholder:
  "braced_head br s = Inr (name, False, r) \<Longrightarrow> braced_gives br s (Inr (PlaceholderPiece name, r))"
  unfolding braced_gives_def by (rule exI [of _ "Suc 0"]) (simp add: parse_steps)

lemma braced_plural:
  assumes "braced_head br s = Inr (name, True, r)" and "branches_give name (None, None, None, None) r y"
  shows "braced_gives br s y"
proof -
  obtain k where "parse_branches k name (None, None, None, None) r = Some y" using assms(2) by (auto simp: branches_give_def)
  then have "parse_braced (Suc k) br s = Some y" using assms(1) by (simp add: parse_steps)
  then show ?thesis unfolding braced_gives_def ..
qed

lemma branches_end:
  assumes "branch_head bs (skip_ws s) = Inr (None, r)" and "get_branch PluralOther bs \<noteq> None"
  shows "branches_give name bs s (Inr (plural_piece name bs, r))"
  unfolding branches_give_def by (rule exI [of _ "Suc 0"]) (use assms in \<open>simp add: parse_steps\<close>)

lemma branches_more:
  assumes "branch_head bs (skip_ws s) = Inr (Some c, r)" and "sequence_gives True [] [] r (Inr (b, CHR ''}'' # r'))"
    and "branches_give name (set_branch c b bs) r' y"
  shows "branches_give name bs s y"
proof -
  obtain k j where "parse_sequence k True [] [] r = Some (Inr (b, CHR ''}'' # r'))"
    "parse_branches j name (set_branch c b bs) r' = Some y"
    using assms(2,3) by (auto simp: sequence_gives_def branches_give_def)
  then have "parse_sequence (max k j) True [] [] r = Some (Inr (b, CHR ''}'' # r'))"
    "parse_branches (max k j) name (set_branch c b bs) r' = Some y"
    using parse_enough(1) [OF max.cobounded1] parse_enough(3) [OF max.cobounded2] by blast+
  then have "parse_branches (Suc (max k j)) name bs s = Some y" using assms(1) by (simp add: parse_steps consume_def)
  then show ?thesis unfolding branches_give_def ..
qed

lemma pattern_gives: "sequence_gives False [] [] t (Inr (ps, [])) \<longleftrightarrow> parse_pattern t = Some (Inr ps)"
proof
  have fuel: "parse_sequence (2 * length t + 1) False [] [] t \<noteq> None"
    using parse_fuel(1) [of t "2 * length t + 1" False "[]" "[]"] by (auto elim: shrinksE)
  assume "sequence_gives False [] [] t (Inr (ps, []))"
  then obtain k where k: "parse_sequence k False [] [] t = Some (Inr (ps, []))" by (auto simp: sequence_gives_def)
  have "parse_sequence (2 * length t + 1) False [] [] t = Some (Inr (ps, []))"
  proof (cases "k \<le> 2 * length t + 1")
    case True
    then show ?thesis using parse_enough(1) k by blast
  next
    case False
    then show ?thesis using parse_enough(1) [of "2 * length t + 1" k] k fuel by fastforce
  qed
  then show "parse_pattern t = Some (Inr ps)" by (simp add: parse_pattern_def)
next
  assume "parse_pattern t = Some (Inr ps)"
  then have "parse_sequence (2 * length t + 1) False [] [] t = Some (Inr (ps, []))"
    by (auto simp: parse_pattern_def split: option.splits sum.splits if_splits)
  then show "sequence_gives False [] [] t (Inr (ps, []))" unfolding sequence_gives_def ..
qed

end
