(* ===== verification/Message_Claims.thy ===== *)
theory Message_Claims
  imports Message_Format
begin

section \<open>What patterns mean\<close>

text \<open>
  Which pieces a pattern can be parsed into, the canonical text of such pieces, and that the parser reads it back.
\<close>

definition is_name :: "string \<Rightarrow> bool" where
  "is_name n \<longleftrightarrow> n \<noteq> [] \<and> is_name_start (hd n) \<and> list_all is_name_cont (tl n)"

fun is_literal :: "piece \<Rightarrow> bool" where
  "is_literal (LiteralPiece t) = True"
| "is_literal _ = False"

definition literal_ok :: "bool \<Rightarrow> string \<Rightarrow> bool" where
  "literal_ok br t \<longleftrightarrow> (br \<longrightarrow> CHR ''}'' \<notin> set t \<and> CHR ''#'' \<notin> set t)"

fun piece_ok :: "bool \<Rightarrow> piece \<Rightarrow> bool"
  and pieces_ok :: "bool \<Rightarrow> piece list \<Rightarrow> bool"
  and branch_ok :: "piece list option \<Rightarrow> bool" where
  "piece_ok br (LiteralPiece t) \<longleftrightarrow> t \<noteq> [] \<and> literal_ok br t"
| "piece_ok br (PlaceholderPiece n) \<longleftrightarrow> is_name n"
| "piece_ok br HashPiece \<longleftrightarrow> br"
| "piece_ok br (PluralPiece n o1 f m t) \<longleftrightarrow> \<not> br \<and> is_name n \<and> t \<noteq> None
     \<and> branch_ok o1 \<and> branch_ok f \<and> branch_ok m \<and> branch_ok t"
| "pieces_ok br [] \<longleftrightarrow> True"
| "pieces_ok br (p # ps) \<longleftrightarrow> piece_ok br p \<and> pieces_ok br ps \<and> \<not> (is_literal p \<and> ps \<noteq> [] \<and> is_literal (hd ps))"
| "branch_ok None \<longleftrightarrow> True"
| "branch_ok (Some ps) \<longleftrightarrow> pieces_ok True ps"

definition brace_text :: "char \<Rightarrow> string" where
  "brace_text c = (if c = CHR ''{'' then ''{{'' else if c = CHR ''}'' then ''}}'' else [c])"

definition escaped_text :: "string \<Rightarrow> string" where
  "escaped_text t = concat (map brace_text t)"

fun show_piece :: "piece \<Rightarrow> string"
  and show_pieces :: "piece list \<Rightarrow> string"
  and show_branch :: "string \<Rightarrow> piece list option \<Rightarrow> string" where
  "show_piece (LiteralPiece t) = escaped_text t"
| "show_piece (PlaceholderPiece n) = CHR ''{'' # n @ ''}''"
| "show_piece HashPiece = ''#''"
| "show_piece (PluralPiece n o1 f m t) = CHR ''{'' # n @ '', plural,'' @ show_branch ''one'' o1 @ show_branch ''few'' f
     @ show_branch ''many'' m @ show_branch ''other'' t @ ''}''"
| "show_pieces [] = []"
| "show_pieces (p # ps) = show_piece p @ show_pieces ps"
| "show_branch c None = []"
| "show_branch c (Some ps) = CHR '' '' # c @ '' {'' @ show_pieces ps @ ''}''"

subsection \<open>The text of pieces is read back\<close>

lemma name_char: "is_name_start c \<Longrightarrow> \<not> is_blank c \<and> c \<noteq> CHR ''{'' \<and> c \<noteq> CHR ''}''"
  by (auto simp: is_name_start_def is_blank_def)

lemma read_name_name:
  assumes "is_name n" and "\<not> is_name_cont c"
  shows "read_name (n @ c # r) = Inr (n, c # r)"
  using assms by (cases n) (auto simp: is_name_def read_name_def list_all_iff)

lemma skip_ws_name: "is_name n \<Longrightarrow> skip_ws (n @ r) = n @ r"
  using name_char [of "hd n"] by (cases n) (auto simp: is_name_def skip_ws_def)

lemma marks: "\<not> is_name_cont CHR ''}''" "\<not> is_name_cont CHR '',''" "\<not> is_blank CHR ''}''" "\<not> is_blank CHR '',''"
  "\<not> is_blank CHR ''{''" "is_blank CHR '' ''" "\<not> is_name_cont CHR '' ''"
  by (simp_all add: is_name_cont_def is_name_start_def is_digit_def is_blank_def)

lemma head_placeholder:
  assumes "is_name n" shows "braced_head br (CHR ''{'' # n @ CHR ''}'' # r) = Inr (n, False, r)"
  using read_name_name [OF assms marks(1), of r] skip_ws_name [OF assms]
  by (simp add: braced_head_def consume_def) (simp add: skip_ws_def marks)

lemma head_plural:
  assumes "is_name n" shows "braced_head False (CHR ''{'' # n @ '', plural,'' @ r) = Inr (n, True, r)"
proof -
  have plural: "is_name ''plural''" by (simp add: is_name_def is_name_start_def is_name_cont_def)
  have keyword: "read_name (''plural'' @ CHR '','' # r) = Inr (''plural'', CHR '','' # r)"
    by (rule read_name_name [OF plural marks(2)])
  have skip: "skip_ws ('' plural,'' @ r) = ''plural'' @ CHR '','' # r" "skip_ws (CHR '','' # s) = CHR '','' # s" for s
    using skip_ws_name [OF plural, of "CHR '','' # r"] by (simp_all add: skip_ws_def marks)
  show ?thesis
    using read_name_name [OF assms marks(2), of "'' plural,'' @ r"] skip_ws_name [OF assms] skip keyword
    by (simp add: braced_head_def consume_def)
qed

lemma next_step_brace:
  assumes "is_name n" shows "next_step br (CHR ''{'' # n @ r) = SeqBrace"
  using assms name_char [of "hd n"] by (cases n) (auto simp: next_step_def is_name_def)

lemma sequence_text:
  assumes "literal_ok br t" and "sequence_gives br (literal @ t) pieces r x"
  shows "sequence_gives br literal pieces (escaped_text t @ r) x"
  using assms
proof (induction t arbitrary: literal)
  case (Cons c t)
  have rest: "sequence_gives br (literal @ [c]) pieces (escaped_text t @ r) x"
    by (rule Cons.IH) (use Cons.prems in \<open>auto simp: literal_ok_def\<close>)
  have "next_step br (escaped_text (c # t) @ r) = SeqLiteral c (escaped_text t @ r)"
    using Cons.prems(1) by (auto simp: next_step_def escaped_text_def brace_text_def literal_ok_def)
  from sequence_literal [OF this rest] show ?case .
qed (simp add: escaped_text_def)

definition sequence_stops :: "bool \<Rightarrow> string \<Rightarrow> bool" where
  "sequence_stops br r \<longleftrightarrow> (if br then r \<noteq> [] \<and> hd r = CHR ''}'' else r = [])"

lemma sequence_pieces:
  assumes "pieces_ok br ps" and "literal \<noteq> [] \<Longrightarrow> ps = [] \<or> \<not> is_literal (hd ps)" and "sequence_stops br r"
    and "\<And>p r. p \<in> set ps \<Longrightarrow> \<not> is_literal p \<Longrightarrow> p \<noteq> HashPiece
      \<Longrightarrow> next_step br (show_piece p @ r) = SeqBrace \<and> braced_gives br (show_piece p @ r) (Inr (p, r))"
  shows "sequence_gives br literal pieces (show_pieces ps @ r) (Inr (flush literal pieces @ ps, r))"
  using assms
proof (induction ps arbitrary: literal pieces)
  case Nil
  have "next_step br r = SeqEnd (Inr r)"
    using Nil.prems(3) by (cases r; cases br) (auto simp: sequence_stops_def next_step_def)
  from sequence_end [OF this] show ?case by simp
next
  case (Cons p ps)
  note IH = Cons.IH [OF _ _ Cons.prems(3) Cons.prems(4)]
  have ok: "pieces_ok br ps" using Cons.prems(1) by simp
  show ?case
  proof (cases "is_literal p")
    case True
    then obtain t where p: "p = LiteralPiece t" by (cases p) auto
    have "literal = []" using Cons.prems(2) True by auto
    moreover have "t \<noteq> []" "literal_ok br t" using Cons.prems(1) p by simp_all
    moreover have "sequence_gives br t pieces (show_pieces ps @ r) (Inr (flush t pieces @ ps, r))"
      by (rule IH [OF ok]) (use Cons.prems(1) p in auto)
    ultimately show ?thesis using sequence_text [of br t "[]"] by (simp add: p flush_def)
  next
    case False
    have more: "sequence_gives br [] (flush literal pieces @ [p]) (show_pieces ps @ r)
        (Inr (flush [] (flush literal pieces @ [p]) @ ps, r))"
      by (rule IH [OF ok]) auto
    show ?thesis
    proof (cases "p = HashPiece")
      case True
      have "next_step br (show_pieces (p # ps) @ r) = SeqHash (show_pieces ps @ r)"
        using Cons.prems(1) True by (simp add: next_step_def)
      from sequence_hash [OF this] more True show ?thesis by (simp add: flush_def)
    next
      case False
      then have "next_step br (show_piece p @ (show_pieces ps @ r)) = SeqBrace"
        "braced_gives br (show_piece p @ (show_pieces ps @ r)) (Inr (p, show_pieces ps @ r))"
        using Cons.prems(4) \<open>\<not> is_literal p\<close> by simp_all
      from sequence_brace [OF this more] show ?thesis by (simp add: flush_def)
    qed
  qed
qed

primrec category_name :: "plural_category \<Rightarrow> string" where
  "category_name PluralOne = ''one''"
| "category_name PluralFew = ''few''"
| "category_name PluralMany = ''many''"
| "category_name PluralOther = ''other''"

lemma head_branch:
  assumes "get_branch c bs = None"
  shows "branch_head bs (skip_ws (CHR '' '' # category_name c @ '' {'' @ r)) = Inr (Some c, r)"
proof -
  have name: "is_name (category_name c)" by (cases c) (simp_all add: is_name_def is_name_start_def is_name_cont_def)
  have "skip_ws (CHR '' '' # category_name c @ '' {'' @ r) = category_name c @ '' {'' @ r"
    using skip_ws_name [OF name] by (simp add: skip_ws_def marks)
  moreover have "read_name (category_name c @ CHR '' '' # CHR ''{'' # r) = Inr (category_name c, CHR '' '' # CHR ''{'' # r)"
    by (rule read_name_name [OF name marks(7)])
  moreover have "skip_ws (CHR '' '' # CHR ''{'' # r) = CHR ''{'' # r" by (simp add: skip_ws_def marks)
  moreover have "consume CHR ''}'' (category_name c @ s) = None" "category_of (category_name c) = Some c" for s
    by (cases c; simp add: consume_def category_of_def)+
  ultimately show ?thesis using assms by (simp add: branch_head_def consume_def [of "CHR ''{''"])
qed

lemma head_close: "branch_head bs (skip_ws (CHR ''}'' # r)) = Inr (None, r)"
  by (simp add: branch_head_def skip_ws_def marks consume_def)

lemma branch_piece:
  assumes "pieces_ok True ps"
  shows "sequence_gives True [] [] (show_pieces ps @ CHR ''}'' # r) (Inr (ps, CHR ''}'' # r))"
proof -
  have "next_step True (show_piece p @ r) = SeqBrace \<and> braced_gives True (show_piece p @ r) (Inr (p, r))"
    if p: "p \<in> set ps" "\<not> is_literal p" "p \<noteq> HashPiece" for p r
  proof -
    have "piece_ok True p" using assms p(1) by (induction ps) auto
    then obtain n where n: "p = PlaceholderPiece n" "is_name n" using p(2,3) by (cases p) auto
    then show ?thesis using next_step_brace [OF n(2), of True] braced_placeholder [OF head_placeholder [OF n(2), of True]] by simp
  qed
  from sequence_pieces [OF assms _ _ this, of "[]" "CHR ''}'' # r" "[]"]
  show ?thesis by (simp add: sequence_stops_def flush_def)
qed

lemma branch_shown:
  assumes "branch_ok b" and "get_branch c bs = None"
    and "branches_give n (case b of None \<Rightarrow> bs | Some ps \<Rightarrow> set_branch c ps bs) r y"
  shows "branches_give n bs (show_branch (category_name c) b @ r) y"
proof (cases b)
  case None
  then show ?thesis using assms(3) by simp
next
  case (Some ps)
  have "branch_head bs (skip_ws (CHR '' '' # category_name c @ '' {'' @ (show_pieces ps @ CHR ''}'' # r)))
      = Inr (Some c, show_pieces ps @ CHR ''}'' # r)" by (rule head_branch [OF assms(2)])
  from branches_more [OF this branch_piece] show ?thesis using assms Some by simp
qed

lemma plural_gives:
  assumes "piece_ok False (PluralPiece n o1 f m t)"
  shows "braced_gives False (show_piece (PluralPiece n o1 f m t) @ r) (Inr (PluralPiece n o1 f m t, r))"
proof -
  have ok: "is_name n" "branch_ok o1" "branch_ok f" "branch_ok m" "branch_ok t" "t \<noteq> None" using assms by auto
  note shown = branch_shown [of _ PluralOne, unfolded category_name.simps] branch_shown [of _ PluralFew, unfolded category_name.simps]
    branch_shown [of _ PluralMany, unfolded category_name.simps] branch_shown [of _ PluralOther, unfolded category_name.simps]
  have "branches_give n (o1, f, m, t) (CHR ''}'' # r) (Inr (PluralPiece n o1 f m t, r))"
    using branches_end [OF head_close, of "(o1, f, m, t)" n r] ok(6) by simp
  then have "branches_give n (o1, f, m, None) (show_branch ''other'' t @ CHR ''}'' # r) (Inr (PluralPiece n o1 f m t, r))"
    using shown(4) [OF ok(5), of "(o1, f, m, None)"] by (cases t) simp_all
  then have "branches_give n (o1, f, None, None) (show_branch ''many'' m @ show_branch ''other'' t @ CHR ''}'' # r)
      (Inr (PluralPiece n o1 f m t, r))"
    using shown(3) [OF ok(4), of "(o1, f, None, None)"] by (cases m) simp_all
  then have "branches_give n (o1, None, None, None) (show_branch ''few'' f @ show_branch ''many'' m @ show_branch ''other'' t
      @ CHR ''}'' # r) (Inr (PluralPiece n o1 f m t, r))"
    using shown(2) [OF ok(3), of "(o1, None, None, None)"] by (cases f) simp_all
  then have "branches_give n (None, None, None, None) (show_branch ''one'' o1 @ show_branch ''few'' f @ show_branch ''many'' m
      @ show_branch ''other'' t @ CHR ''}'' # r) (Inr (PluralPiece n o1 f m t, r))"
    using shown(1) [OF ok(2), of "(None, None, None, None)"] by (cases o1) simp_all
  from braced_plural [OF head_plural [OF ok(1)] this] show ?thesis by simp
qed

lemma parse_show:
  assumes "pieces_ok False ps" shows "parse_pattern (show_pieces ps) = Some (Inr ps)"
proof -
  have "next_step False (show_piece p @ r) = SeqBrace \<and> braced_gives False (show_piece p @ r) (Inr (p, r))"
    if p: "p \<in> set ps" "\<not> is_literal p" "p \<noteq> HashPiece" for p r
  proof -
    have ok: "piece_ok False p" using assms p(1) by (induction ps) auto
    show ?thesis
    proof (cases p)
      case (PlaceholderPiece n)
      then have n: "is_name n" using ok by simp
      show ?thesis
        using PlaceholderPiece next_step_brace [OF n, of False] braced_placeholder [OF head_placeholder [OF n, of False]] by simp
    next
      case (PluralPiece n o1 f m t)
      then have n: "is_name n" using ok by simp
      show ?thesis
        using plural_gives [of n o1 f m t r] ok next_step_brace [OF n, of False] unfolding PluralPiece by simp
    qed (use p in auto)
  qed
  from sequence_pieces [OF assms _ _ this, of "[]" "[]" "[]"]
  have "sequence_gives False [] [] (show_pieces ps) (Inr (ps, []))" by (simp add: sequence_stops_def flush_def)
  then show ?thesis by (simp add: pattern_gives)
qed

subsection \<open>What the parser gives\<close>

lemma pieces_ok_snoc:
  "pieces_ok br (ps @ [p]) \<longleftrightarrow> pieces_ok br ps \<and> piece_ok br p \<and> \<not> (ps \<noteq> [] \<and> is_literal (last ps) \<and> is_literal p)"
  by (induction ps) auto

lemma read_name_is_name: "read_name s = Inr (n, r) \<Longrightarrow> is_name n"
  by (auto simp: read_name_def is_name_def list_all_iff split: list.splits if_splits dest: set_takeWhileD)

lemma braced_head_name: "braced_head br s = Inr (n, plural, r) \<Longrightarrow> is_name n \<and> (plural \<longrightarrow> \<not> br)"
  by (auto simp: braced_head_def dest!: read_name_is_name split: option.splits sum.splits if_splits)

definition so_far_ok :: "bool \<Rightarrow> string \<Rightarrow> piece list \<Rightarrow> bool" where
  "so_far_ok br literal pieces \<longleftrightarrow> pieces_ok br pieces \<and> (pieces = [] \<or> \<not> is_literal (last pieces)) \<and> literal_ok br literal"

lemma flush_ok: "so_far_ok br literal pieces \<Longrightarrow> pieces_ok br (flush literal pieces)"
  by (auto simp: so_far_ok_def flush_def pieces_ok_snoc)

lemma piece_after: "so_far_ok br literal pieces \<Longrightarrow> piece_ok br p \<Longrightarrow> \<not> is_literal p \<Longrightarrow> so_far_ok br [] (flush literal pieces @ [p])"
  using flush_ok [of br literal pieces] by (auto simp: so_far_ok_def pieces_ok_snoc literal_ok_def)

lemma next_step_kinds:
  "next_step br s = SeqLiteral c r \<Longrightarrow> literal_ok br literal \<Longrightarrow> literal_ok br (literal @ [c])"
  "next_step br s = SeqHash r \<Longrightarrow> br"
  by (cases s; auto simp: next_step_def literal_ok_def split: if_splits)+

fun branches_ok :: "branches \<Rightarrow> bool" where
  "branches_ok (o1, f, m, t) \<longleftrightarrow> branch_ok o1 \<and> branch_ok f \<and> branch_ok m \<and> branch_ok t"

lemma set_branch_ok: "branches_ok bs \<Longrightarrow> pieces_ok True b \<Longrightarrow> branches_ok (set_branch c b bs)"
  by (cases "(c, b, bs)" rule: set_branch.cases) auto

lemma plural_piece_ok:
  "is_name n \<Longrightarrow> branches_ok bs \<Longrightarrow> get_branch PluralOther bs \<noteq> None
   \<Longrightarrow> piece_ok False (plural_piece n bs) \<and> \<not> is_literal (plural_piece n bs)"
  by (cases bs) auto

lemma parse_ok:
  "parse_sequence k br literal pieces s = Some (Inr (ps, r)) \<Longrightarrow> so_far_ok br literal pieces \<Longrightarrow> pieces_ok br ps"
  "parse_braced k br s = Some (Inr (p, r)) \<Longrightarrow> piece_ok br p \<and> \<not> is_literal p"
  "parse_branches k n bs s = Some (Inr (p, r)) \<Longrightarrow> is_name n \<Longrightarrow> branches_ok bs \<Longrightarrow> piece_ok False p \<and> \<not> is_literal p"
proof (induction k arbitrary: br literal pieces s ps r p n bs)
  case (Suc k)
  {
    case 1
    note run = 1(1) [unfolded parse_steps]
    show ?case
    proof (cases "next_step br s")
      case (SeqEnd x)
      then show ?thesis using run flush_ok [OF 1(2)] by (cases x) auto
    next
      case (SeqLiteral c rest)
      have "so_far_ok br (literal @ [c]) pieces" using 1(2) next_step_kinds(1) [OF SeqLiteral] by (simp add: so_far_ok_def)
      then show ?thesis using Suc.IH(1) run SeqLiteral by simp
    next
      case (SeqHash rest)
      have "so_far_ok br [] (flush literal pieces @ [HashPiece])"
        by (rule piece_after [OF 1(2)]) (simp_all add: next_step_kinds(2) [OF SeqHash])
      then show ?thesis using Suc.IH(1) run SeqHash by simp
    next
      case SeqBrace
      then obtain q rest where q: "parse_braced k br s = Some (Inr (q, rest))"
        "parse_sequence k br [] (flush literal pieces @ [q]) rest = Some (Inr (ps, r))"
        using run by (auto split: option.splits sum.splits)
      have "so_far_ok br [] (flush literal pieces @ [q])" using piece_after [OF 1(2)] Suc.IH(2) [OF q(1)] by blast
      then show ?thesis using Suc.IH(1) q(2) by blast
    qed
  next
    case 2
    then show ?case
      using Suc.IH(3) [of _ "(None, None, None, None)" _ p r]
      by (auto simp: parse_steps dest!: braced_head_name split: sum.splits if_splits)
  next
    case 3
    note run = 3(1) [unfolded parse_steps]
    obtain c rest where head: "branch_head bs (skip_ws s) = Inr (c, rest)" using run by (auto split: sum.splits)
    show ?case
    proof (cases c)
      case None
      then show ?thesis using run head plural_piece_ok [OF 3(2,3)] by (auto split: if_splits)
    next
      case (Some cat)
      then obtain b r1 r2 where b: "parse_sequence k True [] [] rest = Some (Inr (b, r1))"
        "parse_branches k n (set_branch cat b bs) r2 = Some (Inr (p, r))"
        using run head by (auto split: option.splits sum.splits)
      have "pieces_ok True b" using Suc.IH(1) [OF b(1)] by (simp add: so_far_ok_def literal_ok_def)
      then show ?thesis using Suc.IH(3) [OF b(2) 3(2) set_branch_ok [OF 3(3)]] by blast
    qed
  }
qed (simp_all add: parse_sequence.simps parse_braced.simps parse_branches.simps)

lemma parse_pattern_ok: "parse_pattern t = Some (Inr ps) \<Longrightarrow> pieces_ok False ps"
  using parse_ok(1) by (fastforce simp: parse_pattern_def so_far_ok_def literal_ok_def split: option.splits sum.splits if_splits)

lemma pattern_fuel: "parse_pattern t \<noteq> None"
  using parse_fuel(1) [of t "2 * length t + 1" False "[]" "[]"]
  by (auto simp: parse_pattern_def elim: shrinksE split: option.splits sum.splits)

subsection \<open>The properties\<close>

text \<open>
  C31: the parser returns for every pattern; what it gives are exactly the well-formed pieces, with literals as long as
  they can be, an \<open>other\<close> branch in every plural and no plural inside a branch; and their canonical text is read back as
  the same pieces.
\<close>

theorem pattern_roundtrip:
  "(case parse_pattern t of None \<Rightarrow> False | Some (Inl e) \<Rightarrow> True
      | Some (Inr qs) \<Rightarrow> parse_pattern (show_pieces qs) = Some (Inr qs))
   \<and> (pieces_ok False ps \<longleftrightarrow> (\<exists>u. parse_pattern u = Some (Inr ps)))"
proof
  show "case parse_pattern t of None \<Rightarrow> False | Some (Inl e) \<Rightarrow> True
      | Some (Inr qs) \<Rightarrow> parse_pattern (show_pieces qs) = Some (Inr qs)"
    using pattern_fuel [of t] parse_show parse_pattern_ok [of t] by (auto split: option.splits sum.splits)
  show "pieces_ok False ps \<longleftrightarrow> (\<exists>u. parse_pattern u = Some (Inr ps))" using parse_show parse_pattern_ok by blast
qed

text \<open>A text with its braces doubled is formatted as itself, with any arguments and in any language.\<close>

lemma format_escaped: "format_message (escaped_text t) args loc = Some (Inr t)"
proof (cases "t = []")
  case True
  have "parse_pattern [] = Some (Inr [])" using parse_show [of "[]"] by simp
  then show ?thesis using True by (simp add: format_message_def escaped_text_def)
next
  case False
  then have "parse_pattern (escaped_text t) = Some (Inr [LiteralPiece t])"
    using parse_show [of "[LiteralPiece t]"] by (simp add: literal_ok_def)
  then show ?thesis by (simp add: format_message_def)
qed

lemma format_valid: "validate_pattern p = Some (Inl e) \<longleftrightarrow> format_message p args loc = Some (Inl e)"
  by (auto simp: validate_pattern_def format_message_def split: sum.splits)

end
