(* ===== verification/Spec2Isabelle.thy ===== *)
theory Spec2Isabelle
  imports Loopback Compression Payload_Client Input_Buffer Input_Message Pacing Ghost_Budget Snapshot_Capture Dock_Reconcile Http_Parse Line_Splitter Process_Text Engine_Version World_Claims Net_Entity_Map Ecs_Events Relevance_Grid Dock_Restored Skyline_Claims Random_Numbers Message_Claims
begin

text \<open>
  This development models parts of the wind engine (C++, sources under \<^verbatim>\<open>src/\<close>) and proves what makes them
  correct: its network replication, its entity world, the layout of its dock panels and the parsers and text tools
  around them. Paths below are relative to the repository. Definitions keep the names of the code; a class is a
  \<open>record\<close> and a method a function from the state to the result and the new state, with every branch and early
  return of the code; an error is a value (\<open>None\<close>, \<open>Inl\<close> or \<open>False\<close>); unsigned integers are words and wrap, and signed
  ones that could overflow are checked in every step (\<open>Machine_Int\<close>), None where C++ gives the sum no meaning. Each
  theory opens with what it models and how its types stand for the types of the code.

  \<^bold>\<open>The parts and how they work together.\<close>

  \<^bold>\<open>Bytes and messages.\<close> \<open>Byte_Stream\<close> is \<^verbatim>\<open>ByteWriter\<close> and \<^verbatim>\<open>ByteReader\<close> of
  \<^verbatim>\<open>src/src/net/byte_stream.cpp\<close>; \<open>Wire_Values\<close> their templates over a list of typed values; \<open>Byte_Codec\<close> the
  interface \<open>wire_codec\<close> between encoders and decoders and the laws of every read, proved once for the reads
  of the stream. \<open>Net_Types\<close> has the shared ids and the generator of network ids. \<open>Compression\<close> is
  \<^verbatim>\<open>src/src/core/compression.cpp\<close>, with LZ4 (a vendored library outside the sources) as two functions and what
  its documentation promises, \<open>lz4_ok\<close>.

  \<^bold>\<open>Transport.\<close> \<open>Loopback\<close> is the in-process transport and its bus (\<^verbatim>\<open>loopback_bus.cpp\<close>,
  \<^verbatim>\<open>loopback_transport.cpp\<close>): any number of transports in one state, a method as one step (the code holds a mutex),
  and reachability as an inductive relation. Messages come in order, and a reply goes back to the sender.

  \<^bold>\<open>The reliable payload stream.\<close> \<open>Payload_Queue\<close> cuts payloads into messages within a budget,
  \<open>Payload_Assembler\<close> puts them together within limits, and \<open>Payload_Stream\<close> is the simulation between what was
  sent and what the assembler holds. \<open>Payload_Client\<close> is the receive loop of \<^verbatim>\<open>net_client.cpp\<close> around it: the
  welcome, the guard before it, the refusal of a bad payload and the disconnect after which nothing more is processed.
  Payloads arrive whole, in order and unchanged, up to the first that does not decompress.

  \<^bold>\<open>Inputs and pacing.\<close> \<open>Input_Message\<close> is the exact wire format of the inputs of a client, \<open>Input_Buffer\<close> the
  buffer of the server, a refinement of a specification that forgets nothing up to what it says of copies 64 ticks old
  (\<open>code_answer\<close>), and \<open>Pacing\<close> the clocks of the
  client (\<^verbatim>\<open>input_lead.cpp\<close>, \<^verbatim>\<open>snapshot_clock.cpp\<close>).

  \<^bold>\<open>Snapshots.\<close> \<open>Slot_Bits\<close> and \<open>Snapshot_State\<close> hold component masks and states; \<open>Snapshot_Codec\<close> the message,
  \<open>Snapshot_Apply\<close> what a message does to a state, refined to maps; \<open>Snapshot_Buffer\<close> the states of a client by
  tick; \<open>Snapshot_Capture\<close> the capture on the server, with an allocator that may give an address again. The server's table of a peer is \<open>Peer_Ghosts\<close>
  (\<^verbatim>\<open>peer_ghosts.cpp\<close>); \<open>Ghost_Table\<close>, \<open>Ghost_Build\<close>, \<open>Ghost_Acks\<close> and \<open>Ghost_Claims\<close> describe
  what it does entity by entity; \<open>Ghost_Sync\<close> puts the table, the messages (lost, late, repeated) and the buffer of the
  client together; \<open>Ghost_Budget\<close> bounds a message and shows that acknowledgements make progress.
  \<open>Relevance_Grid\<close> is the grid by which the server picks what is near a peer, in checked 32-bit and 64-bit integers:
  while its cells stay in range it marks exactly the entities near the centers.

  \<^bold>\<open>Entities.\<close> \<open>Entity_Pool\<close> has handles and the sparse sets of components of one type, with the interface
  \<open>component_store\<close>; \<open>Ecs_World\<close> the world of \<^verbatim>\<open>src/src/ecs/world.cpp\<close>: creating, destroying with descendants,
  deferral while a view is open; \<open>Hierarchy\<close> is \<^verbatim>\<open>src/src/ecs/hierarchy.cpp\<close>. \<open>Forest\<close> states what the two maps of
  the hierarchy keep, free of pools and slots; \<open>World_Inv\<close> is the invariant of a world, \<open>World_Destroy\<close>,
  \<open>Hierarchy_Inv\<close> and \<open>Hierarchy_Ops\<close> show that the operations keep it, \<open>World_Propagate\<close> computes the
  world matrices against the reference \<open>path_matrix\<close>, and \<open>World_Runs\<close> and \<open>World_Claims\<close> lift all of it to
  runs of operations as an inductive step relation. \<open>Net_Entity_Map\<close> binds network ids to entities on top of
  these runs, through the component or in the map directly as the client does. \<open>Ecs_Events\<close> are the event queues and their readers.

  \<^bold>\<open>Dock layout.\<close> \<open>Dock_Layout\<close> is \<^verbatim>\<open>src/src/ui/dock_layout.cpp\<close>, nodes in a map that point to each other by id.
  \<open>Dock_Tree\<close> relates the nodes to trees (\<open>shape\<close>), \<open>Dock_Spec\<close> states the ten operations on trees, and
  \<open>Dock_Steps\<close>, \<open>Dock_Take\<close>, \<open>Dock_Floats\<close> and \<open>Dock_Refine\<close> show operation by operation that the code
  implements them. \<open>Dock_Valid\<close> shows that the check \<^verbatim>\<open>valid()\<close> accepts exactly forests of well-formed trees,
  \<open>Dock_Claims\<close> states the properties of sequences of operations, and \<open>Dock_Reconcile\<close> is
  \<^verbatim>\<open>dock_reconcile.cpp\<close> on top of them. \<open>Dock_Text\<close> is \<^verbatim>\<open>dock_text.cpp\<close> (with \<^verbatim>\<open>parse_float.h\<close>), the TOML text
  a layout is saved as;
  \<open>Toml_Text\<close> says what the part of TOML it writes means, \<open>Toml_Lines\<close> that written documents are read
  back, \<open>Dock_Saved\<close> that the text of a layout is one of them, and \<open>Dock_Restored\<close> that the layout comes back.

  \<^bold>\<open>Packer and random numbers.\<close> \<open>Skyline\<close> is the rectangle packer of the atlases
  (\<^verbatim>\<open>src/src/ui/render/skyline_packer.cpp\<close>) in checked 32-bit integers, \<open>Skyline_Exact\<close> the same over the integers:
  its rectangles never overlap, against the skyline as a function of the column. \<open>Skyline_Claims\<close> shows where the two
  agree and what overflows. \<open>Random_Numbers\<close> is \<^verbatim>\<open>src/src/core/random.cpp\<close>: the generator has its full period of \<open>2^64\<close>, from which it
  follows that the rejection loop of \<^verbatim>\<open>uniform\<close> ends and that its numbers are equally likely.

  \<^bold>\<open>Texts.\<close> \<open>Ascii_Text\<close> has what the parsers use of the standard library; \<open>Http_Parse\<close> is
  \<^verbatim>\<open>src/src/net/http_parse.cpp\<close>, \<open>Line_Splitter\<close> and \<open>Process_Text\<close> the texts of \<^verbatim>\<open>src/src/process\<close>,
  \<open>Engine_Version\<close> is \<^verbatim>\<open>src/src/project/engine_version.cpp\<close>. The parsers are proved against grammars.
  \<open>Message_Format\<close> is \<^verbatim>\<open>src/src/loc/format.cpp\<close> and \<^verbatim>\<open>plural.cpp\<close>, the patterns of localized messages, with fuel for the
  recursive descent of which two steps for every character are enough; \<open>Message_Claims\<close> has their round trip.

  \<^bold>\<open>Shared.\<close> \<open>Wind_Prelude\<close> has the machine types, little-endian numbers, list and word lemmas and the collection
  \<open>wire\<close>; \<open>Ord_Map\<close> is \<^verbatim>\<open>std::map\<close> as a sorted association list with its interface \<open>ordered_map\<close>; \<open>Float_Arith\<close>
  is floating-point arithmetic as an argument.

  \<^bold>\<open>Arguments of the model.\<close> Floating-point operations (\<open>float_arith\<close>), LZ4, GLM's matrices and quaternions (\<open>glm\<close>),
  a TOML reader (\<open>parse\<close>) and the number conversions of the C++ library
  (\<open>number_syntax\<close>), the iteration order of unordered containers, the result of \<^verbatim>\<open>std::sort\<close> on equal elements, the addresses an allocator
  gives and the transport under the payload queue are arguments of the definitions that use them. Where a theorem needs something of them it is a named
  hypothesis (\<open>lz4_ok\<close>, \<open>dock_floats\<close>, \<open>sorts_items\<close>, \<open>toml_reads\<close>, \<open>number_laws\<close>, \<open>allocates\<close>), and the clocks of \<open>Pacing\<close> are proved for exact
  arithmetic only. The numbers of a dock layout may be infinite or NaN (\<open>Toml_Text\<close> reads \<^verbatim>\<open>inf\<close> and \<^verbatim>\<open>nan\<close>).
  \<^verbatim>\<open>std::size_t\<close> is \<open>nat\<close> where it counts what is in memory; the sum a reader compares with its buffer wraps at the width
  of \<^verbatim>\<open>std::size_t\<close> (\<open>size_sum\<close>), which is 64 except in \<open>string_check_width\<close>.

  \<^bold>\<open>Bounds and loops.\<close> Loops over data are structural or have a measure: the walks up a hierarchy stop after 32 steps
  as in the code, \<open>height_of\<close> goes down in a multiset of levels. Loops that may not end on broken data
  (\<open>doomed_loop\<close>, \<open>propagate\<close>, the walks over dock nodes, the pump of the payload queue) are partial functions,
  None where they do not return, and the theorems show that they return on every well-formed state. Claims on handles,
  network ids and dock ids hold while the 32-bit counters do not wrap: fewer than 2^32 - 1 creations, ids left for the
  operations; the theorems say so (the refinement of the dock layout states what the counter at its end means:
  \<open>dock_refines\<close>). Ticks are words of 32 bits, compared as the code does.

  \<^bold>\<open>What the proofs showed about the code.\<close> \<open>next_zero_breaks\<close>: a dock layout without nodes and with id counter 0 is
  valid, and a panel added then breaks it. \<open>dock_text_roundtrip\<close>: a saved layout comes back if its keys are UTF-8, and
  a NaN comes back as a NaN. \<open>old_copy_late\<close>: the server calls a copy of an input that ran 64 ticks ago late, where its
  comment says duplicate. \<open>tall_overflows\<close>: the packer overflows for a height near the largest \<^verbatim>\<open>int\<close>. \<open>string_check_width\<close>: the bounds check of \<^verbatim>\<open>read_string\<close> wraps where
  \<^verbatim>\<open>std::size_t\<close> has 32 bits. \<open>build_budget\<close>: a snapshot message can exceed the byte budget by one removal, which the
  comment of the header excludes. \<open>packer_add_best\<close>: the packer refuses a rectangle that fills it to the end, which its
  comment says fits.

  \<^bold>\<open>Not modelled.\<close> The loops of the server and the client that call the parts above (\<^verbatim>\<open>net_server.cpp\<close>, and of
  \<^verbatim>\<open>net_client.cpp\<close> the snapshots, the interpolation and the prediction) and the schedules of a world, which run arbitrary C++ closures; the transports and HTTP clients of
  the platforms, processes, files, audio, capture, haptics, input devices and windows, which are calls of the operating
  system and of libraries; rendering, painting, styles, text layout and physics, which are floating-point computation
  whose results nothing specifies exactly; the serializers of worlds and prototypes over a TOML library; the editor, the tools and
  the tests; vendored and generated code (stb, Slang). In the modelled parts: log messages, allocation, the mutexes
  (a method is one step), and the multi-pool iteration of \<^verbatim>\<open>View\<close>, of which the hierarchy uses single pools.
\<close>

end
